(* ===== verification/Prelude.thy ===== *)
theory Prelude
  imports Main "HOL-Library.Word"
begin

unbundle bit_operations_syntax

section \<open>Prelude: machine types, byte buffers and shared lemmas\<close>

text \<open>
  What every component of the development shares: names for the machine integers of the
  R5 firmware (an ILP32 target, so \<open>size_t\<close>, \<open>unsigned long\<close> and \<open>uintptr_t\<close> are 32 bits
  wide), the theorem collections the component proofs extend, and the generic facts about
  writing into a fixed buffer, cutting a message into blocks, and reading a byte list as a
  big-endian number.
\<close>

type_synonym u8 = "8 word"
type_synonym u16 = "16 word"
type_synonym u32 = "32 word"
type_synonym u64 = "64 word"

named_theorems buffer_simps "reads and writes of fixed byte buffers"
named_theorems bus_simps "register reads after register writes"
named_theorems cstring_simps "C string scanning"


subsection \<open>Writing into a fixed buffer\<close>

text \<open>\<open>memcpy(&buf[off], src, n)\<close> with \<open>n\<close> the length of \<open>src\<close>.\<close>

definition memcpy_at :: "nat \<Rightarrow> 'a list \<Rightarrow> 'a list \<Rightarrow> 'a list" where
  "memcpy_at off src buf = take off buf @ src @ drop (off + length src) buf"

lemma length_memcpy_at [buffer_simps]:
  "off + length src \<le> length buf \<Longrightarrow> length (memcpy_at off src buf) = length buf"
  by (simp add: memcpy_at_def)

lemma take_memcpy_at [buffer_simps]:
  "off \<le> length buf \<Longrightarrow>
   take (off + length src) (memcpy_at off src buf) = take off buf @ src"
  by (simp add: memcpy_at_def)

lemma memcpy_at_full [buffer_simps]:
  "off + length src = length buf \<Longrightarrow> memcpy_at off src buf = take off buf @ src"
  by (simp add: memcpy_at_def)

lemma memcpy_at_Nil [buffer_simps]: "off \<le> length buf \<Longrightarrow> memcpy_at off [] buf = buf"
  by (simp add: memcpy_at_def)

lemma list_update_memcpy_at:
  "off < length buf \<Longrightarrow> buf[off := x] = memcpy_at off [x] buf"
  by (simp add: memcpy_at_def upd_conv_take_nth_drop)

lemma memcpy_at_append [buffer_simps]:
  "off \<le> length buf \<Longrightarrow>
   memcpy_at (off + length xs) ys (memcpy_at off xs buf) = memcpy_at off (xs @ ys) buf"
  by (simp add: memcpy_at_def ac_simps)


subsection \<open>Cutting a list into full blocks\<close>

fun blocks :: "nat \<Rightarrow> 'a list \<Rightarrow> 'a list list" where
  "blocks n xs = (if n = 0 \<or> length xs < n then [] else take n xs # blocks n (drop n xs))"

declare blocks.simps [simp del]

lemma blocks_short: "length xs < n \<Longrightarrow> blocks n xs = []"
  by (subst blocks.simps) simp

lemma blocks_step: "length xs = n \<Longrightarrow> 0 < n \<Longrightarrow> blocks n (xs @ ys) = xs # blocks n ys"
  by (subst blocks.simps) simp

lemma blocks_append:
  "n dvd length xs \<Longrightarrow> 0 < n \<Longrightarrow> blocks n (xs @ ys) = blocks n xs @ blocks n ys"
proof (induction n xs rule: blocks.induct)
  case (1 n xs)
  show ?case
  proof (cases "length xs < n")
    case True
    with "1.prems" have "xs = []" by (auto dest: dvd_imp_le)
    then show ?thesis using "1.prems" by (simp add: blocks_short)
  next
    case False
    with "1.prems" have "n dvd length (drop n xs)" by (simp add: dvd_diff_nat)
    with "1.IH" "1.prems" False
    have "blocks n (drop n xs @ ys) = blocks n (drop n xs) @ blocks n ys" by simp
    with False "1.prems" show ?thesis
      by (simp add: blocks.simps[of n xs] blocks.simps[of n "xs @ ys"])
  qed
qed

lemma blocks_all_length: "b \<in> set (blocks n xs) \<Longrightarrow> length b = n"
proof (induction n xs rule: blocks.induct)
  case (1 n xs)
  then show ?case by (auto simp: blocks.simps[of n xs] split: if_splits)
qed

lemma blocks_drop_tail: "0 < n \<Longrightarrow> blocks n xs = blocks n (take (n * (length xs div n)) xs)"
proof -
  assume n: "0 < n"
  let ?k = "n * (length xs div n)"
  have le: "?k \<le> length xs" by simp
  have "blocks n xs = blocks n (take ?k xs @ drop ?k xs)" by simp
  also have "\<dots> = blocks n (take ?k xs) @ blocks n (drop ?k xs)"
    using n le by (intro blocks_append) simp_all
  also have "blocks n (drop ?k xs) = []"
    using n by (intro blocks_short) (simp add: minus_mult_div_eq_mod)
  finally show ?thesis by simp
qed

lemma blocks_nth:
  "0 < n \<Longrightarrow> n * i + n \<le> length xs \<Longrightarrow> blocks n xs ! i = take n (drop (n * i) xs)"
proof (induction i arbitrary: xs)
  case 0
  then show ?case by (simp add: blocks.simps[of n xs])
next
  case (Suc i)
  then have "blocks n (drop n xs) ! i = take n (drop (n * i) (drop n xs))"
    by (intro Suc.IH) (auto simp: algebra_simps)
  with Suc.prems show ?case by (simp add: blocks.simps[of n xs] add.commute)
qed

lemma length_blocks: "0 < n \<Longrightarrow> length (blocks n xs) = length xs div n"
proof (induction n xs rule: blocks.induct)
  case (1 n xs)
  then show ?case
    by (cases "length xs < n") (auto simp: blocks.simps[of n xs] le_div_geq)
qed


subsection \<open>Big-endian numbers\<close>

text \<open>The number a byte list denotes when its first byte is the most significant.\<close>

definition be_value :: "u8 list \<Rightarrow> nat" where
  "be_value bs = foldl (\<lambda>a b. a * 256 + unat b) 0 bs"

lemma be_value_foldl: "foldl (\<lambda>a b. a * 256 + unat b) a bs = a * 256 ^ length bs + be_value bs"
proof (induction bs rule: rev_induct)
  case Nil
  then show ?case by (simp add: be_value_def)
next
  case (snoc x xs)
  then show ?case by (simp add: be_value_def algebra_simps)
qed

lemma be_value_Nil [simp]: "be_value [] = 0"
  by (simp add: be_value_def)

lemma be_value_snoc: "be_value (bs @ [b]) = be_value bs * 256 + unat b"
  by (simp add: be_value_def)

lemma be_value_append: "be_value (xs @ ys) = be_value xs * 256 ^ length ys + be_value ys"
proof -
  have "be_value (xs @ ys) = foldl (\<lambda>a b. a * 256 + unat b) (be_value xs) ys"
    by (simp add: be_value_def)
  then show ?thesis by (simp only: be_value_foldl)
qed

lemma be_value_Cons: "be_value (b # bs) = unat b * 256 ^ length bs + be_value bs"
  using be_value_append[of "[b]" bs] by (simp add: be_value_def)

lemma be_value_bound: "be_value bs < 256 ^ length bs"
proof (induction bs rule: rev_induct)
  case Nil
  then show ?case by simp
next
  case (snoc x xs)
  have "unat x < 256" using unsigned_less[of x, where ?'a = nat] by simp
  with snoc show ?case by (simp add: be_value_snoc)
qed


lemma fold_concat_map: "fold g (concat (map f xs)) s = fold (\<lambda>x. fold g (f x)) xs s"
  by (induction xs arbitrary: s) simp_all


text \<open>Rounding down to a power of two by a mask.\<close>

lemma unat_small: "n < 2 ^ 32 \<Longrightarrow> unat (of_nat n :: u32) = n"
  by (simp add: unat_of_nat take_bit_nat_eq_self)

lemma unat_and_not_mask:
  assumes "k < 32"
  shows "unat ((x :: u32) AND NOT (mask k)) = unat x div 2 ^ k * 2 ^ k"
proof -
  have e: "x AND NOT (mask k) = push_bit k (drop_bit k x)" by (rule bit_word_eqI) (auto simp: bit_simps)
  have "unat x < 2 ^ 32" using unsigned_less[of x, where 'a = nat] by simp
  then have "unat x div 2 ^ k * 2 ^ k < 2 ^ 32" by (rule le_less_trans[OF div_times_less_eq_dividend])
  moreover have p: "unat (2 ^ k :: u32) = 2 ^ k"
  proof -
    have "(2::nat) ^ k < 2 ^ 32" using assms by (intro power_strict_increasing) simp_all
    then have "unat (of_nat (2 ^ k) :: u32) = 2 ^ k" unfolding unat_of_nat by simp
    then show ?thesis by simp
  qed
  moreover have d: "unat (x div 2 ^ k) = unat x div 2 ^ k" by (simp add: unat_div p)
  ultimately have "unat (x div 2 ^ k * 2 ^ k) = unat (x div 2 ^ k) * unat (2 ^ k :: u32)"
    by (intro unat_mult_lem[THEN iffD1]) simp
  then show ?thesis by (simp add: e push_bit_eq_mult drop_bit_eq_div d p)
qed

end
