(* ===== verification/Sha256.thy ===== *)
theory Sha256
  imports Prelude
begin

unbundle bit_operations_syntax

section \<open>The software SHA-256 of the control processor\<close>

text \<open>
  The model of \<^verbatim>\<open>src/sha256_sw.c\<close>: byte and word access, the compression function with its
  message schedule array, the streaming context (chaining value, bit counter, 64-byte buffer
  and fill level) and the two helpers that split an 80-byte block header into a midstate and
  tail words. It is followed by a reference definition in the shape of the SHA-256 standard
  (recursive message schedule, library rotation, one padded message) and the proof that the
  streaming code computes it.

  A context whose fill level has reached 64 makes the C loop copy zero bytes for ever, or
  write past the buffer; the model returns \<^const>\<open>None\<close> there, and no context the code builds
  ever gets into that state (\<open>sha_rep\<close>).
\<close>

subsection \<open>Round constants and word access\<close>

definition k_sha256 :: "u32 list" where
  "k_sha256 =
     [0x428a2f98, 0x71374491, 0xb5c0fbcf, 0xe9b5dba5] @
     [0x3956c25b, 0x59f111f1, 0x923f82a4, 0xab1c5ed5] @
     [0xd807aa98, 0x12835b01, 0x243185be, 0x550c7dc3] @
     [0x72be5d74, 0x80deb1fe, 0x9bdc06a7, 0xc19bf174] @
     [0xe49b69c1, 0xefbe4786, 0x0fc19dc6, 0x240ca1cc] @
     [0x2de92c6f, 0x4a7484aa, 0x5cb0a9dc, 0x76f988da] @
     [0x983e5152, 0xa831c66d, 0xb00327c8, 0xbf597fc7] @
     [0xc6e00bf3, 0xd5a79147, 0x06ca6351, 0x14292967] @
     [0x27b70a85, 0x2e1b2138, 0x4d2c6dfc, 0x53380d13] @
     [0x650a7354, 0x766a0abb, 0x81c2c92e, 0x92722c85] @
     [0xa2bfe8a1, 0xa81a664b, 0xc24b8b70, 0xc76c51a3] @
     [0xd192e819, 0xd6990624, 0xf40e3585, 0x106aa070] @
     [0x19a4c116, 0x1e376c08, 0x2748774c, 0x34b0bcb5] @
     [0x391c0cb3, 0x4ed8aa4a, 0x5b9cca4f, 0x682e6ff3] @
     [0x748f82ee, 0x78a5636f, 0x84c87814, 0x8cc70208] @
     [0x90befffa, 0xa4506ceb, 0xbef9a3f7, 0xc67178f2]"

definition rotr32 :: "u32 \<Rightarrow> nat \<Rightarrow> u32" where
  "rotr32 x n = drop_bit n x OR push_bit (32 - n) x"

text \<open>The pointer argument is the byte list that starts at it.\<close>

definition load_be32 :: "u8 list \<Rightarrow> u32" where
  "load_be32 p = push_bit 24 (ucast (p ! 0)) OR push_bit 16 (ucast (p ! 1)) OR
                 push_bit 8 (ucast (p ! 2)) OR ucast (p ! 3)"

text \<open>The four bytes written at the pointer.\<close>

definition store_be32 :: "u32 \<Rightarrow> u8 list" where
  "store_be32 x = [ucast (drop_bit 24 x), ucast (drop_bit 16 x), ucast (drop_bit 8 x), ucast x]"


subsection \<open>The streaming context\<close>

record sha256_ctx =
  ctx_h :: "u32 list"
  ctx_bit_count :: u64
  ctx_buffer :: "u8 list"
  ctx_buffer_len :: nat

definition sha256_iv :: "u32 list" where
  "sha256_iv = [0x6a09e667, 0xbb67ae85, 0x3c6ef372, 0xa54ff53a,
                0x510e527f, 0x9b05688c, 0x1f83d9ab, 0x5be0cd19]"

text \<open>The buffer is left as it was: the C function does not write it.\<close>

definition sha256_init :: "sha256_ctx \<Rightarrow> sha256_ctx" where
  "sha256_init ctx = ctx\<lparr>ctx_h := sha256_iv, ctx_bit_count := 0, ctx_buffer_len := 0\<rparr>"


subsection \<open>Compression\<close>

text \<open>One iteration of the schedule loop writes \<open>w[i]\<close>, here at the end of the words so far.\<close>

definition schedule_step :: "nat \<Rightarrow> u32 list \<Rightarrow> u32 list" where
  "schedule_step i w =
     (let s0 = rotr32 (w ! (i - 15)) 7 XOR rotr32 (w ! (i - 15)) 18 XOR drop_bit 3 (w ! (i - 15));
          s1 = rotr32 (w ! (i - 2)) 17 XOR rotr32 (w ! (i - 2)) 19 XOR drop_bit 10 (w ! (i - 2))
      in w @ [w ! (i - 16) + s0 + w ! (i - 7) + s1])"

definition schedule :: "u8 list \<Rightarrow> u32 list" where
  "schedule block =
     fold schedule_step [16..<64] (map (\<lambda>i. load_be32 (drop (i * 4) block)) [0..<16])"

type_synonym working = "u32 \<times> u32 \<times> u32 \<times> u32 \<times> u32 \<times> u32 \<times> u32 \<times> u32"

fun round_step :: "u32 list \<Rightarrow> nat \<Rightarrow> working \<Rightarrow> working" where
  "round_step w i (a, b, c, d, e, f, g, h) =
     (let s1 = rotr32 e 6 XOR rotr32 e 11 XOR rotr32 e 25;
          ch = (e AND f) XOR (NOT e AND g);
          temp1 = h + s1 + ch + k_sha256 ! i + w ! i;
          s0 = rotr32 a 2 XOR rotr32 a 13 XOR rotr32 a 22;
          maj = (a AND b) XOR (a AND c) XOR (b AND c);
          temp2 = s0 + maj
      in (temp1 + temp2, a, b, c, d + temp1, e, f, g))"

definition sha256_compress :: "u32 list \<Rightarrow> u8 list \<Rightarrow> u32 list" where
  "sha256_compress state block =
     (case fold (round_step (schedule block)) [0..<64]
             (state ! 0, state ! 1, state ! 2, state ! 3,
              state ! 4, state ! 5, state ! 6, state ! 7) of
        (a, b, c, d, e, f, g, h) \<Rightarrow>
          [state ! 0 + a, state ! 1 + b, state ! 2 + c, state ! 3 + d,
           state ! 4 + e, state ! 5 + f, state ! 6 + g, state ! 7 + h])"


subsection \<open>Streaming update and finalisation\<close>

text \<open>The \<open>while (len > 0)\<close> loop of \<open>sha256_update\<close>.\<close>

function sha256_update_loop :: "sha256_ctx \<Rightarrow> u8 list \<Rightarrow> sha256_ctx option" where
  "sha256_update_loop ctx data =
     (if data = [] then Some ctx
      else if 64 \<le> ctx_buffer_len ctx then None
      else
        let room = 64 - ctx_buffer_len ctx;
            n = (if length data < room then length data else room);
            ctx1 = ctx\<lparr>ctx_buffer := memcpy_at (ctx_buffer_len ctx) (take n data) (ctx_buffer ctx),
                       ctx_buffer_len := ctx_buffer_len ctx + n\<rparr>;
            ctx2 = (if ctx_buffer_len ctx1 = 64
                    then ctx1\<lparr>ctx_h := sha256_compress (ctx_h ctx1) (ctx_buffer ctx1),
                              ctx_buffer_len := 0\<rparr>
                    else ctx1)
        in sha256_update_loop ctx2 (drop n data))"
  by pat_completeness auto
termination
  by (relation "measure (\<lambda>(ctx, data). length data)") auto

declare sha256_update_loop.simps [simp del]

definition sha256_update :: "sha256_ctx \<Rightarrow> u8 list \<Rightarrow> sha256_ctx option" where
  "sha256_update ctx data =
     sha256_update_loop
       (ctx\<lparr>ctx_bit_count := ctx_bit_count ctx + of_nat (length data) * 8\<rparr>) data"

text \<open>The two \<open>while (buffer_len < limit)\<close> loops of \<open>sha256_final\<close> that append zero bytes.\<close>

function sha256_zero_fill :: "nat \<Rightarrow> sha256_ctx \<Rightarrow> sha256_ctx" where
  "sha256_zero_fill limit ctx =
     (if ctx_buffer_len ctx < limit
      then sha256_zero_fill limit
             (ctx\<lparr>ctx_buffer := (ctx_buffer ctx)[ctx_buffer_len ctx := 0],
                  ctx_buffer_len := ctx_buffer_len ctx + 1\<rparr>)
      else ctx)"
  by pat_completeness auto
termination
  by (relation "measure (\<lambda>(limit, ctx). limit - ctx_buffer_len ctx)") auto

declare sha256_zero_fill.simps [simp del]

definition store_bit_count :: "u64 \<Rightarrow> u8 list \<Rightarrow> u8 list" where
  "store_bit_count bit_count buf =
     fold (\<lambda>i b. b[56 + i := ucast (drop_bit (56 - i * 8) bit_count)]) [0..<8] buf"

definition sha256_final :: "sha256_ctx \<Rightarrow> (sha256_ctx \<times> u8 list) option" where
  "sha256_final ctx =
     (if 64 \<le> ctx_buffer_len ctx then None
      else
        let bit_count = ctx_bit_count ctx;
            c1 = ctx\<lparr>ctx_buffer := (ctx_buffer ctx)[ctx_buffer_len ctx := 0x80],
                     ctx_buffer_len := ctx_buffer_len ctx + 1\<rparr>;
            c2 = (if 56 < ctx_buffer_len c1
                  then let z = sha256_zero_fill 64 c1
                       in z\<lparr>ctx_h := sha256_compress (ctx_h z) (ctx_buffer z), ctx_buffer_len := 0\<rparr>
                  else c1);
            c3 = sha256_zero_fill 56 c2;
            c4 = c3\<lparr>ctx_buffer := store_bit_count bit_count (ctx_buffer c3)\<rparr>;
            c5 = c4\<lparr>ctx_h := sha256_compress (ctx_h c4) (ctx_buffer c4)\<rparr>
        in Some (c5, concat (map (\<lambda>i. store_be32 (ctx_h c5 ! i)) [0..<8])))"


subsection \<open>Block header helpers\<close>

text \<open>A local, uninitialised context: its buffer holds whatever the stack held.\<close>

definition bitcoin_header_midstate :: "sha256_ctx \<Rightarrow> u8 list \<Rightarrow> u32 list option" where
  "bitcoin_header_midstate stack header80 =
     (case sha256_update (sha256_init stack) (take 64 header80) of
        None \<Rightarrow> None
      | Some ctx \<Rightarrow> Some (map (\<lambda>i. ctx_h ctx ! i) [0..<8]))"

definition bitcoin_header_tail_words :: "u8 list \<Rightarrow> u32 list" where
  "bitcoin_header_tail_words header80 =
     map (\<lambda>i. load_be32 (drop (64 + i * 4) header80)) [0..<4]"


subsection \<open>Reference definition\<close>

text \<open>
  SHA-256 as the standard states it: message words and digest bytes are big-endian numbers,
  the schedule is a recursion on its index, rotation is the library's \<^const>\<open>word_rotr\<close>, and
  the message is padded once, as a whole.
\<close>

definition be_bytes :: "nat \<Rightarrow> nat \<Rightarrow> u8 list" where
  "be_bytes n x = map (\<lambda>i. of_nat (x div 256 ^ (n - 1 - i))) [0..<n]"

definition std_Ch :: "u32 \<Rightarrow> u32 \<Rightarrow> u32 \<Rightarrow> u32" where
  "std_Ch x y z = (x AND y) XOR (NOT x AND z)"
definition std_Maj :: "u32 \<Rightarrow> u32 \<Rightarrow> u32 \<Rightarrow> u32" where
  "std_Maj x y z = (x AND y) XOR (x AND z) XOR (y AND z)"
definition std_Sigma0 :: "u32 \<Rightarrow> u32" where
  "std_Sigma0 x = word_rotr 2 x XOR word_rotr 13 x XOR word_rotr 22 x"
definition std_Sigma1 :: "u32 \<Rightarrow> u32" where
  "std_Sigma1 x = word_rotr 6 x XOR word_rotr 11 x XOR word_rotr 25 x"
definition std_sigma0 :: "u32 \<Rightarrow> u32" where
  "std_sigma0 x = word_rotr 7 x XOR word_rotr 18 x XOR drop_bit 3 x"
definition std_sigma1 :: "u32 \<Rightarrow> u32" where
  "std_sigma1 x = word_rotr 17 x XOR word_rotr 19 x XOR drop_bit 10 x"

fun std_W :: "u32 list \<Rightarrow> nat \<Rightarrow> u32" where
  "std_W M t = (if t < 16 then M ! t
     else std_sigma1 (std_W M (t - 2)) + std_W M (t - 7) + std_sigma0 (std_W M (t - 15)) + std_W M (t - 16))"
declare std_W.simps [simp del]

fun std_round :: "u32 \<Rightarrow> working \<Rightarrow> working" where
  "std_round kw (a, b, c, d, e, f, g, h) =
     (let T1 = h + std_Sigma1 e + std_Ch e f g + kw; T2 = std_Sigma0 a + std_Maj a b c
      in (T1 + T2, a, b, c, d + T1, e, f, g))"

primrec std_rounds :: "(nat \<Rightarrow> u32) \<Rightarrow> nat \<Rightarrow> working \<Rightarrow> working" where
  "std_rounds KW 0 v = v"
| "std_rounds KW (Suc t) v = std_round (KW t) (std_rounds KW t v)"

fun working_list :: "working \<Rightarrow> u32 list" where
  "working_list (a, b, c, d, e, f, g, h) = [a, b, c, d, e, f, g, h]"
fun list_working :: "u32 list \<Rightarrow> working" where
  "list_working H = (H ! 0, H ! 1, H ! 2, H ! 3, H ! 4, H ! 5, H ! 6, H ! 7)"

definition std_compress :: "u32 list \<Rightarrow> u8 list \<Rightarrow> u32 list" where
  "std_compress H M =
     (let Mw = map (\<lambda>b. of_nat (be_value b)) (blocks 4 M)
      in map2 (+) H (working_list (std_rounds (\<lambda>t. k_sha256 ! t + std_W Mw t) 64 (list_working H))))"

definition std_pad :: "u8 list \<Rightarrow> u8 list" where
  "std_pad m = m @ [0x80] @ replicate ((119 - length m mod 64) mod 64) 0 @ be_bytes 8 (8 * length m)"

definition sha256 :: "u8 list \<Rightarrow> u8 list" where
  "sha256 m = concat (map (\<lambda>w. be_bytes 4 (unat w)) (foldl std_compress sha256_iv (blocks 64 (std_pad m))))"


subsection \<open>What a context stands for\<close>

text \<open>
  \<open>sha_rep ctx m\<close>: the context has absorbed exactly the message \<open>m\<close>. The full blocks of
  \<open>m\<close> are in the chaining value, the rest is at the front of the buffer, and the counter is
  the message's bit length (modulo \<open>2 ^ 64\<close>, as the C counter).
\<close>

definition sha_core :: "sha256_ctx \<Rightarrow> u8 list \<Rightarrow> bool" where
  "sha_core ctx m \<longleftrightarrow>
     ctx_buffer_len ctx < 64 \<and> length (ctx_buffer ctx) = 64 \<and>
     (\<exists>m1. 64 dvd length m1 \<and> m = m1 @ take (ctx_buffer_len ctx) (ctx_buffer ctx) \<and>
           ctx_h ctx = foldl std_compress sha256_iv (blocks 64 m1))"

definition sha_rep :: "sha256_ctx \<Rightarrow> u8 list \<Rightarrow> bool" where
  "sha_rep ctx m \<longleftrightarrow> sha_core ctx m \<and> ctx_bit_count ctx = of_nat (8 * length m)"


subsection \<open>Byte and word access\<close>

lemma bit_u8: "bit (a :: u8) n \<Longrightarrow> n < 8"
  using bit_imp_le_length[of a n] by simp

lemma rotr32_word_rotr:
  assumes n: "n < 32" shows "rotr32 x n = word_rotr n x"
proof (rule bit_word_eqI)
  fix k assume "k < LENGTH(32)"
  then have k: "k < 32" by simp
  show "bit (rotr32 x n) k = bit (word_rotr n x) k"
  proof (cases "k + n < 32")
    case True
    with n k show ?thesis by (auto simp: rotr32_def bit_simps add.commute)
  next
    case False
    with n k have "(k + n) mod 32 = k - (32 - n)" "32 - n \<le> k" by (simp_all add: mod_if)
    with False n k show ?thesis
      by (auto simp: rotr32_def bit_simps add.commute dest: bit_imp_le_length)
  qed
qed

lemma nat_byte_cases:
  assumes "(n::nat) < 32"
  obtains (b0) "n < 8" | (b1) m where "n = m + 8" "m < 8" | (b2) m where "n = m + 16" "m < 8"
    | (b3) m where "n = m + 24" "m < 8"
proof -
  consider "n < 8" | "8 \<le> n" "n < 16" | "16 \<le> n" "n < 24" | "24 \<le> n" "n < 32"
    using assms by linarith
  then show thesis
  proof cases
    case 2 then show thesis by (intro b1[of "n - 8"]) auto
  next
    case 3 then show thesis by (intro b2[of "n - 16"]) auto
  next
    case 4 then show thesis by (intro b3[of "n - 24"]) auto
  qed (use b0 in auto)
qed

lemma load_store_be32 [simp]: "load_be32 (store_be32 x) = x"
proof (rule bit_word_eqI)
  fix n assume "n < LENGTH(32)"
  then have "n < 32" by simp
  then show "bit (load_be32 (store_be32 x)) n = bit x n"
    by (cases n rule: nat_byte_cases)
       (auto simp: store_be32_def load_be32_def bit_simps add.commute)
qed

lemma store_load_be32:
  assumes "length p = 4" shows "store_be32 (load_be32 p) = p"
proof -
  obtain a b c d where p: "p = [a, b, c, d]"
    using assms by (auto simp: length_Suc_conv numeral_eq_Suc)
  have "ucast (drop_bit 24 (load_be32 p)) = a" "ucast (drop_bit 16 (load_be32 p)) = b"
    "ucast (drop_bit 8 (load_be32 p)) = c" "ucast (load_be32 p) = d"
    by (rule bit_word_eqI; auto simp: p load_be32_def bit_simps dest: bit_u8)+
  then show ?thesis by (simp add: store_be32_def p)
qed

lemma unat_load_be32:
  "unat (load_be32 (a # b # c # d # p)) = be_value [a, b, c, d]"
proof -
  let ?b = "ucast :: u8 \<Rightarrow> u32"
  have 1: "push_bit 8 (?b c) OR ?b d = push_bit 8 (?b c) + ?b d"
    by (rule disjunctive_add[symmetric]) (auto simp: bit_simps dest: bit_u8)
  have 2: "push_bit 16 (?b b) OR (push_bit 8 (?b c) OR ?b d)
      = push_bit 16 (?b b) + (push_bit 8 (?b c) OR ?b d)"
    by (rule disjunctive_add[symmetric]) (auto simp: bit_simps dest: bit_u8)
  have 3: "push_bit 24 (?b a) OR (push_bit 16 (?b b) OR (push_bit 8 (?b c) OR ?b d))
      = push_bit 24 (?b a) + (push_bit 16 (?b b) OR (push_bit 8 (?b c) OR ?b d))"
    by (rule disjunctive_add[symmetric]) (auto simp: bit_simps dest: bit_u8)
  have "load_be32 (a # b # c # d # p)
      = push_bit 24 (?b a) OR (push_bit 16 (?b b) OR (push_bit 8 (?b c) OR ?b d))"
    by (simp add: load_be32_def)
  also have "\<dots> = push_bit 24 (?b a) + (push_bit 16 (?b b) + (push_bit 8 (?b c) + ?b d))"
    by (subst 3, subst 2, subst 1) (rule refl)
  also have "\<dots> = of_nat (be_value [a, b, c, d])"
    by (simp add: push_bit_eq_mult be_value_Cons)
  finally have "load_be32 (a # b # c # d # p) = of_nat (be_value [a, b, c, d])" .
  moreover have "be_value [a, b, c, d] < 2 ^ 32"
    using be_value_bound[of "[a, b, c, d]"] by simp
  ultimately show ?thesis by (simp add: unat_of_nat take_bit_nat_eq_self_iff)
qed

subsection \<open>The compression function is the standard's\<close>

lemma length_4E:
  assumes "length p = 4" obtains a b c d where "p = [a, b, c, d]"
  using assms by (auto simp: length_Suc_conv numeral_eq_Suc)

lemma length_schedule_step [simp]: "length (schedule_step i w) = Suc (length w)"
  by (simp add: schedule_step_def Let_def)

lemma schedule_step_old: "t < length w \<Longrightarrow> schedule_step i w ! t = w ! t"
  by (simp add: schedule_step_def Let_def nth_append)

lemma schedule_step_last:
  "length w = i \<Longrightarrow> 16 \<le> i \<Longrightarrow>
   schedule_step i w ! i = std_sigma1 (w ! (i - 2)) + w ! (i - 7) + std_sigma0 (w ! (i - 15)) + w ! (i - 16)"
  by (simp add: schedule_step_def Let_def nth_append rotr32_word_rotr
      std_sigma0_def std_sigma1_def add_ac)

lemma upt_16_Suc: "[16..<17 + n] = [16..<16 + n] @ [16 + n]"
  using upt_Suc_append[of 16 "16 + n"] by simp

lemma length_schedule_fold:
  "length (fold schedule_step [16..<16 + n] ws) = length ws + n"
  by (induction n) (simp_all add: upt_16_Suc)

lemma load_be32_take: "4 \<le> length p \<Longrightarrow> load_be32 p = of_nat (be_value (take 4 p))"
proof -
  assume "4 \<le> length p"
  then have "length (take 4 p) = 4" by simp
  then obtain a b c d where t: "take 4 p = [a, b, c, d]" by (rule length_4E)
  then have "p = a # b # c # d # drop 4 p" by (metis append_Cons append_Nil append_take_drop_id)
  with t have "unat (load_be32 p) = be_value (take 4 p)" by (metis unat_load_be32)
  then show ?thesis by (metis of_nat_unat ucast_id)
qed

lemma schedule_std_W:
  assumes len: "length block = 64" and t: "t < 16 + n"
  shows "fold schedule_step [16..<16 + n] (map (\<lambda>i. load_be32 (drop (i * 4) block)) [0..<16]) ! t
       = std_W (map (\<lambda>b. of_nat (be_value b)) (blocks 4 block)) t"
  using t
proof (induction n arbitrary: t)
  case 0
  then show ?case using len
    by (simp add: std_W.simps[of _ t] load_be32_take blocks_nth length_blocks mult.commute)
next
  case (Suc n)
  let ?M = "map (\<lambda>b. of_nat (be_value b)) (blocks 4 block)"
  let ?w = "fold schedule_step [16..<16 + n] (map (\<lambda>i. load_be32 (drop (i * 4) block)) [0..<16])"
  have L: "length ?w = 16 + n" by (simp add: length_schedule_fold)
  have IH: "?w ! i = std_W ?M i" if "i < 16 + n" for i using Suc.IH that by simp
  have step: "schedule_step (16 + n) ?w ! t = std_W ?M t"
  proof (cases "t < 16 + n")
    case True
    with L IH show ?thesis by (simp add: schedule_step_old)
  next
    case False
    with Suc.prems have "t = 16 + n" by simp
    with schedule_step_last[OF L] IH show ?thesis by (simp add: std_W.simps[of _ "16 + n"])
  qed
  then show ?case by (simp add: upt_16_Suc)
qed

lemma schedule_correct:
  assumes "length block = 64" "t < 64"
  shows "schedule block ! t = std_W (map (\<lambda>b. of_nat (be_value b)) (blocks 4 block)) t"
  using schedule_std_W[OF assms(1), of t 48] assms(2) by (simp add: schedule_def)

lemma round_step_std:
  "w ! i = x \<Longrightarrow> round_step w i v = std_round (k_sha256 ! i + x) v"
  by (cases v rule: working_list.cases) (simp add: Let_def rotr32_word_rotr std_Sigma0_def std_Sigma1_def std_Ch_def
      std_Maj_def add_ac)

lemma rounds_std:
  "(\<And>i. i < n \<Longrightarrow> w ! i = W i) \<Longrightarrow>
   fold (round_step w) [0..<n] v = std_rounds (\<lambda>t. k_sha256 ! t + W t) n v"
  by (induction n) (simp_all add: round_step_std)

lemma sha256_compress_std:
  assumes "length state = 8" "length block = 64"
  shows "sha256_compress state block = std_compress state block"
proof -
  let ?M = "map (\<lambda>b. of_nat (be_value b)) (blocks 4 block)"
  obtain a b c d e f g h where st: "state = [a, b, c, d, e, f, g, h]"
    using assms(1) by (auto simp: length_Suc_conv numeral_eq_Suc)
  have "fold (round_step (schedule block)) [0..<64] (list_working state)
      = std_rounds (\<lambda>t. k_sha256 ! t + std_W ?M t) 64 (list_working state)"
    by (rule rounds_std) (simp add: schedule_correct assms(2))
  then show ?thesis
    by (cases "std_rounds (\<lambda>t. k_sha256 ! t + std_W ?M t) 64 (list_working state)"
          rule: working_list.cases)
       (simp add: sha256_compress_def std_compress_def st)
qed

subsection \<open>Streaming and padding\<close>

lemma pow_256: "(256::nat) ^ k = 2 ^ (8 * k)"
  by (simp add: power_mult)

lemma byte_of_word:
  fixes w :: "'a::len word"
  shows "(ucast (drop_bit (8 * k) w) :: u8) = of_nat (unat w div 256 ^ k)"
proof -
  have "unat w div 256 ^ k = drop_bit (8 * k) (unat w)"
    by (simp add: pow_256 drop_bit_eq_div)
  then show ?thesis
    by (simp only:) (rule bit_word_eqI, auto simp: bit_simps dest: bit_imp_le_length)
qed

lemma store_be32_be_bytes: "store_be32 w = be_bytes 4 (unat w)"
proof -
  have "[0..<4] = [0, 1, 2, 3 :: nat]" by (simp add: upt_rec)
  then show ?thesis
    using byte_of_word[of 3 w] byte_of_word[of 2 w] byte_of_word[of 1 w] byte_of_word[of 0 w]
    by (simp add: store_be32_def be_bytes_def)
qed

lemma byte_of_word64:
  "k < 8 \<Longrightarrow> (ucast (drop_bit (8 * k) (of_nat x :: u64)) :: u8) = of_nat (x div 256 ^ k)"
proof -
  assume k: "k < 8"
  have e: "x div 256 ^ k = drop_bit (8 * k) x" by (simp add: pow_256 drop_bit_eq_div)
  show ?thesis unfolding e
    by (rule bit_word_eqI) (use k in \<open>auto simp: bit_simps\<close>)
qed

lemma store_bit_count_be_bytes:
  assumes "length buf = 64"
  shows "store_bit_count (of_nat x) buf = take 56 buf @ be_bytes 8 x"
proof -
  have b: "(ucast (drop_bit (56 - i * 8) (of_nat x :: u64)) :: u8) = of_nat (x div 256 ^ (7 - i))"
    if "i < 8" for i
    using byte_of_word64[of "7 - i" x] that by (simp add: right_diff_distrib' mult.commute)
  have "fold (\<lambda>i b. b[56 + i := ucast (drop_bit (56 - i * 8) (of_nat x :: u64))]) [0..<n] buf
      = memcpy_at 56 (map (\<lambda>i. of_nat (x div 256 ^ (7 - i))) [0..<n]) buf" if "n \<le> 8" for n
    using that
  proof (induction n)
    case 0
    then show ?case using assms by (simp add: buffer_simps)
  next
    case (Suc n)
    let ?m = "memcpy_at 56 (map (\<lambda>i. of_nat (x div 256 ^ (7 - i)) :: u8) [0..<n]) buf"
    have "length ?m = 64" using Suc.prems assms by (simp add: buffer_simps)
    with Suc b[of n] show ?case
      using memcpy_at_append[of 56 buf "map (\<lambda>i. of_nat (x div 256 ^ (7 - i)) :: u8) [0..<n]"] assms
      by (simp add: list_update_memcpy_at)
  qed
  from this[of 8] show ?thesis
    using assms by (simp add: store_bit_count_def be_bytes_def buffer_simps)
qed

lemma length_working_list [simp]: "length (working_list v) = 8"
  by (cases v rule: working_list.cases) simp

lemma length_std_compress: "length H = 8 \<Longrightarrow> length (std_compress H M) = 8"
  by (simp add: std_compress_def Let_def)

lemma length_std_fold: "length (foldl std_compress sha256_iv bs) = 8"
  by (induction bs rule: rev_induct) (simp_all add: sha256_iv_def length_std_compress)

lemma sha_core_fill:
  assumes "sha_core ctx m" and "ctx_buffer_len ctx + length xs < 64"
  shows "sha_core (ctx\<lparr>ctx_buffer := memcpy_at (ctx_buffer_len ctx) xs (ctx_buffer ctx),
                       ctx_buffer_len := ctx_buffer_len ctx + length xs\<rparr>) (m @ xs)"
  using assms by (auto simp: sha_core_def buffer_simps)

lemma sha_core_full:
  assumes "sha_core ctx m" and n: "ctx_buffer_len ctx + length xs = 64"
  shows "sha_core (ctx\<lparr>ctx_buffer := memcpy_at (ctx_buffer_len ctx) xs (ctx_buffer ctx),
                       ctx_h := sha256_compress (ctx_h ctx)
                                  (memcpy_at (ctx_buffer_len ctx) xs (ctx_buffer ctx)),
                       ctx_buffer_len := 0\<rparr>) (m @ xs)"
proof -
  let ?B = "take (ctx_buffer_len ctx) (ctx_buffer ctx) @ xs"
  from assms obtain m1 where m1: "64 dvd length m1"
      "m = m1 @ take (ctx_buffer_len ctx) (ctx_buffer ctx)"
      "ctx_h ctx = foldl std_compress sha256_iv (blocks 64 m1)"
      and L: "ctx_buffer_len ctx < 64" "length (ctx_buffer ctx) = 64"
    by (auto simp: sha_core_def)
  have B: "memcpy_at (ctx_buffer_len ctx) xs (ctx_buffer ctx) = ?B" "length ?B = 64"
    using n L by (simp_all add: buffer_simps)
  have "sha256_compress (ctx_h ctx) ?B = foldl std_compress sha256_iv (blocks 64 (m1 @ ?B))"
    using B(2) m1 blocks_step[of ?B 64 "[]"]
    by (simp add: blocks_append blocks_short sha256_compress_std length_std_fold)
  with B m1 show ?thesis
    by (auto simp: sha_core_def intro!: exI[of _ "m1 @ ?B"])
qed

lemma sha256_update_loop_core:
  assumes "sha_core ctx m"
  shows "\<exists>ctx'. sha256_update_loop ctx data = Some ctx' \<and> sha_core ctx' (m @ data) \<and>
           ctx_bit_count ctx' = ctx_bit_count ctx"
  using assms
proof (induction ctx data arbitrary: m rule: sha256_update_loop.induct)
  case (1 ctx data)
  show ?case
  proof (cases "data = []")
    case True
    with "1.prems" show ?thesis by (simp add: sha256_update_loop.simps[of ctx])
  next
    case False
    define n where "n = (if length data < 64 - ctx_buffer_len ctx then length data
                         else 64 - ctx_buffer_len ctx)"
    define ctx1 where "ctx1 = ctx\<lparr>ctx_buffer := memcpy_at (ctx_buffer_len ctx) (take n data) (ctx_buffer ctx),
                       ctx_buffer_len := ctx_buffer_len ctx + n\<rparr>"
    define ctx2 where "ctx2 = (if ctx_buffer_len ctx1 = 64
                    then ctx1\<lparr>ctx_h := sha256_compress (ctx_h ctx1) (ctx_buffer ctx1),
                              ctx_buffer_len := 0\<rparr>
                    else ctx1)"
    note defs = n_def ctx1_def ctx2_def
    have L: "ctx_buffer_len ctx < 64" using "1.prems" by (simp add: sha_core_def)
    have n: "length (take n data) = n" "ctx_buffer_len ctx + n \<le> 64"
      using L by (auto simp: n_def)
    have core: "sha_core ctx2 (m @ take n data)"
    proof (cases "ctx_buffer_len ctx + n = 64")
      case True
      with sha_core_full[OF "1.prems", of "take n data"] n show ?thesis
        by (simp add: ctx1_def ctx2_def)
    next
      case False
      with sha_core_fill[OF "1.prems", of "take n data"] n show ?thesis
        by (simp add: ctx1_def ctx2_def)
    qed
    have rec: "sha256_update_loop ctx data = sha256_update_loop ctx2 (drop n data)"
      using False L by (simp add: sha256_update_loop.simps[of ctx data] defs Let_def)
    have "ctx_bit_count ctx2 = ctx_bit_count ctx" by (simp add: ctx1_def ctx2_def)
    then show ?thesis
      using "1.IH"[OF False _ refl n_def ctx1_def ctx2_def core] L rec by simp
  qed
qed

lemma sha_rep_init:
  "length (ctx_buffer ctx) = 64 \<Longrightarrow> sha_rep (sha256_init ctx) []"
  by (auto simp: sha_rep_def sha_core_def sha256_init_def blocks_short)

lemma sha_rep_update:
  assumes "sha_rep ctx m"
  shows "\<exists>ctx'. sha256_update ctx data = Some ctx' \<and> sha_rep ctx' (m @ data)"
proof -
  let ?c = "ctx\<lparr>ctx_bit_count := ctx_bit_count ctx + of_nat (length data) * 8\<rparr>"
  have "sha_core ?c m" using assms by (simp add: sha_rep_def sha_core_def)
  from sha256_update_loop_core[OF this, of data] show ?thesis
    using assms by (auto simp: sha256_update_def sha_rep_def algebra_simps)
qed

lemma zero_fill_eq:
  "limit \<le> length (ctx_buffer ctx) \<Longrightarrow> ctx_buffer_len ctx \<le> limit \<Longrightarrow>
   sha256_zero_fill limit ctx =
     ctx\<lparr>ctx_buffer := memcpy_at (ctx_buffer_len ctx) (replicate (limit - ctx_buffer_len ctx) 0) (ctx_buffer ctx),
         ctx_buffer_len := limit\<rparr>"
proof (induction limit ctx rule: sha256_zero_fill.induct)
  case (1 limit ctx)
  show ?case
  proof (cases "ctx_buffer_len ctx < limit")
    case True
    let ?c = "ctx\<lparr>ctx_buffer := (ctx_buffer ctx)[ctx_buffer_len ctx := 0], ctx_buffer_len := ctx_buffer_len ctx + 1\<rparr>"
    have "replicate (limit - ctx_buffer_len ctx) (0::u8) = [0] @ replicate (limit - (ctx_buffer_len ctx + 1)) 0"
      using True by (simp flip: replicate_Suc add: Suc_diff_Suc)
    then have "memcpy_at (ctx_buffer_len ctx) (replicate (limit - ctx_buffer_len ctx) 0) (ctx_buffer ctx)
        = memcpy_at (ctx_buffer_len ?c) (replicate (limit - ctx_buffer_len ?c) 0) (ctx_buffer ?c)"
      using True "1.prems" memcpy_at_append[of "ctx_buffer_len ctx" "ctx_buffer ctx" "[0]"]
      by (simp add: list_update_memcpy_at)
    with "1.IH"[OF True] "1.prems" True show ?thesis
      by (simp add: sha256_zero_fill.simps[of limit ctx])
  next
    case False
    with "1.prems" show ?thesis by (simp add: sha256_zero_fill.simps[of limit ctx] buffer_simps)
  qed
qed

lemma length_be_bytes [simp]: "length (be_bytes n x) = n"
  by (simp add: be_bytes_def)

lemma sha256_digest_bytes:
  "length H = 8 \<Longrightarrow> concat (map (\<lambda>i. store_be32 (H ! i)) [0..<8]) = concat (map (\<lambda>w. be_bytes 4 (unat w)) H)"
proof -
  assume "length H = 8"
  then have "map (\<lambda>i. store_be32 (H ! i)) [0..<8] = map store_be32 H"
    by (intro nth_equalityI) simp_all
  then show ?thesis by (simp only: store_be32_be_bytes[abs_def])
qed

lemma std_pad_split:
  assumes "64 dvd length m1" "length r < 64"
  shows "std_pad (m1 @ r) = m1 @
    (if 56 \<le> length r
     then (r @ [0x80] @ replicate (63 - length r) 0) @ (replicate 56 0 @ be_bytes 8 (8 * length (m1 @ r)))
     else r @ [0x80] @ replicate (55 - length r) 0 @ be_bytes 8 (8 * length (m1 @ r)))"
proof -
  have "length (m1 @ r) mod 64 = length r" using assms by auto
  moreover have "(119 - length r) mod 64 = (if 56 \<le> length r then (63 - length r) + 56 else 55 - length r)"
    using assms(2) by (simp add: mod_if)
  ultimately show ?thesis using assms(2) by (simp add: std_pad_def flip: replicate_add)
qed

lemma absorb_block:
  assumes "64 dvd length m1" "length B = 64"
  shows "foldl std_compress sha256_iv (blocks 64 (m1 @ B)) =
         sha256_compress (foldl std_compress sha256_iv (blocks 64 m1)) B"
  using assms blocks_step[of B 64 "[]"]
  by (simp add: blocks_append blocks_short sha256_compress_std length_std_fold)

lemma sha256_final_short:
  assumes "ctx_buffer_len ctx < 56" "length (ctx_buffer ctx) = 64" "ctx_bit_count ctx = of_nat x"
  shows "\<exists>ctx'. sha256_final ctx = Some (ctx', concat (map (\<lambda>i. store_be32 (ctx_h ctx' ! i)) [0..<8])) \<and>
    ctx_h ctx' = sha256_compress (ctx_h ctx) (take (ctx_buffer_len ctx) (ctx_buffer ctx) @ [0x80] @
      replicate (55 - ctx_buffer_len ctx) 0 @ be_bytes 8 x)"
proof -
  let ?l = "ctx_buffer_len ctx"
  have "memcpy_at (?l + 1) (replicate (55 - ?l) 0) (memcpy_at ?l [0x80] (ctx_buffer ctx))
      = memcpy_at ?l ([0x80] @ replicate (55 - ?l) 0) (ctx_buffer ctx)"
    using assms memcpy_at_append[of ?l "ctx_buffer ctx" "[0x80]"] by simp
  moreover have "take 56 \<dots> = take ?l (ctx_buffer ctx) @ [0x80] @ replicate (55 - ?l) 0"
    using assms take_memcpy_at[of ?l "ctx_buffer ctx" "[0x80] @ replicate (55 - ?l) 0"] by simp
  ultimately show ?thesis
    using assms
    by (simp add: sha256_final_def Let_def zero_fill_eq list_update_memcpy_at store_bit_count_be_bytes
        buffer_simps)
qed

lemma sha256_final_long:
  assumes "56 \<le> ctx_buffer_len ctx" "ctx_buffer_len ctx < 64" "length (ctx_buffer ctx) = 64"
    "ctx_bit_count ctx = of_nat x"
  shows "\<exists>ctx'. sha256_final ctx = Some (ctx', concat (map (\<lambda>i. store_be32 (ctx_h ctx' ! i)) [0..<8])) \<and>
    ctx_h ctx' = sha256_compress
      (sha256_compress (ctx_h ctx)
         (take (ctx_buffer_len ctx) (ctx_buffer ctx) @ [0x80] @ replicate (63 - ctx_buffer_len ctx) 0))
      (replicate 56 0 @ be_bytes 8 x)"
proof -
  let ?l = "ctx_buffer_len ctx"
  let ?B = "take ?l (ctx_buffer ctx) @ [0x80] @ replicate (63 - ?l) (0::u8)"
  have "memcpy_at (?l + 1) (replicate (63 - ?l) 0) (memcpy_at ?l [0x80] (ctx_buffer ctx))
      = memcpy_at ?l ([0x80] @ replicate (63 - ?l) 0) (ctx_buffer ctx)"
    using assms memcpy_at_append[of ?l "ctx_buffer ctx" "[0x80]"] by simp
  also have "\<dots> = ?B" using assms by (subst memcpy_at_full) simp_all
  finally have B: "memcpy_at (Suc ?l) (replicate (63 - ?l) 0) (memcpy_at ?l [0x80] (ctx_buffer ctx)) = ?B"
    by simp
  have "length ?B = 64" "take 56 (memcpy_at 0 (replicate 56 0) ?B) = replicate 56 0"
    using assms by (simp_all add: memcpy_at_def)
  with B show ?thesis
    using assms
    by (simp add: sha256_final_def Let_def zero_fill_eq list_update_memcpy_at store_bit_count_be_bytes
        buffer_simps)
qed

lemma sha256_final_correct:
  assumes "sha_rep ctx m"
  shows "\<exists>ctx'. sha256_final ctx = Some (ctx', sha256 m)"
proof -
  let ?l = "ctx_buffer_len ctx" and ?r = "take (ctx_buffer_len ctx) (ctx_buffer ctx)"
  obtain m1 where m1: "64 dvd length m1" "m = m1 @ ?r"
      "ctx_h ctx = foldl std_compress sha256_iv (blocks 64 m1)"
      and L: "?l < 64" "length (ctx_buffer ctx) = 64"
      and bc: "ctx_bit_count ctx = of_nat (8 * length m)"
    using assms by (auto simp: sha_rep_def sha_core_def)
  have r: "length ?r = ?l" using L by simp
  have pad: "std_pad m = m1 @
    (if 56 \<le> ?l
     then (?r @ [0x80] @ replicate (63 - ?l) 0) @ (replicate 56 0 @ be_bytes 8 (8 * length m))
     else ?r @ [0x80] @ replicate (55 - ?l) 0 @ be_bytes 8 (8 * length m))"
    using std_pad_split[OF m1(1), of ?r] L m1(2) unfolding r by simp
  obtain ctx' where f: "sha256_final ctx = Some (ctx', concat (map (\<lambda>i. store_be32 (ctx_h ctx' ! i)) [0..<8]))"
    and h: "ctx_h ctx' = foldl std_compress sha256_iv (blocks 64 (std_pad m))"
  proof (cases "56 \<le> ?l")
    case True
    let ?B1 = "?r @ [0x80] @ replicate (63 - ?l) 0"
    have "64 dvd length (m1 @ ?B1)" using m1(1) True L by simp
    with True sha256_final_long[OF True L bc] m1 L pad that show ?thesis
      using absorb_block[of "m1 @ ?B1" "replicate 56 0 @ be_bytes 8 (8 * length m)"]
        absorb_block[of m1 ?B1] by auto
  next
    case False
    with sha256_final_short[OF _ L(2) bc] m1 L pad that show ?thesis
      using absorb_block[OF m1(1), of "?r @ [0x80] @ replicate (55 - ?l) 0 @ be_bytes 8 (8 * length m)"]
      by auto
  qed
  have "length (ctx_h ctx') = 8" by (simp add: h length_std_fold)
  with f h show ?thesis by (simp add: sha256_digest_bytes sha256_def)
qed

text \<open>A context can be reused after finalisation: the buffer keeps its 64 bytes.\<close>

lemma zero_fill_buffer: "length (ctx_buffer (sha256_zero_fill limit ctx)) = length (ctx_buffer ctx)"
proof (induction limit ctx rule: sha256_zero_fill.induct)
  case (1 limit ctx)
  then show ?case by (simp add: sha256_zero_fill.simps[of limit ctx])
qed

lemma final_buffer:
  "sha256_final ctx = Some (ctx', d) \<Longrightarrow> length (ctx_buffer ctx') = length (ctx_buffer ctx)"
proof -
  have "length (fold (\<lambda>i b. b[56 + i := f i]) is bs) = length bs" for f "is" and bs :: "u8 list"
    by (induction "is" arbitrary: bs) simp_all
  then show "sha256_final ctx = Some (ctx', d) \<Longrightarrow> length (ctx_buffer ctx') = length (ctx_buffer ctx)"
    by (auto simp: sha256_final_def Let_def store_bit_count_def zero_fill_buffer split: if_splits)
qed

subsection \<open>The streaming interface its clients rely on\<close>

text \<open>
  What the pool client needs of a streaming hash: absorbing data extends the represented
  message, finishing yields the hash of what was represented. The consequences for chunked
  input are proved here once.
\<close>

locale incremental_hash =
  fixes rep :: "'c \<Rightarrow> u8 list \<Rightarrow> bool"
    and absorb :: "'c \<Rightarrow> u8 list \<Rightarrow> 'c option"
    and finish :: "'c \<Rightarrow> ('c \<times> u8 list) option"
    and hash :: "u8 list \<Rightarrow> u8 list"
  assumes absorb_rep: "rep c m \<Longrightarrow> \<exists>c'. absorb c d = Some c' \<and> rep c' (m @ d)"
    and finish_rep: "rep c m \<Longrightarrow> \<exists>c'. finish c = Some (c', hash m)"
begin

lemma absorb_chunks:
  "rep c m \<Longrightarrow>
   \<exists>c'. foldl (\<lambda>r d. Option.bind r (\<lambda>c. absorb c d)) (Some c) ds = Some c' \<and> rep c' (m @ concat ds)"
proof (induction ds arbitrary: c m)
  case Nil
  then show ?case by simp
next
  case (Cons d ds)
  from absorb_rep[OF Cons.prems, of d] obtain c' where c': "absorb c d = Some c'" "rep c' (m @ d)"
    by blast
  from Cons.IH[OF c'(2)] c'(1) show ?case by simp
qed

lemma finish_chunks:
  "rep c m \<Longrightarrow>
   \<exists>c'. Option.bind (foldl (\<lambda>r d. Option.bind r (\<lambda>c. absorb c d)) (Some c) ds) finish
       = Some (c', hash (m @ concat ds))"
  using absorb_chunks[of c m ds] finish_rep by (metis bind.bind_lunit)

lemma absorb_finish:
  "rep c m \<Longrightarrow> \<exists>c1 c2. absorb c d = Some c1 \<and> finish c1 = Some (c2, hash (m @ d))"
  using absorb_rep finish_rep by blast

end

interpretation sha: incremental_hash sha_rep sha256_update sha256_final sha256
  by unfold_locales (rule sha_rep_update sha256_final_correct; assumption)+

lemmas sha_stream = sha.finish_chunks sha.absorb_finish sha_rep_init


subsection \<open>Properties of the software SHA-256\<close>

text \<open>
  C2. Streaming correctness: whatever 64 bytes the buffer of a fresh context holds, and
  however the message is cut into calls of \<open>sha256_update\<close>, all calls return and
  \<open>sha256_final\<close> writes the SHA-256 digest of the whole message.
\<close>

theorem sha256_streaming_correct:
  assumes "length (ctx_buffer stack) = 64"
  shows "\<exists>ctx. Option.bind
           (foldl (\<lambda>r d. Option.bind r (\<lambda>c. sha256_update c d)) (Some (sha256_init stack)) ds)
           sha256_final = Some (ctx, sha256 (concat ds))"
  using sha.finish_chunks[OF sha_rep_init[OF assms], of ds] by simp

theorem sha256_streaming_correct_witness:
  "\<exists>ctx. Option.bind
     (foldl (\<lambda>r d. Option.bind r (\<lambda>c. sha256_update c d))
        (Some (sha256_init \<lparr>ctx_h = [], ctx_bit_count = 7, ctx_buffer = replicate 64 0xaa,
                            ctx_buffer_len = 99\<rparr>))
        [[0x61], [0x62, 0x63], replicate 100 0x64])
     sha256_final = Some (ctx, sha256 ([0x61, 0x62, 0x63] @ replicate 100 0x64))"
  using sha256_streaming_correct
    [of "\<lparr>ctx_h = [], ctx_bit_count = 7, ctx_buffer = replicate 64 0xaa, ctx_buffer_len = 99\<rparr>"
        "[[0x61], [0x62, 0x63], replicate 100 0x64]"]
  by simp

lemma sha_rep_block:
  assumes "sha_rep ctx m" "64 dvd length m"
  shows "ctx_h ctx = foldl std_compress sha256_iv (blocks 64 m)"
proof -
  from assms(1) obtain m1 where m1: "64 dvd length m1"
      "m = m1 @ take (ctx_buffer_len ctx) (ctx_buffer ctx)"
      "ctx_h ctx = foldl std_compress sha256_iv (blocks 64 m1)"
      and L: "ctx_buffer_len ctx < 64" "length (ctx_buffer ctx) = 64"
    by (auto simp: sha_rep_def sha_core_def)
  then have "64 dvd ctx_buffer_len ctx" using assms(2) by (simp add: dvd_add_right_iff)
  with L(1) have "ctx_buffer_len ctx = 0" by (auto dest: dvd_imp_le)
  with m1 show ?thesis by simp
qed

lemma bitcoin_header_midstate_eq:
  assumes "length header = 80" "length (ctx_buffer stack) = 64"
  shows "bitcoin_header_midstate stack header = Some (sha256_compress sha256_iv (take 64 header))"
proof -
  obtain ctx where ctx: "sha256_update (sha256_init stack) (take 64 header) = Some ctx"
      "sha_rep ctx (take 64 header)"
    using sha_rep_update[OF sha_rep_init[OF assms(2)], of "take 64 header"] by auto
  have "ctx_h ctx = sha256_compress sha256_iv (take 64 header)"
    using sha_rep_block[OF ctx(2)] absorb_block[of "[]" "take 64 header"] assms(1)
    by (simp add: blocks_short)
  moreover have "map (\<lambda>i. xs ! i) [0..<8] = xs" if "length xs = 8" for xs :: "u32 list"
    using that by (metis map_nth)
  moreover have "length (sha256_compress s b) = 8" for s b
    by (simp add: sha256_compress_def split: prod.split)
  ultimately show ?thesis by (simp add: bitcoin_header_midstate_def ctx(1))
qed

lemma concat_store_load:
  "length p = 4 * n \<Longrightarrow> concat (map (\<lambda>i. store_be32 (load_be32 (drop (i * 4) p))) [0..<n]) = p"
proof (induction n arbitrary: p)
  case 0
  then show ?case by simp
next
  case (Suc n)
  have "store_be32 (load_be32 p) = take 4 p"
    using Suc.prems store_load_be32[of "take 4 p"] by (simp add: load_be32_def)
  moreover have "map (\<lambda>i. store_be32 (load_be32 (drop (i * 4) p))) [0..<Suc n]
      = store_be32 (load_be32 p) #
        map (\<lambda>i. store_be32 (load_be32 (drop (i * 4) (drop 4 p)))) [0..<n]"
    by (simp only: upt_conv_Cons[OF zero_less_Suc] list.map map_Suc_upt[symmetric] list.map_comp)
       (simp add: comp_def add.commute)
  ultimately show ?case using Suc.IH[of "drop 4 p"] Suc.prems by simp
qed

lemma tail_words_bytes:
  assumes "length header = 80"
  shows "concat (map store_be32 ((bitcoin_header_tail_words header)[3 := nonce]))
       = take 12 (drop 64 header) @ store_be32 nonce"
proof -
  have "concat (map (\<lambda>i. store_be32 (load_be32 (drop (i * 4) (take 12 (drop 64 header))))) [0..<3])
      = take 12 (drop 64 header)"
    using assms by (intro concat_store_load) simp
  moreover have w: "load_be32 (drop (i * 4) (take 12 (drop 64 header))) = load_be32 (drop (64 + i * 4) header)"
    if "i < 3" for i
    using that assms by (auto simp: load_be32_def less_Suc_eq numeral_eq_Suc)
  ultimately show ?thesis
    using w[of 0] w[of 1] w[of 2] by (simp add: bitcoin_header_tail_words_def upt_rec)
qed

lemma header_split:
  assumes "length header = 80" and "length (ctx_buffer stack) = 64"
  shows "\<exists>midstate. bitcoin_header_midstate stack header = Some midstate \<and>
    sha256 (take 76 header @ store_be32 nonce) =
      concat (map store_be32
        (sha256_compress midstate
           (concat (map store_be32 ((bitcoin_header_tail_words header)[3 := nonce])) @
            [0x80] @ replicate 39 0 @ be_bytes 8 640)))"
proof -
  let ?h = "take 76 header @ store_be32 nonce"
  let ?B = "take 12 (drop 64 header) @ store_be32 nonce @ [0x80] @ replicate 39 0 @ be_bytes 8 640"
  have len: "length (store_be32 nonce) = 4" by (simp add: store_be32_def)
  have h: "?h = take 64 header @ (take 12 (drop 64 header) @ store_be32 nonce)"
    using assms(1) by (simp add: take_add[of 64 12, simplified])
  have "std_pad ?h = take 64 header @ ?B"
    using assms(1) len std_pad_split[of "take 64 header" "take 12 (drop 64 header) @ store_be32 nonce"]
    by (simp add: h)
  then have "blocks 64 (std_pad ?h) = [take 64 header, ?B]"
    using assms(1) len blocks_step[of "take 64 header" 64 ?B] blocks_step[of ?B 64 "[]"]
    by (simp add: blocks_short)
  then have "sha256 ?h = concat (map store_be32 (std_compress (std_compress sha256_iv (take 64 header)) ?B))"
    by (simp add: sha256_def store_be32_be_bytes[abs_def])
  moreover have "std_compress sha256_iv (take 64 header) = sha256_compress sha256_iv (take 64 header)"
    using assms(1) by (simp add: sha256_compress_std sha256_iv_def)
  moreover have "std_compress H ?B = sha256_compress H ?B" if "length H = 8" for H
    using that assms(1) len by (simp add: sha256_compress_std)
  moreover have "length (sha256_compress sha256_iv (take 64 header)) = 8"
    by (simp add: sha256_compress_def split: prod.split)
  ultimately show ?thesis
    by (simp add: bitcoin_header_midstate_eq[OF assms] tail_words_bytes[OF assms(1)])
qed

text \<open>
  The split of a block header between the processors is exact: for every nonce, the
  digest of the header with that nonce in its last four bytes is one compression of the
  midstate with the programmed tail words (word 3 overridden by the nonce) and the padding
  of an 80-byte message.
\<close>

theorem header_split_correct:
  assumes "length header = 80" and "length (ctx_buffer stack) = 64"
  shows "\<exists>midstate. bitcoin_header_midstate stack header = Some midstate \<and>
    sha256 (take 76 header @ store_be32 nonce) =
      concat (map store_be32
        (sha256_compress midstate
           (concat (map store_be32 ((bitcoin_header_tail_words header)[3 := nonce])) @
            [0x80] @ replicate 39 0 @ be_bytes 8 640)))"
  using assms by (rule header_split)

theorem header_split_correct_witness:
  "\<exists>midstate. bitcoin_header_midstate
       \<lparr>ctx_h = [], ctx_bit_count = 0, ctx_buffer = replicate 64 0, ctx_buffer_len = 0\<rparr>
       (replicate 80 0x11) = Some midstate \<and>
    sha256 (take 76 (replicate 80 0x11) @ store_be32 0x2a) =
      concat (map store_be32
        (sha256_compress midstate
           (concat (map store_be32 ((bitcoin_header_tail_words (replicate 80 0x11))[3 := 0x2a])) @
            [0x80] @ replicate 39 0 @ be_bytes 8 640)))"
  by (rule header_split_correct) simp_all

end
