(* ===== verification/Sha256_Vectors.thy ===== *)
theory Sha256_Vectors
  imports Sha256
begin

section \<open>A published test vector, computed by the model\<close>

text \<open>
  The model of \<^verbatim>\<open>src/sha256_sw.c\<close> run by the kernel's simplifier on the one-block test vector
  of the standard. Together with the equivalence of the streaming code and the reference
  definition, it pins the reference definition, constants included, to the real SHA-256.
\<close>

definition fresh_ctx :: sha256_ctx where
  "fresh_ctx = \<lparr>ctx_h = [], ctx_bit_count = 0, ctx_buffer = replicate 64 0, ctx_buffer_len = 0\<rparr>"

lemma sha256_code_abc:
  "map_option snd (Option.bind (sha256_update (sha256_init fresh_ctx) [0x61, 0x62, 0x63]) sha256_final)
   = Some [0xba, 0x78, 0x16, 0xbf, 0x8f, 0x01, 0xcf, 0xea, 0x41, 0x41, 0x40, 0xde, 0x5d, 0xae, 0x22, 0x23,
           0xb0, 0x03, 0x61, 0xa3, 0x96, 0x17, 0x7a, 0x9c, 0xb4, 0x10, 0xff, 0x61, 0xf2, 0x00, 0x15, 0xad]"
  by code_simp

text \<open>
  Known answer: the code, and by it the reference definition, map the message \<open>abc\<close> to
  its published SHA-256 digest.
\<close>

theorem sha256_abc:
  "sha256 [0x61, 0x62, 0x63] =
     [0xba, 0x78, 0x16, 0xbf, 0x8f, 0x01, 0xcf, 0xea, 0x41, 0x41, 0x40, 0xde, 0x5d, 0xae, 0x22, 0x23,
      0xb0, 0x03, 0x61, 0xa3, 0x96, 0x17, 0x7a, 0x9c, 0xb4, 0x10, 0xff, 0x61, 0xf2, 0x00, 0x15, 0xad]
   \<and> map_option snd (Option.bind (sha256_update (sha256_init fresh_ctx) [0x61, 0x62, 0x63]) sha256_final)
     = Some (sha256 [0x61, 0x62, 0x63])"
proof -
  have "length (ctx_buffer fresh_ctx) = 64" by (simp add: fresh_ctx_def)
  from sha.absorb_finish[OF sha_rep_init[OF this], of "[0x61, 0x62, 0x63]"]
  have "map_option snd (Option.bind (sha256_update (sha256_init fresh_ctx) [0x61, 0x62, 0x63]) sha256_final)
      = Some (sha256 [0x61, 0x62, 0x63])" by auto
  with sha256_code_abc show ?thesis by simp
qed

end
