(* ===== verification/CLib.thy ===== *)
theory CLib
  imports Prelude
begin

unbundle bit_operations_syntax

section \<open>C strings and the library functions the firmware calls on them\<close>

text \<open>
  A C string is the list of its characters before the terminating NUL; a pointer into a string is
  the suffix it points to, and reading through a pointer at the end of the list reads the NUL. The
  firmware's \<open>char\<close> is unsigned (ARM). The functions are those of the C standard library that the
  application uses: \<open>strstr\<close>, \<open>strchr\<close>, \<open>strtoul\<close> with a 32-bit \<open>unsigned long\<close>, \<open>strtod\<close>,
  the \<open>isdigit\<close> and \<open>isspace\<close> classes, and the conversions of \<open>snprintf\<close>.

  A \<open>double\<close> is a sign, a significand and a binary exponent, an infinity or a NaN; \<open>strtod\<close>
  rounds the decimal or hexadecimal number to the nearest double, ties to even.
\<close>

subsection \<open>Strings in buffers\<close>

definition NUL :: char where "NUL = CHR 0x00"

text \<open>The string that starts at the beginning of a buffer.\<close>

definition c_string :: "char list \<Rightarrow> string" where
  "c_string buf = takeWhile (\<lambda>c. c \<noteq> NUL) buf"

text \<open>What \<open>snprintf(dst, n, "%s", s)\<close> leaves in a buffer of \<open>n\<close> bytes.\<close>

definition snprintf_s :: "nat \<Rightarrow> string \<Rightarrow> string" where
  "snprintf_s n s = take (n - 1) s"

definition starts_with :: "string \<Rightarrow> string \<Rightarrow> bool" where
  "starts_with p s \<longleftrightarrow> take (length p) s = p"

fun strstr :: "string \<Rightarrow> string \<Rightarrow> string option" where
  "strstr [] needle = (if needle = [] then Some [] else None)"
| "strstr (c # s) needle = (if starts_with needle (c # s) then Some (c # s) else strstr s needle)"

fun strchr :: "string \<Rightarrow> char \<Rightarrow> string option" where
  "strchr [] ch = None"
| "strchr (c # s) ch = (if c = ch then Some (c # s) else strchr s ch)"

definition isspace :: "char \<Rightarrow> bool" where
  "isspace c \<longleftrightarrow> c \<in> {CHR 0x20, CHR 0x09, CHR 0x0A, CHR 0x0B, CHR 0x0C, CHR 0x0D}"

definition isdigit :: "char \<Rightarrow> bool" where
  "isdigit c \<longleftrightarrow> c \<in> set ''0123456789''"

text \<open>The value of a digit or letter as a digit; 36 for everything else.\<close>

definition digit_value :: "char \<Rightarrow> int" where
  "digit_value c =
     (let n = of_char c :: int
      in if 48 \<le> n \<and> n \<le> 57 then n - 48
         else if 97 \<le> n \<and> n \<le> 122 then n - 87
         else if 65 \<le> n \<and> n \<le> 90 then n - 55
         else 36)"


subsection \<open>strtoul\<close>

text \<open>Reads digits of the base: the value, and the rest of the string.\<close>

fun read_digits :: "int \<Rightarrow> int \<Rightarrow> string \<Rightarrow> int \<times> string" where
  "read_digits base acc [] = (acc, [])"
| "read_digits base acc (c # s) =
     (if digit_value c < base then read_digits base (acc * base + digit_value c) s else (acc, c # s))"

definition is_digit_of :: "int \<Rightarrow> string \<Rightarrow> bool" where
  "is_digit_of base s = (case s of [] \<Rightarrow> False | c # _ \<Rightarrow> digit_value c < base)"

definition read_sign :: "string \<Rightarrow> bool \<times> string" where
  "read_sign s =
     (case s of
        c # r \<Rightarrow> if c = CHR ''-'' then (True, r) else if c = CHR ''+'' then (False, r) else (False, s)
      | [] \<Rightarrow> (False, s))"

definition skip_0x :: "string \<Rightarrow> string" where
  "skip_0x s =
     (case s of
        z # x # r \<Rightarrow> if z = CHR ''0'' \<and> (x = CHR ''x'' \<or> x = CHR ''X'') \<and> is_digit_of 16 r then r else s
      | _ \<Rightarrow> s)"

definition strtoul :: "string \<Rightarrow> int \<Rightarrow> u32 \<times> string" where
  "strtoul str base =
     (let (neg, s1) = read_sign (dropWhile isspace str);
          s2 = (if base = 16 then skip_0x s1 else s1)
      in if is_digit_of base s2
         then let (v, rest) = read_digits base 0 s2
              in (if 0xFFFFFFFF < v then 0xFFFFFFFF
                  else if neg then - of_int v else of_int v, rest)
         else (0, str))"


subsection \<open>strtod and double\<close>

datatype double = DNan | DInf bool | DFin bool int int

text \<open>Division rounded to nearest, ties to even.\<close>

definition round_div :: "int \<Rightarrow> int \<Rightarrow> int" where
  "round_div p q =
     (let d = p div q; r = p mod q
      in if 2 * r < q \<or> (2 * r = q \<and> even d) then d else d + 1)"

text \<open>The number of binary digits of a positive integer.\<close>

function bit_size :: "int \<Rightarrow> int" where
  "bit_size p = (if p \<le> 0 then 0 else bit_size (p div 2) + 1)"
  by auto
termination by (relation "measure nat") auto

declare bit_size.simps [simp del]

text \<open>The double nearest to \<open>p / q\<close> for \<open>0 \<le> p\<close> and \<open>0 < q\<close>.\<close>

definition round_double :: "bool \<Rightarrow> int \<Rightarrow> int \<Rightarrow> double" where
  "round_double neg p q =
     (if p = 0 then DFin neg 0 0
      else
        let k0 = bit_size p - bit_size q;
            ge = (if 0 \<le> k0 then q * 2 ^ nat k0 \<le> p else q \<le> p * 2 ^ nat (- k0));
            k = (if ge then k0 else k0 - 1);
            e = max (k - 52) (- 1074);
            m = (if 0 \<le> e then round_div p (q * 2 ^ nat e) else round_div (p * 2 ^ nat (- e)) q)
        in if 1024 \<le> bit_size m + e then DInf neg else DFin neg m e)"

text \<open>An optional exponent part introduced by one of the given letters.\<close>

definition read_exponent :: "string \<Rightarrow> string \<Rightarrow> int" where
  "read_exponent letters s =
     (case s of
        c # r \<Rightarrow>
          if c \<in> set letters then
            let (neg, r1) = read_sign r
            in if is_digit_of 10 r1
               then (let v = fst (read_digits 10 0 r1) in if neg then - v else v) else 0
          else 0
      | [] \<Rightarrow> 0)"

text \<open>Digits with an optional point: whether there is a digit, the value scaled, the digits after the point.\<close>

definition read_fraction :: "int \<Rightarrow> string \<Rightarrow> (int \<times> nat \<times> string) option" where
  "read_fraction base s =
     (let (v, r) = read_digits base 0 s; whole = is_digit_of base s
      in case r of
           c # r1 \<Rightarrow>
             if c = CHR ''.'' then
               let (w, r2) = read_digits base v r1; frac = is_digit_of base r1
               in if whole \<or> frac then Some (w, length r1 - length r2, r2) else None
             else if whole then Some (v, 0, r) else None
         | [] \<Rightarrow> if whole then Some (v, 0, r) else None)"

definition scaled :: "bool \<Rightarrow> int \<Rightarrow> int \<Rightarrow> int \<Rightarrow> double" where
  "scaled neg m base ex =
     (if 0 \<le> ex then round_double neg (m * base ^ nat ex) 1 else round_double neg m (base ^ nat (- ex)))"

definition lower_char :: "char \<Rightarrow> char" where
  "lower_char c = (let n = of_char c :: nat in if 65 \<le> n \<and> n \<le> 90 then char_of (n + 32) else c)"

definition strtod :: "string \<Rightarrow> double" where
  "strtod str =
     (let (neg, s) = read_sign (dropWhile isspace str)
      in if starts_with ''inf'' (map lower_char s) then DInf neg
         else if starts_with ''nan'' (map lower_char s) then DNan
         else
           let h = skip_0x s
           in if h \<noteq> s then
                (case read_fraction 16 h of
                   Some (m, n, r) \<Rightarrow> scaled neg m 2 (read_exponent ''pP'' r - 4 * int n)
                 | None \<Rightarrow> DFin neg 0 0)
              else
                (case read_fraction 10 s of
                   Some (m, n, r) \<Rightarrow> scaled neg m 10 (read_exponent ''eE'' r - int n)
                 | None \<Rightarrow> DFin neg 0 0))"

text \<open>\<open>d > 0.0\<close>, \<open>d < 1.0\<close>.\<close>

definition double_pos :: "double \<Rightarrow> bool" where
  "double_pos d = (case d of DNan \<Rightarrow> False | DInf neg \<Rightarrow> \<not> neg | DFin neg m e \<Rightarrow> \<not> neg \<and> 0 < m)"

definition double_less_one :: "double \<Rightarrow> bool" where
  "double_less_one d =
     (case d of
        DNan \<Rightarrow> False
      | DInf neg \<Rightarrow> neg
      | DFin neg m e \<Rightarrow> neg \<or> (if 0 \<le> e then m * 2 ^ nat e < 1 else m < 2 ^ nat (- e)))"

text \<open>The integer part of a double; None for an infinity or a NaN.\<close>

definition double_trunc :: "double \<Rightarrow> int option" where
  "double_trunc d =
     (case d of
        DNan \<Rightarrow> None
      | DInf _ \<Rightarrow> None
      | DFin neg m e \<Rightarrow>
          let t = (if 0 \<le> e then m * 2 ^ nat e else m div 2 ^ nat (- e)) in Some (if neg then - t else t))"


subsection \<open>Number formats\<close>

definition hex_digit :: "nat \<Rightarrow> char" where
  "hex_digit n = ''0123456789abcdef'' ! (n mod 16)"

text \<open>\<open>%08lx\<close> of a 32-bit value.\<close>

definition format_08lx :: "u32 \<Rightarrow> string" where
  "format_08lx w = map (\<lambda>i. hex_digit (unat (drop_bit (4 * (7 - i)) w AND 15))) [0..<8]"

fun dec_digits :: "nat \<Rightarrow> string" where
  "dec_digits n = (if n < 10 then [hex_digit n] else dec_digits (n div 10) @ [hex_digit (n mod 10)])"

declare dec_digits.simps [simp del]

definition format_lu :: "u32 \<Rightarrow> string" where
  "format_lu w = dec_digits (unat w)"

definition format_ld :: "int \<Rightarrow> string" where
  "format_ld i = (if i < 0 then ''-'' @ dec_digits (nat (- i)) else dec_digits (nat i))"


subsection \<open>Scanning\<close>

lemma strstr_split:
  "strstr s needle = Some r \<Longrightarrow> \<exists>pre. s = pre @ r \<and> starts_with needle r"
proof (induction s)
  case (Cons c s)
  then show ?case
  proof (cases "starts_with needle (c # s)")
    case False
    with Cons obtain pre where "s = pre @ r" "starts_with needle r" by auto
    then show ?thesis by (intro exI[of _ "c # pre"]) simp
  qed auto
qed (auto simp: starts_with_def split: if_splits)

lemma strstr_length [cstring_simps]: "strstr s needle = Some r \<Longrightarrow> length r \<le> length s"
  using strstr_split by fastforce

lemma starts_with_length: "starts_with p s \<Longrightarrow> length p \<le> length s"
  by (metis length_take min.cobounded1 starts_with_def)

lemma strchr_split: "strchr s c = Some r \<Longrightarrow> \<exists>pre r'. s = pre @ r \<and> r = c # r'"
proof (induction s)
  case (Cons d s)
  then show ?case
  proof (cases "d = c")
    case False
    with Cons obtain pre r' where "s = pre @ r" "r = c # r'" by auto
    then have "d # s = (d # pre) @ r \<and> r = c # r'" by simp
    then show ?thesis by blast
  qed auto
qed simp

lemma strchr_append: "c \<notin> set pre \<Longrightarrow> strchr (pre @ c # r) c = Some (c # r)"
  by (induction pre) auto

lemma read_digits_length [cstring_simps]: "length (snd (read_digits base acc s)) \<le> length s"
  by (induction base acc s rule: read_digits.induct) (auto intro: le_SucI)

lemma read_digits_progress:
  "is_digit_of base s \<Longrightarrow> length (snd (read_digits base acc s)) < length s"
  using read_digits_length by (cases s) (auto simp: is_digit_of_def less_Suc_eq_le)

lemma dropWhile_length: "length (dropWhile P s) \<le> length s"
  by (induction s) auto

lemma read_sign_length: "length (snd (read_sign s)) \<le> length s"
  by (simp add: read_sign_def split: list.split)

lemma skip_0x_length: "length (skip_0x s) \<le> length s"
  by (simp add: skip_0x_def split: list.split)

lemma isdigit_iff: "isdigit c \<longleftrightarrow> 48 \<le> (of_char c :: nat) \<and> (of_char c :: nat) \<le> 57"
proof -
  have eq: "set ''0123456789'' = char_of ` set [48..<58::nat]"
    by code_simp
  show ?thesis
  proof
    assume "isdigit c"
    then show "48 \<le> (of_char c :: nat) \<and> (of_char c :: nat) \<le> 57"
      by (auto simp: isdigit_def)
  next
    assume "48 \<le> (of_char c :: nat) \<and> (of_char c :: nat) \<le> 57"
    then have "(of_char c :: nat) \<in> {48..<58}" by auto
    then have "(of_char c :: nat) \<in> set [48..<58]" by (simp only: set_upt)
    then have "char_of (of_char c :: nat) \<in> char_of ` set [48..<58::nat]" by (rule imageI)
    then show "isdigit c" by (simp only: char_of_char isdigit_def eq)
  qed
qed

lemma isdigit_value: "isdigit c \<longleftrightarrow> digit_value c < 10"
proof -
  have "(of_char c :: int) = int (of_char c)" by (simp add: of_nat_of_char)
  then show ?thesis
    unfolding isdigit_iff digit_value_def Let_def by (auto simp del: of_nat_of_char)
qed

text \<open>\<open>strtoul(s, &s, 10)\<close> on a digit moves the cursor.\<close>

lemma strtoul_progress:
  assumes "isdigit c"
  shows "length (snd (strtoul (c # s) 10)) < length (c # s)"
proof -
  have "\<not> isspace c" "c \<noteq> CHR ''-''" "c \<noteq> CHR ''+''"
    using assms by (auto simp: isdigit_def isspace_def)
  then have "dropWhile isspace (c # s) = c # s" "read_sign (c # s) = (False, c # s)"
    by (simp_all add: read_sign_def)
  moreover have "is_digit_of 10 (c # s)" using assms by (simp add: is_digit_of_def isdigit_value)
  ultimately show ?thesis
    using read_digits_progress[of 10 "c # s" 0] by (simp add: strtoul_def split_beta Let_def)
qed


subsection \<open>Decimal numbers are read exactly\<close>

lemma digit_value_hex_digit: "n < 16 \<Longrightarrow> digit_value (hex_digit n) = int n"
proof -
  assume "n < 16"
  then have "n \<in> set [0..<16]" by simp
  then show ?thesis by (simp add: upt_rec) (elim disjE; simp add: hex_digit_def digit_value_def)
qed

lemma read_digits_append:
  assumes "\<forall>c \<in> set ds. digit_value c < base"
  shows "read_digits base acc (ds @ s) =
         read_digits base (foldl (\<lambda>a c. a * base + digit_value c) acc ds) s"
  using assms by (induction ds arbitrary: acc) auto

lemma dec_digits_foldl:
  "foldl (\<lambda>a c. a * 10 + digit_value c) 0 (dec_digits n) = int n \<and>
   (\<forall>c \<in> set (dec_digits n). digit_value c < 10) \<and> dec_digits n \<noteq> []"
proof (induction n rule: dec_digits.induct)
  case (1 n)
  show ?case
  proof (cases "n < 10")
    case True
    then show ?thesis by (subst (1 2 3) dec_digits.simps) (simp add: digit_value_hex_digit)
  next
    case False
    have "dec_digits n = dec_digits (n div 10) @ [hex_digit (n mod 10)]"
      using False by (subst dec_digits.simps) simp
    then show ?thesis
      using 1[OF False] by (auto simp: digit_value_hex_digit) presburger
  qed
qed

lemma read_digits_dec:
  assumes "\<not> is_digit_of 10 s"
  shows "read_digits 10 0 (dec_digits n @ s) = (int n, s)"
  using dec_digits_foldl[of n] assms read_digits_append[of "dec_digits n" 10 0 s]
  by (cases s) (auto simp: is_digit_of_def)

lemma bit_size_pos: "0 < p \<Longrightarrow> bit_size p = bit_size (p div 2) + 1"
  by (subst bit_size.simps) simp

lemma bit_size_zero: "p \<le> 0 \<Longrightarrow> bit_size p = 0"
  by (subst bit_size.simps) simp

lemma bit_size_bounds:
  "0 < p \<Longrightarrow> 1 \<le> bit_size p \<and> 2 ^ nat (bit_size p - 1) \<le> p \<and> p < 2 ^ nat (bit_size p)"
proof (induction p rule: bit_size.induct)
  case (1 p)
  show ?case
  proof (cases "p = 1")
    case True
    then show ?thesis by (simp add: bit_size_pos bit_size_zero)
  next
    case False
    then have "0 < p div 2" using "1.prems" by auto
    with 1 have IH: "1 \<le> bit_size (p div 2)" "2 ^ nat (bit_size (p div 2) - 1) \<le> p div 2"
      "p div 2 < 2 ^ nat (bit_size (p div 2))" by auto
    let ?b = "bit_size (p div 2)"
    have n: "nat ?b = Suc (nat (?b - 1))" "nat (?b + 1) = Suc (nat ?b)" using IH(1) by auto
    have "2 ^ nat ?b \<le> p" "p < 2 ^ nat (?b + 1)"
      using IH(2,3) unfolding n by auto
    then show ?thesis using "1.prems" IH(1) by (simp add: bit_size_pos)
  qed
qed

lemma round_div_one: "round_div p 1 = p"
  by (simp add: round_div_def)

text \<open>Integers below 2^53 are doubles.\<close>

lemma round_double_exact:
  assumes "0 < p" "p < 2 ^ 53"
  shows "\<exists>n. round_double False p 1 = DFin False (p * 2 ^ n) (- int n)"
proof -
  let ?b = "bit_size p"
  note b = bit_size_bounds[OF assms(1)]
  have b53: "?b \<le> 53"
  proof (rule ccontr)
    assume "\<not> ?b \<le> 53"
    then have "53 \<le> nat (?b - 1)" by simp
    then have "(2::int) ^ 53 \<le> 2 ^ nat (?b - 1)" by (rule power_increasing) simp
    with b assms(2) show False by simp
  qed
  have one: "bit_size 1 = 1" by (simp add: bit_size_pos bit_size_zero)
  define n where "n = nat (53 - ?b)"
  have n: "int n = 53 - ?b" using b53 by (simp add: n_def)
  define m where "m = p * 2 ^ n"
  have m: "0 < m" "m < 2 ^ 53"
  proof -
    have "p * 2 ^ n < 2 ^ nat ?b * 2 ^ n" using b by simp
    also have "\<dots> = 2 ^ (nat ?b + n)" by (simp add: power_add)
    also have "nat ?b + n = 53" using n b by linarith
    finally show "m < 2 ^ 53" by (simp add: m_def)
  qed (simp add: m_def assms(1))
  have mb: "bit_size m \<le> 53"
  proof (rule ccontr)
    assume "\<not> bit_size m \<le> 53"
    then have "53 \<le> nat (bit_size m - 1)" by simp
    then have "(2::int) ^ 53 \<le> 2 ^ nat (bit_size m - 1)" by (rule power_increasing) simp
    with bit_size_bounds[OF m(1)] m(2) show False by simp
  qed
  have e: "max (?b - 1 - 52) (- 1074) = - int n" using b n by simp
  have "round_double False p 1 =
      (if 1024 \<le> bit_size m + (- int n) then DInf False else DFin False m (- int n))"
    using assms(1) b e
    by (cases "n = 0") (simp_all add: round_double_def one Let_def round_div_one m_def)
  then show ?thesis using mb by (auto simp: m_def)
qed

lemma strtod_decimal:
  assumes "0 < n" "int n < 2 ^ 53" and "s = [] \<or> (hd s \<notin> set ''0123456789.eExX'')"
  shows "\<exists>k. strtod (dec_digits n @ s) = DFin False (int n * 2 ^ k) (- int k)"
proof -
  obtain c ds where c: "dec_digits n = c # ds" using dec_digits_foldl[of n] by (cases "dec_digits n") auto
  have dig: "\<forall>d \<in> set (dec_digits n). digit_value d < 10" using dec_digits_foldl by blast
  then have isd: "isdigit c" using c by (simp add: isdigit_value)
  have nd: "\<not> is_digit_of 10 s"
    using assms(3) by (cases s) (auto simp: is_digit_of_def isdigit_value[symmetric] isdigit_def)
  have ws: "dropWhile isspace (dec_digits n @ s) = dec_digits n @ s"
    using isd by (auto simp: c isspace_def isdigit_def)
  have sg: "read_sign (dec_digits n @ s) = (False, dec_digits n @ s)"
    using isd by (auto simp: c read_sign_def isdigit_def)
  have inf: "\<not> starts_with ''inf'' (map lower_char (dec_digits n @ s))"
    "\<not> starts_with ''nan'' (map lower_char (dec_digits n @ s))"
    using isd by (auto simp: c starts_with_def isdigit_def lower_char_def)
  have hx: "skip_0x (dec_digits n @ s) = dec_digits n @ s"
  proof (cases ds)
    case Nil
    then show ?thesis using assms(3) by (auto simp: c skip_0x_def split: list.split)
  next
    case (Cons d ds')
    then have "isdigit d" using dig c by (simp add: isdigit_value)
    then show ?thesis using Cons by (auto simp: c skip_0x_def isdigit_def)
  qed
  have fr: "read_fraction 10 (dec_digits n @ s) = Some (int n, 0, s)"
    using read_digits_dec[OF nd, of n] assms(3) dig
    by (cases s) (auto simp: read_fraction_def c is_digit_of_def)
  have ex: "read_exponent ''eE'' s = 0" using assms(3) by (cases s) (auto simp: read_exponent_def)
  show ?thesis
    using round_double_exact[of "int n"] assms(1,2)
    by (simp add: strtod_def ws sg inf hx fr ex scaled_def del: map_append)
qed

lemma double_trunc_exact: "0 \<le> n \<Longrightarrow> double_trunc (DFin False (n * 2 ^ k) (- int k)) = Some n"
  by (cases "k = 0") (simp_all add: double_trunc_def)

lemma double_ge_one: "0 < n \<Longrightarrow> \<not> double_less_one (DFin False (n * 2 ^ k) (- int k))"
  by (cases "k = 0") (simp_all add: double_less_one_def)

end
