(* ===== verification/Stratum_Parse.thy ===== *)
theory Stratum_Parse
  imports CLib "HOL-Library.Monad_Syntax"
begin

unbundle bit_operations_syntax

section \<open>Reading the pool's messages\<close>

text \<open>
  The scanning half of \<^verbatim>\<open>src/stratum_client.c\<close>: hexadecimal conversion, the JSON cursor
  functions and the parsers of the five message kinds. A function that moves a cursor returns the
  remaining string; one that fills a caller's buffer returns the string it leaves there, and None
  where the code returns false (the callers then ignore the buffer).

  \<open>parse_subscribe_response\<close> can step its cursor over the terminating NUL of the line; from there
  it reads whatever the line buffer holds behind the string. The model reports that as \<open>Overrun\<close>.
\<close>

subsection \<open>Hexadecimal\<close>

definition hex_value :: "char \<Rightarrow> int" where
  "hex_value ch =
     (let c = of_char ch :: int
      in if 48 \<le> c \<and> c \<le> 57 then c - 48
         else if 97 \<le> c \<and> c \<le> 102 then 10 + c - 97
         else if 65 \<le> c \<and> c \<le> 70 then 10 + c - 65
         else -1)"

text \<open>The loop over the digit pairs.\<close>

fun hex_pairs :: "string \<Rightarrow> u8 list option" where
  "hex_pairs (h # l # s) =
     (let hi = hex_value h; lo = hex_value l
      in if hi < 0 \<or> lo < 0 then None
         else map_option (\<lambda>bs. of_int (push_bit 4 hi OR lo) # bs) (hex_pairs s))"
| "hex_pairs _ = Some []"

definition hex_to_bytes :: "string \<Rightarrow> nat \<Rightarrow> u8 list option" where
  "hex_to_bytes hex max_bytes =
     (if odd (length hex) \<or> max_bytes < length hex div 2 then None else hex_pairs hex)"

definition hex_u32 :: "string \<Rightarrow> u32" where
  "hex_u32 hex = fst (strtoul hex 16)"

definition store_le32 :: "u32 \<Rightarrow> u8 list" where
  "store_le32 value = [ucast value, ucast (drop_bit 8 value), ucast (drop_bit 16 value),
                       ucast (drop_bit 24 value)]"

definition reverse_copy :: "u8 list \<Rightarrow> nat \<Rightarrow> u8 list" where
  "reverse_copy src len = map (\<lambda>i. src ! (len - 1 - i)) [0..<len]"

definition k_hex :: "u8 \<Rightarrow> char" where
  "k_hex v = ''0123456789abcdef'' ! unat v"

text \<open>The writes into the caller's buffer of \<open>hex_size\<close> characters.\<close>

definition bytes_to_hex :: "u8 list \<Rightarrow> nat \<Rightarrow> char list \<Rightarrow> char list" where
  "bytes_to_hex bytes len hex =
     (let hex_size = length hex
      in if hex_size = 0 then hex
         else
           let hex1 = fold (\<lambda>i h. if i * 2 + 1 < hex_size
                                  then h[i * 2 := k_hex (drop_bit 4 (bytes ! i)),
                                         i * 2 + 1 := k_hex (bytes ! i AND 0x0f)]
                                  else h) [0..<len] hex
           in hex1[(if len * 2 < hex_size then len * 2 else hex_size - 1) := NUL])"


subsection \<open>JSON cursors\<close>

fun skip_ws :: "string \<Rightarrow> string" where
  "skip_ws [] = []"
| "skip_ws (c # s) =
     (if c = CHR '' '' \<or> c = CHR 0x09 \<or> c = CHR 0x0D \<or> c = CHR 0x0A then skip_ws s else c # s)"

fun skip_json_string_body :: "string \<Rightarrow> string option" where
  "skip_json_string_body [] = None"
| "skip_json_string_body (c # s) =
     (if c = CHR 0x5C then (case s of [] \<Rightarrow> None | _ # s' \<Rightarrow> skip_json_string_body s')
      else if c = CHR 0x22 then Some s
      else skip_json_string_body s)"

definition skip_json_string :: "string \<Rightarrow> string option" where
  "skip_json_string s =
     (case s of c # r \<Rightarrow> if c = CHR 0x22 then skip_json_string_body r else None | [] \<Rightarrow> None)"

text \<open>The copying loop of \<open>read_json_string\<close>: characters beyond the buffer are dropped.\<close>

definition push_char :: "nat \<Rightarrow> string \<Rightarrow> char \<Rightarrow> string" where
  "push_char dst_size dst ch = (if length dst + 1 < dst_size then dst @ [ch] else dst)"

fun read_json_body :: "nat \<Rightarrow> string \<Rightarrow> string \<Rightarrow> (string \<times> string) option" where
  "read_json_body dst_size dst [] = None"
| "read_json_body dst_size dst (ch # s) =
     (if ch = CHR 0x5C then
        (case s of [] \<Rightarrow> None | ch' # s' \<Rightarrow> read_json_body dst_size (push_char dst_size dst ch') s')
      else if ch = CHR 0x22 then Some (dst, s)
      else read_json_body dst_size (push_char dst_size dst ch) s)"

definition read_json_string :: "string \<Rightarrow> nat \<Rightarrow> (string \<times> string) option" where
  "read_json_string cursor dst_size =
     (case skip_ws cursor of
        c # s \<Rightarrow> if c \<noteq> CHR 0x22 \<or> dst_size = 0 then None else read_json_body dst_size [] s
      | [] \<Rightarrow> None)"

fun skip_json_value_loop :: "nat \<Rightarrow> bool \<Rightarrow> string \<Rightarrow> string" where
  "skip_json_value_loop depth in_string [] = []"
| "skip_json_value_loop depth in_string (c # s) =
     (if in_string then
        if c = CHR 0x5C
        then (case s of [] \<Rightarrow> skip_json_value_loop depth True []
                      | _ # s' \<Rightarrow> skip_json_value_loop depth True s')
        else if c = CHR 0x22 then skip_json_value_loop depth False s
        else skip_json_value_loop depth True s
      else if c = CHR 0x22 then skip_json_value_loop depth True s
      else if c = CHR ''['' \<or> c = CHR ''{'' then skip_json_value_loop (depth + 1) False s
      else if c = CHR '']'' \<or> c = CHR ''}'' then
        (if depth = 0 then c # s else skip_json_value_loop (depth - 1) False s)
      else if c = CHR '','' \<and> depth = 0 then c # s
      else skip_json_value_loop depth False s)"

definition skip_json_value :: "string \<Rightarrow> string" where
  "skip_json_value s = skip_json_value_loop 0 False (skip_ws s)"

definition find_params_array :: "string \<Rightarrow> string option" where
  "find_params_array line =
     (case strstr line (CHR 0x22 # ''params'' @ [CHR 0x22]) of
        None \<Rightarrow> None
      | Some p \<Rightarrow> (case strchr p (CHR ''['') of None \<Rightarrow> None | Some q \<Rightarrow> Some (tl q)))"

definition id_key :: string where "id_key = CHR 0x22 # ''id'' @ [CHR 0x22]"

function json_has_id :: "string \<Rightarrow> u32 \<Rightarrow> bool" where
  "json_has_id line i =
     (case strstr line id_key of
        None \<Rightarrow> False
      | Some p \<Rightarrow>
          let p1 = skip_ws (drop 4 p)
          in case p1 of
               c # p2 \<Rightarrow>
                 if c \<noteq> CHR '':'' then json_has_id p1 i
                 else let p3 = skip_ws p2
                      in if fst (strtoul p3 10) = i then True else json_has_id p3 i
             | [] \<Rightarrow> json_has_id p1 i)"
  by pat_completeness auto

lemma skip_ws_length [cstring_simps]: "length (skip_ws s) \<le> length s"
  by (induction s) auto

lemma id_key_progress:
  assumes "strstr line id_key = Some p"
  shows "length (skip_ws (drop 4 p)) < length line"
proof -
  have "4 \<le> length p" "length p \<le> length line"
    using strstr_split[OF assms] starts_with_length[of id_key p] strstr_length[OF assms]
    by (auto simp: id_key_def)
  then show ?thesis using skip_ws_length[of "drop 4 p"] by simp
qed

termination json_has_id
proof (relation "measure (\<lambda>(s, _). length s)", goal_cases)
  case (2 line i p p1)
  then show ?case using id_key_progress[of line p] by simp
next
  case (3 line i p p1 c p2)
  then show ?case using id_key_progress[of line p] by simp
next
  case (4 line i p p1 c p2 p3)
  then have "Suc (length p2) < length line" using id_key_progress[of line p] by (metis length_Cons)
  then show ?case using 4 skip_ws_length[of p2] by simp
qed simp

declare json_has_id.simps [simp del]

definition json_method_is :: "string \<Rightarrow> string \<Rightarrow> bool" where
  "json_method_is line method =
     (case strstr line (CHR 0x22 # ''method'' @ [CHR 0x22]) of
        None \<Rightarrow> False
      | Some p \<Rightarrow>
          (case skip_ws (drop 8 p) of
             c # q \<Rightarrow>
               if c \<noteq> CHR '':'' then False
               else (case read_json_string q 64 of None \<Rightarrow> False | Some (parsed, _) \<Rightarrow> parsed = method)
           | [] \<Rightarrow> False))"

definition skip_comma :: "string \<Rightarrow> string" where
  "skip_comma s = (case skip_ws s of c # r \<Rightarrow> if c = CHR '','' then r else c # r | [] \<Rightarrow> [])"

definition params_string :: "string \<Rightarrow> nat \<Rightarrow> (string \<times> string) option" where
  "params_string cursor dst_size =
     (case read_json_string (skip_ws cursor) dst_size of
        None \<Rightarrow> None | Some (dst, s) \<Rightarrow> Some (dst, skip_comma s))"

definition params_bool :: "string \<Rightarrow> (bool \<times> string) option" where
  "params_bool cursor =
     (let s = skip_ws cursor
      in if starts_with ''true'' s then Some (True, skip_comma (drop 4 s))
         else if starts_with ''false'' s then Some (False, skip_comma (drop 5 s))
         else None)"

definition STRATUM_MERKLE_BRANCHES :: nat where "STRATUM_MERKLE_BRANCHES = 16"
definition STRATUM_JOB_ID_BYTES :: nat where "STRATUM_JOB_ID_BYTES = 64"
definition STRATUM_EXTRANONCE1_BYTES :: nat where "STRATUM_EXTRANONCE1_BYTES = 32"
definition STRATUM_EXTRANONCE2_BYTES :: nat where "STRATUM_EXTRANONCE2_BYTES = 16"
definition STRATUM_COINBASE_BYTES :: nat where "STRATUM_COINBASE_BYTES = 512"

lemma read_json_body_length: "read_json_body n d s = Some (d', r) \<Longrightarrow> length r < length s"
  by (induction n d s rule: read_json_body.induct) (fastforce split: if_splits list.splits)+

lemma read_json_string_length [cstring_simps]:
  "read_json_string s n = Some (d, r) \<Longrightarrow> length r < length s"
  using read_json_body_length skip_ws_length[of s]
  by (fastforce simp: read_json_string_def split: list.splits if_splits)

text \<open>The loop over the branches, from the cursor behind the opening bracket.\<close>

function merkle_loop :: "string list \<Rightarrow> string \<Rightarrow> (string list \<times> string) option" where
  "merkle_loop branches cursor =
     (let s = skip_ws cursor
      in if s \<noteq> [] \<and> hd s = CHR '']'' then Some (branches, tl s)
         else if STRATUM_MERKLE_BRANCHES \<le> length branches then None
         else
           (case read_json_string s 65 of
              None \<Rightarrow> None
            | Some (b, r) \<Rightarrow>
                let r1 = skip_ws r
                in if r1 \<noteq> [] \<and> hd r1 = CHR '','' then merkle_loop (branches @ [b]) (tl r1)
                   else if r1 \<noteq> [] \<and> hd r1 = CHR '']'' then merkle_loop (branches @ [b]) r1
                   else None))"
  by pat_completeness auto
termination
proof (relation "measure (\<lambda>(_, s). length s)", goal_cases)
  case (2 branches cursor s x b r r1)
  then show ?case
    using read_json_string_length[of s 65 b r] skip_ws_length[of cursor] skip_ws_length[of r] by simp
next
  case (3 branches cursor s x b r r1)
  then show ?case
    using read_json_string_length[of s 65 b r] skip_ws_length[of cursor] skip_ws_length[of r] by simp
qed simp

declare merkle_loop.simps [simp del]

definition params_merkle_array :: "string \<Rightarrow> (string list \<times> string) option" where
  "params_merkle_array cursor =
     (case skip_ws cursor of
        c # s \<Rightarrow>
          if c \<noteq> CHR ''['' then None
          else (case merkle_loop [] s of None \<Rightarrow> None | Some (bs, r) \<Rightarrow> Some (bs, skip_comma r))
      | [] \<Rightarrow> None)"


subsection \<open>Messages\<close>

record stratum_notify =
  n_job_id :: string
  n_prevhash :: string
  n_coinb1 :: string
  n_coinb2 :: string
  n_merkle :: "string list"
  n_version :: string
  n_nbits :: string
  n_ntime :: string
  n_clean_jobs :: bool

text \<open>The fields in the order of the message; the chain stops at the first that fails.\<close>

definition parse_notify :: "string \<Rightarrow> stratum_notify option" where
  "parse_notify line = do {
     p0 \<leftarrow> find_params_array line;
     (job, p1) \<leftarrow> params_string p0 STRATUM_JOB_ID_BYTES;
     (prev, p2) \<leftarrow> params_string p1 65;
     (c1, p3) \<leftarrow> params_string p2 (STRATUM_COINBASE_BYTES * 2 + 1);
     (c2, p4) \<leftarrow> params_string p3 (STRATUM_COINBASE_BYTES * 2 + 1);
     (ms, p5) \<leftarrow> params_merkle_array p4;
     (ver, p6) \<leftarrow> params_string p5 9;
     (nb, p7) \<leftarrow> params_string p6 9;
     (nt, p8) \<leftarrow> params_string p7 9;
     (clean, p9) \<leftarrow> params_bool p8;
     Some \<lparr>n_job_id = job, n_prevhash = prev, n_coinb1 = c1, n_coinb2 = c2, n_merkle = ms,
           n_version = ver, n_nbits = nb, n_ntime = nt, n_clean_jobs = clean\<rparr> }"

definition parse_difficulty :: "string \<Rightarrow> double option" where
  "parse_difficulty line =
     (case find_params_array line of
        None \<Rightarrow> None
      | Some p \<Rightarrow> let d = strtod p in if double_pos d then Some d else None)"

text \<open>The big-endian words of 32 bytes.\<close>

definition target_words :: "u8 list \<Rightarrow> u32 list" where
  "target_words bytes =
     map (\<lambda>i. push_bit 24 (ucast (bytes ! (i * 4))) OR push_bit 16 (ucast (bytes ! (i * 4 + 1))) OR
              push_bit 8 (ucast (bytes ! (i * 4 + 2))) OR ucast (bytes ! (i * 4 + 3))) [0..<8]"

definition parse_target :: "string \<Rightarrow> u32 list option" where
  "parse_target line = do {
     p \<leftarrow> find_params_array line;
     (target_hex, r) \<leftarrow> params_string p 65;
     bytes \<leftarrow> hex_to_bytes target_hex 32;
     if length bytes \<noteq> 32 then None else Some (target_words bytes) }"

datatype 'a parsed = Parsed 'a | Rejected | Overrun

text \<open>
  The scan of the subscribe result: the last string, the last number, the bracket depth. The
  loop tests for the NUL before it skips white space, so on white space at the end of the line its
  last branch steps over the NUL.
\<close>

function subscribe_scan :: "string \<Rightarrow> u32 \<Rightarrow> nat \<Rightarrow> string \<Rightarrow> (string \<times> u32) parsed" where
  "subscribe_scan last_string last_number depth s =
     (if s = [] then Parsed (last_string, last_number)
      else case skip_ws s of
          [] \<Rightarrow> Overrun
        | c # r \<Rightarrow>
            if c = CHR 0x22 then
              (case read_json_string (c # r) (STRATUM_EXTRANONCE1_BYTES * 2 + 1) of
                 None \<Rightarrow> Rejected
               | Some (str, rest) \<Rightarrow> subscribe_scan str last_number depth rest)
            else if c = CHR ''['' then subscribe_scan last_string last_number (depth + 1) r
            else if c = CHR '']'' then
              (if depth \<le> 1 then Parsed (last_string, last_number)
               else subscribe_scan last_string last_number (depth - 1) r)
            else if isdigit c then
              (let (v, rest) = strtoul (c # r) 10 in subscribe_scan last_string v depth rest)
            else subscribe_scan last_string last_number depth r)"
  by pat_completeness auto
termination
proof (relation "measure (\<lambda>(_, _, _, s). length s)", goal_cases)
  case (2 ls ln depth s c r x str rest)
  then show ?case
    using read_json_string_length[of "c # r" "STRATUM_EXTRANONCE1_BYTES * 2 + 1" str rest]
      skip_ws_length[of s] by simp
next
  case (5 ls ln depth s c r x v rest)
  then show ?case
    using strtoul_progress[of c r] skip_ws_length[of s] by (simp add: prod_eq_iff)
qed (simp_all, (metis skip_ws_length length_Cons Suc_le_lessD)+)

declare subscribe_scan.simps [simp del]

text \<open>On success: the extranonce1 string and the size of extranonce2.\<close>

definition parse_subscribe_response :: "string \<Rightarrow> (string \<times> u32) parsed" where
  "parse_subscribe_response line =
     (case strstr line (CHR 0x22 # ''result'' @ [CHR 0x22]) of
        None \<Rightarrow> Rejected
      | Some result \<Rightarrow>
          if \<not> json_has_id line 1 then Rejected
          else
            case strchr result (CHR ''['') of
              None \<Rightarrow> Rejected
            | Some s \<Rightarrow>
                (case subscribe_scan [] 0 0 s of
                   Parsed (last_string, last_number) \<Rightarrow>
                     if last_string = [] \<or> of_nat STRATUM_EXTRANONCE2_BYTES < last_number then Rejected
                     else Parsed (snprintf_s (STRATUM_EXTRANONCE1_BYTES * 2 + 1) last_string, last_number)
                 | Rejected \<Rightarrow> Rejected
                 | Overrun \<Rightarrow> Overrun))"

definition parse_authorize_response :: "string \<Rightarrow> bool" where
  "parse_authorize_response line =
     (case strstr line (CHR 0x22 # ''result'' @ [CHR 0x22]) of
        None \<Rightarrow> False
      | Some result \<Rightarrow>
          if \<not> json_has_id line 2 then False else strstr result ''true'' \<noteq> None)"

text \<open>A string as JSON, with the two characters the reader treats specially escaped.\<close>

definition json_escape :: "string \<Rightarrow> string" where
  "json_escape s = concat (map (\<lambda>c. if c = CHR 0x22 \<or> c = CHR 0x5C then [CHR 0x5C, c] else [c]) s)"

definition json_quote :: "string \<Rightarrow> string" where
  "json_quote s = CHR 0x22 # json_escape s @ [CHR 0x22]"

definition json_list :: "string list \<Rightarrow> string" where
  "json_list bs = CHR ''['' # (case bs of [] \<Rightarrow> [] | b # bs' \<Rightarrow>
     json_quote b @ concat (map (\<lambda>x. CHR '','' # json_quote x) bs')) @ [CHR '']'']"

text \<open>The hexadecimal form of bytes.\<close>

definition hex_string :: "u8 list \<Rightarrow> string" where
  "hex_string bs = concat (map (\<lambda>b. [k_hex (drop_bit 4 b), k_hex (b AND 0x0f)]) bs)"

text \<open>A \<open>mining.notify\<close> line as a pool prints it.\<close>

definition notify_head :: string where
  "notify_head = CHR ''{'' # json_quote ''method'' @ '':'' @ json_quote ''mining.notify'' @ '','' @
     json_quote ''params'' @ '':[''"

definition print_notify :: "stratum_notify \<Rightarrow> string" where
  "print_notify n =
     notify_head @ json_quote (n_job_id n) @ '','' @ json_quote (n_prevhash n) @ '','' @
     json_quote (n_coinb1 n) @ '','' @ json_quote (n_coinb2 n) @ '','' @
     json_list (n_merkle n) @ '','' @ json_quote (n_version n) @ '','' @
     json_quote (n_nbits n) @ '','' @ json_quote (n_ntime n) @ '','' @
     (if n_clean_jobs n then ''true'' else ''false'') @ '']}''"

text \<open>The field widths of the firmware's buffers.\<close>

definition notify_fits :: "stratum_notify \<Rightarrow> bool" where
  "notify_fits n \<longleftrightarrow>
     length (n_job_id n) < STRATUM_JOB_ID_BYTES \<and> length (n_prevhash n) \<le> 64 \<and>
     length (n_coinb1 n) \<le> STRATUM_COINBASE_BYTES * 2 \<and> length (n_coinb2 n) \<le> STRATUM_COINBASE_BYTES * 2 \<and>
     length (n_merkle n) \<le> STRATUM_MERKLE_BRANCHES \<and> (\<forall>b \<in> set (n_merkle n). length b \<le> 64) \<and>
     length (n_version n) \<le> 8 \<and> length (n_nbits n) \<le> 8 \<and> length (n_ntime n) \<le> 8"


subsection \<open>Hexadecimal round trip\<close>

lemma hex_value_digit: "n < 16 \<Longrightarrow> hex_value (''0123456789abcdef'' ! n) = int n"
proof -
  assume "n < 16"
  then have "n \<in> set [0..<16]" by simp
  then show ?thesis by (simp add: upt_rec) (elim disjE; simp add: hex_value_def)
qed

lemma hex_value_bounds: "hex_value c \<le> 15"
  by (simp add: hex_value_def Let_def)

lemma nibbles_or: "lo < 16 \<Longrightarrow> push_bit 4 (int hi) OR int lo = int (16 * hi + lo)"
proof -
  assume "lo < 16"
  then have "take_bit 4 lo = lo" by (simp add: take_bit_nat_eq_self)
  then have "\<not> bit lo n" if "4 \<le> n" for n by (metis bit_take_bit_iff not_less that)
  then have "push_bit 4 hi OR lo = push_bit 4 hi + lo"
    by (intro disjunctive_add[symmetric]) (auto simp: bit_push_bit_iff)
  then have "int (push_bit 4 hi OR lo) = int (16 * hi + lo)" by (simp add: push_bit_eq_mult)
  then show ?thesis by (simp add: of_nat_or_eq of_nat_push_bit)
qed

lemma nibble_unat:
  "unat (drop_bit 4 b :: u8) = unat b div 16" "unat ((b :: u8) AND 0x0f) = unat b mod 16"
proof -
  have "(0x0f :: u8) = mask 4" by (simp add: mask_eq_exp_minus_1)
  then have "b AND 0x0f = take_bit 4 b" by (simp only: take_bit_eq_mask)
  then show "unat (b AND 0x0f) = unat b mod 16"
    using unsigned_take_bit_eq[of 4 b, where 'a = nat] by (simp only: take_bit_eq_mod) simp
  show "unat (drop_bit 4 b) = unat b div 16"
    using unat_drop_bit_eq[of 4 b] by (simp only: drop_bit_eq_div) simp
qed

lemma nibbles_split: "16 * unat (drop_bit 4 b :: u8) + unat (b AND 0x0f) = unat b"
  by (simp only: nibble_unat) simp

lemma nibble_bounds: "unat (drop_bit 4 b :: u8) < 16" "unat ((b :: u8) AND 0x0f) < 16"
proof -
  have "unat b < 256" using unsigned_less[of b, where 'a = nat] by simp
  then show "unat (drop_bit 4 b) < 16" by (simp only: nibble_unat)
  show "unat (b AND 0x0f) < 16" by (simp only: nibble_unat)
qed

lemma hex_pairs_hex_string: "hex_pairs (hex_string bs @ []) = Some bs"
proof (induction bs)
  case (Cons b bs)
  have v: "hex_value (k_hex (drop_bit 4 b)) = int (unat (drop_bit 4 b))"
    "hex_value (k_hex (b AND 0x0f)) = int (unat (b AND 0x0f))"
    unfolding k_hex_def by (rule hex_value_digit[OF nibble_bounds(1)] hex_value_digit[OF nibble_bounds(2)])+
  have "(of_int (push_bit 4 (int (unat (drop_bit 4 b))) OR int (unat (b AND 0x0f))) :: u8) = b"
    using nibbles_split[of b]
    unfolding nibbles_or[OF nibble_bounds(2)] by (simp only: of_int_of_nat_eq) simp
  then show ?case using Cons by (simp add: hex_string_def v)
qed (simp add: hex_string_def)

lemma length_hex_string: "length (hex_string bs) = 2 * length bs"
  by (induction bs) (simp_all add: hex_string_def)

lemma hex_pairs_length: "hex_pairs s = Some bs \<Longrightarrow> length bs = length s div 2"
  by (induction s arbitrary: bs rule: hex_pairs.induct) (auto simp: Let_def split: if_splits)

lemma hex_to_bytes_length:
  "hex_to_bytes s n = Some bs \<Longrightarrow> length s = 2 * length bs \<and> length bs \<le> n"
  using hex_pairs_length by (fastforce simp: hex_to_bytes_def split: if_splits)

lemma hex_string_nth:
  "i < length bs \<Longrightarrow> hex_string bs ! (2 * i) = k_hex (drop_bit 4 (bs ! i)) \<and>
                     hex_string bs ! (2 * i + 1) = k_hex (bs ! i AND 0x0f)"
proof (induction bs arbitrary: i)
  case (Cons b bs)
  then show ?case by (cases i) (auto simp: hex_string_def)
qed simp

lemma k_hex_not_nul: "unat v < 16 \<Longrightarrow> k_hex v \<noteq> NUL"
proof -
  assume "unat v < 16"
  then have "unat v \<in> set [0..<16]" by simp
  then show ?thesis unfolding k_hex_def NUL_def by (simp add: upt_rec) (elim disjE; simp)
qed

lemma hex_string_no_nul: "NUL \<notin> set (hex_string bs)"
  using k_hex_not_nul nibble_bounds by (auto simp: hex_string_def dest: sym)

lemma bytes_to_hex_loop:
  fixes bs :: "u8 list" and hex :: "char list"
  defines "f \<equiv> \<lambda>i h. if i * 2 + 1 < length hex
                     then h[i * 2 := k_hex (drop_bit 4 (bs ! i)), i * 2 + 1 := k_hex (bs ! i AND 0x0f)]
                     else h"
  assumes "k \<le> length bs"
  shows "length (fold f [0..<k] hex) = length hex \<and>
    (\<forall>j < 2 * k. 2 * (j div 2) + 1 < length hex \<longrightarrow> fold f [0..<k] hex ! j = hex_string bs ! j)"
  using assms(2)
proof (induction k)
  case (Suc k)
  let ?h = "fold f [0..<k] hex"
  have IH: "length ?h = length hex"
    "\<And>j. j < 2 * k \<Longrightarrow> 2 * (j div 2) + 1 < length hex \<Longrightarrow> ?h ! j = hex_string bs ! j"
    using Suc by simp_all
  have "f k ?h ! j = hex_string bs ! j" if "j < 2 * Suc k" "2 * (j div 2) + 1 < length hex" for j
  proof (cases "j < 2 * k")
    case True
    then show ?thesis using IH that by (simp add: f_def)
  next
    case False
    with that(1) have "j = 2 * k \<or> j = 2 * k + 1" by auto
    then show ?thesis
      using IH that hex_string_nth[of k bs] Suc.prems by (auto simp: f_def mult.commute)
  qed
  then show ?case using IH(1) by (simp add: f_def)
qed simp

lemma bytes_to_hex_string:
  assumes "hex \<noteq> []"
  shows "c_string (bytes_to_hex bs (length bs) hex) = take (length hex - 1) (hex_string bs) \<and>
         length (bytes_to_hex bs (length bs) hex) = length hex"
proof -
  let ?n = "length hex" and ?l = "length bs"
  define f where "f = (\<lambda>i h. if i * 2 + 1 < ?n
      then h[i * 2 := k_hex (drop_bit 4 (bs ! i)), i * 2 + 1 := k_hex (bs ! i AND 0x0f)] else h)"
  define h where "h = fold f [0..<?l] hex"
  define p where "p = (if ?l * 2 < ?n then ?l * 2 else ?n - 1)"
  have loop: "length h = ?n" "\<And>j. j < 2 * ?l \<Longrightarrow> 2 * (j div 2) + 1 < ?n \<Longrightarrow> h ! j = hex_string bs ! j"
    using bytes_to_hex_loop[of ?l bs hex, folded f_def] by (auto simp: h_def)
  have eq: "bytes_to_hex bs ?l hex = h[p := NUL]"
    using assms by (simp add: bytes_to_hex_def h_def f_def p_def Let_def)
  have p: "p < ?n" using assms by (auto simp: p_def)
  have pre: "take p h = take (?n - 1) (hex_string bs)"
  proof (rule nth_equalityI)
    show "length (take p h) = length (take (?n - 1) (hex_string bs))"
      using loop(1) by (auto simp: length_hex_string p_def)
    fix j assume "j < length (take p h)"
    then have j: "j < p" by simp
    have "j < 2 * ?l" "2 * (j div 2) + 1 < ?n" using j by (auto simp: p_def split: if_splits)
    then show "take p h ! j = take (?n - 1) (hex_string bs) ! j"
      using loop(2)[of j] j by (simp add: p_def split: if_splits)
  qed
  have "h[p := NUL] = take p h @ NUL # drop (Suc p) h" using p loop(1) by (simp add: upd_conv_take_nth_drop)
  moreover have "NUL \<notin> set (take p h)"
    using pre hex_string_no_nul in_set_takeD by metis
  then have "takeWhile (\<lambda>c. c \<noteq> NUL) (take p h @ NUL # drop (Suc p) h) = take p h"
    by (subst takeWhile_append2) auto
  ultimately have "c_string (bytes_to_hex bs ?l hex) = take (?n - 1) (hex_string bs)"
    using eq pre by (simp add: c_string_def)
  moreover have "length (bytes_to_hex bs ?l hex) = ?n" by (simp add: eq loop(1))
  ultimately show ?thesis ..
qed


subsection \<open>Strings\<close>

lemma push_char_length: "length d < n \<Longrightarrow> length (push_char n d c) < n"
  by (simp add: push_char_def)

lemma read_json_body_fits:
  "read_json_body n d s = Some (d', r) \<Longrightarrow> length d < n \<Longrightarrow> length d' < n"
  by (induction n d s rule: read_json_body.induct)
    (auto simp: push_char_length split: if_splits list.splits)

lemma read_json_string_fits: "read_json_string s n = Some (d, r) \<Longrightarrow> length d < n"
  using read_json_body_fits by (fastforce simp: read_json_string_def split: list.splits if_splits)

lemma read_json_body_escape:
  "length d < n \<Longrightarrow> read_json_body n d (json_escape s @ CHR 0x22 # r) = Some (take (n - 1) (d @ s), r)"
proof (induction s arbitrary: d)
  case (Cons c s)
  have *: "take (n - 1) (push_char n d c @ s) = take (n - 1) (d @ c # s)"
  proof (cases "length d + 1 < n")
    case True
    then show ?thesis by (simp add: push_char_def del: take_append)
  next
    case False
    then have "n - 1 = length d" using Cons.prems by simp
    then show ?thesis using False by (simp add: push_char_def)
  qed
  show ?case
    using Cons.IH[OF push_char_length[OF Cons.prems, of c]] *
    by (cases "c = CHR 0x22 \<or> c = CHR 0x5C") (auto simp: json_escape_def)
qed (simp add: json_escape_def)

lemma read_json_quote:
  "0 < n \<Longrightarrow> read_json_string (json_quote s @ r) n = Some (take (n - 1) s, r)"
  using read_json_body_escape[of "[]" n s r] by (simp add: read_json_string_def json_quote_def)

lemma skip_ws_id: "s = [] \<or> hd s \<notin> {CHR '' '', CHR 0x09, CHR 0x0D, CHR 0x0A} \<Longrightarrow> skip_ws s = s"
  by (cases s) auto

lemma skip_ws_quote: "skip_ws (json_quote s @ r) = json_quote s @ r"
  by (simp add: json_quote_def)

lemma params_string_quote:
  assumes "length s < n"
  shows "params_string (json_quote s @ CHR '','' # r) n = Some (s, r)"
  using read_json_quote[of n s "CHR '','' # r"] assms
  by (simp add: params_string_def skip_ws_quote skip_comma_def)

lemma params_string_fits: "params_string s n = Some (d, r) \<Longrightarrow> length d < n"
  using read_json_string_fits by (fastforce simp: params_string_def split: option.splits)


subsection \<open>Notify messages\<close>

lemma merkle_loop_list:
  assumes "length acc + length bs \<le> STRATUM_MERKLE_BRANCHES" "\<forall>b \<in> set bs. length b \<le> 64"
  shows "merkle_loop acc ((case bs of [] \<Rightarrow> [] | b # bs' \<Rightarrow>
           json_quote b @ concat (map (\<lambda>x. CHR '','' # json_quote x) bs')) @ CHR '']'' # r) =
         Some (acc @ bs, r)"
  using assms
proof (induction bs arbitrary: acc)
  case Nil
  then show ?case by (subst merkle_loop.simps) simp
next
  case (Cons b bs)
  let ?tail = "concat (map (\<lambda>x. CHR '','' # json_quote x) bs) @ CHR '']'' # r"
  have rd: "read_json_string (json_quote b @ ?tail) 65 = Some (b, ?tail)"
    using read_json_quote[of 65 b ?tail] Cons.prems(2) by simp
  have hd: "skip_ws (json_quote b @ ?tail) = json_quote b @ ?tail" "json_quote b @ ?tail \<noteq> []"
    "hd (json_quote b @ ?tail) \<noteq> CHR '']''"
    by (simp_all add: skip_ws_quote json_quote_def)
  have bound: "\<not> STRATUM_MERKLE_BRANCHES \<le> length acc" using Cons.prems(1) by simp
  show ?case
  proof (cases bs)
    case Nil
    then have "merkle_loop acc (json_quote b @ ?tail) = merkle_loop (acc @ [b]) (CHR '']'' # r)"
      using rd hd bound by (subst merkle_loop.simps) simp
    also have "\<dots> = Some (acc @ [b], r)" by (subst merkle_loop.simps) simp
    finally show ?thesis using Nil by simp
  next
    case (Cons x xs)
    then have "merkle_loop acc (json_quote b @ ?tail) =
        merkle_loop (acc @ [b]) (json_quote x @ concat (map (\<lambda>x. CHR '','' # json_quote x) xs) @ CHR '']'' # r)"
      using rd hd bound by (subst merkle_loop.simps) simp
    also have "\<dots> = Some ((acc @ [b]) @ bs, r)"
      using Cons.IH[of "acc @ [b]"] Cons.prems Cons by simp
    finally show ?thesis by simp
  qed
qed

lemma merkle_loop_fits:
  "merkle_loop acc s = Some (bs, r) \<Longrightarrow> length acc \<le> STRATUM_MERKLE_BRANCHES \<Longrightarrow>
   \<forall>b \<in> set acc. length b \<le> 64 \<Longrightarrow> length bs \<le> STRATUM_MERKLE_BRANCHES \<and> (\<forall>b \<in> set bs. length b \<le> 64)"
proof (induction acc s rule: merkle_loop.induct)
  case (1 acc s)
  let ?s = "skip_ws s"
  show ?case
  proof (cases "?s \<noteq> [] \<and> hd ?s = CHR '']''")
    case True
    then show ?thesis using "1.prems" by (simp add: merkle_loop.simps[of acc s])
  next
    case False
    then have bound: "\<not> STRATUM_MERKLE_BRANCHES \<le> length acc"
      using "1.prems"(1) by (subst (asm) merkle_loop.simps) (auto simp: Let_def split: if_splits)
    then obtain b t where bt: "read_json_string ?s 65 = Some (b, t)"
      using "1.prems"(1) False
      by (subst (asm) merkle_loop.simps) (auto simp: Let_def split: if_splits option.splits)
    have b: "length b \<le> 64" using read_json_string_fits[OF bt] by simp
    have step: "merkle_loop acc s =
        (if skip_ws t \<noteq> [] \<and> hd (skip_ws t) = CHR '','' then merkle_loop (acc @ [b]) (tl (skip_ws t))
         else if skip_ws t \<noteq> [] \<and> hd (skip_ws t) = CHR '']'' then merkle_loop (acc @ [b]) (skip_ws t)
         else None)"
      using False bound bt by (subst merkle_loop.simps) (auto simp: Let_def)
    have fit: "length (acc @ [b]) \<le> STRATUM_MERKLE_BRANCHES" "\<forall>x \<in> set (acc @ [b]). length x \<le> 64"
      using bound b "1.prems"(3) by auto
    show ?thesis
      using "1.prems"(1)[unfolded step] "1.IH"(1)[OF refl False bound bt refl refl _ _ fit]
        "1.IH"(2)[OF refl False bound bt refl refl _ _ _ fit]
      by (auto split: if_splits)
  qed
qed

lemma params_merkle_list:
  assumes "length bs \<le> STRATUM_MERKLE_BRANCHES" "\<forall>b \<in> set bs. length b \<le> 64"
  shows "params_merkle_array (json_list bs @ CHR '','' # r) = Some (bs, r)"
  using merkle_loop_list[of "[]" bs "CHR '','' # r"] assms
  by (simp add: params_merkle_array_def json_list_def skip_comma_def)

lemma params_merkle_fits:
  "params_merkle_array s = Some (bs, r) \<Longrightarrow>
   length bs \<le> STRATUM_MERKLE_BRANCHES \<and> (\<forall>b \<in> set bs. length b \<le> 64)"
  using merkle_loop_fits[of "[]"]
  by (fastforce simp: params_merkle_array_def split: list.splits if_splits option.splits)

lemma params_bool_print:
  "params_bool ((if b then ''true'' else ''false'') @ '']}'') = Some (b, '']}'')"
  by (simp add: params_bool_def starts_with_def skip_comma_def)

lemma notify_head_params: "find_params_array (notify_head @ r) = Some r"
  by (simp add: find_params_array_def notify_head_def json_quote_def json_escape_def starts_with_def)

lemma notify_head_method: "json_method_is (notify_head @ r) ''mining.notify''"
proof -
  have "drop 8 (CHR 0x22 # ''method'' @ [CHR 0x22] @ '':'' @ json_quote ''mining.notify'' @ '','' @
      json_quote ''params'' @ '':['' @ r) = '':'' @ json_quote ''mining.notify'' @ '','' @
      json_quote ''params'' @ '':['' @ r"
    by simp
  moreover have "strstr (notify_head @ r) (CHR 0x22 # ''method'' @ [CHR 0x22]) =
      Some (CHR 0x22 # ''method'' @ [CHR 0x22] @ '':'' @ json_quote ''mining.notify'' @ '','' @
      json_quote ''params'' @ '':['' @ r)"
    by (simp add: notify_head_def json_quote_def json_escape_def starts_with_def)
  moreover have "read_json_string (json_quote ''mining.notify'' @ x) 64 = Some (''mining.notify'', x)" for x
    by (simp add: read_json_quote)
  ultimately show ?thesis by (simp add: json_method_is_def)
qed

lemma bind_Some_iff: "Option.bind x f = Some y \<longleftrightarrow> (\<exists>z. x = Some z \<and> f z = Some y)"
  by (cases x) auto

lemma parse_print_notify:
  assumes "notify_fits n"
  shows "json_method_is (print_notify n) ''mining.notify'' \<and> parse_notify (print_notify n) = Some n"
proof -
  have lens: "length (n_job_id n) < STRATUM_JOB_ID_BYTES" "length (n_prevhash n) < 65"
    "length (n_coinb1 n) < STRATUM_COINBASE_BYTES * 2 + 1" "length (n_coinb2 n) < STRATUM_COINBASE_BYTES * 2 + 1"
    "length (n_version n) < 9" "length (n_nbits n) < 9" "length (n_ntime n) < 9"
    using assms by (simp_all add: notify_fits_def)
  have ms: "length (n_merkle n) \<le> STRATUM_MERKLE_BRANCHES" "\<forall>b \<in> set (n_merkle n). length b \<le> 64"
    using assms by (simp_all add: notify_fits_def)
  have "parse_notify (print_notify n) = Some n"
    unfolding parse_notify_def print_notify_def
    using lens ms params_bool_print[of "n_clean_jobs n"]
    by (simp add: notify_head_params params_string_quote params_merkle_list)
  then show ?thesis by (simp add: print_notify_def notify_head_method)
qed

text \<open>
  C33. A \<open>mining.notify\<close> line is read back exactly: for every notification whose fields fit the
  firmware's buffers, whatever characters they contain, the line a pool prints for it is recognised
  as \<open>mining.notify\<close> and parsed to the same notification.
\<close>

theorem notify_roundtrip:
  assumes "notify_fits n"
  shows "json_method_is (print_notify n) ''mining.notify'' \<and> parse_notify (print_notify n) = Some n"
  using assms by (rule parse_print_notify)

theorem notify_roundtrip_witness:
  "parse_notify (print_notify \<lparr>n_job_id = ''a'' @ [CHR 0x22] @ ''b'', n_prevhash = ''00'', n_coinb1 = ''01'',
     n_coinb2 = [], n_merkle = [''aa'', ''bb''], n_version = ''20000000'', n_nbits = ''1d00ffff'',
     n_ntime = ''5f5e1000'', n_clean_jobs = True\<rparr>) =
   Some \<lparr>n_job_id = ''a'' @ [CHR 0x22] @ ''b'', n_prevhash = ''00'', n_coinb1 = ''01'',
     n_coinb2 = [], n_merkle = [''aa'', ''bb''], n_version = ''20000000'', n_nbits = ''1d00ffff'',
     n_ntime = ''5f5e1000'', n_clean_jobs = True\<rparr>"
  by (rule notify_roundtrip[THEN conjunct2])
    (simp add: notify_fits_def STRATUM_JOB_ID_BYTES_def STRATUM_MERKLE_BRANCHES_def
      STRATUM_COINBASE_BYTES_def)

lemma parse_notify_fits: "parse_notify line = Some n \<Longrightarrow> notify_fits n"
  by (auto simp: parse_notify_def notify_fits_def bind_Some_iff dest!: params_string_fits params_merkle_fits
      split: prod.splits)

text \<open>
  No message can overflow the notification: whatever line the pool sends, every field of a
  parsed notification fits its buffer with the terminating NUL, and there are at most 16 branches.
\<close>

theorem parse_notify_bounded:
  assumes "parse_notify line = Some n"
  shows "notify_fits n"
  using assms by (rule parse_notify_fits)

theorem parse_notify_bounded_witness:
  "notify_fits (the (parse_notify (print_notify \<lparr>n_job_id = ''7'', n_prevhash = ''00'', n_coinb1 = ''01'',
     n_coinb2 = ''02'', n_merkle = [], n_version = ''1'', n_nbits = ''2'', n_ntime = ''3'', n_clean_jobs = False\<rparr>)))"
proof -
  have "parse_notify (print_notify \<lparr>n_job_id = ''7'', n_prevhash = ''00'', n_coinb1 = ''01'',
     n_coinb2 = ''02'', n_merkle = [], n_version = ''1'', n_nbits = ''2'', n_ntime = ''3'', n_clean_jobs = False\<rparr>) =
     Some \<lparr>n_job_id = ''7'', n_prevhash = ''00'', n_coinb1 = ''01'',
     n_coinb2 = ''02'', n_merkle = [], n_version = ''1'', n_nbits = ''2'', n_ntime = ''3'', n_clean_jobs = False\<rparr>"
    by code_simp
  then show ?thesis using parse_notify_bounded by simp
qed

text \<open>
  Hexadecimal encoding and decoding are inverse: the string that \<open>bytes_to_hex\<close> leaves in a
  buffer with room for all digits and the NUL is decoded by \<open>hex_to_bytes\<close> to the same bytes, and
  decoding never yields more bytes than the output buffer holds.
\<close>

theorem hex_roundtrip:
  assumes "2 * length bs < length buf" "length bs \<le> max_bytes"
  shows "hex_to_bytes (c_string (bytes_to_hex bs (length bs) buf)) max_bytes = Some bs \<and>
         (\<forall>hex out. hex_to_bytes hex max_bytes = Some out \<longrightarrow> length out \<le> max_bytes)"
proof -
  have "buf \<noteq> []" using assms(1) by auto
  from bytes_to_hex_string[OF this, of bs]
  have "c_string (bytes_to_hex bs (length bs) buf) = hex_string bs"
    using assms(1) by (simp add: length_hex_string)
  then have "hex_to_bytes (c_string (bytes_to_hex bs (length bs) buf)) max_bytes = Some bs"
    using hex_pairs_hex_string[of bs] assms(2) by (simp add: hex_to_bytes_def length_hex_string)
  then show ?thesis using hex_to_bytes_length by blast
qed

theorem hex_roundtrip_witness:
  "hex_to_bytes (c_string (bytes_to_hex [0xde, 0xad, 0x0f] 3 (replicate 33 NUL))) 16 =
   Some [0xde, 0xad, 0x0f]"
  using hex_roundtrip[of "[0xde, 0xad, 0x0f]" "replicate 33 NUL" 16]
  by (simp add: numeral_3_eq_3)


subsection \<open>Targets and the subscribe response\<close>

lemma target_words_length: "length (target_words bs) = 8"
  by (simp add: target_words_def)

lemma parse_target_length: "parse_target line = Some t \<Longrightarrow> length t = 8"
  by (auto simp: parse_target_def bind_Some_iff target_words_length split: prod.splits if_splits)

lemma subscribe_scan_fits:
  "subscribe_scan ls ln depth s = Parsed (str, num) \<Longrightarrow> length ls \<le> STRATUM_EXTRANONCE1_BYTES * 2 \<Longrightarrow>
   length str \<le> STRATUM_EXTRANONCE1_BYTES * 2"
proof (induction ls ln depth s rule: subscribe_scan.induct)
  case (1 ls ln depth s)
  show ?case
  proof (cases "s = []")
    case True
    then show ?thesis using "1.prems" by (simp add: subscribe_scan.simps[of ls ln depth "[]"])
  next
    case False
    then obtain c r where cr: "skip_ws s = c # r"
      using "1.prems"(1) by (subst (asm) subscribe_scan.simps) (auto split: list.splits)
    show ?thesis
    proof (cases "c = CHR 0x22")
      case True
      then obtain x rest where x: "read_json_string (c # r) (STRATUM_EXTRANONCE1_BYTES * 2 + 1) = Some (x, rest)"
        using "1.prems"(1) False cr
        by (subst (asm) subscribe_scan.simps) (auto split: option.splits)
      then have "subscribe_scan x ln depth rest = Parsed (str, num)"
        using "1.prems"(1) False cr True by (subst (asm) subscribe_scan.simps) simp
      then show ?thesis
        using "1.IH"(1)[OF False cr True x refl] read_json_string_fits[OF x] by simp
    next
      case nq: False
      show ?thesis
        using "1.prems" "1.IH"(2)[OF False cr nq] "1.IH"(3)[OF False cr nq] "1.IH"(4)[OF False cr nq]
          "1.IH"(5)[OF False cr nq] False cr nq
        by (subst (asm) (1) subscribe_scan.simps) (auto split: if_splits prod.splits)
    qed
  qed
qed

lemma subscribe_response_fits:
  assumes "parse_subscribe_response line = Parsed (extranonce1, n2)"
  shows "extranonce1 \<noteq> [] \<and> length extranonce1 \<le> STRATUM_EXTRANONCE1_BYTES * 2 \<and>
         unat n2 \<le> STRATUM_EXTRANONCE2_BYTES"
proof -
  obtain res s str where *: "subscribe_scan [] 0 0 s = Parsed (str, n2)" "str \<noteq> []"
    "\<not> of_nat STRATUM_EXTRANONCE2_BYTES < n2"
    "extranonce1 = snprintf_s (STRATUM_EXTRANONCE1_BYTES * 2 + 1) str"
    using assms
    by (auto simp: parse_subscribe_response_def split: option.splits if_splits parsed.splits prod.splits)
  have "length str \<le> STRATUM_EXTRANONCE1_BYTES * 2" using subscribe_scan_fits[OF *(1)] by simp
  then show ?thesis
    using * by (auto simp: snprintf_s_def word_less_nat_alt STRATUM_EXTRANONCE2_BYTES_def)
qed

text \<open>
  A subscribe response that is accepted yields a non-empty extranonce1 that fits its buffer and
  an extranonce2 size of at most 16 bytes, the bound every later use of the size relies on.
\<close>

theorem subscribe_response_bounded:
  assumes "parse_subscribe_response line = Parsed (extranonce1, n2)"
  shows "extranonce1 \<noteq> [] \<and> length extranonce1 \<le> STRATUM_EXTRANONCE1_BYTES * 2 \<and>
         unat n2 \<le> STRATUM_EXTRANONCE2_BYTES"
  using assms by (rule subscribe_response_fits)

theorem subscribe_response_bounded_witness:
  "let line = CHR ''{'' # json_quote ''id'' @ '':1,'' @ json_quote ''result'' @ '':[[['' @
       json_quote ''mining.notify'' @ '','' @ json_quote ''s'' @ '']],'' @ json_quote ''08000002'' @ '',4]}''
   in parse_subscribe_response line = Parsed (''08000002'', 4) \<and> unat (4 :: u32) \<le> STRATUM_EXTRANONCE2_BYTES"
proof -
  let ?line = "CHR ''{'' # json_quote ''id'' @ '':1,'' @ json_quote ''result'' @ '':[[['' @
       json_quote ''mining.notify'' @ '','' @ json_quote ''s'' @ '']],'' @ json_quote ''08000002'' @ '',4]}''"
  have "parse_subscribe_response ?line = Parsed (''08000002'', 4)" by code_simp
  from this subscribe_response_bounded[OF this] show ?thesis by simp
qed

text \<open>
  The subscribe scan reads behind the end of the line: a line whose result array is not closed and
  that ends in white space makes the cursor step over the terminating NUL.
\<close>

theorem subscribe_scan_overruns:
  "parse_subscribe_response (CHR ''{'' # json_quote ''id'' @ '':1,'' @ json_quote ''result'' @ '':[ '') = Overrun"
  by code_simp

end
