(* ===== verification/Miner_Device.thy ===== *)
theory Miner_Device
  imports Prelude
begin

unbundle bit_operations_syntax

section \<open>The miner instances behind the register bus\<close>

text \<open>
  What the firmware talks to: the four AXI4-Lite miner instances of \<^verbatim>\<open>rtl/bitcoin_miner_axi.sv\<close>
  with 32 engines each (\<^verbatim>\<open>rtl/bitcoin_hash_engine.sv\<close>), their 4 KiB windows in the address map,
  and the interrupt line that ORs their outputs.

  The model is at the level of bus transactions. A register read or write is one step with the
  effect the Verilog gives it. What the fabric does by itself between two accesses is a list of
  \<^emph>\<open>fabric events\<close>: the loader starting the next engine, an engine finishing one nonce (whether
  the digest met the target is left open), a candidate moving from the result FIFO into the
  result register, the end of the range. The bus state carries the schedule of these events, one
  entry per access, so a statement about all bus states is a statement about every interleaving
  of firmware accesses with the fabric. A clock edge on which a write coincides with the end of
  a range is modelled too (\<open>tick_coincide\<close>): there the Verilog's later assignment wins.
\<close>

subsection \<open>One instance\<close>

text \<open>The job an engine latched when it was started, its next nonce and the nonces left.\<close>

record eng_job =
  ej_midstate :: "u32 list"
  ej_tail :: "u32 list"
  ej_target :: "u32 list"
  ej_nonce :: u32
  ej_remaining :: u32

datatype engine = EngIdle | EngBusy eng_job

type_synonym scan_entry = "u32 list \<times> u32 list \<times> u32 list \<times> u32"

record miner_inst =
  midstate_q :: "u32 list"
  header_tail_q :: "u32 list"
  target_q :: "u32 list"
  nonce_start_q :: u32
  nonce_count_q :: u32
  running_q :: bool
  nonce_done_q :: bool
  overflow_q :: bool
  result_valid_q :: bool
  irq_mask_q :: bool
  irq_force_q :: bool
  result_nonce_q :: u32
  result_engine_q :: u32
  load_q :: "nat option"
  engines_q :: "engine list"
  fifo_q :: "(u32 \<times> u32) list"
  scanned_q :: "scan_entry list"

text \<open>
  The last field is a history and no register: every nonce the engines have hashed, with the
  midstate, header tail and target it was hashed under. Nothing reads it.
\<close>

definition NUM_ENGINES :: nat where
  "NUM_ENGINES = 32"

definition bool_bit :: "bool \<Rightarrow> nat \<Rightarrow> u32" where
  "bool_bit b k = (if b then push_bit k 1 else 0)"

text \<open>\<open>read_reg\<close> of the Verilog; addresses are the twelve address bits of the window.\<close>

definition read_reg :: "miner_inst \<Rightarrow> nat \<Rightarrow> u32" where
  "read_reg m addr =
     (if 0x20 \<le> addr \<and> addr < 0x40 then midstate_q m ! ((addr - 0x20) div 4)
      else if 0x40 \<le> addr \<and> addr < 0x50 then header_tail_q m ! ((addr - 0x40) div 4)
      else if 0x60 \<le> addr \<and> addr < 0x80 then target_q m ! ((addr - 0x60) div 4)
      else if addr = 0x04 then
        bool_bit (overflow_q m) 3 OR bool_bit (nonce_done_q m) 2 OR
        bool_bit (result_valid_q m) 1 OR bool_bit (running_q m) 0
      else if addr = 0x08 then of_nat NUM_ENGINES
      else if addr = 0x80 then nonce_start_q m
      else if addr = 0x84 then nonce_count_q m
      else if addr = 0x90 then result_nonce_q m
      else if addr = 0x94 then result_engine_q m
      else if addr = 0x98 then bool_bit (overflow_q m) 1 OR bool_bit (result_valid_q m) 0
      else if addr = 0xa0 then bool_bit (irq_force_q m) 1 OR bool_bit (irq_mask_q m) 0
      else 0)"

text \<open>The three bits of a write to \<open>CONTROL\<close>, in the order the Verilog assigns them.\<close>

definition control_start :: "miner_inst \<Rightarrow> miner_inst" where
  "control_start m =
     (if load_q m = None
      then m\<lparr>running_q := True, nonce_done_q := False, overflow_q := False,
             result_valid_q := False, load_q := Some 0, fifo_q := []\<rparr>
      else m)"

definition control_stop :: "miner_inst \<Rightarrow> miner_inst" where
  "control_stop m =
     m\<lparr>engines_q := map (\<lambda>_. EngIdle) (engines_q m), load_q := None, running_q := False,
       nonce_done_q := True, fifo_q := []\<rparr>"

definition control_clear :: "miner_inst \<Rightarrow> miner_inst" where
  "control_clear m =
     m\<lparr>result_valid_q := False, overflow_q := False, nonce_done_q := False, fifo_q := []\<rparr>"

definition write_control :: "u32 \<Rightarrow> miner_inst \<Rightarrow> miner_inst" where
  "write_control v m =
     (let m1 = (if bit v 0 then control_start m else m);
          m2 = (if bit v 1 then control_stop m1 else m1)
      in (if bit v 2 then control_clear m2 else m2))"

definition write_result_status :: "u32 \<Rightarrow> miner_inst \<Rightarrow> miner_inst" where
  "write_result_status v m =
     m\<lparr>result_valid_q := (if bit v 0 then False else result_valid_q m),
       overflow_q := (if bit v 1 then False else overflow_q m)\<rparr>"

text \<open>A full-word write (all byte strobes set, as \<open>Xil_Out32\<close> issues it).\<close>

definition write_reg :: "nat \<Rightarrow> u32 \<Rightarrow> miner_inst \<Rightarrow> miner_inst" where
  "write_reg addr v m =
     (if 0x20 \<le> addr \<and> addr < 0x40
      then m\<lparr>midstate_q := (midstate_q m)[(addr - 0x20) div 4 := v]\<rparr>
      else if 0x40 \<le> addr \<and> addr < 0x50
      then m\<lparr>header_tail_q := (header_tail_q m)[(addr - 0x40) div 4 := v]\<rparr>
      else if 0x60 \<le> addr \<and> addr < 0x80
      then m\<lparr>target_q := (target_q m)[(addr - 0x60) div 4 := v]\<rparr>
      else if addr = 0x00 then write_control v m
      else if addr = 0x80 then m\<lparr>nonce_start_q := v\<rparr>
      else if addr = 0x84 then m\<lparr>nonce_count_q := v\<rparr>
      else if addr = 0x98 then write_result_status v m
      else if addr = 0xa0 then m\<lparr>irq_mask_q := bit v 0, irq_force_q := bit v 1\<rparr>
      else m)"

definition irq_o :: "miner_inst \<Rightarrow> bool" where
  "irq_o m \<longleftrightarrow>
     \<not> irq_mask_q m \<and> (irq_force_q m \<or> result_valid_q m \<or> overflow_q m \<or> nonce_done_q m)"


subsection \<open>Fabric events\<close>

definition engine_work_count :: "u32 \<Rightarrow> nat \<Rightarrow> u32" where
  "engine_work_count count k =
     (if of_nat k < count then (count - 1 - of_nat k) div of_nat NUM_ENGINES + 1 else 0)"

datatype scan_outcome = Miss | Hit | HitDropped

datatype fabric_event = LoadEngine | Scan nat scan_outcome | Latch nat | Finish

text \<open>The loader's three states per engine, as one step: it pulses \<open>start_i\<close> of engine \<open>k\<close>.\<close>

definition start_engine :: "miner_inst \<Rightarrow> nat \<Rightarrow> engine \<Rightarrow> engine" where
  "start_engine m k e =
     (case e of
        EngIdle \<Rightarrow>
          if engine_work_count (nonce_count_q m) k \<noteq> 0
          then EngBusy \<lparr>ej_midstate = midstate_q m, ej_tail = header_tail_q m,
                        ej_target = target_q m, ej_nonce = nonce_start_q m + of_nat k,
                        ej_remaining = engine_work_count (nonce_count_q m) k\<rparr>
          else EngIdle
      | EngBusy j \<Rightarrow> EngBusy j)"

definition load_engine :: "miner_inst \<Rightarrow> miner_inst" where
  "load_engine m =
     (case load_q m of
        None \<Rightarrow> m
      | Some k \<Rightarrow>
          m\<lparr>engines_q := (engines_q m)[k := start_engine m k (engines_q m ! k)],
            load_q := (if k = NUM_ENGINES - 1 then None else Some (k + 1))\<rparr>)"

text \<open>An engine's \<open>ST_CHECK\<close>: one nonce done, on to the next one or back to idle.\<close>

definition advance :: "eng_job \<Rightarrow> engine" where
  "advance j =
     (if ej_remaining j \<le> 1 then EngIdle
      else EngBusy (j\<lparr>ej_remaining := ej_remaining j - 1,
                      ej_nonce := ej_nonce j + of_nat NUM_ENGINES\<rparr>))"

definition scan :: "nat \<Rightarrow> scan_outcome \<Rightarrow> miner_inst \<Rightarrow> miner_inst" where
  "scan k out m =
     (if k < length (engines_q m) then
        case engines_q m ! k of
          EngIdle \<Rightarrow> m
        | EngBusy j \<Rightarrow>
            let m1 = m\<lparr>engines_q := (engines_q m)[k := advance j],
                       scanned_q := scanned_q m @ [(ej_midstate j, ej_tail j, ej_target j, ej_nonce j)]\<rparr>
            in case out of
                 Miss \<Rightarrow> m1
               | Hit \<Rightarrow> m1\<lparr>fifo_q := fifo_q m @ [(ej_nonce j, of_nat k)]\<rparr>
               | HitDropped \<Rightarrow> m1\<lparr>overflow_q := True\<rparr>
      else m)"

text \<open>A candidate of the clustered FIFO moves into the free result register.\<close>

definition latch :: "nat \<Rightarrow> miner_inst \<Rightarrow> miner_inst" where
  "latch i m =
     (if \<not> result_valid_q m \<and> i < length (fifo_q m)
      then m\<lparr>result_valid_q := True, result_nonce_q := fst (fifo_q m ! i),
             result_engine_q := snd (fifo_q m ! i),
             fifo_q := take i (fifo_q m) @ drop (i + 1) (fifo_q m)\<rparr>
      else m)"

definition all_idle :: "miner_inst \<Rightarrow> bool" where
  "all_idle m \<longleftrightarrow> (\<forall>e \<in> set (engines_q m). e = EngIdle)"

definition finish :: "miner_inst \<Rightarrow> miner_inst" where
  "finish m =
     (if running_q m \<and> load_q m = None \<and> all_idle m
      then m\<lparr>running_q := False, nonce_done_q := True\<rparr> else m)"

fun fabric_step :: "fabric_event \<Rightarrow> miner_inst \<Rightarrow> miner_inst" where
  "fabric_step LoadEngine m = load_engine m"
| "fabric_step (Scan k out) m = scan k out m"
| "fabric_step (Latch i) m = latch i m"
| "fabric_step Finish m = finish m"


subsection \<open>The bus\<close>

record tick =
  tick_events :: "(nat \<times> fabric_event) list"
  tick_coincide :: bool

record bus =
  insts :: "miner_inst list"
  schedule_of_fabric :: "tick list"
  bus_fault :: bool

definition MINER_AXI_BASEADDR :: u32 where "MINER_AXI_BASEADDR = 0xA4000000"
definition MINER_AXI_INSTANCE_STRIDE :: u32 where "MINER_AXI_INSTANCE_STRIDE = 0x1000"
definition MINER_AXI_INSTANCES :: nat where "MINER_AXI_INSTANCES = 4"
definition MINER_ENGINES_PER_INSTANCE :: u32 where "MINER_ENGINES_PER_INSTANCE = 32"

text \<open>The interconnect: which instance's window an address falls into, and the offset there.\<close>

definition bus_decode :: "u32 \<Rightarrow> (nat \<times> nat) option" where
  "bus_decode addr =
     (if 0xA4000000 \<le> addr \<and> addr < 0xA4004000
      then Some (unat ((addr - 0xA4000000) div 0x1000), unat ((addr - 0xA4000000) mod 0x1000))
      else None)"

definition fabric_run :: "(nat \<times> fabric_event) list \<Rightarrow> miner_inst list \<Rightarrow> miner_inst list" where
  "fabric_run evs ms = fold (\<lambda>(i, e) ms. ms[i := fabric_step e (ms ! i)]) evs ms"

definition bus_tick :: "bus \<Rightarrow> bool \<times> bus" where
  "bus_tick b =
     (case schedule_of_fabric b of
        [] \<Rightarrow> (False, b)
      | t # ts \<Rightarrow>
          (tick_coincide t,
           b\<lparr>insts := fabric_run (tick_events t) (insts b), schedule_of_fabric := ts\<rparr>))"

text \<open>An access outside every window is a bus error.\<close>

definition bus_read :: "u32 \<Rightarrow> bus \<Rightarrow> u32 \<times> bus" where
  "bus_read addr b =
     (let b1 = snd (bus_tick b)
      in case bus_decode addr of
           None \<Rightarrow> (0, b1\<lparr>bus_fault := True\<rparr>)
         | Some (i, off) \<Rightarrow> (read_reg (insts b1 ! i) off, b1))"

definition coincide_finish :: "miner_inst \<Rightarrow> miner_inst \<Rightarrow> miner_inst" where
  "coincide_finish m m' =
     (if running_q m \<and> load_q m = None \<and> all_idle m
      then m'\<lparr>running_q := False, nonce_done_q := True\<rparr> else m')"

definition bus_write :: "u32 \<Rightarrow> u32 \<Rightarrow> bus \<Rightarrow> bus" where
  "bus_write addr v b =
     (let (co, b1) = bus_tick b
      in case bus_decode addr of
           None \<Rightarrow> b1\<lparr>bus_fault := True\<rparr>
         | Some (i, off) \<Rightarrow>
             let m = insts b1 ! i; m1 = write_reg off v m
             in b1\<lparr>insts := (insts b1)[i := (if co then coincide_finish m m1 else m1)]\<rparr>)"

definition irq_line :: "bus \<Rightarrow> bool" where
  "irq_line b \<longleftrightarrow> (\<exists>m \<in> set (insts b). irq_o m)"


subsection \<open>Reset\<close>

definition reset_inst :: miner_inst where
  "reset_inst =
     \<lparr>midstate_q = replicate 8 0, header_tail_q = replicate 4 0, target_q = replicate 8 0xFFFFFFFF,
      nonce_start_q = 0, nonce_count_q = 0, running_q = False, nonce_done_q = False,
      overflow_q = False, result_valid_q = False, irq_mask_q = False, irq_force_q = False,
      result_nonce_q = 0, result_engine_q = 0, load_q = None,
      engines_q = replicate NUM_ENGINES EngIdle, fifo_q = [], scanned_q = []\<rparr>"

definition reset_bus :: "tick list \<Rightarrow> bus" where
  "reset_bus sched =
     \<lparr>insts = replicate MINER_AXI_INSTANCES reset_inst, schedule_of_fabric = sched,
      bus_fault = False\<rparr>"

end
