(* ===== verification/Miner_Regs.thy ===== *)
theory Miner_Regs
  imports Miner_Device "HOL-Library.Multiset"
begin

unbundle bit_operations_syntax

section \<open>The register driver\<close>

text \<open>
  The model of \<^verbatim>\<open>src/miner_regs.c\<close>: every function of the driver over the register bus, with
  the base address the driver stores. The theory opens with the operations; the lemmas then
  reduce an access to the instance it reaches, state the read-after-write contract of the
  configuration registers as a locale, and derive what programming a job, starting a range,
  reading a result and masking the interrupt do, whatever the fabric does in between.
\<close>

subsection \<open>State and operations\<close>

record miner_hw =
  g_miner_base :: u32
  hw_bus :: bus

record miner_result =
  res_nonce :: u32
  res_engine :: u32
  res_status :: u32

definition MINER_REG_CONTROL :: u32 where "MINER_REG_CONTROL = 0x000"
definition MINER_REG_STATUS :: u32 where "MINER_REG_STATUS = 0x004"
definition MINER_REG_NUM_ENGINES :: u32 where "MINER_REG_NUM_ENGINES = 0x008"
definition MINER_REG_MIDSTATE0 :: u32 where "MINER_REG_MIDSTATE0 = 0x020"
definition MINER_REG_HEADER_TAIL0 :: u32 where "MINER_REG_HEADER_TAIL0 = 0x040"
definition MINER_REG_TARGET0 :: u32 where "MINER_REG_TARGET0 = 0x060"
definition MINER_REG_NONCE_START :: u32 where "MINER_REG_NONCE_START = 0x080"
definition MINER_REG_NONCE_COUNT :: u32 where "MINER_REG_NONCE_COUNT = 0x084"
definition MINER_REG_RESULT_NONCE :: u32 where "MINER_REG_RESULT_NONCE = 0x090"
definition MINER_REG_RESULT_ENGINE :: u32 where "MINER_REG_RESULT_ENGINE = 0x094"
definition MINER_REG_RESULT_STATUS :: u32 where "MINER_REG_RESULT_STATUS = 0x098"
definition MINER_REG_IRQ_CONTROL :: u32 where "MINER_REG_IRQ_CONTROL = 0x0a0"

definition MINER_CONTROL_START :: u32 where "MINER_CONTROL_START = 1"
definition MINER_CONTROL_STOP :: u32 where "MINER_CONTROL_STOP = 2"
definition MINER_CONTROL_CLEAR :: u32 where "MINER_CONTROL_CLEAR = 4"
definition MINER_STATUS_RUNNING :: u32 where "MINER_STATUS_RUNNING = 1"
definition MINER_STATUS_RESULT :: u32 where "MINER_STATUS_RESULT = 2"
definition MINER_STATUS_DONE :: u32 where "MINER_STATUS_DONE = 4"
definition MINER_STATUS_OVERFLOW :: u32 where "MINER_STATUS_OVERFLOW = 8"
definition MINER_RESULT_STATUS_RESULT :: u32 where "MINER_RESULT_STATUS_RESULT = 1"
definition MINER_RESULT_STATUS_OVERFLOW :: u32 where "MINER_RESULT_STATUS_OVERFLOW = 2"
definition MINER_IRQ_CONTROL_MASK :: u32 where "MINER_IRQ_CONTROL_MASK = 1"

definition miner_instance_base :: "nat \<Rightarrow> miner_hw \<Rightarrow> u32" where
  "miner_instance_base inst hw = g_miner_base hw + of_nat inst * MINER_AXI_INSTANCE_STRIDE"

definition miner_read_at :: "u32 \<Rightarrow> miner_hw \<Rightarrow> u32 \<times> miner_hw" where
  "miner_read_at addr hw = (let (v, b) = bus_read addr (hw_bus hw) in (v, hw\<lparr>hw_bus := b\<rparr>))"

definition miner_write_at :: "u32 \<Rightarrow> u32 \<Rightarrow> miner_hw \<Rightarrow> miner_hw" where
  "miner_write_at addr v hw = hw\<lparr>hw_bus := bus_write addr v (hw_bus hw)\<rparr>"

definition miner_read_reg_instance :: "nat \<Rightarrow> u32 \<Rightarrow> miner_hw \<Rightarrow> u32 \<times> miner_hw" where
  "miner_read_reg_instance inst off hw =
     (if MINER_AXI_INSTANCES \<le> inst then (0, hw)
      else miner_read_at (miner_instance_base inst hw + off) hw)"

definition miner_read_reg :: "u32 \<Rightarrow> miner_hw \<Rightarrow> u32 \<times> miner_hw" where
  "miner_read_reg off hw = miner_read_reg_instance 0 off hw"

definition miner_write_reg_instance :: "nat \<Rightarrow> u32 \<Rightarrow> u32 \<Rightarrow> miner_hw \<Rightarrow> miner_hw" where
  "miner_write_reg_instance inst off v hw =
     (if MINER_AXI_INSTANCES \<le> inst then hw
      else miner_write_at (miner_instance_base inst hw + off) v hw)"

definition miner_write_reg :: "u32 \<Rightarrow> u32 \<Rightarrow> miner_hw \<Rightarrow> miner_hw" where
  "miner_write_reg off v hw = miner_write_reg_instance 0 off v hw"

definition miner_num_engines :: "miner_hw \<Rightarrow> u32 \<times> miner_hw" where
  "miner_num_engines hw =
     fold (\<lambda>inst (total, hw).
             let (n, hw1) = miner_read_reg_instance inst MINER_REG_NUM_ENGINES hw
             in (total + n, hw1))
       [0..<MINER_AXI_INSTANCES] (0, hw)"

text \<open>The body of the loop of \<open>miner_status\<close>.\<close>

definition miner_status_step :: "nat \<Rightarrow> u32 \<times> bool \<times> miner_hw \<Rightarrow> u32 \<times> bool \<times> miner_hw" where
  "miner_status_step inst = (\<lambda>(aggregate, all_done, hw).
     let (status, hw1) = miner_read_reg_instance inst MINER_REG_STATUS hw;
         a1 = (if status AND MINER_STATUS_RUNNING \<noteq> 0
               then aggregate OR MINER_STATUS_RUNNING else aggregate);
         a2 = (if status AND MINER_STATUS_RESULT \<noteq> 0 then a1 OR MINER_STATUS_RESULT else a1);
         a3 = (if status AND MINER_STATUS_OVERFLOW \<noteq> 0 then a2 OR MINER_STATUS_OVERFLOW else a2)
     in (a3, (if status AND MINER_STATUS_DONE = 0 then False else all_done), hw1))"

definition miner_status :: "miner_hw \<Rightarrow> u32 \<times> miner_hw" where
  "miner_status hw =
     (case fold miner_status_step [0..<MINER_AXI_INSTANCES] (0, True, hw) of
        (aggregate, all_done, hw') \<Rightarrow>
          (if all_done then aggregate OR MINER_STATUS_DONE else aggregate, hw'))"

definition miner_clear :: "miner_hw \<Rightarrow> miner_hw" where
  "miner_clear hw =
     fold (\<lambda>inst hw.
             miner_write_reg_instance inst MINER_REG_RESULT_STATUS
               (MINER_RESULT_STATUS_RESULT OR MINER_RESULT_STATUS_OVERFLOW)
               (miner_write_reg_instance inst MINER_REG_CONTROL MINER_CONTROL_CLEAR hw))
       [0..<MINER_AXI_INSTANCES] hw"

definition miner_stop :: "miner_hw \<Rightarrow> miner_hw" where
  "miner_stop hw =
     fold (\<lambda>inst hw. miner_write_reg_instance inst MINER_REG_CONTROL MINER_CONTROL_STOP hw)
       [0..<MINER_AXI_INSTANCES] hw"

definition miner_init :: "u32 \<Rightarrow> miner_hw \<Rightarrow> miner_hw" where
  "miner_init base_addr hw = miner_clear (miner_stop (hw\<lparr>g_miner_base := base_addr\<rparr>))"

definition miner_irq_mask_all :: "miner_hw \<Rightarrow> miner_hw" where
  "miner_irq_mask_all hw =
     fold (\<lambda>inst hw.
             let (control, hw1) = miner_read_reg_instance inst MINER_REG_IRQ_CONTROL hw
             in miner_write_reg_instance inst MINER_REG_IRQ_CONTROL
                  (control OR MINER_IRQ_CONTROL_MASK) hw1)
       [0..<MINER_AXI_INSTANCES] hw"

definition miner_irq_unmask_all :: "miner_hw \<Rightarrow> miner_hw" where
  "miner_irq_unmask_all hw =
     fold (\<lambda>inst hw.
             let (control, hw1) = miner_read_reg_instance inst MINER_REG_IRQ_CONTROL hw
             in miner_write_reg_instance inst MINER_REG_IRQ_CONTROL
                  (control AND NOT MINER_IRQ_CONTROL_MASK) hw1)
       [0..<MINER_AXI_INSTANCES] hw"

definition miner_program_job :: "u32 list \<Rightarrow> u32 list \<Rightarrow> u32 list \<Rightarrow> miner_hw \<Rightarrow> miner_hw" where
  "miner_program_job midstate header_tail target hw =
     fold (\<lambda>inst hw.
        let hw1 = fold (\<lambda>i hw.
                     miner_write_reg_instance inst (MINER_REG_TARGET0 + of_nat i * 4) (target ! i)
                       (miner_write_reg_instance inst (MINER_REG_MIDSTATE0 + of_nat i * 4)
                          (midstate ! i) hw))
                   [0..<8] hw
        in fold (\<lambda>i hw.
             miner_write_reg_instance inst (MINER_REG_HEADER_TAIL0 + of_nat i * 4) (header_tail ! i) hw)
           [0..<4] hw1)
       [0..<MINER_AXI_INSTANCES] hw"

definition miner_start_range :: "u32 \<Rightarrow> u32 \<Rightarrow> miner_hw \<Rightarrow> miner_hw" where
  "miner_start_range nonce_start nonce_count hw =
     (let base_count = nonce_count div of_nat MINER_AXI_INSTANCES;
          remainder = nonce_count mod of_nat MINER_AXI_INSTANCES
      in snd (fold (\<lambda>inst (range_start, hw).
           let range_count = base_count + (if of_nat inst < remainder then 1 else 0);
               hw1 = miner_write_reg_instance inst MINER_REG_NONCE_START range_start hw;
               hw2 = miner_write_reg_instance inst MINER_REG_NONCE_COUNT range_count hw1;
               hw3 = miner_write_reg_instance inst MINER_REG_CONTROL MINER_CONTROL_START hw2
           in (range_start + range_count, hw3))
         [0..<MINER_AXI_INSTANCES] (nonce_start, hw)))"

text \<open>The loop over the instances returns at the first one that holds a result.\<close>

fun miner_read_result_from :: "nat list \<Rightarrow> miner_hw \<Rightarrow> miner_result option \<times> miner_hw" where
  "miner_read_result_from [] hw = (None, hw)"
| "miner_read_result_from (inst # rest) hw =
     (let (result_status, hw1) = miner_read_reg_instance inst MINER_REG_RESULT_STATUS hw
      in if result_status AND MINER_RESULT_STATUS_RESULT = 0
         then miner_read_result_from rest hw1
         else
           let (nonce, hw2) = miner_read_reg_instance inst MINER_REG_RESULT_NONCE hw1;
               (eng, hw3) = miner_read_reg_instance inst MINER_REG_RESULT_ENGINE hw2;
               hw4 = miner_write_reg_instance inst MINER_REG_RESULT_STATUS
                       MINER_RESULT_STATUS_RESULT hw3
           in (Some \<lparr>res_nonce = nonce,
                     res_engine = eng + of_nat inst * MINER_ENGINES_PER_INSTANCE,
                     res_status = result_status\<rparr>, hw4))"

definition miner_read_result :: "miner_hw \<Rightarrow> miner_result option \<times> miner_hw" where
  "miner_read_result hw = miner_read_result_from [0..<MINER_AXI_INSTANCES] hw"


subsection \<open>Well-formed hardware states\<close>

definition inst_ok :: "miner_inst \<Rightarrow> bool" where
  "inst_ok m \<longleftrightarrow>
     length (midstate_q m) = 8 \<and> length (header_tail_q m) = 4 \<and> length (target_q m) = 8 \<and>
     length (engines_q m) = NUM_ENGINES \<and>
     (case load_q m of None \<Rightarrow> True | Some k \<Rightarrow> k < NUM_ENGINES)"

definition bus_ok :: "bus \<Rightarrow> bool" where
  "bus_ok b \<longleftrightarrow>
     length (insts b) = MINER_AXI_INSTANCES \<and> (\<forall>m \<in> set (insts b). inst_ok m) \<and> \<not> bus_fault b"

definition hw_ok :: "miner_hw \<Rightarrow> bool" where
  "hw_ok hw \<longleftrightarrow> g_miner_base hw = MINER_AXI_BASEADDR \<and> bus_ok (hw_bus hw)"

definition hw_inst :: "miner_hw \<Rightarrow> nat \<Rightarrow> miner_inst" where
  "hw_inst hw i = insts (hw_bus hw) ! i"

text \<open>The word-aligned offsets of a window, and those of the registers that hold a job.\<close>

definition reg_addrs :: "(nat \<times> u32) set" where
  "reg_addrs = {(i, off). i < MINER_AXI_INSTANCES \<and> unat off < 0x1000 \<and> 4 dvd unat off}"

definition job_offsets :: "u32 set" where
  "job_offsets = {off. 4 dvd unat off \<and>
     (0x20 \<le> unat off \<and> unat off < 0x50 \<or> 0x60 \<le> unat off \<and> unat off < 0x88)}"

definition hw_peek :: "miner_hw \<Rightarrow> nat \<times> u32 \<Rightarrow> u32" where
  "hw_peek hw a = read_reg (hw_inst hw (fst a)) (unat (snd a))"

definition hw_poke :: "nat \<times> u32 \<Rightarrow> u32 \<Rightarrow> miner_hw \<Rightarrow> miner_hw" where
  "hw_poke a v hw = miner_write_reg_instance (fst a) (snd a) v hw"


text \<open>The writes of one instance's job, in program order.\<close>

definition job_writes :: "u32 list \<Rightarrow> u32 list \<Rightarrow> u32 list \<Rightarrow> nat \<Rightarrow> ((nat \<times> u32) \<times> u32) list" where
  "job_writes midstate header_tail target inst =
     concat (map (\<lambda>i. [((inst, MINER_REG_MIDSTATE0 + of_nat i * 4), midstate ! i),
                        ((inst, MINER_REG_TARGET0 + of_nat i * 4), target ! i)]) [0..<8]) @
     map (\<lambda>i. ((inst, MINER_REG_HEADER_TAIL0 + of_nat i * 4), header_tail ! i)) [0..<4]"

text \<open>The share of a range that instance \<open>inst\<close> gets.\<close>

definition share_count :: "u32 \<Rightarrow> nat \<Rightarrow> u32" where
  "share_count nonce_count inst =
     nonce_count div of_nat MINER_AXI_INSTANCES +
     (if of_nat inst < nonce_count mod of_nat MINER_AXI_INSTANCES then 1 else 0)"

definition share_start :: "u32 \<Rightarrow> u32 \<Rightarrow> nat \<Rightarrow> u32" where
  "share_start nonce_start nonce_count inst =
     nonce_start + sum_list (map (share_count nonce_count) [0..<inst])"

definition start_writes :: "u32 \<Rightarrow> u32 \<Rightarrow> nat \<Rightarrow> ((nat \<times> u32) \<times> u32) list" where
  "start_writes nonce_start nonce_count inst =
     [((inst, MINER_REG_NONCE_START), share_start nonce_start nonce_count inst),
      ((inst, MINER_REG_NONCE_COUNT), share_count nonce_count inst),
      ((inst, MINER_REG_CONTROL), MINER_CONTROL_START)]"

definition nonce_range :: "u32 \<Rightarrow> nat \<Rightarrow> u32 list" where
  "nonce_range s n = map (\<lambda>k. s + of_nat k) [0..<n]"

text \<open>The nonces an engine still has to scan, and those an instance hands to its engines.\<close>

definition engine_nonces :: "engine \<Rightarrow> u32 list" where
  "engine_nonces e =
     (case e of
        EngIdle \<Rightarrow> []
      | EngBusy j \<Rightarrow> map (\<lambda>k. ej_nonce j + of_nat (k * NUM_ENGINES)) [0..<unat (ej_remaining j)])"

definition inst_nonces :: "miner_inst \<Rightarrow> u32 list" where
  "inst_nonces m = concat (map (\<lambda>k. engine_nonces (start_engine m k EngIdle)) [0..<NUM_ENGINES])"

text \<open>Nothing runs; nothing runs and no status bit is set.\<close>

definition inst_stopped :: "miner_inst \<Rightarrow> bool" where
  "inst_stopped m \<longleftrightarrow> \<not> running_q m \<and> load_q m = None \<and> all_idle m \<and> fifo_q m = []"

definition inst_quiet :: "miner_inst \<Rightarrow> bool" where
  "inst_quiet m \<longleftrightarrow>
     inst_stopped m \<and> \<not> result_valid_q m \<and> \<not> overflow_q m \<and> \<not> nonce_done_q m"

text \<open>A pending result of instance \<open>j\<close> is still there, unchanged.\<close>

definition result_kept :: "miner_hw \<Rightarrow> miner_hw \<Rightarrow> nat \<Rightarrow> bool" where
  "result_kept hw hw' j \<longleftrightarrow>
     (result_valid_q (hw_inst hw j) \<longrightarrow>
        result_valid_q (hw_inst hw' j) \<and> result_nonce_q (hw_inst hw' j) = result_nonce_q (hw_inst hw j) \<and>
        result_engine_q (hw_inst hw' j) = result_engine_q (hw_inst hw j))"

text \<open>\<open>r\<close> is the result that instance \<open>i\<close> held; it has been taken out of the result register.\<close>

definition popped_from :: "miner_hw \<Rightarrow> miner_hw \<Rightarrow> miner_result \<Rightarrow> nat \<Rightarrow> bool" where
  "popped_from hw hw' r i \<longleftrightarrow>
     res_nonce r = result_nonce_q (hw_inst hw' i) \<and>
     res_engine r = result_engine_q (hw_inst hw' i) + of_nat i * MINER_ENGINES_PER_INSTANCE \<and>
     \<not> result_valid_q (hw_inst hw' i) \<and>
     (result_valid_q (hw_inst hw i) \<longrightarrow>
        res_nonce r = result_nonce_q (hw_inst hw i) \<and>
        res_engine r = result_engine_q (hw_inst hw i) + of_nat i * MINER_ENGINES_PER_INSTANCE)"

definition inst_cfg ::
  "miner_inst \<Rightarrow> u32 list \<times> u32 list \<times> u32 list \<times> u32 \<times> u32 \<times> bool \<times> bool" where
  "inst_cfg m = (midstate_q m, header_tail_q m, target_q m, nonce_start_q m, nonce_count_q m,
                 irq_mask_q m, irq_force_q m)"

text \<open>The status word of a group of instances.\<close>

definition status_word :: "miner_inst list \<Rightarrow> u32" where
  "status_word ms =
     bool_bit (\<exists>m \<in> set ms. running_q m) 0 OR bool_bit (\<exists>m \<in> set ms. result_valid_q m) 1 OR
     bool_bit (\<exists>m \<in> set ms. overflow_q m) 3"

definition hw_tick :: "miner_hw \<Rightarrow> miner_hw" where
  "hw_tick hw = hw\<lparr>hw_bus := snd (bus_tick (hw_bus hw))\<rparr>"

definition hw_co :: "miner_hw \<Rightarrow> bool" where
  "hw_co hw = fst (bus_tick (hw_bus hw))"

text \<open>A write as the addressed instance sees it.\<close>

definition inst_write :: "bool \<Rightarrow> u32 \<Rightarrow> u32 \<Rightarrow> miner_inst \<Rightarrow> miner_inst" where
  "inst_write co off v m =
     (if co then coincide_finish m (write_reg (unat off) v m) else write_reg (unat off) v m)"

text \<open>
  One read-modify-write of an instance's \<open>IRQ_CONTROL\<close>: it sets the mask bit to \<open>b\<close>, keeps the
  force bit, and leaves the configuration of the other instances alone.
\<close>

definition irq_rmw :: "bool \<Rightarrow> nat \<Rightarrow> miner_hw \<Rightarrow> miner_hw" where
  "irq_rmw b inst hw =
     (let (control, hw1) = miner_read_reg_instance inst MINER_REG_IRQ_CONTROL hw
      in miner_write_reg_instance inst MINER_REG_IRQ_CONTROL
           (if b then control OR MINER_IRQ_CONTROL_MASK else control AND NOT MINER_IRQ_CONTROL_MASK) hw1)"

text \<open>
  A concrete schedule: while the firmware performs its accesses, the loader of each instance
  starts engine 0, which finds a candidate that then moves into the result register.
\<close>

definition demo_schedule :: "tick list" where
  "demo_schedule =
     concat (map (\<lambda>i. map (\<lambda>e. \<lparr>tick_events = [(i, e)], tick_coincide = False\<rparr>)
       [LoadEngine, Scan 0 Hit, Latch 0]) [0..<MINER_AXI_INSTANCES])"

definition demo_hw :: "tick list \<Rightarrow> miner_hw" where
  "demo_hw sched = \<lparr>g_miner_base = MINER_AXI_BASEADDR, hw_bus = reset_bus sched\<rparr>"

text \<open>Well-formed hardware whose interrupt masks are \<open>ms\<close>.\<close>

definition hw_masks :: "miner_hw \<Rightarrow> (nat \<Rightarrow> bool) \<Rightarrow> bool" where
  "hw_masks hw ms \<longleftrightarrow>
     hw_ok hw \<and> (\<forall>i<MINER_AXI_INSTANCES. irq_mask_q (hw_inst hw i) = ms i)"

text \<open>The accesses the fabric still has events for, and the instances holding a result.\<close>

definition fabric_left :: "miner_hw \<Rightarrow> nat" where
  "fabric_left hw = length (schedule_of_fabric (hw_bus hw))"

definition results_held :: "miner_hw \<Rightarrow> nat set" where
  "results_held hw = {i. i < MINER_AXI_INSTANCES \<and> result_valid_q (hw_inst hw i)}"

lemmas reg_defs =
  MINER_REG_CONTROL_def MINER_REG_STATUS_def MINER_REG_NUM_ENGINES_def MINER_REG_MIDSTATE0_def
  MINER_REG_HEADER_TAIL0_def MINER_REG_TARGET0_def MINER_REG_NONCE_START_def
  MINER_REG_NONCE_COUNT_def MINER_REG_RESULT_NONCE_def MINER_REG_RESULT_ENGINE_def
  MINER_REG_RESULT_STATUS_def MINER_REG_IRQ_CONTROL_def

lemmas reg_bit_defs =
  MINER_CONTROL_START_def MINER_CONTROL_STOP_def MINER_CONTROL_CLEAR_def
  MINER_STATUS_RUNNING_def MINER_STATUS_RESULT_def MINER_STATUS_DONE_def MINER_STATUS_OVERFLOW_def
  MINER_RESULT_STATUS_RESULT_def MINER_RESULT_STATUS_OVERFLOW_def MINER_IRQ_CONTROL_MASK_def


subsection \<open>What the fabric leaves alone\<close>

lemma start_engine_cases: "start_engine m k e = e \<or> e = EngIdle"
  by (cases e) (simp_all add: start_engine_def)

lemma fabric_step_cfg [bus_simps]: "inst_cfg (fabric_step e m) = inst_cfg m"
  by (cases e)
    (simp_all add: inst_cfg_def load_engine_def scan_def latch_def finish_def Let_def
       split: option.split engine.split scan_outcome.split)

lemma fabric_step_ok [bus_simps]: "inst_ok m \<Longrightarrow> inst_ok (fabric_step e m)"
  by (cases e)
    (auto simp: inst_ok_def load_engine_def scan_def latch_def finish_def Let_def NUM_ENGINES_def
       split: option.split engine.split scan_outcome.split)

lemma fabric_step_result:
  assumes "result_valid_q m"
  shows "result_valid_q (fabric_step e m) \<and> result_nonce_q (fabric_step e m) = result_nonce_q m \<and>
         result_engine_q (fabric_step e m) = result_engine_q m"
  using assms
  by (cases e)
    (simp_all add: load_engine_def scan_def latch_def finish_def Let_def
       split: option.split engine.split scan_outcome.split)

lemma all_idle_nth: "all_idle m \<Longrightarrow> k < length (engines_q m) \<Longrightarrow> engines_q m ! k = EngIdle"
  by (simp add: all_idle_def)

lemma fabric_step_stopped:
  assumes "\<not> running_q m" "load_q m = None" "all_idle m" "fifo_q m = []"
  shows "fabric_step e m = m"
  using assms
  by (cases e) (simp_all add: load_engine_def scan_def latch_def finish_def all_idle_nth)

text \<open>Every invariant of a single fabric step holds across a whole interval of the schedule.\<close>

lemma fabric_run_Cons:
  "fabric_run ((i, e) # evs) ms = fabric_run evs (ms[i := fabric_step e (ms ! i)])"
  by (simp add: fabric_run_def)

lemma fabric_run_length [bus_simps]: "length (fabric_run evs ms) = length ms"
  by (induction evs arbitrary: ms) (auto simp: fabric_run_def)

lemma fabric_run_invariant:
  assumes step: "\<And>e m. P m \<Longrightarrow> P (fabric_step e m)" and "P (ms ! i)" "i < length ms"
  shows "P (fabric_run evs ms ! i)"
  using assms(2,3)
proof (induction evs arbitrary: ms)
  case Nil
  then show ?case by (simp add: fabric_run_def)
next
  case (Cons a evs)
  obtain j e where a: "a = (j, e)" by force
  have "P (ms[j := fabric_step e (ms ! j)] ! i)"
    using Cons.prems step[of "ms ! i" e] by (cases "j = i") auto
  then show ?case
    using Cons.IH Cons.prems(2) by (simp add: a fabric_run_Cons)
qed


subsection \<open>An access reaches its instance\<close>

lemma hw_tick_base [bus_simps]: "g_miner_base (hw_tick hw) = g_miner_base hw"
  by (simp add: hw_tick_def)

lemma bus_tick_insts:
  "\<exists>evs. insts (snd (bus_tick b)) = fabric_run evs (insts b)"
proof (cases "schedule_of_fabric b")
  case Nil
  have "fabric_run [] (insts b) = insts b" by (simp add: fabric_run_def)
  then have "insts (snd (bus_tick b)) = fabric_run [] (insts b)"
    using Nil by (simp add: bus_tick_def)
  then show ?thesis ..
next
  case (Cons t ts)
  then show ?thesis by (auto simp: bus_tick_def)
qed

lemma bus_tick_fault [bus_simps]: "bus_fault (snd (bus_tick b)) = bus_fault b"
  by (simp add: bus_tick_def split: list.split)

lemma hw_tick_invariant:
  assumes "\<And>e m. P m \<Longrightarrow> P (fabric_step e m)" "P (hw_inst hw i)" "i < length (insts (hw_bus hw))"
  shows "P (hw_inst (hw_tick hw) i)"
proof -
  obtain evs where "insts (hw_bus (hw_tick hw)) = fabric_run evs (insts (hw_bus hw))"
    using bus_tick_insts by (auto simp: hw_tick_def)
  then show ?thesis
    using fabric_run_invariant[of P, OF assms(1)] assms(2,3) by (simp add: hw_inst_def)
qed

lemma hw_tick_length [bus_simps]: "length (insts (hw_bus (hw_tick hw))) = length (insts (hw_bus hw))"
proof -
  obtain evs where "insts (hw_bus (hw_tick hw)) = fabric_run evs (insts (hw_bus hw))"
    using bus_tick_insts by (auto simp: hw_tick_def)
  then show ?thesis by (simp add: bus_simps)
qed

lemma hw_ok_iff:
  "hw_ok hw \<longleftrightarrow> g_miner_base hw = MINER_AXI_BASEADDR \<and>
     length (insts (hw_bus hw)) = MINER_AXI_INSTANCES \<and>
     (\<forall>i<MINER_AXI_INSTANCES. inst_ok (hw_inst hw i)) \<and> \<not> bus_fault (hw_bus hw)"
  by (auto simp: hw_ok_def bus_ok_def hw_inst_def all_set_conv_all_nth)

lemma hw_tick_ok [bus_simps]: "hw_ok hw \<Longrightarrow> hw_ok (hw_tick hw)"
  using hw_tick_invariant[of inst_ok] fabric_step_ok
  by (auto simp: hw_ok_iff bus_simps) (simp add: hw_tick_def bus_simps)

lemma hw_tick_cfg [bus_simps]:
  "hw_ok hw \<Longrightarrow> i < MINER_AXI_INSTANCES \<Longrightarrow> inst_cfg (hw_inst (hw_tick hw) i) = inst_cfg (hw_inst hw i)"
  using hw_tick_invariant[of "\<lambda>m. inst_cfg m = inst_cfg (hw_inst hw i)" hw i]
  by (simp add: bus_simps hw_ok_iff)

lemma hw_tick_result:
  assumes "hw_ok hw" "i < MINER_AXI_INSTANCES" "result_valid_q (hw_inst hw i)"
  shows "result_valid_q (hw_inst (hw_tick hw) i)"
    "result_nonce_q (hw_inst (hw_tick hw) i) = result_nonce_q (hw_inst hw i)"
    "result_engine_q (hw_inst (hw_tick hw) i) = result_engine_q (hw_inst hw i)"
  using hw_tick_invariant
    [of "\<lambda>m. result_valid_q m \<and> result_nonce_q m = result_nonce_q (hw_inst hw i) \<and>
             result_engine_q m = result_engine_q (hw_inst hw i)" hw i]
    assms fabric_step_result by (auto simp: hw_ok_iff)

lemma hw_tick_stopped:
  assumes "hw_ok hw" "i < MINER_AXI_INSTANCES" "\<not> running_q (hw_inst hw i)"
    "load_q (hw_inst hw i) = None" "all_idle (hw_inst hw i)" "fifo_q (hw_inst hw i) = []"
  shows "hw_inst (hw_tick hw) i = hw_inst hw i"
  using hw_tick_invariant[of "\<lambda>m. m = hw_inst hw i" hw i] fabric_step_stopped assms
  by (auto simp: hw_ok_iff)

lemma instance_decode:
  assumes "hw_ok hw" "i < MINER_AXI_INSTANCES" "unat off < 0x1000"
  shows "bus_decode (miner_instance_base i hw + off) = Some (i, unat off)"
proof -
  have i: "i < 4" using assms(2) by (simp add: MINER_AXI_INSTANCES_def)
  have a: "unat (of_nat i * (0x1000::u32)) = i * 0x1000"
    using i by (simp add: unat_word_ariths unat_of_nat)
  have b: "unat (0xA4000000 + of_nat i * (0x1000::u32)) = 0xA4000000 + i * 0x1000"
    using i a by (subst unat_plus_if') simp
  have c: "unat (0xA4000000 + of_nat i * (0x1000::u32) + off) = 0xA4000000 + i * 0x1000 + unat off"
    using i assms(3) b by (subst unat_plus_if') simp
  have d: "0xA4000000 + of_nat i * (0x1000::u32) + off - 0xA4000000 = of_nat i * 0x1000 + off" by simp
  have e: "unat (of_nat i * (0x1000::u32) + off) = i * 0x1000 + unat off"
    using i assms(3) a by (subst unat_plus_if') simp
  show ?thesis
    using assms i
    by (simp add: bus_decode_def miner_instance_base_def hw_ok_def MINER_AXI_BASEADDR_def
        MINER_AXI_INSTANCE_STRIDE_def c d e word_le_nat_alt word_less_nat_alt unat_div unat_mod
        del: add_diff_cancel_left')
qed

lemma miner_read_instance [bus_simps]:
  assumes "hw_ok hw" "i < MINER_AXI_INSTANCES" "unat off < 0x1000"
  shows "miner_read_reg_instance i off hw =
         (read_reg (hw_inst (hw_tick hw) i) (unat off), hw_tick hw)"
  using assms
  by (simp add: miner_read_reg_instance_def miner_read_at_def bus_read_def instance_decode
      hw_tick_def hw_inst_def Let_def)

lemma miner_write_instance:
  assumes "hw_ok hw" "i < MINER_AXI_INSTANCES" "unat off < 0x1000"
  shows "miner_write_reg_instance i off v hw =
         (hw_tick hw)\<lparr>hw_bus := (hw_bus (hw_tick hw))\<lparr>insts :=
            (insts (hw_bus (hw_tick hw)))[i := inst_write (hw_co hw) off v (hw_inst (hw_tick hw) i)]\<rparr>\<rparr>"
  using assms
  by (simp add: miner_write_reg_instance_def miner_write_at_def bus_write_def instance_decode
      hw_tick_def hw_co_def hw_inst_def inst_write_def Let_def split_beta)

lemma hw_inst_write [bus_simps]:
  assumes "hw_ok hw" "i < MINER_AXI_INSTANCES" "unat off < 0x1000" "j < MINER_AXI_INSTANCES"
  shows "hw_inst (miner_write_reg_instance i off v hw) j =
         (if j = i then inst_write (hw_co hw) off v (hw_inst (hw_tick hw) i) else hw_inst (hw_tick hw) j)"
  using assms hw_tick_length[of hw]
  by (simp add: miner_write_instance) (simp add: hw_inst_def hw_ok_iff)

lemma write_reg_ok: "inst_ok m \<Longrightarrow> inst_ok (write_reg a v m)"
  by (auto simp: inst_ok_def write_reg_def write_control_def control_start_def control_stop_def
      control_clear_def write_result_status_def Let_def NUM_ENGINES_def split: option.split)

lemma inst_write_ok [bus_simps]: "inst_ok m \<Longrightarrow> inst_ok (inst_write co off v m)"
  using write_reg_ok[of m "unat off" v] by (simp add: inst_write_def coincide_finish_def inst_ok_def)

lemma miner_write_ok [bus_simps]:
  assumes "hw_ok hw" "i < MINER_AXI_INSTANCES" "unat off < 0x1000"
  shows "hw_ok (miner_write_reg_instance i off v hw)"
proof -
  have t: "hw_ok (hw_tick hw)" using assms(1) by (rule hw_tick_ok)
  then have "\<forall>j<MINER_AXI_INSTANCES. inst_ok (hw_inst (miner_write_reg_instance i off v hw) j)"
    using assms by (simp add: hw_inst_write inst_write_ok hw_ok_iff)
  then show ?thesis
    using t assms by (simp add: hw_ok_iff) (simp add: miner_write_instance hw_ok_iff)
qed


subsection \<open>The contract of the job registers\<close>

text \<open>
  A store of registers: some addresses may be written at all, and those in \<open>cfg\<close> hold what was
  last written to them. Everything the driver programs rests on these two laws.
\<close>

locale config_store =
  fixes peek :: "'s \<Rightarrow> 'a \<Rightarrow> 'v" and poke :: "'a \<Rightarrow> 'v \<Rightarrow> 's \<Rightarrow> 's"
    and ok :: "'s \<Rightarrow> bool" and addrs cfg :: "'a set"
  assumes poke_ok: "ok s \<Longrightarrow> a \<in> addrs \<Longrightarrow> ok (poke a v s)"
    and peek_poke: "ok s \<Longrightarrow> a \<in> addrs \<Longrightarrow> b \<in> cfg \<Longrightarrow>
          peek (poke a v s) b = (if a = b then v else peek s b)"
begin

lemma pokes_ok:
  "ok s \<Longrightarrow> fst ` set ws \<subseteq> addrs \<Longrightarrow> ok (fold (\<lambda>(a, v). poke a v) ws s)"
  by (induction ws arbitrary: s) (auto simp: poke_ok)

lemma peek_pokes:
  "ok s \<Longrightarrow> fst ` set ws \<subseteq> addrs \<Longrightarrow> b \<in> cfg \<Longrightarrow>
   peek (fold (\<lambda>(a, v). poke a v) ws s) b =
     (case map_of (rev ws) b of Some v \<Rightarrow> v | None \<Rightarrow> peek s b)"
proof (induction ws arbitrary: s)
  case Nil
  then show ?case by simp
next
  case (Cons w ws)
  then show ?case
    by (cases w) (auto simp: poke_ok peek_poke map_add_def split: option.split)
qed

lemma peek_pokes_untouched:
  assumes "ok s" "fst ` set ws \<subseteq> addrs" "b \<in> cfg" "b \<notin> fst ` set ws"
  shows "peek (fold (\<lambda>(a, v). poke a v) ws s) b = peek s b"
proof -
  have "map_of (rev ws) b = None" using assms(4) by (simp add: map_of_eq_None_iff)
  then show ?thesis using assms(1-3) by (simp add: peek_pokes)
qed

lemma peek_pokes_written:
  assumes "ok s" "fst ` set ws \<subseteq> addrs" "b \<in> cfg" "(b, v) \<in> set ws"
    "\<And>v'. (b, v') \<in> set ws \<Longrightarrow> v' = v"
  shows "peek (fold (\<lambda>(a, v). poke a v) ws s) b = v"
proof -
  obtain v' where v': "map_of (rev ws) b = Some v'"
    using assms(4) by (metis image_eqI map_of_eq_None_iff not_Some_eq set_rev fst_conv)
  then have "(b, v') \<in> set ws" using map_of_SomeD by fastforce
  then show ?thesis using assms v' by (simp add: peek_pokes)
qed

end

lemma read_reg_cfg:
  assumes "inst_cfg m = inst_cfg m'" "off \<in> job_offsets"
  shows "read_reg m (unat off) = read_reg m' (unat off)"
  using assms by (auto simp: inst_cfg_def job_offsets_def read_reg_def)

lemma coincide_finish_cfg [bus_simps]: "inst_cfg (coincide_finish m m') = inst_cfg m'"
  by (simp add: coincide_finish_def inst_cfg_def)

lemma dvd4_neq: "4 dvd (a::nat) \<Longrightarrow> 4 dvd b \<Longrightarrow> a \<noteq> b \<Longrightarrow> a div 4 \<noteq> b div 4"
  by (metis dvd_div_mult_self)

lemma div4_sub: "4 dvd (a::nat) \<Longrightarrow> 4 dvd b \<Longrightarrow> 4 dvd c \<Longrightarrow> c \<le> a \<Longrightarrow> c \<le> b \<Longrightarrow>
    (a - c) div 4 = (b - c) div 4 \<longleftrightarrow> a = b"
  by (metis div_mult_self1_is_m dvd_diff_nat dvd_div_eq_iff dvd_div_mult_self eq_diff_iff)

lemma write_control_cfg: "inst_cfg (write_control v m) = inst_cfg m"
  by (simp add: write_control_def control_start_def control_stop_def control_clear_def Let_def
      inst_cfg_def)

lemma write_reg_fields:
  "midstate_q (write_reg a v m) =
     (if 0x20 \<le> a \<and> a < 0x40 then (midstate_q m)[(a - 0x20) div 4 := v] else midstate_q m)"
  "header_tail_q (write_reg a v m) =
     (if 0x40 \<le> a \<and> a < 0x50 then (header_tail_q m)[(a - 0x40) div 4 := v] else header_tail_q m)"
  "target_q (write_reg a v m) =
     (if 0x60 \<le> a \<and> a < 0x80 then (target_q m)[(a - 0x60) div 4 := v] else target_q m)"
  "nonce_start_q (write_reg a v m) = (if a = 0x80 then v else nonce_start_q m)"
  "nonce_count_q (write_reg a v m) = (if a = 0x84 then v else nonce_count_q m)"
  "irq_mask_q (write_reg a v m) = (if a = 0xa0 then bit v 0 else irq_mask_q m)"
  "irq_force_q (write_reg a v m) = (if a = 0xa0 then bit v 1 else irq_force_q m)"
  using write_control_cfg[of v m]
  by (simp_all add: write_reg_def write_result_status_def inst_cfg_def)

lemma read_write_reg:
  assumes m: "inst_ok m" and a: "4 dvd a" and b: "4 dvd b" "0x20 \<le> b \<and> b < 0x50 \<or> 0x60 \<le> b \<and> b < 0x88"
  shows "read_reg (write_reg a v m) b = (if a = b then v else read_reg m b)"
proof -
  have idx: "(a - c) div 4 = (b - c) div 4 \<longleftrightarrow> a = b" if "c \<le> a" "c \<le> b" "4 dvd c" for c
    using div4_sub[OF a b(1)] that by blast
  consider "0x20 \<le> b \<and> b < 0x40" | "0x40 \<le> b \<and> b < 0x50" | "0x60 \<le> b \<and> b < 0x80"
    | "b = 0x80" | "b = 0x84" | "0x84 < b \<and> b < 0x88 \<or> 0x80 < b \<and> b < 0x84"
    using b(2) by linarith
  then show ?thesis
  proof cases
    case 1
    then have "(b - 0x20) div 4 < 8" by auto
    with 1 m show ?thesis using idx[of "0x20"]
      by (auto simp: read_reg_def write_reg_fields inst_ok_def nth_list_update)
  next
    case 2
    then have "(b - 0x40) div 4 < 4" by auto
    with 2 m show ?thesis using idx[of "0x40"]
      by (auto simp: read_reg_def write_reg_fields inst_ok_def nth_list_update)
  next
    case 3
    then have "(b - 0x60) div 4 < 8" by auto
    with 3 m show ?thesis using idx[of "0x60"]
      by (auto simp: read_reg_def write_reg_fields inst_ok_def nth_list_update)
  next
    case 6
    then have False using b(1) by presburger
    then show ?thesis ..
  qed (auto simp: read_reg_def write_reg_fields)
qed

lemma read_inst_write:
  assumes "inst_ok m" "4 dvd unat a" "b \<in> job_offsets"
  shows "read_reg (inst_write co a v m) (unat b) = (if a = b then v else read_reg m (unat b))"
proof -
  have "read_reg (inst_write co a v m) (unat b) = read_reg (write_reg (unat a) v m) (unat b)"
    by (rule read_reg_cfg[OF _ assms(3)]) (simp add: inst_write_def bus_simps)
  then show ?thesis
    using read_write_reg[of m "unat a" "unat b" v] assms
    by (auto simp: job_offsets_def word_unat_eq_iff)
qed

lemma reg_addrsD:
  assumes "a \<in> reg_addrs"
  shows "fst a < MINER_AXI_INSTANCES" "unat (snd a) < 0x1000" "4 dvd unat (snd a)"
  using assms by (auto simp: reg_addrs_def)

interpretation regs: config_store hw_peek hw_poke hw_ok reg_addrs
  "{..<MINER_AXI_INSTANCES} \<times> job_offsets"
proof (unfold_locales, goal_cases)
  case (1 s a v)
  then show ?case using reg_addrsD[of a] by (simp add: hw_poke_def miner_write_ok)
next
  case (2 s a b v)
  have i: "fst b < MINER_AXI_INSTANCES" and o: "snd b \<in> job_offsets" using 2(3) by auto
  have keep: "read_reg (hw_inst (hw_tick s) (fst b)) (unat (snd b)) = hw_peek s b"
    unfolding hw_peek_def by (rule read_reg_cfg) (use 2(1) i o in \<open>simp_all add: hw_tick_cfg\<close>)
  have "inst_ok (hw_inst (hw_tick s) (fst a))"
    using hw_tick_ok[OF 2(1)] reg_addrsD(1)[OF 2(2)] by (simp add: hw_ok_iff)
  then show ?case
    using 2(1) i o keep reg_addrsD[OF 2(2)]
    by (auto simp: hw_poke_def hw_peek_def hw_inst_write read_inst_write prod_eq_iff)
qed


subsection \<open>Programming a job\<close>

lemma unat_reg_off:
  assumes "k < 8" "unat c < 0x1000 - 28"
  shows "unat (c + of_nat k * 4 :: u32) = unat c + 4 * k"
proof -
  have "unat (of_nat k * 4 :: u32) = 4 * k"
    using assms by (simp add: unat_word_ariths unat_of_nat)
  then show ?thesis using assms by (subst unat_plus_if') simp
qed

lemma unat_job_off:
  "k < 8 \<Longrightarrow> unat (MINER_REG_MIDSTATE0 + of_nat k * 4) = 0x20 + 4 * k"
  "k < 8 \<Longrightarrow> unat (MINER_REG_TARGET0 + of_nat k * 4) = 0x60 + 4 * k"
  "k < 4 \<Longrightarrow> unat (MINER_REG_HEADER_TAIL0 + of_nat k * 4) = 0x40 + 4 * k"
  by (simp_all add: unat_reg_off reg_defs)

lemma job_writes_set:
  "set (job_writes mid hdr tgt inst) =
     {((inst, MINER_REG_MIDSTATE0 + of_nat k * 4), mid ! k) | k. k < 8} \<union>
     {((inst, MINER_REG_TARGET0 + of_nat k * 4), tgt ! k) | k. k < 8} \<union>
     {((inst, MINER_REG_HEADER_TAIL0 + of_nat k * 4), hdr ! k) | k. k < 4}"
  by (auto simp: job_writes_def)

lemma hw_poke_pair: "hw_poke (i, off) v = miner_write_reg_instance i off v"
  by (rule ext) (simp add: hw_poke_def)

lemma mult4_eq: "k < 8 \<Longrightarrow> l < 8 \<Longrightarrow> (of_nat k * 4 :: u32) = of_nat l * 4 \<longleftrightarrow> k = l"
  by (simp add: word_unat_eq_iff unat_word_ariths unat_of_nat)

lemma job_off_neq:
  "k < 8 \<Longrightarrow> l < 8 \<Longrightarrow>
     MINER_REG_MIDSTATE0 + of_nat k * 4 \<noteq> MINER_REG_TARGET0 + of_nat l * 4"
  "k < 8 \<Longrightarrow> l < 4 \<Longrightarrow>
     MINER_REG_MIDSTATE0 + of_nat k * 4 \<noteq> MINER_REG_HEADER_TAIL0 + of_nat l * 4"
  "k < 8 \<Longrightarrow> l < 4 \<Longrightarrow>
     MINER_REG_TARGET0 + of_nat k * 4 \<noteq> MINER_REG_HEADER_TAIL0 + of_nat l * 4"
  by (simp_all only: word_unat_eq_iff unat_job_off)

lemma program_job_mem:
  assumes "i < MINER_AXI_INSTANCES"
  shows "k < 8 \<Longrightarrow> ((i, MINER_REG_MIDSTATE0 + of_nat k * 4), v)
           \<in> set (concat (map (job_writes mid hdr tgt) [0..<MINER_AXI_INSTANCES])) \<longleftrightarrow> v = mid ! k"
    and "k < 8 \<Longrightarrow> ((i, MINER_REG_TARGET0 + of_nat k * 4), v)
           \<in> set (concat (map (job_writes mid hdr tgt) [0..<MINER_AXI_INSTANCES])) \<longleftrightarrow> v = tgt ! k"
    and "k < 4 \<Longrightarrow> ((i, MINER_REG_HEADER_TAIL0 + of_nat k * 4), v)
           \<in> set (concat (map (job_writes mid hdr tgt) [0..<MINER_AXI_INSTANCES])) \<longleftrightarrow> v = hdr ! k"
proof -
  have *: "((i, a), v) \<in> set (concat (map (job_writes mid hdr tgt) [0..<MINER_AXI_INSTANCES])) \<longleftrightarrow>
      ((i, a), v) \<in> set (job_writes mid hdr tgt i)" for a
    using assms by (auto simp: job_writes_set)
  show "k < 8 \<Longrightarrow> ((i, MINER_REG_MIDSTATE0 + of_nat k * 4), v)
           \<in> set (concat (map (job_writes mid hdr tgt) [0..<MINER_AXI_INSTANCES])) \<longleftrightarrow> v = mid ! k"
    unfolding * job_writes_set by (auto simp: mult4_eq job_off_neq job_off_neq[THEN not_sym])
  show "k < 8 \<Longrightarrow> ((i, MINER_REG_TARGET0 + of_nat k * 4), v)
           \<in> set (concat (map (job_writes mid hdr tgt) [0..<MINER_AXI_INSTANCES])) \<longleftrightarrow> v = tgt ! k"
    unfolding * job_writes_set by (auto simp: mult4_eq job_off_neq job_off_neq[THEN not_sym])
  show "k < 4 \<Longrightarrow> ((i, MINER_REG_HEADER_TAIL0 + of_nat k * 4), v)
           \<in> set (concat (map (job_writes mid hdr tgt) [0..<MINER_AXI_INSTANCES])) \<longleftrightarrow> v = hdr ! k"
    unfolding * job_writes_set by (auto simp: mult4_eq job_off_neq job_off_neq[THEN not_sym])
qed

lemma program_job_pokes:
  "miner_program_job mid hdr tgt hw =
   fold (\<lambda>(a, v). hw_poke a v) (concat (map (job_writes mid hdr tgt) [0..<MINER_AXI_INSTANCES])) hw"
  by (simp add: miner_program_job_def job_writes_def fold_concat_map hw_poke_pair fold_map comp_def
      Let_def)

lemma program_job_addrs:
  "fst ` set (concat (map (job_writes mid hdr tgt) [0..<MINER_AXI_INSTANCES])) \<subseteq> reg_addrs"
  by (auto simp: job_writes_set reg_addrs_def unat_job_off)

lemmas program_job_written =
  regs.peek_pokes_written[OF _ program_job_addrs, folded program_job_pokes]

lemma program_job_peeks:
  assumes ok: "hw_ok hw" and i: "i < MINER_AXI_INSTANCES"
  shows "k < 8 \<Longrightarrow> hw_peek (miner_program_job mid hdr tgt hw) (i, MINER_REG_MIDSTATE0 + of_nat k * 4) = mid ! k"
    and "k < 8 \<Longrightarrow> hw_peek (miner_program_job mid hdr tgt hw) (i, MINER_REG_TARGET0 + of_nat k * 4) = tgt ! k"
    and "k < 4 \<Longrightarrow> hw_peek (miner_program_job mid hdr tgt hw) (i, MINER_REG_HEADER_TAIL0 + of_nat k * 4) = hdr ! k"
  by (rule program_job_written[OF ok],
      use i in \<open>simp_all add: program_job_mem del: set_concat\<close>,
      simp_all add: job_offsets_def unat_job_off)+

lemma program_job_ok: "hw_ok hw \<Longrightarrow> hw_ok (miner_program_job mid hdr tgt hw)"
  unfolding program_job_pokes by (rule regs.pokes_ok[OF _ program_job_addrs])

lemma hw_ok_lengths:
  assumes "hw_ok hw" "i < MINER_AXI_INSTANCES"
  shows "length (midstate_q (hw_inst hw i)) = 8" "length (target_q (hw_inst hw i)) = 8"
    "length (header_tail_q (hw_inst hw i)) = 4" "length (engines_q (hw_inst hw i)) = NUM_ENGINES"
  using assms by (auto simp: hw_ok_iff inst_ok_def)

lemma peek_job_regs:
  "k < 8 \<Longrightarrow> hw_peek hw (i, MINER_REG_MIDSTATE0 + of_nat k * 4) = midstate_q (hw_inst hw i) ! k"
  "k < 8 \<Longrightarrow> hw_peek hw (i, MINER_REG_TARGET0 + of_nat k * 4) = target_q (hw_inst hw i) ! k"
  "k < 4 \<Longrightarrow> hw_peek hw (i, MINER_REG_HEADER_TAIL0 + of_nat k * 4) = header_tail_q (hw_inst hw i) ! k"
  by (simp_all add: hw_peek_def unat_job_off read_reg_def)

lemma program_job_inst:
  assumes "hw_ok hw" "i < MINER_AXI_INSTANCES" "length mid = 8" "length hdr = 4" "length tgt = 8"
  defines "m \<equiv> hw_inst (miner_program_job mid hdr tgt hw) i"
  shows "midstate_q m = mid" "header_tail_q m = hdr" "target_q m = tgt"
  using assms hw_ok_lengths[OF program_job_ok[OF assms(1)] assms(2)]
    program_job_peeks[OF assms(1,2)]
  by (auto simp: peek_job_regs intro!: nth_equalityI)

lemma program_job_keeps:
  assumes ok: "hw_ok hw" and i: "i < MINER_AXI_INSTANCES"
    and off: "off = MINER_REG_NONCE_START \<or> off = MINER_REG_NONCE_COUNT"
  shows "hw_peek (miner_program_job mid hdr tgt hw) (i, off) = hw_peek hw (i, off)"
  unfolding program_job_pokes
  by (rule regs.peek_pokes_untouched[OF ok program_job_addrs])
    (use i off in \<open>auto simp: job_offsets_def job_writes_set word_unat_eq_iff unat_job_off,
       simp_all add: reg_defs\<close>)


subsection \<open>Starting a range\<close>

lemma start_range_fold:
  "fold (\<lambda>inst (range_start, hw).
      let range_count = share_count c inst;
          hw1 = miner_write_reg_instance inst MINER_REG_NONCE_START range_start hw;
          hw2 = miner_write_reg_instance inst MINER_REG_NONCE_COUNT range_count hw1;
          hw3 = miner_write_reg_instance inst MINER_REG_CONTROL MINER_CONTROL_START hw2
      in (range_start + range_count, hw3)) [0..<n] (s, hw) =
   (share_start s c n, fold (\<lambda>(a, v). hw_poke a v) (concat (map (start_writes s c) [0..<n])) hw)"
  by (induction n) (simp_all add: share_start_def start_writes_def hw_poke_pair Let_def add.assoc)

lemma start_range_pokes:
  "miner_start_range s c hw =
   fold (\<lambda>(a, v). hw_poke a v) (concat (map (start_writes s c) [0..<MINER_AXI_INSTANCES])) hw"
  using start_range_fold[of c MINER_AXI_INSTANCES s hw]
  by (simp add: miner_start_range_def share_count_def Let_def)

lemma start_range_addrs:
  "fst ` set (concat (map (start_writes s c) [0..<MINER_AXI_INSTANCES])) \<subseteq> reg_addrs"
  by (auto simp: start_writes_def reg_addrs_def reg_defs)

lemma start_range_ok: "hw_ok hw \<Longrightarrow> hw_ok (miner_start_range s c hw)"
  unfolding start_range_pokes by (rule regs.pokes_ok[OF _ start_range_addrs])

lemma start_range_regs:
  assumes ok: "hw_ok hw" and i: "i < MINER_AXI_INSTANCES"
  shows "nonce_start_q (hw_inst (miner_start_range s c hw) i) = share_start s c i"
    and "nonce_count_q (hw_inst (miner_start_range s c hw) i) = share_count c i"
proof -
  note written = regs.peek_pokes_written[OF ok start_range_addrs, folded start_range_pokes]
  have "hw_peek (miner_start_range s c hw) (i, MINER_REG_NONCE_START) = share_start s c i"
    "hw_peek (miner_start_range s c hw) (i, MINER_REG_NONCE_COUNT) = share_count c i"
    by (rule written; use i in \<open>force simp: start_writes_def job_offsets_def reg_defs\<close>)+
  then show "nonce_start_q (hw_inst (miner_start_range s c hw) i) = share_start s c i"
    "nonce_count_q (hw_inst (miner_start_range s c hw) i) = share_count c i"
    by (simp_all add: hw_peek_def read_reg_def reg_defs)
qed

lemma start_range_keeps_job:
  fixes s c :: u32
  assumes ok: "hw_ok hw" and i: "i < MINER_AXI_INSTANCES"
  defines "m \<equiv> hw_inst (miner_start_range s c hw) i"
  shows "midstate_q m = midstate_q (hw_inst hw i)" "header_tail_q m = header_tail_q (hw_inst hw i)"
    "target_q m = target_q (hw_inst hw i)"
proof -
  have *: "hw_peek (miner_start_range s c hw) (i, off) = hw_peek hw (i, off)"
    if "off \<in> job_offsets" "unat off < 0x80" for off
    using that i unfolding start_range_pokes
    by (intro regs.peek_pokes_untouched[OF ok start_range_addrs])
      (auto simp: start_writes_def reg_defs job_offsets_def)
  have "k < 8 \<Longrightarrow> hw_peek (miner_start_range s c hw) (i, MINER_REG_MIDSTATE0 + of_nat k * 4) =
           hw_peek hw (i, MINER_REG_MIDSTATE0 + of_nat k * 4)"
    "k < 8 \<Longrightarrow> hw_peek (miner_start_range s c hw) (i, MINER_REG_TARGET0 + of_nat k * 4) =
           hw_peek hw (i, MINER_REG_TARGET0 + of_nat k * 4)"
    "k < 4 \<Longrightarrow> hw_peek (miner_start_range s c hw) (i, MINER_REG_HEADER_TAIL0 + of_nat k * 4) =
           hw_peek hw (i, MINER_REG_HEADER_TAIL0 + of_nat k * 4)" for k
    by (rule *; simp add: job_offsets_def unat_job_off)+
  then show "midstate_q m = midstate_q (hw_inst hw i)"
    "header_tail_q m = header_tail_q (hw_inst hw i)" "target_q m = target_q (hw_inst hw i)"
    using hw_ok_lengths[OF ok i] hw_ok_lengths[OF start_range_ok[OF ok] i]
    by (auto simp: peek_job_regs m_def intro!: nth_equalityI)
qed

lemma nonce_range_append:
  "nonce_range s m @ nonce_range (s + of_nat m) n = nonce_range s (m + n)"
proof -
  have "[0..<m + n] = [0..<m] @ map (\<lambda>k. m + k) [0..<n]"
    using upt_add_eq_append[of 0 m n] map_add_upt[of m n] by (simp add: add.commute)
  then show ?thesis by (simp add: nonce_range_def add.assoc)
qed

lemma unat_share_count:
  assumes "inst < MINER_AXI_INSTANCES"
  shows "unat (share_count c inst) = unat c div 4 + (if inst < unat c mod 4 then 1 else 0)"
proof -
  have "unat c < 2 ^ 32" using unsigned_less[of c, where 'a = nat] by simp
  then show ?thesis
    using assms
    by (simp add: share_count_def MINER_AXI_INSTANCES_def word_less_nat_alt unat_mod unat_div
        unat_of_nat unat_word_ariths)
qed

lemma shares_cover:
  "n \<le> MINER_AXI_INSTANCES \<Longrightarrow>
   concat (map (\<lambda>i. nonce_range (share_start s c i) (unat (share_count c i))) [0..<n]) =
   nonce_range s (\<Sum>i<n. unat (share_count c i))"
proof (induction n)
  case 0
  then show ?case by (simp add: nonce_range_def)
next
  case (Suc n)
  have "share_start s c n = s + of_nat (\<Sum>i<n. unat (share_count c i))"
    by (simp add: share_start_def of_nat_sum sum_list_distinct_conv_sum_set atLeast0LessThan)
  then show ?case using Suc by (simp add: nonce_range_append del: of_nat_sum)
qed

lemma shares_sum: "(\<Sum>i<MINER_AXI_INSTANCES. unat (share_count c i)) = unat c"
proof -
  have "(\<Sum>i<4. unat (share_count c i)) =
        (\<Sum>i<4. unat c div 4 + (if i < unat c mod 4 then 1 else 0))"
    by (rule sum.cong) (simp_all add: unat_share_count MINER_AXI_INSTANCES_def)
  also have "\<dots> = unat c"
  proof -
    have "{..<4} = {0, 1, 2, 3::nat}" by auto
    then show ?thesis by (simp) presburger
  qed
  finally show ?thesis by (simp add: MINER_AXI_INSTANCES_def)
qed

text \<open>Inside an instance: the strided ranges of the 32 engines are a permutation of its share.\<close>

lemma strided_step:
  assumes "k < 32"
  shows "(Suc n + 31 - k) div 32 = (n + 31 - k) div 32 + (if k = n mod 32 then 1 else 0)"
    "k = n mod 32 \<Longrightarrow> k + (n + 31 - k) div 32 * 32 = n"
proof -
  define q r where "q = n div 32" and "r = n mod 32"
  then have n: "n = q * 32 + r" "r < 32" by auto
  have "(n + 31 - k) div 32 = (if k < r then Suc q else q)"
    by (rule div_nat_eqI) (use n assms in \<open>auto\<close>)
  moreover have "(Suc n + 31 - k) div 32 = (if k \<le> r then Suc q else q)"
    by (rule div_nat_eqI) (use n assms in \<open>auto\<close>)
  ultimately show "(Suc n + 31 - k) div 32 = (n + 31 - k) div 32 + (if k = n mod 32 then 1 else 0)"
    "k = n mod 32 \<Longrightarrow> k + (n + 31 - k) div 32 * 32 = n"
    using n by (auto simp: r_def[symmetric])
qed

lemma strided_perm:
  "mset (concat (map (\<lambda>k. map (\<lambda>j. k + j * 32) [0..<(n + 31 - k) div 32]) [0..<32])) = mset [0..<n]"
proof -
  have "(\<Sum>k<32. mset (map (\<lambda>j. k + j * 32) [0..<(n + 31 - k) div 32])) = mset [0..<n]"
  proof (induction n)
    case 0
    then show ?case by simp
  next
    case (Suc n)
    have "mset (map (\<lambda>j. k + j * 32) [0..<(Suc n + 31 - k) div 32]) =
        mset (map (\<lambda>j. k + j * 32) [0..<(n + 31 - k) div 32]) +
        (if k = n mod 32 then {#n#} else {#})" if "k < 32" for k
      using strided_step[OF that, of n] by (simp del: mset_map)
    then show ?case using Suc by (simp add: sum.distrib del: mset_map)
  qed
  then show ?thesis
    by (simp add: mset_concat sum_list_distinct_conv_sum_set atLeast0LessThan comp_def)
qed
lemma unat_engine_work_count:
  assumes "k < 32"
  shows "unat (engine_work_count c k) = (unat c + 31 - k) div 32"
proof (cases "k < unat c")
  case True
  have c: "unat c < 2 ^ 32" using unsigned_less[of c, where 'a = nat] by simp
  have k: "unat (of_nat k :: u32) = k" using assms by (simp add: unat_of_nat)
  have "unat (c - 1 - of_nat k) = unat c - 1 - k"
    using True k by (simp add: unat_sub_if_size word_size word_le_nat_alt)
  moreover have "(unat c - 1 - k) div 32 + 1 = (unat c + 31 - k) div 32"
  proof -
    have "unat c + 31 - k = (unat c - 1 - k) + 32" using True by simp
    then show ?thesis by simp
  qed
  ultimately show ?thesis
    using True c k
    by (simp add: engine_work_count_def NUM_ENGINES_def word_less_nat_alt unat_word_ariths unat_div)
next
  case False
  then show ?thesis
    using assms by (simp add: engine_work_count_def word_less_nat_alt unat_of_nat)
qed

lemma start_engine_nonces:
  assumes "k < NUM_ENGINES"
  shows "engine_nonces (start_engine m k EngIdle) =
         map (\<lambda>j. nonce_start_q m + of_nat (k + j * 32)) [0..<(unat (nonce_count_q m) + 31 - k) div 32]"
  using unat_engine_work_count[of k "nonce_count_q m"] assms
  by (auto simp: start_engine_def engine_nonces_def NUM_ENGINES_def add.assoc)

lemma inst_nonces_perm:
  "mset (inst_nonces m) = mset (nonce_range (nonce_start_q m) (unat (nonce_count_q m)))"
proof -
  let ?n = "unat (nonce_count_q m)" and ?f = "\<lambda>x. nonce_start_q m + of_nat x"
  have "inst_nonces m = concat (map (\<lambda>k. map ?f (map (\<lambda>j. k + j * 32) [0..<(?n + 31 - k) div 32]))
      [0..<32])"
    unfolding inst_nonces_def
    by (rule arg_cong[where f = concat]) (auto simp: start_engine_nonces NUM_ENGINES_def)
  also have "\<dots> = map ?f (concat (map (\<lambda>k. map (\<lambda>j. k + j * 32) [0..<(?n + 31 - k) div 32]) [0..<32]))"
    by (simp add: map_concat comp_def)
  finally show ?thesis
    using strided_perm[of ?n] by (simp only: nonce_range_def mset_map)
qed

lemma advance_nonces:
  "ej_remaining j \<noteq> 0 \<Longrightarrow> engine_nonces (EngBusy j) = ej_nonce j # engine_nonces (advance j)"
proof -
  assume "ej_remaining j \<noteq> 0"
  then obtain n where n: "unat (ej_remaining j) = Suc n"
    by (metis not0_implies_Suc unat_eq_0)
  have "ej_remaining j \<le> 1 \<longleftrightarrow> n = 0" by (simp add: word_le_nat_alt n)
  moreover have "unat (ej_remaining j - 1) = n" using n by (simp add: unat_sub_if_size)
  ultimately show ?thesis
    by (simp add: engine_nonces_def advance_def n upt_conv_Cons[OF zero_less_Suc]
        map_Suc_upt[symmetric] comp_def algebra_simps del: upt_Suc)
qed


subsection \<open>Reading a result\<close>

lemma result_status_bit: "read_reg m 0x98 AND 1 = 0 \<longleftrightarrow> \<not> result_valid_q m"
  by (cases "overflow_q m"; cases "result_valid_q m") (simp_all add: read_reg_def bool_bit_def)

lemma hw_tick_kept: "hw_ok hw \<Longrightarrow> j < MINER_AXI_INSTANCES \<Longrightarrow> result_kept hw (hw_tick hw) j"
  by (simp add: result_kept_def hw_tick_result)

lemma result_kept_trans: "result_kept a b j \<Longrightarrow> result_kept b c j \<Longrightarrow> result_kept a c j"
  by (simp add: result_kept_def)

lemma pop_write:
  assumes "hw_ok hw" "i < MINER_AXI_INSTANCES" "j < MINER_AXI_INSTANCES"
  shows "hw_inst (miner_write_reg_instance i MINER_REG_RESULT_STATUS MINER_RESULT_STATUS_RESULT hw) j =
         (if j = i
          then (if hw_co hw then coincide_finish (hw_inst (hw_tick hw) i) else id)
                 ((hw_inst (hw_tick hw) i)\<lparr>result_valid_q := False\<rparr>)
          else hw_inst (hw_tick hw) j)"
  using assms
  by (simp add: hw_inst_write reg_defs reg_bit_defs inst_write_def write_reg_def
      write_result_status_def)

lemma coincide_finish_result [bus_simps]:
  "result_valid_q (coincide_finish m m') = result_valid_q m'"
  "result_nonce_q (coincide_finish m m') = result_nonce_q m'"
  "result_engine_q (coincide_finish m m') = result_engine_q m'"
  by (simp_all add: coincide_finish_def)

lemma read_valid_instance:
  assumes ok: "hw_ok hw" and i: "i < MINER_AXI_INSTANCES"
    and valid: "result_valid_q (hw_inst (hw_tick hw) i)"
  shows "\<exists>r hw'. miner_read_result_from (i # rest) hw = (Some r, hw') \<and> hw_ok hw' \<and>
           popped_from hw hw' r i \<and> (\<forall>j<MINER_AXI_INSTANCES. j \<noteq> i \<longrightarrow> result_kept hw hw' j)"
proof -
  define h1 h2 h3 where "h1 = hw_tick hw" and "h2 = hw_tick h1" and "h3 = hw_tick h2"
  define hw' where "hw' = miner_write_reg_instance i MINER_REG_RESULT_STATUS
    MINER_RESULT_STATUS_RESULT h3"
  have oks: "hw_ok h1" "hw_ok h2" "hw_ok h3" using ok by (simp_all add: h1_def h2_def h3_def hw_tick_ok)
  have v1: "result_valid_q (hw_inst h1 i)" using valid by (simp add: h1_def)
  note t2 = hw_tick_result[OF oks(1) i v1, folded h2_def]
  note t3 = hw_tick_result[OF oks(2) i t2(1), folded h3_def]
  note t4 = hw_tick_result[OF oks(3) i t3(1)]
  have run: "miner_read_result_from (i # rest) hw =
      (Some \<lparr>res_nonce = result_nonce_q (hw_inst h2 i),
             res_engine = result_engine_q (hw_inst h3 i) + of_nat i * MINER_ENGINES_PER_INSTANCE,
             res_status = read_reg (hw_inst h1 i) 0x98\<rparr>, hw')"
    using v1 result_status_bit[of "hw_inst h1 i"] oks ok i
    by (simp add: miner_read_instance reg_defs reg_bit_defs h1_def[symmetric] h2_def[symmetric]
        h3_def[symmetric] hw'_def) (simp add: read_reg_def)
  have "\<forall>j<MINER_AXI_INSTANCES. j \<noteq> i \<longrightarrow> result_kept hw hw' j"
  proof (intro allI impI)
    fix j assume j: "j < MINER_AXI_INSTANCES" "j \<noteq> i"
    have "result_kept hw (hw_tick h3) j"
      using hw_tick_kept[OF ok j(1)] hw_tick_kept[OF oks(1) j(1)] hw_tick_kept[OF oks(2) j(1)]
        hw_tick_kept[OF oks(3) j(1)] result_kept_trans
      by (metis h1_def h2_def h3_def)
    then show "result_kept hw hw' j"
      using j i oks(3) by (simp add: hw'_def result_kept_def pop_write)
  qed
  moreover have "hw_ok hw'"
    using oks(3) i by (simp add: hw'_def miner_write_ok reg_defs)
  moreover have "hw_inst hw' i =
      (if hw_co h3 then coincide_finish (hw_inst (hw_tick h3) i) else id)
        ((hw_inst (hw_tick h3) i)\<lparr>result_valid_q := False\<rparr>)"
    using i oks(3) by (simp add: hw'_def pop_write)
  ultimately show ?thesis
    using run t2 t3 t4 hw_tick_result[OF ok i, folded h1_def]
    by (auto simp: popped_from_def bus_simps)
qed

lemma read_result_from_spec:
  assumes "hw_ok hw" "\<forall>i \<in> set is. i < MINER_AXI_INSTANCES"
    and "miner_read_result_from is hw = (r, hw')"
  shows "hw_ok hw' \<and>
    (case r of
       None \<Rightarrow> (\<forall>i \<in> set is. \<not> result_valid_q (hw_inst hw i)) \<and>
               (\<forall>j<MINER_AXI_INSTANCES. result_kept hw hw' j)
     | Some r \<Rightarrow> \<exists>i \<in> set is. popped_from hw hw' r i \<and>
               (\<forall>j<MINER_AXI_INSTANCES. j \<noteq> i \<longrightarrow> result_kept hw hw' j))"
  using assms
proof (induction "is" arbitrary: hw)
  case Nil
  then show ?case by (simp add: result_kept_def)
next
  case (Cons i "is")
  have i: "i < MINER_AXI_INSTANCES" and ok1: "hw_ok (hw_tick hw)"
    using Cons.prems hw_tick_ok by auto
  show ?case
  proof (cases "result_valid_q (hw_inst (hw_tick hw) i)")
    case True
    then obtain r' hw1 where "miner_read_result_from (i # is) hw = (Some r', hw1)" "hw_ok hw1"
      "popped_from hw hw1 r' i" "\<forall>j<MINER_AXI_INSTANCES. j \<noteq> i \<longrightarrow> result_kept hw hw1 j"
      using read_valid_instance[OF Cons.prems(1) i, of "is"] by blast
    then show ?thesis using Cons.prems(3) by auto
  next
    case False
    then have rest: "miner_read_result_from is (hw_tick hw) = (r, hw')"
      using Cons.prems i result_status_bit[of "hw_inst (hw_tick hw) i"]
      by (simp add: miner_read_instance reg_defs reg_bit_defs)
    have kept: "result_kept hw (hw_tick hw) j" if "j < MINER_AXI_INSTANCES" for j
      using hw_tick_kept[OF Cons.prems(1) that] .
    have early: "\<not> result_valid_q (hw_inst hw j)"
      if "\<not> result_valid_q (hw_inst (hw_tick hw) j)" "j < MINER_AXI_INSTANCES" for j
      using kept[OF that(2)] that(1) by (simp add: result_kept_def)
    have pop: "popped_from hw hw' r j"
      if "popped_from (hw_tick hw) hw' r j" "j < MINER_AXI_INSTANCES" for r j
      using that kept[OF that(2)] by (auto simp: popped_from_def result_kept_def)
    have IH: "hw_ok hw'"
      "r = None \<Longrightarrow> (\<forall>i \<in> set is. \<not> result_valid_q (hw_inst (hw_tick hw) i)) \<and>
         (\<forall>j<MINER_AXI_INSTANCES. result_kept (hw_tick hw) hw' j)"
      "r = Some q \<Longrightarrow> \<exists>i \<in> set is. popped_from (hw_tick hw) hw' q i \<and>
         (\<forall>j<MINER_AXI_INSTANCES. j \<noteq> i \<longrightarrow> result_kept (hw_tick hw) hw' j)" for q
      using Cons.IH[OF ok1 _ rest] Cons.prems(2) by auto
    show ?thesis
    proof (cases r)
      case None
      then show ?thesis
        using IH(1) IH(2)[OF None] kept early i False Cons.prems(2) result_kept_trans[OF kept] by simp
    next
      case (Some q)
      then obtain k where k: "k \<in> set is" "popped_from (hw_tick hw) hw' q k"
        "\<forall>j<MINER_AXI_INSTANCES. j \<noteq> k \<longrightarrow> result_kept (hw_tick hw) hw' j"
        using IH(3)[OF Some] by blast
      then have "popped_from hw hw' q k" using pop Cons.prems(2) by simp
      moreover have "\<forall>j<MINER_AXI_INSTANCES. j \<noteq> k \<longrightarrow> result_kept hw hw' j"
        using k(3) result_kept_trans[OF kept] by blast
      ultimately show ?thesis using IH(1) Some k(1) by auto
    qed
  qed
qed

text \<open>Results are finite in number: an access uses up fabric events, or the fabric is at rest.\<close>

lemma fabric_left_tick: "fabric_left (hw_tick hw) = fabric_left hw - 1"
  by (cases "schedule_of_fabric (hw_bus hw)") (simp_all add: fabric_left_def hw_tick_def bus_tick_def)

lemma fabric_left_write:
  "hw_ok hw \<Longrightarrow> i < MINER_AXI_INSTANCES \<Longrightarrow> unat off < 0x1000 \<Longrightarrow>
   fabric_left (miner_write_reg_instance i off v hw) = fabric_left hw - 1"
  using fabric_left_tick[of hw] by (simp add: miner_write_instance fabric_left_def)

lemma hw_tick_rest: "fabric_left hw = 0 \<Longrightarrow> hw_tick hw = hw \<and> \<not> hw_co hw"
  by (simp add: fabric_left_def hw_tick_def hw_co_def bus_tick_def)

lemma read_result_left:
  assumes "hw_ok hw" "\<forall>i \<in> set is. i < MINER_AXI_INSTANCES"
  shows "fabric_left (snd (miner_read_result_from is hw)) \<le> fabric_left hw - (if is = [] then 0 else 1)"
  using assms
proof (induction "is" arbitrary: hw)
  case (Cons i "is")
  have *: "hw_ok (hw_tick hw)" "hw_ok (hw_tick (hw_tick hw))" "hw_ok (hw_tick (hw_tick (hw_tick hw)))"
    using Cons.prems(1) by (simp_all add: hw_tick_ok)
  have "fabric_left (snd (miner_read_result_from is (hw_tick hw))) \<le> fabric_left hw - 1"
    using Cons.IH[OF *(1)] Cons.prems(2) by (simp add: fabric_left_tick split: if_splits)
  then show ?case
    using Cons.prems * by (simp add: miner_read_instance reg_defs fabric_left_write fabric_left_tick)
      arith
qed simp

lemma read_result_rest:
  assumes "hw_ok hw" "\<forall>i \<in> set is. i < MINER_AXI_INSTANCES" "fabric_left hw = 0"
    and "miner_read_result_from is hw = (Some r, hw')"
  shows "fabric_left hw' = 0 \<and> (\<exists>i \<in> results_held hw. results_held hw' = results_held hw - {i})"
  using assms
proof (induction "is")
  case (Cons i "is")
  note rest = hw_tick_rest[OF Cons.prems(3)]
  show ?case
  proof (cases "result_valid_q (hw_inst hw i)")
    case True
    have i: "i < MINER_AXI_INSTANCES" using Cons.prems(2) by simp
    have hw': "hw' = miner_write_reg_instance i MINER_REG_RESULT_STATUS MINER_RESULT_STATUS_RESULT hw"
      using Cons.prems True result_status_bit[of "hw_inst hw i"] rest i
      by (simp add: miner_read_instance reg_defs reg_bit_defs)
    have "results_held hw' = results_held hw - {i}"
      using Cons.prems(1) i rest by (auto simp: results_held_def hw' pop_write split: if_splits)
    moreover have "fabric_left hw' = 0"
      using Cons.prems(1,3) i by (simp add: hw' fabric_left_write reg_defs)
    ultimately show ?thesis using True i by (auto simp: results_held_def)
  next
    case False
    then show ?thesis
      using Cons result_status_bit[of "hw_inst hw i"] rest
      by (simp add: miner_read_instance reg_defs reg_bit_defs)
  qed
qed simp

lemma results_held_card: "card (results_held hw) \<le> MINER_AXI_INSTANCES"
proof -
  have "results_held hw \<subseteq> {..<MINER_AXI_INSTANCES}" by (auto simp: results_held_def)
  then show ?thesis using card_mono[of "{..<MINER_AXI_INSTANCES}"] by fastforce
qed

lemma read_result_decreases:
  assumes "hw_ok hw" "miner_read_result hw = (Some r, hw')"
  shows "5 * fabric_left hw' + card (results_held hw') < 5 * fabric_left hw + card (results_held hw)"
proof (cases "fabric_left hw = 0")
  case True
  have fin: "finite (results_held hw)" by (simp add: results_held_def)
  obtain i where "fabric_left hw' = 0" "i \<in> results_held hw" "results_held hw' = results_held hw - {i}"
    using read_result_rest[OF assms(1) _ True assms(2)[unfolded miner_read_result_def]] by auto
  then show ?thesis using True card_Diff1_less[OF fin] by simp
next
  case False
  have "fabric_left hw' \<le> fabric_left hw - 1"
    using read_result_left[OF assms(1), of "[0..<MINER_AXI_INSTANCES]"] assms(2)
    by (simp add: miner_read_result_def MINER_AXI_INSTANCES_def)
  then show ?thesis
    using False results_held_card[of hw'] by (simp add: MINER_AXI_INSTANCES_def)
qed


subsection \<open>Masking, stopping and clearing\<close>

lemma irq_control_bits:
  "bit (read_reg m 0xa0) 0 \<longleftrightarrow> irq_mask_q m" "bit (read_reg m 0xa0) 1 \<longleftrightarrow> irq_force_q m"
  by (cases "irq_force_q m"; cases "irq_mask_q m"; simp add: read_reg_def bool_bit_def)+

lemma mask_all_rmw: "miner_irq_mask_all = fold (irq_rmw True) [0..<MINER_AXI_INSTANCES]"
  by (rule ext) (simp add: miner_irq_mask_all_def irq_rmw_def[abs_def])

lemma unmask_all_rmw: "miner_irq_unmask_all = fold (irq_rmw False) [0..<MINER_AXI_INSTANCES]"
  by (rule ext) (simp add: miner_irq_unmask_all_def irq_rmw_def[abs_def])

lemma irq_rmw_step:
  assumes ok: "hw_ok hw" and i: "i < MINER_AXI_INSTANCES"
  shows "hw_ok (irq_rmw b i hw)"
    and "j < MINER_AXI_INSTANCES \<Longrightarrow> irq_mask_q (hw_inst (irq_rmw b i hw) j) =
           (if j = i then b else irq_mask_q (hw_inst hw j))"
    and "j < MINER_AXI_INSTANCES \<Longrightarrow> irq_force_q (hw_inst (irq_rmw b i hw) j) = irq_force_q (hw_inst hw j)"
    and "j < MINER_AXI_INSTANCES \<Longrightarrow> result_kept hw (irq_rmw b i hw) j"
proof -
  define h1 h2 where "h1 = hw_tick hw" and "h2 = hw_tick h1"
  have oks: "hw_ok h1" "hw_ok h2" using ok by (simp_all add: h1_def h2_def hw_tick_ok)
  have cfg: "inst_cfg (hw_inst h2 j) = inst_cfg (hw_inst hw j)"
    "inst_cfg (hw_inst h1 j) = inst_cfg (hw_inst hw j)" if "j < MINER_AXI_INSTANCES" for j
    using that ok oks by (simp_all add: h1_def h2_def hw_tick_cfg)
  define v where "v = (if b then read_reg (hw_inst h1 i) 0xa0 OR 1 else read_reg (hw_inst h1 i) 0xa0 AND NOT 1)"
  have run: "irq_rmw b i hw = miner_write_reg_instance i MINER_REG_IRQ_CONTROL v h1"
    using ok i by (simp add: irq_rmw_def miner_read_instance reg_defs reg_bit_defs v_def h1_def)
  have bits: "bit v 0 = b" "bit v 1 = irq_force_q (hw_inst hw i)"
    using irq_control_bits[of "hw_inst h1 i"] cfg(2)[OF i]
    by (simp_all add: v_def bit_simps inst_cfg_def)
  have inst: "hw_inst (irq_rmw b i hw) j =
      (if j = i then inst_write (hw_co h1) 0xa0 v (hw_inst h2 i) else hw_inst h2 j)"
    if "j < MINER_AXI_INSTANCES" for j
    using that oks i by (simp add: run hw_inst_write reg_defs h2_def)
  show "hw_ok (irq_rmw b i hw)" using oks i by (simp add: run miner_write_ok reg_defs)
  show "j < MINER_AXI_INSTANCES \<Longrightarrow> irq_mask_q (hw_inst (irq_rmw b i hw) j) =
           (if j = i then b else irq_mask_q (hw_inst hw j))"
    "j < MINER_AXI_INSTANCES \<Longrightarrow> irq_force_q (hw_inst (irq_rmw b i hw) j) = irq_force_q (hw_inst hw j)"
    using cfg(1)[of j] bits
    by (simp_all add: inst inst_cfg_def inst_write_def coincide_finish_def write_reg_def)
  show "result_kept hw (irq_rmw b i hw) j" if j: "j < MINER_AXI_INSTANCES"
  proof -
    have "result_kept hw h2 j"
      using hw_tick_kept[OF ok j] hw_tick_kept[OF oks(1) j] result_kept_trans h1_def h2_def by metis
    then show ?thesis
      using j by (auto simp: result_kept_def inst inst_write_def write_reg_def bus_simps)
  qed
qed

lemma irq_rmw_fold:
  assumes "hw_ok hw" "n \<le> MINER_AXI_INSTANCES"
  shows "hw_ok (fold (irq_rmw b) [0..<n] hw) \<and>
    (\<forall>j<MINER_AXI_INSTANCES.
       irq_mask_q (hw_inst (fold (irq_rmw b) [0..<n] hw) j) = (if j < n then b else irq_mask_q (hw_inst hw j)) \<and>
       irq_force_q (hw_inst (fold (irq_rmw b) [0..<n] hw) j) = irq_force_q (hw_inst hw j) \<and>
       result_kept hw (fold (irq_rmw b) [0..<n] hw) j)"
  using assms(2)
proof (induction n)
  case 0
  then show ?case using assms(1) by (simp add: result_kept_def)
next
  case (Suc n)
  let ?h = "fold (irq_rmw b) [0..<n] hw"
  have ok: "hw_ok ?h" and n: "n < MINER_AXI_INSTANCES" using Suc by simp_all
  have "result_kept hw (irq_rmw b n ?h) j" if "j < MINER_AXI_INSTANCES" for j
    using irq_rmw_step(4)[OF ok n that] Suc that result_kept_trans Suc_leD by blast
  then show ?case
    using Suc irq_rmw_step(1-3)[OF ok n] by (simp add: less_Suc_eq)
qed

lemma irq_line_iff:
  "hw_ok hw \<Longrightarrow> irq_line (hw_bus hw) \<longleftrightarrow> (\<exists>j<MINER_AXI_INSTANCES. irq_o (hw_inst hw j))"
  by (fastforce simp: irq_line_def hw_ok_iff hw_inst_def in_set_conv_nth)

text \<open>A loop over the instances that establishes \<open>P\<close> one instance at a time.\<close>

lemma fold_instances:
  assumes "hw_ok hw" "\<forall>j<MINER_AXI_INSTANCES. Q (hw_inst hw j)"
    and ok: "\<And>h i. hw_ok h \<Longrightarrow> i < MINER_AXI_INSTANCES \<Longrightarrow> hw_ok (f i h)"
    and est: "\<And>h i. hw_ok h \<Longrightarrow> i < MINER_AXI_INSTANCES \<Longrightarrow> Q (hw_inst h i) \<Longrightarrow> P (hw_inst (f i h) i)"
    and keep: "\<And>h i j R. hw_ok h \<Longrightarrow> i < MINER_AXI_INSTANCES \<Longrightarrow> j < MINER_AXI_INSTANCES \<Longrightarrow> j \<noteq> i \<Longrightarrow>
       R = P \<or> R = Q \<Longrightarrow> R (hw_inst h j) \<Longrightarrow> R (hw_inst (f i h) j)"
    and n: "n \<le> MINER_AXI_INSTANCES"
  shows "hw_ok (fold f [0..<n] hw) \<and>
    (\<forall>j<MINER_AXI_INSTANCES. if j < n then P (hw_inst (fold f [0..<n] hw) j)
                             else Q (hw_inst (fold f [0..<n] hw) j))"
  using n
proof (induction n)
  case 0
  then show ?case using assms(1,2) by simp
next
  case (Suc n)
  let ?h = "fold f [0..<n] hw"
  have ok': "hw_ok ?h" and n: "n < MINER_AXI_INSTANCES"
    and IH: "\<And>j. j < n \<Longrightarrow> P (hw_inst ?h j)"
    "\<And>j. n \<le> j \<Longrightarrow> j < MINER_AXI_INSTANCES \<Longrightarrow> Q (hw_inst ?h j)"
    using Suc by (auto split: if_splits)
  have "if j < Suc n then P (hw_inst (f n ?h) j) else Q (hw_inst (f n ?h) j)"
    if j: "j < MINER_AXI_INSTANCES" for j
    using est[OF ok' n IH(2)[OF order_refl n]] keep[OF ok' n j, of P] keep[OF ok' n j, of Q] IH j
    by (auto simp: less_Suc_eq)
  then show ?case using ok[OF ok' n] by simp
qed

lemma hw_tick_inst_stopped:
  "hw_ok hw \<Longrightarrow> i < MINER_AXI_INSTANCES \<Longrightarrow> inst_stopped (hw_inst hw i) \<Longrightarrow>
   hw_inst (hw_tick hw) i = hw_inst hw i"
  by (simp add: inst_stopped_def hw_tick_stopped)

lemma hw_tick_inst_quiet:
  "hw_ok hw \<Longrightarrow> i < MINER_AXI_INSTANCES \<Longrightarrow> inst_quiet (hw_inst hw i) \<Longrightarrow>
   hw_inst (hw_tick hw) i = hw_inst hw i"
  by (simp add: inst_quiet_def hw_tick_inst_stopped)

lemma all_idle_stop: "all_idle (control_stop m)"
  by (simp add: all_idle_def control_stop_def)

lemma stop_write_stopped: "inst_stopped (inst_write co 0 2 m)"
  using all_idle_stop[of m]
  by (simp add: inst_write_def coincide_finish_def write_reg_def write_control_def inst_stopped_def
      all_idle_def control_stop_def)

lemma clear_writes_quiet:
  assumes "inst_stopped m"
  shows "inst_stopped (inst_write co 0 4 m)" "inst_quiet (inst_write co' 0x98 3 (inst_write co 0 4 m))"
  using assms
  by (simp_all add: inst_write_def coincide_finish_def write_reg_def write_control_def inst_quiet_def
      inst_stopped_def all_idle_def control_clear_def write_result_status_def)

lemma miner_stop_stops:
  assumes "hw_ok hw"
  shows "hw_ok (miner_stop hw) \<and> (\<forall>j<MINER_AXI_INSTANCES. inst_stopped (hw_inst (miner_stop hw) j))"
proof -
  have "hw_ok (miner_stop hw) \<and> (\<forall>j<MINER_AXI_INSTANCES.
      if j < MINER_AXI_INSTANCES then inst_stopped (hw_inst (miner_stop hw) j) else True)"
    unfolding miner_stop_def
    by (rule fold_instances[where Q = "\<lambda>_. True"])
      (use assms in \<open>auto simp: miner_write_ok hw_inst_write reg_defs reg_bit_defs stop_write_stopped
          hw_tick_inst_stopped\<close>)
  then show ?thesis by simp
qed

lemma miner_clear_quiet:
  assumes "hw_ok hw" "\<forall>j<MINER_AXI_INSTANCES. inst_stopped (hw_inst hw j)"
  shows "hw_ok (miner_clear hw) \<and> (\<forall>j<MINER_AXI_INSTANCES. inst_quiet (hw_inst (miner_clear hw) j))"
proof -
  have q: "inst_quiet m \<Longrightarrow> inst_stopped m" for m by (simp add: inst_quiet_def)
  have "hw_ok (miner_clear hw) \<and> (\<forall>j<MINER_AXI_INSTANCES.
      if j < MINER_AXI_INSTANCES then inst_quiet (hw_inst (miner_clear hw) j)
      else inst_stopped (hw_inst (miner_clear hw) j))"
    unfolding miner_clear_def
    by (rule fold_instances[where Q = inst_stopped])
      (use assms in \<open>auto simp: miner_write_ok hw_inst_write reg_defs reg_bit_defs
          clear_writes_quiet hw_tick_inst_stopped hw_tick_inst_quiet dest: q\<close>)
  then show ?thesis by simp
qed

subsection \<open>Status\<close>

lemma bool_bit_or: "bool_bit (a \<or> b) k = bool_bit a k OR bool_bit b k"
  by (simp add: bool_bit_def)

lemma status_bits:
  "read_reg m 4 AND 1 \<noteq> 0 \<longleftrightarrow> running_q m" "read_reg m 4 AND 2 \<noteq> 0 \<longleftrightarrow> result_valid_q m"
  "read_reg m 4 AND 4 = 0 \<longleftrightarrow> \<not> nonce_done_q m" "read_reg m 4 AND 8 \<noteq> 0 \<longleftrightarrow> overflow_q m"
  by (cases "running_q m"; cases "result_valid_q m"; cases "nonce_done_q m"; cases "overflow_q m";
      simp add: read_reg_def bool_bit_def)+

lemma hw_ticks_ok: "hw_ok hw \<Longrightarrow> hw_ok ((hw_tick ^^ n) hw)"
  by (induction n) (simp_all add: hw_tick_ok)

lemma miner_status_fold:
  assumes "hw_ok hw"
  shows "n \<le> MINER_AXI_INSTANCES \<Longrightarrow> fold miner_status_step [0..<n] (0, True, hw) =
    (let ms = map (\<lambda>i. hw_inst ((hw_tick ^^ Suc i) hw) i) [0..<n]
     in (status_word ms, \<forall>m \<in> set ms. nonce_done_q m, (hw_tick ^^ n) hw))"
proof (induction n)
  case 0
  then show ?case by (simp add: status_word_def bool_bit_def)
next
  case (Suc n)
  let ?m = "hw_inst (hw_tick ((hw_tick ^^ n) hw)) n"
  have rd: "miner_read_reg_instance n 4 ((hw_tick ^^ n) hw) = (read_reg ?m 4, hw_tick ((hw_tick ^^ n) hw))"
    using miner_read_instance[OF hw_ticks_ok[OF assms, of n], of n 4] Suc.prems by simp
  have sw: "status_word (ms @ [m]) = status_word ms OR bool_bit (running_q m) 0 OR
      bool_bit (result_valid_q m) 1 OR bool_bit (overflow_q m) 3" for ms and m
    by (simp add: status_word_def bool_bit_or ac_simps)
  have iffs: "(if c then a OR 1 else a) = a OR bool_bit c 0"
    "(if c then a OR 2 else a) = a OR bool_bit c 1" "(if c then a OR 8 else a) = a OR bool_bit c 3"
    for c a by (simp_all add: bool_bit_def)
  have step: "miner_status_step n (a, d, (hw_tick ^^ n) hw) =
      (a OR bool_bit (running_q ?m) 0 OR bool_bit (result_valid_q ?m) 1 OR bool_bit (overflow_q ?m) 3,
       nonce_done_q ?m \<and> d, hw_tick ((hw_tick ^^ n) hw))" for a d
    by (simp add: miner_status_step_def reg_defs reg_bit_defs rd Let_def status_bits iffs or.assoc
        del: not_False_eq_True cong: if_cong)
  show ?case using Suc by (simp add: Let_def sw step)
qed

lemma miner_num_engines_fold:
  assumes "hw_ok hw"
  shows "n \<le> MINER_AXI_INSTANCES \<Longrightarrow>
    fold (\<lambda>inst (total, hw).
             let (n, hw1) = miner_read_reg_instance inst MINER_REG_NUM_ENGINES hw
             in (total + n, hw1)) [0..<n] (0, hw) = (of_nat (n * 32), (hw_tick ^^ n) hw)"
proof (induction n)
  case (Suc n)
  then show ?case
    using miner_read_instance[OF hw_ticks_ok[OF assms, of n], of n 8]
    by (simp add: reg_defs read_reg_def NUM_ENGINES_def)
qed simp


subsection \<open>Operations that leave the interrupt masks alone\<close>

lemma hw_tick_masks [intro]: "hw_masks hw ms \<Longrightarrow> hw_masks (hw_tick hw) ms"
  using hw_tick_ok[of hw] hw_tick_cfg[of hw] by (simp add: hw_masks_def inst_cfg_def)

lemma read_masks [intro]:
  "hw_masks hw ms \<Longrightarrow> unat off < 0x1000 \<Longrightarrow> hw_masks (snd (miner_read_reg_instance i off hw)) ms"
  using hw_tick_masks[of hw ms]
  by (cases "i < MINER_AXI_INSTANCES")
    (simp_all add: miner_read_instance hw_masks_def, simp add: miner_read_reg_instance_def)

lemma write_masks [intro]:
  assumes "hw_masks hw ms" "unat off < 0x1000" "unat off \<noteq> 0xa0"
  shows "hw_masks (miner_write_reg_instance i off v hw) ms"
proof (cases "i < MINER_AXI_INSTANCES")
  case True
  have "irq_mask_q (inst_write co off v m) = irq_mask_q m" for co m
    using assms(3) by (simp add: inst_write_def coincide_finish_def write_reg_fields)
  then show ?thesis
    using assms True hw_tick_masks[OF assms(1)]
    by (simp add: hw_masks_def miner_write_ok hw_inst_write)
next
  case False
  then show ?thesis using assms(1) by (simp add: miner_write_reg_instance_def)
qed

lemma fold_masks:
  "hw_masks hw ms \<Longrightarrow> (\<And>x hw. x \<in> set xs \<Longrightarrow> hw_masks hw ms \<Longrightarrow> hw_masks (f x hw) ms) \<Longrightarrow>
   hw_masks (fold f xs hw) ms"
  by (induction xs arbitrary: hw) auto

lemma miner_stop_masks: "hw_masks hw ms \<Longrightarrow> hw_masks (miner_stop hw) ms"
  unfolding miner_stop_def by (rule fold_masks) (auto intro!: write_masks simp: reg_defs)

lemma miner_clear_masks: "hw_masks hw ms \<Longrightarrow> hw_masks (miner_clear hw) ms"
  unfolding miner_clear_def by (rule fold_masks) (auto intro!: write_masks simp: reg_defs)

lemma program_job_masks: "hw_masks hw ms \<Longrightarrow> hw_masks (miner_program_job mid hdr tgt hw) ms"
  unfolding miner_program_job_def Let_def
  by (intro fold_masks write_masks) (auto simp: unat_job_off)

lemma start_range_masks: "hw_masks hw ms \<Longrightarrow> hw_masks (miner_start_range n c hw) ms"
  unfolding start_range_pokes
  by (rule fold_masks) (auto intro!: write_masks simp: start_writes_def hw_poke_pair reg_defs)

lemma miner_status_masks:
  assumes "hw_masks hw ms"
  shows "hw_masks (snd (miner_status hw)) ms"
proof -
  have "hw_masks ((hw_tick ^^ n) hw) ms" for n
    using assms by (induction n) auto
  moreover have "hw_ok hw" using assms by (simp add: hw_masks_def)
  ultimately show ?thesis
    using miner_status_fold[of hw MINER_AXI_INSTANCES] by (simp add: miner_status_def Let_def)
qed

lemma read_result_from_masks:
  "hw_masks hw ms \<Longrightarrow> hw_masks (snd (miner_read_result_from is hw)) ms"
proof (induction "is" arbitrary: hw)
  case (Cons i "is")
  obtain st hw1 where 1: "miner_read_reg_instance i MINER_REG_RESULT_STATUS hw = (st, hw1)" by force
  obtain nonce hw2 where 2: "miner_read_reg_instance i MINER_REG_RESULT_NONCE hw1 = (nonce, hw2)" by force
  obtain eng hw3 where 3: "miner_read_reg_instance i MINER_REG_RESULT_ENGINE hw2 = (eng, hw3)" by force
  have m1: "hw_masks hw1 ms"
    using read_masks[OF Cons.prems, of MINER_REG_RESULT_STATUS i] 1 by (simp add: reg_defs)
  then have m2: "hw_masks hw2 ms"
    using read_masks[OF m1, of MINER_REG_RESULT_NONCE i] 2 by (simp add: reg_defs)
  then have "hw_masks hw3 ms"
    using read_masks[OF m2, of MINER_REG_RESULT_ENGINE i] 3 by (simp add: reg_defs)
  then have "hw_masks (miner_write_reg_instance i MINER_REG_RESULT_STATUS MINER_RESULT_STATUS_RESULT hw3) ms"
    by (rule write_masks) (simp_all add: reg_defs)
  then show ?case
    using Cons.IH[OF m1] by (simp add: 1 2 3)
qed simp

lemma read_result_masks: "hw_masks hw ms \<Longrightarrow> hw_masks (snd (miner_read_result hw)) ms"
  by (simp add: miner_read_result_def read_result_from_masks)

lemma num_engines_masks:
  assumes "hw_masks hw ms"
  shows "hw_masks (snd (miner_num_engines hw)) ms"
proof -
  have "hw_masks ((hw_tick ^^ n) hw) ms" for n
    using assms by (induction n) auto
  moreover have "hw_ok hw" using assms by (simp add: hw_masks_def)
  ultimately show ?thesis
    using miner_num_engines_fold[of hw MINER_AXI_INSTANCES] by (simp add: miner_num_engines_def Let_def)
qed

lemmas driver_masks = miner_stop_masks miner_clear_masks program_job_masks start_range_masks
  miner_status_masks read_result_masks num_engines_masks read_masks


subsection \<open>Properties of the driver\<close>

lemma demo_hw_ok: "hw_ok (demo_hw sched)"
  by (simp add: hw_ok_def demo_hw_def bus_ok_def reset_bus_def inst_ok_def reset_inst_def)

text \<open>Whatever the fabric does between the accesses, programming a job and starting a range
  leaves the job's midstate, header tail and target in the registers of every one of the four
  instances, and the addresses used are all inside the instances' windows.\<close>

theorem job_reaches_every_instance:
  assumes "hw_ok hw" "length midstate = 8" "length header_tail = 4" "length target = 8"
    and "hw' = miner_start_range nonce_start nonce_count
                 (miner_program_job midstate header_tail target hw)"
  shows "hw_ok hw' \<and>
         (\<forall>i<MINER_AXI_INSTANCES. midstate_q (hw_inst hw' i) = midstate \<and>
           header_tail_q (hw_inst hw' i) = header_tail \<and> target_q (hw_inst hw' i) = target)"
  using assms program_job_ok[OF assms(1)]
  by (simp add: start_range_ok start_range_keeps_job program_job_inst)

theorem job_reaches_every_instance_witness:
  "target_q (hw_inst (miner_start_range 100 1000
       (miner_program_job [1, 2, 3, 4, 5, 6, 7, 8] [9, 10, 11, 12] [0, 0, 0, 0, 0, 0, 0, 1]
         (demo_hw demo_schedule))) 3) = [0, 0, 0, 0, 0, 0, 0, 1]"
  using job_reaches_every_instance[where hw = "demo_hw demo_schedule" and nonce_start = 100
      and nonce_count = 1000 and midstate = "[1, 2, 3, 4, 5, 6, 7, 8]"
      and header_tail = "[9, 10, 11, 12]" and target = "[0, 0, 0, 0, 0, 0, 0, 1]",
      OF demo_hw_ok _ _ _ refl] by (simp add: MINER_AXI_INSTANCES_def)

text \<open>Reading a result takes exactly one out of the hardware: if any instance holds a result,
  one is returned; the returned nonce and engine belong together and to the instance named by the
  engine number, and every other pending result is still pending, whatever the fabric does.\<close>

theorem read_result_pops_one:
  assumes "hw_ok hw" "miner_read_result hw = (r, hw')"
  shows "hw_ok hw' \<and>
    (case r of
       None \<Rightarrow> \<forall>i<MINER_AXI_INSTANCES. \<not> result_valid_q (hw_inst hw i)
     | Some res \<Rightarrow> \<exists>i<MINER_AXI_INSTANCES. popped_from hw hw' res i \<and>
                     (\<forall>j<MINER_AXI_INSTANCES. j \<noteq> i \<longrightarrow> result_kept hw hw' j))"
  using read_result_from_spec[OF assms(1) _ assms(2)[unfolded miner_read_result_def]]
  by (auto split: option.splits)

text \<open>The state in which instance 2 holds nonce 77, found by engine 5, and instance 3 another.\<close>

theorem read_result_pops_one_witness:
  "let hw = (demo_hw [])\<lparr>hw_bus := (reset_bus demo_schedule)\<lparr>insts :=
      [reset_inst, reset_inst,
       reset_inst\<lparr>result_valid_q := True, result_nonce_q := 77, result_engine_q := 5\<rparr>,
       reset_inst\<lparr>result_valid_q := True, result_nonce_q := 78, result_engine_q := 6\<rparr>]\<rparr>\<rparr>
   in \<exists>res i. fst (miner_read_result hw) = Some res \<and> i < MINER_AXI_INSTANCES \<and>
        popped_from hw (snd (miner_read_result hw)) res i"
proof -
  define hw where "hw = (demo_hw [])\<lparr>hw_bus := (reset_bus demo_schedule)\<lparr>insts :=
      [reset_inst, reset_inst,
       reset_inst\<lparr>result_valid_q := True, result_nonce_q := 77, result_engine_q := 5\<rparr>,
       reset_inst\<lparr>result_valid_q := True, result_nonce_q := 78, result_engine_q := 6\<rparr>]\<rparr>\<rparr>"
  have ok: "hw_ok hw"
    by (simp add: hw_def hw_ok_def demo_hw_def bus_ok_def reset_bus_def inst_ok_def reset_inst_def
        MINER_AXI_INSTANCES_def)
  have valid: "\<exists>i<MINER_AXI_INSTANCES. result_valid_q (hw_inst hw i)"
    by (rule exI[of _ 2]) (simp add: hw_def hw_inst_def MINER_AXI_INSTANCES_def)
  have "\<exists>res i. fst (miner_read_result hw) = Some res \<and> i < MINER_AXI_INSTANCES \<and>
        popped_from hw (snd (miner_read_result hw)) res i"
    using read_result_pops_one[OF ok, of "fst (miner_read_result hw)" "snd (miner_read_result hw)"]
      valid by (auto split: option.splits)
  then show ?thesis unfolding hw_def Let_def .
qed

text \<open>After \<open>miner_irq_mask_all\<close> the shared interrupt line is low; masking and unmasking keep
  the force bits and every pending result, and unmasking enables every instance again.\<close>

theorem irq_mask_roundtrip:
  assumes "hw_ok hw"
  shows "\<not> irq_line (hw_bus (miner_irq_mask_all hw)) \<and>
         (\<forall>i<MINER_AXI_INSTANCES.
           irq_force_q (hw_inst (miner_irq_mask_all hw) i) = irq_force_q (hw_inst hw i) \<and>
           result_kept hw (miner_irq_mask_all hw) i \<and>
           \<not> irq_mask_q (hw_inst (miner_irq_unmask_all hw) i) \<and>
           irq_force_q (hw_inst (miner_irq_unmask_all hw) i) = irq_force_q (hw_inst hw i) \<and>
           result_kept hw (miner_irq_unmask_all hw) i)"
  using irq_rmw_fold[OF assms order_refl, of True] irq_rmw_fold[OF assms order_refl, of False]
  by (simp add: mask_all_rmw unmask_all_rmw irq_line_iff irq_o_def)

theorem irq_mask_roundtrip_witness:
  "\<not> irq_line (hw_bus (miner_irq_mask_all (demo_hw demo_schedule)))"
  using irq_mask_roundtrip[OF demo_hw_ok, of demo_schedule] by (rule conjunct1)

text \<open>\<open>miner_init\<close> brings every instance to rest from any state: no engine runs or will start,
  no result, overflow or completion is pending, so the interrupt line is low unless forced.\<close>

theorem miner_init_quiet:
  assumes "bus_ok (hw_bus hw)" and "hw' = miner_init MINER_AXI_BASEADDR hw"
  shows "hw_ok hw' \<and> (\<forall>i<MINER_AXI_INSTANCES. inst_quiet (hw_inst hw' i))"
proof -
  have "hw_ok (hw\<lparr>g_miner_base := MINER_AXI_BASEADDR\<rparr>)" using assms(1) by (simp add: hw_ok_def)
  then show ?thesis
    using miner_stop_stops miner_clear_quiet by (simp add: assms(2) miner_init_def)
qed

theorem miner_init_quiet_witness:
  "inst_quiet (hw_inst (miner_init MINER_AXI_BASEADDR
     ((demo_hw demo_schedule)\<lparr>hw_bus := (reset_bus demo_schedule)\<lparr>insts :=
        replicate MINER_AXI_INSTANCES (reset_inst\<lparr>running_q := True, load_q := Some 0\<rparr>)\<rparr>\<rparr>)) 3)"
proof -
  have "bus_ok ((reset_bus demo_schedule)\<lparr>insts :=
      replicate MINER_AXI_INSTANCES (reset_inst\<lparr>running_q := True, load_q := Some 0\<rparr>)\<rparr>)"
    by (simp add: bus_ok_def reset_bus_def inst_ok_def reset_inst_def NUM_ENGINES_def)
  then show ?thesis
    using miner_init_quiet[of "(demo_hw demo_schedule)\<lparr>hw_bus := (reset_bus demo_schedule)\<lparr>insts :=
        replicate MINER_AXI_INSTANCES (reset_inst\<lparr>running_q := True, load_q := Some 0\<rparr>)\<rparr>\<rparr>"]
    by (simp add: MINER_AXI_INSTANCES_def)
qed

text \<open>The status word is the aggregation of the four instances' states at the moments they are
  read: running, result and overflow if any instance reports them, done only if all do.\<close>

theorem miner_status_aggregates:
  assumes "hw_ok hw"
    and "ms = map (\<lambda>i. hw_inst ((hw_tick ^^ Suc i) hw) i) [0..<MINER_AXI_INSTANCES]"
  shows "miner_status hw =
    (status_word ms OR bool_bit (\<forall>m \<in> set ms. nonce_done_q m) 2, (hw_tick ^^ MINER_AXI_INSTANCES) hw)"
  using miner_status_fold[OF assms(1) order_refl]
  by (simp add: miner_status_def assms(2) Let_def reg_bit_defs bool_bit_def)

theorem miner_status_aggregates_witness:
  "fst (miner_status (demo_hw [])) = 0"
  using miner_status_aggregates[OF demo_hw_ok refl, of "[]"]
  by (simp add: MINER_AXI_INSTANCES_def upt_rec demo_hw_def hw_tick_def bus_tick_def reset_bus_def
      hw_inst_def reset_inst_def status_word_def bool_bit_def numeral_eq_Suc)

lemma miner_num_engines_total:
  "hw_ok hw \<Longrightarrow> fst (miner_num_engines hw) = 128"
  using miner_num_engines_fold[of hw MINER_AXI_INSTANCES]
  by (simp add: miner_num_engines_def) (simp add: MINER_AXI_INSTANCES_def)


subsection \<open>Restarting without a stop\<close>

lemma write_keeps_engines:
  assumes "hw_ok hw" "fabric_left hw = 0" "i < MINER_AXI_INSTANCES" "unat off < 0x1000"
    "j < MINER_AXI_INSTANCES" "unat off \<noteq> 0 \<or> \<not> bit v 1"
  shows "engines_q (hw_inst (miner_write_reg_instance i off v hw) j) = engines_q (hw_inst hw j)"
  using assms hw_tick_rest[OF assms(2)]
  by (auto simp: hw_inst_write inst_write_def write_reg_def write_control_def control_start_def
      control_clear_def write_result_status_def Let_def)

lemma pokes_keep_engines:
  assumes "hw_ok hw" "fabric_left hw = 0" "j < MINER_AXI_INSTANCES"
    and "\<forall>(a, v) \<in> set ws. a \<in> reg_addrs \<and> (unat (snd a) \<noteq> 0 \<or> \<not> bit v 1)"
  defines "hw' \<equiv> fold (\<lambda>(a, v). hw_poke a v) ws hw"
  shows "hw_ok hw' \<and> fabric_left hw' = 0 \<and> engines_q (hw_inst hw' j) = engines_q (hw_inst hw j)"
  using assms(1,2,4) unfolding hw'_def
proof (induction ws arbitrary: hw)
  case (Cons w ws)
  obtain i off v where w: "w = ((i, off), v)" by (metis surj_pair)
  then have a: "i < MINER_AXI_INSTANCES" "unat off < 0x1000" "unat off \<noteq> 0 \<or> \<not> bit v 1"
    using Cons.prems(3) by (auto simp: reg_addrs_def)
  let ?h = "miner_write_reg_instance i off v hw"
  have "hw_ok ?h" "fabric_left ?h = 0" "engines_q (hw_inst ?h j) = engines_q (hw_inst hw j)"
    using Cons.prems(1,2) a assms(3) by (simp_all add: miner_write_ok fabric_left_write write_keeps_engines)
  then show ?case using Cons.IH[of ?h] Cons.prems(3) by (simp add: w hw_poke_pair)
qed simp

lemma load_keeps_busy:
  assumes "engines_q m ! k = EngBusy j" "k < length (engines_q m)"
  shows "engines_q ((load_engine ^^ n) m) ! k = EngBusy j \<and>
         length (engines_q ((load_engine ^^ n) m)) = length (engines_q m)"
proof (induction n)
  case (Suc n)
  have "engines_q (load_engine m') ! k = EngBusy j \<and> length (engines_q (load_engine m')) = length (engines_q m')"
    if "engines_q m' ! k = EngBusy j" "k < length (engines_q m')" for m'
    using that by (cases "load_q m' = Some k") (auto simp: load_engine_def start_engine_def split: option.split)
  then show ?case using Suc assms(2) by simp
qed (use assms in simp)

text \<open>
  Programming and starting a new range does not reach an engine that is still busy: the loader's
  start pulse is ignored and the engine goes on with the job it latched before, while the registers
  already hold the new job.
\<close>

theorem restart_leaves_busy_engines:
  assumes "hw_ok hw" "fabric_left hw = 0" "i < MINER_AXI_INSTANCES" "k < NUM_ENGINES"
    and "engines_q (hw_inst hw i) ! k = EngBusy old"
    and "hw' = miner_start_range s c (miner_program_job mid hdr tgt hw)"
  shows "engines_q ((load_engine ^^ n) (hw_inst hw' i)) ! k = EngBusy old"
proof -
  let ?p = "miner_program_job mid hdr tgt hw"
  have p: "hw_ok ?p \<and> fabric_left ?p = 0 \<and> engines_q (hw_inst ?p i) = engines_q (hw_inst hw i)"
    unfolding program_job_pokes
    by (rule pokes_keep_engines[OF assms(1-3)])
      (use program_job_addrs in \<open>auto simp: job_writes_set unat_job_off reg_addrs_def\<close>)
  then have "engines_q (hw_inst hw' i) = engines_q (hw_inst ?p i)"
    unfolding assms(6) start_range_pokes
    using pokes_keep_engines[OF _ _ assms(3), of ?p "concat (map (start_writes s c) [0..<MINER_AXI_INSTANCES])"]
    by (auto simp: start_writes_def reg_addrs_def reg_defs reg_bit_defs bit_1_iff)
  then show ?thesis
    using load_keeps_busy[of "hw_inst hw' i" k old n] p assms(4,5) hw_ok_lengths(4)[OF assms(1,3)]
    by simp
qed

end
