(* ===== verification/Rtos_Queue.thy ===== *)
theory Rtos_Queue
  imports Prelude
begin

section \<open>The kernel queue and its semaphores\<close>

text \<open>
  The part of the FreeRTOS kernel's \<^verbatim>\<open>queue.c\<close> that the miner service and the pool client
  call. An item queue is a ring of \<open>uxLength\<close> slots with a write position and a read position
  that points one slot \<^emph>\<open>behind\<close> the next item; the C code keeps byte pointers and steps them
  by the item size, the model counts slots. A semaphore is the kernel's queue of item size
  zero: only the message count, and for a mutex its holder, exist.

  Each operation is one pass through its critical section. Where the C call would block, the
  model's operation reports that it could not proceed and changes nothing; a caller with a
  zero timeout returns that failure, and a caller with a timeout makes another attempt after
  some other task or interrupt has run, or gives up. The lists of blocked tasks and the
  scheduler's wake-ups decide only who runs next and are not part of this state.
\<close>

subsection \<open>Item queues\<close>

record 'a rtos_queue =
  pcWriteTo :: nat
  pcReadFrom :: nat
  uxMessagesWaiting :: nat
  uxLength :: nat
  q_storage :: "'a list"

datatype copy_position = queueSEND_TO_BACK | queueSEND_TO_FRONT | queueOVERWRITE

text \<open>
  \<open>xQueueGenericReset\<close> on a new queue, as \<open>prvInitialiseNewQueue\<close> calls it: the storage area
  holds whatever the heap held.
\<close>

definition xQueueGenericReset :: "'a rtos_queue \<Rightarrow> 'a rtos_queue option" where
  "xQueueGenericReset q =
     (if 1 \<le> uxLength q
      then Some (q\<lparr>uxMessagesWaiting := 0, pcWriteTo := 0, pcReadFrom := uxLength q - 1\<rparr>)
      else None)"

definition xQueueCreate :: "nat \<Rightarrow> 'a list \<Rightarrow> 'a rtos_queue option" where
  "xQueueCreate len storage =
     xQueueGenericReset
       \<lparr>pcWriteTo = 0, pcReadFrom = 0, uxMessagesWaiting = 0, uxLength = len, q_storage = storage\<rparr>"

definition prvCopyDataToQueue :: "'a \<Rightarrow> copy_position \<Rightarrow> 'a rtos_queue \<Rightarrow> 'a rtos_queue" where
  "prvCopyDataToQueue x pos q =
     (if pos = queueSEND_TO_BACK then
        let w = pcWriteTo q + 1
        in q\<lparr>q_storage := (q_storage q)[pcWriteTo q := x],
             pcWriteTo := (if uxLength q \<le> w then 0 else w),
             uxMessagesWaiting := uxMessagesWaiting q + 1\<rparr>
      else
        let waiting = (if pos = queueOVERWRITE \<and> 0 < uxMessagesWaiting q
                       then uxMessagesWaiting q - 1 else uxMessagesWaiting q)
        in q\<lparr>q_storage := (q_storage q)[pcReadFrom q := x],
             pcReadFrom := (if pcReadFrom q = 0 then uxLength q - 1 else pcReadFrom q - 1),
             uxMessagesWaiting := waiting + 1\<rparr>)"

definition prvCopyDataFromQueue :: "'a rtos_queue \<Rightarrow> 'a \<times> 'a rtos_queue" where
  "prvCopyDataFromQueue q =
     (let r0 = pcReadFrom q + 1; r = (if uxLength q \<le> r0 then 0 else r0)
      in (q_storage q ! r, q\<lparr>pcReadFrom := r\<rparr>))"

text \<open>The flag is \<open>pdPASS\<close>; \<open>False\<close> is \<open>errQUEUE_FULL\<close>.\<close>

definition xQueueGenericSend :: "'a \<Rightarrow> copy_position \<Rightarrow> 'a rtos_queue \<Rightarrow> bool \<times> 'a rtos_queue" where
  "xQueueGenericSend x pos q =
     (if uxMessagesWaiting q < uxLength q \<or> pos = queueOVERWRITE
      then (True, prvCopyDataToQueue x pos q)
      else (False, q))"

definition xQueueReceive :: "'a rtos_queue \<Rightarrow> 'a option \<times> 'a rtos_queue" where
  "xQueueReceive q =
     (if 0 < uxMessagesWaiting q
      then let (x, q') = prvCopyDataFromQueue q
           in (Some x, q'\<lparr>uxMessagesWaiting := uxMessagesWaiting q - 1\<rparr>)
      else (None, q))"


subsection \<open>Semaphores\<close>

record 'h rtos_sem =
  sem_count :: nat
  sem_length :: nat
  sem_is_mutex :: bool
  xMutexHolder :: "'h option"

definition xSemaphoreCreateBinary :: "'h rtos_sem" where
  "xSemaphoreCreateBinary =
     \<lparr>sem_count = 0, sem_length = 1, sem_is_mutex = False, xMutexHolder = None\<rparr>"

definition xSemaphoreGive :: "'h rtos_sem \<Rightarrow> bool \<times> 'h rtos_sem" where
  "xSemaphoreGive s =
     (if sem_count s < sem_length s
      then (True, s\<lparr>sem_count := sem_count s + 1,
                    xMutexHolder := (if sem_is_mutex s then None else xMutexHolder s)\<rparr>)
      else (False, s))"

text \<open>The mutex starts given once, by \<open>prvInitialiseMutex\<close>.\<close>

definition xSemaphoreCreateMutex :: "'h rtos_sem" where
  "xSemaphoreCreateMutex =
     snd (xSemaphoreGive
       \<lparr>sem_count = 0, sem_length = 1, sem_is_mutex = True, xMutexHolder = None\<rparr>)"

definition xSemaphoreTake :: "'h \<Rightarrow> 'h rtos_sem \<Rightarrow> bool \<times> 'h rtos_sem" where
  "xSemaphoreTake me s =
     (if 0 < sem_count s
      then (True, s\<lparr>sem_count := sem_count s - 1,
                    xMutexHolder := (if sem_is_mutex s then Some me else xMutexHolder s)\<rparr>)
      else (False, s))"

definition xQueueGiveFromISR :: "'h rtos_sem \<Rightarrow> bool \<times> 'h rtos_sem" where
  "xQueueGiveFromISR s =
     (if sem_count s < sem_length s
      then (True, s\<lparr>sem_count := sem_count s + 1\<rparr>)
      else (False, s))"


subsection \<open>The queue's contents\<close>

definition queue_ok :: "'a rtos_queue \<Rightarrow> bool" where
  "queue_ok q \<longleftrightarrow>
     0 < uxLength q \<and> length (q_storage q) = uxLength q \<and> pcReadFrom q < uxLength q \<and>
     uxMessagesWaiting q \<le> uxLength q \<and>
     pcWriteTo q = (pcReadFrom q + 1 + uxMessagesWaiting q) mod uxLength q"

definition queue_items :: "'a rtos_queue \<Rightarrow> 'a list" where
  "queue_items q =
     map (\<lambda>i. q_storage q ! ((pcReadFrom q + 1 + i) mod uxLength q)) [0..<uxMessagesWaiting q]"


subsection \<open>Ring arithmetic\<close>

lemma ring_distinct:
  assumes "i < k" "k < (n::nat)"
  shows "(a + i) mod n \<noteq> (a + k) mod n"
proof
  assume "(a + i) mod n = (a + k) mod n"
  then have "n dvd (a + k) - (a + i)" using assms by (subst mod_eq_dvd_iff_nat[symmetric]) auto
  with assms show False by (auto dest: dvd_imp_le)
qed

lemma ring_succ: "w < (n::nat) \<Longrightarrow> (if n \<le> w + 1 then 0 else w + 1) = (w + 1) mod n"
  by (auto simp: mod_if)

lemma ring_shift: "((a::nat) mod n + 1 + i) mod n = (a + 1 + i) mod n"
  by (metis add.assoc mod_add_left_eq)

lemma ring_pred: "r < (n::nat) \<Longrightarrow> ((if r = 0 then n - 1 else r - 1) + 1) mod n = r"
  by auto

lemma length_queue_items: "length (queue_items q) = uxMessagesWaiting q"
  by (simp add: queue_items_def)

lemma queue_items_create:
  assumes "xQueueCreate n st = Some q" "length st = n"
  shows "queue_ok q" "queue_items q = []" "uxLength q = n"
  using assms
  by (auto simp: xQueueCreate_def xQueueGenericReset_def queue_ok_def queue_items_def Suc_le_eq
      split: if_splits)

lemma copy_to_back:
  "pcWriteTo q < uxLength q \<Longrightarrow> prvCopyDataToQueue x queueSEND_TO_BACK q =
     q\<lparr>q_storage := (q_storage q)[pcWriteTo q := x], pcWriteTo := (pcWriteTo q + 1) mod uxLength q,
       uxMessagesWaiting := uxMessagesWaiting q + 1\<rparr>"
  by (simp only: prvCopyDataToQueue_def Let_def ring_succ if_True simp_thms)

lemma copy_from:
  "pcReadFrom q < uxLength q \<Longrightarrow> prvCopyDataFromQueue q =
     (q_storage q ! ((pcReadFrom q + 1) mod uxLength q),
      q\<lparr>pcReadFrom := (pcReadFrom q + 1) mod uxLength q\<rparr>)"
  by (simp only: prvCopyDataFromQueue_def Let_def ring_succ)

lemma send_back:
  assumes "queue_ok q" "uxMessagesWaiting q < uxLength q"
  shows "queue_ok (prvCopyDataToQueue x queueSEND_TO_BACK q)"
    and "queue_items (prvCopyDataToQueue x queueSEND_TO_BACK q) = queue_items q @ [x]"
proof -
  let ?n = "uxLength q" and ?w = "uxMessagesWaiting q" and ?r = "pcReadFrom q"
  have w: "pcWriteTo q = (?r + 1 + ?w) mod ?n" "pcWriteTo q < ?n"
    using assms by (auto simp: queue_ok_def)
  show "queue_ok (prvCopyDataToQueue x queueSEND_TO_BACK q)"
    using assms ring_shift[of "?r + 1 + ?w" ?n 0] w by (simp add: queue_ok_def copy_to_back)
  have "(q_storage q)[pcWriteTo q := x] ! ((?r + 1 + i) mod ?n) = q_storage q ! ((?r + 1 + i) mod ?n)"
    if "i < ?w" for i
    using ring_distinct[of i ?w ?n "?r + 1"] that assms w by (simp add: queue_ok_def)
  then show "queue_items (prvCopyDataToQueue x queueSEND_TO_BACK q) = queue_items q @ [x]"
    using assms w by (auto simp: queue_items_def copy_to_back queue_ok_def)
qed

lemma send_front:
  assumes "queue_ok q" "uxMessagesWaiting q < uxLength q"
  shows "queue_ok (prvCopyDataToQueue x queueSEND_TO_FRONT q)"
    and "queue_items (prvCopyDataToQueue x queueSEND_TO_FRONT q) = x # queue_items q"
proof -
  let ?n = "uxLength q" and ?w = "uxMessagesWaiting q" and ?r = "pcReadFrom q"
  let ?r' = "if ?r = 0 then ?n - 1 else ?r - 1"
  have r: "?r < ?n" "0 < ?n" using assms by (auto simp: queue_ok_def)
  have step: "(?r' + 1 + i) mod ?n = (?r + i) mod ?n" for i
    using ring_pred[OF r(1)] by (metis mod_add_left_eq)
  show "queue_ok (prvCopyDataToQueue x queueSEND_TO_FRONT q)"
    using assms step[of "?w + 1"] by (auto simp: queue_ok_def prvCopyDataToQueue_def Let_def)
  have ne: "(q_storage q)[?r := x] ! ((?r + Suc i) mod ?n) = q_storage q ! ((?r + 1 + i) mod ?n)"
    if "i < ?w" for i
    using ring_distinct[of 0 "Suc i" ?n ?r] that assms r by (simp add: queue_ok_def)
  have "queue_items (prvCopyDataToQueue x queueSEND_TO_FRONT q)
      = map (\<lambda>i. (q_storage q)[?r := x] ! ((?r + i) mod ?n)) [0..<Suc ?w]"
    using step by (simp add: queue_items_def prvCopyDataToQueue_def Let_def)
  also have "\<dots> = x # map (\<lambda>i. (q_storage q)[?r := x] ! ((?r + Suc i) mod ?n)) [0..<?w]"
    using assms r by (simp only: upt_conv_Cons[OF zero_less_Suc] list.map map_Suc_upt[symmetric] list.map_comp)
       (simp add: queue_ok_def comp_def)
  also have "\<dots> = x # queue_items q" using ne by (simp add: queue_items_def)
  finally show "queue_items (prvCopyDataToQueue x queueSEND_TO_FRONT q) = x # queue_items q" .
qed

lemma overwrite_one:
  assumes "queue_ok q" "uxLength q = 1"
  shows "queue_ok (prvCopyDataToQueue x queueOVERWRITE q)"
    and "queue_items (prvCopyDataToQueue x queueOVERWRITE q) = [x]"
  using assms by (auto simp: queue_ok_def queue_items_def prvCopyDataToQueue_def Let_def)

lemma receive_items:
  assumes "queue_ok q"
  shows "queue_ok (snd (xQueueReceive q))"
    and "queue_items q = [] \<Longrightarrow> xQueueReceive q = (None, q)"
    and "queue_items q = x # xs \<Longrightarrow>
         fst (xQueueReceive q) = Some x \<and> queue_items (snd (xQueueReceive q)) = xs"
proof -
  let ?n = "uxLength q" and ?w = "uxMessagesWaiting q" and ?r = "pcReadFrom q"
  have n: "?r < ?n" "0 < ?n" using assms by (auto simp: queue_ok_def)
  have "?r + 1 + 1 + (?w - 1) = ?r + 1 + ?w" if "0 < ?w" using that by simp
  then show "queue_ok (snd (xQueueReceive q))"
    using assms n ring_shift[of "?r + 1" ?n "?w - 1"]
    by (auto simp: queue_ok_def xQueueReceive_def copy_from)
  show "queue_items q = [] \<Longrightarrow> xQueueReceive q = (None, q)"
    by (auto simp: queue_items_def xQueueReceive_def)
  assume eq: "queue_items q = x # xs"
  then have w: "0 < ?w" using length_queue_items[of q] by simp
  then obtain k where k: "?w = Suc k" using gr0_implies_Suc by blast
  have "queue_items q = q_storage q ! ((?r + 1) mod ?n) #
      map (\<lambda>i. q_storage q ! ((?r + 1 + Suc i) mod ?n)) [0..<k]"
    unfolding queue_items_def k
    by (simp only: upt_conv_Cons[OF zero_less_Suc] list.map map_Suc_upt[symmetric] list.map_comp)
       (simp add: comp_def)
  moreover have "((?r + 1) mod ?n + 1 + i) mod ?n = (?r + 1 + Suc i) mod ?n" for i
    using ring_shift[of "?r + 1" ?n i] by simp
  ultimately show "fst (xQueueReceive q) = Some x \<and> queue_items (snd (xQueueReceive q)) = xs"
    using eq n w k by (simp add: xQueueReceive_def copy_from queue_items_def)
qed


subsection \<open>The bounded FIFO its clients rely on\<close>

text \<open>
  What the tasks rely on: the queue is a list of at most \<open>cap\<close> items; sending appends or
  reports that the queue is full, receiving removes the oldest item or reports that there is
  none.
\<close>

locale bounded_fifo =
  fixes ok :: "'q \<Rightarrow> bool"
    and items :: "'q \<Rightarrow> 'a list"
    and cap :: "'q \<Rightarrow> nat"
    and send :: "'a \<Rightarrow> 'q \<Rightarrow> bool \<times> 'q"
    and receive :: "'q \<Rightarrow> 'a option \<times> 'q"
  assumes bound: "ok q \<Longrightarrow> length (items q) \<le> cap q"
    and send_room: "ok q \<Longrightarrow> length (items q) < cap q \<Longrightarrow>
        fst (send x q) \<and> ok (snd (send x q)) \<and> items (snd (send x q)) = items q @ [x]
        \<and> cap (snd (send x q)) = cap q"
    and send_full: "ok q \<Longrightarrow> cap q \<le> length (items q) \<Longrightarrow> send x q = (False, q)"
    and receive_Nil: "ok q \<Longrightarrow> items q = [] \<Longrightarrow> receive q = (None, q)"
    and receive_Cons: "ok q \<Longrightarrow> items q = y # ys \<Longrightarrow>
        fst (receive q) = Some y \<and> ok (snd (receive q)) \<and> items (snd (receive q)) = ys
        \<and> cap (snd (receive q)) = cap q"
begin

lemma send_ok: "ok q \<Longrightarrow> ok (snd (send x q)) \<and> cap (snd (send x q)) = cap q"
  using send_room[of q x] send_full[of q x] by (cases "length (items q) < cap q") auto

lemma send_items:
  "ok q \<Longrightarrow> items (snd (send x q)) = (if length (items q) < cap q then items q @ [x] else items q)"
  using send_room[of q x] send_full[of q x] by auto

lemma send_flag: "ok q \<Longrightarrow> fst (send x q) \<longleftrightarrow> length (items q) < cap q"
  using send_room[of q x] send_full[of q x] by (cases "length (items q) < cap q") auto

lemma receive_ok: "ok q \<Longrightarrow> ok (snd (receive q)) \<and> cap (snd (receive q)) = cap q"
  using receive_Nil[of q] receive_Cons[of q] by (cases "items q") auto

lemma receive_items_split:
  "ok q \<Longrightarrow> items q = (case fst (receive q) of None \<Rightarrow> [] | Some y \<Rightarrow> y # items (snd (receive q)))"
  using receive_Nil[of q] receive_Cons[of q] by (cases "items q") auto

end

interpretation rq: bounded_fifo queue_ok queue_items uxLength
    "\<lambda>x q. xQueueGenericSend x queueSEND_TO_BACK q" xQueueReceive
proof (unfold_locales, goal_cases)
  case (1 q)
  then show ?case by (simp add: length_queue_items queue_ok_def)
next
  case (2 q x)
  then show ?case
    using send_back[of q x]
    by (simp add: length_queue_items xQueueGenericSend_def)
       (simp add: prvCopyDataToQueue_def Let_def)
next
  case (3 q x)
  then show ?case by (simp add: length_queue_items xQueueGenericSend_def)
next
  case (4 q)
  then show ?case by (simp add: receive_items)
next
  case (5 q y ys)
  then show ?case
    using receive_items[of q]
    by (auto simp: xQueueReceive_def prvCopyDataFromQueue_def Let_def)
qed

lemmas queue_facts = rq.send_ok rq.send_items rq.send_flag rq.receive_ok

subsection \<open>Sequences of operations\<close>

datatype 'a queue_op = SendBack 'a | SendFront 'a | Overwrite 'a | Receive

datatype 'a queue_reply = Sent bool | Received "'a option"

fun queue_do :: "'a queue_op \<Rightarrow> 'a rtos_queue \<Rightarrow> 'a queue_reply \<times> 'a rtos_queue" where
  "queue_do (SendBack x) q = (case xQueueGenericSend x queueSEND_TO_BACK q of (b, q') \<Rightarrow> (Sent b, q'))"
| "queue_do (SendFront x) q = (case xQueueGenericSend x queueSEND_TO_FRONT q of (b, q') \<Rightarrow> (Sent b, q'))"
| "queue_do (Overwrite x) q = (case xQueueGenericSend x queueOVERWRITE q of (b, q') \<Rightarrow> (Sent b, q'))"
| "queue_do Receive q = (case xQueueReceive q of (r, q') \<Rightarrow> (Received r, q'))"

text \<open>The specification: a list of at most \<open>n\<close> items.\<close>

fun list_do :: "nat \<Rightarrow> 'a queue_op \<Rightarrow> 'a list \<Rightarrow> 'a queue_reply \<times> 'a list" where
  "list_do n (SendBack x) xs = (if length xs < n then (Sent True, xs @ [x]) else (Sent False, xs))"
| "list_do n (SendFront x) xs = (if length xs < n then (Sent True, x # xs) else (Sent False, xs))"
| "list_do n (Overwrite x) xs = (Sent True, [x])"
| "list_do n Receive xs = (case xs of [] \<Rightarrow> (Received None, []) | y # ys \<Rightarrow> (Received (Some y), ys))"

fun replies :: "('o \<Rightarrow> 's \<Rightarrow> 'r \<times> 's) \<Rightarrow> 'o list \<Rightarrow> 's \<Rightarrow> 'r list \<times> 's" where
  "replies f [] s = ([], s)"
| "replies f (x # xs) s = (case f x s of (r, s1) \<Rightarrow> case replies f xs s1 of (rs, s2) \<Rightarrow> (r # rs, s2))"

lemma queue_do_simulates:
  assumes "queue_ok q" "uxLength q = 1 \<or> (\<forall>x. op \<noteq> Overwrite x)"
  shows "fst (queue_do op q) = fst (list_do (uxLength q) op (queue_items q)) \<and>
    queue_items (snd (queue_do op q)) = snd (list_do (uxLength q) op (queue_items q)) \<and>
    queue_ok (snd (queue_do op q)) \<and> uxLength (snd (queue_do op q)) = uxLength q"
proof (cases op)
  case (SendBack x)
  then show ?thesis using queue_facts(1-3)[OF assms(1)] by (auto simp: split_beta)
next
  case (SendFront x)
  then show ?thesis
    using send_front[OF assms(1), of x] assms(1)
    by (auto simp: xQueueGenericSend_def length_queue_items) (auto simp: prvCopyDataToQueue_def Let_def)
next
  case (Overwrite x)
  then have "uxLength q = 1" using assms(2) by auto
  then show ?thesis
    using overwrite_one[OF assms(1), of x] Overwrite
    by (simp add: xQueueGenericSend_def) (simp add: prvCopyDataToQueue_def Let_def)
next
  case Receive
  then show ?thesis
    using rq.receive_Nil[OF assms(1)] rq.receive_Cons[OF assms(1)] rq.receive_ok[OF assms(1)] assms(1)
    by (cases "queue_items q") (auto simp: split_beta)
qed

lemma replies_simulate:
  assumes "queue_ok q" "uxLength q = n" "n = 1 \<or> (\<forall>x. Overwrite x \<notin> set ops)"
  shows "fst (replies queue_do ops q) = fst (replies (list_do n) ops (queue_items q)) \<and>
    queue_items (snd (replies queue_do ops q)) = snd (replies (list_do n) ops (queue_items q))"
  using assms
proof (induction ops arbitrary: q)
  case (Cons op ops)
  have "uxLength q = 1 \<or> (\<forall>x. op \<noteq> Overwrite x)" using Cons.prems(2,3) by auto
  note step = queue_do_simulates[OF Cons.prems(1) this]
  have "n = 1 \<or> (\<forall>x. Overwrite x \<notin> set ops)" using Cons.prems(3) by auto
  with step Cons.IH[of "snd (queue_do op q)"] Cons.prems(2) show ?case by (simp add: split_beta)
qed simp

text \<open>
  C39. The kernel's ring buffer is a bounded queue: for every number of slots and every sequence of sends to the
  back, sends to the front, overwrites and receives, of any length and in any order, a queue made by \<open>xQueueCreate\<close>
  gives the same answers as a list of at most \<open>n\<close> items: sends are refused exactly when it is full and
  then change nothing, a receive returns the item at the front or reports that there is none. In the end it
  holds the items of that list. Overwriting is for queues of one slot, as the kernel's assertion demands.
\<close>

theorem queue_fifo:
  assumes "length st = n" "0 < n" "n = 1 \<or> (\<forall>x. Overwrite x \<notin> set ops)"
  shows "\<exists>q. xQueueCreate n st = Some q \<and>
    fst (replies queue_do ops q) = fst (replies (list_do n) ops []) \<and>
    queue_items (snd (replies queue_do ops q)) = snd (replies (list_do n) ops [])"
proof -
  obtain q where q: "xQueueCreate n st = Some q"
    using assms by (simp add: xQueueCreate_def xQueueGenericReset_def)
  then show ?thesis
    using replies_simulate[OF _ _ assms(3)] queue_items_create[OF q assms(1)] by fastforce
qed

definition demo_ops :: "nat queue_op list" where
  "demo_ops = [SendBack 7, SendBack 8, SendBack 9, Receive, SendBack 9, Receive, SendFront 6, Receive, Receive, Receive]"

theorem queue_fifo_witness:
  "\<exists>q. xQueueCreate 2 [0, 0] = Some q \<and>
    fst (replies queue_do demo_ops q) =
      [Sent True, Sent True, Sent False, Received (Some 7), Sent True, Received (Some 8), Sent True,
       Received (Some 6), Received (Some 9), Received None]"
proof -
  have "fst (replies (list_do 2) demo_ops []) =
      [Sent True, Sent True, Sent False, Received (Some 7), Sent True, Received (Some 8), Sent True,
       Received (Some 6), Received (Some 9), Received None]"
    by (simp add: demo_ops_def)
  moreover have "\<forall>x. Overwrite x \<notin> set demo_ops" by (simp add: demo_ops_def)
  ultimately show ?thesis using queue_fifo[of "[0, 0]" 2 demo_ops] by auto
qed

text \<open>
  \<open>xQueueOverwrite\<close> on the one-slot job queue always succeeds and leaves exactly the new
  item, whatever the queue held, so the worker only ever sees the most recent job.
\<close>

theorem queue_overwrite_latest:
  assumes "queue_ok q" "uxLength q = 1"
  shows "fst (xQueueGenericSend x queueOVERWRITE q)
       \<and> queue_items (snd (xQueueGenericSend x queueOVERWRITE q)) = [x]
       \<and> queue_ok (snd (xQueueGenericSend x queueOVERWRITE q))
       \<and> fst (xQueueReceive (snd (xQueueGenericSend x queueOVERWRITE q))) = Some x"
  using overwrite_one[OF assms, of x] receive_items(3)[of "prvCopyDataToQueue x queueOVERWRITE q" x "[]"]
  by (simp add: xQueueGenericSend_def)

theorem queue_overwrite_latest_witness:
  "queue_items (snd (xQueueGenericSend (5::nat) queueOVERWRITE
     \<lparr>pcWriteTo = 0, pcReadFrom = 0, uxMessagesWaiting = 1, uxLength = 1, q_storage = [4]\<rparr>)) = [5]"
  using queue_overwrite_latest
    [of "\<lparr>pcWriteTo = 0, pcReadFrom = 0, uxMessagesWaiting = 1, uxLength = 1, q_storage = [4::nat]\<rparr>" 5]
  by (simp add: queue_ok_def)

end
