(* ===== verification/Status_Leds.thy ===== *)
theory Status_Leds
  imports Prelude
begin

unbundle bit_operations_syntax

section \<open>Status LEDs\<close>

text \<open>
  The model of \<^verbatim>\<open>src/status_leds.c\<close>: the shadow word of the four user LEDs and the GPIO data
  register it is written to. Each operation is one critical section. The lemmas show that the
  register always equals the shadow word, that only the four LED bits are ever driven, and that
  each operation changes its own LED and no other.
\<close>

record led_state =
  g_status_led_state :: u32
  led_gpio_data :: u32

definition STATUS_LED_POOL_R5_CONNECTED :: nat where "STATUS_LED_POOL_R5_CONNECTED = 0"
definition STATUS_LED_JOB_RECEIVED :: nat where "STATUS_LED_JOB_RECEIVED = 1"
definition STATUS_LED_IRQ_PROCESSED :: nat where "STATUS_LED_IRQ_PROCESSED = 2"
definition STATUS_LED_POOL_ATTACHED :: nat where "STATUS_LED_POOL_ATTACHED = 3"

definition STATUS_LED_ALL_MASK :: u32 where "STATUS_LED_ALL_MASK = push_bit 4 1 - 1"

definition status_leds_write :: "u32 \<Rightarrow> led_state \<Rightarrow> led_state" where
  "status_leds_write state l = l\<lparr>led_gpio_data := state\<rparr>"

definition status_leds_update :: "u32 \<Rightarrow> u32 \<Rightarrow> led_state \<Rightarrow> led_state" where
  "status_leds_update set_mask toggle_mask l =
     (let s1 = g_status_led_state l XOR toggle_mask;
          s2 = s1 OR set_mask;
          s3 = s2 AND STATUS_LED_ALL_MASK
      in status_leds_write s3 (l\<lparr>g_status_led_state := s3\<rparr>))"

definition status_leds_init :: "led_state \<Rightarrow> led_state" where
  "status_leds_init l = status_leds_write 0 (l\<lparr>g_status_led_state := 0\<rparr>)"

definition status_leds_set_pool_r5_connected :: "bool \<Rightarrow> led_state \<Rightarrow> led_state" where
  "status_leds_set_pool_r5_connected connected l =
     (let mask = push_bit STATUS_LED_POOL_R5_CONNECTED 1;
          s = (if connected then g_status_led_state l OR mask else g_status_led_state l AND NOT mask)
      in status_leds_write s (l\<lparr>g_status_led_state := s\<rparr>))"

definition status_leds_set_pool_attached :: "bool \<Rightarrow> led_state \<Rightarrow> led_state" where
  "status_leds_set_pool_attached attached l =
     (let mask = push_bit STATUS_LED_POOL_ATTACHED 1;
          s = (if attached then g_status_led_state l OR mask else g_status_led_state l AND NOT mask)
      in status_leds_write s (l\<lparr>g_status_led_state := s\<rparr>))"

definition status_leds_toggle_job_received :: "led_state \<Rightarrow> led_state" where
  "status_leds_toggle_job_received l = status_leds_update 0 (push_bit STATUS_LED_JOB_RECEIVED 1) l"

definition status_leds_toggle_irq_processed :: "led_state \<Rightarrow> led_state" where
  "status_leds_toggle_irq_processed l = status_leds_update 0 (push_bit STATUS_LED_IRQ_PROCESSED 1) l"

definition leds_ok :: "led_state \<Rightarrow> bool" where
  "leds_ok l \<longleftrightarrow> led_gpio_data l = g_status_led_state l \<and>
     g_status_led_state l AND STATUS_LED_ALL_MASK = g_status_led_state l"

text \<open>What is lit, by LED number.\<close>

definition lit :: "led_state \<Rightarrow> nat \<Rightarrow> bool" where
  "lit l k = bit (led_gpio_data l) k"

text \<open>The operations the firmware performs on the panel after start-up.\<close>

datatype led_op = Connected bool | Attached bool | JobReceived | IrqProcessed

fun led_step :: "led_op \<Rightarrow> led_state \<Rightarrow> led_state" where
  "led_step (Connected b) l = status_leds_set_pool_r5_connected b l"
| "led_step (Attached b) l = status_leds_set_pool_attached b l"
| "led_step JobReceived l = status_leds_toggle_job_received l"
| "led_step IrqProcessed l = status_leds_toggle_irq_processed l"

text \<open>What the operator should see.\<close>

fun last_set :: "(led_op \<Rightarrow> bool option) \<Rightarrow> led_op list \<Rightarrow> bool" where
  "last_set sel ops = (case List.map_filter sel ops of [] \<Rightarrow> False | bs \<Rightarrow> last bs)"

definition sel_connected :: "led_op \<Rightarrow> bool option" where
  "sel_connected op = (case op of Connected b \<Rightarrow> Some b | _ \<Rightarrow> None)"

definition sel_attached :: "led_op \<Rightarrow> bool option" where
  "sel_attached op = (case op of Attached b \<Rightarrow> Some b | _ \<Rightarrow> None)"

lemmas led_defs =
  status_leds_write_def status_leds_update_def status_leds_init_def
  status_leds_set_pool_r5_connected_def status_leds_set_pool_attached_def
  status_leds_toggle_job_received_def status_leds_toggle_irq_processed_def Let_def

lemma led_mask: "STATUS_LED_ALL_MASK = mask 4"
  by (simp add: STATUS_LED_ALL_MASK_def mask_eq_exp_minus_1)

lemma leds_ok_bits:
  "leds_ok l \<longleftrightarrow> led_gpio_data l = g_status_led_state l \<and> (\<forall>k. lit l k \<longrightarrow> k < 4)"
proof -
  have "(w AND mask 4 = w) \<longleftrightarrow> (\<forall>k. bit w k \<longrightarrow> k < 4)" for w :: u32
    using bit_imp_le_length[of w] by (auto simp: bit_eq_iff bit_simps)
  then show ?thesis by (auto simp: leds_ok_def led_mask lit_def)
qed

lemma one_led: "n < 4 \<Longrightarrow> bit (2 ^ n :: u32) k \<longleftrightarrow> k = n"
  by (auto simp: bit_simps)

lemma led_index:
  "STATUS_LED_POOL_R5_CONNECTED < 4" "STATUS_LED_JOB_RECEIVED < 4" "STATUS_LED_IRQ_PROCESSED < 4"
  "STATUS_LED_POOL_ATTACHED < 4" "STATUS_LED_JOB_RECEIVED < 32" "STATUS_LED_IRQ_PROCESSED < 32"
  by (simp_all add: STATUS_LED_POOL_R5_CONNECTED_def STATUS_LED_POOL_ATTACHED_def
      STATUS_LED_JOB_RECEIVED_def STATUS_LED_IRQ_PROCESSED_def)

lemma led_bits:
  "lit (status_leds_init l) k \<longleftrightarrow> False"
  "leds_ok l \<Longrightarrow> lit (status_leds_set_pool_r5_connected b l) k \<longleftrightarrow>
     (if k = STATUS_LED_POOL_R5_CONNECTED then b else lit l k)"
  "leds_ok l \<Longrightarrow> lit (status_leds_set_pool_attached b l) k \<longleftrightarrow>
     (if k = STATUS_LED_POOL_ATTACHED then b else lit l k)"
  "leds_ok l \<Longrightarrow> lit (status_leds_toggle_job_received l) k \<longleftrightarrow>
     (if k = STATUS_LED_JOB_RECEIVED then \<not> lit l k else lit l k)"
  "leds_ok l \<Longrightarrow> lit (status_leds_toggle_irq_processed l) k \<longleftrightarrow>
     (if k = STATUS_LED_IRQ_PROCESSED then \<not> lit l k else lit l k)"
  by (auto simp: led_defs led_mask leds_ok_bits lit_def bit_and_iff bit_or_iff bit_xor_iff bit_not_iff
      bit_mask_iff one_led led_index dest: bit_imp_le_length)

text \<open>The setters form one interface: an indexed family of lights.\<close>

locale light_panel =
  fixes ok :: "'s \<Rightarrow> bool" and shown :: "'s \<Rightarrow> nat \<Rightarrow> bool"
    and put :: "bool \<Rightarrow> 's \<Rightarrow> 's" and n :: nat
  assumes put_shown: "ok s \<Longrightarrow> shown (put b s) k = (if k = n then b else shown s k)"
    and put_ok: "ok s \<Longrightarrow> ok (put b s)"
begin

lemma put_put: "ok s \<Longrightarrow> shown (put b (put c s)) = shown (put b s)"
  by (rule ext) (simp add: put_shown put_ok)

end

lemma led_ops_ok:
  "leds_ok (status_leds_init l)"
  "leds_ok l \<Longrightarrow> leds_ok (status_leds_set_pool_r5_connected b l)"
  "leds_ok l \<Longrightarrow> leds_ok (status_leds_set_pool_attached b l)"
  "leds_ok l \<Longrightarrow> leds_ok (status_leds_toggle_job_received l)"
  "leds_ok l \<Longrightarrow> leds_ok (status_leds_toggle_irq_processed l)"
  using led_index
  by (auto simp: leds_ok_bits led_bits[unfolded leds_ok_bits] split: if_splits)
    (auto simp: led_defs)

interpretation connected_led: light_panel leds_ok lit status_leds_set_pool_r5_connected
    STATUS_LED_POOL_R5_CONNECTED
  by unfold_locales (simp_all add: led_bits led_ops_ok)

interpretation attached_led: light_panel leds_ok lit status_leds_set_pool_attached
    STATUS_LED_POOL_ATTACHED
  by unfold_locales (simp_all add: led_bits led_ops_ok)

lemma led_step_ok: "leds_ok l \<Longrightarrow> leds_ok (led_step op l)"
  by (cases op) (simp_all add: led_ops_ok)

lemma led_steps_ok: "leds_ok l \<Longrightarrow> leds_ok (fold led_step ops l)"
  by (induction ops arbitrary: l) (simp_all add: led_step_ok)

lemma led_numbers:
  "STATUS_LED_POOL_R5_CONNECTED = 0" "STATUS_LED_JOB_RECEIVED = 1" "STATUS_LED_IRQ_PROCESSED = 2"
  "STATUS_LED_POOL_ATTACHED = 3"
  by (simp_all add: STATUS_LED_POOL_R5_CONNECTED_def STATUS_LED_POOL_ATTACHED_def
      STATUS_LED_JOB_RECEIVED_def STATUS_LED_IRQ_PROCESSED_def)

lemma map_filter_snoc:
  "List.map_filter f (xs @ [x]) = List.map_filter f xs @ (case f x of None \<Rightarrow> [] | Some y \<Rightarrow> [y])"
  by (simp add: List.map_filter_def split: option.split)

text \<open>
  The LED operations do not disturb one another: after \<open>status_leds_init\<close> and any sequence
  of the four operations, the GPIO register shows for each connection LED the last value set, for
  each event LED the parity of the number of events, and drives no bit but the four LEDs.
\<close>

theorem led_panel_tracks_events:
  fixes l :: led_state
  defines "shown ops \<equiv> lit (fold led_step ops (status_leds_init l))"
  shows "shown ops STATUS_LED_POOL_R5_CONNECTED = last_set sel_connected ops \<and>
         shown ops STATUS_LED_POOL_ATTACHED = last_set sel_attached ops \<and>
         shown ops STATUS_LED_JOB_RECEIVED = odd (length (filter (\<lambda>op. op = JobReceived) ops)) \<and>
         shown ops STATUS_LED_IRQ_PROCESSED = odd (length (filter (\<lambda>op. op = IrqProcessed) ops)) \<and>
         (\<forall>k. shown ops k \<longrightarrow> k < 4)"
proof -
  have ok: "leds_ok (fold led_step ops (status_leds_init l))" for ops
    by (rule led_steps_ok[OF led_ops_ok(1)])
  have "shown ops STATUS_LED_POOL_R5_CONNECTED = last_set sel_connected ops \<and>
         shown ops STATUS_LED_POOL_ATTACHED = last_set sel_attached ops \<and>
         shown ops STATUS_LED_JOB_RECEIVED = odd (length (filter (\<lambda>op. op = JobReceived) ops)) \<and>
         shown ops STATUS_LED_IRQ_PROCESSED = odd (length (filter (\<lambda>op. op = IrqProcessed) ops))"
  proof (induction ops rule: rev_induct)
    case Nil
    then show ?case by (simp add: shown_def led_bits List.map_filter_def)
  next
    case (snoc op ops)
    then show ?case
      using ok[of ops]
      by (cases op) (auto simp: shown_def led_bits led_numbers map_filter_snoc sel_connected_def
          sel_attached_def split: list.splits)
  qed
  then show ?thesis using ok[of ops] by (simp add: shown_def leds_ok_bits)
qed

theorem led_panel_tracks_events_witness:
  "lit (fold led_step [Connected True, JobReceived, JobReceived, Attached True, IrqProcessed, Attached False]
     (status_leds_init \<lparr>g_status_led_state = 9, led_gpio_data = 0\<rparr>)) STATUS_LED_POOL_R5_CONNECTED"
  using led_panel_tracks_events
    [of "[Connected True, JobReceived, JobReceived, Attached True, IrqProcessed, Attached False]"
      "\<lparr>g_status_led_state = 9, led_gpio_data = 0\<rparr>"]
  by (simp add: sel_connected_def List.map_filter_simps)

end
