(* ===== verification/Miner_Service.thy ===== *)
theory Miner_Service
  imports Miner_Regs Rtos_Queue Status_Leds
begin

unbundle bit_operations_syntax

section \<open>The miner service\<close>

text \<open>
  The model of \<^verbatim>\<open>src/miner_service.c\<close>: the globals of the module as one record, the interrupt
  handler, the accounting of nonce ranges, the API called by the other tasks, and the worker task
  as a machine with a program counter. One worker step is the code between two points at which
  the interrupt or another task can change what the worker sees; \<open>miner_irq_unmask_all\<close>
  is split down to the single register accesses, because the interrupt may be taken between them.
  A run is a list of labels (a worker step, the interrupt, a call from another task, a clock
  tick); the invariants hold in every state of every run.

  A blocking receive or take with a timeout is one attempt: it succeeds if the queue or semaphore
  has something and otherwise is the timeout. \<open>configASSERT\<close> on a failed creation stops the
  system; the state after a successful \<open>miner_service_start\<close> is the start of every run.
\<close>

subsection \<open>Data\<close>

record miner_job =
  job_midstate :: "u32 list"
  job_header_tail :: "u32 list"
  job_target :: "u32 list"
  job_nonce_start :: u32
  job_nonce_count :: u32
  job_id :: string
  job_extranonce2 :: string
  job_ntime :: string

record miner_service_stats =
  jobs_queued :: u32
  jobs_started :: u32
  irq_count :: u32
  result_count :: u32
  result_queue_drops :: u32
  overflow_polls :: u32
  nonce_candidates_issued :: u64
  active_job_tick :: u32
  last_result_tick :: u32
  active_nonce_start :: u32
  active_nonce_count :: u32
  ranges_completed :: u32
  ranges_preempted :: u32
  ranges_preempted_clean_job :: u32
  ranges_stopped :: u32
  nonce_candidates_completed_estimate :: u64
  last_range_elapsed_ticks :: u32
  last_range_reason :: u32

record miner_result_event =
  ev_result :: miner_result
  ev_job :: miner_job

record miner_job_request =
  req_job :: miner_job
  req_clean_job :: bool

datatype task_id = MinerTask | StratumTask | TelnetTask

record miner_service =
  svc_hw :: miner_hw
  svc_leds :: led_state
  xTickCount :: u32
  g_job_queue :: "miner_job_request rtos_queue"
  g_result_queue :: "miner_result_event rtos_queue"
  g_irq_sem :: "task_id rtos_sem"
  g_result_lock :: "task_id rtos_sem"
  g_last_result :: miner_result
  g_last_result_job :: miner_job
  g_active_job :: miner_job
  g_have_result :: bool
  g_have_active_job :: bool
  g_stats :: miner_service_stats
  g_range_active :: bool
  g_stop_requested :: bool
  g_irq_masked :: bool
  irq_installed :: bool

definition MINER_RANGE_COMPLETE :: u32 where "MINER_RANGE_COMPLETE = 1"
definition MINER_RANGE_PREEMPTED :: u32 where "MINER_RANGE_PREEMPTED = 2"
definition MINER_RANGE_STOPPED :: u32 where "MINER_RANGE_STOPPED = 3"

definition MINER_NUM_ENGINES_EXPECTED :: u64 where
  "MINER_NUM_ENGINES_EXPECTED = of_nat MINER_AXI_INSTANCES * ucast MINER_ENGINES_PER_INSTANCE"

definition MINER_HASHRATE_HS :: u64 where
  "MINER_HASHRATE_HS = (MINER_NUM_ENGINES_EXPECTED * 250000000) div 512"

definition configTICK_RATE_HZ :: u64 where "configTICK_RATE_HZ = 1000"

definition zero_result :: miner_result where
  "zero_result = \<lparr>res_nonce = 0, res_engine = 0, res_status = 0\<rparr>"

definition zero_job :: miner_job where
  "zero_job = \<lparr>job_midstate = replicate 8 0, job_header_tail = replicate 4 0,
     job_target = replicate 8 0, job_nonce_start = 0, job_nonce_count = 0, job_id = [],
     job_extranonce2 = [], job_ntime = []\<rparr>"

definition zero_stats :: miner_service_stats where
  "zero_stats = \<lparr>jobs_queued = 0, jobs_started = 0, irq_count = 0, result_count = 0,
     result_queue_drops = 0, overflow_polls = 0, nonce_candidates_issued = 0, active_job_tick = 0,
     last_result_tick = 0, active_nonce_start = 0, active_nonce_count = 0, ranges_completed = 0,
     ranges_preempted = 0, ranges_preempted_clean_job = 0, ranges_stopped = 0,
     nonce_candidates_completed_estimate = 0, last_range_elapsed_ticks = 0, last_range_reason = 0\<rparr>"

definition upd_stats :: "(miner_service_stats \<Rightarrow> miner_service_stats) \<Rightarrow> miner_service \<Rightarrow> miner_service" where
  "upd_stats f s = s\<lparr>g_stats := f (g_stats s)\<rparr>"


subsection \<open>Interrupt handler\<close>

definition miner_irq_handler :: "miner_service \<Rightarrow> miner_service" where
  "miner_irq_handler s =
     (let s1 = (if \<not> g_irq_masked s
                then s\<lparr>g_irq_masked := True, svc_hw := miner_irq_mask_all (svc_hw s)\<rparr> else s);
          s2 = upd_stats (\<lambda>t. t\<lparr>irq_count := irq_count t + 1\<rparr>) s1
      in s2\<lparr>g_irq_sem := snd (xQueueGiveFromISR (g_irq_sem s2))\<rparr>)"

definition miner_install_irq :: "miner_service \<Rightarrow> miner_service" where
  "miner_install_irq s = s\<lparr>irq_installed := True\<rparr>"


subsection \<open>Range accounting\<close>

definition miner_range_estimate :: "u32 \<Rightarrow> miner_service_stats \<Rightarrow> u32 \<Rightarrow> u64" where
  "miner_range_estimate reason t elapsed_ticks =
     (let est0 = (ucast elapsed_ticks * MINER_HASHRATE_HS) div configTICK_RATE_HZ;
          est1 = (if ucast (active_nonce_count t) < est0 then ucast (active_nonce_count t) else est0)
      in (if reason = MINER_RANGE_COMPLETE then ucast (active_nonce_count t) else est1))"

definition miner_finish_range :: "u32 \<Rightarrow> miner_service \<Rightarrow> miner_service" where
  "miner_finish_range reason s =
     (if \<not> g_range_active s then s
      else
        let t = g_stats s;
            elapsed_ticks = xTickCount s - active_job_tick t;
            est = miner_range_estimate reason t elapsed_ticks;
            t1 = (if reason = MINER_RANGE_COMPLETE
                  then t\<lparr>ranges_completed := ranges_completed t + 1\<rparr>
                  else if reason = MINER_RANGE_PREEMPTED
                  then t\<lparr>ranges_preempted := ranges_preempted t + 1\<rparr>
                  else t\<lparr>ranges_stopped := ranges_stopped t + 1\<rparr>);
            t2 = t1\<lparr>nonce_candidates_completed_estimate :=
                      nonce_candidates_completed_estimate t1 + est,
                    last_range_elapsed_ticks := elapsed_ticks,
                    last_range_reason := reason\<rparr>
        in s\<lparr>g_stats := t2, g_range_active := False, g_stop_requested := False\<rparr>)"


subsection \<open>The worker task\<close>

text \<open>\<open>(miner_status() & MINER_STATUS_RUNNING) != 0\<close>, with the accesses it makes.\<close>

definition svc_running :: "miner_service \<Rightarrow> bool \<times> miner_service" where
  "svc_running s =
     (let (st, hw) = miner_status (svc_hw s)
      in (st AND MINER_STATUS_RUNNING \<noteq> 0, s\<lparr>svc_hw := hw\<rparr>))"

text \<open>Before the loop.\<close>

definition miner_task_enter :: "miner_service \<Rightarrow> miner_service" where
  "miner_task_enter s =
     miner_install_irq
       (s\<lparr>svc_hw := miner_irq_unmask_all (miner_init MINER_AXI_BASEADDR (svc_hw s)),
          g_irq_masked := False\<rparr>)"

text \<open>A job request has been received: settle the running range, program and start the new one.\<close>

definition miner_task_settle :: "miner_job_request \<Rightarrow> miner_service \<Rightarrow> miner_service" where
  "miner_task_settle request s =
     (if g_range_active s then
        let (preempt, s1) = (if req_clean_job request then (True, s) else svc_running s)
        in if preempt
           then let s2 = miner_finish_range MINER_RANGE_PREEMPTED s1
                in if req_clean_job request
                   then upd_stats (\<lambda>t. t\<lparr>ranges_preempted_clean_job := ranges_preempted_clean_job t + 1\<rparr>) s2
                   else s2
           else miner_finish_range MINER_RANGE_COMPLETE s1
      else s)"

definition miner_task_begin :: "miner_job \<Rightarrow> miner_service \<Rightarrow> miner_service" where
  "miner_task_begin job s =
     (let s1 = s\<lparr>g_active_job := job, g_have_active_job := True\<rparr>;
          hw1 = miner_program_job (job_midstate job) (job_header_tail job) (job_target job) (svc_hw s1);
          hw2 = miner_start_range (job_nonce_start job) (job_nonce_count job) hw1;
          s2 = s1\<lparr>svc_hw := hw2\<rparr>;
          s3 = upd_stats (\<lambda>t. t\<lparr>jobs_started := jobs_started t + 1,
                 nonce_candidates_issued := nonce_candidates_issued t + ucast (job_nonce_count job),
                 active_nonce_start := job_nonce_start job,
                 active_nonce_count := job_nonce_count job,
                 active_job_tick := xTickCount s2\<rparr>) s2
      in s3\<lparr>g_range_active := True, g_stop_requested := False\<rparr>)"

definition miner_task_job :: "miner_service \<Rightarrow> miner_service" where
  "miner_task_job s =
     (case xQueueReceive (g_job_queue s) of
        (Some request, q) \<Rightarrow>
          miner_task_begin (req_job request) (miner_task_settle request (s\<lparr>g_job_queue := q\<rparr>))
      | (None, q) \<Rightarrow>
          let s1 = s\<lparr>g_job_queue := q\<rparr>
          in if g_range_active s1
             then let (running, s2) = svc_running s1
                  in if \<not> running
                     then miner_finish_range (if g_stop_requested s2 then MINER_RANGE_STOPPED
                                              else MINER_RANGE_COMPLETE) s2
                     else s2
             else s1)"

text \<open>The body of the drain loop.\<close>

definition miner_task_deliver :: "miner_result \<Rightarrow> miner_service \<Rightarrow> miner_service" where
  "miner_task_deliver result s =
     (let event = \<lparr>ev_result = result,
                   ev_job = (if g_have_active_job s then g_active_job s else zero_job)\<rparr>;
          (locked, lock) = xSemaphoreTake MinerTask (g_result_lock s);
          s1 = (if locked
                then s\<lparr>g_last_result := result, g_last_result_job := ev_job event,
                       g_have_result := True, g_result_lock := snd (xSemaphoreGive lock)\<rparr>
                else s);
          s2 = upd_stats (\<lambda>t. t\<lparr>result_count := result_count t + 1,
                                last_result_tick := xTickCount s1\<rparr>) s1;
          (sent, q) = xQueueGenericSend event queueSEND_TO_BACK (g_result_queue s2);
          s3 = s2\<lparr>g_result_queue := q\<rparr>
      in if sent then s3
         else upd_stats (\<lambda>t. t\<lparr>result_queue_drops := result_queue_drops t + 1\<rparr>) s3)"

definition miner_task_drain_step :: "miner_service \<Rightarrow> bool \<times> miner_service" where
  "miner_task_drain_step s =
     (let (r, hw) = miner_read_result (svc_hw s); s1 = s\<lparr>svc_hw := hw\<rparr>
      in case r of None \<Rightarrow> (False, s1) | Some result \<Rightarrow> (True, miner_task_deliver result s1))"

text \<open>The loop \<open>while (miner_read_result(&result))\<close>; None: it has not ended within the bound.\<close>

fun miner_task_drain :: "nat \<Rightarrow> miner_service \<Rightarrow> miner_service option" where
  "miner_task_drain 0 s = None"
| "miner_task_drain (Suc fuel) s =
     (let (more, s1) = miner_task_drain_step s
      in if more then miner_task_drain fuel s1 else Some s1)"

datatype worker_pc =
    W_Enter
  | W_Queue
  | W_Sem
  | W_Drain
  | W_Check
  | W_Clear
  | W_Flag
  | W_UnmaskRead nat
  | W_UnmaskWrite nat u32

fun worker_step :: "worker_pc \<Rightarrow> miner_service \<Rightarrow> worker_pc \<times> miner_service" where
  "worker_step W_Enter s = (W_Queue, miner_task_enter s)"
| "worker_step W_Queue s = (W_Sem, miner_task_job s)"
| "worker_step W_Sem s =
     (let (taken, sem) = xSemaphoreTake MinerTask (g_irq_sem s); s1 = s\<lparr>g_irq_sem := sem\<rparr>
      in if taken then (W_Drain, s1\<lparr>svc_leds := status_leds_toggle_irq_processed (svc_leds s1)\<rparr>)
         else (W_Queue, s1))"
| "worker_step W_Drain s =
     (let (more, s1) = miner_task_drain_step s in (if more then W_Drain else W_Check, s1))"
| "worker_step W_Check s = (if g_irq_masked s then W_Clear else W_Queue, s)"
| "worker_step W_Clear s = (W_Flag, s\<lparr>svc_hw := miner_clear (svc_hw s)\<rparr>)"
| "worker_step W_Flag s = (W_UnmaskRead 0, s\<lparr>g_irq_masked := False\<rparr>)"
| "worker_step (W_UnmaskRead i) s =
     (if MINER_AXI_INSTANCES \<le> i then (W_Queue, s)
      else let (control, hw) = miner_read_reg_instance i MINER_REG_IRQ_CONTROL (svc_hw s)
           in (W_UnmaskWrite i control, s\<lparr>svc_hw := hw\<rparr>))"
| "worker_step (W_UnmaskWrite i control) s =
     (W_UnmaskRead (i + 1),
      s\<lparr>svc_hw := miner_write_reg_instance i MINER_REG_IRQ_CONTROL
                    (control AND NOT MINER_IRQ_CONTROL_MASK) (svc_hw s)\<rparr>)"


subsection \<open>The service API\<close>

definition miner_service_start :: "miner_hw \<Rightarrow> led_state \<Rightarrow> miner_job_request list \<Rightarrow>
    miner_result_event list \<Rightarrow> miner_service option" where
  "miner_service_start hw leds job_store result_store =
     (case (xQueueCreate 1 job_store, xQueueCreate 8 result_store) of
        (Some jq, Some rq) \<Rightarrow>
          Some \<lparr>svc_hw = hw, svc_leds = leds, xTickCount = 0, g_job_queue = jq, g_result_queue = rq,
                g_irq_sem = xSemaphoreCreateBinary, g_result_lock = xSemaphoreCreateMutex,
                g_last_result = zero_result, g_last_result_job = zero_job, g_active_job = zero_job,
                g_have_result = False, g_have_active_job = False, g_stats = zero_stats,
                g_range_active = False, g_stop_requested = False, g_irq_masked = False,
                irq_installed = False\<rparr>
      | _ \<Rightarrow> None)"

definition miner_service_submit_job :: "miner_job option \<Rightarrow> bool \<Rightarrow> miner_service \<Rightarrow> miner_service" where
  "miner_service_submit_job job clean_job s =
     (case job of
        None \<Rightarrow> s
      | Some j \<Rightarrow>
          let s1 = upd_stats (\<lambda>t. t\<lparr>jobs_queued := jobs_queued t + 1\<rparr>) s
          in s1\<lparr>g_job_queue := snd (xQueueGenericSend \<lparr>req_job = j, req_clean_job = clean_job\<rparr>
                                      queueOVERWRITE (g_job_queue s1))\<rparr>)"

definition miner_service_stop_scan :: "miner_service \<Rightarrow> miner_service" where
  "miner_service_stop_scan s =
     s\<lparr>g_stop_requested := True, svc_hw := miner_stop (svc_hw s)\<rparr>"

definition miner_service_clear :: "task_id \<Rightarrow> miner_service \<Rightarrow> miner_service" where
  "miner_service_clear me s =
     (let s1 = s\<lparr>svc_hw := miner_clear (svc_hw s)\<rparr>;
          (locked, lock) = xSemaphoreTake me (g_result_lock s1)
      in if locked
         then s1\<lparr>g_last_result := zero_result, g_last_result_job := zero_job,
                 g_have_result := False, g_result_lock := snd (xSemaphoreGive lock)\<rparr>
         else s1)"

definition miner_service_status :: "miner_service \<Rightarrow> u32 \<times> miner_service" where
  "miner_service_status s =
     (let (status, hw) = miner_status (svc_hw s); s1 = s\<lparr>svc_hw := hw\<rparr>
      in (status, if status AND MINER_STATUS_OVERFLOW \<noteq> 0
                  then upd_stats (\<lambda>t. t\<lparr>overflow_polls := overflow_polls t + 1\<rparr>) s1 else s1))"

definition miner_service_get_stats :: "miner_service \<Rightarrow> miner_service_stats" where
  "miner_service_get_stats s = g_stats s"

definition miner_service_get_last_result :: "task_id \<Rightarrow> miner_service \<Rightarrow> miner_result option \<times> miner_service" where
  "miner_service_get_last_result me s =
     (let (locked, lock) = xSemaphoreTake me (g_result_lock s)
      in if locked
         then (if g_have_result s then Some (g_last_result s) else None,
               s\<lparr>g_result_lock := snd (xSemaphoreGive lock)\<rparr>)
         else (None, s))"

definition miner_service_take_result ::
  "miner_service \<Rightarrow> (miner_result \<times> miner_job) option \<times> miner_service" where
  "miner_service_take_result s =
     (case xQueueReceive (g_result_queue s) of
        (None, q) \<Rightarrow> (None, s\<lparr>g_result_queue := q\<rparr>)
      | (Some event, q) \<Rightarrow> (Some (ev_result event, ev_job event), s\<lparr>g_result_queue := q\<rparr>))"


subsection \<open>Runs\<close>

datatype svc_label =
    Worker
  | Irq
  | Submit miner_job bool
  | StopScan
  | ClearResults task_id
  | PanelOp led_op
  | StartRange u32 u32
  | ReadRegister nat u32
  | ReadStatus
  | ReadEngines
  | PollStatus
  | LastResult
  | TakeResult
  | ClockTick

text \<open>
  The service with its worker's program counter and two histories for the statements: what the worker has read from
  the fabric so far, each result with the job that was active then and whether the result queue had
  room for it, and the events the pool client has taken out of the queue.
\<close>

record svc_sys =
  sys_svc :: miner_service
  sys_pc :: worker_pc
  sys_read :: "(miner_result_event \<times> bool) list"
  sys_taken :: "miner_result_event list"

definition result_read :: "worker_pc \<Rightarrow> miner_service \<Rightarrow> (miner_result_event \<times> bool) list" where
  "result_read pc s =
     (case (pc, fst (miner_read_result (svc_hw s))) of
        (W_Drain, Some r) \<Rightarrow>
          [(\<lparr>ev_result = r, ev_job = (if g_have_active_job s then g_active_job s else zero_job)\<rparr>,
            length (queue_items (g_result_queue s)) < 8)]
      | _ \<Rightarrow> [])"

text \<open>
  An interrupt is taken only while the handler is installed and the line is high. The tasks that
  call the API have a lower priority than the worker and are created after it, so their first
  call comes after the worker has entered its loop. (They also run only while the worker is
  blocked; the labels allow them at every program counter, which includes that.)
\<close>

fun svc_step :: "svc_label \<Rightarrow> svc_sys \<Rightarrow> svc_sys option" where
  "svc_step Worker y =
     (let (pc, s) = worker_step (sys_pc y) (sys_svc y)
      in Some (y\<lparr>sys_svc := s, sys_pc := pc,
                 sys_read := sys_read y @ result_read (sys_pc y) (sys_svc y)\<rparr>))"
| "svc_step Irq y =
     (if irq_installed (sys_svc y) \<and> irq_line (hw_bus (svc_hw (sys_svc y)))
      then Some (y\<lparr>sys_svc := miner_irq_handler (sys_svc y)\<rparr>) else None)"
| "svc_step (Submit job clean) y =
     (if irq_installed (sys_svc y)
      then Some (y\<lparr>sys_svc := miner_service_submit_job (Some job) clean (sys_svc y)\<rparr>) else None)"
| "svc_step StopScan y =
     (if irq_installed (sys_svc y)
      then Some (y\<lparr>sys_svc := miner_service_stop_scan (sys_svc y)\<rparr>) else None)"
| "svc_step (ClearResults me) y =
     (if irq_installed (sys_svc y)
      then Some (y\<lparr>sys_svc := miner_service_clear me (sys_svc y)\<rparr>) else None)"
| "svc_step (PanelOp op) y =
     (if irq_installed (sys_svc y)
      then Some (y\<lparr>sys_svc := (sys_svc y)\<lparr>svc_leds := led_step op (svc_leds (sys_svc y))\<rparr>\<rparr>) else None)"
| "svc_step (StartRange start cnt) y =
     (if irq_installed (sys_svc y)
      then Some (y\<lparr>sys_svc := (sys_svc y)\<lparr>svc_hw := miner_start_range start cnt (svc_hw (sys_svc y))\<rparr>\<rparr>)
      else None)"
| "svc_step (ReadRegister i off) y =
     (if irq_installed (sys_svc y) \<and> i < MINER_AXI_INSTANCES \<and> unat off < 0x1000
      then Some (y\<lparr>sys_svc := (sys_svc y)\<lparr>svc_hw := snd (miner_read_reg_instance i off (svc_hw (sys_svc y)))\<rparr>\<rparr>)
      else None)"
| "svc_step ReadStatus y =
     (if irq_installed (sys_svc y)
      then Some (y\<lparr>sys_svc := (sys_svc y)\<lparr>svc_hw := snd (miner_status (svc_hw (sys_svc y)))\<rparr>\<rparr>) else None)"
| "svc_step ReadEngines y =
     (if irq_installed (sys_svc y)
      then Some (y\<lparr>sys_svc := (sys_svc y)\<lparr>svc_hw := snd (miner_num_engines (svc_hw (sys_svc y)))\<rparr>\<rparr>) else None)"
| "svc_step PollStatus y =
     (if irq_installed (sys_svc y)
      then Some (y\<lparr>sys_svc := snd (miner_service_status (sys_svc y))\<rparr>) else None)"
| "svc_step LastResult y =
     (if irq_installed (sys_svc y)
      then Some (y\<lparr>sys_svc := snd (miner_service_get_last_result TelnetTask (sys_svc y))\<rparr>) else None)"
| "svc_step TakeResult y =
     (if irq_installed (sys_svc y)
      then let (r, s) = miner_service_take_result (sys_svc y)
           in Some (y\<lparr>sys_svc := s,
                      sys_taken := (case r of None \<Rightarrow> sys_taken y
                        | Some (res, job) \<Rightarrow> sys_taken y @ [\<lparr>ev_result = res, ev_job = job\<rparr>])\<rparr>)
      else None)"
| "svc_step ClockTick y = Some (y\<lparr>sys_svc := (sys_svc y)\<lparr>xTickCount := xTickCount (sys_svc y) + 1\<rparr>\<rparr>)"

fun svc_run :: "svc_label list \<Rightarrow> svc_sys \<Rightarrow> svc_sys option" where
  "svc_run [] y = Some y"
| "svc_run (l # ls) y = (case svc_step l y of None \<Rightarrow> None | Some y' \<Rightarrow> svc_run ls y')"

definition job_ok :: "miner_job \<Rightarrow> bool" where
  "job_ok j \<longleftrightarrow> length (job_midstate j) = 8 \<and> length (job_header_tail j) = 4 \<and> length (job_target j) = 8"

text \<open>States reachable from a successful start, on well-formed hardware.\<close>

inductive svc_reachable :: "svc_sys \<Rightarrow> bool" where
  svc_init: "miner_service_start hw leds jst rst = Some s \<Longrightarrow> bus_ok (hw_bus hw) \<Longrightarrow>
     length jst = 1 \<Longrightarrow> length rst = 8 \<Longrightarrow>
     svc_reachable \<lparr>sys_svc = s, sys_pc = W_Enter, sys_read = [], sys_taken = []\<rparr>"
| svc_next: "svc_reachable y \<Longrightarrow> svc_step l y = Some y' \<Longrightarrow> svc_reachable y'"

inductive_cases svc_reachableE: "svc_reachable y"


subsection \<open>Invariants\<close>

definition irq_sem_ok :: "task_id rtos_sem \<Rightarrow> bool" where
  "irq_sem_ok m \<longleftrightarrow> sem_length m = 1 \<and> sem_count m \<le> 1 \<and> \<not> sem_is_mutex m"

definition lock_ok :: "task_id rtos_sem \<Rightarrow> bool" where
  "lock_ok m \<longleftrightarrow> sem_length m = 1 \<and> sem_count m = 1 \<and> sem_is_mutex m \<and> xMutexHolder m = None"

definition svc_ok :: "miner_service \<Rightarrow> bool" where
  "svc_ok s \<longleftrightarrow>
     queue_ok (g_job_queue s) \<and> uxLength (g_job_queue s) = 1 \<and>
     queue_ok (g_result_queue s) \<and> uxLength (g_result_queue s) = 8 \<and>
     irq_sem_ok (g_irq_sem s) \<and> lock_ok (g_result_lock s)"

definition pc_ok :: "worker_pc \<Rightarrow> bool" where
  "pc_ok pc = (case pc of W_UnmaskRead i \<Rightarrow> i \<le> MINER_AXI_INSTANCES
                        | W_UnmaskWrite i _ \<Rightarrow> i < MINER_AXI_INSTANCES | _ \<Rightarrow> True)"

definition entered :: "svc_sys \<Rightarrow> bool" where
  "entered y \<longleftrightarrow>
     (if sys_pc y = W_Enter
      then bus_ok (hw_bus (svc_hw (sys_svc y))) \<and> \<not> irq_installed (sys_svc y)
      else hw_ok (svc_hw (sys_svc y)) \<and> irq_installed (sys_svc y))"

definition base_inv :: "svc_sys \<Rightarrow> bool" where
  "base_inv y \<longleftrightarrow> svc_ok (sys_svc y) \<and> pc_ok (sys_pc y) \<and> entered y"

text \<open>Every started range is counted exactly once.\<close>

definition ranges_balanced :: "miner_service \<Rightarrow> bool" where
  "ranges_balanced s \<longleftrightarrow>
     jobs_started (g_stats s) =
       ranges_completed (g_stats s) + ranges_preempted (g_stats s) + ranges_stopped (g_stats s) +
       (if g_range_active s then 1 else 0)"

definition results_balanced :: "svc_sys \<Rightarrow> bool" where
  "results_balanced y \<longleftrightarrow>
     map fst (filter snd (sys_read y)) = sys_taken y @ queue_items (g_result_queue (sys_svc y)) \<and>
     result_count (g_stats (sys_svc y)) = of_nat (length (sys_read y)) \<and>
     result_queue_drops (g_stats (sys_svc y)) = of_nat (length (filter (\<lambda>p. \<not> snd p) (sys_read y)))"

text \<open>The worker is between the end of a drain and the end of unmasking, or has a wake-up pending.\<close>

definition will_rearm :: "svc_sys \<Rightarrow> bool" where
  "will_rearm y \<longleftrightarrow>
     0 < sem_count (g_irq_sem (sys_svc y)) \<or> sys_pc y \<in> {W_Drain, W_Check, W_Clear, W_Flag}"

definition unmask_pending :: "worker_pc \<Rightarrow> nat \<Rightarrow> bool" where
  "unmask_pending pc i = (case pc of W_UnmaskRead j \<Rightarrow> j \<le> i | W_UnmaskWrite j _ \<Rightarrow> j \<le> i | _ \<Rightarrow> False)"

definition irq_not_lost :: "svc_sys \<Rightarrow> bool" where
  "irq_not_lost y \<longleftrightarrow>
     (g_irq_masked (sys_svc y) \<longrightarrow> will_rearm y) \<and>
     (sys_pc y \<noteq> W_Enter \<longrightarrow>
       (\<forall>i<MINER_AXI_INSTANCES. irq_mask_q (hw_inst (svc_hw (sys_svc y)) i) \<longrightarrow>
          g_irq_masked (sys_svc y) \<or> unmask_pending (sys_pc y) i))"

text \<open>What has been completed is at most what has been issued, which \<open>n\<close> starts bound.\<close>

definition issued_ok :: "nat \<Rightarrow> miner_service \<Rightarrow> bool" where
  "issued_ok n s \<longleftrightarrow>
     unat (nonce_candidates_completed_estimate (g_stats s)) +
       (if g_range_active s then unat (active_nonce_count (g_stats s)) else 0)
       \<le> unat (nonce_candidates_issued (g_stats s)) \<and>
     unat (nonce_candidates_issued (g_stats s)) \<le> n * (2 ^ 32 - 1)"

definition range_view :: "miner_service \<Rightarrow> u64 \<times> u64 \<times> u32 \<times> bool" where
  "range_view s = (nonce_candidates_completed_estimate (g_stats s),
     nonce_candidates_issued (g_stats s), active_nonce_count (g_stats s), g_range_active s)"

text \<open>
  A run into the interrupt race: the instances assert their interrupt (here through the force bit
  of \<open>IRQ_CONTROL\<close>, which needs no mining job), and the second interrupt is taken when the worker
  has unmasked instance 0 and not yet the others.
\<close>

definition race_labels :: "svc_label list" where
  "race_labels =
     [Worker, Irq, Worker, Worker, Worker, Worker, Worker, Worker, Worker, Worker, Irq, Worker, Worker]"

definition race_start :: svc_sys where
  "race_start =
     \<lparr>sys_svc = the (miner_service_start
         ((demo_hw [])\<lparr>hw_bus := (reset_bus [])\<lparr>insts :=
            replicate MINER_AXI_INSTANCES (reset_inst\<lparr>irq_force_q := True\<rparr>)\<rparr>\<rparr>)
         \<lparr>g_status_led_state = 0, led_gpio_data = 0\<rparr>
         [\<lparr>req_job = zero_job, req_clean_job = False\<rparr>]
         (replicate 8 \<lparr>ev_result = zero_result, ev_job = zero_job\<rparr>)),
      sys_pc = W_Enter, sys_read = [], sys_taken = []\<rparr>"

text \<open>
  A run with a result: the console starts a range of four nonces from 5, engine 0 of the first instance is
  loaded, its nonce meets the target and is latched while the status is read.
\<close>

definition found_labels :: "svc_label list" where
  "found_labels = [Worker, StartRange 5 4, ReadStatus, Irq, Worker, Worker, Worker]"

definition found_start :: svc_sys where
  "found_start =
     \<lparr>sys_svc = the (miner_service_start
         (demo_hw (replicate 32 \<lparr>tick_events = [], tick_coincide = False\<rparr> @
           [\<lparr>tick_events = [(0, LoadEngine), (0, Scan 0 Hit), (0, Latch 0)], tick_coincide = False\<rparr>]))
         \<lparr>g_status_led_state = 0, led_gpio_data = 0\<rparr>
         [\<lparr>req_job = zero_job, req_clean_job = False\<rparr>]
         (replicate 8 \<lparr>ev_result = zero_result, ev_job = zero_job\<rparr>)),
      sys_pc = W_Enter, sys_read = [], sys_taken = []\<rparr>"

text \<open>A drained miner in whose FIFO a candidate waits; it is latched while the worker clears.\<close>

definition lost_hw :: miner_hw where
  "lost_hw = (demo_hw [])\<lparr>hw_bus :=
     (reset_bus (replicate 4 \<lparr>tick_events = [], tick_coincide = False\<rparr> @
                 [\<lparr>tick_events = [(0, Latch 0)], tick_coincide = False\<rparr>]))\<lparr>insts :=
        reset_inst\<lparr>fifo_q := [(77, 5)]\<rparr> # replicate 3 reset_inst\<rparr>\<rparr>"


subsection \<open>What the operations touch\<close>

lemma svc_running_eq:
  "svc_running s = (fst (miner_status (svc_hw s)) AND MINER_STATUS_RUNNING \<noteq> 0,
                    s\<lparr>svc_hw := snd (miner_status (svc_hw s))\<rparr>)"
  by (simp add: svc_running_def split_beta Let_def)

lemma finish_range_frame:
  "svc_hw (miner_finish_range r s) = svc_hw s"
  "g_job_queue (miner_finish_range r s) = g_job_queue s"
  "g_result_queue (miner_finish_range r s) = g_result_queue s"
  "g_irq_sem (miner_finish_range r s) = g_irq_sem s"
  "g_result_lock (miner_finish_range r s) = g_result_lock s"
  "g_irq_masked (miner_finish_range r s) = g_irq_masked s"
  "irq_installed (miner_finish_range r s) = irq_installed s"
  "result_count (g_stats (miner_finish_range r s)) = result_count (g_stats s)"
  "result_queue_drops (g_stats (miner_finish_range r s)) = result_queue_drops (g_stats s)"
  "\<not> g_range_active (miner_finish_range r s)"
  by (simp_all add: miner_finish_range_def Let_def)

lemma settle_frame:
  "svc_hw (miner_task_settle q s) \<in> {svc_hw s, snd (miner_status (svc_hw s))}"
  "g_job_queue (miner_task_settle q s) = g_job_queue s"
  "g_result_queue (miner_task_settle q s) = g_result_queue s"
  "g_irq_sem (miner_task_settle q s) = g_irq_sem s"
  "g_result_lock (miner_task_settle q s) = g_result_lock s"
  "g_irq_masked (miner_task_settle q s) = g_irq_masked s"
  "irq_installed (miner_task_settle q s) = irq_installed s"
  "result_count (g_stats (miner_task_settle q s)) = result_count (g_stats s)"
  "result_queue_drops (g_stats (miner_task_settle q s)) = result_queue_drops (g_stats s)"
  "\<not> g_range_active (miner_task_settle q s)"
  by (simp_all add: miner_task_settle_def svc_running_eq upd_stats_def finish_range_frame Let_def)

lemma begin_frame:
  "svc_hw (miner_task_begin j s) =
     miner_start_range (job_nonce_start j) (job_nonce_count j)
       (miner_program_job (job_midstate j) (job_header_tail j) (job_target j) (svc_hw s))"
  "g_job_queue (miner_task_begin j s) = g_job_queue s"
  "g_result_queue (miner_task_begin j s) = g_result_queue s"
  "g_irq_sem (miner_task_begin j s) = g_irq_sem s"
  "g_result_lock (miner_task_begin j s) = g_result_lock s"
  "g_irq_masked (miner_task_begin j s) = g_irq_masked s"
  "irq_installed (miner_task_begin j s) = irq_installed s"
  "result_count (g_stats (miner_task_begin j s)) = result_count (g_stats s)"
  "result_queue_drops (g_stats (miner_task_begin j s)) = result_queue_drops (g_stats s)"
  by (simp_all add: miner_task_begin_def upd_stats_def Let_def)

lemma task_job_frame:
  "g_job_queue (miner_task_job s) = snd (xQueueReceive (g_job_queue s))"
  "g_result_queue (miner_task_job s) = g_result_queue s"
  "g_irq_sem (miner_task_job s) = g_irq_sem s"
  "g_result_lock (miner_task_job s) = g_result_lock s"
  "g_irq_masked (miner_task_job s) = g_irq_masked s"
  "irq_installed (miner_task_job s) = irq_installed s"
  "result_count (g_stats (miner_task_job s)) = result_count (g_stats s)"
  "result_queue_drops (g_stats (miner_task_job s)) = result_queue_drops (g_stats s)"
  by (simp_all add: miner_task_job_def svc_running_eq begin_frame settle_frame finish_range_frame
      Let_def split: prod.split option.split)

lemma settle_masks: "hw_masks (svc_hw s) ms \<Longrightarrow> hw_masks (svc_hw (miner_task_settle q s)) ms"
  using settle_frame(1)[of q s] by (auto simp: driver_masks)

lemma task_job_masks: "hw_masks (svc_hw s) ms \<Longrightarrow> hw_masks (svc_hw (miner_task_job s)) ms"
  by (simp add: miner_task_job_def svc_running_eq begin_frame finish_range_frame Let_def
      driver_masks settle_masks split: prod.split option.split)

lemma deliver_frame:
  assumes "lock_ok (g_result_lock s)"
  shows "svc_hw (miner_task_deliver r s) = svc_hw s"
    "g_job_queue (miner_task_deliver r s) = g_job_queue s"
    "g_irq_sem (miner_task_deliver r s) = g_irq_sem s"
    "lock_ok (g_result_lock (miner_task_deliver r s))"
    "g_irq_masked (miner_task_deliver r s) = g_irq_masked s"
    "irq_installed (miner_task_deliver r s) = irq_installed s"
    "g_range_active (miner_task_deliver r s) = g_range_active s"
    "result_count (g_stats (miner_task_deliver r s)) = result_count (g_stats s) + 1"
  using assms
  by (auto simp: miner_task_deliver_def upd_stats_def lock_ok_def xSemaphoreTake_def
      xSemaphoreGive_def Let_def split_beta)

text \<open>A delivered event goes to the back of the result queue, or is counted as dropped.\<close>

lemma deliver_queue:
  fixes r :: miner_result
  assumes "queue_ok (g_result_queue s)"
  defines "e \<equiv> \<lparr>ev_result = r, ev_job = (if g_have_active_job s then g_active_job s else zero_job)\<rparr>"
  shows "queue_ok (g_result_queue (miner_task_deliver r s))"
    "uxLength (g_result_queue (miner_task_deliver r s)) = uxLength (g_result_queue s)"
    "queue_items (g_result_queue (miner_task_deliver r s)) =
       queue_items (g_result_queue s) @
         (if length (queue_items (g_result_queue s)) < uxLength (g_result_queue s) then [e] else [])"
    "result_queue_drops (g_stats (miner_task_deliver r s)) = result_queue_drops (g_stats s) +
       (if length (queue_items (g_result_queue s)) < uxLength (g_result_queue s) then 0 else 1)"
proof -
  have q: "g_result_queue (miner_task_deliver r s) =
      snd (xQueueGenericSend e queueSEND_TO_BACK (g_result_queue s))"
    and d: "result_queue_drops (g_stats (miner_task_deliver r s)) = result_queue_drops (g_stats s) +
       (if fst (xQueueGenericSend e queueSEND_TO_BACK (g_result_queue s)) then 0 else 1)"
    by (auto simp: miner_task_deliver_def upd_stats_def e_def Let_def split_beta)
  show "queue_ok (g_result_queue (miner_task_deliver r s))"
    "uxLength (g_result_queue (miner_task_deliver r s)) = uxLength (g_result_queue s)"
    "queue_items (g_result_queue (miner_task_deliver r s)) =
       queue_items (g_result_queue s) @
         (if length (queue_items (g_result_queue s)) < uxLength (g_result_queue s) then [e] else [])"
    using rq.send_ok[OF assms(1)] rq.send_items[OF assms(1)] by (simp_all add: q)
  show "result_queue_drops (g_stats (miner_task_deliver r s)) = result_queue_drops (g_stats s) +
       (if length (queue_items (g_result_queue s)) < uxLength (g_result_queue s) then 0 else 1)"
    using rq.send_flag[OF assms(1)] by (simp add: d)
qed


subsection \<open>Ranges are counted once\<close>

lemma finish_range_balanced: "ranges_balanced s \<Longrightarrow> ranges_balanced (miner_finish_range r s)"
  by (simp add: ranges_balanced_def miner_finish_range_def Let_def ac_simps)

lemma settle_balanced: "ranges_balanced s \<Longrightarrow> ranges_balanced (miner_task_settle q s)"
  using finish_range_balanced[of s] finish_range_balanced[of "snd (svc_running s)"]
  by (auto simp: miner_task_settle_def svc_running_eq upd_stats_def ranges_balanced_def
      finish_range_frame Let_def split: if_splits)

lemma begin_balanced:
  "ranges_balanced s \<Longrightarrow> \<not> g_range_active s \<Longrightarrow> ranges_balanced (miner_task_begin j s)"
  by (simp add: ranges_balanced_def miner_task_begin_def upd_stats_def Let_def)

lemma balanced_cong:
  "jobs_started (g_stats s) = jobs_started (g_stats t) \<Longrightarrow>
   ranges_completed (g_stats s) = ranges_completed (g_stats t) \<Longrightarrow>
   ranges_preempted (g_stats s) = ranges_preempted (g_stats t) \<Longrightarrow>
   ranges_stopped (g_stats s) = ranges_stopped (g_stats t) \<Longrightarrow>
   g_range_active s = g_range_active t \<Longrightarrow> ranges_balanced t \<Longrightarrow> ranges_balanced s"
  by (simp add: ranges_balanced_def)

lemma task_job_balanced:
  assumes "ranges_balanced s" shows "ranges_balanced (miner_task_job s)"
proof -
  have b: "ranges_balanced (s\<lparr>g_job_queue := q\<rparr>)" "ranges_balanced (s\<lparr>g_job_queue := q, svc_hw := h\<rparr>)" for q h
    using assms by (simp_all add: ranges_balanced_def)
  show ?thesis
    using b begin_balanced[OF settle_balanced[OF b(1)]] finish_range_balanced[OF b(2)]
    by (auto simp: miner_task_job_def svc_running_eq settle_frame Let_def split: prod.split option.split)
qed


subsection \<open>The structural invariant\<close>

lemma hw_masks_self: "hw_ok hw \<Longrightarrow> hw_masks hw (\<lambda>i. irq_mask_q (hw_inst hw i))"
  by (simp add: hw_masks_def)

lemmas driver_ok = driver_masks[OF hw_masks_self, unfolded hw_masks_def, THEN conjunct1]

lemma task_job_ok: "hw_ok (svc_hw s) \<Longrightarrow> hw_ok (svc_hw (miner_task_job s))"
  using task_job_masks[OF hw_masks_self] by (simp add: hw_masks_def)

lemma enter_hw_ok:
  assumes "bus_ok (hw_bus (svc_hw s))"
  shows "hw_ok (svc_hw (miner_task_enter s))"
    and "i < MINER_AXI_INSTANCES \<Longrightarrow> \<not> irq_mask_q (hw_inst (svc_hw (miner_task_enter s)) i)"
proof -
  have "hw_ok (miner_clear (miner_stop ((svc_hw s)\<lparr>g_miner_base := MINER_AXI_BASEADDR\<rparr>)))"
    using assms by (intro driver_ok) (simp add: hw_ok_def)
  then have "hw_ok (miner_init MINER_AXI_BASEADDR (svc_hw s))" by (simp add: miner_init_def)
  from irq_rmw_fold[OF this order_refl, of False]
  show "hw_ok (svc_hw (miner_task_enter s))"
    "i < MINER_AXI_INSTANCES \<Longrightarrow> \<not> irq_mask_q (hw_inst (svc_hw (miner_task_enter s)) i)"
    by (simp_all add: miner_task_enter_def miner_install_irq_def unmask_all_rmw)
qed

lemma sem_ops_ok:
  "irq_sem_ok m \<Longrightarrow> irq_sem_ok (snd (xQueueGiveFromISR m))"
  "irq_sem_ok m \<Longrightarrow> irq_sem_ok (snd (xSemaphoreTake t m))"
  "lock_ok m \<Longrightarrow> lock_ok (snd (xSemaphoreGive (snd (xSemaphoreTake t m))))"
  "lock_ok m \<Longrightarrow> fst (xSemaphoreTake t m)"
  by (simp_all add: irq_sem_ok_def lock_ok_def xQueueGiveFromISR_def xSemaphoreTake_def
      xSemaphoreGive_def)

lemma submit_queue:
  assumes "queue_ok (g_job_queue s)" "uxLength (g_job_queue s) = 1"
  shows "queue_ok (g_job_queue (miner_service_submit_job (Some j) c s))"
    "uxLength (g_job_queue (miner_service_submit_job (Some j) c s)) = 1"
    "queue_items (g_job_queue (miner_service_submit_job (Some j) c s)) = [\<lparr>req_job = j, req_clean_job = c\<rparr>]"
  using overwrite_one[OF assms, of "\<lparr>req_job = j, req_clean_job = c\<rparr>"] assms(2)
  by (simp_all add: miner_service_submit_job_def upd_stats_def xQueueGenericSend_def)
    (simp add: prvCopyDataToQueue_def Let_def)

lemma drain_step_eq:
  "miner_task_drain_step s =
     (case fst (miner_read_result (svc_hw s)) of
        None \<Rightarrow> (False, s\<lparr>svc_hw := snd (miner_read_result (svc_hw s))\<rparr>)
      | Some r \<Rightarrow> (True, miner_task_deliver r (s\<lparr>svc_hw := snd (miner_read_result (svc_hw s))\<rparr>)))"
  by (simp add: miner_task_drain_step_def split_beta Let_def)

lemma drain_step_ok: "svc_ok s \<Longrightarrow> svc_ok (snd (miner_task_drain_step s))"
  by (simp add: drain_step_eq svc_ok_def deliver_frame deliver_queue split: option.split)

lemma drain_step_frame:
  assumes "svc_ok s"
  shows "svc_hw (snd (miner_task_drain_step s)) = snd (miner_read_result (svc_hw s))"
    "irq_installed (snd (miner_task_drain_step s)) = irq_installed s"
    "g_irq_masked (snd (miner_task_drain_step s)) = g_irq_masked s"
    "g_irq_sem (snd (miner_task_drain_step s)) = g_irq_sem s"
  using assms by (simp_all add: drain_step_eq svc_ok_def deliver_frame split: option.split)

lemma irq_reg_access:
  assumes "hw_ok hw" "i < MINER_AXI_INSTANCES"
  shows "hw_ok (snd (miner_read_reg_instance i MINER_REG_IRQ_CONTROL hw))"
    and "hw_ok (miner_write_reg_instance i MINER_REG_IRQ_CONTROL v hw)"
    and "j < MINER_AXI_INSTANCES \<Longrightarrow>
      irq_mask_q (hw_inst (snd (miner_read_reg_instance i MINER_REG_IRQ_CONTROL hw)) j) =
      irq_mask_q (hw_inst hw j)"
    and "j < MINER_AXI_INSTANCES \<Longrightarrow>
      irq_mask_q (hw_inst (miner_write_reg_instance i MINER_REG_IRQ_CONTROL v hw) j) =
      (if j = i then bit v 0 else irq_mask_q (hw_inst hw j))"
  using assms hw_tick_ok[OF assms(1)] hw_tick_cfg[OF assms(1), of j]
  by (simp_all add: miner_read_instance miner_write_ok hw_inst_write reg_defs inst_cfg_def
      inst_write_def coincide_finish_def write_reg_fields)

lemma handler_hw:
  "svc_hw (miner_irq_handler s) =
     (if g_irq_masked s then svc_hw s else miner_irq_mask_all (svc_hw s))"
  "g_irq_masked (miner_irq_handler s)"
  "irq_installed (miner_irq_handler s) = irq_installed s"
  "g_job_queue (miner_irq_handler s) = g_job_queue s"
  "g_result_queue (miner_irq_handler s) = g_result_queue s"
  "g_result_lock (miner_irq_handler s) = g_result_lock s"
  "g_irq_sem (miner_irq_handler s) = snd (xQueueGiveFromISR (g_irq_sem s))"
  by (simp_all add: miner_irq_handler_def upd_stats_def Let_def)

lemma handler_ok: "hw_ok (svc_hw s) \<Longrightarrow> hw_ok (svc_hw (miner_irq_handler s))"
  using irq_rmw_fold[OF _ order_refl, of "svc_hw s" True] by (simp add: handler_hw mask_all_rmw)

lemma get_last_result_ok: "svc_ok s \<Longrightarrow> svc_ok (snd (miner_service_get_last_result t s))"
  using sem_ops_ok(3,4)[of "g_result_lock s" t]
  by (auto simp: svc_ok_def miner_service_get_last_result_def split_beta Let_def)

lemma clear_svc_ok: "svc_ok s \<Longrightarrow> svc_ok (miner_service_clear t s)"
  using sem_ops_ok(3,4)[of "g_result_lock s" t]
  by (auto simp: svc_ok_def miner_service_clear_def split_beta Let_def)

lemma take_result_eq:
  "snd (miner_service_take_result s) = s\<lparr>g_result_queue := snd (xQueueReceive (g_result_queue s))\<rparr>"
  "fst (miner_service_take_result s) =
     map_option (\<lambda>e. (ev_result e, ev_job e)) (fst (xQueueReceive (g_result_queue s)))"
  by (simp_all add: miner_service_take_result_def split: prod.split option.split)

lemma status_eq:
  "svc_hw (snd (miner_service_status s)) = snd (miner_status (svc_hw s))"
  "svc_ok (snd (miner_service_status s)) = svc_ok s"
  "irq_installed (snd (miner_service_status s)) = irq_installed s"
  "g_irq_masked (snd (miner_service_status s)) = g_irq_masked s"
  "g_irq_sem (snd (miner_service_status s)) = g_irq_sem s"
  "g_result_queue (snd (miner_service_status s)) = g_result_queue s"
  by (simp_all add: miner_service_status_def upd_stats_def svc_ok_def split_beta Let_def)

lemma api_frame:
  "svc_hw (miner_service_submit_job j c s) = svc_hw s"
  "irq_installed (miner_service_submit_job j c s) = irq_installed s"
  "g_irq_masked (miner_service_submit_job j c s) = g_irq_masked s"
  "g_irq_sem (miner_service_submit_job j c s) = g_irq_sem s"
  "g_result_queue (miner_service_submit_job j c s) = g_result_queue s"
  "g_result_lock (miner_service_submit_job j c s) = g_result_lock s"
  "svc_hw (miner_service_clear t s) = miner_clear (svc_hw s)"
  "irq_installed (miner_service_clear t s) = irq_installed s"
  "g_irq_masked (miner_service_clear t s) = g_irq_masked s"
  "g_irq_sem (miner_service_clear t s) = g_irq_sem s"
  "g_result_queue (miner_service_clear t s) = g_result_queue s"
  "svc_hw (snd (miner_service_get_last_result t s)) = svc_hw s"
  "irq_installed (snd (miner_service_get_last_result t s)) = irq_installed s"
  "g_irq_masked (snd (miner_service_get_last_result t s)) = g_irq_masked s"
  "g_irq_sem (snd (miner_service_get_last_result t s)) = g_irq_sem s"
  "g_result_queue (snd (miner_service_get_last_result t s)) = g_result_queue s"
  "g_stats (miner_service_clear t s) = g_stats s"
  "g_stats (snd (miner_service_get_last_result t s)) = g_stats s"
  by (simp_all add: miner_service_submit_job_def miner_service_clear_def upd_stats_def
      miner_service_get_last_result_def split_beta Let_def split: option.split)

lemma svc_ok_tick:
  "svc_ok (s\<lparr>xTickCount := n\<rparr>) = svc_ok s"
  "svc_ok (s\<lparr>svc_leds := l\<rparr>) = svc_ok s"
  "svc_ok (s\<lparr>svc_hw := h\<rparr>) = svc_ok s"
  by (simp_all add: svc_ok_def)

lemma worker_pc_enter: "fst (worker_step pc s) \<noteq> W_Enter"
  by (cases pc) (simp_all add: split_beta Let_def)

lemma worker_base:
  assumes "base_inv y"
  defines "r \<equiv> worker_step (sys_pc y) (sys_svc y)"
  shows "svc_ok (snd r) \<and> pc_ok (fst r) \<and> hw_ok (svc_hw (snd r)) \<and> irq_installed (snd r)"
proof -
  have ok: "svc_ok (sys_svc y)" and pc: "pc_ok (sys_pc y)" and en: "entered y"
    using assms by (simp_all add: base_inv_def)
  show ?thesis
  proof (cases "sys_pc y")
    case W_Enter
    then show ?thesis
      using ok en enter_hw_ok[of "sys_svc y"]
      by (simp add: r_def entered_def svc_ok_def pc_ok_def)
        (simp add: miner_task_enter_def miner_install_irq_def)
  next
    case W_Queue
    then show ?thesis
      using ok en rq.receive_ok[of "g_job_queue (sys_svc y)"]
      by (simp add: r_def entered_def svc_ok_def pc_ok_def task_job_frame task_job_ok)
  next
    case W_Sem
    then show ?thesis
      using ok en sem_ops_ok(2)[of "g_irq_sem (sys_svc y)" MinerTask]
      by (simp add: r_def entered_def svc_ok_def pc_ok_def split_beta Let_def)
  next
    case W_Drain
    then show ?thesis
      using ok en by (simp add: r_def entered_def pc_ok_def drain_step_ok drain_step_frame driver_ok
          split_beta Let_def)
  next
    case (W_UnmaskRead i)
    then show ?thesis
      using ok en irq_reg_access(1)[of "svc_hw (sys_svc y)" i]
      by (simp add: r_def entered_def svc_ok_def pc_ok_def split_beta)
  next
    case (W_UnmaskWrite i v)
    then show ?thesis
      using ok en pc irq_reg_access(2)[of "svc_hw (sys_svc y)" i]
      by (simp add: r_def entered_def svc_ok_def pc_ok_def)
  qed (use ok en in \<open>simp_all add: r_def entered_def svc_ok_def pc_ok_def driver_ok\<close>)
qed

lemma base_step:
  assumes "base_inv y" "svc_step l y = Some y'"
  shows "base_inv y'"
proof (cases l)
  case Worker
  then show ?thesis
    using worker_base[OF assms(1)] worker_pc_enter[of "sys_pc y" "sys_svc y"] assms(2)
    by (auto simp: base_inv_def entered_def split_beta Let_def)
next
  case Irq
  then show ?thesis
    using assms handler_ok[of "sys_svc y"] sem_ops_ok(1)[of "g_irq_sem (sys_svc y)"]
    by (auto simp: base_inv_def entered_def svc_ok_def handler_hw split: if_splits)
next
  case (Submit j c)
  then show ?thesis
    using assms submit_queue[of "sys_svc y" j c]
    by (auto simp: base_inv_def entered_def svc_ok_def api_frame split: if_splits)
next
  case StopScan
  then show ?thesis
    using assms
    by (auto simp: base_inv_def entered_def svc_ok_def miner_service_stop_scan_def driver_ok
        split: if_splits)
next
  case TakeResult
  then show ?thesis
    using assms rq.receive_ok[of "g_result_queue (sys_svc y)"]
    by (auto simp: base_inv_def entered_def svc_ok_def take_result_eq split_beta Let_def
        split: if_splits)
qed (use assms in \<open>auto simp: base_inv_def entered_def clear_svc_ok get_last_result_ok status_eq
  api_frame driver_ok svc_ok_tick split: if_splits\<close>)

lemma start_ok:
  assumes "miner_service_start hw leds jst rst = Some s" "length jst = 1" "length rst = 8"
  shows "svc_ok s" "svc_hw s = hw" "\<not> irq_installed s" "\<not> g_irq_masked s" "g_stats s = zero_stats"
    "\<not> g_range_active s" "queue_items (g_result_queue s) = []" "sem_count (g_irq_sem s) = 0"
  using assms queue_items_create[of 1 jst] queue_items_create[of 8 rst]
  by (auto simp: miner_service_start_def svc_ok_def irq_sem_ok_def lock_ok_def
      xSemaphoreCreateBinary_def xSemaphoreCreateMutex_def xSemaphoreGive_def split: option.splits)

lemma reachable_base: "svc_reachable y \<Longrightarrow> base_inv y"
proof (induction rule: svc_reachable.induct)
  case (svc_init hw leds jst rst s)
  then show ?case using start_ok[OF svc_init(1,3,4)] by (simp add: base_inv_def pc_ok_def entered_def)
next
  case (svc_next y l y')
  then show ?case using base_step by blast
qed


subsection \<open>Accounting\<close>

lemma deliver_balanced: "ranges_balanced s \<Longrightarrow> ranges_balanced (miner_task_deliver r s)"
  by (rule balanced_cong[of _ s])
    (simp_all add: miner_task_deliver_def upd_stats_def split_beta Let_def)

lemma worker_balanced:
  assumes "ranges_balanced s" shows "ranges_balanced (snd (worker_step pc s))"
proof (cases pc)
  case W_Queue
  then show ?thesis using task_job_balanced[OF assms] by simp
next
  case W_Drain
  have "ranges_balanced (s\<lparr>svc_hw := h\<rparr>)" for h using assms by (simp add: ranges_balanced_def)
  then show ?thesis using W_Drain
    by (simp add: drain_step_eq split_beta Let_def deliver_balanced split: option.split)
qed (use assms in \<open>simp_all add: ranges_balanced_def miner_task_enter_def miner_install_irq_def
    split_beta Let_def\<close>)

lemma api_balanced:
  "ranges_balanced s \<Longrightarrow> ranges_balanced (miner_irq_handler s)"
  "ranges_balanced s \<Longrightarrow> ranges_balanced (miner_service_submit_job j c s)"
  "ranges_balanced s \<Longrightarrow> ranges_balanced (miner_service_stop_scan s)"
  "ranges_balanced s \<Longrightarrow> ranges_balanced (miner_service_clear t s)"
  "ranges_balanced s \<Longrightarrow> ranges_balanced (snd (miner_service_status s))"
  "ranges_balanced s \<Longrightarrow> ranges_balanced (snd (miner_service_get_last_result t s))"
  "ranges_balanced s \<Longrightarrow> ranges_balanced (snd (miner_service_take_result s))"
  "ranges_balanced s \<Longrightarrow> ranges_balanced (s\<lparr>xTickCount := n\<rparr>)"
  "ranges_balanced s \<Longrightarrow> ranges_balanced (s\<lparr>svc_leds := l\<rparr>)"
  "ranges_balanced s \<Longrightarrow> ranges_balanced (s\<lparr>svc_hw := h\<rparr>)"
  by (simp_all add: ranges_balanced_def miner_irq_handler_def miner_service_submit_job_def
      miner_service_stop_scan_def miner_service_clear_def miner_service_status_def upd_stats_def
      miner_service_get_last_result_def take_result_eq split_beta Let_def split: option.split)

lemma reachable_ranges: "svc_reachable y \<Longrightarrow> ranges_balanced (sys_svc y)"
proof (induction rule: svc_reachable.induct)
  case (svc_init hw leds jst rst s)
  then show ?case using start_ok[OF svc_init(1,3,4)] by (simp add: ranges_balanced_def zero_stats_def)
next
  case (svc_next y l y')
  then show ?case
    by (cases l) (auto simp: worker_balanced api_balanced split_beta Let_def split: if_splits)
qed

lemma worker_results:
  assumes "base_inv y" "results_balanced y" "svc_step Worker y = Some y'"
  shows "results_balanced y'"
proof (cases "sys_pc y")
  case W_Drain
  let ?s = "(sys_svc y)\<lparr>svc_hw := snd (miner_read_result (svc_hw (sys_svc y)))\<rparr>"
  have q: "queue_ok (g_result_queue ?s)" and l: "lock_ok (g_result_lock ?s)" and n: "uxLength (g_result_queue (sys_svc y)) = 8"
    using assms(1) by (simp_all add: base_inv_def svc_ok_def)
  show ?thesis
    using assms(2,3) W_Drain deliver_queue(3,4)[OF q] deliver_frame(8)[OF l] n
    by (auto simp: results_balanced_def drain_step_eq result_read_def Let_def split: option.splits if_splits)
next
  case W_Queue
  then show ?thesis using assms(2,3) by (auto simp: results_balanced_def result_read_def task_job_frame)
qed (use assms(2,3) in \<open>auto simp: results_balanced_def result_read_def miner_task_enter_def miner_install_irq_def
    split_beta Let_def\<close>)

lemma handler_stats:
  "result_count (g_stats (miner_irq_handler s)) = result_count (g_stats s)"
  "result_queue_drops (g_stats (miner_irq_handler s)) = result_queue_drops (g_stats s)"
  "result_count (g_stats (miner_service_submit_job j c s)) = result_count (g_stats s)"
  "result_queue_drops (g_stats (miner_service_submit_job j c s)) = result_queue_drops (g_stats s)"
  "result_count (g_stats (snd (miner_service_status s))) = result_count (g_stats s)"
  "result_queue_drops (g_stats (snd (miner_service_status s))) = result_queue_drops (g_stats s)"
  by (simp_all add: miner_irq_handler_def miner_service_submit_job_def miner_service_status_def
      upd_stats_def split_beta Let_def split: option.split)

lemma take_results:
  assumes "base_inv y" "results_balanced y" "svc_step TakeResult y = Some y'"
  shows "results_balanced y'"
proof -
  have q: "queue_ok (g_result_queue (sys_svc y))" using assms(1) by (simp add: base_inv_def svc_ok_def)
  show ?thesis
    using assms(2,3) rq.receive_Nil[OF q] rq.receive_Cons[OF q]
    by (cases "queue_items (g_result_queue (sys_svc y))")
      (auto simp: results_balanced_def take_result_eq split_beta Let_def split: if_splits)
qed

lemma reachable_results: "svc_reachable y \<Longrightarrow> results_balanced y"
proof (induction rule: svc_reachable.induct)
  case (svc_init hw leds jst rst s)
  then show ?case using start_ok[OF svc_init(1,3,4)] by (simp add: results_balanced_def zero_stats_def)
next
  case (svc_next y l y')
  note base = reachable_base[OF svc_next(1)]
  show ?case
  proof (cases l)
    case Worker
    then show ?thesis using worker_results[OF base svc_next(3)] svc_next(2) by simp
  next
    case TakeResult
    then show ?thesis using take_results[OF base svc_next(3)] svc_next(2) by simp
  qed (use svc_next in \<open>auto simp: results_balanced_def handler_hw handler_stats api_frame status_eq
      miner_service_stop_scan_def split: if_splits\<close>)
qed


subsection \<open>Interrupts are not lost\<close>

lemma masks_keep:
  assumes "hw_ok hw" "\<And>ms. hw_masks hw ms \<Longrightarrow> hw_masks hw' ms" "i < MINER_AXI_INSTANCES"
  shows "irq_mask_q (hw_inst hw' i) = irq_mask_q (hw_inst hw i)"
  using assms(2)[OF hw_masks_self[OF assms(1)]] assms(3) by (simp add: hw_masks_def)

lemma irq_not_lost_keep:
  assumes "irq_not_lost y" "entered y" "sys_pc y \<noteq> W_Enter"
    and "\<And>ms. hw_masks (svc_hw (sys_svc y)) ms \<Longrightarrow> hw_masks (svc_hw (sys_svc y')) ms"
    and "g_irq_masked (sys_svc y') = g_irq_masked (sys_svc y)"
    and "\<And>i. unmask_pending (sys_pc y) i \<Longrightarrow> unmask_pending (sys_pc y') i"
    and "will_rearm y \<Longrightarrow> g_irq_masked (sys_svc y) \<Longrightarrow> will_rearm y'"
  shows "irq_not_lost y'"
proof -
  have "hw_ok (svc_hw (sys_svc y))" using assms(2,3) by (simp add: entered_def)
  note keep = masks_keep[OF this assms(4)]
  show ?thesis using assms by (auto simp: irq_not_lost_def keep)
qed

lemma worker_irq:
  assumes "base_inv y" "irq_not_lost y" "svc_step Worker y = Some y'"
  shows "irq_not_lost y'"
proof -
  let ?hw = "svc_hw (sys_svc y)"
  have en: "entered y" and ok: "svc_ok (sys_svc y)" and pc: "pc_ok (sys_pc y)"
    using assms(1) by (simp_all add: base_inv_def)
  have hw: "hw_ok ?hw" if "sys_pc y \<noteq> W_Enter" using en that by (simp add: entered_def)
  note keep = irq_not_lost_keep[OF assms(2) en]
  show ?thesis
  proof (cases "sys_pc y")
    case W_Enter
    then show ?thesis
      using assms(3) en enter_hw_ok(2)[of "sys_svc y"]
      by (auto simp: irq_not_lost_def entered_def Let_def)
        (simp add: miner_task_enter_def miner_install_irq_def)
  next
    case W_Queue
    show ?thesis
      by (rule keep) (use assms(3) W_Queue in \<open>auto simp: task_job_masks task_job_frame will_rearm_def
          unmask_pending_def Let_def\<close>)
  next
    case W_Sem
    show ?thesis
      by (rule keep) (use assms(3) W_Sem in \<open>auto simp: will_rearm_def unmask_pending_def
          xSemaphoreTake_def Let_def split_beta split: if_splits\<close>)
  next
    case W_Drain
    show ?thesis
      by (rule keep) (use assms(3) W_Drain ok in \<open>auto simp: drain_step_frame driver_masks will_rearm_def
          unmask_pending_def split_beta Let_def split: if_splits\<close>)
  next
    case W_Check
    show ?thesis
      by (rule keep) (use assms(3) W_Check in \<open>auto simp: will_rearm_def unmask_pending_def Let_def\<close>)
  next
    case W_Clear
    show ?thesis
      by (rule keep) (use assms(3) W_Clear in \<open>auto simp: driver_masks will_rearm_def
          unmask_pending_def Let_def\<close>)
  next
    case W_Flag
    then show ?thesis using assms(2,3) by (auto simp: irq_not_lost_def unmask_pending_def Let_def)
  next
    case (W_UnmaskRead i)
    then show ?thesis
      using assms(2,3) pc hw irq_reg_access(3)[of ?hw i]
      by (auto simp: irq_not_lost_def will_rearm_def unmask_pending_def pc_ok_def split_beta Let_def
          split: if_splits)
  next
    case (W_UnmaskWrite i v)
    then show ?thesis
      using assms(2,3) pc hw irq_reg_access(4)[of ?hw i]
      by (auto simp: irq_not_lost_def will_rearm_def unmask_pending_def pc_ok_def bit_and_iff bit_not_iff
          reg_bit_defs split: if_splits)
  qed
qed

lemma reachable_irq: "svc_reachable y \<Longrightarrow> irq_not_lost y"
proof (induction rule: svc_reachable.induct)
  case (svc_init hw leds jst rst s)
  then show ?case using start_ok[OF svc_init(1,3,4)] by (simp add: irq_not_lost_def)
next
  case (svc_next y l y')
  note base = reachable_base[OF svc_next(1)]
  then have en: "entered y" and sem: "irq_sem_ok (g_irq_sem (sys_svc y))"
    by (simp_all add: base_inv_def svc_ok_def)
  have run: "sys_pc y \<noteq> W_Enter" if "irq_installed (sys_svc y)"
    using en that by (auto simp: entered_def)
  note keep = irq_not_lost_keep[OF svc_next(3) en]
  show ?case
  proof (cases l)
    case Worker
    then show ?thesis using worker_irq[OF base svc_next(3)] svc_next(2) by simp
  next
    case Irq
    then show ?thesis
      using svc_next(2) sem
      by (auto simp: irq_not_lost_def handler_hw will_rearm_def irq_sem_ok_def xQueueGiveFromISR_def
          split: if_splits)
  next
    case ClockTick
    then show ?thesis
      using svc_next(2,3) by (auto simp: irq_not_lost_def will_rearm_def)
  qed (rule keep; use svc_next(2) run in \<open>auto simp: driver_masks api_frame status_eq take_result_eq
      miner_service_stop_scan_def will_rearm_def split_beta Let_def split: if_splits\<close>)+
qed


subsection \<open>The drain ends\<close>

lemma drain_ends:
  assumes "svc_ok s" "hw_ok (svc_hw s)"
    and "5 * fabric_left (svc_hw s) + card (results_held (svc_hw s)) < n"
  shows "\<exists>s'. miner_task_drain n s = Some s' \<and> svc_ok s' \<and> hw_ok (svc_hw s')"
  using assms
proof (induction n arbitrary: s)
  case (Suc n)
  let ?s1 = "snd (miner_task_drain_step s)"
  have ok: "svc_ok ?s1" "hw_ok (svc_hw ?s1)"
    using Suc.prems by (simp_all add: drain_step_ok drain_step_frame driver_ok)
  show ?case
  proof (cases "fst (miner_read_result (svc_hw s))")
    case None
    then show ?thesis using ok by (simp add: split_beta Let_def drain_step_eq)
  next
    case (Some r)
    then have "miner_read_result (svc_hw s) = (Some r, svc_hw ?s1)"
      using drain_step_frame(1)[OF Suc.prems(1)] by (simp add: prod_eq_iff)
    from read_result_decreases[OF Suc.prems(2) this]
    have "5 * fabric_left (svc_hw ?s1) + card (results_held (svc_hw ?s1)) < n"
      using Suc.prems(3) by simp
    then show ?thesis using Suc.IH[OF ok] Some by (simp add: split_beta Let_def drain_step_eq)
  qed
qed simp


subsection \<open>The completion estimate\<close>

lemma unat_ucast64: "unat (ucast (w::u32) :: u64) = unat w"
proof -
  have "unat w < 2 ^ 64" using unsigned_less[of w, where 'a = nat] by simp
  then show ?thesis by (simp add: unsigned_ucast_eq take_bit_nat_eq_self)
qed

lemma estimate_bound: "unat (miner_range_estimate r t e) \<le> unat (active_nonce_count t)"
  by (auto simp: miner_range_estimate_def Let_def unat_ucast64 word_less_nat_alt not_less)

lemma unat_add_le: "unat (a::u64) + unat b < 2 ^ 64 \<Longrightarrow> unat (a + b) = unat a + unat b"
  by (subst unat_plus_if') simp

lemma finish_range_issued:
  assumes "issued_ok n s"
  shows "issued_ok n (miner_finish_range r s)"
proof (cases "g_range_active s")
  case True
  let ?e = "miner_range_estimate r (g_stats s) (xTickCount s - active_job_tick (g_stats s))"
  have b: "unat (nonce_candidates_issued (g_stats s)) < 2 ^ 64"
    using unsigned_less[of "nonce_candidates_issued (g_stats s)", where 'a = nat] by simp
  have "unat (nonce_candidates_completed_estimate (g_stats s) + ?e) =
      unat (nonce_candidates_completed_estimate (g_stats s)) + unat ?e"
    using assms True b estimate_bound[of r "g_stats s" "xTickCount s - active_job_tick (g_stats s)"]
    by (intro unat_add_le) (simp add: issued_ok_def)
  then show ?thesis
    using assms True estimate_bound[of r "g_stats s" "xTickCount s - active_job_tick (g_stats s)"]
    by (auto simp: issued_ok_def miner_finish_range_def Let_def)
next
  case False
  then show ?thesis using assms by (simp add: miner_finish_range_def)
qed

lemma issued_cong:
  "nonce_candidates_completed_estimate (g_stats s) = nonce_candidates_completed_estimate (g_stats t) \<Longrightarrow>
   nonce_candidates_issued (g_stats s) = nonce_candidates_issued (g_stats t) \<Longrightarrow>
   active_nonce_count (g_stats s) = active_nonce_count (g_stats t) \<Longrightarrow>
   g_range_active s = g_range_active t \<Longrightarrow> issued_ok n t \<Longrightarrow> issued_ok n s"
  by (auto simp: issued_ok_def)

lemma issued_mono: "issued_ok n s \<Longrightarrow> n \<le> m \<Longrightarrow> issued_ok m s"
  by (auto simp: issued_ok_def intro: order_trans mult_le_mono1)

lemma settle_issued: "issued_ok n s \<Longrightarrow> issued_ok n (miner_task_settle q s)"
  using finish_range_issued[of n s] finish_range_issued[of n "snd (svc_running s)"]
  by (auto simp: miner_task_settle_def svc_running_eq upd_stats_def issued_ok_def
      finish_range_frame Let_def split: if_splits)

lemma begin_issued:
  assumes "issued_ok n s" "\<not> g_range_active s" "Suc n \<le> 2 ^ 32"
  shows "issued_ok (Suc n) (miner_task_begin j s)"
proof -
  have u: "unat (ucast (job_nonce_count j) :: u64) = unat (job_nonce_count j)"
    by (rule unat_ucast64)
  have c: "unat (job_nonce_count j) \<le> 2 ^ 32 - 1"
    using unsigned_less[of "job_nonce_count j", where 'a = nat] by simp
  have "unat (nonce_candidates_issued (g_stats s)) + unat (job_nonce_count j) \<le> Suc n * (2 ^ 32 - 1)"
    using assms(1) c by (simp add: issued_ok_def)
  also have "\<dots> < 2 ^ 64" using mult_le_mono1[OF assms(3), of "2 ^ 32 - 1"] by simp
  finally have "unat (nonce_candidates_issued (g_stats s) + ucast (job_nonce_count j)) =
      unat (nonce_candidates_issued (g_stats s)) + unat (job_nonce_count j)"
    by (simp add: unat_add_le u)
  then show ?thesis
    using assms c by (simp add: issued_ok_def miner_task_begin_def upd_stats_def Let_def)
qed

lemma task_job_issued:
  assumes "issued_ok n s" "Suc n \<le> 2 ^ 32" shows "issued_ok (Suc n) (miner_task_job s)"
proof -
  have b: "issued_ok n (s\<lparr>g_job_queue := q\<rparr>)" "issued_ok n (s\<lparr>g_job_queue := q, svc_hw := h\<rparr>)" for q h
    using assms(1) by (auto simp: issued_ok_def)
  obtain r q where rq: "xQueueReceive (g_job_queue s) = (r, q)" by force
  show ?thesis
  proof (cases r)
    case None
    then have "issued_ok n (miner_task_job s)"
      using b finish_range_issued[OF b(2)] rq by (simp add: miner_task_job_def svc_running_eq Let_def)
    then show ?thesis by (rule issued_mono) simp
  next
    case (Some req)
    then show ?thesis
      using begin_issued[OF settle_issued[OF b(1)] settle_frame(10) assms(2)] rq
      by (simp add: miner_task_job_def)
  qed
qed

text \<open>The four quantities that \<open>issued_ok\<close> speaks about.\<close>

lemmas range_view_defs = miner_task_enter_def miner_install_irq_def drain_step_eq
  miner_task_deliver_def upd_stats_def miner_irq_handler_def miner_service_submit_job_def
  miner_service_stop_scan_def miner_service_clear_def miner_service_status_def
  miner_service_get_last_result_def take_result_eq

lemma range_view_worker:
  assumes "pc \<noteq> W_Queue"
  shows "range_view (snd (worker_step pc s)) = range_view s"
proof (cases pc)
  case W_Drain
  then show ?thesis
    by (simp add: range_view_def range_view_defs split_beta Let_def split: option.split)
qed (use assms in \<open>simp_all add: range_view_def range_view_defs split_beta Let_def\<close>)

lemma range_view_api:
  "range_view (miner_irq_handler s) = range_view s"
  "range_view (miner_service_submit_job j c s) = range_view s"
  "range_view (miner_service_stop_scan s) = range_view s"
  "range_view (miner_service_clear t s) = range_view s"
  "range_view (snd (miner_service_status s)) = range_view s"
  "range_view (snd (miner_service_get_last_result t s)) = range_view s"
  "range_view (snd (miner_service_take_result s)) = range_view s"
  "range_view (s\<lparr>xTickCount := n\<rparr>) = range_view s"
  "range_view (s\<lparr>svc_leds := l\<rparr>) = range_view s"
  "range_view (s\<lparr>svc_hw := h\<rparr>) = range_view s"
  by (simp_all add: range_view_def range_view_defs split_beta Let_def split: option.split)

lemma step_issued:
  assumes "issued_ok n (sys_svc y)" "svc_step l y = Some y'" "Suc n \<le> 2 ^ 32"
  shows "issued_ok (Suc n) (sys_svc y')"
proof (cases "l = Worker \<and> sys_pc y = W_Queue")
  case True
  then show ?thesis using assms task_job_issued[OF assms(1,3)] by auto
next
  case False
  then have "range_view (sys_svc y') = range_view (sys_svc y)"
    using assms(2)
    by (cases l) (auto simp: range_view_worker range_view_api split_beta Let_def split: if_splits)
  then have "issued_ok n (sys_svc y')"
    using assms(1) issued_cong[of "sys_svc y'" "sys_svc y" n] by (simp add: range_view_def)
  then show ?thesis by (rule issued_mono) simp
qed

lemma run_issued:
  "svc_run ls y = Some y' \<Longrightarrow> issued_ok n (sys_svc y) \<Longrightarrow> n + length ls \<le> 2 ^ 32 \<Longrightarrow>
   issued_ok (n + length ls) (sys_svc y')"
proof (induction ls arbitrary: y n)
  case (Cons l ls)
  obtain y1 where y1: "svc_step l y = Some y1" "svc_run ls y1 = Some y'"
    using Cons.prems(1) by (auto split: option.splits)
  have "issued_ok (Suc n) (sys_svc y1)" using step_issued[OF Cons.prems(2) y1(1)] Cons.prems(3) by simp
  from Cons.IH[OF y1(2) this] show ?case using Cons.prems(3) by simp
qed simp


subsection \<open>Properties of the service\<close>

lemma run_reachable: "svc_run ls y = Some y' \<Longrightarrow> svc_reachable y \<Longrightarrow> svc_reachable y'"
  by (induction ls arbitrary: y) (auto split: option.splits intro: svc_next)

lemma race_start_reachable: "svc_reachable race_start"
proof -
  have "\<exists>s. miner_service_start
         ((demo_hw [])\<lparr>hw_bus := (reset_bus [])\<lparr>insts :=
            replicate MINER_AXI_INSTANCES (reset_inst\<lparr>irq_force_q := True\<rparr>)\<rparr>\<rparr>)
         \<lparr>g_status_led_state = 0, led_gpio_data = 0\<rparr>
         [\<lparr>req_job = zero_job, req_clean_job = False\<rparr>]
         (replicate 8 \<lparr>ev_result = zero_result, ev_job = zero_job\<rparr>) = Some s"
    by (simp add: miner_service_start_def xQueueCreate_def xQueueGenericReset_def)
  then show ?thesis
    unfolding race_start_def
    by (elim exE) (simp, rule svc_init,
        auto simp: bus_ok_def reset_bus_def inst_ok_def reset_inst_def)
qed

lemma race_run:
  "case svc_run race_labels race_start of
     None \<Rightarrow> False
   | Some y \<Rightarrow> g_irq_masked (sys_svc y) \<and> irq_installed (sys_svc y) \<and>
               irq_line (hw_bus (svc_hw (sys_svc y))) \<and> sys_pc y = W_UnmaskRead 2"
  by code_simp

lemma race_end: "\<exists>y. svc_run race_labels race_start = Some y \<and> svc_reachable y"
  using race_run run_reachable[OF _ race_start_reachable] by (auto split: option.splits)

lemma found_run:
  "case svc_run found_labels found_start of
     None \<Rightarrow> False
   | Some y \<Rightarrow> map (res_nonce \<circ> ev_result \<circ> fst) (sys_read y) = [5]"
  by code_simp

lemma found_start_reachable: "svc_reachable found_start"
proof -
  obtain s where s: "sys_svc found_start = s" "found_start = \<lparr>sys_svc = s, sys_pc = W_Enter, sys_read = [], sys_taken = []\<rparr>"
    by (simp add: found_start_def)
  show ?thesis unfolding s(2)
    by (rule svc_init) (use s(1) demo_hw_ok in \<open>auto simp: found_start_def miner_service_start_def xQueueCreate_def xQueueGenericReset_def hw_ok_def\<close>)
qed

lemma found_end:
  "\<exists>y. svc_run found_labels found_start = Some y \<and> svc_reachable y \<and> map (res_nonce \<circ> ev_result \<circ> fst) (sys_read y) = [5]"
  using found_run run_reachable[OF _ found_start_reachable] by (auto split: option.splits)

text \<open>
  Every range the worker starts is accounted for exactly once: in every reachable state the
  number of jobs started is the number of ranges completed, preempted and stopped, plus one while a
  range is active (as 32-bit counters, so also across wrap-around).
\<close>

theorem ranges_counted_once:
  assumes "svc_reachable y"
  shows "jobs_started (g_stats (sys_svc y)) =
         ranges_completed (g_stats (sys_svc y)) + ranges_preempted (g_stats (sys_svc y)) +
         ranges_stopped (g_stats (sys_svc y)) + (if g_range_active (sys_svc y) then 1 else 0)"
  using reachable_ranges[OF assms] by (simp add: ranges_balanced_def)

theorem ranges_counted_once_witness:
  "\<exists>y. svc_run race_labels race_start = Some y \<and>
       jobs_started (g_stats (sys_svc y)) =
         ranges_completed (g_stats (sys_svc y)) + ranges_preempted (g_stats (sys_svc y)) +
         ranges_stopped (g_stats (sys_svc y)) + (if g_range_active (sys_svc y) then 1 else 0)"
  using race_end ranges_counted_once by blast

text \<open>
  C9. Between the fabric and the pool client a result is lost only by a counted drop, and none is duplicated, changed or
  reordered. In every reachable state the results the worker has read from the fabric for which the queue had
  room are, in the order they were read, each with the job that was active when it was read, those the pool
  client has taken followed by those in the queue; the queue never exceeds its eight slots; the
  result counter is the number of results read and the drop counter the number of those that found
  the queue full. (What \<open>miner_clear\<close> discards in the fabric before it is read is not counted:
  \<open>clear_discards_latched_result\<close>.)
\<close>

theorem results_delivered_in_order:
  assumes "svc_reachable y"
  shows "map fst (filter snd (sys_read y)) = sys_taken y @ queue_items (g_result_queue (sys_svc y)) \<and>
         length (queue_items (g_result_queue (sys_svc y))) \<le> 8 \<and>
         result_count (g_stats (sys_svc y)) = of_nat (length (sys_read y)) \<and>
         result_queue_drops (g_stats (sys_svc y)) = of_nat (length (filter (\<lambda>p. \<not> snd p) (sys_read y)))"
  using reachable_results[OF assms] reachable_base[OF assms] rq.bound[of "g_result_queue (sys_svc y)"]
  by (simp add: results_balanced_def base_inv_def svc_ok_def)

theorem results_delivered_in_order_witness:
  "\<exists>y. svc_run found_labels found_start = Some y \<and>
       map fst (filter snd (sys_read y)) = sys_taken y @ queue_items (g_result_queue (sys_svc y)) \<and>
       map (res_nonce \<circ> ev_result \<circ> fst) (sys_read y) = [5]"
proof -
  obtain y where y: "svc_run found_labels found_start = Some y" "svc_reachable y" "map (res_nonce \<circ> ev_result \<circ> fst) (sys_read y) = [5]"
    using found_end by (elim exE conjE)
  show ?thesis by (intro exI[of _ y] conjI y(1,3) results_delivered_in_order[OF y(2), THEN conjunct1])
qed

text \<open>
  C8. An interrupt is never lost: in every reachable state in which the software flag says masked,
  the worker has a wake-up pending or is already between the drain and the point where it clears
  the flag; and a hardware mask bit is set only while the flag is set or the worker still has that
  instance to unmask.
\<close>

theorem no_interrupt_lost:
  assumes "svc_reachable y" "sys_pc y \<noteq> W_Enter"
  shows "(g_irq_masked (sys_svc y) \<longrightarrow>
            0 < sem_count (g_irq_sem (sys_svc y)) \<or> sys_pc y \<in> {W_Drain, W_Check, W_Clear, W_Flag}) \<and>
         (\<forall>i<MINER_AXI_INSTANCES. irq_mask_q (hw_inst (svc_hw (sys_svc y)) i) \<longrightarrow>
            g_irq_masked (sys_svc y) \<or> unmask_pending (sys_pc y) i)"
  using reachable_irq[OF assms(1)] assms(2) by (simp add: irq_not_lost_def will_rearm_def)

theorem no_interrupt_lost_witness:
  "\<exists>y. svc_run race_labels race_start = Some y \<and> g_irq_masked (sys_svc y) \<and>
       0 < sem_count (g_irq_sem (sys_svc y))"
proof -
  obtain y where y: "svc_run race_labels race_start = Some y" "svc_reachable y" using race_end by blast
  with race_run have "g_irq_masked (sys_svc y)" "sys_pc y = W_UnmaskRead 2" by simp_all
  with no_interrupt_lost[OF y(2)] y(1) show ?thesis by simp
qed

text \<open>
  The worker's drain loop ends: from every reachable state, if the fabric still has events for
  \<open>n\<close> more accesses and then rests, the loop returns within \<open>5 n + 5\<close> iterations and leaves the
  service and the hardware well formed.
\<close>

theorem drain_terminates:
  assumes "svc_reachable y" "sys_pc y \<noteq> W_Enter"
  shows "\<exists>s'. miner_task_drain (5 * fabric_left (svc_hw (sys_svc y)) + 5) (sys_svc y) = Some s' \<and>
              svc_ok s' \<and> hw_ok (svc_hw s')"
  using reachable_base[OF assms(1)] assms(2) results_held_card[of "svc_hw (sys_svc y)"]
  by (intro drain_ends) (auto simp: base_inv_def entered_def MINER_AXI_INSTANCES_def)

theorem drain_terminates_witness:
  "\<exists>y s'. svc_run race_labels race_start = Some y \<and>
     miner_task_drain (5 * fabric_left (svc_hw (sys_svc y)) + 5) (sys_svc y) = Some s' \<and> svc_ok s'"
proof -
  obtain y where y: "svc_run race_labels race_start = Some y" "svc_reachable y" using race_end by blast
  with race_run have "sys_pc y \<noteq> W_Enter" by simp
  from drain_terminates[OF y(2) this] y(1) show ?thesis by blast
qed

text \<open>
  The estimate of completed nonces never exceeds what has been issued: after fewer than 2^32
  steps of any run from a fresh service, the 64-bit counters have not wrapped and the completed
  estimate plus the active range is at most the number of nonces issued.
\<close>

theorem completed_at_most_issued:
  assumes "miner_service_start hw leds jst rst = Some s" "length jst = 1" "length rst = 8"
    and "svc_run ls \<lparr>sys_svc = s, sys_pc = W_Enter, sys_read = [], sys_taken = []\<rparr> = Some y"
    and "length ls < 2 ^ 32"
  shows "unat (nonce_candidates_completed_estimate (g_stats (sys_svc y))) +
           (if g_range_active (sys_svc y) then unat (active_nonce_count (g_stats (sys_svc y))) else 0)
         \<le> unat (nonce_candidates_issued (g_stats (sys_svc y)))"
proof -
  have "issued_ok 0 s"
    using start_ok[OF assms(1-3)] by (simp add: issued_ok_def zero_stats_def)
  then have "issued_ok (0 + length ls) (sys_svc y)"
    using run_issued[OF assms(4), of 0] assms(5) by simp
  then show ?thesis by (simp add: issued_ok_def)
qed

theorem completed_at_most_issued_witness:
  "\<exists>y. svc_run race_labels race_start = Some y \<and>
     unat (nonce_candidates_completed_estimate (g_stats (sys_svc y)))
       \<le> unat (nonce_candidates_issued (g_stats (sys_svc y)))"
proof -
  obtain s where s: "miner_service_start
         ((demo_hw [])\<lparr>hw_bus := (reset_bus [])\<lparr>insts :=
            replicate MINER_AXI_INSTANCES (reset_inst\<lparr>irq_force_q := True\<rparr>)\<rparr>\<rparr>)
         \<lparr>g_status_led_state = 0, led_gpio_data = 0\<rparr>
         [\<lparr>req_job = zero_job, req_clean_job = False\<rparr>]
         (replicate 8 \<lparr>ev_result = zero_result, ev_job = zero_job\<rparr>) = Some s"
    by (simp add: miner_service_start_def xQueueCreate_def xQueueGenericReset_def)
  then have r: "race_start = \<lparr>sys_svc = s, sys_pc = W_Enter, sys_read = [], sys_taken = []\<rparr>"
    by (simp add: race_start_def)
  obtain y where y: "svc_run race_labels race_start = Some y" using race_end by blast
  from completed_at_most_issued[OF s _ _ y[unfolded r]] y show ?thesis
    by (auto simp: race_labels_def)
qed

text \<open>
  The race between the interrupt handler and the unmasking loop: in a reachable state the flag says
  masked, some instance is unmasked and asserts its interrupt, and the handler, which masks only
  while the flag is clear, leaves the line high however often it runs.
\<close>

lemma storm_step:
  assumes "g_irq_masked (sys_svc y)" "irq_installed (sys_svc y)" "irq_line (hw_bus (svc_hw (sys_svc y)))"
  shows "\<exists>y'. svc_step Irq y = Some y' \<and> sys_pc y' = sys_pc y \<and> g_irq_masked (sys_svc y') \<and>
      irq_installed (sys_svc y') \<and> irq_line (hw_bus (svc_hw (sys_svc y')))"
  using assms by (simp add: handler_hw)

theorem irq_storm_reachable:
  "\<exists>y. svc_reachable y \<and>
     (\<forall>n. \<exists>y'. svc_run (replicate n Irq) y = Some y' \<and> sys_pc y' = sys_pc y \<and>
               irq_line (hw_bus (svc_hw (sys_svc y'))))"
proof -
  obtain y where y: "svc_run race_labels race_start = Some y" "svc_reachable y" using race_end by blast
  have "\<exists>y'. svc_run (replicate n Irq) z = Some y' \<and> sys_pc y' = sys_pc z \<and>
      irq_line (hw_bus (svc_hw (sys_svc y')))"
    if "g_irq_masked (sys_svc z)" "irq_installed (sys_svc z)" "irq_line (hw_bus (svc_hw (sys_svc z)))"
    for z n
    using that
  proof (induction n arbitrary: z)
    case (Suc n)
    obtain z1 where "svc_step Irq z = Some z1" "sys_pc z1 = sys_pc z" "g_irq_masked (sys_svc z1)"
      "irq_installed (sys_svc z1)" "irq_line (hw_bus (svc_hw (sys_svc z1)))"
      using storm_step[OF Suc.prems] by blast
    then show ?case using Suc.IH[of z1] by (auto simp del: svc_step.simps)
  qed simp
  moreover have "g_irq_masked (sys_svc y)" "irq_installed (sys_svc y)"
    "irq_line (hw_bus (svc_hw (sys_svc y)))"
    using race_run y(1) by simp_all
  ultimately show ?thesis using y(2) by blast
qed

text \<open>
  A result that reaches the result register between the last read of the drain and
  \<open>miner_clear\<close> is discarded: the drain ends with nothing to read, the result is latched, and after
  the clear neither the result register nor the FIFO of any instance holds it.
\<close>

theorem clear_discards_latched_result:
  "fst (miner_read_result lost_hw) = None \<and>
   result_valid_q (hw_inst (hw_tick (snd (miner_read_result lost_hw))) 0) \<and>
   (\<forall>m \<in> set (insts (hw_bus (miner_clear (snd (miner_read_result lost_hw))))).
      \<not> result_valid_q m \<and> fifo_q m = [])"
  by code_simp

end
