(* ===== verification/Stratum_Job.thy ===== *)
theory Stratum_Job
  imports Stratum_Parse Sha256 Miner_Service
begin

unbundle bit_operations_syntax

section \<open>From a notification to a mining job\<close>

text \<open>
  The part of \<^verbatim>\<open>src/stratum_client.c\<close> that turns pool messages into hardware jobs: the share
  target for a difficulty, the extranonce2 counter, the coinbase transaction, the Merkle root and
  the 80-byte block header with its SHA-256 midstate. The local arrays whose contents are not
  initialised (the hash context, the text buffer) are arguments. Converting a \<open>double\<close> outside
  the range of \<open>uint32_t\<close> is undefined in C; what the target machine does there is the argument
  \<open>cvt\<close>, and the theorem about the target does not depend on it.
\<close>

subsection \<open>Session state\<close>

record stratum_state =
  st_extranonce1 :: string
  st_extranonce2_size :: u32
  st_extranonce2_counter :: u32
  st_target :: "u32 list"
  st_pending_notify :: stratum_notify
  st_current_notify :: stratum_notify
  st_subscribed :: bool
  st_authorized :: bool
  st_have_target :: bool
  st_have_pending_notify :: bool
  st_have_current_notify :: bool

definition zero_notify :: stratum_notify where
  "zero_notify = \<lparr>n_job_id = [], n_prevhash = [], n_coinb1 = [], n_coinb2 = [], n_merkle = [],
     n_version = [], n_nbits = [], n_ntime = [], n_clean_jobs = False\<rparr>"

definition zero_state :: stratum_state where
  "zero_state = \<lparr>st_extranonce1 = [], st_extranonce2_size = 0, st_extranonce2_counter = 0,
     st_target = replicate 8 0, st_pending_notify = zero_notify, st_current_notify = zero_notify,
     st_subscribed = False, st_authorized = False, st_have_target = False,
     st_have_pending_notify = False, st_have_current_notify = False\<rparr>"

definition STRATUM_SCAN_NONCE_COUNT :: u32 where "STRATUM_SCAN_NONCE_COUNT = 0xffffffff"


subsection \<open>Share target\<close>

definition difficulty_one_bytes :: "u8 list" where
  "difficulty_one_bytes = [0, 0, 0, 0, 0xff, 0xff] @ replicate 26 0"

definition target_divisor :: "(double \<Rightarrow> u32) \<Rightarrow> double \<Rightarrow> u32" where
  "target_divisor cvt difficulty =
     (let d = (if double_less_one difficulty then DFin False 1 0 else difficulty)
      in case double_trunc d of
           Some t \<Rightarrow> if 0 \<le> t \<and> t < 2 ^ 32 then of_int t else cvt d
         | None \<Rightarrow> cvt d)"

text \<open>One step of the long division: the remainder and the quotient bytes so far.\<close>

definition divide_step :: "u32 \<Rightarrow> u8 \<Rightarrow> u64 \<times> u8 list \<Rightarrow> u64 \<times> u8 list" where
  "divide_step divisor b acc =
     (let (rem, out) = acc; value = push_bit 8 rem OR ucast b
      in (value mod ucast divisor, out @ [ucast (value div ucast divisor)]))"

definition compact_target_for_difficulty :: "(double \<Rightarrow> u32) \<Rightarrow> double \<Rightarrow> u32 list" where
  "compact_target_for_difficulty cvt difficulty =
     target_words (snd (fold (divide_step (target_divisor cvt difficulty)) difficulty_one_bytes (0, [])))"


subsection \<open>Extranonce2\<close>

definition extranonce2_fill :: "u32 \<Rightarrow> u32 \<Rightarrow> u8 list" where
  "extranonce2_fill sz value =
     fold (\<lambda>i bytes. if i < unat sz
                      then bytes[unat sz - 1 - i := ucast (drop_bit (i * 8) value)] else bytes)
       [0..<4] (replicate STRATUM_EXTRANONCE2_BYTES 0)"

definition make_extranonce2 :: "stratum_state \<Rightarrow> char list \<Rightarrow> string option \<times> stratum_state" where
  "make_extranonce2 state hex =
     (let value = st_extranonce2_counter state;
          state1 = state\<lparr>st_extranonce2_counter := value + 1\<rparr>;
          sz = st_extranonce2_size state
      in if of_nat (length hex) < sz * 2 + 1 then (None, state1)
         else (Some (c_string (bytes_to_hex (extranonce2_fill sz value) (unat sz) hex)), state1))"


subsection \<open>Hashing and the block header\<close>

definition double_sha256 :: "sha256_ctx \<Rightarrow> u8 list \<Rightarrow> u8 list option" where
  "double_sha256 ctx data = do {
     c1 \<leftarrow> sha256_update (sha256_init ctx) data;
     (c2, first) \<leftarrow> sha256_final c1;
     c3 \<leftarrow> sha256_update (sha256_init c2) first;
     (c4, digest) \<leftarrow> sha256_final c3;
     Some digest }"

definition build_coinbase :: "string \<Rightarrow> string \<Rightarrow> string \<Rightarrow> string \<Rightarrow> u8 list option" where
  "build_coinbase coinb1 extranonce1 extranonce2 coinb2 = do {
     a \<leftarrow> hex_to_bytes coinb1 STRATUM_COINBASE_BYTES;
     b \<leftarrow> hex_to_bytes extranonce1 (STRATUM_COINBASE_BYTES - length a);
     c \<leftarrow> hex_to_bytes extranonce2 (STRATUM_COINBASE_BYTES - (length a + length b));
     d \<leftarrow> hex_to_bytes coinb2 (STRATUM_COINBASE_BYTES - (length a + length b + length c));
     Some (a @ b @ c @ d) }"

fun build_merkle :: "sha256_ctx \<Rightarrow> u8 list \<Rightarrow> string list \<Rightarrow> u8 list option" where
  "build_merkle ctx merkle_internal [] = Some merkle_internal"
| "build_merkle ctx merkle_internal (m # ms) = do {
     branch \<leftarrow> hex_to_bytes m 32;
     if length branch \<noteq> 32 then None
     else do {
       hash_be \<leftarrow> double_sha256 ctx (merkle_internal @ branch);
       build_merkle ctx (reverse_copy hash_be 32) ms } }"

definition build_header :: "stratum_notify \<Rightarrow> u8 list \<Rightarrow> u8 list option" where
  "build_header notify merkle_internal = do {
     prev \<leftarrow> hex_to_bytes (n_prevhash notify) 32;
     if length prev \<noteq> 32 then None
     else
       let h0 = memcpy_at 0 (store_le32 (hex_u32 (n_version notify))) (replicate 80 0);
           h1 = memcpy_at 4 (reverse_copy prev 32) h0;
           h2 = memcpy_at 36 merkle_internal h1;
           h3 = memcpy_at 68 (store_le32 (hex_u32 (n_ntime notify))) h2
       in Some (memcpy_at 72 (store_le32 (hex_u32 (n_nbits notify))) h3) }"

definition build_job_body :: "sha256_ctx \<Rightarrow> stratum_notify \<Rightarrow> stratum_state \<Rightarrow> string \<Rightarrow> miner_job option" where
  "build_job_body ctx notify state extranonce2 = do {
     coinbase \<leftarrow> build_coinbase (n_coinb1 notify) (st_extranonce1 state) extranonce2 (n_coinb2 notify);
     hash_be \<leftarrow> double_sha256 ctx coinbase;
     merkle_internal \<leftarrow> build_merkle ctx (reverse_copy hash_be 32) (n_merkle notify);
     header \<leftarrow> build_header notify merkle_internal;
     mid \<leftarrow> bitcoin_header_midstate ctx header;
     Some \<lparr>job_midstate = mid, job_header_tail = bitcoin_header_tail_words header,
           job_target = st_target state, job_nonce_start = 0,
           job_nonce_count = STRATUM_SCAN_NONCE_COUNT,
           job_id = snprintf_s STRATUM_JOB_ID_BYTES (n_job_id notify),
           job_extranonce2 = snprintf_s (STRATUM_EXTRANONCE2_BYTES * 2 + 1) extranonce2,
           job_ntime = snprintf_s 9 (n_ntime notify)\<rparr> }"

definition build_job :: "sha256_ctx \<Rightarrow> char list \<Rightarrow> stratum_notify \<Rightarrow> stratum_state \<Rightarrow>
    miner_job option \<times> stratum_state" where
  "build_job ctx hexbuf notify state =
     (if \<not> st_have_target state \<or> \<not> st_subscribed state \<or> \<not> st_authorized state then (None, state)
      else case make_extranonce2 state hexbuf of
          (None, state1) \<Rightarrow> (None, state1)
        | (Some extranonce2, state1) \<Rightarrow> (build_job_body ctx notify state1 extranonce2, state1))"


subsection \<open>What the job should be\<close>

definition sha256d :: "u8 list \<Rightarrow> u8 list" where
  "sha256d m = sha256 (sha256 m)"

definition words_value :: "u32 list \<Rightarrow> nat" where
  "words_value ws = foldl (\<lambda>a w. a * 2 ^ 32 + unat w) 0 ws"

definition merkle_spec :: "u8 list \<Rightarrow> u8 list list \<Rightarrow> u8 list" where
  "merkle_spec coinbase branches =
     foldl (\<lambda>h b. rev (sha256d (h @ b))) (rev (sha256d coinbase)) branches"

definition header_spec :: "u32 \<Rightarrow> u8 list \<Rightarrow> u8 list \<Rightarrow> u32 \<Rightarrow> u32 \<Rightarrow> u8 list" where
  "header_spec version prev root ntime nbits =
     store_le32 version @ rev prev @ root @ store_le32 ntime @ store_le32 nbits @ [0, 0, 0, 0]"

definition decode32 :: "string \<Rightarrow> u8 list option" where
  "decode32 s = do { b \<leftarrow> hex_to_bytes s 32; if length b \<noteq> 32 then None else Some b }"

text \<open>
  The job for a notification, from the reference hash and list operations only; None if a field is
  not hexadecimal of the right size or the coinbase exceeds 512 bytes.
\<close>

definition job_spec :: "stratum_notify \<Rightarrow> stratum_state \<Rightarrow> miner_job option" where
  "job_spec n st = do {
     c1 \<leftarrow> hex_to_bytes (n_coinb1 n) STRATUM_COINBASE_BYTES;
     e1 \<leftarrow> hex_to_bytes (st_extranonce1 st) STRATUM_COINBASE_BYTES;
     c2 \<leftarrow> hex_to_bytes (n_coinb2 n) STRATUM_COINBASE_BYTES;
     branches \<leftarrow> those (map decode32 (n_merkle n));
     prev \<leftarrow> decode32 (n_prevhash n);
     let e2 = be_bytes (unat (st_extranonce2_size st)) (unat (st_extranonce2_counter st));
         coinbase = c1 @ e1 @ e2 @ c2;
         header = header_spec (hex_u32 (n_version n)) prev (merkle_spec coinbase branches)
                    (hex_u32 (n_ntime n)) (hex_u32 (n_nbits n))
     in if STRATUM_COINBASE_BYTES < length coinbase then None
        else Some \<lparr>job_midstate = sha256_compress sha256_iv (take 64 header),
                   job_header_tail = bitcoin_header_tail_words header,
                   job_target = st_target st, job_nonce_start = 0,
                   job_nonce_count = STRATUM_SCAN_NONCE_COUNT, job_id = n_job_id n,
                   job_extranonce2 = hex_string e2, job_ntime = n_ntime n\<rparr> }"

text \<open>A small session and notification for concrete instances.\<close>

definition demo_notify :: stratum_notify where
  "demo_notify = \<lparr>n_job_id = ''4f'', n_prevhash = hex_string (replicate 32 0x11), n_coinb1 = ''0100'',
     n_coinb2 = ''ffff'', n_merkle = [hex_string (replicate 32 0x22)], n_version = ''20000000'',
     n_nbits = ''1d00ffff'', n_ntime = ''5f5e1000'', n_clean_jobs = True\<rparr>"

definition demo_session :: stratum_state where
  "demo_session = zero_state\<lparr>st_extranonce1 := ''08000002'', st_extranonce2_size := 4, st_subscribed := True,
     st_authorized := True, st_have_target := True\<rparr>"

definition demo_ctx :: sha256_ctx where
  "demo_ctx = \<lparr>ctx_h = [], ctx_bit_count = 0, ctx_buffer = replicate 64 0, ctx_buffer_len = 0\<rparr>"


subsection \<open>The target is the quotient\<close>

lemma words_value_snoc: "words_value (ws @ [w]) = words_value ws * 2 ^ 32 + unat w"
  by (simp add: words_value_def)

lemma target_word_load:
  assumes "i * 4 + 3 < length bytes"
  shows "push_bit 24 (ucast (bytes ! (i * 4))) OR push_bit 16 (ucast (bytes ! (i * 4 + 1))) OR
         push_bit 8 (ucast (bytes ! (i * 4 + 2))) OR ucast (bytes ! (i * 4 + 3)) =
         load_be32 (drop (i * 4) bytes)"
  using assms by (simp add: load_be32_def add.commute or.assoc)

lemma target_words_value:
  assumes "length bytes = 32"
  shows "words_value (target_words bytes) = be_value bytes"
proof -
  have "n \<le> 8 \<Longrightarrow> words_value (map (\<lambda>i. load_be32 (drop (i * 4) bytes)) [0..<n]) = be_value (take (n * 4) bytes)" for n
  proof (induction n)
    case 0
    then show ?case by (simp add: words_value_def)
  next
    case (Suc n)
    have l: "4 \<le> length (drop (n * 4) bytes)" using Suc.prems assms by simp
    have t: "take (Suc n * 4) bytes = take (n * 4) bytes @ take 4 (drop (n * 4) bytes)"
      using take_add[of "n * 4" 4 bytes] by (simp add: add.commute)
    have lt: "length (take 4 (drop (n * 4) bytes)) = 4" using l by simp
    have "be_value (take 4 (drop (n * 4) bytes)) < 2 ^ 32"
      using be_value_bound[of "take 4 (drop (n * 4) bytes)"] unfolding lt by simp
    then have u: "unat (load_be32 (drop (n * 4) bytes)) = be_value (take 4 (drop (n * 4) bytes))"
      by (simp add: load_be32_take[OF l] unat_of_nat take_bit_nat_eq_self)
    have "be_value (take (Suc n * 4) bytes) =
        be_value (take (n * 4) bytes) * 2 ^ 32 + be_value (take 4 (drop (n * 4) bytes))"
      unfolding t be_value_append lt by simp
    then show ?case using Suc u by (simp add: words_value_snoc)
  qed
  moreover have "target_words bytes = map (\<lambda>i. load_be32 (drop (i * 4) bytes)) [0..<8]"
    unfolding target_words_def by (rule map_cong[OF refl], rule target_word_load) (use assms in auto)
  ultimately show ?thesis using assms by simp
qed

lemma divide_step_exact:
  fixes b :: u8
  assumes d: "0 < divisor" and r: "unat (rem :: u64) < unat divisor"
  defines "v \<equiv> 256 * unat rem + unat b"
  shows "\<exists>rem' q. divide_step divisor b (rem, out) = (rem', out @ [q]) \<and>
           unat rem' = v mod unat divisor \<and> unat q = v div unat divisor"
proof -
  have dl: "unat divisor < 2 ^ 32" using unsigned_less[of divisor, where 'a = nat] by simp
  have bl: "unat b < 256" using unsigned_less[of b, where 'a = nat] by simp
  have v: "v < 256 * unat divisor" using r bl by (simp add: v_def)
  let ?quot = "push_bit 8 rem OR ucast b :: u64"
  have or: "?quot = of_nat v"
  proof -
    have "\<not> bit b n" if "8 \<le> n" for n using that bit_imp_le_length[of b n] by auto
    then have "?quot = push_bit 8 rem + ucast b"
      by (intro disjunctive_add[symmetric]) (auto simp: bit_push_bit_iff bit_ucast_iff)
    also have "\<dots> = of_nat (256 * unat rem) + of_nat (unat b)"
      by (simp add: push_bit_eq_mult)
    finally show ?thesis by (simp add: v_def)
  qed
  have uv: "unat ?quot = v" unfolding or using v dl by (simp add: unat_of_nat take_bit_nat_eq_self)
  have ud: "unat (ucast divisor :: u64) = unat divisor" by (rule unat_ucast64)
  have q: "v div unat divisor < 256" using v d by (simp add: less_mult_imp_div_less)
  have "unat (ucast (?quot div ucast divisor) :: u8) = v div unat divisor"
  proof -
    have "unat (?quot div ucast divisor) = v div unat divisor" by (simp only: unat_div uv ud)
    then show ?thesis using q by (subst unsigned_ucast_eq) (simp add: take_bit_nat_eq_self)
  qed
  moreover have "unat (?quot mod ucast divisor) = v mod unat divisor" by (simp add: unat_mod uv ud)
  ultimately show ?thesis by (auto simp: divide_step_def Let_def)
qed

lemma divide_loop:
  assumes d: "0 < divisor"
  shows "unat (fst (fold (divide_step divisor) bs (0, []))) < unat divisor \<and>
    be_value (snd (fold (divide_step divisor) bs (0, []))) * unat divisor +
      unat (fst (fold (divide_step divisor) bs (0, []))) = be_value bs \<and>
    length (snd (fold (divide_step divisor) bs (0, []))) = length bs"
proof (induction bs rule: rev_induct)
  case Nil
  then show ?case using d by (simp add: word_less_nat_alt)
next
  case (snoc b bs)
  obtain rem out where ro: "fold (divide_step divisor) bs (0, []) = (rem, out)" by force
  have IH: "unat rem < unat divisor" "be_value out * unat divisor + unat rem = be_value bs"
    "length out = length bs"
    using snoc ro by simp_all
  obtain rem' q where s: "divide_step divisor b (rem, out) = (rem', out @ [q])"
    "unat rem' = (256 * unat rem + unat b) mod unat divisor"
    "unat q = (256 * unat rem + unat b) div unat divisor"
    using divide_step_exact[OF d IH(1)] by blast
  have "be_value (out @ [q]) * unat divisor + unat rem' =
      be_value out * 256 * unat divisor + (unat q * unat divisor + unat rem')"
    by (simp add: be_value_snoc algebra_simps)
  also have "unat q * unat divisor + unat rem' = 256 * unat rem + unat b" using s by simp
  also have "be_value out * 256 * unat divisor + (256 * unat rem + unat b) = be_value bs * 256 + unat b"
    using IH(2) by (simp add: algebra_simps flip: IH(2))
  finally show ?case using ro s IH d by (simp add: be_value_snoc word_less_nat_alt)
qed

lemma difficulty_one_value: "be_value difficulty_one_bytes = 0xffff * 2 ^ 208"
proof -
  have "be_value (replicate n 0) = 0" for n
    by (induction n) (simp_all add: be_value_Cons)
  then show ?thesis by (simp add: difficulty_one_bytes_def be_value_Cons)
qed

lemma target_quotient:
  assumes "0 < target_divisor cvt difficulty"
  shows "words_value (compact_target_for_difficulty cvt difficulty) =
           (0xffff * 2 ^ 208) div unat (target_divisor cvt difficulty) \<and>
         length (compact_target_for_difficulty cvt difficulty) = 8"
proof -
  let ?d = "target_divisor cvt difficulty"
  obtain rem out where ro: "fold (divide_step ?d) difficulty_one_bytes (0, []) = (rem, out)" by force
  have l: "length out = 32"
    and eq: "be_value out * unat ?d + unat rem = 0xffff * 2 ^ 208" and r: "unat rem < unat ?d"
    using divide_loop[OF assms, of difficulty_one_bytes] ro difficulty_one_value
    by (simp_all add: difficulty_one_bytes_def)
  have "be_value out = (0xffff * 2 ^ 208) div unat ?d"
    using eq r by (metis div_mult_self3 div_less add.commute add_0 less_nat_zero_code)
  then show ?thesis
    using target_words_value[OF l] ro
    by (simp add: compact_target_for_difficulty_def target_words_length)
qed

text \<open>
  The share target for a difficulty is exact: the long division yields the 256-bit quotient of
  the difficulty-1 target by the integer part of the difficulty (at least 1), in eight big-endian
  words.
\<close>

theorem target_is_quotient:
  assumes "0 < target_divisor cvt difficulty"
  shows "words_value (compact_target_for_difficulty cvt difficulty) =
           (0xffff * 2 ^ 208) div unat (target_divisor cvt difficulty) \<and>
         length (compact_target_for_difficulty cvt difficulty) = 8"
  using assms by (rule target_quotient)

lemma divisor_decimal:
  assumes "0 < n" "n < 2 ^ 32" "s = [] \<or> hd s \<notin> set ''0123456789.eExX''"
  shows "target_divisor cvt (strtod (dec_digits n @ s)) = of_nat n"
proof -
  obtain k where "strtod (dec_digits n @ s) = DFin False (int n * 2 ^ k) (- int k)"
    using strtod_decimal[of n s] assms by auto
  then show ?thesis
    using assms(1,2) double_trunc_exact[of "int n" k] double_ge_one[of "int n" k]
    by (simp add: target_divisor_def Let_def)
qed

theorem target_is_quotient_witness:
  "words_value (compact_target_for_difficulty (\<lambda>_. 0) (strtod ''16384]'')) = (0xffff * 2 ^ 208) div 16384"
proof -
  have "dec_digits 16384 = ''16384''" by (simp add: dec_digits.simps hex_digit_def)
  then have "target_divisor (\<lambda>_. 0) (strtod ''16384]'') = 16384"
    using divisor_decimal[of 16384 "'']''" "\<lambda>_. 0"] by simp
  then show ?thesis using target_is_quotient[of "\<lambda>_. 0" "strtod ''16384]''"] by simp
qed

text \<open>
  C37. A message whose parameters begin with a decimal integer \<open>n\<close> from 1 to 2^32 - 1, such as \<open>mining.set_difficulty\<close>, is
  parsed to a difficulty whose share target is exactly the quotient of the difficulty-1 target by \<open>n\<close>: from text over
  double to the long division nothing is lost.
\<close>

theorem difficulty_text_to_target:
  assumes "0 < n" "n < 2 ^ 32" and "s = [] \<or> hd s \<notin> set ''0123456789.eExX''"
    and "find_params_array line = Some (dec_digits n @ s)"
  shows "\<exists>d. parse_difficulty line = Some d \<and>
             words_value (compact_target_for_difficulty cvt d) = (0xffff * 2 ^ 208) div n"
proof -
  obtain k where k: "strtod (dec_digits n @ s) = DFin False (int n * 2 ^ k) (- int k)"
    using strtod_decimal[of n s] assms(1-3) by auto
  then have "parse_difficulty line = Some (strtod (dec_digits n @ s))"
    using assms(1,4) by (simp add: parse_difficulty_def double_pos_def)
  moreover have "unat (of_nat n :: u32) = n" using assms(2) by (simp add: unat_of_nat take_bit_nat_eq_self)
  ultimately show ?thesis
    using target_quotient[of cvt "strtod (dec_digits n @ s)"] divisor_decimal[OF assms(1-3), of cvt] assms(1)
    by (simp add: word_less_nat_alt)
qed

theorem difficulty_text_to_target_witness:
  "\<exists>d. parse_difficulty (json_quote ''params'' @ '':[512]'') = Some d \<and>
       words_value (compact_target_for_difficulty (\<lambda>_. 0) d) = (0xffff * 2 ^ 208) div 512"
proof -
  have "dec_digits 512 = ''512''" by (simp add: dec_digits.simps hex_digit_def)
  moreover have "find_params_array (json_quote ''params'' @ '':[512]'') = Some (''512]'')" by code_simp
  ultimately show ?thesis
    using difficulty_text_to_target[of 512 "'']''" "json_quote ''params'' @ '':[512]''" "\<lambda>_. 0"] by simp
qed


subsection \<open>Extranonce2\<close>

lemma be_bytes_length: "length (be_bytes n x) = n"
  by (simp add: be_bytes_def)

lemma byte_of_counter: "(ucast (drop_bit (i * 8) (cnt :: u32)) :: u8) = of_nat (unat cnt div 256 ^ i)"
proof -
  have "(2::nat) ^ (i * 8) = 256 ^ i" by (simp add: power_mult mult.commute[of i 8])
  moreover have "unat (drop_bit (i * 8) cnt) = drop_bit (i * 8) (unat cnt)"
    by (rule unat_drop_bit_eq)
  ultimately have "unat (drop_bit (i * 8) cnt) = unat cnt div 256 ^ i"
    by (simp only: drop_bit_eq_div[of "i * 8" "unat cnt"])
  then show ?thesis by (metis of_nat_unat)
qed

lemma extranonce2_fill_nth:
  assumes "unat sz \<le> STRATUM_EXTRANONCE2_BYTES" "k \<le> 4" "j < unat sz"
  shows "fold (\<lambda>i bytes. if i < unat sz
                      then bytes[unat sz - 1 - i := ucast (drop_bit (i * 8) (cnt :: u32))] else bytes)
           [0..<k] (replicate STRATUM_EXTRANONCE2_BYTES 0) ! j =
         (if unat sz - 1 - j < k then of_nat (unat cnt div 256 ^ (unat sz - 1 - j)) else (0 :: u8)) \<and>
         length (fold (\<lambda>i bytes. if i < unat sz
                      then bytes[unat sz - 1 - i := ucast (drop_bit (i * 8) (cnt :: u32))] else bytes)
           [0..<k] (replicate STRATUM_EXTRANONCE2_BYTES (0 :: u8))) = STRATUM_EXTRANONCE2_BYTES"
  using assms(2)
proof (induction k)
  case 0
  then show ?case using assms by simp
next
  case (Suc k)
  then show ?case
    using assms(1,3) by (auto simp: byte_of_counter nth_list_update less_Suc_eq)
qed

lemma extranonce2_bytes:
  assumes "unat sz \<le> STRATUM_EXTRANONCE2_BYTES"
  shows "take (unat sz) (extranonce2_fill sz cnt) = be_bytes (unat sz) (unat cnt)"
proof (rule nth_equalityI)
  have len: "length (extranonce2_fill sz cnt) = STRATUM_EXTRANONCE2_BYTES"
  proof (cases "unat sz = 0")
    case True
    have "length (fold (\<lambda>i bytes. if i < unat sz
        then bytes[unat sz - 1 - i := ucast (drop_bit (i * 8) (cnt :: u32))] else bytes) is bs) = length bs"
      for "is" and bs :: "u8 list"
      by (induction "is" arbitrary: bs) auto
    then show ?thesis by (simp add: extranonce2_fill_def)
  next
    case False
    then show ?thesis
      using extranonce2_fill_nth[OF assms, of 4 0 cnt] by (simp add: extranonce2_fill_def)
  qed
  then show "length (take (unat sz) (extranonce2_fill sz cnt)) = length (be_bytes (unat sz) (unat cnt))"
    using assms by (simp add: be_bytes_length)
  fix j assume "j < length (take (unat sz) (extranonce2_fill sz cnt))"
  then have j: "j < unat sz" by simp
  have vl: "unat cnt < 256 ^ 4" using unsigned_less[of cnt, where 'a = nat] by simp
  have "unat cnt div 256 ^ (unat sz - 1 - j) = 0" if "4 \<le> unat sz - 1 - j"
  proof -
    have "(256::nat) ^ 4 \<le> 256 ^ (unat sz - 1 - j)" using that by (rule power_increasing) simp
    then show ?thesis using vl by simp
  qed
  then show "take (unat sz) (extranonce2_fill sz cnt) ! j = be_bytes (unat sz) (unat cnt) ! j"
    using extranonce2_fill_nth[OF assms, of 4 j cnt] j
    by (auto simp: extranonce2_fill_def be_bytes_def)
qed

lemma bytes_to_hex_take:
  assumes "len \<le> length bs"
  shows "bytes_to_hex bs len hex = bytes_to_hex (take len bs) len hex"
proof -
  have "fold (\<lambda>i h. if i * 2 + 1 < length hex
                    then h[i * 2 := k_hex (drop_bit 4 (bs ! i)), i * 2 + 1 := k_hex (bs ! i AND 0x0f)]
                    else h) [0..<len] hex =
        fold (\<lambda>i h. if i * 2 + 1 < length hex
                    then h[i * 2 := k_hex (drop_bit 4 (take len bs ! i)), i * 2 + 1 := k_hex (take len bs ! i AND 0x0f)]
                    else h) [0..<len] hex"
    by (rule fold_cong) auto
  then show ?thesis by (simp add: bytes_to_hex_def Let_def)
qed

lemma make_extranonce2_eq:
  assumes "unat (st_extranonce2_size st) \<le> STRATUM_EXTRANONCE2_BYTES" "length hex = 33"
  shows "make_extranonce2 st hex =
    (Some (hex_string (be_bytes (unat (st_extranonce2_size st)) (unat (st_extranonce2_counter st)))),
     st\<lparr>st_extranonce2_counter := st_extranonce2_counter st + 1\<rparr>)"
proof -
  let ?sz = "st_extranonce2_size st" and ?v = "st_extranonce2_counter st"
  have sz: "unat ?sz \<le> 16" using assms(1) by (simp add: STRATUM_EXTRANONCE2_BYTES_def)
  have "unat (?sz * 2 + 1) = unat ?sz * 2 + 1"
    using sz by (simp add: unat_word_ariths)
  then have guard: "\<not> of_nat (length hex) < ?sz * 2 + 1"
    using sz assms(2) by (simp add: word_less_nat_alt)
  have bs: "take (unat ?sz) (extranonce2_fill ?sz ?v) = be_bytes (unat ?sz) (unat ?v)"
    by (rule extranonce2_bytes[OF assms(1)])
  then have l: "unat ?sz \<le> length (extranonce2_fill ?sz ?v)"
    using be_bytes_length[of "unat ?sz" "unat ?v"] by (metis length_take min.cobounded1)
  have ne: "hex \<noteq> []" using assms(2) by auto
  have "c_string (bytes_to_hex (extranonce2_fill ?sz ?v) (unat ?sz) hex) =
      hex_string (be_bytes (unat ?sz) (unat ?v))"
    using bytes_to_hex_string[OF ne, of "be_bytes (unat ?sz) (unat ?v)"] bytes_to_hex_take[OF l, of hex] sz
    by (simp add: bs be_bytes_length length_hex_string assms(2))
  then show ?thesis using guard by (simp add: make_extranonce2_def Let_def)
qed

lemma be_value_be_bytes: "be_value (be_bytes n x) = x mod 256 ^ n"
proof (induction n arbitrary: x)
  case (Suc n)
  have "be_bytes (Suc n) x = be_bytes n (x div 256) @ [of_nat x]"
  proof (rule nth_equalityI)
    fix i assume "i < length (be_bytes (Suc n) x)"
    then have "i < Suc n" by (simp add: be_bytes_length)
    then show "be_bytes (Suc n) x ! i = (be_bytes n (x div 256) @ [of_nat x]) ! i"
      by (cases "i < n")
        (auto simp: be_bytes_def nth_append less_Suc_eq div_mult2_eq[symmetric] Suc_diff_Suc
           simp flip: power_Suc)
  qed (simp add: be_bytes_length)
  moreover have "unat (of_nat x :: u8) = x mod 256" by (simp add: unat_of_nat take_bit_eq_mod)
  ultimately show ?case
    using Suc[of "x div 256"] by (simp add: be_value_snoc mod_mult2_eq mult.commute)
qed (simp add: be_bytes_def)

text \<open>
  C34. Every dispatched job searches a different header: with an extranonce2 of \<open>n\<close> bytes the text
  for counter value \<open>c\<close> is exactly the \<open>n\<close>-byte big-endian form of \<open>c\<close> in hexadecimal, the counter
  advances by one, and two counter values that differ modulo 256^\<open>n\<close> give different texts.
\<close>

theorem extranonce2_unique:
  assumes "unat (st_extranonce2_size st) \<le> STRATUM_EXTRANONCE2_BYTES" "length hex = 33"
  shows "\<exists>t. make_extranonce2 st hex =
             (Some t, st\<lparr>st_extranonce2_counter := st_extranonce2_counter st + 1\<rparr>) \<and>
           hex_to_bytes t STRATUM_EXTRANONCE2_BYTES =
             Some (be_bytes (unat (st_extranonce2_size st)) (unat (st_extranonce2_counter st))) \<and>
           (\<forall>c. unat c mod 256 ^ unat (st_extranonce2_size st) \<noteq>
                  unat (st_extranonce2_counter st) mod 256 ^ unat (st_extranonce2_size st) \<longrightarrow>
                fst (make_extranonce2 (st\<lparr>st_extranonce2_counter := c\<rparr>) hex) \<noteq> Some t)"
proof -
  let ?n = "unat (st_extranonce2_size st)" and ?t = "\<lambda>c. hex_string (be_bytes (unat (st_extranonce2_size st)) (unat c))"
  have dec: "hex_to_bytes (?t c) STRATUM_EXTRANONCE2_BYTES = Some (be_bytes ?n (unat c))" for c :: u32
    using hex_pairs_hex_string[of "be_bytes ?n (unat c)"] assms(1)
    by (simp add: hex_to_bytes_def length_hex_string be_bytes_length)
  have diff: "fst (make_extranonce2 (st\<lparr>st_extranonce2_counter := c\<rparr>) hex) \<noteq> Some (?t (st_extranonce2_counter st))"
    if "unat c mod 256 ^ ?n \<noteq> unat (st_extranonce2_counter st) mod 256 ^ ?n" for c
  proof
    assume eq: "fst (make_extranonce2 (st\<lparr>st_extranonce2_counter := c\<rparr>) hex) = Some (?t (st_extranonce2_counter st))"
    have "fst (make_extranonce2 (st\<lparr>st_extranonce2_counter := c\<rparr>) hex) = Some (?t c)"
      using make_extranonce2_eq[of "st\<lparr>st_extranonce2_counter := c\<rparr>" hex] assms by simp
    with eq have "?t c = ?t (st_extranonce2_counter st)" by (simp only: option.inject)
    then have "hex_to_bytes (?t c) STRATUM_EXTRANONCE2_BYTES =
        hex_to_bytes (?t (st_extranonce2_counter st)) STRATUM_EXTRANONCE2_BYTES"
      by (rule arg_cong)
    then have "be_bytes ?n (unat c) = be_bytes ?n (unat (st_extranonce2_counter st))"
      unfolding dec by (rule option.inject[THEN iffD1])
    then have "be_value (be_bytes ?n (unat c)) = be_value (be_bytes ?n (unat (st_extranonce2_counter st)))"
      by simp
    then show False using that by (simp only: be_value_be_bytes)
  qed
  show ?thesis
    by (rule exI[of _ "?t (st_extranonce2_counter st)"], intro conjI allI impI)
      (fact make_extranonce2_eq[OF assms] dec | erule diff)+
qed

theorem extranonce2_unique_witness:
  "fst (make_extranonce2 (zero_state\<lparr>st_extranonce2_size := 4, st_extranonce2_counter := 0x01020304\<rparr>)
     (replicate 33 NUL)) \<noteq>
   fst (make_extranonce2 (zero_state\<lparr>st_extranonce2_size := 4, st_extranonce2_counter := 5\<rparr>)
     (replicate 33 NUL))"
proof -
  let ?st = "zero_state\<lparr>st_extranonce2_size := 4, st_extranonce2_counter := 0x01020304\<rparr>"
  obtain t where t: "make_extranonce2 ?st (replicate 33 NUL) = (Some t, ?st\<lparr>st_extranonce2_counter := 0x01020304 + 1\<rparr>)"
    "fst (make_extranonce2 (?st\<lparr>st_extranonce2_counter := 5\<rparr>) (replicate 33 NUL)) \<noteq> Some t"
    using extranonce2_unique[of ?st "replicate 33 NUL"] by (auto simp: STRATUM_EXTRANONCE2_BYTES_def)
  then show ?thesis by simp
qed


subsection \<open>The job is the specified one\<close>

lemma double_sha256_eq:
  assumes "length (ctx_buffer ctx) = 64"
  shows "double_sha256 ctx data = Some (sha256d data)"
proof -
  obtain c1 where c1: "sha256_update (sha256_init ctx) data = Some c1" "sha_rep c1 data"
    using sha_rep_update[OF sha_rep_init[OF assms], of data] by auto
  obtain c2 where c2: "sha256_final c1 = Some (c2, sha256 data)" using sha256_final_correct[OF c1(2)] by blast
  have "length (ctx_buffer c2) = 64"
    using final_buffer[OF c2] c1(2) by (simp add: sha_rep_def sha_core_def)
  then obtain c3 where c3: "sha256_update (sha256_init c2) (sha256 data) = Some c3" "sha_rep c3 (sha256 data)"
    using sha_rep_update[OF sha_rep_init, of c2 "sha256 data"] by auto
  obtain c4 where "sha256_final c3 = Some (c4, sha256 (sha256 data))"
    using sha256_final_correct[OF c3(2)] by blast
  then show ?thesis using c1 c2 c3 by (simp add: double_sha256_def sha256d_def)
qed

lemma length_sha256: "length (sha256 m) = 32"
proof -
  have "length (foldl std_compress sha256_iv xs) = 8" for xs
    by (rule length_std_fold)
  then show ?thesis by (simp add: sha256_def length_concat comp_def be_bytes_length sum_list_triv)
qed

lemma length_sha256d: "length (sha256d m) = 32"
  by (simp add: sha256d_def length_sha256)

lemma reverse_copy_rev: "length bs = n \<Longrightarrow> reverse_copy bs n = rev bs"
  by (auto simp: reverse_copy_def intro!: nth_equalityI simp: rev_nth)

lemma hex_to_bytes_cap:
  "hex_to_bytes s n = (case hex_to_bytes s m of
     Some bs \<Rightarrow> if length bs \<le> n then Some bs else None | None \<Rightarrow> None)" if "n \<le> m"
proof (cases "odd (length s) \<or> m < length s div 2")
  case True
  then show ?thesis using that by (auto simp: hex_to_bytes_def)
next
  case False
  then show ?thesis
    using hex_pairs_length[of s] by (auto simp: hex_to_bytes_def split: option.split)
qed

lemma build_coinbase_eq:
  assumes "hex_to_bytes ex2 STRATUM_COINBASE_BYTES = Some e2"
  shows "build_coinbase cb1 ex1 ex2 cb2 = do {
     c1 \<leftarrow> hex_to_bytes cb1 STRATUM_COINBASE_BYTES;
     e1 \<leftarrow> hex_to_bytes ex1 STRATUM_COINBASE_BYTES;
     c2 \<leftarrow> hex_to_bytes cb2 STRATUM_COINBASE_BYTES;
     if STRATUM_COINBASE_BYTES < length (c1 @ e1 @ e2 @ c2) then None else Some (c1 @ e1 @ e2 @ c2) }"
proof -
  note cap = hex_to_bytes_cap[OF diff_le_self, of _ STRATUM_COINBASE_BYTES]
  show ?thesis
    unfolding build_coinbase_def
    using assms hex_to_bytes_length[of cb1 STRATUM_COINBASE_BYTES]
    by (cases "hex_to_bytes cb1 STRATUM_COINBASE_BYTES"; cases "hex_to_bytes ex1 STRATUM_COINBASE_BYTES";
        cases "hex_to_bytes cb2 STRATUM_COINBASE_BYTES")
      (auto simp: cap[of ex1] cap[of ex2] cap[of cb2])
qed

lemma build_merkle_eq:
  assumes "length (ctx_buffer ctx) = 64"
  shows "build_merkle ctx h ms =
    map_option (foldl (\<lambda>h b. rev (sha256d (h @ b))) h) (those (map decode32 ms))"
proof (induction ms arbitrary: h)
  case (Cons m ms)
  show ?case
  proof (cases "decode32 m")
    case None
    then show ?thesis by (auto simp: decode32_def split: if_splits bind_splits)
  next
    case (Some b)
    then have b: "hex_to_bytes m 32 = Some b" "length b = 32"
      by (auto simp: decode32_def bind_Some_iff split: if_splits)
    then show ?thesis
      using Some Cons.IH by (simp add: double_sha256_eq[OF assms] reverse_copy_rev length_sha256d
          option.map_comp comp_def)
  qed
qed simp

lemma build_header_eq:
  assumes "length root = 32"
  shows "build_header n root = map_option (\<lambda>prev. header_spec (hex_u32 (n_version n)) prev root
           (hex_u32 (n_ntime n)) (hex_u32 (n_nbits n))) (decode32 (n_prevhash n))"
proof (cases "decode32 (n_prevhash n)")
  case None
  then show ?thesis by (auto simp: decode32_def build_header_def split: if_splits bind_splits)
next
  case (Some prev)
  then have p: "hex_to_bytes (n_prevhash n) 32 = Some prev" "length prev = 32"
    by (auto simp: decode32_def bind_Some_iff split: if_splits)
  have l4: "length (store_le32 w) = 4" for w by (simp add: store_le32_def)
  have r: "replicate 4 (0::u8) = [0, 0, 0, 0]" by (simp add: numeral_eq_Suc)
  show ?thesis
    using p Some assms
    by (simp add: build_header_def reverse_copy_rev memcpy_at_def header_spec_def l4 r Let_def)
qed

lemma length_merkle: "length (foldl (\<lambda>h b. rev (sha256d (h @ b))) (rev (sha256d c)) bs) = 32"
  by (induction bs rule: rev_induct) (simp_all add: length_sha256d)

lemma length_header: "length prev = 32 \<Longrightarrow> length root = 32 \<Longrightarrow> length (header_spec v prev root t b) = 80"
  by (simp add: header_spec_def store_le32_def)

lemma decode32_length: "decode32 s = Some b \<Longrightarrow> length b = 32"
  by (auto simp: decode32_def bind_Some_iff split: if_splits)

lemma build_job_body_eq:
  assumes ctx: "length (ctx_buffer ctx) = 64" and fits: "notify_fits n"
    and size: "unat (st_extranonce2_size st) \<le> STRATUM_EXTRANONCE2_BYTES"
  defines "e2 \<equiv> be_bytes (unat (st_extranonce2_size st)) (unat (st_extranonce2_counter st))"
  shows "build_job_body ctx n (st\<lparr>st_extranonce2_counter := c\<rparr>) (hex_string e2) = job_spec n st"
proof -
  have le2: "length e2 \<le> 16" using size by (simp add: e2_def be_bytes_length STRATUM_EXTRANONCE2_BYTES_def)
  have dec: "hex_to_bytes (hex_string e2) STRATUM_COINBASE_BYTES = Some e2"
    using hex_pairs_hex_string[of e2] le2
    by (simp add: hex_to_bytes_def length_hex_string STRATUM_COINBASE_BYTES_def)
  have trunc: "snprintf_s STRATUM_JOB_ID_BYTES (n_job_id n) = n_job_id n"
    "snprintf_s (Suc (STRATUM_EXTRANONCE2_BYTES * 2)) (hex_string e2) = hex_string e2"
    "snprintf_s 9 (n_ntime n) = n_ntime n"
    using fits le2 by (simp_all add: snprintf_s_def notify_fits_def length_hex_string
        STRATUM_EXTRANONCE2_BYTES_def STRATUM_JOB_ID_BYTES_def)
  have mid: "bitcoin_header_midstate ctx (header_spec v prev root t b) =
      Some (sha256_compress sha256_iv (take 64 (header_spec v prev root t b)))"
    if "length prev = 32" "length root = 32" for v prev root t b
    by (rule bitcoin_header_midstate_eq[OF length_header[OF that] ctx])
  show ?thesis
  proof (cases "those (map decode32 (n_merkle n))"; cases "decode32 (n_prevhash n)")
    fix bs prev
    assume bs: "those (map decode32 (n_merkle n)) = Some bs" and prev: "decode32 (n_prevhash n) = Some prev"
    show ?thesis
      unfolding build_job_body_def job_spec_def
      by (cases "hex_to_bytes (n_coinb1 n) STRATUM_COINBASE_BYTES";
          cases "hex_to_bytes (st_extranonce1 st) STRATUM_COINBASE_BYTES";
          cases "hex_to_bytes (n_coinb2 n) STRATUM_COINBASE_BYTES")
        (simp_all add: build_coinbase_eq[OF dec] double_sha256_eq[OF ctx] build_merkle_eq[OF ctx]
          reverse_copy_rev length_sha256d build_header_eq length_merkle mid decode32_length[OF prev]
          bs prev trunc merkle_spec_def Let_def flip: e2_def)
  qed (simp_all add: build_job_body_def job_spec_def build_coinbase_eq[OF dec] double_sha256_eq[OF ctx]
      build_merkle_eq[OF ctx] reverse_copy_rev length_sha256d build_header_eq length_merkle
      split: bind_split)
qed

lemma build_job_eq:
  assumes "length (ctx_buffer ctx) = 64" "length hexbuf = 33" "notify_fits n"
    and "unat (st_extranonce2_size st) \<le> STRATUM_EXTRANONCE2_BYTES"
  shows "build_job ctx hexbuf n st =
    (if st_have_target st \<and> st_subscribed st \<and> st_authorized st
     then (job_spec n st, st\<lparr>st_extranonce2_counter := st_extranonce2_counter st + 1\<rparr>)
     else (None, st))"
  using make_extranonce2_eq[OF assms(4,2)] build_job_body_eq[OF assms(1,3,4)]
  by (simp add: build_job_def)

text \<open>
  C4. \<open>build_job\<close> meets its specification on every input: it refuses until the session is
  subscribed, authorised and has a target; otherwise it consumes one extranonce2 value and returns
  exactly the job of the specification, built from the reference hash: the double SHA-256 of the
  assembled coinbase, the Merkle fold, the 80-byte header and its midstate, with no field truncated,
  or fails exactly where a field is malformed or the coinbase is longer than 512 bytes.
\<close>

theorem build_job_correct:
  assumes "length (ctx_buffer ctx) = 64" "length hexbuf = 33" "notify_fits n"
    and "unat (st_extranonce2_size st) \<le> STRATUM_EXTRANONCE2_BYTES"
  shows "build_job ctx hexbuf n st =
    (if st_have_target st \<and> st_subscribed st \<and> st_authorized st
     then (job_spec n st, st\<lparr>st_extranonce2_counter := st_extranonce2_counter st + 1\<rparr>)
     else (None, st))"
  using assms by (rule build_job_eq)

lemma demo_fits: "notify_fits demo_notify"
  by (simp add: notify_fits_def demo_notify_def length_hex_string STRATUM_JOB_ID_BYTES_def
      STRATUM_MERKLE_BRANCHES_def STRATUM_COINBASE_BYTES_def)

lemma demo_size: "unat (st_extranonce2_size demo_session) \<le> STRATUM_EXTRANONCE2_BYTES"
  by (simp add: demo_session_def STRATUM_EXTRANONCE2_BYTES_def)

theorem build_job_correct_witness:
  "build_job demo_ctx (replicate 33 NUL) demo_notify demo_session =
   (job_spec demo_notify demo_session, demo_session\<lparr>st_extranonce2_counter := 1\<rparr>)"
  using build_job_correct[of demo_ctx "replicate 33 NUL", OF _ _ demo_fits demo_size]
  by (simp add: demo_ctx_def demo_session_def zero_state_def)

lemma job_spec_header:
  assumes "job_spec n st = Some job"
  shows "\<exists>header. length header = 80 \<and>
    take 4 header = store_le32 (hex_u32 (n_version n)) \<and>
    take 4 (drop 68 header) = store_le32 (hex_u32 (n_ntime n)) \<and>
    take 4 (drop 72 header) = store_le32 (hex_u32 (n_nbits n)) \<and>
    decode32 (n_prevhash n) = Some (rev (take 32 (drop 4 header))) \<and>
    job_midstate job = sha256_compress sha256_iv (take 64 header) \<and>
    job_header_tail job = bitcoin_header_tail_words header"
proof -
  obtain prev root where *: "decode32 (n_prevhash n) = Some prev" "length root = 32"
    "job_midstate job = sha256_compress sha256_iv (take 64 (header_spec (hex_u32 (n_version n)) prev root
       (hex_u32 (n_ntime n)) (hex_u32 (n_nbits n))))"
    "job_header_tail job = bitcoin_header_tail_words (header_spec (hex_u32 (n_version n)) prev root
       (hex_u32 (n_ntime n)) (hex_u32 (n_nbits n)))"
  proof -
    have m: "length (merkle_spec c bs) = 32" for c bs by (simp add: merkle_spec_def length_merkle)
    show ?thesis
      using assms by (auto simp: job_spec_def bind_Some_iff Let_def split: if_splits
          intro!: that[OF _ m])
  qed
  have l: "length prev = 32" using decode32_length[OF *(1)] .
  have l4: "length (store_le32 w) = 4" for w by (simp add: store_le32_def)
  let ?h = "header_spec (hex_u32 (n_version n)) prev root (hex_u32 (n_ntime n)) (hex_u32 (n_nbits n))"
  have "take 4 ?h = store_le32 (hex_u32 (n_version n))"
    "take 4 (drop 68 ?h) = store_le32 (hex_u32 (n_ntime n))"
    "take 4 (drop 72 ?h) = store_le32 (hex_u32 (n_nbits n))"
    "rev (take 32 (drop 4 ?h)) = prev"
    using l *(2) by (simp_all add: header_spec_def l4)
  then show ?thesis using * length_header[OF l *(2)] by (intro exI[of _ ?h]) simp
qed

text \<open>
  C7. A job the firmware builds makes the hardware hash the right block: there is one 80-byte header
  holding the notification's version, previous hash, time and bits at their places such that, for
  every nonce, compressing the job's midstate with the tail words in which the nonce is substituted
  is the SHA-256 of that header with that nonce.
\<close>

theorem job_hashes_its_header:
  assumes "build_job ctx hexbuf n st = (Some job, st')"
    and "length (ctx_buffer ctx) = 64" "length hexbuf = 33" "notify_fits n"
    and "unat (st_extranonce2_size st) \<le> STRATUM_EXTRANONCE2_BYTES"
  shows "\<exists>header. length header = 80 \<and>
    take 4 header = store_le32 (hex_u32 (n_version n)) \<and>
    take 4 (drop 68 header) = store_le32 (hex_u32 (n_ntime n)) \<and>
    take 4 (drop 72 header) = store_le32 (hex_u32 (n_nbits n)) \<and>
    decode32 (n_prevhash n) = Some (rev (take 32 (drop 4 header))) \<and>
    (\<forall>nonce. sha256 (take 76 header @ store_be32 nonce) =
       concat (map store_be32 (sha256_compress (job_midstate job)
         (concat (map store_be32 ((job_header_tail job)[3 := nonce])) @
          [0x80] @ replicate 39 0 @ be_bytes 8 640))))"
proof -
  have "job_spec n st = Some job"
    using assms(1) make_extranonce2_eq[OF assms(5,3)] build_job_body_eq[OF assms(2,4,5)]
    by (auto simp: build_job_def split: if_splits)
  from job_spec_header[OF this] obtain header where h: "length header = 80"
    "take 4 header = store_le32 (hex_u32 (n_version n))"
    "take 4 (drop 68 header) = store_le32 (hex_u32 (n_ntime n))"
    "take 4 (drop 72 header) = store_le32 (hex_u32 (n_nbits n))"
    "decode32 (n_prevhash n) = Some (rev (take 32 (drop 4 header)))"
    "job_midstate job = sha256_compress sha256_iv (take 64 header)"
    "job_header_tail job = bitcoin_header_tail_words header"
    by blast
  have "bitcoin_header_midstate ctx header = Some (job_midstate job)"
    using bitcoin_header_midstate_eq[OF h(1) assms(2)] h(6) by simp
  then have "sha256 (take 76 header @ store_be32 nonce) =
      concat (map store_be32 (sha256_compress (job_midstate job)
        (concat (map store_be32 ((job_header_tail job)[3 := nonce])) @
         [0x80] @ replicate 39 0 @ be_bytes 8 640)))" for nonce
    using header_split[OF h(1) assms(2), of nonce] by (simp add: h(7))
  with h(1-5) show ?thesis by blast
qed

lemma demo_builds: "\<exists>job st'. build_job demo_ctx (replicate 33 NUL) demo_notify demo_session = (Some job, st')"
proof -
  have "length (ctx_buffer demo_ctx) = 64" by (simp add: demo_ctx_def)
  note body = build_job_body_eq[OF this demo_fits demo_size]
  have dec: "decode32 (hex_string (replicate 32 b)) = Some (replicate 32 b)" for b
    using hex_pairs_hex_string[of "replicate 32 b"]
    by (simp add: decode32_def hex_to_bytes_def length_hex_string)
  have "\<exists>job. job_spec demo_notify demo_session = Some job"
    by (simp add: job_spec_def demo_notify_def demo_session_def dec hex_to_bytes_def hex_value_def
        STRATUM_COINBASE_BYTES_def be_bytes_length Let_def)
  then show ?thesis
    using body make_extranonce2_eq[OF demo_size, of "replicate 33 NUL"]
    by (auto simp: build_job_def) (simp_all add: demo_session_def)
qed

theorem job_hashes_its_header_witness:
  "\<exists>job st' header. build_job demo_ctx (replicate 33 NUL) demo_notify demo_session = (Some job, st') \<and>
     length header = 80 \<and> take 4 header = store_le32 (hex_u32 ''20000000'')"
proof -
  obtain job st' where b: "build_job demo_ctx (replicate 33 NUL) demo_notify demo_session = (Some job, st')"
    using demo_builds by blast
  have "length (ctx_buffer demo_ctx) = 64" by (simp add: demo_ctx_def)
  from job_hashes_its_header[OF b this _ demo_fits demo_size] b show ?thesis
    by (auto simp: demo_notify_def)
qed

end
