(* ===== verification/Stratum_Client.thy ===== *)
theory Stratum_Client
  imports Stratum_Job
begin

unbundle bit_operations_syntax

section \<open>The pool client\<close>

text \<open>
  The rest of \<^verbatim>\<open>src/stratum_client.c\<close>: the debug record and its lock, sending lines, dispatching
  jobs, submitting shares, the message handler, the connection and the task. The client's state
  contains the miner service it calls.

  The network is the environment. What \<open>FreeRTOS_send\<close> returns is the function \<open>pf_send\<close> of the
  platform (call number and number of bytes offered to bytes accepted or an error), and the outcome
  of a connection attempt or of a \<open>FreeRTOS_recv\<close> of one byte is the input of a task step. The
  bytes the network accepted are recorded in \<open>cl_wire\<close>.

  A step of the task is one iteration of its inner or outer loop, or the end of the wait for a
  connection. A step that would read behind the
  received line (see \<open>parse_subscribe_response\<close>) has no defined result: None.
\<close>

subsection \<open>State\<close>

record stratum_config =
  cfg_host :: string
  cfg_port :: u16
  cfg_user :: string
  cfg_password :: string

record stratum_debug =
  connect_attempts :: u32
  connect_successes :: u32
  disconnects :: u32
  rx_lines :: u32
  tx_lines :: u32
  notify_count :: u32
  difficulty_count :: u32
  target_count :: u32
  subscribe_ok :: u32
  authorize_ok :: u32
  job_dispatch_ok :: u32
  job_dispatch_fail :: u32
  share_candidates :: u32
  share_submits :: u32
  share_accepted :: u32
  share_rejected :: u32
  share_send_failures :: u32
  last_job_tick :: u32
  last_share_tick :: u32
  target_word0 :: u32
  last_recv_status :: int
  last_send_status :: int
  last_event :: string
  last_tx :: string
  last_rx :: string

record platform =
  pf_send :: "nat \<Rightarrow> nat \<Rightarrow> int"
  pf_cvt :: "double \<Rightarrow> u32"
  pf_ctx :: sha256_ctx
  pf_hexbuf :: "char list"

record stratum_client =
  cl_svc :: miner_service
  g_config :: stratum_config
  g_config_lock :: "task_id rtos_sem"
  g_debug_lock :: "task_id rtos_sem option"
  g_connect_requested :: bool
  g_disconnect_requested :: bool
  g_connected :: bool
  g_debug :: stratum_debug
  cl_wire :: string
  cl_send_calls :: nat

definition STRATUM_LINE_BUFFER_BYTES :: nat where "STRATUM_LINE_BUFFER_BYTES = 2048"

definition DQ :: char where "DQ = CHR 0x22"


subsection \<open>The debug record\<close>

text \<open>Every access is made under the lock, and skipped when the lock is missing or not free.\<close>

definition with_debug_lock :: "(stratum_debug \<Rightarrow> stratum_debug) \<Rightarrow> stratum_client \<Rightarrow> stratum_client" where
  "with_debug_lock f c =
     (case g_debug_lock c of
        None \<Rightarrow> c
      | Some l \<Rightarrow>
          (case xSemaphoreTake StratumTask l of
             (True, l1) \<Rightarrow> c\<lparr>g_debug := f (g_debug c), g_debug_lock := Some (snd (xSemaphoreGive l1))\<rparr>
           | (False, _) \<Rightarrow> c))"

definition stratum_debug_set_event :: "string \<Rightarrow> stratum_client \<Rightarrow> stratum_client" where
  "stratum_debug_set_event ev = with_debug_lock (\<lambda>d. d\<lparr>last_event := snprintf_s 96 ev\<rparr>)"

definition stratum_debug_set_rx_line :: "string \<Rightarrow> stratum_client \<Rightarrow> stratum_client" where
  "stratum_debug_set_rx_line line = with_debug_lock (\<lambda>d. d\<lparr>last_rx := snprintf_s 384 line\<rparr>)"

definition stratum_debug_set_tx_line :: "string \<Rightarrow> stratum_client \<Rightarrow> stratum_client" where
  "stratum_debug_set_tx_line line = with_debug_lock (\<lambda>d. d\<lparr>last_tx := snprintf_s 384 line\<rparr>)"

text \<open>The counter is named by its update.\<close>

definition stratum_debug_inc :: "((u32 \<Rightarrow> u32) \<Rightarrow> stratum_debug \<Rightarrow> stratum_debug) \<Rightarrow> stratum_client \<Rightarrow> stratum_client" where
  "stratum_debug_inc counter = with_debug_lock (counter (\<lambda>n. n + 1))"

definition stratum_debug_set_recv_status :: "int \<Rightarrow> stratum_client \<Rightarrow> stratum_client" where
  "stratum_debug_set_recv_status st = with_debug_lock (\<lambda>d. d\<lparr>last_recv_status := st\<rparr>)"

definition stratum_debug_set_send_status :: "int \<Rightarrow> stratum_client \<Rightarrow> stratum_client" where
  "stratum_debug_set_send_status st = with_debug_lock (\<lambda>d. d\<lparr>last_send_status := st\<rparr>)"


subsection \<open>Dispatching work\<close>

definition dispatch_notify_work :: "platform \<Rightarrow> stratum_notify \<Rightarrow> bool \<Rightarrow> stratum_state \<times> stratum_client \<Rightarrow>
    bool \<times> stratum_state \<times> stratum_client" where
  "dispatch_notify_work pf notify clean_job = (\<lambda>(state, c).
     case build_job (pf_ctx pf) (pf_hexbuf pf) notify state of
       (None, state1) \<Rightarrow>
         (False, state1, stratum_debug_set_event ''job materialization failed''
            (stratum_debug_inc job_dispatch_fail_update c))
     | (Some job, state1) \<Rightarrow>
         let c1 = c\<lparr>cl_svc := miner_service_submit_job (Some job) clean_job (cl_svc c)\<rparr>;
             c2 = stratum_debug_inc job_dispatch_ok_update c1;
             c3 = with_debug_lock (\<lambda>d. d\<lparr>last_job_tick := xTickCount (cl_svc c2)\<rparr>) c2
         in (True, state1, stratum_debug_set_event (''job dispatched id='' @ job_id job) c3))"

definition try_dispatch_pending_notify :: "platform \<Rightarrow> stratum_state \<times> stratum_client \<Rightarrow>
    stratum_state \<times> stratum_client" where
  "try_dispatch_pending_notify pf = (\<lambda>(state, c).
     if \<not> st_have_pending_notify state then (state, c)
     else
       let notify = st_pending_notify state;
           c1 = (if n_clean_jobs notify
                 then c\<lparr>cl_svc := miner_service_clear StratumTask (cl_svc c)\<rparr> else c)
       in case dispatch_notify_work pf notify (n_clean_jobs notify) (state, c1) of
            (ok, state1, c2) \<Rightarrow>
              (if ok then state1\<lparr>st_current_notify := st_pending_notify state1,
                                 st_have_current_notify := True, st_have_pending_notify := False\<rparr>
               else state1, c2))"

definition refill_if_idle :: "platform \<Rightarrow> stratum_state \<times> stratum_client \<Rightarrow> stratum_state \<times> stratum_client" where
  "refill_if_idle pf = (\<lambda>(state, c).
     if \<not> st_have_current_notify state then (state, c)
     else
       let (status, svc) = miner_service_status (cl_svc c);
           c1 = c\<lparr>cl_svc := svc\<rparr>
       in if status AND MINER_STATUS_RUNNING = 0
          then snd (dispatch_notify_work pf (st_current_notify state) False (state, c1))
          else (state, c1))"


subsection \<open>Sending\<close>

text \<open>The loop of \<open>send_line\<close> over what is still to be sent; the result is the value returned.\<close>

function send_loop :: "platform \<Rightarrow> nat \<Rightarrow> string \<Rightarrow> stratum_client \<Rightarrow> int \<times> stratum_client" where
  "send_loop pf sent rest c =
     (if rest = [] then (int sent, stratum_debug_inc tx_lines_update c)
      else
        let rc = pf_send pf (cl_send_calls c) (length rest);
            c1 = stratum_debug_set_send_status rc (c\<lparr>cl_send_calls := cl_send_calls c + 1\<rparr>)
        in if rc \<le> 0 then (rc, stratum_debug_set_event (''send failed rc='' @ format_ld rc) c1)
           else send_loop pf (sent + nat rc) (drop (nat rc) rest)
                  (c1\<lparr>cl_wire := cl_wire c1 @ take (nat rc) rest\<rparr>))"
  by pat_completeness auto
termination by (relation "measure (\<lambda>(_, _, rest, _). length rest)") auto

declare send_loop.simps [simp del]

definition send_line :: "platform \<Rightarrow> string \<Rightarrow> stratum_client \<Rightarrow> int \<times> stratum_client" where
  "send_line pf line c = send_loop pf 0 line (stratum_debug_set_tx_line line c)"

definition subscribe_line :: string where
  "subscribe_line = ''{'' @ json_quote ''id'' @ '':1,'' @ json_quote ''method'' @ '':'' @
     json_quote ''mining.subscribe'' @ '','' @ json_quote ''params'' @ '':['' @
     json_quote ''vek280_bitcoin_miner/0.1'' @ '']}'' @ [CHR 0x0A]"

definition authorize_line :: "string \<Rightarrow> string \<Rightarrow> string" where
  "authorize_line user password = ''{'' @ json_quote ''id'' @ '':2,'' @ json_quote ''method'' @ '':'' @
     json_quote ''mining.authorize'' @ '','' @ json_quote ''params'' @ '':['' @
     [DQ] @ user @ [DQ] @ '','' @ [DQ] @ password @ [DQ] @ '']}'' @ [CHR 0x0A]"

definition send_subscribe_authorize :: "platform \<Rightarrow> stratum_config \<Rightarrow> stratum_client \<Rightarrow> stratum_client" where
  "send_subscribe_authorize pf config c =
     (let (rc, c1) = send_line pf (snprintf_s 384 subscribe_line) c;
          c2 = (if rc \<le> 0 then stratum_debug_set_event ''subscribe send failed'' c1 else c1);
          c3 = stratum_debug_set_event ''tx subscribe'' c2;
          (rc', c4) = send_line pf (snprintf_s 384 (authorize_line (cfg_user config) (cfg_password config))) c3
      in stratum_debug_set_event ''tx authorize'' c4)"

definition submit_line :: "string \<Rightarrow> string \<Rightarrow> string \<Rightarrow> string \<Rightarrow> u32 \<Rightarrow> string" where
  "submit_line user job ex2 ntime nonce = ''{'' @ json_quote ''id'' @ '':4,'' @ json_quote ''method'' @ '':'' @
     json_quote ''mining.submit'' @ '','' @ json_quote ''params'' @ '':['' @
     [DQ] @ user @ [DQ] @ '','' @ [DQ] @ job @ [DQ] @ '','' @ [DQ] @ ex2 @ [DQ] @ '','' @
     [DQ] @ ntime @ [DQ] @ '','' @ [DQ] @ format_08lx nonce @ [DQ] @ '']}'' @ [CHR 0x0A]"

definition submit_share :: "platform \<Rightarrow> stratum_config \<Rightarrow> miner_result \<Rightarrow> miner_job \<Rightarrow>
    stratum_client \<Rightarrow> stratum_client" where
  "submit_share pf config result job c =
     (if job_id job = [] then c
      else
        let (send_status, c1) = send_line pf (snprintf_s 512
              (submit_line (cfg_user config) (job_id job) (job_extranonce2 job) (job_ntime job)
                 (res_nonce result))) c;
            c2 = (if 0 < send_status
                  then with_debug_lock (\<lambda>d. d\<lparr>last_share_tick := xTickCount (cl_svc c1)\<rparr>)
                         (stratum_debug_inc share_submits_update c1)
                  else stratum_debug_inc share_send_failures_update c1)
        in stratum_debug_set_event (''tx submit nonce='' @ format_08lx (res_nonce result)) c2)"

subsection \<open>Messages from the pool\<close>

definition result_true :: string where
  "result_true = [DQ] @ ''result'' @ [DQ] @ '':true''"

definition result_false :: string where
  "result_false = [DQ] @ ''result'' @ [DQ] @ '':false''"

definition error_key :: string where
  "error_key = [DQ] @ ''error'' @ [DQ] @ '':''"

definition with_leds :: "(led_state \<Rightarrow> led_state) \<Rightarrow> stratum_client \<Rightarrow> stratum_client" where
  "with_leds f c = c\<lparr>cl_svc := (cl_svc c)\<lparr>svc_leds := f (svc_leds (cl_svc c))\<rparr>\<rparr>"

text \<open>A new target: recorded in the session and in the debug record.\<close>

definition set_target :: "u32 list \<Rightarrow> string \<Rightarrow> stratum_state \<times> stratum_client \<Rightarrow> stratum_state \<times> stratum_client" where
  "set_target target ev = (\<lambda>(state, c).
     (state\<lparr>st_target := target, st_have_target := True\<rparr>,
      stratum_debug_set_event ev (with_debug_lock (\<lambda>d. d\<lparr>target_word0 := target ! 0\<rparr>) c)))"

definition handle_notify :: "platform \<Rightarrow> string \<Rightarrow> stratum_state \<times> stratum_client \<Rightarrow> stratum_state \<times> stratum_client" where
  "handle_notify pf line = (\<lambda>(state, c).
     case parse_notify line of
       None \<Rightarrow> (state, stratum_debug_set_event ''notify parse failed'' c)
     | Some notify \<Rightarrow>
         let c1 = stratum_debug_inc notify_count_update c;
             c2 = with_leds status_leds_toggle_job_received c1;
             c3 = stratum_debug_set_event (''rx notify id='' @ n_job_id notify @ '' branches='' @
                    format_lu (of_nat (length (n_merkle notify)))) c2
         in try_dispatch_pending_notify pf
              (state\<lparr>st_pending_notify := notify, st_have_pending_notify := True\<rparr>, c3))"

definition handle_difficulty :: "platform \<Rightarrow> string \<Rightarrow> stratum_state \<times> stratum_client \<Rightarrow> stratum_state \<times> stratum_client" where
  "handle_difficulty pf line = (\<lambda>(state, c).
     case parse_difficulty line of
       None \<Rightarrow> (state, stratum_debug_set_event ''difficulty parse failed'' c)
     | Some difficulty \<Rightarrow>
         try_dispatch_pending_notify pf
           (set_target (compact_target_for_difficulty (pf_cvt pf) difficulty) ''rx difficulty''
              (state, stratum_debug_inc difficulty_count_update c)))"

definition handle_target :: "platform \<Rightarrow> string \<Rightarrow> stratum_state \<times> stratum_client \<Rightarrow> stratum_state \<times> stratum_client" where
  "handle_target pf line = (\<lambda>(state, c).
     case parse_target line of
       None \<Rightarrow> (state, stratum_debug_set_event ''target parse failed'' c)
     | Some target \<Rightarrow>
         try_dispatch_pending_notify pf
           (set_target target ''rx target'' (state, stratum_debug_inc target_count_update c)))"

definition handle_share_response :: "string \<Rightarrow> stratum_client \<Rightarrow> stratum_client" where
  "handle_share_response line c =
     (if json_has_id line 4
      then if strstr line result_true \<noteq> None
           then stratum_debug_set_event ''share accepted'' (stratum_debug_inc share_accepted_update c)
           else if strstr line result_false \<noteq> None \<or> strstr line error_key \<noteq> None
           then stratum_debug_set_event ''share rejected'' (stratum_debug_inc share_rejected_update c)
           else c
      else c)"

definition show_attached :: "stratum_state \<Rightarrow> stratum_client \<Rightarrow> stratum_client" where
  "show_attached state = with_leds (status_leds_set_pool_attached (st_subscribed state \<and> st_authorized state))"

definition handle_subscribe :: "string \<Rightarrow> stratum_state \<times> stratum_client \<Rightarrow> (stratum_state \<times> stratum_client) option" where
  "handle_subscribe line = (\<lambda>(state, c).
     case parse_subscribe_response line of
       Overrun \<Rightarrow> None
     | Rejected \<Rightarrow> Some (state, c)
     | Parsed (extranonce1, extranonce2_size) \<Rightarrow>
         let state1 = state\<lparr>st_extranonce1 := extranonce1, st_extranonce2_size := extranonce2_size,
                            st_subscribed := True\<rparr>
         in Some (state1, stratum_debug_set_event (''rx subscribe ok extranonce2='' @ format_lu extranonce2_size)
              (show_attached state1 (stratum_debug_inc subscribe_ok_update c))))"

definition handle_authorize :: "string \<Rightarrow> stratum_state \<times> stratum_client \<Rightarrow> stratum_state \<times> stratum_client" where
  "handle_authorize line = (\<lambda>(state, c).
     if parse_authorize_response line
     then let state1 = state\<lparr>st_authorized := True\<rparr>
          in (state1, stratum_debug_set_event ''rx authorize ok''
                (show_attached state1 (stratum_debug_inc authorize_ok_update c)))
     else (state, c))"

definition handle_response :: "platform \<Rightarrow> string \<Rightarrow> stratum_state \<times> stratum_client \<Rightarrow>
    (stratum_state \<times> stratum_client) option" where
  "handle_response pf line = (\<lambda>(state, c). do {
     sc \<leftarrow> handle_subscribe line (state, handle_share_response line c);
     Some (try_dispatch_pending_notify pf (handle_authorize line sc)) })"

definition handle_stratum_line :: "platform \<Rightarrow> string \<Rightarrow> stratum_state \<times> stratum_client \<Rightarrow>
    (stratum_state \<times> stratum_client) option" where
  "handle_stratum_line pf line = (\<lambda>(state, c).
     let c1 = stratum_debug_set_rx_line line (stratum_debug_inc rx_lines_update c)
     in if json_method_is line ''mining.notify'' then Some (handle_notify pf line (state, c1))
        else if json_method_is line ''mining.set_difficulty'' then Some (handle_difficulty pf line (state, c1))
        else if json_method_is line ''mining.set_target'' then Some (handle_target pf line (state, c1))
        else handle_response pf line (state, c1))"


subsection \<open>Connecting\<close>

text \<open>What the network stack answers while a connection is made.\<close>

record net_answers =
  na_inet_addr :: u32
  na_gethostbyname :: u32
  na_socket_valid :: bool
  na_connect :: int

definition ip_text :: "u32 \<Rightarrow> string" where
  "ip_text ip = format_lu (ip AND 0xff) @ ''.'' @ format_lu (drop_bit 8 ip AND 0xff) @ ''.'' @
     format_lu (drop_bit 16 ip AND 0xff) @ ''.'' @ format_lu (drop_bit 24 ip AND 0xff)"

text \<open>True: the socket is connected.\<close>

definition connect_socket :: "stratum_config \<Rightarrow> net_answers \<Rightarrow> stratum_client \<Rightarrow> bool \<times> stratum_client" where
  "connect_socket config net c =
     (let ip0 = na_inet_addr net;
          ip = (if ip0 = 0 then na_gethostbyname net else ip0)
      in if ip = 0
         then (False, stratum_debug_set_event (''dns failed host='' @ cfg_host config) c)
         else
           let c1 = stratum_debug_set_event (''dns ok host='' @ cfg_host config @ '' ip='' @ ip_text ip) c
           in if \<not> na_socket_valid net then (False, stratum_debug_set_event ''socket create failed'' c1)
              else if na_connect net \<noteq> 0 then (False, stratum_debug_set_event ''connect failed'' c1)
              else (True, stratum_debug_set_event ''connect ok'' c1))"


subsection \<open>The results waiting in the queue\<close>

lemma with_debug_lock_svc [simp]: "cl_svc (with_debug_lock f c) = cl_svc c"
  by (simp add: with_debug_lock_def split: option.split prod.split bool.split)

lemma debug_svc [simp]:
  "cl_svc (stratum_debug_set_event ev c) = cl_svc c"
  "cl_svc (stratum_debug_set_rx_line ev c) = cl_svc c"
  "cl_svc (stratum_debug_set_tx_line ev c) = cl_svc c"
  "cl_svc (stratum_debug_inc cnt c) = cl_svc c"
  "cl_svc (stratum_debug_set_recv_status st c) = cl_svc c"
  "cl_svc (stratum_debug_set_send_status st c) = cl_svc c"
  by (simp_all add: stratum_debug_set_event_def stratum_debug_set_rx_line_def
      stratum_debug_set_tx_line_def stratum_debug_inc_def stratum_debug_set_recv_status_def
      stratum_debug_set_send_status_def)

lemma send_loop_svc [simp]: "cl_svc (snd (send_loop pf sent rest c)) = cl_svc c"
  by (induction pf sent rest c rule: send_loop.induct)
    (subst send_loop.simps, simp add: Let_def)

lemma submit_share_svc [simp]: "cl_svc (submit_share pf config r j c) = cl_svc c"
  by (simp add: submit_share_def send_line_def split_beta Let_def)

lemma receive_fewer:
  "xQueueReceive q = (Some x, q') \<Longrightarrow> uxMessagesWaiting q' < uxMessagesWaiting q"
  by (auto simp: xQueueReceive_def prvCopyDataFromQueue_def Let_def split: if_splits prod.splits)

lemma take_result_fewer:
  "miner_service_take_result s = (Some x, s') \<Longrightarrow>
     uxMessagesWaiting (g_result_queue s') < uxMessagesWaiting (g_result_queue s)"
  by (auto simp: miner_service_take_result_def receive_fewer split: prod.splits option.splits)

text \<open>
  The timeout of the first take is the time for which results of the worker may still arrive before
  it; here they arrive in the worker's own steps.
\<close>

function drain_share_results :: "platform \<Rightarrow> stratum_config \<Rightarrow> stratum_client \<Rightarrow> stratum_client" where
  "drain_share_results pf config c =
     (case miner_service_take_result (cl_svc c) of
        (None, s) \<Rightarrow> c\<lparr>cl_svc := s\<rparr>
      | (Some (result, job), s) \<Rightarrow>
          drain_share_results pf config
            (submit_share pf config result job
               (stratum_debug_inc share_candidates_update (c\<lparr>cl_svc := s\<rparr>))))"
  by pat_completeness auto
termination
  by (relation "measure (\<lambda>(_, _, c). uxMessagesWaiting (g_result_queue (cl_svc c)))")
    (auto dest: take_result_fewer[OF sym])

declare drain_share_results.simps [simp del]


subsection \<open>The task\<close>

text \<open>
  A session: the variables of the task while it is connected. The task waits in \<open>T_Connecting\<close>
  while \<open>connect_socket\<close> resolves the name and opens the connection; other tasks run meanwhile.
\<close>

record session =
  ss_config :: stratum_config
  ss_state :: stratum_state
  ss_line :: "char list"
  ss_used :: nat

datatype task_pc = T_Outer | T_Connecting stratum_config | T_Session session

text \<open>What the network does in a step: the answers to a connection attempt, or one \<open>FreeRTOS_recv\<close>.\<close>

record task_input =
  in_net :: net_answers
  in_buffer :: "char list"
  in_got :: int
  in_ch :: char

definition EWOULDBLOCK :: int where "EWOULDBLOCK = 11"

definition begin_session :: "platform \<Rightarrow> stratum_config \<Rightarrow> char list \<Rightarrow> stratum_client \<Rightarrow> task_pc \<times> stratum_client" where
  "begin_session pf config buffer c =
     (let c1 = c\<lparr>g_connected := True\<rparr>;
          c2 = with_leds (status_leds_set_pool_r5_connected True) c1;
          c3 = with_leds (status_leds_set_pool_attached False) c2;
          c4 = stratum_debug_inc connect_successes_update c3;
          c5 = send_subscribe_authorize pf config (c4\<lparr>g_disconnect_requested := False\<rparr>)
      in (T_Session \<lparr>ss_config = config, ss_state = zero_state, ss_line = buffer, ss_used = 0\<rparr>, c5))"

definition outer_step :: "stratum_client \<Rightarrow> task_pc \<times> stratum_client" where
  "outer_step c =
     (if \<not> g_connect_requested c then (T_Outer, c)
      else
        let c1 = stratum_debug_inc connect_attempts_update c
        in case xSemaphoreTake StratumTask (g_config_lock c1) of
             (False, _) \<Rightarrow> (T_Outer, stratum_debug_set_event ''config lock timeout'' c1)
           | (True, lock) \<Rightarrow>
               let config = g_config c1
               in (T_Connecting config,
                   stratum_debug_set_event (''connect attempt host='' @ cfg_host config @ '' port='' @
                     format_lu (ucast (cfg_port config)))
                     (c1\<lparr>g_config_lock := snd (xSemaphoreGive lock)\<rparr>)))"

definition connecting_step :: "platform \<Rightarrow> task_input \<Rightarrow> stratum_config \<Rightarrow> stratum_client \<Rightarrow> task_pc \<times> stratum_client" where
  "connecting_step pf i config c =
     (let (ok, c1) = connect_socket config (in_net i) c
      in if \<not> ok then (T_Outer, c1) else begin_session pf config (in_buffer i) c1)"

definition end_session :: "stratum_client \<Rightarrow> task_pc \<times> stratum_client" where
  "end_session c =
     (let c1 = c\<lparr>g_connected := False\<rparr>;
          c2 = with_leds (status_leds_set_pool_r5_connected False) c1;
          c3 = with_leds (status_leds_set_pool_attached False) c2
      in (T_Outer, stratum_debug_inc disconnects_update c3))"

definition poll_results :: "platform \<Rightarrow> session \<Rightarrow> stratum_client \<Rightarrow> task_pc \<times> stratum_client" where
  "poll_results pf ss c =
     (let (state, c1) = refill_if_idle pf (ss_state ss, drain_share_results pf (ss_config ss) c)
      in (T_Session (ss\<lparr>ss_state := state\<rparr>), c1))"

definition receive_char :: "platform \<Rightarrow> char \<Rightarrow> session \<Rightarrow> stratum_client \<Rightarrow> (task_pc \<times> stratum_client) option" where
  "receive_char pf ch ss c =
     (if ch = CHR 0x0A then
        let line = (ss_line ss)[ss_used ss := NUL]
        in do {
          (state, c1) \<leftarrow> handle_stratum_line pf (c_string line) (ss_state ss, c);
          Some (poll_results pf (ss\<lparr>ss_state := state, ss_line := line, ss_used := 0\<rparr>) c1) }
      else if ch \<noteq> CHR 0x0D then
        if ss_used ss < STRATUM_LINE_BUFFER_BYTES - 1
        then Some (T_Session (ss\<lparr>ss_line := (ss_line ss)[ss_used ss := ch], ss_used := ss_used ss + 1\<rparr>), c)
        else Some (T_Session (ss\<lparr>ss_used := 0\<rparr>), stratum_debug_set_event ''rx line overflow'' c)
      else Some (T_Session ss, c))"

definition inner_step :: "platform \<Rightarrow> task_input \<Rightarrow> session \<Rightarrow> stratum_client \<Rightarrow> (task_pc \<times> stratum_client) option" where
  "inner_step pf i ss c =
     (if g_disconnect_requested c then Some (end_session c)
      else if in_got i = 0 then Some (poll_results pf ss c)
      else if in_got i < 0 then
        if in_got i \<noteq> - EWOULDBLOCK
        then Some (end_session (stratum_debug_set_event (''recv error rc='' @ format_ld (in_got i))
                (stratum_debug_set_recv_status (in_got i) c)))
        else Some (poll_results pf ss c)
      else receive_char pf (in_ch i) ss c)"

fun stratum_task_step :: "platform \<Rightarrow> task_input \<Rightarrow> task_pc \<times> stratum_client \<Rightarrow> (task_pc \<times> stratum_client) option" where
  "stratum_task_step pf i (T_Outer, c) = Some (outer_step c)"
| "stratum_task_step pf i (T_Connecting config, c) = Some (connecting_step pf i config c)"
| "stratum_task_step pf i (T_Session ss, c) = inner_step pf i ss c"


subsection \<open>The API of the other tasks\<close>

definition default_config :: stratum_config where
  "default_config = \<lparr>cfg_host = ''solo.ckpool.org'', cfg_port = 3333,
     cfg_user = ''replace-with-btc-address'', cfg_password = ''x''\<rparr>"

definition zero_debug :: stratum_debug where
  "zero_debug = \<lparr>connect_attempts = 0, connect_successes = 0, disconnects = 0, rx_lines = 0,
     tx_lines = 0, notify_count = 0, difficulty_count = 0, target_count = 0, subscribe_ok = 0,
     authorize_ok = 0, job_dispatch_ok = 0, job_dispatch_fail = 0, share_candidates = 0,
     share_submits = 0, share_accepted = 0, share_rejected = 0, share_send_failures = 0,
     last_job_tick = 0, last_share_tick = 0, target_word0 = 0, last_recv_status = 0,
     last_send_status = 0, last_event = [], last_tx = [], last_rx = []\<rparr>"

definition stratum_client_start :: "miner_service \<Rightarrow> stratum_client" where
  "stratum_client_start svc =
     \<lparr>cl_svc = svc, g_config = default_config, g_config_lock = xSemaphoreCreateMutex,
      g_debug_lock = Some xSemaphoreCreateMutex, g_connect_requested = False,
      g_disconnect_requested = False, g_connected = False, g_debug = zero_debug,
      cl_wire = [], cl_send_calls = 0\<rparr>"

definition stratum_client_set_config :: "stratum_config \<Rightarrow> stratum_client \<Rightarrow> stratum_client" where
  "stratum_client_set_config config c =
     (case xSemaphoreTake TelnetTask (g_config_lock c) of
        (True, lock) \<Rightarrow> c\<lparr>g_config := config, g_config_lock := snd (xSemaphoreGive lock)\<rparr>
      | (False, _) \<Rightarrow> c)"

text \<open>None: the lock was not free and the caller's variable is left as it was.\<close>

definition stratum_client_get_config :: "stratum_client \<Rightarrow> stratum_config option \<times> stratum_client" where
  "stratum_client_get_config c =
     (case xSemaphoreTake TelnetTask (g_config_lock c) of
        (True, lock) \<Rightarrow> (Some (g_config c), c\<lparr>g_config_lock := snd (xSemaphoreGive lock)\<rparr>)
      | (False, _) \<Rightarrow> (None, c))"

definition stratum_client_get_debug :: "stratum_client \<Rightarrow> stratum_debug option \<times> stratum_client" where
  "stratum_client_get_debug c =
     (case g_debug_lock c of
        None \<Rightarrow> (None, c)
      | Some l \<Rightarrow>
          (case xSemaphoreTake TelnetTask l of
             (True, l1) \<Rightarrow> (Some (g_debug c), c\<lparr>g_debug_lock := Some (snd (xSemaphoreGive l1))\<rparr>)
           | (False, _) \<Rightarrow> (None, c)))"

definition stratum_client_request_connect :: "stratum_client \<Rightarrow> stratum_client" where
  "stratum_client_request_connect c = c\<lparr>g_connect_requested := True\<rparr>"

definition stratum_client_request_disconnect :: "stratum_client \<Rightarrow> stratum_client" where
  "stratum_client_request_disconnect c = c\<lparr>g_disconnect_requested := True, g_connect_requested := False\<rparr>"

definition stratum_client_is_connected :: "stratum_client \<Rightarrow> bool" where
  "stratum_client_is_connected c = g_connected c"

subsection \<open>Statements\<close>

definition debug_free :: "stratum_client \<Rightarrow> bool" where
  "debug_free c \<longleftrightarrow> (\<exists>l. g_debug_lock c = Some l \<and> lock_ok l)"

text \<open>The documented range of \<open>FreeRTOS_send\<close>: at most what was offered, or an error.\<close>

definition sends_at_most :: "platform \<Rightarrow> bool" where
  "sends_at_most pf \<longleftrightarrow> (\<forall>k n. pf_send pf k n \<le> int n)"

definition sends_all :: "platform \<Rightarrow> bool" where
  "sends_all pf \<longleftrightarrow> (\<forall>k n. pf_send pf k n = int n)"

definition job_wf :: "miner_job \<Rightarrow> bool" where
  "job_wf j \<longleftrightarrow> job_ok j \<and> length (job_id j) < STRATUM_JOB_ID_BYTES \<and>
     length (job_extranonce2 j) \<le> STRATUM_EXTRANONCE2_BYTES * 2 \<and> length (job_ntime j) \<le> 8"

definition config_fits :: "stratum_config \<Rightarrow> bool" where
  "config_fits g \<longleftrightarrow> length (cfg_host g) < 96 \<and> length (cfg_user g) < 128 \<and> length (cfg_password g) < 64"

definition share_counts :: "stratum_client \<Rightarrow> u32 \<times> u32 \<times> u32" where
  "share_counts c = (share_candidates (g_debug c), share_submits (g_debug c), share_send_failures (g_debug c))"

text \<open>The results of jobs that have an identifier; the line for one of them.\<close>

definition reportable :: "miner_result_event list \<Rightarrow> miner_result_event list" where
  "reportable es = filter (\<lambda>e. job_id (ev_job e) \<noteq> []) es"

definition share_line :: "stratum_config \<Rightarrow> miner_result_event \<Rightarrow> string" where
  "share_line config e = submit_line (cfg_user config) (job_id (ev_job e)) (job_extranonce2 (ev_job e))
     (job_ntime (ev_job e)) (res_nonce (ev_result e))"

text \<open>A \<open>FreeRTOS_recv\<close> that yields one byte, and the task reading bytes one after the other.\<close>

definition recv_byte :: "char \<Rightarrow> task_input" where
  "recv_byte ch = \<lparr>in_net = \<lparr>na_inet_addr = 0, na_gethostbyname = 0, na_socket_valid = False, na_connect = -1\<rparr>,
     in_buffer = [], in_got = 1, in_ch = ch\<rparr>"

fun feed :: "platform \<Rightarrow> string \<Rightarrow> task_pc \<times> stratum_client \<Rightarrow> (task_pc \<times> stratum_client) option" where
  "feed pf [] y = Some y"
| "feed pf (ch # chs) y = do { y' \<leftarrow> stratum_task_step pf (recv_byte ch) y; feed pf chs y' }"

definition kept_bytes :: "string \<Rightarrow> string" where
  "kept_bytes bs = filter (\<lambda>ch. ch \<noteq> CHR 0x0D) bs"

text \<open>The last full buffer's worth of a line is what is left of it.\<close>

definition line_tail :: "string \<Rightarrow> string" where
  "line_tail s = drop (STRATUM_LINE_BUFFER_BYTES * (length s div STRATUM_LINE_BUFFER_BYTES)) s"

text \<open>A small instance.\<close>

definition demo_pf :: platform where
  "demo_pf = \<lparr>pf_send = (\<lambda>k n. int n), pf_cvt = (\<lambda>_. 1), pf_ctx = demo_ctx, pf_hexbuf = replicate 33 NUL\<rparr>"

definition demo_event :: miner_result_event where
  "demo_event = \<lparr>ev_result = \<lparr>res_nonce = 0xdeadbeef, res_engine = 3, res_status = 1\<rparr>,
     ev_job = zero_job\<lparr>job_id := ''4f'', job_extranonce2 := ''00000001'', job_ntime := ''5f5e1000''\<rparr>\<rparr>"

definition demo_svc :: miner_service where
  "demo_svc = the (miner_service_start (demo_hw []) \<lparr>g_status_led_state = 0, led_gpio_data = 0\<rparr>
     [\<lparr>req_job = zero_job, req_clean_job = False\<rparr>]
     (replicate 8 \<lparr>ev_result = zero_result, ev_job = zero_job\<rparr>))"

text \<open>Two results wait, one of them of no job.\<close>

definition demo_client :: stratum_client where
  "demo_client = stratum_client_start (demo_svc\<lparr>g_result_queue :=
     snd (xQueueGenericSend demo_event queueSEND_TO_BACK
       (snd (xQueueGenericSend \<lparr>ev_result = zero_result, ev_job = zero_job\<rparr> queueSEND_TO_BACK
         (g_result_queue demo_svc))))\<rparr>)"

definition demo_line_session :: session where
  "demo_line_session = \<lparr>ss_config = default_config, ss_state = zero_state,
     ss_line = replicate STRATUM_LINE_BUFFER_BYTES NUL, ss_used = 0\<rparr>"


subsection \<open>The debug record under its lock\<close>

lemmas debug_ops = stratum_debug_set_event_def stratum_debug_set_rx_line_def stratum_debug_set_tx_line_def
  stratum_debug_inc_def stratum_debug_set_recv_status_def stratum_debug_set_send_status_def

lemma lock_cycle: "lock_ok l \<Longrightarrow> snd (xSemaphoreGive (snd (xSemaphoreTake t l))) = l"
  by (simp add: lock_ok_def xSemaphoreTake_def xSemaphoreGive_def)

lemma with_debug_lock_free:
  assumes "debug_free c"
  shows "with_debug_lock f c = c\<lparr>g_debug := f (g_debug c)\<rparr>"
proof -
  obtain l where l: "g_debug_lock c = Some l" "lock_ok l" using assms by (auto simp: debug_free_def)
  have "with_debug_lock f c = c\<lparr>g_debug := f (g_debug c), g_debug_lock := Some l\<rparr>"
    using lock_cycle[OF l(2), of StratumTask] sem_ops_ok(4)[OF l(2), of StratumTask]
    by (auto simp: with_debug_lock_def l(1) split: prod.split bool.split)
  then show ?thesis using l(1) by (cases c) simp
qed

lemma debug_free_upd [simp]:
  "debug_free (c\<lparr>g_debug := d\<rparr>) = debug_free c"
  "debug_free (c\<lparr>cl_svc := v\<rparr>) = debug_free c"
  "debug_free (c\<lparr>cl_wire := w\<rparr>) = debug_free c"
  "debug_free (c\<lparr>cl_send_calls := n\<rparr>) = debug_free c"
  "debug_free (c\<lparr>g_connected := b\<rparr>) = debug_free c"
  "debug_free (c\<lparr>g_disconnect_requested := b\<rparr>) = debug_free c"
  "debug_free (c\<lparr>g_connect_requested := b\<rparr>) = debug_free c"
  "debug_free (c\<lparr>g_config := g\<rparr>) = debug_free c"
  "debug_free (c\<lparr>g_config_lock := k\<rparr>) = debug_free c"
  by (simp_all add: debug_free_def)

lemma with_debug_lock_keeps_free [simp]: "debug_free c \<Longrightarrow> debug_free (with_debug_lock f c)"
  by (simp add: with_debug_lock_free)


subsection \<open>Sending\<close>

lemma with_debug_lock_frame [simp]:
  "cl_wire (with_debug_lock f c) = cl_wire c"
  "cl_send_calls (with_debug_lock f c) = cl_send_calls c"
  "g_connected (with_debug_lock f c) = g_connected c"
  "g_disconnect_requested (with_debug_lock f c) = g_disconnect_requested c"
  "g_connect_requested (with_debug_lock f c) = g_connect_requested c"
  "g_config (with_debug_lock f c) = g_config c"
  "g_config_lock (with_debug_lock f c) = g_config_lock c"
  by (simp_all add: with_debug_lock_def split: option.split prod.split bool.split)

lemma send_loop_done: "send_loop pf sent [] c = (int sent, stratum_debug_inc tx_lines_update c)"
  by (subst send_loop.simps) simp

lemma send_loop_step:
  fixes pf :: platform and c :: stratum_client
  assumes "rest \<noteq> []"
  defines "rc \<equiv> pf_send pf (cl_send_calls c) (length rest)"
  defines "c1 \<equiv> stratum_debug_set_send_status rc (c\<lparr>cl_send_calls := cl_send_calls c + 1\<rparr>)"
  shows "send_loop pf sent rest c =
    (if rc \<le> 0 then (rc, stratum_debug_set_event (''send failed rc='' @ format_ld rc) c1)
     else send_loop pf (sent + nat rc) (drop (nat rc) rest) (c1\<lparr>cl_wire := cl_wire c1 @ take (nat rc) rest\<rparr>))"
  using assms by (subst send_loop.simps) (simp add: Let_def)

lemma send_loop_wire:
  assumes "sends_at_most pf" "send_loop pf sent rest c = (rc, c')"
  shows "if 0 < rc \<or> rest = [] then rc = int (sent + length rest) \<and> cl_wire c' = cl_wire c @ rest
     else \<exists>k < length rest. \<exists>m \<ge> cl_send_calls c. cl_wire c' = cl_wire c @ take k rest \<and>
       cl_send_calls c' = Suc m \<and> rc = pf_send pf m (length rest - k)"
  using assms(2)
proof (induction "length rest" arbitrary: sent rest c rule: less_induct)
  case less
  show ?case
  proof (cases "rest = []")
    case True
    then show ?thesis using less.prems by (auto simp: send_loop_done debug_ops)
  next
    case False
    define n where "n = pf_send pf (cl_send_calls c) (length rest)"
    define c1 where "c1 = stratum_debug_set_send_status n (c\<lparr>cl_send_calls := cl_send_calls c + 1\<rparr>)"
    have wire: "cl_wire c1 = cl_wire c" and calls: "cl_send_calls c1 = Suc (cl_send_calls c)" by (simp_all add: c1_def debug_ops)
    note step = send_loop_step[OF False, of pf sent c, folded n_def, folded c1_def]
    show ?thesis
    proof (cases "n \<le> 0")
      case True
      then have f: "rc = n" "cl_send_calls c' = Suc (cl_send_calls c)" "cl_wire c' = cl_wire c @ take 0 rest"
        using less.prems False wire calls by (auto simp: step debug_ops)
      have "0 < length rest" "rc = pf_send pf (cl_send_calls c) (length rest - 0)" using False f(1) by (simp_all add: n_def)
      then show ?thesis using True False f by (metis less_le_not_le order_refl)
    next
      case pos: False
      have le: "nat n \<le> length rest" using assms(1) by (auto simp: sends_at_most_def n_def nat_le_iff)
      have "send_loop pf (sent + nat n) (drop (nat n) rest) (c1\<lparr>cl_wire := cl_wire c1 @ take (nat n) rest\<rparr>) = (rc, c')"
        using less.prems step pos by simp
      note IH = less.hyps[OF _ this]
      have tk: "take (nat n) rest @ take k (drop (nat n) rest) = take (nat n + k) rest" for k
        by (simp add: take_add)
      show ?thesis
      proof (cases "0 < rc \<or> drop (nat n) rest = []")
        case True
        then have "rc = int (sent + nat n + length (drop (nat n) rest))" "cl_wire c' = cl_wire c @ rest"
          using IH pos False wire by simp_all
        then show ?thesis using \<open>rest \<noteq> []\<close> le pos by (cases rest) auto
      next
        case False
        then obtain k m where k: "k < length rest - nat n" "cl_wire c' = cl_wire c @ take (nat n) rest @ take k (drop (nat n) rest)"
          "Suc (cl_send_calls c) \<le> m" "cl_send_calls c' = Suc m" "rc = pf_send pf m (length rest - nat n - k)"
          using IH pos wire calls \<open>rest \<noteq> []\<close> by auto
        then have "nat n + k < length rest" "cl_send_calls c \<le> m" "cl_wire c' = cl_wire c @ take (nat n + k) rest"
          "rc = pf_send pf m (length rest - (nat n + k))" using le by (simp_all add: tk)
        then show ?thesis using False \<open>rest \<noteq> []\<close> k(4) by simp blast
      qed
    qed
  qed
qed

lemma send_loop_free: "debug_free c \<Longrightarrow> debug_free (snd (send_loop pf sent rest c))"
proof (induction "length rest" arbitrary: sent rest c rule: less_induct)
  case less
  then show ?case
    by (cases "rest = []") (auto simp: send_loop_done send_loop_step debug_ops)
qed

lemma share_counts_upd [simp]:
  "share_counts (c\<lparr>cl_svc := v\<rparr>) = share_counts c"
  "share_counts (c\<lparr>cl_wire := w\<rparr>) = share_counts c"
  "share_counts (c\<lparr>cl_send_calls := n\<rparr>) = share_counts c"
  by (simp_all add: share_counts_def)

lemma share_counts_debug [simp]:
  assumes "debug_free c"
  shows "share_counts (stratum_debug_set_event ev c) = share_counts c"
    "share_counts (stratum_debug_set_tx_line ev c) = share_counts c"
    "share_counts (stratum_debug_set_send_status st c) = share_counts c"
    "share_counts (stratum_debug_inc tx_lines_update c) = share_counts c"
    "share_counts (with_debug_lock (\<lambda>d. d\<lparr>last_share_tick := t\<rparr>) c) = share_counts c"
  using assms by (simp_all add: debug_ops with_debug_lock_free share_counts_def)

lemma debug_op_free [simp]:
  assumes "debug_free c"
  shows "debug_free (stratum_debug_set_event ev c)" "debug_free (stratum_debug_set_tx_line ev c)"
    "debug_free (stratum_debug_set_rx_line ev c)" "debug_free (stratum_debug_set_recv_status st c)"
    "debug_free (stratum_debug_set_send_status st c)" "debug_free (stratum_debug_inc k c)"
  using assms by (simp_all add: debug_ops)

lemma send_loop_counts: "debug_free c \<Longrightarrow> share_counts (snd (send_loop pf sent rest c)) = share_counts c"
proof (induction "length rest" arbitrary: sent rest c rule: less_induct)
  case less
  then show ?case
    by (cases "rest = []") (auto simp: send_loop_done send_loop_step)
qed

lemma submit_share_free: "debug_free c \<Longrightarrow> debug_free (submit_share pf config r j c)"
  by (simp add: submit_share_def send_line_def send_loop_free split_beta Let_def)

lemma submit_share_counts:
  assumes "debug_free c"
  shows "share_candidates (g_debug (submit_share pf config r j c)) = share_candidates (g_debug c)"
    "share_submits (g_debug (submit_share pf config r j c)) +
       share_send_failures (g_debug (submit_share pf config r j c)) =
     share_submits (g_debug c) + share_send_failures (g_debug c) + (if job_id j = [] then 0 else 1)"
proof -
  let ?l = "snprintf_s 512 (submit_line (cfg_user config) (job_id j) (job_extranonce2 j) (job_ntime j) (res_nonce r))"
  let ?c = "snd (send_loop pf 0 ?l (stratum_debug_set_tx_line ?l c))"
  have f: "debug_free ?c" using assms by (simp add: send_loop_free)
  have "share_counts ?c = share_counts c" using assms by (simp add: send_loop_counts)
  then have eqs: "share_candidates (g_debug ?c) = share_candidates (g_debug c)"
    "share_submits (g_debug ?c) = share_submits (g_debug c)"
    "share_send_failures (g_debug ?c) = share_send_failures (g_debug c)"
    by (simp_all add: share_counts_def)
  show "share_candidates (g_debug (submit_share pf config r j c)) = share_candidates (g_debug c)"
    "share_submits (g_debug (submit_share pf config r j c)) +
       share_send_failures (g_debug (submit_share pf config r j c)) =
     share_submits (g_debug c) + share_send_failures (g_debug c) + (if job_id j = [] then 0 else 1)"
    using f by (simp_all add: submit_share_def send_line_def stratum_debug_inc_def stratum_debug_set_event_def
        with_debug_lock_free eqs split_beta Let_def)
qed

lemma drain_share_results_Nil:
  assumes "queue_ok (g_result_queue (cl_svc c))" "queue_items (g_result_queue (cl_svc c)) = []"
  shows "drain_share_results pf config c = c"
  using rq.receive_Nil[OF assms]
  by (subst drain_share_results.simps) (simp add: miner_service_take_result_def)

lemma drain_share_results_Cons:
  assumes "queue_ok (g_result_queue (cl_svc c))" "queue_items (g_result_queue (cl_svc c)) = e # es"
  shows "drain_share_results pf config c = drain_share_results pf config
    (submit_share pf config (ev_result e) (ev_job e) (stratum_debug_inc share_candidates_update
      (c\<lparr>cl_svc := (cl_svc c)\<lparr>g_result_queue := snd (xQueueReceive (g_result_queue (cl_svc c)))\<rparr>\<rparr>)))"
  using rq.receive_Cons[OF assms]
  by (subst drain_share_results.simps) (auto simp: miner_service_take_result_def split: prod.split option.split)

text \<open>Induction over the results in the queue: one result is taken, counted and submitted.\<close>

lemma drain_induct:
  assumes "queue_ok (g_result_queue (cl_svc c))"
    and Nil: "\<And>c. queue_items (g_result_queue (cl_svc c)) = [] \<Longrightarrow> P c [] c"
    and Cons: "\<And>c s e es c'. P (submit_share pf config (ev_result e) (ev_job e)
          (stratum_debug_inc share_candidates_update (c\<lparr>cl_svc := s\<rparr>))) es c' \<Longrightarrow> P c (e # es) c'"
  shows "P c (queue_items (g_result_queue (cl_svc c))) (drain_share_results pf config c)"
  using assms(1)
proof (induction "queue_items (g_result_queue (cl_svc c))" arbitrary: c)
  case Nil
  then show ?case using assms(2)[of c] drain_share_results_Nil[of c] by simp
next
  case (Cons e es)
  let ?s = "(cl_svc c)\<lparr>g_result_queue := snd (xQueueReceive (g_result_queue (cl_svc c)))\<rparr>"
  let ?c = "submit_share pf config (ev_result e) (ev_job e) (stratum_debug_inc share_candidates_update (c\<lparr>cl_svc := ?s\<rparr>))"
  note r = rq.receive_Cons[OF Cons.prems Cons.hyps(2)[symmetric]]
  have "P ?c (queue_items (g_result_queue (cl_svc ?c))) (drain_share_results pf config ?c)"
    by (rule Cons.hyps(1)) (use r in simp_all)
  then have "P ?c es (drain_share_results pf config c)"
    using r drain_share_results_Cons[OF Cons.prems Cons.hyps(2)[symmetric], of pf config] by simp
  then show ?case using assms(3) by (simp flip: Cons.hyps(2))
qed

lemma drain_counts:
  fixes pf :: platform and config :: stratum_config
  assumes "queue_ok (g_result_queue (cl_svc c))" "debug_free c"
  defines "es \<equiv> queue_items (g_result_queue (cl_svc c))" and "c' \<equiv> drain_share_results pf config c"
  shows "debug_free c' \<and> queue_items (g_result_queue (cl_svc c')) = [] \<and>
    share_candidates (g_debug c') = share_candidates (g_debug c) + of_nat (length es) \<and>
    share_submits (g_debug c') + share_send_failures (g_debug c') =
      share_submits (g_debug c) + share_send_failures (g_debug c) + of_nat (length (reportable es))"
proof -
  have "debug_free c \<longrightarrow> debug_free c' \<and> queue_items (g_result_queue (cl_svc c')) = [] \<and>
    share_candidates (g_debug c') = share_candidates (g_debug c) + of_nat (length es) \<and>
    share_submits (g_debug c') + share_send_failures (g_debug c') =
      share_submits (g_debug c) + share_send_failures (g_debug c) + of_nat (length (reportable es))"
    unfolding es_def c'_def
  proof (rule drain_induct[OF assms(1), where pf = pf and config = config], goal_cases)
    case (1 c)
    then show ?case by (simp add: reportable_def)
  next
    case (2 c s e es c')
    let ?c = "stratum_debug_inc share_candidates_update (c\<lparr>cl_svc := s\<rparr>)"
    show ?case
    proof
      assume f: "debug_free c"
      then have f': "debug_free ?c" by simp
      have "share_candidates (g_debug ?c) = share_candidates (g_debug c) + 1"
        "share_submits (g_debug ?c) = share_submits (g_debug c)"
        "share_send_failures (g_debug ?c) = share_send_failures (g_debug c)"
        using f by (simp_all add: stratum_debug_inc_def with_debug_lock_free)
      then show "debug_free c' \<and> queue_items (g_result_queue (cl_svc c')) = [] \<and>
        share_candidates (g_debug c') = share_candidates (g_debug c) + of_nat (length (e # es)) \<and>
        share_submits (g_debug c') + share_send_failures (g_debug c') =
          share_submits (g_debug c) + share_send_failures (g_debug c) + of_nat (length (reportable (e # es)))"
        using 2 submit_share_free[OF f', of pf config "ev_result e" "ev_job e"]
          submit_share_counts[OF f', of pf config "ev_result e" "ev_job e"]
        by (simp add: reportable_def)
    qed
  qed
  then show ?thesis using assms(2) by simp
qed

lemma submit_line_fits:
  assumes "length user < 128" "job_wf j"
  shows "length (submit_line user (job_id j) (job_extranonce2 j) (job_ntime j) nonce) < 512"
  using assms by (simp add: submit_line_def json_quote_def json_escape_def format_08lx_def job_wf_def
      STRATUM_JOB_ID_BYTES_def STRATUM_EXTRANONCE2_BYTES_def)

lemma send_line_all:
  assumes "sends_all pf" "line \<noteq> []"
  shows "cl_wire (snd (send_line pf line c)) = cl_wire c @ line" "0 < fst (send_line pf line c)"
  using assms
  by (simp_all add: send_line_def send_loop_step send_loop_done sends_all_def debug_ops)

lemma submit_share_wire:
  assumes "sends_all pf" "config_fits config" "job_wf (ev_job e)"
  shows "cl_wire (submit_share pf config (ev_result e) (ev_job e) c) =
    cl_wire c @ concat (map (share_line config) (reportable [e]))"
proof -
  let ?l = "submit_line (cfg_user config) (job_id (ev_job e)) (job_extranonce2 (ev_job e))
     (job_ntime (ev_job e)) (res_nonce (ev_result e))"
  have "length ?l < 512" using submit_line_fits assms(2,3) by (simp add: config_fits_def)
  then have l: "snprintf_s 512 ?l = ?l" by (simp add: snprintf_s_def)
  have "?l \<noteq> []" by (simp add: submit_line_def)
  then show ?thesis
    using send_line_all[OF assms(1), of ?l c]
    by (simp add: submit_share_def l reportable_def share_line_def debug_ops split_beta Let_def)
qed

lemma drain_empties:
  assumes "queue_ok (g_result_queue (cl_svc c))"
  shows "queue_items (g_result_queue (cl_svc (drain_share_results pf config c))) = []"
  by (rule drain_induct[OF assms, where P = "\<lambda>_ _ c'. queue_items (g_result_queue (cl_svc c')) = []"])

lemma drain_wire:
  assumes "sends_all pf" "config_fits config" "queue_ok (g_result_queue (cl_svc c))"
    and "\<And>e. e \<in> set (queue_items (g_result_queue (cl_svc c))) \<Longrightarrow> job_wf (ev_job e)"
  shows "cl_wire (drain_share_results pf config c) =
    cl_wire c @ concat (map (share_line config) (reportable (queue_items (g_result_queue (cl_svc c)))))"
proof -
  have "(\<forall>e \<in> set (queue_items (g_result_queue (cl_svc c))). job_wf (ev_job e)) \<longrightarrow> ?thesis"
  proof (rule drain_induct[OF assms(3), where pf = pf and config = config], goal_cases)
    case (2 c s e es c')
    then show ?case
      using submit_share_wire[OF assms(1,2), of e "stratum_debug_inc share_candidates_update (c\<lparr>cl_svc := s\<rparr>)"]
      by (auto simp: reportable_def debug_ops)
  qed (simp add: reportable_def)
  then show ?thesis using assms(4) by blast
qed


subsection \<open>Framing\<close>

lemma feed_append: "feed pf (xs @ ys) y = do { y' \<leftarrow> feed pf xs y; feed pf ys y' }"
proof (induction xs arbitrary: y)
  case (Cons ch xs)
  then show ?case by (cases "stratum_task_step pf (recv_byte ch) y") (simp_all del: stratum_task_step.simps)
qed simp

lemma div_mod_Suc:
  fixes m n :: nat
  assumes "0 < m"
  shows "Suc n div m = (if n mod m = m - 1 then Suc (n div m) else n div m)"
    "Suc n mod m = (if n mod m = m - 1 then 0 else Suc (n mod m))"
  using assms by (auto simp: div_Suc mod_Suc)

lemma line_tail_snoc:
  "line_tail (s @ [c]) = (if length s mod 2048 = 2047 then [] else line_tail s @ [c])"
proof -
  have "2048 * (length s div 2048) \<le> length s" by simp
  then show ?thesis
    using mult_div_mod_eq[of 2048 "length s"]
    by (auto simp: line_tail_def STRATUM_LINE_BUFFER_BYTES_def div_mod_Suc[of 2048])
qed

lemma length_line_tail: "length (line_tail s) = length s mod 2048"
  by (simp add: line_tail_def STRATUM_LINE_BUFFER_BYTES_def minus_mult_div_eq_mod)

text \<open>What the task has after the bytes of a line without its end.\<close>

lemma feed_line:
  assumes "length (ss_line ss) = STRATUM_LINE_BUFFER_BYTES" "ss_used ss = 0"
    and "\<not> g_disconnect_requested c" "CHR 0x0A \<notin> set bs"
  shows "\<exists>buf. length buf = STRATUM_LINE_BUFFER_BYTES \<and>
    take (length (line_tail (kept_bytes bs))) buf = line_tail (kept_bytes bs) \<and>
    feed pf bs (T_Session ss, c) =
      Some (T_Session (ss\<lparr>ss_line := buf, ss_used := length (line_tail (kept_bytes bs))\<rparr>),
        (stratum_debug_set_event ''rx line overflow'' ^^ (length (kept_bytes bs) div STRATUM_LINE_BUFFER_BYTES)) c)"
  using assms(4)
proof (induction bs rule: rev_induct)
  case Nil
  then show ?case
    using assms(1,2) by (auto simp: kept_bytes_def line_tail_def intro!: exI[of _ "ss_line ss"])
next
  case (snoc b bs)
  let ?k = "kept_bytes bs"
  define n where "n = length ?k div STRATUM_LINE_BUFFER_BYTES"
  define cn where "cn = (stratum_debug_set_event ''rx line overflow'' ^^ n) c"
  have cn: "\<not> g_disconnect_requested cn"
    unfolding cn_def using assms(3) by (induction n) (simp_all add: debug_ops)
  obtain buf where buf: "length buf = 2048" "take (length (line_tail ?k)) buf = line_tail ?k"
    "feed pf bs (T_Session ss, c) = Some (T_Session (ss\<lparr>ss_line := buf, ss_used := length (line_tail ?k)\<rparr>), cn)"
    using snoc by (auto simp: STRATUM_LINE_BUFFER_BYTES_def n_def cn_def)
  have lt: "length (line_tail ?k) < 2048" by (simp add: length_line_tail)
  have upd: "take (Suc (length (line_tail ?k))) (buf[length (line_tail ?k) := b]) = line_tail ?k @ [b]"
    using buf(1,2) lt by (simp add: take_Suc_conv_app_nth)
  have step: "feed pf (bs @ [b]) (T_Session ss, c) =
      inner_step pf (recv_byte b) (ss\<lparr>ss_line := buf, ss_used := length (line_tail ?k)\<rparr>) cn"
    by (simp add: feed_append buf(3) split: bind_split)
  show ?case
  proof (cases "b = CHR 0x0D")
    case True
    have k: "kept_bytes (bs @ [b]) = ?k" using True by (simp add: kept_bytes_def)
    show ?thesis
      using step cn buf(1,2) True unfolding k n_def[symmetric] cn_def[symmetric]
      by (auto simp: inner_step_def recv_byte_def receive_char_def STRATUM_LINE_BUFFER_BYTES_def
          intro!: exI[of _ buf])
  next
    case False
    have k: "kept_bytes (bs @ [b]) = ?k @ [b]" using False by (simp add: kept_bytes_def)
    have "b \<noteq> CHR 0x0A" using snoc.prems by auto
    note step = step[unfolded inner_step_def receive_char_def]
    show ?thesis
    proof (cases "length ?k mod 2048 = 2047")
      case True
      then show ?thesis
        using step cn buf(1) False \<open>b \<noteq> CHR 0x0A\<close>
        by (auto simp: k line_tail_snoc length_line_tail recv_byte_def STRATUM_LINE_BUFFER_BYTES_def
            div_mod_Suc[of 2048] cn_def n_def intro!: exI[of _ buf])
    next
      case False
      then have "length ?k mod 2048 < 2047" using mod_less_divisor[of 2048 "length ?k"] by linarith
      then show ?thesis
        using step cn buf(1) False upd \<open>b \<noteq> CHR 0x0A\<close> \<open>b \<noteq> CHR 0x0D\<close>
        by (auto simp: k line_tail_snoc length_line_tail recv_byte_def STRATUM_LINE_BUFFER_BYTES_def
            div_mod_Suc[of 2048] cn_def n_def intro!: exI[of _ "buf[length (line_tail ?k) := b]"])
    qed
  qed
qed

lemma c_string_line:
  assumes "take n buf = s" "n < length buf" "n = length s"
  shows "c_string (buf[n := NUL]) = c_string s"
  using assms by (simp add: c_string_def upd_conv_take_nth_drop takeWhile_tail)

text \<open>
  The pool's bytes are cut into lines exactly: for any bytes without a line feed followed by a
  line feed, the task handles one line, the bytes without carriage returns up to an embedded NUL,
  when they fit the 2048-byte buffer with its NUL; of a longer line it handles what is left
  after every 2048 bytes, and it never indexes the buffer out of its bounds. Then it
  submits the waiting results and refills the miner.
\<close>

theorem lines_framed:
  assumes "length (ss_line ss) = STRATUM_LINE_BUFFER_BYTES" "ss_used ss = 0"
    and "\<not> g_disconnect_requested c" "CHR 0x0A \<notin> set bs"
  defines "line \<equiv> line_tail (kept_bytes bs)"
    and "c1 \<equiv> (stratum_debug_set_event ''rx line overflow'' ^^ (length (kept_bytes bs) div STRATUM_LINE_BUFFER_BYTES)) c"
  shows "length line < STRATUM_LINE_BUFFER_BYTES \<and>
    (length (kept_bytes bs) < STRATUM_LINE_BUFFER_BYTES \<longrightarrow> line = kept_bytes bs \<and> c1 = c) \<and>
    (\<exists>buf. length buf = STRATUM_LINE_BUFFER_BYTES \<and>
      feed pf (bs @ [CHR 0x0A]) (T_Session ss, c) =
        map_option (\<lambda>(state, c2). poll_results pf (ss\<lparr>ss_state := state, ss_line := buf, ss_used := 0\<rparr>) c2)
          (handle_stratum_line pf (c_string line) (ss_state ss, c1)))"
proof -
  obtain buf where buf: "length buf = STRATUM_LINE_BUFFER_BYTES" "take (length line) buf = line"
    "feed pf bs (T_Session ss, c) = Some (T_Session (ss\<lparr>ss_line := buf, ss_used := length line\<rparr>), c1)"
    using feed_line[OF assms(1-4), of pf] by (auto simp: line_def c1_def)
  have lt: "length line < STRATUM_LINE_BUFFER_BYTES"
    by (simp add: line_def length_line_tail STRATUM_LINE_BUFFER_BYTES_def)
  have run: "\<not> g_disconnect_requested ((stratum_debug_set_event ev ^^ n) c)" for ev n
    using assms(3) by (induction n) (simp_all add: debug_ops)
  have cs: "c_string (buf[length line := NUL]) = c_string line"
    using c_string_line[OF buf(2)] lt buf(1) by simp
  have "feed pf (bs @ [CHR 0x0A]) (T_Session ss, c) =
      map_option (\<lambda>(state, c2). poll_results pf (ss\<lparr>ss_state := state, ss_line := buf[length line := NUL],
          ss_used := 0\<rparr>) c2) (handle_stratum_line pf (c_string line) (ss_state ss, c1))"
    using run by (auto simp: feed_append buf(3) inner_step_def receive_char_def recv_byte_def cs c1_def
        split: bind_split prod.split)
  moreover have "length (kept_bytes bs) < STRATUM_LINE_BUFFER_BYTES \<longrightarrow> line = kept_bytes bs \<and> c1 = c"
    by (simp add: line_def c1_def line_tail_def)
  ultimately show ?thesis using lt buf(1) by (intro conjI exI[of _ "buf[length line := NUL]"]) simp_all
qed

theorem lines_framed_witness:
  "\<exists>buf. feed demo_pf ([CHR ''{'', CHR ''}'', CHR 0x0D] @ [CHR 0x0A]) (T_Session demo_line_session, demo_client) =
     map_option (\<lambda>(state, c2). poll_results demo_pf
         (demo_line_session\<lparr>ss_state := state, ss_line := buf, ss_used := 0\<rparr>) c2)
       (handle_stratum_line demo_pf ''{}'' (zero_state, demo_client))"
  using lines_framed[of demo_line_session demo_client "[CHR ''{'', CHR ''}'', CHR 0x0D]" demo_pf]
  by (auto simp: demo_line_session_def demo_client_def stratum_client_start_def kept_bytes_def c_string_def
      NUL_def STRATUM_LINE_BUFFER_BYTES_def)


subsection \<open>Properties of the client's operations\<close>

text \<open>
  C35. A line goes out whole or is reported: when \<open>send_line\<close> returns a positive number it is the
  length of the line, and exactly the line has been appended to the bytes on the wire, however many
  calls of \<open>FreeRTOS_send\<close> it took; when it returns 0 or an error, the wire has got a proper prefix
  of the line, and the value returned is the one that the last call of \<open>FreeRTOS_send\<close>, with the rest of the line, returned.
\<close>

theorem send_line_whole_or_reported:
  assumes "sends_at_most pf" "line \<noteq> []" "send_line pf line c = (rc, c')"
  shows "(0 < rc \<longrightarrow> rc = int (length line) \<and> cl_wire c' = cl_wire c @ line) \<and>
         (rc \<le> 0 \<longrightarrow> (\<exists>k < length line. \<exists>m \<ge> cl_send_calls c. cl_wire c' = cl_wire c @ take k line \<and>
            cl_send_calls c' = Suc m \<and> rc = pf_send pf m (length line - k)))"
  using send_loop_wire[OF assms(1) assms(3)[unfolded send_line_def]] assms(2)
  by (auto simp: debug_ops split: if_splits)

text \<open>A socket that takes ten bytes and then reports an error.\<close>

definition stalling_pf :: platform where
  "stalling_pf = demo_pf\<lparr>pf_send := \<lambda>call len. if call = 0 then min 10 (int len) else -128\<rparr>"

theorem send_line_whole_or_reported_witness:
  "cl_wire (snd (send_line demo_pf subscribe_line demo_client)) = subscribe_line \<and>
   fst (send_line stalling_pf subscribe_line demo_client) = -128 \<and>
   (\<exists>k < length subscribe_line. cl_wire (snd (send_line stalling_pf subscribe_line demo_client)) = take k subscribe_line)"
proof -
  have s: "sends_at_most demo_pf" "sends_at_most stalling_pf"
    by (simp_all add: sends_at_most_def demo_pf_def stalling_pf_def)
  have l: "subscribe_line \<noteq> []" by (simp add: subscribe_line_def)
  have w: "cl_wire demo_client = []" by (simp add: demo_client_def stratum_client_start_def)
  have c: "cl_send_calls demo_client = 0" by (simp add: demo_client_def stratum_client_start_def)
  have "0 < fst (send_line demo_pf subscribe_line demo_client)"
    using send_line_all(2)[of demo_pf subscribe_line] by (simp add: sends_all_def demo_pf_def subscribe_line_def)
  moreover have f: "fst (send_line stalling_pf subscribe_line demo_client) = -128"
    by (simp add: send_line_def subscribe_line_def json_quote_def json_escape_def send_loop_step stalling_pf_def c debug_ops)
  ultimately show ?thesis
    using send_line_whole_or_reported[OF s(1) l, of demo_client] send_line_whole_or_reported[OF s(2) l, of demo_client] w
    by (cases "send_line demo_pf subscribe_line demo_client"; cases "send_line stalling_pf subscribe_line demo_client") auto
qed

text \<open>
  No result is lost between the miner and the pool: draining takes every waiting result out of
  the queue, counts each as a candidate, and counts each result of a job with an identifier exactly
  once as submitted or as a failed send.
\<close>

theorem shares_accounted:
  fixes pf :: platform and config :: stratum_config
  assumes "queue_ok (g_result_queue (cl_svc c))" "debug_free c"
  defines "es \<equiv> queue_items (g_result_queue (cl_svc c))" and "c' \<equiv> drain_share_results pf config c"
  shows "queue_items (g_result_queue (cl_svc c')) = [] \<and>
    share_candidates (g_debug c') = share_candidates (g_debug c) + of_nat (length es) \<and>
    share_submits (g_debug c') + share_send_failures (g_debug c') =
      share_submits (g_debug c) + share_send_failures (g_debug c) + of_nat (length (reportable es))"
  using drain_counts[OF assms(1,2), of pf config] by (simp add: es_def c'_def)

lemma demo_queue:
  "queue_ok (g_result_queue (cl_svc demo_client))"
  "queue_items (g_result_queue (cl_svc demo_client)) = [\<lparr>ev_result = zero_result, ev_job = zero_job\<rparr>, demo_event]"
  "debug_free demo_client"
proof -
  show "queue_ok (g_result_queue (cl_svc demo_client))"
    "queue_items (g_result_queue (cl_svc demo_client)) = [\<lparr>ev_result = zero_result, ev_job = zero_job\<rparr>, demo_event]"
    by code_simp+
  show "debug_free demo_client"
    by (simp add: debug_free_def demo_client_def stratum_client_start_def lock_ok_def
        xSemaphoreCreateMutex_def xSemaphoreGive_def)
qed

theorem shares_accounted_witness:
  "share_candidates (g_debug (drain_share_results demo_pf default_config demo_client)) = 2 \<and>
   share_submits (g_debug (drain_share_results demo_pf default_config demo_client)) +
     share_send_failures (g_debug (drain_share_results demo_pf default_config demo_client)) = 1"
  using shares_accounted[OF demo_queue(1,3), of demo_pf default_config]
  by (simp add: demo_queue(2) reportable_def demo_event_def zero_job_def)
    (simp add: demo_client_def stratum_client_start_def zero_debug_def)

text \<open>
  C31. The pool gets every share in full and in order: while the network accepts what is offered,
  draining empties the result queue and appends to the wire one complete \<open>mining.submit\<close> line per result of a job with an
  identifier, in the order of the queue, with the job's own identifier, extranonce2 and time and the
  nonce found; no line is truncated by the 512-byte buffer.
\<close>

theorem shares_on_the_wire:
  assumes "sends_all pf" "config_fits config" "queue_ok (g_result_queue (cl_svc c))"
    and "\<And>e. e \<in> set (queue_items (g_result_queue (cl_svc c))) \<Longrightarrow> job_wf (ev_job e)"
  shows "cl_wire (drain_share_results pf config c) =
    cl_wire c @ concat (map (share_line config) (reportable (queue_items (g_result_queue (cl_svc c))))) \<and>
    queue_items (g_result_queue (cl_svc (drain_share_results pf config c))) = []"
  using drain_wire[OF assms] drain_empties[OF assms(3)] by (rule conjI)

theorem shares_on_the_wire_witness:
  "cl_wire (drain_share_results demo_pf default_config demo_client) =
     submit_line ''replace-with-btc-address'' ''4f'' ''00000001'' ''5f5e1000'' 0xdeadbeef \<and>
   queue_items (g_result_queue (cl_svc (drain_share_results demo_pf default_config demo_client))) = []"
proof -
  have "sends_all demo_pf" by (simp add: sends_all_def demo_pf_def)
  moreover have "config_fits default_config" by (simp add: config_fits_def default_config_def)
  moreover have "job_wf (ev_job e)" if "e \<in> set (queue_items (g_result_queue (cl_svc demo_client)))" for e
    using that by (auto simp: demo_queue(2) job_wf_def job_ok_def demo_event_def zero_job_def
        STRATUM_JOB_ID_BYTES_def STRATUM_EXTRANONCE2_BYTES_def)
  ultimately have "cl_wire (drain_share_results demo_pf default_config demo_client) =
      cl_wire demo_client @ concat (map (share_line default_config)
        (reportable (queue_items (g_result_queue (cl_svc demo_client))))) \<and>
      queue_items (g_result_queue (cl_svc (drain_share_results demo_pf default_config demo_client))) = []"
    by (intro shares_on_the_wire demo_queue(1)) blast+
  moreover have "cl_wire demo_client = []" by (simp add: demo_client_def stratum_client_start_def)
  ultimately show ?thesis
    by (simp add: demo_queue(2) reportable_def share_line_def demo_event_def zero_job_def default_config_def)
qed

end
