(* ===== verification/Telemetry.thy ===== *)
theory Telemetry
  imports CLib "HOL-Library.Signed_Division"
begin

unbundle bit_operations_syntax

section \<open>Board telemetry\<close>

text \<open>
  The model of \<^verbatim>\<open>src/telemetry.c\<close>, as built with the system-monitor driver, and of the text that
  \<^verbatim>\<open>src/telnet_server.c\<close> prints from it. The driver (\<open>XSysMonPsv_*\<close>, outside the repository) is the
  record \<open>sysmon\<close>: whether the device is found and initialises, and what its registers read.
  The lemmas bound the conversion and relate the printed decimal to the temperature.
\<close>

subsection \<open>Data\<close>

record telemetry_health =
  available :: bool
  temperature_centi_c :: int
  temperature_max_centi_c :: int
  temperature_min_centi_c :: int
  alarm_status :: u32

record telemetry_state =
  g_sysmon_initialized :: bool
  g_sysmon_available :: bool

record sysmon =
  sm_config_found :: bool
  sm_init_success :: bool
  sm_temp :: u32
  sm_temp_max :: u32
  sm_temp_min :: u32
  sm_intr_status :: u32


subsection \<open>Operations\<close>

text \<open>The signed 8.7 fixed-point reading in hundredths of a degree; C division truncates.\<close>

definition q8p7_to_centi_c :: "u32 \<Rightarrow> int" where
  "q8p7_to_centi_c raw =
     (let q8p7 = sint (ucast (raw AND 0xffff) :: 16 word) in (q8p7 * 100) sdiv 128)"

definition sysmon_init_once :: "sysmon \<Rightarrow> telemetry_state \<Rightarrow> bool \<times> telemetry_state" where
  "sysmon_init_once dev t =
     (if g_sysmon_initialized t then (g_sysmon_available t, t)
      else
        let t1 = t\<lparr>g_sysmon_initialized := True\<rparr>;
            t2 = (if sm_config_found dev \<and> sm_init_success dev then t1\<lparr>g_sysmon_available := True\<rparr> else t1)
        in (g_sysmon_available t2, t2))"

definition zero_health :: telemetry_health where
  "zero_health = \<lparr>available = False, temperature_centi_c = 0, temperature_max_centi_c = 0,
     temperature_min_centi_c = 0, alarm_status = 0\<rparr>"

text \<open>The value returned, and what the caller's structure holds afterwards.\<close>

definition telemetry_get_health ::
  "sysmon \<Rightarrow> telemetry_state \<Rightarrow> bool \<times> telemetry_health \<times> telemetry_state" where
  "telemetry_get_health dev t =
     (let (ok, t1) = sysmon_init_once dev t
      in if \<not> ok then (False, zero_health, t1)
         else (True,
               \<lparr>available = True,
                temperature_centi_c = q8p7_to_centi_c (sm_temp dev),
                temperature_max_centi_c = q8p7_to_centi_c (sm_temp_max dev),
                temperature_min_centi_c = q8p7_to_centi_c (sm_temp_min dev),
                alarm_status = sm_intr_status dev\<rparr>, t1))"

text \<open>\<open>%ld.%02ld\<close> of the quotient and the absolute remainder by 100.\<close>

definition format_02ld :: "int \<Rightarrow> string" where
  "format_02ld i = (if \<bar>i\<bar> < 10 \<and> 0 \<le> i then ''0'' else []) @ format_ld i"

definition centi_text :: "int \<Rightarrow> string" where
  "centi_text t = format_ld (t sdiv 100) @ ''.'' @ format_02ld \<bar>t smod 100\<bar>"

definition health_text :: "telemetry_health \<Rightarrow> string" where
  "health_text h = ''health sysmon=ok temp='' @ centi_text (temperature_centi_c h) @ ''C min='' @
     centi_text (temperature_min_centi_c h) @ ''C max='' @ centi_text (temperature_max_centi_c h) @
     ''C alarms=0x'' @ format_08lx (alarm_status h) @ [CHR 0x0D, CHR 0x0A]"

text \<open>The number a reader takes from such a text: sign, whole part, two decimals.\<close>

definition read_centi :: "string \<Rightarrow> int" where
  "read_centi s =
     (let (neg, r) = (case s of c # r \<Rightarrow> if c = CHR ''-'' then (True, r) else (False, s) | [] \<Rightarrow> (False, s));
          (whole, r1) = read_digits 10 0 r;
          (frac, r2) = read_digits 10 0 (drop 1 r1);
          v = whole * 100 + frac
      in if neg then - v else v)"


subsection \<open>Conversion\<close>

lemma sdiv_bounds:
  fixes a b :: int
  assumes "0 < b"
  shows "\<bar>a - b * (a sdiv b)\<bar> < b" and "\<bar>a sdiv b\<bar> = \<bar>a\<bar> div b"
    and "0 \<le> a \<Longrightarrow> 0 \<le> a sdiv b" and "a \<le> 0 \<Longrightarrow> a sdiv b \<le> 0"
proof -
  have m: "\<bar>a\<bar> = b * (\<bar>a\<bar> div b) + \<bar>a\<bar> mod b" by simp
  have r: "0 \<le> \<bar>a\<bar> mod b" "\<bar>a\<bar> mod b < b" using assms by simp_all
  have q: "0 \<le> \<bar>a\<bar> div b" using assms by (simp add: pos_imp_zdiv_nonneg_iff)
  have d: "a sdiv b = sgn a * (\<bar>a\<bar> div b)" using assms by (simp add: signed_divide_int_def)
  show "\<bar>a sdiv b\<bar> = \<bar>a\<bar> div b" using q by (cases "a = 0") (simp_all add: d abs_mult)
  show "0 \<le> a \<Longrightarrow> 0 \<le> a sdiv b" "a \<le> 0 \<Longrightarrow> a sdiv b \<le> 0"
    using q by (simp_all add: d sgn_if)
  show "\<bar>a - b * (a sdiv b)\<bar> < b"
  proof (cases "0 \<le> a")
    case True
    then show ?thesis using r by (simp add: d sgn_if minus_mult_div_eq_mod)
  next
    case False
    then have "a - b * (a sdiv b) = - (\<bar>a\<bar> mod b)"
      using minus_mult_div_eq_mod[of "- a" b] by (simp add: d)
    then show ?thesis using r by simp
  qed
qed

lemma low_half: "(ucast (raw AND 0xffff) :: 16 word) = ucast (raw :: u32)"
proof -
  have "(0xffff :: u32) = mask 16" by (simp add: mask_eq_exp_minus_1)
  then show ?thesis by (auto simp: bit_eq_iff bit_simps)
qed

text \<open>
  The temperature conversion is right for every register value: the result is the signed
  fixed-point reading in hundredths of a degree, less than one hundredth away from the exact value and
  rounded towards zero, and it stays within the sensor's range of -256 to 256 degrees.
\<close>

theorem q8p7_conversion:
  "\<bar>128 * q8p7_to_centi_c raw - 100 * sint (ucast raw :: 16 word)\<bar> < 128 \<and>
   \<bar>128 * q8p7_to_centi_c raw\<bar> \<le> \<bar>100 * sint (ucast raw :: 16 word)\<bar> \<and>
   -25600 \<le> q8p7_to_centi_c raw \<and> q8p7_to_centi_c raw < 25600"
proof -
  let ?q = "sint (ucast raw :: 16 word)" and ?c = "q8p7_to_centi_c raw"
  have c: "?c = (?q * 100) sdiv 128" by (simp add: q8p7_to_centi_c_def low_half)
  have lo: "- (2 ^ 15) \<le> ?q" using sint_ge[of "ucast raw :: 16 word"] by simp
  have hi: "?q < 2 ^ 15" using sint_lt[of "ucast raw :: 16 word"] by simp
  have e: "\<bar>?q * 100 - 128 * ?c\<bar> < 128" unfolding c by (rule sdiv_bounds(1)) simp
  have a: "\<bar>?c\<bar> = \<bar>?q * 100\<bar> div 128" unfolding c by (rule sdiv_bounds(2)) simp
  have b: "128 * \<bar>?c\<bar> \<le> \<bar>100 * ?q\<bar>" unfolding a by (simp add: mult.commute)
  show ?thesis using e b lo hi by (auto simp: abs_if split: if_splits)
qed


subsection \<open>Text\<close>

lemma read_two_digits:
  assumes "0 \<le> f" "f < 100" "\<not> is_digit_of 10 r"
  shows "read_digits 10 0 (format_02ld f @ r) = (f, r)"
proof -
  have "read_digits 10 0 (dec_digits (nat f) @ r) = (f, r)"
    using read_digits_dec[OF assms(3), of "nat f"] assms(1) by simp
  moreover have "read_digits 10 0 (CHR ''0'' # s) = read_digits 10 0 s" for s
    by (simp add: digit_value_def)
  ultimately show ?thesis using assms(1) by (simp add: format_02ld_def format_ld_def)
qed

lemma format_ld_head: "0 \<le> i \<Longrightarrow> \<exists>c s. format_ld i = c # s \<and> c \<noteq> CHR ''-''"
proof -
  assume "0 \<le> i"
  then have f: "format_ld i = dec_digits (nat i)" by (simp add: format_ld_def)
  have "digit_value (CHR ''-'') \<ge> 10" by (simp add: digit_value_def)
  then show ?thesis using dec_digits_foldl[of "nat i"] by (cases "dec_digits (nat i)") (auto simp: f)
qed

lemma smod_abs: "0 < b \<Longrightarrow> \<bar>(a::int) smod b\<bar> = \<bar>a\<bar> mod b"
  by (cases "a = 0") (simp_all add: signed_modulo_int_def abs_mult)

text \<open>
  The console shows a temperature as it is: reading back the printed whole part, point and two
  decimals gives exactly the hundredths of a degree, for every value of at least 0 or at most -1
  degree. (Between them the sign is lost, see \<open>sign_lost_below_zero\<close>.)
\<close>

theorem centi_text_roundtrip:
  assumes "0 \<le> t \<or> t \<le> -100"
  shows "read_centi (centi_text t @ ''C'') = t"
proof -
  let ?w = "\<bar>t\<bar> div 100" and ?f = "\<bar>t\<bar> mod 100"
  have nd: "\<not> is_digit_of 10 ''C''" "\<not> is_digit_of 10 (''.'' @ s)" for s
    by (simp_all add: is_digit_of_def digit_value_def)
  have f: "format_02ld \<bar>t smod 100\<bar> = format_02ld ?f" by (simp add: smod_abs)
  have rd: "read_digits 10 0 (dec_digits (nat ?w) @ ''.'' @ format_02ld ?f @ ''C'') =
      (?w, ''.'' @ format_02ld ?f @ ''C'')"
    using read_digits_dec[OF nd(2)] by simp
  have rf: "read_digits 10 0 (format_02ld ?f @ ''C'') = (?f, ''C'')"
    by (rule read_two_digits[OF _ _ nd(1)]) simp_all
  show ?thesis
  proof (cases "0 \<le> t")
    case True
    then have q: "t sdiv 100 = ?w" using sdiv_bounds(2,3)[of 100 t] by simp
    obtain c s where cs: "format_ld ?w = c # s" "c \<noteq> CHR ''-''" using format_ld_head[of ?w] by (auto simp: pos_imp_zdiv_nonneg_iff)
    have "format_ld ?w = dec_digits (nat ?w)" using True by (simp add: format_ld_def)
    with cs have e: "dec_digits (nat ?w) = c # s" by simp
    show ?thesis
      using rd[unfolded e] rf True cs by (simp add: read_centi_def centi_text_def q f)
  next
    case False
    then have t: "t \<le> -100" using assms by simp
    then have q: "t sdiv 100 = - ?w" using sdiv_bounds(2,4)[of 100 t] by simp
    have "0 < ?w" using t by (simp add: pos_imp_zdiv_pos_iff)
    then have "format_ld (- ?w) = CHR ''-'' # dec_digits (nat ?w)" by (simp add: format_ld_def)
    then show ?thesis
      using rd rf t minus_mult_div_eq_mod[of "- t" 100]
      by (simp add: read_centi_def centi_text_def q f)
  qed
qed

theorem centi_text_roundtrip_witness: "read_centi (centi_text (-1234) @ ''C'') = -1234"
  by (rule centi_text_roundtrip) simp

text \<open>Half a degree below zero is printed like half a degree above it.\<close>

theorem sign_lost_below_zero:
  "q8p7_to_centi_c 0xffc0 = -50 \<and> centi_text (-50) = ''0.50'' \<and> centi_text 50 = ''0.50''"
  by code_simp

end
