(* ===== verification/Telnet.thy ===== *)
theory Telnet
  imports Stratum_Client Telemetry
begin

unbundle bit_operations_syntax

section \<open>The console\<close>

text \<open>
  The model of \<^verbatim>\<open>src/telnet_server.c\<close>: the Telnet option protocol, the line editor, the commands
  and the listening task. The console's state contains the pool client, and through it the miner
  service, that the commands act on.

  The environment is the record \<open>console_env\<close>: what \<open>FreeRTOS_send\<close> returns (call number and number
  of bytes offered), the system monitor, and what an uninitialised configuration on the
  stack holds. The bytes accepted by the network are recorded in \<open>co_out\<close>. A byte of the connection
  is a \<open>char\<close>. The register reads in the argument list of one \<open>sock_printf\<close>, whose order C leaves
  open, are made from left to right.
\<close>

subsection \<open>State\<close>

definition TELNET_IAC :: char where "TELNET_IAC = CHR 0xFF"
definition TELNET_DONT :: char where "TELNET_DONT = CHR 0xFE"
definition TELNET_DO :: char where "TELNET_DO = CHR 0xFD"
definition TELNET_WONT :: char where "TELNET_WONT = CHR 0xFC"
definition TELNET_WILL :: char where "TELNET_WILL = CHR 0xFB"
definition TELNET_SB :: char where "TELNET_SB = CHR 0xFA"
definition TELNET_SE :: char where "TELNET_SE = CHR 0xF0"
definition TELNET_OPT_ECHO :: char where "TELNET_OPT_ECHO = CHR 0x01"
definition TELNET_OPT_SUPPRESS_GO_AHEAD :: char where "TELNET_OPT_SUPPRESS_GO_AHEAD = CHR 0x03"
definition TELNET_RX_BUFFER_BYTES :: nat where "TELNET_RX_BUFFER_BYTES = 256"
definition TELNET_TX_BUFFER_BYTES :: nat where "TELNET_TX_BUFFER_BYTES = 512"

datatype telnet_parse_state =
    TELNET_PARSE_DATA
  | TELNET_PARSE_IAC
  | TELNET_PARSE_OPTION
  | TELNET_PARSE_SUBNEGOTIATION
  | TELNET_PARSE_SUBNEGOTIATION_IAC

record console_env =
  ce_send :: "nat \<Rightarrow> nat \<Rightarrow> int"
  ce_sysmon :: sysmon
  ce_stack_config :: stratum_config

record console =
  co_client :: stratum_client
  co_telemetry :: telemetry_state
  co_out :: string
  co_send_calls :: nat

definition co_svc :: "console \<Rightarrow> miner_service" where
  "co_svc t = cl_svc (co_client t)"

definition on_client :: "(stratum_client \<Rightarrow> stratum_client) \<Rightarrow> console \<Rightarrow> console" where
  "on_client f t = t\<lparr>co_client := f (co_client t)\<rparr>"

definition on_service :: "(miner_service \<Rightarrow> miner_service) \<Rightarrow> console \<Rightarrow> console" where
  "on_service f = on_client (\<lambda>c. c\<lparr>cl_svc := f (cl_svc c)\<rparr>)"

text \<open>A call of the register driver, with its value.\<close>

definition from_hw :: "(miner_hw \<Rightarrow> 'a \<times> miner_hw) \<Rightarrow> console \<Rightarrow> 'a \<times> console" where
  "from_hw f t =
     (let (v, hw) = f (svc_hw (co_svc t)) in (v, on_service (\<lambda>s. s\<lparr>svc_hw := hw\<rparr>) t))"

text \<open>A call of the miner service, with its value.\<close>

definition from_service :: "(miner_service \<Rightarrow> 'a \<times> miner_service) \<Rightarrow> console \<Rightarrow> 'a \<times> console" where
  "from_service f t = (let (v, s) = f (co_svc t) in (v, on_service (\<lambda>_. s) t))"

definition from_client :: "(stratum_client \<Rightarrow> 'a \<times> stratum_client) \<Rightarrow> console \<Rightarrow> 'a \<times> console" where
  "from_client f t = (let (v, c) = f (co_client t) in (v, t\<lparr>co_client := c\<rparr>))"


subsection \<open>Sending\<close>

function sock_send_all :: "console_env \<Rightarrow> string \<Rightarrow> console \<Rightarrow> console" where
  "sock_send_all env data t =
     (if data = [] then t
      else
        let sent = ce_send env (co_send_calls t) (length data);
            t1 = t\<lparr>co_send_calls := co_send_calls t + 1\<rparr>
        in if sent \<le> 0 then t1
           else sock_send_all env (drop (nat sent) data) (t1\<lparr>co_out := co_out t1 @ take (nat sent) data\<rparr>))"
  by pat_completeness auto
termination by (relation "measure (\<lambda>(_, data, _). length data)") auto

declare sock_send_all.simps [simp del]

text \<open>\<open>text\<close> is the formatted text in full; the buffer holds all but what exceeds it.\<close>

definition sock_printf :: "console_env \<Rightarrow> string \<Rightarrow> console \<Rightarrow> console" where
  "sock_printf env txt t =
     (if 0 < length txt
      then let send_len = (if length txt < TELNET_TX_BUFFER_BYTES then length txt else TELNET_TX_BUFFER_BYTES - 1)
           in sock_send_all env (take send_len txt) t
      else t)"

definition CRLF :: string where "CRLF = [CHR 0x0D, CHR 0x0A]"

definition telnet_send_command :: "console_env \<Rightarrow> char \<Rightarrow> char \<Rightarrow> console \<Rightarrow> console" where
  "telnet_send_command env command opt = sock_send_all env [TELNET_IAC, command, opt]"

definition telnet_negotiate :: "console_env \<Rightarrow> console \<Rightarrow> console" where
  "telnet_negotiate env t =
     (let t1 = telnet_send_command env TELNET_WONT TELNET_OPT_ECHO t;
          t2 = telnet_send_command env TELNET_WILL TELNET_OPT_SUPPRESS_GO_AHEAD t1
      in telnet_send_command env TELNET_DO TELNET_OPT_SUPPRESS_GO_AHEAD t2)"

definition telnet_handle_option :: "console_env \<Rightarrow> char \<Rightarrow> char \<Rightarrow> console \<Rightarrow> console" where
  "telnet_handle_option env command opt t =
     (if command = TELNET_DO
      then telnet_send_command env
             (if opt = TELNET_OPT_SUPPRESS_GO_AHEAD then TELNET_WILL else TELNET_WONT) opt t
      else if command = TELNET_WILL
      then telnet_send_command env
             (if opt = TELNET_OPT_SUPPRESS_GO_AHEAD then TELNET_DO else TELNET_DONT) opt t
      else t)"


subsection \<open>Tokens\<close>

definition is_blank :: "char \<Rightarrow> bool" where
  "is_blank c \<longleftrightarrow> c = CHR '' '' \<or> c = CHR 0x09"

text \<open>The token, None at the end of the line, and the rest of the line behind the token's separator.\<close>

definition next_token :: "string \<Rightarrow> string option \<times> string" where
  "next_token cursor =
     (let s = dropWhile is_blank cursor
      in if s = [] then (None, s)
         else (Some (takeWhile (\<lambda>c. \<not> is_blank c) s), drop 1 (dropWhile (\<lambda>c. \<not> is_blank c) s)))"

definition parse_u32_hex :: "string \<Rightarrow> u32" where
  "parse_u32_hex s = fst (strtoul s 16)"


subsection \<open>Reports\<close>

definition format_llu :: "u64 \<Rightarrow> string" where
  "format_llu w = dec_digits (unat w)"

definition print_hash :: "console_env \<Rightarrow> u32 list \<Rightarrow> console \<Rightarrow> console" where
  "print_hash env hash t = fold (\<lambda>i. sock_printf env (format_08lx (hash ! i))) [0..<8] t"

definition performance_text :: "miner_service_stats \<Rightarrow> u32 \<Rightarrow> u32 \<Rightarrow> string" where
  "performance_text miner engines uptime =
     ''performance nominal_hashrate='' @ format_lu (ucast MINER_HASHRATE_HS) @ '' H/s engines='' @
     format_lu engines @ '' uptime_ticks='' @ format_lu uptime @ '' active_job_age_ticks='' @
     format_lu (uptime - active_job_tick miner) @ '' issued='' @ format_llu (nonce_candidates_issued miner) @
     '' estimated_completed='' @ format_llu (nonce_candidates_completed_estimate miner) @ '' jobs='' @
     format_lu (jobs_started miner) @ ''/'' @ format_lu (jobs_queued miner) @ CRLF"

definition results_text :: "miner_service_stats \<Rightarrow> stratum_debug \<Rightarrow> u32 \<Rightarrow> string" where
  "results_text miner stratum uptime =
     ''results candidates='' @ format_lu (share_candidates stratum) @ '' submits='' @
     format_lu (share_submits stratum) @ '' accepted='' @ format_lu (share_accepted stratum) @
     '' rejected='' @ format_lu (share_rejected stratum) @ '' send_fail='' @
     format_lu (share_send_failures stratum) @ '' irq='' @ format_lu (irq_count miner) @
     '' queue_drop='' @ format_lu (result_queue_drops miner) @ '' overflow_polls='' @
     format_lu (overflow_polls miner) @ '' last_result_age_ticks='' @
     format_lu (uptime - last_result_tick miner) @ CRLF"

definition work_text :: "stratum_debug \<Rightarrow> u32 \<Rightarrow> string" where
  "work_text stratum uptime =
     ''work notify='' @ format_lu (notify_count stratum) @ '' dispatched='' @
     format_lu (job_dispatch_ok stratum) @ '' failed='' @ format_lu (job_dispatch_fail stratum) @
     '' target_word0='' @ format_08lx (target_word0 stratum) @ '' last_job_age_ticks='' @
     format_lu (uptime - last_job_tick stratum) @ CRLF"

definition reason_text :: "u32 \<Rightarrow> string" where
  "reason_text r = (if r = 1 then ''completed'' else if r = 2 then ''new-job''
     else if r = 3 then ''manual-stop'' else ''none'')"

definition ranges_text :: "miner_service_stats \<Rightarrow> string" where
  "ranges_text miner =
     ''ranges active_start='' @ format_08lx (active_nonce_start miner) @ '' active_count='' @
     format_08lx (active_nonce_count miner) @ '' completed='' @ format_lu (ranges_completed miner) @
     '' preempted='' @ format_lu (ranges_preempted miner) @ '' clean_preempted='' @
     format_lu (ranges_preempted_clean_job miner) @ '' stopped='' @ format_lu (ranges_stopped miner) @
     '' last_elapsed_ticks='' @ format_lu (last_range_elapsed_ticks miner) @ '' last_reason='' @
     reason_text (last_range_reason miner) @ CRLF"

definition print_stats :: "console_env \<Rightarrow> console \<Rightarrow> console" where
  "print_stats env t =
     (let uptime = xTickCount (co_svc t);
          miner = miner_service_get_stats (co_svc t);
          (dbg, t1) = from_client stratum_client_get_debug t;
          stratum = (case dbg of Some d \<Rightarrow> d | None \<Rightarrow> zero_debug);
          (engines, t2) = from_hw miner_num_engines t1;
          t3 = sock_printf env (performance_text miner engines uptime) t2;
          t4 = sock_printf env (results_text miner stratum uptime) t3;
          t5 = sock_printf env (work_text stratum uptime) t4
      in sock_printf env (ranges_text miner) t5)"

definition print_health :: "console_env \<Rightarrow> console \<Rightarrow> console" where
  "print_health env t =
     (let (ok, health, tel) = telemetry_get_health (ce_sysmon env) (co_telemetry t);
          t1 = t\<lparr>co_telemetry := tel\<rparr>
      in if \<not> ok \<or> \<not> available health then sock_printf env (''health sysmon=unavailable'' @ CRLF) t1
         else sock_printf env (health_text health) t1)"


subsection \<open>Commands\<close>

definition help_text :: string where
  "help_text = ''commands:'' @ CRLF @ ''  help'' @ CRLF @ ''  status'' @ CRLF @ ''  stats'' @ CRLF @
     ''  health'' @ CRLF @ ''  stratum'' @ CRLF @ ''  regs'' @ CRLF @
     ''  start <nonce_start_hex> <nonce_count_hex>'' @ CRLF @ ''  stop'' @ CRLF @ ''  clear'' @ CRLF @
     ''  pool <host> <port> <user> [pass]'' @ CRLF @ ''  connect'' @ CRLF @ ''  disconnect'' @ CRLF @
     ''  quit (or exit)'' @ CRLF"

definition status_text :: "u32 \<Rightarrow> u32 \<Rightarrow> bool \<Rightarrow> stratum_config \<Rightarrow> string" where
  "status_text status engines connected cfg =
     ''miner status=0x'' @ format_08lx status @ '' engines='' @ format_lu engines @ '' stratum='' @
     (if connected then ''connected'' else ''disconnected'') @ '' pool='' @ cfg_host cfg @ '':'' @
     format_lu (ucast (cfg_port cfg)) @ '' user='' @ cfg_user cfg @ CRLF"

definition last_result_text :: "miner_result \<Rightarrow> string" where
  "last_result_text r =
     ''last result nonce='' @ format_08lx (res_nonce r) @ '' engine='' @ format_lu (res_engine r) @
     '' status=0x'' @ format_08lx (res_status r) @ '' (nonce-only capture)'' @ CRLF"

definition command_status :: "console_env \<Rightarrow> console \<Rightarrow> console" where
  "command_status env t =
     (let (status, t1) = from_service miner_service_status t;
          (got, t2) = from_client stratum_client_get_config t1;
          cfg = (case got of Some g \<Rightarrow> g | None \<Rightarrow> ce_stack_config env);
          (engines, t3) = from_hw miner_num_engines t2;
          t4 = sock_printf env (status_text status engines (stratum_client_is_connected (co_client t3)) cfg) t3;
          (r, t5) = from_service (miner_service_get_last_result TelnetTask) t4
      in case r of None \<Rightarrow> t5 | Some result \<Rightarrow> sock_printf env (last_result_text result) t5)"

definition stratum_text :: "stratum_debug \<Rightarrow> string" where
  "stratum_text d =
     ''stratum attempts='' @ format_lu (connect_attempts d) @ '' successes='' @ format_lu (connect_successes d) @
     '' disconnects='' @ format_lu (disconnects d) @ '' tx='' @ format_lu (tx_lines d) @ '' rx='' @
     format_lu (rx_lines d) @ '' notify='' @ format_lu (notify_count d) @ '' diff='' @
     format_lu (difficulty_count d) @ '' target='' @ format_lu (target_count d) @ '' sub='' @
     format_lu (subscribe_ok d) @ '' auth='' @ format_lu (authorize_ok d) @ '' job_ok='' @
     format_lu (job_dispatch_ok d) @ '' job_fail='' @ format_lu (job_dispatch_fail d) @ '' recv='' @
     format_ld (last_recv_status d) @ '' send='' @ format_ld (last_send_status d) @ CRLF"

definition redacted_text :: string where
  "redacted_text = ''last_tx: <redacted; outbound Stratum messages may contain credentials>'' @ CRLF"

definition command_stratum :: "console_env \<Rightarrow> console \<Rightarrow> console" where
  "command_stratum env t =
     (let (got, t1) = from_client stratum_client_get_debug t;
          dbg = (case got of Some d \<Rightarrow> d | None \<Rightarrow> zero_debug);
          t2 = sock_printf env (stratum_text dbg) t1;
          t3 = sock_printf env (''event: '' @ last_event dbg @ CRLF) t2;
          t4 = sock_printf env redacted_text t3
      in sock_printf env (''last_rx: '' @ last_rx dbg @ CRLF) t4)"

definition instance_text :: "nat \<Rightarrow> u32 \<Rightarrow> u32 \<Rightarrow> u32 \<Rightarrow> u32 \<Rightarrow> string" where
  "instance_text inst st n rs ic =
     ''miner'' @ format_lu (of_nat inst) @ '' base=0x'' @
     format_08lx (MINER_AXI_BASEADDR + of_nat inst * MINER_AXI_INSTANCE_STRIDE) @ '' STATUS=0x'' @
     format_08lx st @ '' NUM_ENGINES='' @ format_lu n @ '' RESULT_STATUS=0x'' @ format_08lx rs @
     '' IRQ_CONTROL=0x'' @ format_08lx ic @ CRLF"

definition print_instance :: "console_env \<Rightarrow> nat \<Rightarrow> console \<Rightarrow> console" where
  "print_instance env inst t =
     (let (st, t1) = from_hw (miner_read_reg_instance inst MINER_REG_STATUS) t;
          (n, t2) = from_hw (miner_read_reg_instance inst MINER_REG_NUM_ENGINES) t1;
          (rs, t3) = from_hw (miner_read_reg_instance inst MINER_REG_RESULT_STATUS) t2;
          (ic, t4) = from_hw (miner_read_reg_instance inst MINER_REG_IRQ_CONTROL) t3
      in sock_printf env (instance_text inst st n rs ic) t4)"

definition command_regs :: "console_env \<Rightarrow> console \<Rightarrow> console" where
  "command_regs env t =
     (let (status, t1) = from_hw miner_status t;
          (engines, t2) = from_hw miner_num_engines t1;
          t3 = sock_printf env (''aggregate STATUS=0x'' @ format_08lx status @ '' NUM_ENGINES='' @
                 format_lu engines @ CRLF) t2
      in fold (print_instance env) [0..<MINER_AXI_INSTANCES] t3)"

definition command_start :: "console_env \<Rightarrow> string \<Rightarrow> console \<Rightarrow> console" where
  "command_start env cursor t =
     (let (nonce_s, r1) = next_token cursor; (count_s, r2) = next_token r1
      in case (nonce_s, count_s) of
           (Some n, Some c) \<Rightarrow>
             sock_printf env (''started'' @ CRLF)
               (on_service (\<lambda>s. s\<lparr>svc_hw := miner_start_range (parse_u32_hex n) (parse_u32_hex c) (svc_hw s)\<rparr>) t)
         | _ \<Rightarrow> sock_printf env (''usage: start <nonce_start_hex> <nonce_count_hex>'' @ CRLF) t)"

definition pool_config :: "string \<Rightarrow> string \<Rightarrow> string \<Rightarrow> string option \<Rightarrow> stratum_config" where
  "pool_config host port user pass =
     \<lparr>cfg_host = snprintf_s 96 host, cfg_port = ucast (fst (strtoul port 10)),
      cfg_user = snprintf_s 128 user,
      cfg_password = snprintf_s 64 (case pass of Some p \<Rightarrow> p | None \<Rightarrow> ''x'')\<rparr>"

definition command_pool :: "console_env \<Rightarrow> string \<Rightarrow> console \<Rightarrow> console" where
  "command_pool env cursor t =
     (let (host, r1) = next_token cursor; (port, r2) = next_token r1;
          (user, r3) = next_token r2; (pass, r4) = next_token r3
      in case (host, port, user) of
           (Some h, Some p, Some u) \<Rightarrow>
             sock_printf env (''pool set'' @ CRLF)
               (on_client (stratum_client_set_config (pool_config h p u pass)) t)
         | _ \<Rightarrow> sock_printf env (''usage: pool <host> <port> <user> [pass]'' @ CRLF) t)"

text \<open>False: the client asked to close the session.\<close>

definition handle_command :: "console_env \<Rightarrow> string \<Rightarrow> console \<Rightarrow> bool \<times> console" where
  "handle_command env line t =
     (let (token, cursor) = next_token line
      in case token of
           None \<Rightarrow> (True, t)
         | Some cmd \<Rightarrow>
             if cmd = ''help'' then (True, sock_printf env help_text t)
             else if cmd = ''status'' then (True, command_status env t)
             else if cmd = ''stratum'' then (True, command_stratum env t)
             else if cmd = ''stats'' then (True, print_stats env t)
             else if cmd = ''health'' then (True, print_health env t)
             else if cmd = ''regs'' then (True, command_regs env t)
             else if cmd = ''start'' then (True, command_start env cursor t)
             else if cmd = ''stop'' then
               (True, sock_printf env (''stopped'' @ CRLF) (on_service miner_service_stop_scan t))
             else if cmd = ''clear'' then
               (True, sock_printf env (''cleared'' @ CRLF) (on_service (miner_service_clear TelnetTask) t))
             else if cmd = ''pool'' then (True, command_pool env cursor t)
             else if cmd = ''connect'' then
               (True, sock_printf env (''connect requested'' @ CRLF) (on_client stratum_client_request_connect t))
             else if cmd = ''disconnect'' then
               (True, sock_printf env (''disconnect requested'' @ CRLF) (on_client stratum_client_request_disconnect t))
             else if cmd = ''quit'' \<or> cmd = ''exit'' then
               (False, sock_printf env (''closing console session'' @ CRLF) t)
             else (True, sock_printf env (''unknown command: '' @ cmd @ CRLF) t))"


subsection \<open>The session\<close>

record telnet_session =
  tl_line :: "char list"
  tl_used :: nat
  ignore_lf_after_cr :: bool
  line_overflowed :: bool
  parse_state :: telnet_parse_state
  option_command :: char

definition new_session :: "char list \<Rightarrow> telnet_session" where
  "new_session buffer = \<lparr>tl_line = buffer, tl_used = 0, ignore_lf_after_cr = False,
     line_overflowed = False, parse_state = TELNET_PARSE_DATA, option_command = NUL\<rparr>"

definition banner_text :: string where
  "banner_text = CRLF @ ''VEK280 miner telnet console'' @ CRLF @ ''No authentication is enabled.'' @ CRLF @ ''> ''"

text \<open>A byte while an option sequence is being read.\<close>

definition telnet_protocol :: "console_env \<Rightarrow> char \<Rightarrow> telnet_session \<times> console \<Rightarrow> telnet_session \<times> console" where
  "telnet_protocol env ch = (\<lambda>(l, t).
     case parse_state l of
       TELNET_PARSE_IAC \<Rightarrow>
         (if ch = TELNET_IAC then l\<lparr>parse_state := TELNET_PARSE_DATA\<rparr>
          else if ch = TELNET_DO \<or> ch = TELNET_DONT \<or> ch = TELNET_WILL \<or> ch = TELNET_WONT
          then l\<lparr>option_command := ch, parse_state := TELNET_PARSE_OPTION\<rparr>
          else if ch = TELNET_SB then l\<lparr>parse_state := TELNET_PARSE_SUBNEGOTIATION\<rparr>
          else l\<lparr>parse_state := TELNET_PARSE_DATA\<rparr>, t)
     | TELNET_PARSE_OPTION \<Rightarrow>
         (l\<lparr>parse_state := TELNET_PARSE_DATA\<rparr>, telnet_handle_option env (option_command l) ch t)
     | TELNET_PARSE_SUBNEGOTIATION \<Rightarrow>
         (if ch = TELNET_IAC then l\<lparr>parse_state := TELNET_PARSE_SUBNEGOTIATION_IAC\<rparr> else l, t)
     | TELNET_PARSE_SUBNEGOTIATION_IAC \<Rightarrow>
         (l\<lparr>parse_state := (if ch = TELNET_SE then TELNET_PARSE_DATA else TELNET_PARSE_SUBNEGOTIATION)\<rparr>, t)
     | TELNET_PARSE_DATA \<Rightarrow> (l, t))"

text \<open>The end of a line; None: the session is over.\<close>

definition telnet_line_end :: "console_env \<Rightarrow> char \<Rightarrow> telnet_session \<times> console \<Rightarrow>
    telnet_session option \<times> console" where
  "telnet_line_end env ch = (\<lambda>(l, t).
     let l1 = l\<lparr>tl_line := (tl_line l)[tl_used l := NUL]\<rparr>;
         t1 = sock_printf env CRLF t;
         (more, t2) = (if line_overflowed l1
                       then (True, sock_printf env (''input line too long; discarded'' @ CRLF) t1)
                       else handle_command env (c_string (tl_line l1)) t1)
     in if \<not> more then (None, t2)
        else (Some (l1\<lparr>tl_used := 0, line_overflowed := False, ignore_lf_after_cr := (ch = CHR 0x0D)\<rparr>),
              sock_printf env ''> '' t2))"

definition printable :: "char \<Rightarrow> bool" where
  "printable ch \<longleftrightarrow> (0x20 :: nat) \<le> of_char ch \<and> of_char ch \<le> (0x7e :: nat)"

definition telnet_edit :: "console_env \<Rightarrow> char \<Rightarrow> telnet_session \<times> console \<Rightarrow> telnet_session \<times> console" where
  "telnet_edit env ch = (\<lambda>(l, t).
     if ch = CHR 0x08 \<or> ch = CHR 0x7F then
       (l\<lparr>ignore_lf_after_cr := False, tl_used := (if 0 < tl_used l then tl_used l - 1 else tl_used l)\<rparr>, t)
     else if ch = CHR 0x15 then (l\<lparr>tl_used := 0, line_overflowed := False, ignore_lf_after_cr := False\<rparr>, t)
     else if ch = CHR 0x03 then (l\<lparr>tl_used := 0, line_overflowed := False, ignore_lf_after_cr := False\<rparr>, t)
     else if tl_used l < TELNET_RX_BUFFER_BYTES - 1 then
       (let l1 = l\<lparr>ignore_lf_after_cr := False\<rparr>
        in if printable ch then l1\<lparr>tl_line := (tl_line l1)[tl_used l1 := ch], tl_used := tl_used l1 + 1\<rparr> else l1, t)
     else if \<not> line_overflowed l then (l\<lparr>line_overflowed := True\<rparr>, sock_printf env [CHR 0x07] t)
     else (l, t))"

text \<open>One received byte; None: the session is over.\<close>

definition telnet_char :: "console_env \<Rightarrow> char \<Rightarrow> telnet_session \<times> console \<Rightarrow>
    telnet_session option \<times> console" where
  "telnet_char env ch = (\<lambda>(l, t).
     if parse_state l \<noteq> TELNET_PARSE_DATA
     then (let (l1, t1) = telnet_protocol env ch (l, t) in (Some l1, t1))
     else if ch = TELNET_IAC then (Some (l\<lparr>parse_state := TELNET_PARSE_IAC\<rparr>), t)
     else if (ch = CHR 0x0A \<or> ch = NUL) \<and> ignore_lf_after_cr l
     then (Some (l\<lparr>ignore_lf_after_cr := False\<rparr>), t)
     else if ch = CHR 0x0D \<or> ch = CHR 0x0A then telnet_line_end env ch (l, t)
     else (let (l1, t1) = telnet_edit env ch (l, t) in (Some l1, t1)))"


subsection \<open>The task\<close>

datatype console_pc = C_Listen | C_Client telnet_session

text \<open>What the network does in a step: whether a client was accepted, or one \<open>FreeRTOS_recv\<close>.\<close>

record console_input =
  ci_accepted :: bool
  ci_buffer :: "char list"
  ci_got :: int
  ci_ch :: char

fun telnet_task_step :: "console_env \<Rightarrow> console_input \<Rightarrow> console_pc \<times> console \<Rightarrow> console_pc \<times> console" where
  "telnet_task_step env i (C_Listen, t) =
     (if ci_accepted i
      then (C_Client (new_session (ci_buffer i)), sock_printf env banner_text (telnet_negotiate env t))
      else (C_Listen, t))"
| "telnet_task_step env i (C_Client l, t) =
     (if ci_got i \<le> 0 then (C_Listen, t)
      else case telnet_char env (ci_ch i) (l, t) of
             (None, t1) \<Rightarrow> (C_Listen, t1)
           | (Some l1, t1) \<Rightarrow> (C_Client l1, t1))"


subsection \<open>Statements\<close>

text \<open>The bytes of a connection one after the other.\<close>

fun console_feed :: "console_env \<Rightarrow> string \<Rightarrow> telnet_session \<times> console \<Rightarrow> telnet_session option \<times> console" where
  "console_feed env [] (l, t) = (Some l, t)"
| "console_feed env (ch # chs) (l, t) =
     (case telnet_char env ch (l, t) of
        (None, t1) \<Rightarrow> (None, t1)
      | (Some l1, t1) \<Rightarrow> console_feed env chs (l1, t1))"

definition session_wf :: "telnet_session \<Rightarrow> bool" where
  "session_wf l \<longleftrightarrow> length (tl_line l) = TELNET_RX_BUFFER_BYTES \<and> tl_used l < TELNET_RX_BUFFER_BYTES \<and>
     list_all printable (take (tl_used l) (tl_line l))"

text \<open>A line editor on lists: the line after the given bytes.\<close>

fun edit_line :: "string \<Rightarrow> string \<Rightarrow> string" where
  "edit_line acc [] = acc"
| "edit_line acc (ch # chs) =
     edit_line (if ch = CHR 0x08 \<or> ch = CHR 0x7F then butlast acc
                else if ch = CHR 0x15 \<or> ch = CHR 0x03 then []
                else if printable ch then acc @ [ch] else acc) chs"

text \<open>A session at the start of a line.\<close>

definition fresh_line :: "telnet_session \<Rightarrow> bool" where
  "fresh_line l \<longleftrightarrow> session_wf l \<and> parse_state l = TELNET_PARSE_DATA \<and> tl_used l = 0 \<and> \<not> line_overflowed l"

text \<open>The bytes a session has of the current line.\<close>

definition holds_line :: "string \<Rightarrow> telnet_session \<Rightarrow> bool" where
  "holds_line s l \<longleftrightarrow> session_wf l \<and> parse_state l = TELNET_PARSE_DATA \<and> \<not> line_overflowed l \<and>
     \<not> ignore_lf_after_cr l \<and> take (tl_used l) (tl_line l) = s"

text \<open>One command line with its echo and prompt.\<close>

definition command_run :: "console_env \<Rightarrow> string \<Rightarrow> console \<Rightarrow> bool \<times> console" where
  "command_run env line t =
     (let (more, t1) = handle_command env line (sock_printf env CRLF t)
      in (more, if more then sock_printf env ''> '' t1 else t1))"

definition line_endings :: "string list" where
  "line_endings = [[CHR 0x0D], [CHR 0x0A], [CHR 0x0D, CHR 0x0A], [CHR 0x0D, NUL]]"

text \<open>The option sequences of the Telnet protocol, and the reply due to each.\<close>

fun subnegotiation_body :: "string \<Rightarrow> bool" where
  "subnegotiation_body [] = True"
| "subnegotiation_body (ch # chs) =
     (if ch = TELNET_IAC then (case chs of [] \<Rightarrow> False | d # chs' \<Rightarrow> d \<noteq> TELNET_SE \<and> subnegotiation_body chs')
      else subnegotiation_body chs)"

definition option_verbs :: "char list" where
  "option_verbs = [TELNET_DO, TELNET_DONT, TELNET_WILL, TELNET_WONT]"

inductive telnet_sequence :: "string \<Rightarrow> string \<Rightarrow> bool" where
  seq_command: "ch \<notin> set option_verbs \<Longrightarrow> ch \<noteq> TELNET_SB \<Longrightarrow> telnet_sequence [TELNET_IAC, ch] []"
| seq_do: "telnet_sequence [TELNET_IAC, TELNET_DO, opt]
     [TELNET_IAC, if opt = TELNET_OPT_SUPPRESS_GO_AHEAD then TELNET_WILL else TELNET_WONT, opt]"
| seq_will: "telnet_sequence [TELNET_IAC, TELNET_WILL, opt]
     [TELNET_IAC, if opt = TELNET_OPT_SUPPRESS_GO_AHEAD then TELNET_DO else TELNET_DONT, opt]"
| seq_dont: "telnet_sequence [TELNET_IAC, TELNET_DONT, opt] []"
| seq_wont: "telnet_sequence [TELNET_IAC, TELNET_WONT, opt] []"
| seq_sub: "subnegotiation_body body \<Longrightarrow>
     telnet_sequence ([TELNET_IAC, TELNET_SB] @ body @ [TELNET_IAC, TELNET_SE]) []"

definition console_sends_all :: "console_env \<Rightarrow> bool" where
  "console_sends_all env \<longleftrightarrow> (\<forall>k n. ce_send env k n = int n)"

text \<open>The console without the pool password and the record of sent lines.\<close>

definition forget_secrets :: "console \<Rightarrow> console" where
  "forget_secrets = on_client (\<lambda>c. c\<lparr>g_config := (g_config c)\<lparr>cfg_password := []\<rparr>,
     g_debug := (g_debug c)\<lparr>last_tx := []\<rparr>\<rparr>)"

definition put_secrets :: "string \<Rightarrow> string \<Rightarrow> console \<Rightarrow> console" where
  "put_secrets pw tx = on_client (\<lambda>c. c\<lparr>g_config := (g_config c)\<lparr>cfg_password := pw\<rparr>,
     g_debug := (g_debug c)\<lparr>last_tx := tx\<rparr>\<rparr>)"

text \<open>The commands that act on the miner or the pool client.\<close>

definition acting_commands :: "string list" where
  "acting_commands = [''status'', ''stratum'', ''stats'', ''regs'', ''start'', ''stop'', ''clear'', ''pool'',
     ''connect'', ''disconnect'']"

definition demo_env :: console_env where
  "demo_env = \<lparr>ce_send = (\<lambda>k n. int n),
     ce_sysmon = \<lparr>sm_config_found = True, sm_init_success = True, sm_temp = 0x1480, sm_temp_max = 0x1900,
       sm_temp_min = 0x1000, sm_intr_status = 0\<rparr>, ce_stack_config = default_config\<rparr>"

definition demo_console :: console where
  "demo_console = \<lparr>co_client = demo_client,
     co_telemetry = \<lparr>g_sysmon_initialized = False, g_sysmon_available = False\<rparr>, co_out = [], co_send_calls = 0\<rparr>"


subsection \<open>Output leaves the rest alone\<close>

lemma sock_send_all_step:
  "sock_send_all env data t =
    (if data = [] then t
     else let sent = ce_send env (co_send_calls t) (length data); t1 = t\<lparr>co_send_calls := co_send_calls t + 1\<rparr>
          in if sent \<le> 0 then t1
             else sock_send_all env (drop (nat sent) data) (t1\<lparr>co_out := co_out t1 @ take (nat sent) data\<rparr>))"
  by (subst sock_send_all.simps) simp

lemma sock_send_all_frame [simp]:
  "co_client (sock_send_all env data t) = co_client t"
  "co_telemetry (sock_send_all env data t) = co_telemetry t"
proof (induction "length data" arbitrary: data t rule: less_induct)
  case less
  { case 1 show ?case using less by (subst sock_send_all_step) (simp add: Let_def) }
  { case 2 show ?case using less by (subst sock_send_all_step) (simp add: Let_def) }
qed

lemma sock_printf_frame [simp]:
  "co_client (sock_printf env s t) = co_client t"
  "co_telemetry (sock_printf env s t) = co_telemetry t"
  by (simp_all add: sock_printf_def)

lemma send_command_frame [simp]:
  "co_client (telnet_send_command env a b t) = co_client t"
  "co_client (telnet_handle_option env a b t) = co_client t"
  "co_client (telnet_negotiate env t) = co_client t"
  by (simp_all add: telnet_send_command_def telnet_handle_option_def telnet_negotiate_def Let_def)

lemma sock_send_all_out:
  assumes "console_sends_all env"
  shows "co_out (sock_send_all env data t) = co_out t @ data"
  using assms by (subst sock_send_all_step, subst sock_send_all_step) (simp add: console_sends_all_def Let_def)

lemma co_svc_printf [simp]: "co_svc (sock_printf env s t) = co_svc t"
  by (simp add: co_svc_def)


subsection \<open>The option protocol\<close>

lemmas telnet_codes = TELNET_IAC_def TELNET_DONT_def TELNET_DO_def TELNET_WONT_def TELNET_WILL_def
  TELNET_SB_def TELNET_SE_def TELNET_OPT_ECHO_def TELNET_OPT_SUPPRESS_GO_AHEAD_def

lemma console_feed_append:
  "console_feed env (xs @ ys) (l, t) =
     (case console_feed env xs (l, t) of (None, t1) \<Rightarrow> (None, t1) | (Some l1, t1) \<Rightarrow> console_feed env ys (l1, t1))"
  by (induction xs arbitrary: l t) (auto split: prod.split option.split)

lemma feed_body:
  "subnegotiation_body body \<Longrightarrow> parse_state l = TELNET_PARSE_SUBNEGOTIATION \<Longrightarrow>
   console_feed env body (l, t) = (Some l, t)"
proof (induction body arbitrary: l rule: subnegotiation_body.induct)
  case (2 ch chs)
  have keep: "l\<lparr>parse_state := TELNET_PARSE_SUBNEGOTIATION\<rparr> = l" using "2.prems"(2) by (cases l) simp
  show ?case
    using "2.prems" "2.IH" keep
    by (cases "ch = TELNET_IAC") (auto simp: telnet_char_def telnet_protocol_def split: list.splits if_splits)
qed simp

lemma back_to_data:
  assumes "parse_state l = TELNET_PARSE_DATA"
  shows "l\<lparr>parse_state := TELNET_PARSE_DATA\<rparr> = l"
    "l\<lparr>option_command := oc, parse_state := TELNET_PARSE_DATA\<rparr> = l\<lparr>option_command := oc\<rparr>"
    "l\<lparr>parse_state := TELNET_PARSE_DATA, option_command := oc\<rparr> = l\<lparr>option_command := oc\<rparr>"
  using assms by (cases l, simp)+

lemma sequence_step:
  assumes "telnet_sequence s reply" "parse_state l = TELNET_PARSE_DATA"
  shows "\<exists>oc. console_feed env s (l, t) = (Some (l\<lparr>option_command := oc\<rparr>), sock_send_all env reply t)"
  using assms
proof (induction rule: telnet_sequence.induct)
  case (seq_sub body)
  let ?l = "l\<lparr>parse_state := TELNET_PARSE_SUBNEGOTIATION\<rparr>"
  have "console_feed env [TELNET_IAC, TELNET_SB] (l, t) = (Some ?l, t)"
    using seq_sub.prems by (simp add: telnet_char_def telnet_protocol_def telnet_codes)
  moreover have "console_feed env body (?l, t) = (Some ?l, t)"
    using feed_body[OF seq_sub.hyps] by simp
  moreover have "console_feed env [TELNET_IAC, TELNET_SE] (?l, t) = (Some l, t)"
    using seq_sub.prems by (simp add: telnet_char_def telnet_protocol_def telnet_codes)
  ultimately have "console_feed env ([TELNET_IAC, TELNET_SB] @ body @ [TELNET_IAC, TELNET_SE]) (l, t) = (Some l, t)"
    by (simp only: console_feed_append prod.case option.case)
  then show ?case by (intro exI[of _ "option_command l"]) (simp add: sock_send_all_step)
next
  case (seq_command ch)
  have "console_feed env [TELNET_IAC, ch] (l, t) = (Some (l\<lparr>parse_state := TELNET_PARSE_DATA\<rparr>), t)"
    using seq_command by (auto simp: telnet_char_def telnet_protocol_def option_verbs_def)
  then show ?case
    using back_to_data[OF seq_command.prems]
    by (intro exI[of _ "option_command l"]) (simp add: sock_send_all_step)
qed (auto simp: telnet_char_def telnet_protocol_def telnet_handle_option_def telnet_send_command_def
    telnet_codes back_to_data sock_send_all_step[of env "[]"])

text \<open>
  C32. Telnet negotiation never reaches the command line: any complete option sequence (a two-byte
  command, DO, DONT, WILL or WONT with any option, or a subnegotiation with escaped bytes) received
  between data bytes leaves the line, the cursor, the flags and every component of the firmware
  unchanged; exactly the due reply is sent, an agreement for suppress-go-ahead and a refusal for
  every other option, and nothing for DONT and WONT, so that negotiation cannot loop.
\<close>

theorem negotiation_transparent:
  assumes "telnet_sequence s reply" "parse_state l = TELNET_PARSE_DATA" "console_sends_all env"
  shows "\<exists>l' t'. console_feed env s (l, t) = (Some l', t') \<and>
    (\<exists>oc. l' = l\<lparr>option_command := oc\<rparr>) \<and> co_client t' = co_client t \<and>
    co_telemetry t' = co_telemetry t \<and> co_out t' = co_out t @ reply"
proof -
  obtain oc where "console_feed env s (l, t) = (Some (l\<lparr>option_command := oc\<rparr>), sock_send_all env reply t)"
    using sequence_step[OF assms(1,2)] by blast
  then show ?thesis using sock_send_all_out[OF assms(3)] by auto
qed

theorem negotiation_transparent_witness:
  "\<exists>l' t'. console_feed demo_env [TELNET_IAC, TELNET_DO, TELNET_OPT_ECHO] (new_session (replicate 256 NUL), demo_console)
      = (Some l', t') \<and> co_out t' = [TELNET_IAC, TELNET_WONT, TELNET_OPT_ECHO]"
proof -
  have "console_sends_all demo_env" by (simp add: console_sends_all_def demo_env_def)
  from negotiation_transparent[OF seq_do[of TELNET_OPT_ECHO] _ this, of "new_session (replicate 256 NUL)" demo_console]
  show ?thesis by (auto simp: new_session_def demo_console_def telnet_codes)
qed


subsection \<open>The line editor\<close>

lemma edit_wf:
  assumes "session_wf l" "telnet_edit env ch (l, t) = (l1, t1)"
  shows "session_wf l1 \<and> co_client t1 = co_client t"
proof -
  have upd: "list_all printable (take (Suc n) (xs[n := ch]))"
    if "list_all printable (take n xs)" "printable ch" "n < length xs" for n xs
    using that by (simp add: take_Suc_conv_app_nth)
  have fewer: "list_all printable (take (n - Suc 0) xs)" if "list_all printable (take n xs)" for n xs
    using that set_take_subset_set_take[of "n - Suc 0" n xs] by (auto simp: list_all_iff)
  show ?thesis
    using assms upd fewer
    by (auto simp: telnet_edit_def session_wf_def TELNET_RX_BUFFER_BYTES_def Let_def split: if_splits)
qed

lemma line_end_wf:
  assumes "session_wf l" "telnet_line_end env ch (l, t) = (Some l1, t1)"
  shows "session_wf l1"
  using assms by (auto simp: telnet_line_end_def session_wf_def Let_def split: prod.splits if_splits)

lemma protocol_wf:
  assumes "session_wf l" "telnet_protocol env ch (l, t) = (l1, t1)"
  shows "session_wf l1 \<and> co_client t1 = co_client t"
  using assms by (auto simp: telnet_protocol_def session_wf_def split: telnet_parse_state.splits if_splits)

lemma char_wf:
  assumes "session_wf l" "telnet_char env ch (l, t) = (Some l1, t1)"
  shows "session_wf l1"
proof -
  consider "parse_state l \<noteq> TELNET_PARSE_DATA"
    | "parse_state l = TELNET_PARSE_DATA" "ch = TELNET_IAC \<or> (ch = CHR 0x0A \<or> ch = NUL) \<and> ignore_lf_after_cr l"
    | "parse_state l = TELNET_PARSE_DATA" "ch \<noteq> TELNET_IAC" "\<not> ((ch = CHR 0x0A \<or> ch = NUL) \<and> ignore_lf_after_cr l)"
      "ch = CHR 0x0D \<or> ch = CHR 0x0A"
    | "parse_state l = TELNET_PARSE_DATA" "ch \<noteq> TELNET_IAC" "\<not> ((ch = CHR 0x0A \<or> ch = NUL) \<and> ignore_lf_after_cr l)"
      "ch \<noteq> CHR 0x0D" "ch \<noteq> CHR 0x0A"
    by blast
  then show ?thesis
  proof cases
    case 1
    then show ?thesis using assms protocol_wf[OF assms(1)] by (auto simp: telnet_char_def split: prod.splits)
  next
    case 2
    then show ?thesis using assms by (auto simp: telnet_char_def session_wf_def split: if_splits)
  next
    case 3
    then show ?thesis using assms line_end_wf[OF assms(1)] by (auto simp: telnet_char_def)
  next
    case 4
    then show ?thesis using assms edit_wf[OF assms(1)] by (auto simp: telnet_char_def split: prod.splits)
  qed
qed

lemma c_string_printable:
  assumes "list_all printable xs" "length xs = n" "n < length buf" "take n buf = xs"
  shows "c_string (buf[n := NUL]) = xs"
proof -
  have "NUL \<notin> set xs" using assms(1) by (auto simp: list_all_iff printable_def NUL_def)
  then have "c_string xs = xs" by (auto simp: c_string_def takeWhile_eq_all_conv)
  then show ?thesis using c_string_line[OF assms(4,3)] assms(2) by simp
qed

lemma holds_line_length: "holds_line s l \<Longrightarrow> length s = tl_used l \<and> tl_used l < 256 \<and> list_all printable s"
  by (auto simp: holds_line_def session_wf_def TELNET_RX_BUFFER_BYTES_def)

lemma edit_char:
  assumes "holds_line s l" "length s < 255" "ch \<noteq> TELNET_IAC" "ch \<noteq> CHR 0x0D" "ch \<noteq> CHR 0x0A"
  shows "\<exists>l1. telnet_char env ch (l, t) = (Some l1, t) \<and> holds_line (edit_line s [ch]) l1"
proof -
  have l: "parse_state l = TELNET_PARSE_DATA" "\<not> ignore_lf_after_cr l" "\<not> line_overflowed l" "session_wf l"
    and len: "length s = tl_used l" "tl_used l < 256" and tk: "take (tl_used l) (tl_line l) = s"
    using assms(1) holds_line_length[OF assms(1)] by (simp_all add: holds_line_def)
  obtain l1 t1 where e: "telnet_edit env ch (l, t) = (l1, t1)" by (cases "telnet_edit env ch (l, t)")
  have wf: "session_wf l1" using edit_wf[OF l(4) e] by simp
  have lb: "length (tl_line l) = 256" using l(4) by (simp add: session_wf_def TELNET_RX_BUFFER_BYTES_def)
  have bl: "take (tl_used l - Suc 0) (tl_line l) = butlast s"
    using len lb by (simp flip: tk add: butlast_take)
  have sn: "take (Suc (tl_used l)) ((tl_line l)[tl_used l := ch]) = s @ [ch]"
    using lb len tk by (simp add: take_Suc_conv_app_nth)
  have "t1 = t \<and> holds_line (edit_line s [ch]) l1"
  proof (cases "ch = CHR 0x08 \<or> ch = CHR 0x7F")
    case True
    have "l1 = l\<lparr>ignore_lf_after_cr := False, tl_used := tl_used l - 1\<rparr>" "t1 = t"
      using e True by (auto simp: telnet_edit_def split: if_splits)
    then show ?thesis using True wf l bl by (simp add: holds_line_def)
  next
    case bs: False
    show ?thesis
    proof (cases "ch = CHR 0x15 \<or> ch = CHR 0x03")
      case True
      have "l1 = l\<lparr>tl_used := 0, line_overflowed := False, ignore_lf_after_cr := False\<rparr>" "t1 = t"
        using e True by (auto simp: telnet_edit_def)
      then show ?thesis using True bs wf l by (auto simp: holds_line_def)
    next
      case ctl: False
      have "l1 = (if printable ch then l\<lparr>ignore_lf_after_cr := False, tl_line := (tl_line l)[tl_used l := ch],
          tl_used := tl_used l + 1\<rparr> else l\<lparr>ignore_lf_after_cr := False\<rparr>)" "t1 = t"
        using e bs ctl assms(2) len(1) by (auto simp: telnet_edit_def TELNET_RX_BUFFER_BYTES_def Let_def)
      then show ?thesis using bs ctl wf l sn tk by (simp add: holds_line_def split: if_splits)
    qed
  qed
  then show ?thesis using e l assms(3-5) by (auto simp: telnet_char_def)
qed

lemma edit_line_length: "length (edit_line s bs) \<le> length s + length bs"
  by (induction s bs rule: edit_line.induct) (auto split: if_splits)

lemma feed_edits:
  assumes "holds_line s l" "length s + length bs \<le> 255"
    and "\<forall>ch \<in> set bs. ch \<noteq> TELNET_IAC \<and> ch \<noteq> CHR 0x0D \<and> ch \<noteq> CHR 0x0A"
  shows "\<exists>l1. console_feed env bs (l, t) = (Some l1, t) \<and> holds_line (edit_line s bs) l1"
  using assms
proof (induction bs arbitrary: s l)
  case (Cons ch bs)
  obtain l1 where l1: "telnet_char env ch (l, t) = (Some l1, t)" "holds_line (edit_line s [ch]) l1"
    using edit_char[OF Cons.prems(1), of ch env t] Cons.prems(2,3) by auto
  have "length (edit_line s [ch]) + length bs \<le> 255"
    using edit_line_length[of s "[ch]"] Cons.prems(2) by simp
  from Cons.IH[OF l1(2) this] Cons.prems(3) l1(1) show ?case by auto
qed auto

lemma line_end_run:
  assumes "holds_line s l" "ch = CHR 0x0D \<or> ch = CHR 0x0A"
  shows "\<exists>l1. telnet_char env ch (l, t) =
      (if fst (command_run env s t) then Some l1 else None, snd (command_run env s t)) \<and>
    fresh_line l1 \<and> ignore_lf_after_cr l1 = (ch = CHR 0x0D)"
proof -
  let ?l = "l\<lparr>tl_line := (tl_line l)[tl_used l := NUL], tl_used := 0, line_overflowed := False,
      ignore_lf_after_cr := (ch = CHR 0x0D)\<rparr>"
  have l: "parse_state l = TELNET_PARSE_DATA" "\<not> ignore_lf_after_cr l" "\<not> line_overflowed l" "session_wf l"
    using assms(1) by (simp_all add: holds_line_def)
  have "c_string ((tl_line l)[tl_used l := NUL]) = s"
    using c_string_printable[of s "tl_used l" "tl_line l"] holds_line_length[OF assms(1)] assms(1)
    by (simp add: holds_line_def session_wf_def TELNET_RX_BUFFER_BYTES_def)
  moreover have "ch \<noteq> TELNET_IAC" using assms(2) by (auto simp: telnet_codes)
  ultimately have "telnet_char env ch (l, t) =
      (if fst (command_run env s t) then Some ?l else None, snd (command_run env s t))"
    using l assms(2) by (auto simp: telnet_char_def telnet_line_end_def command_run_def Let_def split: prod.split)
  moreover have "fresh_line ?l" using l by (simp add: fresh_line_def session_wf_def)
  ultimately show ?thesis by (intro exI[of _ ?l]) simp
qed

lemma swallow_line_feed:
  assumes "fresh_line l" "ignore_lf_after_cr l" "ch = CHR 0x0A \<or> ch = NUL"
  shows "\<exists>l1. telnet_char env ch (l, t) = (Some l1, t) \<and> fresh_line l1"
  using assms by (auto simp: telnet_char_def fresh_line_def session_wf_def telnet_codes NUL_def)

text \<open>
  C5. A command line is read as an editor would: for any at most 255 bytes of text, backspaces,
  deletes, Ctrl-U, Ctrl-C and other control bytes, followed by any of the line endings CR, LF, CR LF
  and CR NUL, exactly one command is run, on the line a list-based editor yields from the same bytes,
  with one echo and one prompt; then the session is at the start of a fresh line, or it is over
  if the command was to close it. The buffer is never indexed out of its bounds.
\<close>

theorem console_runs_edited_line:
  assumes "fresh_line l" "\<not> ignore_lf_after_cr l" "length bs < TELNET_RX_BUFFER_BYTES" "e \<in> set line_endings"
    and "\<forall>ch \<in> set bs. ch \<noteq> TELNET_IAC \<and> ch \<noteq> CHR 0x0D \<and> ch \<noteq> CHR 0x0A"
  shows "\<exists>l1. console_feed env (bs @ e) (l, t) =
      (if fst (command_run env (edit_line [] bs) t) then Some l1 else None,
       snd (command_run env (edit_line [] bs) t)) \<and> fresh_line l1"
proof -
  have h: "holds_line [] l" using assms(1,2) by (simp add: holds_line_def fresh_line_def)
  obtain l1 where l1: "console_feed env bs (l, t) = (Some l1, t)" "holds_line (edit_line [] bs) l1"
    using feed_edits[OF h, of bs env t] assms(3,5) by (auto simp: TELNET_RX_BUFFER_BYTES_def)
  obtain ch e' where e: "e = ch # e'" "ch = CHR 0x0D \<or> ch = CHR 0x0A"
    "e' = [] \<or> ch = CHR 0x0D \<and> (e' = [CHR 0x0A] \<or> e' = [NUL])"
    using assms(4) by (auto simp: line_endings_def)
  obtain l2 where l2: "telnet_char env ch (l1, t) = (if fst (command_run env (edit_line [] bs) t) then Some l2 else None,
       snd (command_run env (edit_line [] bs) t))" "fresh_line l2" "ignore_lf_after_cr l2 = (ch = CHR 0x0D)"
    using line_end_run[OF l1(2) e(2)] by blast
  have "\<exists>l3. console_feed env e' (l2, t') = (Some l3, t') \<and> fresh_line l3" for t'
    using e(3) l2(2,3) swallow_line_feed[of l2 _ env t'] by fastforce
  then show ?thesis using l1(1) l2 e(1) by (auto simp: console_feed_append)
qed

lemma fresh_new_session: "length buf = TELNET_RX_BUFFER_BYTES \<Longrightarrow> fresh_line (new_session buf)"
  by (simp add: fresh_line_def session_wf_def new_session_def TELNET_RX_BUFFER_BYTES_def)

theorem console_runs_edited_line_witness:
  "\<exists>t1. console_feed demo_env (''quiz'' @ [CHR 0x08] @ ''t'' @ [CHR 0x0D, CHR 0x0A])
       (new_session (replicate 256 NUL), demo_console) = (None, t1)"
proof -
  have "fresh_line (new_session (replicate 256 NUL))"
    by (rule fresh_new_session) (simp add: TELNET_RX_BUFFER_BYTES_def)
  then have "\<exists>l1. console_feed demo_env ((''quiz'' @ [CHR 0x08] @ ''t'') @ [CHR 0x0D, CHR 0x0A])
      (new_session (replicate 256 NUL), demo_console) =
      (if fst (command_run demo_env (edit_line [] (''quiz'' @ [CHR 0x08] @ ''t'')) demo_console) then Some l1 else None,
       snd (command_run demo_env (edit_line [] (''quiz'' @ [CHR 0x08] @ ''t'')) demo_console)) \<and> fresh_line l1"
    by (rule console_runs_edited_line)
      (simp_all add: new_session_def TELNET_RX_BUFFER_BYTES_def line_endings_def telnet_codes)
  moreover have "edit_line [] (''quiz'' @ [CHR 0x08] @ ''t'') = ''quit''" by (simp add: printable_def)
  moreover have "\<not> fst (command_run demo_env ''quit'' demo_console)"
    by (simp add: command_run_def handle_command_def next_token_def is_blank_def)
  ultimately show ?thesis by auto
qed

lemma overflow_char:
  assumes "session_wf l" "parse_state l = TELNET_PARSE_DATA" "tl_used l = 255" "printable ch" "ch \<noteq> CHR 0x7F"
  shows "\<exists>t1. telnet_char env ch (l, t) = (Some (l\<lparr>line_overflowed := True\<rparr>), t1) \<and> co_client t1 = co_client t"
proof -
  have "l\<lparr>line_overflowed := True\<rparr> = l" if "line_overflowed l" using that by (cases l) simp
  moreover have "ch \<noteq> TELNET_IAC" "ch \<noteq> CHR 0x0D" "ch \<noteq> CHR 0x0A" "ch \<noteq> NUL" "ch \<noteq> CHR 0x08" "ch \<noteq> CHR 0x15" "ch \<noteq> CHR 0x03"
    using assms(4) by (auto simp: printable_def telnet_codes NUL_def)
  ultimately show ?thesis
    using assms by (auto simp: telnet_char_def telnet_edit_def TELNET_RX_BUFFER_BYTES_def)
qed

lemma printable_not_del: "printable ch \<Longrightarrow> ch \<noteq> CHR 0x7F"
  by (auto simp: printable_def)

lemma feed_overflow:
  assumes "session_wf l" "parse_state l = TELNET_PARSE_DATA" "tl_used l = 255" "list_all printable bs" "bs \<noteq> []"
  shows "\<exists>t1. console_feed env bs (l, t) = (Some (l\<lparr>line_overflowed := True\<rparr>), t1) \<and> co_client t1 = co_client t"
  using assms
proof (induction bs arbitrary: l t)
  case (Cons ch bs)
  have pr: "printable ch" using Cons.prems(4) by simp
  obtain t1 where t1: "telnet_char env ch (l, t) = (Some (l\<lparr>line_overflowed := True\<rparr>), t1)" "co_client t1 = co_client t"
    using overflow_char[OF Cons.prems(1-3) pr printable_not_del[OF pr]] by blast
  show ?case
  proof (cases bs)
    case Nil
    then show ?thesis using t1 by simp
  next
    case (Cons d ds)
    have "session_wf (l\<lparr>line_overflowed := True\<rparr>)" using Cons.prems(1) by (simp add: session_wf_def)
    from Cons.IH[OF this, of t1] Cons.prems Cons t1
    show ?thesis by (auto simp del: console_feed.simps simp add: console_feed.simps(2)[of env ch])
  qed
qed simp

lemma edit_line_printable: "list_all printable bs \<Longrightarrow> edit_line s bs = s @ bs"
proof (induction bs arbitrary: s)
  case (Cons ch bs)
  then have "printable ch" by simp
  then have "ch \<noteq> CHR 0x08 \<and> ch \<noteq> CHR 0x7F \<and> ch \<noteq> CHR 0x15 \<and> ch \<noteq> CHR 0x03"
    by (auto simp: printable_def)
  then show ?case using Cons by simp
qed simp

lemma printable_data:
  "list_all printable bs \<Longrightarrow> \<forall>ch \<in> set bs. ch \<noteq> TELNET_IAC \<and> ch \<noteq> CHR 0x0D \<and> ch \<noteq> CHR 0x0A"
  by (auto simp: list_all_iff printable_def telnet_codes)

text \<open>
  An overlong line is never run, not even its beginning: after 256 or more printable bytes the
  line ending discards the line without a command, the pool client and the miner are as before, and
  the next line starts fresh.
\<close>

theorem long_line_discarded:
  assumes "fresh_line l" "\<not> ignore_lf_after_cr l" "list_all printable bs" "TELNET_RX_BUFFER_BYTES \<le> length bs"
  shows "\<exists>l1 t1. console_feed env (bs @ [CHR 0x0D]) (l, t) = (Some l1, t1) \<and> fresh_line l1 \<and>
    co_client t1 = co_client t"
proof -
  let ?a = "take 255 bs" and ?b = "drop 255 bs"
  have len: "256 \<le> length bs" using assms(4) by (simp add: TELNET_RX_BUFFER_BYTES_def)
  have pr: "list_all printable ?a" "list_all printable ?b"
    using assms(3) by (auto simp: list_all_iff dest: in_set_takeD in_set_dropD)
  have h: "holds_line [] l" using assms(1,2) by (simp add: holds_line_def fresh_line_def)
  obtain l1 where l1: "console_feed env ?a (l, t) = (Some l1, t)" "holds_line ?a l1"
    using feed_edits[OF h, of ?a env t] printable_data[OF pr(1)] edit_line_printable[OF pr(1), of "[]"] by auto
  then have l1': "session_wf l1" "parse_state l1 = TELNET_PARSE_DATA" "tl_used l1 = 255"
    using holds_line_length[OF l1(2)] len by (simp_all add: holds_line_def)
  have "?b \<noteq> []" using len by simp
  from feed_overflow[OF l1' pr(2) this] obtain t1 where
    t1: "console_feed env ?b (l1, t) = (Some (l1\<lparr>line_overflowed := True\<rparr>), t1)" "co_client t1 = co_client t"
    by blast
  obtain l2 t2 where "telnet_char env (CHR 0x0D) (l1\<lparr>line_overflowed := True\<rparr>, t1) = (Some l2, t2)"
    "fresh_line l2" "co_client t2 = co_client t"
    using l1' t1(2) by (auto simp: telnet_char_def telnet_line_end_def telnet_codes NUL_def fresh_line_def
        session_wf_def Let_def)
  moreover have "console_feed env (bs @ [CHR 0x0D]) (l, t) =
      console_feed env (?a @ ?b @ [CHR 0x0D]) (l, t)" by (simp flip: append_assoc)
  ultimately show ?thesis using l1(1) t1(1) by (simp only: console_feed_append) (simp add: console_feed_append)
qed

theorem long_line_discarded_witness:
  "\<exists>l1 t1. console_feed demo_env (replicate 300 (CHR ''x'') @ [CHR 0x0D])
      (new_session (replicate 256 NUL), demo_console) = (Some l1, t1) \<and> fresh_line l1 \<and> co_client t1 = demo_client"
proof -
  have "fresh_line (new_session (replicate 256 NUL))"
    by (rule fresh_new_session) (simp add: TELNET_RX_BUFFER_BYTES_def)
  from long_line_discarded[OF this, of "replicate 300 (CHR ''x'')" demo_env demo_console] show ?thesis
    by (simp add: new_session_def TELNET_RX_BUFFER_BYTES_def printable_def list_all_iff demo_console_def)
qed


subsection \<open>Commands\<close>

lemma token_at:
  assumes "w \<noteq> []" "\<forall>c \<in> set w. \<not> is_blank c"
  shows "next_token (w @ '' '' @ r) = (Some w, r)" "next_token w = (Some w, [])"
proof -
  obtain c w' where w: "w = c # w'" using assms(1) by (cases w) auto
  have nb: "\<not> is_blank c" using assms(2) w by simp
  have tw: "takeWhile (\<lambda>c. \<not> is_blank c) (w @ x) = w @ takeWhile (\<lambda>c. \<not> is_blank c) x"
    "dropWhile (\<lambda>c. \<not> is_blank c) (w @ x) = dropWhile (\<lambda>c. \<not> is_blank c) x" for x
    using assms(2) by (simp_all add: takeWhile_append2 dropWhile_append2)
  have dw: "dropWhile is_blank (w @ x) = w @ x" for x using nb by (simp add: w)
  have sp: "is_blank (CHR '' '')" by (simp add: is_blank_def)
  show "next_token (w @ '' '' @ r) = (Some w, r)"
    unfolding next_token_def dw tw Let_def using assms(1) sp by simp
  show "next_token w = (Some w, [])"
    using assms(1) by (simp add: next_token_def dw[of "[]", simplified] tw[of "[]", simplified append_Nil2 takeWhile.simps dropWhile.simps])
qed

lemma dec_digits_chars: "c \<in> set (dec_digits n) \<Longrightarrow> isdigit c"
  using dec_digits_foldl[of n] by (simp add: isdigit_value)

lemma strtoul_dec:
  assumes "n < 2 ^ 32"
  shows "strtoul (dec_digits n) 10 = (of_nat n, [])"
proof -
  obtain c ds where c: "dec_digits n = c # ds" using dec_digits_foldl[of n] by (cases "dec_digits n") auto
  have isd: "isdigit c" using dec_digits_chars[of c n] c by simp
  have ws: "dropWhile isspace (dec_digits n) = dec_digits n"
    using isd by (auto simp: c isspace_def isdigit_def)
  have sg: "read_sign (dec_digits n) = (False, dec_digits n)"
    using isd by (auto simp: c read_sign_def isdigit_def)
  have rd: "read_digits 10 0 (dec_digits n) = (int n, [])"
    using read_digits_dec[of "[]" n] by (simp add: is_digit_of_def)
  have "is_digit_of 10 (dec_digits n)" using isd by (simp add: c is_digit_of_def isdigit_value)
  then show ?thesis using assms by (simp add: strtoul_def ws sg rd)
qed

text \<open>
  What the operator enters is what the pool client uses: after \<open>pool host port user password\<close>
  with words that fit their fields and a decimal port below 65536, a copy of the configuration, as
  the pool task takes it when it connects, holds exactly these words and this port.
\<close>

theorem pool_command_roundtrip:
  assumes "lock_ok (g_config_lock (co_client t))"
    and "\<forall>w \<in> {h, u, p}. w \<noteq> [] \<and> (\<forall>c \<in> set w. \<not> is_blank c)"
    and "length h < 96" "length u < 128" "length p < 64" "n < 65536"
  defines "line \<equiv> ''pool '' @ h @ '' '' @ dec_digits n @ '' '' @ u @ '' '' @ p"
  shows "fst (handle_command env line t) \<and>
    fst (stratum_client_get_config (co_client (snd (handle_command env line t)))) =
      Some \<lparr>cfg_host = h, cfg_port = of_nat n, cfg_user = u, cfg_password = p\<rparr>"
proof -
  have "\<forall>c \<in> set (dec_digits n). \<not> is_blank c"
    using dec_digits_chars[of _ n] by (auto simp: is_blank_def isdigit_def)
  moreover have "dec_digits n \<noteq> []" using dec_digits_foldl by blast
  ultimately have tok: "next_token (h @ '' '' @ r) = (Some h, r)" "next_token (dec_digits n @ '' '' @ r) = (Some (dec_digits n), r)"
    "next_token (u @ '' '' @ r) = (Some u, r)" "next_token p = (Some p, [])" for r
    using assms(2) token_at by simp_all
  have cmd: "next_token line = (Some ''pool'', h @ '' '' @ dec_digits n @ '' '' @ u @ '' '' @ p)"
    using token_at(1)[of "''pool''" "h @ '' '' @ dec_digits n @ '' '' @ u @ '' '' @ p"]
    by (simp add: line_def is_blank_def)
  have port: "ucast (of_nat n :: u32) = (of_nat n :: u16)" 
    by (rule bit_word_eqI) (simp add: bit_simps)
  let ?cfg = "\<lparr>cfg_host = h, cfg_port = of_nat n, cfg_user = u, cfg_password = p\<rparr>"
  have "pool_config h (dec_digits n) u (Some p) = ?cfg"
    using assms(3-6) strtoul_dec[of n] port by (simp add: pool_config_def snprintf_s_def)
  then have "handle_command env line t =
      (True, sock_printf env (''pool set'' @ CRLF) (on_client (stratum_client_set_config ?cfg) t))"
    using tok by (simp add: handle_command_def cmd command_pool_def)
  then show ?thesis
    using assms(1) sem_ops_ok(4)[OF assms(1), of TelnetTask] lock_cycle[OF assms(1), of TelnetTask]
    by (auto simp: on_client_def stratum_client_set_config_def stratum_client_get_config_def
        split: prod.splits bool.splits)
qed

lemma demo_locks: "lock_ok (g_config_lock (co_client demo_console))"
  by (simp add: demo_console_def demo_client_def stratum_client_start_def lock_ok_def
      xSemaphoreCreateMutex_def xSemaphoreGive_def)

theorem pool_command_roundtrip_witness:
  "fst (stratum_client_get_config (co_client (snd (handle_command demo_env
      (''pool '' @ ''pool.example'' @ '' '' @ dec_digits 3333 @ '' '' @ ''me.rig1'' @ '' '' @ ''secret'') demo_console)))) =
    Some \<lparr>cfg_host = ''pool.example'', cfg_port = 3333, cfg_user = ''me.rig1'', cfg_password = ''secret''\<rparr>"
  using pool_command_roundtrip[OF demo_locks, of "''pool.example''" "''me.rig1''" "''secret''" 3333 demo_env]
  by (simp add: is_blank_def)

lemma start_usage:
  "fst (next_token (snd (next_token r))) = None \<Longrightarrow>
   command_start env r t = sock_printf env (''usage: start <nonce_start_hex> <nonce_count_hex>'' @ CRLF) t"
  by (simp add: command_start_def split_beta Let_def split: option.split)

lemma pool_usage:
  "fst (next_token (snd (next_token (snd (next_token r))))) = None \<Longrightarrow>
   command_pool env r t = sock_printf env (''usage: pool <host> <port> <user> [pass]'' @ CRLF) t"
  by (simp add: command_pool_def split_beta Let_def split: option.split)

lemma health_frame: "co_client (print_health env t) = co_client t"
  by (simp add: print_health_def split_beta Let_def)

text \<open>
  A mistyped line does nothing: an empty line, an unknown command, \<open>help\<close>, \<open>health\<close>,
  \<open>quit\<close>, and \<open>start\<close> or \<open>pool\<close> without all their arguments leave the pool client and the miner
  exactly as they were, and only \<open>quit\<close> and \<open>exit\<close> end the session.
\<close>

theorem mistyped_line_harmless:
  assumes "case next_token line of (None, _) \<Rightarrow> True
    | (Some cmd, r) \<Rightarrow> cmd \<notin> set acting_commands \<or>
        cmd = ''start'' \<and> fst (next_token (snd (next_token r))) = None \<or>
        cmd = ''pool'' \<and> fst (next_token (snd (next_token (snd (next_token r))))) = None"
  shows "co_client (snd (handle_command env line t)) = co_client t \<and>
    (fst (handle_command env line t) \<longleftrightarrow> fst (next_token line) \<notin> {Some ''quit'', Some ''exit''})"
proof (cases "next_token line")
  case (Pair token r)
  show ?thesis
  proof (cases token)
    case None
    then show ?thesis by (simp add: handle_command_def Pair)
  next
    case (Some cmd)
    note run = handle_command_def[of env line t, unfolded Pair Some Let_def prod.case option.case]
    consider "cmd = ''start''" "fst (next_token (snd (next_token r))) = None"
      | "cmd = ''pool''" "fst (next_token (snd (next_token (snd (next_token r))))) = None"
      | "cmd \<notin> set acting_commands"
      using assms Pair Some by auto
    then show ?thesis
    proof cases
      case 1
      then have "handle_command env line t = (True, command_start env r t)" using run by simp
      then show ?thesis using 1 by (simp add: start_usage Pair Some)
    next
      case 2
      then have "handle_command env line t = (True, command_pool env r t)" using run by simp
      then show ?thesis using 2 by (simp add: pool_usage Pair Some)
    next
      case 3
      then show ?thesis
        unfolding run acting_commands_def
        by (auto simp: Pair Some health_frame)
    qed
  qed
qed

theorem mistyped_line_harmless_witness:
  "co_client (snd (handle_command demo_env ''start 1000'' demo_console)) = demo_client"
  using mistyped_line_harmless[of "''start 1000''" demo_env demo_console]
  by (simp add: next_token_def is_blank_def demo_console_def)


subsection \<open>Secrets\<close>

lemma forget_frame [simp]:
  "co_out (forget_secrets t) = co_out t"
  "co_send_calls (forget_secrets t) = co_send_calls t"
  "co_telemetry (forget_secrets t) = co_telemetry t"
  "co_svc (forget_secrets t) = co_svc t"
  by (simp_all add: forget_secrets_def on_client_def co_svc_def)

lemma forget_out [simp]:
  "forget_secrets t\<lparr>co_send_calls := n\<rparr> = forget_secrets (t\<lparr>co_send_calls := n\<rparr>)"
  "forget_secrets t\<lparr>co_out := w\<rparr> = forget_secrets (t\<lparr>co_out := w\<rparr>)"
  "forget_secrets t\<lparr>co_telemetry := x\<rparr> = forget_secrets (t\<lparr>co_telemetry := x\<rparr>)"
  "on_service f (forget_secrets t) = forget_secrets (on_service f t)"
  by (simp_all add: forget_secrets_def on_client_def on_service_def)

lemma forget_send_all [simp]: "sock_send_all env data (forget_secrets t) = forget_secrets (sock_send_all env data t)"
proof (induction "length data" arbitrary: data t rule: less_induct)
  case less
  then show ?case by (subst (1 2) sock_send_all_step) (simp add: Let_def)
qed

lemma forget_printf [simp]: "sock_printf env s (forget_secrets t) = forget_secrets (sock_printf env s t)"
  by (simp add: sock_printf_def)

lemma forget_hw [simp]:
  "from_hw f (forget_secrets t) = map_prod id forget_secrets (from_hw f t)"
  "from_service g (forget_secrets t) = map_prod id forget_secrets (from_service g t)"
  by (simp_all add: from_hw_def from_service_def split_beta)

lemma forget_get_config:
  "from_client stratum_client_get_config (forget_secrets t) =
     map_prod (map_option (\<lambda>g. g\<lparr>cfg_password := []\<rparr>)) forget_secrets (from_client stratum_client_get_config t)"
  by (simp add: from_client_def stratum_client_get_config_def forget_secrets_def on_client_def
      split: prod.split bool.split)

lemma forget_get_debug:
  "from_client stratum_client_get_debug (forget_secrets t) =
     map_prod (map_option (\<lambda>d. d\<lparr>last_tx := []\<rparr>)) forget_secrets (from_client stratum_client_get_debug t)"
  by (simp add: from_client_def stratum_client_get_debug_def forget_secrets_def on_client_def
      split: prod.split bool.split option.split)

lemma secret_texts [simp]:
  "status_text st n b (g\<lparr>cfg_password := []\<rparr>) = status_text st n b g"
  "results_text m (d\<lparr>last_tx := []\<rparr>) u = results_text m d u"
  "work_text (d\<lparr>last_tx := []\<rparr>) u = work_text d u"
  "stratum_text (d\<lparr>last_tx := []\<rparr>) = stratum_text d"
  by (simp_all add: status_text_def results_text_def work_text_def stratum_text_def)

lemma forget_connected [simp]:
  "stratum_client_is_connected (co_client (forget_secrets t)) = stratum_client_is_connected (co_client t)"
  by (simp add: stratum_client_is_connected_def forget_secrets_def on_client_def)

lemma forget_status: "command_status env (forget_secrets t) = forget_secrets (command_status env t)"
  by (simp add: command_status_def forget_get_config split_beta Let_def split: option.split)

lemma forget_stratum: "command_stratum env (forget_secrets t) = forget_secrets (command_stratum env t)"
  by (simp add: command_stratum_def forget_get_debug split_beta Let_def split: option.split)

lemma forget_stats: "print_stats env (forget_secrets t) = forget_secrets (print_stats env t)"
  by (simp add: print_stats_def forget_get_debug split_beta Let_def split: option.split)

lemma forget_health: "print_health env (forget_secrets t) = forget_secrets (print_health env t)"
  by (simp add: print_health_def split_beta Let_def)

lemma forget_instance: "print_instance env i (forget_secrets t) = forget_secrets (print_instance env i t)"
  by (simp add: print_instance_def split_beta Let_def)

lemma forget_regs: "command_regs env (forget_secrets t) = forget_secrets (command_regs env t)"
proof -
  have "fold (print_instance env) is (forget_secrets t) = forget_secrets (fold (print_instance env) is t)" for "is" t
    by (induction "is" arbitrary: t) (simp_all add: forget_instance)
  then show ?thesis by (simp add: command_regs_def split_beta Let_def)
qed

lemma forget_start: "command_start env r (forget_secrets t) = forget_secrets (command_start env r t)"
  by (simp add: command_start_def split_beta Let_def split: option.split)

lemma forget_forget [simp]: "forget_secrets (forget_secrets t) = forget_secrets t"
  by (simp add: forget_secrets_def on_client_def)

lemma forget_set_config:
  "forget_secrets (on_client (stratum_client_set_config g) (forget_secrets t)) =
   forget_secrets (on_client (stratum_client_set_config g) t)"
  by (simp add: forget_secrets_def on_client_def stratum_client_set_config_def split: prod.split bool.split)

lemma forget_pool: "forget_secrets (command_pool env r (forget_secrets t)) = forget_secrets (command_pool env r t)"
  by (simp add: command_pool_def split_beta Let_def forget_set_config del: forget_printf
      flip: forget_printf split: option.split)

lemma forget_requests:
  "on_client stratum_client_request_connect (forget_secrets t) = forget_secrets (on_client stratum_client_request_connect t)"
  "on_client stratum_client_request_disconnect (forget_secrets t) = forget_secrets (on_client stratum_client_request_disconnect t)"
  by (simp_all add: on_client_def forget_secrets_def stratum_client_request_connect_def stratum_client_request_disconnect_def)

lemma if_both: "(b \<Longrightarrow> P x x') \<Longrightarrow> (\<not> b \<Longrightarrow> P y y') \<Longrightarrow> P (if b then x else y) (if b then x' else y')"
  by simp

lemma forget_handle:
  "fst (handle_command env line (forget_secrets t)) = fst (handle_command env line t) \<and>
   forget_secrets (snd (handle_command env line (forget_secrets t))) = forget_secrets (snd (handle_command env line t))"
proof (cases "next_token line")
  case (Pair token r)
  show ?thesis
  proof (cases token)
    case None
    then show ?thesis by (simp add: handle_command_def Pair)
  next
    case (Some cmd)
    note run = handle_command_def[of env line, unfolded Pair Some Let_def prod.case option.case]
    show ?thesis
      unfolding run
      by (intro if_both[where P = "\<lambda>p q. fst p = fst q \<and> forget_secrets (snd p) = forget_secrets (snd q)"])
        (simp_all add: forget_status forget_stratum forget_stats forget_health forget_regs forget_start
          forget_pool forget_requests)
  qed
qed

text \<open>
  The console cannot leak the pool password: for every command line, what is sent to the
  operator and whether the session goes on do not depend on the configured password nor on the
  recorded outgoing lines (which contain it). Exchanging both for anything else gives the same output.
\<close>

theorem console_hides_password:
  "co_out (snd (handle_command env line (put_secrets pw tx t))) = co_out (snd (handle_command env line t)) \<and>
   fst (handle_command env line (put_secrets pw tx t)) = fst (handle_command env line t)"
proof -
  have "forget_secrets (put_secrets pw tx t) = forget_secrets t"
    by (simp add: forget_secrets_def put_secrets_def on_client_def)
  then have "forget_secrets (snd (handle_command env line (put_secrets pw tx t))) =
      forget_secrets (snd (handle_command env line t))"
    "fst (handle_command env line (put_secrets pw tx t)) = fst (handle_command env line t)"
    using forget_handle[of env line "put_secrets pw tx t"] forget_handle[of env line t] by simp_all
  then show ?thesis using forget_frame(1) by metis
qed


subsection \<open>Reports are complete\<close>

lemma dec_digits_length: "n < 10 ^ Suc k \<Longrightarrow> length (dec_digits n) \<le> Suc k"
proof (induction k arbitrary: n)
  case 0
  then show ?case by (subst dec_digits.simps) simp
next
  case (Suc k)
  have "length (dec_digits (n div 10)) \<le> Suc k" using Suc.prems by (intro Suc.IH) (simp add: less_mult_imp_div_less)
  then show ?case by (subst dec_digits.simps) simp
qed

lemma format_lengths:
  "length (format_lu w) \<le> 10" "length (format_llu d) \<le> 20" "length (format_08lx w) = 8"
  "-(2 ^ 31) \<le> i \<Longrightarrow> i < 2 ^ 31 \<Longrightarrow> length (format_ld i) \<le> 11"
proof -
  have "unat w < 10 ^ Suc 9" using unsigned_less[of w, where 'a = nat] by simp
  then show "length (format_lu w) \<le> 10" using dec_digits_length[of _ 9] by (simp add: format_lu_def)
  have "unat d < 10 ^ Suc 19" using unsigned_less[of d, where 'a = nat] by simp
  then show "length (format_llu d) \<le> 20" using dec_digits_length[of _ 19] by (simp add: format_llu_def)
  show "length (format_08lx w) = 8" by (simp add: format_08lx_def)
  assume "-(2 ^ 31) \<le> i" "i < 2 ^ 31"
  then have "nat i < 10 ^ Suc 9" "nat (- i) < 10 ^ Suc 9" by (simp_all add: nat_less_iff)
  then show "length (format_ld i) \<le> 11"
    using dec_digits_length[of "nat i" 9] dec_digits_length[of "nat (- i)" 9] by (simp add: format_ld_def)
qed

lemma performance_text_fits:
  "length (performance_text m w w2) < 512"
  using format_lengths(1)[of "ucast MINER_HASHRATE_HS"] format_lengths(1)[of "w"]
    format_lengths(1)[of "w2"] format_lengths(1)[of "w2 - active_job_tick m"]
    format_lengths(2)[of "nonce_candidates_issued m"]
    format_lengths(2)[of "nonce_candidates_completed_estimate m"] format_lengths(1)[of "jobs_started m"]
    format_lengths(1)[of "jobs_queued m"]
  by (simp add: performance_text_def CRLF_def format_lengths(3))

lemma results_text_fits:
  "length (results_text m d w) < 512"
  using format_lengths(1)[of "share_candidates d"] format_lengths(1)[of "share_submits d"]
    format_lengths(1)[of "share_accepted d"] format_lengths(1)[of "share_rejected d"]
    format_lengths(1)[of "share_send_failures d"] format_lengths(1)[of "irq_count m"]
    format_lengths(1)[of "result_queue_drops m"] format_lengths(1)[of "overflow_polls m"]
    format_lengths(1)[of "w - last_result_tick m"]
  by (simp add: results_text_def CRLF_def format_lengths(3))

lemma work_text_fits:
  "length (work_text d w) < 512"
  using format_lengths(1)[of "notify_count d"] format_lengths(1)[of "job_dispatch_ok d"]
    format_lengths(1)[of "job_dispatch_fail d"] format_lengths(1)[of "w - last_job_tick d"]
  by (simp add: work_text_def CRLF_def format_lengths(3))

lemma ranges_text_fits:
  "length (ranges_text m) < 512"
  using format_lengths(1)[of "ranges_completed m"] format_lengths(1)[of "ranges_preempted m"]
    format_lengths(1)[of "ranges_preempted_clean_job m"] format_lengths(1)[of "ranges_stopped m"]
    format_lengths(1)[of "last_range_elapsed_ticks m"]
  by (simp add: ranges_text_def CRLF_def format_lengths(3) reason_text_def)

lemma status_text_fits:
  assumes "config_fits cfg"
  shows "length (status_text w w2 b cfg) < 512"
  using assms format_lengths(1)[of "w2"] format_lengths(1)[of "ucast (cfg_port cfg)"]
  by (simp add: status_text_def CRLF_def format_lengths(3) config_fits_def)

lemma last_result_text_fits:
  "length (last_result_text r) < 512"
  using format_lengths(1)[of "res_engine r"]
  by (simp add: last_result_text_def CRLF_def format_lengths(3))

lemma stratum_text_fits:
  assumes "{last_recv_status d, last_send_status d} \<subseteq> {-(2 ^ 31)..<2 ^ 31}"
  shows "length (stratum_text d) < 512"
  using assms format_lengths(1)[of "connect_attempts d"] format_lengths(1)[of "connect_successes d"]
    format_lengths(1)[of "disconnects d"] format_lengths(1)[of "tx_lines d"]
    format_lengths(1)[of "rx_lines d"] format_lengths(1)[of "notify_count d"]
    format_lengths(1)[of "difficulty_count d"] format_lengths(1)[of "target_count d"]
    format_lengths(1)[of "subscribe_ok d"] format_lengths(1)[of "authorize_ok d"]
    format_lengths(1)[of "job_dispatch_ok d"] format_lengths(1)[of "job_dispatch_fail d"]
    format_lengths(4)[of "last_recv_status d"] format_lengths(4)[of "last_send_status d"]
  by (simp add: stratum_text_def CRLF_def format_lengths(3))

lemma instance_text_fits:
  "length (instance_text i w w2 w3 w4) < 512"
  using format_lengths(1)[of "of_nat i"] format_lengths(1)[of "w2"]
  by (simp add: instance_text_def CRLF_def format_lengths(3))

text \<open>
  No report is cut short: whatever the counters and registers hold, each line of \<open>stats\<close>,
  \<open>status\<close>, \<open>stratum\<close> and \<open>regs\<close> fits the 512-byte buffer with its NUL, given that the
  configuration fits its fields and the two status codes are 32-bit integers.
\<close>

theorem reports_fit:
  assumes "config_fits cfg" "{last_recv_status d, last_send_status d} \<subseteq> {-(2 ^ 31)..<2 ^ 31}"
  shows "length (performance_text m w w2) < TELNET_TX_BUFFER_BYTES \<and>
    length (results_text m d w) < TELNET_TX_BUFFER_BYTES \<and> length (work_text d w) < TELNET_TX_BUFFER_BYTES \<and>
    length (ranges_text m) < TELNET_TX_BUFFER_BYTES \<and> length (status_text w w2 b cfg) < TELNET_TX_BUFFER_BYTES \<and>
    length (last_result_text r) < TELNET_TX_BUFFER_BYTES \<and> length (stratum_text d) < TELNET_TX_BUFFER_BYTES \<and>
    length (instance_text i w w2 w3 w4) < TELNET_TX_BUFFER_BYTES \<and> length help_text < TELNET_TX_BUFFER_BYTES"
  using assms
  by (simp add: TELNET_TX_BUFFER_BYTES_def performance_text_fits results_text_fits work_text_fits ranges_text_fits
      status_text_fits last_result_text_fits stratum_text_fits instance_text_fits help_text_def CRLF_def)

theorem reports_fit_witness: "length (status_text 1 128 True default_config) < TELNET_TX_BUFFER_BYTES"
  using reports_fit[of default_config zero_debug _ 1 128 True]
  by (simp add: config_fits_def default_config_def zero_debug_def)

end
