(* ===== verification/Firmware.thy ===== *)
theory Firmware
  imports Telnet
begin

unbundle bit_operations_syntax

section \<open>The running firmware\<close>

text \<open>
  The tasks of the firmware interleaved: the pool task of \<^verbatim>\<open>src/stratum_client.c\<close>, the console
  task of \<^verbatim>\<open>src/telnet_server.c\<close>, the worker and the interrupt handler of
  \<^verbatim>\<open>src/miner_service.c\<close>, and the clock. A label is one step of one of them: for the pool task an
  iteration of its loop, for the console one received byte, for the worker the step of
  \<open>worker_step\<close>. (The service itself is also analysed for calls interleaved one by one, in
  \<^verbatim>\<open>Miner_Service\<close>.)

  What the pool client and the console do to the service is proved once, for an arbitrary predicate on
  the service, in the locales \<open>service_client\<close>, \<open>panel_client\<close> and \<open>console_client\<close>. Their
  interpretations give: every run of the firmware is a run of the service, so that all its
  invariants hold in the whole system; every job on its way is well formed; and no task but
  the pool task drives the connection LEDs.
\<close>

subsection \<open>Steps\<close>

record firmware =
  fw_pool :: task_pc
  fw_session :: console_pc
  fw_worker :: worker_pc
  fw_console :: console

definition fw_client :: "firmware \<Rightarrow> stratum_client" where
  "fw_client y = co_client (fw_console y)"

definition fw_svc :: "firmware \<Rightarrow> miner_service" where
  "fw_svc y = cl_svc (fw_client y)"

definition put_client :: "stratum_client \<Rightarrow> firmware \<Rightarrow> firmware" where
  "put_client c y = y\<lparr>fw_console := (fw_console y)\<lparr>co_client := c\<rparr>\<rparr>"

definition put_svc :: "miner_service \<Rightarrow> firmware \<Rightarrow> firmware" where
  "put_svc s y = put_client ((fw_client y)\<lparr>cl_svc := s\<rparr>) y"

datatype fw_label =
    PoolTask task_input
  | ConsoleTask console_input
  | WorkerTask
  | MinerIrq
  | ClockStep

text \<open>
  The pool and console tasks are created after the worker and have a lower priority, so that the
  worker has entered its loop before their first step. None: not possible now, or (for the pool task)
  not defined.
\<close>

fun fw_step :: "platform \<Rightarrow> console_env \<Rightarrow> fw_label \<Rightarrow> firmware \<Rightarrow> firmware option" where
  "fw_step pf env (PoolTask i) y =
     (if irq_installed (fw_svc y) then do {
        (pc, c) \<leftarrow> stratum_task_step pf i (fw_pool y, fw_client y);
        Some (put_client c (y\<lparr>fw_pool := pc\<rparr>)) }
      else None)"
| "fw_step pf env (ConsoleTask i) y =
     (if irq_installed (fw_svc y)
      then let (pc, t) = telnet_task_step env i (fw_session y, fw_console y)
           in Some (y\<lparr>fw_session := pc, fw_console := t\<rparr>)
      else None)"
| "fw_step pf env WorkerTask y =
     (let (pc, s) = worker_step (fw_worker y) (fw_svc y) in Some (put_svc s (y\<lparr>fw_worker := pc\<rparr>)))"
| "fw_step pf env MinerIrq y =
     (if irq_installed (fw_svc y) \<and> irq_line (hw_bus (svc_hw (fw_svc y)))
      then Some (put_svc (miner_irq_handler (fw_svc y)) y) else None)"
| "fw_step pf env ClockStep y = Some (put_svc ((fw_svc y)\<lparr>xTickCount := xTickCount (fw_svc y) + 1\<rparr>) y)"

fun fw_run :: "platform \<Rightarrow> console_env \<Rightarrow> fw_label list \<Rightarrow> firmware \<Rightarrow> firmware option" where
  "fw_run pf env [] y = Some y"
| "fw_run pf env (l # ls) y = do { y' \<leftarrow> fw_step pf env l y; fw_run pf env ls y' }"

definition fw_boot :: "miner_service \<Rightarrow> firmware" where
  "fw_boot svc = \<lparr>fw_pool = T_Outer, fw_session = C_Listen, fw_worker = W_Enter,
     fw_console = \<lparr>co_client = stratum_client_start svc,
       co_telemetry = \<lparr>g_sysmon_initialized = False, g_sysmon_available = False\<rparr>, co_out = [], co_send_calls = 0\<rparr>\<rparr>"

text \<open>The buffers on the tasks' stacks have their declared sizes, with arbitrary contents.\<close>

definition input_ok :: "fw_label \<Rightarrow> bool" where
  "input_ok l = (case l of PoolTask i \<Rightarrow> length (in_buffer i) = STRATUM_LINE_BUFFER_BYTES
     | ConsoleTask i \<Rightarrow> length (ci_buffer i) = TELNET_RX_BUFFER_BYTES | _ \<Rightarrow> True)"

text \<open>The context and buffer of the hash code have their declared sizes.\<close>

definition pf_ok :: "platform \<Rightarrow> bool" where
  "pf_ok pf \<longleftrightarrow> length (ctx_buffer (pf_ctx pf)) = 64 \<and> length (pf_hexbuf pf) = 33"

inductive fw_reachable :: "platform \<Rightarrow> console_env \<Rightarrow> firmware \<Rightarrow> bool" for pf env where
  fw_init: "miner_service_start hw (status_leds_init leds) jst rst = Some svc \<Longrightarrow> bus_ok (hw_bus hw) \<Longrightarrow>
     length jst = 1 \<Longrightarrow> length rst = 8 \<Longrightarrow> fw_reachable pf env (fw_boot svc)"
| fw_next: "fw_reachable pf env y \<Longrightarrow> input_ok l \<Longrightarrow> fw_step pf env l y = Some y' \<Longrightarrow>
     fw_reachable pf env y'"

inductive_cases fw_reachableE: "fw_reachable pf env y"


subsection \<open>Invariants\<close>

definition svc_view :: "firmware \<Rightarrow> (miner_result_event \<times> bool) list \<Rightarrow> miner_result_event list \<Rightarrow> svc_sys" where
  "svc_view y d t = \<lparr>sys_svc = fw_svc y, sys_pc = fw_worker y, sys_read = d, sys_taken = t\<rparr>"

definition svc_live :: "worker_pc \<Rightarrow> miner_service \<Rightarrow> bool" where
  "svc_live pc s \<longleftrightarrow> irq_installed s \<and>
     (\<exists>d t. svc_reachable \<lparr>sys_svc = s, sys_pc = pc, sys_read = d, sys_taken = t\<rparr>)"

text \<open>Every job in the service is well formed.\<close>

definition jobs_good :: "miner_service \<Rightarrow> bool" where
  "jobs_good s \<longleftrightarrow> queue_ok (g_job_queue s) \<and> uxLength (g_job_queue s) = 1 \<and> queue_ok (g_result_queue s) \<and>
     (\<forall>r \<in> set (queue_items (g_job_queue s)). job_wf (req_job r)) \<and> job_wf (g_active_job s) \<and>
     (\<forall>e \<in> set (queue_items (g_result_queue s)). job_wf (ev_job e))"

definition state_ok :: "stratum_state \<Rightarrow> bool" where
  "state_ok st \<longleftrightarrow> unat (st_extranonce2_size st) \<le> STRATUM_EXTRANONCE2_BYTES \<and> length (st_target st) = 8 \<and>
     notify_fits (st_pending_notify st) \<and> notify_fits (st_current_notify st)"

definition task_ok :: "task_pc \<Rightarrow> bool" where
  "task_ok pc = (case pc of T_Outer \<Rightarrow> True | T_Connecting g \<Rightarrow> config_fits g
     | T_Session ss \<Rightarrow> config_fits (ss_config ss) \<and> state_ok (ss_state ss) \<and>
         length (ss_line ss) = STRATUM_LINE_BUFFER_BYTES \<and> ss_used ss < STRATUM_LINE_BUFFER_BYTES)"

definition console_ok :: "console_pc \<Rightarrow> bool" where
  "console_ok pc = (case pc of C_Listen \<Rightarrow> True | C_Client l \<Rightarrow> session_wf l)"

definition client_ok :: "stratum_client \<Rightarrow> bool" where
  "client_ok c \<longleftrightarrow> debug_free c \<and> lock_ok (g_config_lock c) \<and> config_fits (g_config c)"

text \<open>What the connection LEDs must show.\<close>

definition attached :: "task_pc \<Rightarrow> bool" where
  "attached pc = (case pc of T_Session ss \<Rightarrow> st_subscribed (ss_state ss) \<and> st_authorized (ss_state ss) | _ \<Rightarrow> False)"

definition in_session :: "task_pc \<Rightarrow> bool" where
  "in_session pc = (case pc of T_Session ss \<Rightarrow> True | _ \<Rightarrow> False)"

definition panel_shows :: "bool \<Rightarrow> bool \<Rightarrow> miner_service \<Rightarrow> bool" where
  "panel_shows conn att s \<longleftrightarrow> leds_ok (svc_leds s) \<and>
     lit (svc_leds s) STATUS_LED_POOL_R5_CONNECTED = conn \<and> lit (svc_leds s) STATUS_LED_POOL_ATTACHED = att"


subsection \<open>The interfaces of the service\<close>

text \<open>A predicate on the service that the calls of the pool client keep; the job is well formed.\<close>

locale service_client =
  fixes P :: "miner_service \<Rightarrow> bool"
  assumes submit: "P s \<Longrightarrow> job_wf j \<Longrightarrow> P (miner_service_submit_job (Some j) clean s)"
    and clear: "P s \<Longrightarrow> P (miner_service_clear me s)"
    and status: "P s \<Longrightarrow> P (snd (miner_service_status s))"
    and take: "P s \<Longrightarrow> P (snd (miner_service_take_result s))"

text \<open>One that also the operations on the LEDs keep.\<close>

locale panel_client = service_client +
  assumes panel: "P s \<Longrightarrow> P (s\<lparr>svc_leds := led_step op (svc_leds s)\<rparr>)"

text \<open>One that also the calls of the console keep.\<close>

locale console_client = service_client +
  assumes stop: "P s \<Longrightarrow> P (miner_service_stop_scan s)"
    and last_result: "P s \<Longrightarrow> P (snd (miner_service_get_last_result TelnetTask s))"
    and start: "P s \<Longrightarrow> P (s\<lparr>svc_hw := miner_start_range n k (svc_hw s)\<rparr>)"
    and read_status: "P s \<Longrightarrow> P (s\<lparr>svc_hw := snd (miner_status (svc_hw s))\<rparr>)"
    and read_engines: "P s \<Longrightarrow> P (s\<lparr>svc_hw := snd (miner_num_engines (svc_hw s))\<rparr>)"
    and read_register: "P s \<Longrightarrow> i < MINER_AXI_INSTANCES \<Longrightarrow> unat off < 0x1000 \<Longrightarrow>
        P (s\<lparr>svc_hw := snd (miner_read_reg_instance i off (svc_hw s))\<rparr>)"

text \<open>A predicate on the pool client that its elementary effects keep.\<close>

locale pool_effects =
  fixes Q :: "stratum_client \<Rightarrow> bool"
  assumes debug: "Q c \<Longrightarrow> Q (with_debug_lock f c)"
    and wire: "Q c \<Longrightarrow> Q (c\<lparr>cl_wire := w\<rparr>)"
    and calls: "Q c \<Longrightarrow> Q (c\<lparr>cl_send_calls := n\<rparr>)"
    and submit_job: "Q c \<Longrightarrow> job_wf j \<Longrightarrow> Q (c\<lparr>cl_svc := miner_service_submit_job (Some j) clean (cl_svc c)\<rparr>)"
    and clear_results: "Q c \<Longrightarrow> Q (c\<lparr>cl_svc := miner_service_clear me (cl_svc c)\<rparr>)"
    and poll_status: "Q c \<Longrightarrow> Q (c\<lparr>cl_svc := snd (miner_service_status (cl_svc c))\<rparr>)"
    and take_result: "Q c \<Longrightarrow> Q (c\<lparr>cl_svc := snd (miner_service_take_result (cl_svc c))\<rparr>)"

locale pool_panel_effects = pool_effects +
  assumes leds: "Q c \<Longrightarrow> Q (with_leds (led_step op) c)"

text \<open>One that also the task's own flags and its use of the configuration lock keep.\<close>

locale pool_task_effects = pool_panel_effects +
  assumes set_connected: "Q c \<Longrightarrow> Q (c\<lparr>g_connected := b\<rparr>)"
    and set_disconnect: "Q c \<Longrightarrow> Q (c\<lparr>g_disconnect_requested := b\<rparr>)"
    and use_config_lock: "Q c \<Longrightarrow> xSemaphoreTake StratumTask (g_config_lock c) = (True, k) \<Longrightarrow>
        Q (c\<lparr>g_config_lock := snd (xSemaphoreGive k)\<rparr>)"

sublocale service_client \<subseteq> lifted: pool_effects "\<lambda>c. P (cl_svc c)"
  by unfold_locales (simp_all add: submit clear status take)

sublocale panel_client \<subseteq> lifted: pool_task_effects "\<lambda>c. P (cl_svc c)"
  by unfold_locales (simp_all add: with_leds_def panel)


subsection \<open>Built jobs\<close>

lemma build_job_state:
  "snd (build_job ctx hex n st) \<in> {st, st\<lparr>st_extranonce2_counter := st_extranonce2_counter st + 1\<rparr>}"
  by (auto simp: build_job_def make_extranonce2_def Let_def split: prod.splits option.splits)

lemma length_compress: "length (sha256_compress s b) = 8"
  by (simp add: sha256_compress_def Let_def split_beta)

lemma build_job_wf:
  assumes "pf_ok pf" "state_ok st" "notify_fits n"
    and "build_job (pf_ctx pf) (pf_hexbuf pf) n st = (Some j, st')"
  shows "job_wf j"
proof -
  have spec: "job_spec n st = Some j"
    using build_job_eq[of "pf_ctx pf" "pf_hexbuf pf" n st] assms
    by (auto simp: pf_ok_def state_ok_def split: if_splits)
  have "length (job_midstate j) = 8" "length (job_header_tail j) = 4"
    "job_target j = st_target st" "job_id j = n_job_id n" "job_ntime j = n_ntime n"
    "job_extranonce2 j = hex_string (be_bytes (unat (st_extranonce2_size st)) (unat (st_extranonce2_counter st)))"
    using spec by (auto simp: job_spec_def bind_Some_iff Let_def bitcoin_header_tail_words_def length_compress
        split: if_splits)
  then show ?thesis
    using assms(2,3) by (simp add: job_wf_def job_ok_def state_ok_def notify_fits_def length_hex_string be_bytes_length)
qed


subsection \<open>The session state\<close>

text \<open>What a message may change of the session: the flags only grow.\<close>

lemma dispatch_state:
  "fst (snd (dispatch_notify_work pf n b (st, c))) \<in>
     {st, st\<lparr>st_extranonce2_counter := st_extranonce2_counter st + 1\<rparr>}"
  using build_job_state[of "pf_ctx pf" "pf_hexbuf pf" n st]
  by (auto simp: dispatch_notify_work_def Let_def split: prod.splits option.splits)

definition same_flags :: "stratum_state \<Rightarrow> stratum_state \<Rightarrow> bool" where
  "same_flags st st' \<longleftrightarrow> st_subscribed st' = st_subscribed st \<and> st_authorized st' = st_authorized st"

lemma dispatch_state_ok:
  assumes "state_ok st"
  shows "state_ok (fst (snd (dispatch_notify_work pf n b (st, c)))) \<and>
    same_flags st (fst (snd (dispatch_notify_work pf n b (st, c))))"
  using dispatch_state[of pf n b st c] assms by (auto simp: state_ok_def same_flags_def)

lemma try_dispatch_state_ok:
  assumes "state_ok st"
  shows "state_ok (fst (try_dispatch_pending_notify pf (st, c))) \<and>
    same_flags st (fst (try_dispatch_pending_notify pf (st, c)))"
proof -
  let ?n = "st_pending_notify st"
  have "state_ok (fst (snd (dispatch_notify_work pf ?n b (st, c1)))) \<and>
    same_flags st (fst (snd (dispatch_notify_work pf ?n b (st, c1))))" for b c1
    by (rule dispatch_state_ok[OF assms])
  then show ?thesis
    using assms
    by (auto simp: try_dispatch_pending_notify_def state_ok_def same_flags_def Let_def split_beta)
qed

lemma refill_state_ok:
  assumes "state_ok st"
  shows "state_ok (fst (refill_if_idle pf (st, c))) \<and> same_flags st (fst (refill_if_idle pf (st, c)))"
  using assms dispatch_state_ok[OF assms]
  by (simp add: refill_if_idle_def Let_def split_beta) (simp add: same_flags_def)

lemma target_for_difficulty_length: "length (compact_target_for_difficulty cvt d) = 8"
  by (simp add: compact_target_for_difficulty_def target_words_length)

lemma set_target_ok: "state_ok st \<Longrightarrow> length tg = 8 \<Longrightarrow>
    state_ok (fst (set_target tg ev (st, c))) \<and> same_flags st (fst (set_target tg ev (st, c)))"
  by (simp add: set_target_def state_ok_def same_flags_def)

lemma same_flags_trans: "same_flags a b \<Longrightarrow> same_flags b c \<Longrightarrow> same_flags a c"
  by (simp add: same_flags_def)

lemma handle_message_state_ok:
  assumes "state_ok st"
  shows "state_ok (fst (handle_notify pf line (st, c))) \<and> same_flags st (fst (handle_notify pf line (st, c)))"
    and "state_ok (fst (handle_difficulty pf line (st, c))) \<and> same_flags st (fst (handle_difficulty pf line (st, c)))"
    and "state_ok (fst (handle_target pf line (st, c))) \<and> same_flags st (fst (handle_target pf line (st, c)))"
proof -
  have n: "state_ok (st\<lparr>st_pending_notify := n, st_have_pending_notify := True\<rparr>)" if "notify_fits n" for n
    using assms that by (simp add: state_ok_def)
  have t: "state_ok (st\<lparr>st_target := tg, st_have_target := True\<rparr>)" if "length tg = 8" for tg
    using assms that by (simp add: state_ok_def)
  have f: "same_flags (st\<lparr>st_pending_notify := n, st_have_pending_notify := True\<rparr>) x = same_flags st x" for x n
    by (simp add: same_flags_def)
  have g: "same_flags (st\<lparr>st_target := tg, st_have_target := True\<rparr>) x = same_flags st x" for x tg
    by (simp add: same_flags_def)
  have r: "same_flags st st" by (simp add: same_flags_def)
  show "state_ok (fst (handle_notify pf line (st, c))) \<and> same_flags st (fst (handle_notify pf line (st, c)))"
    using assms r try_dispatch_state_ok[OF n, OF parse_notify_fits]
    by (simp add: handle_notify_def Let_def f split: option.split)
  show "state_ok (fst (handle_difficulty pf line (st, c))) \<and> same_flags st (fst (handle_difficulty pf line (st, c)))"
    using assms r try_dispatch_state_ok[OF t, OF target_for_difficulty_length]
    by (simp add: handle_difficulty_def set_target_def g split: option.split)
  show "state_ok (fst (handle_target pf line (st, c))) \<and> same_flags st (fst (handle_target pf line (st, c)))"
    using assms r try_dispatch_state_ok[OF t, OF parse_target_length]
    by (simp add: handle_target_def set_target_def g split: option.split)
qed

lemma handle_subscribe_state_ok:
  assumes "state_ok st" "handle_subscribe line (st, c) = Some (st1, c1)"
  shows "state_ok st1"
  using assms subscribe_response_fits[of line]
  by (auto simp: handle_subscribe_def state_ok_def Let_def split: parsed.splits prod.splits)

lemma handle_authorize_state_ok:
  "state_ok st \<Longrightarrow> state_ok (fst (handle_authorize line (st, c)))"
  by (simp add: handle_authorize_def state_ok_def Let_def)

lemma handle_line_state_ok:
  assumes "state_ok st" "handle_stratum_line pf line (st, c) = Some (st1, c1)"
  shows "state_ok st1"
proof -
  let ?c = "stratum_debug_set_rx_line line (stratum_debug_inc rx_lines_update c)"
  note msg = handle_message_state_ok[OF assms(1), of pf line ?c]
  have "state_ok st2" if h: "handle_response pf line (st, ?c) = Some (st2, c2)" for st2 c2
  proof -
    obtain z where z: "handle_subscribe line (st, handle_share_response line ?c) = Some z"
      "try_dispatch_pending_notify pf (handle_authorize line z) = (st2, c2)"
      using h by (auto simp: handle_response_def bind_Some_iff)
    obtain a b where ab: "z = (a, b)" by (cases z)
    have "state_ok (fst (handle_authorize line (a, b)))"
      using handle_authorize_state_ok[OF handle_subscribe_state_ok[OF assms(1) z(1)[unfolded ab]]] .
    from try_dispatch_state_ok[OF this, of pf "snd (handle_authorize line (a, b))"] z(2) show ?thesis
      by (simp add: ab)
  qed
  then show ?thesis
    using assms(2) msg by (auto simp: handle_stratum_line_def Let_def split: if_splits)
qed


lemma receive_line:
  "receive_char pf (CHR 0x0A) ss c = Some (pc, c1) \<longleftrightarrow>
    (\<exists>st2 c2. handle_stratum_line pf (c_string ((ss_line ss)[ss_used ss := NUL])) (ss_state ss, c) = Some (st2, c2) \<and>
      poll_results pf (ss\<lparr>ss_state := st2, ss_line := (ss_line ss)[ss_used ss := NUL], ss_used := 0\<rparr>) c2 = (pc, c1))"
  by (auto simp: receive_char_def bind_Some_iff Let_def)


subsection \<open>What the pool task does, for any such predicate\<close>

context pool_effects
begin

lemma debug_effects:
  "Q c \<Longrightarrow> Q (stratum_debug_set_event ev c)"
  "Q c \<Longrightarrow> Q (stratum_debug_set_tx_line ev c)"
  "Q c \<Longrightarrow> Q (stratum_debug_set_rx_line ev c)"
  "Q c \<Longrightarrow> Q (stratum_debug_inc k c)"
  "Q c \<Longrightarrow> Q (stratum_debug_set_send_status st c)"
  "Q c \<Longrightarrow> Q (stratum_debug_set_recv_status st c)"
  by (simp_all add: debug_ops debug)

lemmas effects = debug debug_effects wire calls submit_job clear_results poll_status take_result

lemma send_loop_effect: "Q c \<Longrightarrow> Q (snd (send_loop pf sent rest c))"
proof (induction "length rest" arbitrary: sent rest c rule: less_induct)
  case less
  then show ?case by (cases "rest = []") (auto simp: send_loop_done send_loop_step intro!: effects less)
qed

lemma send_line_effect: "Q c \<Longrightarrow> Q (snd (send_line pf l c))"
  by (simp add: send_line_def send_loop_effect effects)

lemma subscribe_effect: "Q c \<Longrightarrow> Q (send_subscribe_authorize pf g c)"
  by (auto simp: send_subscribe_authorize_def split_beta Let_def intro!: effects send_line_effect)

lemma submit_share_effect: "Q c \<Longrightarrow> Q (submit_share pf g r j c)"
  by (auto simp: submit_share_def split_beta Let_def intro!: effects send_line_effect)

lemma drain_effect: "Q c \<Longrightarrow> Q (drain_share_results pf g c)"
proof (induction pf g c rule: drain_share_results.induct)
  case (1 pf g c)
  have "Q (c\<lparr>cl_svc := s\<rparr>)" if "miner_service_take_result (cl_svc c) = (r, s)" for r s
    using take_result[OF "1.prems"] that by simp
  then show ?case
    using "1.IH" by (subst drain_share_results.simps)
      (simp add: effects submit_share_effect split: prod.split option.split)
qed

lemma dispatch_effect:
  assumes "Q c" "pf_ok pf" "state_ok st" "notify_fits n"
  shows "Q (snd (snd (dispatch_notify_work pf n b (st, c))))"
  using assms(1) build_job_wf[OF assms(2-4)]
  by (auto simp: dispatch_notify_work_def Let_def split: prod.split option.split intro!: effects)

lemma try_dispatch_effect:
  assumes "Q c" "pf_ok pf" "state_ok st"
  shows "Q (snd (try_dispatch_pending_notify pf (st, c)))"
proof -
  have n: "notify_fits (st_pending_notify st)" using assms(3) by (simp add: state_ok_def)
  show ?thesis
    using assms by (auto simp: try_dispatch_pending_notify_def Let_def split_beta
        intro!: effects dispatch_effect n)
qed

lemma refill_effect:
  assumes "Q c" "pf_ok pf" "state_ok st"
  shows "Q (snd (refill_if_idle pf (st, c)))"
proof -
  have n: "notify_fits (st_current_notify st)" using assms(3) by (simp add: state_ok_def)
  show ?thesis
    using assms by (auto simp: refill_if_idle_def Let_def split_beta intro!: effects dispatch_effect n)
qed

lemma share_response_effect: "Q c \<Longrightarrow> Q (handle_share_response line c)"
  by (auto simp: handle_share_response_def intro!: effects)

lemma connect_effect: "Q c \<Longrightarrow> Q (snd (connect_socket g net c))"
  by (auto simp: connect_socket_def Let_def intro!: effects)

lemma poll_effect:
  assumes "Q c" "pf_ok pf" "state_ok (ss_state ss)"
  shows "Q (snd (poll_results pf ss c))"
  using refill_effect[OF drain_effect[OF assms(1)] assms(2,3)] by (simp add: poll_results_def split_beta)

end

context pool_panel_effects
begin

lemma panel_effects:
  "Q c \<Longrightarrow> Q (with_leds (status_leds_set_pool_r5_connected b) c)"
  "Q c \<Longrightarrow> Q (with_leds (status_leds_set_pool_attached b) c)"
  "Q c \<Longrightarrow> Q (with_leds status_leds_toggle_job_received c)"
  using leds[of c "Connected b"] leds[of c "Attached b"] leds[of c JobReceived]
  by (simp_all add: with_leds_def)

lemma show_attached_effect: "Q c \<Longrightarrow> Q (show_attached st c)"
  by (simp add: show_attached_def panel_effects)

lemma handle_message_effect:
  assumes "Q c" "pf_ok pf" "state_ok st"
  shows "Q (snd (handle_notify pf line (st, c)))" "Q (snd (handle_difficulty pf line (st, c)))"
    "Q (snd (handle_target pf line (st, c)))"
proof -
  have n: "state_ok (st\<lparr>st_pending_notify := n, st_have_pending_notify := True\<rparr>)" if "parse_notify line = Some n" for n
    using assms(3) parse_notify_fits[OF that] by (simp add: state_ok_def)
  have t: "state_ok (st\<lparr>st_target := tg, st_have_target := True\<rparr>)" if "length tg = 8" for tg
    using assms(3) that by (simp add: state_ok_def)
  show "Q (snd (handle_notify pf line (st, c)))"
    using assms by (auto simp: handle_notify_def Let_def split: option.split
        intro!: effects panel_effects try_dispatch_effect n)
  show "Q (snd (handle_difficulty pf line (st, c)))"
    using assms by (auto simp: handle_difficulty_def set_target_def split: option.split
        intro!: effects try_dispatch_effect t target_for_difficulty_length)
  show "Q (snd (handle_target pf line (st, c)))"
    using assms by (auto simp: handle_target_def set_target_def split: option.split
        intro!: effects try_dispatch_effect t parse_target_length)
qed

lemma handle_subscribe_effect: "Q c \<Longrightarrow> handle_subscribe line (st, c) = Some (st1, c1) \<Longrightarrow> Q c1"
  by (auto simp: handle_subscribe_def Let_def split: parsed.splits prod.splits
      intro!: effects show_attached_effect)

lemma handle_authorize_effect: "Q c \<Longrightarrow> Q (snd (handle_authorize line (st, c)))"
  by (auto simp: handle_authorize_def Let_def intro!: effects show_attached_effect)

lemma handle_line_effect:
  assumes "Q c" "pf_ok pf" "state_ok st" "handle_stratum_line pf line (st, c) = Some (st1, c1)"
  shows "Q c1"
proof -
  let ?c = "stratum_debug_set_rx_line line (stratum_debug_inc rx_lines_update c)"
  have c: "Q ?c" using assms(1) by (intro effects)
  have "Q c2" if h: "handle_response pf line (st, ?c) = Some (st2, c2)" for st2 c2
  proof -
    obtain z where z: "handle_subscribe line (st, handle_share_response line ?c) = Some z"
      "try_dispatch_pending_notify pf (handle_authorize line z) = (st2, c2)"
      using h by (auto simp: handle_response_def bind_Some_iff)
    obtain a b where ab: "z = (a, b)" by (cases z)
    have b: "Q b" by (rule handle_subscribe_effect[OF share_response_effect[OF c] z(1)[unfolded ab]])
    have "state_ok a" by (rule handle_subscribe_state_ok[OF assms(3) z(1)[unfolded ab]])
    from try_dispatch_effect[OF handle_authorize_effect[OF b, of line a] assms(2) handle_authorize_state_ok[OF this, of line b]]
    show ?thesis using z(2) by (simp add: ab)
  qed
  then show ?thesis
    using assms(4) handle_message_effect[OF c assms(2,3), of line]
    by (auto simp: handle_stratum_line_def Let_def split: if_splits)
qed

lemma receive_effect:
  assumes "Q c" "pf_ok pf" "state_ok (ss_state ss)" "receive_char pf ch ss c = Some (pc, c1)"
  shows "Q c1"
proof (cases "ch = CHR 0x0A")
  case True
  let ?line = "(ss_line ss)[ss_used ss := NUL]"
  obtain st2 c2 where z: "handle_stratum_line pf (c_string ?line) (ss_state ss, c) = Some (st2, c2)"
    "poll_results pf (ss\<lparr>ss_state := st2, ss_line := ?line, ss_used := 0\<rparr>) c2 = (pc, c1)"
    using assms(4) by (auto simp: True receive_line)
  have "Q c2" by (rule handle_line_effect[OF assms(1-3) z(1)])
  from poll_effect[OF this assms(2), of "ss\<lparr>ss_state := st2, ss_line := ?line, ss_used := 0\<rparr>"]
    handle_line_state_ok[OF assms(3) z(1)] z(2)
  show ?thesis by simp
next
  case False
  then show ?thesis using assms(1,4) by (auto simp: receive_char_def intro!: effects split: if_splits)
qed

end

context pool_task_effects
begin

lemma outer_effect: "Q c \<Longrightarrow> Q (snd (outer_step c))"
  by (auto simp: outer_step_def Let_def split: prod.split bool.split intro!: effects use_config_lock)

lemma begin_effect: "Q c \<Longrightarrow> Q (snd (begin_session pf g buf c))"
  by (auto simp: begin_session_def Let_def intro!: effects panel_effects set_connected set_disconnect subscribe_effect)

lemma end_effect: "Q c \<Longrightarrow> Q (snd (end_session c))"
  by (auto simp: end_session_def Let_def intro!: effects panel_effects set_connected)

lemma connecting_effect: "Q c \<Longrightarrow> Q (snd (connecting_step pf i g c))"
  by (auto simp: connecting_step_def split_beta Let_def intro!: begin_effect connect_effect)

lemma inner_effect:
  assumes "Q c" "pf_ok pf" "state_ok (ss_state ss)" "inner_step pf i ss c = Some (pc, c1)"
  shows "Q c1"
  using assms receive_effect[OF assms(1-3)] poll_effect[OF assms(1-3)] end_effect[OF assms(1)]
    end_effect[of "stratum_debug_set_event (''recv error rc='' @ format_ld (in_got i)) (stratum_debug_set_recv_status (in_got i) c)"]
    effects
  by (auto simp: inner_step_def split: if_splits)

lemma task_effect:
  assumes "Q c" "pf_ok pf" "task_ok tp" "stratum_task_step pf i (tp, c) = Some (pc, c1)"
  shows "Q c1"
  using assms(3,4) outer_effect[OF assms(1)] connecting_effect[OF assms(1)] inner_effect[OF assms(1,2)]
  by (cases tp) (auto simp: task_ok_def, (metis snd_conv)+)

end


subsection \<open>The pool task keeps its own state well formed\<close>

lemma poll_task_ok:
  assumes "task_ok (T_Session ss)"
  shows "task_ok (fst (poll_results pf ss c))"
    and "attached (fst (poll_results pf ss c)) = attached (T_Session ss)" "in_session (fst (poll_results pf ss c))"
  using assms refill_state_ok[of "ss_state ss" pf "drain_share_results pf (ss_config ss) c"]
  by (simp_all add: poll_results_def task_ok_def attached_def in_session_def same_flags_def split_beta)

lemma receive_task_ok:
  assumes "task_ok (T_Session ss)" "receive_char pf ch ss c = Some (pc, c1)"
  shows "task_ok pc \<and> in_session pc"
proof (cases "ch = CHR 0x0A")
  case True
  obtain st2 c2 where z:
    "handle_stratum_line pf (c_string ((ss_line ss)[ss_used ss := NUL])) (ss_state ss, c) = Some (st2, c2)"
    "poll_results pf (ss\<lparr>ss_state := st2, ss_line := (ss_line ss)[ss_used ss := NUL], ss_used := 0\<rparr>) c2 = (pc, c1)"
    using assms(2) by (auto simp: True receive_line)
  have "state_ok st2" using handle_line_state_ok[OF _ z(1)] assms(1) by (simp add: task_ok_def)
  then have "task_ok (T_Session (ss\<lparr>ss_state := st2, ss_line := (ss_line ss)[ss_used ss := NUL], ss_used := 0\<rparr>))"
    using assms(1) by (simp add: task_ok_def STRATUM_LINE_BUFFER_BYTES_def)
  from poll_task_ok[OF this, of pf c2] z(2) show ?thesis by simp
next
  case False
  then show ?thesis
    using assms by (auto simp: receive_char_def task_ok_def in_session_def STRATUM_LINE_BUFFER_BYTES_def split: if_splits)
qed

lemma zero_state_ok: "state_ok zero_state"
  by (simp add: state_ok_def zero_state_def zero_notify_def notify_fits_def STRATUM_JOB_ID_BYTES_def)

lemma task_step_ok:
  assumes "task_ok tp" "client_ok c" "length (in_buffer i) = STRATUM_LINE_BUFFER_BYTES"
    and "stratum_task_step pf i (tp, c) = Some (pc, c1)"
  shows "task_ok pc"
proof (cases tp)
  case T_Outer
  then have "(pc, c1) = outer_step c" using assms(4) by simp
  moreover have "task_ok (fst (outer_step c))"
    using assms(2) by (auto simp: outer_step_def task_ok_def client_ok_def stratum_debug_inc_def Let_def
        split: prod.split bool.split)
  ultimately show ?thesis by (metis fst_conv)
next
  case (T_Connecting g)
  then show ?thesis
    using assms zero_state_ok by (auto simp: connecting_step_def begin_session_def task_ok_def Let_def
        STRATUM_LINE_BUFFER_BYTES_def split: prod.splits if_splits)
next
  case (T_Session ss)
  have ok: "task_ok (T_Session ss)" using assms(1) T_Session by simp
  have e: "task_ok (fst (end_session c2))" for c2 by (simp add: end_session_def task_ok_def Let_def)
  show ?thesis
    using assms(4) T_Session receive_task_ok[OF ok] poll_task_ok(1)[OF ok] e
    by (auto simp: inner_step_def split: if_splits) (metis fst_conv)+
qed

interpretation ok: pool_task_effects client_ok
proof (unfold_locales, goal_cases)
  case (11 c k)
  then show ?case
    using lock_cycle[of "g_config_lock c" StratumTask] by (simp add: client_ok_def)
qed (simp_all add: client_ok_def with_leds_def)

interpretation conn: pool_panel_effects "\<lambda>c. g_connected c = b" for b
  by unfold_locales (simp_all add: with_leds_def)


subsection \<open>The service under its clients\<close>

lemma live_step:
  assumes "svc_live pc s" "irq_installed s' = irq_installed s"
    and "\<And>d t. \<exists>t'. svc_step l \<lparr>sys_svc = s, sys_pc = pc, sys_read = d, sys_taken = t\<rparr> =
      Some \<lparr>sys_svc = s', sys_pc = pc, sys_read = d, sys_taken = t'\<rparr>"
  shows "svc_live pc s'"
proof -
  obtain d t where r: "svc_reachable \<lparr>sys_svc = s, sys_pc = pc, sys_read = d, sys_taken = t\<rparr>" "irq_installed s"
    using assms(1) by (auto simp: svc_live_def)
  obtain t' where "svc_step l \<lparr>sys_svc = s, sys_pc = pc, sys_read = d, sys_taken = t\<rparr> =
      Some \<lparr>sys_svc = s', sys_pc = pc, sys_read = d, sys_taken = t'\<rparr>" using assms(3) by blast
  from svc_next[OF r(1) this] show ?thesis using r(2) assms(2) by (auto simp: svc_live_def)
qed

lemma live_installed: "svc_live pc s \<Longrightarrow> irq_installed s"
  by (simp add: svc_live_def)

interpretation live: panel_client "svc_live pc" for pc
proof (unfold_locales, goal_cases)
  case (1 s j clean)
  show ?case by (rule live_step[OF 1(1), of _ "Submit j clean"])
    (use live_installed[OF 1(1)] in \<open>simp_all add: api_frame\<close>)
next
  case (2 s me)
  show ?case by (rule live_step[OF 2, of _ "ClearResults me"]) (use live_installed[OF 2] in \<open>simp_all add: api_frame\<close>)
next
  case (3 s)
  show ?case by (rule live_step[OF 3, of _ PollStatus]) (use live_installed[OF 3] in \<open>simp_all add: status_eq\<close>)
next
  case (4 s)
  show ?case by (rule live_step[OF 4, of _ TakeResult])
    (use live_installed[OF 4] in \<open>simp_all add: take_result_eq(1) split_beta\<close>)
next
  case (5 s op)
  show ?case by (rule live_step[OF 5, of _ "PanelOp op"]) (use live_installed[OF 5] in simp_all)
qed

interpretation live: console_client "svc_live pc" for pc
proof (unfold_locales, goal_cases)
  case (1 s)
  show ?case by (rule live_step[OF 1, of _ StopScan])
    (use live_installed[OF 1] in \<open>simp_all add: miner_service_stop_scan_def\<close>)
next
  case (2 s)
  show ?case by (rule live_step[OF 2, of _ LastResult]) (use live_installed[OF 2] in \<open>simp_all add: api_frame\<close>)
next
  case (3 s n k)
  show ?case by (rule live_step[OF 3, of _ "StartRange n k"]) (use live_installed[OF 3] in simp_all)
next
  case (4 s)
  show ?case by (rule live_step[OF 4, of _ ReadStatus]) (use live_installed[OF 4] in simp_all)
next
  case (5 s)
  show ?case by (rule live_step[OF 5, of _ ReadEngines]) (use live_installed[OF 5] in simp_all)
next
  case (6 s i off)
  show ?case by (rule live_step[OF 6(1), of _ "ReadRegister i off"]) (use live_installed[OF 6(1)] 6(2,3) in simp_all)
qed

lemma jobs_good_cong:
  "g_job_queue s' = g_job_queue s \<Longrightarrow> g_result_queue s' = g_result_queue s \<Longrightarrow> g_active_job s' = g_active_job s \<Longrightarrow>
   jobs_good s' = jobs_good s"
  by (simp add: jobs_good_def)

lemma jobs_good_take: "jobs_good s \<Longrightarrow> jobs_good (snd (miner_service_take_result s))"
  using rq.receive_ok[of "g_result_queue s"] rq.receive_Nil[of "g_result_queue s"] rq.receive_Cons[of "g_result_queue s"]
  by (cases "queue_items (g_result_queue s)") (auto simp: jobs_good_def take_result_eq)

interpretation jobs: panel_client jobs_good
proof (unfold_locales, goal_cases)
  case (1 s j clean)
  then show ?case
    using submit_queue[of s j clean]
    by (simp add: jobs_good_def api_frame) (simp add: miner_service_submit_job_def upd_stats_def)
next
  case (2 s me)
  then show ?case
    by (subst jobs_good_cong[of _ s]) (simp_all add: miner_service_clear_def split_beta Let_def)
next
  case (3 s)
  then show ?case
    by (subst jobs_good_cong[of _ s]) (simp_all add: miner_service_status_def upd_stats_def split_beta Let_def)
next
  case (4 s)
  then show ?case by (rule jobs_good_take)
next
  case (5 s op)
  then show ?case by (simp add: jobs_good_def)
qed

interpretation jobs: console_client jobs_good
  by (unfold_locales, goal_cases)
    (simp_all add: jobs_good_def miner_service_stop_scan_def miner_service_get_last_result_def split_beta Let_def)

interpretation leds: console_client "\<lambda>s. svc_leds s = l" for l
  by (unfold_locales, goal_cases)
    (simp_all add: miner_service_submit_job_def miner_service_clear_def miner_service_status_def upd_stats_def
      take_result_eq miner_service_stop_scan_def miner_service_get_last_result_def split_beta Let_def)


subsection \<open>What the console does\<close>

lemma co_svc_calls [simp]:
  "co_svc (snd (from_hw f t)) = (co_svc t)\<lparr>svc_hw := snd (f (svc_hw (co_svc t)))\<rparr>"
  "co_svc (snd (from_service g t)) = snd (g (co_svc t))"
  "co_svc (snd (from_client stratum_client_get_config t)) = co_svc t"
  "co_svc (snd (from_client stratum_client_get_debug t)) = co_svc t"
  "co_svc (on_service k t) = k (co_svc t)"
  "co_svc (on_client stratum_client_request_connect t) = co_svc t"
  "co_svc (on_client stratum_client_request_disconnect t) = co_svc t"
  "co_svc (on_client (stratum_client_set_config c) t) = co_svc t"
  "co_svc (t\<lparr>co_telemetry := x\<rparr>) = co_svc t"
  by (simp_all add: from_hw_def from_service_def from_client_def on_service_def on_client_def co_svc_def
      stratum_client_get_config_def stratum_client_get_debug_def stratum_client_set_config_def
      stratum_client_request_connect_def stratum_client_request_disconnect_def split_beta
      split: option.split prod.split bool.split)

text \<open>A predicate on the console that its elementary effects keep.\<close>

locale console_effects =
  fixes R :: "console \<Rightarrow> bool"
  assumes send: "R t \<Longrightarrow> R (sock_send_all env data t)"
    and telemetry: "R t \<Longrightarrow> R (t\<lparr>co_telemetry := x\<rparr>)"
    and get_config: "R t \<Longrightarrow> R (snd (from_client stratum_client_get_config t))"
    and get_debug: "R t \<Longrightarrow> R (snd (from_client stratum_client_get_debug t))"
    and set_config: "R t \<Longrightarrow> config_fits g \<Longrightarrow> R (on_client (stratum_client_set_config g) t)"
    and connect: "R t \<Longrightarrow> R (on_client stratum_client_request_connect t)"
    and disconnect: "R t \<Longrightarrow> R (on_client stratum_client_request_disconnect t)"
    and svc_status: "R t \<Longrightarrow> R (snd (from_service miner_service_status t))"
    and svc_last: "R t \<Longrightarrow> R (snd (from_service (miner_service_get_last_result TelnetTask) t))"
    and svc_stop: "R t \<Longrightarrow> R (on_service miner_service_stop_scan t)"
    and svc_clear: "R t \<Longrightarrow> R (on_service (miner_service_clear TelnetTask) t)"
    and hw_start: "R t \<Longrightarrow> R (on_service (\<lambda>s. s\<lparr>svc_hw := miner_start_range n k (svc_hw s)\<rparr>) t)"
    and hw_status: "R t \<Longrightarrow> R (snd (from_hw miner_status t))"
    and hw_engines: "R t \<Longrightarrow> R (snd (from_hw miner_num_engines t))"
    and hw_register: "R t \<Longrightarrow> i < MINER_AXI_INSTANCES \<Longrightarrow> unat off < 0x1000 \<Longrightarrow>
        R (snd (from_hw (miner_read_reg_instance i off) t))"

sublocale console_client \<subseteq> on_console: console_effects "\<lambda>t. P (co_svc t)"
  by unfold_locales
    (simp_all add: stop clear status last_result start read_status read_engines read_register, simp_all add: co_svc_def)

context console_effects
begin

lemma printf: "R t \<Longrightarrow> R (sock_printf env s t)"
  by (simp add: sock_printf_def send)

lemma option_effects: "R t \<Longrightarrow> R (telnet_handle_option env a b t)" "R t \<Longrightarrow> R (telnet_negotiate env t)"
  by (simp_all add: telnet_handle_option_def telnet_negotiate_def telnet_send_command_def send Let_def)

lemma registers_ok:
  "unat MINER_REG_STATUS < 0x1000" "unat MINER_REG_NUM_ENGINES < 0x1000"
  "unat MINER_REG_RESULT_STATUS < 0x1000" "unat MINER_REG_IRQ_CONTROL < 0x1000"
  by (simp_all add: reg_defs)

lemmas effects = printf telemetry get_config get_debug connect disconnect svc_status svc_last svc_stop
  svc_clear hw_start hw_status hw_engines

lemma report_effects:
  assumes "R t"
  shows "R (command_status env t)" "R (command_stratum env t)" "R (print_stats env t)" "R (print_health env t)"
  using assms
  by (simp_all add: command_status_def command_stratum_def print_stats_def print_health_def split_beta Let_def
      effects split: option.split)

lemma instance_effect: "R t \<Longrightarrow> i < MINER_AXI_INSTANCES \<Longrightarrow> R (print_instance env i t)"
  by (simp add: print_instance_def split_beta Let_def effects hw_register registers_ok)

lemma regs_effect:
  assumes "R t"
  shows "R (command_regs env t)"
proof -
  have "R (fold (print_instance env) is t)" if "R t" "set is \<subseteq> {..<MINER_AXI_INSTANCES}" for "is" t
    using that by (induction "is" arbitrary: t) (auto simp: instance_effect)
  then show ?thesis
    using assms by (simp add: command_regs_def split_beta Let_def subset_iff effects)
qed

lemma pool_config_fits: "config_fits (pool_config h p u w)"
  by (auto simp: config_fits_def pool_config_def snprintf_s_def)

lemma argument_effects:
  assumes "R t"
  shows "R (command_start env r t)" "R (command_pool env r t)"
  using assms
  by (simp_all add: command_start_def command_pool_def split_beta Let_def effects set_config pool_config_fits
      split: option.split)

lemma command_effect:
  assumes "R t"
  shows "R (snd (handle_command env line t))"
proof (cases "next_token line")
  case (Pair token r)
  show ?thesis
  proof (cases token)
    case None
    then show ?thesis using assms by (simp add: handle_command_def Pair)
  next
    case (Some cmd)
    show ?thesis
      unfolding handle_command_def Pair Some Let_def prod.case option.case
      by (simp only: if_distrib[where f = "\<lambda>p. R (snd p)"] snd_conv)
        (simp add: assms effects report_effects regs_effect argument_effects)
  qed
qed

lemma line_end_effect: "R t \<Longrightarrow> R (snd (telnet_line_end env ch (l, t)))"
  by (auto simp: telnet_line_end_def split_beta Let_def intro!: effects command_effect)

lemma char_effect:
  assumes "R t"
  shows "R (snd (telnet_char env ch (l, t)))"
proof -
  have "R (snd (telnet_protocol env ch (l, t)))" "R (snd (telnet_edit env ch (l, t)))"
    using assms by (auto simp: telnet_protocol_def telnet_edit_def effects option_effects Let_def
        split: telnet_parse_state.split)
  then show ?thesis using assms line_end_effect by (simp add: telnet_char_def split_beta)
qed

lemma console_task_effect:
  assumes "R t"
  shows "R (snd (telnet_task_step env i (pc, t)))"
proof (cases pc)
  case C_Listen
  then show ?thesis using assms by (simp add: effects option_effects)
next
  case (C_Client l)
  then show ?thesis using assms char_effect[OF assms, of env "ci_ch i" l] by (auto simp: split_beta split: option.split)
qed

end

interpretation ok_console: console_effects "\<lambda>t. client_ok (co_client t)"
proof (unfold_locales, goal_cases)
  case (3 t)
  then show ?case
    using lock_cycle[of "g_config_lock (co_client t)" TelnetTask]
    by (auto simp: client_ok_def from_client_def stratum_client_get_config_def split: prod.split bool.split)
next
  case (4 t)
  then obtain l where l: "g_debug_lock (co_client t) = Some l" "lock_ok l" by (auto simp: client_ok_def debug_free_def)
  then show ?case
    using 4 lock_cycle[OF l(2), of TelnetTask]
    by (auto simp: client_ok_def debug_free_def from_client_def stratum_client_get_debug_def split: prod.split bool.split)
next
  case (5 t g)
  then show ?case
    using lock_cycle[of "g_config_lock (co_client t)" TelnetTask]
    by (auto simp: client_ok_def on_client_def stratum_client_set_config_def split: prod.split bool.split)
qed (simp_all add: client_ok_def from_hw_def from_service_def on_service_def on_client_def
    stratum_client_request_connect_def stratum_client_request_disconnect_def split_beta Let_def)

interpretation conn_console: console_effects "\<lambda>t. g_connected (co_client t) = b" for b
  by (unfold_locales, goal_cases)
    (simp_all add: from_hw_def from_service_def on_service_def on_client_def from_client_def
      stratum_client_request_connect_def stratum_client_request_disconnect_def stratum_client_get_config_def
      stratum_client_get_debug_def stratum_client_set_config_def split_beta Let_def split: option.split prod.split bool.split)


subsection \<open>The connection LEDs\<close>

lemma panel_upd:
  assumes "panel_shows conn att (cl_svc c)"
  shows "panel_shows conn' att (cl_svc (with_leds (status_leds_set_pool_r5_connected conn') c))"
    "panel_shows conn att' (cl_svc (with_leds (status_leds_set_pool_attached att') c))"
    "panel_shows conn att (cl_svc (with_leds status_leds_toggle_job_received c))"
  using assms by (simp_all add: panel_shows_def with_leds_def led_bits led_ops_ok led_numbers)

lemma panel_cong: "svc_leds s' = svc_leds s \<Longrightarrow> panel_shows a b s' = panel_shows a b s"
  by (simp add: panel_shows_def)

lemma panel_messages:
  assumes "pf_ok pf" "state_ok st" "panel_shows True att (cl_svc c)"
  shows "panel_shows True att (cl_svc (snd (handle_notify pf line (st, c))))"
    "panel_shows True att (cl_svc (snd (handle_difficulty pf line (st, c))))"
    "panel_shows True att (cl_svc (snd (handle_target pf line (st, c))))"
proof -
  have n: "state_ok (st\<lparr>st_pending_notify := n, st_have_pending_notify := True\<rparr>)" if "parse_notify line = Some n" for n
    using assms(2) parse_notify_fits[OF that] by (simp add: state_ok_def)
  have t: "state_ok (st\<lparr>st_target := tg, st_have_target := True\<rparr>)" if "length tg = 8" for tg
    using assms(2) that by (simp add: state_ok_def)
  note keep = leds.lifted.try_dispatch_effect[OF refl assms(1)]
  have inc: "panel_shows True att (cl_svc (with_leds status_leds_toggle_job_received (stratum_debug_inc k c)))" for k
    by (rule panel_upd(3)) (simp add: assms(3))
  show "panel_shows True att (cl_svc (snd (handle_notify pf line (st, c))))"
    using assms(3) inc
    by (auto simp: handle_notify_def Let_def panel_cong[OF keep[OF n]] split: option.split)
  show "panel_shows True att (cl_svc (snd (handle_difficulty pf line (st, c))))"
    using assms(3)
    by (auto simp: handle_difficulty_def set_target_def panel_cong[OF keep[OF t[OF target_for_difficulty_length]]]
        split: option.split)
  show "panel_shows True att (cl_svc (snd (handle_target pf line (st, c))))"
    using assms(3)
    by (auto simp: handle_target_def set_target_def panel_cong[OF keep[OF t[OF parse_target_length]]]
        split: option.split)
qed

definition sub_auth :: "stratum_state \<Rightarrow> bool" where
  "sub_auth st \<longleftrightarrow> st_subscribed st \<and> st_authorized st"

lemma panel_subscribe:
  assumes "panel_shows True (sub_auth st) (cl_svc c)" "handle_subscribe line (st, c) = Some (st1, c1)"
  shows "panel_shows True (sub_auth st1) (cl_svc c1)"
  using assms panel_upd(2)[of True "sub_auth st" "stratum_debug_inc subscribe_ok_update c"]
  by (auto simp: handle_subscribe_def show_attached_def sub_auth_def Let_def split: parsed.splits prod.splits)

lemma panel_authorize:
  assumes "panel_shows True (sub_auth st) (cl_svc c)"
  shows "panel_shows True (sub_auth (fst (handle_authorize line (st, c)))) (cl_svc (snd (handle_authorize line (st, c))))"
  using assms panel_upd(2)[of True "sub_auth st" "stratum_debug_inc authorize_ok_update c"]
  by (auto simp: handle_authorize_def show_attached_def sub_auth_def Let_def)

lemma sub_auth_flags: "same_flags st st' \<Longrightarrow> sub_auth st' = sub_auth st"
  by (simp add: same_flags_def sub_auth_def)

lemma panel_try_dispatch:
  assumes "pf_ok pf" "state_ok st" "panel_shows True (sub_auth st) (cl_svc c)"
  shows "panel_shows True (sub_auth (fst (try_dispatch_pending_notify pf (st, c))))
    (cl_svc (snd (try_dispatch_pending_notify pf (st, c))))"
proof -
  have "svc_leds (cl_svc (snd (try_dispatch_pending_notify pf (st, c)))) = svc_leds (cl_svc c)"
    by (rule leds.lifted.try_dispatch_effect[OF refl assms(1,2)])
  moreover have "sub_auth (fst (try_dispatch_pending_notify pf (st, c))) = sub_auth st"
    by (rule sub_auth_flags[OF conjunct2[OF try_dispatch_state_ok[OF assms(2)]]])
  ultimately show ?thesis using assms(3) by (simp add: panel_shows_def)
qed

lemma panel_response:
  assumes "pf_ok pf" "state_ok st" "panel_shows True (sub_auth st) (cl_svc c)"
    and "handle_response pf line (st, c) = Some (st1, c1)"
  shows "panel_shows True (sub_auth st1) (cl_svc c1)"
proof -
  obtain a b where z: "handle_subscribe line (st, handle_share_response line c) = Some (a, b)"
    "try_dispatch_pending_notify pf (handle_authorize line (a, b)) = (st1, c1)"
    using assms(4) by (auto simp: handle_response_def bind_Some_iff)
  have "svc_leds (cl_svc (handle_share_response line c)) = svc_leds (cl_svc c)"
    by (rule leds.lifted.share_response_effect) simp
  from panel_cong[OF this] have "panel_shows True (sub_auth st) (cl_svc (handle_share_response line c))"
    using assms(3) by simp
  from panel_authorize[OF panel_subscribe[OF this z(1)], of line]
  have p: "panel_shows True (sub_auth (fst (handle_authorize line (a, b)))) (cl_svc (snd (handle_authorize line (a, b))))" .
  have "state_ok (fst (handle_authorize line (a, b)))"
    by (rule handle_authorize_state_ok[OF handle_subscribe_state_ok[OF assms(2) z(1)]])
  from panel_try_dispatch[OF assms(1) this p] z(2) show ?thesis by simp
qed

lemma panel_line:
  assumes "pf_ok pf" "state_ok st" "panel_shows True (sub_auth st) (cl_svc c)"
    and "handle_stratum_line pf line (st, c) = Some (st1, c1)"
  shows "panel_shows True (sub_auth st1) (cl_svc c1)"
proof -
  let ?c = "stratum_debug_set_rx_line line (stratum_debug_inc rx_lines_update c)"
  have c: "panel_shows True (sub_auth st) (cl_svc ?c)" using assms(3) by simp
  have m: "panel_shows True (sub_auth (fst (handle_notify pf line (st, ?c)))) (cl_svc (snd (handle_notify pf line (st, ?c))))"
    "panel_shows True (sub_auth (fst (handle_difficulty pf line (st, ?c)))) (cl_svc (snd (handle_difficulty pf line (st, ?c))))"
    "panel_shows True (sub_auth (fst (handle_target pf line (st, ?c)))) (cl_svc (snd (handle_target pf line (st, ?c))))"
    using panel_messages[OF assms(1,2) c, of line]
    by (simp_all add: sub_auth_flags[OF conjunct2[OF handle_message_state_ok(1)[OF assms(2)]]]
        sub_auth_flags[OF conjunct2[OF handle_message_state_ok(2)[OF assms(2)]]]
        sub_auth_flags[OF conjunct2[OF handle_message_state_ok(3)[OF assms(2)]]])
  show ?thesis
    using assms(4) m panel_response[OF assms(1,2) c]
    by (auto simp: handle_stratum_line_def Let_def split: if_splits)
qed

lemma panel_poll:
  assumes "pf_ok pf" "task_ok (T_Session ss)" "panel_shows True (attached (T_Session ss)) (cl_svc c)"
  shows "panel_shows True (attached (fst (poll_results pf ss c))) (cl_svc (snd (poll_results pf ss c)))"
proof -
  have "state_ok (ss_state ss)" using assms(2) by (simp add: task_ok_def)
  then have "svc_leds (cl_svc (snd (poll_results pf ss c))) = svc_leds (cl_svc c)"
    by (rule leds.lifted.poll_effect[OF refl assms(1)])
  then show ?thesis using assms(3) poll_task_ok(2)[OF assms(2), of pf c] by (simp add: panel_shows_def)
qed

lemma panel_receive:
  assumes "pf_ok pf" "task_ok (T_Session ss)" "panel_shows True (attached (T_Session ss)) (cl_svc c)"
    and "receive_char pf ch ss c = Some (pc, c1)"
  shows "panel_shows True (attached pc) (cl_svc c1)"
proof (cases "ch = CHR 0x0A")
  case True
  let ?line = "(ss_line ss)[ss_used ss := NUL]"
  obtain st2 c2 where z: "handle_stratum_line pf (c_string ?line) (ss_state ss, c) = Some (st2, c2)"
    "poll_results pf (ss\<lparr>ss_state := st2, ss_line := ?line, ss_used := 0\<rparr>) c2 = (pc, c1)"
    using assms(4) by (auto simp: True receive_line)
  have st: "state_ok (ss_state ss)" using assms(2) by (simp add: task_ok_def)
  have "panel_shows True (sub_auth st2) (cl_svc c2)"
    by (rule panel_line[OF assms(1) st _ z(1)]) (use assms(3) in \<open>simp add: attached_def sub_auth_def\<close>)
  moreover have "task_ok (T_Session (ss\<lparr>ss_state := st2, ss_line := ?line, ss_used := 0\<rparr>))"
    using assms(2) handle_line_state_ok[OF st z(1)] by (simp add: task_ok_def STRATUM_LINE_BUFFER_BYTES_def)
  ultimately show ?thesis
    using panel_poll[OF assms(1), of "ss\<lparr>ss_state := st2, ss_line := ?line, ss_used := 0\<rparr>" c2] z(2)
    by (simp add: attached_def sub_auth_def)
next
  case False
  then show ?thesis using assms(3,4) by (auto simp: receive_char_def attached_def split: if_splits)
qed

lemma panel_begin_end:
  assumes "panel_shows a b (cl_svc c)"
  shows "panel_shows True False (cl_svc (snd (begin_session pf g buf c)))"
    and "panel_shows False False (cl_svc (snd (end_session c)))"
proof -
  have 1: "panel_shows x b (cl_svc (with_leds (status_leds_set_pool_r5_connected x) (c\<lparr>g_connected := x\<rparr>)))" for x
    by (rule panel_upd(1)[of a]) (simp add: assms)
  note 2 = panel_upd(2)[OF 1, of _ False]
  show "panel_shows False False (cl_svc (snd (end_session c)))"
    using 2[of False] by (simp add: end_session_def Let_def)
  define c4 where "c4 = stratum_debug_inc connect_successes_update (with_leds (status_leds_set_pool_attached False)
      (with_leds (status_leds_set_pool_r5_connected True) (c\<lparr>g_connected := True\<rparr>)))"
  have "svc_leds (cl_svc (send_subscribe_authorize pf g (c4\<lparr>g_disconnect_requested := False\<rparr>))) = svc_leds (cl_svc c4)"
    by (rule leds.lifted.subscribe_effect) simp
  moreover have "panel_shows True False (cl_svc c4)" using 2[of True] by (simp add: c4_def)
  ultimately show "panel_shows True False (cl_svc (snd (begin_session pf g buf c)))"
    by (simp add: begin_session_def Let_def panel_shows_def flip: c4_def)
qed

lemma panel_task:
  assumes "pf_ok pf" "task_ok tp" "panel_shows (in_session tp) (attached tp) (cl_svc c)"
    and "stratum_task_step pf i (tp, c) = Some (pc, c1)"
  shows "panel_shows (in_session pc) (attached pc) (cl_svc c1)"
proof (cases tp)
  case T_Outer
  then have r: "(pc, c1) = outer_step c" using assms(4) by simp
  have "svc_leds (cl_svc (snd (outer_step c))) = svc_leds (cl_svc c)"
    by (simp add: outer_step_def Let_def split: prod.split bool.split)
  moreover have "\<not> in_session (fst (outer_step c)) \<and> \<not> attached (fst (outer_step c))"
    by (simp add: outer_step_def in_session_def attached_def Let_def split: prod.split bool.split)
  ultimately show ?thesis
    using assms(3) T_Outer by (simp add: panel_shows_def in_session_def attached_def flip: r)
next
  case (T_Connecting g)
  obtain ok c2 where k: "connect_socket g (in_net i) c = (ok, c2)" by (cases "connect_socket g (in_net i) c")
  have "svc_leds (cl_svc (snd (connect_socket g (in_net i) c))) = svc_leds (cl_svc c)"
    by (rule leds.lifted.connect_effect) simp
  then have p: "panel_shows False False (cl_svc c2)"
    using assms(3) T_Connecting k by (simp add: panel_shows_def in_session_def attached_def)
  show ?thesis
    using assms(4) T_Connecting p panel_begin_end(1)[OF p, of pf g "in_buffer i"]
    by (auto simp: connecting_step_def k begin_session_def in_session_def attached_def zero_state_def Let_def
        split: if_splits)
next
  case (T_Session ss)
  have ok: "task_ok (T_Session ss)" and p: "panel_shows True (attached (T_Session ss)) (cl_svc c)"
    using assms(2,3) T_Session by (simp_all add: in_session_def)
  let ?e = "stratum_debug_set_event (''recv error rc='' @ format_ld (in_got i)) (stratum_debug_set_recv_status (in_got i) c)"
  have e: "fst (end_session c2) = T_Outer" for c2 by (simp add: end_session_def Let_def)
  have pe: "panel_shows True (attached (T_Session ss)) (cl_svc ?e)" using p by simp
  consider "Some (end_session c) = Some (pc, c1)" | "Some (end_session ?e) = Some (pc, c1)"
    | "poll_results pf ss c = (pc, c1)" | "receive_char pf (in_ch i) ss c = Some (pc, c1)"
    using assms(4) T_Session by (auto simp: inner_step_def split: if_splits)
  then show ?thesis
  proof cases
    case 1
    then show ?thesis using panel_begin_end(2)[OF p] e[of c] by (auto simp: in_session_def attached_def)
  next
    case 2
    then show ?thesis using panel_begin_end(2)[OF pe] e[of ?e] by (auto simp: in_session_def attached_def)
  next
    case 3
    then show ?thesis using panel_poll[OF assms(1) ok p] poll_task_ok(3)[OF ok, of pf c] by simp
  next
    case 4
    from panel_receive[OF assms(1) ok p 4] receive_task_ok[OF ok 4] show ?thesis by simp
  qed
qed


subsection \<open>The worker and the interrupt\<close>

lemma zero_job_wf: "job_wf zero_job"
  by (simp add: job_wf_def job_ok_def zero_job_def STRATUM_JOB_ID_BYTES_def)

lemma finish_range_job: "g_active_job (miner_finish_range r s) = g_active_job s"
  "svc_leds (miner_finish_range r s) = svc_leds s"
  by (simp_all add: miner_finish_range_def Let_def)

lemma settle_job: "g_active_job (miner_task_settle q s) = g_active_job s" "svc_leds (miner_task_settle q s) = svc_leds s"
  by (simp_all add: miner_task_settle_def svc_running_eq upd_stats_def finish_range_job Let_def)

lemma task_job_good:
  assumes "jobs_good s"
  shows "jobs_good (miner_task_job s)"
proof -
  have q: "queue_ok (g_job_queue s)" using assms by (simp add: jobs_good_def)
  have act: "g_active_job (miner_task_begin j s') = j" for j s' by (simp add: miner_task_begin_def upd_stats_def Let_def)
  show ?thesis
  proof (cases "queue_items (g_job_queue s)")
    case Nil
    note r = rq.receive_Nil[OF q Nil]
    have "g_active_job (miner_task_job s) = g_active_job s"
      by (simp add: miner_task_job_def r svc_running_eq finish_range_job Let_def)
    then show ?thesis using assms Nil by (simp add: jobs_good_def task_job_frame r)
  next
    case (Cons x xs)
    note r = rq.receive_Cons[OF q Cons]
    have "g_active_job (miner_task_job s) = req_job x"
      using r by (auto simp: miner_task_job_def act split: prod.split option.split)
    then show ?thesis using assms Cons r by (simp add: jobs_good_def task_job_frame)
  qed
qed

lemma deliver_good:
  assumes "jobs_good s"
  shows "jobs_good (miner_task_deliver r s)"
proof -
  have q: "queue_ok (g_result_queue s)" using assms by (simp add: jobs_good_def)
  have "g_job_queue (miner_task_deliver r s) = g_job_queue s" "g_active_job (miner_task_deliver r s) = g_active_job s"
    by (simp_all add: miner_task_deliver_def upd_stats_def split_beta Let_def)
  then show ?thesis
    using assms deliver_queue[OF q, of r] zero_job_wf by (auto simp: jobs_good_def)
qed

lemma worker_jobs:
  assumes "jobs_good s"
  shows "jobs_good (snd (worker_step pc s))"
proof (cases pc)
  case W_Queue
  then show ?thesis using task_job_good[OF assms] by simp
next
  case W_Drain
  have "jobs_good (s\<lparr>svc_hw := h\<rparr>)" for h using assms by (simp add: jobs_good_def)
  then show ?thesis using W_Drain by (simp add: drain_step_eq split_beta Let_def deliver_good split: option.split)
qed (use assms in \<open>simp_all add: jobs_good_def miner_task_enter_def miner_install_irq_def split_beta Let_def\<close>)

lemma worker_panel:
  assumes "panel_shows a b s"
  shows "panel_shows a b (snd (worker_step pc s))"
proof (cases pc)
  case W_Queue
  have "svc_leds (miner_task_job s) = svc_leds s"
    by (simp add: miner_task_job_def svc_running_eq miner_task_begin_def upd_stats_def finish_range_job settle_job Let_def
        split: prod.split option.split)
  then show ?thesis using assms W_Queue by (simp add: panel_shows_def)
next
  case W_Sem
  then show ?thesis
    using assms by (simp add: panel_shows_def led_bits led_ops_ok led_numbers split_beta Let_def)
next
  case W_Drain
  have "svc_leds (miner_task_deliver r s') = svc_leds s'" for r s'
    by (simp add: miner_task_deliver_def upd_stats_def split_beta Let_def)
  then show ?thesis
    using assms W_Drain by (simp add: panel_shows_def drain_step_eq split_beta Let_def split: option.split)
qed (use assms in \<open>simp_all add: panel_shows_def miner_task_enter_def miner_install_irq_def split_beta Let_def\<close>)

lemma handler_good:
  "jobs_good s \<Longrightarrow> jobs_good (miner_irq_handler s)" "panel_shows a b s \<Longrightarrow> panel_shows a b (miner_irq_handler s)"
  by (simp_all add: jobs_good_def panel_shows_def miner_irq_handler_def upd_stats_def Let_def)


subsection \<open>The invariant of the firmware\<close>

definition fw_inv :: "firmware \<Rightarrow> bool" where
  "fw_inv y \<longleftrightarrow> (\<exists>d t. svc_reachable (svc_view y d t)) \<and> jobs_good (fw_svc y) \<and> client_ok (fw_client y) \<and>
     task_ok (fw_pool y) \<and> console_ok (fw_session y) \<and> g_connected (fw_client y) = in_session (fw_pool y) \<and>
     panel_shows (in_session (fw_pool y)) (attached (fw_pool y)) (fw_svc y)"

lemma put_frame [simp]:
  "fw_client (put_client c y) = c" "fw_svc (put_client c y) = cl_svc c" "fw_svc (put_svc s y) = s"
  "fw_client (put_svc s y) = (fw_client y)\<lparr>cl_svc := s\<rparr>"
  "fw_pool (put_client c y) = fw_pool y" "fw_session (put_client c y) = fw_session y" "fw_worker (put_client c y) = fw_worker y"
  "fw_client (y\<lparr>fw_worker := w\<rparr>) = fw_client y"
  "fw_pool (put_svc s y) = fw_pool y" "fw_session (put_svc s y) = fw_session y" "fw_worker (put_svc s y) = fw_worker y"
  by (simp_all add: fw_client_def fw_svc_def put_client_def put_svc_def)

lemma live_view:
  "irq_installed (fw_svc y) \<Longrightarrow> (\<exists>d t. svc_reachable (svc_view y d t)) \<longleftrightarrow> svc_live (fw_worker y) (fw_svc y)"
  by (simp add: svc_live_def svc_view_def)

lemma start_service:
  assumes "miner_service_start hw leds jst rst = Some svc" "length jst = 1" "length rst = 8"
  shows "jobs_good svc" "svc_leds svc = leds"
  using assms queue_items_create[of 1 jst] queue_items_create[of 8 rst] zero_job_wf
  by (auto simp: miner_service_start_def jobs_good_def split: option.splits)

lemma boot_inv:
  assumes "miner_service_start hw (status_leds_init leds) jst rst = Some svc" "bus_ok (hw_bus hw)"
    "length jst = 1" "length rst = 8"
  shows "fw_inv (fw_boot svc)"
proof -
  have f: "fw_client (fw_boot svc) = stratum_client_start svc" "fw_svc (fw_boot svc) = svc"
    by (simp_all add: fw_boot_def fw_client_def fw_svc_def stratum_client_start_def)
  have "svc_reachable (svc_view (fw_boot svc) [] [])"
    using svc_init[OF assms] by (simp add: svc_view_def f) (simp add: fw_boot_def)
  moreover have "client_ok (stratum_client_start svc)"
    by (simp add: client_ok_def debug_free_def stratum_client_start_def lock_ok_def xSemaphoreCreateMutex_def
        xSemaphoreGive_def config_fits_def default_config_def)
  moreover have "panel_shows False False svc"
    using start_service(2)[OF assms(1,3,4)] by (simp add: panel_shows_def led_bits led_ops_ok)
  ultimately show ?thesis
    using start_service(1)[OF assms(1,3,4)] unfolding fw_inv_def f
    by (auto simp: fw_boot_def task_ok_def console_ok_def in_session_def attached_def stratum_client_start_def)
qed

lemma conn_task:
  assumes "pf_ok pf" "task_ok tp" "g_connected c = in_session tp" "stratum_task_step pf i (tp, c) = Some (pc, c1)"
  shows "g_connected c1 = in_session pc"
proof (cases tp)
  case T_Outer
  then have r: "(pc, c1) = outer_step c" using assms(4) by simp
  have "g_connected (snd (outer_step c)) = g_connected c" "\<not> in_session (fst (outer_step c))"
    by (simp_all add: outer_step_def in_session_def debug_ops Let_def split: prod.split bool.split)
  then show ?thesis using assms(3) T_Outer by (simp add: in_session_def flip: r)
next
  case (T_Connecting g)
  obtain ok c2 where k: "connect_socket g (in_net i) c = (ok, c2)" by (cases "connect_socket g (in_net i) c")
  have "g_connected (snd (connect_socket g (in_net i) c)) = g_connected c" by (rule conn.connect_effect) simp
  moreover have "g_connected (snd (begin_session pf g buf c2))" for buf
  proof -
    have "g_connected (send_subscribe_authorize pf g x) = g_connected x" for x by (rule conn.subscribe_effect) simp
    then show ?thesis by (simp add: begin_session_def debug_ops with_leds_def Let_def)
  qed
  moreover have "in_session (fst (begin_session pf g buf c2))" for buf
    by (simp add: begin_session_def in_session_def Let_def)
  ultimately show ?thesis
    using assms(3,4) T_Connecting k
    by (auto simp: connecting_step_def in_session_def split: if_splits) (metis fst_conv snd_conv)+
next
  case (T_Session ss)
  have ok: "task_ok (T_Session ss)" "state_ok (ss_state ss)" and c: "g_connected c = True"
    using assms(2,3) T_Session by (simp_all add: in_session_def task_ok_def)
  have e: "fst (end_session x) = T_Outer" "\<not> g_connected (snd (end_session x))" for x
    by (simp_all add: end_session_def debug_ops with_leds_def Let_def)
  let ?e = "stratum_debug_set_event (''recv error rc='' @ format_ld (in_got i)) (stratum_debug_set_recv_status (in_got i) c)"
  consider "end_session c = (pc, c1)" | "end_session ?e = (pc, c1)"
    | "poll_results pf ss c = (pc, c1)" | "receive_char pf (in_ch i) ss c = Some (pc, c1)"
    using assms(4) T_Session by (auto simp: inner_step_def split: if_splits)
  then show ?thesis
  proof cases
    case 1
    then show ?thesis using e[of c] by (auto simp: in_session_def)
  next
    case 2
    then show ?thesis using e[of ?e] by (auto simp: in_session_def)
  next
    case 3
    then show ?thesis using conn.poll_effect[OF c assms(1) ok(2)] poll_task_ok(3)[OF ok(1), of pf c] by simp
  next
    case 4
    then show ?thesis
      using conn.receive_effect[OF c assms(1) ok(2) 4] receive_task_ok[OF ok(1) 4] by simp
  qed
qed

lemma console_step_ok:
  assumes "console_ok pc" "length (ci_buffer i) = TELNET_RX_BUFFER_BYTES"
  shows "console_ok (fst (telnet_task_step env i (pc, t)))"
proof (cases pc)
  case C_Listen
  then show ?thesis using fresh_new_session[OF assms(2)] by (simp add: console_ok_def fresh_line_def)
next
  case (C_Client l)
  then show ?thesis
    using assms(1) char_wf[of l env "ci_ch i" t] by (auto simp: console_ok_def split: prod.split option.split)
qed

lemma view_step:
  assumes "svc_reachable (svc_view y d t)" "svc_step l (svc_view y d t) = Some (svc_view y' d' t')"
  shows "\<exists>d t. svc_reachable (svc_view y' d t)"
  using svc_next[OF assms] by blast

lemma pool_step_inv:
  assumes "pf_ok pf" "fw_inv y" "length (in_buffer i) = STRATUM_LINE_BUFFER_BYTES" "irq_installed (fw_svc y)"
    and "stratum_task_step pf i (fw_pool y, fw_client y) = Some (pc, c)"
  shows "fw_inv (put_client c (y\<lparr>fw_pool := pc\<rparr>))"
proof -
  have task: "task_ok (fw_pool y)" and ok: "client_ok (fw_client y)"
    and live: "svc_live (fw_worker y) (cl_svc (fw_client y))" and jobs: "jobs_good (cl_svc (fw_client y))"
    and panel: "panel_shows (in_session (fw_pool y)) (attached (fw_pool y)) (cl_svc (fw_client y))"
    and conn: "g_connected (fw_client y) = in_session (fw_pool y)"
    using assms(2) live_view[OF assms(4)] by (simp_all add: fw_inv_def fw_svc_def)
  have l: "svc_live (fw_worker y) (cl_svc c)" by (rule live.lifted.task_effect[OF live assms(1) task assms(5)])
  then have "\<exists>d t. svc_reachable (svc_view (put_client c (y\<lparr>fw_pool := pc\<rparr>)) d t)"
    by (simp add: svc_view_def svc_live_def)
  moreover have "jobs_good (cl_svc c)" by (rule jobs.lifted.task_effect[OF jobs assms(1) task assms(5)])
  moreover have "client_ok c" by (rule ok.task_effect[OF ok assms(1) task assms(5)])
  moreover have "task_ok pc" by (rule task_step_ok[OF task ok assms(3,5)])
  moreover have "panel_shows (in_session pc) (attached pc) (cl_svc c)" by (rule panel_task[OF assms(1) task panel assms(5)])
  moreover have "g_connected c = in_session pc" by (rule conn_task[OF assms(1) task conn assms(5)])
  ultimately show ?thesis using assms(2) by (simp add: fw_inv_def)
qed

lemma console_step_inv:
  assumes "fw_inv y" "length (ci_buffer i) = TELNET_RX_BUFFER_BYTES" "irq_installed (fw_svc y)"
    and "telnet_task_step env i (fw_session y, fw_console y) = (pc, t)"
  shows "fw_inv (y\<lparr>fw_session := pc, fw_console := t\<rparr>)"
proof -
  let ?y = "y\<lparr>fw_session := pc, fw_console := t\<rparr>"
  have f: "fw_svc ?y = co_svc t" "fw_client ?y = co_client t" "fw_svc y = co_svc (fw_console y)" "fw_client y = co_client (fw_console y)"
    by (simp_all add: fw_svc_def fw_client_def co_svc_def)
  have live: "svc_live (fw_worker y) (co_svc (fw_console y))"
    using assms(1) live_view[OF assms(3)] f(3) by (simp add: fw_inv_def)
  have t: "snd (telnet_task_step env i (fw_session y, fw_console y)) = t" using assms(4) by simp
  have l: "svc_live (fw_worker y) (co_svc t)" using live.on_console.console_task_effect[OF live] t by metis
  then have r: "\<exists>d u. svc_reachable (svc_view ?y d u)" by (simp add: svc_view_def svc_live_def f)
  have j: "jobs_good (co_svc t)"
    using jobs.on_console.console_task_effect[of "fw_console y" env i "fw_session y"] assms(1) t by (simp add: fw_inv_def f)
  have k: "client_ok (co_client t)"
    using ok_console.console_task_effect[of "fw_console y" env i "fw_session y"] assms(1) t by (simp add: fw_inv_def f)
  have c: "g_connected (co_client t) = in_session (fw_pool y)"
    using conn_console.console_task_effect[of "fw_console y" _ env i "fw_session y"] assms(1) t by (simp add: fw_inv_def f)
  have "svc_leds (co_svc t) = svc_leds (co_svc (fw_console y))"
    using leds.on_console.console_task_effect[of "fw_console y" _ env i "fw_session y"] t by simp
  then have p: "panel_shows (in_session (fw_pool y)) (attached (fw_pool y)) (co_svc t)"
    using assms(1) by (simp add: fw_inv_def panel_shows_def f)
  have s: "console_ok pc" using console_step_ok[OF _ assms(2), of "fw_session y" env "fw_console y"] assms(1,4)
    by (simp add: fw_inv_def)
  show ?thesis unfolding fw_inv_def f(1,2) using r j k c p s assms(1) by (simp add: fw_inv_def)
qed

lemma svc_step_inv:
  assumes "fw_inv y" "jobs_good s" "panel_shows (in_session (fw_pool y)) (attached (fw_pool y)) s"
    and "\<And>d t. \<exists>d'. svc_step l (svc_view y d t) = Some \<lparr>sys_svc = s, sys_pc = pc, sys_read = d', sys_taken = t\<rparr>"
  shows "fw_inv (put_svc s (y\<lparr>fw_worker := pc\<rparr>))"
proof -
  obtain d t where "svc_reachable (svc_view y d t)" using assms(1) by (auto simp: fw_inv_def)
  with assms(4)[of d t] have "\<exists>d t. svc_reachable \<lparr>sys_svc = s, sys_pc = pc, sys_read = d, sys_taken = t\<rparr>"
    using svc_next by blast
  moreover have "client_ok ((fw_client y)\<lparr>cl_svc := s\<rparr>)" using assms(1) by (simp add: fw_inv_def client_ok_def)
  ultimately show ?thesis
    using assms(1-3) by (simp add: fw_inv_def svc_view_def)
qed

lemma step_inv:
  assumes "pf_ok pf" "fw_inv y" "input_ok l" "fw_step pf env l y = Some y'"
  shows "fw_inv y'"
proof (cases l)
  case (PoolTask i)
  then show ?thesis
    using assms pool_step_inv[OF assms(1,2), of i]
    by (auto simp: input_ok_def bind_Some_iff split: if_splits)
next
  case (ConsoleTask i)
  then show ?thesis
    using assms console_step_inv[OF assms(2), of i env]
    by (auto simp: input_ok_def split: if_splits prod.splits)
next
  case WorkerTask
  have "fw_inv (put_svc (snd (worker_step (fw_worker y) (fw_svc y))) (y\<lparr>fw_worker := fst (worker_step (fw_worker y) (fw_svc y))\<rparr>))"
    by (rule svc_step_inv[OF assms(2), of _ Worker])
      (use assms(2) in \<open>simp_all add: fw_inv_def worker_jobs worker_panel svc_view_def split_beta Let_def\<close>)
  then show ?thesis using WorkerTask assms(4) by (auto simp: split_beta Let_def)
next
  case MinerIrq
  then have "irq_installed (fw_svc y)" "irq_line (hw_bus (svc_hw (fw_svc y)))"
    and y': "y' = put_svc (miner_irq_handler (fw_svc y)) y"
    using assms(4) by (auto split: if_splits)
  then have "fw_inv (put_svc (miner_irq_handler (fw_svc y)) (y\<lparr>fw_worker := fw_worker y\<rparr>))"
    by (intro svc_step_inv[OF assms(2), of _ Irq])
      (use assms(2) in \<open>simp_all add: fw_inv_def handler_good svc_view_def\<close>)
  then show ?thesis by (simp add: y')
next
  case ClockStep
  have "fw_inv (put_svc ((fw_svc y)\<lparr>xTickCount := xTickCount (fw_svc y) + 1\<rparr>) (y\<lparr>fw_worker := fw_worker y\<rparr>))"
    by (rule svc_step_inv[OF assms(2), of _ ClockTick])
      (use assms(2) in \<open>simp_all add: fw_inv_def jobs_good_def panel_shows_def svc_view_def\<close>)
  then show ?thesis using ClockStep assms(4) by simp
qed

lemma reachable_inv: "pf_ok pf \<Longrightarrow> fw_reachable pf env y \<Longrightarrow> fw_inv y"
  by (rotate_tac, induction rule: fw_reachable.induct) (auto intro: boot_inv step_inv)


lemma fw_run_reachable:
  "fw_reachable pf env y \<Longrightarrow> list_all input_ok ls \<Longrightarrow> fw_run pf env ls y = Some y' \<Longrightarrow> fw_reachable pf env y'"
  by (induction ls arbitrary: y) (auto simp: bind_Some_iff intro: fw_next)

lemma demo_started: "miner_service_start (demo_hw []) (status_leds_init \<lparr>g_status_led_state = 0, led_gpio_data = 0\<rparr>)
     [\<lparr>req_job = zero_job, req_clean_job = False\<rparr>]
     (replicate 8 \<lparr>ev_result = zero_result, ev_job = zero_job\<rparr>) = Some demo_svc"
  unfolding demo_svc_def by code_simp

lemma demo_boot_reachable: "fw_reachable pf env (fw_boot demo_svc)"
  by (rule fw_init[OF demo_started]) (use demo_hw_ok in \<open>auto simp: hw_ok_def\<close>)

lemma demo_worker_reachable: "\<exists>y. fw_step pf env WorkerTask (fw_boot demo_svc) = Some y \<and> fw_reachable pf env y"
  using fw_next[OF demo_boot_reachable, of WorkerTask] by (auto simp: input_ok_def split_beta Let_def)


subsection \<open>Disconnecting\<close>

interpretation disc: pool_panel_effects "\<lambda>c. g_disconnect_requested c = b" for b
  by unfold_locales (simp_all add: with_leds_def)

text \<open>
  A disconnect request made while the task is connecting is overwritten when the connection is
  made: the session begins, and goes on until another request.
\<close>

lemma disconnect_lost_while_connecting:
  assumes "connect_socket g (in_net i) (stratum_client_request_disconnect c) = (True, c1)"
  shows "\<exists>ss c2. stratum_task_step pf i (T_Connecting g, stratum_client_request_disconnect c) = Some (T_Session ss, c2) \<and>
    \<not> g_disconnect_requested c2"
proof -
  have "\<not> g_disconnect_requested (send_subscribe_authorize pf g x)" if "\<not> g_disconnect_requested x" for x
    using disc.subscribe_effect[of x False] that by simp
  then show ?thesis by (simp add: connecting_step_def assms begin_session_def Let_def)
qed

text \<open>The console command sets both flags.\<close>

lemma disconnect_command:
  "fst (handle_command env ''disconnect'' t)"
  "co_client (snd (handle_command env ''disconnect'' t)) = stratum_client_request_disconnect (co_client t)"
proof -
  have "next_token ''disconnect'' = (Some ''disconnect'', [])" by code_simp
  then show "fst (handle_command env ''disconnect'' t)"
    "co_client (snd (handle_command env ''disconnect'' t)) = stratum_client_request_disconnect (co_client t)"
    by (simp_all add: handle_command_def on_client_def)
qed

definition leaving :: "firmware \<Rightarrow> bool" where
  "leaving y \<longleftrightarrow> \<not> g_connect_requested (fw_client y) \<and>
     (in_session (fw_pool y) \<and> g_disconnect_requested (fw_client y) \<or> fw_pool y = T_Outer \<and> \<not> g_connected (fw_client y))"

lemma end_session_flags:
  "fst (end_session c) = T_Outer" "\<not> g_connected (snd (end_session c))"
  "g_connect_requested (snd (end_session c)) = g_connect_requested c"
  by (simp_all add: end_session_def debug_ops with_leds_def Let_def)

lemma leaving_pool:
  assumes "leaving y" "irq_installed (fw_svc y)"
  shows "\<exists>y'. fw_step pf env (PoolTask i) y = Some y' \<and> leaving y' \<and> fw_pool y' = T_Outer"
proof (cases "fw_pool y")
  case T_Outer
  then show ?thesis using assms by (simp add: leaving_def outer_step_def)
next
  case (T_Connecting g)
  then show ?thesis using assms by (simp add: leaving_def in_session_def)
next
  case (T_Session ss)
  then show ?thesis
    using assms end_session_flags[of "fw_client y"]
    by (cases "end_session (fw_client y)") (auto simp: leaving_def in_session_def inner_step_def)
qed

lemma leaving_run:
  assumes "leaving y" "\<forall>i. ConsoleTask i \<notin> set ls" "fw_run pf env ls y = Some y'"
  shows "leaving y' \<and> ((\<exists>i. PoolTask i \<in> set ls) \<or> fw_pool y = T_Outer \<longrightarrow> fw_pool y' = T_Outer)"
  using assms
proof (induction ls arbitrary: y)
  case (Cons l ls)
  obtain y1 where y1: "fw_step pf env l y = Some y1" "fw_run pf env ls y1 = Some y'"
    using Cons.prems(3) by (auto simp: bind_Some_iff)
  have "leaving y1 \<and> (fw_pool y1 = (case l of PoolTask i \<Rightarrow> T_Outer | _ \<Rightarrow> fw_pool y))"
  proof (cases l)
    case (PoolTask i)
    then have "irq_installed (fw_svc y)" using y1(1) by (auto split: if_splits)
    from leaving_pool[OF Cons.prems(1) this, of pf env i] show ?thesis using y1(1) PoolTask by simp
  qed (use y1(1) Cons.prems(1,2) in \<open>auto simp: leaving_def split: prod.splits if_splits\<close>)
  then show ?case
    using Cons.IH[of y1] Cons.prems(2) y1(2) by (auto split: fw_label.splits)
qed simp


subsection \<open>Properties of the firmware\<close>

text \<open>
  C6. The whole firmware refines the service as analysed on its own: in every state that the interleaved
  pool task, console task, worker, interrupt handler and clock can reach, the service and
  its worker are in a state that the transition system of the service can reach. So what is proved
  of the service there holds in the firmware, whatever the pool sends and whatever is typed.
\<close>

theorem firmware_refines_service:
  assumes "pf_ok pf" "fw_reachable pf env y"
  shows "\<exists>results taken. svc_reachable \<lparr>sys_svc = fw_svc y, sys_pc = fw_worker y,
    sys_read = results, sys_taken = taken\<rparr>"
  using reachable_inv[OF assms] by (simp add: fw_inv_def svc_view_def)

lemma demo_pf_ok: "pf_ok demo_pf"
  by (simp add: pf_ok_def demo_pf_def demo_ctx_def)

theorem firmware_refines_service_witness:
  "\<exists>y results taken. fw_step demo_pf demo_env WorkerTask (fw_boot demo_svc) = Some y \<and>
    svc_reachable \<lparr>sys_svc = fw_svc y, sys_pc = fw_worker y, sys_read = results, sys_taken = taken\<rparr>"
  using firmware_refines_service[OF demo_pf_ok] demo_worker_reachable[of demo_pf demo_env] by blast

text \<open>
  C36. The panel and the API tell the truth about the pool: in every reachable state the first LED is lit,
  and \<open>stratum_client_is_connected\<close> holds, exactly when the pool task is in a session, and the
  fourth LED is lit exactly when that session is both subscribed and authorized. No other task
  disturbs them.
\<close>

theorem panel_tells_truth:
  assumes "pf_ok pf" "fw_reachable pf env y"
  shows "lit (svc_leds (fw_svc y)) STATUS_LED_POOL_R5_CONNECTED = in_session (fw_pool y) \<and>
    stratum_client_is_connected (fw_client y) = in_session (fw_pool y) \<and>
    lit (svc_leds (fw_svc y)) STATUS_LED_POOL_ATTACHED = attached (fw_pool y)"
  using reachable_inv[OF assms] by (simp_all add: fw_inv_def panel_shows_def stratum_client_is_connected_def)

theorem panel_tells_truth_witness:
  "\<exists>y. fw_step demo_pf demo_env WorkerTask (fw_boot demo_svc) = Some y \<and>
    lit (svc_leds (fw_svc y)) STATUS_LED_POOL_ATTACHED = attached (fw_pool y)"
  using panel_tells_truth[OF demo_pf_ok] demo_worker_reachable[of demo_pf demo_env] by blast

text \<open>
  A disconnect command given during a session is honoured: the next iteration of the pool
  task ends the session, and the task stays disconnected in every further run of the pool task,
  the worker, the interrupt and the clock, until the console is used again.
\<close>

theorem disconnect_honoured:
  fixes y :: firmware and env :: console_env
  defines "told \<equiv> y\<lparr>fw_console := snd (handle_command env ''disconnect'' (fw_console y))\<rparr>"
  assumes "fw_pool y = T_Session ss" "irq_installed (fw_svc y)"
  shows "(\<exists>y'. fw_step pf env (PoolTask i) told = Some y' \<and> fw_pool y' = T_Outer) \<and>
    (\<forall>ls y'. (\<forall>k. ConsoleTask k \<notin> set ls) \<longrightarrow> (\<exists>k. PoolTask k \<in> set ls) \<longrightarrow> fw_run pf env ls told = Some y' \<longrightarrow>
       fw_pool y' = T_Outer \<and> \<not> stratum_client_is_connected (fw_client y'))"
proof -
  have f: "fw_client told = stratum_client_request_disconnect (fw_client y)" "fw_pool told = fw_pool y"
    by (simp_all add: told_def fw_client_def disconnect_command)
  have l: "leaving told" "irq_installed (fw_svc told)"
    using assms(2,3) by (simp_all add: leaving_def in_session_def f stratum_client_request_disconnect_def fw_svc_def)
  have "fw_pool y' = T_Outer \<and> \<not> stratum_client_is_connected (fw_client y')"
    if h: "\<forall>k. ConsoleTask k \<notin> set ls" "\<exists>k. PoolTask k \<in> set ls" "fw_run pf env ls told = Some y'" for ls y'
    using leaving_run[OF l(1) h(1,3)] h(2)
    by (auto simp: leaving_def in_session_def stratum_client_is_connected_def)
  with leaving_pool[OF l, of pf env i] show ?thesis by blast
qed

theorem disconnect_honoured_witness:
  "\<exists>y'. fw_step demo_pf demo_env (PoolTask (recv_byte (CHR ''x'')))
     ((fw_boot (demo_svc\<lparr>irq_installed := True\<rparr>))\<lparr>fw_pool := T_Session demo_line_session,
       fw_console := snd (handle_command demo_env ''disconnect''
         (fw_console ((fw_boot (demo_svc\<lparr>irq_installed := True\<rparr>))\<lparr>fw_pool := T_Session demo_line_session\<rparr>)))\<rparr>) =
     Some y' \<and> fw_pool y' = T_Outer"
  using disconnect_honoured[where y = "(fw_boot (demo_svc\<lparr>irq_installed := True\<rparr>))\<lparr>fw_pool := T_Session demo_line_session\<rparr>"
      and ss = demo_line_session and env = demo_env and pf = demo_pf and i = "recv_byte (CHR ''x'')"]
  by (simp add: fw_svc_def fw_client_def fw_boot_def stratum_client_start_def)

end
