(* ===== verification/App_Memory.thy ===== *)
theory App_Memory
  imports Prelude
begin

unbundle bit_operations_syntax

section \<open>The DDR check at boot\<close>

text \<open>
  \<^verbatim>\<open>src/app_memory.c\<close>, for both settings of \<^verbatim>\<open>APP_USE_DDR_HEAP\<close>: off is the default of
  \<^verbatim>\<open>include/app_config.h\<close>, on is what the Vitis build script passes. With it on, the heap and the test
  buffer are objects that the linker places, and their addresses are parameters. The memory behind the test may be faulty: addresses go through a decoder that may select one cell for two
  addresses, and what a cell gives back may differ from what was stored in it. The theorem says
  which of these faults the two patterns detect, and the last lemma names one that they do not.
\<close>

subsection \<open>Memory\<close>

record ddr =
  ddr_decode :: "u32 \<Rightarrow> nat"
  ddr_sense :: "nat \<Rightarrow> u32 \<Rightarrow> u32"
  ddr_cells :: "nat \<Rightarrow> u32"

definition ddr_write :: "u32 \<Rightarrow> u32 \<Rightarrow> ddr \<Rightarrow> ddr" where
  "ddr_write a v m = m\<lparr>ddr_cells := (ddr_cells m)(ddr_decode m a := v)\<rparr>"

definition ddr_read :: "ddr \<Rightarrow> u32 \<Rightarrow> u32" where
  "ddr_read m a = ddr_sense m (ddr_decode m a) (ddr_cells m (ddr_decode m a))"


subsection \<open>The code\<close>

record build =
  APP_USE_DDR_HEAP :: bool
  addr_ucHeap :: u32
  addr_ddr_test_buffer :: u32

definition DDR_TEST_WORDS :: nat where "DDR_TEST_WORDS = 256"
definition APP_DDR_TEST_BASE :: u32 where "APP_DDR_TEST_BASE = 0x00100000"
definition APP_DDR_MPU_BASE :: u32 where "APP_DDR_MPU_BASE = 0x00100000"
definition APP_DDR_MPU_SIZE :: u32 where "APP_DDR_MPU_SIZE = 0x00100000"

definition configTOTAL_HEAP_SIZE :: "build \<Rightarrow> u32" where
  "configTOTAL_HEAP_SIZE b = (if APP_USE_DDR_HEAP b then 512 * 1024 else 64 * 1024)"

definition app_freertos_heap_addr :: "build \<Rightarrow> u32" where
  "app_freertos_heap_addr b = (if APP_USE_DDR_HEAP b then addr_ucHeap b else 0)"

text \<open>\<open>sizeof(ucHeap)\<close> is \<open>configTOTAL_HEAP_SIZE\<close> as well.\<close>

definition app_freertos_heap_size :: "build \<Rightarrow> u32" where
  "app_freertos_heap_size b = configTOTAL_HEAP_SIZE b"

text \<open>\<open>Xil_SetMPURegion\<close> with the attributes is a parameter; \<open>XST_SUCCESS\<close> is 0.\<close>

definition app_ddr_configure_mpu :: "(u32 \<Rightarrow> u32 \<Rightarrow> u32) \<Rightarrow> bool" where
  "app_ddr_configure_mpu set_region \<longleftrightarrow> set_region APP_DDR_MPU_BASE APP_DDR_MPU_SIZE = 0"

definition test_buffer :: "build \<Rightarrow> nat \<Rightarrow> u32" where
  "test_buffer b i = (if APP_USE_DDR_HEAP b then addr_ddr_test_buffer b else APP_DDR_TEST_BASE) + 4 * of_nat i"

definition first_pattern :: "nat \<Rightarrow> u32" where
  "first_pattern i = 0xa5a50000 XOR (of_nat i * 0x01010101)"

definition second_pattern :: "nat \<Rightarrow> u32" where
  "second_pattern i = 0x5a5affff XOR (of_nat i * 0x11111111)"

definition fill_pattern :: "build \<Rightarrow> (nat \<Rightarrow> u32) \<Rightarrow> ddr \<Rightarrow> ddr" where
  "fill_pattern b pattern m = fold (\<lambda>i. ddr_write (test_buffer b i) (pattern i)) [0..<DDR_TEST_WORDS] m"

text \<open>The loop of the comparison, which returns at the first difference.\<close>

fun check_pattern :: "build \<Rightarrow> (nat \<Rightarrow> u32) \<Rightarrow> nat list \<Rightarrow> ddr \<Rightarrow> bool" where
  "check_pattern b pattern [] m = True"
| "check_pattern b pattern (i # is) m =
     (if ddr_read m (test_buffer b i) \<noteq> pattern i then False else check_pattern b pattern is m)"

definition app_ddr_smoke_test :: "build \<Rightarrow> ddr \<Rightarrow> bool \<times> ddr" where
  "app_ddr_smoke_test b m =
     (let m1 = fill_pattern b first_pattern m
      in if \<not> check_pattern b first_pattern [0..<DDR_TEST_WORDS] m1 then (False, m1)
         else
           let m2 = fill_pattern b second_pattern m1
           in (check_pattern b second_pattern [0..<DDR_TEST_WORDS] m2, m2))"


subsection \<open>Statements\<close>

text \<open>The tested words have cells of their own, and each gives back both patterns.\<close>

definition words_separate :: "build \<Rightarrow> ddr \<Rightarrow> bool" where
  "words_separate b m \<longleftrightarrow> inj_on (\<lambda>i. ddr_decode m (test_buffer b i)) {0..<DDR_TEST_WORDS}"

definition holds_pattern :: "build \<Rightarrow> (nat \<Rightarrow> u32) \<Rightarrow> ddr \<Rightarrow> bool" where
  "holds_pattern b pattern m \<longleftrightarrow>
     list_all (\<lambda>i. ddr_sense m (ddr_decode m (test_buffer b i)) (pattern i) = pattern i) [0..<DDR_TEST_WORDS]"

text \<open>A memory without faults.\<close>

definition sound_ddr :: ddr where
  "sound_ddr = \<lparr>ddr_decode = unat, ddr_sense = (\<lambda>_ v. v), ddr_cells = (\<lambda>_. 0)\<rparr>"

text \<open>One with a bit stuck at a level.\<close>

definition stuck_ddr :: "build \<Rightarrow> nat \<Rightarrow> nat \<Rightarrow> bool \<Rightarrow> ddr" where
  "stuck_ddr b i k level = sound_ddr\<lparr>ddr_sense :=
     (\<lambda>a v. if a = unat (test_buffer b i) then (if level then v OR 2 ^ k else v AND NOT (2 ^ k)) else v)\<rparr>"


subsection \<open>The loops\<close>

lemma check_all: "check_pattern b p is m \<longleftrightarrow> (\<forall>i \<in> set is. ddr_read m (test_buffer b i) = p i)"
  by (induction "is") auto

lemma ddr_write_simps [simp]:
  "ddr_decode (ddr_write a v m) = ddr_decode m" "ddr_sense (ddr_write a v m) = ddr_sense m"
  "ddr_cells (ddr_write a v m) c = (if ddr_decode m a = c then v else ddr_cells m c)"
  by (simp_all add: ddr_write_def)

lemma fill_frame [simp]:
  "ddr_decode (fold (\<lambda>i. ddr_write (test_buffer b i) (p i)) is m) = ddr_decode m"
  "ddr_sense (fold (\<lambda>i. ddr_write (test_buffer b i) (p i)) is m) = ddr_sense m"
  by (induction "is" arbitrary: m) simp_all

lemma fill_cells:
  "ddr_cells (fold (\<lambda>i. ddr_write (test_buffer b i) (p i)) is m) c =
    (case filter (\<lambda>i. ddr_decode m (test_buffer b i) = c) (rev is) of [] \<Rightarrow> ddr_cells m c | i # _ \<Rightarrow> p i)"
  by (induction "is" rule: rev_induct) simp_all

lemma filter_headE:
  assumes "filter P xs \<noteq> []"
  obtains x ys where "filter P xs = x # ys" "P x" "x \<in> set xs"
  using assms by (metis filter_eq_Cons_iff list.exhaust in_set_conv_decomp)

text \<open>A pattern with different values in different words passes exactly if the cells are separate and hold it.\<close>

lemma pass_iff:
  assumes "words_separate b m \<or> inj_on p {0..<DDR_TEST_WORDS}"
  shows "check_pattern b p [0..<DDR_TEST_WORDS] (fill_pattern b p m) \<longleftrightarrow> words_separate b m \<and> holds_pattern b p m"
proof -
  let ?is = "[0..<DDR_TEST_WORDS]" and ?d = "\<lambda>i. ddr_decode m (test_buffer b i)"
  let ?m = "fill_pattern b p m"
  have read: "\<exists>k \<in> set ?is. ?d k = ?d i \<and> ddr_read ?m (test_buffer b i) = ddr_sense m (?d i) (p k)" if i: "i \<in> set ?is" for i
  proof -
    have "filter (\<lambda>k. ?d k = ?d i) (rev ?is) \<noteq> []" using i by (auto simp: filter_empty_conv)
    then obtain k ks where k: "filter (\<lambda>k. ?d k = ?d i) (rev ?is) = k # ks" "?d k = ?d i" "k \<in> set (rev ?is)"
      by (rule filter_headE)
    have "ddr_cells ?m (?d i) = p k" unfolding fill_pattern_def fill_cells k(1) by simp
    then have "ddr_read ?m (test_buffer b i) = ddr_sense m (?d i) (p k)"
      unfolding ddr_read_def fill_pattern_def fill_frame by simp
    then show ?thesis using k(2,3) by auto
  qed
  have same: "ddr_read ?m (test_buffer b i) = ddr_read ?m (test_buffer b j)" if "?d i = ?d j" for i j
    unfolding ddr_read_def fill_pattern_def fill_frame that ..
  have sep: "words_separate b m" if ok: "check_pattern b p ?is ?m"
  proof (cases "words_separate b m")
    case False
    then have inj: "inj_on p {0..<DDR_TEST_WORDS}" using assms by simp
    show ?thesis unfolding words_separate_def
    proof (rule inj_onI)
      fix i j assume ij: "i \<in> {0..<DDR_TEST_WORDS}" "j \<in> {0..<DDR_TEST_WORDS}" "?d i = ?d j"
      then have "ddr_read ?m (test_buffer b i) = p i" "ddr_read ?m (test_buffer b j) = p j"
        using ok unfolding check_all by auto
      then have "p i = p j" using same[OF ij(3)] by metis
      then show "i = j" by (rule inj_onD[OF inj _ ij(1,2)])
    qed
  qed
  have own: "ddr_read ?m (test_buffer b i) = ddr_sense m (?d i) (p i)" if s: "words_separate b m" and i: "i \<in> set ?is" for i
  proof -
    obtain k where k: "k \<in> set ?is" "?d k = ?d i" "ddr_read ?m (test_buffer b i) = ddr_sense m (?d i) (p k)"
      using read[OF i] by blast
    have "k = i" using inj_onD[OF s[unfolded words_separate_def] k(2)] i k(1) by simp
    then show ?thesis using k(3) by simp
  qed
  show ?thesis
  proof
    assume ok: "check_pattern b p ?is ?m"
    show "words_separate b m \<and> holds_pattern b p m"
      using sep[OF ok] own[OF sep[OF ok]] ok unfolding check_all holds_pattern_def list_all_iff by metis
  next
    assume h: "words_separate b m \<and> holds_pattern b p m"
    show "check_pattern b p ?is ?m"
      using h own[OF conjunct1[OF h]] unfolding check_all holds_pattern_def list_all_iff by metis
  qed
qed

lemma u32_small: "n < 2 ^ 32 \<Longrightarrow> unat (of_nat n :: u32) = n"
  by (simp add: unsigned_of_nat take_bit_nat_eq_self)

lemma xor_cancel: "(a :: u32) XOR x = a XOR y \<longleftrightarrow> x = y"
  by (metis xor.assoc xor.left_neutral xor_self_eq)

lemma first_pattern_inj: "inj_on first_pattern {0..<DDR_TEST_WORDS}"
proof (rule inj_onI)
  fix i j assume ij: "i \<in> {0..<DDR_TEST_WORDS}" "j \<in> {0..<DDR_TEST_WORDS}" "first_pattern i = first_pattern j"
  have u: "unat (of_nat k * 0x01010101 :: u32) = k * 0x01010101" if "k \<in> {0..<DDR_TEST_WORDS}" for k
  proof -
    have "unat (of_nat (k * 0x01010101) :: u32) = k * 0x01010101"
      by (rule u32_small) (use that in \<open>simp add: DDR_TEST_WORDS_def\<close>)
    then show ?thesis by simp
  qed
  have "(of_nat i * 0x01010101 :: u32) = of_nat j * 0x01010101"
    using ij(3) unfolding first_pattern_def xor_cancel .
  then have "i * 0x01010101 = j * 0x01010101" using u[OF ij(1)] u[OF ij(2)] by metis
  then show "i = j" by simp
qed

lemma smoke_test_iff:
  "fst (app_ddr_smoke_test b m) \<longleftrightarrow>
     words_separate b m \<and> holds_pattern b first_pattern m \<and> holds_pattern b second_pattern m"
proof -
  let ?m1 = "fill_pattern b first_pattern m"
  have f: "words_separate b ?m1 = words_separate b m" "holds_pattern b p ?m1 = holds_pattern b p m" for p
    by (simp_all add: words_separate_def holds_pattern_def fill_pattern_def)
  show ?thesis
    using pass_iff[of b m first_pattern] pass_iff[of b ?m1 second_pattern] first_pattern_inj
    by (auto simp: app_ddr_smoke_test_def f Let_def)
qed

text \<open>
  The boot check passes exactly for a memory whose 256 tested words have cells of their own, and give
  back the values of both patterns: every fault of the address decoding among them is detected,
  and every fault of a cell that changes one of the two values written to it.
\<close>

theorem smoke_test_passes_iff:
  "fst (app_ddr_smoke_test b m) \<longleftrightarrow>
     words_separate b m \<and> holds_pattern b first_pattern m \<and> holds_pattern b second_pattern m"
  by (rule smoke_test_iff)

text \<open>
  The two patterns are complements in the first word only. In the others a bit that has the same value
  in both may be stuck at it: here bit 4 of word 1.
\<close>

lemma stuck_bit_missed:
  assumes "\<not> APP_USE_DDR_HEAP b"
  shows "fst (app_ddr_smoke_test b (stuck_ddr b 1 4 False)) \<and>
    ddr_sense (stuck_ddr b 1 4 False) (unat (test_buffer b 1)) 16 = 0"
proof -
  have u: "unat (test_buffer b i) = 0x00100000 + 4 * i" if "i < DDR_TEST_WORDS" for i
  proof -
    have "test_buffer b i = of_nat (0x00100000 + 4 * i)" using assms by (simp add: test_buffer_def APP_DDR_TEST_BASE_def)
    moreover have "unat (of_nat (0x00100000 + 4 * i) :: u32) = 0x00100000 + 4 * i"
      by (rule u32_small) (use that in \<open>simp add: DDR_TEST_WORDS_def\<close>)
    ultimately show ?thesis by metis
  qed
  have "words_separate b (stuck_ddr b 1 4 False)"
    unfolding words_separate_def by (rule inj_onI) (simp add: stuck_ddr_def sound_ddr_def u)
  moreover have "unat (test_buffer b i) = unat (test_buffer b 1) \<longleftrightarrow> i = 1" if "i < DDR_TEST_WORDS" for i
    using that by (simp add: u DDR_TEST_WORDS_def)
  moreover have "first_pattern 1 AND NOT (2 ^ 4) = first_pattern 1" "second_pattern 1 AND NOT (2 ^ 4) = second_pattern 1"
    by (simp_all add: first_pattern_def second_pattern_def)
  ultimately show ?thesis
    unfolding smoke_test_iff
    by (auto simp: holds_pattern_def list_all_iff stuck_ddr_def sound_ddr_def)
qed

end
