(* ===== verification/App.thy ===== *)
theory App
  imports Firmware App_Memory
begin

unbundle bit_operations_syntax

section \<open>Application start\<close>

text \<open>
  \<^verbatim>\<open>src/main.c\<close>: the random numbers and sequence numbers it gives the TCP stack, its hooks, the
  boot sequence of \<open>main\<close>, and the task that waits for the network and starts the services. The
  console log is a list of lines. The library calls whose result matters (creating the wait task,
  configuring the MPU, reading the address configuration) are the fields of \<open>board\<close>;
  \<^verbatim>\<open>xil_printf\<close> is present, as \<open>main\<close> needs \<open>app_log_hex32\<close>.

  The boot steps end in the state \<open>fw_boot\<close> from which the runs of the firmware start.
\<close>

subsection \<open>State\<close>

record board =
  bd_build :: build
  bd_set_mpu :: "u32 \<Rightarrow> u32 \<Rightarrow> u32"
  bd_task_created :: bool
  bd_addresses :: "u32 \<times> u32 \<times> u32 \<times> u32"
  bd_hw :: miner_hw
  bd_job_store :: "miner_job_request list"
  bd_result_store :: "miner_result_event list"

record app =
  g_network_up :: bool
  g_dhcp_acquired :: bool
  g_dhcp_failed :: bool
  app_lfsr :: u32
  app_lines :: "string list"
  app_leds :: led_state
  app_ddr :: ddr
  app_halted :: bool


subsection \<open>Timer priority and random numbers\<close>

definition configMAX_API_CALL_INTERRUPT_PRIORITY :: nat where "configMAX_API_CALL_INTERRUPT_PRIORITY = 18"

text \<open>The priority handed on to the real function.\<close>

definition wrap_XTimer_SetHandler :: "u8 \<Rightarrow> u8" where
  "wrap_XTimer_SetHandler priority =
     (let max_api_priority = of_nat (configMAX_API_CALL_INTERRUPT_PRIORITY * 2 ^ 3)
      in if max_api_priority < priority then max_api_priority else priority)"

definition lfsr_seed :: u32 where "lfsr_seed = 0x7a280001"

definition lfsr_step :: "u32 \<Rightarrow> u32" where
  "lfsr_step x0 =
     (let x1 = x0 XOR push_bit 13 x0;
          x2 = x1 XOR drop_bit 17 x1
      in x2 XOR push_bit 5 x2)"

definition miner_platform_rand32 :: "app \<Rightarrow> u32 \<times> app" where
  "miner_platform_rand32 a = (let x = lfsr_step (app_lfsr a) in (x, a\<lparr>app_lfsr := x\<rparr>))"

definition xApplicationGetRandomNumber :: "app \<Rightarrow> bool \<times> u32 \<times> app" where
  "xApplicationGetRandomNumber a = (let (x, a1) = miner_platform_rand32 a in (True, x, a1))"

definition ulApplicationGetNextSequenceNumber :: "u32 \<Rightarrow> u16 \<Rightarrow> u32 \<Rightarrow> u16 \<Rightarrow> app \<Rightarrow> u32 \<times> app" where
  "ulApplicationGetNextSequenceNumber src_addr src_port dst_addr dst_port a =
     (let (x, a1) = miner_platform_rand32 a
      in (x XOR src_addr XOR dst_addr XOR push_bit 16 (ucast src_port) XOR ucast dst_port, a1))"


subsection \<open>The log\<close>

definition app_log :: "string \<Rightarrow> app \<Rightarrow> app" where
  "app_log msg a = a\<lparr>app_lines := app_lines a @ [msg]\<rparr>"

text \<open>\<open>FreeRTOS_ntohl\<close> on the little-endian target.\<close>

definition ntohl :: "u32 \<Rightarrow> u32" where
  "ntohl w = push_bit 24 (w AND 0xff) OR push_bit 8 (w AND 0xff00) OR
     (drop_bit 8 w AND 0xff00) OR drop_bit 24 w"

definition app_log_ipv4 :: "string \<Rightarrow> u32 \<Rightarrow> app \<Rightarrow> app" where
  "app_log_ipv4 label addr =
     (let h = ntohl addr
      in app_log (label @ format_lu (drop_bit 24 h AND 0xff) @ ''.'' @ format_lu (drop_bit 16 h AND 0xff) @ ''.'' @
           format_lu (drop_bit 8 h AND 0xff) @ ''.'' @ format_lu (h AND 0xff)))"

definition app_log_hex32 :: "string \<Rightarrow> u32 \<Rightarrow> app \<Rightarrow> app" where
  "app_log_hex32 label x = app_log (label @ ''0x'' @ format_08lx x)"

definition app_log_network_config :: "board \<Rightarrow> app \<Rightarrow> app" where
  "app_log_network_config bd a =
     (let (ip, netmask, gateway, dns) = bd_addresses bd;
          a1 = (if g_dhcp_acquired a then app_log ''DHCP address acquired'' a
                else if g_dhcp_failed a then app_log ''DHCP failed; using fallback IP address'' a
                else app_log ''network address configured'' a)
      in app_log_ipv4 ''dns: '' dns (app_log_ipv4 ''gateway: '' gateway
           (app_log_ipv4 ''netmask: '' netmask (app_log_ipv4 ''ip address: '' ip a1))))"


subsection \<open>Hooks\<close>

definition miner_platform_dhcp_succeeded :: "app \<Rightarrow> app" where
  "miner_platform_dhcp_succeeded a = a\<lparr>g_dhcp_acquired := True, g_dhcp_failed := False\<rparr>"

definition miner_platform_dhcp_failed :: "app \<Rightarrow> app" where
  "miner_platform_dhcp_failed a = a\<lparr>g_dhcp_acquired := False, g_dhcp_failed := True\<rparr>"

text \<open>These two end in an endless loop with interrupts disabled.\<close>

definition vApplicationMallocFailedHook :: "app \<Rightarrow> app" where
  "vApplicationMallocFailedHook a = (app_log ''malloc failed'' a)\<lparr>app_halted := True\<rparr>"

definition vApplicationStackOverflowHook :: "app \<Rightarrow> app" where
  "vApplicationStackOverflowHook a = (app_log ''stack overflow'' a)\<lparr>app_halted := True\<rparr>"

datatype ip_event = ENetworkUp | ENetworkDown

definition vApplicationIPNetworkEventHook :: "ip_event \<Rightarrow> app \<Rightarrow> app" where
  "vApplicationIPNetworkEventHook event a =
     (if event = ENetworkUp then (app_log ''network event: up'' a)\<lparr>g_network_up := True\<rparr>
      else (app_log ''network event: down'' a)\<lparr>g_network_up := False\<rparr>)"


subsection \<open>Booting\<close>

text \<open>
  Where the boot is: before \<open>main\<close>; the scheduler running with the wait task at the top of its loop, with
  its counter; the scheduler running without it; the services running; or stopped at an assertion
  of \<open>miner_service_start\<close>.
\<close>

datatype boot_pc = B_Reset | B_Waiting u32 | B_No_Task | B_Running firmware | B_Asserted

definition main_boot :: "board \<Rightarrow> app \<Rightarrow> boot_pc \<times> app" where
  "main_boot bd a =
     (let a1 = app_log ''VEK280 miner FreeRTOS app starting'' a;
          a2 = a1\<lparr>app_leds := status_leds_init (app_leds a1)\<rparr>;
          a3 = app_log (if app_ddr_configure_mpu (bd_set_mpu bd) then ''DDR MPU region configured''
                        else ''DDR MPU region failed'') a2;
          b = bd_build bd;
          a4 = (if APP_USE_DDR_HEAP b then a3
                else app_log_hex32 ''DDR smoke base: '' APP_DDR_TEST_BASE
                       (app_log ''DDR heap disabled; using OCM heap'' a3));
          (ok, m) = app_ddr_smoke_test b (app_ddr a4);
          a5 = app_log (if ok then ''DDR smoke test passed'' else ''DDR smoke test failed'') (a4\<lparr>app_ddr := m\<rparr>);
          a6 = (if APP_USE_DDR_HEAP b
                then app_log_hex32 ''FreeRTOS heap size: '' (app_freertos_heap_size b)
                       (app_log_hex32 ''FreeRTOS heap base: '' (app_freertos_heap_addr b) a5)
                else a5);
          a7 = app_log ''FreeRTOS_IPInit returned'' a6;
          a8 = app_log (if bd_task_created bd then ''netwait task created'' else ''netwait task create failed'') a7;
          a9 = app_log ''starting scheduler'' a8
      in if bd_task_created bd then (B_Waiting 0, app_log ''netwait task running'' a9) else (B_No_Task, a9))"

definition network_wait_step :: "board \<Rightarrow> u32 \<Rightarrow> app \<Rightarrow> boot_pc \<times> app" where
  "network_wait_step bd waits a =
     (if \<not> g_network_up a then
        (B_Waiting (waits + 1), if waits mod 20 = 0 then app_log ''waiting for network up'' a else a)
      else
        let a1 = app_log_network_config bd (app_log ''network up'' a)
        in case miner_service_start (bd_hw bd) (app_leds a1) (bd_job_store bd) (bd_result_store bd) of
             None \<Rightarrow> (B_Asserted, a1)
           | Some svc \<Rightarrow> (B_Running (fw_boot svc), a1))"

datatype boot_event =
    Main | WaitPoll | IpEvent ip_event | DhcpSucceeded | DhcpFailed
  | RandomNumber | SequenceNumber u32 u16 u32 u16 | MallocFailed | StackOverflow

fun boot_step :: "board \<Rightarrow> boot_event \<Rightarrow> boot_pc \<times> app \<Rightarrow> boot_pc \<times> app" where
  "boot_step bd e (pc, a) =
     (if app_halted a then (pc, a)
      else case e of
          Main \<Rightarrow> if pc = B_Reset then main_boot bd a else (pc, a)
        | WaitPoll \<Rightarrow> (case pc of B_Waiting n \<Rightarrow> network_wait_step bd n a | _ \<Rightarrow> (pc, a))
        | IpEvent v \<Rightarrow> (pc, vApplicationIPNetworkEventHook v a)
        | DhcpSucceeded \<Rightarrow> (pc, miner_platform_dhcp_succeeded a)
        | DhcpFailed \<Rightarrow> (pc, miner_platform_dhcp_failed a)
        | RandomNumber \<Rightarrow> (pc, snd (snd (xApplicationGetRandomNumber a)))
        | SequenceNumber sa sp da dp \<Rightarrow> (pc, snd (ulApplicationGetNextSequenceNumber sa sp da dp a))
        | MallocFailed \<Rightarrow> (pc, vApplicationMallocFailedHook a)
        | StackOverflow \<Rightarrow> (pc, vApplicationStackOverflowHook a))"

definition boot_run :: "board \<Rightarrow> boot_event list \<Rightarrow> boot_pc \<times> app \<Rightarrow> boot_pc \<times> app" where
  "boot_run bd = fold (boot_step bd)"

text \<open>After a reset the memory and the LEDs are arbitrary and the static variables are initialised.\<close>

definition reset_app :: "led_state \<Rightarrow> ddr \<Rightarrow> app" where
  "reset_app leds m = \<lparr>g_network_up = False, g_dhcp_acquired = False, g_dhcp_failed = False,
     app_lfsr = lfsr_seed, app_lines = [], app_leds = leds, app_ddr = m, app_halted = False\<rparr>"


subsection \<open>Statements\<close>

definition board_ok :: "board \<Rightarrow> bool" where
  "board_ok bd \<longleftrightarrow> bus_ok (hw_bus (bd_hw bd)) \<and> length (bd_job_store bd) = 1 \<and> length (bd_result_store bd) = 8"

fun random_numbers :: "nat \<Rightarrow> app \<Rightarrow> u32 list" where
  "random_numbers 0 a = []"
| "random_numbers (Suc n) a = (let (x, a1) = miner_platform_rand32 a in x # random_numbers n a1)"

definition demo_board :: board where
  "demo_board = \<lparr>bd_build = \<lparr>APP_USE_DDR_HEAP = True, addr_ucHeap = 0x00120000, addr_ddr_test_buffer = 0x00110000\<rparr>,
     bd_set_mpu = (\<lambda>_ _. 0), bd_task_created = True, bd_addresses = (0x5001A8C0, 0xFFFFFF, 0x0101A8C0, 0x01010101),
     bd_hw = demo_hw [], bd_job_store = [\<lparr>req_job = zero_job, req_clean_job = False\<rparr>],
     bd_result_store = replicate 8 \<lparr>ev_result = zero_result, ev_job = zero_job\<rparr>\<rparr>"


subsection \<open>The random number generator\<close>

text \<open>Adding a shifted copy of a word to it loses nothing: the bits determine one another from one end.\<close>

lemma xor_shift_left_inj:
  assumes "0 < k"
  shows "inj (\<lambda>x :: u32. x XOR push_bit k x)"
proof (rule injI, rule bit_word_eqI)
  fix x y :: u32 and n assume e: "x XOR push_bit k x = y XOR push_bit k y" and "n < LENGTH(32)"
  show "bit x n = bit y n"
  using \<open>n < LENGTH(32)\<close> proof (induction n rule: less_induct)
    case (less n)
    have "bit (x XOR push_bit k x) n = bit (y XOR push_bit k y) n" using e by simp
    moreover have "k \<le> n \<Longrightarrow> bit x (n - k) = bit y (n - k)" using less assms by simp
    ultimately show ?case using less.prems by (auto simp: bit_simps)
  qed
qed

lemma xor_shift_right_inj:
  assumes "0 < k"
  shows "inj (\<lambda>x :: u32. x XOR drop_bit k x)"
proof (rule injI, rule bit_word_eqI)
  fix x y :: u32 and n assume e: "x XOR drop_bit k x = y XOR drop_bit k y" and "n < LENGTH(32)"
  show "bit x n = bit y n"
  using \<open>n < LENGTH(32)\<close> proof (induction "32 - n" arbitrary: n rule: less_induct)
    case less
    have "bit (x XOR drop_bit k x) n = bit (y XOR drop_bit k y) n" using e by simp
    moreover have "bit x (n + k) = bit y (n + k)"
    proof (cases "n + k < 32")
      case True
      then show ?thesis using less.hyps[of "n + k"] assms by simp
    next
      case False
      then show ?thesis using bit_imp_le_length[of x "n + k"] bit_imp_le_length[of y "n + k"] by auto
    qed
    ultimately show ?case by (auto simp: bit_simps add.commute)
  qed
qed

lemma lfsr_step_inj: "inj lfsr_step"
proof -
  have e: "lfsr_step = (\<lambda>x. x XOR push_bit 5 x) \<circ> ((\<lambda>x. x XOR drop_bit 17 x) \<circ> (\<lambda>x. x XOR push_bit 13 x))"
    by (rule ext) (simp add: lfsr_step_def Let_def)
  show ?thesis
    unfolding e by (rule inj_compose[OF xor_shift_left_inj inj_compose[OF xor_shift_right_inj xor_shift_left_inj]]) simp_all
qed

lemma lfsr_step_zero: "lfsr_step x = 0 \<longleftrightarrow> x = 0"
  using inj_eq[OF lfsr_step_inj, of x 0] by (simp add: lfsr_step_def Let_def)

lemma random_numbers_eq: "random_numbers n a = map (\<lambda>k. (lfsr_step ^^ Suc k) (app_lfsr a)) [0..<n]"
proof (induction n arbitrary: a)
  case (Suc n)
  have "[0..<Suc n] = 0 # map Suc [0..<n]" by (metis map_Suc_upt upt_conv_Cons zero_less_Suc)
  then show ?case using Suc by (simp add: miner_platform_rand32_def Let_def funpow_swap1)
qed simp

lemma iterate_nonzero: "x \<noteq> 0 \<Longrightarrow> (lfsr_step ^^ k) x \<noteq> 0"
  by (induction k) (simp_all add: lfsr_step_zero)

text \<open>
  The generator behind the TCP sequence numbers and the random numbers of the stack is a permutation
  of its states, so that no history is forgotten, and none of its numbers after a reset is zero,
  the one state from which it would never recover.
\<close>

theorem random_numbers_permute:
  "inj (\<lambda>x. fst (miner_platform_rand32 (a\<lparr>app_lfsr := x\<rparr>))) \<and> 0 \<notin> set (random_numbers n (reset_app leds m))"
proof -
  have "(\<lambda>x. fst (miner_platform_rand32 (a\<lparr>app_lfsr := x\<rparr>))) = lfsr_step"
    by (simp add: miner_platform_rand32_def Let_def)
  moreover have "(lfsr_step ^^ Suc k) lfsr_seed \<noteq> 0" for k by (rule iterate_nonzero) (simp add: lfsr_seed_def)
  ultimately show ?thesis using lfsr_step_inj by (auto simp: random_numbers_eq reset_app_def)
qed


subsection \<open>The boot sequence\<close>

text \<open>What holds from the scheduler start on: the LEDs are the initialised ones, the services start with them.\<close>

definition fresh_firmware :: "board \<Rightarrow> led_state \<Rightarrow> firmware \<Rightarrow> bool" where
  "fresh_firmware bd leds y \<longleftrightarrow>
     (\<exists>svc. miner_service_start (bd_hw bd) leds (bd_job_store bd) (bd_result_store bd) = Some svc \<and> y = fw_boot svc)"

definition boot_ok :: "board \<Rightarrow> led_state \<Rightarrow> boot_pc \<times> app \<Rightarrow> bool" where
  "boot_ok bd leds s \<longleftrightarrow> (case fst s of B_Reset \<Rightarrow> app_leds (snd s) = leds
     | B_Running y \<Rightarrow> fresh_firmware bd (status_leds_init leds) y
     | _ \<Rightarrow> app_leds (snd s) = status_leds_init leds)"

lemma log_frame [simp]:
  "app_leds (app_log l a) = app_leds a" "g_network_up (app_log l a) = g_network_up a"
  "app_halted (app_log l a) = app_halted a" "app_lines (app_log l a) = app_lines a @ [l]"
  "app_ddr (app_log l a) = app_ddr a"
  "app_leds (app_log_ipv4 l w a) = app_leds a" "app_leds (app_log_hex32 l w a) = app_leds a"
  "app_halted (app_log_ipv4 l w a) = app_halted a" "app_halted (app_log_hex32 l w a) = app_halted a"
  by (simp_all add: app_log_def app_log_ipv4_def app_log_hex32_def Let_def)

lemma network_config_frame [simp]: "app_leds (app_log_network_config bd a) = app_leds a"
  by (simp add: app_log_network_config_def split_beta Let_def)

lemmas hook_defs = vApplicationIPNetworkEventHook_def miner_platform_dhcp_succeeded_def miner_platform_dhcp_failed_def
  xApplicationGetRandomNumber_def ulApplicationGetNextSequenceNumber_def miner_platform_rand32_def
  vApplicationMallocFailedHook_def vApplicationStackOverflowHook_def

lemma boot_step_ok:
  assumes "board_ok bd" "boot_ok bd leds s"
  shows "boot_ok bd leds (boot_step bd e s)"
proof (cases s)
  case (Pair pc a)
  have main: "boot_ok bd leds (main_boot bd a)" if "pc = B_Reset"
    using assms(2) that Pair by (auto simp: boot_ok_def main_boot_def split_beta Let_def)
  have wait: "boot_ok bd leds (network_wait_step bd n a)" if "pc = B_Waiting n" for n
    using assms that Pair
    by (auto simp: boot_ok_def fresh_firmware_def network_wait_step_def Let_def split: option.split)
  have rest: "boot_ok bd leds (pc, a')" if "app_leds a' = app_leds a" for a'
    using assms(2) that Pair by (simp add: boot_ok_def split: boot_pc.splits)
  have hooks: "app_leds (vApplicationIPNetworkEventHook v a) = app_leds a"
    "app_leds (miner_platform_dhcp_succeeded a) = app_leds a" "app_leds (miner_platform_dhcp_failed a) = app_leds a"
    "app_leds (snd (snd (xApplicationGetRandomNumber a))) = app_leds a"
    "app_leds (snd (ulApplicationGetNextSequenceNumber sa sp da dp a)) = app_leds a"
    "app_leds (vApplicationMallocFailedHook a) = app_leds a" "app_leds (vApplicationStackOverflowHook a) = app_leds a"
    for v sa sp da dp
    by (simp_all add: hook_defs Let_def)
  show ?thesis
  proof (cases e)
    case Main
    then show ?thesis using main assms(2) unfolding Pair by simp
  next
    case WaitPoll
    then show ?thesis using wait assms(2) unfolding Pair by (cases pc) simp_all
  qed (use rest assms(2) hooks in \<open>simp_all add: Pair\<close>)
qed

lemma boot_run_ok: "board_ok bd \<Longrightarrow> boot_ok bd leds s \<Longrightarrow> boot_ok bd leds (boot_run bd es s)"
  unfolding boot_run_def by (induction es arbitrary: s) (simp_all add: boot_step_ok)

text \<open>Once started, the boot is waiting or done, and halts only by its hooks.\<close>

definition boot_live :: "boot_pc \<times> app \<Rightarrow> bool" where
  "boot_live s \<longleftrightarrow> \<not> app_halted (snd s) \<and> (case fst s of B_Waiting _ \<Rightarrow> True | B_Running _ \<Rightarrow> True | _ \<Rightarrow> False)"

definition halting :: "boot_event \<Rightarrow> bool" where
  "halting e \<longleftrightarrow> e = MallocFailed \<or> e = StackOverflow"

lemma board_starts: "board_ok bd \<Longrightarrow> \<exists>svc. miner_service_start (bd_hw bd) leds (bd_job_store bd) (bd_result_store bd) = Some svc"
  by (auto simp: board_ok_def miner_service_start_def xQueueCreate_def xQueueGenericReset_def split: option.split)

lemma boot_step_live:
  assumes "board_ok bd" "boot_live s" "\<not> halting e"
  shows "boot_live (boot_step bd e s)"
proof (cases s)
  case (Pair pc a)
  have "\<not> app_halted (app_log_network_config bd x)" if "\<not> app_halted x" for x
    using that by (simp add: app_log_network_config_def split_beta Let_def)
  moreover obtain svc where svc: "miner_service_start (bd_hw bd) (app_leds a) (bd_job_store bd) (bd_result_store bd) = Some svc"
    using board_starts[OF assms(1)] by blast
  ultimately have wait: "boot_live (network_wait_step bd n a)" for n
    using assms(2) by (simp add: Pair boot_live_def network_wait_step_def svc Let_def)
  have hooks: "boot_live (pc, vApplicationIPNetworkEventHook v a)" "boot_live (pc, miner_platform_dhcp_succeeded a)"
    "boot_live (pc, miner_platform_dhcp_failed a)" "boot_live (pc, snd (snd (xApplicationGetRandomNumber a)))"
    "boot_live (pc, snd (ulApplicationGetNextSequenceNumber sa sp da dp a))" for v sa sp da dp
    using assms(2) by (simp_all add: Pair boot_live_def hook_defs Let_def)
  show ?thesis
  proof (cases e)
    case WaitPoll
    then show ?thesis using wait assms(2) unfolding Pair by (cases pc) simp_all
  next
    case Main
    then show ?thesis using assms(2) by (auto simp: Pair boot_live_def)
  qed (use hooks assms(2,3) in \<open>simp_all add: Pair halting_def\<close>)
qed

lemma boot_run_live: "board_ok bd \<Longrightarrow> boot_live s \<Longrightarrow> list_all (\<lambda>e. \<not> halting e) es \<Longrightarrow> boot_live (boot_run bd es s)"
  unfolding boot_run_def by (induction es arbitrary: s) (simp_all add: boot_step_live)

lemma main_live:
  assumes "bd_task_created bd"
  shows "boot_live (boot_step bd Main (B_Reset, reset_app leds m))"
  using assms by (simp add: main_boot_def boot_live_def reset_app_def split_beta Let_def)

text \<open>Whether the last network event was one that says the network is up.\<close>

definition network_up_after :: "boot_event list \<Rightarrow> bool" where
  "network_up_after es = fold (\<lambda>e up. case e of IpEvent v \<Rightarrow> v = ENetworkUp | _ \<Rightarrow> up) es False"

lemma config_log_up [simp]: "g_network_up (app_log_network_config bd a) = g_network_up a"
  by (simp add: app_log_network_config_def app_log_ipv4_def split_beta Let_def)

lemma boot_step_up:
  assumes "boot_live s"
  shows "g_network_up (snd (boot_step bd e s)) = (case e of IpEvent v \<Rightarrow> v = ENetworkUp | _ \<Rightarrow> g_network_up (snd s))"
proof (cases s)
  case (Pair pc a)
  then have "\<not> app_halted a" "pc \<noteq> B_Reset" using assms by (auto simp: boot_live_def)
  then show ?thesis
    by (auto simp: Pair hook_defs network_wait_step_def Let_def split: boot_event.split boot_pc.split option.split)
qed

lemma boot_run_up:
  assumes "board_ok bd" "boot_live s" "list_all (\<lambda>e. \<not> halting e) es"
  shows "g_network_up (snd (boot_run bd es s)) = fold (\<lambda>e up. case e of IpEvent v \<Rightarrow> v = ENetworkUp | _ \<Rightarrow> up) es (g_network_up (snd s))"
  using assms(2,3)
proof (induction es arbitrary: s)
  case (Cons e es)
  then have "boot_live (boot_step bd e s)" "list_all (\<lambda>e. \<not> halting e) es" using boot_step_live[OF assms(1)] by simp_all
  from Cons.IH[OF this] show ?case using boot_step_up[OF Cons.prems(1)] by (simp add: boot_run_def)
qed (simp add: boot_run_def)

lemma up_and_poll:
  assumes "board_ok bd" "boot_live s" "g_network_up (snd s)"
  shows "\<exists>y a. boot_step bd WaitPoll s = (B_Running y, a)"
proof (cases s)
  case (Pair pc a)
  have "\<exists>y x. network_wait_step bd n a = (B_Running y, x)" for n
    using board_starts[OF assms(1), of "app_leds a"] assms(3)
    by (auto simp: Pair network_wait_step_def Let_def split: option.split)
  then show ?thesis using assms(2) by (auto simp: Pair boot_live_def split: boot_pc.splits)
qed

lemma running_fresh:
  assumes "board_ok bd" "boot_run bd es (B_Reset, reset_app leds m) = (B_Running y, a)"
  shows "fresh_firmware bd (status_leds_init leds) y"
proof -
  have "boot_ok bd leds (B_Reset, reset_app leds m)" by (simp add: boot_ok_def reset_app_def)
  from boot_run_ok[OF assms(1) this, of es] show ?thesis using assms(2) by (simp add: boot_ok_def)
qed

lemma fresh_state:
  assumes "board_ok bd" "fresh_firmware bd (status_leds_init leds) y"
  shows "fw_reachable pf env y" "g_status_led_state (svc_leds (fw_svc y)) = 0" "led_gpio_data (svc_leds (fw_svc y)) = 0"
proof -
  obtain svc where svc: "miner_service_start (bd_hw bd) (status_leds_init leds) (bd_job_store bd) (bd_result_store bd) = Some svc"
    "y = fw_boot svc" using assms(2) by (auto simp: fresh_firmware_def)
  show "fw_reachable pf env y" using fw_init[OF svc(1)] assms(1) svc(2) by (simp add: board_ok_def)
  have "svc_leds svc = status_leds_init leds" using svc(1) by (auto simp: miner_service_start_def split: option.splits)
  then show "g_status_led_state (svc_leds (fw_svc y)) = 0" "led_gpio_data (svc_leds (fw_svc y)) = 0"
    by (simp_all add: svc(2) fw_boot_def fw_svc_def fw_client_def stratum_client_start_def status_leds_init_def status_leds_write_def)
qed

text \<open>
  C40. However the network events, the hooks and the polls of the wait task fall after a reset: if the services
  run, they have been started once, by \<open>miner_service_start\<close> on the board's memory, and are in the initial state of the firmware with
  the LEDs all off, whatever they showed before, so that the runs the firmware theorems
  speak of are the runs of the booted system. And they do run: when the wait task was created and no hook has
  halted the system, any poll at which the last network event was that the network is up starts them, unless they run already.
\<close>

theorem boot_starts_firmware:
  assumes "board_ok bd"
  shows "(bd_task_created bd \<and> list_all (\<lambda>e. \<not> halting e) es \<and> network_up_after es \<longrightarrow>
      (\<exists>y a. boot_run bd (Main # es @ [WaitPoll]) (B_Reset, reset_app leds m) = (B_Running y, a))) \<and>
    (boot_run bd es' (B_Reset, reset_app leds m) = (B_Running y, a) \<longrightarrow>
      fresh_firmware bd (status_leds_init leds) y \<and> fw_reachable pf env y \<and>
      g_status_led_state (svc_leds (fw_svc y)) = 0 \<and> led_gpio_data (svc_leds (fw_svc y)) = 0)"
proof (rule conjI)
  let ?s = "boot_step bd Main (B_Reset, reset_app leds m)"
  have "\<exists>y a. boot_step bd WaitPoll (boot_run bd es ?s) = (B_Running y, a)"
    if "bd_task_created bd" "list_all (\<lambda>e. \<not> halting e) es" "network_up_after es"
  proof (rule up_and_poll[OF assms])
    show "boot_live (boot_run bd es ?s)" by (rule boot_run_live[OF assms main_live[OF that(1)] that(2)])
    have "g_network_up (snd ?s) = False"
      by (simp add: reset_app_def main_boot_def app_log_hex32_def split_beta Let_def)
    then show "g_network_up (snd (boot_run bd es ?s))"
      using boot_run_up[OF assms main_live[OF that(1)] that(2)] that(3) by (simp add: network_up_after_def)
  qed
  then show "bd_task_created bd \<and> list_all (\<lambda>e. \<not> halting e) es \<and> network_up_after es \<longrightarrow>
      (\<exists>y a. boot_run bd (Main # es @ [WaitPoll]) (B_Reset, reset_app leds m) = (B_Running y, a))"
    by (simp only: boot_run_def fold_append fold_simps comp_apply) blast
qed (use running_fresh[OF assms, of es' leds m y a] fresh_state[OF assms] in blast)

lemma demo_board_ok: "board_ok demo_board"
  using demo_hw_ok by (simp add: board_ok_def demo_board_def hw_ok_def)

theorem boot_starts_firmware_witness:
  "\<exists>y a. boot_run demo_board [Main, WaitPoll, IpEvent ENetworkUp, IpEvent ENetworkDown, DhcpFailed, IpEvent ENetworkUp, RandomNumber, WaitPoll]
     (B_Reset, reset_app \<lparr>g_status_led_state = 9, led_gpio_data = 9\<rparr> sound_ddr) = (B_Running y, a) \<and>
     led_gpio_data (svc_leds (fw_svc y)) = 0"
proof -
  let ?es = "[WaitPoll, IpEvent ENetworkUp, IpEvent ENetworkDown, DhcpFailed, IpEvent ENetworkUp, RandomNumber]"
  have "bd_task_created demo_board \<and> list_all (\<lambda>e. \<not> halting e) ?es \<and> network_up_after ?es"
    by (simp add: demo_board_def halting_def network_up_after_def)
  note both = boot_starts_firmware[OF demo_board_ok, of ?es "\<lparr>g_status_led_state = 9, led_gpio_data = 9\<rparr>" sound_ddr]
  obtain y a where y: "boot_run demo_board (Main # ?es @ [WaitPoll])
      (B_Reset, reset_app \<lparr>g_status_led_state = 9, led_gpio_data = 9\<rparr> sound_ddr) = (B_Running y, a)"
    using both[THEN conjunct1] \<open>bd_task_created demo_board \<and> _\<close> by blast
  have "led_gpio_data (svc_leds (fw_svc y)) = 0" using both[THEN conjunct2, THEN mp, OF y] by blast
  with y show ?thesis by auto
qed


end
