(* ===== verification/Miner_Scan.thy ===== *)
theory Miner_Scan
  imports Miner_Regs
begin

unbundle bit_operations_syntax

section \<open>What the engines hash\<close>

text \<open>
  The history \<open>scanned_q\<close> of the instances says which nonces the engines have hashed and under which
  job. This theory follows it from a started range on: what has been hashed and what busy
  engines and engines still to be loaded have before them is, at any time, exactly the range that
  was started, while the driver reads results, clears, masks and unmasks in any order.
\<close>

subsection \<open>What is still to be hashed\<close>

definition eng_scans :: "engine \<Rightarrow> scan_entry list" where
  "eng_scans e =
     (case e of
        EngIdle \<Rightarrow> []
      | EngBusy j \<Rightarrow> map (\<lambda>n. (ej_midstate j, ej_tail j, ej_target j, n)) (engine_nonces e))"

definition load_scans :: "miner_inst \<Rightarrow> scan_entry list" where
  "load_scans m =
     (case load_q m of
        None \<Rightarrow> []
      | Some k \<Rightarrow> concat (map (\<lambda>i. eng_scans (start_engine m i EngIdle)) [k..<NUM_ENGINES]))"

definition waiting_scans :: "miner_inst \<Rightarrow> scan_entry list" where
  "waiting_scans m = concat (map eng_scans (engines_q m)) @ load_scans m"

definition inst_idle :: "miner_inst \<Rightarrow> bool" where
  "inst_idle m \<longleftrightarrow> \<not> running_q m \<and> load_q m = None \<and> all_idle m"

definition eng_live :: "engine \<Rightarrow> bool" where
  "eng_live e = (case e of EngIdle \<Rightarrow> True | EngBusy j \<Rightarrow> ej_remaining j \<noteq> 0)"

definition unloaded_idle :: "miner_inst \<Rightarrow> bool" where
  "unloaded_idle m =
     (case load_q m of
        None \<Rightarrow> True
      | Some k \<Rightarrow> k < NUM_ENGINES \<and> (\<forall>i<NUM_ENGINES. k \<le> i \<longrightarrow> engines_q m ! i = EngIdle))"

definition on_track :: "scan_entry multiset \<Rightarrow> miner_inst \<Rightarrow> bool" where
  "on_track R m \<longleftrightarrow>
     length (engines_q m) = NUM_ENGINES \<and> mset (scanned_q m) + mset (waiting_scans m) = R \<and>
     (\<forall>e \<in> set (engines_q m). eng_live e) \<and> unloaded_idle m \<and>
     (\<not> running_q m \<longrightarrow> load_q m = None \<and> all_idle m)"

text \<open>Of the whole fabric.\<close>

definition fabric_scanned :: "miner_hw \<Rightarrow> scan_entry list" where
  "fabric_scanned hw = concat (map (\<lambda>i. scanned_q (hw_inst hw i)) [0..<MINER_AXI_INSTANCES])"

definition fabric_waiting :: "miner_hw \<Rightarrow> scan_entry list" where
  "fabric_waiting hw = concat (map (\<lambda>i. waiting_scans (hw_inst hw i)) [0..<MINER_AXI_INSTANCES])"

definition fabric_idle :: "miner_hw \<Rightarrow> bool" where
  "fabric_idle hw = list_all (\<lambda>i. inst_idle (hw_inst hw i)) [0..<MINER_AXI_INSTANCES]"

definition fabric_running :: "miner_hw \<Rightarrow> bool" where
  "fabric_running hw = list_ex (\<lambda>i. running_q (hw_inst hw i)) [0..<MINER_AXI_INSTANCES]"

text \<open>What the driver does while a range runs; \<open>Op_wait\<close> is any read that changes nothing.\<close>

datatype driver_op = Op_wait | Op_status | Op_read_result | Op_clear | Op_mask | Op_unmask

fun drive :: "driver_op \<Rightarrow> miner_hw \<Rightarrow> miner_hw" where
  "drive Op_wait hw = hw_tick hw"
| "drive Op_status hw = snd (miner_status hw)"
| "drive Op_read_result hw = snd (miner_read_result hw)"
| "drive Op_clear hw = miner_clear hw"
| "drive Op_mask hw = miner_irq_mask_all hw"
| "drive Op_unmask hw = miner_irq_unmask_all hw"


subsection \<open>One step of the fabric\<close>

lemma mset_concat_update:
  assumes "k < length xs"
  shows "mset (concat (map f (xs[k := y]))) + mset (f (xs ! k)) = mset (concat (map f xs)) + mset (f y)"
  using assms by (induction xs arbitrary: k) (auto simp: less_Suc_eq_0_disj)

lemma start_engine_cong:
  assumes "midstate_q m' = midstate_q m" "header_tail_q m' = header_tail_q m" "target_q m' = target_q m"
    "nonce_start_q m' = nonce_start_q m" "nonce_count_q m' = nonce_count_q m"
  shows "start_engine m' = start_engine m"
  using assms by (intro ext) (simp add: start_engine_def split: engine.split)

lemma load_scans_cong: "start_engine m' = start_engine m \<Longrightarrow> load_q m' = load_q m \<Longrightarrow> load_scans m' = load_scans m"
  unfolding load_scans_def by (simp only:)

text \<open>The flags of results and interrupts play no part; \<open>running_q\<close> may fall when nothing waits.\<close>

lemma on_track_cong:
  assumes "on_track R m" "start_engine m' = start_engine m"
    and "load_q m' = load_q m" "engines_q m' = engines_q m" "scanned_q m' = scanned_q m"
    and "running_q m' = running_q m \<or> load_q m = None \<and> all_idle m"
  shows "on_track R m'"
  using assms load_scans_cong[OF assms(2,3)]
  unfolding on_track_def waiting_scans_def unloaded_idle_def all_idle_def by (simp only:) blast

lemma start_engine_live: "eng_live (start_engine m k EngIdle)"
  by (simp add: eng_live_def start_engine_def)

lemma eng_live_advance: "eng_live (EngBusy j) \<Longrightarrow> eng_live (advance j)"
  by (auto simp: eng_live_def advance_def)

lemma eng_scans_idle [simp]: "eng_scans EngIdle = []"
  by (simp add: eng_scans_def)

lemma eng_scans_advance:
  assumes "eng_live (EngBusy j)"
  shows "eng_scans (EngBusy j) = (ej_midstate j, ej_tail j, ej_target j, ej_nonce j) # eng_scans (advance j)"
proof -
  have "eng_scans (advance j) = map (\<lambda>n. (ej_midstate j, ej_tail j, ej_target j, n)) (engine_nonces (advance j))"
    by (simp add: advance_def eng_scans_def engine_nonces_def)
  then show ?thesis using assms advance_nonces[of j] by (simp add: eng_scans_def eng_live_def)
qed

lemma load_on_track:
  assumes "on_track R m"
  shows "on_track R (load_engine m)"
proof (cases "load_q m")
  case None
  then show ?thesis using assms by (simp add: load_engine_def)
next
  case (Some k)
  let ?e = "start_engine m k EngIdle"
  have t: "k < NUM_ENGINES" "engines_q m ! k = EngIdle" "length (engines_q m) = NUM_ENGINES" "running_q m"
    "\<And>i. k \<le> i \<Longrightarrow> i < NUM_ENGINES \<Longrightarrow> engines_q m ! i = EngIdle"
    using assms Some by (auto simp: on_track_def unloaded_idle_def)
  let ?m = "m\<lparr>engines_q := (engines_q m)[k := ?e], load_q := (if k = NUM_ENGINES - 1 then None else Some (k + 1))\<rparr>"
  have m: "load_engine m = ?m" using Some t(2) by (simp add: load_engine_def)
  have s: "start_engine ?m = start_engine m" by (rule start_engine_cong) simp_all
  have "load_scans m = eng_scans ?e @ load_scans ?m"
  proof -
    have "[k..<NUM_ENGINES] = k # [Suc k..<NUM_ENGINES]" using t(1) by (simp add: upt_conv_Cons)
    moreover have "load_scans ?m = concat (map (\<lambda>i. eng_scans (start_engine m i EngIdle)) [Suc k..<NUM_ENGINES])"
      unfolding load_scans_def s by auto
    ultimately show ?thesis using Some by (simp add: load_scans_def)
  qed
  moreover have "mset (concat (map eng_scans (engines_q ?m))) = mset (concat (map eng_scans (engines_q m))) + mset (eng_scans ?e)"
    using mset_concat_update[of k "engines_q m" eng_scans ?e] t(1-3) by simp
  ultimately have w: "mset (waiting_scans ?m) = mset (waiting_scans m)" by (simp add: waiting_scans_def)
  have l: "\<forall>e \<in> set (engines_q ?m). eng_live e"
    using assms start_engine_live[of m k] set_update_subset_insert[of "engines_q m" k ?e] by (auto simp: on_track_def)
  have u: "unloaded_idle ?m" using t(1,3,5) by (auto simp: unloaded_idle_def)
  show ?thesis unfolding m on_track_def w using assms l u t(4) by (simp add: on_track_def)
qed

lemma scan_on_track:
  assumes "on_track R m"
  shows "on_track R (scan k out m)"
proof (cases "k < length (engines_q m) \<and> engines_q m ! k \<noteq> EngIdle")
  case False
  then show ?thesis using assms by (auto simp: scan_def split: engine.split)
next
  case True
  then obtain j where j: "k < length (engines_q m)" "engines_q m ! k = EngBusy j" by (cases "engines_q m ! k") auto
  define m1 where "m1 = m\<lparr>engines_q := (engines_q m)[k := advance j],
                       scanned_q := scanned_q m @ [(ej_midstate j, ej_tail j, ej_target j, ej_nonce j)]\<rparr>"
  have len: "length (engines_q m) = NUM_ENGINES" using assms by (simp add: on_track_def)
  have live: "eng_live (EngBusy j)" using assms j by (metis nth_mem on_track_def)
  have run: "running_q m"
    using assms j by (metis all_idle_nth engine.distinct(1) on_track_def)
  have ld: "load_q m = Some i \<Longrightarrow> k < i" for i
    using assms j len by (force simp: on_track_def unloaded_idle_def not_le[symmetric])
  have "load_scans m1 = load_scans m" by (intro load_scans_cong start_engine_cong) (simp_all add: m1_def)
  moreover have "mset (concat (map eng_scans (engines_q m))) =
      mset (concat (map eng_scans (engines_q m1))) + {#(ej_midstate j, ej_tail j, ej_target j, ej_nonce j)#}"
    using mset_concat_update[OF j(1), of eng_scans "advance j"] eng_scans_advance[OF live] j(2) by (simp add: m1_def)
  ultimately have w: "mset (scanned_q m1) + mset (waiting_scans m1) = R"
    using assms by (simp add: on_track_def waiting_scans_def) (simp add: m1_def)
  have l: "\<forall>e \<in> set (engines_q m1). eng_live e"
    using assms eng_live_advance[OF live] set_update_subset_insert[of "engines_q m" k "advance j"]
    by (auto simp: on_track_def m1_def)
  have u: "unloaded_idle m1"
    using assms ld by (auto simp: on_track_def unloaded_idle_def m1_def split: option.splits)
  have m1: "on_track R m1" using w l u run len by (simp add: on_track_def) (simp add: m1_def)
  have irrelevant: "on_track R (m1\<lparr>fifo_q := x\<rparr>)" "on_track R (m1\<lparr>overflow_q := y\<rparr>)" for x y
    by (rule on_track_cong[OF m1]; (rule start_engine_cong)?; simp)+
  show ?thesis
    using m1 irrelevant j by (simp add: scan_def m1_def[symmetric] Let_def split: scan_outcome.split)
qed

lemma step_on_track:
  assumes "on_track R m"
  shows "on_track R (fabric_step e m)"
proof (cases e)
  case (Latch i)
  have "on_track R (latch i m)"
    by (rule on_track_cong[OF assms]) (auto simp: latch_def intro: start_engine_cong)
  then show ?thesis by (simp add: Latch)
next
  case Finish
  have "on_track R (finish m)"
    by (rule on_track_cong[OF assms]) (auto simp: finish_def intro: start_engine_cong)
  then show ?thesis by (simp add: Finish)
qed (simp_all add: load_on_track[OF assms] scan_on_track[OF assms])

lemma idle_step:
  assumes "inst_idle m"
  shows "inst_idle (fabric_step e m)" "scanned_q (fabric_step e m) = scanned_q m"
proof -
  have m: "\<not> running_q m" "load_q m = None" "all_idle m" using assms by (simp_all add: inst_idle_def)
  then have "fabric_step e m = m" if "\<nexists>i. e = Latch i"
    using that all_idle_nth[OF m(3)] by (cases e) (simp_all add: load_engine_def scan_def finish_def)
  moreover have "inst_idle (latch i m)" "scanned_q (latch i m) = scanned_q m" for i
    using m by (simp_all add: latch_def inst_idle_def all_idle_def)
  ultimately show "inst_idle (fabric_step e m)" "scanned_q (fabric_step e m) = scanned_q m"
    using assms by (metis fabric_step.simps(3))+
qed


subsection \<open>The driver's accesses\<close>

text \<open>Writes that concern results and interrupts only.\<close>

definition service_write :: "u32 \<Rightarrow> u32 \<Rightarrow> bool" where
  "service_write off v \<longleftrightarrow> off = MINER_REG_RESULT_STATUS \<or> off = MINER_REG_IRQ_CONTROL \<or>
     off = MINER_REG_CONTROL \<and> v = MINER_CONTROL_CLEAR"

lemma service_write_off: "service_write off v \<Longrightarrow> unat off < 0x1000"
  by (auto simp: service_write_def reg_defs)

text \<open>Such a write changes none of the fields an engine's work depends on.\<close>

lemma service_write_fields:
  assumes "service_write off v"
  shows "start_engine (inst_write co off v m) = start_engine m" "load_q (inst_write co off v m) = load_q m"
    "engines_q (inst_write co off v m) = engines_q m" "scanned_q (inst_write co off v m) = scanned_q m"
    "running_q (inst_write co off v m) = running_q m \<or>
     \<not> running_q (inst_write co off v m) \<and> load_q m = None \<and> all_idle m"
proof -
  consider "off = 0x98" | "off = 0xa0" | "off = 0" "v = 4"
    using assms by (auto simp: service_write_def reg_defs reg_bit_defs)
  then have w: "write_reg (unat off) v m = write_result_status v m \<or>
      write_reg (unat off) v m = m\<lparr>irq_mask_q := bit v 0, irq_force_q := bit v 1\<rparr> \<or>
      write_reg (unat off) v m = control_clear m"
    by cases (simp_all add: write_reg_def write_control_def)
  then show "load_q (inst_write co off v m) = load_q m" "engines_q (inst_write co off v m) = engines_q m"
    "scanned_q (inst_write co off v m) = scanned_q m"
    "running_q (inst_write co off v m) = running_q m \<or>
     \<not> running_q (inst_write co off v m) \<and> load_q m = None \<and> all_idle m"
    by (auto simp: inst_write_def coincide_finish_def control_clear_def write_result_status_def)
  show "start_engine (inst_write co off v m) = start_engine m"
    using w by (intro start_engine_cong) (auto simp: inst_write_def coincide_finish_def control_clear_def write_result_status_def)
qed

lemma write_on_track:
  assumes "on_track R m" "service_write off v"
  shows "on_track R (inst_write co off v m)"
  by (rule on_track_cong[OF assms(1) service_write_fields(1-4)[OF assms(2)]])
    (use service_write_fields(5)[OF assms(2), of co m] in blast)

lemma idle_write: "inst_idle m \<Longrightarrow> service_write off v \<Longrightarrow> inst_idle (inst_write co off v m)"
  using service_write_fields[of off v co m] by (auto simp: inst_idle_def all_idle_def)

text \<open>
  A property of the instances that the fabric and these writes keep is kept by all those operations of the driver.
\<close>

definition every_inst :: "(nat \<Rightarrow> miner_inst \<Rightarrow> bool) \<Rightarrow> miner_hw \<Rightarrow> bool" where
  "every_inst P hw \<longleftrightarrow> hw_ok hw \<and> (\<forall>i<MINER_AXI_INSTANCES. P i (hw_inst hw i))"

lemma every_inst_tick:
  assumes "\<And>i e m. P i m \<Longrightarrow> P i (fabric_step e m)" "every_inst P hw"
  shows "every_inst P (hw_tick hw)"
proof -
  have "hw_ok hw" "length (insts (hw_bus hw)) = MINER_AXI_INSTANCES" using assms(2) by (simp_all add: every_inst_def hw_ok_iff)
  then show ?thesis
    using assms(2) hw_tick_invariant[where P = "P i" and hw = hw and i = i for i, OF assms(1)]
    by (simp add: every_inst_def hw_tick_ok)
qed

lemma every_inst_write:
  assumes "\<And>i e m. P i m \<Longrightarrow> P i (fabric_step e m)" "every_inst P hw"
    and "k < MINER_AXI_INSTANCES" "unat off < 0x1000"
    and "\<And>m co. inst_ok m \<Longrightarrow> P k m \<Longrightarrow> P' k (inst_write co off v m)" "\<And>i m. i \<noteq> k \<Longrightarrow> P i m \<Longrightarrow> P' i m"
  shows "every_inst P' (miner_write_reg_instance k off v hw)"
  using every_inst_tick[of P, OF assms(1,2)] assms(2-6)
  by (simp add: every_inst_def miner_write_ok hw_inst_write) (simp add: hw_ok_iff)

locale kept_by_fabric =
  fixes P :: "nat \<Rightarrow> miner_inst \<Rightarrow> bool"
  assumes step: "P i m \<Longrightarrow> P i (fabric_step e m)"
    and written: "P i m \<Longrightarrow> service_write off v \<Longrightarrow> P i (inst_write co off v m)"
begin

lemma tick: "every_inst P hw \<Longrightarrow> every_inst P (hw_tick hw)"
  by (rule every_inst_tick) (auto intro: step)

lemma ticks: "every_inst P hw \<Longrightarrow> every_inst P ((hw_tick ^^ n) hw)"
  by (induction n) (simp_all add: tick)

lemma reads:
  assumes "every_inst P hw" "unat off < 0x1000"
  shows "every_inst P (snd (miner_read_reg_instance i off hw))"
  using assms tick[OF assms(1)]
  by (cases "i < MINER_AXI_INSTANCES") (simp_all add: miner_read_instance every_inst_def, simp add: miner_read_reg_instance_def)

lemma writes:
  assumes "every_inst P hw" "service_write off v"
  shows "every_inst P (miner_write_reg_instance i off v hw)"
proof (cases "i < MINER_AXI_INSTANCES")
  case True
  then show ?thesis
    using assms tick[OF assms(1)] service_write_off[OF assms(2)] written
    by (simp add: every_inst_def miner_write_ok hw_inst_write)
qed (use assms in \<open>simp add: miner_write_reg_instance_def\<close>)

lemma folds:
  "every_inst P hw \<Longrightarrow> (\<And>x hw. every_inst P hw \<Longrightarrow> every_inst P (f x hw)) \<Longrightarrow> every_inst P (fold f xs hw)"
  by (induction xs arbitrary: hw) auto

lemma status: "every_inst P hw \<Longrightarrow> every_inst P (snd (miner_status hw))"
  using miner_status_fold[of hw MINER_AXI_INSTANCES] ticks[of hw]
  by (simp add: miner_status_def Let_def every_inst_def)

lemma clear: "every_inst P hw \<Longrightarrow> every_inst P (miner_clear hw)"
  unfolding miner_clear_def by (rule folds) (auto intro!: writes simp: service_write_def)

lemma rmw: "every_inst P hw \<Longrightarrow> every_inst P (irq_rmw b i hw)"
  unfolding irq_rmw_def split_beta Let_def by (intro writes reads) (auto simp: service_write_def reg_defs)

lemma mask: "every_inst P hw \<Longrightarrow> every_inst P (miner_irq_mask_all hw)"
  "every_inst P hw \<Longrightarrow> every_inst P (miner_irq_unmask_all hw)"
  by (simp_all add: mask_all_rmw unmask_all_rmw folds rmw)

lemma read_from: "every_inst P hw \<Longrightarrow> every_inst P (snd (miner_read_result_from is hw))"
proof (induction "is" arbitrary: hw)
  case (Cons i "is")
  have r: "every_inst P (snd (miner_read_reg_instance i MINER_REG_RESULT_STATUS hw))"
    using Cons.prems by (rule reads) (simp add: reg_defs)
  have "every_inst P (miner_write_reg_instance i MINER_REG_RESULT_STATUS MINER_RESULT_STATUS_RESULT
      (snd (miner_read_reg_instance i MINER_REG_RESULT_ENGINE
        (snd (miner_read_reg_instance i MINER_REG_RESULT_NONCE (snd (miner_read_reg_instance i MINER_REG_RESULT_STATUS hw)))))))"
    by (intro writes reads Cons.prems) (simp add: service_write_def reg_defs)+
  then show ?case using Cons.IH[OF r] by (simp add: split_beta Let_def)
qed simp

lemma drives: "every_inst P hw \<Longrightarrow> every_inst P (drive op hw)"
  by (cases op) (simp_all add: tick status clear mask read_from miner_read_result_def)

lemma driven: "every_inst P hw \<Longrightarrow> every_inst P (fold drive ops hw)"
  using folds[of hw drive] drives by blast

end


interpretation track: kept_by_fabric "\<lambda>i. on_track (R i)" for R
  by unfold_locales (simp_all add: step_on_track write_on_track)

interpretation resting: kept_by_fabric "\<lambda>i m. inst_idle m \<and> scanned_q m = h i" for h
  by unfold_locales (simp_all add: idle_step idle_write service_write_fields)


subsection \<open>Programming and starting\<close>

text \<open>The writes of a job and of a range leave an idle instance idle; \<open>START\<close> sets the loader off.\<close>

lemma config_write_idle:
  assumes "inst_idle m" "unat off \<noteq> 0"
  shows "inst_idle (inst_write co off v m)" "scanned_q (inst_write co off v m) = scanned_q m"
  using assms
  by (simp_all add: inst_write_def coincide_finish_def write_reg_def write_result_status_def inst_idle_def all_idle_def)

lemma config_pokes_idle:
  assumes "every_inst (\<lambda>i m. inst_idle m \<and> scanned_q m = h i) hw"
    and "\<forall>(a, v) \<in> set ws. a \<in> reg_addrs \<and> unat (snd a) \<noteq> 0"
  shows "every_inst (\<lambda>i m. inst_idle m \<and> scanned_q m = h i) (fold (\<lambda>(a, v). hw_poke a v) ws hw)"
  using assms
proof (induction ws arbitrary: hw)
  case (Cons w ws)
  obtain i off v where w: "w = ((i, off), v)" by (metis surj_pair)
  then have a: "i < MINER_AXI_INSTANCES" "unat off < 0x1000" "unat off \<noteq> 0"
    using Cons.prems(2) by (auto simp: reg_addrs_def)
  have "every_inst (\<lambda>i m. inst_idle m \<and> scanned_q m = h i) (miner_write_reg_instance i off v hw)"
    using Cons.prems(1) resting.tick[OF Cons.prems(1)] a config_write_idle
    by (simp add: every_inst_def miner_write_ok hw_inst_write)
  then show ?case using Cons.IH Cons.prems(2) by (simp add: w hw_poke_pair)
qed simp

lemma start_on_track:
  assumes "inst_idle m" "inst_ok m"
  shows "on_track (mset (scanned_q m) +
      image_mset (\<lambda>n. (midstate_q m, header_tail_q m, target_q m, n)) (mset (nonce_range (nonce_start_q m) (unat (nonce_count_q m)))))
    (inst_write co 0 1 m)"
proof -
  let ?m = "m\<lparr>running_q := True, nonce_done_q := False, overflow_q := False,
             result_valid_q := False, load_q := Some 0, fifo_q := []\<rparr>"
  let ?tag = "\<lambda>n. (midstate_q m, header_tail_q m, target_q m, n)"
  have w: "inst_write co 0 1 m = ?m"
    using assms(1) by (simp add: inst_write_def coincide_finish_def write_reg_def write_control_def control_start_def inst_idle_def bit_1_iff)
  have e: "engines_q m ! i = EngIdle" if "i < NUM_ENGINES" for i
    using assms that all_idle_nth[of m i] by (simp add: inst_idle_def inst_ok_def)
  have s: "start_engine ?m = start_engine m" by (rule start_engine_cong) simp_all
  have t: "eng_scans (start_engine m i EngIdle) = map ?tag (engine_nonces (start_engine m i EngIdle))" for i
    by (simp add: eng_scans_def start_engine_def engine_nonces_def)
  have "concat (map eng_scans (engines_q m)) = []"
    using assms(1) by (auto simp: inst_idle_def all_idle_def)
  then have "waiting_scans ?m = concat (map (\<lambda>i. eng_scans (start_engine m i EngIdle)) [0..<NUM_ENGINES])"
    by (simp only: waiting_scans_def load_scans_def s) simp
  also have "\<dots> = map ?tag (inst_nonces m)" by (simp add: t inst_nonces_def map_concat comp_def)
  finally have "mset (waiting_scans ?m) = image_mset ?tag (mset (nonce_range (nonce_start_q m) (unat (nonce_count_q m))))"
    by (simp add: inst_nonces_perm)
  moreover have "\<forall>e \<in> set (engines_q m). eng_live e" using assms(1) by (auto simp: inst_idle_def all_idle_def eng_live_def)
  ultimately show ?thesis
    unfolding w using assms(2) e by (simp add: on_track_def unloaded_idle_def inst_ok_def NUM_ENGINES_def)
qed
text \<open>The loop of \<open>miner_start_range\<close> after \<open>k\<close> rounds: the first \<open>k\<close> instances are under way, the others at rest.\<close>

definition rounds_done :: "scan_entry list list \<Rightarrow> u32 list \<times> u32 list \<times> u32 list \<Rightarrow> u32 \<Rightarrow> u32 \<Rightarrow> nat \<Rightarrow> nat \<Rightarrow> miner_inst \<Rightarrow> bool" where
  "rounds_done h job s c k i m \<longleftrightarrow>
     (if i < k
      then on_track (mset (h ! i) + image_mset (\<lambda>n. case job of (mid, hdr, tgt) \<Rightarrow> (mid, hdr, tgt, n))
             (mset (nonce_range (share_start s c i) (unat (share_count c i))))) m
      else inst_idle m \<and> scanned_q m = h ! i \<and> (midstate_q m, header_tail_q m, target_q m) = job)"

lemma fabric_step_regs:
  "midstate_q (fabric_step e m) = midstate_q m" "header_tail_q (fabric_step e m) = header_tail_q m"
  "target_q (fabric_step e m) = target_q m" "nonce_start_q (fabric_step e m) = nonce_start_q m"
  "nonce_count_q (fabric_step e m) = nonce_count_q m"
  using fabric_step_cfg[of e m] by (simp_all add: inst_cfg_def)

lemma rounds_done_step: "rounds_done h job s c k i m \<Longrightarrow> rounds_done h job s c k i (fabric_step e m)"
  by (auto simp: rounds_done_def step_on_track idle_step fabric_step_regs)

lemma start_round:
  assumes "every_inst (rounds_done h job s c k) hw" "k < MINER_AXI_INSTANCES"
  shows "every_inst (rounds_done h job s c (Suc k)) (fold (\<lambda>(a, v). hw_poke a v) (start_writes s c k) hw)"
proof -
  let ?P1 = "\<lambda>i m. rounds_done h job s c k i m \<and> (i = k \<longrightarrow> nonce_start_q m = share_start s c k)"
  let ?P2 = "\<lambda>i m. ?P1 i m \<and> (i = k \<longrightarrow> nonce_count_q m = share_count c k)"
  let ?h1 = "miner_write_reg_instance k MINER_REG_NONCE_START (share_start s c k) hw"
  let ?h2 = "miner_write_reg_instance k MINER_REG_NONCE_COUNT (share_count c k) ?h1"
  have w: "rounds_done h job s c k k (m\<lparr>nonce_start_q := v\<rparr>)" "rounds_done h job s c k k (m\<lparr>nonce_count_q := v\<rparr>)"
    "inst_write co MINER_REG_NONCE_START v m = m\<lparr>nonce_start_q := v\<rparr>"
    "inst_write co MINER_REG_NONCE_COUNT v m = m\<lparr>nonce_count_q := v\<rparr>"
    if "rounds_done h job s c k k m" for co v m
    using that by (simp_all add: rounds_done_def inst_write_def coincide_finish_def write_reg_def inst_idle_def all_idle_def reg_defs)
  have 1: "every_inst ?P1 ?h1"
    by (rule every_inst_write[OF rounds_done_step assms]) (simp_all add: w, simp add: reg_defs)
  have 2: "every_inst ?P2 ?h2"
    by (rule every_inst_write[OF _ 1 assms(2)]) (simp_all add: w rounds_done_step fabric_step_regs, simp add: reg_defs)
  have "every_inst (rounds_done h job s c (Suc k)) (miner_write_reg_instance k MINER_REG_CONTROL MINER_CONTROL_START ?h2)"
  proof (rule every_inst_write[where P = ?P2])
    fix m co assume "inst_ok m" "?P2 k m"
    then show "rounds_done h job s c (Suc k) k (inst_write co MINER_REG_CONTROL MINER_CONTROL_START m)"
      using start_on_track[of m co] by (auto simp: rounds_done_def reg_defs reg_bit_defs)
  next
    fix i m assume "i \<noteq> k" "?P2 i m"
    then show "rounds_done h job s c (Suc k) i m" by (simp add: rounds_done_def less_Suc_eq)
  qed (use assms 2 in \<open>simp_all add: rounds_done_step fabric_step_regs\<close>, simp add: reg_defs)
  then show ?thesis by (simp add: start_writes_def hw_poke_pair)
qed

lemma start_rounds:
  assumes "every_inst (rounds_done h job s c 0) hw"
  shows "every_inst (rounds_done h job s c MINER_AXI_INSTANCES) (miner_start_range s c hw)"
proof -
  have "n \<le> MINER_AXI_INSTANCES \<Longrightarrow> every_inst (rounds_done h job s c n)
      (fold (\<lambda>(a, v). hw_poke a v) (concat (map (start_writes s c) [0..<n])) hw)" for n
    by (induction n) (simp_all add: assms start_round)
  then show ?thesis unfolding start_range_pokes by blast
qed

lemma mset_concat_upt: "mset (concat (map f [0..<n])) = (\<Sum>i<n. mset (f i))"
  by (induction n) (simp_all add: add.commute)

lemma image_mset_sum_upt: "image_mset f (\<Sum>i<n. g i) = (\<Sum>i<n. image_mset f (g i))" for n :: nat
  by (induction n) simp_all

lemma share_total:
  "(\<Sum>i<MINER_AXI_INSTANCES. mset (nonce_range (share_start s c i) (unat (share_count c i)))) = mset (nonce_range s (unat c))"
  using shares_cover[OF order_refl, of s c] unfolding mset_concat_upt[symmetric] by (simp only: shares_sum)

lemma programmed_resting:
  assumes "hw_ok hw" "fabric_idle hw" "length mid = 8" "length hdr = 4" "length tgt = 8"
  shows "every_inst (rounds_done (map (\<lambda>i. scanned_q (hw_inst hw i)) [0..<MINER_AXI_INSTANCES]) (mid, hdr, tgt) s c 0)
    (miner_program_job mid hdr tgt hw)"
proof -
  let ?h = "\<lambda>i. scanned_q (hw_inst hw i)"
  have "every_inst (\<lambda>i m. inst_idle m \<and> scanned_q m = ?h i) hw"
    using assms(1,2) by (simp add: every_inst_def fabric_idle_def list_all_iff)
  then have "every_inst (\<lambda>i m. inst_idle m \<and> scanned_q m = ?h i) (miner_program_job mid hdr tgt hw)"
    unfolding program_job_pokes
    by (rule config_pokes_idle) (use program_job_addrs in \<open>auto simp: job_writes_set unat_job_off reg_addrs_def\<close>)
  then show ?thesis
    using program_job_inst[OF assms(1) _ assms(3-5)] by (simp add: every_inst_def rounds_done_def)
qed

lemma on_track_done: "on_track R m \<Longrightarrow> \<not> running_q m \<Longrightarrow> waiting_scans m = []"
  by (auto simp: on_track_def waiting_scans_def load_scans_def all_idle_def)

definition share_scans :: "miner_hw \<Rightarrow> u32 list \<times> u32 list \<times> u32 list \<Rightarrow> u32 \<Rightarrow> u32 \<Rightarrow> nat \<Rightarrow> scan_entry multiset" where
  "share_scans hw job s c i = mset (scanned_q (hw_inst hw i)) + image_mset (\<lambda>n. case job of (mid, hdr, tgt) \<Rightarrow> (mid, hdr, tgt, n))
     (mset (nonce_range (share_start s c i) (unat (share_count c i))))"

lemma started_track:
  assumes "hw_ok hw" "fabric_idle hw" "length mid = 8" "length hdr = 4" "length tgt = 8"
  shows "every_inst (\<lambda>i. on_track (share_scans hw (mid, hdr, tgt) s c i))
    (fold drive ops (miner_start_range s c (miner_program_job mid hdr tgt hw)))"
proof -
  have "every_inst (\<lambda>i. on_track (share_scans hw (mid, hdr, tgt) s c i)) (miner_start_range s c (miner_program_job mid hdr tgt hw))"
    using start_rounds[OF programmed_resting[OF assms], of s c]
    by (simp add: every_inst_def rounds_done_def share_scans_def)
  then show ?thesis by (rule track.driven)
qed

lemma share_scans_total:
  "(\<Sum>i<MINER_AXI_INSTANCES. share_scans hw (mid, hdr, tgt) s c i) =
   mset (fabric_scanned hw) + mset (map (\<lambda>n. (mid, hdr, tgt, n)) (nonce_range s (unat c)))"
proof -
  have "image_mset f (mset (nonce_range s (unat c))) = (\<Sum>i<MINER_AXI_INSTANCES. image_mset f (mset (nonce_range (share_start s c i)
      (unat (share_count c i)))))" for f :: "u32 \<Rightarrow> scan_entry"
    by (subst share_total[symmetric]) (rule image_mset_sum_upt)
  then show ?thesis
    unfolding share_scans_def fabric_scanned_def mset_concat_upt mset_map by (simp only: sum.distrib prod.case)
qed

lemma track_total:
  assumes "every_inst (\<lambda>i. on_track (R i)) hw"
  shows "mset (fabric_scanned hw) + mset (fabric_waiting hw) = (\<Sum>i<MINER_AXI_INSTANCES. R i)"
    and "\<not> fabric_running hw \<Longrightarrow> fabric_waiting hw = []"
proof -
  have t: "on_track (R i) (hw_inst hw i)" if "i < MINER_AXI_INSTANCES" for i using assms that by (simp add: every_inst_def)
  have "(\<Sum>i<MINER_AXI_INSTANCES. mset (scanned_q (hw_inst hw i)) + mset (waiting_scans (hw_inst hw i))) =
      (\<Sum>i<MINER_AXI_INSTANCES. R i)"
    by (rule sum.cong) (use t in \<open>simp_all add: on_track_def\<close>)
  then show "mset (fabric_scanned hw) + mset (fabric_waiting hw) = (\<Sum>i<MINER_AXI_INSTANCES. R i)"
    unfolding fabric_scanned_def fabric_waiting_def mset_concat_upt by (simp only: sum.distrib)
  show "\<not> fabric_running hw \<Longrightarrow> fabric_waiting hw = []"
    using on_track_done[OF t] by (auto simp: fabric_running_def fabric_waiting_def list_ex_iff)
qed


subsection \<open>The fabric can always go on\<close>

definition steps_left :: "scan_entry multiset \<Rightarrow> miner_inst \<Rightarrow> nat" where
  "steps_left R m = (case load_q m of None \<Rightarrow> 0 | Some k \<Rightarrow> NUM_ENGINES - k) + (size R - length (scanned_q m))"

lemma load_steps:
  assumes "on_track R m" "load_q m = Some k"
  shows "steps_left R (load_engine m) < steps_left R m"
  using assms by (auto simp: steps_left_def load_engine_def on_track_def unloaded_idle_def)

lemma scan_steps:
  assumes "on_track R m" "k < length (engines_q m)" "engines_q m ! k = EngBusy j"
  shows "steps_left R (scan k Miss m) < steps_left R m"
proof -
  have s: "load_q (scan k Miss m) = load_q m" "length (scanned_q (scan k Miss m)) = Suc (length (scanned_q m))"
    using assms(2,3) by (simp_all add: scan_def)
  have "size R = length (scanned_q (scan k Miss m)) + length (waiting_scans (scan k Miss m))"
    using scan_on_track[OF assms(1), of k Miss] by (auto simp: on_track_def)
  then show ?thesis using s by (simp add: steps_left_def)
qed

lemma can_finish: "on_track R m \<Longrightarrow> \<exists>es. \<not> running_q (fold fabric_step es m)"
proof (induction "steps_left R m" arbitrary: m rule: less_induct)
  case less
  have again: "\<exists>es. \<not> running_q (fold fabric_step es m)" if "steps_left R (fabric_step e m) < steps_left R m" for e
    using less.hyps[OF that step_on_track[OF less.prems]] by (metis fold_simps(2))
  show ?case
  proof (cases "load_q m")
    case (Some k)
    then show ?thesis using again[of LoadEngine] load_steps[OF less.prems] by simp
  next
    case None
    show ?thesis
    proof (cases "all_idle m")
      case True
      then have "\<not> running_q (fold fabric_step [Finish] m)" using None by (simp add: finish_def)
      then show ?thesis by blast
    next
      case False
      then obtain k j where "k < length (engines_q m)" "engines_q m ! k = EngBusy j"
        by (metis all_idle_def engine.exhaust in_set_conv_nth)
      then show ?thesis using again[of "Scan k Miss"] scan_steps[OF less.prems] by simp
    qed
  qed
qed

lemma fabric_run_one:
  "fabric_run (map (Pair i) es) ms = (if i < length ms then ms[i := fold fabric_step es (ms ! i)] else ms)"
  by (induction es arbitrary: ms) (auto simp: fabric_run_def list_update_beyond)

lemma all_can_finish:
  assumes "\<forall>i<length ms. on_track (R i) (ms ! i)"
  shows "\<exists>evs. \<forall>i<length ms. \<not> running_q (fabric_run evs ms ! i)"
proof -
  have "\<exists>evs. \<forall>i<length ms. if i < n then \<not> running_q (fabric_run evs ms ! i) else fabric_run evs ms ! i = ms ! i" for n
  proof (induction n)
    case 0
    then show ?case by (intro exI[of _ "[]"]) (simp add: fabric_run_def)
  next
    case (Suc n)
    then obtain evs where evs: "\<forall>i<length ms. if i < n then \<not> running_q (fabric_run evs ms ! i) else fabric_run evs ms ! i = ms ! i"
      by blast
    show ?case
    proof (cases "n < length ms")
      case True
      then obtain es where "\<not> running_q (fold fabric_step es (ms ! n))" using assms can_finish by blast
      moreover have "fabric_run (evs @ map (Pair n) es) ms = (fabric_run evs ms)[n := fold fabric_step es (fabric_run evs ms ! n)]"
        using True fabric_run_one[of n es "fabric_run evs ms"] by (simp add: fabric_run_length) (simp add: fabric_run_def)
      ultimately show ?thesis
        using evs True by (intro exI[of _ "evs @ map (Pair n) es"]) (auto simp: nth_list_update fabric_run_length less_Suc_eq)
    qed (use evs in \<open>auto intro!: exI[of _ evs]\<close>)
  qed
  from this[of "length ms"] show ?thesis by auto
qed


subsection \<open>The theorem\<close>

text \<open>The fabric with another schedule before it.\<close>

definition reschedule :: "(nat \<times> fabric_event) list \<Rightarrow> miner_hw \<Rightarrow> miner_hw" where
  "reschedule evs hw = hw\<lparr>hw_bus := (hw_bus hw)\<lparr>schedule_of_fabric := [\<lparr>tick_events = evs, tick_coincide = False\<rparr>]\<rparr>\<rparr>"

lemma track_can_finish:
  assumes "every_inst (\<lambda>i. on_track (R i)) hw"
  shows "\<exists>evs. \<not> fabric_running (drive Op_wait (reschedule evs hw))"
proof -
  obtain evs where "\<forall>i<MINER_AXI_INSTANCES. \<not> running_q (fabric_run evs (insts (hw_bus hw)) ! i)"
    using all_can_finish[of "insts (hw_bus hw)" R] assms by (auto simp: every_inst_def hw_ok_iff hw_inst_def)
  then show ?thesis
    by (intro exI[of _ evs]) (simp add: fabric_running_def reschedule_def hw_tick_def bus_tick_def hw_inst_def list_ex_iff)
qed

text \<open>C3. The range of a job is scanned without gap or overlap. Let the fabric be at rest: no
  instance running, no engine busy. Program a job and start a range, and then let the driver do what it does while
  a range runs (poll the status, read results, clear, mask and unmask the interrupt), in any order, any number of times,
  with the fabric running at any pace. At every such moment the nonces the engines have hashed since the start, all under this
  job, and those that busy engines and engines not yet loaded have still before them are together the
  requested range, each nonce once; when no instance reports to be running any more, all of them
  have been hashed; and the fabric can always get there. This holds for every start and count, including ranges that wrap around
  2^32. (With engines still busy at the start it does not: \<open>restart_leaves_busy_engines\<close>.)\<close>

theorem range_scanned_exactly_once:
  assumes "hw_ok hw" "fabric_idle hw" "length mid = 8" "length hdr = 4" "length tgt = 8"
    and "hw' = fold drive ops (miner_start_range s c (miner_program_job mid hdr tgt hw))"
    and "wanted = mset (map (\<lambda>n. (mid, hdr, tgt, n)) (nonce_range s (unat c)))"
  shows "mset (fabric_scanned hw') + mset (fabric_waiting hw') = mset (fabric_scanned hw) + wanted \<and>
    (\<not> fabric_running hw' \<longrightarrow> mset (fabric_scanned hw') = mset (fabric_scanned hw) + wanted) \<and>
    (\<exists>evs. \<not> fabric_running (drive Op_wait (reschedule evs hw')))"
proof -
  have t: "every_inst (\<lambda>i. on_track (share_scans hw (mid, hdr, tgt) s c i)) hw'"
    unfolding assms(6) by (rule started_track[OF assms(1-5)])
  show ?thesis
    using track_total[OF t] track_can_finish[OF t] unfolding share_scans_total assms(7) by (metis add_0_right mset.simps(1))
qed

lemma demo_idle: "fabric_idle (demo_hw sched)"
  by (simp add: fabric_idle_def demo_hw_def reset_bus_def hw_inst_def reset_inst_def inst_idle_def all_idle_def list_all_iff)

theorem range_scanned_exactly_once_witness:
  "let hw = fold drive [Op_status, Op_read_result, Op_clear, Op_wait] (miner_start_range 0xFFFFFFFD 7
      (miner_program_job (replicate 8 1) (replicate 4 2) (replicate 8 3) (demo_hw demo_schedule)))
   in mset (fabric_scanned hw) + mset (fabric_waiting hw) =
     mset (map (\<lambda>n. (replicate 8 1, replicate 4 2, replicate 8 3, n)) [0xFFFFFFFD, 0xFFFFFFFE, 0xFFFFFFFF, 0, 1, 2, 3])"
proof -
  have "nonce_range 0xFFFFFFFD (unat (7::u32)) = [0xFFFFFFFD, 0xFFFFFFFE, 0xFFFFFFFF, 0, 1, 2, 3]"
    by (simp add: nonce_range_def upt_rec)
  moreover have "fabric_scanned (demo_hw sched) = []" for sched
    by (simp add: fabric_scanned_def demo_hw_def reset_bus_def hw_inst_def reset_inst_def)
  ultimately show ?thesis
    using range_scanned_exactly_once[where hw = "demo_hw demo_schedule" and mid = "replicate 8 1" and hdr = "replicate 4 2"
      and tgt = "replicate 8 3" and s = "0xFFFFFFFD" and c = 7 and ops = "[Op_status, Op_read_result, Op_clear, Op_wait]",
      OF demo_hw_ok demo_idle _ _ _ refl refl] by (simp add: Let_def del: fold_simps mset_map)
qed

end
