(* ===== verification/Work_Flow.thy ===== *)
theory Work_Flow
  imports App Miner_Scan
begin

unbundle bit_operations_syntax

section \<open>The way of a job\<close>

text \<open>
  From the pool's line through the parser, the job builder, the service's queue and the worker to
  the registers of the fabric: the lemmas that join the components for the theorem of the root theory.
\<close>

text \<open>The calls of the pool client and the LEDs keep the register windows in order.\<close>

interpretation hw: panel_client "\<lambda>s. hw_ok (svc_hw s)"
  by (unfold_locales, goal_cases)
    (simp_all add: miner_service_submit_job_def miner_service_clear_def status_eq take_result_eq upd_stats_def driver_ok
      split_beta Let_def)

text \<open>They also leave a fabric at rest as it is.\<close>

definition svc_resting :: "(nat \<Rightarrow> scan_entry list) \<Rightarrow> miner_service \<Rightarrow> bool" where
  "svc_resting h s = every_inst (\<lambda>i m. inst_idle m \<and> scanned_q m = h i) (svc_hw s)"

interpretation rest: panel_client "svc_resting h" for h
  by (unfold_locales, goal_cases)
    (simp_all add: svc_resting_def miner_service_submit_job_def miner_service_clear_def status_eq take_result_eq upd_stats_def
      resting.clear resting.status split_beta Let_def)

lemma svc_restingI: "hw_ok (svc_hw s) \<Longrightarrow> fabric_idle (svc_hw s) \<Longrightarrow> svc_resting (\<lambda>i. scanned_q (hw_inst (svc_hw s) i)) s"
  by (simp add: svc_resting_def every_inst_def fabric_idle_def list_all_iff)

lemma resting_fabric:
  assumes "every_inst (\<lambda>i m. inst_idle m \<and> scanned_q m = h i) hw"
  shows "fabric_idle hw" "fabric_scanned hw = concat (map h [0..<MINER_AXI_INSTANCES])"
  using assms by (auto simp: every_inst_def fabric_idle_def fabric_scanned_def list_all_iff intro!: arg_cong[where f = concat])

definition session_ready :: "stratum_state \<Rightarrow> bool" where
  "session_ready st \<longleftrightarrow> st_have_target st \<and> st_subscribed st \<and> st_authorized st"

lemma dispatch_ready:
  assumes "pf_ok pf" "state_ok st" "session_ready st" "notify_fits n" "job_spec n st = Some j" "jobs_good (cl_svc c)"
  shows "\<exists>c'. dispatch_notify_work pf n b (st, c) =
      (True, st\<lparr>st_extranonce2_counter := st_extranonce2_counter st + 1\<rparr>, c') \<and>
    queue_items (g_job_queue (cl_svc c')) = [\<lparr>req_job = j, req_clean_job = b\<rparr>]"
proof -
  have "build_job (pf_ctx pf) (pf_hexbuf pf) n st = (Some j, st\<lparr>st_extranonce2_counter := st_extranonce2_counter st + 1\<rparr>)"
    using build_job_eq[of "pf_ctx pf" "pf_hexbuf pf" n st] assms
    by (simp add: pf_ok_def state_ok_def session_ready_def)
  moreover have "queue_items (g_job_queue (miner_service_submit_job (Some j) b (cl_svc c))) = [\<lparr>req_job = j, req_clean_job = b\<rparr>]"
    using assms(6) by (intro submit_queue) (simp_all add: jobs_good_def)
  ultimately show ?thesis by (simp add: dispatch_notify_work_def debug_ops Let_def)
qed

lemma notify_line:
  assumes "notify_fits n"
  shows "handle_stratum_line pf (print_notify n) (st, c) =
    Some (handle_notify pf (print_notify n) (st, stratum_debug_set_rx_line (print_notify n) (stratum_debug_inc rx_lines_update c)))"
  using parse_print_notify[OF assms] by (simp add: handle_stratum_line_def Let_def)

lemma try_dispatch_ready:
  assumes "pf_ok pf" "state_ok st" "session_ready st" "notify_fits n" "job_spec n st = Some j" "jobs_good (cl_svc c)"
    and "st_have_pending_notify st" "st_pending_notify st = n"
  shows "\<exists>st' c'. try_dispatch_pending_notify pf (st, c) = (st', c') \<and>
    st_current_notify st' = n \<and> st_have_current_notify st' \<and> \<not> st_have_pending_notify st' \<and>
    st_extranonce2_counter st' = st_extranonce2_counter st + 1 \<and>
    queue_items (g_job_queue (cl_svc c')) = [\<lparr>req_job = j, req_clean_job = n_clean_jobs n\<rparr>]"
proof -
  define c1 where "c1 = (if n_clean_jobs n then c\<lparr>cl_svc := miner_service_clear StratumTask (cl_svc c)\<rparr> else c)"
  have "jobs_good (cl_svc c1)" using assms(6) jobs.clear[OF assms(6)] by (simp add: c1_def)
  from dispatch_ready[OF assms(1-5) this, of "n_clean_jobs n"]
  show ?thesis using assms(7,8) unfolding c1_def by (auto simp: try_dispatch_pending_notify_def Let_def)
qed

lemma handle_notify_ready:
  assumes "pf_ok pf" "state_ok st" "session_ready st" "notify_fits n" "job_spec n st = Some j" "jobs_good (cl_svc c)"
  shows "\<exists>st' c'. handle_notify pf (print_notify n) (st, c) = (st', c') \<and>
    st_current_notify st' = n \<and> st_have_current_notify st' \<and> \<not> st_have_pending_notify st' \<and>
    st_extranonce2_counter st' = st_extranonce2_counter st + 1 \<and>
    queue_items (g_job_queue (cl_svc c')) = [\<lparr>req_job = j, req_clean_job = n_clean_jobs n\<rparr>]"
proof -
  define st1 where "st1 = st\<lparr>st_pending_notify := n, st_have_pending_notify := True\<rparr>"
  define c1 where "c1 = stratum_debug_set_event (''rx notify id='' @ n_job_id n @ '' branches='' @ format_lu (of_nat (length (n_merkle n))))
      (with_leds status_leds_toggle_job_received (stratum_debug_inc notify_count_update c))"
  have c1: "jobs_good (cl_svc c1)"
    using assms(6) unfolding c1_def by (intro jobs.lifted.effects jobs.lifted.panel_effects)
  have "job_spec n st1 = job_spec n st" unfolding st1_def by (cases st) (simp only: job_spec_def stratum_state.simps)
  then have st: "state_ok st1" "session_ready st1" "job_spec n st1 = Some j" "st_have_pending_notify st1"
    "st_pending_notify st1 = n" "st_extranonce2_counter st1 = st_extranonce2_counter st"
    using assms(2-5) by (simp_all add: st1_def state_ok_def session_ready_def)
  have "handle_notify pf (print_notify n) (st, c) = try_dispatch_pending_notify pf (st1, c1)"
    using parse_print_notify[OF assms(4)] by (simp add: handle_notify_def st1_def c1_def Let_def)
  then show ?thesis
    using try_dispatch_ready[OF assms(1) st(1,2) assms(4) st(3) c1 st(4,5)] st(6) by simp
qed

text \<open>The worker at its queue programs the queued job.\<close>

lemma queued_job_programmed:
  assumes "jobs_good s" "hw_ok (svc_hw s)" "queue_items (g_job_queue s) = [r]"
  shows "\<exists>hw. hw_ok hw \<and> hw \<in> {svc_hw s, snd (miner_status (svc_hw s))} \<and> svc_hw (miner_task_job s) =
      miner_start_range (job_nonce_start (req_job r)) (job_nonce_count (req_job r))
        (miner_program_job (job_midstate (req_job r)) (job_header_tail (req_job r)) (job_target (req_job r)) hw)"
    and "g_active_job (miner_task_job s) = req_job r"
proof -
  obtain q where q: "xQueueReceive (g_job_queue s) = (Some r, q)"
    using rq.receive_Cons[of "g_job_queue s" r "[]"] assms(1,3) by (auto simp: jobs_good_def prod_eq_iff)
  have e: "miner_task_job s = miner_task_begin (req_job r) (miner_task_settle r (s\<lparr>g_job_queue := q\<rparr>))"
    by (simp add: miner_task_job_def q)
  have "svc_hw (miner_task_settle r (s\<lparr>g_job_queue := q\<rparr>)) \<in> {svc_hw s, snd (miner_status (svc_hw s))}"
    using settle_frame(1)[of r "s\<lparr>g_job_queue := q\<rparr>"] by simp
  moreover from this have "hw_ok (svc_hw (miner_task_settle r (s\<lparr>g_job_queue := q\<rparr>)))"
    using assms(2) driver_ok by auto
  ultimately show "\<exists>hw. hw_ok hw \<and> hw \<in> {svc_hw s, snd (miner_status (svc_hw s))} \<and> svc_hw (miner_task_job s) =
      miner_start_range (job_nonce_start (req_job r)) (job_nonce_count (req_job r))
        (miner_program_job (job_midstate (req_job r)) (job_header_tail (req_job r)) (job_target (req_job r)) hw)"
    unfolding e begin_frame by blast
  show "g_active_job (miner_task_job s) = req_job r"
    by (simp add: e miner_task_begin_def upd_stats_def Let_def)
qed

text \<open>The registers hold a job; what the engines hash since \<open>before\<close> is the range of that job.\<close>

definition fabric_holds :: "miner_job \<Rightarrow> miner_hw \<Rightarrow> bool" where
  "fabric_holds j hw =
     list_all (\<lambda>i. midstate_q (hw_inst hw i) = job_midstate j \<and> header_tail_q (hw_inst hw i) = job_header_tail j \<and>
       target_q (hw_inst hw i) = job_target j) [0..<MINER_AXI_INSTANCES]"

definition fabric_scans :: "miner_job \<Rightarrow> miner_hw \<Rightarrow> miner_hw \<Rightarrow> bool" where
  "fabric_scans j before hw \<longleftrightarrow>
     mset (fabric_scanned hw) + mset (fabric_waiting hw) = mset (fabric_scanned before) +
       mset (map (\<lambda>n. (job_midstate j, job_header_tail j, job_target j, n)) (nonce_range (job_nonce_start j) (unat (job_nonce_count j)))) \<and>
     (\<not> fabric_running hw \<longrightarrow> fabric_waiting hw = [])"

lemma job_wf_lengths: "job_wf j \<Longrightarrow> length (job_midstate j) = 8" "job_wf j \<Longrightarrow> length (job_header_tail j) = 4"
  "job_wf j \<Longrightarrow> length (job_target j) = 8"
  by (simp_all add: job_wf_def job_ok_def)

lemma programmed_holds:
  assumes "hw_ok hw" "job_wf j"
  shows "fabric_holds j (miner_start_range (job_nonce_start j) (job_nonce_count j)
    (miner_program_job (job_midstate j) (job_header_tail j) (job_target j) hw))"
  using program_job_ok[OF assms(1)]
  by (simp add: fabric_holds_def list_all_iff start_range_keeps_job program_job_inst[OF assms(1) _ job_wf_lengths[OF assms(2)]])

lemma programmed_scans:
  assumes "hw_ok hw" "job_wf j" "fabric_idle hw" "fabric_scanned hw = fabric_scanned before"
  shows "fabric_scans j before (fold drive ops (miner_start_range (job_nonce_start j) (job_nonce_count j)
    (miner_program_job (job_midstate j) (job_header_tail j) (job_target j) hw)))"
  unfolding fabric_scans_def assms(4)[symmetric] share_scans_total[symmetric]
  using track_total[OF started_track[OF assms(1,3) job_wf_lengths[OF assms(2)]]] by blast

lemma notified_job:
  assumes "pf_ok pf" "state_ok st" "session_ready st" "notify_fits n" "job_spec n st = Some j"
    and "jobs_good (cl_svc c)" "hw_ok (svc_hw (cl_svc c))"
  shows "\<exists>st' c'. handle_stratum_line pf (print_notify n) (st, c) = Some (st', c') \<and>
    st_current_notify st' = n \<and> st_have_current_notify st' \<and> \<not> st_have_pending_notify st' \<and>
    st_extranonce2_counter st' = st_extranonce2_counter st + 1 \<and>
    (let s = snd (worker_step W_Queue (cl_svc c'))
     in g_active_job s = j \<and> fabric_holds j (svc_hw s) \<and>
        (fabric_idle (svc_hw (cl_svc c)) \<longrightarrow> (\<forall>ops. fabric_scans j (svc_hw (cl_svc c)) (fold drive ops (svc_hw s)))))"
proof -
  let ?c = "stratum_debug_set_rx_line (print_notify n) (stratum_debug_inc rx_lines_update c)"
  have "jobs_good (cl_svc ?c)" using assms(6) by (intro jobs.lifted.effects)
  from handle_notify_ready[OF assms(1-5) this] obtain st' c' where h:
    "handle_stratum_line pf (print_notify n) (st, c) = Some (st', c')"
    "st_current_notify st' = n" "st_have_current_notify st'" "\<not> st_have_pending_notify st'"
    "st_extranonce2_counter st' = st_extranonce2_counter st + 1"
    "queue_items (g_job_queue (cl_svc c')) = [\<lparr>req_job = j, req_clean_job = n_clean_jobs n\<rparr>]"
    unfolding notify_line[OF assms(4)] by auto
  have g: "jobs_good (cl_svc c')" by (rule jobs.lifted.handle_line_effect[OF assms(6,1,2) h(1)])
  have hw: "hw_ok (svc_hw (cl_svc c'))" by (rule hw.lifted.handle_line_effect[OF assms(7,1,2) h(1)])
  have wf: "job_wf j" using g h(6) by (simp add: jobs_good_def)
  obtain hw where p: "hw_ok hw" "hw \<in> {svc_hw (cl_svc c'), snd (miner_status (svc_hw (cl_svc c')))}"
    "svc_hw (miner_task_job (cl_svc c')) = miner_start_range (job_nonce_start j) (job_nonce_count j)
       (miner_program_job (job_midstate j) (job_header_tail j) (job_target j) hw)"
    using queued_job_programmed(1)[OF g hw h(6)] by auto
  have "fabric_scans j (svc_hw (cl_svc c)) (fold drive ops (svc_hw (miner_task_job (cl_svc c'))))"
    if "fabric_idle (svc_hw (cl_svc c))" for ops
  proof -
    let ?h = "\<lambda>i. scanned_q (hw_inst (svc_hw (cl_svc c)) i)"
    have r: "svc_resting ?h (cl_svc c)" by (rule svc_restingI[OF assms(7) that])
    have "svc_resting ?h (cl_svc c')" by (rule rest.lifted.handle_line_effect[OF r assms(1,2) h(1)])
    then have "every_inst (\<lambda>i m. inst_idle m \<and> scanned_q m = ?h i) hw" using p(2) resting.status by (auto simp: svc_resting_def)
    from resting_fabric[OF this] show ?thesis
      unfolding p(3) by (intro programmed_scans[OF p(1) wf]) (simp_all add: fabric_scanned_def)
  qed
  then show ?thesis
    using h(1-5) queued_job_programmed(2)[OF g hw h(6)] programmed_holds[OF p(1) wf] p(3) by (auto simp: Let_def)
qed

end
