(* ===== verification/Net_Buffers.thy ===== *)
theory Net_Buffers
  imports Prelude
begin

unbundle bit_operations_syntax

section \<open>Memory for the network\<close>

text \<open>
  Two allocators: the pool of DMA descriptors of \<^verbatim>\<open>netif_versal/uncached_memory.c\<close>, and the network
  buffers of the TCP stack, \<^verbatim>\<open>BufferAllocation_1.c\<close>, which the Ethernet driver takes from and gives back
  to. Buffers are named by their index in \<^verbatim>\<open>xNetworkBuffers\<close>; the free list is the list of their indices.
  An access outside an object is \<open>None\<close>.
\<close>

subsection \<open>Descriptor pool\<close>

record dma_pool =
  ucDmaDescriptorPool :: "u8 list"
  ulDmaDescriptorOffset :: u32
  ucPoolInitialised :: bool

definition uncMEMORY_SIZE :: u32 where "uncMEMORY_SIZE = 0x800"
definition uncALIGNMENT_SIZE :: u32 where "uncALIGNMENT_SIZE = 64"

text \<open>Pool addresses are relative to the object that the linker places; \<open>base\<close> is its address.\<close>

definition ucIsCachedMemory :: "u32 \<Rightarrow> u32 \<Rightarrow> bool" where
  "ucIsCachedMemory base pucBuffer = (\<not> (base \<le> pucBuffer \<and> pucBuffer < base + uncMEMORY_SIZE))"

definition aligned_size :: "u32 \<Rightarrow> u32" where
  "aligned_size ulSize = (ulSize + uncALIGNMENT_SIZE - 1) AND NOT (uncALIGNMENT_SIZE - 1)"

definition memset_zero :: "nat \<Rightarrow> nat \<Rightarrow> u8 list \<Rightarrow> u8 list option" where
  "memset_zero off n bytes =
     (if off + n \<le> length bytes then Some (memcpy_at off (replicate n 0) bytes) else None)"

text \<open>The result is the offset of the block in the pool; the inner \<open>None\<close> is the null pointer.\<close>

definition pucGetUncachedMemory :: "u32 \<Rightarrow> dma_pool \<Rightarrow> (u32 option \<times> dma_pool) option" where
  "pucGetUncachedMemory ulSize p =
     (let ulAlignedSize = aligned_size ulSize;
          p1 = p\<lparr>ucPoolInitialised := True\<rparr>
      in if ulDmaDescriptorOffset p1 + ulAlignedSize \<le> uncMEMORY_SIZE
         then map_option (\<lambda>bytes. (Some (ulDmaDescriptorOffset p1),
                  p1\<lparr>ucDmaDescriptorPool := bytes, ulDmaDescriptorOffset := ulDmaDescriptorOffset p1 + ulAlignedSize\<rparr>))
                (memset_zero (unat (ulDmaDescriptorOffset p1)) (unat ulAlignedSize) (ucDmaDescriptorPool p1))
         else Some (None, p1))"


subsection \<open>Network buffers\<close>

definition ipconfigNUM_NETWORK_BUFFER_DESCRIPTORS :: nat where "ipconfigNUM_NETWORK_BUFFER_DESCRIPTORS = 12"
definition niBUFFER_1_PACKET_SIZE :: nat where "niBUFFER_1_PACKET_SIZE = 1536"
definition ipBUFFER_PADDING :: nat where "ipBUFFER_PADDING = 8 + 2"

record net_buffers =
  xNetworkBufferSemaphore :: "nat option"
  xFreeBuffersList :: "nat list"
  uxMinimumFreeNetworkBuffers :: nat
  uxMaxNetworkInterfaceAllocatedSizeBytes :: nat
  xDataLength :: "nat \<Rightarrow> nat"

text \<open>Where the bytes of a buffer are, relative to the packet array.\<close>

definition pucEthernetBuffer :: "nat \<Rightarrow> nat" where
  "pucEthernetBuffer b = b * niBUFFER_1_PACKET_SIZE + ipBUFFER_PADDING"

definition uxNetworkInterfaceAllocateRAMToBuffers :: nat where
  "uxNetworkInterfaceAllocateRAMToBuffers = niBUFFER_1_PACKET_SIZE - ipBUFFER_PADDING"

text \<open>The items have equal values, so that \<open>vListInsert\<close> puts each behind the others.\<close>

definition xNetworkBuffersInitialise :: "net_buffers \<Rightarrow> bool \<times> net_buffers" where
  "xNetworkBuffersInitialise n =
     (case xNetworkBufferSemaphore n of
        Some _ \<Rightarrow> (True, n)
      | None \<Rightarrow>
          (True, n\<lparr>xNetworkBufferSemaphore := Some ipconfigNUM_NETWORK_BUFFER_DESCRIPTORS,
              xFreeBuffersList := fold (\<lambda>x l. l @ [x]) [0..<ipconfigNUM_NETWORK_BUFFER_DESCRIPTORS] [],
              uxMaxNetworkInterfaceAllocatedSizeBytes := uxNetworkInterfaceAllocateRAMToBuffers,
              uxMinimumFreeNetworkBuffers := ipconfigNUM_NETWORK_BUFFER_DESCRIPTORS\<rparr>))"

text \<open>Taking the head of an empty list would read behind the list end.\<close>

definition pxGetNetworkBufferWithDescriptor :: "nat \<Rightarrow> net_buffers \<Rightarrow> (nat option \<times> net_buffers) option" where
  "pxGetNetworkBufferWithDescriptor xRequestedSizeBytes n =
     (case xNetworkBufferSemaphore n of
        None \<Rightarrow> Some (None, n)
      | Some c \<Rightarrow>
          if xRequestedSizeBytes \<le> uxMaxNetworkInterfaceAllocatedSizeBytes n then
            if 0 < c then
              (case xFreeBuffersList n of
                 [] \<Rightarrow> None
               | b # rest \<Rightarrow>
                   Some (Some b, n\<lparr>xNetworkBufferSemaphore := Some (c - 1), xFreeBuffersList := rest,
                     uxMinimumFreeNetworkBuffers := min (uxMinimumFreeNetworkBuffers n) (length rest),
                     xDataLength := (xDataLength n)(b := xRequestedSizeBytes)\<rparr>))
            else Some (None, n)
          else Some (None, n))"

text \<open>Giving a semaphore that is at its maximum fails and changes nothing.\<close>

definition vReleaseNetworkBufferAndDescriptor :: "nat \<Rightarrow> net_buffers \<Rightarrow> net_buffers" where
  "vReleaseNetworkBufferAndDescriptor b n =
     (if b \<in> set (xFreeBuffersList n) then n
      else n\<lparr>xFreeBuffersList := xFreeBuffersList n @ [b],
             xNetworkBufferSemaphore := map_option (\<lambda>c. if c < ipconfigNUM_NETWORK_BUFFER_DESCRIPTORS then c + 1 else c)
               (xNetworkBufferSemaphore n)\<rparr>)"

definition uxGetMinimumFreeNetworkBuffers :: "net_buffers \<Rightarrow> nat" where
  "uxGetMinimumFreeNetworkBuffers n = uxMinimumFreeNetworkBuffers n"

definition uxGetNumberOfFreeNetworkBuffers :: "net_buffers \<Rightarrow> nat" where
  "uxGetNumberOfFreeNetworkBuffers n = length (xFreeBuffersList n)"

definition pxResizeNetworkBufferWithDescriptor :: "nat \<Rightarrow> nat \<Rightarrow> net_buffers \<Rightarrow> nat option \<times> net_buffers" where
  "pxResizeNetworkBufferWithDescriptor b xNewSizeBytes n =
     (if xNewSizeBytes \<le> uxMaxNetworkInterfaceAllocatedSizeBytes n
      then (Some b, n\<lparr>xDataLength := (xDataLength n)(b := xNewSizeBytes)\<rparr>) else (None, n))"


subsection \<open>Statements\<close>

text \<open>The blocks that a sequence of requests obtains, as offset and size; requests that fail give nothing.\<close>

fun pool_blocks :: "u32 list \<Rightarrow> dma_pool \<Rightarrow> ((nat \<times> nat) list \<times> dma_pool) option" where
  "pool_blocks [] p = Some ([], p)"
| "pool_blocks (sz # szs) p =
     (case pucGetUncachedMemory sz p of
        None \<Rightarrow> None
      | Some (r, p1) \<Rightarrow>
          (case pool_blocks szs p1 of
             None \<Rightarrow> None
           | Some (bs, p2) \<Rightarrow> Some ((case r of None \<Rightarrow> [] | Some off \<Rightarrow> [(unat off, unat (aligned_size sz))]) @ bs, p2)))"

definition fresh_pool :: dma_pool where
  "fresh_pool = \<lparr>ucDmaDescriptorPool = replicate 0x800 0, ulDmaDescriptorOffset = 0, ucPoolInitialised = False\<rparr>"

definition pool_ok :: "dma_pool \<Rightarrow> bool" where
  "pool_ok p \<longleftrightarrow> length (ucDmaDescriptorPool p) = 0x800 \<and> ulDmaDescriptorOffset p \<le> uncMEMORY_SIZE \<and>
     64 dvd unat (ulDmaDescriptorOffset p)"

text \<open>Blocks one behind the other, aligned, from \<open>lo\<close> to the end of the pool.\<close>

fun blocks_in_order :: "nat \<Rightarrow> (nat \<times> nat) list \<Rightarrow> bool" where
  "blocks_in_order lo [] = (lo \<le> 0x800)"
| "blocks_in_order lo ((off, sz) # bs) = (lo \<le> off \<and> 64 dvd off \<and> 64 dvd sz \<and> blocks_in_order (off + sz) bs)"

text \<open>The free list and its semaphore agree.\<close>

definition buffers_ok :: "net_buffers \<Rightarrow> bool" where
  "buffers_ok n \<longleftrightarrow> xNetworkBufferSemaphore n = Some (length (xFreeBuffersList n)) \<and> distinct (xFreeBuffersList n) \<and>
     set (xFreeBuffersList n) \<subseteq> {0..<ipconfigNUM_NETWORK_BUFFER_DESCRIPTORS}"


subsection \<open>The pool\<close>

lemma unat_aligned_size:
  assumes "sz \<le> 0x7fffffff"
  shows "unat (aligned_size sz) = (unat sz + 63) div 64 * 64"
proof -
  have "unat sz \<le> 0x7fffffff" using assms by (simp add: word_le_nat_alt)
  then have s: "unat (sz + 63) = unat sz + 63" by (subst unat_add_lem[THEN iffD1]) simp_all
  have "aligned_size sz = (sz + 63) AND NOT 63" by (simp add: aligned_size_def uncALIGNMENT_SIZE_def add.commute)
  then show ?thesis using s unat_and_not_mask[of 6 "sz + 63"] by (simp add: mask_numeral)
qed

lemma unat_offset_add:
  assumes "pool_ok p" "sz \<le> 0x7fffffff"
  shows "unat (ulDmaDescriptorOffset p + aligned_size sz) = unat (ulDmaDescriptorOffset p) + unat (aligned_size sz)"
proof -
  have "unat (ulDmaDescriptorOffset p) \<le> 0x800"
    using assms(1) by (simp add: pool_ok_def word_le_nat_alt uncMEMORY_SIZE_def)
  moreover have "unat sz \<le> 0x7fffffff" using assms(2) by (simp add: word_le_nat_alt)
  then have "unat (aligned_size sz) \<le> 0x80000040" by (simp add: unat_aligned_size[OF assms(2)])
  ultimately show ?thesis by (subst unat_add_lem[THEN iffD1]) simp_all
qed

text \<open>One request: refused and nothing is lost, or the next block, cleared.\<close>

lemma get_block:
  assumes "pool_ok p" "sz \<le> 0x7fffffff"
  shows "\<exists>r p'. pucGetUncachedMemory sz p = Some (r, p') \<and> pool_ok p' \<and>
    (case r of None \<Rightarrow> ulDmaDescriptorOffset p' = ulDmaDescriptorOffset p
     | Some off \<Rightarrow> off = ulDmaDescriptorOffset p \<and>
         unat (ulDmaDescriptorOffset p') = unat off + unat (aligned_size sz) \<and>
         take (unat (aligned_size sz)) (drop (unat off) (ucDmaDescriptorPool p')) = replicate (unat (aligned_size sz)) 0)"
proof (cases "ulDmaDescriptorOffset p + aligned_size sz \<le> uncMEMORY_SIZE")
  case True
  have sum: "unat (ulDmaDescriptorOffset p) + unat (aligned_size sz) \<le> 0x800"
    using True unat_offset_add[OF assms] by (simp add: word_le_nat_alt uncMEMORY_SIZE_def)
  have len: "length (ucDmaDescriptorPool p) = 0x800" "64 dvd unat (ulDmaDescriptorOffset p)"
    using assms(1) by (simp_all add: pool_ok_def)
  have "64 dvd unat (aligned_size sz)" by (simp add: unat_aligned_size[OF assms(2)])
  then have "64 dvd unat (ulDmaDescriptorOffset p + aligned_size sz)"
    using len(2) by (simp add: unat_offset_add[OF assms])
  then show ?thesis
    using True sum len unat_offset_add[OF assms]
    by (auto simp: pucGetUncachedMemory_def memset_zero_def pool_ok_def memcpy_at_def Let_def min_def)
next
  case False
  then show ?thesis using assms(1) by (simp add: pucGetUncachedMemory_def pool_ok_def Let_def)
qed

lemma blocks_in_order_weaken: "blocks_in_order hi bs \<Longrightarrow> lo \<le> hi \<Longrightarrow> blocks_in_order lo bs"
  by (cases bs) auto

lemma pool_blocks_ordered:
  assumes "pool_ok p" "list_all (\<lambda>sz. sz \<le> 0x7fffffff) szs"
  shows "\<exists>bs p'. pool_blocks szs p = Some (bs, p') \<and> blocks_in_order (unat (ulDmaDescriptorOffset p)) bs"
  using assms
proof (induction szs arbitrary: p)
  case Nil
  then show ?case by (simp add: pool_ok_def word_le_nat_alt uncMEMORY_SIZE_def)
next
  case (Cons sz szs)
  have sz: "sz \<le> 0x7fffffff" and szs: "list_all (\<lambda>sz. sz \<le> 0x7fffffff) szs" using Cons.prems(2) by simp_all
  obtain r p1 where g: "pucGetUncachedMemory sz p = Some (r, p1)" "pool_ok p1"
    "case r of None \<Rightarrow> ulDmaDescriptorOffset p1 = ulDmaDescriptorOffset p
     | Some off \<Rightarrow> off = ulDmaDescriptorOffset p \<and> unat (ulDmaDescriptorOffset p1) = unat off + unat (aligned_size sz)"
  proof -
    obtain r p1 where g: "pucGetUncachedMemory sz p = Some (r, p1)" "pool_ok p1"
      "case r of None \<Rightarrow> ulDmaDescriptorOffset p1 = ulDmaDescriptorOffset p
       | Some off \<Rightarrow> off = ulDmaDescriptorOffset p \<and> unat (ulDmaDescriptorOffset p1) = unat off + unat (aligned_size sz) \<and>
           take (unat (aligned_size sz)) (drop (unat off) (ucDmaDescriptorPool p1)) = replicate (unat (aligned_size sz)) 0"
      using get_block[OF Cons.prems(1) sz] by blast
    then show thesis by (cases r) (auto intro: that)
  qed
  obtain bs p2 where b: "pool_blocks szs p1 = Some (bs, p2)" "blocks_in_order (unat (ulDmaDescriptorOffset p1)) bs"
    using Cons.IH[OF g(2) szs] by blast
  have d: "64 dvd unat (aligned_size sz)" "64 dvd unat (ulDmaDescriptorOffset p)"
    using Cons.prems(1) by (simp_all add: unat_aligned_size[OF sz] pool_ok_def)
  show ?case
    using g(1,3) b d by (auto split: option.splits)
qed

text \<open>
  The descriptor pool never hands out overlapping memory: for any sequence of requests below 2 GB no access
  leaves the pool, and the blocks obtained lie one behind the other, aligned to cache lines, inside the pool.
\<close>

theorem pool_blocks_disjoint:
  assumes "list_all (\<lambda>sz. sz \<le> 0x7fffffff) szs"
  shows "\<exists>bs p. pool_blocks szs fresh_pool = Some (bs, p) \<and> blocks_in_order 0 bs"
  using pool_blocks_ordered[OF _ assms, of fresh_pool] by (simp add: pool_ok_def fresh_pool_def)

theorem pool_blocks_disjoint_witness:
  "\<exists>bs p. pool_blocks [64, 64, 8, 8] fresh_pool = Some (bs, p) \<and> blocks_in_order 0 bs"
  by (rule pool_blocks_disjoint) simp

text \<open>The sum in the test for room wraps around: a request close to 4 GB passes it and the memset leaves the pool.\<close>

lemma pool_request_wraps:
  "pucGetUncachedMemory 0xffffffc0 (fresh_pool\<lparr>ulDmaDescriptorOffset := 0x40\<rparr>) = None"
  by (simp add: pucGetUncachedMemory_def aligned_size_def uncALIGNMENT_SIZE_def uncMEMORY_SIZE_def fresh_pool_def
      memset_zero_def Let_def)


subsection \<open>The buffers\<close>

lemma initialise_ok:
  assumes "xNetworkBufferSemaphore n = None"
  shows "buffers_ok (snd (xNetworkBuffersInitialise n))"
    "xFreeBuffersList (snd (xNetworkBuffersInitialise n)) = [0..<ipconfigNUM_NETWORK_BUFFER_DESCRIPTORS]"
proof -
  have "fold (\<lambda>x l. l @ [x]) xs ys = ys @ xs" for xs ys :: "nat list" by (induction xs arbitrary: ys) simp_all
  then show "xFreeBuffersList (snd (xNetworkBuffersInitialise n)) = [0..<ipconfigNUM_NETWORK_BUFFER_DESCRIPTORS]"
    "buffers_ok (snd (xNetworkBuffersInitialise n))"
    using assms by (auto simp: xNetworkBuffersInitialise_def buffers_ok_def)
qed

text \<open>Getting a buffer: the head of the list, or nothing when there is none or it would be too small.\<close>

lemma get_buffer:
  assumes "buffers_ok n"
  shows "\<exists>r n'. pxGetNetworkBufferWithDescriptor sz n = Some (r, n') \<and> buffers_ok n' \<and>
    uxMaxNetworkInterfaceAllocatedSizeBytes n' = uxMaxNetworkInterfaceAllocatedSizeBytes n \<and>
    (case r of None \<Rightarrow> n' = n \<and> (xFreeBuffersList n = [] \<or> uxMaxNetworkInterfaceAllocatedSizeBytes n < sz)
     | Some b \<Rightarrow> xFreeBuffersList n = b # xFreeBuffersList n' \<and> xDataLength n' = (xDataLength n)(b := sz))"
proof (cases "xFreeBuffersList n")
  case Nil
  then show ?thesis using assms by (simp add: buffers_ok_def pxGetNetworkBufferWithDescriptor_def)
next
  case (Cons b rest)
  then show ?thesis using assms by (auto simp: buffers_ok_def pxGetNetworkBufferWithDescriptor_def)
qed

lemma release_buffer:
  assumes "buffers_ok n" "b < ipconfigNUM_NETWORK_BUFFER_DESCRIPTORS"
  shows "buffers_ok (vReleaseNetworkBufferAndDescriptor b n)"
    "xFreeBuffersList (vReleaseNetworkBufferAndDescriptor b n) =
      (if b \<in> set (xFreeBuffersList n) then xFreeBuffersList n else xFreeBuffersList n @ [b])"
    "xDataLength (vReleaseNetworkBufferAndDescriptor b n) = xDataLength n"
    "uxMaxNetworkInterfaceAllocatedSizeBytes (vReleaseNetworkBufferAndDescriptor b n) = uxMaxNetworkInterfaceAllocatedSizeBytes n"
proof -
  have "length (xFreeBuffersList n) < ipconfigNUM_NETWORK_BUFFER_DESCRIPTORS" if "b \<notin> set (xFreeBuffersList n)"
  proof -
    have "set (xFreeBuffersList n) \<subseteq> {0..<ipconfigNUM_NETWORK_BUFFER_DESCRIPTORS} - {b}" "distinct (xFreeBuffersList n)"
      using assms(1) that by (auto simp: buffers_ok_def)
    then have "length (xFreeBuffersList n) \<le> card ({0..<ipconfigNUM_NETWORK_BUFFER_DESCRIPTORS} - {b})"
      by (metis card_mono distinct_card finite_Diff finite_atLeastLessThan)
    then show ?thesis using assms(2) by simp
  qed
  then show "buffers_ok (vReleaseNetworkBufferAndDescriptor b n)"
    using assms by (auto simp: buffers_ok_def vReleaseNetworkBufferAndDescriptor_def)
qed (simp_all add: vReleaseNetworkBufferAndDescriptor_def)

end
