(* ===== verification/Emac_Dma.thy ===== *)
theory Emac_Dma
  imports Net_Buffers Rtos_Queue
begin

unbundle bit_operations_syntax

section \<open>The Ethernet DMA rings\<close>

text \<open>
  \<^verbatim>\<open>netif_versal/x_emacpsif_dma.c\<close>: frames to send and buffers for received frames are handed to the
  Ethernet controller through two rings of descriptors. The state is one interface (\<^verbatim>\<open>xemacpsif_s\<close> and
  the static arrays of the file); network buffers are those of \<^verbatim>\<open>Net_Buffers\<close>. The configuration is the
  one of the build: packets are passed to the IP task one by one, the driver does not filter beyond the
  frame type, no debug output.

  The bit masks of the controller come from the board support package and are the parameter \<open>gem\<close>. The
  controller itself is the environment: \<open>dma_transmit\<close> and \<open>dma_receive\<close> say what it does with a descriptor. It
  moves between the calls of the driver. \<open>em_stack\<close> lists the buffers the IP stack holds.
\<close>

subsection \<open>State\<close>

record gem_bits =
  tx_used :: u32
  tx_wrap :: u32
  tx_last :: u32
  tx_len :: u32
  rx_new :: u32
  rx_wrap :: u32
  rx_add :: u32
  rx_len :: u32
  nwctrl_starttx :: u32
  nwctrl_rxen :: u32
  nwctrl_txen :: u32
  dmacr_blength :: u32
  dmacr_incr16 :: u32
  dmacr_tcpcksum :: u32
  nwcfg_rxoffs :: u32
  nwcfg_rxchksumen :: u32

record xBD_TYPE =
  bd_address :: u32
  bd_flags :: u32

record emac =
  em_bufs :: net_buffers
  em_pool :: dma_pool
  rxSegments :: "xBD_TYPE list"
  txSegments :: "xBD_TYPE list"
  pxDMA_tx_buffers :: "nat option list"
  pxDMA_rx_buffers :: "nat option list"
  xTXDescriptorSemaphore :: "nat option"
  rxHead :: nat
  txHead :: nat
  txTail :: nat
  txBusy :: bool
  isr_events :: u32
  last_rx_frms_cntr :: u32
  rxBdTerminator :: "xBD_TYPE option"
  txBdTerminator :: "xBD_TYPE option"
  reg_nwctrl :: u32
  reg_dmacr :: u32
  reg_nwcfg :: u32
  em_memory :: "u32 \<Rightarrow> u8 list"
  em_stack :: "nat list"
  em_passed :: nat

text \<open>What else the driver meets: where the packet array is, and whether the IP task accepts the \<open>k\<close>-th event.\<close>

record emac_env =
  en_packets :: u32
  en_ip_accepts :: "nat \<Rightarrow> bool"

definition ipconfigNIC_N_TX_DESC :: nat where "ipconfigNIC_N_TX_DESC = 8"
definition ipconfigNIC_N_RX_DESC :: nat where "ipconfigNIC_N_RX_DESC = 8"
definition dmaRX_TX_BUFFER_SIZE :: nat where "dmaRX_TX_BUFFER_SIZE = 1536 - ipBUFFER_PADDING"
definition EMAC_IF_RX_EVENT :: u32 where "EMAC_IF_RX_EVENT = 1"
definition EMAC_IF_TX_EVENT :: u32 where "EMAC_IF_TX_EVENT = 2"
definition EMAC_IF_ERR_EVENT :: u32 where "EMAC_IF_ERR_EVENT = 4"
definition EMAC_IF_ALL_EVENT :: u32 where "EMAC_IF_ALL_EVENT = 7"

definition eth_address :: "emac_env \<Rightarrow> nat \<Rightarrow> u32" where
  "eth_address env b = en_packets env + of_nat (pucEthernetBuffer b)"

definition with_bufs :: "(net_buffers \<Rightarrow> net_buffers) \<Rightarrow> emac \<Rightarrow> emac" where
  "with_bufs f e = e\<lparr>em_bufs := f (em_bufs e)\<rparr>"


subsection \<open>Sending\<close>

definition is_tx_space_available :: "emac \<Rightarrow> nat" where
  "is_tx_space_available e =
     (case xTXDescriptorSemaphore e of Some c \<Rightarrow> ipconfigNIC_N_TX_DESC - c | None \<Rightarrow> 0)"

text \<open>The body of the loop of \<open>emacps_check_tx\<close> for the descriptor at the tail: its buffer is released.\<close>

definition check_tx_slot :: "gem_bits \<Rightarrow> emac \<Rightarrow> emac" where
  "check_tx_slot g e =
     (let tail = txTail e;
          e1 = (case pxDMA_tx_buffers e ! tail of
                  None \<Rightarrow> e
                | Some b \<Rightarrow> with_bufs (vReleaseNetworkBufferAndDescriptor b)
                             (e\<lparr>pxDMA_tx_buffers := (pxDMA_tx_buffers e)[tail := None]\<rparr>));
          flags = (if tail < ipconfigNIC_N_TX_DESC - 1 then tx_used g else tx_used g OR tx_wrap g);
          e2 = e1\<lparr>txSegments := (txSegments e1)[tail := (txSegments e1 ! tail)\<lparr>bd_flags := flags\<rparr>]\<rparr>;
          e3 = e2\<lparr>xTXDescriptorSemaphore := map_option (\<lambda>c. if c < ipconfigNIC_N_TX_DESC then c + 1 else c)
                 (xTXDescriptorSemaphore e2)\<rparr>
      in e3\<lparr>txTail := (if tail + 1 = ipconfigNIC_N_TX_DESC then 0 else tail + 1)\<rparr>)"

text \<open>The loop, with the local \<open>head\<close> and the count that is still in use.\<close>

fun check_tx_loop :: "gem_bits \<Rightarrow> nat \<Rightarrow> nat \<Rightarrow> emac \<Rightarrow> emac" where
  "check_tx_loop g head 0 e = e"
| "check_tx_loop g head (Suc n) e =
     (if bd_flags (txSegments e ! txTail e) AND tx_used g = 0 then e
      else if txTail e = head \<and> Suc n \<noteq> ipconfigNIC_N_TX_DESC then e
      else check_tx_loop g head n (check_tx_slot g e))"

text \<open>\<open>None\<close>: the semaphore does not exist yet.\<close>

definition emacps_check_tx :: "gem_bits \<Rightarrow> emac \<Rightarrow> emac option" where
  "emacps_check_tx g e =
     (case xTXDescriptorSemaphore e of
        None \<Rightarrow> None
      | Some c \<Rightarrow> Some (check_tx_loop g (txHead e) (ipconfigNIC_N_TX_DESC - c) e))"

text \<open>The handlers are called in an interrupt; the notification of the task is not represented.\<close>

definition emacps_send_handler :: "emac \<Rightarrow> emac" where
  "emacps_send_handler e = e\<lparr>isr_events := isr_events e OR EMAC_IF_TX_EVENT, txBusy := False\<rparr>"

text \<open>An ARP packet has 42 bytes.\<close>

definition xValidLength :: "nat \<Rightarrow> bool" where
  "xValidLength xLength \<longleftrightarrow> 42 \<le> xLength \<and> xLength \<le> dmaRX_TX_BUFFER_SIZE"

definition tx_flags :: "gem_bits \<Rightarrow> nat \<Rightarrow> nat \<Rightarrow> u32" where
  "tx_flags g head len =
     tx_last g OR (of_nat len AND tx_len g) OR (if head = ipconfigNIC_N_TX_DESC - 1 then tx_wrap g else 0)"

text \<open>The wait for the semaphore is one attempt. The result says whether the frame was handed to the DMA.\<close>

definition emacps_send_message :: "gem_bits \<Rightarrow> emac_env \<Rightarrow> nat \<Rightarrow> emac \<Rightarrow> bool \<times> emac" where
  "emacps_send_message g env b e =
     (let refused = (False, with_bufs (vReleaseNetworkBufferAndDescriptor b) e)
      in if \<not> xValidLength (xDataLength (em_bufs e) b) then refused
         else case xTXDescriptorSemaphore e of
             None \<Rightarrow> refused
           | Some c \<Rightarrow>
               if c = 0 then refused
               else
                 let head = txHead e;
                     e1 = e\<lparr>xTXDescriptorSemaphore := Some (c - 1),
                            pxDMA_tx_buffers := (pxDMA_tx_buffers e)[head := Some b],
                            txSegments := (txSegments e)[head :=
                              \<lparr>bd_address = eth_address env b,
                               bd_flags = tx_flags g head (xDataLength (em_bufs e) b)\<rparr>],
                            txHead := (if head + 1 = ipconfigNIC_N_TX_DESC then 0 else head + 1)\<rparr>
                 in (True, e1\<lparr>txBusy := True, reg_nwctrl := reg_nwctrl e1 OR nwctrl_starttx g\<rparr>))"


subsection \<open>Receiving\<close>

definition emacps_recv_handler :: "emac \<Rightarrow> emac" where
  "emacps_recv_handler e = e\<lparr>isr_events := isr_events e OR EMAC_IF_RX_EVENT\<rparr>"

definition prvPassEthMessages :: "emac_env \<Rightarrow> nat \<Rightarrow> emac \<Rightarrow> emac" where
  "prvPassEthMessages env b e =
     (let e1 = e\<lparr>em_passed := em_passed e + 1\<rparr>
      in if en_ip_accepts env (em_passed e) then e1\<lparr>em_stack := em_stack e1 @ [b]\<rparr>
         else with_bufs (vReleaseNetworkBufferAndDescriptor b) e1)"

text \<open>The frame type field of the Ethernet header: ARP, IPv6 and IPv4 are accepted.\<close>

definition xMayAcceptPacket :: "u8 list \<Rightarrow> bool" where
  "xMayAcceptPacket frame \<longleftrightarrow>
     (frame ! 12 = 0x08 \<and> frame ! 13 = 0x06) \<or> (frame ! 12 = 0x86 \<and> frame ! 13 = 0xDD) \<or>
     (frame ! 12 = 0x08 \<and> frame ! 13 = 0x00)"

definition resetrx_on_no_rxdata :: "gem_bits \<Rightarrow> u32 \<Rightarrow> emac \<Rightarrow> emac" where
  "resetrx_on_no_rxdata g tempcntr e =
     (let e1 = (if tempcntr = 0 \<and> last_rx_frms_cntr e = 0
                then let off = e\<lparr>reg_nwctrl := reg_nwctrl e AND NOT (nwctrl_rxen g)\<rparr>
                     in off\<lparr>reg_nwctrl := reg_nwctrl off OR nwctrl_rxen g\<rparr>
                else e)
      in e1\<lparr>last_rx_frms_cntr := tempcntr\<rparr>)"

definition rx_address :: "gem_bits \<Rightarrow> emac_env \<Rightarrow> nat \<Rightarrow> nat \<Rightarrow> u32" where
  "rx_address g env head b =
     (eth_address env b AND rx_add g) OR (if head = ipconfigNIC_N_RX_DESC - 1 then rx_wrap g else 0)"

text \<open>One round of the receive loop: \<open>None\<close>, nothing more to do; otherwise whether a message was passed on.\<close>

definition check_rx_step :: "gem_bits \<Rightarrow> emac_env \<Rightarrow> emac \<Rightarrow> (bool \<times> emac) option option" where
  "check_rx_step g env e =
     (let head = rxHead e; seg = rxSegments e ! head
      in if bd_address seg AND rx_new g = 0 then Some None
         else case pxDMA_rx_buffers e ! head of
             None \<Rightarrow> Some None
           | Some b \<Rightarrow>
               let rx_bytes = unat (bd_flags seg AND rx_len g);
                   xAccepted = xMayAcceptPacket (em_memory e (eth_address env b))
               in case (if xAccepted then pxGetNetworkBufferWithDescriptor dmaRX_TX_BUFFER_SIZE (em_bufs e)
                        else Some (None, em_bufs e)) of
                    None \<Rightarrow> None
                  | Some (pxNewBuffer, bufs) \<Rightarrow>
                      let e1 = e\<lparr>em_bufs := bufs\<rparr>;
                          (kept, e2) =
                            (case pxNewBuffer of
                               None \<Rightarrow> (b, e1)
                             | Some nb \<Rightarrow>
                                 (nb, prvPassEthMessages env b
                                        (with_bufs (\<lambda>n. n\<lparr>xDataLength := (xDataLength n)(b := rx_bytes)\<rparr>)
                                          (e1\<lparr>pxDMA_rx_buffers := (pxDMA_rx_buffers e1)[head := Some nb]\<rparr>))));
                          e3 = e2\<lparr>rxSegments := (rxSegments e2)[head :=
                                 \<lparr>bd_address = rx_address g env head kept, bd_flags = 0\<rparr>]\<rparr>
                      in Some (Some (pxNewBuffer \<noteq> None,
                           e3\<lparr>rxHead := (if head + 1 = ipconfigNIC_N_RX_DESC then 0 else head + 1)\<rparr>)))"

text \<open>The loop with a bound on its rounds; \<open>None\<close>: the bound was reached, or an undefined access.\<close>

fun check_rx_loop :: "gem_bits \<Rightarrow> emac_env \<Rightarrow> nat \<Rightarrow> nat \<Rightarrow> emac \<Rightarrow> (nat \<times> emac) option" where
  "check_rx_loop g env 0 msgCount e = None"
| "check_rx_loop g env (Suc n) msgCount e =
     (case check_rx_step g env e of
        None \<Rightarrow> None
      | Some None \<Rightarrow> Some (msgCount, e)
      | Some (Some (passed, e1)) \<Rightarrow> check_rx_loop g env n (if passed then msgCount + 1 else msgCount) e1)"

definition emacps_check_rx :: "gem_bits \<Rightarrow> emac_env \<Rightarrow> u32 \<Rightarrow> emac \<Rightarrow> (nat \<times> emac) option" where
  "emacps_check_rx g env rxcnt e =
     check_rx_loop g env (ipconfigNIC_N_RX_DESC + 1) 0 (resetrx_on_no_rxdata g rxcnt e)"


subsection \<open>Setting up\<close>

definition clean_dma_txdescs :: "gem_bits \<Rightarrow> emac \<Rightarrow> emac" where
  "clean_dma_txdescs g e =
     (let e1 = e\<lparr>txSegments := replicate ipconfigNIC_N_TX_DESC \<lparr>bd_address = 0, bd_flags = tx_used g\<rparr>,
                 pxDMA_tx_buffers := replicate ipconfigNIC_N_TX_DESC None\<rparr>;
          final = ipconfigNIC_N_TX_DESC - 1
      in e1\<lparr>txSegments := (txSegments e1)[final := (txSegments e1 ! final)\<lparr>bd_flags := tx_used g OR tx_wrap g\<rparr>]\<rparr>)"

text \<open>
  The ring functions of the vendor driver are represented by the statuses they return; they give the descriptor of
  the next slot. A failed assertion stops the program: \<open>None\<close>. The descriptor arrays are blocks of the pool, cleared.
\<close>

record ring_status =
  st_create :: int
  st_clone :: int
  st_alloc :: "nat \<Rightarrow> int"
  st_to_hw :: "nat \<Rightarrow> int"

definition sizeof_xBD_TYPE :: u32 where "sizeof_xBD_TYPE = 8"

definition cleared_segments :: "nat \<Rightarrow> xBD_TYPE list" where
  "cleared_segments n = replicate n \<lparr>bd_address = 0, bd_flags = 0\<rparr>"

definition alloc_segments :: "emac \<Rightarrow> emac option" where
  "alloc_segments e =
     (case pucGetUncachedMemory (of_nat ipconfigNIC_N_RX_DESC * sizeof_xBD_TYPE) (em_pool e) of
        None \<Rightarrow> None
      | Some (rx, p1) \<Rightarrow>
          (case pucGetUncachedMemory (of_nat ipconfigNIC_N_TX_DESC * sizeof_xBD_TYPE) p1 of
             None \<Rightarrow> None
           | Some (tx, p2) \<Rightarrow>
               if rx = None \<or> tx = None then None
               else Some (e\<lparr>em_pool := p2, rxSegments := cleared_segments ipconfigNIC_N_RX_DESC,
                            txSegments := cleared_segments ipconfigNIC_N_TX_DESC\<rparr>)))"

text \<open>The receive descriptors, one at a time; a slot keeps the buffer it has.\<close>

fun init_rx_slots :: "gem_bits \<Rightarrow> emac_env \<Rightarrow> ring_status \<Rightarrow> nat list \<Rightarrow> emac \<Rightarrow> (int \<times> emac) option" where
  "init_rx_slots g env st [] e = Some (0, e)"
| "init_rx_slots g env st (i # is) e =
     (case (case pxDMA_rx_buffers e ! i of
              Some b \<Rightarrow> Some (Some b, em_bufs e)
            | None \<Rightarrow> pxGetNetworkBufferWithDescriptor dmaRX_TX_BUFFER_SIZE (em_bufs e)) of
        None \<Rightarrow> None
      | Some (None, bufs) \<Rightarrow> Some (-1, e\<lparr>em_bufs := bufs\<rparr>)
      | Some (Some b, bufs) \<Rightarrow>
          let e1 = e\<lparr>em_bufs := bufs\<rparr>
          in if st_alloc st i \<noteq> 0 then Some (st_alloc st i, e1)
             else
               let e2 = e1\<lparr>rxSegments := (rxSegments e1)[i := \<lparr>bd_address = eth_address env b AND rx_add g, bd_flags = 0\<rparr>]\<rparr>
               in if st_to_hw st i \<noteq> 0 then Some (st_to_hw st i, e2)
                  else init_rx_slots g env st is (e2\<lparr>pxDMA_rx_buffers := (pxDMA_rx_buffers e2)[i := Some b]\<rparr>))"

definition init_gem_registers :: "gem_bits \<Rightarrow> emac \<Rightarrow> emac" where
  "init_gem_registers g e =
     e\<lparr>reg_dmacr := ((reg_dmacr e AND NOT (dmacr_blength g)) OR dmacr_incr16 g) OR dmacr_tcpcksum g,
       reg_nwcfg := ((reg_nwcfg e AND NOT (nwcfg_rxoffs g)) OR 0x8000) OR nwcfg_rxchksumen g\<rparr>"

text \<open>The terminators are used without a test for the null pointer.\<close>

definition init_terminators :: "gem_bits \<Rightarrow> emac \<Rightarrow> emac option" where
  "init_terminators g e =
     (case pucGetUncachedMemory sizeof_xBD_TYPE (em_pool e) of
        Some (Some rx, p1) \<Rightarrow>
          (case pucGetUncachedMemory sizeof_xBD_TYPE p1 of
             Some (Some tx, p2) \<Rightarrow>
               Some (e\<lparr>em_pool := p2,
                       rxBdTerminator := Some \<lparr>bd_address = rx_new g OR rx_wrap g, bd_flags = 0\<rparr>,
                       txBdTerminator := Some \<lparr>bd_address = 0, bd_flags = tx_used g OR tx_wrap g\<rparr>\<rparr>)
           | _ \<Rightarrow> None)
      | _ \<Rightarrow> None)"

definition create_tx_semaphore :: "emac \<Rightarrow> emac" where
  "create_tx_semaphore e =
     (case xTXDescriptorSemaphore e of
        None \<Rightarrow> e\<lparr>xTXDescriptorSemaphore := Some ipconfigNIC_N_TX_DESC\<rparr>
      | Some _ \<Rightarrow> e)"

definition set_rx_wrap :: "gem_bits \<Rightarrow> emac \<Rightarrow> emac" where
  "set_rx_wrap g e =
     (let final = ipconfigNIC_N_RX_DESC - 1; seg = rxSegments e ! final
      in e\<lparr>rxSegments := (rxSegments e)[final := seg\<lparr>bd_address := bd_address seg OR rx_wrap g\<rparr>]\<rparr>)"

definition init_dma :: "gem_bits \<Rightarrow> emac_env \<Rightarrow> ring_status \<Rightarrow> emac \<Rightarrow> (int \<times> emac) option" where
  "init_dma g env st e =
     (case alloc_segments e of
        None \<Rightarrow> None
      | Some e1 \<Rightarrow>
          if st_create st \<noteq> 0 then Some (st_create st, e1)
          else if st_clone st \<noteq> 0 then Some (st_clone st, e1)
          else case init_rx_slots g env st [0..<ipconfigNIC_N_RX_DESC] (create_tx_semaphore e1) of
              None \<Rightarrow> None
            | Some (status, e2) \<Rightarrow>
                if status \<noteq> 0 then Some (status, e2)
                else map_option (Pair 0)
                       (init_terminators g (init_gem_registers g (clean_dma_txdescs g (set_rx_wrap g e2)))))"

end
