(* ===== verification/Emac_Rings.thy ===== *)
theory Emac_Rings
  imports Emac_Dma "HOL-Library.Multiset" "HOL-Library.Sublist"
begin

unbundle bit_operations_syntax

section \<open>The driver, the controller and the stack\<close>

text \<open>
  The driver of \<^verbatim>\<open>Emac_Dma\<close> in its environment. The Ethernet controller walks the two rings by itself
  and the IP stack holds the buffers that are neither free nor in a ring; both move between any two operations of
  the driver, and between two rounds of the receive loop. The statements follow every frame through the rings and
  every buffer through its owners.

  The controller is what its documentation says: it sends the frame of its next transmit descriptor when the used
  bit is clear and sets the bit; it stores an arriving frame behind the address of its next receive descriptor when
  the new bit is clear and sets the bit; it goes on behind the descriptor, or at the start after one that wraps.
\<close>

subsection \<open>Environment\<close>

definition gem_ok :: "gem_bits \<Rightarrow> bool" where
  "gem_ok g \<longleftrightarrow> tx_used g = 0x80000000 \<and> tx_wrap g = 0x40000000 \<and> tx_last g = 0x8000 \<and> tx_len g = 0x3FFF \<and>
     rx_new g = 1 \<and> rx_wrap g = 2 \<and> rx_add g = 0xFFFFFFFC \<and> rx_len g = 0x1FFF"

text \<open>The packet array is aligned to cache lines.\<close>

definition env_ok :: "emac_env \<Rightarrow> bool" where "env_ok env \<longleftrightarrow> 64 dvd unat (en_packets env)"

record nic =
  nic_drv :: emac
  hw_tx :: nat
  hw_rx :: nat
  nic_sent :: "u8 list list"
  nic_wire :: "u8 list list"
  nic_arrived :: "u8 list list"
  nic_taken :: "u8 list list"

definition dma_transmit :: "gem_bits \<Rightarrow> nic \<Rightarrow> nic" where
  "dma_transmit g s =
     (let e = nic_drv s; seg = txSegments e ! hw_tx s
      in if bd_flags seg AND tx_used g = 0
         then s\<lparr>nic_drv := e\<lparr>txSegments := (txSegments e)[hw_tx s := seg\<lparr>bd_flags := bd_flags seg OR tx_used g\<rparr>]\<rparr>,
                hw_tx := (if bd_flags seg AND tx_wrap g = 0 then hw_tx s + 1 else 0),
                nic_wire := nic_wire s @ [take (unat (bd_flags seg AND tx_len g)) (em_memory e (bd_address seg))]\<rparr>
         else s)"

text \<open>\<open>sof\<close> stands for the status bits beside the length. A frame that finds no descriptor is lost.\<close>

definition dma_receive :: "gem_bits \<Rightarrow> u32 \<Rightarrow> u8 list \<Rightarrow> nic \<Rightarrow> nic" where
  "dma_receive g sof frame s =
     (let e = nic_drv s; seg = rxSegments e ! hw_rx s; a = (bd_address seg AND rx_add g) + 2
      in if bd_address seg AND rx_new g = 0
         then s\<lparr>nic_drv := e\<lparr>em_memory := (em_memory e)(a := frame @ drop (length frame) (em_memory e a)),
                  rxSegments := (rxSegments e)[hw_rx s :=
                    \<lparr>bd_address = bd_address seg OR rx_new g, bd_flags = sof OR of_nat (length frame)\<rparr>]\<rparr>,
                hw_rx := (if bd_address seg AND rx_wrap g = 0 then hw_rx s + 1 else 0),
                nic_arrived := nic_arrived s @ [frame]\<rparr>
         else s)"

text \<open>The IP stack: it gets and releases buffers, fills those it holds, and hands them to the driver.\<close>

definition stack_get :: "nat \<Rightarrow> emac \<Rightarrow> emac" where
  "stack_get n e =
     (case pxGetNetworkBufferWithDescriptor n (em_bufs e) of
        Some (Some b, bufs) \<Rightarrow> e\<lparr>em_bufs := bufs, em_stack := em_stack e @ [b]\<rparr>
      | _ \<Rightarrow> e)"

definition stack_release :: "nat \<Rightarrow> emac \<Rightarrow> emac" where
  "stack_release b e = with_bufs (vReleaseNetworkBufferAndDescriptor b) (e\<lparr>em_stack := remove1 b (em_stack e)\<rparr>)"

definition stack_write :: "emac_env \<Rightarrow> nat \<Rightarrow> u8 list \<Rightarrow> nat \<Rightarrow> emac \<Rightarrow> emac" where
  "stack_write env b bytes n e =
     with_bufs (\<lambda>m. m\<lparr>xDataLength := (xDataLength m)(b := n)\<rparr>)
       (e\<lparr>em_memory := (em_memory e)(eth_address env b := bytes)\<rparr>)"

definition stack_frame :: "emac_env \<Rightarrow> nat \<Rightarrow> emac \<Rightarrow> u8 list" where
  "stack_frame env b e = take (xDataLength (em_bufs e) b) (em_memory e (eth_address env b))"

definition stack_send :: "gem_bits \<Rightarrow> emac_env \<Rightarrow> nat \<Rightarrow> nic \<Rightarrow> nic" where
  "stack_send g env b s =
     (let e = nic_drv s; (accepted, e1) = emacps_send_message g env b (e\<lparr>em_stack := remove1 b (em_stack e)\<rparr>)
      in s\<lparr>nic_drv := e1, nic_sent := nic_sent s @ (if accepted then [stack_frame env b e] else [])\<rparr>)"

text \<open>The frame in a slot of a ring. A round of the receive loop takes that of the slot at the head.\<close>

definition tx_frame :: "gem_bits \<Rightarrow> emac \<Rightarrow> nat \<Rightarrow> u8 list" where
  "tx_frame g e i = take (unat (bd_flags (txSegments e ! i) AND tx_len g)) (em_memory e (bd_address (txSegments e ! i)))"

definition rx_frame :: "gem_bits \<Rightarrow> emac_env \<Rightarrow> emac \<Rightarrow> nat \<Rightarrow> u8 list" where
  "rx_frame g env e i =
     (case pxDMA_rx_buffers e ! i of
        None \<Rightarrow> []
      | Some b \<Rightarrow> take (unat (bd_flags (rxSegments e ! i) AND rx_len g)) (em_memory e (eth_address env b)))"

text \<open>
  The steps of the traffic. The handling of a transmit error (\<open>HandleTxErrors\<close>) is not among them: it resets the transmit ring and
  leaves the buffers of the frames in it without an owner, see \<open>tx_error_leaks\<close>.
\<close>

inductive nic_step :: "gem_bits \<Rightarrow> emac_env \<Rightarrow> nic \<Rightarrow> nic \<Rightarrow> bool" for g env where
  hw_transmits: "nic_step g env s (dma_transmit g s)"
| hw_receives: "14 \<le> length frame \<Longrightarrow> length frame \<le> 1518 \<Longrightarrow> sof AND rx_len g = 0 \<Longrightarrow>
    nic_step g env s (dma_receive g sof frame s)"
| gets: "nic_step g env s (s\<lparr>nic_drv := stack_get n (nic_drv s)\<rparr>)"
| releases: "b \<in> set (em_stack (nic_drv s)) \<Longrightarrow> nic_step g env s (s\<lparr>nic_drv := stack_release b (nic_drv s)\<rparr>)"
| writes: "b \<in> set (em_stack (nic_drv s)) \<Longrightarrow>
    nic_step g env s (s\<lparr>nic_drv := stack_write env b bytes n (nic_drv s)\<rparr>)"
| sends: "b \<in> set (em_stack (nic_drv s)) \<Longrightarrow> nic_step g env s (stack_send g env b s)"
| cleans: "emacps_check_tx g (nic_drv s) = Some e \<Longrightarrow> nic_step g env s (s\<lparr>nic_drv := e\<rparr>)"
| takes: "check_rx_step g env (nic_drv s) = Some (Some (passed, e)) \<Longrightarrow>
    nic_step g env s (s\<lparr>nic_drv := e, nic_taken := nic_taken s @ [rx_frame g env (nic_drv s) (rxHead (nic_drv s))]\<rparr>)"
| resets: "nic_step g env s (s\<lparr>nic_drv := resetrx_on_no_rxdata g n (nic_drv s)\<rparr>)"
| tx_interrupt: "nic_step g env s (s\<lparr>nic_drv := emacps_send_handler (nic_drv s)\<rparr>)"
| rx_interrupt: "nic_step g env s (s\<lparr>nic_drv := emacps_recv_handler (nic_drv s)\<rparr>)"
| events: "nic_step g env s (s\<lparr>nic_drv := (nic_drv s)\<lparr>isr_events := w\<rparr>\<rparr>)"

inductive_cases nic_stepE: "nic_step g env s t"

text \<open>Nothing has happened but \<open>init_dma\<close>.\<close>

definition nic_start :: "emac \<Rightarrow> nic" where
  "nic_start e = \<lparr>nic_drv = e, hw_tx = 0, hw_rx = 0, nic_sent = [], nic_wire = [], nic_arrived = [], nic_taken = []\<rparr>"

definition emac_boot :: emac where
  "emac_boot = \<lparr>em_bufs = snd (xNetworkBuffersInitialise \<lparr>xNetworkBufferSemaphore = None, xFreeBuffersList = [],
        uxMinimumFreeNetworkBuffers = 0, uxMaxNetworkInterfaceAllocatedSizeBytes = 0, xDataLength = (\<lambda>_. 0)\<rparr>),
      em_pool = fresh_pool, rxSegments = [], txSegments = [], pxDMA_tx_buffers = replicate 8 None,
      pxDMA_rx_buffers = replicate 8 None, xTXDescriptorSemaphore = None, rxHead = 0, txHead = 0, txTail = 0,
      txBusy = False, isr_events = 0, last_rx_frms_cntr = 0, rxBdTerminator = None, txBdTerminator = None,
      reg_nwctrl = 0, reg_dmacr = 0, reg_nwcfg = 0, em_memory = (\<lambda>_. replicate dmaRX_TX_BUFFER_SIZE 0),
      em_stack = [], em_passed = 0\<rparr>"

definition ring_success :: ring_status where
  "ring_success = \<lparr>st_create = 0, st_clone = 0, st_alloc = (\<lambda>_. 0), st_to_hw = (\<lambda>_. 0)\<rparr>"

inductive nic_reachable :: "gem_bits \<Rightarrow> emac_env \<Rightarrow> nic \<Rightarrow> bool" for g env where
  start: "init_dma g env ring_success emac_boot = Some (0, e) \<Longrightarrow> nic_reachable g env (nic_start e)"
| step: "nic_reachable g env s \<Longrightarrow> nic_step g env s t \<Longrightarrow> nic_reachable g env t"


subsection \<open>Owners\<close>

fun held :: "'a option list \<Rightarrow> 'a list" where
  "held [] = []"
| "held (None # xs) = held xs"
| "held (Some b # xs) = b # held xs"

definition owners :: "emac \<Rightarrow> nat list" where
  "owners e = xFreeBuffersList (em_bufs e) @ held (pxDMA_tx_buffers e) @ held (pxDMA_rx_buffers e) @ em_stack e"

text \<open>\<open>bs\<close> are buffers in the hands of an operation that is under way.\<close>

definition owners_with :: "nat list \<Rightarrow> emac \<Rightarrow> bool" where
  "owners_with bs e \<longleftrightarrow> mset (bs @ owners e) = mset [0..<ipconfigNUM_NETWORK_BUFFER_DESCRIPTORS] \<and> buffers_ok (em_bufs e) \<and>
     uxMaxNetworkInterfaceAllocatedSizeBytes (em_bufs e) = dmaRX_TX_BUFFER_SIZE \<and>
     length (pxDMA_tx_buffers e) = 8 \<and> length (pxDMA_rx_buffers e) = 8"

definition owners_ok :: "emac \<Rightarrow> bool" where "owners_ok e \<longleftrightarrow> owners_with [] e"

lemma set_held: "b \<in> set (held xs) \<longleftrightarrow> Some b \<in> set xs"
  by (induction xs rule: held.induct) auto

lemma held_replicate_None [simp]: "held (replicate n None) = []"
  by (induction n) simp_all

lemma held_clear: "i < length xs \<Longrightarrow> xs ! i = Some b \<Longrightarrow> mset (held xs) = add_mset b (mset (held (xs[i := None])))"
proof (induction xs arbitrary: i rule: held.induct)
  case (2 xs) then show ?case by (cases i) simp_all
next
  case (3 c xs) then show ?case by (cases i) simp_all
qed simp

lemma held_fill: "i < length xs \<Longrightarrow> xs ! i = None \<Longrightarrow> mset (held (xs[i := Some b])) = add_mset b (mset (held xs))"
  using held_clear[of i "xs[i := Some b]" b] by simp (metis list_update_id)

lemma held_swap:
  "i < length xs \<Longrightarrow> xs ! i = Some a \<Longrightarrow> add_mset a (mset (held (xs[i := Some b]))) = add_mset b (mset (held xs))"
  using held_clear[of i xs a] held_clear[of i "xs[i := Some b]" b] by simp

lemma owners_with_distinct:
  assumes "owners_with bs e"
  shows "distinct (bs @ owners e)" "set (bs @ owners e) = {0..<12}"
proof -
  have "mset (bs @ owners e) = mset [0..<12]"
    using assms by (simp add: owners_with_def ipconfigNUM_NETWORK_BUFFER_DESCRIPTORS_def)
  then show "distinct (bs @ owners e)" "set (bs @ owners e) = {0..<12}"
    by (metis distinct_upt mset_eq_imp_distinct_iff, metis mset_eq_setD set_upt)
qed

text \<open>What holds of the owner of a buffer: it is no other owner's.\<close>

lemma owner_facts:
  assumes "owners_ok e"
  shows "Some b \<in> set (pxDMA_tx_buffers e) \<Longrightarrow> b \<notin> set (em_stack e) \<and> Some b \<notin> set (pxDMA_rx_buffers e)"
    "Some b \<in> set (pxDMA_rx_buffers e) \<Longrightarrow> b \<notin> set (em_stack e)"
    "Some b \<in> set (pxDMA_tx_buffers e) \<Longrightarrow> b < 12" "Some b \<in> set (pxDMA_rx_buffers e) \<Longrightarrow> b < 12"
    "b \<in> set (em_stack e) \<Longrightarrow> b < 12" "distinct (held (pxDMA_rx_buffers e))"
  using owners_with_distinct[of "[]" e] assms by (auto simp: owners_def owners_ok_def set_held)

text \<open>Taking a buffer from an owner, and giving it to one.\<close>

lemma owners_same:
  assumes "owners_with bs e" "em_bufs e' = em_bufs e" "pxDMA_tx_buffers e' = pxDMA_tx_buffers e"
    "pxDMA_rx_buffers e' = pxDMA_rx_buffers e" "em_stack e' = em_stack e"
  shows "owners_with bs e'"
  using assms by (simp add: owners_with_def owners_def)

lemma owners_length:
  "owners_with bs e \<Longrightarrow> owners_with bs (with_bufs (\<lambda>n. n\<lparr>xDataLength := f (xDataLength n)\<rparr>) e)"
  by (simp add: owners_with_def owners_def with_bufs_def buffers_ok_def)

lemma owners_release:
  assumes "owners_with [b] e"
  shows "owners_with [] (with_bufs (vReleaseNetworkBufferAndDescriptor b) e)"
proof -
  have b: "b < ipconfigNUM_NETWORK_BUFFER_DESCRIPTORS" "b \<notin> set (xFreeBuffersList (em_bufs e))"
    using owners_with_distinct[OF assms] by (auto simp: owners_def ipconfigNUM_NETWORK_BUFFER_DESCRIPTORS_def)
  then show ?thesis
    using assms release_buffer[of "em_bufs e" b] by (simp add: owners_with_def owners_def with_bufs_def)
qed

lemma owners_get:
  assumes "owners_with [] e"
  obtains r bufs where "pxGetNetworkBufferWithDescriptor n (em_bufs e) = Some (r, bufs)"
    "r = None \<and> bufs = em_bufs e \<or> (\<exists>b. r = Some b \<and> owners_with [b] (e\<lparr>em_bufs := bufs\<rparr>))"
proof -
  have "buffers_ok (em_bufs e)" using assms by (simp add: owners_with_def)
  from get_buffer[OF this, of n] obtain r bufs where g: "pxGetNetworkBufferWithDescriptor n (em_bufs e) = Some (r, bufs)"
    "buffers_ok bufs" "uxMaxNetworkInterfaceAllocatedSizeBytes bufs = uxMaxNetworkInterfaceAllocatedSizeBytes (em_bufs e)"
    "case r of None \<Rightarrow> bufs = em_bufs e | Some b \<Rightarrow> xFreeBuffersList (em_bufs e) = b # xFreeBuffersList bufs"
    by (auto split: option.splits)
  then show thesis using assms by (intro that[OF g(1)]) (auto simp: owners_with_def owners_def split: option.splits)
qed

lemma owners_from_stack:
  assumes "owners_with [] e" "b \<in> set (em_stack e)"
  shows "owners_with [b] (e\<lparr>em_stack := remove1 b (em_stack e)\<rparr>)"
proof -
  have "mset (b # remove1 b (em_stack e)) = mset (em_stack e)" using assms(2) by simp
  then have "mset ([b] @ owners (e\<lparr>em_stack := remove1 b (em_stack e)\<rparr>)) = mset (owners e)"
    by (simp add: owners_def ac_simps del: mset_remove1 flip: union_mset_add_mset_right)
  then show ?thesis using assms(1) by (simp add: owners_with_def)
qed

lemma owners_to_stack: "owners_with [b] e \<Longrightarrow> owners_with [] (e\<lparr>em_stack := em_stack e @ [b]\<rparr>)"
  by (simp add: owners_with_def owners_def)

lemma owners_from_tx:
  "owners_with [] e \<Longrightarrow> i < 8 \<Longrightarrow> pxDMA_tx_buffers e ! i = Some b \<Longrightarrow>
    owners_with [b] (e\<lparr>pxDMA_tx_buffers := (pxDMA_tx_buffers e)[i := None]\<rparr>)"
  using held_clear[of i "pxDMA_tx_buffers e" b] by (simp add: owners_with_def owners_def)

lemma owners_to_tx:
  "owners_with [b] e \<Longrightarrow> i < 8 \<Longrightarrow> pxDMA_tx_buffers e ! i = None \<Longrightarrow>
    owners_with [] (e\<lparr>pxDMA_tx_buffers := (pxDMA_tx_buffers e)[i := Some b]\<rparr>)"
  using held_fill[of i "pxDMA_tx_buffers e" b] by (simp add: owners_with_def owners_def)

lemma owners_to_rx:
  "owners_with [b] e \<Longrightarrow> i < 8 \<Longrightarrow> pxDMA_rx_buffers e ! i = None \<Longrightarrow>
    owners_with [] (e\<lparr>pxDMA_rx_buffers := (pxDMA_rx_buffers e)[i := Some b]\<rparr>)"
  using held_fill[of i "pxDMA_rx_buffers e" b] by (simp add: owners_with_def owners_def)

lemma owners_swap_rx:
  assumes "owners_with [c] e" "i < 8" "pxDMA_rx_buffers e ! i = Some b"
  shows "owners_with [b] (e\<lparr>pxDMA_rx_buffers := (pxDMA_rx_buffers e)[i := Some c]\<rparr>)"
proof -
  have "mset (b # held ((pxDMA_rx_buffers e)[i := Some c])) = mset (c # held (pxDMA_rx_buffers e))"
    using held_swap[of i "pxDMA_rx_buffers e" b c] assms by (simp add: owners_with_def)
  then have "mset ([b] @ owners (e\<lparr>pxDMA_rx_buffers := (pxDMA_rx_buffers e)[i := Some c]\<rparr>)) = mset ([c] @ owners e)"
    by (simp add: owners_def ac_simps flip: union_mset_add_mset_right)
  then show ?thesis using assms(1) by (simp add: owners_with_def)
qed


subsection \<open>Descriptor words\<close>

lemmas gem_words = bit.conj_disj_distrib2 and.assoc

lemma tx_flags_bits:
  assumes "gem_ok g"
  shows "tx_flags g i n AND tx_used g = 0" "tx_flags g i n AND tx_wrap g = 0 \<longleftrightarrow> i \<noteq> 7"
    "n \<le> 1526 \<Longrightarrow> unat (tx_flags g i n AND tx_len g) = n"
proof -
  have u: "tx_flags g i n AND tx_used g = 0"
    and w: "tx_flags g i n AND tx_wrap g = (if i = 7 then 0x40000000 else 0)"
    and l: "tx_flags g i n AND tx_len g = of_nat n AND mask 14"
    using assms by (simp_all add: tx_flags_def gem_ok_def gem_words ipconfigNIC_N_TX_DESC_def mask_numeral)
  show "tx_flags g i n AND tx_used g = 0" "tx_flags g i n AND tx_wrap g = 0 \<longleftrightarrow> i \<noteq> 7" using u w by simp_all
  show "unat (tx_flags g i n AND tx_len g) = n" if "n \<le> 1526"
  proof -
    have "unat (of_nat n AND mask 14 :: u32) = take_bit 14 (unat (of_nat n :: u32))"
      by (simp only: unsigned_take_bit_eq flip: take_bit_eq_mask)
    then show ?thesis using that by (simp add: l unsigned_of_nat take_bit_eq_mod)
  qed
qed

lemma eth_address_inj:
  assumes "eth_address env b = eth_address env c" "b < 12" "c < 12"
  shows "b = c"
proof -
  have "(of_nat (b * 1536 + 10) :: u32) = of_nat (c * 1536 + 10)"
    using assms(1) by (simp add: eth_address_def pucEthernetBuffer_def niBUFFER_1_PACKET_SIZE_def ipBUFFER_PADDING_def)
  then have "(b * 1536 + 10) mod 2 ^ 32 = (c * 1536 + 10) mod 2 ^ 32"
    by (simp only: word_of_nat_eq_iff take_bit_eq_mod) simp
  then show ?thesis using assms(2,3) by simp
qed

text \<open>The controller stores behind two bytes, where the aligned address has lost them.\<close>

lemma eth_address_aligned:
  assumes "env_ok env"
  shows "(eth_address env b AND 0xFFFFFFFC) + 2 = eth_address env b"
proof -
  let ?x = "eth_address env b"
  have "unat ?x = (unat (en_packets env) + (b * 1536 + 10)) mod 2 ^ 32"
    by (simp add: eth_address_def pucEthernetBuffer_def niBUFFER_1_PACKET_SIZE_def ipBUFFER_PADDING_def unat_word_ariths
        unat_of_nat mod_simps)
  then have "unat ?x mod 4 = (unat (en_packets env) + (b * 1536 + 10)) mod 4"
    by (simp add: mod_mod_cancel)
  also have "\<dots> = 2"
  proof -
    obtain k where "unat (en_packets env) = 64 * k" using assms unfolding env_ok_def by (rule dvdE)
    then have "unat (en_packets env) + (b * 1536 + 10) = 2 + (16 * k + 384 * b + 2) * 4" by simp
    then show ?thesis by (simp only: mod_mult_self1) simp
  qed
  finally have m: "unat ?x mod 4 = 2" .
  have "(0xFFFFFFFC :: u32) = NOT (mask 2)" by code_simp
  then have "?x AND 0xFFFFFFFC = ?x AND NOT (mask 2)" by (simp only:)
  also have "\<dots> = push_bit 2 (drop_bit 2 ?x)" by (rule bit_word_eqI) (auto simp: bit_simps not_less dest!: le_Suc_ex)
  also have "\<dots> = (?x div 4) * 4" by (simp add: push_bit_eq_mult drop_bit_eq_div)
  also have "\<dots> + 2 = ?x"
  proof -
    have "unat (?x mod 4) = unat (2 :: u32)" using m by (simp add: unat_mod)
    then have "?x mod 4 = 2" by (simp only: word_unat_eq_iff)
    then show ?thesis using div_mult_mod_eq[of ?x 4] by simp
  qed
  finally show ?thesis .
qed


subsection \<open>The transmit ring\<close>

text \<open>
  From the tail: \<open>d\<close> descriptors that the controller has sent, then those it still has to send, then the \<open>c\<close> free ones.
\<close>

definition tx_slot :: "emac \<Rightarrow> nat \<Rightarrow> nat" where "tx_slot e j = (txTail e + j) mod 8"

definition tx_pending :: "gem_bits \<Rightarrow> emac_env \<Rightarrow> emac \<Rightarrow> nat \<Rightarrow> bool" where
  "tx_pending g env e i \<longleftrightarrow> (\<exists>b. pxDMA_tx_buffers e ! i = Some b \<and> bd_address (txSegments e ! i) = eth_address env b) \<and>
     bd_flags (txSegments e ! i) AND tx_used g = 0 \<and> (bd_flags (txSegments e ! i) AND tx_wrap g = 0 \<longleftrightarrow> i \<noteq> 7)"

definition tx_at :: "gem_bits \<Rightarrow> emac_env \<Rightarrow> nat \<Rightarrow> nat \<Rightarrow> emac \<Rightarrow> bool" where
  "tx_at g env c d e \<longleftrightarrow> xTXDescriptorSemaphore e = Some c \<and> c + d \<le> 8 \<and> txTail e < 8 \<and>
     length (txSegments e) = 8 \<and> length (pxDMA_tx_buffers e) = 8 \<and> txHead e = tx_slot e (8 - c) \<and>
     (\<forall>j < d. bd_flags (txSegments e ! tx_slot e j) AND tx_used g \<noteq> 0 \<and> pxDMA_tx_buffers e ! tx_slot e j \<noteq> None) \<and>
     (\<forall>j \<in> {d..<8 - c}. tx_pending g env e (tx_slot e j)) \<and>
     (\<forall>j \<in> {8 - c..<8}. bd_flags (txSegments e ! tx_slot e j) AND tx_used g \<noteq> 0 \<and>
        pxDMA_tx_buffers e ! tx_slot e j = None)"

definition tx_queue :: "gem_bits \<Rightarrow> nat \<Rightarrow> nat \<Rightarrow> emac \<Rightarrow> u8 list list" where
  "tx_queue g c d e = map (\<lambda>j. tx_frame g e (tx_slot e j)) [d..<8 - c]"

definition tx_ok :: "gem_bits \<Rightarrow> emac_env \<Rightarrow> nic \<Rightarrow> bool" where
  "tx_ok g env s \<longleftrightarrow> (\<exists>c d. tx_at g env c d (nic_drv s) \<and> hw_tx s = tx_slot (nic_drv s) d \<and>
     nic_sent s = nic_wire s @ tx_queue g c d (nic_drv s))"

lemma tx_okI:
  assumes "tx_at g env c d (nic_drv s)" "hw_tx s = tx_slot (nic_drv s) d"
    "nic_sent s = nic_wire s @ tx_queue g c d (nic_drv s)"
  shows "tx_ok g env s"
  using assms unfolding tx_ok_def by blast

lemma tx_slot_less [simp]: "tx_slot e j < 8"
  by (simp add: tx_slot_def)

lemma tx_slot_eq: "i < 8 \<Longrightarrow> j < 8 \<Longrightarrow> tx_slot e i = tx_slot e j \<longleftrightarrow> i = j"
  using ring_distinct[of i j 8 "txTail e"] ring_distinct[of j i 8 "txTail e"] unfolding tx_slot_def
  by (metis linorder_neqE_nat)

lemma tx_slot_0: "txTail e < 8 \<Longrightarrow> tx_slot e 0 = txTail e"
  by (simp add: tx_slot_def)

lemma tx_slot_Suc: "(if tx_slot e j = 7 then 0 else tx_slot e j + 1) = tx_slot e (Suc j)"
  by (simp add: tx_slot_def mod_Suc)

text \<open>What the ring depends on.\<close>

definition tx_same :: "emac_env \<Rightarrow> emac \<Rightarrow> emac \<Rightarrow> bool" where
  "tx_same env e e' \<longleftrightarrow> xTXDescriptorSemaphore e' = xTXDescriptorSemaphore e \<and> txTail e' = txTail e \<and>
     txHead e' = txHead e \<and> txSegments e' = txSegments e \<and> pxDMA_tx_buffers e' = pxDMA_tx_buffers e \<and>
     (\<forall>b. Some b \<in> set (pxDMA_tx_buffers e) \<longrightarrow> em_memory e' (eth_address env b) = em_memory e (eth_address env b))"

lemma tx_at_same: "tx_same env e e' \<Longrightarrow> tx_at g env c d e' = tx_at g env c d e"
  by (simp add: tx_same_def tx_at_def tx_slot_def tx_pending_def)

lemma tx_pending_buffer:
  assumes "tx_at g env c d e" "d \<le> j" "j < 8 - c"
  obtains b where "Some b \<in> set (pxDMA_tx_buffers e)" "bd_address (txSegments e ! tx_slot e j) = eth_address env b"
proof -
  have "tx_pending g env e (tx_slot e j)" "length (pxDMA_tx_buffers e) = 8" using assms by (auto simp: tx_at_def)
  then show thesis using that by (metis nth_mem tx_pending_def tx_slot_less)
qed

lemma tx_queue_same:
  assumes "tx_at g env c d e" "tx_same env e e'"
  shows "tx_queue g c d e' = tx_queue g c d e"
  unfolding tx_queue_def
proof (rule map_cong[OF refl])
  fix j assume "j \<in> set [d..<8 - c]"
  then obtain b where b: "Some b \<in> set (pxDMA_tx_buffers e)" "bd_address (txSegments e ! tx_slot e j) = eth_address env b"
    using tx_pending_buffer[OF assms(1), of j] by auto
  have "tx_slot e' j = tx_slot e j" using assms(2) by (simp add: tx_same_def tx_slot_def)
  then show "tx_frame g e' (tx_slot e' j) = tx_frame g e (tx_slot e j)"
    using b assms(2) by (simp add: tx_same_def tx_frame_def)
qed

lemma tx_ok_same:
  assumes "tx_ok g env s" "tx_same env (nic_drv s) (nic_drv s')" "hw_tx s' = hw_tx s" "nic_sent s' = nic_sent s"
    "nic_wire s' = nic_wire s"
  shows "tx_ok g env s'"
proof -
  obtain c d where "tx_at g env c d (nic_drv s)" "hw_tx s = tx_slot (nic_drv s) d"
    "nic_sent s = nic_wire s @ tx_queue g c d (nic_drv s)" using assms(1) unfolding tx_ok_def by blast
  moreover have "tx_slot (nic_drv s') d = tx_slot (nic_drv s) d" for d
    using assms(2) by (simp add: tx_same_def tx_slot_def)
  ultimately show ?thesis
    unfolding tx_ok_def assms(3-5) using tx_at_same[OF assms(2)] tx_queue_same[OF _ assms(2)] by metis
qed

lemma tx_ok_transmit:
  assumes "gem_ok g" "tx_ok g env s"
  shows "tx_ok g env (dma_transmit g s)"
proof -
  define e where "e = nic_drv s"
  obtain c d where t: "tx_at g env c d e" "hw_tx s = tx_slot e d" "nic_sent s = nic_wire s @ tx_queue g c d e"
    using assms(2) unfolding tx_ok_def e_def by blast
  show ?thesis
  proof (cases "bd_flags (txSegments e ! hw_tx s) AND tx_used g = 0")
    case False
    then show ?thesis using assms(2) by (simp add: dma_transmit_def e_def)
  next
    case True
    have cd: "c + d \<le> 8" and len: "length (txSegments e) = 8" using t(1) by (simp_all add: tx_at_def)
    have d: "d < 8 - c"
    proof (rule ccontr)
      assume "\<not> d < 8 - c"
      then have "c = 0 \<and> d = 8 \<or> d \<in> {8 - c..<8}" using cd by auto
      moreover have "tx_slot e 8 = tx_slot e 0" by (simp add: tx_slot_def)
      ultimately show False using t(1,2) True by (auto simp: tx_at_def)
    qed
    then have d8: "d < 8" by simp
    define e' where "e' = e\<lparr>txSegments := (txSegments e)[tx_slot e d := (txSegments e ! tx_slot e d)
        \<lparr>bd_flags := bd_flags (txSegments e ! tx_slot e d) OR tx_used g\<rparr>]\<rparr>"
    have p: "tx_pending g env e (tx_slot e d)" using t(1) d by (simp add: tx_at_def)
    have sl: "tx_slot e' j = tx_slot e j" for j by (simp add: e'_def tx_slot_def)
    have mem: "em_memory e' = em_memory e" by (simp add: e'_def)
    have other: "txSegments e' ! tx_slot e j = txSegments e ! tx_slot e j" if "j < 8" "j \<noteq> d" for j
      using that d8 tx_slot_eq[of j d e] by (auto simp: e'_def)
    have this_used: "bd_flags (txSegments e' ! tx_slot e d) AND tx_used g \<noteq> 0"
      using assms(1) len by (simp add: e'_def gem_ok_def gem_words)
    have pend: "tx_pending g env e' (tx_slot e j) = tx_pending g env e (tx_slot e j)" if "j < 8" "j \<noteq> d" for j
      unfolding tx_pending_def other[OF that] by (simp add: e'_def)
    have "tx_at g env c (Suc d) e'"
      unfolding tx_at_def sl
    proof (intro conjI ballI allI impI)
      show "tx_pending g env e' (tx_slot e j)" if "j \<in> {Suc d..<8 - c}" for j
      proof -
        have "tx_pending g env e (tx_slot e j)" "j < 8" "j \<noteq> d" using that t(1) by (auto simp: tx_at_def)
        then show ?thesis by (simp add: pend)
      qed
      show "bd_flags (txSegments e' ! tx_slot e j) AND tx_used g \<noteq> 0" if "j < Suc d" for j
        using that t(1) d this_used other[of j] by (cases "j = d") (auto simp: tx_at_def)
      show "pxDMA_tx_buffers e' ! tx_slot e j \<noteq> None" if "j < Suc d" for j
        using that t(1) p by (cases "j = d") (auto simp: tx_at_def e'_def tx_pending_def)
      show "bd_flags (txSegments e' ! tx_slot e j) AND tx_used g \<noteq> 0" if "j \<in> {8 - c..<8}" for j
        using that t(1) d other[of j] by (auto simp: tx_at_def)
    qed (use t(1) d in \<open>auto simp: tx_at_def e'_def\<close>)
    moreover have "tx_queue g c d e = tx_frame g e (tx_slot e d) # tx_queue g c (Suc d) e'"
    proof -
      have "tx_frame g e' (tx_slot e j) = tx_frame g e (tx_slot e j)" if "j \<in> set [Suc d..<8 - c]" for j
      proof -
        have "j < 8" "j \<noteq> d" using that by auto
        then show ?thesis by (simp add: tx_frame_def other mem)
      qed
      then have "map (\<lambda>j. tx_frame g e' (tx_slot e' j)) [Suc d..<8 - c] = map (\<lambda>j. tx_frame g e (tx_slot e j)) [Suc d..<8 - c]"
        by (simp add: sl)
      then show ?thesis using d by (simp add: tx_queue_def upt_conv_Cons)
    qed
    moreover have "(if bd_flags (txSegments e ! tx_slot e d) AND tx_wrap g = 0 then tx_slot e d + 1 else 0) = tx_slot e' (Suc d)"
      using p tx_slot_Suc[of e d] by (auto simp: tx_pending_def sl)
    ultimately show ?thesis
      using True t(2,3) by (intro tx_okI[of g env c "Suc d"]) (auto simp: dma_transmit_def tx_frame_def Let_def simp flip: e_def e'_def)
  qed
qed

text \<open>Handing over a frame: it is the last of the queue.\<close>

lemma tx_at_send:
  assumes "gem_ok g" "tx_at g env c d e" "c \<noteq> 0" "n \<le> 1526"
    and e'_def: "e' = e\<lparr>xTXDescriptorSemaphore := Some (c - 1), pxDMA_tx_buffers := (pxDMA_tx_buffers e)[txHead e := Some b],
      txSegments := (txSegments e)[txHead e := \<lparr>bd_address = eth_address env b, bd_flags = tx_flags g (txHead e) n\<rparr>],
      txHead := (if txHead e + 1 = ipconfigNIC_N_TX_DESC then 0 else txHead e + 1)\<rparr>"
  shows "tx_at g env (c - 1) d e'"
    "tx_queue g (c - 1) d e' = tx_queue g c d e @ [take n (em_memory e (eth_address env b))]"
proof -
  have h: "txHead e = tx_slot e (8 - c)" and cd: "c + d \<le> 8" "c \<le> 8"
    and len: "length (txSegments e) = 8" "length (pxDMA_tx_buffers e) = 8" "txTail e < 8"
    and sent: "j < d \<Longrightarrow> bd_flags (txSegments e ! tx_slot e j) AND tx_used g \<noteq> 0 \<and> pxDMA_tx_buffers e ! tx_slot e j \<noteq> None"
    and pend: "d \<le> j \<Longrightarrow> j < 8 - c \<Longrightarrow> tx_pending g env e (tx_slot e j)"
    and free: "8 - c \<le> j \<Longrightarrow> j < 8 \<Longrightarrow> bd_flags (txSegments e ! tx_slot e j) AND tx_used g \<noteq> 0 \<and>
        pxDMA_tx_buffers e ! tx_slot e j = None" for j
    using assms(2) by (auto simp: tx_at_def)
  have sl: "tx_slot e' j = tx_slot e j" for j by (simp add: e'_def tx_slot_def)
  have k: "8 - (c - 1) = Suc (8 - c)" "8 - c < 8" using assms(3) cd by simp_all
  have other: "txSegments e' ! tx_slot e j = txSegments e ! tx_slot e j"
    "pxDMA_tx_buffers e' ! tx_slot e j = pxDMA_tx_buffers e ! tx_slot e j" if "j < 8" "j \<noteq> 8 - c" for j
    using that k tx_slot_eq[of j "8 - c" e] by (auto simp: e'_def h)
  have new: "txSegments e' ! tx_slot e (8 - c) = \<lparr>bd_address = eth_address env b, bd_flags = tx_flags g (tx_slot e (8 - c)) n\<rparr>"
    "pxDMA_tx_buffers e' ! tx_slot e (8 - c) = Some b"
    using len by (simp_all add: e'_def h)
  have "txHead e' = tx_slot e (Suc (8 - c))"
    using tx_slot_Suc[of e "8 - c"] by (auto simp: e'_def h ipconfigNIC_N_TX_DESC_def split: if_splits)
  moreover have "tx_pending g env e' (tx_slot e j)" if "d \<le> j" "j < Suc (8 - c)" for j
  proof (cases "j = 8 - c")
    case True
    then show ?thesis using tx_flags_bits[OF assms(1)] by (simp add: tx_pending_def new)
  next
    case False
    then have "j < 8" "j < 8 - c" using that by simp_all
    then show ?thesis using pend[OF that(1)] False by (simp add: tx_pending_def other)
  qed
  moreover have "bd_flags (txSegments e' ! tx_slot e j) AND tx_used g \<noteq> 0 \<and> pxDMA_tx_buffers e' ! tx_slot e j \<noteq> None"
    if "j < d" for j
  proof -
    have "j < 8" "j \<noteq> 8 - c" using that cd by simp_all
    then show ?thesis using sent[OF that] by (simp add: other)
  qed
  moreover have "bd_flags (txSegments e' ! tx_slot e j) AND tx_used g \<noteq> 0 \<and> pxDMA_tx_buffers e' ! tx_slot e j = None"
    if "Suc (8 - c) \<le> j" "j < 8" for j
    using free[of j] that by (simp add: other)
  ultimately show "tx_at g env (c - 1) d e'"
    using len cd k unfolding tx_at_def sl by (auto simp: e'_def)
  have "tx_frame g e' (tx_slot e j) = tx_frame g e (tx_slot e j)" if "j \<in> set [d..<8 - c]" for j
  proof -
    have "j < 8" "j \<noteq> 8 - c" using that by auto
    then show ?thesis by (simp add: tx_frame_def other) (simp add: e'_def)
  qed
  moreover have "tx_frame g e' (tx_slot e (8 - c)) = take n (em_memory e (eth_address env b))"
    using tx_flags_bits(3)[OF assms(1,4)] by (simp add: tx_frame_def new) (simp add: e'_def)
  ultimately show "tx_queue g (c - 1) d e' = tx_queue g c d e @ [take n (em_memory e (eth_address env b))]"
    using cd unfolding tx_queue_def k sl by simp
qed

lemma tx_ok_send:
  assumes "gem_ok g" "tx_ok g env s"
  shows "tx_ok g env (stack_send g env b s)"
proof -
  define e where "e = (nic_drv s)\<lparr>em_stack := remove1 b (em_stack (nic_drv s))\<rparr>"
  define s' where "s' = s\<lparr>nic_drv := e\<rparr>"
  define n where "n = xDataLength (em_bufs e) b"
  have ok: "tx_ok g env s'" by (rule tx_ok_same[OF assms(2)]) (simp_all add: s'_def e_def tx_same_def)
  then obtain c d where t: "tx_at g env c d e" "hw_tx s = tx_slot e d" "nic_sent s = nic_wire s @ tx_queue g c d e"
    unfolding tx_ok_def s'_def by auto
  have c: "xTXDescriptorSemaphore e = Some c" using t(1) by (simp add: tx_at_def)
  have fr: "stack_frame env b (nic_drv s) = take n (em_memory e (eth_address env b))"
    by (simp add: stack_frame_def n_def e_def)
  show ?thesis
  proof (cases "xValidLength n \<and> c \<noteq> 0")
    case False
    then have "emacps_send_message g env b e = (False, with_bufs (vReleaseNetworkBufferAndDescriptor b) e)"
      using c by (auto simp: emacps_send_message_def n_def Let_def)
    then show ?thesis
      by (intro tx_ok_same[OF ok]) (simp_all add: stack_send_def s'_def tx_same_def with_bufs_def flip: e_def)
  next
    case True
    then have n: "n \<le> 1526" by (simp add: xValidLength_def dmaRX_TX_BUFFER_SIZE_def ipBUFFER_PADDING_def)
    define e1 where "e1 = e\<lparr>xTXDescriptorSemaphore := Some (c - 1), pxDMA_tx_buffers := (pxDMA_tx_buffers e)[txHead e := Some b],
      txSegments := (txSegments e)[txHead e := \<lparr>bd_address = eth_address env b, bd_flags = tx_flags g (txHead e) n\<rparr>],
      txHead := (if txHead e + 1 = ipconfigNIC_N_TX_DESC then 0 else txHead e + 1)\<rparr>"
    define e2 where "e2 = e1\<lparr>txBusy := True, reg_nwctrl := reg_nwctrl e1 OR nwctrl_starttx g\<rparr>"
    have same: "tx_same env e1 e2" "tx_slot e2 d = tx_slot e d" by (simp_all add: tx_same_def e2_def tx_slot_def e1_def)
    have send: "emacps_send_message g env b e = (True, e2)"
      using True c by (simp add: emacps_send_message_def e2_def e1_def n_def Let_def)
    have e1: "tx_at g env (c - 1) d e1" "tx_queue g (c - 1) d e1 = tx_queue g c d e @ [take n (em_memory e (eth_address env b))]"
      using tx_at_send[OF assms(1) t(1) _ n e1_def] True by simp_all
    have "tx_at g env (c - 1) d e2" "tx_queue g (c - 1) d e2 = tx_queue g (c - 1) d e1"
      using tx_at_same[OF same(1)] tx_queue_same[OF e1(1) same(1)] e1(1) by simp_all
    then show ?thesis
      using t(2,3) e1(2) same(2)
      by (intro tx_okI[of g env "c - 1" d]) (simp_all add: stack_send_def send fr flip: e_def)
  qed
qed

text \<open>Cleaning up: the descriptor at the tail is free again, its buffer is released.\<close>

lemma tx_at_clean:
  assumes "gem_ok g" "tx_at g env c (Suc d) e"
  shows "tx_at g env (Suc c) d (check_tx_slot g e)" "tx_queue g (Suc c) d (check_tx_slot g e) = tx_queue g c (Suc d) e"
    "tx_slot (check_tx_slot g e) j = tx_slot e (Suc j)"
proof -
  define e' where "e' = check_tx_slot g e"
  have cd: "c + Suc d \<le> 8" and sem: "xTXDescriptorSemaphore e = Some c" and h: "txHead e = tx_slot e (8 - c)"
    and len: "length (txSegments e) = 8" "length (pxDMA_tx_buffers e) = 8" "txTail e < 8"
    and sent: "j < Suc d \<Longrightarrow> bd_flags (txSegments e ! tx_slot e j) AND tx_used g \<noteq> 0 \<and> pxDMA_tx_buffers e ! tx_slot e j \<noteq> None"
    and pend: "Suc d \<le> j \<Longrightarrow> j < 8 - c \<Longrightarrow> tx_pending g env e (tx_slot e j)"
    and free: "8 - c \<le> j \<Longrightarrow> j < 8 \<Longrightarrow> bd_flags (txSegments e ! tx_slot e j) AND tx_used g \<noteq> 0 \<and>
        pxDMA_tx_buffers e ! tx_slot e j = None" for j
    using assms(2) by (auto simp: tx_at_def)
  have tail: "tx_slot e 0 = txTail e" using len by (simp add: tx_slot_0)
  obtain b where b: "pxDMA_tx_buffers e ! txTail e = Some b" using sent[of 0] tail by auto
  have sl: "tx_slot e' j = tx_slot e (Suc j)" for j
    using len b by (simp add: e'_def check_tx_slot_def Let_def tx_slot_def with_bufs_def ipconfigNIC_N_TX_DESC_def)
  have k: "Suc (8 - Suc c) = 8 - c" using cd by simp
  have fields: "xTXDescriptorSemaphore e' = Some (Suc c)" "txTail e' < 8" "txHead e' = txHead e" "em_memory e' = em_memory e"
    "length (txSegments e') = 8" "length (pxDMA_tx_buffers e') = 8"
    using b cd sem len
    by (simp_all add: e'_def check_tx_slot_def Let_def with_bufs_def ipconfigNIC_N_TX_DESC_def)
  have other: "txSegments e' ! tx_slot e j = txSegments e ! tx_slot e j"
    "pxDMA_tx_buffers e' ! tx_slot e j = pxDMA_tx_buffers e ! tx_slot e j" if "j < 8" "j \<noteq> 0" for j
    using that b tx_slot_eq[of j 0 e] by (auto simp: e'_def check_tx_slot_def Let_def with_bufs_def tail)
  have new: "bd_flags (txSegments e' ! tx_slot e 0) AND tx_used g \<noteq> 0 \<and> pxDMA_tx_buffers e' ! tx_slot e 0 = None"
    using assms(1) b len by (auto simp: e'_def check_tx_slot_def Let_def with_bufs_def tail gem_ok_def gem_words)
  have freed: "bd_flags (txSegments e' ! tx_slot e (Suc j)) AND tx_used g \<noteq> 0 \<and> pxDMA_tx_buffers e' ! tx_slot e (Suc j) = None"
    if "8 - Suc c \<le> j" "j < 8" for j
  proof (cases "j = 7")
    case True
    then have "tx_slot e (Suc j) = tx_slot e 0" by (simp add: tx_slot_def)
    then show ?thesis using new by simp
  next
    case False
    then show ?thesis using free[of "Suc j"] that k by (simp add: other)
  qed
  have pend': "tx_pending g env e' (tx_slot e (Suc j))" if "d \<le> j" "j < 8 - Suc c" for j
  proof -
    have "Suc j < 8" "Suc j < 8 - c" using that k by simp_all
    then show ?thesis using pend[of "Suc j"] that by (simp add: tx_pending_def other)
  qed
  have sent': "bd_flags (txSegments e' ! tx_slot e (Suc j)) AND tx_used g \<noteq> 0 \<and> pxDMA_tx_buffers e' ! tx_slot e (Suc j) \<noteq> None"
    if "j < d" for j
    using sent[of "Suc j"] that cd by (simp add: other)
  show "tx_at g env (Suc c) d (check_tx_slot g e)"
    unfolding e'_def[symmetric] tx_at_def sl using fields cd h k freed pend' sent' by simp
  have "tx_frame g e' (tx_slot e (Suc j)) = tx_frame g e (tx_slot e (Suc j))" if "j \<in> set [d..<8 - Suc c]" for j
  proof -
    have "Suc j < 8" using that by auto
    then show ?thesis by (simp add: tx_frame_def other fields)
  qed
  then have "tx_queue g (Suc c) d e' = map (\<lambda>j. tx_frame g e (tx_slot e (Suc j))) [d..<8 - Suc c]"
    by (simp add: tx_queue_def sl)
  also have "\<dots> = tx_queue g c (Suc d) e"
    unfolding tx_queue_def k[symmetric] map_Suc_upt[symmetric] map_map by (simp add: o_def)
  finally show "tx_queue g (Suc c) d (check_tx_slot g e) = tx_queue g c (Suc d) e" by (simp add: e'_def)
  show "tx_slot (check_tx_slot g e) j = tx_slot e (Suc j)" by (simp add: sl flip: e'_def)
qed

lemma check_tx_loop_slots:
  assumes "gem_ok g" "tx_at g env c d e"
  shows "check_tx_loop g (txHead e) (8 - c) e = (check_tx_slot g ^^ d) e"
  using assms(2)
proof (induction d arbitrary: c e)
  case 0
  show ?case
  proof (cases "8 - c")
    case (Suc n)
    then have "tx_pending g env e (tx_slot e 0)" using 0 by (simp add: tx_at_def)
    then show ?thesis using 0 Suc tx_slot_0[of e] by (simp add: tx_at_def tx_pending_def)
  qed simp
next
  case (Suc d)
  have cd: "c + Suc d \<le> 8" and h: "txHead e = tx_slot e (8 - c)" and tail: "txTail e = tx_slot e 0"
    and used: "bd_flags (txSegments e ! txTail e) AND tx_used g \<noteq> 0"
    using Suc.prems tx_slot_0[of e] by (auto simp: tx_at_def)
  obtain n where n: "8 - c = Suc n" "n = 8 - Suc c" using cd by (cases "8 - c") auto
  have "\<not> (txTail e = txHead e \<and> Suc n \<noteq> 8)"
  proof
    assume a: "txTail e = txHead e \<and> Suc n \<noteq> 8"
    then have "Suc n < 8" using n by linarith
    then show False using a n tx_slot_eq[of 0 "Suc n" e] by (simp add: tail h)
  qed
  then have "check_tx_loop g (txHead e) (8 - c) e = check_tx_loop g (txHead e) (8 - Suc c) (check_tx_slot g e)"
    using used unfolding n(1) n(2)[symmetric] by (auto simp: ipconfigNIC_N_TX_DESC_def)
  moreover have "txHead (check_tx_slot g e) = txHead e"
    by (simp add: check_tx_slot_def Let_def with_bufs_def split: option.split)
  moreover have "check_tx_loop g (txHead (check_tx_slot g e)) (8 - Suc c) (check_tx_slot g e) = (check_tx_slot g ^^ d) (check_tx_slot g e)"
    by (rule Suc.IH) (rule tx_at_clean(1)[OF assms(1) Suc.prems])
  ultimately show ?case by (simp add: funpow_swap1)
qed

lemma tx_at_clean_all:
  assumes "gem_ok g" "tx_at g env c d e"
  shows "tx_at g env (c + d) 0 ((check_tx_slot g ^^ d) e)" "tx_queue g (c + d) 0 ((check_tx_slot g ^^ d) e) = tx_queue g c d e"
    "tx_slot ((check_tx_slot g ^^ d) e) 0 = tx_slot e d"
proof -
  have "tx_at g env (c + d) 0 ((check_tx_slot g ^^ d) e) \<and> tx_queue g (c + d) 0 ((check_tx_slot g ^^ d) e) = tx_queue g c d e \<and>
    tx_slot ((check_tx_slot g ^^ d) e) 0 = tx_slot e d"
    using assms(2)
  proof (induction d arbitrary: c e)
    case (Suc d)
    show ?case
      using Suc.IH[OF tx_at_clean(1)[OF assms(1) Suc.prems]] tx_at_clean(2,3)[OF assms(1) Suc.prems]
      by (simp add: funpow_swap1)
  qed simp
  then show "tx_at g env (c + d) 0 ((check_tx_slot g ^^ d) e)" "tx_queue g (c + d) 0 ((check_tx_slot g ^^ d) e) = tx_queue g c d e"
    "tx_slot ((check_tx_slot g ^^ d) e) 0 = tx_slot e d" by simp_all
qed

lemma check_tx_slots:
  assumes "gem_ok g" "tx_at g env c d e"
  shows "emacps_check_tx g e = Some ((check_tx_slot g ^^ d) e)"
  using check_tx_loop_slots[OF assms] assms(2) by (simp add: emacps_check_tx_def tx_at_def ipconfigNIC_N_TX_DESC_def)

lemma tx_ok_clean:
  assumes "gem_ok g" "tx_ok g env s" "emacps_check_tx g (nic_drv s) = Some e"
  shows "tx_ok g env (s\<lparr>nic_drv := e\<rparr>)"
proof -
  obtain c d where t: "tx_at g env c d (nic_drv s)" "hw_tx s = tx_slot (nic_drv s) d"
    "nic_sent s = nic_wire s @ tx_queue g c d (nic_drv s)" using assms(2) unfolding tx_ok_def by blast
  have "e = (check_tx_slot g ^^ d) (nic_drv s)" using check_tx_slots[OF assms(1) t(1)] assms(3) by simp
  then show ?thesis using tx_at_clean_all[OF assms(1) t(1)] t(2,3) by (intro tx_okI[of g env "c + d" 0]) simp_all
qed


subsection \<open>The receive ring\<close>

text \<open>From the head: \<open>m\<close> descriptors with a frame that has arrived, then those the controller may fill.\<close>

definition rx_slot :: "emac \<Rightarrow> nat \<Rightarrow> nat" where "rx_slot e j = (rxHead e + j) mod 8"

definition rx_slot_ok :: "gem_bits \<Rightarrow> emac_env \<Rightarrow> emac \<Rightarrow> nat \<Rightarrow> bool" where
  "rx_slot_ok g env e i \<longleftrightarrow>
     (\<exists>b. pxDMA_rx_buffers e ! i = Some b \<and> bd_address (rxSegments e ! i) AND rx_add g = eth_address env b AND rx_add g) \<and>
     (bd_address (rxSegments e ! i) AND rx_wrap g = 0 \<longleftrightarrow> i \<noteq> 7)"

definition rx_at :: "gem_bits \<Rightarrow> emac_env \<Rightarrow> nat \<Rightarrow> emac \<Rightarrow> bool" where
  "rx_at g env m e \<longleftrightarrow> rxHead e < 8 \<and> m \<le> 8 \<and> length (rxSegments e) = 8 \<and> length (pxDMA_rx_buffers e) = 8 \<and>
     (\<forall>i < 8. rx_slot_ok g env e i) \<and>
     (\<forall>j < 8. bd_address (rxSegments e ! rx_slot e j) AND rx_new g \<noteq> 0 \<longleftrightarrow> j < m)"

definition rx_queue :: "gem_bits \<Rightarrow> emac_env \<Rightarrow> nat \<Rightarrow> emac \<Rightarrow> u8 list list" where
  "rx_queue g env m e = map (\<lambda>j. rx_frame g env e (rx_slot e j)) [0..<m]"

definition rx_ok :: "gem_bits \<Rightarrow> emac_env \<Rightarrow> nic \<Rightarrow> bool" where
  "rx_ok g env s \<longleftrightarrow> (\<exists>m. rx_at g env m (nic_drv s) \<and> hw_rx s = rx_slot (nic_drv s) m \<and>
     nic_arrived s = nic_taken s @ rx_queue g env m (nic_drv s))"

lemma rx_okI:
  assumes "rx_at g env m (nic_drv s)" "hw_rx s = rx_slot (nic_drv s) m"
    "nic_arrived s = nic_taken s @ rx_queue g env m (nic_drv s)"
  shows "rx_ok g env s"
  using assms unfolding rx_ok_def by blast

lemma rx_slot_less [simp]: "rx_slot e j < 8"
  by (simp add: rx_slot_def)

lemma rx_slot_eq: "i < 8 \<Longrightarrow> j < 8 \<Longrightarrow> rx_slot e i = rx_slot e j \<longleftrightarrow> i = j"
  using ring_distinct[of i j 8 "rxHead e"] ring_distinct[of j i 8 "rxHead e"] unfolding rx_slot_def
  by (metis linorder_neqE_nat)

lemma rx_slot_Suc: "(if rx_slot e j = 7 then 0 else rx_slot e j + 1) = rx_slot e (Suc j)"
  by (simp add: rx_slot_def mod_Suc)

lemma rx_slot_buffer:
  assumes "rx_at g env m e" "i < 8"
  obtains b where "pxDMA_rx_buffers e ! i = Some b" "Some b \<in> set (pxDMA_rx_buffers e)"
    "bd_address (rxSegments e ! i) AND rx_add g = eth_address env b AND rx_add g"
    "bd_address (rxSegments e ! i) AND rx_wrap g = 0 \<longleftrightarrow> i \<noteq> 7"
proof -
  have "rx_slot_ok g env e i" "i < length (pxDMA_rx_buffers e)" using assms by (simp_all add: rx_at_def)
  then show thesis using that by (metis nth_mem rx_slot_ok_def)
qed

definition rx_same :: "emac_env \<Rightarrow> emac \<Rightarrow> emac \<Rightarrow> bool" where
  "rx_same env e e' \<longleftrightarrow> rxHead e' = rxHead e \<and> rxSegments e' = rxSegments e \<and> pxDMA_rx_buffers e' = pxDMA_rx_buffers e \<and>
     (\<forall>b. Some b \<in> set (pxDMA_rx_buffers e) \<longrightarrow> em_memory e' (eth_address env b) = em_memory e (eth_address env b))"

lemma rx_ok_same:
  assumes "rx_ok g env s" "rx_same env (nic_drv s) (nic_drv s')" "hw_rx s' = hw_rx s" "nic_arrived s' = nic_arrived s"
    "nic_taken s' = nic_taken s"
  shows "rx_ok g env s'"
proof -
  define e where "e = nic_drv s"
  define e' where "e' = nic_drv s'"
  obtain m where m: "rx_at g env m e" "hw_rx s = rx_slot e m" "nic_arrived s = nic_taken s @ rx_queue g env m e"
    using assms(1) unfolding rx_ok_def e_def by blast
  have same: "rx_same env e e'" using assms(2) by (simp add: e_def e'_def)
  have sl: "rx_slot e' j = rx_slot e j" for j using same by (simp add: rx_same_def rx_slot_def)
  have "rx_frame g env e' i = rx_frame g env e i" if "i < 8" for i
  proof -
    obtain b where b: "pxDMA_rx_buffers e ! i = Some b" "Some b \<in> set (pxDMA_rx_buffers e)"
      using rx_slot_buffer[OF m(1) \<open>i < 8\<close>] by metis
    then show ?thesis using same b by (simp add: rx_frame_def rx_same_def)
  qed
  then have "rx_queue g env m e' = rx_queue g env m e" by (simp add: rx_queue_def sl)
  moreover have "rx_at g env m e'" using m(1) same unfolding rx_at_def sl by (simp add: rx_same_def rx_slot_ok_def)
  ultimately show ?thesis using m assms(3-5) by (intro rx_okI[of g env m]) (simp_all add: sl flip: e'_def)
qed

lemma held_distinct:
  "distinct (held xs) \<Longrightarrow> i < length xs \<Longrightarrow> j < length xs \<Longrightarrow> xs ! i = Some b \<Longrightarrow> xs ! j = Some b \<Longrightarrow> i = j"
proof (induction xs arbitrary: i j rule: held.induct)
  case (2 xs)
  then show ?case by (cases i; cases j) auto
next
  case (3 c xs)
  have "c \<notin> set (held xs)" using 3(2) by simp
  then have "Some c \<notin> set xs" by (simp add: set_held)
  then show ?case using 3 by (cases i; cases j) (auto dest: nth_mem)
qed simp

text \<open>The descriptor words of the receive ring.\<close>

lemma rx_address_bits:
  assumes "gem_ok g"
  shows "rx_address g env i b AND rx_new g = 0" "rx_address g env i b AND rx_wrap g = 0 \<longleftrightarrow> i \<noteq> 7"
    "rx_address g env i b AND rx_add g = eth_address env b AND rx_add g"
    "(a OR rx_new g) AND rx_new g \<noteq> 0" "(a OR rx_new g) AND rx_add g = a AND rx_add g"
    "(a OR rx_new g) AND rx_wrap g = a AND rx_wrap g"
  using assms by (simp_all add: rx_address_def gem_ok_def gem_words ipconfigNIC_N_RX_DESC_def)

lemma rx_length_bits:
  assumes "gem_ok g" "sof AND rx_len g = 0" "n \<le> 1518"
  shows "unat ((sof OR of_nat n) AND rx_len g) = n"
proof -
  have "(sof OR of_nat n) AND rx_len g = of_nat n AND mask 13"
    using assms(1,2) by (simp add: gem_words gem_ok_def mask_numeral)
  moreover have "unat (of_nat n AND mask 13 :: u32) = take_bit 13 (unat (of_nat n :: u32))"
    by (simp only: unsigned_take_bit_eq flip: take_bit_eq_mask)
  ultimately show ?thesis using assms(3) by (simp add: unsigned_of_nat take_bit_eq_mod)
qed

text \<open>A frame arrives: it is stored in the buffer of the next descriptor and no other memory changes.\<close>

lemma rx_next_free:
  assumes "rx_at g env m e" "bd_address (rxSegments e ! rx_slot e m) AND rx_new g = 0"
  shows "m < 8"
proof (rule ccontr)
  assume "\<not> m < 8"
  then have "m = 8" "rx_slot e m = rx_slot e 0" using assms(1) by (simp_all add: rx_at_def rx_slot_def)
  then show False using assms by (auto simp: rx_at_def)
qed

lemma rx_ok_receive:
  assumes "gem_ok g" "env_ok env" "owners_ok (nic_drv s)" "rx_ok g env s" "sof AND rx_len g = 0" "length frame \<le> 1518"
  shows "rx_ok g env (dma_receive g sof frame s)"
    "\<exists>b. Some b \<in> set (pxDMA_rx_buffers (nic_drv s)) \<and>
       (\<forall>a. a \<noteq> eth_address env b \<longrightarrow> em_memory (nic_drv (dma_receive g sof frame s)) a = em_memory (nic_drv s) a)"
proof -
  define e where "e = nic_drv s"
  obtain m where m: "rx_at g env m e" "hw_rx s = rx_slot e m" "nic_arrived s = nic_taken s @ rx_queue g env m e"
    using assms(4) unfolding rx_ok_def e_def by blast
  define seg where "seg = rxSegments e ! rx_slot e m"
  have len: "length (rxSegments e) = 8" "length (pxDMA_rx_buffers e) = 8" using m(1) by (simp_all add: rx_at_def)
  obtain b where b: "pxDMA_rx_buffers e ! rx_slot e m = Some b" "bd_address seg AND rx_add g = eth_address env b AND rx_add g"
    "bd_address seg AND rx_wrap g = 0 \<longleftrightarrow> rx_slot e m \<noteq> 7"
    and bin: "Some b \<in> set (pxDMA_rx_buffers e)"
    using rx_slot_buffer[OF m(1) rx_slot_less] unfolding seg_def by metis
  have a: "(bd_address seg AND rx_add g) + 2 = eth_address env b"
    using eth_address_aligned[OF assms(2)] assms(1) by (simp add: b(2)) (simp add: gem_ok_def)
  have "em_memory (nic_drv (dma_receive g sof frame s)) x = em_memory e x" if "x \<noteq> eth_address env b" for x
    using that a by (simp add: dma_receive_def Let_def m(2) seg_def flip: e_def)
  then show "\<exists>b. Some b \<in> set (pxDMA_rx_buffers (nic_drv s)) \<and>
       (\<forall>a. a \<noteq> eth_address env b \<longrightarrow> em_memory (nic_drv (dma_receive g sof frame s)) a = em_memory (nic_drv s) a)"
    using bin unfolding e_def by blast
  show "rx_ok g env (dma_receive g sof frame s)"
  proof (cases "bd_address seg AND rx_new g = 0")
    case False
    then show ?thesis using assms(4) m(2) by (simp add: dma_receive_def Let_def seg_def flip: e_def)
  next
    case True
    have m8: "m < 8" using rx_next_free[OF m(1)] True by (simp add: seg_def)
    define e' where "e' = e\<lparr>em_memory := (em_memory e)(eth_address env b := frame @ drop (length frame) (em_memory e (eth_address env b))),
        rxSegments := (rxSegments e)[rx_slot e m := \<lparr>bd_address = bd_address seg OR rx_new g, bd_flags = sof OR of_nat (length frame)\<rparr>]\<rparr>"
    have sl: "rx_slot e' j = rx_slot e j" for j by (simp add: e'_def rx_slot_def)
    have bufs: "pxDMA_rx_buffers e' = pxDMA_rx_buffers e" by (simp add: e'_def)
    have new: "rxSegments e' ! rx_slot e m = \<lparr>bd_address = bd_address seg OR rx_new g, bd_flags = sof OR of_nat (length frame)\<rparr>"
      using len by (simp add: e'_def)
    have other: "rxSegments e' ! i = rxSegments e ! i" if "i \<noteq> rx_slot e m" for i using that by (simp add: e'_def)
    have "rx_slot_ok g env e' i" if "i < 8" for i
    proof (cases "i = rx_slot e m")
      case True
      then show ?thesis using b rx_address_bits(5,6)[OF assms(1)] by (simp add: rx_slot_ok_def new bufs)
    next
      case False
      then show ?thesis using m(1) that by (simp add: rx_slot_ok_def other bufs rx_at_def)
    qed
    moreover have "bd_address (rxSegments e' ! rx_slot e j) AND rx_new g \<noteq> 0 \<longleftrightarrow> j < Suc m" if "j < 8" for j
    proof (cases "j = m")
      case True
      then show ?thesis using rx_address_bits(4)[OF assms(1)] by (simp add: new)
    next
      case False
      then have "rx_slot e j \<noteq> rx_slot e m" using that m8 by (simp add: rx_slot_eq)
      then show ?thesis using m(1) that False by (auto simp: other rx_at_def)
    qed
    ultimately have at: "rx_at g env (Suc m) e'"
      using m(1) m8 unfolding rx_at_def sl by (simp add: bufs) (simp add: e'_def)
    have "rx_frame g env e' (rx_slot e j) = rx_frame g env e (rx_slot e j)" if "j < m" for j
    proof -
      have ne: "rx_slot e j \<noteq> rx_slot e m" using that m8 by (simp add: rx_slot_eq)
      obtain c where c: "pxDMA_rx_buffers e ! rx_slot e j = Some c" and cin: "Some c \<in> set (pxDMA_rx_buffers e)"
        using rx_slot_buffer[OF m(1) rx_slot_less] by metis
      have "distinct (held (pxDMA_rx_buffers e))" using owner_facts(6)[OF assms(3)] by (simp add: e_def)
      then have "c \<noteq> b" using held_distinct[of "pxDMA_rx_buffers e" "rx_slot e j" "rx_slot e m" b] ne len b(1) c by auto
      then have "eth_address env c \<noteq> eth_address env b"
        using cin eth_address_inj[of env c b] owner_facts(4)[OF assms(3)] bin by (auto simp: e_def)
      then show ?thesis using ne by (simp add: rx_frame_def c bufs other) (simp add: e'_def)
    qed
    moreover have "rx_frame g env e' (rx_slot e m) = frame"
      using b(1) rx_length_bits[OF assms(1,5,6)] by (simp add: rx_frame_def new bufs) (simp add: e'_def)
    ultimately have q: "rx_queue g env (Suc m) e' = rx_queue g env m e @ [frame]" by (simp add: rx_queue_def sl)
    have "(if bd_address seg AND rx_wrap g = 0 then rx_slot e m + 1 else 0) = rx_slot e (Suc m)"
      using b(3) rx_slot_Suc[of e m] by auto
    moreover have "dma_receive g sof frame s = s\<lparr>nic_drv := e', hw_rx := (if bd_address seg AND rx_wrap g = 0 then rx_slot e m + 1 else 0),
        nic_arrived := nic_arrived s @ [frame]\<rparr>"
      using True a by (simp add: dma_receive_def Let_def m(2) e'_def flip: e_def seg_def)
    ultimately show ?thesis using at q m(3) by (intro rx_okI[of g env "Suc m"]) (simp_all add: sl)
  qed
qed

text \<open>A round of the receive loop. First what it does beside the descriptor: the frame moves on or stays.\<close>

definition rx_keeps :: "emac \<Rightarrow> emac \<Rightarrow> bool" where
  "rx_keeps e e1 \<longleftrightarrow> rxSegments e1 = rxSegments e \<and> rxHead e1 = rxHead e \<and> em_memory e1 = em_memory e \<and>
     xTXDescriptorSemaphore e1 = xTXDescriptorSemaphore e \<and> txTail e1 = txTail e \<and> txHead e1 = txHead e \<and>
     txSegments e1 = txSegments e \<and> pxDMA_tx_buffers e1 = pxDMA_tx_buffers e"

definition rx_next :: "gem_bits \<Rightarrow> emac_env \<Rightarrow> nat \<Rightarrow> emac \<Rightarrow> emac" where
  "rx_next g env kept e1 =
     e1\<lparr>rxSegments := (rxSegments e1)[rxHead e1 := \<lparr>bd_address = rx_address g env (rxHead e1) kept, bd_flags = 0\<rparr>],
        rxHead := (if rxHead e1 + 1 = ipconfigNIC_N_RX_DESC then 0 else rxHead e1 + 1)\<rparr>"

lemma pass_owners:
  assumes "owners_with [b] e"
  shows "owners_with [] (prvPassEthMessages env b e)" "rx_keeps e (prvPassEthMessages env b e)"
    "pxDMA_rx_buffers (prvPassEthMessages env b e) = pxDMA_rx_buffers e"
proof -
  have "owners_with [b] (e\<lparr>em_passed := em_passed e + 1\<rparr>)" by (rule owners_same[OF assms]) simp_all
  then show "owners_with [] (prvPassEthMessages env b e)"
    using owners_to_stack[of b "e\<lparr>em_passed := em_passed e + 1\<rparr>"] owners_release by (simp add: prvPassEthMessages_def Let_def)
qed (simp_all add: prvPassEthMessages_def rx_keeps_def with_bufs_def Let_def)

lemma check_rx_step_frame:
  assumes "owners_ok e" "rxHead e < 8" "pxDMA_rx_buffers e ! rxHead e = Some b"
    "bd_address (rxSegments e ! rxHead e) AND rx_new g \<noteq> 0"
  obtains kept passed e1 where "check_rx_step g env e = Some (Some (passed, rx_next g env kept e1))"
    "rx_keeps e e1" "owners_ok e1" "pxDMA_rx_buffers e1 = (pxDMA_rx_buffers e)[rxHead e := Some kept]"
proof -
  have o: "owners_with [] e" using assms(1) by (simp add: owners_ok_def)
  let ?acc = "xMayAcceptPacket (em_memory e (eth_address env b))"
  obtain r bufs where g: "pxGetNetworkBufferWithDescriptor dmaRX_TX_BUFFER_SIZE (em_bufs e) = Some (r, bufs)"
    "r = None \<and> bufs = em_bufs e \<or> (\<exists>c. r = Some c \<and> owners_with [c] (e\<lparr>em_bufs := bufs\<rparr>))"
    using owners_get[OF o] by metis
  show thesis
  proof (cases "?acc \<and> r \<noteq> None")
    case False
    then have "check_rx_step g env e = Some (Some (False, rx_next g env b e))"
      using assms(3,4) g by (auto simp: check_rx_step_def rx_next_def Let_def)
    moreover have "(pxDMA_rx_buffers e)[rxHead e := Some b] = pxDMA_rx_buffers e" using assms(3) by (metis list_update_id)
    ultimately show thesis using assms(1) by (intro that[of False b e]) (simp_all add: rx_keeps_def)
  next
    case True
    then obtain c where c: "r = Some c" "owners_with [c] (e\<lparr>em_bufs := bufs\<rparr>)" using g(2) by auto
    define e0 where "e0 = with_bufs (\<lambda>n. n\<lparr>xDataLength := (xDataLength n)(b := unat (bd_flags (rxSegments e ! rxHead e) AND rx_len g))\<rparr>)
        (e\<lparr>em_bufs := bufs, pxDMA_rx_buffers := (pxDMA_rx_buffers e)[rxHead e := Some c]\<rparr>)"
    have "owners_with [b] e0"
      using owners_length[OF owners_swap_rx[OF c(2), of "rxHead e" b]] assms(2,3) by (simp add: e0_def)
    from pass_owners[OF this] have p: "owners_with [] (prvPassEthMessages env b e0)" "rx_keeps e (prvPassEthMessages env b e0)"
      "pxDMA_rx_buffers (prvPassEthMessages env b e0) = (pxDMA_rx_buffers e)[rxHead e := Some c]"
      by (simp_all add: rx_keeps_def) (simp_all add: e0_def with_bufs_def)
    have "check_rx_step g env e = Some (Some (True, rx_next g env c (prvPassEthMessages env b e0)))"
      using assms(3,4) g(1) c(1) True p(2)
      by (simp add: check_rx_step_def rx_next_def Let_def e0_def rx_keeps_def with_bufs_def)
    then show thesis using p by (intro that[of True c]) (simp_all add: owners_ok_def)
  qed
qed

lemma check_rx_step_ok:
  assumes "gem_ok g" "owners_ok e" "rx_at g env (Suc m) e"
  obtains passed e' where "check_rx_step g env e = Some (Some (passed, e'))" "owners_ok e'" "tx_same env e e'"
    "rx_at g env m e'" "rx_slot e' m = rx_slot e (Suc m)"
    "rx_queue g env (Suc m) e = rx_frame g env e (rxHead e) # rx_queue g env m e'"
proof -
  have h: "rxHead e < 8" "rx_slot e 0 = rxHead e" "Suc m \<le> 8" and len: "length (rxSegments e) = 8" "length (pxDMA_rx_buffers e) = 8"
    and new: "bd_address (rxSegments e ! rxHead e) AND rx_new g \<noteq> 0"
    using assms(3) by (auto simp: rx_at_def rx_slot_def dest: spec[of _ 0])
  obtain b where b: "pxDMA_rx_buffers e ! rxHead e = Some b" using rx_slot_buffer[OF assms(3) h(1)] by metis
  obtain kept passed e1 where s: "check_rx_step g env e = Some (Some (passed, rx_next g env kept e1))"
    and k: "rx_keeps e e1" and o: "owners_ok e1" and p: "pxDMA_rx_buffers e1 = (pxDMA_rx_buffers e)[rxHead e := Some kept]"
    using check_rx_step_frame[OF assms(2) h(1) b new] by metis
  define e' where "e' = rx_next g env kept e1"
  have seg: "rxSegments e' = (rxSegments e)[rxHead e := \<lparr>bd_address = rx_address g env (rxHead e) kept, bd_flags = 0\<rparr>]"
    "pxDMA_rx_buffers e' = (pxDMA_rx_buffers e)[rxHead e := Some kept]" "em_memory e' = em_memory e"
    using k p by (simp_all add: e'_def rx_next_def rx_keeps_def)
  have sl: "rx_slot e' j = rx_slot e (Suc j)" for j
    using k h(1) by (simp add: e'_def rx_next_def rx_keeps_def rx_slot_def ipconfigNIC_N_RX_DESC_def)
  have head: "rxHead e' < 8" using k h(1) by (simp add: e'_def rx_next_def rx_keeps_def ipconfigNIC_N_RX_DESC_def)
  have "rx_slot_ok g env e' i" if "i < 8" for i
  proof (cases "i = rxHead e")
    case True
    then show ?thesis using len h(1) rx_address_bits(2,3)[OF assms(1)] by (simp add: rx_slot_ok_def seg)
  next
    case False
    then show ?thesis using assms(3) that by (simp add: rx_slot_ok_def seg rx_at_def)
  qed
  moreover have "bd_address (rxSegments e' ! rx_slot e (Suc j)) AND rx_new g \<noteq> 0 \<longleftrightarrow> j < m" if "j < 8" for j
  proof (cases "j = 7")
    case True
    then have "rx_slot e (Suc j) = rxHead e" using h(1) by (simp add: rx_slot_def)
    then show ?thesis using rx_address_bits(1)[OF assms(1)] len h True by (simp add: seg)
  next
    case False
    then have "rx_slot e (Suc j) \<noteq> rxHead e" "Suc j < 8" using that rx_slot_eq[of "Suc j" 0 e] h by simp_all
    then show ?thesis using assms(3) by (simp add: seg rx_at_def)
  qed
  ultimately have "rx_at g env m e'" using len head h(3) unfolding rx_at_def sl by (simp add: seg)
  moreover have "rx_frame g env e' (rx_slot e (Suc j)) = rx_frame g env e (rx_slot e (Suc j))" if "j < m" for j
  proof -
    have "rx_slot e (Suc j) \<noteq> rxHead e" using that rx_slot_eq[of "Suc j" 0 e] h by simp
    then show ?thesis by (simp add: rx_frame_def seg cong: option.case_cong)
  qed
  then have "rx_queue g env m e' = map (\<lambda>j. rx_frame g env e (rx_slot e (Suc j))) [0..<m]" by (simp add: rx_queue_def sl)
  then have "rx_queue g env (Suc m) e = rx_frame g env e (rxHead e) # rx_queue g env m e'"
    using h(2) by (simp add: rx_queue_def map_upt_Suc del: upt_Suc)
  moreover have "owners_ok e'" using o unfolding owners_ok_def by (rule owners_same) (simp_all add: e'_def rx_next_def)
  moreover have "tx_same env e e'" using k by (simp add: e'_def rx_next_def rx_keeps_def tx_same_def)
  ultimately show thesis using s sl that by (simp add: e'_def)
qed


subsection \<open>The invariant\<close>

definition nic_ok :: "gem_bits \<Rightarrow> emac_env \<Rightarrow> nic \<Rightarrow> bool" where
  "nic_ok g env s \<longleftrightarrow> owners_ok (nic_drv s) \<and> tx_ok g env s \<and> rx_ok g env s"

text \<open>Memory that the stack or the controller writes belongs to one owner.\<close>

lemma write_elsewhere:
  assumes "owners_ok e" "b \<in> set (em_stack e) \<or> Some b \<in> set (pxDMA_rx_buffers e)" "Some c \<in> set (pxDMA_tx_buffers e)"
  shows "eth_address env c \<noteq> eth_address env b"
  using owner_facts[OF assms(1)] eth_address_inj[of env c b] assms(2,3) by metis

lemma write_elsewhere_rx:
  assumes "owners_ok e" "b \<in> set (em_stack e)" "Some c \<in> set (pxDMA_rx_buffers e)"
  shows "eth_address env c \<noteq> eth_address env b"
  using owner_facts[OF assms(1)] eth_address_inj[of env c b] assms(2,3) by metis

lemma same_intro:
  assumes "nic_ok g env s" "owners_ok (nic_drv s')" "tx_same env (nic_drv s) (nic_drv s')" "rx_same env (nic_drv s) (nic_drv s')"
    "hw_tx s' = hw_tx s" "nic_sent s' = nic_sent s" "nic_wire s' = nic_wire s" "hw_rx s' = hw_rx s"
    "nic_arrived s' = nic_arrived s" "nic_taken s' = nic_taken s"
  shows "nic_ok g env s'"
  using assms tx_ok_same[of g env s s'] rx_ok_same[of g env s s'] by (simp add: nic_ok_def)

lemma nic_ok_receive:
  assumes "gem_ok g" "env_ok env" "nic_ok g env s" "sof AND rx_len g = 0" "length frame \<le> 1518"
  shows "nic_ok g env (dma_receive g sof frame s)"
proof -
  let ?s = "dma_receive g sof frame s"
  have o: "owners_ok (nic_drv s)" and r: "rx_ok g env s" using assms(3) by (simp_all add: nic_ok_def)
  obtain b where b: "Some b \<in> set (pxDMA_rx_buffers (nic_drv s))"
    "\<And>a. a \<noteq> eth_address env b \<Longrightarrow> em_memory (nic_drv ?s) a = em_memory (nic_drv s) a"
    using rx_ok_receive(2)[OF assms(1,2) o r assms(4,5)] by blast
  have keep: "xTXDescriptorSemaphore (nic_drv ?s) = xTXDescriptorSemaphore (nic_drv s)" "txTail (nic_drv ?s) = txTail (nic_drv s)"
    "txHead (nic_drv ?s) = txHead (nic_drv s)" "txSegments (nic_drv ?s) = txSegments (nic_drv s)"
    "pxDMA_tx_buffers (nic_drv ?s) = pxDMA_tx_buffers (nic_drv s)" "pxDMA_rx_buffers (nic_drv ?s) = pxDMA_rx_buffers (nic_drv s)"
    "em_bufs (nic_drv ?s) = em_bufs (nic_drv s)" "em_stack (nic_drv ?s) = em_stack (nic_drv s)"
    "hw_tx ?s = hw_tx s" "nic_sent ?s = nic_sent s" "nic_wire ?s = nic_wire s"
    by (simp_all add: dma_receive_def Let_def)
  have "tx_same env (nic_drv s) (nic_drv ?s)"
    using b write_elsewhere[OF o] by (simp add: tx_same_def keep)
  then have "tx_ok g env ?s" using tx_ok_same[of g env s ?s] assms(3) keep by (simp add: nic_ok_def)
  moreover have "owners_ok (nic_drv ?s)" using o keep owners_same unfolding owners_ok_def by blast
  ultimately show ?thesis using rx_ok_receive(1)[OF assms(1,2) o r assms(4,5)] by (simp add: nic_ok_def)
qed

lemma nic_ok_transmit:
  assumes "gem_ok g" "nic_ok g env s"
  shows "nic_ok g env (dma_transmit g s)"
proof -
  have "owners_ok (nic_drv (dma_transmit g s))"
    using assms(2) unfolding nic_ok_def owners_ok_def
    by (auto intro!: owners_same[of _ "nic_drv s"] simp: dma_transmit_def Let_def)
  moreover have "rx_ok g env (dma_transmit g s)"
    using assms(2) unfolding nic_ok_def
    by (auto intro!: rx_ok_same[of _ _ s] simp: dma_transmit_def Let_def rx_same_def)
  ultimately show ?thesis using tx_ok_transmit[OF assms(1)] assms(2) by (simp add: nic_ok_def)
qed

lemma nic_ok_write:
  assumes "nic_ok g env s" "b \<in> set (em_stack (nic_drv s))"
  shows "nic_ok g env (s\<lparr>nic_drv := stack_write env b bytes n (nic_drv s)\<rparr>)"
proof -
  have o: "owners_ok (nic_drv s)" using assms(1) by (simp add: nic_ok_def)
  have "owners_with [] ((nic_drv s)\<lparr>em_memory := (em_memory (nic_drv s))(eth_address env b := bytes)\<rparr>)"
    using o unfolding owners_ok_def by (rule owners_same) simp_all
  then have "owners_ok (stack_write env b bytes n (nic_drv s))"
    unfolding owners_ok_def stack_write_def by (rule owners_length)
  then show ?thesis
    using write_elsewhere[OF o] write_elsewhere_rx[OF o] assms
    by (intro same_intro[OF assms(1)]) (simp_all add: tx_same_def rx_same_def stack_write_def with_bufs_def)
qed

lemma nic_ok_get:
  assumes "nic_ok g env s"
  shows "nic_ok g env (s\<lparr>nic_drv := stack_get n (nic_drv s)\<rparr>)"
proof -
  have o: "owners_with [] (nic_drv s)" using assms by (simp add: nic_ok_def owners_ok_def)
  obtain r bufs where r: "pxGetNetworkBufferWithDescriptor n (em_bufs (nic_drv s)) = Some (r, bufs)"
    "r = None \<and> bufs = em_bufs (nic_drv s) \<or> (\<exists>b. r = Some b \<and> owners_with [b] ((nic_drv s)\<lparr>em_bufs := bufs\<rparr>))"
    using owners_get[OF o] by metis
  show ?thesis
  proof (cases r)
    case None
    then show ?thesis using r assms by (simp add: stack_get_def)
  next
    case (Some b)
    then have "owners_ok (stack_get n (nic_drv s))"
      using r owners_to_stack[of b "(nic_drv s)\<lparr>em_bufs := bufs\<rparr>"] by (simp add: stack_get_def owners_ok_def)
    then show ?thesis using r(1) Some
      by (intro same_intro[OF assms]) (simp_all add: tx_same_def rx_same_def stack_get_def)
  qed
qed

lemma nic_ok_release:
  assumes "nic_ok g env s" "b \<in> set (em_stack (nic_drv s))"
  shows "nic_ok g env (s\<lparr>nic_drv := stack_release b (nic_drv s)\<rparr>)"
proof -
  have "owners_ok (stack_release b (nic_drv s))"
    using assms owners_release[OF owners_from_stack] by (simp add: nic_ok_def owners_ok_def stack_release_def)
  then show ?thesis
    by (intro same_intro[OF assms(1)]) (simp_all add: tx_same_def rx_same_def stack_release_def with_bufs_def)
qed

lemma nic_ok_send:
  assumes "gem_ok g" "nic_ok g env s" "b \<in> set (em_stack (nic_drv s))"
  shows "nic_ok g env (stack_send g env b s)"
proof -
  define e where "e = (nic_drv s)\<lparr>em_stack := remove1 b (em_stack (nic_drv s))\<rparr>"
  have o: "owners_with [b] e" using assms(2,3) owners_from_stack by (simp add: nic_ok_def owners_ok_def e_def)
  obtain c d where t: "tx_at g env c d (nic_drv s)" using assms(2) by (auto simp: nic_ok_def tx_ok_def)
  then have c: "xTXDescriptorSemaphore e = Some c" by (simp add: tx_at_def e_def)
  have slot: "txHead e < 8" "c \<noteq> 0 \<Longrightarrow> pxDMA_tx_buffers e ! txHead e = None"
    using t by (auto simp: tx_at_def e_def)
  obtain acc e1 where s: "emacps_send_message g env b e = (acc, e1)" by fastforce
  have "owners_ok e1"
  proof (cases acc)
    case False
    then have "e1 = with_bufs (vReleaseNetworkBufferAndDescriptor b) e"
      using s by (auto simp: emacps_send_message_def Let_def split: if_splits option.splits)
    then show ?thesis using owners_release[OF o] by (simp add: owners_ok_def)
  next
    case True
    then have "c \<noteq> 0" using s c by (auto simp: emacps_send_message_def Let_def split: if_splits)
    from owners_to_tx[OF o slot(1) slot(2)[OF this]] show ?thesis
      unfolding owners_ok_def
    proof (rule owners_same)
    qed (use s c True in \<open>auto simp: emacps_send_message_def Let_def split: if_splits\<close>)
  qed
  moreover have "rx_same env (nic_drv s) e1"
    using s by (auto simp: rx_same_def e_def emacps_send_message_def Let_def with_bufs_def split: if_splits option.splits)
  moreover have "nic_drv (stack_send g env b s) = e1" "hw_rx (stack_send g env b s) = hw_rx s"
    "nic_arrived (stack_send g env b s) = nic_arrived s" "nic_taken (stack_send g env b s) = nic_taken s"
    using s by (simp_all add: stack_send_def e_def)
  ultimately show ?thesis
    using tx_ok_send[OF assms(1)] assms(2) rx_ok_same[of g env s "stack_send g env b s"] by (simp add: nic_ok_def)
qed

lemma check_tx_slot_owners:
  assumes "tx_at g env c (Suc d) e" "owners_ok e"
  shows "owners_ok (check_tx_slot g e)" "rx_same env e (check_tx_slot g e)"
proof -
  have t: "txTail e < 8" "pxDMA_tx_buffers e ! txTail e \<noteq> None"
    using assms(1) tx_slot_0[of e] by (auto simp: tx_at_def)
  then obtain b where b: "pxDMA_tx_buffers e ! txTail e = Some b" by auto
  have "owners_with [] (with_bufs (vReleaseNetworkBufferAndDescriptor b) (e\<lparr>pxDMA_tx_buffers := (pxDMA_tx_buffers e)[txTail e := None]\<rparr>))"
    using owners_release[OF owners_from_tx[OF _ t(1) b]] assms(2) by (simp add: owners_ok_def)
  then show "owners_ok (check_tx_slot g e)"
    unfolding owners_ok_def by (rule owners_same) (simp_all add: check_tx_slot_def Let_def b)
  show "rx_same env e (check_tx_slot g e)" by (simp add: check_tx_slot_def Let_def b rx_same_def with_bufs_def)
qed

lemma rx_same_trans: "rx_same env e e1 \<Longrightarrow> rx_same env e1 e2 \<Longrightarrow> rx_same env e e2"
  by (simp add: rx_same_def)

lemma check_tx_slots_owners:
  assumes "gem_ok g" "tx_at g env c d e" "owners_ok e"
  shows "owners_ok ((check_tx_slot g ^^ d) e) \<and> rx_same env e ((check_tx_slot g ^^ d) e)"
  using assms(2,3)
proof (induction d arbitrary: c e)
  case 0
  then show ?case by (simp add: rx_same_def)
next
  case (Suc d)
  note o = check_tx_slot_owners[OF Suc.prems]
  show ?case
    using Suc.IH[OF tx_at_clean(1)[OF assms(1) Suc.prems(1)] o(1)] rx_same_trans[OF o(2)] by (simp add: funpow_swap1)
qed

lemma nic_ok_clean:
  assumes "gem_ok g" "nic_ok g env s" "emacps_check_tx g (nic_drv s) = Some e"
  shows "nic_ok g env (s\<lparr>nic_drv := e\<rparr>)"
proof -
  obtain c d where t: "tx_at g env c d (nic_drv s)" using assms(2) by (auto simp: nic_ok_def tx_ok_def)
  have "e = (check_tx_slot g ^^ d) (nic_drv s)" using check_tx_slots[OF assms(1) t] assms(3) by simp
  then have "owners_ok e" "rx_same env (nic_drv s) e"
    using check_tx_slots_owners[OF assms(1) t] assms(2) by (simp_all add: nic_ok_def)
  moreover have "rx_ok g env (s\<lparr>nic_drv := e\<rparr>)"
    using assms(2) calculation(2) by (auto intro!: rx_ok_same[of g env s] simp: nic_ok_def)
  ultimately show ?thesis using tx_ok_clean[OF assms(1) _ assms(3)] assms(2) by (simp add: nic_ok_def)
qed

lemma check_rx_step_idle:
  assumes "rx_at g env 0 e"
  shows "check_rx_step g env e = Some None"
proof -
  have "rx_slot e 0 = rxHead e" using assms by (simp add: rx_at_def rx_slot_def)
  then have "bd_address (rxSegments e ! rxHead e) AND rx_new g = 0" using assms by (auto simp: rx_at_def dest: spec[of _ 0])
  then show ?thesis by (simp add: check_rx_step_def)
qed

lemma nic_ok_take:
  assumes "gem_ok g" "nic_ok g env s" "check_rx_step g env (nic_drv s) = Some (Some (passed, e))"
  shows "nic_ok g env (s\<lparr>nic_drv := e, nic_taken := nic_taken s @ [rx_frame g env (nic_drv s) (rxHead (nic_drv s))]\<rparr>)"
    (is "nic_ok g env ?s")
proof -
  obtain m where m: "rx_at g env m (nic_drv s)" "hw_rx s = rx_slot (nic_drv s) m"
    "nic_arrived s = nic_taken s @ rx_queue g env m (nic_drv s)" using assms(2) by (auto simp: nic_ok_def rx_ok_def)
  obtain n where n: "m = Suc n" using check_rx_step_idle[of g env "nic_drv s"] m(1) assms(3) by (cases m) auto
  have o: "owners_ok (nic_drv s)" using assms(2) by (simp add: nic_ok_def)
  have e: "owners_ok e" "tx_same env (nic_drv s) e" "rx_at g env n e" "rx_slot e n = rx_slot (nic_drv s) (Suc n)"
    "rx_queue g env (Suc n) (nic_drv s) = rx_frame g env (nic_drv s) (rxHead (nic_drv s)) # rx_queue g env n e"
    using check_rx_step_ok[OF assms(1) o m(1)[unfolded n]] assms(3) by (metis option.inject prod.inject)+
  have "tx_ok g env ?s" using assms(2) e(2) by (auto intro!: tx_ok_same[of g env s] simp: nic_ok_def)
  moreover have "rx_ok g env ?s" using e(3-5) m(2,3) n by (intro rx_okI[of g env n]) simp_all
  ultimately show ?thesis using e(1) by (simp add: nic_ok_def)
qed

lemma nic_ok_step:
  assumes "gem_ok g" "env_ok env" "nic_step g env s t" "nic_ok g env s"
  shows "nic_ok g env t"
  using assms(3)
proof cases
  case (hw_receives frame sof)
  then show ?thesis using nic_ok_receive[OF assms(1,2,4)] by simp
next
  case (resets n)
  have "owners_ok (resetrx_on_no_rxdata g n (nic_drv s))"
    using assms(4) unfolding nic_ok_def owners_ok_def
    by (auto intro!: owners_same[of _ "nic_drv s"] simp: resetrx_on_no_rxdata_def Let_def)
  then show ?thesis unfolding resets
    by (intro same_intro[OF assms(4)]) (simp_all add: tx_same_def rx_same_def resetrx_on_no_rxdata_def Let_def)
next
  case tx_interrupt
  have "owners_ok (emacps_send_handler (nic_drv s))"
    using assms(4) unfolding nic_ok_def owners_ok_def
    by (auto intro!: owners_same[of _ "nic_drv s"] simp: emacps_send_handler_def)
  then show ?thesis unfolding tx_interrupt
    by (intro same_intro[OF assms(4)]) (simp_all add: tx_same_def rx_same_def emacps_send_handler_def)
next
  case rx_interrupt
  have "owners_ok (emacps_recv_handler (nic_drv s))"
    using assms(4) unfolding nic_ok_def owners_ok_def
    by (auto intro!: owners_same[of _ "nic_drv s"] simp: emacps_recv_handler_def)
  then show ?thesis unfolding rx_interrupt
    by (intro same_intro[OF assms(4)]) (simp_all add: tx_same_def rx_same_def emacps_recv_handler_def)
next
  case (events w)
  have "owners_ok ((nic_drv s)\<lparr>isr_events := w\<rparr>)"
    using assms(4) unfolding nic_ok_def owners_ok_def by (auto intro!: owners_same[of _ "nic_drv s"])
  then show ?thesis unfolding events by (intro same_intro[OF assms(4)]) (simp_all add: tx_same_def rx_same_def)
qed (use assms nic_ok_transmit nic_ok_get nic_ok_release nic_ok_write nic_ok_send nic_ok_clean nic_ok_take in auto)


subsection \<open>After the initialisation\<close>

text \<open>The loop over the receive descriptors gives each slot without a buffer one, as long as there are enough.\<close>

definition rx_filled :: "gem_bits \<Rightarrow> emac_env \<Rightarrow> emac \<Rightarrow> nat \<Rightarrow> bool" where
  "rx_filled g env e i \<longleftrightarrow> (\<exists>b. pxDMA_rx_buffers e ! i = Some b \<and>
     rxSegments e ! i = \<lparr>bd_address = eth_address env b AND rx_add g, bd_flags = 0\<rparr>)"

definition init_keeps :: "emac \<Rightarrow> emac \<Rightarrow> bool" where
  "init_keeps e e' \<longleftrightarrow> xTXDescriptorSemaphore e' = xTXDescriptorSemaphore e \<and> txTail e' = txTail e \<and> txHead e' = txHead e \<and>
     rxHead e' = rxHead e \<and> pxDMA_tx_buffers e' = pxDMA_tx_buffers e \<and> em_pool e' = em_pool e \<and> em_stack e' = em_stack e"

lemma init_rx_slots_ok:
  assumes "owners_with [] e" "length (rxSegments e) = 8" "k \<le> 8" "\<And>i. i < k \<Longrightarrow> rx_filled g env e i"
    "\<And>i. k \<le> i \<Longrightarrow> i < 8 \<Longrightarrow> pxDMA_rx_buffers e ! i = None" "8 - k \<le> length (xFreeBuffersList (em_bufs e))"
  shows "\<exists>e'. init_rx_slots g env ring_success [k..<8] e = Some (0, e') \<and> owners_with [] e' \<and>
    length (rxSegments e') = 8 \<and> (\<forall>i < 8. rx_filled g env e' i) \<and> init_keeps e e' \<and>
    length (xFreeBuffersList (em_bufs e')) + (8 - k) = length (xFreeBuffersList (em_bufs e))"
  using assms
proof (induction "8 - k" arbitrary: k e)
  case 0
  then show ?case by (simp add: init_keeps_def)
next
  case (Suc n)
  then have k: "k < 8" and n: "n = 8 - Suc k" by linarith+
  have o: "buffers_ok (em_bufs e)" "uxMaxNetworkInterfaceAllocatedSizeBytes (em_bufs e) = dmaRX_TX_BUFFER_SIZE"
    "length (pxDMA_rx_buffers e) = 8" using Suc.prems(1) by (simp_all add: owners_with_def)
  have "xFreeBuffersList (em_bufs e) \<noteq> []" using Suc.prems(6) k by auto
  then obtain b bufs where g: "pxGetNetworkBufferWithDescriptor dmaRX_TX_BUFFER_SIZE (em_bufs e) = Some (Some b, bufs)"
    "buffers_ok bufs" "uxMaxNetworkInterfaceAllocatedSizeBytes bufs = dmaRX_TX_BUFFER_SIZE"
    "xFreeBuffersList (em_bufs e) = b # xFreeBuffersList bufs"
    using get_buffer[OF o(1), of dmaRX_TX_BUFFER_SIZE] o(2) by (auto split: option.splits)
  define e1 where "e1 = e\<lparr>em_bufs := bufs,
      rxSegments := (rxSegments e)[k := \<lparr>bd_address = eth_address env b AND rx_add g, bd_flags = 0\<rparr>],
      pxDMA_rx_buffers := (pxDMA_rx_buffers e)[k := Some b]\<rparr>"
  have none: "pxDMA_rx_buffers e ! k = None" using Suc.prems(5)[of k] k by simp
  have "owners_with [b] (e\<lparr>em_bufs := bufs,
      rxSegments := (rxSegments e)[k := \<lparr>bd_address = eth_address env b AND rx_add g, bd_flags = 0\<rparr>]\<rparr>)"
    using Suc.prems(1) g by (simp add: owners_with_def owners_def)
  from owners_to_rx[OF this k] none have o1: "owners_with [] e1" by (simp add: e1_def)
  have "rx_filled g env e1 i" if "i < Suc k" for i
    using Suc.prems(2) o(3) k Suc.prems(4)[of i] that by (cases "i = k") (auto simp: rx_filled_def e1_def)
  moreover have "pxDMA_rx_buffers e1 ! i = None" if "Suc k \<le> i" "i < 8" for i
    using Suc.prems(5)[of i] that by (simp add: e1_def)
  moreover have "8 - Suc k \<le> length (xFreeBuffersList (em_bufs e1))" using Suc.prems(6) g(4) by (simp add: e1_def)
  moreover have "length (rxSegments e1) = 8" using Suc.prems(2) by (simp add: e1_def)
  ultimately obtain e' where e': "init_rx_slots g env ring_success [Suc k..<8] e1 = Some (0, e')" "owners_with [] e'"
    "length (rxSegments e') = 8" "\<forall>i < 8. rx_filled g env e' i" "init_keeps e1 e'"
    "length (xFreeBuffersList (em_bufs e')) + (8 - Suc k) = length (xFreeBuffersList (em_bufs e1))"
    using Suc.hyps(1)[of "Suc k" e1] n k o1 by auto
  have "[k..<8] = k # [Suc k..<8]" using k by (rule upt_conv_Cons)
  then have "init_rx_slots g env ring_success [k..<8] e = init_rx_slots g env ring_success [Suc k..<8] e1"
    using none g(1) by (simp add: ring_success_def e1_def Let_def)
  moreover have "init_keeps e e'" using e'(5) by (simp add: init_keeps_def e1_def)
  moreover have "length (xFreeBuffersList (em_bufs e')) + (8 - k) = length (xFreeBuffersList (em_bufs e))"
    using e'(6) g(4) k by (simp add: e1_def)
  ultimately show ?case using e' by auto
qed

text \<open>The pool has room for the four requests.\<close>

lemma get_block_room:
  assumes "pool_ok p" "sz \<le> 0x7fffffff" "unat (ulDmaDescriptorOffset p) + unat (aligned_size sz) \<le> 0x800"
  shows "\<exists>p'. pucGetUncachedMemory sz p = Some (Some (ulDmaDescriptorOffset p), p') \<and> pool_ok p' \<and>
    unat (ulDmaDescriptorOffset p') = unat (ulDmaDescriptorOffset p) + unat (aligned_size sz)"
proof -
  have "ulDmaDescriptorOffset p + aligned_size sz \<le> uncMEMORY_SIZE"
    using assms(3) unat_offset_add[OF assms(1,2)] by (simp add: word_le_nat_alt uncMEMORY_SIZE_def)
  then have "\<exists>p'. pucGetUncachedMemory sz p = Some (Some (ulDmaDescriptorOffset p), p')"
    using get_block[OF assms(1,2)] by (auto simp: pucGetUncachedMemory_def Let_def)
  then show ?thesis using get_block[OF assms(1,2)] by auto
qed

lemma init_pool_requests:
  obtains off1 p1 off2 p2 off3 p3 off4 p4 where "pucGetUncachedMemory 64 fresh_pool = Some (Some off1, p1)"
    "pucGetUncachedMemory 64 p1 = Some (Some off2, p2)" "pucGetUncachedMemory 8 p2 = Some (Some off3, p3)"
    "pucGetUncachedMemory 8 p3 = Some (Some off4, p4)"
proof -
  have sz: "unat (aligned_size 64) = 64" "unat (aligned_size 8) = 64" by (simp_all add: unat_aligned_size)
  have p0: "pool_ok fresh_pool" "unat (ulDmaDescriptorOffset fresh_pool) = 0" by (simp_all add: pool_ok_def fresh_pool_def)
  obtain p1 where p1: "pucGetUncachedMemory 64 fresh_pool = Some (Some (ulDmaDescriptorOffset fresh_pool), p1)" "pool_ok p1"
    "unat (ulDmaDescriptorOffset p1) = 64" using get_block_room[OF p0(1), of 64] p0(2) sz by auto
  obtain p2 where p2: "pucGetUncachedMemory 64 p1 = Some (Some (ulDmaDescriptorOffset p1), p2)" "pool_ok p2"
    "unat (ulDmaDescriptorOffset p2) = 128" using get_block_room[OF p1(2), of 64] p1(3) sz by auto
  obtain p3 where p3: "pucGetUncachedMemory 8 p2 = Some (Some (ulDmaDescriptorOffset p2), p3)" "pool_ok p3"
    "unat (ulDmaDescriptorOffset p3) = 192" using get_block_room[OF p2(2), of 8] p2(3) sz by auto
  obtain p4 where "pucGetUncachedMemory 8 p3 = Some (Some (ulDmaDescriptorOffset p3), p4)"
    using get_block_room[OF p3(2), of 8] p3(3) sz by auto
  then show thesis using that p1(1) p2(1) p3(1) by blast
qed

lemma boot_owners:
  "owners_with [] (emac_boot\<lparr>em_pool := p, rxSegments := rs, txSegments := ts, xTXDescriptorSemaphore := c\<rparr>)"
  "xFreeBuffersList (em_bufs emac_boot) = [0..<12]"
proof -
  show free: "xFreeBuffersList (em_bufs emac_boot) = [0..<12]"
    by (simp add: emac_boot_def initialise_ok ipconfigNUM_NETWORK_BUFFER_DESCRIPTORS_def)
  have "buffers_ok (em_bufs emac_boot)" by (simp add: emac_boot_def initialise_ok)
  moreover have "uxMaxNetworkInterfaceAllocatedSizeBytes (em_bufs emac_boot) = dmaRX_TX_BUFFER_SIZE"
    by (simp add: emac_boot_def xNetworkBuffersInitialise_def uxNetworkInterfaceAllocateRAMToBuffers_def
        dmaRX_TX_BUFFER_SIZE_def niBUFFER_1_PACKET_SIZE_def)
  moreover have "owners emac_boot = [0..<12]" using free by (simp add: owners_def) (simp add: emac_boot_def)
  ultimately have "owners_with [] emac_boot"
    by (simp add: owners_with_def ipconfigNUM_NETWORK_BUFFER_DESCRIPTORS_def) (simp add: emac_boot_def)
  then show "owners_with [] (emac_boot\<lparr>em_pool := p, rxSegments := rs, txSegments := ts, xTXDescriptorSemaphore := c\<rparr>)"
    by (rule owners_same) simp_all
qed

text \<open>The state after a successful initialisation.\<close>

definition emac_ready :: "gem_bits \<Rightarrow> emac_env \<Rightarrow> emac \<Rightarrow> bool" where
  "emac_ready g env e \<longleftrightarrow> owners_with [] e \<and> length (rxSegments e) = 8 \<and>
     (\<forall>i < 8. rx_slot_ok g env e i \<and> bd_address (rxSegments e ! i) AND rx_new g = 0) \<and>
     pxDMA_tx_buffers e = replicate 8 None \<and> length (txSegments e) = 8 \<and>
     (\<forall>i < 8. bd_flags (txSegments e ! i) AND tx_used g \<noteq> 0) \<and> rxHead e = 0 \<and> txHead e = 0 \<and> txTail e = 0 \<and>
     xTXDescriptorSemaphore e = Some 8 \<and> em_stack e = [] \<and> length (xFreeBuffersList (em_bufs e)) = 4"

lemma init_dma_ready:
  assumes "gem_ok g"
  shows "\<exists>e. init_dma g env ring_success emac_boot = Some (0, e) \<and> emac_ready g env e"
proof -
  obtain off1 p1 off2 p2 off3 p3 off4 p4 where p: "pucGetUncachedMemory 64 fresh_pool = Some (Some off1, p1)"
    "pucGetUncachedMemory 64 p1 = Some (Some off2, p2)" "pucGetUncachedMemory 8 p2 = Some (Some off3, p3)"
    "pucGetUncachedMemory 8 p3 = Some (Some off4, p4)" by (rule init_pool_requests)
  define e0 where "e0 = emac_boot\<lparr>em_pool := p2, rxSegments := cleared_segments 8, txSegments := cleared_segments 8\<rparr>"
  define e1 where "e1 = e0\<lparr>xTXDescriptorSemaphore := Some 8\<rparr>"
  have alloc: "alloc_segments emac_boot = Some e0"
    using p(1,2) by (simp add: alloc_segments_def e0_def emac_boot_def ipconfigNIC_N_RX_DESC_def ipconfigNIC_N_TX_DESC_def sizeof_xBD_TYPE_def)
  have sem: "create_tx_semaphore e0 = e1"
    by (simp add: create_tx_semaphore_def e1_def e0_def emac_boot_def ipconfigNIC_N_TX_DESC_def)
  have boot: "xFreeBuffersList (em_bufs e1) = [0..<12]" "pxDMA_rx_buffers e1 = replicate 8 None" "owners_with [] e1"
    using boot_owners by (simp_all add: e1_def e0_def) (simp add: emac_boot_def)
  obtain e2 where e2: "init_rx_slots g env ring_success [0..<8] e1 = Some (0, e2)" "owners_with [] e2"
    "length (rxSegments e2) = 8" "\<forall>i < 8. rx_filled g env e2 i" "init_keeps e1 e2" "length (xFreeBuffersList (em_bufs e2)) = 4"
    using init_rx_slots_ok[of e1 0 g env] boot by (auto simp: e1_def e0_def cleared_segments_def)
  define e3 where "e3 = (init_gem_registers g (clean_dma_txdescs g (set_rx_wrap g e2)))\<lparr>em_pool := p4,
      rxBdTerminator := Some \<lparr>bd_address = rx_new g OR rx_wrap g, bd_flags = 0\<rparr>,
      txBdTerminator := Some \<lparr>bd_address = 0, bd_flags = tx_used g OR tx_wrap g\<rparr>\<rparr>"
  have "em_pool (init_gem_registers g (clean_dma_txdescs g (set_rx_wrap g e2))) = p2"
    using e2(5) by (simp add: init_gem_registers_def clean_dma_txdescs_def set_rx_wrap_def Let_def init_keeps_def e1_def e0_def)
  then have tm: "init_terminators g (init_gem_registers g (clean_dma_txdescs g (set_rx_wrap g e2))) = Some e3"
    using p(3,4) by (simp add: init_terminators_def e3_def sizeof_xBD_TYPE_def)
  have init: "init_dma g env ring_success emac_boot = Some (0, e3)"
    using alloc sem e2(1) tm by (simp add: init_dma_def ring_success_def ipconfigNIC_N_RX_DESC_def)
  have f: "pxDMA_rx_buffers e3 = pxDMA_rx_buffers e2" "pxDMA_tx_buffers e3 = replicate 8 None" "pxDMA_tx_buffers e2 = replicate 8 None"
    "em_bufs e3 = em_bufs e2" "em_stack e2 = []" "em_stack e3 = []" "rxHead e3 = 0" "txHead e3 = 0" "txTail e3 = 0"
    "xTXDescriptorSemaphore e3 = Some 8"
    "rxSegments e3 = (rxSegments e2)[7 := (rxSegments e2 ! 7)\<lparr>bd_address := bd_address (rxSegments e2 ! 7) OR rx_wrap g\<rparr>]"
    "txSegments e3 = (replicate 8 \<lparr>bd_address = 0, bd_flags = tx_used g\<rparr>)[7 := \<lparr>bd_address = 0, bd_flags = tx_used g OR tx_wrap g\<rparr>]"
    using e2(5) by (simp_all add: e3_def init_gem_registers_def clean_dma_txdescs_def set_rx_wrap_def Let_def init_keeps_def e1_def
        e0_def emac_boot_def ipconfigNIC_N_TX_DESC_def ipconfigNIC_N_RX_DESC_def)
  have "rx_slot_ok g env e3 i \<and> bd_address (rxSegments e3 ! i) AND rx_new g = 0" if "i < 8" for i
  proof -
    obtain b where "pxDMA_rx_buffers e2 ! i = Some b" "rxSegments e2 ! i = \<lparr>bd_address = eth_address env b AND rx_add g, bd_flags = 0\<rparr>"
      using e2(4) \<open>i < 8\<close> unfolding rx_filled_def by blast
    then show ?thesis using assms e2(3)
      by (cases "i = 7") (simp_all add: rx_slot_ok_def f gem_ok_def gem_words)
  qed
  moreover have "owners_with [] e3" by (rule owners_same[OF e2(2)]) (simp_all add: f)
  moreover have "\<forall>i < 8. bd_flags (txSegments e3 ! i) AND tx_used g \<noteq> 0" using assms by (auto simp: f nth_list_update gem_ok_def)
  ultimately show ?thesis using init e2(3,6) by (simp add: emac_ready_def f)
qed

lemma ready_nic_ok:
  assumes "emac_ready g env e"
  shows "nic_ok g env (nic_start e)"
proof -
  have "tx_at g env 8 0 e" using assms by (simp add: emac_ready_def tx_at_def tx_slot_def)
  then have "tx_ok g env (nic_start e)"
    using assms by (intro tx_okI[of g env 8 0]) (simp_all add: nic_start_def tx_queue_def tx_slot_def emac_ready_def)
  moreover have "rx_at g env 0 e" using assms by (simp add: emac_ready_def rx_at_def owners_with_def)
  then have "rx_ok g env (nic_start e)"
    using assms by (intro rx_okI[of g env 0]) (simp_all add: nic_start_def rx_queue_def rx_slot_def emac_ready_def)
  ultimately show ?thesis using assms by (simp add: nic_ok_def nic_start_def emac_ready_def owners_ok_def)
qed

lemma nic_reachable_ok:
  assumes "nic_reachable g env s" "gem_ok g" "env_ok env"
  shows "nic_ok g env s"
  using assms(1)
proof induction
  case (start e)
  then have "emac_ready g env e" using init_dma_ready[OF assms(2), of env] by auto
  then show ?case by (rule ready_nic_ok)
next
  case (step s t)
  then show ?case using nic_ok_step[OF assms(2,3)] by blast
qed


subsection \<open>Statements\<close>

text \<open>The transmit slots that hold a buffer are those in use.\<close>

lemma tx_held_length:
  assumes "tx_at g env c 0 e"
  shows "length (held (pxDMA_tx_buffers e)) = 8 - c"
proof -
  have len: "length (pxDMA_tx_buffers e) = 8" "txTail e < 8" using assms by (simp_all add: tx_at_def)
  have used: "pxDMA_tx_buffers e ! tx_slot e j \<noteq> None \<longleftrightarrow> j < 8 - c" if "j < 8" for j
    using assms that by (cases "j < 8 - c") (auto simp: tx_at_def tx_pending_def)
  have unslot: "tx_slot e ((i + 8 - txTail e) mod 8) = i" if "i < 8" for i
  proof -
    have "txTail e + (i + 8 - txTail e) = i + 8" using len(2) by simp
    then show ?thesis using that by (simp add: tx_slot_def mod_simps)
  qed
  have "{i. i < 8 \<and> pxDMA_tx_buffers e ! i \<noteq> None} = tx_slot e ` {..<8 - c}"
  proof (intro equalityI subsetI)
    fix i assume i: "i \<in> {i. i < 8 \<and> pxDMA_tx_buffers e ! i \<noteq> None}"
    then have "(i + 8 - txTail e) mod 8 < 8 - c" using used[of "(i + 8 - txTail e) mod 8"] unslot[of i] by simp
    then show "i \<in> tx_slot e ` {..<8 - c}" using unslot[of i] i by (metis (mono_tags, lifting) image_eqI lessThan_iff mem_Collect_eq)
  next
    fix i assume "i \<in> tx_slot e ` {..<8 - c}"
    then obtain j where "i = tx_slot e j" "j < 8 - c" by auto
    then show "i \<in> {i. i < 8 \<and> pxDMA_tx_buffers e ! i \<noteq> None}" using used[of j] by simp
  qed
  moreover have "inj_on (tx_slot e) {..<8 - c}" by (auto simp: inj_on_def tx_slot_eq)
  moreover have "length (held xs) = length (filter (\<lambda>x. x \<noteq> None) xs)" for xs :: "nat option list"
    by (induction xs rule: held.induct) simp_all
  ultimately show ?thesis using len(1) by (simp add: length_filter_conv_card card_image)
qed

text \<open>Whole calls of the receive function are runs of rounds.\<close>

lemma check_rx_loop_run:
  assumes "gem_ok g" "nic_reachable g env s" "nic_ok g env s" "rx_at g env m (nic_drv s)" "m < fuel"
  shows "\<exists>n t. check_rx_loop g env fuel k (nic_drv s) = Some (n, nic_drv t) \<and> k \<le> n \<and> n \<le> k + m \<and> nic_reachable g env t \<and>
    rx_at g env 0 (nic_drv t) \<and> nic_ok g env t \<and> nic_arrived t = nic_arrived s \<and> nic_taken t = nic_taken s @ rx_queue g env m (nic_drv s)"
  using assms(2-5)
proof (induction m arbitrary: s fuel k)
  case 0
  then obtain f where "fuel = Suc f" by (cases fuel) auto
  then show ?case using 0 check_rx_step_idle[of g env "nic_drv s"] by (auto simp: rx_queue_def)
next
  case (Suc m)
  then obtain f where f: "fuel = Suc f" "m < f" by (cases fuel) auto
  have o: "owners_ok (nic_drv s)" using Suc.prems(2) by (simp add: nic_ok_def)
  obtain p e where e: "check_rx_step g env (nic_drv s) = Some (Some (p, e))" "rx_at g env m e"
    "rx_queue g env (Suc m) (nic_drv s) = rx_frame g env (nic_drv s) (rxHead (nic_drv s)) # rx_queue g env m e"
    using check_rx_step_ok[OF assms(1) o Suc.prems(3)] by metis
  define s1 where "s1 = s\<lparr>nic_drv := e, nic_taken := nic_taken s @ [rx_frame g env (nic_drv s) (rxHead (nic_drv s))]\<rparr>"
  have "nic_reachable g env s1" unfolding s1_def using Suc.prems(1) e(1) nic_step.takes nic_reachable.step by metis
  moreover have "nic_ok g env s1" unfolding s1_def by (rule nic_ok_take[OF assms(1) Suc.prems(2) e(1)])
  ultimately obtain n t where "check_rx_loop g env f (if p then k + 1 else k) (nic_drv s1) = Some (n, nic_drv t)"
    "(if p then k + 1 else k) \<le> n" "n \<le> (if p then k + 1 else k) + m"
    "nic_reachable g env t" "rx_at g env 0 (nic_drv t)" "nic_ok g env t" "nic_arrived t = nic_arrived s1"
    "nic_taken t = nic_taken s1 @ rx_queue g env m (nic_drv s1)"
    using Suc.IH[of s1 f "if p then k + 1 else k"] e(2) f(2) by (auto simp: s1_def)
  then show ?case using e f by (intro exI[of _ n] exI[of _ t]) (auto simp: s1_def split: if_splits)
qed

text \<open>
  C26. As long as no transmit error is handled, no network buffer is ever lost or has two owners: whatever the controller, the stack and the driver do otherwise, each of the
  12 buffers is in exactly one place, the free list, a transmit slot, a receive slot or the hands of the stack, and
  the semaphore counts the free ones.
\<close>

theorem nic_buffers_conserved:
  assumes "gem_ok g" "env_ok env" "nic_reachable g env s"
  shows "distinct (owners (nic_drv s)) \<and> set (owners (nic_drv s)) = {0..<ipconfigNUM_NETWORK_BUFFER_DESCRIPTORS} \<and>
    xNetworkBufferSemaphore (em_bufs (nic_drv s)) = Some (uxGetNumberOfFreeNetworkBuffers (em_bufs (nic_drv s)))"
proof -
  have "owners_with [] (nic_drv s)" using nic_reachable_ok[OF assms(3,1,2)] by (simp add: nic_ok_def owners_ok_def)
  then show ?thesis using owners_with_distinct[of "[]" "nic_drv s"]
    by (simp add: ipconfigNUM_NETWORK_BUFFER_DESCRIPTORS_def owners_with_def buffers_ok_def uxGetNumberOfFreeNetworkBuffers_def)
qed

text \<open>
  C27. As long as no transmit error is handled, every frame that the driver accepts reaches the wire once, in order, with the bytes it had when it was handed
  over: at any time the frames sent so far are a prefix of those accepted, at most 8 are outstanding, and the
  controller has nothing left to send only when all of them are out.
\<close>

theorem frames_sent_in_order:
  assumes "gem_ok g" "env_ok env" "nic_reachable g env s"
  shows "\<exists>pending. nic_sent s = nic_wire s @ pending \<and> length pending \<le> ipconfigNIC_N_TX_DESC \<and>
    (pending = [] \<longleftrightarrow> dma_transmit g s = s)"
proof -
  obtain c d where t: "tx_at g env c d (nic_drv s)" "hw_tx s = tx_slot (nic_drv s) d"
    "nic_sent s = nic_wire s @ tx_queue g c d (nic_drv s)"
    using nic_reachable_ok[OF assms(3,1,2)] by (auto simp: nic_ok_def tx_ok_def)
  have cd: "c + d \<le> 8" using t(1) by (simp add: tx_at_def)
  have "dma_transmit g s = s" if "\<not> d < 8 - c"
  proof -
    have "d \<in> {8 - c..<8} \<or> d = 8" using that cd by auto
    then have "d \<in> {8 - c..<8} \<or> 0 < d \<and> tx_slot (nic_drv s) d = tx_slot (nic_drv s) 0" by (auto simp: tx_slot_def)
    then have "bd_flags (txSegments (nic_drv s) ! hw_tx s) AND tx_used g \<noteq> 0" using t(1,2) by (auto simp: tx_at_def)
    then show ?thesis by (simp add: dma_transmit_def)
  qed
  moreover have "dma_transmit g s \<noteq> s" if "d < 8 - c"
  proof -
    have "tx_pending g env (nic_drv s) (hw_tx s)" using t(1,2) that by (simp add: tx_at_def)
    then have "nic_wire (dma_transmit g s) \<noteq> nic_wire s" by (simp add: dma_transmit_def tx_pending_def Let_def)
    then show ?thesis by metis
  qed
  ultimately have "tx_queue g c d (nic_drv s) = [] \<longleftrightarrow> dma_transmit g s = s" by (auto simp: tx_queue_def)
  then show ?thesis using t(3) by (intro exI[of _ "tx_queue g c d (nic_drv s)"]) (simp add: tx_queue_def ipconfigNIC_N_TX_DESC_def)
qed

lemma check_rx_drains:
  assumes "gem_ok g" "env_ok env" "nic_reachable g env s"
  shows "\<exists>n t. emacps_check_rx g env rxcnt (nic_drv s) = Some (n, nic_drv t) \<and> n \<le> ipconfigNIC_N_RX_DESC \<and>
    nic_reachable g env t \<and> nic_arrived t = nic_arrived s \<and> nic_taken t = nic_arrived s \<and>
    check_rx_step g env (nic_drv t) = Some None"
proof -
  define s1 where "s1 = s\<lparr>nic_drv := resetrx_on_no_rxdata g rxcnt (nic_drv s)\<rparr>"
  have r1: "nic_reachable g env s1" unfolding s1_def using assms(3) nic_step.resets nic_reachable.step by metis
  have ok1: "nic_ok g env s1" by (rule nic_reachable_ok[OF r1 assms(1,2)])
  obtain m where m: "rx_at g env m (nic_drv s1)" "nic_arrived s1 = nic_taken s1 @ rx_queue g env m (nic_drv s1)"
    using ok1 by (auto simp: nic_ok_def rx_ok_def)
  then have m8: "m \<le> 8" by (simp add: rx_at_def)
  obtain n t where t: "check_rx_loop g env 9 0 (nic_drv s1) = Some (n, nic_drv t)" "n \<le> m" "nic_reachable g env t"
    "rx_at g env 0 (nic_drv t)" "nic_arrived t = nic_arrived s1" "nic_taken t = nic_taken s1 @ rx_queue g env m (nic_drv s1)"
    using check_rx_loop_run[OF assms(1) r1 ok1 m(1), of 9 0] m8 by auto
  then show ?thesis
    using m m8 check_rx_step_idle[OF t(4)] by (intro exI[of _ n] exI[of _ t])
      (simp add: emacps_check_rx_def ipconfigNIC_N_RX_DESC_def s1_def)
qed


text \<open>
  Cleaning up returns every descriptor whose frame is out: afterwards exactly the frames still waiting for the wire
  occupy descriptors and hold buffers, so that a full ring always becomes free again.
\<close>

theorem check_tx_frees_sent:
  assumes "gem_ok g" "env_ok env" "nic_reachable g env s"
  shows "\<exists>e pending. emacps_check_tx g (nic_drv s) = Some e \<and> nic_sent s = nic_wire s @ pending \<and>
    is_tx_space_available e = length pending \<and> length (held (pxDMA_tx_buffers e)) = length pending"
proof -
  obtain c d where t: "tx_at g env c d (nic_drv s)" "nic_sent s = nic_wire s @ tx_queue g c d (nic_drv s)"
    using nic_reachable_ok[OF assms(3,1,2)] by (auto simp: nic_ok_def tx_ok_def)
  define e where "e = (check_tx_slot g ^^ d) (nic_drv s)"
  have e: "tx_at g env (c + d) 0 e" using tx_at_clean_all(1)[OF assms(1) t(1)] by (simp add: e_def)
  have "length (held (pxDMA_tx_buffers e)) = 8 - (c + d)" by (rule tx_held_length[OF e])
  moreover have "c + d \<le> 8" using t(1) by (simp add: tx_at_def)
  ultimately show ?thesis
    using check_tx_slots[OF assms(1) t(1)] t(2) e
    by (intro exI[of _ e] exI[of _ "tx_queue g c d (nic_drv s)"])
      (simp add: e_def is_tx_space_available_def tx_at_def tx_queue_def ipconfigNIC_N_TX_DESC_def)
qed


subsection \<open>A run\<close>

definition demo_gem :: gem_bits where
  "demo_gem = \<lparr>tx_used = 0x80000000, tx_wrap = 0x40000000, tx_last = 0x8000, tx_len = 0x3FFF, rx_new = 1, rx_wrap = 2,
     rx_add = 0xFFFFFFFC, rx_len = 0x1FFF, nwctrl_starttx = 0x200, nwctrl_rxen = 4, nwctrl_txen = 8,
     dmacr_blength = 0x1F, dmacr_incr16 = 0x10, dmacr_tcpcksum = 0x800, nwcfg_rxoffs = 0xC000, nwcfg_rxchksumen = 0x1000000\<rparr>"

definition demo_net :: emac_env where
  "demo_net = \<lparr>en_packets = 0x100000, en_ip_accepts = (\<lambda>_. True)\<rparr>"

lemma demo_net_ok: "gem_ok demo_gem" "env_ok demo_net"
  by (simp_all add: gem_ok_def demo_gem_def env_ok_def demo_net_def)

text \<open>A frame has arrived, and the stack has written one of 100 bytes into a buffer.\<close>

lemma demo_filled:
  "\<exists>s c. nic_reachable demo_gem demo_net s \<and> em_stack (nic_drv s) = [c] \<and> xTXDescriptorSemaphore (nic_drv s) = Some 8 \<and>
    nic_sent s = [] \<and> nic_wire s = [] \<and> nic_arrived s = [replicate 60 9] \<and> xDataLength (em_bufs (nic_drv s)) c = 100 \<and>
    em_memory (nic_drv s) (eth_address demo_net c) = replicate 1526 7"
proof -
  obtain e where e: "init_dma demo_gem demo_net ring_success emac_boot = Some (0, e)" "emac_ready demo_gem demo_net e"
    using init_dma_ready[OF demo_net_ok(1)] by blast
  have b: "buffers_ok (em_bufs e)" "uxMaxNetworkInterfaceAllocatedSizeBytes (em_bufs e) = 1526"
    using e(2) by (simp_all add: emac_ready_def owners_with_def dmaRX_TX_BUFFER_SIZE_def ipBUFFER_PADDING_def)
  have "xFreeBuffersList (em_bufs e) \<noteq> []" using e(2) by (auto simp: emac_ready_def)
  then obtain c bufs where g: "pxGetNetworkBufferWithDescriptor 100 (em_bufs e) = Some (Some c, bufs)"
    using get_buffer[OF b(1), of 100] b(2) by (auto split: option.splits)
  have "nic_reachable demo_gem demo_net (nic_start e)" by (rule nic_reachable.start[OF e(1)])
  then have r1: "nic_reachable demo_gem demo_net (dma_receive demo_gem 0 (replicate 60 9) (nic_start e))" (is "nic_reachable _ _ ?s1")
    by (rule nic_reachable.step) (rule nic_step.hw_receives, simp_all)
  define s2 where "s2 = ?s1\<lparr>nic_drv := stack_get 100 (nic_drv ?s1)\<rparr>"
  have r2: "nic_reachable demo_gem demo_net s2" unfolding s2_def by (rule nic_reachable.step[OF r1 nic_step.gets])
  define s3 where "s3 = s2\<lparr>nic_drv := stack_write demo_net c (replicate 1526 7) 100 (nic_drv s2)\<rparr>"
  have "bd_address (rxSegments e ! 0) AND rx_new demo_gem = 0" using e(2) by (simp add: emac_ready_def)
  then have s1: "em_bufs (nic_drv ?s1) = em_bufs e" "em_stack (nic_drv ?s1) = []" "xTXDescriptorSemaphore (nic_drv ?s1) = Some 8"
    "nic_sent ?s1 = []" "nic_wire ?s1 = []" "nic_arrived ?s1 = [replicate 60 9]"
    using e(2) by (simp_all add: dma_receive_def Let_def nic_start_def emac_ready_def)
  then have s2: "em_stack (nic_drv s2) = [c]" "xTXDescriptorSemaphore (nic_drv s2) = Some 8" "nic_sent s2 = []" "nic_wire s2 = []"
    "nic_arrived s2 = [replicate 60 9]"
    using g by (simp_all add: s2_def stack_get_def)
  have r3: "nic_reachable demo_gem demo_net s3" unfolding s3_def
    using s2(1) by (intro nic_reachable.step[OF r2] nic_step.writes) simp
  have s3: "em_stack (nic_drv s3) = [c]" "xTXDescriptorSemaphore (nic_drv s3) = Some 8" "nic_sent s3 = []" "nic_wire s3 = []"
    "nic_arrived s3 = [replicate 60 9]" "xDataLength (em_bufs (nic_drv s3)) c = 100"
    "em_memory (nic_drv s3) (eth_address demo_net c) = replicate 1526 7"
    using s2 by (simp_all add: s3_def stack_write_def with_bufs_def)
  then show ?thesis using r3 by blast
qed

text \<open>The frame of 100 bytes has been handed over.\<close>

lemma demo_traffic:
  "\<exists>s. nic_reachable demo_gem demo_net s \<and> nic_sent s = [replicate 100 7] \<and> nic_wire s = [] \<and> nic_arrived s = [replicate 60 9]"
proof -
  obtain s3 c where r3: "nic_reachable demo_gem demo_net s3" and s3: "em_stack (nic_drv s3) = [c]"
    "xTXDescriptorSemaphore (nic_drv s3) = Some 8" "nic_sent s3 = []" "nic_wire s3 = []"
    "nic_arrived s3 = [replicate 60 9]" "xDataLength (em_bufs (nic_drv s3)) c = 100"
    "em_memory (nic_drv s3) (eth_address demo_net c) = replicate 1526 7" using demo_filled by blast
  have "nic_reachable demo_gem demo_net (stack_send demo_gem demo_net c s3)"
    using s3(1) by (intro nic_reachable.step[OF r3] nic_step.sends) simp
  moreover have "nic_sent (stack_send demo_gem demo_net c s3) = [replicate 100 7]" "nic_wire (stack_send demo_gem demo_net c s3) = []"
    "nic_arrived (stack_send demo_gem demo_net c s3) = [replicate 60 9]"
    using s3 by (simp_all add: stack_send_def emacps_send_message_def xValidLength_def Let_def dmaRX_TX_BUFFER_SIZE_def
        ipBUFFER_PADDING_def stack_frame_def)
  ultimately show ?thesis by blast
qed

theorem nic_buffers_conserved_witness:
  "\<exists>s. nic_reachable demo_gem demo_net s \<and> nic_sent s = [replicate 100 7] \<and>
    distinct (owners (nic_drv s)) \<and> set (owners (nic_drv s)) = {0..<ipconfigNUM_NETWORK_BUFFER_DESCRIPTORS} \<and>
    xNetworkBufferSemaphore (em_bufs (nic_drv s)) = Some (uxGetNumberOfFreeNetworkBuffers (em_bufs (nic_drv s)))"
  using demo_traffic nic_buffers_conserved[OF demo_net_ok] by blast

theorem frames_sent_in_order_witness:
  "\<exists>s pending. nic_reachable demo_gem demo_net s \<and> nic_sent s = [replicate 100 7] \<and> nic_wire s = [] \<and>
    nic_sent s = nic_wire s @ pending \<and> length pending \<le> ipconfigNIC_N_TX_DESC \<and> (pending = [] \<longleftrightarrow> dma_transmit demo_gem s = s)"
  using demo_traffic frames_sent_in_order[OF demo_net_ok] by metis


theorem check_tx_frees_sent_witness:
  "\<exists>s e pending. nic_reachable demo_gem demo_net s \<and> nic_sent s = [replicate 100 7] \<and>
    emacps_check_tx demo_gem (nic_drv s) = Some e \<and> nic_sent s = nic_wire s @ pending \<and>
    is_tx_space_available e = length pending \<and> length (held (pxDMA_tx_buffers e)) = length pending"
  using demo_traffic check_tx_frees_sent[OF demo_net_ok] by meson

end
