(* ===== verification/Emac_Phy.thy ===== *)
theory Emac_Phy
  imports Prelude "HOL-Library.State_Monad"
begin

unbundle bit_operations_syntax

section \<open>Link speed\<close>

text \<open>
  \<^verbatim>\<open>netif_versal/x_emacpsif_physpeed.c\<close>: finding the PHY on the management bus, negotiating the link with it and setting
  the clock of the controller. The code is a sequence of register accesses; it is written in the state monad. The
  state holds what the code changes: the writes to the bus in order, the ticks slept, the clock registers and the
  static array of the generic driver. The bus is the environment: \<open>bus_read k a r\<close> is the status of the \<open>k\<close>-th read and
  the contents of the variable after it (when the read fails, what the variable happened to hold). The addresses and
  divisors of the board support package are parameters. Loops that wait for a reset bit without a limit have \<open>fuel\<close>:
  \<open>None\<close> says that the bit was still set after so many reads. Texts for the console are left out.
\<close>

subsection \<open>State\<close>

record phy_env =
  bus_read :: "nat \<Rightarrow> u32 \<Rightarrow> u32 \<Rightarrow> u32 \<times> u16"
  bus_write :: "nat \<Rightarrow> u32"
  zynqmp_base :: "nat \<Rightarrow> u32"
  psu_div :: "nat \<Rightarrow> nat \<Rightarrow> u32 \<times> u32"
  psv_div :: "nat \<Rightarrow> nat \<Rightarrow> u32"
  gmii2rgmii_addr :: "u32 option"

record phy =
  phy_reads :: nat
  phy_writes :: "(u32 \<times> u32 \<times> u16) list"
  phy_ticks :: nat
  phy_mem :: "u32 \<Rightarrow> u32"
  ucAutonegStarted :: "u32 \<Rightarrow> bool"

type_synonym 'a phy_m = "(phy, 'a) state"

definition XST_SUCCESS :: u32 where "XST_SUCCESS = 0"
definition XST_FAILURE :: u32 where "XST_FAILURE = 1"

definition MINIMUM_SLEEP_TIME :: nat where "MINIMUM_SLEEP_TIME = 1000"

definition XEmacPs_PhyRead :: "phy_env \<Rightarrow> u32 \<Rightarrow> u32 \<Rightarrow> (u32 \<times> u16) phy_m" where
  "XEmacPs_PhyRead env a r = State (\<lambda>s. (bus_read env (phy_reads s) a r, s\<lparr>phy_reads := phy_reads s + 1\<rparr>))"

definition XEmacPs_PhyWrite :: "phy_env \<Rightarrow> u32 \<Rightarrow> u32 \<Rightarrow> u16 \<Rightarrow> u32 phy_m" where
  "XEmacPs_PhyWrite env a r v =
     State (\<lambda>s. (bus_write env (length (phy_writes s)), s\<lparr>phy_writes := phy_writes s @ [(a, r, v)]\<rparr>))"

definition vTaskDelay :: "nat \<Rightarrow> unit phy_m" where
  "vTaskDelay n = State (\<lambda>s. ((), s\<lparr>phy_ticks := phy_ticks s + n\<rparr>))"

definition Xil_In32 :: "u32 \<Rightarrow> u32 phy_m" where
  "Xil_In32 a = State (\<lambda>s. (phy_mem s a, s))"

definition Xil_Out32 :: "u32 \<Rightarrow> u32 \<Rightarrow> unit phy_m" where
  "Xil_Out32 a v = State (\<lambda>s. ((), s\<lparr>phy_mem := (phy_mem s)(a := v)\<rparr>))"

text \<open>Two patterns of the code: set bits of a register, and write a register without looking at the status.\<close>

definition phy_or :: "phy_env \<Rightarrow> u32 \<Rightarrow> u32 \<Rightarrow> u16 \<Rightarrow> unit phy_m" where
  "phy_or env a r bits = do {
     (_, control) \<leftarrow> XEmacPs_PhyRead env a r;
     _ \<leftarrow> XEmacPs_PhyWrite env a r (control OR bits);
     State_Monad.return () }"

primrec phy_script :: "phy_env \<Rightarrow> u32 \<Rightarrow> (u32 \<times> u16) list \<Rightarrow> unit phy_m" where
  "phy_script env a [] = State_Monad.return ()"
| "phy_script env a (w # ws) = do { _ \<leftarrow> XEmacPs_PhyWrite env a (fst w) (snd w); phy_script env a ws }"


subsection \<open>Detection\<close>

definition phy_id_valid :: "u32 \<times> u16 \<Rightarrow> u32 \<times> u16 \<Rightarrow> bool" where
  "phy_id_valid r1 r2 \<longleftrightarrow> fst r1 OR fst r2 = XST_SUCCESS \<and> 0 < snd r1 \<and> snd r1 < 0xffff \<and> 0 < snd r2 \<and> snd r2 < 0xffff"

fun detect_from :: "phy_env \<Rightarrow> nat \<Rightarrow> u32 \<Rightarrow> u32 phy_m" where
  "detect_from env 0 phy_addr = State_Monad.return (NOT 0)"
| "detect_from env (Suc left) phy_addr = do {
     r1 \<leftarrow> XEmacPs_PhyRead env phy_addr 2;
     r2 \<leftarrow> XEmacPs_PhyRead env phy_addr 3;
     if phy_id_valid r1 r2 then State_Monad.return phy_addr else detect_from env left (phy_addr + 1) }"

definition ulDetectPHY :: "phy_env \<Rightarrow> u32 phy_m" where
  "ulDetectPHY env = detect_from env 32 0"


subsection \<open>Waiting\<close>

primrec wait_reset :: "phy_env \<Rightarrow> nat \<Rightarrow> u32 \<Rightarrow> bool phy_m" where
  "wait_reset env 0 a = State_Monad.return False"
| "wait_reset env (Suc fuel) a = do {
     (_, control) \<leftarrow> XEmacPs_PhyRead env a 0;
     if control AND 0x8000 \<noteq> 0 then wait_reset env fuel a else State_Monad.return True }"

text \<open>The negotiation is given 30 rounds; some drivers read a status register in each. \<open>False\<close>: it failed.\<close>

primrec wait_autoneg :: "phy_env \<Rightarrow> u32 option \<Rightarrow> nat \<Rightarrow> u32 \<Rightarrow> u16 \<Rightarrow> bool phy_m" where
  "wait_autoneg env extra 0 a status = State_Monad.return False"
| "wait_autoneg env extra (Suc n) a status =
     (if status AND 0x20 \<noteq> 0 then State_Monad.return True
      else do {
        vTaskDelay MINIMUM_SLEEP_TIME;
        _ \<leftarrow> (case extra of None \<Rightarrow> State_Monad.return (0, 0) | Some r \<Rightarrow> XEmacPs_PhyRead env a r);
        if n = 0 then State_Monad.return False
        else do { (_, status') \<leftarrow> XEmacPs_PhyRead env a 1; wait_autoneg env extra n a status' } })"

definition autoneg :: "phy_env \<Rightarrow> u32 option \<Rightarrow> u32 \<Rightarrow> bool phy_m" where
  "autoneg env extra a = do { (_, status) \<leftarrow> XEmacPs_PhyRead env a 1; wait_autoneg env extra 30 a status }"

definition speed_of_bits :: "u16 \<Rightarrow> u32" where
  "speed_of_bits v = (if v AND 0xC000 = 0x8000 then 1000 else if v AND 0xC000 = 0x4000 then 100 else 10)"


subsection \<open>Drivers\<close>

definition configure_IEEE_phy_speed_US :: "phy_env \<Rightarrow> nat \<Rightarrow> u32 \<Rightarrow> u32 phy_m" where
  "configure_IEEE_phy_speed_US env speed a = do {
     _ \<leftarrow> XEmacPs_PhyWrite env a 22 2;
     phy_or env a 21 0x30;
     _ \<leftarrow> XEmacPs_PhyWrite env a 22 0;
     phy_or env a 4 0xC00;
     (_, control) \<leftarrow> XEmacPs_PhyRead env a 0;
     let control = control AND NOT 0x0040 AND NOT 0x2000 AND NOT 0x0000;
     control \<leftarrow>
       (if speed = 1000 then State_Monad.return (control OR 0x0040)
        else if speed = 100 then do { phy_script env a [(9, 0), (4, 0x180)]; State_Monad.return (control OR 0x2000) }
        else if speed = 10 then do { phy_script env a [(9, 0), (4, 0x60)]; State_Monad.return (control OR 0x0000) }
        else State_Monad.return control);
     _ \<leftarrow> XEmacPs_PhyWrite env a 0 (control OR 0x8000);
     State_Monad.return 0 }"

text \<open>Access to an extended register of the TI device: two writes select it, the third sets the data mode.\<close>

definition ti_select :: "phy_env \<Rightarrow> u32 \<Rightarrow> u16 \<Rightarrow> unit phy_m" where
  "ti_select env a r = phy_script env a [(0x0D, 0x001F), (0x0E, r), (0x0D, 0x401F)]"

definition ti_tail :: "phy_env \<Rightarrow> u32 \<Rightarrow> u32 phy_m" where
  "ti_tail env a = do {
     ti_select env a 0x31;
     (_, v) \<leftarrow> XEmacPs_PhyRead env a 0x0E;
     ti_select env a 0x31;
     _ \<leftarrow> XEmacPs_PhyWrite env a 0x0E (v AND NOT 0x80);
     phy_or env a 4 0xDE0;
     phy_or env a 9 0x300;
     phy_or env a 0 0x1200;
     _ \<leftarrow> XEmacPs_PhyRead env a 0;
     ok \<leftarrow> autoneg env None a;
     if \<not> ok then State_Monad.return XST_FAILURE
     else do { (_, v) \<leftarrow> XEmacPs_PhyRead env a 0x11; State_Monad.return (speed_of_bits v) } }"

definition get_TI_phy_speed :: "phy_env \<Rightarrow> u32 \<Rightarrow> u32 phy_m" where
  "get_TI_phy_speed env a = do {
     phy_or env a 0x1F 0x4000;
     (st, _) \<leftarrow> XEmacPs_PhyRead env a 0x1F;
     if st \<noteq> XST_SUCCESS then State_Monad.return XST_FAILURE else do {
     phy_or env a 0 0x8000;
     (st, _) \<leftarrow> XEmacPs_PhyRead env a 0;
     if st \<noteq> XST_SUCCESS then State_Monad.return XST_FAILURE else do {
     _ \<leftarrow> XEmacPs_PhyWrite env a 0x10 0x5048;
     (st, _) \<leftarrow> XEmacPs_PhyRead env a 0x10;
     if st \<noteq> XST_SUCCESS then State_Monad.return XST_FAILURE else do {
     ti_select env a 0x86;
     st \<leftarrow> XEmacPs_PhyWrite env a 0x0E 0xA8;
     if st \<noteq> XST_SUCCESS then State_Monad.return XST_FAILURE else do {
     ti_select env a 0x86;
     (st, _) \<leftarrow> XEmacPs_PhyRead env a 0x0E;
     if st \<noteq> XST_SUCCESS then State_Monad.return XST_FAILURE else do {
     ti_select env a 0x32;
     st \<leftarrow> XEmacPs_PhyWrite env a 0x0E 0xD3;
     if st \<noteq> XST_SUCCESS then State_Monad.return XST_FAILURE else do {
     ti_select env a 0x32;
     (st, _) \<leftarrow> XEmacPs_PhyRead env a 0x0E;
     if st \<noteq> XST_SUCCESS then State_Monad.return XST_FAILURE else ti_tail env a }}}}}}}"

text \<open>What the Marvell, Realtek and Micrel drivers do after the announcements: reset, wait for it, negotiate.\<close>

definition restart_phy :: "phy_env \<Rightarrow> u32 option \<Rightarrow> nat \<Rightarrow> u32 \<Rightarrow> bool option phy_m" where
  "restart_phy env extra fuel a = do {
     phy_or env a 0 0x1200;
     phy_or env a 0 0x8000;
     reset \<leftarrow> wait_reset env fuel a;
     if \<not> reset then State_Monad.return None
     else do { ok \<leftarrow> autoneg env extra a; State_Monad.return (Some ok) } }"

text \<open>\<open>unresolved\<close> is the result when the device says that speed and duplex are not resolved.\<close>

definition specific_speed :: "phy_env \<Rightarrow> u32 \<Rightarrow> u32 \<Rightarrow> u32 phy_m" where
  "specific_speed env unresolved a = do {
     (_, v) \<leftarrow> XEmacPs_PhyRead env a 17;
     State_Monad.return (if v AND 0x400 \<noteq> 0 then speed_of_bits v else unresolved) }"

definition get_Marvell_phy_speed :: "phy_env \<Rightarrow> nat \<Rightarrow> u32 \<Rightarrow> u32 option phy_m" where
  "get_Marvell_phy_speed env fuel a = do {
     _ \<leftarrow> XEmacPs_PhyWrite env a 22 2;
     phy_or env a 21 0x30;
     _ \<leftarrow> XEmacPs_PhyWrite env a 22 0;
     phy_or env a 4 0xDE0;
     phy_or env a 9 0x300;
     _ \<leftarrow> XEmacPs_PhyWrite env a 22 0;
     phy_or env a 16 0x7800;
     r \<leftarrow> restart_phy env (Some 19) fuel a;
     (case r of
        None \<Rightarrow> State_Monad.return None
      | Some ok \<Rightarrow>
          if ok then do { v \<leftarrow> specific_speed env XST_SUCCESS a; State_Monad.return (Some v) }
          else State_Monad.return (Some XST_FAILURE)) }"

definition get_Realtek_phy_speed :: "phy_env \<Rightarrow> nat \<Rightarrow> u32 \<Rightarrow> u32 option phy_m" where
  "get_Realtek_phy_speed env fuel a = do {
     phy_or env a 4 0xDE0;
     phy_or env a 9 0x300;
     r \<leftarrow> restart_phy env None fuel a;
     (case r of
        None \<Rightarrow> State_Monad.return None
      | Some ok \<Rightarrow>
          if ok then do { v \<leftarrow> specific_speed env XST_FAILURE a; State_Monad.return (Some v) }
          else State_Monad.return (Some XST_FAILURE)) }"

definition micrel_delays :: "(u32 \<times> u16) list" where
  "micrel_delays =
     [(0xD, 0x0002), (0xE, 0x0004), (0xD, 0x4002), (0xE, 7 OR push_bit 4 7),
      (0xD, 0x0002), (0xE, 0x0005), (0xD, 0x4002), (0xE, 7 OR push_bit 4 7 OR push_bit 8 7 OR push_bit 12 7),
      (0xD, 0x0002), (0xE, 0x0006), (0xD, 0x4002), (0xE, 7 OR push_bit 4 7 OR push_bit 8 7 OR push_bit 12 7),
      (0xD, 0x0002), (0xE, 0x0008), (0xD, 0x4002), (0xE, 31 OR push_bit 5 31)]"

definition set_Micrel_phy_delays :: "phy_env \<Rightarrow> u32 \<Rightarrow> u32 phy_m" where
  "set_Micrel_phy_delays env a = do {
     (_, v) \<leftarrow> XEmacPs_PhyRead env a 3;
     let PhyType = drop_bit 4 v;
     (if PhyType = 0x164 \<or> PhyType = 0x162 then phy_script env a micrel_delays
      else if PhyType = 0x161 then phy_script env a [(0xB, 0x8104), (0xC, 0xF0F0), (0xB, 0x8105), (0xC, 0)]
      else State_Monad.return ());
     (_, v) \<leftarrow> XEmacPs_PhyRead env a 0;
     w \<leftarrow> XEmacPs_PhyWrite env a 0 (v OR 0x8000);
     vTaskDelay 1;
     (st, _) \<leftarrow> XEmacPs_PhyRead env a 0;
     State_Monad.return (if w OR st \<noteq> XST_SUCCESS then w OR st else ucast PhyType) }"

definition get_Micrel_phy_speed :: "phy_env \<Rightarrow> nat \<Rightarrow> u32 \<Rightarrow> u32 option phy_m" where
  "get_Micrel_phy_speed env fuel a = do {
     _ \<leftarrow> set_Micrel_phy_delays env a;
     phy_or env a 4 0xDE0;
     phy_or env a 9 0x300;
     phy_or env a 16 0x7800;
     r \<leftarrow> restart_phy env (Some 19) fuel a;
     (case r of
        None \<Rightarrow> State_Monad.return None
      | Some ok \<Rightarrow>
          if \<not> ok then State_Monad.return (Some XST_FAILURE)
          else do {
            (_, v) \<leftarrow> XEmacPs_PhyRead env a 10;
            if v AND 0x0800 \<noteq> 0 then State_Monad.return (Some 1000)
            else do {
              (_, v) \<leftarrow> XEmacPs_PhyRead env a 5;
              State_Monad.return (Some (if v AND 0x0100 \<noteq> 0 then 100 else if v AND 0x0040 \<noteq> 0 then 10 else XST_FAILURE)) } }) }"

definition XEmacPs_PhyRead2 :: "phy_env \<Rightarrow> u32 \<Rightarrow> u32 \<Rightarrow> u16 phy_m" where
  "XEmacPs_PhyRead2 env a r = do {
     (st, v) \<leftarrow> XEmacPs_PhyRead env a r;
     State_Monad.return (if st \<noteq> XST_SUCCESS then 0 else v) }"

definition prvAR803x_debug_reg_write :: "phy_env \<Rightarrow> u32 \<Rightarrow> u16 \<Rightarrow> u16 \<Rightarrow> u32 phy_m" where
  "prvAR803x_debug_reg_write env a r v = do {
     _ \<leftarrow> XEmacPs_PhyWrite env a 0x1D r;
     XEmacPs_PhyWrite env a 0x1E v }"

definition prvSET_AR803x_TX_Timing :: "phy_env \<Rightarrow> u32 \<Rightarrow> unit phy_m" where
  "prvSET_AR803x_TX_Timing env a = do {
     _ \<leftarrow> prvAR803x_debug_reg_write env a 0x5 0x2d47;
     _ \<leftarrow> prvAR803x_debug_reg_write env a 0xb 0xbc20;
     State_Monad.return () }"

definition ar8035CheckStatus :: "phy_env \<Rightarrow> u32 \<Rightarrow> u32 phy_m" where
  "ar8035CheckStatus env a = do {
     status \<leftarrow> XEmacPs_PhyRead2 env a 19;
     if status AND 0xC00 = 0 then State_Monad.return 0
     else do {
       status \<leftarrow> XEmacPs_PhyRead2 env a 17;
       State_Monad.return
         (if status AND 0x0400 = 0 then 0
          else if status AND 0xC000 = 0 then 10
          else if status AND 0xC000 = 0x4000 then 100
          else if status AND 0xC000 = 0x8000 then 1000 else 0) } }"

primrec ar8035_reset :: "phy_env \<Rightarrow> nat \<Rightarrow> u32 \<Rightarrow> bool phy_m" where
  "ar8035_reset env 0 a = State_Monad.return False"
| "ar8035_reset env (Suc fuel) a = do {
     control \<leftarrow> XEmacPs_PhyRead2 env a 0;
     if control AND 0x8000 \<noteq> 0 then ar8035_reset env fuel a else State_Monad.return True }"

primrec ar8035_poll :: "phy_env \<Rightarrow> nat \<Rightarrow> u32 \<Rightarrow> u32 phy_m" where
  "ar8035_poll env 0 a = State_Monad.return XST_FAILURE"
| "ar8035_poll env (Suc n) a = do {
     vTaskDelay MINIMUM_SLEEP_TIME;
     if n = 0 then State_Monad.return XST_FAILURE
     else do {
       status \<leftarrow> ar8035CheckStatus env a;
       if 10 < status then do { prvSET_AR803x_TX_Timing env a; State_Monad.return status } else ar8035_poll env n a } }"

definition get_AR8035_phy_speed :: "phy_env \<Rightarrow> nat \<Rightarrow> u32 \<Rightarrow> u32 option phy_m" where
  "get_AR8035_phy_speed env fuel a = do {
     _ \<leftarrow> XEmacPs_PhyWrite env a 0 0x8000;
     reset \<leftarrow> ar8035_reset env fuel a;
     if \<not> reset then State_Monad.return None
     else do {
       phy_script env a [(0, 0x2000 OR 0x1000 OR 0x0100), (4, 0x1000 OR 0xC00 OR 0x180 OR 0x60 OR 0x0001), (9, 0x0200),
         (0x10, 0x0800 OR 0x0060 OR 0x0002), (0x12, 0xC00)];
       v \<leftarrow> ar8035_poll env 30 a;
       State_Monad.return (Some v) } }"

text \<open>The generic driver: ten rounds at most, at least one; the status is read twice because its link bit latches.\<close>

primrec generic_wait :: "phy_env \<Rightarrow> nat \<Rightarrow> u32 \<Rightarrow> u16 phy_m" where
  "generic_wait env 0 a = State_Monad.return 0"
| "generic_wait env (Suc n) a = do {
     vTaskDelay 100;
     _ \<leftarrow> XEmacPs_PhyRead env a 1;
     (_, status) \<leftarrow> XEmacPs_PhyRead env a 1;
     if status AND 0x24 \<noteq> 0x24 \<and> n \<noteq> 0 then generic_wait env n a else State_Monad.return status }"

definition generic_start :: "phy_env \<Rightarrow> u32 \<Rightarrow> unit phy_m" where
  "generic_start env a = do {
     s \<leftarrow> State_Monad.get;
     if a \<le> 31 \<and> \<not> ucAutonegStarted s a
     then do {
       phy_or env a 4 0xDE0;
       phy_or env a 9 0x0200;
       phy_or env a 0 0x1200;
       State_Monad.update (\<lambda>s. s\<lparr>ucAutonegStarted := (ucAutonegStarted s)(a := True)\<rparr>) }
     else State_Monad.return () }"

definition get_Generic_phy_speed_US :: "phy_env \<Rightarrow> u32 \<Rightarrow> u32 phy_m" where
  "get_Generic_phy_speed_US env a = do {
     generic_start env a;
     status \<leftarrow> generic_wait env 10 a;
     (_, advertise) \<leftarrow> XEmacPs_PhyRead env a 4;
     (_, partner) \<leftarrow> XEmacPs_PhyRead env a 5;
     (_, advertise1000) \<leftarrow> XEmacPs_PhyRead env a 9;
     (_, partner1000) \<leftarrow> XEmacPs_PhyRead env a 10;
     State_Monad.return
       (if status AND 0x0004 = 0 then XST_FAILURE
        else if advertise1000 AND 0x0200 \<noteq> 0 \<and> partner1000 AND 0x0800 \<noteq> 0 then 1000
        else if advertise AND 0x180 AND partner \<noteq> 0 then 100
        else if advertise AND 0x60 AND partner \<noteq> 0 then 10
        else XST_FAILURE) }"

definition get_IEEE_phy_speed_US :: "phy_env \<Rightarrow> nat \<Rightarrow> u32 \<Rightarrow> u32 option phy_m" where
  "get_IEEE_phy_speed_US env fuel a = do {
     (_, phy_identity) \<leftarrow> XEmacPs_PhyRead env a 2;
     if phy_identity = 0x2000 then do { v \<leftarrow> get_TI_phy_speed env a; State_Monad.return (Some v) }
     else if phy_identity = 0x001c then get_Realtek_phy_speed env fuel a
     else if phy_identity = 0x0141 then get_Marvell_phy_speed env fuel a
     else if phy_identity = 0x0022 then get_Micrel_phy_speed env fuel a
     else if phy_identity = 0x004D then do {
       v \<leftarrow> get_AR8035_phy_speed env fuel a;
       (case v of
          None \<Rightarrow> State_Monad.return None
        | Some r \<Rightarrow> do { prvSET_AR803x_TX_Timing env a; State_Monad.return (Some r) }) }
     else do { v \<leftarrow> get_Generic_phy_speed_US env a; State_Monad.return (Some v) } }"


subsection \<open>Clocks\<close>

text \<open>The instance whose base address it is, if any.\<close>

definition gem_instance :: "(nat \<Rightarrow> u32) \<Rightarrow> nat \<Rightarrow> u32 \<Rightarrow> nat option" where
  "gem_instance base n a = find (\<lambda>i. a = base i) [0..<n]"

definition crl_zynqmp :: "nat \<Rightarrow> u32" where "crl_zynqmp i = 0xFF5E0050 + of_nat (4 * i)"
definition crl_versal :: "nat \<Rightarrow> u32" where "crl_versal i = 0xFF5E0118 + of_nat (4 * i)"
definition versal_base :: "nat \<Rightarrow> u32" where "versal_base i = 0xFF0C0000 + of_nat (0x10000 * i)"

text \<open>Without a matching instance the divisors stay 0 and nothing is written.\<close>

definition SetUpSLCRDivisors :: "phy_env \<Rightarrow> u32 \<Rightarrow> nat \<Rightarrow> unit phy_m" where
  "SetUpSLCRDivisors env mac_baseaddr speed = do {
     v \<leftarrow> Xil_In32 (mac_baseaddr + 0xFC);
     let gigeversion = drop_bit 16 v AND 0xFFF;
     if gigeversion = 7 then
       (case gem_instance (zynqmp_base env) 4 mac_baseaddr of
          None \<Rightarrow> State_Monad.return ()
        | Some i \<Rightarrow>
            (let (div0, div1) = psu_div env i speed
             in if div0 \<noteq> 0 \<and> div1 \<noteq> 0
                then do {
                  ctrl \<leftarrow> Xil_In32 (crl_zynqmp i);
                  let ctrl = (ctrl AND NOT 0x00003F00) OR push_bit 8 div0;
                  let ctrl = (ctrl AND NOT 0x003F0000) OR push_bit 16 div1;
                  Xil_Out32 (crl_zynqmp i) ctrl }
                else State_Monad.return ()))
     else if gigeversion = 0x107 then
       (case gem_instance versal_base 2 mac_baseaddr of
          None \<Rightarrow> State_Monad.return ()
        | Some i \<Rightarrow>
            if psv_div env i speed \<noteq> 0
            then do {
              ctrl \<leftarrow> Xil_In32 (crl_versal i);
              Xil_Out32 (crl_versal i) ((ctrl AND NOT 0x0003FF00) OR push_bit 8 (psv_div env i speed)) }
            else State_Monad.return ())
     else State_Monad.return () }"

text \<open>The build detects the speed. The result is \<open>XST_FAILURE\<close> or the speed.\<close>

definition Phy_Setup_US :: "phy_env \<Rightarrow> nat \<Rightarrow> u32 \<Rightarrow> u32 \<Rightarrow> u32 option phy_m" where
  "Phy_Setup_US env fuel base a = do {
     r \<leftarrow> get_IEEE_phy_speed_US env fuel a;
     (case r of
        None \<Rightarrow> State_Monad.return None
      | Some link_speed \<Rightarrow>
          if link_speed = XST_FAILURE then State_Monad.return (Some XST_FAILURE)
          else do {
            conv \<leftarrow>
              (if link_speed = 1000 then do { SetUpSLCRDivisors env base 1000; State_Monad.return 0x140 }
               else if link_speed = 100 then do { SetUpSLCRDivisors env base 100; State_Monad.return 0x2100 }
               else do { SetUpSLCRDivisors env base 10; State_Monad.return 0x100 });
            (case gmii2rgmii_addr env of
               None \<Rightarrow> State_Monad.return ()
             | Some c \<Rightarrow> do { _ \<leftarrow> XEmacPs_PhyWrite env c 0x10 conv; State_Monad.return () });
            State_Monad.return (Some link_speed) }) }"


subsection \<open>Reasoning about sequences of accesses\<close>

named_theorems phy_simps "runs of the elementary accesses"

lemma run_accesses [phy_simps]:
  "run_state (XEmacPs_PhyRead env a r) s = (bus_read env (phy_reads s) a r, s\<lparr>phy_reads := phy_reads s + 1\<rparr>)"
  "run_state (XEmacPs_PhyWrite env a r v) s =
    (bus_write env (length (phy_writes s)), s\<lparr>phy_writes := phy_writes s @ [(a, r, v)]\<rparr>)"
  "run_state (vTaskDelay n) s = ((), s\<lparr>phy_ticks := phy_ticks s + n\<rparr>)"
  "run_state (Xil_In32 a) s = (phy_mem s a, s)"
  "run_state (Xil_Out32 a w) s = ((), s\<lparr>phy_mem := (phy_mem s)(a := w)\<rparr>)"
  by (simp_all add: XEmacPs_PhyRead_def XEmacPs_PhyWrite_def vTaskDelay_def Xil_In32_def Xil_Out32_def)

text \<open>What holds of the value a sequence returns and the state it leaves.\<close>

definition returns :: "('a \<Rightarrow> phy \<Rightarrow> bool) \<Rightarrow> 'a phy_m \<Rightarrow> bool" where
  "returns P m \<longleftrightarrow> (\<forall>s. P (fst (run_state m s)) (snd (run_state m s)))"

lemma returns_return: "(\<And>t. P x t) \<Longrightarrow> returns P (State_Monad.return x)"
  by (simp add: returns_def)

lemma returns_bind: "(\<And>x. returns P (f x)) \<Longrightarrow> returns P (State_Monad.bind m f)"
  by (simp add: returns_def case_prod_beta)

lemma returns_bind_via: "returns (\<lambda>x _. Q x) m \<Longrightarrow> (\<And>x. Q x \<Longrightarrow> returns P (f x)) \<Longrightarrow> returns P (State_Monad.bind m f)"
  by (simp add: returns_def case_prod_beta)

text \<open>The ticks a sequence sleeps at most.\<close>

definition sleeps :: "nat \<Rightarrow> 'a phy_m \<Rightarrow> bool" where
  "sleeps n m \<longleftrightarrow> (\<forall>s. phy_ticks (snd (run_state m s)) \<le> phy_ticks s + n)"

lemma sleeps_bind:
  assumes "sleeps k m" "\<And>x. sleeps l (f x)" "k + l \<le> n"
  shows "sleeps n (State_Monad.bind m f)"
  unfolding sleeps_def
proof
  fix s
  obtain x t where m: "run_state m s = (x, t)" by fastforce
  have "phy_ticks t \<le> phy_ticks s + k" using assms(1) m unfolding sleeps_def by (metis snd_conv)
  moreover have "phy_ticks (snd (run_state (f x) t)) \<le> phy_ticks t + l" using assms(2) by (simp add: sleeps_def)
  ultimately show "phy_ticks (snd (run_state (State_Monad.bind m f) s)) \<le> phy_ticks s + n" using assms(3) m by simp
qed

lemma sleeps_0 [simp]:
  "sleeps n (State_Monad.return x)" "sleeps n (XEmacPs_PhyRead env a r)" "sleeps n (XEmacPs_PhyWrite env a r v)"
  "sleeps n (Xil_In32 a)" "sleeps n (Xil_Out32 a w)" "k \<le> n \<Longrightarrow> sleeps n (vTaskDelay k)"
  by (simp_all add: sleeps_def phy_simps)

lemma sleeps_then: "sleeps 0 m \<Longrightarrow> (\<And>x. sleeps n (f x)) \<Longrightarrow> sleeps n (State_Monad.bind m f)"
  by (rule sleeps_bind[of 0 _ n]) simp_all

lemma sleeps_mono: "sleeps k m \<Longrightarrow> k \<le> n \<Longrightarrow> sleeps n m"
  by (meson add_left_mono le_trans sleeps_def)

lemma sleeps_phy_or [simp]: "sleeps n (phy_or env a r v)"
  unfolding phy_or_def by (intro sleeps_bind[of 0 _ 0]) (simp_all split: prod.split add: sleeps_bind[of 0 _ 0])

lemma sleeps_script [simp]: "sleeps n (phy_script env a ws)"
proof -
  have "sleeps 0 (phy_script env a ws)" by (induction ws) (simp_all add: sleeps_bind[of 0 _ 0])
  then show ?thesis by (rule sleeps_mono) simp
qed

lemma sleeps_cases:
  "(\<And>a b. sleeps n (f a b)) \<Longrightarrow> sleeps n (case p of (a, b) \<Rightarrow> f a b)"
  "sleeps n m \<Longrightarrow> (\<And>v. sleeps n (h v)) \<Longrightarrow> sleeps n (case w of None \<Rightarrow> m | Some v \<Rightarrow> h v)"
  "(c \<Longrightarrow> sleeps n m) \<Longrightarrow> (\<not> c \<Longrightarrow> sleeps n m') \<Longrightarrow> sleeps n (if c then m else m')"
  "sleeps n (h' x) \<Longrightarrow> sleeps n (let y = x in h' y)"
  by (simp_all split: prod.split option.split)

lemma returns_cases:
  "(\<And>a b. returns P (f a b)) \<Longrightarrow> returns P (case p of (a, b) \<Rightarrow> f a b)"
  "(w = None \<Longrightarrow> returns P m) \<Longrightarrow> (\<And>v. w = Some v \<Longrightarrow> returns P (h v)) \<Longrightarrow> returns P (case w of None \<Rightarrow> m | Some v \<Rightarrow> h v)"
  "(c \<Longrightarrow> returns P m) \<Longrightarrow> (\<not> c \<Longrightarrow> returns P m') \<Longrightarrow> returns P (if c then m else m')"
  "returns P (h' x) \<Longrightarrow> returns P (let y = x in h' y)"
  by (simp_all split: prod.split option.split)

lemmas sleeps_intros = sleeps_then sleeps_cases
lemmas returns_intros = returns_return returns_bind returns_cases


subsection \<open>How long it takes\<close>

lemma sleeps_wait_reset: "sleeps n (wait_reset env fuel a)"
proof -
  have "sleeps 0 (wait_reset env fuel a)" by (induction fuel) (simp_all, intro sleeps_intros, simp_all)
  then show ?thesis by (rule sleeps_mono) simp
qed

lemma sleeps_wait_autoneg: "sleeps (n * 1000) (wait_autoneg env extra n a status)"
proof (induction n arbitrary: status)
  case (Suc n)
  have "sleeps (Suc n * 1000) (do {
        vTaskDelay MINIMUM_SLEEP_TIME;
        _ \<leftarrow> (case extra of None \<Rightarrow> State_Monad.return (0, 0) | Some r \<Rightarrow> XEmacPs_PhyRead env a r);
        if n = 0 then State_Monad.return False
        else do { (_, status') \<leftarrow> XEmacPs_PhyRead env a 1; wait_autoneg env extra n a status' } })"
    by (rule sleeps_bind[of 1000 _ "n * 1000"]) (simp add: MINIMUM_SLEEP_TIME_def, intro sleeps_intros, simp_all add: Suc sleeps_intros)
  then show ?case by (simp add: Suc)
qed simp

lemma sleeps_autoneg: "sleeps 30000 (autoneg env extra a)"
  unfolding autoneg_def using sleeps_wait_autoneg[of 30] by (intro sleeps_intros) simp_all

lemma sleeps_after_autoneg: "(\<And>v. sleeps 0 (h v)) \<Longrightarrow> sleeps 30000 (State_Monad.bind (autoneg env extra a) h)"
  by (rule sleeps_bind[OF sleeps_autoneg]) simp_all

lemma sleeps_restart: "sleeps 30000 (restart_phy env extra fuel a)"
  unfolding restart_phy_def by (intro sleeps_after_autoneg sleeps_intros) (simp_all add: sleeps_wait_reset)

lemma sleeps_after_restart: "(\<And>v. sleeps 0 (h v)) \<Longrightarrow> sleeps 30000 (State_Monad.bind (restart_phy env extra fuel a) h)"
  by (rule sleeps_bind[OF sleeps_restart]) simp_all

lemma sleeps_update [simp]: "sleeps n State_Monad.get" "(\<And>s. phy_ticks (f s) = phy_ticks s) \<Longrightarrow> sleeps n (State_Monad.update f)"
  by (simp_all add: sleeps_def State_Monad.update_def)

lemma sleeps_short [simp]:
  "sleeps n (ti_select env a r)" "sleeps n (specific_speed env u a)" "sleeps n (prvSET_AR803x_TX_Timing env a)"
  "sleeps n (XEmacPs_PhyRead2 env a q)" "sleeps n (generic_start env a)" "sleeps n (SetUpSLCRDivisors env base speed)"
  unfolding ti_select_def specific_speed_def prvSET_AR803x_TX_Timing_def prvAR803x_debug_reg_write_def XEmacPs_PhyRead2_def
    generic_start_def SetUpSLCRDivisors_def
  by ((intro sleeps_intros)?; simp)+

lemma sleeps_ar8035_reset [simp]: "sleeps n (ar8035_reset env fuel a)"
proof -
  have "sleeps 0 (ar8035_reset env fuel a)" by (induction fuel) (simp_all, intro sleeps_intros, simp_all)
  then show ?thesis by (rule sleeps_mono) simp
qed

lemma sleeps_ar8035_check [simp]: "sleeps n (ar8035CheckStatus env a)"
  unfolding ar8035CheckStatus_def by (intro sleeps_intros) simp_all

lemma sleeps_ar8035_poll: "sleeps (n * 1000) (ar8035_poll env n a)"
proof (induction n)
  case (Suc n)
  show ?case unfolding ar8035_poll.simps
    by (rule sleeps_bind[of 1000 _ "n * 1000"]) (simp add: MINIMUM_SLEEP_TIME_def, intro sleeps_intros, simp_all add: Suc sleeps_intros)
qed simp

lemma sleeps_generic_wait: "sleeps (n * 100) (generic_wait env n a)"
proof (induction n)
  case (Suc n)
  show ?case unfolding generic_wait.simps
    by (rule sleeps_bind[of 100 _ "n * 100"]) (simp, intro sleeps_intros, simp_all add: Suc)
qed simp

lemma sleeps_after_tick: "(\<And>v. sleeps k (h v)) \<Longrightarrow> sleeps (Suc k) (State_Monad.bind (vTaskDelay 1) h)"
  by (rule sleeps_bind[of 1 _ k]) simp_all

lemma sleeps_micrel_delays: "sleeps 1 (set_Micrel_phy_delays env a)"
  unfolding set_Micrel_phy_delays_def One_nat_def
  by (intro sleeps_after_tick[unfolded One_nat_def] sleeps_intros) (simp_all del: phy_script.simps)

lemma sleeps_after_poll: "(\<And>v. sleeps 0 (h v)) \<Longrightarrow> sleeps 30000 (State_Monad.bind (ar8035_poll env 30 a) h)"
  using sleeps_ar8035_poll[of 30] by (intro sleeps_bind[of 30000 _ 0]) simp_all

lemma sleeps_after_generic: "(\<And>v. sleeps 0 (h v)) \<Longrightarrow> sleeps 1000 (State_Monad.bind (generic_wait env 10 a) h)"
  using sleeps_generic_wait[of 10] by (intro sleeps_bind[of 1000 _ 0]) simp_all

lemma sleeps_drivers:
  "sleeps 30000 (get_TI_phy_speed env a)" "sleeps 30000 (get_Marvell_phy_speed env fuel a)"
  "sleeps 30000 (get_Realtek_phy_speed env fuel a)" "sleeps 30001 (get_Micrel_phy_speed env fuel a)"
  "sleeps 30000 (get_AR8035_phy_speed env fuel a)" "sleeps 1000 (get_Generic_phy_speed_US env a)"
proof -
  have "sleeps 30000 (ti_tail env a)"
    unfolding ti_tail_def by (intro sleeps_after_autoneg sleeps_intros) simp_all
  then show "sleeps 30000 (get_TI_phy_speed env a)"
    unfolding get_TI_phy_speed_def by (intro sleeps_intros) simp_all
  show "sleeps 30000 (get_Marvell_phy_speed env fuel a)"
    unfolding get_Marvell_phy_speed_def by (intro sleeps_after_restart sleeps_intros) simp_all
  show "sleeps 30000 (get_Realtek_phy_speed env fuel a)"
    unfolding get_Realtek_phy_speed_def by (intro sleeps_after_restart sleeps_intros) simp_all
  show "sleeps 30001 (get_Micrel_phy_speed env fuel a)"
    unfolding get_Micrel_phy_speed_def
    by (rule sleeps_bind[OF sleeps_micrel_delays, of 30000]; (intro sleeps_after_restart sleeps_intros)?; simp)
  show "sleeps 30000 (get_AR8035_phy_speed env fuel a)"
    unfolding get_AR8035_phy_speed_def by (intro sleeps_after_poll sleeps_intros) (simp_all del: phy_script.simps)
  show "sleeps 1000 (get_Generic_phy_speed_US env a)"
    unfolding get_Generic_phy_speed_US_def by (intro sleeps_after_generic sleeps_intros) simp_all
qed

text \<open>
  C30. Whatever the device answers, setting up the link sleeps at most 30 seconds and a tick: no driver waits for ever
  for the negotiation. (The busy wait for the end of a reset does not sleep; \<open>phy_setup_returns\<close> is about it.)
\<close>

theorem phy_setup_bounded:
  "phy_ticks (snd (run_state (Phy_Setup_US env fuel base a) s)) \<le> phy_ticks s + 30001"
proof -
  have ieee: "sleeps 30001 (get_IEEE_phy_speed_US env fuel a)"
    unfolding get_IEEE_phy_speed_US_def
    by (intro sleeps_bind[where l = 0, OF sleeps_drivers(1)] sleeps_bind[where l = 0, OF sleeps_drivers(5)] sleeps_bind[where l = 0, OF sleeps_drivers(6)]
        sleeps_mono[OF sleeps_drivers(2)] sleeps_mono[OF sleeps_drivers(3)] sleeps_drivers(4) sleeps_then sleeps_cases) simp_all
  have "sleeps 30001 (Phy_Setup_US env fuel base a)"
    unfolding Phy_Setup_US_def by (rule sleeps_bind[OF ieee, of 0]) ((intro sleeps_intros)?, simp_all)+
  then show ?thesis by (simp add: sleeps_def)
qed


subsection \<open>What it reports\<close>

text \<open>The first address at which both identifiers are read and plausible.\<close>

lemma detect_from_first:
  assumes "\<And>k a r. bus_read env k a r = ids a r"
  shows "fst (run_state (detect_from env n a) s) =
    (case find (\<lambda>i. phy_id_valid (ids (a + of_nat i) 2) (ids (a + of_nat i) 3)) [0..<n] of
       None \<Rightarrow> NOT 0 | Some i \<Rightarrow> a + of_nat i)"
proof (induction n arbitrary: a s)
  case (Suc n)
  let ?v = "\<lambda>a i. phy_id_valid (ids (a + of_nat i) 2) (ids (a + of_nat i) 3)"
  have "find (?v a) [0..<Suc n] = (if ?v a 0 then Some 0 else map_option Suc (find (?v (a + 1)) [0..<n]))"
  proof -
    have "find (?v a) (map Suc xs) = map_option Suc (find (?v (a + 1)) xs)" for xs
      by (induction xs) (simp_all add: ac_simps)
    then show ?thesis by (simp add: upt_conv_Cons map_Suc_upt[symmetric] del: upt_Suc)
  qed
  then show ?case using Suc[of "a + 1"]
    by (auto simp: phy_simps assms split: option.splits)
qed simp

text \<open>
  Detection returns the lowest of the 32 addresses at which a device answers with identifiers that are neither all
  zeros nor all ones, and \<open>~0\<close> when there is none.
\<close>

theorem detects_first_phy:
  assumes "\<And>k a r. bus_read env k a r = ids a r"
  shows "fst (run_state (ulDetectPHY env) s) =
    (case find (\<lambda>i. phy_id_valid (ids (of_nat i) 2) (ids (of_nat i) 3)) [0..<32] of None \<Rightarrow> NOT 0 | Some i \<Rightarrow> of_nat i)"
  using detect_from_first[OF assms, of 32 0 s] by (simp add: ulDetectPHY_def cong: option.case_cong)

definition is_speed :: "u32 \<Rightarrow> bool" where "is_speed v \<longleftrightarrow> v = XST_FAILURE \<or> v = 10 \<or> v = 100 \<or> v = 1000"

lemma is_speed_simps [simp]: "is_speed 10" "is_speed 100" "is_speed 1000" "is_speed XST_FAILURE" "is_speed (speed_of_bits v)"
  by (simp_all add: is_speed_def speed_of_bits_def)

lemma driver_results:
  "returns (\<lambda>v _. is_speed v) (get_TI_phy_speed env a)"
  "returns (\<lambda>v _. pred_option is_speed v) (get_Realtek_phy_speed env fuel a)"
  "returns (\<lambda>v _. pred_option (\<lambda>v. is_speed v \<or> v = XST_SUCCESS) v) (get_Marvell_phy_speed env fuel a)"
  "returns (\<lambda>v _. pred_option is_speed v) (get_Micrel_phy_speed env fuel a)"
  "returns (\<lambda>v _. is_speed v) (get_Generic_phy_speed_US env a)"
proof -
  have spec: "returns (\<lambda>v _. is_speed v \<or> v = u) (specific_speed env u a)" for u
    unfolding specific_speed_def by (intro returns_intros) simp
  show "returns (\<lambda>v _. is_speed v) (get_TI_phy_speed env a)"
    unfolding get_TI_phy_speed_def ti_tail_def by (intro returns_intros) simp_all
  show "returns (\<lambda>v _. pred_option is_speed v) (get_Micrel_phy_speed env fuel a)"
    unfolding get_Micrel_phy_speed_def by (intro returns_intros) simp_all
  show "returns (\<lambda>v _. is_speed v) (get_Generic_phy_speed_US env a)"
    unfolding get_Generic_phy_speed_US_def by (intro returns_intros) simp_all
  have "returns (\<lambda>v _. pred_option is_speed v) (State_Monad.bind (specific_speed env XST_FAILURE a) (\<lambda>v. State_Monad.return (Some v)))"
    by (rule returns_bind_via[OF spec]) (auto intro: returns_return)
  note realtek = this
  show "returns (\<lambda>v _. pred_option is_speed v) (get_Realtek_phy_speed env fuel a)"
    unfolding get_Realtek_phy_speed_def by (intro realtek returns_bind returns_cases) (simp_all add: returns_return)
  have "returns (\<lambda>v _. pred_option (\<lambda>v. is_speed v \<or> v = XST_SUCCESS) v)
      (State_Monad.bind (specific_speed env XST_SUCCESS a) (\<lambda>v. State_Monad.return (Some v)))"
    by (rule returns_bind_via[OF spec]) (auto intro: returns_return)
  note marvell = this
  show "returns (\<lambda>v _. pred_option (\<lambda>v. is_speed v \<or> v = XST_SUCCESS) v) (get_Marvell_phy_speed env fuel a)"
    unfolding get_Marvell_phy_speed_def by (intro marvell returns_bind returns_cases) (simp_all add: returns_return)
qed

text \<open>The Atheros driver takes a link of 10 Mbit/s for no link: it asks for a speed above 10.\<close>

lemma ar8035_never_10:
  "returns (\<lambda>v _. pred_option (\<lambda>v. v = XST_FAILURE \<or> v = 100 \<or> v = 1000) v) (get_AR8035_phy_speed env fuel a)"
proof -
  have check: "returns (\<lambda>v _. v \<in> {0, 10, 100, 1000}) (ar8035CheckStatus env a)"
    unfolding ar8035CheckStatus_def by (intro returns_intros) simp_all
  have "returns (\<lambda>v _. v = XST_FAILURE \<or> v = 100 \<or> v = 1000) (ar8035_poll env n a)" for n
  proof (induction n)
    case (Suc n)
    show ?case unfolding ar8035_poll.simps
      by (intro returns_bind_via[OF check] returns_intros) (use Suc in \<open>auto simp: returns_return\<close>)
  qed (simp add: returns_return)
  note poll = this
  show ?thesis unfolding get_AR8035_phy_speed_def
    by (intro returns_bind_via[OF poll] returns_intros) auto
qed

lemma returnsD: "returns P m \<Longrightarrow> run_state m s = (v, t) \<Longrightarrow> P v t"
  unfolding returns_def by (metis fst_conv snd_conv)

lemma ieee_speed:
  assumes "run_state (get_IEEE_phy_speed_US env fuel a) s = (Some v, t)"
  shows "is_speed v \<or> v = XST_SUCCESS \<and> snd (bus_read env (phy_reads s) a 2) = 0x0141"
proof -
  define i where "i = snd (bus_read env (phy_reads s) a 2)"
  define s1 where "s1 = s\<lparr>phy_reads := phy_reads s + 1\<rparr>"
  consider "i = 0x2000" | "i = 0x001c" | "i = 0x0141" | "i = 0x0022" | "i = 0x004D" | "i \<notin> {0x2000, 0x1c, 0x141, 0x22, 0x4D}" by blast
  then show ?thesis
  proof cases
    case 1
    then have "run_state (get_TI_phy_speed env a) s1 = (v, t)"
      using assms by (auto simp: get_IEEE_phy_speed_US_def phy_simps i_def s1_def split: prod.splits)
    then show ?thesis using returnsD[OF driver_results(1)] by blast
  next
    case 2
    then have "run_state (get_Realtek_phy_speed env fuel a) s1 = (Some v, t)"
      using assms by (auto simp: get_IEEE_phy_speed_US_def phy_simps i_def s1_def split: prod.splits)
    then show ?thesis using returnsD[OF driver_results(2)] by fastforce
  next
    case 3
    then have "run_state (get_Marvell_phy_speed env fuel a) s1 = (Some v, t)"
      using assms by (auto simp: get_IEEE_phy_speed_US_def phy_simps i_def s1_def split: prod.splits)
    then show ?thesis using returnsD[OF driver_results(3)] 3 by (fastforce simp: i_def)
  next
    case 4
    then have "run_state (get_Micrel_phy_speed env fuel a) s1 = (Some v, t)"
      using assms by (auto simp: get_IEEE_phy_speed_US_def phy_simps i_def s1_def split: prod.splits)
    then show ?thesis using returnsD[OF driver_results(4)] by fastforce
  next
    case 5
    then obtain t' where "run_state (get_AR8035_phy_speed env fuel a) s1 = (Some v, t')"
      using assms by (auto simp: get_IEEE_phy_speed_US_def phy_simps i_def s1_def split: prod.splits option.splits)
    then show ?thesis using returnsD[OF ar8035_never_10] by (fastforce simp: is_speed_def)
  next
    case 6
    then have "run_state (get_Generic_phy_speed_US env a) s1 = (v, t)"
      using assms by (auto simp: get_IEEE_phy_speed_US_def phy_simps i_def s1_def split: prod.splits)
    then show ?thesis using returnsD[OF driver_results(5)] by blast
  qed
qed

lemma phy_setup_run:
  assumes "run_state (Phy_Setup_US env fuel base a) s = (Some v, t)"
  obtains t' where "run_state (get_IEEE_phy_speed_US env fuel a) s = (Some v, t')"
proof -
  obtain r t' where r: "run_state (get_IEEE_phy_speed_US env fuel a) s = (r, t')" by fastforce
  then have "r = Some v" using assms by (auto simp: Phy_Setup_US_def split: prod.splits option.splits if_splits)
  then show thesis using that r by blast
qed

text \<open>
  The link setup reports failure or one of the three speeds of the standard, for every device and every answer on the
  bus, with one exception: the Marvell driver may report the speed 0.
\<close>

theorem phy_setup_speed:
  assumes "run_state (Phy_Setup_US env fuel base a) s = (Some v, t)"
  shows "v = XST_FAILURE \<or> v = 10 \<or> v = 100 \<or> v = 1000 \<or>
    v = XST_SUCCESS \<and> snd (bus_read env (phy_reads s) a 2) = 0x0141"
proof -
  obtain t' where "run_state (get_IEEE_phy_speed_US env fuel a) s = (Some v, t')" using phy_setup_run[OF assms] by blast
  then show ?thesis using ieee_speed[of env fuel a s v t'] by (auto simp: is_speed_def)
qed


subsection \<open>That it returns\<close>

lemma wait_reset_returns:
  assumes "\<exists>j < fuel. snd (bus_read env (phy_reads s + j) a 0) AND 0x8000 = 0"
  shows "fst (run_state (wait_reset env fuel a) s)" "fst (run_state (ar8035_reset env fuel a) s)"
proof -
  have "fst (run_state (wait_reset env fuel a) s) \<and> fst (run_state (ar8035_reset env fuel a) s)"
    using assms
  proof (induction fuel arbitrary: s)
    case (Suc fuel)
    then obtain j where j: "j < Suc fuel" "snd (bus_read env (phy_reads s + j) a 0) AND 0x8000 = 0" by blast
    show ?case
    proof (cases "snd (bus_read env (phy_reads s) a 0) AND 0x8000 = 0")
      case True
      then show ?thesis by (auto simp: phy_simps XEmacPs_PhyRead2_def split: prod.split)
    next
      case False
      then obtain k where "j = Suc k" using j(2) by (cases j) auto
      then have "\<exists>j < fuel. snd (bus_read env (phy_reads (s\<lparr>phy_reads := Suc (phy_reads s)\<rparr>) + j) a 0) AND 0x8000 = 0"
        using j by (intro exI[of _ k]) simp
      from Suc.IH[OF this] show ?thesis by (auto simp: phy_simps XEmacPs_PhyRead2_def split: prod.split)
    qed
  qed simp
  then show "fst (run_state (wait_reset env fuel a) s)" "fst (run_state (ar8035_reset env fuel a) s)" by simp_all
qed

text \<open>\<open>answers\<close>: the sequence returns a result, from any state.\<close>

definition answers :: "'a option phy_m \<Rightarrow> bool" where "answers m \<longleftrightarrow> returns (\<lambda>v _. v \<noteq> None) m"

lemma restart_answers:
  assumes "\<And>k. \<exists>j < fuel. snd (bus_read env (k + j) a 0) AND 0x8000 = 0"
  shows "answers (restart_phy env extra fuel a)"
proof -
  have "returns (\<lambda>v _. v) (wait_reset env fuel a)" using wait_reset_returns(1)[OF assms] by (simp add: returns_def)
  note reset = this
  show ?thesis unfolding answers_def restart_phy_def
    by (intro returns_bind_via[OF reset] returns_intros) simp_all
qed

lemma drivers_answer:
  assumes "\<And>k. \<exists>j < fuel. snd (bus_read env (k + j) a 0) AND 0x8000 = 0"
  shows "answers (get_Marvell_phy_speed env fuel a)" "answers (get_Realtek_phy_speed env fuel a)"
    "answers (get_Micrel_phy_speed env fuel a)" "answers (get_AR8035_phy_speed env fuel a)"
proof -
  note restart = restart_answers[OF assms, unfolded answers_def]
  show "answers (get_Marvell_phy_speed env fuel a)"
    unfolding answers_def get_Marvell_phy_speed_def
    by (intro returns_bind_via[OF restart] returns_intros) simp_all
  show "answers (get_Realtek_phy_speed env fuel a)"
    unfolding answers_def get_Realtek_phy_speed_def
    by (intro returns_bind_via[OF restart] returns_intros) simp_all
  show "answers (get_Micrel_phy_speed env fuel a)"
    unfolding answers_def get_Micrel_phy_speed_def
    by (intro returns_bind_via[OF restart] returns_intros) simp_all
  have "returns (\<lambda>v _. v) (ar8035_reset env fuel a)" using wait_reset_returns(2)[OF assms] by (simp add: returns_def)
  note reset = this
  show "answers (get_AR8035_phy_speed env fuel a)"
    unfolding answers_def get_AR8035_phy_speed_def
    by (intro returns_bind_via[OF reset] returns_intros) simp_all
qed

text \<open>
  Setting up the link returns: when the device clears its reset bit within \<open>fuel\<close> reads, every driver comes to an end
  with a result.
\<close>

theorem phy_setup_returns:
  assumes "\<And>k. \<exists>j < fuel. snd (bus_read env (k + j) a 0) AND 0x8000 = 0"
  shows "\<exists>v t. run_state (Phy_Setup_US env fuel base a) s = (Some v, t)"
proof -
  note ans = drivers_answer[OF assms, unfolded answers_def]
  have "answers (get_IEEE_phy_speed_US env fuel a)"
    unfolding answers_def get_IEEE_phy_speed_US_def
    by (intro ans returns_bind_via[OF ans(4)] returns_intros) simp_all
  note ieee = this[unfolded answers_def]
  have "answers (Phy_Setup_US env fuel base a)"
    unfolding answers_def Phy_Setup_US_def by (intro returns_bind_via[OF ieee] returns_intros) simp_all
  then have "fst (run_state (Phy_Setup_US env fuel base a) s) \<noteq> None" by (simp add: answers_def returns_def)
  then show ?thesis by (metis not_None_eq prod.collapse)
qed

text \<open>A run of the TI driver that does not fail ends with a read of the status register, and reports what it says.\<close>

theorem ti_speed_reported:
  assumes "run_state (get_TI_phy_speed env a) s = (v, t)" "v \<noteq> XST_FAILURE"
  shows "v = speed_of_bits (snd (bus_read env (phy_reads t - 1) a 0x11))"
proof -
  define P where "P = (\<lambda>v (t :: phy). v = XST_FAILURE \<or> v = speed_of_bits (snd (bus_read env (phy_reads t - 1) a 0x11)))"
  have fail: "P XST_FAILURE t" for t by (simp add: P_def)
  have final: "returns P (do { (_, v) \<leftarrow> XEmacPs_PhyRead env a 0x11; State_Monad.return (speed_of_bits v) })"
    by (simp add: returns_def phy_simps case_prod_beta P_def)
  have "returns P (ti_tail env a)" unfolding ti_tail_def by (intro final returns_intros fail)
  then have "returns P (get_TI_phy_speed env a)" unfolding get_TI_phy_speed_def by (intro returns_intros fail)
  then have "P v t" using assms(1) by (rule returnsD)
  then show ?thesis using assms(2) by (simp add: P_def)
qed


subsection \<open>The clock\<close>

definition same_mem :: "phy \<Rightarrow> phy \<Rightarrow> bool" where "same_mem s t \<longleftrightarrow> phy_mem t = phy_mem s"

lemma same_mem_bind:
  "state_io_rel same_mem m \<Longrightarrow> (\<And>x. state_io_rel same_mem (f x)) \<Longrightarrow> state_io_rel same_mem (State_Monad.bind m f)"
  by (simp add: state_io_rel_def same_mem_def case_prod_beta)

lemma same_mem_cases:
  "(\<And>a b. state_io_rel same_mem (f a b)) \<Longrightarrow> state_io_rel same_mem (case p of (a, b) \<Rightarrow> f a b)"
  "state_io_rel same_mem m \<Longrightarrow> (\<And>v. state_io_rel same_mem (h v)) \<Longrightarrow> state_io_rel same_mem (case w of None \<Rightarrow> m | Some v \<Rightarrow> h v)"
  "(c \<Longrightarrow> state_io_rel same_mem m) \<Longrightarrow> (\<not> c \<Longrightarrow> state_io_rel same_mem m') \<Longrightarrow> state_io_rel same_mem (if c then m else m')"
  "state_io_rel same_mem (h' x) \<Longrightarrow> state_io_rel same_mem (let y = x in h' y)"
  by (simp_all split: prod.split option.split)

lemma same_mem_basic:
  "state_io_rel same_mem (State_Monad.return x)" "state_io_rel same_mem (XEmacPs_PhyRead env a r)"
  "state_io_rel same_mem (XEmacPs_PhyWrite env a r v)" "state_io_rel same_mem (vTaskDelay n)" "state_io_rel same_mem State_Monad.get"
  "(\<And>s. phy_mem (g s) = phy_mem s) \<Longrightarrow> state_io_rel same_mem (State_Monad.update g)"
  by (simp_all add: state_io_rel_def same_mem_def phy_simps State_Monad.update_def)

lemmas same_mem_intros = same_mem_basic same_mem_bind same_mem_cases

lemma same_mem_parts:
  "state_io_rel same_mem (phy_or env a r b)" "state_io_rel same_mem (phy_script env a ws)"
  "state_io_rel same_mem (wait_reset env fuel a)" "state_io_rel same_mem (ar8035_reset env fuel a)"
  "state_io_rel same_mem (wait_autoneg env extra n a status)" "state_io_rel same_mem (generic_wait env n a)"
proof -
  show "state_io_rel same_mem (phy_or env a r b)" unfolding phy_or_def by (intro same_mem_intros)
  show "state_io_rel same_mem (phy_script env a ws)"
    by (induction ws) (simp_all add: same_mem_basic, intro same_mem_intros)
  show "state_io_rel same_mem (wait_reset env fuel a)"
    by (induction fuel) (simp_all add: same_mem_basic, intro same_mem_intros)
  show "state_io_rel same_mem (ar8035_reset env fuel a)"
    by (induction fuel) (simp_all add: same_mem_basic XEmacPs_PhyRead2_def, intro same_mem_intros)
  show "state_io_rel same_mem (wait_autoneg env extra n a status)"
    by (induction n arbitrary: status) (simp_all only: wait_autoneg.simps, intro same_mem_intros, intro same_mem_intros)
  show "state_io_rel same_mem (generic_wait env n a)"
    by (induction n) (simp_all only: generic_wait.simps, intro same_mem_intros, intro same_mem_intros)
qed

lemma same_mem_ar8035_check: "state_io_rel same_mem (ar8035CheckStatus env a)"
  unfolding ar8035CheckStatus_def XEmacPs_PhyRead2_def by (intro same_mem_intros)

lemma same_mem_timing: "state_io_rel same_mem (prvSET_AR803x_TX_Timing env a)"
  unfolding prvSET_AR803x_TX_Timing_def prvAR803x_debug_reg_write_def by (intro same_mem_intros)

lemma same_mem_poll: "state_io_rel same_mem (ar8035_poll env n a)"
  by (induction n) (simp_all only: ar8035_poll.simps, intro same_mem_intros, intro same_mem_ar8035_check same_mem_timing same_mem_intros)

lemmas same_mem_all = same_mem_parts same_mem_poll same_mem_timing same_mem_ar8035_check same_mem_intros

lemma same_mem_ieee: "state_io_rel same_mem (get_IEEE_phy_speed_US env fuel a)"
  unfolding get_IEEE_phy_speed_US_def get_TI_phy_speed_def ti_tail_def ti_select_def autoneg_def get_Realtek_phy_speed_def
    get_Marvell_phy_speed_def specific_speed_def restart_phy_def get_Micrel_phy_speed_def set_Micrel_phy_delays_def
    get_AR8035_phy_speed_def get_Generic_phy_speed_US_def generic_start_def
  by (intro same_mem_all) simp_all

lemma versal_instance: "i < 2 \<Longrightarrow> gem_instance versal_base 2 (versal_base i) = Some i"
  by (auto simp: gem_instance_def versal_base_def less_2_cases_iff upt_rec)

definition mbit_speed :: "u32 \<Rightarrow> nat" where
  "mbit_speed v = (if v = 1000 then 1000 else if v = 100 then 100 else 10)"

text \<open>
  The clock follows the speed: when the setup reports a speed on a Versal controller, the divisor field of its clock
  register holds the divisor configured for this speed, the other bits and all other registers are as before.
\<close>

theorem clock_follows_speed:
  assumes "run_state (Phy_Setup_US env fuel (versal_base i) a) s = (Some v, t)" "v \<noteq> XST_FAILURE" "i < 2"
    "drop_bit 16 (phy_mem s (versal_base i + 0xFC)) AND 0xFFF = 0x107" "psv_div env i (mbit_speed v) \<noteq> 0"
  shows "phy_mem t = (phy_mem s)(crl_versal i :=
    (phy_mem s (crl_versal i) AND NOT 0x0003FF00) OR push_bit 8 (psv_div env i (mbit_speed v)))"
proof -
  obtain t' where t': "run_state (get_IEEE_phy_speed_US env fuel a) s = (Some v, t')" using phy_setup_run[OF assms(1)] by blast
  have mem: "phy_mem t' = phy_mem s" using same_mem_ieee t' by (metis same_mem_def state_io_relD)
  have "snd (run_state (SetUpSLCRDivisors env (versal_base i) (mbit_speed v)) t') = t'\<lparr>phy_mem := (phy_mem s)(crl_versal i :=
    (phy_mem s (crl_versal i) AND NOT 0x0003FF00) OR push_bit 8 (psv_div env i (mbit_speed v)))\<rparr>"
    using assms(3-5) versal_instance by (simp add: SetUpSLCRDivisors_def phy_simps mem Let_def)
  then show ?thesis
    using assms(1,2) t' by (auto simp: Phy_Setup_US_def phy_simps mbit_speed_def split: prod.splits option.splits if_splits)
qed


subsection \<open>Runs\<close>

definition phy0 :: phy where
  "phy0 = \<lparr>phy_reads = 0, phy_writes = [], phy_ticks = 0, phy_mem = (\<lambda>_. 0x01070000), ucAutonegStarted = (\<lambda>_. False)\<rparr>"

text \<open>A device that answers at once: its identifier, a completed negotiation, and the given word in register 17.\<close>

definition demo_phy :: "u16 \<Rightarrow> u16 \<Rightarrow> phy_env" where
  "demo_phy ident word = \<lparr>bus_read = (\<lambda>k a r. (0, if r = 2 then ident else if r = 3 then 1 else if r = 1 then 0x24 else if r = 17 then word else 0)),
     bus_write = (\<lambda>_. 0), zynqmp_base = (\<lambda>_. 0), psu_div = (\<lambda>_ _. (0, 0)), psv_div = (\<lambda>_ _. 5), gmii2rgmii_addr = None\<rparr>"

theorem detects_first_phy_witness:
  "fst (run_state (ulDetectPHY (demo_phy 0x2000 0x8000)) phy0) =
    (case find (\<lambda>i. phy_id_valid (bus_read (demo_phy 0x2000 0x8000) 0 (of_nat i) 2) (bus_read (demo_phy 0x2000 0x8000) 0 (of_nat i) 3)) [0..<32] of
       None \<Rightarrow> NOT 0 | Some i \<Rightarrow> of_nat i)"
  by (rule detects_first_phy) (simp add: demo_phy_def)

lemma wait_autoneg_done: "0 < n \<Longrightarrow> status AND 0x20 \<noteq> 0 \<Longrightarrow> wait_autoneg env extra n a status = State_Monad.return True"
  by (cases n) simp_all

lemma demo_ti:
  "\<exists>t. run_state (get_TI_phy_speed (demo_phy 0x2000 0x8000) 1) phy0 = (1000, t)"
  "\<exists>t. run_state (Phy_Setup_US (demo_phy 0x2000 0x8000) 1 (versal_base 0) 1) phy0 = (Some 1000, t)"
  by (simp_all add: Phy_Setup_US_def get_IEEE_phy_speed_US_def get_TI_phy_speed_def ti_tail_def ti_select_def autoneg_def phy_or_def
      phy_simps demo_phy_def phy0_def XST_SUCCESS_def XST_FAILURE_def speed_of_bits_def wait_autoneg_done case_prod_beta)

theorem phy_setup_speed_witness:
  "\<exists>v t. run_state (Phy_Setup_US (demo_phy 0x2000 0x8000) 1 (versal_base 0) 1) phy0 = (Some v, t) \<and>
    (v = XST_FAILURE \<or> v = 10 \<or> v = 100 \<or> v = 1000 \<or>
     v = XST_SUCCESS \<and> snd (bus_read (demo_phy 0x2000 0x8000) (phy_reads phy0) 1 2) = 0x0141)"
  using demo_ti(2) phy_setup_speed by blast

theorem phy_setup_returns_witness:
  "\<exists>v t. run_state (Phy_Setup_US (demo_phy 0x0141 0) 1 (versal_base 0) 1) phy0 = (Some v, t)"
  by (rule phy_setup_returns) (simp add: demo_phy_def)

theorem ti_speed_reported_witness:
  "\<exists>t. run_state (get_TI_phy_speed (demo_phy 0x2000 0x8000) 1) phy0 = (1000, t) \<and>
    1000 = speed_of_bits (snd (bus_read (demo_phy 0x2000 0x8000) (phy_reads t - 1) 1 0x11))"
proof -
  have "(1000 :: u32) \<noteq> XST_FAILURE" by (simp add: XST_FAILURE_def)
  then show ?thesis using demo_ti(1) ti_speed_reported by blast
qed

theorem clock_follows_speed_witness:
  "\<exists>t. run_state (Phy_Setup_US (demo_phy 0x2000 0x8000) 1 (versal_base 0) 1) phy0 = (Some 1000, t) \<and>
    phy_mem t = (phy_mem phy0)(crl_versal 0 :=
      (phy_mem phy0 (crl_versal 0) AND NOT 0x0003FF00) OR push_bit 8 (psv_div (demo_phy 0x2000 0x8000) 0 (mbit_speed 1000)))"
proof -
  obtain t where t: "run_state (Phy_Setup_US (demo_phy 0x2000 0x8000) 1 (versal_base 0) 1) phy0 = (Some 1000, t)"
    using demo_ti(2) by blast
  have "(1000 :: u32) \<noteq> XST_FAILURE" "drop_bit 16 (phy_mem phy0 (versal_base 0 + 0xFC)) AND 0xFFF = 0x107"
    "psv_div (demo_phy 0x2000 0x8000) 0 (mbit_speed 1000) \<noteq> 0"
    by (simp_all add: XST_FAILURE_def phy0_def demo_phy_def)
  then show ?thesis using t clock_follows_speed[OF t] by simp
qed

text \<open>
  The Marvell driver reports 0, the value of success, when the negotiation is complete but the device has not resolved
  the speed; the setup then programs the clock for 10 Mbit/s and goes on.
\<close>

lemma marvell_speed_zero: "\<exists>t. run_state (Phy_Setup_US (demo_phy 0x0141 0) 1 (versal_base 0) 1) phy0 = (Some XST_SUCCESS, t)"
  by (simp add: Phy_Setup_US_def get_IEEE_phy_speed_US_def get_Marvell_phy_speed_def restart_phy_def specific_speed_def autoneg_def phy_or_def
      phy_simps demo_phy_def phy0_def XST_SUCCESS_def XST_FAILURE_def speed_of_bits_def wait_autoneg_done case_prod_beta)

end
