(* ===== verification/Emac_Driver.thy ===== *)
theory Emac_Driver
  imports Emac_Rings Emac_Phy
begin

unbundle bit_operations_syntax

section \<open>The network interface\<close>

text \<open>
  \<^verbatim>\<open>netif_versal/NetworkInterface.c\<close> and \<^verbatim>\<open>netif_versal/x_emacpsif_hw.c\<close>: the three functions the TCP stack calls for the
  interface (bring it up, send a packet, ask for the link), the task that serves its interrupts, and the handling of
  errors. The state joins the rings of \<^verbatim>\<open>Emac_Dma\<close> and the management bus of \<^verbatim>\<open>Emac_Phy\<close>. There is one interface.
  Time is the tick count of the bus state: it advances with the delays of the code. Calls of the vendor driver are
  represented by what they return (\<open>init_env\<close>); texts for the console are left out. \<open>None\<close>: an assertion failed or an
  undefined access.
\<close>

subsection \<open>State\<close>

datatype EMACState_t = xEMAC_Init | xEMAC_SetupPHY | xEMAC_WaitPHY | xEMAC_Ready | xEMAC_Fatal

datatype direction = XEMACPS_SEND | XEMACPS_RECV

record netif =
  ni_emac :: emac
  ni_phy :: phy
  pxMyInterface :: bool
  eEMACState :: EMACState_t
  ulPHYLinkState :: u32
  phy_detected :: u32
  xEMACTaskHandle :: bool
  xErrorList :: "(direction \<times> u32) list"
  xErrorHead :: nat
  xErrorTail :: nat
  error_msg_count :: nat
  last_err_msg :: "string option"
  xPhyTime :: nat
  xPhyRemTime :: nat

record err_masks =
  rxsr_hrespnok :: u32
  rxsr_rxovr :: u32
  rxsr_buffna :: u32
  rxsr_framerx :: u32
  txsr_hrespnok :: u32
  txsr_urun :: u32
  txsr_bufexh :: u32
  txsr_rxovr :: u32
  txsr_framerx :: u32
  txsr_usedread :: u32
  txsr_txcompl :: u32
  txsr_error :: u32

record init_env =
  ie_gem :: gem_bits
  ie_net :: emac_env
  ie_phy :: phy_env
  ie_masks :: err_masks
  ie_fuel :: nat
  ie_base :: u32
  ie_cfg_status :: int
  ie_endpoint :: bool
  ie_rings :: ring_status
  ie_task_created :: bool

definition niBMSR_LINK_STATUS :: u32 where "niBMSR_LINK_STATUS = 4"


subsection \<open>The link\<close>

definition run_phy :: "'a phy_m \<Rightarrow> netif \<Rightarrow> 'a \<times> netif" where
  "run_phy m n = (case run_state m (ni_phy n) of (v, p) \<Rightarrow> (v, n\<lparr>ni_phy := p\<rparr>))"

definition ulReadMDIO :: "phy_env \<Rightarrow> u32 \<Rightarrow> netif \<Rightarrow> u32 \<times> netif" where
  "ulReadMDIO penv ulRegister n =
     (case run_phy (XEmacPs_PhyRead penv (phy_detected n) ulRegister) n of (r, n1) \<Rightarrow> (ucast (snd r), n1))"

text \<open>The loop polls every 20 ticks; \<open>left\<close> bounds the rounds and \<open>None\<close> says that they were not enough.\<close>

fun wait_ls :: "phy_env \<Rightarrow> nat \<Rightarrow> nat \<Rightarrow> nat \<Rightarrow> netif \<Rightarrow> (bool \<times> netif) option" where
  "wait_ls penv 0 xStartTime xMaxTimeTicks n = None"
| "wait_ls penv (Suc left) xStartTime xMaxTimeTicks n =
     (if xMaxTimeTicks < phy_ticks (ni_phy n) - xStartTime then Some (False, n)
      else
        let (bmsr, n1) = ulReadMDIO penv 1 n; n2 = n1\<lparr>ulPHYLinkState := bmsr\<rparr>
        in if bmsr AND niBMSR_LINK_STATUS \<noteq> 0 then Some (True, n2)
           else wait_ls penv left xStartTime xMaxTimeTicks (snd (run_phy (vTaskDelay 20) n2)))"

definition prvGMACWaitLS :: "phy_env \<Rightarrow> nat \<Rightarrow> netif \<Rightarrow> (bool \<times> netif) option" where
  "prvGMACWaitLS penv xMaxTimeTicks n = wait_ls penv (xMaxTimeTicks div 20 + 2) (phy_ticks (ni_phy n)) xMaxTimeTicks n"

definition xUltrascaleGetPhyLinkStatus :: "netif \<Rightarrow> bool" where
  "xUltrascaleGetPhyLinkStatus n \<longleftrightarrow> ulPHYLinkState n AND niBMSR_LINK_STATUS \<noteq> 0"

definition prvDumpPhyRegisters :: "phy_env \<Rightarrow> netif \<Rightarrow> netif" where
  "prvDumpPhyRegisters penv n =
     snd (run_phy (do {
       _ \<leftarrow> XEmacPs_PhyRead penv (phy_detected n) 0;
       _ \<leftarrow> XEmacPs_PhyRead penv (phy_detected n) 1;
       _ \<leftarrow> XEmacPs_PhyRead penv (phy_detected n) 2;
       _ \<leftarrow> XEmacPs_PhyRead penv (phy_detected n) 3;
       XEmacPs_PhyRead penv (phy_detected n) 17 }) n)"


subsection \<open>Bringing up\<close>

text \<open>The interface structure is cleared; the static arrays and the semaphore of the DMA file are not part of it.\<close>

definition clear_xemacpsif :: "emac \<Rightarrow> emac" where
  "clear_xemacpsif e =
     e\<lparr>rxSegments := [], txSegments := [], rxHead := 0, txHead := 0, txTail := 0, txBusy := False, isr_events := 0,
       last_rx_frms_cntr := 0, rxBdTerminator := None, txBdTerminator := None\<rparr>"

definition state_WaitPHY :: "init_env \<Rightarrow> netif \<Rightarrow> (bool \<times> netif) option" where
  "state_WaitPHY ie n =
     (case prvGMACWaitLS (ie_phy ie) 1000 n of
        None \<Rightarrow> None
      | Some (_, n1) \<Rightarrow>
          if \<not> xUltrascaleGetPhyLinkStatus n1 then Some (False, n1)
          else if \<not> xEMACTaskHandle n1 \<and> \<not> ie_task_created ie then Some (False, n1\<lparr>eEMACState := xEMAC_Fatal\<rparr>)
          else Some (True, n1\<lparr>xEMACTaskHandle := True, eEMACState := xEMAC_Ready\<rparr>))"

definition state_SetupPHY :: "init_env \<Rightarrow> netif \<Rightarrow> (bool \<times> netif) option" where
  "state_SetupPHY ie n =
     (case run_phy (Phy_Setup_US (ie_phy ie) (ie_fuel ie) (ie_base ie) (phy_detected n)) n of
        (None, _) \<Rightarrow> None
      | (Some ulLinkSpeed, n1) \<Rightarrow>
          if ulLinkSpeed = XST_FAILURE then Some (False, prvDumpPhyRegisters (ie_phy ie) n1)
          else
            let n2 = snd (run_phy (vTaskDelay 25) n1)
            in case init_dma (ie_gem ie) (ie_net ie) (ie_rings ie) (ni_emac n2) of
                 None \<Rightarrow> None
               | Some (xStatus, e) \<Rightarrow>
                   if xStatus \<noteq> 0 then Some (False, n2\<lparr>ni_emac := e, eEMACState := xEMAC_Fatal\<rparr>)
                   else state_WaitPHY ie (n2\<lparr>ni_emac := e, eEMACState := xEMAC_WaitPHY\<rparr>))"

definition state_Init :: "init_env \<Rightarrow> netif \<Rightarrow> (bool \<times> netif) option" where
  "state_Init ie n =
     (let n1 = n\<lparr>pxMyInterface := True, ulPHYLinkState := 0, ni_emac := clear_xemacpsif (ni_emac n)\<rparr>
      in if ie_cfg_status ie \<noteq> 0 then Some (False, n1\<lparr>eEMACState := xEMAC_Fatal\<rparr>)
         else if \<not> ie_endpoint ie then None
         else
           let (found, n2) = run_phy (ulDetectPHY (ie_phy ie)) n1; n3 = n2\<lparr>phy_detected := found\<rparr>
           in if found = NOT 0 then Some (False, n3\<lparr>eEMACState := xEMAC_Fatal\<rparr>)
              else state_SetupPHY ie ((prvDumpPhyRegisters (ie_phy ie) n3)\<lparr>eEMACState := xEMAC_SetupPHY\<rparr>))"

definition xUltrascaleNetworkInterfaceInitialise :: "init_env \<Rightarrow> netif \<Rightarrow> (bool \<times> netif) option" where
  "xUltrascaleNetworkInterfaceInitialise ie n =
     (case eEMACState n of
        xEMAC_Init \<Rightarrow> state_Init ie n
      | xEMAC_SetupPHY \<Rightarrow> state_SetupPHY ie n
      | xEMAC_WaitPHY \<Rightarrow> state_WaitPHY ie n
      | xEMAC_Ready \<Rightarrow> Some (True, n)
      | xEMAC_Fatal \<Rightarrow> Some (False, n))"

definition vInitialiseOnIndex :: "init_env \<Rightarrow> netif \<Rightarrow> netif option" where
  "vInitialiseOnIndex ie n =
     (if pxMyInterface n then map_option snd (xUltrascaleNetworkInterfaceInitialise ie n) else Some n)"


subsection \<open>Sending\<close>

text \<open>
  The checksum of an ICMP packet is computed in software; \<open>checksum\<close> stands for \<^verbatim>\<open>usGenerateProtocolChecksum\<close> of the stack,
  as a function on the bytes of the buffer. IPv6 is not built. The driver owns every buffer it is given.
\<close>

definition fix_checksum :: "(u8 list \<Rightarrow> u8 list) \<Rightarrow> u8 list \<Rightarrow> u8 list" where
  "fix_checksum checksum frame =
     (if frame ! 12 = 0x08 \<and> frame ! 13 = 0x00 \<and> frame ! 23 = 1 then checksum frame else frame)"

definition xUltrascaleNetworkInterfaceOutput :: "init_env \<Rightarrow> (u8 list \<Rightarrow> u8 list) \<Rightarrow> nat \<Rightarrow> netif \<Rightarrow> netif" where
  "xUltrascaleNetworkInterfaceOutput ie checksum b n =
     (let a = eth_address (ie_net ie) b; e = ni_emac n;
          e1 = e\<lparr>em_memory := (em_memory e)(a := fix_checksum checksum (em_memory e a))\<rparr>
      in if ulPHYLinkState n AND niBMSR_LINK_STATUS \<noteq> 0
         then n\<lparr>ni_emac := snd (emacps_send_message (ie_gem ie) (ie_net ie) b e1)\<rparr>
         else n\<lparr>ni_emac := with_bufs (vReleaseNetworkBufferAndDescriptor b) e1\<rparr>)"


subsection \<open>Errors\<close>

definition HandleTxErrors :: "gem_bits \<Rightarrow> emac \<Rightarrow> emac" where
  "HandleTxErrors g e =
     (let e1 = clean_dma_txdescs g (e\<lparr>reg_nwctrl := reg_nwctrl e AND NOT (nwctrl_txen g)\<rparr>)
      in e1\<lparr>reg_nwctrl := reg_nwctrl e1 OR nwctrl_txen g\<rparr>)"

definition emacps_error_handler :: "init_env \<Rightarrow> direction \<Rightarrow> u32 \<Rightarrow> netif \<Rightarrow> netif" where
  "emacps_error_handler ie Direction ErrorWord n =
     (if Direction \<noteq> XEMACPS_SEND \<or> ErrorWord \<noteq> txsr_usedread (ie_masks ie)
      then let xNextHead = (if xErrorHead n + 1 = 8 then 0 else xErrorHead n + 1)
           in if xNextHead \<noteq> xErrorTail n
              then n\<lparr>xErrorList := (xErrorList n)[xErrorHead n := (Direction, ErrorWord)], xErrorHead := xNextHead,
                     ni_emac := (ni_emac n)\<lparr>isr_events := isr_events (ni_emac n) OR EMAC_IF_ERR_EVENT\<rparr>\<rparr>
              else n
      else n)"

text \<open>One clause of the error handling: what is done when a bit of the word is set.\<close>

definition on_bit :: "u32 \<Rightarrow> u32 \<Rightarrow> string \<Rightarrow> (netif \<Rightarrow> netif option) \<Rightarrow> netif \<Rightarrow> netif option" where
  "on_bit ErrorWord msk msg act n =
     (if ErrorWord AND msk \<noteq> 0 then act (n\<lparr>last_err_msg := Some msg\<rparr>) else Some n)"

definition with_emac :: "(emac \<Rightarrow> emac) \<Rightarrow> netif \<Rightarrow> netif option" where
  "with_emac f n = Some (n\<lparr>ni_emac := f (ni_emac n)\<rparr>)"

definition check_tx_netif :: "init_env \<Rightarrow> netif \<Rightarrow> netif option" where
  "check_tx_netif ie n = map_option (\<lambda>e. n\<lparr>ni_emac := e\<rparr>) (emacps_check_tx (ie_gem ie) (ni_emac n))"

definition emacps_handle_error :: "init_env \<Rightarrow> direction \<Rightarrow> u32 \<Rightarrow> netif \<Rightarrow> netif option" where
  "emacps_handle_error ie Direction ErrorWord n =
     (let m = ie_masks ie; n0 = n\<lparr>last_err_msg := None\<rparr>
      in map_option (\<lambda>n1. if last_err_msg n1 \<noteq> None then n1\<lparr>error_msg_count := error_msg_count n1 + 1\<rparr> else n1)
        (if ErrorWord = 0 then Some n0
         else case Direction of
             XEMACPS_RECV \<Rightarrow>
               Option.bind (on_bit ErrorWord (rxsr_hrespnok m) ''Receive DMA error'' (vInitialiseOnIndex ie) n0)
                 (\<lambda>n. Option.bind (on_bit ErrorWord (rxsr_rxovr m) ''Receive over run'' (with_emac emacps_recv_handler) n)
                   (on_bit ErrorWord (rxsr_buffna m) ''Receive buffer not available'' (with_emac emacps_recv_handler)))
           | XEMACPS_SEND \<Rightarrow>
               Option.bind (on_bit ErrorWord (txsr_hrespnok m) ''Transmit DMA error'' (vInitialiseOnIndex ie) n0)
                 (\<lambda>n. Option.bind (on_bit ErrorWord (txsr_urun m) ''Transmit under run'' (with_emac (HandleTxErrors (ie_gem ie))) n)
                   (\<lambda>n. Option.bind (on_bit ErrorWord (txsr_bufexh m) ''Transmit buffer exhausted'' (with_emac (HandleTxErrors (ie_gem ie))) n)
                     (\<lambda>n. Option.bind (on_bit ErrorWord (txsr_rxovr m) ''Transmit retry exceeded limits''
                              (with_emac (HandleTxErrors (ie_gem ie))) n)
                       (on_bit ErrorWord (txsr_framerx m) ''Transmit collision'' (check_tx_netif ie)))))))"

definition emacps_check_errors :: "init_env \<Rightarrow> netif \<Rightarrow> netif option" where
  "emacps_check_errors ie n =
     (if xErrorHead n = xErrorTail n then Some n
      else case xErrorList n ! xErrorTail n of (d, w) \<Rightarrow> emacps_handle_error ie d w n)"


subsection \<open>The handler task\<close>

definition ipconfigPHY_LS_HIGH_CHECK_TIME_MS :: nat where "ipconfigPHY_LS_HIGH_CHECK_TIME_MS = 15000"
definition ipconfigPHY_LS_LOW_CHECK_TIME_MS :: nat where "ipconfigPHY_LS_LOW_CHECK_TIME_MS = 1000"

definition check_rx_netif :: "init_env \<Rightarrow> u32 \<Rightarrow> netif \<Rightarrow> (nat \<times> netif) option" where
  "check_rx_netif ie rxcnt n =
     map_option (\<lambda>(k, e). (k, n\<lparr>ni_emac := e\<rparr>)) (emacps_check_rx (ie_gem ie) (ie_net ie) rxcnt (ni_emac n))"

definition take_event :: "u32 \<Rightarrow> netif \<Rightarrow> netif" where
  "take_event ev n = n\<lparr>ni_emac := (ni_emac n)\<lparr>isr_events := isr_events (ni_emac n) AND NOT ev\<rparr>\<rparr>"

text \<open>The link: assumed up after a packet; otherwise read from the device when the timer has run out.\<close>

definition check_link :: "init_env \<Rightarrow> nat \<Rightarrow> netif \<Rightarrow> netif" where
  "check_link ie xResult n =
     (if 0 < xResult then
        let n1 = n\<lparr>xPhyTime := phy_ticks (ni_phy n), xPhyRemTime := ipconfigPHY_LS_HIGH_CHECK_TIME_MS\<rparr>
        in if ulPHYLinkState n1 AND niBMSR_LINK_STATUS = 0
           then n1\<lparr>ulPHYLinkState := ulPHYLinkState n1 OR niBMSR_LINK_STATUS\<rparr> else n1
      else if xPhyRemTime n \<le> phy_ticks (ni_phy n) - xPhyTime n then
        let (xStatus, n1) = ulReadMDIO (ie_phy ie) 1 n;
            n2 = (if ulPHYLinkState n1 AND niBMSR_LINK_STATUS \<noteq> xStatus AND niBMSR_LINK_STATUS
                  then n1\<lparr>ulPHYLinkState := xStatus\<rparr> else n1);
            n3 = n2\<lparr>xPhyTime := phy_ticks (ni_phy n2)\<rparr>
        in n3\<lparr>xPhyRemTime := (if ulPHYLinkState n3 AND niBMSR_LINK_STATUS \<noteq> 0
              then ipconfigPHY_LS_HIGH_CHECK_TIME_MS else ipconfigPHY_LS_LOW_CHECK_TIME_MS)\<rparr>
      else n\<lparr>xPhyTime := phy_ticks (ni_phy n), xPhyRemTime := xPhyRemTime n - (phy_ticks (ni_phy n) - xPhyTime n)\<rparr>)"

text \<open>
  One round of the task. The status registers are read at its start (\<open>ulTxStatus\<close>, \<open>ulRxStatus\<close>), \<open>rxcnt\<close> are the values of the
  frame counter; the wait takes \<open>slept\<close> ticks and interrupts during it add \<open>events\<close>. The count of messages is local to the
  task and 0 at the start of a round that follows one with messages.
\<close>

definition handler_wait :: "init_env \<Rightarrow> u32 \<Rightarrow> u32 \<Rightarrow> nat \<Rightarrow> u32 \<Rightarrow> netif \<Rightarrow> netif" where
  "handler_wait ie ulTxStatus ulRxStatus slept events n =
     (let m = ie_masks ie
      in if isr_events (ni_emac n) AND EMAC_IF_ALL_EVENT = 0 \<and>
            ulRxStatus AND (rxsr_framerx m OR rxsr_buffna m OR rxsr_rxovr m OR rxsr_hrespnok m) = 0 \<and>
            ulTxStatus AND (txsr_txcompl m OR txsr_usedread m OR txsr_error m) = 0
         then snd (run_phy (vTaskDelay slept) (n\<lparr>ni_emac := (ni_emac n)\<lparr>isr_events := isr_events (ni_emac n) OR events\<rparr>\<rparr>)) else n)"

definition if_event :: "bool \<Rightarrow> (nat \<times> netif \<Rightarrow> (nat \<times> netif) option) \<Rightarrow> nat \<times> netif \<Rightarrow> (nat \<times> netif) option" where
  "if_event c f rn = (if c then f rn else Some rn)"

definition prvEMACHandlerRound ::
  "init_env \<Rightarrow> u32 \<Rightarrow> u32 \<Rightarrow> (nat \<Rightarrow> u32) \<Rightarrow> nat \<Rightarrow> u32 \<Rightarrow> nat \<Rightarrow> netif \<Rightarrow> (nat \<times> netif) option" where
  "prvEMACHandlerRound ie ulTxStatus ulRxStatus rxcnt slept events xResult n =
     (let m = ie_masks ie; n0 = handler_wait ie ulTxStatus ulRxStatus slept events n
      in Option.bind (if_event (ulRxStatus AND (rxsr_framerx m OR rxsr_buffna m OR rxsr_rxovr m OR rxsr_hrespnok m) \<noteq> 0)
            (\<lambda>(_, n). check_rx_netif ie (rxcnt 0) n) (xResult, n0))
        (\<lambda>rn. Option.bind (if_event (ulTxStatus AND (txsr_txcompl m OR txsr_usedread m OR txsr_error m) \<noteq> 0)
            (\<lambda>(r, n). map_option (Pair r) (check_tx_netif ie n)) rn)
        (\<lambda>rn. Option.bind (if_event (isr_events (ni_emac (snd rn)) AND EMAC_IF_RX_EVENT \<noteq> 0)
            (\<lambda>(_, n). check_rx_netif ie (rxcnt 1) (take_event EMAC_IF_RX_EVENT n)) rn)
        (\<lambda>rn. Option.bind (if_event (isr_events (ni_emac (snd rn)) AND EMAC_IF_TX_EVENT \<noteq> 0)
            (\<lambda>(r, n). map_option (Pair r) (check_tx_netif ie (take_event EMAC_IF_TX_EVENT n))) rn)
        (\<lambda>rn. Option.bind (if_event (isr_events (ni_emac (snd rn)) AND EMAC_IF_ERR_EVENT \<noteq> 0)
            (\<lambda>(r, n). map_option (Pair r) (emacps_check_errors ie (take_event EMAC_IF_ERR_EVENT n))) rn)
        (\<lambda>(r, n). Some (0, check_link ie r n)))))))"


subsection \<open>The wait for the link\<close>

lemma run_phy_fields [simp]:
  "ni_emac (snd (run_phy m n)) = ni_emac n" "eEMACState (snd (run_phy m n)) = eEMACState n"
  "pxMyInterface (snd (run_phy m n)) = pxMyInterface n" "xEMACTaskHandle (snd (run_phy m n)) = xEMACTaskHandle n"
  by (simp_all add: run_phy_def case_prod_beta)

lemma wait_ls_ends:
  assumes "xStartTime \<le> phy_ticks (ni_phy n)" "xMaxTimeTicks < (phy_ticks (ni_phy n) - xStartTime) + 20 * left"
  shows "\<exists>ok n'. wait_ls penv (Suc left) xStartTime xMaxTimeTicks n = Some (ok, n') \<and> ni_emac n' = ni_emac n \<and>
    eEMACState n' = eEMACState n \<and> pxMyInterface n' = pxMyInterface n \<and> xEMACTaskHandle n' = xEMACTaskHandle n \<and>
    (ok \<longrightarrow> xUltrascaleGetPhyLinkStatus n')"
  using assms
proof (induction left arbitrary: n)
  case 0
  then show ?case by auto
next
  case (Suc left)
  define r where "r = ulReadMDIO penv 1 n"
  define n2 where "n2 = (snd r)\<lparr>ulPHYLinkState := fst r\<rparr>"
  define n3 where "n3 = snd (run_phy (vTaskDelay 20) n2)"
  have ticks: "phy_ticks (ni_phy n3) = phy_ticks (ni_phy n) + 20"
    by (simp add: n3_def n2_def r_def ulReadMDIO_def run_phy_def phy_simps case_prod_beta)
  have same: "ni_emac n2 = ni_emac n" "eEMACState n2 = eEMACState n" "pxMyInterface n2 = pxMyInterface n"
    "xEMACTaskHandle n2 = xEMACTaskHandle n"
    by (simp_all add: n2_def r_def ulReadMDIO_def case_prod_beta)
  show ?case
  proof (cases "xMaxTimeTicks < phy_ticks (ni_phy n) - xStartTime \<or> fst r AND niBMSR_LINK_STATUS \<noteq> 0")
    case True
    then show ?thesis using same
      by (auto simp: case_prod_beta Let_def xUltrascaleGetPhyLinkStatus_def n2_def simp flip: r_def)
  next
    case False
    then have "wait_ls penv (Suc (Suc left)) xStartTime xMaxTimeTicks n = wait_ls penv (Suc left) xStartTime xMaxTimeTicks n3"
      by (subst wait_ls.simps(2)) (simp add: case_prod_beta Let_def n3_def n2_def flip: r_def)
    moreover have "xStartTime \<le> phy_ticks (ni_phy n3)" "xMaxTimeTicks < (phy_ticks (ni_phy n3) - xStartTime) + 20 * left"
      using Suc.prems ticks by simp_all
    ultimately show ?thesis using Suc.IH[of n3] same by (simp add: n3_def)
  qed
qed

text \<open>The wait for the link always ends, with the link up or the time over.\<close>

lemma wait_link_ends:
  "\<exists>ok n'. prvGMACWaitLS penv xMaxTimeTicks n = Some (ok, n') \<and> ni_emac n' = ni_emac n \<and> eEMACState n' = eEMACState n \<and>
    pxMyInterface n' = pxMyInterface n \<and> xEMACTaskHandle n' = xEMACTaskHandle n \<and> (ok \<longrightarrow> xUltrascaleGetPhyLinkStatus n')"
proof -
  have "xMaxTimeTicks < 20 * (xMaxTimeTicks div 20 + 1)" by (metis mult_Suc_right add.commute dividend_less_times_div plus_1_eq_Suc zero_less_numeral)
  then show ?thesis
    using wait_ls_ends[of "phy_ticks (ni_phy n)" n xMaxTimeTicks "xMaxTimeTicks div 20 + 1" penv] by (simp add: prvGMACWaitLS_def)
qed


subsection \<open>The stages\<close>

fun stage :: "EMACState_t \<Rightarrow> nat" where
  "stage xEMAC_Init = 0" | "stage xEMAC_SetupPHY = 1" | "stage xEMAC_WaitPHY = 2" | "stage xEMAC_Ready = 3" | "stage xEMAC_Fatal = 4"

lemma wait_stage:
  "\<exists>ok n'. state_WaitPHY ie n = Some (ok, n') \<and> ni_emac n' = ni_emac n \<and> pxMyInterface n' = pxMyInterface n \<and>
    (if ok then eEMACState n' = xEMAC_Ready \<and> xUltrascaleGetPhyLinkStatus n' \<and> xEMACTaskHandle n'
     else eEMACState n' \<in> {eEMACState n, xEMAC_Fatal})"
proof -
  obtain ok n1 where w: "prvGMACWaitLS (ie_phy ie) 1000 n = Some (ok, n1)" "ni_emac n1 = ni_emac n" "eEMACState n1 = eEMACState n"
    "pxMyInterface n1 = pxMyInterface n" using wait_link_ends by blast
  consider "\<not> xUltrascaleGetPhyLinkStatus n1" | "xUltrascaleGetPhyLinkStatus n1" "\<not> xEMACTaskHandle n1 \<and> \<not> ie_task_created ie"
    | "xUltrascaleGetPhyLinkStatus n1" "\<not> (\<not> xEMACTaskHandle n1 \<and> \<not> ie_task_created ie)" by blast
  then show ?thesis
  proof cases
    case 1
    then show ?thesis using w by (intro exI[of _ False] exI[of _ n1]) (simp add: state_WaitPHY_def)
  next
    case 2
    then show ?thesis using w by (intro exI[of _ False] exI[of _ "n1\<lparr>eEMACState := xEMAC_Fatal\<rparr>"]) (simp add: state_WaitPHY_def)
  next
    case 3
    then show ?thesis using w
      by (intro exI[of _ True] exI[of _ "n1\<lparr>xEMACTaskHandle := True, eEMACState := xEMAC_Ready\<rparr>"])
        (simp add: state_WaitPHY_def xUltrascaleGetPhyLinkStatus_def)
  qed
qed

text \<open>What a stage does to the rings: nothing, or one initialisation of the DMA.\<close>

definition dma_done :: "init_env \<Rightarrow> emac \<Rightarrow> emac \<Rightarrow> bool" where
  "dma_done ie e e' \<longleftrightarrow> init_dma (ie_gem ie) (ie_net ie) (ie_rings ie) e = Some (0, e')"

lemma setup_stage:
  assumes "state_SetupPHY ie n = Some (ok, n')" "eEMACState n = xEMAC_SetupPHY"
  shows "(ok \<longleftrightarrow> eEMACState n' = xEMAC_Ready) \<and> stage (eEMACState n) \<le> stage (eEMACState n') \<and>
    (eEMACState n' = xEMAC_SetupPHY \<longrightarrow> ni_emac n' = ni_emac n) \<and>
    (eEMACState n' \<in> {xEMAC_WaitPHY, xEMAC_Ready} \<longrightarrow> dma_done ie (ni_emac n) (ni_emac n')) \<and> eEMACState n' \<noteq> xEMAC_Init"
proof -
  obtain r n1 where r: "run_phy (Phy_Setup_US (ie_phy ie) (ie_fuel ie) (ie_base ie) (phy_detected n)) n = (r, n1)"
    "ni_emac n1 = ni_emac n" "eEMACState n1 = eEMACState n" by (metis prod.collapse run_phy_fields(1,2))
  then obtain v where v: "r = Some v" using assms(1) by (cases r) (simp_all add: state_SetupPHY_def)
  show ?thesis
  proof (cases "v = XST_FAILURE")
    case True
    then show ?thesis using assms r v by (auto simp: state_SetupPHY_def prvDumpPhyRegisters_def)
  next
    case False
    define n2 where "n2 = snd (run_phy (vTaskDelay 25) n1)"
    have n2: "ni_emac n2 = ni_emac n" "eEMACState n2 = xEMAC_SetupPHY" using r(2,3) assms(2) by (simp_all add: n2_def)
    obtain st e where i: "init_dma (ie_gem ie) (ie_net ie) (ie_rings ie) (ni_emac n) = Some (st, e)"
      using assms(1) r v False n2 by (auto simp: state_SetupPHY_def simp flip: n2_def split: option.splits)
    show ?thesis
    proof (cases "st = 0")
      case False
      then show ?thesis using assms r v \<open>v \<noteq> XST_FAILURE\<close> i n2 by (auto simp: state_SetupPHY_def simp flip: n2_def)
    next
      case True
      then have "state_WaitPHY ie (n2\<lparr>ni_emac := e, eEMACState := xEMAC_WaitPHY\<rparr>) = Some (ok, n')"
        using assms r v \<open>v \<noteq> XST_FAILURE\<close> i n2 by (simp add: state_SetupPHY_def flip: n2_def)
      then show ?thesis
        using wait_stage[of ie "n2\<lparr>ni_emac := e, eEMACState := xEMAC_WaitPHY\<rparr>"] i True assms(2)
        by (auto simp: dma_done_def split: if_splits)
    qed
  qed
qed

lemma init_stage:
  assumes "state_Init ie n = Some (ok, n')" "eEMACState n = xEMAC_Init"
  shows "(ok \<longleftrightarrow> eEMACState n' = xEMAC_Ready) \<and> stage (eEMACState n) \<le> stage (eEMACState n') \<and>
    (eEMACState n' = xEMAC_SetupPHY \<longrightarrow> ni_emac n' = clear_xemacpsif (ni_emac n)) \<and>
    (eEMACState n' \<in> {xEMAC_WaitPHY, xEMAC_Ready} \<longrightarrow> dma_done ie (clear_xemacpsif (ni_emac n)) (ni_emac n')) \<and> eEMACState n' \<noteq> xEMAC_Init"
proof -
  define n1 where "n1 = n\<lparr>pxMyInterface := True, ulPHYLinkState := 0, ni_emac := clear_xemacpsif (ni_emac n)\<rparr>"
  obtain found n2 where f: "run_phy (ulDetectPHY (ie_phy ie)) n1 = (found, n2)" "ni_emac n2 = ni_emac n1"
    by (metis prod.collapse run_phy_fields(1))
  define n4 where "n4 = (prvDumpPhyRegisters (ie_phy ie) (n2\<lparr>phy_detected := found\<rparr>))\<lparr>eEMACState := xEMAC_SetupPHY\<rparr>"
  consider "ok = False" "eEMACState n' = xEMAC_Fatal" | "state_SetupPHY ie n4 = Some (ok, n')"
    using assms(1) f by (auto simp: state_Init_def n4_def Let_def simp flip: n1_def split: if_splits)
  then show ?thesis
  proof cases
    case 1
    then show ?thesis using assms(2) by simp
  next
    case 2
    have "eEMACState n4 = xEMAC_SetupPHY" "ni_emac n4 = clear_xemacpsif (ni_emac n)"
      using f(2) by (simp_all add: n4_def prvDumpPhyRegisters_def n1_def)
    then show ?thesis using setup_stage[OF 2] assms(2) by auto
  qed
qed

lemma initialise_stages:
  assumes "xUltrascaleNetworkInterfaceInitialise ie n = Some (ok, n')"
  shows "(ok \<longleftrightarrow> eEMACState n' = xEMAC_Ready) \<and> stage (eEMACState n) \<le> stage (eEMACState n') \<and>
    (eEMACState n \<in> {xEMAC_Ready, xEMAC_Fatal} \<longrightarrow> n' = n) \<and> eEMACState n' \<noteq> xEMAC_Init"
proof (cases "eEMACState n")
  case xEMAC_Init
  then show ?thesis using assms init_stage by (fastforce simp: xUltrascaleNetworkInterfaceInitialise_def)
next
  case xEMAC_SetupPHY
  then show ?thesis using assms setup_stage by (fastforce simp: xUltrascaleNetworkInterfaceInitialise_def)
next
  case xEMAC_WaitPHY
  then show ?thesis using assms wait_stage[of ie n]
    by (auto simp: xUltrascaleNetworkInterfaceInitialise_def split: if_splits)
qed (use assms in \<open>auto simp: xUltrascaleNetworkInterfaceInitialise_def\<close>)


text \<open>The stack calls the function until it succeeds.\<close>

primrec attempts :: "init_env list \<Rightarrow> netif \<Rightarrow> (bool \<times> netif) option" where
  "attempts [] n = Some (False, n)"
| "attempts (ie # ies) n =
     (case xUltrascaleNetworkInterfaceInitialise ie n of
        None \<Rightarrow> None
      | Some (ok, n1) \<Rightarrow> if ok then Some (True, n1) else attempts ies n1)"

definition netif_boot :: "phy \<Rightarrow> netif" where
  "netif_boot p = \<lparr>ni_emac = emac_boot, ni_phy = p, pxMyInterface = False, eEMACState = xEMAC_Init, ulPHYLinkState = 0,
     phy_detected = 0, xEMACTaskHandle = False, xErrorList = replicate 8 (XEMACPS_SEND, 0), xErrorHead = 0, xErrorTail = 0,
     error_msg_count = 0, last_err_msg = None, xPhyTime = 0, xPhyRemTime = 0\<rparr>"

text \<open>A run of \<open>init_dma\<close> that reports success met only successes.\<close>

lemma init_rx_slots_success:
  assumes "init_rx_slots g env st is e = Some (0, e')"
  shows "init_rx_slots g env ring_success is e = Some (0, e')"
  using assms
proof (induction "is" arbitrary: e)
  case (Cons i "is")
  define q where "q = (case pxDMA_rx_buffers e ! i of Some b \<Rightarrow> Some (Some b, em_bufs e)
    | None \<Rightarrow> pxGetNetworkBufferWithDescriptor dmaRX_TX_BUFFER_SIZE (em_bufs e))"
  obtain b bufs where q: "q = Some (Some b, bufs)"
    using Cons.prems by (cases q) (auto simp flip: q_def split: option.splits)
  have "st_alloc st i = 0" "st_to_hw st i = 0"
    using Cons.prems q by (auto simp: Let_def simp flip: q_def split: if_splits)
  then show ?case using Cons.prems Cons.IH q by (simp add: Let_def ring_success_def flip: q_def)
qed simp

lemma init_dma_success:
  assumes "init_dma g env st e = Some (0, e')"
  shows "init_dma g env ring_success e = Some (0, e')"
proof -
  obtain e1 where e1: "alloc_segments e = Some e1" using assms by (cases "alloc_segments e") (simp_all add: init_dma_def)
  have st: "st_create st = 0" "st_clone st = 0" using assms e1 by (auto simp: init_dma_def split: if_splits)
  obtain k e2 where k: "init_rx_slots g env st [0..<ipconfigNIC_N_RX_DESC] (create_tx_semaphore e1) = Some (k, e2)"
    using assms e1 st by (cases "init_rx_slots g env st [0..<ipconfigNIC_N_RX_DESC] (create_tx_semaphore e1)") (auto simp: init_dma_def)
  then have "k = 0" using assms e1 st by (auto simp: init_dma_def split: if_splits)
  then have "init_rx_slots g env ring_success [0..<ipconfigNIC_N_RX_DESC] (create_tx_semaphore e1) = Some (0, e2)"
    using init_rx_slots_success k by blast
  moreover have "st_create ring_success = 0" "st_clone ring_success = 0" by (simp_all add: ring_success_def)
  ultimately show ?thesis using assms e1 st k \<open>k = 0\<close> by (simp add: init_dma_def)
qed

lemma clear_boot: "clear_xemacpsif emac_boot = emac_boot"
  by (simp add: clear_xemacpsif_def emac_boot_def)

text \<open>What is known of the rings in each stage of bringing the interface up.\<close>

definition stage_ok :: "gem_bits \<Rightarrow> emac_env \<Rightarrow> netif \<Rightarrow> bool" where
  "stage_ok g net n \<longleftrightarrow>
     (eEMACState n \<in> {xEMAC_Init, xEMAC_SetupPHY} \<longrightarrow> ni_emac n = emac_boot) \<and>
     (eEMACState n \<in> {xEMAC_WaitPHY, xEMAC_Ready} \<longrightarrow> init_dma g net ring_success emac_boot = Some (0, ni_emac n))"

lemma initialise_stage_ok:
  assumes "xUltrascaleNetworkInterfaceInitialise ie n = Some (ok, n')" "ie_gem ie = g" "ie_net ie = net" "stage_ok g net n"
  shows "stage_ok g net n'"
proof (cases "eEMACState n")
  case xEMAC_Init
  then show ?thesis using assms init_stage[of ie n ok n'] init_dma_success
    by (auto simp: xUltrascaleNetworkInterfaceInitialise_def stage_ok_def dma_done_def clear_boot)
next
  case xEMAC_SetupPHY
  then show ?thesis using assms setup_stage[of ie n ok n'] init_dma_success
    by (auto simp: xUltrascaleNetworkInterfaceInitialise_def stage_ok_def dma_done_def)
next
  case xEMAC_WaitPHY
  then show ?thesis using assms wait_stage[of ie n]
    by (auto simp: xUltrascaleNetworkInterfaceInitialise_def stage_ok_def split: if_splits)
qed (use assms in \<open>auto simp: xUltrascaleNetworkInterfaceInitialise_def\<close>)

lemma attempts_stage_ok:
  assumes "attempts ies n = Some (ok, n')" "stage_ok g net n" "list_all (\<lambda>ie. ie_gem ie = g \<and> ie_net ie = net) ies"
  shows "stage_ok g net n' \<and> (ok \<longrightarrow> eEMACState n' = xEMAC_Ready)"
  using assms
proof (induction ies arbitrary: n)
  case (Cons ie ies)
  obtain ok1 n1 where i: "xUltrascaleNetworkInterfaceInitialise ie n = Some (ok1, n1)"
    using Cons.prems(1) by (auto split: option.splits)
  have "stage_ok g net n1" using initialise_stage_ok[OF i] Cons.prems by simp
  then show ?case using Cons i initialise_stages[OF i] by (auto split: if_splits)
qed simp

text \<open>
  C28. However many attempts bringing up the interface takes, and in whichever stage they stop: when one reports success
  the stage is Ready and the rings are exactly as the single successful initialisation of the DMA leaves them, the
  start state of the traffic model. No attempt initialises them twice.
\<close>

theorem interface_up_means_rings_ready:
  assumes "attempts ies (netif_boot p) = Some (True, n)" "list_all (\<lambda>ie. ie_gem ie = g \<and> ie_net ie = net) ies"
  shows "eEMACState n = xEMAC_Ready \<and> nic_reachable g net (nic_start (ni_emac n))"
proof -
  have "stage_ok g net (netif_boot p)" by (simp add: stage_ok_def netif_boot_def)
  then have "stage_ok g net n" "eEMACState n = xEMAC_Ready" using attempts_stage_ok[OF assms(1) _ assms(2)] by auto
  then show ?thesis using nic_reachable.start by (simp add: stage_ok_def)
qed

text \<open>
  The stages only advance: a call never falls back, success is reported exactly in the stage Ready, and in the stages
  Ready and Fatal a call changes nothing at all.
\<close>

theorem initialise_advances:
  assumes "xUltrascaleNetworkInterfaceInitialise ie n = Some (ok, n')"
  shows "stage (eEMACState n) \<le> stage (eEMACState n') \<and> (ok \<longleftrightarrow> eEMACState n' = xEMAC_Ready) \<and>
    (eEMACState n = xEMAC_Ready \<or> eEMACState n = xEMAC_Fatal \<longrightarrow> n' = n)"
  using initialise_stages[OF assms] by auto


subsection \<open>Traffic through the interface\<close>

text \<open>
  Output of a packet moves it through the states of the traffic model: the buffer, handed over by the stack, ends in
  the transmit ring or, without a link or room, on the free list. It is never lost and never in both.
\<close>

theorem output_hands_over:
  assumes "nic_reachable g net s" "ie_gem ie = g" "ie_net ie = net" "b \<in> set (em_stack (nic_drv s))"
    "ni_emac n = (nic_drv s)\<lparr>em_stack := remove1 b (em_stack (nic_drv s))\<rparr>"
  shows "\<exists>t. nic_reachable g net t \<and> ni_emac (xUltrascaleNetworkInterfaceOutput ie checksum b n) = nic_drv t \<and>
    (nic_sent t = nic_sent s \<or> nic_sent t = nic_sent s @ [stack_frame net b (nic_drv s
       \<lparr>em_memory := (em_memory (nic_drv s))(eth_address net b := fix_checksum checksum (em_memory (nic_drv s) (eth_address net b)))\<rparr>)])"
proof -
  define bytes where "bytes = fix_checksum checksum (em_memory (nic_drv s) (eth_address net b))"
  define len where "len = xDataLength (em_bufs (nic_drv s)) b"
  define s1 where "s1 = s\<lparr>nic_drv := stack_write net b bytes len (nic_drv s)\<rparr>"
  have r1: "nic_reachable g net s1" unfolding s1_def by (rule nic_reachable.step[OF assms(1) nic_step.writes[OF assms(4)]])
  have w: "nic_drv s1 = (nic_drv s)\<lparr>em_memory := (em_memory (nic_drv s))(eth_address net b := bytes)\<rparr>"
    by (simp add: s1_def stack_write_def with_bufs_def len_def)
  define e1 where "e1 = (nic_drv s1)\<lparr>em_stack := remove1 b (em_stack (nic_drv s1))\<rparr>"
  have e: "(ni_emac n)\<lparr>em_memory := (em_memory (ni_emac n))(eth_address net b := fix_checksum checksum (em_memory (ni_emac n) (eth_address net b)))\<rparr> = e1"
    by (simp add: e1_def w assms(5) bytes_def)
  have st: "b \<in> set (em_stack (nic_drv s1))" using assms(4) by (simp add: w)
  show ?thesis
  proof (cases "ulPHYLinkState n AND niBMSR_LINK_STATUS \<noteq> 0")
    case True
    then have o: "ni_emac (xUltrascaleNetworkInterfaceOutput ie checksum b n) = snd (emacps_send_message g net b e1)"
      using e assms(2,3) by (simp add: xUltrascaleNetworkInterfaceOutput_def Let_def)
    have "nic_reachable g net (stack_send g net b s1)" by (rule nic_reachable.step[OF r1 nic_step.sends[OF st]])
    moreover have "nic_drv (stack_send g net b s1) = snd (emacps_send_message g net b e1)"
      by (simp add: stack_send_def case_prod_beta e1_def Let_def)
    moreover have "nic_sent (stack_send g net b s1) = nic_sent s \<or>
      nic_sent (stack_send g net b s1) = nic_sent s @ [stack_frame net b (nic_drv s1)]"
      by (simp add: stack_send_def case_prod_beta Let_def) (simp add: s1_def)
    ultimately show ?thesis using o w unfolding bytes_def by (intro exI[of _ "stack_send g net b s1"]) simp
  next
    case False
    then have o: "ni_emac (xUltrascaleNetworkInterfaceOutput ie checksum b n) = with_bufs (vReleaseNetworkBufferAndDescriptor b) e1"
      using e assms(2,3) by (simp add: xUltrascaleNetworkInterfaceOutput_def Let_def)
    have "nic_reachable g net (s1\<lparr>nic_drv := stack_release b (nic_drv s1)\<rparr>)"
      by (rule nic_reachable.step[OF r1 nic_step.releases[OF st]])
    then show ?thesis using o
      by (intro exI[of _ "s1\<lparr>nic_drv := stack_release b (nic_drv s1)\<rparr>"]) (simp add: stack_release_def e1_def s1_def)
  qed
qed

text \<open>The pieces of a round of the task as runs of the traffic model.\<close>

definition reaches :: "gem_bits \<Rightarrow> emac_env \<Rightarrow> nic \<Rightarrow> netif \<Rightarrow> bool" where
  "reaches g net s n \<longleftrightarrow> nic_reachable g net s \<and> ni_emac n = nic_drv s"

lemma reaches_events:
  assumes "reaches g net s n" "ni_emac n' = (ni_emac n)\<lparr>isr_events := w\<rparr>"
  shows "reaches g net (s\<lparr>nic_drv := (nic_drv s)\<lparr>isr_events := w\<rparr>\<rparr>) n'"
  using assms nic_reachable.step[OF _ nic_step.events] by (simp add: reaches_def)

lemma check_rx_events:
  assumes "emacps_check_rx g env rxcnt e = Some (k, e')"
  shows "isr_events e' = isr_events e"
proof -
  have step: "isr_events e1 = isr_events e0" if "check_rx_step g env e0 = Some (Some (p, e1))" for e0 p e1
    using that by (auto simp: check_rx_step_def Let_def prvPassEthMessages_def with_bufs_def split: if_splits option.splits)
  have "isr_events e' = isr_events e0" if "check_rx_loop g env f m e0 = Some (k, e')" for f m e0
    using that
  proof (induction f arbitrary: m e0)
    case (Suc f)
    then show ?case by (auto split: option.splits prod.splits dest!: step)
  qed simp
  then have "isr_events e' = isr_events (resetrx_on_no_rxdata g rxcnt e)" using assms unfolding emacps_check_rx_def by blast
  then show ?thesis by (simp add: resetrx_on_no_rxdata_def Let_def)
qed

lemma check_tx_events: "emacps_check_tx g e = Some e' \<Longrightarrow> isr_events e' = isr_events e"
proof -
  have "isr_events (check_tx_slot g e) = isr_events e" for e
    by (simp add: check_tx_slot_def Let_def with_bufs_def split: option.split)
  then have "isr_events (check_tx_loop g h n e) = isr_events e" for h n e
    by (induction n arbitrary: e) simp_all
  then show "emacps_check_tx g e = Some e' \<Longrightarrow> isr_events e' = isr_events e"
    by (auto simp: emacps_check_tx_def split: option.splits)
qed

lemma event_bits:
  "w AND EMAC_IF_RX_EVENT \<noteq> 0 \<longleftrightarrow> bit w 0" "w AND EMAC_IF_TX_EVENT \<noteq> 0 \<longleftrightarrow> bit w 1" "w AND EMAC_IF_ERR_EVENT \<noteq> 0 \<longleftrightarrow> bit w 2"
  "w AND EMAC_IF_ALL_EVENT \<noteq> 0 \<longleftrightarrow> bit w 0 \<or> bit w 1 \<or> bit w 2"
proof -
  have e: "EMAC_IF_RX_EVENT = 2 ^ 0" "EMAC_IF_TX_EVENT = 2 ^ 1" "EMAC_IF_ERR_EVENT = 2 ^ 2"
    "EMAC_IF_ALL_EVENT = 2 ^ 0 OR 2 ^ 1 OR 2 ^ 2"
    by (simp_all add: EMAC_IF_RX_EVENT_def EMAC_IF_TX_EVENT_def EMAC_IF_ERR_EVENT_def EMAC_IF_ALL_EVENT_def)
  show "w AND EMAC_IF_RX_EVENT \<noteq> 0 \<longleftrightarrow> bit w 0" "w AND EMAC_IF_TX_EVENT \<noteq> 0 \<longleftrightarrow> bit w 1" "w AND EMAC_IF_ERR_EVENT \<noteq> 0 \<longleftrightarrow> bit w 2"
    unfolding e by (simp_all only: and_exp_eq_0_iff_not_bit) simp_all
  show "w AND EMAC_IF_ALL_EVENT \<noteq> 0 \<longleftrightarrow> bit w 0 \<or> bit w 1 \<or> bit w 2"
    unfolding e bit.conj_disj_distrib or_eq_0_iff and_exp_eq_0_iff_not_bit by blast
qed

lemma event_cleared:
  "bit (w AND NOT EMAC_IF_RX_EVENT) k \<longleftrightarrow> bit w k \<and> k \<noteq> 0" "bit (w AND NOT EMAC_IF_TX_EVENT) k \<longleftrightarrow> bit w k \<and> k \<noteq> 1"
proof -
  have e: "EMAC_IF_RX_EVENT = 2 ^ 0" "EMAC_IF_TX_EVENT = 2 ^ 1" by (simp_all add: EMAC_IF_RX_EVENT_def EMAC_IF_TX_EVENT_def)
  show "bit (w AND NOT EMAC_IF_RX_EVENT) k \<longleftrightarrow> bit w k \<and> k \<noteq> 0" "bit (w AND NOT EMAC_IF_TX_EVENT) k \<longleftrightarrow> bit w k \<and> k \<noteq> 1"
    unfolding e by (auto simp only: bit_simps possible_bit_word) (auto dest: bit_imp_le_length)
qed

lemma round_rx:
  assumes "gem_ok (ie_gem ie)" "env_ok (ie_net ie)" "reaches (ie_gem ie) (ie_net ie) s n"
  obtains k n' t where "check_rx_netif ie c n = Some (k, n')" "reaches (ie_gem ie) (ie_net ie) t n'"
    "nic_arrived t = nic_arrived s" "nic_taken t = nic_arrived s" "isr_events (ni_emac n') = isr_events (ni_emac n)"
proof -
  obtain k t where t: "emacps_check_rx (ie_gem ie) (ie_net ie) c (ni_emac n) = Some (k, nic_drv t)"
    "nic_reachable (ie_gem ie) (ie_net ie) t" "nic_arrived t = nic_arrived s" "nic_taken t = nic_arrived s"
    using check_rx_drains[OF assms(1,2), of s c] assms(3) by (auto simp: reaches_def)
  then show thesis
    using check_rx_events[OF t(1)] by (intro that[of k "n\<lparr>ni_emac := nic_drv t\<rparr>" t]) (simp_all add: check_rx_netif_def reaches_def)
qed

lemma round_tx:
  assumes "gem_ok (ie_gem ie)" "env_ok (ie_net ie)" "reaches (ie_gem ie) (ie_net ie) s n"
  obtains n' t where "check_tx_netif ie n = Some n'" "reaches (ie_gem ie) (ie_net ie) t n'"
    "nic_arrived t = nic_arrived s" "nic_taken t = nic_taken s" "isr_events (ni_emac n') = isr_events (ni_emac n)"
proof -
  have r: "nic_reachable (ie_gem ie) (ie_net ie) s" "ni_emac n = nic_drv s" using assms(3) by (simp_all add: reaches_def)
  obtain c d where "tx_at (ie_gem ie) (ie_net ie) c d (nic_drv s)"
    using nic_reachable_ok[OF r(1) assms(1,2)] by (auto simp: nic_ok_def tx_ok_def)
  then obtain e where e: "emacps_check_tx (ie_gem ie) (nic_drv s) = Some e" using check_tx_slots[OF assms(1)] by blast
  then have "nic_reachable (ie_gem ie) (ie_net ie) (s\<lparr>nic_drv := e\<rparr>)" using r(1) nic_step.cleans nic_reachable.step by metis
  then show thesis
    using e r(2) check_tx_events[OF e] by (intro that[of "n\<lparr>ni_emac := e\<rparr>" "s\<lparr>nic_drv := e\<rparr>"]) (simp_all add: check_tx_netif_def reaches_def)
qed

text \<open>The four stages of a round, each with its condition.\<close>

lemma stage_rx_status:
  assumes "gem_ok (ie_gem ie)" "env_ok (ie_net ie)" "reaches (ie_gem ie) (ie_net ie) s n"
  obtains k n' t where "if_event c (\<lambda>(_, n). check_rx_netif ie x n) (r, n) = Some (k, n')" "reaches (ie_gem ie) (ie_net ie) t n'"
    "nic_arrived t = nic_arrived s" "isr_events (ni_emac n') = isr_events (ni_emac n)"
proof (cases c)
  case True
  obtain k n' t where "check_rx_netif ie x n = Some (k, n')" "reaches (ie_gem ie) (ie_net ie) t n'"
    "nic_arrived t = nic_arrived s" "isr_events (ni_emac n') = isr_events (ni_emac n)" by (rule round_rx[OF assms])
  then show thesis using True that by (simp add: if_event_def)
qed (use assms(3) that in \<open>simp add: if_event_def\<close>)

lemma stage_tx_status:
  assumes "gem_ok (ie_gem ie)" "env_ok (ie_net ie)" "reaches (ie_gem ie) (ie_net ie) s n"
  obtains n' t where "if_event c (\<lambda>(r, n). map_option (Pair r) (check_tx_netif ie n)) (r, n) = Some (r, n')"
    "reaches (ie_gem ie) (ie_net ie) t n'" "nic_arrived t = nic_arrived s" "isr_events (ni_emac n') = isr_events (ni_emac n)"
proof (cases c)
  case True
  obtain n' t where "check_tx_netif ie n = Some n'" "reaches (ie_gem ie) (ie_net ie) t n'"
    "nic_arrived t = nic_arrived s" "isr_events (ni_emac n') = isr_events (ni_emac n)" by (rule round_tx[OF assms])
  then show thesis using True that by (simp add: if_event_def)
qed (use assms(3) that in \<open>simp add: if_event_def\<close>)

lemma stage_rx_event:
  assumes "gem_ok (ie_gem ie)" "env_ok (ie_net ie)" "reaches (ie_gem ie) (ie_net ie) s n"
  obtains k n' t where "if_event (bit (isr_events (ni_emac n)) 0)
      (\<lambda>(_, n). check_rx_netif ie x (take_event EMAC_IF_RX_EVENT n)) (r, n) = Some (k, n')"
    "reaches (ie_gem ie) (ie_net ie) t n'" "nic_arrived t = nic_arrived s"
    "\<forall>i. bit (isr_events (ni_emac n')) i \<longleftrightarrow> bit (isr_events (ni_emac n)) i \<and> i \<noteq> 0"
    "bit (isr_events (ni_emac n)) 0 \<longrightarrow> nic_taken t = nic_arrived s"
proof (cases "bit (isr_events (ni_emac n)) 0")
  case True
  define n1 where "n1 = take_event EMAC_IF_RX_EVENT n"
  define s1 where "s1 = s\<lparr>nic_drv := (nic_drv s)\<lparr>isr_events := isr_events (ni_emac n) AND NOT EMAC_IF_RX_EVENT\<rparr>\<rparr>"
  have "reaches (ie_gem ie) (ie_net ie) s1 n1"
    unfolding s1_def by (rule reaches_events[OF assms(3)]) (simp add: n1_def take_event_def)
  then obtain k n' t where t: "check_rx_netif ie x n1 = Some (k, n')" "reaches (ie_gem ie) (ie_net ie) t n'"
    "nic_arrived t = nic_arrived s1" "nic_taken t = nic_arrived s1" "isr_events (ni_emac n') = isr_events (ni_emac n1)"
    using round_rx[OF assms(1,2)] by metis
  moreover have "nic_arrived s1 = nic_arrived s" "bit (isr_events (ni_emac n1)) i \<longleftrightarrow> bit (isr_events (ni_emac n)) i \<and> i \<noteq> 0" for i
    by (simp_all add: s1_def n1_def take_event_def event_cleared)
  ultimately show thesis using True by (intro that[of k n' t]) (simp_all add: if_event_def n1_def)
next
  case False
  then show thesis using assms(3) by (intro that[of r n s]) (simp add: if_event_def, simp, simp, metis, simp)
qed

lemma stage_tx_event:
  assumes "gem_ok (ie_gem ie)" "env_ok (ie_net ie)" "reaches (ie_gem ie) (ie_net ie) s n"
  obtains n' t where "if_event (bit (isr_events (ni_emac n)) 1)
      (\<lambda>(r, n). map_option (Pair r) (check_tx_netif ie (take_event EMAC_IF_TX_EVENT n))) (r, n) = Some (r, n')"
    "reaches (ie_gem ie) (ie_net ie) t n'" "nic_arrived t = nic_arrived s" "nic_taken t = nic_taken s"
    "\<forall>i. bit (isr_events (ni_emac n')) i \<longleftrightarrow> bit (isr_events (ni_emac n)) i \<and> i \<noteq> 1"
proof (cases "bit (isr_events (ni_emac n)) 1")
  case True
  define n1 where "n1 = take_event EMAC_IF_TX_EVENT n"
  define s1 where "s1 = s\<lparr>nic_drv := (nic_drv s)\<lparr>isr_events := isr_events (ni_emac n) AND NOT EMAC_IF_TX_EVENT\<rparr>\<rparr>"
  have "reaches (ie_gem ie) (ie_net ie) s1 n1"
    unfolding s1_def by (rule reaches_events[OF assms(3)]) (simp add: n1_def take_event_def)
  then obtain n' t where t: "check_tx_netif ie n1 = Some n'" "reaches (ie_gem ie) (ie_net ie) t n'"
    "nic_arrived t = nic_arrived s1" "nic_taken t = nic_taken s1" "isr_events (ni_emac n') = isr_events (ni_emac n1)"
    using round_tx[OF assms(1,2)] by metis
  moreover have "nic_arrived s1 = nic_arrived s" "nic_taken s1 = nic_taken s"
    "bit (isr_events (ni_emac n1)) i \<longleftrightarrow> bit (isr_events (ni_emac n)) i \<and> i \<noteq> 1" for i
    by (simp_all add: s1_def n1_def take_event_def event_cleared)
  ultimately show thesis using True by (intro that[of n' t]) (simp_all add: if_event_def n1_def)
next
  case False
  then show thesis using assms(3) by (intro that[of n s]) (simp add: if_event_def, simp, simp, simp, metis)
qed

lemma stage_wait:
  assumes "reaches g net s n"
  obtains t where "reaches g net t (handler_wait ie tx rx slept events n)" "nic_arrived t = nic_arrived s"
    "\<And>i. bit (isr_events (ni_emac n)) i \<Longrightarrow> bit (isr_events (ni_emac (handler_wait ie tx rx slept events n))) i"
    "\<And>i. \<not> bit (isr_events (ni_emac n)) i \<Longrightarrow> \<not> bit events i \<Longrightarrow>
      \<not> bit (isr_events (ni_emac (handler_wait ie tx rx slept events n))) i"
proof -
  define n' where "n' = handler_wait ie tx rx slept events n"
  have "ni_emac n' = (ni_emac n)\<lparr>isr_events := isr_events (ni_emac n')\<rparr>"
    "isr_events (ni_emac n') = isr_events (ni_emac n) \<or> isr_events (ni_emac n') = isr_events (ni_emac n) OR events"
    by (simp_all add: n'_def handler_wait_def Let_def)
  then show thesis using reaches_events[OF assms, of n' "isr_events (ni_emac n')"] that by (fastforce simp: bit_or_iff simp flip: n'_def)
qed

text \<open>
  C29. If no error event is pending before a round of the handler task and none is reported during it, the round serves what it finds: it comes to an end without an
  undefined access, every event bit is clear afterwards, the rings are in a state of the traffic model, and when a
  receive event was pending every frame that had arrived has been taken, in order.
\<close>

theorem handler_serves_events:
  assumes "gem_ok (ie_gem ie)" "env_ok (ie_net ie)" "nic_reachable (ie_gem ie) (ie_net ie) s" "ni_emac n = nic_drv s"
    "isr_events (ni_emac n) AND EMAC_IF_ERR_EVENT = 0" "events AND EMAC_IF_ERR_EVENT = 0"
  shows "\<exists>n' t. prvEMACHandlerRound ie ulTxStatus ulRxStatus rxcnt slept events xResult n = Some (0, n') \<and>
    nic_reachable (ie_gem ie) (ie_net ie) t \<and> ni_emac n' = nic_drv t \<and> nic_arrived t = nic_arrived s \<and>
    isr_events (ni_emac n') AND EMAC_IF_ALL_EVENT = 0 \<and>
    (isr_events (ni_emac n) AND EMAC_IF_RX_EVENT \<noteq> 0 \<longrightarrow> nic_taken t = nic_arrived s)"
proof -
  define m where "m = ie_masks ie"
  define n0 where "n0 = handler_wait ie ulTxStatus ulRxStatus slept events n"
  define cr where "cr = (ulRxStatus AND (rxsr_framerx m OR rxsr_buffna m OR rxsr_rxovr m OR rxsr_hrespnok m) \<noteq> 0)"
  define ct where "ct = (ulTxStatus AND (txsr_txcompl m OR txsr_usedread m OR txsr_error m) \<noteq> 0)"
  have e2: "\<not> bit (isr_events (ni_emac n)) 2" "\<not> bit events 2" using assms(5,6) event_bits(3) by metis+
  have "reaches (ie_gem ie) (ie_net ie) s n" using assms(3,4) by (simp add: reaches_def)
  then obtain s0 where s0: "reaches (ie_gem ie) (ie_net ie) s0 n0" "nic_arrived s0 = nic_arrived s" "\<not> bit (isr_events (ni_emac n0)) 2"
    "bit (isr_events (ni_emac n)) 0 \<Longrightarrow> bit (isr_events (ni_emac n0)) 0"
    unfolding n0_def using stage_wait e2 by metis
  obtain r1 n1 s1 where s1: "if_event cr (\<lambda>(_, n). check_rx_netif ie (rxcnt 0) n) (xResult, n0) = Some (r1, n1)"
    "reaches (ie_gem ie) (ie_net ie) s1 n1" "nic_arrived s1 = nic_arrived s0" "isr_events (ni_emac n1) = isr_events (ni_emac n0)"
    by (rule stage_rx_status[OF assms(1,2) s0(1)])
  obtain n2 s2 where s2: "if_event ct (\<lambda>(r, n). map_option (Pair r) (check_tx_netif ie n)) (r1, n1) = Some (r1, n2)"
    "reaches (ie_gem ie) (ie_net ie) s2 n2" "nic_arrived s2 = nic_arrived s1" "isr_events (ni_emac n2) = isr_events (ni_emac n1)"
    by (rule stage_tx_status[OF assms(1,2) s1(2)])
  obtain r3 n3 s3 where s3: "if_event (bit (isr_events (ni_emac n2)) 0)
      (\<lambda>(_, n). check_rx_netif ie (rxcnt 1) (take_event EMAC_IF_RX_EVENT n)) (r1, n2) = Some (r3, n3)"
    "reaches (ie_gem ie) (ie_net ie) s3 n3" "nic_arrived s3 = nic_arrived s2"
    "\<forall>i. bit (isr_events (ni_emac n3)) i \<longleftrightarrow> bit (isr_events (ni_emac n2)) i \<and> i \<noteq> 0"
    "bit (isr_events (ni_emac n2)) 0 \<longrightarrow> nic_taken s3 = nic_arrived s2" by (rule stage_rx_event[OF assms(1,2) s2(2)])
  obtain n4 s4 where s4: "if_event (bit (isr_events (ni_emac n3)) 1)
      (\<lambda>(r, n). map_option (Pair r) (check_tx_netif ie (take_event EMAC_IF_TX_EVENT n))) (r3, n3) = Some (r3, n4)"
    "reaches (ie_gem ie) (ie_net ie) s4 n4" "nic_arrived s4 = nic_arrived s3" "nic_taken s4 = nic_taken s3"
    "\<forall>i. bit (isr_events (ni_emac n4)) i \<longleftrightarrow> bit (isr_events (ni_emac n3)) i \<and> i \<noteq> 1" by (rule stage_tx_event[OF assms(1,2) s3(2)])
  have clear: "\<not> bit (isr_events (ni_emac n4)) 0" "\<not> bit (isr_events (ni_emac n4)) 1" "\<not> bit (isr_events (ni_emac n4)) 2"
    using s4(5) s3(4) s2(4) s1(4) s0(3) by simp_all
  have "prvEMACHandlerRound ie ulTxStatus ulRxStatus rxcnt slept events xResult n = Some (0, check_link ie r3 n4)"
    using s1(1) s2(1) s3(1) s4(1) clear(3)
    by (simp add: prvEMACHandlerRound_def event_bits if_event_def[of False] flip: m_def n0_def cr_def ct_def)
  moreover have "ni_emac (check_link ie r3 n4) = ni_emac n4"
    by (simp add: check_link_def Let_def ulReadMDIO_def case_prod_beta)
  moreover have "isr_events (ni_emac n4) AND EMAC_IF_ALL_EVENT = 0" using clear event_bits(4) by blast
  moreover have "isr_events (ni_emac n) AND EMAC_IF_RX_EVENT \<noteq> 0 \<Longrightarrow> nic_taken s4 = nic_arrived s"
    using s4(4) s3(5) s2(3,4) s1(3,4) s0(2,4) event_bits(1) by simp
  ultimately show ?thesis
    using s4(2,3) s3(3) s2(3) s1(3) s0(2) by (intro exI[of _ "check_link ie r3 n4"] exI[of _ s4]) (simp add: reaches_def)
qed


subsection \<open>What the error handling does not do\<close>

text \<open>Cleaning the transmit descriptors after an error forgets the buffers they hold: nobody releases them.\<close>

lemma tx_error_leaks:
  assumes "owners_ok e" "Some b \<in> set (pxDMA_tx_buffers e)"
  shows "b \<notin> set (owners (HandleTxErrors g e))"
proof -
  have "b \<in> set (held (pxDMA_tx_buffers e))" using assms(2) by (simp add: set_held)
  then have "b \<notin> set (xFreeBuffersList (em_bufs e))" "b \<notin> set (held (pxDMA_rx_buffers e))" "b \<notin> set (em_stack e)"
    using owners_with_distinct(1)[of "[]" e] assms(1) by (auto simp: owners_ok_def owners_def)
  then show ?thesis by (simp add: owners_def HandleTxErrors_def clean_dma_txdescs_def Let_def)
qed

lemma ready_no_reinit: "eEMACState n = xEMAC_Ready \<Longrightarrow> vInitialiseOnIndex ie n = Some n"
  by (simp add: vInitialiseOnIndex_def xUltrascaleNetworkInterfaceInitialise_def)

text \<open>A DMA error is to be answered with a new initialisation; in the stage Ready this does nothing but count the message.\<close>

lemma dma_error_not_repaired:
  assumes "eEMACState n = xEMAC_Ready" "w AND rxsr_hrespnok (ie_masks ie) \<noteq> 0" "w AND rxsr_rxovr (ie_masks ie) = 0"
    "w AND rxsr_buffna (ie_masks ie) = 0" "w \<noteq> 0"
  shows "emacps_handle_error ie XEMACPS_RECV w n =
    Some (n\<lparr>last_err_msg := Some ''Receive DMA error'', error_msg_count := error_msg_count n + 1\<rparr>)"
  using assms by (simp add: emacps_handle_error_def on_bit_def ready_no_reinit Let_def)

text \<open>
  An error is not removed from the list when it is handled: the tail stays where it is, so that every later error event
  handles the same first entry again, and the list takes no more entries once seven are in it.
\<close>

definition list_kept :: "netif \<Rightarrow> netif \<Rightarrow> bool" where
  "list_kept n n' \<longleftrightarrow> eEMACState n = xEMAC_Ready \<longrightarrow>
     eEMACState n' = xEMAC_Ready \<and> xErrorTail n' = xErrorTail n \<and> xErrorHead n' = xErrorHead n"

definition keeps_list :: "(netif \<Rightarrow> netif option) \<Rightarrow> bool" where
  "keeps_list act \<longleftrightarrow> (\<forall>n n'. act n = Some n' \<longrightarrow> list_kept n n')"

lemma keeps_list_actions:
  "keeps_list (vInitialiseOnIndex ie)" "keeps_list (with_emac f)" "keeps_list (check_tx_netif ie)"
proof -
  show "keeps_list (vInitialiseOnIndex ie)" unfolding keeps_list_def list_kept_def using ready_no_reinit by fastforce
  show "keeps_list (with_emac f)" "keeps_list (check_tx_netif ie)"
    by (auto simp: keeps_list_def list_kept_def with_emac_def check_tx_netif_def)
qed

lemma keeps_list_on_bit:
  assumes "keeps_list act"
  shows "keeps_list (on_bit w k msg act)"
  unfolding keeps_list_def
proof (intro allI impI)
  fix n n' assume "on_bit w k msg act n = Some n'"
  then have "n' = n \<or> act (n\<lparr>last_err_msg := Some msg\<rparr>) = Some n'" by (simp add: on_bit_def split: if_splits)
  then have "n' = n \<or> list_kept (n\<lparr>last_err_msg := Some msg\<rparr>) n'" using assms by (auto simp: keeps_list_def)
  then show "list_kept n n'" by (auto simp: list_kept_def)
qed

lemma keeps_list_bind:
  assumes "keeps_list f" "keeps_list h"
  shows "keeps_list (\<lambda>n. Option.bind (f n) h)"
  unfolding keeps_list_def
proof (intro allI impI)
  fix n n' assume "Option.bind (f n) h = Some n'"
  then obtain n1 where "f n = Some n1" "h n1 = Some n'" by (auto simp: bind_eq_Some_conv)
  then have "list_kept n n1" "list_kept n1 n'" using assms by (auto simp: keeps_list_def)
  then show "list_kept n n'" by (simp add: list_kept_def)
qed

lemma handle_error_keeps:
  assumes "emacps_handle_error ie d w n = Some n'"
  shows "list_kept n n'"
proof -
  define m where "m = ie_masks ie"
  define clauses where "clauses = (case d of
      XEMACPS_RECV \<Rightarrow>
        (\<lambda>n. Option.bind (on_bit w (rxsr_hrespnok m) ''Receive DMA error'' (vInitialiseOnIndex ie) n)
          (\<lambda>n. Option.bind (on_bit w (rxsr_rxovr m) ''Receive over run'' (with_emac emacps_recv_handler) n)
            (on_bit w (rxsr_buffna m) ''Receive buffer not available'' (with_emac emacps_recv_handler))))
    | XEMACPS_SEND \<Rightarrow>
        (\<lambda>n. Option.bind (on_bit w (txsr_hrespnok m) ''Transmit DMA error'' (vInitialiseOnIndex ie) n)
          (\<lambda>n. Option.bind (on_bit w (txsr_urun m) ''Transmit under run'' (with_emac (HandleTxErrors (ie_gem ie))) n)
            (\<lambda>n. Option.bind (on_bit w (txsr_bufexh m) ''Transmit buffer exhausted'' (with_emac (HandleTxErrors (ie_gem ie))) n)
              (\<lambda>n. Option.bind (on_bit w (txsr_rxovr m) ''Transmit retry exceeded limits'' (with_emac (HandleTxErrors (ie_gem ie))) n)
                (on_bit w (txsr_framerx m) ''Transmit collision'' (check_tx_netif ie)))))))"
  have "keeps_list clauses"
    unfolding clauses_def by (cases d) (simp_all only: direction.case, (intro keeps_list_bind keeps_list_on_bit keeps_list_actions)+)
  moreover have "\<exists>n1. (n1 = n\<lparr>last_err_msg := None\<rparr> \<or> clauses (n\<lparr>last_err_msg := None\<rparr>) = Some n1) \<and>
      (n' = n1 \<or> n' = n1\<lparr>error_msg_count := error_msg_count n1 + 1\<rparr>)"
    using assms by (cases d) (auto simp: emacps_handle_error_def clauses_def m_def Let_def split: if_splits)
  moreover have "list_kept n n" for n by (simp add: list_kept_def)
  ultimately obtain n1 where "list_kept (n\<lparr>last_err_msg := None\<rparr>) n1" "n' = n1 \<or> n' = n1\<lparr>error_msg_count := error_msg_count n1 + 1\<rparr>"
    unfolding keeps_list_def by metis
  then show ?thesis by (auto simp: list_kept_def)
qed

lemma errors_never_removed:
  assumes "eEMACState n = xEMAC_Ready" "emacps_check_errors ie n = Some n'"
  shows "xErrorTail n' = xErrorTail n \<and> xErrorHead n' = xErrorHead n"
proof (cases "xErrorHead n = xErrorTail n")
  case False
  then have "emacps_handle_error ie (fst (xErrorList n ! xErrorTail n)) (snd (xErrorList n ! xErrorTail n)) n = Some n'"
    using assms(2) by (simp add: emacps_check_errors_def case_prod_beta)
  then show ?thesis using handle_error_keeps assms(1) by (auto simp: list_kept_def)
qed (use assms in \<open>simp add: emacps_check_errors_def\<close>)

lemma error_list_full:
  "xErrorTail n = 0 \<Longrightarrow> xErrorHead n = 7 \<Longrightarrow> emacps_error_handler ie d w n = n"
  by (simp add: emacps_error_handler_def)


subsection \<open>A run\<close>

lemma phy_setup_fst: "fst (run_state (Phy_Setup_US penv fuel base a) p) = fst (run_state (get_IEEE_phy_speed_US penv fuel a) p)"
  by (auto simp: Phy_Setup_US_def split: prod.split option.split)

lemma demo_speed: "fst (run_state (Phy_Setup_US (demo_phy 0x2000 0x8000) fuel base a) p) = Some 1000"
  unfolding phy_setup_fst
  by (simp add: get_IEEE_phy_speed_US_def get_TI_phy_speed_def ti_tail_def ti_select_def autoneg_def phy_or_def
      phy_simps demo_phy_def XST_SUCCESS_def speed_of_bits_def wait_autoneg_done case_prod_beta)

definition demo_ie :: init_env where
  "demo_ie = \<lparr>ie_gem = demo_gem, ie_net = demo_net, ie_phy = demo_phy 0x2000 0x8000,
     ie_masks = \<lparr>rxsr_hrespnok = 8, rxsr_rxovr = 4, rxsr_buffna = 1, rxsr_framerx = 2, txsr_hrespnok = 0x100, txsr_urun = 0x40,
       txsr_bufexh = 0x10, txsr_rxovr = 4, txsr_framerx = 2, txsr_usedread = 1, txsr_txcompl = 0x20, txsr_error = 0x15e\<rparr>,
     ie_fuel = 1, ie_base = versal_base 0, ie_cfg_status = 0, ie_endpoint = True, ie_rings = ring_success, ie_task_created = True\<rparr>"

lemma demo_wait: "\<exists>n'. state_WaitPHY demo_ie n = Some (True, n')"
proof -
  have "prvGMACWaitLS (ie_phy demo_ie) 1000 n = wait_ls (ie_phy demo_ie) (Suc 51) (phy_ticks (ni_phy n)) 1000 n"
    by (simp add: prvGMACWaitLS_def)
  also have "\<dots> = Some (True, (snd (ulReadMDIO (ie_phy demo_ie) 1 n))\<lparr>ulPHYLinkState := 0x24\<rparr>)"
    by (subst wait_ls.simps(2)) (simp add: demo_ie_def demo_phy_def ulReadMDIO_def run_phy_def phy_simps niBMSR_LINK_STATUS_def Let_def)
  finally show ?thesis by (simp add: state_WaitPHY_def xUltrascaleGetPhyLinkStatus_def niBMSR_LINK_STATUS_def demo_ie_def)
qed

lemma demo_detect: "fst (run_phy (ulDetectPHY (ie_phy demo_ie)) n) = 0"
proof -
  have "ulDetectPHY (ie_phy demo_ie) = detect_from (ie_phy demo_ie) (Suc 31) 0" by (simp add: ulDetectPHY_def)
  moreover have "fst (run_state (detect_from (ie_phy demo_ie) (Suc k) 0) p) = 0" for k p
    by (simp add: demo_ie_def demo_phy_def phy_simps phy_id_valid_def XST_SUCCESS_def)
  ultimately show ?thesis unfolding run_phy_def case_prod_beta fst_conv by metis
qed

text \<open>One attempt suffices with the device of the example.\<close>

lemma demo_up: "\<exists>n. attempts [demo_ie] (netif_boot phy0) = Some (True, n)"
proof -
  obtain e where e: "init_dma demo_gem demo_net ring_success emac_boot = Some (0, e)"
    using init_dma_ready[OF demo_net_ok(1)] by blast
  have stage1: "\<exists>n'. state_SetupPHY demo_ie n = Some (True, n')" if n: "ni_emac n = emac_boot" for n
  proof -
    obtain r n1 where r: "run_phy (Phy_Setup_US (ie_phy demo_ie) (ie_fuel demo_ie) (ie_base demo_ie) (phy_detected n)) n = (r, n1)"
      by (cases "run_phy (Phy_Setup_US (ie_phy demo_ie) (ie_fuel demo_ie) (ie_base demo_ie) (phy_detected n)) n") simp
    have "r = Some 1000" using r demo_speed by (auto simp: run_phy_def demo_ie_def case_prod_beta)
    moreover have "ni_emac n1 = emac_boot" using run_phy_fields(1) r n by (metis snd_conv)
    moreover have "(1000 :: u32) \<noteq> XST_FAILURE" by (simp add: XST_FAILURE_def)
    moreover have "init_dma (ie_gem demo_ie) (ie_net demo_ie) (ie_rings demo_ie) emac_boot = Some (0, e)"
      using e by (simp add: demo_ie_def)
    ultimately show ?thesis using r demo_wait by (simp add: state_SetupPHY_def Let_def)
  qed
  define n1 where "n1 = (netif_boot phy0)\<lparr>pxMyInterface := True, ulPHYLinkState := 0, ni_emac := clear_xemacpsif (ni_emac (netif_boot phy0))\<rparr>"
  define n2 where "n2 = snd (run_phy (ulDetectPHY (ie_phy demo_ie)) n1)"
  define n4 where "n4 = (prvDumpPhyRegisters (ie_phy demo_ie) (n2\<lparr>phy_detected := 0\<rparr>))\<lparr>eEMACState := xEMAC_SetupPHY\<rparr>"
  have "ni_emac n4 = emac_boot" by (simp add: n4_def prvDumpPhyRegisters_def n2_def n1_def netif_boot_def clear_boot)
  then obtain n' where n': "state_SetupPHY demo_ie n4 = Some (True, n')" using stage1 by blast
  have f: "run_phy (ulDetectPHY (ie_phy demo_ie)) n1 = (0, n2)" using demo_detect by (metis n2_def prod.collapse)
  have "ie_cfg_status demo_ie = 0" "ie_endpoint demo_ie" by (simp_all add: demo_ie_def)
  then have "state_Init demo_ie (netif_boot phy0) = state_SetupPHY demo_ie n4"
    using f by (simp add: state_Init_def Let_def n4_def flip: n1_def)
  moreover have "eEMACState (netif_boot phy0) = xEMAC_Init" by (simp add: netif_boot_def)
  ultimately show ?thesis using n' by (simp add: xUltrascaleNetworkInterfaceInitialise_def)
qed

theorem interface_up_means_rings_ready_witness:
  "\<exists>n. attempts [demo_ie] (netif_boot phy0) = Some (True, n) \<and>
    eEMACState n = xEMAC_Ready \<and> nic_reachable demo_gem demo_net (nic_start (ni_emac n))"
proof -
  obtain n where "attempts [demo_ie] (netif_boot phy0) = Some (True, n)" using demo_up by blast
  moreover have "list_all (\<lambda>ie. ie_gem ie = demo_gem \<and> ie_net ie = demo_net) [demo_ie]" by (simp add: demo_ie_def)
  ultimately show ?thesis using interface_up_means_rings_ready by blast
qed

theorem initialise_advances_witness:
  "\<exists>ok n. xUltrascaleNetworkInterfaceInitialise demo_ie (netif_boot phy0) = Some (ok, n) \<and>
    stage xEMAC_Init \<le> stage (eEMACState n) \<and> (ok \<longleftrightarrow> eEMACState n = xEMAC_Ready)"
proof -
  obtain n where "attempts [demo_ie] (netif_boot phy0) = Some (True, n)" using demo_up by blast
  then obtain ok n1 where i: "xUltrascaleNetworkInterfaceInitialise demo_ie (netif_boot phy0) = Some (ok, n1)"
    by (auto split: option.splits)
  then show ?thesis using initialise_advances[OF i] by (auto simp: netif_boot_def)
qed

theorem output_hands_over_witness:
  "\<exists>s c t. nic_reachable demo_gem demo_net s \<and> em_stack (nic_drv s) = [c] \<and> nic_reachable demo_gem demo_net t \<and>
    ni_emac (xUltrascaleNetworkInterfaceOutput demo_ie id c
      ((netif_boot phy0)\<lparr>ulPHYLinkState := 4, ni_emac := (nic_drv s)\<lparr>em_stack := remove1 c (em_stack (nic_drv s))\<rparr>\<rparr>)) = nic_drv t"
proof -
  obtain s c where s: "nic_reachable demo_gem demo_net s" "em_stack (nic_drv s) = [c]" using demo_filled by blast
  have "ie_gem demo_ie = demo_gem" "ie_net demo_ie = demo_net" "c \<in> set (em_stack (nic_drv s))" using s by (simp_all add: demo_ie_def)
  moreover have "ni_emac ((netif_boot phy0)\<lparr>ulPHYLinkState := 4, ni_emac := (nic_drv s)\<lparr>em_stack := remove1 c (em_stack (nic_drv s))\<rparr>\<rparr>) =
    (nic_drv s)\<lparr>em_stack := remove1 c (em_stack (nic_drv s))\<rparr>" by simp
  ultimately show ?thesis using s output_hands_over[OF s(1)] by blast
qed

theorem handler_serves_events_witness:
  "\<exists>s n n' t. nic_reachable demo_gem demo_net s \<and> ni_emac n = nic_drv s \<and> nic_arrived s = [replicate 60 9] \<and>
    prvEMACHandlerRound demo_ie 0 0 (\<lambda>_. 1) 0 0 0 n = Some (0, n') \<and>
    nic_reachable demo_gem demo_net t \<and> ni_emac n' = nic_drv t \<and> nic_taken t = [replicate 60 9]"
proof -
  obtain s0 where s0: "nic_reachable demo_gem demo_net s0" "nic_arrived s0 = [replicate 60 9]" using demo_traffic by blast
  define s where "s = s0\<lparr>nic_drv := (nic_drv s0)\<lparr>isr_events := 1\<rparr>\<rparr>"
  have s: "nic_reachable demo_gem demo_net s" "nic_arrived s = [replicate 60 9]" "isr_events (nic_drv s) = 1"
    using nic_reachable.step[OF s0(1) nic_step.events] s0(2) by (simp_all add: s_def)
  define n where "n = (netif_boot phy0)\<lparr>ni_emac := nic_drv s\<rparr>"
  have "gem_ok (ie_gem demo_ie)" "env_ok (ie_net demo_ie)" "nic_reachable (ie_gem demo_ie) (ie_net demo_ie) s" "ni_emac n = nic_drv s"
    "isr_events (ni_emac n) AND EMAC_IF_ERR_EVENT = 0" "0 AND EMAC_IF_ERR_EVENT = 0"
    using demo_net_ok s(1,3) by (simp_all add: demo_ie_def n_def EMAC_IF_ERR_EVENT_def)
  from handler_serves_events[OF this, of 0 0 "\<lambda>_. 1" 0 0]
  obtain n' t where "prvEMACHandlerRound demo_ie 0 0 (\<lambda>_. 1) 0 0 0 n = Some (0, n')" "ni_emac n' = nic_drv t"
    "nic_reachable demo_gem demo_net t" "isr_events (ni_emac n) AND EMAC_IF_RX_EVENT \<noteq> 0 \<longrightarrow> nic_taken t = nic_arrived s"
    by (auto simp: demo_ie_def)
  moreover have "isr_events (ni_emac n) AND EMAC_IF_RX_EVENT \<noteq> 0" using s(3) by (simp add: n_def EMAC_IF_RX_EVENT_def)
  ultimately show ?thesis using s n_def by (intro exI[of _ s] exI[of _ n] exI[of _ n'] exI[of _ t]) simp
qed

end
