(* ===== verification/Tcp_Stream.thy ===== *)
theory Tcp_Stream
  imports Prelude
begin

section \<open>Stream buffers of the TCP stack\<close>

text \<open>
  \<^verbatim>\<open>FreeRTOS_Stream_Buffer.c\<close> of the TCP stack: a circular buffer of bytes in which a socket keeps what was received and
  not yet read, and what was given to send and not yet acknowledged. Four positions move through it: bytes are read at
  \<open>uxTail\<close> and added at \<open>uxHead\<close>; \<open>uxMid\<close> separates the bytes already sent from those to send, \<open>uxFront\<close> marks how far
  bytes that came out of order were written ahead of the head. Positions and counts are \<open>size_t\<close>, 32 bits, and
  wrap. \<open>None\<close> as a result: a copy outside the array of the buffer or outside the data of the caller. A null data
  pointer is the argument \<open>None\<close>.
\<close>

subsection \<open>The code\<close>

record StreamBuffer_t =
  uxTail :: u32
  uxMid :: u32
  uxHead :: u32
  uxFront :: u32
  uxLENGTH :: u32
  ucArray :: "u8 list"

definition uxStreamBufferSpace :: "StreamBuffer_t \<Rightarrow> u32 \<Rightarrow> u32 \<Rightarrow> u32" where
  "uxStreamBufferSpace b uxLower uxUpper =
     (let uxLength = uxLENGTH b; uxCount = uxLength + uxUpper - uxLower - 1
      in if uxLength \<le> uxCount then uxCount - uxLength else uxCount)"

definition uxStreamBufferDistance :: "StreamBuffer_t \<Rightarrow> u32 \<Rightarrow> u32 \<Rightarrow> u32" where
  "uxStreamBufferDistance b uxLower uxUpper =
     (let uxLength = uxLENGTH b; uxCount = uxLength + uxUpper - uxLower
      in if uxLength \<le> uxCount then uxCount - uxLength else uxCount)"

definition uxStreamBufferGetSpace :: "StreamBuffer_t \<Rightarrow> u32" where
  "uxStreamBufferGetSpace b = uxStreamBufferSpace b (uxHead b) (uxTail b)"

definition uxStreamBufferFrontSpace :: "StreamBuffer_t \<Rightarrow> u32" where
  "uxStreamBufferFrontSpace b = uxStreamBufferSpace b (uxFront b) (uxTail b)"

definition uxStreamBufferGetSize :: "StreamBuffer_t \<Rightarrow> u32" where
  "uxStreamBufferGetSize b = uxStreamBufferDistance b (uxTail b) (uxHead b)"

definition uxStreamBufferMidSpace :: "StreamBuffer_t \<Rightarrow> u32" where
  "uxStreamBufferMidSpace b = uxStreamBufferDistance b (uxMid b) (uxHead b)"

definition vStreamBufferClear :: "StreamBuffer_t \<Rightarrow> StreamBuffer_t" where
  "vStreamBufferClear b = b\<lparr>uxHead := 0, uxTail := 0, uxFront := 0, uxMid := 0\<rparr>"

text \<open>Taking a position that has left the array back into it.\<close>

definition wrap_index :: "StreamBuffer_t \<Rightarrow> u32 \<Rightarrow> u32" where
  "wrap_index b i = (if uxLENGTH b \<le> i then i - uxLENGTH b else i)"

definition vStreamBufferMoveMid :: "u32 \<Rightarrow> StreamBuffer_t \<Rightarrow> StreamBuffer_t" where
  "vStreamBufferMoveMid uxCount b =
     (let uxSize = uxStreamBufferMidSpace b; uxMoveCount = (if uxSize < uxCount then uxSize else uxCount)
      in b\<lparr>uxMid := wrap_index b (uxMid b + uxMoveCount)\<rparr>)"

definition xStreamBufferLessThenEqual :: "StreamBuffer_t \<Rightarrow> u32 \<Rightarrow> u32 \<Rightarrow> bool" where
  "xStreamBufferLessThenEqual b uxLeft uxRight \<longleftrightarrow> uxLeft - uxTail b \<le> uxRight - uxTail b"

text \<open>The first component is the position of the data in the array.\<close>

definition uxStreamBufferGetPtr :: "StreamBuffer_t \<Rightarrow> u32 \<times> u32" where
  "uxStreamBufferGetPtr b = (uxTail b, min (uxStreamBufferGetSize b) (uxLENGTH b - uxTail b))"

text \<open>Copies in two pieces, the second at the start of the array.\<close>

definition ring_put :: "StreamBuffer_t \<Rightarrow> u32 \<Rightarrow> u8 list \<Rightarrow> u32 \<Rightarrow> u8 list option" where
  "ring_put b start data uxCount =
     (let uxFirst = min (uxLENGTH b - start) uxCount; n = unat uxCount; f = unat uxFirst
      in if n \<le> length data \<and> unat start + f \<le> length (ucArray b) \<and> n - f \<le> length (ucArray b)
         then let a1 = memcpy_at (unat start) (take f data) (ucArray b)
              in Some (if uxFirst < uxCount then memcpy_at 0 (take (n - f) (drop f data)) a1 else a1)
         else None)"

definition ring_get :: "StreamBuffer_t \<Rightarrow> u32 \<Rightarrow> u32 \<Rightarrow> u8 list option" where
  "ring_get b start uxCount =
     (let uxFirst = min (uxLENGTH b - start) uxCount; n = unat uxCount; f = unat uxFirst
      in if unat start + f \<le> length (ucArray b) \<and> n - f \<le> length (ucArray b)
         then Some (take f (drop (unat start) (ucArray b)) @ (if uxFirst < uxCount then take (n - f) (ucArray b) else []))
         else None)"

text \<open>\<open>minus_or_zero\<close>: what is left of a count behind an offset.\<close>

definition minus_or_zero :: "u32 \<Rightarrow> u32 \<Rightarrow> u32" where
  "minus_or_zero x uxOffset = (if uxOffset < x then x - uxOffset else 0)"

definition uxStreamBufferAdd :: "u32 \<Rightarrow> u8 list option \<Rightarrow> u32 \<Rightarrow> StreamBuffer_t \<Rightarrow> (u32 \<times> StreamBuffer_t) option" where
  "uxStreamBufferAdd uxOffset pucData uxByteCount b =
     (let uxSpace = minus_or_zero (uxStreamBufferGetSpace b) uxOffset; uxCount = min uxSpace uxByteCount
      in if uxCount = 0 then Some (uxCount, b)
         else
           let uxNextHead = (if uxOffset \<noteq> 0 then wrap_index b (uxHead b + uxOffset) else uxHead b)
           in case (case pucData of None \<Rightarrow> Some (ucArray b) | Some data \<Rightarrow> ring_put b uxNextHead data uxCount) of
                None \<Rightarrow> None
              | Some arr \<Rightarrow>
                  let b1 = b\<lparr>ucArray := arr\<rparr>;
                      (uxNextHead, b2) =
                        (if uxOffset = 0
                         then let h = wrap_index b (uxNextHead + uxCount) in (h, b1\<lparr>uxHead := h\<rparr>)
                         else (uxNextHead, b1))
                  in Some (uxCount, if xStreamBufferLessThenEqual b2 (uxFront b2) uxNextHead
                                    then b2\<lparr>uxFront := uxNextHead\<rparr> else b2))"

text \<open>\<open>wanted\<close> says whether the caller gave a buffer for the data.\<close>

definition uxStreamBufferGet :: "u32 \<Rightarrow> bool \<Rightarrow> u32 \<Rightarrow> bool \<Rightarrow> StreamBuffer_t \<Rightarrow> (u32 \<times> u8 list \<times> StreamBuffer_t) option" where
  "uxStreamBufferGet uxOffset wanted uxMaxCount xPeek b =
     (let uxSize = minus_or_zero (uxStreamBufferGetSize b) uxOffset; uxCount = min uxSize uxMaxCount
      in if uxCount = 0 then Some (uxCount, [], b)
         else
           let uxNextTail = (if uxOffset \<noteq> 0 then wrap_index b (uxTail b + uxOffset) else uxTail b)
           in case (if wanted then ring_get b uxNextTail uxCount else Some []) of
                None \<Rightarrow> None
              | Some data \<Rightarrow>
                  Some (uxCount, data,
                    if \<not> xPeek \<and> uxOffset = 0 then b\<lparr>uxTail := wrap_index b (uxNextTail + uxCount)\<rparr> else b))"


subsection \<open>What the buffer holds\<close>

abbreviation ring_len :: "StreamBuffer_t \<Rightarrow> nat" where "ring_len b \<equiv> unat (uxLENGTH b)"

text \<open>The distance from one position forward to another, and the byte at a distance from the tail.\<close>

definition fwd :: "StreamBuffer_t \<Rightarrow> u32 \<Rightarrow> u32 \<Rightarrow> nat" where
  "fwd b i j = (unat j + ring_len b - unat i) mod ring_len b"

definition stream_size :: "StreamBuffer_t \<Rightarrow> nat" where "stream_size b = fwd b (uxTail b) (uxHead b)"

definition stream_cell :: "StreamBuffer_t \<Rightarrow> nat \<Rightarrow> u8" where
  "stream_cell b i = ucArray b ! ((unat (uxTail b) + i) mod ring_len b)"

definition stream_bytes :: "StreamBuffer_t \<Rightarrow> u8 list" where
  "stream_bytes b = map (stream_cell b) [0..<stream_size b]"

definition stream_room :: "StreamBuffer_t \<Rightarrow> nat" where "stream_room b = ring_len b - 1 - stream_size b"

definition stream_ok :: "StreamBuffer_t \<Rightarrow> bool" where
  "stream_ok b \<longleftrightarrow> 0 < ring_len b \<and> ring_len b \<le> 2 ^ 31 \<and> length (ucArray b) = ring_len b \<and>
     uxTail b < uxLENGTH b \<and> uxHead b < uxLENGTH b \<and> uxFront b < uxLENGTH b \<and>
     fwd b (uxTail b) (uxHead b) \<le> fwd b (uxTail b) (uxFront b)"


subsection \<open>Arithmetic of positions\<close>

lemma wrap_index_unat:
  assumes "i < uxLENGTH b" "unat n \<le> ring_len b" "ring_len b \<le> 2 ^ 31"
  shows "unat (wrap_index b (i + n)) = (unat i + unat n) mod ring_len b"
proof -
  have i: "unat i < ring_len b" using assms(1) by (simp add: word_less_nat_alt)
  then have s: "unat (i + n) = unat i + unat n" using assms(2,3) by (intro unat_add_lem[THEN iffD1]) simp
  show ?thesis
  proof (cases "uxLENGTH b \<le> i + n")
    case True
    then have "ring_len b \<le> unat i + unat n" using s by (simp add: word_le_nat_alt)
    moreover have "unat (i + n - uxLENGTH b) = unat i + unat n - ring_len b" using True s by (simp add: unat_sub)
    ultimately show ?thesis using True i assms(2) by (simp add: wrap_index_def mod_if)
  next
    case False
    then show ?thesis using s by (simp add: wrap_index_def word_le_nat_alt)
  qed
qed

lemma wrap_index_less:
  assumes "i < uxLENGTH b" "unat n \<le> ring_len b" "ring_len b \<le> 2 ^ 31"
  shows "wrap_index b (i + n) < uxLENGTH b"
proof -
  have "0 < ring_len b" using assms(1) by (metis unat_gt_0 word_not_simps(1))
  then show ?thesis using wrap_index_unat[OF assms] by (simp add: word_less_nat_alt)
qed

lemma distance_unat:
  assumes "i < uxLENGTH b" "j < uxLENGTH b" "ring_len b \<le> 2 ^ 31"
  shows "unat (uxStreamBufferDistance b i j) = fwd b i j"
proof -
  have ij: "unat i < ring_len b" "unat j < ring_len b" using assms(1,2) by (simp_all add: word_less_nat_alt)
  have s: "unat (uxLENGTH b + j) = ring_len b + unat j" using ij assms(3) by (intro unat_add_lem[THEN iffD1]) simp
  then have "i \<le> uxLENGTH b + j" using ij by (simp add: word_le_nat_alt)
  then have d: "unat (uxLENGTH b + j - i) = ring_len b + unat j - unat i" using s by (simp add: unat_sub)
  show ?thesis
  proof (cases "uxLENGTH b \<le> uxLENGTH b + j - i")
    case True
    then have "unat (uxLENGTH b + j - i - uxLENGTH b) = ring_len b + unat j - unat i - ring_len b"
      by (simp only: unat_sub[OF True] d)
    moreover have "unat i \<le> unat j" using True d ij by (simp add: word_le_nat_alt)
    ultimately show ?thesis using True ij by (simp add: uxStreamBufferDistance_def Let_def fwd_def mod_if)
  next
    case False
    then have "ring_len b + unat j - unat i < ring_len b" using d by (simp add: word_le_nat_alt)
    then show ?thesis using False d by (simp add: uxStreamBufferDistance_def Let_def fwd_def add.commute)
  qed
qed

lemma space_unat:
  assumes "i < uxLENGTH b" "j < uxLENGTH b" "ring_len b \<le> 2 ^ 31"
  shows "unat (uxStreamBufferSpace b i j) = (unat j + ring_len b - unat i - 1) mod ring_len b"
proof -
  have ij: "unat i < ring_len b" "unat j < ring_len b" using assms(1,2) by (simp_all add: word_less_nat_alt)
  have s: "unat (uxLENGTH b + j) = ring_len b + unat j" using ij assms(3) by (intro unat_add_lem[THEN iffD1]) simp
  then have "i \<le> uxLENGTH b + j" using ij by (simp add: word_le_nat_alt)
  then have d: "unat (uxLENGTH b + j - i) = ring_len b + unat j - unat i" using s by (simp add: unat_sub)
  then have "1 \<le> uxLENGTH b + j - i" using ij by (simp add: word_le_nat_alt)
  then have e: "unat (uxLENGTH b + j - i - 1) = ring_len b + unat j - unat i - 1" using d by (simp add: unat_sub)
  show ?thesis
  proof (cases "uxLENGTH b \<le> uxLENGTH b + j - i - 1")
    case True
    then have "unat (uxLENGTH b + j - i - 1 - uxLENGTH b) = ring_len b + unat j - unat i - 1 - ring_len b"
      by (simp only: unat_sub[OF True] e)
    moreover have "unat i < unat j" using True e ij by (simp add: word_le_nat_alt)
    ultimately show ?thesis using True ij by (simp add: uxStreamBufferSpace_def Let_def mod_if)
  next
    case False
    then have "ring_len b + unat j - unat i - 1 < ring_len b" using e by (simp add: word_le_nat_alt)
    then show ?thesis using False e by (simp add: uxStreamBufferSpace_def Let_def add.commute)
  qed
qed

lemma ring_dist:
  assumes "t < (l::nat)" "k < l"
  shows "(k + l - t) mod l = (if t \<le> k then k - t else k + l - t)"
proof (cases "t \<le> k")
  case True
  then have "(k + l - t) mod l = (k - t + l) mod l" by simp
  also have "\<dots> = k - t" using assms(2) by (simp only: mod_add_self2) (simp add: less_imp_diff_less)
  finally show ?thesis using True by simp
qed (use assms in simp)

lemma wrap_order:
  assumes "x < l" "y < l" "t < l" "l \<le> (m::nat)"
  shows "(if t \<le> x then x - t else x + m - t) \<le> (if t \<le> y then y - t else y + m - t) \<longleftrightarrow>
    (if t \<le> x then x - t else x + l - t) \<le> (if t \<le> y then y - t else y + l - t)"
  using assms by (cases "t \<le> x"; cases "t \<le> y") (simp_all, linarith+)

lemma less_equal_fwd:
  assumes "i < uxLENGTH b" "j < uxLENGTH b" "uxTail b < uxLENGTH b" "ring_len b \<le> 2 ^ 31"
  shows "xStreamBufferLessThenEqual b i j \<longleftrightarrow> fwd b (uxTail b) i \<le> fwd b (uxTail b) j"
proof -
  have lt: "unat i < ring_len b" "unat j < ring_len b" "unat (uxTail b) < ring_len b" using assms(1-3) by (simp_all add: word_less_nat_alt)
  have w: "unat (k - uxTail b) = (if unat (uxTail b) \<le> unat k then unat k - unat (uxTail b) else unat k + 2 ^ 32 - unat (uxTail b))" for k
    by (simp add: unat_sub_if_size word_size)
  have f: "fwd b (uxTail b) k = (if unat (uxTail b) \<le> unat k then unat k - unat (uxTail b) else unat k + ring_len b - unat (uxTail b))"
    if "unat k < ring_len b" for k using ring_dist[OF lt(3) that] by (simp add: fwd_def)
  have L: "ring_len b \<le> 2 ^ 32" using assms(4) by simp
  show ?thesis unfolding xStreamBufferLessThenEqual_def word_le_nat_alt w f[OF lt(1)] f[OF lt(2)]
    by (rule wrap_order[OF lt L])
qed


subsection \<open>Copies around the end of the array\<close>

lemma nth_memcpy_at:
  assumes "off + length src \<le> length buf" "j < length buf"
  shows "memcpy_at off src buf ! j = (if off \<le> j \<and> j < off + length src then src ! (j - off) else buf ! j)"
  using assms by (auto simp: memcpy_at_def nth_append)

text \<open>The byte at index \<open>j\<close> after a copy of \<open>n\<close> bytes to index \<open>s\<close>.\<close>

lemma ring_put_nth:
  assumes "ring_put b s data c = Some arr" "s < uxLENGTH b" "unat c < ring_len b" "length (ucArray b) = ring_len b" "unat c \<le> length data"
  shows "length arr = ring_len b"
    "\<And>j. j < ring_len b \<Longrightarrow> arr ! j =
      (let d = (j + ring_len b - unat s) mod ring_len b in if d < unat c then data ! d else ucArray b ! j)"
proof -
  define L where "L = ring_len b"
  define f where "f = unat (min (uxLENGTH b - s) c)"
  have s: "unat s < L" using assms(2) by (simp add: word_less_nat_alt L_def)
  have sub: "unat (uxLENGTH b - s) = L - unat s" using s by (simp add: unat_sub word_le_nat_alt L_def)
  have f: "f = min (L - unat s) (unat c)" by (simp add: f_def min_def word_le_nat_alt sub)
  have lt: "min (uxLENGTH b - s) c < c \<longleftrightarrow> f < unat c" by (simp add: word_less_nat_alt f_def)
  define a1 where "a1 = memcpy_at (unat s) (take f data) (ucArray b)"
  have arr: "arr = (if f < unat c then memcpy_at 0 (take (unat c - f) (drop f data)) a1 else a1)"
    using assms(1) lt by (auto simp: ring_put_def Let_def a1_def simp flip: f_def split: if_splits)
  have lt1: "length (take f data) = f" using f assms(5) by simp
  have fit: "unat s + f \<le> L" using f s by linarith
  have len1: "length a1 = L" using fit lt1 assms(4) by (simp add: a1_def length_memcpy_at L_def)
  have n1: "a1 ! j = (if unat s \<le> j \<and> j < unat s + f then data ! (j - unat s) else ucArray b ! j)" if "j < L" for j
    using that fit lt1 assms(4) by (auto simp: a1_def nth_memcpy_at L_def)
  have len2: "length (take (unat c - f) (drop f data)) = unat c - f" using assms(5) by simp
  show "length arr = ring_len b" using arr len1 len2 assms(3) by (simp add: length_memcpy_at L_def)
  fix j assume "j < ring_len b"
  then have j: "j < L" by (simp add: L_def)
  define d where "d = (j + L - unat s) mod L"
  have d: "d = (if unat s \<le> j then j - unat s else j + L - unat s)" using ring_dist[OF s j] by (simp add: d_def)
  have c: "unat c < L" using assms(3) by (simp add: L_def)
  have "arr ! j = (if d < unat c then data ! d else ucArray b ! j)"
  proof (cases "f < unat c")
    case True
    then have f': "f = L - unat s" using f by linarith
    have "arr ! j = (if j < unat c - f then data ! (f + j) else a1 ! j)"
      using True arr len1 len2 j c assms(5) by (auto simp: nth_memcpy_at)
    then show ?thesis using True n1[OF j] d f' s j c by (auto simp: add.commute)
  next
    case False
    then have "f = unat c" "unat s + unat c \<le> L" using f fit by linarith+
    then show ?thesis using False arr n1[OF j] d s j by auto
  qed
  then show "arr ! j = (let d = (j + ring_len b - unat s) mod ring_len b in if d < unat c then data ! d else ucArray b ! j)"
    by (simp add: d_def L_def Let_def)
qed

lemma ring_put_total:
  assumes "s < uxLENGTH b" "unat c < ring_len b" "length (ucArray b) = ring_len b" "unat c \<le> length data"
  shows "\<exists>arr. ring_put b s data c = Some arr"
proof -
  have s: "unat s < ring_len b" using assms(1) by (simp add: word_less_nat_alt)
  have sub: "unat (uxLENGTH b - s) = ring_len b - unat s" using s by (simp add: unat_sub word_le_nat_alt)
  have "unat (min (uxLENGTH b - s) c) \<le> ring_len b - unat s" by (simp add: min_def word_le_nat_alt sub)
  then have "unat s + unat (min (uxLENGTH b - s) c) \<le> ring_len b" "unat c - unat (min (uxLENGTH b - s) c) \<le> ring_len b"
    using s assms(2) by linarith+
  then show ?thesis using assms by (simp add: ring_put_def Let_def)
qed

lemma ring_get_bytes:
  assumes "s < uxLENGTH b" "unat c < ring_len b" "length (ucArray b) = ring_len b"
  shows "ring_get b s c = Some (map (\<lambda>i. ucArray b ! ((unat s + i) mod ring_len b)) [0..<unat c])"
proof -
  define L where "L = ring_len b"
  define f where "f = unat (min (uxLENGTH b - s) c)"
  have s: "unat s < L" using assms(1) by (simp add: word_less_nat_alt L_def)
  have c: "unat c < L" using assms(2) by (simp add: L_def)
  have sub: "unat (uxLENGTH b - s) = L - unat s" using s by (simp add: unat_sub word_le_nat_alt L_def)
  have f: "f = min (L - unat s) (unat c)" by (simp add: f_def min_def word_le_nat_alt sub)
  have lt: "min (uxLENGTH b - s) c < c \<longleftrightarrow> f < unat c" by (simp add: word_less_nat_alt f_def)
  have fit: "unat s + f \<le> L" using f s by linarith
  define r where "r = take f (drop (unat s) (ucArray b)) @ (if f < unat c then take (unat c - f) (ucArray b) else [])"
  have "r = map (\<lambda>i. ucArray b ! ((unat s + i) mod L)) [0..<unat c]"
  proof (rule nth_equalityI)
    show "length r = length (map (\<lambda>i. ucArray b ! ((unat s + i) mod L)) [0..<unat c])"
      using fit f c assms(3) by (auto simp: r_def L_def)
    fix i assume "i < length r"
    then have i: "i < unat c" using fit f c assms(3) by (auto simp: r_def L_def split: if_splits)
    show "r ! i = map (\<lambda>i. ucArray b ! ((unat s + i) mod L)) [0..<unat c] ! i"
    proof (cases "i < f")
      case True
      then show ?thesis using i fit assms(3) by (simp add: r_def nth_append L_def)
    next
      case False
      then have "f = L - unat s" "f < unat c" using f i by linarith+
      moreover have "(unat s + i) mod L = i - f" using False s c i calculation by (simp add: mod_if) linarith
      ultimately show ?thesis using False i c fit assms(3) by (simp add: r_def nth_append L_def)
    qed
  qed
  moreover have "ring_get b s c = Some r"
    using fit less_imp_le[OF c] lt assms(3) by (simp add: ring_get_def Let_def r_def L_def flip: f_def) linarith
  ultimately show ?thesis by (simp add: L_def)
qed


subsection \<open>Counts\<close>

lemma stream_okD:
  assumes "stream_ok b"
  shows "unat (uxTail b) < ring_len b" "unat (uxHead b) < ring_len b" "unat (uxFront b) < ring_len b" "ring_len b \<le> 2 ^ 31"
    "length (ucArray b) = ring_len b" "uxTail b < uxLENGTH b" "uxHead b < uxLENGTH b" "uxFront b < uxLENGTH b"
    "stream_size b < ring_len b" "stream_size b \<le> fwd b (uxTail b) (uxFront b)" "0 < ring_len b"
  using assms by (simp_all add: stream_ok_def word_less_nat_alt stream_size_def fwd_def)

lemma fwd_position:
  assumes "t < (l::nat)" "d < l"
  shows "((t + d) mod l + l - t) mod l = d"
proof (cases "t + d < l")
  case True
  then show ?thesis using assms ring_dist[of t l "t + d"] by simp
next
  case False
  then have "(t + d) mod l = t + d - l" using assms by (simp add: le_mod_geq)
  then show ?thesis using assms False ring_dist[of t l "t + d - l"] by (simp split: if_splits)
qed

lemma position_fwd:
  assumes "t < (l::nat)" "p < l"
  shows "(t + (p + l - t) mod l) mod l = p"
  using assms by (simp add: mod_add_right_eq)

lemma head_position: "stream_ok b \<Longrightarrow> unat (uxHead b) = (unat (uxTail b) + stream_size b) mod ring_len b"
  using stream_okD(1,2)[of b] position_fwd by (simp add: stream_size_def fwd_def)

lemma size_unat: "stream_ok b \<Longrightarrow> unat (uxStreamBufferGetSize b) = stream_size b"
  using stream_okD(4,6,7)[of b] by (simp add: uxStreamBufferGetSize_def distance_unat stream_size_def)

lemma ring_rest:
  assumes "t < (l::nat)" "p < l"
  shows "(t + l - p - 1) mod l = l - 1 - (p + l - t) mod l"
proof (cases "t \<le> p")
  case True
  then have "t + l - p - 1 < l" using assms by linarith
  then show ?thesis using True assms unfolding ring_dist[OF assms] by simp
next
  case False
  then have "(t + l - p - 1) mod l = (t - p - 1 + l) mod l" by simp
  also have "\<dots> = t - p - 1" using assms(1) by (simp only: mod_add_self2) simp
  finally show ?thesis using False assms unfolding ring_dist[OF assms] by simp
qed

lemma space_is_rest:
  assumes "stream_ok b" "p < uxLENGTH b"
  shows "unat (uxStreamBufferSpace b p (uxTail b)) = ring_len b - 1 - fwd b (uxTail b) p"
proof -
  have lt: "unat p < ring_len b" using assms(2) by (simp add: word_less_nat_alt)
  show ?thesis
    unfolding space_unat[OF assms(2) stream_okD(6,4)[OF assms(1)]] ring_rest[OF stream_okD(1)[OF assms(1)] lt] fwd_def ..
qed

lemma room_unat: "stream_ok b \<Longrightarrow> unat (uxStreamBufferGetSpace b) = stream_room b"
  using space_is_rest[of b "uxHead b"] stream_okD(7)[of b] by (simp add: uxStreamBufferGetSpace_def stream_room_def stream_size_def)

lemma front_space_unat: "stream_ok b \<Longrightarrow> unat (uxStreamBufferFrontSpace b) = ring_len b - 1 - fwd b (uxTail b) (uxFront b)"
  using space_is_rest[of b "uxFront b"] stream_okD(8)[of b] by (simp add: uxStreamBufferFrontSpace_def)

lemma unat_minus_or_zero: "unat (minus_or_zero x y) = unat x - unat y"
  by (auto simp: minus_or_zero_def word_less_nat_alt unat_sub word_le_nat_alt)

lemma unat_min: "unat (min x y) = min (unat x) (unat y)"
  by (simp add: min_def word_le_nat_alt)


subsection \<open>Adding\<close>

definition added :: "u32 \<Rightarrow> u32 \<Rightarrow> StreamBuffer_t \<Rightarrow> nat" where
  "added uxOffset uxByteCount b = min (stream_room b - unat uxOffset) (unat uxByteCount)"

text \<open>The bytes counted from the tail after \<open>n\<close> bytes were written at distance \<open>at\<close>.\<close>

definition overwrite :: "(nat \<Rightarrow> u8) \<Rightarrow> nat \<Rightarrow> u8 list option \<Rightarrow> nat \<Rightarrow> nat \<Rightarrow> u8" where
  "overwrite cells p pucData n i = (case pucData of
     Some data \<Rightarrow> if p \<le> i \<and> i < p + n then data ! (i - p) else cells i | None \<Rightarrow> cells i)"

lemma fwd_cong: "uxLENGTH b' = uxLENGTH b \<Longrightarrow> fwd b' = fwd b"
  by (simp add: fwd_def fun_eq_iff)

text \<open>Writing at distance \<open>d\<close> from the tail, seen from the tail.\<close>

lemma put_cells:
  assumes "stream_ok b" "unat p = (unat (uxTail b) + d) mod ring_len b" "p < uxLENGTH b" "d + unat c < ring_len b" "unat c \<le> length data"
  obtains arr where "ring_put b p data c = Some arr" "length arr = ring_len b"
    "\<And>i. i < ring_len b \<Longrightarrow> arr ! ((unat (uxTail b) + i) mod ring_len b) = overwrite (stream_cell b) d (Some data) (unat c) i"
proof -
  define L where "L = ring_len b"
  define t where "t = unat (uxTail b)"
  have tL: "t < L" "d < L" using stream_okD(1)[OF assms(1)] assms(4) by (simp_all add: t_def L_def)
  have c: "unat c < ring_len b" using assms(4) by linarith
  obtain arr where arr: "ring_put b p data c = Some arr"
    using ring_put_total[OF assms(3) c stream_okD(5)[OF assms(1)] assms(5)] by blast
  note put = ring_put_nth[OF arr assms(3) c stream_okD(5)[OF assms(1)] assms(5)]
  have "arr ! ((t + i) mod L) = overwrite (stream_cell b) d (Some data) (unat c) i" if i: "i < L" for i
  proof -
    have j: "(t + i) mod L < ring_len b" using tL by (simp add: L_def)
    have "((t + i) mod L + L - (t + d) mod L) mod L = (if d \<le> i then i - d else i + L - d)"
    proof (cases "d \<le> i")
      case True
      have "((t + d) mod L + (i - d)) mod L = (t + d + (i - d)) mod L" by (rule mod_add_left_eq)
      also have "\<dots> = (t + i) mod L" using True by simp
      finally show ?thesis using True fwd_position[of "(t + d) mod L" L "i - d"] tL i by simp
    next
      case False
      have "((t + d) mod L + (i + L - d)) mod L = (t + d + (i + L - d)) mod L" by (simp add: mod_add_left_eq)
      also have "\<dots> = (t + i + L) mod L" using tL(2) False by (simp add: add.assoc)
      also have "\<dots> = (t + i) mod L" by (rule mod_add_self2)
      finally show ?thesis using False fwd_position[of "(t + d) mod L" L "i + L - d"] tL by simp
    qed
    then have dist: "((t + i) mod L + ring_len b - unat p) mod ring_len b = (if d \<le> i then i - d else i + L - d)"
      using assms(2) by (simp add: t_def L_def)
    then show ?thesis using put(2)[OF j] i tL assms(4)
      by (auto simp: overwrite_def stream_cell_def Let_def t_def L_def)
  qed
  then show thesis using that arr put(1) by (simp add: t_def L_def)
qed

lemma add_effect:
  assumes ok: "stream_ok b" and data: "\<And>data. pucData = Some data \<Longrightarrow> added uxOffset uxByteCount b \<le> length data"
  defines "n \<equiv> added uxOffset uxByteCount b"
  obtains c b' where "uxStreamBufferAdd uxOffset pucData uxByteCount b = Some (c, b')" "unat c = n" "stream_ok b'"
    "uxLENGTH b' = uxLENGTH b" "uxTail b' = uxTail b" "uxMid b' = uxMid b"
    "stream_size b' = (if uxOffset = 0 then stream_size b + n else stream_size b)"
    "\<And>i. i < ring_len b \<Longrightarrow> stream_cell b' i = overwrite (stream_cell b) (stream_size b + unat uxOffset) pucData n i"
    "fwd b' (uxTail b') (uxFront b') = (if n = 0 then fwd b (uxTail b) (uxFront b)
       else max (fwd b (uxTail b) (uxFront b)) (stream_size b + (if uxOffset = 0 then n else unat uxOffset)))"
proof -
  define L where "L = ring_len b"
  define t where "t = unat (uxTail b)"
  define sz where "sz = stream_size b"
  define c where "c = min (minus_or_zero (uxStreamBufferGetSpace b) uxOffset) uxByteCount"
  have c: "unat c = n" using room_unat[OF ok] by (simp add: c_def unat_min unat_minus_or_zero n_def added_def)
  note okD = stream_okD[OF ok]
  show thesis
  proof (cases "n = 0")
    case True
    then have "c = 0" using c by (simp add: unat_eq_0)
    then have "uxStreamBufferAdd uxOffset pucData uxByteCount b = Some (c, b)"
      by (simp add: uxStreamBufferAdd_def Let_def c_def)
    then show thesis by (rule that[of c b]) (use c ok True in \<open>auto simp: overwrite_def split: option.split\<close>)
  next
    case False
    then have "0 < stream_room b - unat uxOffset" by (auto simp: n_def added_def)
    then have fit: "sz + unat uxOffset + n < L"
      by (auto simp: n_def added_def stream_room_def sz_def L_def)
    define h where "h = (if uxOffset \<noteq> 0 then wrap_index b (uxHead b + uxOffset) else uxHead b)"
    have oL: "unat uxOffset \<le> ring_len b" using fit by (simp add: L_def)
    have hl: "h < uxLENGTH b" using wrap_index_less[OF okD(7) oL okD(4)] okD(7) by (simp add: h_def)
    have h: "unat h = (t + (sz + unat uxOffset)) mod L"
      using wrap_index_unat[OF okD(7) oL okD(4)] head_position[OF ok]
      by (simp add: h_def t_def sz_def L_def mod_add_left_eq add.assoc)
    obtain arr where arr: "(case pucData of None \<Rightarrow> Some (ucArray b) | Some data \<Rightarrow> ring_put b h data c) = Some arr" "length arr = L"
      "\<And>i. i < L \<Longrightarrow> arr ! ((t + i) mod L) = overwrite (stream_cell b) (sz + unat uxOffset) pucData n i"
    proof (cases pucData)
      case None
      then show ?thesis using that okD(5) by (simp add: overwrite_def stream_cell_def t_def L_def)
    next
      case (Some d)
      then have "unat c \<le> length d" using data c by (simp add: n_def)
      then show ?thesis using put_cells[OF ok h[unfolded t_def L_def] hl _, of c d] fit Some that c by (auto simp: t_def L_def)
    qed
    define h' where "h' = (if uxOffset = 0 then wrap_index b (h + c) else h)"
    define d' where "d' = sz + (if uxOffset = 0 then n else unat uxOffset)"
    have cL: "unat c \<le> ring_len b" using fit c by (simp add: L_def)
    have d': "d' < L" using fit by (simp add: d'_def split: if_splits)
    have h'l: "h' < uxLENGTH b" using wrap_index_less[OF hl cL okD(4)] hl by (simp add: h'_def)
    have "unat h' = (t + d') mod L"
      using wrap_index_unat[OF hl cL okD(4)] h c by (simp add: h'_def d'_def L_def mod_add_left_eq add.assoc)
    then have f': "fwd b (uxTail b) h' = d'"
      using fwd_position[of t L d'] okD(1) d' by (simp add: fwd_def t_def L_def)
    define b2 where "b2 = b\<lparr>ucArray := arr, uxHead := (if uxOffset = 0 then h' else uxHead b)\<rparr>"
    define b' where "b' = (if xStreamBufferLessThenEqual b2 (uxFront b2) h' then b2\<lparr>uxFront := h'\<rparr> else b2)"
    have le: "xStreamBufferLessThenEqual b2 (uxFront b2) h' \<longleftrightarrow> fwd b (uxTail b) (uxFront b) \<le> d'"
      using less_equal_fwd[OF okD(8) h'l okD(6,4)] f' by (simp add: xStreamBufferLessThenEqual_def b2_def)
    have add: "uxStreamBufferAdd uxOffset pucData uxByteCount b = Some (c, b')"
    proof -
      have "c \<noteq> 0" using False c by auto
      then show ?thesis unfolding uxStreamBufferAdd_def Let_def c_def[symmetric] h_def[symmetric] arr(1)
        by (simp add: b'_def b2_def h'_def)
    qed
    have same: "uxLENGTH b' = uxLENGTH b" "uxTail b' = uxTail b" "uxMid b' = uxMid b" "ucArray b' = arr"
      by (simp_all add: b'_def b2_def)
    have fw: "fwd b' = fwd b" using same(1) by (rule fwd_cong)
    have head: "uxHead b' = (if uxOffset = 0 then h' else uxHead b)" by (simp add: b'_def b2_def)
    have size: "stream_size b' = (if uxOffset = 0 then sz + n else sz)"
      using f' by (simp add: stream_size_def fw same head d'_def) (simp add: sz_def stream_size_def)
    have front: "fwd b (uxTail b) (uxFront b') = max (fwd b (uxTail b) (uxFront b)) d'"
      using le f' by (auto simp: b'_def b2_def max_def)
    have fl: "uxFront b' < uxLENGTH b" using okD(8) h'l by (simp add: b'_def b2_def)
    have "stream_size b' \<le> fwd b' (uxTail b') (uxFront b')"
      using size front fw same(2) okD(10) by (auto simp: d'_def sz_def)
    moreover have "uxHead b' < uxLENGTH b'" using head h'l okD(7) same(1) by simp
    ultimately have "stream_ok b'"
      using okD(4,6,11) arr(2) fl same by (simp add: stream_ok_def stream_size_def L_def)
    moreover have "stream_cell b' i = overwrite (stream_cell b) (sz + unat uxOffset) pucData n i" if "i < ring_len b" for i
      using arr(3)[of i] that by (simp add: stream_cell_def same t_def L_def)
    ultimately show thesis using that[OF add c] same size front fw False by (simp add: sz_def d'_def)
  qed
qed


subsection \<open>Reading\<close>

definition taken :: "u32 \<Rightarrow> u32 \<Rightarrow> StreamBuffer_t \<Rightarrow> nat" where
  "taken uxOffset uxMaxCount b = min (stream_size b - unat uxOffset) (unat uxMaxCount)"

text \<open>A tail that moves forward by \<open>n\<close>: every distance shrinks by \<open>n\<close>.\<close>

lemma fwd_move_tail:
  assumes "t < (l::nat)" "p < l" "n \<le> (p + l - t) mod l"
  shows "(p + l - (t + n) mod l) mod l = (p + l - t) mod l - n"
proof -
  define d where "d = (p + l - t) mod l"
  have d: "d < l" using assms(1) by (simp add: d_def)
  have "((t + n) mod l + (d - n)) mod l = (t + n + (d - n)) mod l" by (rule mod_add_left_eq)
  also have "\<dots> = (t + d) mod l" using assms(3) by (simp add: d_def)
  also have "\<dots> = p" using position_fwd[OF assms(1,2)] by (simp add: d_def)
  finally have "p = ((t + n) mod l + (d - n)) mod l" ..
  moreover have "(t + n) mod l < l" "d - n < l" using d assms(1) by simp_all
  ultimately show ?thesis unfolding d_def[symmetric] using fwd_position by metis
qed

lemma get_effect:
  fixes uxOffset uxMaxCount :: u32
  assumes ok: "stream_ok b"
  defines "n \<equiv> taken uxOffset uxMaxCount b"
  obtains c b' where
    "uxStreamBufferGet uxOffset wanted uxMaxCount xPeek b =
       Some (c, if wanted then map (stream_cell b) [unat uxOffset..<unat uxOffset + n] else [], b')"
    "unat c = n" "stream_ok b'" "uxLENGTH b' = uxLENGTH b" "uxMid b' = uxMid b"
    "xPeek \<or> uxOffset \<noteq> 0 \<Longrightarrow> b' = b"
    "\<not> xPeek \<Longrightarrow> uxOffset = 0 \<Longrightarrow> stream_size b' = stream_size b - n \<and> stream_cell b' = (\<lambda>i. stream_cell b (i + n)) \<and>
       fwd b' (uxTail b') (uxFront b') = fwd b (uxTail b) (uxFront b) - n \<and> unat (uxTail b') = (unat (uxTail b) + n) mod ring_len b"
proof -
  define c where "c = min (minus_or_zero (uxStreamBufferGetSize b) uxOffset) uxMaxCount"
  have c: "unat c = n" using size_unat[OF ok] by (simp add: c_def unat_min unat_minus_or_zero n_def taken_def)
  note okD = stream_okD[OF ok]
  show thesis
  proof (cases "n = 0")
    case True
    then have "c = 0" using c by (simp add: unat_eq_0)
    then have "uxStreamBufferGet uxOffset wanted uxMaxCount xPeek b = Some (c, [], b)"
      by (simp add: uxStreamBufferGet_def Let_def c_def)
    then show thesis using that[of c b] c ok True okD(1) by simp
  next
    case False
    then have fit: "unat uxOffset + n \<le> stream_size b" by (auto simp: n_def taken_def)
    define h where "h = (if uxOffset \<noteq> 0 then wrap_index b (uxTail b + uxOffset) else uxTail b)"
    have oL: "unat uxOffset \<le> ring_len b" using fit okD(9) by linarith
    have cL: "unat c < ring_len b" using fit okD(9) c by linarith
    have hl: "h < uxLENGTH b" using wrap_index_less[OF okD(6) oL okD(4)] okD(6) by (simp add: h_def)
    have h: "unat h = (unat (uxTail b) + unat uxOffset) mod ring_len b"
      using wrap_index_unat[OF okD(6) oL okD(4)] okD(1) by (simp add: h_def)
    have "ring_get b h c = Some (map (\<lambda>i. stream_cell b (unat uxOffset + i)) [0..<n])"
      using ring_get_bytes[OF hl cL okD(5)] c h by (simp add: stream_cell_def mod_add_left_eq add.assoc)
    also have "map (\<lambda>i. stream_cell b (unat uxOffset + i)) [0..<n] = map (stream_cell b) [unat uxOffset..<unat uxOffset + n]"
      by (rule nth_equalityI) simp_all
    finally have data: "ring_get b h c = Some (map (stream_cell b) [unat uxOffset..<unat uxOffset + n])" .
    define t' where "t' = wrap_index b (h + c)"
    define b' where "b' = (if \<not> xPeek \<and> uxOffset = 0 then b\<lparr>uxTail := t'\<rparr> else b)"
    have get: "uxStreamBufferGet uxOffset wanted uxMaxCount xPeek b =
       Some (c, if wanted then map (stream_cell b) [unat uxOffset..<unat uxOffset + n] else [], b')"
    proof -
      have "c \<noteq> 0" using False c by auto
      then show ?thesis unfolding uxStreamBufferGet_def Let_def c_def[symmetric] h_def[symmetric] data
        by (simp add: b'_def t'_def)
    qed
    have moved: "stream_ok b'" "stream_size b' = stream_size b - n" "stream_cell b' = (\<lambda>i. stream_cell b (i + n))"
      "fwd b' (uxTail b') (uxFront b') = fwd b (uxTail b) (uxFront b) - n" "unat (uxTail b') = (unat (uxTail b) + n) mod ring_len b"
      if mv: "\<not> xPeek" "uxOffset = 0"
    proof -
      have b': "b' = b\<lparr>uxTail := t'\<rparr>" "h = uxTail b" using mv by (simp_all add: b'_def h_def)
      have t': "unat t' = (unat (uxTail b) + n) mod ring_len b" "t' < uxLENGTH b"
        using wrap_index_unat[OF hl less_imp_le[OF cL] okD(4)] wrap_index_less[OF hl less_imp_le[OF cL] okD(4)] c b'(2) by (simp_all add: t'_def)
      have n: "n \<le> stream_size b" using fit by simp
      have nf: "n \<le> fwd b (uxTail b) (uxFront b)" using n okD(10) by simp
      show size: "stream_size b' = stream_size b - n"
        using fwd_move_tail[OF okD(1,2)] n t'(1) b'(1) by (simp add: stream_size_def fwd_def)
      show front: "fwd b' (uxTail b') (uxFront b') = fwd b (uxTail b) (uxFront b) - n"
        using fwd_move_tail[OF okD(1,3)] nf t'(1) b'(1) by (simp add: fwd_def)
      show "stream_cell b' = (\<lambda>i. stream_cell b (i + n))"
        using t'(1) b'(1) by (simp add: stream_cell_def fun_eq_iff mod_add_left_eq add.assoc add.commute[of n])
      show "unat (uxTail b') = (unat (uxTail b) + n) mod ring_len b" using t'(1) b'(1) by simp
      have "stream_size b' \<le> fwd b' (uxTail b') (uxFront b')" using size front okD(10) by linarith
      then show "stream_ok b'" using okD(4-8,11) t'(2) b'(1) by (simp add: stream_ok_def stream_size_def)
    qed
    then have "stream_ok b'" using ok by (cases "\<not> xPeek \<and> uxOffset = 0") (auto simp: b'_def)
    moreover have "uxLENGTH b' = uxLENGTH b" "uxMid b' = uxMid b" "xPeek \<or> uxOffset \<noteq> 0 \<Longrightarrow> b' = b" by (auto simp: b'_def)
    ultimately show thesis using that[OF get c] moved by blast
  qed
qed

lemma bytes_of_cells:
  "length (stream_bytes b) = stream_size b" "i < stream_size b \<Longrightarrow> stream_bytes b ! i = stream_cell b i"
  by (simp_all add: stream_bytes_def)

lemma taken_bytes:
  assumes "n \<le> stream_size b"
  shows "map (stream_cell b) [0..<n] = take n (stream_bytes b)"
  using assms by (simp add: stream_bytes_def take_map)


subsection \<open>The stream as a queue of bytes\<close>

text \<open>The interface a socket relies on: bytes are put at one end as far as there is room and read at the other.\<close>

locale byte_stream =
  fixes inv :: "'s \<Rightarrow> bool" and content :: "'s \<Rightarrow> u8 list" and capacity :: "'s \<Rightarrow> nat"
    and put :: "u8 list \<Rightarrow> 's \<Rightarrow> (nat \<times> 's) option" and get :: "nat \<Rightarrow> 's \<Rightarrow> (u8 list \<times> 's) option"
  assumes put_law: "inv s \<Longrightarrow> length d < 2 ^ 32 \<Longrightarrow> \<exists>n s'. put d s = Some (n, s') \<and> n = min (capacity s - length (content s)) (length d) \<and>
      inv s' \<and> capacity s' = capacity s \<and> content s' = content s @ take n d"
    and get_law: "inv s \<Longrightarrow> k < 2 ^ 32 \<Longrightarrow> \<exists>s'. get k s = Some (take k (content s), s') \<and> inv s' \<and> capacity s' = capacity s \<and>
      content s' = drop k (content s)"
    and fits: "inv s \<Longrightarrow> length (content s) \<le> capacity s"

datatype stream_op = Put "u8 list" | Get nat

text \<open>The bytes accepted and the bytes read in a sequence of operations.\<close>

fun stream_run :: "(u8 list \<Rightarrow> 's \<Rightarrow> (nat \<times> 's) option) \<Rightarrow> (nat \<Rightarrow> 's \<Rightarrow> (u8 list \<times> 's) option) \<Rightarrow>
    stream_op list \<Rightarrow> 's \<Rightarrow> (u8 list \<times> u8 list \<times> 's) option" where
  "stream_run put get [] s = Some ([], [], s)"
| "stream_run put get (Put d # ops) s =
     (case put d s of
        None \<Rightarrow> None
      | Some (n, s1) \<Rightarrow>
          (case stream_run put get ops s1 of None \<Rightarrow> None | Some (a, r, s2) \<Rightarrow> Some (take n d @ a, r, s2)))"
| "stream_run put get (Get k # ops) s =
     (case get k s of
        None \<Rightarrow> None
      | Some (d, s1) \<Rightarrow>
          (case stream_run put get ops s1 of None \<Rightarrow> None | Some (a, r, s2) \<Rightarrow> Some (a, d @ r, s2)))"

fun small_op :: "stream_op \<Rightarrow> bool" where
  "small_op (Put d) \<longleftrightarrow> length d < 2 ^ 32" | "small_op (Get k) \<longleftrightarrow> k < 2 ^ 32"

context byte_stream
begin

lemma run_conserves:
  assumes "inv s" "list_all small_op ops"
  shows "\<exists>a r s'. stream_run put get ops s = Some (a, r, s') \<and> inv s' \<and> capacity s' = capacity s \<and>
    r @ content s' = content s @ a"
  using assms
proof (induction ops arbitrary: s)
  case Nil
  then show ?case by simp
next
  case (Cons op ops)
  show ?case
  proof (cases op)
    case (Put d)
    then have d: "length d < 2 ^ 32" using Cons.prems(2) by simp
    obtain n s1 where p: "put d s = Some (n, s1)" "inv s1" "capacity s1 = capacity s" "content s1 = content s @ take n d"
      using put_law[OF Cons.prems(1) d] by blast
    then obtain a r s2 where "stream_run put get ops s1 = Some (a, r, s2)" "inv s2" "capacity s2 = capacity s1"
      "r @ content s2 = content s1 @ a" using Cons.IH[of s1] Cons.prems(2) by (auto simp del: append_assoc)
    then show ?thesis using p Put by simp
  next
    case (Get k)
    then have k: "k < 2 ^ 32" using Cons.prems(2) by simp
    obtain s1 where p: "get k s = Some (take k (content s), s1)" "inv s1" "capacity s1 = capacity s" "content s1 = drop k (content s)"
      using get_law[OF Cons.prems(1) k] by blast
    then obtain a r s2 where r: "stream_run put get ops s1 = Some (a, r, s2)" "inv s2" "capacity s2 = capacity s1"
      "r @ content s2 = content s1 @ a" using Cons.IH[of s1] Cons.prems(2) by (auto simp del: append_assoc)
    then have "take k (content s) @ r @ content s2 = content s @ a" using p(4) by (metis append.assoc append_take_drop_id)
    then show ?thesis using p r Get by simp
  qed
qed

end

definition stream_put :: "u8 list \<Rightarrow> StreamBuffer_t \<Rightarrow> (nat \<times> StreamBuffer_t) option" where
  "stream_put d b = map_option (\<lambda>(c, b'). (unat c, b')) (uxStreamBufferAdd 0 (Some d) (of_nat (length d)) b)"

definition stream_get :: "nat \<Rightarrow> StreamBuffer_t \<Rightarrow> (u8 list \<times> StreamBuffer_t) option" where
  "stream_get k b = map_option (\<lambda>(_, d, b'). (d, b')) (uxStreamBufferGet 0 True (of_nat k) False b)"

definition stream_capacity :: "StreamBuffer_t \<Rightarrow> nat" where "stream_capacity b = ring_len b - 1"

lemma stream_put_law:
  assumes "stream_ok b" "length d < 2 ^ 32"
  shows "\<exists>n b'. stream_put d b = Some (n, b') \<and> n = min (stream_capacity b - length (stream_bytes b)) (length d) \<and>
    stream_ok b' \<and> stream_capacity b' = stream_capacity b \<and> stream_bytes b' = stream_bytes b @ take n d"
proof -
  have n: "added 0 (of_nat (length d)) b = min (stream_room b) (length d)" using unat_small[OF assms(2)] by (simp add: added_def)
  obtain c b' where e: "uxStreamBufferAdd 0 (Some d) (of_nat (length d)) b = Some (c, b')" "unat c = min (stream_room b) (length d)"
    "stream_ok b'" "uxLENGTH b' = uxLENGTH b" "stream_size b' = stream_size b + min (stream_room b) (length d)"
    "\<And>i. i < ring_len b \<Longrightarrow> stream_cell b' i = overwrite (stream_cell b) (stream_size b) (Some d) (min (stream_room b) (length d)) i"
    by (rule add_effect[OF assms(1), of "Some d" 0 "of_nat (length d)"]) (use n in auto)
  have lt: "stream_size b' < ring_len b" using stream_okD(9)[OF e(3)] e(4) by simp
  have "stream_bytes b' = stream_bytes b @ take (unat c) d"
  proof (rule nth_equalityI)
    show "length (stream_bytes b') = length (stream_bytes b @ take (unat c) d)" using e by (simp add: bytes_of_cells)
    fix i assume "i < length (stream_bytes b')"
    then have i: "i < stream_size b + unat c" using e by (simp add: bytes_of_cells)
    then have "stream_bytes b' ! i = overwrite (stream_cell b) (stream_size b) (Some d) (unat c) i"
      using e lt by (simp add: bytes_of_cells)
    moreover have "\<not> i < stream_size b \<Longrightarrow> i - stream_size b < unat c" using i by linarith
    ultimately show "stream_bytes b' ! i = (stream_bytes b @ take (unat c) d) ! i"
      using i by (auto simp: nth_append bytes_of_cells overwrite_def)
  qed
  then show ?thesis using e by (simp add: stream_put_def stream_capacity_def bytes_of_cells stream_room_def)
qed

lemma stream_get_law:
  assumes "stream_ok b" "k < 2 ^ 32"
  shows "\<exists>b'. stream_get k b = Some (take k (stream_bytes b), b') \<and> stream_ok b' \<and> stream_capacity b' = stream_capacity b \<and>
    stream_bytes b' = drop k (stream_bytes b)"
proof -
  define n where "n = min (stream_size b) k"
  have n: "taken 0 (of_nat k) b = n" using unat_small[OF assms(2)] by (simp add: taken_def n_def)
  obtain c b' where e: "uxStreamBufferGet 0 True (of_nat k) False b = Some (c, map (stream_cell b) [0..<n], b')"
    "stream_ok b'" "uxLENGTH b' = uxLENGTH b" "stream_size b' = stream_size b - n" "stream_cell b' = (\<lambda>i. stream_cell b (i + n))"
    by (rule get_effect[OF assms(1), of 0 True "of_nat k" False]) (simp add: n)
  have "map (stream_cell b) [0..<n] = take k (stream_bytes b)"
    using taken_bytes[of n b] by (auto simp: n_def min_def bytes_of_cells)
  moreover have "stream_bytes b' = drop k (stream_bytes b)"
    using e(4,5) by (intro nth_equalityI) (auto simp: bytes_of_cells n_def add.commute)
  ultimately show ?thesis using e by (simp add: stream_get_def stream_capacity_def)
qed

interpretation stream: byte_stream stream_ok stream_bytes stream_capacity stream_put stream_get
proof
  show "stream_ok s \<Longrightarrow> length (stream_bytes s) \<le> stream_capacity s" for s
    using stream_okD(9)[of s] by (simp add: bytes_of_cells stream_capacity_def)
qed (fact stream_put_law stream_get_law)+

text \<open>
  C25. A stream buffer is a bounded queue of bytes: through any sequence of additions and reads no copy leaves the array,
  and the bytes read followed by those still inside are the bytes that were inside at first followed by
  those accepted. In particular nothing is lost, repeated or reordered when positions wrap.
\<close>

theorem stream_buffer_fifo:
  assumes "stream_ok b" "list_all small_op ops"
  shows "\<exists>accepted read b'. stream_run stream_put stream_get ops b = Some (accepted, read, b') \<and> stream_ok b' \<and>
    read @ stream_bytes b' = stream_bytes b @ accepted \<and> length (stream_bytes b') \<le> stream_capacity b"
  using stream.run_conserves[OF assms] stream.fits by metis

definition demo_stream :: StreamBuffer_t where
  "demo_stream = \<lparr>uxTail = 3, uxMid = 3, uxHead = 3, uxFront = 3, uxLENGTH = 4, ucArray = [0, 0, 0, 0]\<rparr>"

lemma demo_stream_ok: "stream_ok demo_stream"
  by (simp add: stream_ok_def demo_stream_def fwd_def)

theorem stream_buffer_fifo_witness:
  "\<exists>accepted read b'. stream_run stream_put stream_get [Put [1, 2], Get 1, Put [3, 4, 5]] demo_stream = Some (accepted, read, b') \<and> stream_ok b' \<and>
    read @ stream_bytes b' = stream_bytes demo_stream @ accepted \<and> length (stream_bytes b') \<le> stream_capacity demo_stream"
  by (rule stream_buffer_fifo[OF demo_stream_ok]) simp

end
