(* ===== verification/Tcp_Window.thy ===== *)
theory Tcp_Window
  imports Tcp_Stream "HOL-Library.Signed_Division"
begin

section \<open>TCP windows: sequence numbers and segment descriptors\<close>

text \<open>
  The part of \<^verbatim>\<open>FreeRTOS_TCP_WIN.c\<close> that both directions of a connection share: comparison of sequence numbers, the
  pool of segment descriptors that all connections draw from, and the creation and destruction of a window. The state
  is a window together with the pool. A descriptor is named by its index in the array \<open>xTCPSegments\<close>; a kernel list
  (\<open>List_t\<close>) is the list of the descriptors it links, from its head on. \<open>int32_t\<close> fields are integers,
  casts to and from \<open>uint32_t\<close> are written out. The time is an argument \<open>now\<close>.
\<close>

subsection \<open>Sequence numbers\<close>

definition xSequenceLessThanOrEqual :: "u32 \<Rightarrow> u32 \<Rightarrow> bool" where
  "xSequenceLessThanOrEqual a b \<longleftrightarrow> (b - a) AND 0x80000000 = 0"

definition xSequenceLessThan :: "u32 \<Rightarrow> u32 \<Rightarrow> bool" where
  "xSequenceLessThan a b \<longleftrightarrow> (b - (a + 1)) AND 0x80000000 = 0"

definition xSequenceGreaterThan :: "u32 \<Rightarrow> u32 \<Rightarrow> bool" where
  "xSequenceGreaterThan a b \<longleftrightarrow> (a - (b + 1)) AND 0x80000000 = 0"

definition xSequenceGreaterThanOrEqual :: "u32 \<Rightarrow> u32 \<Rightarrow> bool" where
  "xSequenceGreaterThanOrEqual a b \<longleftrightarrow> (a - b) AND 0x80000000 = 0"


subsection \<open>Segments and windows\<close>

record TCPSegment_t =
  ulSequenceNumber :: u32
  lMaxLength :: int
  lDataLength :: int
  lStreamPos :: int
  uxBorn :: u32
  ucTransmitCount :: u8
  ucDupAckCount :: u8
  bOutstanding :: bool
  bAcked :: bool
  bIsForRx :: bool

record window_seq =
  ulFirstSequenceNumber :: u32
  ulCurrentSequenceNumber :: u32
  ulFINSequenceNumber :: u32
  ulHighestSequenceNumber :: u32

text \<open>The pool, shared by all windows. A null \<open>xTCPSegments\<close> is the empty list.\<close>

record segment_pool =
  xTCPSegments :: "TCPSegment_t list"
  xSegmentList :: "nat list"

record TCPWindow_t = segment_pool +
  bHasInit :: bool
  bSendFullSize :: bool
  bTimeStamps :: bool
  ulRxWindowLength :: u32
  ulTxWindowLength :: u32
  rx :: window_seq
  tx :: window_seq
  ulOurSequenceNumber :: u32
  ulUserDataLength :: u32
  ulNextTxSequenceNumber :: u32
  lSRTT :: int
  ucOptionLength :: u8
  xPriorityQueue :: "nat list"
  xTxQueue :: "nat list"
  xWaitQueue :: "nat list"
  pxHeadSegment :: "nat option"
  ulOptionsData :: "u32 list"
  xTxSegments :: "nat list"
  xRxSegments :: "nat list"
  lists_initialised :: bool
  usMSS :: u16
  usMSSInit :: u16

abbreviation seg :: "('a) segment_pool_scheme \<Rightarrow> nat \<Rightarrow> TCPSegment_t" where
  "seg w i \<equiv> xTCPSegments w ! i"

definition upd_seg :: "nat \<Rightarrow> (TCPSegment_t \<Rightarrow> TCPSegment_t) \<Rightarrow> TCPWindow_t \<Rightarrow> TCPWindow_t" where
  "upd_seg i f w = w\<lparr>xTCPSegments := (xTCPSegments w)[i := f (seg w i)]\<rparr>"

definition ipconfigTCP_WIN_SEG_COUNT :: nat where "ipconfigTCP_WIN_SEG_COUNT = 4"

text \<open>The item is inserted before the end marker of the list and becomes the last one.\<close>

definition vListInsertFifo :: "nat list \<Rightarrow> nat \<Rightarrow> nat list" where
  "vListInsertFifo l i = l @ [i]"

definition zero_segment :: TCPSegment_t where
  "zero_segment = \<lparr>ulSequenceNumber = 0, lMaxLength = 0, lDataLength = 0, lStreamPos = 0, uxBorn = 0, ucTransmitCount = 0,
     ucDupAckCount = 0, bOutstanding = False, bAcked = False, bIsForRx = False\<rparr>"

text \<open>\<open>mem\<close>: whether the heap has room for the array.\<close>

definition prvCreateSectors :: "bool \<Rightarrow> TCPWindow_t \<Rightarrow> bool \<times> TCPWindow_t" where
  "prvCreateSectors mem w =
     (let w = w\<lparr>xSegmentList := []\<rparr>
      in if \<not> mem then (False, w\<lparr>xTCPSegments := []\<rparr>)
         else (True, w\<lparr>xTCPSegments := replicate ipconfigTCP_WIN_SEG_COUNT zero_segment,
                      xSegmentList := foldl vListInsertFifo [] [0..<ipconfigTCP_WIN_SEG_COUNT]\<rparr>))"

text \<open>A descriptor from the pool becomes the last segment of the receive list or of the transmit list.\<close>

definition xTCPWindowNew :: "u32 \<Rightarrow> u32 \<Rightarrow> int \<Rightarrow> bool \<Rightarrow> TCPWindow_t \<Rightarrow> nat option \<times> TCPWindow_t" where
  "xTCPWindowNew now seqno lCount xIsForRx w =
     (case xSegmentList w of
        [] \<Rightarrow> (None, w)
      | i # rest \<Rightarrow>
          let w = w\<lparr>xSegmentList := rest\<rparr>;
              w = (if xIsForRx then w\<lparr>xRxSegments := vListInsertFifo (xRxSegments w) i\<rparr>
                   else w\<lparr>xTxSegments := vListInsertFifo (xTxSegments w) i\<rparr>)
          in (Some i, upd_seg i (\<lambda>s. s\<lparr>uxBorn := now, ucTransmitCount := 0, ucDupAckCount := 0, bOutstanding := False,
                bAcked := False, bIsForRx := xIsForRx, lMaxLength := lCount, lDataLength := lCount, ulSequenceNumber := seqno\<rparr>) w))"

definition xTCPWindowGetHead :: "nat list \<Rightarrow> (nat \<times> nat list) option" where
  "xTCPWindowGetHead l = (case l of [] \<Rightarrow> None | i # rest \<Rightarrow> Some (i, rest))"

definition xTCPWindowPeekHead :: "nat list \<Rightarrow> nat option" where
  "xTCPWindowPeekHead l = (case l of [] \<Rightarrow> None | i # _ \<Rightarrow> Some i)"

text \<open>Taking the item of a descriptor out of the queue it is in, if any, and out of the list of the window.\<close>

definition unlink_queue :: "nat \<Rightarrow> TCPWindow_t \<Rightarrow> TCPWindow_t" where
  "unlink_queue i w = w\<lparr>xPriorityQueue := remove1 i (xPriorityQueue w), xTxQueue := remove1 i (xTxQueue w),
     xWaitQueue := remove1 i (xWaitQueue w)\<rparr>"

definition unlink_segment :: "nat \<Rightarrow> TCPWindow_t \<Rightarrow> TCPWindow_t" where
  "unlink_segment i w = w\<lparr>xTxSegments := remove1 i (xTxSegments w), xRxSegments := remove1 i (xRxSegments w)\<rparr>"

definition vTCPWindowFree :: "nat \<Rightarrow> TCPWindow_t \<Rightarrow> TCPWindow_t" where
  "vTCPWindowFree i w =
     (let w = unlink_queue i w;
          w = upd_seg i (\<lambda>s. s\<lparr>ulSequenceNumber := 0, lDataLength := 0, ucTransmitCount := 0, ucDupAckCount := 0,
                bOutstanding := False, bAcked := False, bIsForRx := False\<rparr>) w;
          w = unlink_segment i w
      in w\<lparr>xSegmentList := vListInsertFifo (xSegmentList w) i\<rparr>)"

lemma free_fields [simp]:
  "xTxSegments (vTCPWindowFree i w) = remove1 i (xTxSegments w)" "xRxSegments (vTCPWindowFree i w) = remove1 i (xRxSegments w)"
  "xSegmentList (vTCPWindowFree i w) = xSegmentList w @ [i]" "rx (vTCPWindowFree i w) = rx w" "tx (vTCPWindowFree i w) = tx w"
  "xPriorityQueue (vTCPWindowFree i w) = remove1 i (xPriorityQueue w)" "xTxQueue (vTCPWindowFree i w) = remove1 i (xTxQueue w)"
  "xWaitQueue (vTCPWindowFree i w) = remove1 i (xWaitQueue w)" "length (xTCPSegments (vTCPWindowFree i w)) = length (xTCPSegments w)"
  "j \<noteq> i \<Longrightarrow> seg (vTCPWindowFree i w) j = seg w j" "lists_initialised (vTCPWindowFree i w) = lists_initialised w"
  "ulNextTxSequenceNumber (vTCPWindowFree i w) = ulNextTxSequenceNumber w" "pxHeadSegment (vTCPWindowFree i w) = pxHeadSegment w"
  "ulUserDataLength (vTCPWindowFree i w) = ulUserDataLength w" "ulOurSequenceNumber (vTCPWindowFree i w) = ulOurSequenceNumber w"
  "usMSS (vTCPWindowFree i w) = usMSS w" "lSRTT (vTCPWindowFree i w) = lSRTT w"
  by (simp_all add: vTCPWindowFree_def unlink_queue_def unlink_segment_def upd_seg_def vListInsertFifo_def Let_def)

text \<open>The two rounds of \<open>vTCPWindowDestroy\<close>: first the transmit segments, then the receive segments.\<close>

function destroy_tx :: "TCPWindow_t \<Rightarrow> TCPWindow_t" where
  "destroy_tx w = (case xTxSegments w of [] \<Rightarrow> w | i # _ \<Rightarrow> destroy_tx (vTCPWindowFree i w))"
  by auto

termination by (relation "measure (length \<circ> xTxSegments)") auto

function destroy_rx :: "TCPWindow_t \<Rightarrow> TCPWindow_t" where
  "destroy_rx w = (case xRxSegments w of [] \<Rightarrow> w | i # _ \<Rightarrow> destroy_rx (vTCPWindowFree i w))"
  by auto

termination by (relation "measure (length \<circ> xRxSegments)") auto

declare destroy_tx.simps [simp del] destroy_rx.simps [simp del]

definition vTCPWindowDestroy :: "TCPWindow_t \<Rightarrow> TCPWindow_t" where
  "vTCPWindowDestroy w = (if lists_initialised w then destroy_rx (destroy_tx w) else w)"

definition vTCPWindowInit :: "u32 \<Rightarrow> u32 \<Rightarrow> u32 \<Rightarrow> TCPWindow_t \<Rightarrow> TCPWindow_t" where
  "vTCPWindowInit ulAckNumber seqno ulMSS w =
     (let w = w\<lparr>bHasInit := True, bSendFullSize := False, bTimeStamps := False\<rparr>;
          w = (if ulMSS \<noteq> 0
               then let w = (if usMSSInit w \<noteq> 0 then w\<lparr>usMSSInit := ucast ulMSS\<rparr> else w)
                    in if ulMSS < ucast (usMSS w) \<or> usMSS w = 0
                       then w\<lparr>ulRxWindowLength := (ulRxWindowLength w div ulMSS) * ulMSS, usMSS := ucast ulMSS\<rparr> else w
               else w)
      in w\<lparr>lSRTT := 500,
           rx := (rx w)\<lparr>ulFirstSequenceNumber := ulAckNumber, ulCurrentSequenceNumber := ulAckNumber, ulHighestSequenceNumber := ulAckNumber\<rparr>,
           tx := (tx w)\<lparr>ulFirstSequenceNumber := seqno, ulCurrentSequenceNumber := seqno, ulHighestSequenceNumber := seqno\<rparr>,
           ulNextTxSequenceNumber := seqno, ulOurSequenceNumber := seqno\<rparr>)"

definition xTCPWindowCreate :: "bool \<Rightarrow> u32 \<Rightarrow> u32 \<Rightarrow> u32 \<Rightarrow> u32 \<Rightarrow> u32 \<Rightarrow> TCPWindow_t \<Rightarrow> bool \<times> TCPWindow_t" where
  "xTCPWindowCreate mem ulRxLength ulTxLength ulAckNumber seqno ulMSS w =
     (let (xReturn, w) = (if xTCPSegments w = [] then prvCreateSectors mem w else (True, w));
          w = w\<lparr>xTxSegments := [], xRxSegments := [], xPriorityQueue := [], xTxQueue := [], xWaitQueue := [], lists_initialised := True\<rparr>;
          w = w\<lparr>ulRxWindowLength := ulRxLength, ulTxWindowLength := ulTxLength\<rparr>
      in (xReturn, vTCPWindowInit ulAckNumber seqno ulMSS w))"

definition vTCPSegmentCleanup :: "TCPWindow_t \<Rightarrow> TCPWindow_t" where
  "vTCPSegmentCleanup w = (if xTCPSegments w \<noteq> [] then w\<lparr>xTCPSegments := []\<rparr> else w)"


subsection \<open>Order of sequence numbers\<close>

lemma top_bit_clear: "(x :: u32) AND 0x80000000 = 0 \<longleftrightarrow> unat x < 2 ^ 31"
proof -
  have "unat x < 2 ^ 32" using unsigned_less[of x, where 'a = nat] by simp
  then have "unat x div 2 ^ 31 = 0 \<or> unat x div 2 ^ 31 = 1" by (auto simp: div_nat_eqI)
  moreover have "bit x 31 \<longleftrightarrow> odd (unat x div 2 ^ 31)"
    using bit_unsigned_iff[where 'a = nat and w = x and n = 31] by (simp add: bit_iff_odd)
  ultimately have "bit x 31 \<longleftrightarrow> \<not> unat x < 2 ^ 31" by auto
  then show ?thesis using and_exp_eq_0_iff_not_bit[of x 31] by simp
qed

text \<open>The sequence number of the byte at a position of a stream.\<close>

definition seqno :: "u32 \<Rightarrow> nat \<Rightarrow> u32" where "seqno isn p = isn + of_nat p"

lemma seqno_add: "seqno isn p + of_nat n = seqno isn (p + n)"
  by (simp add: seqno_def add.assoc)

lemma seqno_0 [simp]: "seqno isn 0 = isn"
  by (simp add: seqno_def)

lemma seqno_diff: "seqno isn q - seqno isn p = of_int (int q - int p)"
  by (simp add: seqno_def)

text \<open>Positions less than \<open>2^31\<close> apart are compared as numbers.\<close>

definition near :: "nat \<Rightarrow> nat \<Rightarrow> bool" where "near p q \<longleftrightarrow> \<bar>int p - int q\<bar> < 2 ^ 31"

lemma nearI: "p < 2 ^ 31 \<Longrightarrow> q < 2 ^ 31 \<Longrightarrow> near p q"
  by (simp add: near_def)

lemma unat_below: "unat (y :: u32) < 2147483648 \<longleftrightarrow> uint y < 2147483648"
proof -
  have "int (unat y) = uint y" by simp
  then show ?thesis by linarith
qed

lemma unat_of_int_diff:
  assumes "\<bar>d\<bar> \<le> 2147483648"
  shows "unat (of_int d :: u32) < 2147483648 \<longleftrightarrow> 0 \<le> d \<and> d < 2147483648"
proof -
  have u: "uint (of_int d :: u32) = d mod 4294967296" by (simp add: uint_word_of_int)
  have "d mod 4294967296 = (if 0 \<le> d then d else d + 4294967296)"
  proof (cases "0 \<le> d")
    case False
    then have "(d + 4294967296) mod 4294967296 = d + 4294967296" using assms by (intro mod_pos_pos_trivial) linarith+
    then show ?thesis using False by simp
  qed (use assms in \<open>simp add: abs_if\<close>)
  then show ?thesis unfolding unat_below u using assms by (auto split: if_splits)
qed

lemma sint_seqno: "near q p \<Longrightarrow> sint (seqno isn q - seqno isn p) = int q - int p"
  unfolding seqno_diff near_def by (subst sint_sbintrunc') (auto intro!: signed_take_bit_int_eq_self)

lemma seqno_inject: "near p q \<Longrightarrow> seqno isn p = seqno isn q \<longleftrightarrow> p = q"
  using sint_seqno[of p q isn] by auto

lemma less_seqno: "near p q \<Longrightarrow> xSequenceLessThan (seqno isn p) (seqno isn q) \<longleftrightarrow> p < q"
  using seqno_diff[of isn q "Suc p"] seqno_add[of isn p 1] unat_of_int_diff[of "int q - int (Suc p)"]
  by (auto simp: xSequenceLessThan_def top_bit_clear near_def)

lemma greater_seqno: "near p q \<Longrightarrow> xSequenceGreaterThan (seqno isn p) (seqno isn q) \<longleftrightarrow> q < p"
  using less_seqno[of q p isn] by (simp add: xSequenceGreaterThan_def xSequenceLessThan_def near_def abs_minus_commute)

lemma le_seqno: "near p q \<Longrightarrow> xSequenceLessThanOrEqual (seqno isn p) (seqno isn q) \<longleftrightarrow> p \<le> q"
  using seqno_diff[of isn q p] unat_of_int_diff[of "int q - int p"]
  by (auto simp: xSequenceLessThanOrEqual_def top_bit_clear near_def)

lemma ge_seqno: "near p q \<Longrightarrow> xSequenceGreaterThanOrEqual (seqno isn p) (seqno isn q) \<longleftrightarrow> q \<le> p"
  using le_seqno[of q p isn] by (simp add: xSequenceGreaterThanOrEqual_def xSequenceLessThanOrEqual_def near_def abs_minus_commute)

lemmas seq_order = less_seqno greater_seqno le_seqno ge_seqno


subsection \<open>Descriptors are conserved\<close>

text \<open>
  Every descriptor of the window and of the pool is in one list only; a queue holds transmit segments. The descriptors that are in
  none of these lists belong to other windows.
\<close>

definition segments_ok :: "TCPWindow_t \<Rightarrow> bool" where
  "segments_ok w \<longleftrightarrow> distinct (xSegmentList w @ xTxSegments w @ xRxSegments w) \<and>
     set (xSegmentList w @ xTxSegments w @ xRxSegments w) \<subseteq> {..<length (xTCPSegments w)} \<and>
     distinct (xPriorityQueue w @ xTxQueue w @ xWaitQueue w) \<and>
     set (xPriorityQueue w @ xTxQueue w @ xWaitQueue w) \<subseteq> set (xTxSegments w)"

abbreviation owned :: "TCPWindow_t \<Rightarrow> nat set" where "owned w \<equiv> set (xTxSegments w) \<union> set (xRxSegments w)"

lemma segments_okD:
  assumes "segments_ok w"
  shows "distinct (xSegmentList w)" "distinct (xTxSegments w)" "distinct (xRxSegments w)"
    "set (xSegmentList w) \<inter> owned w = {}" "set (xTxSegments w) \<inter> set (xRxSegments w) = {}"
    "i \<in> owned w \<Longrightarrow> i < length (xTCPSegments w)" "i \<in> set (xSegmentList w) \<Longrightarrow> i < length (xTCPSegments w)"
  using assms by (auto simp: segments_ok_def)

lemma free_segments_ok:
  assumes "segments_ok w" "i \<in> owned w"
  shows "segments_ok (vTCPWindowFree i w)"
proof -
  have q: "set (remove1 i xs) = set xs - {i}" if "distinct xs" for xs using that by simp
  have d: "distinct (xPriorityQueue w)" "distinct (xTxQueue w)" "distinct (xWaitQueue w)" using assms(1) by (simp_all add: segments_ok_def)
  note ds = segments_okD(2,3)[OF assms(1)]
  have "distinct (xSegmentList w @ [i] @ remove1 i (xTxSegments w) @ remove1 i (xRxSegments w))"
    using segments_okD(1,4,5)[OF assms(1)] assms(2) ds by (auto simp: q[OF ds(1)] q[OF ds(2)])
  moreover have "set (xSegmentList w @ [i] @ remove1 i (xTxSegments w) @ remove1 i (xRxSegments w)) \<subseteq> {..<length (xTCPSegments w)}"
    using segments_okD(6,7)[OF assms(1)] assms(2) by (auto dest: notin_set_remove1 in_set_remove1 simp: q[OF ds(1)] q[OF ds(2)])
  moreover have "distinct (remove1 i (xPriorityQueue w) @ remove1 i (xTxQueue w) @ remove1 i (xWaitQueue w))"
    using assms(1) d by (auto simp: segments_ok_def q[OF d(1)] q[OF d(2)] q[OF d(3)])
  moreover have "set (remove1 i (xPriorityQueue w) @ remove1 i (xTxQueue w) @ remove1 i (xWaitQueue w)) \<subseteq> set (remove1 i (xTxSegments w))"
    using assms(1) unfolding set_append q[OF d(1)] q[OF d(2)] q[OF d(3)] q[OF ds(1)] by (auto simp: segments_ok_def)
  ultimately show ?thesis unfolding segments_ok_def free_fields by simp
qed

lemma new_fields:
  assumes "xTCPWindowNew now sq c r w = (Some i, w')"
  shows "xSegmentList w = i # xSegmentList w'" "xRxSegments w' = (if r then xRxSegments w @ [i] else xRxSegments w)"
    "xTxSegments w' = (if r then xTxSegments w else xTxSegments w @ [i])" "length (xTCPSegments w') = length (xTCPSegments w)"
    "xPriorityQueue w' = xPriorityQueue w" "xTxQueue w' = xTxQueue w" "xWaitQueue w' = xWaitQueue w" "rx w' = rx w" "tx w' = tx w"
    "j \<noteq> i \<Longrightarrow> seg w' j = seg w j" "ulNextTxSequenceNumber w' = ulNextTxSequenceNumber w" "usMSS w' = usMSS w"
    "pxHeadSegment w' = pxHeadSegment w" "ulUserDataLength w' = ulUserDataLength w" "ulOurSequenceNumber w' = ulOurSequenceNumber w"
    "lists_initialised w' = lists_initialised w"
  using assms by (auto simp: xTCPWindowNew_def upd_seg_def vListInsertFifo_def Let_def split: list.splits if_splits)

lemma new_segment:
  assumes "xTCPWindowNew now sq c r w = (Some i, w')" "i < length (xTCPSegments w)"
  shows "seg w' i = (seg w i)\<lparr>uxBorn := now, ucTransmitCount := 0, ucDupAckCount := 0, bOutstanding := False,
    bAcked := False, bIsForRx := r, lMaxLength := c, lDataLength := c, ulSequenceNumber := sq\<rparr>"
  using assms by (auto simp: xTCPWindowNew_def upd_seg_def vListInsertFifo_def Let_def split: list.splits if_splits)

lemma new_segments_ok:
  assumes "segments_ok w" "xTCPWindowNew now sq c r w = (Some i, w')"
  shows "segments_ok w'" "i \<in> owned w'" "i \<notin> owned w" "i < length (xTCPSegments w)"
proof -
  note f = new_fields(1-7)[OF assms(2)]
  show i: "i \<notin> owned w" using segments_okD(4)[OF assms(1)] f(1) by auto
  show "i < length (xTCPSegments w)" using segments_okD(7)[OF assms(1), of i] f(1) by simp
  show "i \<in> owned w'" using f(2,3) by simp
  have "i \<notin> set (xSegmentList w')" using segments_okD(1)[OF assms(1)] f(1) by simp
  then show "segments_ok w'" using assms(1) i unfolding segments_ok_def f by (cases r) auto
qed

lemma new_none: "xTCPWindowNew now sq c r w = (None, w') \<Longrightarrow> w' = w \<and> xSegmentList w = []"
  by (auto simp: xTCPWindowNew_def Let_def split: list.splits)

lemma destroy_tx_lists:
  assumes "segments_ok w"
  shows "segments_ok (destroy_tx w) \<and> xTxSegments (destroy_tx w) = [] \<and> xRxSegments (destroy_tx w) = xRxSegments w \<and>
    xSegmentList (destroy_tx w) = xSegmentList w @ xTxSegments w \<and> length (xTCPSegments (destroy_tx w)) = length (xTCPSegments w)"
  using assms
proof (induction w rule: destroy_tx.induct)
  case (1 w)
  show ?case
  proof (cases "xTxSegments w")
    case (Cons i l)
    then have "i \<notin> set (xRxSegments w)" using segments_okD(5)[OF "1.prems"] by auto
    then show ?thesis using "1.IH"[OF Cons free_segments_ok[OF "1.prems"]] Cons
      by (simp add: destroy_tx.simps[of w] remove1_idem)
  qed (use 1 in \<open>simp add: destroy_tx.simps[of w]\<close>)
qed

lemma destroy_rx_lists:
  assumes "segments_ok w"
  shows "segments_ok (destroy_rx w) \<and> xRxSegments (destroy_rx w) = [] \<and> xTxSegments (destroy_rx w) = xTxSegments w \<and>
    xSegmentList (destroy_rx w) = xSegmentList w @ xRxSegments w"
  using assms
proof (induction w rule: destroy_rx.induct)
  case (1 w)
  show ?case
  proof (cases "xRxSegments w")
    case (Cons i l)
    then have "i \<notin> set (xTxSegments w)" using segments_okD(5)[OF "1.prems"] by auto
    then show ?thesis using "1.IH"[OF Cons free_segments_ok[OF "1.prems"]] Cons
      by (simp add: destroy_rx.simps[of w] remove1_idem)
  qed (use 1 in \<open>simp add: destroy_rx.simps[of w]\<close>)
qed

text \<open>Closing a connection gives every descriptor it borrowed back to the pool, once.\<close>

lemma destroy_returns_all:
  assumes "segments_ok w" "lists_initialised w"
  shows "xSegmentList (vTCPWindowDestroy w) = xSegmentList w @ xTxSegments w @ xRxSegments w" "owned (vTCPWindowDestroy w) = {}"
  using destroy_tx_lists[OF assms(1)] destroy_rx_lists[of "destroy_tx w"] assms(2) by (simp_all add: vTCPWindowDestroy_def)

lemma create_fields:
  "segments_ok (snd (xTCPWindowCreate mem l l' a sq m w)) \<longleftrightarrow>
     (let w1 = snd (if xTCPSegments w = [] then prvCreateSectors mem w else (True, w))
      in distinct (xSegmentList w1) \<and> set (xSegmentList w1) \<subseteq> {..<length (xTCPSegments w1)})"
  by (simp add: xTCPWindowCreate_def vTCPWindowInit_def segments_ok_def Let_def split_def)

lemma create_segments_ok:
  assumes "xTCPSegments w \<noteq> [] \<Longrightarrow> distinct (xSegmentList w) \<and> set (xSegmentList w) \<subseteq> {..<length (xTCPSegments w)}"
  shows "segments_ok (snd (xTCPWindowCreate mem l l' a sq m w))"
proof -
  have "foldl vListInsertFifo [] [0..<ipconfigTCP_WIN_SEG_COUNT] = [0, 1, 2, 3]"
    by (simp add: ipconfigTCP_WIN_SEG_COUNT_def vListInsertFifo_def upt_rec)
  then show ?thesis using assms unfolding create_fields by (auto simp: prvCreateSectors_def Let_def ipconfigTCP_WIN_SEG_COUNT_def)
qed

lemma create_starts:
  assumes "w' = snd (xTCPWindowCreate mem l l' a sq m w)"
  shows "lists_initialised w'" "owned w' = {}" "ulCurrentSequenceNumber (rx w') = a" "ulCurrentSequenceNumber (tx w') = sq"
    "ulNextTxSequenceNumber w' = sq"
  using assms by (simp_all add: xTCPWindowCreate_def vTCPWindowInit_def Let_def split_def)

text \<open>The transmit side of a window is untouched.\<close>

definition same_tx :: "TCPWindow_t \<Rightarrow> TCPWindow_t \<Rightarrow> bool" where
  "same_tx w w' \<longleftrightarrow> xTxSegments w' = xTxSegments w \<and> xPriorityQueue w' = xPriorityQueue w \<and> xTxQueue w' = xTxQueue w \<and>
     xWaitQueue w' = xWaitQueue w \<and> tx w' = tx w \<and> ulNextTxSequenceNumber w' = ulNextTxSequenceNumber w \<and>
     pxHeadSegment w' = pxHeadSegment w \<and> usMSS w' = usMSS w \<and> (\<forall>i\<in>set (xTxSegments w). seg w' i = seg w i)"

lemma same_tx_refl [simp]: "same_tx w w"
  by (simp add: same_tx_def)

lemma same_tx_trans: "same_tx w w1 \<Longrightarrow> same_tx w1 w2 \<Longrightarrow> same_tx w w2"
  by (simp add: same_tx_def)

end
