(* ===== verification/Tcp_Socket.thy ===== *)
theory Tcp_Socket
  imports Tcp_Window
begin

section \<open>TCP sockets\<close>

text \<open>
  The state of a TCP socket (\<open>IPTCPSocket_t\<close> and the fields of \<open>FreeRTOS_Socket_t\<close> that belong to it) with the operations that the
  application calls to move data, \<open>FreeRTOS_recv\<close> and \<open>FreeRTOS_send\<close> of \<^verbatim>\<open>FreeRTOS_Sockets.c\<close>, the creation of stream buffers, the storing of received
  bytes, and the change of state of \<^verbatim>\<open>FreeRTOS_TCP_IP.c\<close>. The configuration is that of the firmware: no callbacks, no signals, no
  \<open>select\<close>, keep-alive and hang protection on. What a function does to other sockets and to the message queue of the IP task is recorded as
  a list of actions. \<open>None\<close> as a result: a failed assertion or a copy outside a buffer.
\<close>

datatype eIPTCPState_t = eCLOSED | eTCP_LISTEN | eCONNECT_SYN | eSYN_FIRST | eSYN_RECEIVED | eESTABLISHED | eFIN_WAIT_1
  | eFIN_WAIT_2 | eCLOSE_WAIT | eCLOSING | eLAST_ACK | eTIME_WAIT

text \<open>The values of the enumeration, by which states are compared.\<close>

fun state_value :: "eIPTCPState_t \<Rightarrow> nat" where
  "state_value eCLOSED = 0" | "state_value eTCP_LISTEN = 1" | "state_value eCONNECT_SYN = 2" | "state_value eSYN_FIRST = 3"
| "state_value eSYN_RECEIVED = 4" | "state_value eESTABLISHED = 5" | "state_value eFIN_WAIT_1 = 6" | "state_value eFIN_WAIT_2 = 7"
| "state_value eCLOSE_WAIT = 8" | "state_value eCLOSING = 9" | "state_value eLAST_ACK = 10" | "state_value eTIME_WAIT = 11"

instantiation eIPTCPState_t :: linorder
begin

definition less_eq_eIPTCPState_t :: "eIPTCPState_t \<Rightarrow> eIPTCPState_t \<Rightarrow> bool" where
  "less_eq_eIPTCPState_t a b \<longleftrightarrow> state_value a \<le> state_value b"

definition less_eIPTCPState_t :: "eIPTCPState_t \<Rightarrow> eIPTCPState_t \<Rightarrow> bool" where
  "less_eIPTCPState_t a b \<longleftrightarrow> state_value a < state_value b"

instance
proof
  fix a b c :: eIPTCPState_t
  show "a \<le> b \<Longrightarrow> b \<le> a \<Longrightarrow> a = b"
    unfolding less_eq_eIPTCPState_t_def by (cases a; cases b; simp)
qed (auto simp: less_eq_eIPTCPState_t_def less_eIPTCPState_t_def)

end

lemmas state_order = less_eq_eIPTCPState_t_def less_eIPTCPState_t_def

text \<open>What a socket does to others: event bits of its parent, the list of children, deferred calls, messages to the IP task, reset packets.\<close>

datatype sock_action = Signal_Accept nat | Signal_Closed nat | Remove_Child | Close_Next_Time | Listen_Next_Time
  | TCP_Timer_Event | Send_Reset

record tcp_socket =
  bPassAccept :: bool
  bPassQueued :: bool
  bReuseSocket :: bool
  bCloseAfterSend :: bool
  bUserShutdown :: bool
  bCloseRequested :: bool
  bLowWater :: bool
  bWinChange :: bool
  bSendKeepAlive :: bool
  bWaitKeepAlive :: bool
  bFinAccepted :: bool
  bFinSent :: bool
  bMallocError :: bool
  usTimeout :: u16
  sock_usMSS :: u16
  eTCPState :: eIPTCPState_t
  pxPeerSocket :: "nat option"
  ucKeepRepCount :: u8
  xLastAliveTime :: u32
  xLastActTime :: u32
  uxLittleSpace :: u32
  uxEnoughSpace :: u32
  uxRxStreamSize :: u32
  uxTxStreamSize :: u32
  rxStream :: "StreamBuffer_t option"
  txStream :: "StreamBuffer_t option"
  ulWindowSize :: u32
  xTCPWindow :: TCPWindow_t
  xReceiveBlockTime :: u32
  xSendBlockTime :: u32
  xEventBits :: u32
  sock_valid :: bool
  actions :: "sock_action list"

definition act :: "sock_action \<Rightarrow> tcp_socket \<Rightarrow> tcp_socket" where
  "act a s = s\<lparr>actions := actions s @ [a]\<rparr>"

definition eSOCKET_RECEIVE :: u32 where "eSOCKET_RECEIVE = 0x0001"
definition eSOCKET_SEND :: u32 where "eSOCKET_SEND = 0x0002"
definition eSOCKET_CONNECT :: u32 where "eSOCKET_CONNECT = 0x0008"
definition eSOCKET_CLOSED :: u32 where "eSOCKET_CLOSED = 0x0020"


subsection \<open>Change of state\<close>

definition tcpNOW_CONNECTED :: "eIPTCPState_t \<Rightarrow> bool" where
  "tcpNOW_CONNECTED st \<longleftrightarrow> eESTABLISHED \<le> st \<and> st \<noteq> eCLOSE_WAIT"

definition prvTCPSocketIsActive :: "eIPTCPState_t \<Rightarrow> bool" where
  "prvTCPSocketIsActive st \<longleftrightarrow> st \<notin> {eCLOSED, eCLOSE_WAIT, eFIN_WAIT_2, eCLOSING, eTIME_WAIT}"

definition prvTCPTouchSocket :: "u32 \<Rightarrow> tcp_socket \<Rightarrow> tcp_socket" where
  "prvTCPTouchSocket now s = s\<lparr>xLastActTime := now, bWaitKeepAlive := False, bSendKeepAlive := False, ucKeepRepCount := 0, xLastAliveTime := now\<rparr>"

text \<open>The part of \<open>vTCPStateChange\<close> for a change between connected and not connected. The parent of a socket that waits to be accepted is its peer socket.\<close>

definition connection_changed :: "bool \<Rightarrow> tcp_socket \<Rightarrow> tcp_socket option" where
  "connection_changed bAfter s =
     (let orphan = bPassQueued s \<and> \<not> bReuseSocket s
      in if orphan \<and> pxPeerSocket s = None then None
         else
           let s1 = (if bAfter then
                       if bPassQueued s
                       then (if orphan then act (Signal_Accept (the (pxPeerSocket s))) s else s\<lparr>xEventBits := xEventBits s OR 0x0004\<rparr>)
                              \<lparr>pxPeerSocket := None, bPassQueued := False, bPassAccept := True\<rparr>
                       else s\<lparr>xEventBits := xEventBits s OR eSOCKET_CONNECT\<rparr>
                     else if orphan then act (Signal_Closed (the (pxPeerSocket s))) s
                     else s\<lparr>xEventBits := xEventBits s OR eSOCKET_CLOSED\<rparr>)
           in Some (if \<not> prvTCPSocketIsActive (eTCPState s1) then s1\<lparr>usTimeout := 0\<rparr> else s1))"

definition vTCPStateChange :: "u32 \<Rightarrow> eIPTCPState_t \<Rightarrow> tcp_socket \<Rightarrow> tcp_socket option" where
  "vTCPStateChange now st s =
     (let xPreviousState = eTCPState s;
          bAfter = tcpNOW_CONNECTED st;
          bBefore = (tcpNOW_CONNECTED xPreviousState \<or>
            (xPreviousState \<in> {eCONNECT_SYN, eSYN_FIRST, eSYN_RECEIVED} \<and> st = eCLOSE_WAIT))
      in case (if bBefore \<noteq> bAfter then connection_changed bAfter s else Some s) of
           None \<Rightarrow> None
         | Some s1 \<Rightarrow>
             let s2 = s1\<lparr>eTCPState := st\<rparr>;
                 s3 = (if st \<in> {eCLOSED, eCLOSE_WAIT} \<and> (bPassQueued s2 \<or> bPassAccept s2) \<and> \<not> bReuseSocket s2
                       then act Close_Next_Time ((act Remove_Child s2)\<lparr>bPassQueued := False, bPassAccept := False\<rparr>) else s2);
                 s4 = (if st = eCLOSE_WAIT \<and> bReuseSocket s3 \<and> xPreviousState \<in> {eSYN_FIRST, eSYN_RECEIVED}
                       then act Listen_Next_Time (s3\<lparr>eTCPState := eCLOSED\<rparr>) else s3)
             in Some (prvTCPTouchSocket now s4))"


subsection \<open>Stream buffers of a socket\<close>

definition xPercTable :: "(u32 \<times> u32) list" where
  "xPercTable = [(0, 100), (50, 100), (34, 100), (25, 100)]"

text \<open>The marks for little and enough space, set when the receive stream is created.\<close>

definition set_water_marks :: "tcp_socket \<Rightarrow> tcp_socket" where
  "set_water_marks s =
     (let uxSegmentCount = uxRxStreamSize s div ucast (sock_usMSS s);
          (little, enough) = (if 0 < uxSegmentCount \<and> unat uxSegmentCount \<le> length xPercTable
                              then xPercTable ! (unat uxSegmentCount - 1) else (20, 80));
          s1 = (if uxLittleSpace s = 0 then s\<lparr>uxLittleSpace := little * uxRxStreamSize s div 100\<rparr> else s)
      in if uxEnoughSpace s1 = 0 then s1\<lparr>uxEnoughSpace := enough * uxRxStreamSize s1 div 100\<rparr> else s1)"

definition new_stream :: "(nat \<Rightarrow> u8) \<Rightarrow> u32 \<Rightarrow> StreamBuffer_t" where
  "new_stream content uxSize =
     (let uxLength = (uxSize + 4) AND NOT (4 - 1)
      in \<lparr>uxTail = 0, uxMid = 0, uxHead = 0, uxFront = 0, uxLENGTH = uxLength, ucArray = map content [0..<unat uxLength]\<rparr>)"

text \<open>\<open>mem\<close> is what the heap answers: nothing, or a block with some content.\<close>

definition prvTCPCreateStream :: "u32 \<Rightarrow> (nat \<Rightarrow> u8) option \<Rightarrow> bool \<Rightarrow> tcp_socket \<Rightarrow> tcp_socket option" where
  "prvTCPCreateStream now mem xIsInputStream s =
     (let s = (if xIsInputStream then set_water_marks s else s)
      in case mem of
           None \<Rightarrow> vTCPStateChange now eCLOSE_WAIT (s\<lparr>bMallocError := True\<rparr>)
         | Some content \<Rightarrow>
             Some (if xIsInputStream then s\<lparr>rxStream := Some (new_stream content (uxRxStreamSize s))\<rparr>
                   else s\<lparr>txStream := Some (new_stream content (uxTxStreamSize s))\<rparr>))"

definition vTCPAddRxdata_Stored :: "StreamBuffer_t \<Rightarrow> tcp_socket \<Rightarrow> tcp_socket" where
  "vTCPAddRxdata_Stored b s =
     (let s1 = (if \<not> bLowWater s \<and> uxStreamBufferFrontSpace b \<le> uxLittleSpace s
                then act TCP_Timer_Event (s\<lparr>bLowWater := True, bWinChange := True, usTimeout := 1\<rparr>) else s)
      in s1\<lparr>xEventBits := xEventBits s1 OR eSOCKET_RECEIVE\<rparr>)"

definition lTCPAddRxdata :: "u32 \<Rightarrow> (nat \<Rightarrow> u8) option \<Rightarrow> u32 \<Rightarrow> u8 list option \<Rightarrow> u32 \<Rightarrow> tcp_socket \<Rightarrow> (int \<times> tcp_socket) option" where
  "lTCPAddRxdata now mem uxOffset pcData ulByteCount s =
     (case (case rxStream s of None \<Rightarrow> prvTCPCreateStream now mem True s | Some _ \<Rightarrow> Some s) of
        None \<Rightarrow> None
      | Some s1 \<Rightarrow>
          (case rxStream s1 of
             None \<Rightarrow> Some (-1, s1)
           | Some pxStream \<Rightarrow>
               (case uxStreamBufferAdd uxOffset pcData ulByteCount pxStream of
                  None \<Rightarrow> None
                | Some (n, b) \<Rightarrow>
                    let s2 = s1\<lparr>rxStream := Some b\<rparr>
                    in Some (sint n, if uxOffset = 0 then vTCPAddRxdata_Stored b s2 else s2))))"


subsection \<open>Receiving\<close>

definition FREERTOS_ZERO_COPY :: u32 where "FREERTOS_ZERO_COPY = 1"
definition FREERTOS_MSG_PEEK :: u32 where "FREERTOS_MSG_PEEK = 4"
definition FREERTOS_MSG_DONTWAIT :: u32 where "FREERTOS_MSG_DONTWAIT = 16"

text \<open>What a read gives to the caller: bytes copied into its buffer, or for zero copy the place of the data in the array.\<close>

datatype recv_data = Copied "u8 list" | Pointer u32

definition recv_water :: "StreamBuffer_t \<Rightarrow> tcp_socket \<Rightarrow> tcp_socket" where
  "recv_water b s = (if bLowWater s \<and> uxEnoughSpace s \<le> uxStreamBufferFrontSpace b
     then act TCP_Timer_Event (s\<lparr>bLowWater := False, bWinChange := True, usTimeout := 1\<rparr>) else s)"

definition prvRecvData :: "u32 \<Rightarrow> u32 \<Rightarrow> StreamBuffer_t \<Rightarrow> tcp_socket \<Rightarrow> (int \<times> recv_data \<times> tcp_socket) option" where
  "prvRecvData uxBufferLength xFlags b s =
     (if xFlags AND FREERTOS_ZERO_COPY = 0
      then (case uxStreamBufferGet 0 True uxBufferLength (xFlags AND FREERTOS_MSG_PEEK \<noteq> 0) b of
              None \<Rightarrow> None
            | Some (n, data, b') \<Rightarrow> Some (sint n, Copied data, recv_water b' (s\<lparr>rxStream := Some b'\<rparr>)))
      else let (p, n) = uxStreamBufferGetPtr b in Some (sint n, Pointer p, s))"

definition rx_count :: "tcp_socket \<Rightarrow> int" where
  "rx_count s = (case rxStream s of None \<Rightarrow> 0 | Some b \<Rightarrow> sint (uxStreamBufferGetSize b))"

definition not_connected_error :: "tcp_socket \<Rightarrow> int" where
  "not_connected_error s = (if bMallocError s then -12 else -128)"

text \<open>
  The waiting of \<open>FreeRTOS_recv\<close>. Each element of \<open>waits\<close> is a wait for an event and says what the IP task does to the socket during it
  (\<open>during\<close> gives the meaning of such a description); behind the last one the time is over.
\<close>

fun recv_wait :: "('e \<Rightarrow> tcp_socket \<Rightarrow> tcp_socket option) \<Rightarrow> u32 \<Rightarrow> bool \<Rightarrow> 'e list \<Rightarrow> tcp_socket \<Rightarrow> (int \<times> tcp_socket) option" where
  "recv_wait during xFlags xTimed waits s =
     (if rx_count s \<noteq> 0 then Some (rx_count s, s)
      else if eTCPState s \<in> {eCLOSED, eCLOSE_WAIT, eCLOSING} then Some (not_connected_error s, s)
      else if \<not> xTimed \<and> (xReceiveBlockTime s = 0 \<or> xFlags AND FREERTOS_MSG_DONTWAIT \<noteq> 0) then Some (0, s)
      else case waits of
             [] \<Rightarrow> Some (0, s)
           | e # rest \<Rightarrow> (case during e s of None \<Rightarrow> None | Some s' \<Rightarrow> recv_wait during xFlags True rest s'))"

declare recv_wait.simps [simp del]

definition prvRecvWait :: "('e \<Rightarrow> tcp_socket \<Rightarrow> tcp_socket option) \<Rightarrow> u32 \<Rightarrow> 'e list \<Rightarrow> tcp_socket \<Rightarrow> (int \<times> tcp_socket) option" where
  "prvRecvWait during xFlags waits s = recv_wait during xFlags False waits s"

definition FreeRTOS_recv :: "('e \<Rightarrow> tcp_socket \<Rightarrow> tcp_socket option) \<Rightarrow> bool \<Rightarrow> u32 \<Rightarrow> u32 \<Rightarrow> 'e list \<Rightarrow> tcp_socket \<Rightarrow>
    (int \<times> recv_data \<times> tcp_socket) option" where
  "FreeRTOS_recv during null_buffer uxBufferLength xFlags waits s =
     (if \<not> sock_valid s then Some (-22, Copied [], s)
      else if xFlags AND FREERTOS_ZERO_COPY \<noteq> 0 \<and> null_buffer then Some (-22, Copied [], s)
      else case prvRecvWait during xFlags waits s of
             None \<Rightarrow> None
           | Some (n, s1) \<Rightarrow>
               if 0 < n
               then (case rxStream s1 of None \<Rightarrow> None | Some b \<Rightarrow> prvRecvData uxBufferLength xFlags b s1)
               else Some (n, Copied [], s1))"


subsection \<open>Sending\<close>

definition prvTCPSendCheck :: "u32 \<Rightarrow> (nat \<Rightarrow> u8) option \<Rightarrow> u32 \<Rightarrow> tcp_socket \<Rightarrow> (int \<times> tcp_socket) option" where
  "prvTCPSendCheck now mem uxDataLength s =
     (if \<not> sock_valid s then Some (-22, s)
      else if bMallocError s then Some (-12, s)
      else if eTCPState s \<in> {eCLOSED, eCLOSE_WAIT, eCLOSING} then Some (-128, s)
      else if bFinSent s then Some (0, s)
      else if uxDataLength = 0 then Some (0, s)
      else if txStream s = None
      then (case prvTCPCreateStream now mem False s of
              None \<Rightarrow> None
            | Some s1 \<Rightarrow> Some (if txStream s1 = None then -12 else 1, s1))
      else Some (1, s))"

text \<open>
  The loop of \<open>FreeRTOS_send\<close>; \<open>xByteCount\<close> is the room seen last. \<open>source\<close> is what is left of the caller's data, \<open>None\<close> for zero copy. A wait is described as for
  \<open>recv_wait\<close>, here with the answer of the heap, should a stream have to be created; \<open>during\<close> also gives a list of notes on what the IP task did meanwhile,
  such as the packets it sent, and the result of the loop holds the notes of all waits.
\<close>

definition send_some :: "bool \<Rightarrow> u8 list option \<Rightarrow> int \<Rightarrow> int \<Rightarrow> StreamBuffer_t \<Rightarrow> tcp_socket \<Rightarrow> (int \<times> tcp_socket) option" where
  "send_some from_ip source xBytesLeft xByteCount b s =
     (let n = (if xBytesLeft < xByteCount then xBytesLeft else xByteCount);
          s1 = (if bCloseAfterSend s \<and> n = xBytesLeft then s\<lparr>bCloseRequested := True\<rparr> else s)
      in case uxStreamBufferAdd 0 source (word_of_int n) b of
           None \<Rightarrow> None
         | Some (c, b') \<Rightarrow>
             let s2 = s1\<lparr>txStream := Some b', usTimeout := 1\<rparr>
             in Some (sint c, if from_ip then s2 else act TCP_Timer_Event s2))"

type_synonym 'e send_wait = "bool \<times> 'e \<times> u32 \<times> (nat \<Rightarrow> u8) option"

fun tcp_send_loop :: "('e \<Rightarrow> tcp_socket \<Rightarrow> ('o list \<times> tcp_socket) option) \<Rightarrow> bool \<Rightarrow> u32 \<Rightarrow> u32 \<Rightarrow> u8 list option \<Rightarrow> int \<Rightarrow> int \<Rightarrow> int \<Rightarrow> bool \<Rightarrow>
    'e send_wait list \<Rightarrow> 'o list \<Rightarrow> tcp_socket \<Rightarrow> (int \<times> 'o list \<times> tcp_socket) option" where
  "tcp_send_loop during from_ip uxDataLength xFlags source xBytesLeft xBytesSent xByteCount xTimed waits notes s =
     (if \<not> 0 < xBytesLeft then Some (xBytesSent, notes, s)
      else case (if 0 < xByteCount
                 then (case txStream s of None \<Rightarrow> None | Some b \<Rightarrow> send_some from_ip source xBytesLeft xByteCount b s)
                 else Some (0, s)) of
             None \<Rightarrow> None
           | Some (n, s1) \<Rightarrow>
               let left = xBytesLeft - n; sent = xBytesSent + n
               in if 0 < xByteCount \<and> (left = 0 \<or> source = None) then Some (sent, notes, s1)
                  else if \<not> xTimed \<and> (from_ip \<or> xSendBlockTime s1 = 0 \<or> xFlags AND FREERTOS_MSG_DONTWAIT \<noteq> 0) then Some (sent, notes, s1)
                  else (case waits of
                          [] \<Rightarrow> Some (sent, notes, s1)
                        | (timed_out, e, now, mem) # rest \<Rightarrow>
                            if xTimed \<and> timed_out then Some (sent, notes, s1)
                            else (case during e s1 of
                                    None \<Rightarrow> None
                                  | Some (fresh, s2) \<Rightarrow>
                                      (case prvTCPSendCheck now mem uxDataLength s2 of
                                         None \<Rightarrow> None
                                       | Some (r, s3) \<Rightarrow>
                                           if r < 0 then Some (sent, notes @ fresh, s3)
                                           else (case txStream s3 of
                                                   None \<Rightarrow> None
                                                 | Some b \<Rightarrow> tcp_send_loop during from_ip uxDataLength xFlags (map_option (drop (nat n)) source)
                                                     left sent (sint (uxStreamBufferGetSpace b)) True rest (notes @ fresh) s3)))))"

declare tcp_send_loop.simps [simp del]

definition prvTCPSendLoop :: "('e \<Rightarrow> tcp_socket \<Rightarrow> ('o list \<times> tcp_socket) option) \<Rightarrow> bool \<Rightarrow> u8 list option \<Rightarrow> u32 \<Rightarrow> u32 \<Rightarrow>
    'e send_wait list \<Rightarrow> tcp_socket \<Rightarrow> (int \<times> 'o list \<times> tcp_socket) option" where
  "prvTCPSendLoop during from_ip source uxDataLength xFlags waits s =
     (case txStream s of
        None \<Rightarrow> None
      | Some b \<Rightarrow> tcp_send_loop during from_ip uxDataLength xFlags source (sint uxDataLength) 0 (sint (uxStreamBufferGetSpace b)) False waits [] s)"

definition FreeRTOS_send :: "('e \<Rightarrow> tcp_socket \<Rightarrow> ('o list \<times> tcp_socket) option) \<Rightarrow> u32 \<Rightarrow> (nat \<Rightarrow> u8) option \<Rightarrow> bool \<Rightarrow> u8 list option \<Rightarrow> u32 \<Rightarrow> u32 \<Rightarrow>
    'e send_wait list \<Rightarrow> tcp_socket \<Rightarrow> (int \<times> 'o list \<times> tcp_socket) option" where
  "FreeRTOS_send during now mem from_ip pvBuffer uxDataLength xFlags waits s =
     (case prvTCPSendCheck now mem uxDataLength s of
        None \<Rightarrow> None
      | Some (r, s1) \<Rightarrow>
          if 0 < r
          then (case prvTCPSendLoop during from_ip pvBuffer uxDataLength xFlags waits s1 of
                  None \<Rightarrow> None
                | Some (n, notes, s2) \<Rightarrow> Some (if n = 0 then if eESTABLISHED < eTCPState s2 then -128 else -28 else n, notes, s2))
          else Some (r, [], s1))"


subsection \<open>New stream buffers\<close>

text \<open>A new stream holds at least the configured number of bytes.\<close>

lemma round_up_unat:
  assumes "unat (n :: u32) < 2 ^ 31 - 4"
  shows "unat ((n + 4) AND NOT (4 - 1)) = (unat n + 4) div 4 * 4"
proof -
  have "unat (n + 4) = unat n + 4" using assms by (subst unat_add_lem[THEN iffD1]) simp_all
  then show ?thesis using unat_and_not_mask[of 2 "n + 4"] by (simp add: mask_numeral)
qed

lemma new_stream_facts:
  assumes "unat n < 2 ^ 30"
  shows "stream_ok (new_stream f n)" "stream_size (new_stream f n) = 0" "unat n \<le> stream_room (new_stream f n)"
    "stream_bytes (new_stream f n) = []" "ring_len (new_stream f n) < 2 ^ 31"
proof -
  define l where "l = (unat n + 4) div 4 * 4"
  have "unat ((n + 4) AND NOT (4 - 1)) = l" unfolding l_def using assms by (intro round_up_unat) simp
  then have r: "ring_len (new_stream f n) = l" by (simp add: new_stream_def Let_def)
  have l: "unat n < l" unfolding l_def by presburger
  have l2: "l < 2 ^ 31" unfolding l_def using assms div_times_less_eq_dividend[of "unat n + 4" 4] by simp
  have z: "stream_size (new_stream f n) = 0" unfolding stream_size_def fwd_def by (simp add: new_stream_def Let_def)
  have "0 < uxLENGTH (new_stream f n)" using r l by (simp add: word_less_nat_alt)
  then show "stream_ok (new_stream f n)" using r l l2 by (simp add: stream_ok_def fwd_def) (simp add: new_stream_def Let_def)
  show "stream_size (new_stream f n) = 0" by (rule z)
  show "unat n \<le> stream_room (new_stream f n)" using r l z by (simp add: stream_room_def)
  show "ring_len (new_stream f n) < 2 ^ 31" using r l2 by simp
  show "stream_bytes (new_stream f n) = []" using z by (simp add: stream_bytes_def)
qed

end
