(* ===== verification/Tcp_Receive.thy ===== *)
theory Tcp_Receive
  imports Tcp_Socket
begin

section \<open>Receiving over TCP\<close>

text \<open>
  The receive side of the sliding window (\<^verbatim>\<open>FreeRTOS_TCP_WIN.c\<close>) and \<open>prvStoreRxData\<close> of \<^verbatim>\<open>FreeRTOS_TCP_Reception.c\<close>, which puts the payload of a packet into
  the receive stream: directly when it is the next expected one, ahead of the head of the stream when an earlier packet is
  missing. The main result: whatever packets of the peer's stream arrive, in whatever order, repeated, overlapping or lost, the
  application reads a prefix of that stream.
\<close>

subsection \<open>The window\<close>

definition xTCPWindowRxFind :: "u32 \<Rightarrow> TCPWindow_t \<Rightarrow> nat option" where
  "xTCPWindowRxFind sq w = find (\<lambda>i. ulSequenceNumber (seg w i) = sq) (xRxSegments w)"

definition better_segment :: "TCPWindow_t \<Rightarrow> u32 \<Rightarrow> u32 \<Rightarrow> nat option \<Rightarrow> nat \<Rightarrow> nat option" where
  "better_segment w sq ulNext pxBest i =
     (if xSequenceGreaterThanOrEqual (ulSequenceNumber (seg w i)) sq \<and> xSequenceLessThan (ulSequenceNumber (seg w i)) ulNext
      then case pxBest of
             None \<Rightarrow> Some i
           | Some j \<Rightarrow> if xSequenceLessThan (ulSequenceNumber (seg w i)) (ulSequenceNumber (seg w j)) then Some i else pxBest
      else pxBest)"

definition xTCPWindowRxConfirm :: "u32 \<Rightarrow> u32 \<Rightarrow> TCPWindow_t \<Rightarrow> nat option" where
  "xTCPWindowRxConfirm sq ulLength w = foldl (better_segment w sq (sq + ulLength)) None (xRxSegments w)"

lemma find_mem: "xTCPWindowRxFind sq w = Some i \<Longrightarrow> i \<in> set (xRxSegments w) \<and> ulSequenceNumber (seg w i) = sq"
  by (auto simp: xTCPWindowRxFind_def find_Some_iff)

lemma foldl_better: "foldl (better_segment w sq nx) b l = Some i \<Longrightarrow> b = Some i \<or> i \<in> set l"
proof (induction l arbitrary: b)
  case (Cons a l)
  then show ?case by (auto simp: better_segment_def split: if_splits option.splits)
qed simp

lemma confirm_mem: "xTCPWindowRxConfirm sq n w = Some i \<Longrightarrow> i \<in> set (xRxSegments w)"
  using foldl_better[of w sq "sq + n" None "xRxSegments w" i] by (simp add: xTCPWindowRxConfirm_def)

lemma free_shorter: "i \<in> set (xRxSegments w) \<Longrightarrow> length (xRxSegments (vTCPWindowFree i w)) < length (xRxSegments w)"
  by (simp add: length_remove1 card_gt_0_iff) (metis One_nat_def Suc_pred length_pos_if_in_set lessI)

text \<open>The two loops of \<open>prvTCPWindowRx_ExpectedRX\<close>: descriptors of data that the new packet repeats are freed; then stored packets that follow are taken.\<close>

function confirm_loop :: "u32 \<Rightarrow> u32 \<Rightarrow> TCPWindow_t \<Rightarrow> TCPWindow_t" where
  "confirm_loop sq ulLength w =
     (case xTCPWindowRxConfirm sq ulLength w of None \<Rightarrow> w | Some i \<Rightarrow> confirm_loop sq ulLength (vTCPWindowFree i w))"
  by auto

termination by (relation "measure (\<lambda>(_, _, w). length (xRxSegments w))") (auto dest!: confirm_mem free_shorter)

function follow_loop :: "u32 \<Rightarrow> TCPWindow_t \<Rightarrow> u32 \<times> TCPWindow_t" where
  "follow_loop cur w =
     (case xTCPWindowRxFind cur w of
        None \<Rightarrow> (cur, w)
      | Some i \<Rightarrow> follow_loop (cur + word_of_int (lDataLength (seg w i))) (vTCPWindowFree i w))"
  by auto

termination by (relation "measure (\<lambda>(_, w). length (xRxSegments w))") (auto dest!: find_mem free_shorter)

declare confirm_loop.simps [simp del] follow_loop.simps [simp del]

definition set_rx_current :: "u32 \<Rightarrow> TCPWindow_t \<Rightarrow> TCPWindow_t" where
  "set_rx_current sq w = w\<lparr>rx := (rx w)\<lparr>ulCurrentSequenceNumber := sq\<rparr>\<rparr>"

definition prvTCPWindowRx_ExpectedRX :: "u32 \<Rightarrow> TCPWindow_t \<Rightarrow> TCPWindow_t" where
  "prvTCPWindowRx_ExpectedRX ulLength w =
     (let sq = ulCurrentSequenceNumber (rx w); saved = sq + ulLength
      in if xRxSegments w \<noteq> []
         then let (cur, w1) = follow_loop saved (confirm_loop sq ulLength w);
                  w2 = (if saved \<noteq> cur then w1\<lparr>ulUserDataLength := cur - saved\<rparr> else w1)
              in set_rx_current cur w2
         else set_rx_current saved w)"

text \<open>The end of the block of data that is stored contiguously behind a packet.\<close>

partial_function (option) sack_end :: "TCPWindow_t \<Rightarrow> u32 \<Rightarrow> u32 option" where
  "sack_end w ulLast =
     (case xTCPWindowRxFind ulLast w of
        None \<Rightarrow> Some ulLast
      | Some i \<Rightarrow> sack_end w (ulLast + word_of_int (lDataLength (seg w i))))"

definition FreeRTOS_htonl :: "u32 \<Rightarrow> u32" where
  "FreeRTOS_htonl x = push_bit 24 x OR push_bit 8 (x AND 0xff00) OR drop_bit 8 (x AND 0xff0000) OR drop_bit 24 x"

definition OPTION_CODE_SINGLE_SACK :: u32 where "OPTION_CODE_SINGLE_SACK = 0x0a050101"

definition prvTCPWindowRx_UnexpectedRX :: "u32 \<Rightarrow> u32 \<Rightarrow> u32 \<Rightarrow> TCPWindow_t \<Rightarrow> (int \<times> TCPWindow_t) option" where
  "prvTCPWindowRx_UnexpectedRX now sq ulLength w =
     (case sack_end w (sq + ulLength) of
        None \<Rightarrow> None
      | Some ulLast \<Rightarrow>
          let w1 = w\<lparr>ulOptionsData := (ulOptionsData w)[0 := OPTION_CODE_SINGLE_SACK, 1 := FreeRTOS_htonl sq, 2 := FreeRTOS_htonl ulLast],
                     ucOptionLength := 12\<rparr>
          in Some (if xTCPWindowRxFind sq w1 \<noteq> None then (-1, w1)
                   else case xTCPWindowNew now sq (sint ulLength) True w1 of
                          (None, w2) \<Rightarrow> (-1, w2\<lparr>ucOptionLength := 0\<rparr>)
                        | (Some _, w2) \<Rightarrow> (sint (sq - ulCurrentSequenceNumber (rx w)), w2)))"

text \<open>The result is the offset of the data, or negative to ignore the packet, and the number of bytes to skip.\<close>

definition lTCPWindowRxCheck :: "u32 \<Rightarrow> u32 \<Rightarrow> u32 \<Rightarrow> u32 \<Rightarrow> TCPWindow_t \<Rightarrow> (int \<times> u32 \<times> TCPWindow_t) option" where
  "lTCPWindowRxCheck now sq ulLength ulSpace w =
     (let cur = ulCurrentSequenceNumber (rx w);
          lLastDistance = sint (sq + ulLength - cur);
          lStartDistance = sint (sq - cur);
          overlap = lStartDistance < 0 \<and> 0 < lLastDistance;
          rxSeq = (if overlap then sq + word_of_int (- lStartDistance) else sq);
          rxLength = (if overlap then ulLength + word_of_int lStartDistance else ulLength);
          skip = (if overlap then word_of_int (- lStartDistance) else 0);
          w1 = w\<lparr>ucOptionLength := 0, ulUserDataLength := 0\<rparr>
      in if cur = rxSeq
         then if ulSpace < rxLength then Some (-1, skip, w1)
              else Some (0, skip, prvTCPWindowRx_ExpectedRX rxLength w1)
         else if cur = rxSeq + 1 then Some (-1, skip, w1)
         else if lLastDistance \<le> 0 then Some (-1, skip, w1)
         else if sint ulSpace < lLastDistance then Some (-1, skip, w1)
         else (case prvTCPWindowRx_UnexpectedRX now rxSeq rxLength w1 of
                 None \<Rightarrow> None
               | Some (off, w2) \<Rightarrow> Some (off, skip, w2)))"

definition xTCPWindowRxEmpty :: "TCPWindow_t \<Rightarrow> bool" where
  "xTCPWindowRxEmpty w \<longleftrightarrow> xRxSegments w = [] \<and>
     xSequenceGreaterThanOrEqual (ulCurrentSequenceNumber (rx w) + 1) (ulHighestSequenceNumber (rx w))"


subsection \<open>Storing a packet\<close>

definition rx_space :: "tcp_socket \<Rightarrow> u32" where
  "rx_space s = (case rxStream s of Some b \<Rightarrow> uxStreamBufferGetSpace b | None \<Rightarrow> uxRxStreamSize s)"

text \<open>After a missing packet has come in, the bytes stored ahead become available.\<close>

definition release_stored :: "u32 \<Rightarrow> (nat \<Rightarrow> u8) option \<Rightarrow> tcp_socket \<Rightarrow> tcp_socket option" where
  "release_stored now mem s =
     (if 0 < ulUserDataLength (xTCPWindow s)
      then (case lTCPAddRxdata now mem 0 None (ulUserDataLength (xTCPWindow s)) s of
              None \<Rightarrow> None
            | Some (_, s1) \<Rightarrow> Some (s1\<lparr>xTCPWindow := (xTCPWindow s1)\<lparr>ulUserDataLength := 0\<rparr>\<rparr>))
      else Some s)"

text \<open>What is done after the check of the packet.\<close>

definition store_checked :: "u32 \<Rightarrow> (nat \<Rightarrow> u8) option \<Rightarrow> u8 list \<Rightarrow> int \<Rightarrow> u32 \<Rightarrow> tcp_socket \<Rightarrow> (int \<times> tcp_socket) option" where
  "store_checked now mem pucRecvData lOffset ulSkipCount s =
     (if 0 \<le> lOffset
      then let data = drop (unat ulSkipCount) pucRecvData; n = of_nat (length pucRecvData) - ulSkipCount
           in (case lTCPAddRxdata now mem (word_of_int lOffset) (Some data) n s of
                 None \<Rightarrow> None
               | Some (lStored, s2) \<Rightarrow>
                   if lStored \<noteq> sint n then Some (-1, act Send_Reset s2)
                   else map_option (\<lambda>s3. (0, s3)) (release_stored now mem s2))
      else map_option (\<lambda>s3. (0, s3)) (release_stored now mem s))"

definition prvStoreRxData :: "u32 \<Rightarrow> (nat \<Rightarrow> u8) option \<Rightarrow> u32 \<Rightarrow> u8 list \<Rightarrow> tcp_socket \<Rightarrow> (int \<times> tcp_socket) option" where
  "prvStoreRxData now mem sq pucRecvData s =
     (let ulRxLength = of_nat (length pucRecvData)
      in if 0 < ulRxLength \<and> eSYN_RECEIVED \<le> eTCPState s
         then (case lTCPWindowRxCheck now sq ulRxLength (rx_space s) (xTCPWindow s) of
                 None \<Rightarrow> None
               | Some (lOffset, ulSkipCount, w) \<Rightarrow> store_checked now mem pucRecvData lOffset ulSkipCount (s\<lparr>xTCPWindow := w\<rparr>))
         else Some (0, s\<lparr>xTCPWindow := (xTCPWindow s)\<lparr>ucOptionLength := 0\<rparr>\<rparr>))"


subsection \<open>What the loops leave\<close>

definition shrunk :: "TCPWindow_t \<Rightarrow> TCPWindow_t \<Rightarrow> bool" where
  "shrunk w w' \<longleftrightarrow> segments_ok w' \<and> same_tx w w' \<and> rx w' = rx w \<and> ulUserDataLength w' = ulUserDataLength w \<and>
     set (xRxSegments w') \<subseteq> set (xRxSegments w) \<and> (\<forall>i\<in>set (xRxSegments w'). seg w' i = seg w i) \<and>
     set (xSegmentList w) \<subseteq> set (xSegmentList w')"

lemma shrunk_refl: "segments_ok w \<Longrightarrow> shrunk w w"
  by (simp add: shrunk_def)

lemma shrunk_trans: "shrunk w w1 \<Longrightarrow> shrunk w1 w2 \<Longrightarrow> shrunk w w2"
  by (auto simp: shrunk_def intro: same_tx_trans)

lemma free_rx_shrunk:
  assumes "segments_ok w" "i \<in> set (xRxSegments w)"
  shows "shrunk w (vTCPWindowFree i w)"
proof -
  have t: "i \<notin> set (xTxSegments w)" using segments_okD(5)[OF assms(1)] assms(2) by auto
  then have q: "i \<notin> set (xPriorityQueue w)" "i \<notin> set (xTxQueue w)" "i \<notin> set (xWaitQueue w)"
    using assms(1) by (auto simp: segments_ok_def)
  have "seg (vTCPWindowFree i w) j = seg w j" if "j \<in> set (xTxSegments w)" for j using t that by (intro free_fields(10)) auto
  then have "same_tx w (vTCPWindowFree i w)" using t q by (simp add: same_tx_def remove1_idem)
  then show ?thesis using free_segments_ok[OF assms(1)] assms(2) segments_okD(3)[OF assms(1)] by (auto simp: shrunk_def)
qed

lemma confirm_loop_shrunk: "segments_ok w \<Longrightarrow> shrunk w (confirm_loop sq n w)"
proof (induction sq n w rule: confirm_loop.induct)
  case (1 sq n w)
  show ?case
  proof (cases "xTCPWindowRxConfirm sq n w")
    case None
    then show ?thesis using shrunk_refl[OF "1.prems"] by (simp add: confirm_loop.simps)
  next
    case (Some i)
    note f = free_rx_shrunk[OF "1.prems" confirm_mem[OF Some]]
    then have "shrunk (vTCPWindowFree i w) (confirm_loop sq n (vTCPWindowFree i w))" using "1.IH"[OF Some] by (simp add: shrunk_def)
    then show ?thesis using shrunk_trans[OF f] Some by (simp add: confirm_loop.simps[of sq n w])
  qed
qed

text \<open>A stored packet covers positions of the stream; \<open>G\<close> is the set of positions whose bytes are in place.\<close>

definition covers :: "u32 \<Rightarrow> TCPSegment_t \<Rightarrow> nat \<Rightarrow> nat \<Rightarrow> bool" where
  "covers isn g p n \<longleftrightarrow> 0 < n \<and> p + n < 2 ^ 31 \<and> ulSequenceNumber g = seqno isn p \<and> lDataLength g = int n"

definition stored_in :: "u32 \<Rightarrow> TCPWindow_t \<Rightarrow> nat set \<Rightarrow> bool" where
  "stored_in isn w G \<longleftrightarrow> (\<forall>i\<in>set (xRxSegments w). \<exists>p n. covers isn (seg w i) p n \<and> {p..<p + n} \<subseteq> G)"

lemma stored_in_mono: "stored_in isn w G \<Longrightarrow> G \<subseteq> G' \<Longrightarrow> stored_in isn w G'"
  unfolding stored_in_def by (meson subset_trans)

lemma stored_in_shrunk: "stored_in isn w G \<Longrightarrow> shrunk w w' \<Longrightarrow> stored_in isn w' G"
  by (auto simp: stored_in_def shrunk_def)

lemma stored_in_find:
  assumes "stored_in isn w G" "xTCPWindowRxFind (seqno isn p) w = Some i" "p < 2 ^ 31"
  obtains n where "covers isn (seg w i) p n" "{p..<p + n} \<subseteq> G"
proof -
  obtain q n where q: "covers isn (seg w i) q n" "{q..<q + n} \<subseteq> G"
    using assms(1) find_mem[OF assms(2)] by (auto simp: stored_in_def)
  then have "seqno isn q = seqno isn p" using find_mem[OF assms(2)] by (simp add: covers_def)
  moreover have "near q p" using q(1) assms(3) by (intro nearI) (simp_all add: covers_def)
  ultimately have "q = p" using seqno_inject[of q p isn] by simp
  then show thesis using that q by simp
qed

lemma follow_loop_spec:
  assumes "segments_ok w" "stored_in isn w G" "p < 2 ^ 31"
  obtains q w' where "follow_loop (seqno isn p) w = (seqno isn q, w')" "p \<le> q" "{p..<q} \<subseteq> G" "q < 2 ^ 31" "shrunk w w'"
  using assms
proof (induction "seqno isn p" w arbitrary: p thesis rule: follow_loop.induct)
  case (1 w p)
  show ?case
  proof (cases "xTCPWindowRxFind (seqno isn p) w")
    case None
    then show ?thesis using "1.prems"(1)[of p w] shrunk_refl[OF "1.prems"(2)] "1.prems"(4) by (simp add: follow_loop.simps)
  next
    case (Some i)
    obtain n where n: "covers isn (seg w i) p n" "{p..<p + n} \<subseteq> G" using stored_in_find[OF "1.prems"(3) Some "1.prems"(4)] by blast
    note f = free_rx_shrunk[OF "1.prems"(2) conjunct1[OF find_mem[OF Some]]]
    have e: "seqno isn p + word_of_int (lDataLength (seg w i)) = seqno isn (p + n)"
      using n(1) seqno_add[of isn p n] by (simp add: covers_def)
    have "segments_ok (vTCPWindowFree i w)" using f by (simp add: shrunk_def)
    moreover have "p + n < 2 ^ 31" using n(1) by (simp add: covers_def)
    ultimately obtain q w' where q: "follow_loop (seqno isn (p + n)) (vTCPWindowFree i w) = (seqno isn q, w')" "p + n \<le> q"
      "{p + n..<q} \<subseteq> G" "q < 2 ^ 31" "shrunk (vTCPWindowFree i w) w'"
      using "1.hyps"[OF Some e _ _ stored_in_shrunk[OF "1.prems"(3) f]] by metis
    moreover have "{p..<q} \<subseteq> G" using n(2) q(2,3) by (metis Un_subset_iff atLeastLessThan_iff ivl_disj_un_two(3) le_add1)
    ultimately show ?thesis using "1.prems"(1)[of q w'] e Some shrunk_trans[OF f] by (simp add: follow_loop.simps[of "seqno isn p"])
  qed
qed

text \<open>The search for the end of a block ends, since every step moves right.\<close>

lemma sack_end_spec:
  assumes "stored_in isn w G" "p < 2 ^ 31"
  shows "\<exists>q. sack_end w (seqno isn p) = Some (seqno isn q) \<and> p \<le> q \<and> {p..<q} \<subseteq> G"
  using assms(2)
proof (induction "2 ^ 31 - p" arbitrary: p rule: less_induct)
  case less
  show ?case
  proof (cases "xTCPWindowRxFind (seqno isn p) w")
    case None
    then show ?thesis by (subst sack_end.simps) auto
  next
    case (Some i)
    obtain n where n: "covers isn (seg w i) p n" "{p..<p + n} \<subseteq> G" using stored_in_find[OF assms(1) Some less.prems] by blast
    then have l: "0 < n" "p + n < 2 ^ 31" and e: "seqno isn p + word_of_int (lDataLength (seg w i)) = seqno isn (p + n)"
      using seqno_add[of isn p n] by (simp_all add: covers_def)
    then have "2 ^ 31 - (p + n) < 2 ^ 31 - p" using less.prems by linarith
    then obtain q where q: "sack_end w (seqno isn (p + n)) = Some (seqno isn q)" "p + n \<le> q" "{p + n..<q} \<subseteq> G"
      using less.hyps[of "p + n"] l(2) by blast
    have "{p..<q} = {p..<p + n} \<union> {p + n..<q}" using q(2) by auto
    then show ?thesis using q n(2) Some e by (subst sack_end.simps) (auto intro!: exI[of _ q])
  qed
qed


subsection \<open>The verdict on a packet\<close>

lemma set_rx_current_fields [simp]:
  "ulCurrentSequenceNumber (rx (set_rx_current sq w)) = sq" "ulUserDataLength (set_rx_current sq w) = ulUserDataLength w"
  "xRxSegments (set_rx_current sq w) = xRxSegments w"
  by (simp_all add: set_rx_current_def)

lemma segments_ok_frame [simp]:
  "segments_ok (set_rx_current sq w) = segments_ok w" "segments_ok (w\<lparr>ulUserDataLength := u\<rparr>) = segments_ok w"
  "segments_ok (w\<lparr>ucOptionLength := l\<rparr>) = segments_ok w" "segments_ok (w\<lparr>ulOptionsData := d\<rparr>) = segments_ok w"
  by (simp_all add: segments_ok_def set_rx_current_def)

lemma same_tx_frame [simp]:
  "same_tx w (set_rx_current sq w') = same_tx w w'" "same_tx w (w'\<lparr>ulUserDataLength := u\<rparr>) = same_tx w w'"
  "same_tx w (w'\<lparr>ucOptionLength := l\<rparr>) = same_tx w w'" "same_tx w (w'\<lparr>ulOptionsData := d\<rparr>) = same_tx w w'"
  "same_tx (w\<lparr>ulUserDataLength := u\<rparr>) w' = same_tx w w'" "same_tx (w\<lparr>ucOptionLength := l\<rparr>) w' = same_tx w w'"
  "same_tx (w\<lparr>ulOptionsData := d\<rparr>) w' = same_tx w w'"
  by (simp_all add: same_tx_def set_rx_current_def)

lemma stored_in_frame [simp]:
  "stored_in isn (set_rx_current sq w) = stored_in isn w" "stored_in isn (w\<lparr>ulUserDataLength := u\<rparr>) = stored_in isn w"
  "stored_in isn (w\<lparr>ucOptionLength := l\<rparr>) = stored_in isn w" "stored_in isn (w\<lparr>ulOptionsData := d\<rparr>) = stored_in isn w"
  by (simp_all add: stored_in_def set_rx_current_def fun_eq_iff)

lemma find_frame [simp]:
  "xTCPWindowRxFind sq (w\<lparr>ulOptionsData := d\<rparr>) = xTCPWindowRxFind sq w" "xTCPWindowRxFind sq (w\<lparr>ucOptionLength := l\<rparr>) = xTCPWindowRxFind sq w"
  "xTCPWindowRxFind sq (w\<lparr>ulUserDataLength := u\<rparr>) = xTCPWindowRxFind sq w"
  by (simp_all add: xTCPWindowRxFind_def)

lemma expected_spec:
  assumes "segments_ok w" "stored_in isn w G" "ulCurrentSequenceNumber (rx w) = seqno isn c" "c + n < 2 ^ 31" "ulUserDataLength w = 0"
  obtains q w' where "prvTCPWindowRx_ExpectedRX (of_nat n) w = w'" "ulCurrentSequenceNumber (rx w') = seqno isn q" "c + n \<le> q" "q < 2 ^ 31"
    "{c + n..<q} \<subseteq> G" "ulUserDataLength w' = of_nat (q - (c + n))" "segments_ok w'" "same_tx w w'" "stored_in isn w' G"
proof (cases "xRxSegments w = []")
  case True
  then show thesis using that[of "set_rx_current (seqno isn (c + n)) w" "c + n"] assms seqno_add[of isn c n]
    by (simp add: prvTCPWindowRx_ExpectedRX_def)
next
  case False
  define w1 where "w1 = confirm_loop (seqno isn c) (of_nat n) w"
  have c: "shrunk w w1" unfolding w1_def by (rule confirm_loop_shrunk[OF assms(1)])
  then obtain q w2 where q: "follow_loop (seqno isn (c + n)) w1 = (seqno isn q, w2)" "c + n \<le> q" "{c + n..<q} \<subseteq> G" "q < 2 ^ 31" "shrunk w1 w2"
    using follow_loop_spec[OF _ stored_in_shrunk[OF assms(2) c] assms(4)] by (auto simp: shrunk_def)
  define w3 where "w3 = (if seqno isn (c + n) \<noteq> seqno isn q then w2\<lparr>ulUserDataLength := seqno isn q - seqno isn (c + n)\<rparr> else w2)"
  have x: "prvTCPWindowRx_ExpectedRX (of_nat n) w = set_rx_current (seqno isn q) w3"
    using False assms(3) q(1) by (simp add: prvTCPWindowRx_ExpectedRX_def Let_def seqno_add w1_def w3_def)
  have s: "shrunk w w2" by (rule shrunk_trans[OF c q(5)])
  have "seqno isn q = seqno isn (c + n) + of_nat (q - (c + n))" using seqno_add[of isn "c + n" "q - (c + n)"] q(2) by simp
  then have "seqno isn q - seqno isn (c + n) = of_nat (q - (c + n))" by (simp only: add_diff_cancel_left')
  moreover have "seqno isn (c + n) = seqno isn q \<longleftrightarrow> c + n = q" using seqno_inject[OF nearI[OF assms(4) q(4)]] by simp
  ultimately have "ulUserDataLength w3 = of_nat (q - (c + n))" using s assms(5) by (auto simp: w3_def shrunk_def)
  moreover have "segments_ok w3" "same_tx w w3" "stored_in isn w3 G" using s stored_in_shrunk[OF assms(2) s] by (simp_all add: w3_def shrunk_def)
  ultimately show thesis using that[OF x _ q(2,4,3)] by simp
qed

text \<open>
  What the verdict on the packet with the bytes \<open>p..p+n\<close> of the stream means when \<open>c\<close> bytes have been accepted: offset zero, the packet
  continues the accepted bytes, and stored data may follow it; a positive offset, the packet lies ahead and is stored; negative, it is ignored.
\<close>

datatype verdict = Next nat | Ahead | Ignored

definition verdict_ok :: "u32 \<Rightarrow> nat \<Rightarrow> nat \<Rightarrow> nat \<Rightarrow> nat \<Rightarrow> nat set \<Rightarrow> TCPWindow_t \<Rightarrow> int \<Rightarrow> u32 \<Rightarrow> TCPWindow_t \<Rightarrow> verdict \<Rightarrow> bool" where
  "verdict_ok isn c p n space G w off skip w' v \<longleftrightarrow> segments_ok w' \<and> same_tx w w' \<and>
     (case v of
        Next q \<Rightarrow> off = 0 \<and> p \<le> c \<and> c < p + n \<and> skip = of_nat (c - p) \<and> p + n \<le> c + space \<and>
          ulCurrentSequenceNumber (rx w') = seqno isn q \<and> p + n \<le> q \<and> q < 2 ^ 31 \<and> {p + n..<q} \<subseteq> G \<and>
          ulUserDataLength w' = of_nat (q - (p + n)) \<and> stored_in isn w' G
      | Ahead \<Rightarrow> c < p \<and> off = int (p - c) \<and> skip = 0 \<and> p + n \<le> c + space \<and> rx w' = rx w \<and> ulUserDataLength w' = 0 \<and>
          stored_in isn w' (G \<union> {p..<p + n})
      | Ignored \<Rightarrow> off < 0 \<and> rx w' = rx w \<and> ulUserDataLength w' = 0 \<and> stored_in isn w' G \<and> xRxSegments w' = xRxSegments w \<and>
          \<not> (p \<le> c \<and> c < p + n \<and> p + n \<le> c + space))"

lemma unexpected_spec:
  assumes "segments_ok w" "stored_in isn w G" "ulCurrentSequenceNumber (rx w) = seqno isn c" "c < p" "0 < n" "p + n < 2 ^ 31" "ulUserDataLength w = 0"
    and "p + n \<le> c + space"
  shows "\<exists>off w' v. prvTCPWindowRx_UnexpectedRX now (seqno isn p) (of_nat n) w = Some (off, w') \<and> verdict_ok isn c p n space G w off 0 w' v"
proof -
  obtain q where q: "sack_end w (seqno isn p + of_nat n) = Some (seqno isn q)"
    using sack_end_spec[OF assms(2,6)] by (auto simp: seqno_add)
  define w1 where "w1 = w\<lparr>ulOptionsData := (ulOptionsData w)[0 := OPTION_CODE_SINGLE_SACK, 1 := FreeRTOS_htonl (seqno isn p), 2 := FreeRTOS_htonl (seqno isn q)],
                     ucOptionLength := 12\<rparr>"
  have ok1: "segments_ok w1" "stored_in isn w1 G" "same_tx w w1" "rx w1 = rx w" "ulUserDataLength w1 = 0" "xRxSegments w1 = xRxSegments w" using assms by (simp_all add: w1_def)
  have ignored: "verdict_ok isn c p n space G w (-1) 0 w2 Ignored" if "w2 = w1 \<or> w2 = w1\<lparr>ucOptionLength := 0\<rparr>" for w2
    using that ok1 assms(4) by (auto simp: verdict_ok_def)
  show ?thesis
  proof (cases "xTCPWindowRxFind (seqno isn p) w = None")
    case False
    then show ?thesis using ignored[of w1] q by (auto simp: prvTCPWindowRx_UnexpectedRX_def w1_def)
  next
    case True
    obtain r w2 where new: "xTCPWindowNew now (seqno isn p) (sint (of_nat n :: u32)) True w1 = (r, w2)" by fastforce
    have x: "prvTCPWindowRx_UnexpectedRX now (seqno isn p) (of_nat n) w =
      Some (case r of None \<Rightarrow> (-1, w2\<lparr>ucOptionLength := 0\<rparr>) | Some _ \<Rightarrow> (sint (seqno isn p - seqno isn c), w2))"
      using True q new[unfolded w1_def] assms(3) by (simp add: prvTCPWindowRx_UnexpectedRX_def Let_def split: option.splits)
    show ?thesis
    proof (cases r)
      case None
      then have "w2 = w1" using new_none[of now "seqno isn p" _ True w1 w2] new by simp
      then show ?thesis using x None ignored[of "w2\<lparr>ucOptionLength := 0\<rparr>"] by auto
    next
      case (Some i)
      note new = new[unfolded Some]
      note f = new_fields[OF new] new_segments_ok[OF ok1(1) new]
      have "near p c" using assms(4,6) by (intro nearI) simp_all
      then have off: "sint (seqno isn p - seqno isn c) = int (p - c)" using sint_seqno[of p c isn] assms(4) by (simp add: of_nat_diff)
      have len: "sint (of_nat n :: u32) = int n" using sint_seqno[of n 0 0] assms(6) by (simp add: seqno_def near_def)
      have g: "covers isn (seg w2 i) p n" using new_segment[OF new f(20)] assms(5,6) len by (simp add: covers_def)
      have other: "seg w2 j = seg w1 j" if "j \<in> owned w" for j
        using that f(19) by (intro new_fields(10)[OF new]) (auto simp: w1_def)
      have "same_tx w w2" using f(3,5-13) other by (simp add: same_tx_def w1_def)
      moreover have "stored_in isn w2 (G \<union> {p..<p + n})"
        unfolding stored_in_def f(2) using g other ok1(2) by (auto simp: stored_in_def w1_def) (meson le_supI1)
      ultimately have "verdict_ok isn c p n space G w (int (p - c)) 0 w2 Ahead"
        using f(8,14,17) ok1(4,5) assms(4,8) by (simp add: verdict_ok_def)
      then show ?thesis using x Some off by auto
    qed
  qed
qed

text \<open>The verdict on every packet of a stream of less than \<open>2^31\<close> bytes.\<close>

lemma rx_check_spec:
  assumes "segments_ok w" "stored_in isn w G" "ulCurrentSequenceNumber (rx w) = seqno isn c" "c < 2 ^ 31 - 1" "0 < n" "p + n < 2 ^ 31"
    and "unat space < 2 ^ 31"
  obtains off skip w' v where "lTCPWindowRxCheck now (seqno isn p) (of_nat n) space w = Some (off, skip, w')"
    "verdict_ok isn c p n (unat space) G w off skip w' v"
proof -
  define w1 where "w1 = w\<lparr>ucOptionLength := 0, ulUserDataLength := 0\<rparr>"
  have ok1: "segments_ok w1" "stored_in isn w1 G" "ulCurrentSequenceNumber (rx w1) = seqno isn c" "ulUserDataLength w1 = 0"
    "same_tx w w1" "rx w1 = rx w" "xRxSegments w1 = xRxSegments w" using assms by (simp_all add: w1_def)
  have near: "near p c" "near (p + n) c" "near c (p + 1)" using assms(4-6) by (auto intro!: nearI)
  have last: "sint (seqno isn p + of_nat n - seqno isn c) = int (p + n) - int c" using sint_seqno[OF near(2)] by (simp add: seqno_add)
  have start: "sint (seqno isn p - seqno isn c) = int p - int c" by (rule sint_seqno[OF near(1)])
  have space: "sint space = int (unat space)" using sint_seqno[of "unat space" 0 0] assms(7) by (simp add: seqno_def near_def unat_below)
  note check = lTCPWindowRxCheck_def[of now "seqno isn p" "of_nat n" space w, unfolded assms(3) Let_def last start w1_def[symmetric]]
  have ignored: "verdict_ok isn c p n (unat space) G w (-1) skip w1 Ignored"
    if "\<not> (p \<le> c \<and> c < p + n \<and> p + n \<le> c + unat space)" for skip
    using that ok1 by (simp add: verdict_ok_def)
  have nxt: "\<exists>off w' v. (if space < of_nat (p + n - c) then Some (-1, of_nat (c - p), w1)
      else Some (0, of_nat (c - p), prvTCPWindowRx_ExpectedRX (of_nat (p + n - c)) w1)) = Some (off, of_nat (c - p), w') \<and>
      verdict_ok isn c p n (unat space) G w off (of_nat (c - p)) w' v" if pc: "p \<le> c" "c < p + n"
  proof (cases "space < of_nat (p + n - c)")
    case True
    then have "unat space < p + n - c" using unat_small[of "p + n - c"] assms(6) by (simp add: word_less_nat_alt)
    then have "verdict_ok isn c p n (unat space) G w (-1) (of_nat (c - p)) w1 Ignored" by (intro ignored) linarith
    then show ?thesis using True by auto
  next
    case False
    then have le: "p + n - c \<le> unat space" using unat_small[of "p + n - c"] assms(6) by (simp add: word_less_nat_alt)
    have sum: "c + (p + n - c) = p + n" using pc by simp
    obtain q w' where q: "prvTCPWindowRx_ExpectedRX (of_nat (p + n - c)) w1 = w'" "ulCurrentSequenceNumber (rx w') = seqno isn q" "p + n \<le> q"
      "q < 2 ^ 31" "{p + n..<q} \<subseteq> G" "ulUserDataLength w' = of_nat (q - (p + n))" "segments_ok w'" "same_tx w1 w'" "stored_in isn w' G"
      using expected_spec[OF ok1(1-3), of "p + n - c"] ok1(4) assms(6) unfolding sum by metis
    then have "verdict_ok isn c p n (unat space) G w 0 (of_nat (c - p)) w' (Next q)"
      using pc le same_tx_trans[OF ok1(5)] by (simp add: verdict_ok_def)
    then show ?thesis using False q(1) by auto
  qed
  have eq: "seqno isn c = seqno isn p \<longleftrightarrow> c = p" "seqno isn c = seqno isn p + 1 \<longleftrightarrow> c = p + 1"
    using seqno_inject[OF near(1), of isn] seqno_inject[OF near(3), of isn] seqno_add[of isn p 1] by auto
  consider (overlap) "p < c" "c < p + n" | (same) "p = c" | (before) "p + n \<le> c" "p < c" | (ahead) "c < p" by linarith
  then show thesis
  proof cases
    case overlap
    have w: "seqno isn p + word_of_int (- (int p - int c)) = seqno isn c" "of_nat n + word_of_int (int p - int c) = (of_nat (p + n - c) :: u32)"
      "word_of_int (- (int p - int c)) = (of_nat (c - p) :: u32)"
      using overlap by (simp_all add: seqno_def of_nat_diff)
    have cond: "int p - int c < 0 \<and> 0 < int (p + n) - int c" using overlap by simp
    have "lTCPWindowRxCheck now (seqno isn p) (of_nat n) space w = (if space < of_nat (p + n - c) then Some (-1, of_nat (c - p), w1)
      else Some (0, of_nat (c - p), prvTCPWindowRx_ExpectedRX (of_nat (p + n - c)) w1))"
      unfolding check if_P[OF cond] unfolding w(1) unfolding w(2,3) by (simp only: refl if_True)
    then show thesis using nxt[OF less_imp_le[OF overlap(1)] overlap(2)] that by metis
  next
    case same
    have "lTCPWindowRxCheck now (seqno isn p) (of_nat n) space w = (if space < of_nat (p + n - c) then Some (-1, of_nat (c - p), w1)
      else Some (0, of_nat (c - p), prvTCPWindowRx_ExpectedRX (of_nat (p + n - c)) w1))"
      unfolding check using same by simp
    then show thesis using nxt that same assms(5) by (metis le_refl less_add_same_cancel1)
  next
    case before
    then have "lTCPWindowRxCheck now (seqno isn p) (of_nat n) space w = Some (-1, 0, w1)" unfolding check by (auto simp: eq)
    then show thesis using that ignored[of 0] before by auto
  next
    case ahead
    have sp: "int (unat space) < int (p + n) - int c \<longleftrightarrow> c + unat space < p + n" by linarith
    have x: "lTCPWindowRxCheck now (seqno isn p) (of_nat n) space w = (if c + unat space < p + n then Some (-1, 0, w1)
      else (case prvTCPWindowRx_UnexpectedRX now (seqno isn p) (of_nat n) w1 of None \<Rightarrow> None | Some (off, w2) \<Rightarrow> Some (off, 0, w2)))"
      using ahead unfolding check space sp by (auto simp: eq)
    show thesis
    proof (cases "c + unat space < p + n")
      case True
      then show thesis using x that ignored[of 0] by auto
    next
      case False
      then obtain off w' v where "prvTCPWindowRx_UnexpectedRX now (seqno isn p) (of_nat n) w1 = Some (off, w')" "verdict_ok isn c p n (unat space) G w1 off 0 w' v"
        using unexpected_spec[OF ok1(1-3) ahead assms(5,6) ok1(4), of "unat space" now] by auto
      moreover have "verdict_ok isn c p n (unat space) G w1 off 0 w' v = verdict_ok isn c p n (unat space) G w off 0 w' v"
        by (cases v) (simp_all add: verdict_ok_def w1_def)
      ultimately show thesis using x that False by auto
    qed
  qed
qed


subsection \<open>Storing a packet in the stream\<close>

lemma unat_of_nat_room: "stream_ok b \<Longrightarrow> k \<le> stream_room b \<Longrightarrow> unat (of_nat k :: u32) = k"
  using stream_okD(4)[of b] by (intro unat_small) (simp add: stream_room_def)

text \<open>An addition that fits.\<close>

lemma add_exact:
  assumes "stream_ok b" "off + m \<le> stream_room b" "\<And>d. data = Some d \<Longrightarrow> length d = m"
  obtains b' where "uxStreamBufferAdd (of_nat off) data (of_nat m) b = Some (of_nat m, b')" "stream_ok b'" "ring_len b' = ring_len b"
    "stream_size b' = (if off = 0 then stream_size b + m else stream_size b)"
    "\<And>i. i < ring_len b \<Longrightarrow> stream_cell b' i = overwrite (stream_cell b) (stream_size b + off) data m i"
proof -
  have u: "unat (of_nat off :: u32) = off" "unat (of_nat m :: u32) = m" by (rule unat_of_nat_room[OF assms(1)], use assms(2) in linarith)+
  have n: "added (of_nat off) (of_nat m) b = m" unfolding added_def u using assms(2) by linarith
  have z: "(of_nat off :: u32) = 0 \<longleftrightarrow> off = 0" using u(1) by (auto dest: arg_cong[of _ _ unat])
  have d: "added (of_nat off) (of_nat m) b \<le> length d" if "data = Some d" for d using assms(3)[OF that] n by simp
  note e = add_effect[OF assms(1) d, unfolded n u z]
  show thesis
  proof (rule e)
    fix c b'
    assume a: "uxStreamBufferAdd (of_nat off) data (of_nat m) b = Some (c, b')" "unat c = m" "stream_ok b'" "uxLENGTH b' = uxLENGTH b"
      "stream_size b' = (if off = 0 then stream_size b + m else stream_size b)"
      "\<And>i. i < ring_len b \<Longrightarrow> stream_cell b' i = overwrite (stream_cell b) (stream_size b + off) data m i"
    have "c = of_nat m" unfolding a(2)[symmetric] by simp
    then show thesis using that[OF _ a(3) _ a(5) a(6)] a(1) a(4) by metis
  qed
qed

text \<open>The stream that data goes to, created when there is none.\<close>

definition has_buf :: "(nat \<Rightarrow> u8) option \<Rightarrow> tcp_socket \<Rightarrow> StreamBuffer_t \<Rightarrow> bool" where
  "has_buf mem s b \<longleftrightarrow> rxStream s = Some b \<or> (rxStream s = None \<and> (\<exists>f. mem = Some f \<and> b = new_stream f (uxRxStreamSize s)))"

text \<open>The connection but for its receive stream.\<close>

definition same_conn :: "tcp_socket \<Rightarrow> tcp_socket \<Rightarrow> bool" where
  "same_conn s s' \<longleftrightarrow> xTCPWindow s' = xTCPWindow s \<and> uxRxStreamSize s' = uxRxStreamSize s \<and> eTCPState s' = eTCPState s \<and>
     txStream s' = txStream s \<and> uxTxStreamSize s' = uxTxStreamSize s \<and> sock_usMSS s' = sock_usMSS s \<and> bMallocError s' = bMallocError s \<and>
     sock_valid s' = sock_valid s \<and> bFinSent s' = bFinSent s \<and> ulWindowSize s' = ulWindowSize s \<and> bPassQueued s' = bPassQueued s \<and>
     bReuseSocket s' = bReuseSocket s \<and> pxPeerSocket s' = pxPeerSocket s \<and> bSendKeepAlive s' = bSendKeepAlive s"

lemma same_conn_refl [simp]: "same_conn s s"
  by (simp add: same_conn_def)

lemma same_conn_trans: "same_conn s s1 \<Longrightarrow> same_conn s1 s2 \<Longrightarrow> same_conn s s2"
  by (simp add: same_conn_def)

lemma stored_conn: "same_conn s (vTCPAddRxdata_Stored b s)" "rxStream (vTCPAddRxdata_Stored b s) = rxStream s"
  by (simp_all add: same_conn_def vTCPAddRxdata_Stored_def act_def Let_def)

lemma water_marks_conn: "same_conn s (set_water_marks s)" "rxStream (set_water_marks s) = rxStream s"
  by (simp_all add: same_conn_def set_water_marks_def Let_def split: prod.splits)

lemma same_conn_rxStream [simp]: "same_conn s (s'\<lparr>rxStream := x\<rparr>) = same_conn s s'"
  by (simp add: same_conn_def)

lemma add_rx:
  assumes "has_buf mem s b" "uxStreamBufferAdd off d n b = Some (c, b')"
  shows "\<exists>s'. lTCPAddRxdata now mem off d n s = Some (sint c, s') \<and> rxStream s' = Some b' \<and> same_conn s s'"
proof -
  obtain s1 where s1: "(case rxStream s of None \<Rightarrow> prvTCPCreateStream now mem True s | Some _ \<Rightarrow> Some s) = Some s1"
    "rxStream s1 = Some b" "same_conn s s1"
  proof (cases "rxStream s")
    case None
    then obtain f where f: "mem = Some f" "b = new_stream f (uxRxStreamSize s)" using assms(1) by (auto simp: has_buf_def)
    moreover have "uxRxStreamSize (set_water_marks s) = uxRxStreamSize s" using water_marks_conn(1)[of s] by (simp add: same_conn_def)
    ultimately show thesis
      using that[of "(set_water_marks s)\<lparr>rxStream := Some b\<rparr>"] None water_marks_conn(1)[of s]
      by (simp add: prvTCPCreateStream_def Let_def)
  qed (use assms(1) that[of s] in \<open>auto simp: has_buf_def\<close>)
  define s2 where "s2 = s1\<lparr>rxStream := Some b'\<rparr>"
  have "same_conn s s2" "rxStream s2 = Some b'" using s1(3) by (simp_all add: s2_def)
  moreover have "lTCPAddRxdata now mem off d n s = Some (sint c, if off = 0 then vTCPAddRxdata_Stored b' s2 else s2)"
    using s1 assms(2) by (simp add: lTCPAddRxdata_def Let_def s2_def)
  ultimately show ?thesis using stored_conn(1)[of s2 b'] stored_conn(2)[of b' s2] same_conn_trans by (cases "off = 0") auto
qed


subsection \<open>The bytes in place\<close>

text \<open>
  When \<open>r\<close> bytes have been read, position \<open>k\<close> of the peer's stream \<open>S\<close> belongs at distance \<open>k - r\<close> from the tail. The positions
  that the buffer can hold and whose bytes are in place:
\<close>

definition present :: "u8 list \<Rightarrow> nat \<Rightarrow> StreamBuffer_t \<Rightarrow> nat set" where
  "present S r b = {k. k < length S \<and> k < r + (ring_len b - 1) \<and> (r \<le> k \<longrightarrow> stream_cell b (k - r) = S ! k)}"

definition rx_at :: "u8 list \<Rightarrow> u32 \<Rightarrow> u8 list \<Rightarrow> StreamBuffer_t \<Rightarrow> TCPWindow_t \<Rightarrow> bool" where
  "rx_at S isn r b w \<longleftrightarrow> stream_ok b \<and> segments_ok w \<and> r = take (length r) S \<and> length r + stream_size b \<le> length S \<and>
     ulCurrentSequenceNumber (rx w) = seqno isn (length r + stream_size b) \<and> {..<length r + stream_size b} \<subseteq> present S (length r) b \<and>
     stored_in isn w (present S (length r) b) \<and> ulUserDataLength w = 0"

text \<open>Writing bytes of the stream at their place keeps what is there.\<close>

lemma present_put:
  assumes "ring_len b' = ring_len b" "\<And>i. i < ring_len b \<Longrightarrow> stream_cell b' i = overwrite (stream_cell b) d (Some (take n (drop p S))) n i"
    and "p = r + d" "p + n \<le> length S" "d + n \<le> ring_len b - 1"
  shows "present S r b \<union> {p..<p + n} \<subseteq> present S r b'"
proof
  fix k assume k: "k \<in> present S r b \<union> {p..<p + n}"
  have lt: "k < length S \<and> k < r + (ring_len b - 1)" using k assms(3-5) by (auto simp: present_def)
  have "stream_cell b' (k - r) = S ! k" if rk: "r \<le> k"
  proof -
    have i: "k - r < ring_len b" using lt rk by linarith
    show ?thesis
    proof (cases "k \<in> {p..<p + n}")
      case True
      then have "d \<le> k - r" "k - r < d + n" "k - r - d = k - p" using assms(3) by auto
      then have "stream_cell b' (k - r) = take n (drop p S) ! (k - p)" using assms(2)[OF i] by (simp add: overwrite_def)
      then show ?thesis using True assms(4) by auto
    next
      case False
      then have "stream_cell b' (k - r) = stream_cell b (k - r)" using assms(2)[OF i] assms(3) rk by (auto simp: overwrite_def)
      then show ?thesis using False k rk by (auto simp: present_def)
    qed
  qed
  then show "k \<in> present S r b'" using lt assms(1) by (simp add: present_def)
qed

lemma present_cong:
  assumes "ring_len b' = ring_len b" "\<And>i. i < ring_len b \<Longrightarrow> stream_cell b' i = stream_cell b i"
  shows "present S r b' = present S r b"
proof -
  have "stream_cell b' (k - r) = stream_cell b (k - r)" if "k < r + (ring_len b - 1)" "r \<le> k" for k
    using that by (intro assms(2)) linarith
  then show ?thesis using assms(1) by (auto simp: present_def)
qed

lemma rx_at_bytes:
  assumes "rx_at S isn r b w"
  shows "r @ stream_bytes b = take (length r + stream_size b) S"
proof (rule nth_equalityI)
  have l: "length r + stream_size b \<le> length S" and r: "r = take (length r) S" and pr: "{..<length r + stream_size b} \<subseteq> present S (length r) b"
    using assms by (simp_all add: rx_at_def)
  show "length (r @ stream_bytes b) = length (take (length r + stream_size b) S)" using l by (simp add: bytes_of_cells)
  fix i assume "i < length (r @ stream_bytes b)"
  then have i: "i < length r + stream_size b" by (simp add: bytes_of_cells)
  show "(r @ stream_bytes b) ! i = take (length r + stream_size b) S ! i"
  proof (cases "i < length r")
    case True
    then have "r ! i = S ! i" by (subst r) simp
    then show ?thesis using True i by (simp add: nth_append)
  next
    case False
    then have "stream_cell b (i - length r) = S ! i" using subsetD[OF pr, of i] i by (simp add: present_def)
    moreover have "i - length r < stream_size b" using False i by linarith
    ultimately show ?thesis using False i by (simp add: nth_append bytes_of_cells)
  qed
qed

lemma room_of: "stream_ok b \<Longrightarrow> stream_size b + stream_room b = ring_len b - 1"
  using stream_okD(9)[of b] by (simp add: stream_room_def)

text \<open>The bytes of a stream buffer after an addition at its head, and with the bytes stored ahead released.\<close>

lemma store_next:
  assumes "stream_ok b" "c = length r + stream_size b" "p \<le> c" "c < p + n" "p + n \<le> length S" "p + n \<le> c + stream_room b"
    and "p + n \<le> q" "{p + n..<q} \<subseteq> present S (length r) b" "{..<c} \<subseteq> present S (length r) b"
  obtains b1 b2 where "uxStreamBufferAdd 0 (Some (drop (c - p) (take n (drop p S)))) (of_nat (p + n - c)) b = Some (of_nat (p + n - c), b1)"
    "uxStreamBufferAdd 0 None (of_nat (q - (p + n))) b1 = Some (of_nat (q - (p + n)), b2)" "stream_ok b1" "stream_ok b2"
    "length r + stream_size b1 = p + n" "length r + stream_size b2 = q" "q \<le> length S"
    "present S (length r) b \<subseteq> present S (length r) b1" "present S (length r) b1 = present S (length r) b2" "{..<q} \<subseteq> present S (length r) b2"
proof -
  have data: "drop (c - p) (take n (drop p S)) = take (p + n - c) (drop c S)" using assms(3,4) by (simp add: drop_take add.commute)
  have fit: "0 + (p + n - c) \<le> stream_room b" using assms(6) by linarith
  obtain b1 where b1: "uxStreamBufferAdd 0 (Some (take (p + n - c) (drop c S))) (of_nat (p + n - c)) b = Some (of_nat (p + n - c), b1)" "stream_ok b1"
    "ring_len b1 = ring_len b" "stream_size b1 = stream_size b + (p + n - c)"
    "\<And>i. i < ring_len b \<Longrightarrow> stream_cell b1 i = overwrite (stream_cell b) (stream_size b) (Some (take (p + n - c) (drop c S))) (p + n - c) i"
    using add_exact[OF assms(1) fit, of "Some (take (p + n - c) (drop c S))"] assms(4,5) by auto
  have sum: "c + (p + n - c) = p + n" using assms(4) by simp
  have p1: "present S (length r) b \<union> {c..<p + n} \<subseteq> present S (length r) b1"
    using present_put[OF b1(3,5), of "length r"] assms(2,5) room_of[OF assms(1)] fit sum by auto
  have s1: "length r + stream_size b1 = p + n" using b1(4) assms(2) sum by simp
  have q: "q \<le> length S \<and> q \<le> length r + (ring_len b - 1)"
  proof (cases "q = p + n")
    case True
    then show ?thesis using assms(5) s1 stream_okD(9)[OF b1(2)] b1(3) by linarith
  next
    case False
    then have "q - 1 \<in> present S (length r) b" using assms(7,8) by auto
    then show ?thesis using False assms(7) by (auto simp: present_def)
  qed
  then have fit2: "0 + (q - (p + n)) \<le> stream_room b1" using room_of[OF b1(2)] s1 b1(3) by linarith
  obtain b2 where b2: "uxStreamBufferAdd 0 None (of_nat (q - (p + n))) b1 = Some (of_nat (q - (p + n)), b2)" "stream_ok b2"
    "ring_len b2 = ring_len b1" "stream_size b2 = stream_size b1 + (q - (p + n))"
    "\<And>i. i < ring_len b1 \<Longrightarrow> stream_cell b2 i = stream_cell b1 i"
    using add_exact[OF b1(2) fit2, of None] by (auto simp: overwrite_def)
  have p2: "present S (length r) b1 = present S (length r) b2" using present_cong[OF b2(3,5)] by simp
  have "{..<q} = {..<c} \<union> {c..<p + n} \<union> {p + n..<q}" using assms(4,7) by auto
  then have "{..<q} \<subseteq> present S (length r) b2" using p1 p2 assms(8,9) by blast
  then show thesis using that[of b1 b2] b1(1,2) b2(1,2,4) s1 q p1 p2 assms(7) data by auto
qed


subsection \<open>The invariant of a receiving socket\<close>

text \<open>\<open>S\<close> is the stream the peer sends, the first byte with number \<open>isn\<close>; \<open>r\<close> is what the application has read.\<close>

definition rx_inv :: "u8 list \<Rightarrow> u32 \<Rightarrow> u8 list \<Rightarrow> tcp_socket \<Rightarrow> bool" where
  "rx_inv S isn r s \<longleftrightarrow> unat (uxRxStreamSize s) < 2 ^ 30 \<and>
     (case rxStream s of
        Some b \<Rightarrow> rx_at S isn r b (xTCPWindow s)
      | None \<Rightarrow> r = [] \<and> segments_ok (xTCPWindow s) \<and> ulCurrentSequenceNumber (rx (xTCPWindow s)) = isn \<and> xRxSegments (xTCPWindow s) = [] \<and>
          ulUserDataLength (xTCPWindow s) = 0)"

definition accepted :: "u8 list \<Rightarrow> tcp_socket \<Rightarrow> nat" where
  "accepted r s = length r + (case rxStream s of None \<Rightarrow> 0 | Some b \<Rightarrow> stream_size b)"

text \<open>What storing a packet leaves alone.\<close>

definition same_sender :: "tcp_socket \<Rightarrow> tcp_socket \<Rightarrow> bool" where
  "same_sender s s' \<longleftrightarrow> same_tx (xTCPWindow s) (xTCPWindow s') \<and> same_conn (s\<lparr>xTCPWindow := xTCPWindow s'\<rparr>) s'"

lemma rx_at_frame [simp]: "rx_at S isn r b (w\<lparr>ucOptionLength := l\<rparr>) = rx_at S isn r b w"
  by (simp add: rx_at_def)

lemma rx_inv_buf:
  assumes "rx_inv S isn r s" "mem \<noteq> None"
  obtains b where "has_buf mem s b" "rx_at S isn r b (xTCPWindow s)" "unat (rx_space s) \<le> stream_room b" "accepted r s = length r + stream_size b"
    "unat (rx_space s) < 2 ^ 31"
proof (cases "rxStream s")
  case None
  obtain f where "mem = Some f" using assms(2) by auto
  moreover note new = new_stream_facts[of "uxRxStreamSize s" f]
  moreover have "rx_at S isn r (new_stream f (uxRxStreamSize s)) (xTCPWindow s)"
    using assms(1) None new by (simp add: rx_at_def rx_inv_def stored_in_def)
  moreover have "rx_space s = uxRxStreamSize s" "accepted r s = length r" using None by (simp_all add: rx_space_def accepted_def)
  ultimately show thesis using that[of "new_stream f (uxRxStreamSize s)"] None assms(1) by (auto simp: has_buf_def rx_inv_def)
next
  case (Some b)
  then have "rx_at S isn r b (xTCPWindow s)" using assms(1) by (simp add: rx_inv_def)
  moreover have "unat (rx_space s) = stream_room b" using Some room_unat[of b] calculation by (simp add: rx_at_def rx_space_def)
  moreover have "stream_room b < 2 ^ 31" using stream_okD(4,11)[of b] calculation(1) by (simp add: rx_at_def stream_room_def)
  ultimately show thesis using that[of b] Some by (simp add: has_buf_def accepted_def)
qed

lemma release_some:
  assumes "rxStream s = Some b" "ulUserDataLength (xTCPWindow s) = of_nat u" "uxStreamBufferAdd 0 None (of_nat u) b = Some (of_nat u, b')"
  shows "\<exists>s' b''. release_stored now mem s = Some s' \<and> rxStream s' = Some b'' \<and> (b'' = b' \<or> of_nat u = (0 :: u32) \<and> b'' = b) \<and>
    xTCPWindow s' = (xTCPWindow s)\<lparr>ulUserDataLength := 0\<rparr> \<and> same_conn (s\<lparr>xTCPWindow := xTCPWindow s'\<rparr>) s'"
proof (cases "of_nat u = (0 :: u32)")
  case True
  then show ?thesis using assms(1,2) by (simp add: release_stored_def same_conn_def)
next
  case False
  have "has_buf mem s b" using assms(1) by (simp add: has_buf_def)
  then obtain s' where s': "lTCPAddRxdata now mem 0 None (of_nat u) s = Some (sint (of_nat u :: u32), s')" "rxStream s' = Some b'" "same_conn s s'"
    using add_rx[OF _ assms(3)] by blast
  then show ?thesis using False assms(2) by (auto simp: release_stored_def same_conn_def word_gt_0)
qed

text \<open>The three verdicts carried out.\<close>

lemma word_len: "k \<le> n \<Longrightarrow> (of_nat n :: u32) - of_nat k = of_nat (n - k)"
  by (simp add: of_nat_diff)

lemma carry_next:
  assumes "has_buf mem s b" "stream_ok b" "c = length r + stream_size b" "p + n \<le> length S" "length S < 2 ^ 31"
    and "{..<c} \<subseteq> present S (length r) b" "r = take (length r) S" "space \<le> stream_room b"
    and v: "verdict_ok isn c p n space (present S (length r) b) w off skip w' (Next q)"
  shows "\<exists>s' b'. store_checked now mem (take n (drop p S)) off skip (s\<lparr>xTCPWindow := w'\<rparr>) = Some (0, s') \<and> rxStream s' = Some b' \<and>
    rx_at S isn r b' (xTCPWindow s') \<and> same_sender (s\<lparr>xTCPWindow := w\<rparr>) s' \<and> length r + stream_size b' = q"
proof -
  define s1 where "s1 = s\<lparr>xTCPWindow := w'\<rparr>"
  have v1: "segments_ok w'" "same_tx w w'" "off = 0" "p \<le> c" "c < p + n" "skip = of_nat (c - p)" "p + n \<le> c + space"
    "ulCurrentSequenceNumber (rx w') = seqno isn q" "p + n \<le> q" "{p + n..<q} \<subseteq> present S (length r) b"
    "ulUserDataLength w' = of_nat (q - (p + n))" "stored_in isn w' (present S (length r) b)" using v by (simp_all add: verdict_ok_def)
  have "p + n \<le> c + stream_room b" using v1(7) assms(8) by simp
  note st = store_next[OF assms(2,3) v1(4,5) assms(4) this v1(9,10) assms(6)]
  obtain b1 b2 where b: "uxStreamBufferAdd 0 (Some (drop (c - p) (take n (drop p S)))) (of_nat (p + n - c)) b = Some (of_nat (p + n - c), b1)"
    "uxStreamBufferAdd 0 None (of_nat (q - (p + n))) b1 = Some (of_nat (q - (p + n)), b2)" "stream_ok b1" "stream_ok b2"
    "length r + stream_size b1 = p + n" "length r + stream_size b2 = q" "q \<le> length S"
    "present S (length r) b \<subseteq> present S (length r) b1" "present S (length r) b1 = present S (length r) b2" "{..<q} \<subseteq> present S (length r) b2"
    by (rule st)
  have "has_buf mem s1 b" using assms(1) by (simp add: has_buf_def s1_def)
  then obtain s2 where s2: "lTCPAddRxdata now mem 0 (Some (drop (c - p) (take n (drop p S)))) (of_nat (p + n - c)) s1 = Some (sint (of_nat (p + n - c) :: u32), s2)"
    "rxStream s2 = Some b1" "same_conn s1 s2" using add_rx[OF _ b(1)] by blast
  have w2: "xTCPWindow s2 = w'" using s2(3) by (simp add: same_conn_def s1_def)
  obtain s3 b3 where s3: "release_stored now mem s2 = Some s3" "rxStream s3 = Some b3" "b3 = b2 \<or> of_nat (q - (p + n)) = (0 :: u32) \<and> b3 = b1"
    "xTCPWindow s3 = w'\<lparr>ulUserDataLength := 0\<rparr>" "same_conn (s2\<lparr>xTCPWindow := xTCPWindow s3\<rparr>) s3"
    using release_some[OF s2(2) _ b(2)] v1(11) w2 by metis
  have "unat (of_nat (q - (p + n)) :: u32) = q - (p + n)" using b(7) assms(5) by (intro unat_small) simp
  then have b3: "stream_ok b3" "length r + stream_size b3 = q" "present S (length r) b3 = present S (length r) b2"
    using s3(3) b v1(9) by (auto dest: arg_cong[of _ _ unat])
  have "rx_at S isn r b3 (xTCPWindow s3)"
    using b3 b v1 assms(7) stored_in_mono[OF v1(12)] by (simp add: rx_at_def s3(4))
  moreover have "same_sender (s\<lparr>xTCPWindow := w\<rparr>) s3"
    using s3(4,5) s2(3) v1(2) by (simp add: same_sender_def same_conn_def s1_def)
  moreover have "unat skip = c - p" unfolding v1(6) using v1(5) assms(4,5) by (intro unat_small) simp
  moreover have "of_nat (length (take n (drop p S))) - skip = of_nat (p + n - c)"
    using word_len[of "c - p" n] v1(4-6) assms(4) by (simp add: add.commute)
  ultimately show ?thesis using s2 s3 b3(2) v1(3) by (auto simp: store_checked_def s1_def[symmetric])
qed

lemma carry_ahead:
  assumes "has_buf mem s b" "stream_ok b" "c = length r + stream_size b" "p + n \<le> length S" "length S < 2 ^ 31"
    and "{..<c} \<subseteq> present S (length r) b" "r = take (length r) S" "space \<le> stream_room b" "ulCurrentSequenceNumber (rx w) = seqno isn c"
    and v: "verdict_ok isn c p n space (present S (length r) b) w off skip w' Ahead"
  shows "\<exists>s' b'. store_checked now mem (take n (drop p S)) off skip (s\<lparr>xTCPWindow := w'\<rparr>) = Some (0, s') \<and> rxStream s' = Some b' \<and>
    rx_at S isn r b' (xTCPWindow s') \<and> same_sender (s\<lparr>xTCPWindow := w\<rparr>) s' \<and> length r + stream_size b' = c"
proof -
  define s1 where "s1 = s\<lparr>xTCPWindow := w'\<rparr>"
  have v1: "segments_ok w'" "same_tx w w'" "c < p" "off = int (p - c)" "skip = 0" "p + n \<le> c + space" "rx w' = rx w" "ulUserDataLength w' = 0"
    "stored_in isn w' (present S (length r) b \<union> {p..<p + n})" using v by (simp_all add: verdict_ok_def)
  have fit: "p - c + n \<le> stream_room b" using v1(3,6) assms(8) by linarith
  obtain b1 where b1: "uxStreamBufferAdd (of_nat (p - c)) (Some (take n (drop p S))) (of_nat n) b = Some (of_nat n, b1)" "stream_ok b1" "ring_len b1 = ring_len b"
    "stream_size b1 = stream_size b"
    "\<And>i. i < ring_len b \<Longrightarrow> stream_cell b1 i = overwrite (stream_cell b) (stream_size b + (p - c)) (Some (take n (drop p S))) n i"
    using add_exact[OF assms(2) fit, of "Some (take n (drop p S))"] assms(4) v1(3) by auto
  have p1: "present S (length r) b \<union> {p..<p + n} \<subseteq> present S (length r) b1"
    using present_put[OF b1(3,5), of "length r"] assms(3,4) room_of[OF assms(2)] fit v1(3) by auto
  have "has_buf mem s1 b" using assms(1) by (simp add: has_buf_def s1_def)
  then obtain s2 where s2: "lTCPAddRxdata now mem (of_nat (p - c)) (Some (take n (drop p S))) (of_nat n) s1 = Some (sint (of_nat n :: u32), s2)"
    "rxStream s2 = Some b1" "same_conn s1 s2" using add_rx[OF _ b1(1)] by blast
  have w2: "xTCPWindow s2 = w'" using s2(3) by (simp add: same_conn_def s1_def)
  have "rx_at S isn r b1 w'"
    using b1(2,4) v1 assms(3,4,6,7,9) stored_in_mono[OF v1(9) p1] p1 by (auto simp: rx_at_def)
  moreover have "release_stored now mem s2 = Some s2" using v1(8) w2 by (simp add: release_stored_def)
  moreover have "same_sender (s\<lparr>xTCPWindow := w\<rparr>) s2" using s2(3) v1(2) by (simp add: same_sender_def same_conn_def s1_def)
  moreover have "word_of_int off = (of_nat (p - c) :: u32)" unfolding v1(4) by simp
  ultimately show ?thesis using s2 w2 b1(4) v1(4,5) assms(3,4) by (auto simp: store_checked_def s1_def[symmetric])
qed

lemma carry_ignored:
  assumes "rx_inv S isn r s" "xTCPWindow s = w"
    and v: "verdict_ok isn c p n space G w off skip w' Ignored"
    and G: "\<And>b. rxStream s = Some b \<Longrightarrow> G = present S (length r) b"
  shows "store_checked now mem d off skip (s\<lparr>xTCPWindow := w'\<rparr>) = Some (0, s\<lparr>xTCPWindow := w'\<rparr>) \<and> rx_inv S isn r (s\<lparr>xTCPWindow := w'\<rparr>) \<and>
    same_sender s (s\<lparr>xTCPWindow := w'\<rparr>) \<and> accepted r (s\<lparr>xTCPWindow := w'\<rparr>) = accepted r s"
proof -
  have v1: "segments_ok w'" "same_tx w w'" "off < 0" "rx w' = rx w" "ulUserDataLength w' = 0" "stored_in isn w' G" "xRxSegments w' = xRxSegments w"
    using v by (simp_all add: verdict_ok_def)
  have "rx_inv S isn r (s\<lparr>xTCPWindow := w'\<rparr>)"
    using assms(1,2) v1 G by (cases "rxStream s") (auto simp: rx_inv_def rx_at_def)
  then show ?thesis using v1 assms(2) by (simp add: store_checked_def release_stored_def same_sender_def same_conn_def accepted_def)
qed

lemma store_packet:
  assumes inv: "rx_inv S isn r s" and pn: "p + n \<le> length S" "length S < 2 ^ 31 - 1" and mem: "mem \<noteq> None"
  shows "\<exists>s'. prvStoreRxData now mem (seqno isn p) (take n (drop p S)) s = Some (0, s') \<and> rx_inv S isn r s' \<and> same_sender s s' \<and>
    accepted r s \<le> accepted r s' \<and>
    (eSYN_RECEIVED \<le> eTCPState s \<and> p \<le> accepted r s \<and> accepted r s < p + n \<and> p + n \<le> accepted r s + unat (rx_space s) \<longrightarrow> p + n \<le> accepted r s')"
proof (cases "0 < n \<and> eSYN_RECEIVED \<le> eTCPState s")
  case False
  have len: "length (take n (drop p S)) = n" using pn(1) by simp
  have "(0 :: u32) < of_nat n \<longleftrightarrow> 0 < n" using unat_small[of n] pn by (simp add: word_less_nat_alt)
  then have x: "prvStoreRxData now mem (seqno isn p) (take n (drop p S)) s = Some (0, s\<lparr>xTCPWindow := (xTCPWindow s)\<lparr>ucOptionLength := 0\<rparr>\<rparr>)"
    using False unfolding prvStoreRxData_def len by (auto simp: Let_def)
  show ?thesis using inv False unfolding x by (auto simp: rx_inv_def accepted_def same_sender_def same_conn_def split: option.splits)
next
  case True
  obtain b where b: "has_buf mem s b" "rx_at S isn r b (xTCPWindow s)" "unat (rx_space s) \<le> stream_room b"
    "accepted r s = length r + stream_size b" "unat (rx_space s) < 2 ^ 31" using rx_inv_buf[OF inv mem] by blast
  define c where "c = accepted r s"
  define w where "w = xTCPWindow s"
  define G where "G = present S (length r) b"
  have cw: "ulCurrentSequenceNumber (rx w) = seqno isn c" "segments_ok w" "stored_in isn w G" "c \<le> length S" "{..<c} \<subseteq> G" "stream_ok b"
    "r = take (length r) S" "c = length r + stream_size b"
    using b(2,4) by (simp_all add: rx_at_def c_def w_def G_def)
  have lt: "c < 2 ^ 31 - 1" "p + n < 2 ^ 31" "length S < 2 ^ 31" using cw(4) pn by simp_all
  obtain off skip w' v where v: "lTCPWindowRxCheck now (seqno isn p) (of_nat n) (rx_space s) w = Some (off, skip, w')"
    "verdict_ok isn c p n (unat (rx_space s)) G w off skip w' v"
    using rx_check_spec[OF cw(2,3,1) lt(1) conjunct1[OF True] lt(2) b(5)] by metis
  have len: "length (take n (drop p S)) = n" using pn(1) by simp
  have "(0 :: u32) < of_nat n" using unat_small[of n] pn True by (simp add: word_less_nat_alt)
  then have x: "prvStoreRxData now mem (seqno isn p) (take n (drop p S)) s = store_checked now mem (take n (drop p S)) off skip (s\<lparr>xTCPWindow := w'\<rparr>)"
    using True v(1) unfolding prvStoreRxData_def len by (simp add: w_def)
  have same: "s\<lparr>xTCPWindow := w\<rparr> = s" by (simp add: w_def)
  have acc: "accepted r s' = length r + stream_size b'" if "rxStream s' = Some b'" for s' b' using that by (simp add: accepted_def)
  have size: "rx_inv S isn r s'" if "rxStream s' = Some b'" "rx_at S isn r b' (xTCPWindow s')" "same_sender s s'" for s' b'
    using that inv by (auto simp: rx_inv_def same_sender_def same_conn_def)
  show ?thesis
  proof (cases v)
    case (Next q)
    then obtain s' b' where s': "store_checked now mem (take n (drop p S)) off skip (s\<lparr>xTCPWindow := w'\<rparr>) = Some (0, s')" "rxStream s' = Some b'"
      "rx_at S isn r b' (xTCPWindow s')" "same_sender s s'" "length r + stream_size b' = q"
      using carry_next[OF b(1) cw(6,8) pn(1) lt(3) cw(5)[unfolded G_def] cw(7) b(3)] v(2) same unfolding G_def by metis
    then show ?thesis using x size acc v(2) Next by (auto simp: verdict_ok_def c_def)
  next
    case Ahead
    then obtain s' b' where s': "store_checked now mem (take n (drop p S)) off skip (s\<lparr>xTCPWindow := w'\<rparr>) = Some (0, s')" "rxStream s' = Some b'"
      "rx_at S isn r b' (xTCPWindow s')" "same_sender s s'" "length r + stream_size b' = c"
      using carry_ahead[OF b(1) cw(6,8) pn(1) lt(3) cw(5)[unfolded G_def] cw(7) b(3) cw(1)] v(2) same unfolding G_def by metis
    then show ?thesis using x size acc v(2) Ahead by (auto simp: verdict_ok_def c_def)
  next
    case Ignored
    have "G = present S (length r) b'" if "rxStream s = Some b'" for b' using that b(1) by (simp add: has_buf_def G_def)
    then show ?thesis using carry_ignored[OF inv w_def[symmetric] v(2)[unfolded Ignored]] x v(2) Ignored by (auto simp: verdict_ok_def c_def)
  qed
qed


subsection \<open>Reading\<close>

lemma read_some:
  assumes at: "rx_at S isn r b w"
  obtains n data b' where "uxStreamBufferGet 0 True k peek b = Some (n, data, b')" "unat n = length data" "length data = min (stream_size b) (unat k)"
    "rx_at S isn (if peek then r else r @ data) b' w" "data = take (length data) (drop (length r) S)"
    "length (if peek then r else r @ data) + stream_size b' = length r + stream_size b"
proof -
  have ok: "stream_ok b" and l: "length r + stream_size b \<le> length S" and pr: "{..<length r + stream_size b} \<subseteq> present S (length r) b" and r: "r = take (length r) S"
    using at by (simp_all add: rx_at_def)
  define j where "j = taken 0 k b"
  define data where "data = map (stream_cell b) [0..<j]"
  have j: "j = min (stream_size b) (unat k)" "length data = j" by (simp_all add: j_def taken_def data_def)
  have cell: "stream_cell b i = S ! (length r + i)" if "i < stream_size b" for i
    using subsetD[OF pr, of "length r + i"] that by (simp add: present_def)
  have data: "data = take j (drop (length r) S)" using j l by (intro nth_equalityI) (auto simp: data_def cell)
  obtain n b' where g: "uxStreamBufferGet 0 True k peek b = Some (n, data, b')" "unat n = j" "stream_ok b'" "uxLENGTH b' = uxLENGTH b" "peek \<Longrightarrow> b' = b"
    "\<not> peek \<Longrightarrow> stream_size b' = stream_size b - j \<and> stream_cell b' = (\<lambda>i. stream_cell b (i + j))"
    by (rule get_effect[OF ok, of 0 True k peek]) (simp add: j_def data_def)
  show thesis
  proof (cases peek)
    case True
    then show thesis using that[of n data b'] g j at data by simp
  next
    case False
    then have sz: "stream_size b' = stream_size b - j" and cells: "stream_cell b' = (\<lambda>i. stream_cell b (i + j))" using g(6) by simp_all
    have jr: "length (r @ data) + stream_size b' = length r + stream_size b" using sz j by simp
    have take: "r @ data = take (length (r @ data)) S" using r data j l by (simp add: take_add)
    have sub: "present S (length r) b \<subseteq> present S (length (r @ data)) b'"
    proof
      fix i assume "i \<in> present S (length r) b"
      moreover have "i - (length r + j) + j = i - length r" if "length r + j \<le> i" using that by simp
      ultimately show "i \<in> present S (length (r @ data)) b'" using j(2) g(4) by (auto simp: present_def cells)
    qed
    have st: "stored_in isn w (present S (length (r @ data)) b')" using at stored_in_mono[OF _ sub] by (simp only: rx_at_def)
    have "rx_at S isn (r @ data) b' w" unfolding rx_at_def jr
      by (intro conjI g(3) take st subset_trans[OF pr sub]) (use at in \<open>simp_all add: rx_at_def\<close>)
    then show thesis using that[of n data b'] g(1,2) j data jr False by simp
  qed
qed

lemma recv_water_conn: "same_conn s (recv_water b s)" "rxStream (recv_water b s) = rxStream s"
  by (simp_all add: same_conn_def recv_water_def act_def)

text \<open>The bytes that leave the stream with a read.\<close>

definition consumed :: "u32 \<Rightarrow> recv_data \<Rightarrow> u8 list" where
  "consumed xFlags d = (case d of Copied data \<Rightarrow> if xFlags AND FREERTOS_MSG_PEEK \<noteq> 0 then [] else data | Pointer _ \<Rightarrow> [])"

lemma recv_data_inv:
  assumes "rx_inv S isn r s" "rxStream s = Some b"
  shows "\<exists>n d s'. prvRecvData k xFlags b s = Some (n, d, s') \<and> rx_inv S isn (r @ consumed xFlags d) s' \<and>
    accepted (r @ consumed xFlags d) s' = accepted r s \<and> same_conn s s' \<and>
    (xFlags AND FREERTOS_ZERO_COPY = 0 \<longrightarrow> d = Copied (take (min (stream_size b) (unat k)) (drop (length r) S)))"
proof (cases "xFlags AND FREERTOS_ZERO_COPY = 0")
  case False
  then show ?thesis using assms by (auto simp: prvRecvData_def consumed_def split: prod.splits)
next
  case True
  define peek where "peek \<longleftrightarrow> xFlags AND FREERTOS_MSG_PEEK \<noteq> 0"
  have at: "rx_at S isn r b (xTCPWindow s)" using assms by (simp add: rx_inv_def)
  obtain n data b' where g: "uxStreamBufferGet 0 True k peek b = Some (n, data, b')" "unat n = length data" "length data = min (stream_size b) (unat k)"
    "rx_at S isn (if peek then r else r @ data) b' (xTCPWindow s)" "data = take (length data) (drop (length r) S)"
    "length (if peek then r else r @ data) + stream_size b' = length r + stream_size b"
    by (rule read_some[OF at])
  define s' where "s' = recv_water b' (s\<lparr>rxStream := Some b'\<rparr>)"
  have s': "rxStream s' = Some b'" "same_conn s s'"
    using recv_water_conn(1)[of "s\<lparr>rxStream := Some b'\<rparr>" b'] recv_water_conn(2)[of b' "s\<lparr>rxStream := Some b'\<rparr>"]
    by (simp_all add: s'_def same_conn_def)
  have c: "r @ consumed xFlags (Copied data) = (if peek then r else r @ data)" by (simp add: consumed_def peek_def)
  have "prvRecvData k xFlags b s = Some (sint n, Copied data, s')" using True g(1) by (simp add: prvRecvData_def peek_def s'_def)
  moreover have "rx_inv S isn (r @ consumed xFlags (Copied data)) s'"
    using g(4) s' assms(1) unfolding c by (simp add: rx_inv_def same_conn_def)
  moreover have "accepted (r @ consumed xFlags (Copied data)) s' = accepted r s" using g(6) s'(1) assms(2) unfolding c by (simp add: accepted_def)
  ultimately show ?thesis using g(3,5) s'(2) by auto
qed


subsection \<open>Any sequence of packets and reads\<close>

text \<open>
  What the IP task does to the socket: it stores the payload of a packet, or it changes what the receive side does not own (the transmit side of
  the same window, descriptors of other windows, timers, flags), in any way that leaves the descriptor lists well formed.
\<close>

datatype ip_event = Segment u32 "(nat \<Rightarrow> u8) option" u32 "u8 list" | Elsewhere tcp_socket

definition elsewhere_ok :: "tcp_socket \<Rightarrow> tcp_socket \<Rightarrow> bool" where
  "elsewhere_ok s s' \<longleftrightarrow> rxStream s' = rxStream s \<and> uxRxStreamSize s' = uxRxStreamSize s \<and> segments_ok (xTCPWindow s') \<and>
     xRxSegments (xTCPWindow s') = xRxSegments (xTCPWindow s) \<and> rx (xTCPWindow s') = rx (xTCPWindow s) \<and>
     ulUserDataLength (xTCPWindow s') = ulUserDataLength (xTCPWindow s) \<and>
     (\<forall>i\<in>set (xRxSegments (xTCPWindow s)). seg (xTCPWindow s') i = seg (xTCPWindow s) i)"

fun ip_step :: "ip_event \<Rightarrow> tcp_socket \<Rightarrow> tcp_socket option" where
  "ip_step (Segment now mem sq data) s = map_option snd (prvStoreRxData now mem sq data s)"
| "ip_step (Elsewhere s') s = Some (if elsewhere_ok s s' then s' else s)"

fun ip_run :: "ip_event list \<Rightarrow> tcp_socket \<Rightarrow> tcp_socket option" where
  "ip_run [] s = Some s"
| "ip_run (e # es) s = (case ip_step e s of None \<Rightarrow> None | Some s' \<Rightarrow> ip_run es s')"

text \<open>The application reads; while it waits for data the IP task goes on.\<close>

datatype rx_event = IP ip_event | Recv bool u32 u32 "ip_event list list"

fun rx_run :: "rx_event list \<Rightarrow> u8 list \<Rightarrow> tcp_socket \<Rightarrow> (u8 list \<times> tcp_socket) option" where
  "rx_run [] r s = Some (r, s)"
| "rx_run (IP e # es) r s = (case ip_step e s of None \<Rightarrow> None | Some s' \<Rightarrow> rx_run es r s')"
| "rx_run (Recv null_buffer len xFlags waits # es) r s =
     (case FreeRTOS_recv ip_run null_buffer len xFlags waits s of
        None \<Rightarrow> None
      | Some (_, d, s') \<Rightarrow> rx_run es (r @ consumed xFlags d) s')"

text \<open>A packet of the peer: a piece of its stream under the sequence number of its first byte. The heap has room for the stream.\<close>

fun genuine :: "u8 list \<Rightarrow> u32 \<Rightarrow> ip_event \<Rightarrow> bool" where
  "genuine S isn (Segment _ mem sq data) \<longleftrightarrow>
     mem \<noteq> None \<and> (\<exists>p\<in>set [0..<Suc (length S)]. sq = seqno isn p \<and> p + length data \<le> length S \<and> data = take (length data) (drop p S))"
| "genuine S isn (Elsewhere _) \<longleftrightarrow> True"

fun rx_genuine :: "u8 list \<Rightarrow> u32 \<Rightarrow> rx_event \<Rightarrow> bool" where
  "rx_genuine S isn (IP e) \<longleftrightarrow> genuine S isn e"
| "rx_genuine S isn (Recv _ _ _ waits) \<longleftrightarrow> list_all (list_all (genuine S isn)) waits"

lemma elsewhere_inv:
  assumes "rx_inv S isn r s" "elsewhere_ok s s'"
  shows "rx_inv S isn r s'" "accepted r s' = accepted r s"
proof -
  have "stored_in isn (xTCPWindow s') G = stored_in isn (xTCPWindow s) G" for G
    using assms(2) by (simp add: stored_in_def elsewhere_ok_def)
  then show "rx_inv S isn r s'" using assms by (auto simp: rx_inv_def rx_at_def elsewhere_ok_def split: option.splits)
  show "accepted r s' = accepted r s" using assms(2) by (simp add: accepted_def elsewhere_ok_def)
qed

lemma ip_step_inv:
  assumes "rx_inv S isn r s" "genuine S isn e" "length S < 2 ^ 31 - 1"
  shows "\<exists>s'. ip_step e s = Some s' \<and> rx_inv S isn r s' \<and> accepted r s \<le> accepted r s'"
proof (cases e)
  case (Segment now mem sq data)
  then obtain p where p: "sq = seqno isn p" "p + length data \<le> length S" "data = take (length data) (drop p S)" "mem \<noteq> None"
    using assms(2) by auto
  obtain s' where "prvStoreRxData now mem (seqno isn p) (take (length data) (drop p S)) s = Some (0, s')" "rx_inv S isn r s'" "accepted r s \<le> accepted r s'"
    using store_packet[OF assms(1) p(2) assms(3) p(4)] by blast
  then show ?thesis using Segment p(1,3) by simp
qed (use elsewhere_inv[OF assms(1)] assms(1) in auto)

lemma ip_run_inv:
  assumes "rx_inv S isn r s" "list_all (genuine S isn) es" "length S < 2 ^ 31 - 1"
  shows "\<exists>s'. ip_run es s = Some s' \<and> rx_inv S isn r s' \<and> accepted r s \<le> accepted r s'"
  using assms(1,2)
proof (induction es arbitrary: s)
  case (Cons e es)
  then obtain s1 where "ip_step e s = Some s1" "rx_inv S isn r s1" "accepted r s \<le> accepted r s1"
    using ip_step_inv[OF _ _ assms(3), of isn r s e] by auto
  then show ?case using Cons.IH[of s1] Cons.prems(2) le_trans by fastforce
qed simp

lemma recv_wait_stops:
  assumes "waits = [] \<or> rx_count s \<noteq> 0 \<or> eTCPState s \<in> {eCLOSED, eCLOSE_WAIT, eCLOSING} \<or>
    \<not> xTimed \<and> (xReceiveBlockTime s = 0 \<or> xFlags AND FREERTOS_MSG_DONTWAIT \<noteq> 0)"
  shows "\<exists>n. recv_wait during xFlags xTimed waits s = Some (n, s) \<and> (0 < n \<longrightarrow> rxStream s \<noteq> None)"
proof -
  have "0 < rx_count s \<Longrightarrow> rxStream s \<noteq> None" by (cases "rxStream s") (simp_all add: rx_count_def)
  moreover have "\<not> 0 < not_connected_error s" by (simp add: not_connected_error_def)
  ultimately show ?thesis using assms by (subst recv_wait.simps) auto
qed

lemma recv_wait_inv:
  assumes "rx_inv S isn r s" "list_all (list_all (genuine S isn)) waits" "length S < 2 ^ 31 - 1"
  shows "\<exists>n s'. recv_wait ip_run xFlags xTimed waits s = Some (n, s') \<and> rx_inv S isn r s' \<and> accepted r s \<le> accepted r s' \<and>
    (0 < n \<longrightarrow> rxStream s' \<noteq> None)"
  using assms(1,2)
proof (induction waits arbitrary: s xTimed)
  case Nil
  then show ?case using recv_wait_stops[of "[]" s xTimed xFlags ip_run] by auto
next
  case (Cons e es)
  obtain s1 where s1: "ip_run e s = Some s1" "rx_inv S isn r s1" "accepted r s \<le> accepted r s1"
    using ip_run_inv[OF Cons.prems(1) _ assms(3), of e] Cons.prems(2) by auto
  obtain n s' where s': "recv_wait ip_run xFlags True es s1 = Some (n, s')" "rx_inv S isn r s'" "accepted r s1 \<le> accepted r s'" "0 < n \<longrightarrow> rxStream s' \<noteq> None"
    using Cons.IH[OF s1(2), of True] Cons.prems(2) by auto
  show ?case
  proof (cases "rx_count s \<noteq> 0 \<or> eTCPState s \<in> {eCLOSED, eCLOSE_WAIT, eCLOSING} \<or> \<not> xTimed \<and> (xReceiveBlockTime s = 0 \<or> xFlags AND FREERTOS_MSG_DONTWAIT \<noteq> 0)")
    case True
    then show ?thesis using recv_wait_stops[of "e # es" s xTimed xFlags ip_run] Cons.prems(1) by blast
  next
    case False
    then have "recv_wait ip_run xFlags xTimed (e # es) s = Some (n, s')" using s1(1) s'(1) by (subst recv_wait.simps) auto
    then show ?thesis using s' s1(3) by auto
  qed
qed

lemma recv_inv:
  assumes "rx_inv S isn r s" "list_all (list_all (genuine S isn)) waits" "length S < 2 ^ 31 - 1"
  shows "\<exists>n d s'. FreeRTOS_recv ip_run null_buffer len xFlags waits s = Some (n, d, s') \<and> rx_inv S isn (r @ consumed xFlags d) s' \<and>
    accepted r s \<le> accepted (r @ consumed xFlags d) s'"
proof (cases "\<not> sock_valid s \<or> xFlags AND FREERTOS_ZERO_COPY \<noteq> 0 \<and> null_buffer")
  case True
  then show ?thesis using assms(1) by (auto simp: FreeRTOS_recv_def consumed_def)
next
  case False
  obtain n s1 where w: "prvRecvWait ip_run xFlags waits s = Some (n, s1)" "rx_inv S isn r s1" "accepted r s \<le> accepted r s1" "0 < n \<longrightarrow> rxStream s1 \<noteq> None"
    using recv_wait_inv[OF assms, of xFlags False] by (auto simp: prvRecvWait_def)
  show ?thesis
  proof (cases "0 < n")
    case True
    then obtain b where b: "rxStream s1 = Some b" using w(4) by auto
    then show ?thesis using recv_data_inv[OF w(2) b, of len xFlags] False True w(1,3) by (auto simp: FreeRTOS_recv_def)
  next
    case no: False
    then show ?thesis using False w by (auto simp: FreeRTOS_recv_def consumed_def)
  qed
qed

lemma rx_run_inv:
  assumes "rx_inv S isn r s" "list_all (rx_genuine S isn) es" "length S < 2 ^ 31 - 1"
  shows "\<exists>r' s'. rx_run es r s = Some (r', s') \<and> rx_inv S isn r' s' \<and> accepted r s \<le> accepted r' s'"
  using assms(1,2)
proof (induction es arbitrary: r s)
  case (Cons e es)
  have "\<exists>r1 s1. rx_run (e # es) r s = rx_run es r1 s1 \<and> rx_inv S isn r1 s1 \<and> accepted r s \<le> accepted r1 s1"
  proof (cases e)
    case (IP i)
    then show ?thesis using ip_step_inv[OF Cons.prems(1) _ assms(3), of i] Cons.prems(2) by fastforce
  next
    case (Recv nb len xFlags waits)
    then show ?thesis using recv_inv[OF Cons.prems(1) _ assms(3), of waits nb len xFlags] Cons.prems(2) by fastforce
  qed
  then obtain r1 s1 where "rx_run (e # es) r s = rx_run es r1 s1" "rx_inv S isn r1 s1" "accepted r s \<le> accepted r1 s1" by blast
  then show ?case using Cons.IH[of r1 s1] Cons.prems(2) by fastforce
qed simp

lemma rx_inv_bytes:
  assumes "rx_inv S isn r s"
  shows "r @ (case rxStream s of None \<Rightarrow> [] | Some b \<Rightarrow> stream_bytes b) = take (accepted r s) S" "accepted r s \<le> length S"
    "ulCurrentSequenceNumber (rx (xTCPWindow s)) = seqno isn (accepted r s)"
  using assms rx_at_bytes[of S isn r _ "xTCPWindow s"] by (auto simp: rx_inv_def accepted_def rx_at_def split: option.splits)


subsection \<open>Results\<close>

text \<open>A socket whose connection has been made: the peer's first byte of data will have the number \<open>isn\<close>.\<close>

definition rx_start :: "u32 \<Rightarrow> tcp_socket \<Rightarrow> bool" where
  "rx_start isn s \<longleftrightarrow> rxStream s = None \<and> unat (uxRxStreamSize s) < 2 ^ 30 \<and> segments_ok (xTCPWindow s) \<and>
     ulCurrentSequenceNumber (rx (xTCPWindow s)) = isn \<and> xRxSegments (xTCPWindow s) = [] \<and> ulUserDataLength (xTCPWindow s) = 0"

definition unread :: "tcp_socket \<Rightarrow> u8 list" where
  "unread s = (case rxStream s of None \<Rightarrow> [] | Some b \<Rightarrow> stream_bytes b)"

lemma rx_start_inv: "rx_start isn s \<Longrightarrow> rx_inv S isn [] s"
  by (simp add: rx_start_def rx_inv_def)

text \<open>
  C10. TCP delivers the peer's stream. Take any sequence of packets, each a piece of the stream \<open>S\<close> under the sequence number of its first byte,
  lost, repeated, overlapping and in any order, mixed with calls of \<open>FreeRTOS_recv\<close> (which may wait while more packets come) and with whatever else
  the stack does to the connection. No call fails, and the bytes read followed by those waiting in the receive stream are
  the first \<open>k\<close> bytes of \<open>S\<close>, where the number that is acknowledged to the peer is that of byte \<open>k\<close>.
\<close>

theorem tcp_delivers_in_order:
  assumes "rx_start isn s" "length S < 2 ^ 31 - 1" "list_all (rx_genuine S isn) events"
  shows "\<exists>r s' k. rx_run events [] s = Some (r, s') \<and> r @ unread s' = take k S \<and> k \<le> length S \<and>
    ulCurrentSequenceNumber (rx (xTCPWindow s')) = seqno isn k"
  using rx_run_inv[OF rx_start_inv[OF assms(1)] assms(3,2)] rx_inv_bytes unfolding unread_def by meson

text \<open>
  C11. Progress: after any such sequence, a packet that holds the next expected byte and whose new part fits in the free room is accepted
  as a whole.
\<close>

theorem tcp_accepts_expected:
  assumes "rx_start isn s" "length S < 2 ^ 31 - 1" "list_all (rx_genuine S isn) events" "rx_run events [] s = Some (r, s1)"
    and "eSYN_RECEIVED \<le> eTCPState s1" "p \<le> length (r @ unread s1)" "length (r @ unread s1) < p + n" "p + n \<le> length S"
    and "p + n \<le> length (r @ unread s1) + unat (rx_space s1)"
  shows "\<exists>s2 k. prvStoreRxData now (Some content) (seqno isn p) (take n (drop p S)) s1 = Some (0, s2) \<and> r @ unread s2 = take k S \<and> p + n \<le> k \<and>
    k \<le> length S \<and> ulCurrentSequenceNumber (rx (xTCPWindow s2)) = seqno isn k"
proof -
  have inv: "rx_inv S isn r s1" using rx_run_inv[OF rx_start_inv[OF assms(1)] assms(3,2)] assms(4) by auto
  have len: "length (r @ unread s1) = accepted r s1" using arg_cong[OF rx_inv_bytes(1)[OF inv], of length] rx_inv_bytes(2)[OF inv] by (simp add: unread_def)
  obtain s2 where "prvStoreRxData now (Some content) (seqno isn p) (take n (drop p S)) s1 = Some (0, s2)" "rx_inv S isn r s2" "p + n \<le> accepted r s2"
    using store_packet[OF inv assms(8,2), of "Some content" now] assms(5,6,7,9) unfolding len by blast
  then show ?thesis using rx_inv_bytes[of S isn r s2] unfolding unread_def by blast
qed

text \<open>An example connection.\<close>

definition demo_window :: TCPWindow_t where
  "demo_window = \<lparr>xTCPSegments = replicate 4 zero_segment, xSegmentList = [0, 1, 2, 3], bHasInit = True, bSendFullSize = False, bTimeStamps = False,
     ulRxWindowLength = 5840, ulTxWindowLength = 5840,
     rx = \<lparr>ulFirstSequenceNumber = 0xfffffffe, ulCurrentSequenceNumber = 0xfffffffe, ulFINSequenceNumber = 0, ulHighestSequenceNumber = 0xfffffffe\<rparr>,
     tx = \<lparr>ulFirstSequenceNumber = 0xfffffff0, ulCurrentSequenceNumber = 0xfffffff0, ulFINSequenceNumber = 0, ulHighestSequenceNumber = 0xfffffff0\<rparr>,
     ulOurSequenceNumber = 0xfffffff0, ulUserDataLength = 0, ulNextTxSequenceNumber = 0xfffffff0, lSRTT = 500, ucOptionLength = 0,
     xPriorityQueue = [], xTxQueue = [], xWaitQueue = [], pxHeadSegment = None, ulOptionsData = [0, 0, 0, 0], xTxSegments = [], xRxSegments = [],
     lists_initialised = True, usMSS = 1460, usMSSInit = 1460\<rparr>"

definition demo_socket :: tcp_socket where
  "demo_socket = \<lparr>bPassAccept = False, bPassQueued = False, bReuseSocket = False, bCloseAfterSend = False, bUserShutdown = False, bCloseRequested = False,
     bLowWater = False, bWinChange = False, bSendKeepAlive = False, bWaitKeepAlive = False, bFinAccepted = False, bFinSent = False, bMallocError = False,
     usTimeout = 0, sock_usMSS = 1460, eTCPState = eESTABLISHED, pxPeerSocket = None, ucKeepRepCount = 0, xLastAliveTime = 0, xLastActTime = 0,
     uxLittleSpace = 0, uxEnoughSpace = 0, uxRxStreamSize = 8, uxTxStreamSize = 8, rxStream = None, txStream = None, ulWindowSize = 8760,
     xTCPWindow = demo_window, xReceiveBlockTime = 0, xSendBlockTime = 0, xEventBits = 0, sock_valid = True, actions = []\<rparr>"

definition demo_packets :: "rx_event list" where
  "demo_packets = [IP (Segment 0 (Some (\<lambda>_. 7)) 0 [12, 13]), Recv False 8 0 [], IP (Segment 0 (Some (\<lambda>_. 7)) 0xfffffffe [10, 11])]"

lemma demo_start: "rx_start 0xfffffffe demo_socket"
  by (auto simp: rx_start_def demo_socket_def demo_window_def segments_ok_def)

lemma demo_genuine: "list_all (rx_genuine [10, 11, 12, 13, 14] 0xfffffffe) demo_packets"
  unfolding demo_packets_def by code_simp

declare sack_end.simps [code]

lemma demo_run_value: "map_option (\<lambda>(r, s). (r, unread s, rx_space s, eTCPState s)) (rx_run demo_packets [] demo_socket) = Some ([], [10, 11, 12, 13], 7, eESTABLISHED)"
  unfolding demo_packets_def by code_simp

theorem tcp_delivers_in_order_witness:
  "\<exists>r s' k. rx_run demo_packets [] demo_socket = Some (r, s') \<and> r @ unread s' = take k [10, 11, 12, 13, 14] \<and> k \<le> length [10, 11, 12, 13, 14 :: u8] \<and>
    ulCurrentSequenceNumber (rx (xTCPWindow s')) = seqno 0xfffffffe k"
  by (rule tcp_delivers_in_order[OF demo_start _ demo_genuine]) simp

theorem tcp_accepts_expected_witness:
  "\<exists>r s1 s2 k. rx_run demo_packets [] demo_socket = Some (r, s1) \<and>
    prvStoreRxData 0 (Some (\<lambda>_. 7)) (seqno 0xfffffffe 3) [13, 14] s1 = Some (0, s2) \<and> r @ unread s2 = take k [10, 11, 12, 13, 14] \<and> 5 \<le> k"
proof -
  obtain r s1 where s1: "rx_run demo_packets [] demo_socket = Some (r, s1)" "r = []" "unread s1 = [10, 11, 12, 13]" "rx_space s1 = 7" "eTCPState s1 = eESTABLISHED"
    using demo_run_value by auto
  have "\<exists>s2 k. prvStoreRxData 0 (Some (\<lambda>_. 7)) (seqno 0xfffffffe 3) (take 2 (drop 3 [10, 11, 12, 13, 14])) s1 = Some (0, s2) \<and>
      r @ unread s2 = take k [10, 11, 12, 13, 14] \<and> 3 + 2 \<le> k \<and> k \<le> length [10, 11, 12, 13, 14 :: u8] \<and> ulCurrentSequenceNumber (rx (xTCPWindow s2)) = seqno 0xfffffffe k"
    by (rule tcp_accepts_expected[OF demo_start _ demo_genuine s1(1)]) (simp_all add: s1 state_order)
  then show ?thesis using s1(1) by auto
qed


subsection \<open>Where the window does not do what it means to\<close>

text \<open>
  A packet that starts inside another stored one is stored too. When the first is released, the sequence number passes the start of the second: it is
  found no more, keeps its descriptor of the pool of four until the connection ends, and \<open>xTCPWindowRxEmpty\<close> stays false, so that the peer's
  \<open>FIN\<close> is refused although every byte has been received.
\<close>

definition overlapping_packets :: "rx_event list" where
  "overlapping_packets = [IP (Segment 0 (Some (\<lambda>_. 0)) 1 [13, 14]), IP (Segment 0 (Some (\<lambda>_. 0)) 2 [14, 15]),
     IP (Segment 0 (Some (\<lambda>_. 0)) 0xfffffffe [10, 11, 12]), IP (Segment 0 (Some (\<lambda>_. 0)) 3 [15])]"

lemma overlap_leaves_descriptor:
  "list_all (rx_genuine [10, 11, 12, 13, 14, 15] 0xfffffffe) overlapping_packets"
  "map_option (\<lambda>(r, s). (unread s, xRxSegments (xTCPWindow s), xTCPWindowRxEmpty (xTCPWindow s))) (rx_run overlapping_packets [] demo_socket) =
    Some ([10, 11, 12, 13, 14, 15], [1], False)"
  unfolding overlapping_packets_def by code_simp+

text \<open>
  A packet whose start is that of a stored shorter one is not stored, yet its whole range is reported to the peer as received: here the
  bytes 12 to 14, of which only 12 is there.
\<close>

lemma sack_claims_missing_bytes:
  "map_option (\<lambda>(r, s). (map FreeRTOS_htonl (ulOptionsData (xTCPWindow s)), map (\<lambda>i. lDataLength (seg (xTCPWindow s) i)) (xRxSegments (xTCPWindow s))))
    (rx_run [IP (Segment 0 (Some (\<lambda>_. 0)) 0 [12]), IP (Segment 0 (Some (\<lambda>_. 0)) 0 [12, 13, 14])] [] demo_socket) =
   Some ([FreeRTOS_htonl OPTION_CODE_SINGLE_SACK, 0, 3, 0], [1])"
  by code_simp

text \<open>
  When the heap cannot provide the receive stream for a packet that arrives ahead, the packet stays registered without its
  bytes. Should a stream be created for a later packet, what happens to be in that memory is delivered in their place.
  (The firmware's hook for failed allocations stops the processor before that.)
\<close>

lemma malloc_failure_delivers_garbage:
  "map_option (\<lambda>(r, s). (unread s, bMallocError s)) (rx_run [IP (Segment 0 None 0 [12, 13]), IP (Segment 0 (Some (\<lambda>_. 99)) 0xfffffffe [10, 11])] [] demo_socket) =
   Some ([10, 11, 99, 99], True)"
  by code_simp

end
