(* ===== verification/Tcp_Transmit.thy ===== *)
theory Tcp_Transmit
  imports Tcp_Socket
begin

section \<open>Sending over TCP\<close>

text \<open>
  The transmit side of the sliding window (\<^verbatim>\<open>FreeRTOS_TCP_WIN.c\<close>) and the functions that connect it with the transmit stream: \<open>prvTCPAddTxData\<close> and
  \<open>prvTCPPrepareSend\<close> of \<^verbatim>\<open>FreeRTOS_TCP_Transmission.c\<close>, the handling of acknowledgements in \<open>prvHandleEstablished\<close> (\<^verbatim>\<open>FreeRTOS_TCP_State_Handling.c\<close>) and \<open>prvReadSackOption\<close>
  (\<^verbatim>\<open>FreeRTOS_TCP_Reception.c\<close>). The main results: every packet carries the bytes that the application sent under their
  sequence numbers, first transmission or not; and bytes leave the stream only when they are acknowledged.
\<close>

subsection \<open>Adding data to the window\<close>

definition lTCPIncrementTxPosition :: "int \<Rightarrow> int \<Rightarrow> int \<Rightarrow> int" where
  "lTCPIncrementTxPosition lPosition lMax lCount = (let r = lPosition + lCount in if lMax \<le> r then r - lMax else r)"

definition prvTCPWindowTxAdd_FrontSegment :: "nat \<Rightarrow> int \<Rightarrow> TCPWindow_t \<Rightarrow> int \<times> TCPWindow_t" where
  "prvTCPWindowTxAdd_FrontSegment i lBytesLeft w =
     (let lToWrite = min lBytesLeft (lMaxLength (seg w i) - lDataLength (seg w i));
          w1 = upd_seg i (\<lambda>g. g\<lparr>lDataLength := lDataLength g + lToWrite\<rparr>) w;
          w2 = (if lMaxLength (seg w1 i) \<le> lDataLength (seg w1 i) then w1\<lparr>pxHeadSegment := None\<rparr> else w1)
      in (lToWrite, w2\<lparr>ulNextTxSequenceNumber := ulNextTxSequenceNumber w2 + word_of_int lToWrite\<rparr>))"

text \<open>One new segment: the number of bytes in it, or nothing when the pool is empty.\<close>

definition tx_new_segment :: "u32 \<Rightarrow> int \<Rightarrow> int \<Rightarrow> TCPWindow_t \<Rightarrow> (int \<times> TCPWindow_t) option" where
  "tx_new_segment now lBytesLeft lBufferIndex w =
     (case xTCPWindowNew now (ulNextTxSequenceNumber w) (uint (usMSS w)) False w of
        (None, _) \<Rightarrow> None
      | (Some i, w1) \<Rightarrow>
          let lToWrite = min lBytesLeft (lMaxLength (seg w1 i));
              w2 = upd_seg i (\<lambda>g. g\<lparr>lDataLength := lToWrite, lStreamPos := lBufferIndex\<rparr>) w1;
              w3 = w2\<lparr>ulNextTxSequenceNumber := ulNextTxSequenceNumber w2 + word_of_int lToWrite, xTxQueue := vListInsertFifo (xTxQueue w2) i\<rparr>
          in Some (lToWrite, w3\<lparr>pxHeadSegment := if lDataLength (seg w3 i) < lMaxLength (seg w3 i) then Some i else None\<rparr>))"

lemma tx_new_segment_pool: "tx_new_segment now l p w = Some (n, w') \<Longrightarrow> length (xSegmentList w') < length (xSegmentList w)"
  by (auto simp: tx_new_segment_def xTCPWindowNew_def upd_seg_def Let_def split: list.splits)

function tx_add_loop :: "u32 \<Rightarrow> int \<Rightarrow> int \<Rightarrow> int \<Rightarrow> int \<Rightarrow> TCPWindow_t \<Rightarrow> int \<times> TCPWindow_t" where
  "tx_add_loop now lMax lBytesLeft lBufferIndex lDone w =
     (if 0 < lBytesLeft
      then (case tx_new_segment now lBytesLeft lBufferIndex w of
              None \<Rightarrow> (lDone, w)
            | Some (lToWrite, w1) \<Rightarrow>
                tx_add_loop now lMax (lBytesLeft - lToWrite) (lTCPIncrementTxPosition lBufferIndex lMax lToWrite) (lDone + lToWrite) w1)
      else (lDone, w))"
  by auto

termination by (relation "measure (\<lambda>(_, _, _, _, _, w). length (xSegmentList w))") (auto dest: tx_new_segment_pool)

declare tx_add_loop.simps [simp del]

definition lTCPWindowTxAdd :: "u32 \<Rightarrow> u32 \<Rightarrow> int \<Rightarrow> int \<Rightarrow> TCPWindow_t \<Rightarrow> int \<times> TCPWindow_t" where
  "lTCPWindowTxAdd now ulLength lPosition lMax w =
     (let lBytesLeft = sint ulLength
      in case pxHeadSegment w of
           None \<Rightarrow> tx_add_loop now lMax lBytesLeft lPosition 0 w
         | Some i \<Rightarrow>
             if lDataLength (seg w i) < lMaxLength (seg w i) \<and> \<not> bOutstanding (seg w i) \<and> lDataLength (seg w i) \<noteq> 0
             then let (lToWrite, w1) = prvTCPWindowTxAdd_FrontSegment i lBytesLeft w
                  in tx_add_loop now lMax (lBytesLeft - lToWrite) (lTCPIncrementTxPosition lPosition lMax lToWrite) lToWrite w1
             else tx_add_loop now lMax lBytesLeft lPosition 0 w)"

definition xTCPWindowTxDone :: "TCPWindow_t \<Rightarrow> bool" where
  "xTCPWindowTxDone w \<longleftrightarrow> xTxSegments w = []"


subsection \<open>Choosing what to send\<close>

definition tx_outstanding :: "TCPWindow_t \<Rightarrow> u32" where
  "tx_outstanding w = (if ulCurrentSequenceNumber (tx w) \<le> ulHighestSequenceNumber (tx w)
     then ulHighestSequenceNumber (tx w) - ulCurrentSequenceNumber (tx w) else 0)"

definition prvTCPWindowTxHasSpace :: "u32 \<Rightarrow> TCPWindow_t \<Rightarrow> bool" where
  "prvTCPWindowTxHasSpace winsize w =
     (case xTCPWindowPeekHead (xTxQueue w) of
        None \<Rightarrow> False
      | Some i \<Rightarrow>
          let ulTxOutstanding = tx_outstanding w;
              ulNettSize = winsize - min winsize ulTxOutstanding;
              len = word_of_int (lDataLength (seg w i))
          in len \<le> ulNettSize \<and> \<not> (ulTxOutstanding \<noteq> 0 \<and> ulTxWindowLength w < ulTxOutstanding + len))"

text \<open>The tick of the kernel is a millisecond.\<close>

definition ulTimerGetAge :: "u32 \<Rightarrow> TCPSegment_t \<Rightarrow> u32" where
  "ulTimerGetAge now g = now - uxBorn g"

text \<open>
  How long an outstanding segment waits for its acknowledgement. (From a transmit count of 32 on the shift of the code has no defined value; here it is 0. A
  connection is given up long before, and nothing below depends on the value.)
\<close>

definition max_age :: "TCPWindow_t \<Rightarrow> nat \<Rightarrow> u32" where
  "max_age w i = push_bit (unat (ucTransmitCount (seg w i))) 1 * word_of_int (lSRTT w)"

definition xTCPWindowTxHasData :: "u32 \<Rightarrow> u32 \<Rightarrow> TCPWindow_t \<Rightarrow> bool \<times> u32" where
  "xTCPWindowTxHasData now winsize w =
     (if xPriorityQueue w \<noteq> [] then (True, 0)
      else case xTCPWindowPeekHead (xWaitQueue w) of
             Some i \<Rightarrow>
               let ulAge = ulTimerGetAge now (seg w i); ulMaxAge = max_age w i
               in (True, if ulAge < ulMaxAge then ulMaxAge - ulAge else 0)
           | None \<Rightarrow>
               (case xTCPWindowPeekHead (xTxQueue w) of
                  None \<Rightarrow> (False, 0)
                | Some i \<Rightarrow> (prvTCPWindowTxHasSpace winsize w \<and> \<not> (bSendFullSize w \<and> lDataLength (seg w i) < lMaxLength (seg w i)), 0)))"

definition pxTCPWindowTx_GetWaitQueue :: "u32 \<Rightarrow> TCPWindow_t \<Rightarrow> nat option \<times> TCPWindow_t" where
  "pxTCPWindowTx_GetWaitQueue now w =
     (case xTCPWindowPeekHead (xWaitQueue w) of
        None \<Rightarrow> (None, w)
      | Some i \<Rightarrow>
          if max_age w i < ulTimerGetAge now (seg w i)
          then (Some i, upd_seg i (\<lambda>g. g\<lparr>ucDupAckCount := 0\<rparr>) (w\<lparr>xWaitQueue := tl (xWaitQueue w)\<rparr>))
          else (None, w))"

definition pxTCPWindowTx_GetTXQueue :: "u32 \<Rightarrow> TCPWindow_t \<Rightarrow> nat option \<times> TCPWindow_t" where
  "pxTCPWindowTx_GetTXQueue winsize w =
     (case xTCPWindowPeekHead (xTxQueue w) of
        None \<Rightarrow> (None, w)
      | Some i \<Rightarrow>
          if bSendFullSize w \<and> lDataLength (seg w i) < lMaxLength (seg w i) then (None, w)
          else if \<not> prvTCPWindowTxHasSpace winsize w then (None, w)
          else
            let w1 = w\<lparr>xTxQueue := tl (xTxQueue w)\<rparr>;
                w2 = (if pxHeadSegment w1 = Some i then w1\<lparr>pxHeadSegment := None\<rparr> else w1)
            in (Some i, w2\<lparr>tx := (tx w2)\<lparr>ulHighestSequenceNumber := ulSequenceNumber (seg w2 i) + word_of_int (lDataLength (seg w2 i))\<rparr>\<rparr>))"

definition pick_segment :: "u32 \<Rightarrow> u32 \<Rightarrow> TCPWindow_t \<Rightarrow> nat option \<times> TCPWindow_t" where
  "pick_segment now winsize w =
     (case xTCPWindowGetHead (xPriorityQueue w) of
        Some (i, rest) \<Rightarrow> (Some i, w\<lparr>xPriorityQueue := rest\<rparr>)
      | None \<Rightarrow>
          (case pxTCPWindowTx_GetWaitQueue now w of
             (Some i, w1) \<Rightarrow> (Some i, w1)
           | (None, w1) \<Rightarrow> pxTCPWindowTx_GetTXQueue winsize w1))"

definition MAX_TRANSMIT_COUNT_USING_LARGE_WINDOW :: u8 where "MAX_TRANSMIT_COUNT_USING_LARGE_WINDOW = 4"

definition mark_sent :: "u32 \<Rightarrow> nat \<Rightarrow> TCPWindow_t \<Rightarrow> TCPWindow_t" where
  "mark_sent now i w =
     (let w1 = w\<lparr>xWaitQueue := vListInsertFifo (xWaitQueue w) i\<rparr>;
          w2 = upd_seg i (\<lambda>g. g\<lparr>bOutstanding := True, ucTransmitCount := ucTransmitCount g + 1\<rparr>) w1;
          w3 = (if ucTransmitCount (seg w2 i) = MAX_TRANSMIT_COUNT_USING_LARGE_WINDOW \<and> 2 * ucast (usMSS w2) < ulTxWindowLength w2
                then w2\<lparr>ulTxWindowLength := ucast (usMSS w2 * 2)\<rparr> else w2);
          w4 = upd_seg i (\<lambda>g. g\<lparr>uxBorn := now\<rparr>) w3
      in w4\<lparr>ulOurSequenceNumber := ulSequenceNumber (seg w4 i)\<rparr>)"

text \<open>The length and the position of the data in the stream; length 0 when there is nothing to send. A segment that is still in a queue fails the assertion.\<close>

definition ulTCPWindowTxGet :: "u32 \<Rightarrow> u32 \<Rightarrow> TCPWindow_t \<Rightarrow> (u32 \<times> int option \<times> TCPWindow_t) option" where
  "ulTCPWindowTxGet now winsize w =
     (let (found, w1) = pick_segment now winsize (w\<lparr>ulOurSequenceNumber := ulHighestSequenceNumber (tx w)\<rparr>)
      in case found of
           None \<Rightarrow> Some (0, None, w1)
         | Some i \<Rightarrow>
             if i \<in> set (xPriorityQueue w1) \<union> set (xTxQueue w1) \<union> set (xWaitQueue w1) then None
             else let w2 = mark_sent now i w1
                  in Some (word_of_int (lDataLength (seg w2 i)), Some (lStreamPos (seg w2 i)), w2))"


subsection \<open>Acknowledgements\<close>

definition ipINT32_MAX_VALUE :: int where "ipINT32_MAX_VALUE = 2147483647"
definition ipINT32_MIN_VALUE :: int where "ipINT32_MIN_VALUE = - 2147483648"

definition FreeRTOS_add_int32 :: "int \<Rightarrow> int \<Rightarrow> int" where
  "FreeRTOS_add_int32 a b =
     (if 0 < a \<and> ipINT32_MAX_VALUE - a < b then ipINT32_MAX_VALUE
      else if a < 0 \<and> b < ipINT32_MIN_VALUE - a then ipINT32_MIN_VALUE
      else a + b)"

definition FreeRTOS_multiply_int32 :: "int \<Rightarrow> int \<Rightarrow> int" where
  "FreeRTOS_multiply_int32 a b =
     (if 0 < a
      then if 0 < b \<and> ipINT32_MAX_VALUE sdiv b < a then ipINT32_MAX_VALUE
           else if b < 0 \<and> b < ipINT32_MIN_VALUE sdiv a then ipINT32_MIN_VALUE
           else a * b
      else if 0 < b \<and> a < ipINT32_MIN_VALUE sdiv b then ipINT32_MIN_VALUE
      else if b < 0 \<and> a < ipINT32_MAX_VALUE sdiv b then ipINT32_MAX_VALUE
      else a * b)"

definition winSRTT_CAP_mS :: int where "winSRTT_CAP_mS = 50"

definition prvTCPWindowTxCheckAck_CalcSRTT :: "u32 \<Rightarrow> nat \<Rightarrow> TCPWindow_t \<Rightarrow> TCPWindow_t" where
  "prvTCPWindowTxCheckAck_CalcSRTT now i w =
     (let age = sint (ulTimerGetAge now (seg w i));
          mS = (if age < 0 then ipINT32_MAX_VALUE else age);
          (lWeight, lNew) = (if mS \<le> lSRTT w then (7, 1) else (6, 2));
          lSum = FreeRTOS_add_int32 (FreeRTOS_multiply_int32 (lSRTT w) lWeight) (FreeRTOS_multiply_int32 mS lNew);
          srtt = lSum sdiv (lNew + lWeight)
      in w\<lparr>lSRTT := if srtt < winSRTT_CAP_mS then winSRTT_CAP_mS else srtt\<rparr>)"

text \<open>
  The loop over the transmit segments. The iterator is moved before a segment may be unlinked, so that it runs through the list as it was.
\<close>

fun check_ack_loop :: "u32 \<Rightarrow> u32 \<Rightarrow> nat list \<Rightarrow> u32 \<Rightarrow> u32 \<Rightarrow> TCPWindow_t \<Rightarrow> u32 \<times> TCPWindow_t" where
  "check_ack_loop now ulLast [] sq confirmed w = (confirmed, w)"
| "check_ack_loop now ulLast (i # is) sq confirmed w =
     (if \<not> xSequenceLessThan sq ulLast then (confirmed, w)
      else if xSequenceGreaterThan sq (ulSequenceNumber (seg w i)) then check_ack_loop now ulLast is sq confirmed w
      else if sq \<noteq> ulSequenceNumber (seg w i) then (confirmed, w)
      else
        let len = word_of_int (lDataLength (seg w i))
        in if \<not> bAcked (seg w i) \<and> xSequenceGreaterThan (ulSequenceNumber (seg w i) + len) ulLast then (confirmed, w)
           else
             let fresh = \<not> bAcked (seg w i);
                 w1 = (if fresh then
                         let wa = upd_seg i (\<lambda>g. g\<lparr>bAcked := True\<rparr>) w
                         in if ucTransmitCount (seg wa i) = 1 \<and> ulSequenceNumber (seg wa i) + len = ulLast
                            then prvTCPWindowTxCheckAck_CalcSRTT now i wa else wa
                       else w)
             in if sq = ulCurrentSequenceNumber (tx w1)
                then check_ack_loop now ulLast is (sq + len) (confirmed + len)
                       (vTCPWindowFree i (w1\<lparr>tx := (tx w1)\<lparr>ulCurrentSequenceNumber := ulCurrentSequenceNumber (tx w1) + len\<rparr>\<rparr>))
                else check_ack_loop now ulLast is (sq + len) confirmed (if fresh then unlink_queue i w1 else w1))"

definition prvTCPWindowTxCheckAck :: "u32 \<Rightarrow> u32 \<Rightarrow> u32 \<Rightarrow> TCPWindow_t \<Rightarrow> u32 \<times> TCPWindow_t" where
  "prvTCPWindowTxCheckAck now ulFirst ulLast w = check_ack_loop now ulLast (xTxSegments w) ulFirst 0 w"

definition DUPLICATE_ACKS_BEFORE_FAST_RETRANSMIT :: u8 where "DUPLICATE_ACKS_BEFORE_FAST_RETRANSMIT = 3"

fun fast_retransmit_loop :: "u32 \<Rightarrow> nat list \<Rightarrow> u32 \<Rightarrow> TCPWindow_t \<Rightarrow> u32 \<times> TCPWindow_t" where
  "fast_retransmit_loop ulFirst [] ulCount w = (ulCount, w)"
| "fast_retransmit_loop ulFirst (i # is) ulCount w =
     (if \<not> bAcked (seg w i) \<and> xSequenceLessThan (ulSequenceNumber (seg w i)) ulFirst
      then let w1 = upd_seg i (\<lambda>g. g\<lparr>ucDupAckCount := ucDupAckCount g + 1\<rparr>) w
           in if ucDupAckCount (seg w1 i) = DUPLICATE_ACKS_BEFORE_FAST_RETRANSMIT
              then let w2 = upd_seg i (\<lambda>g. g\<lparr>ucTransmitCount := 0\<rparr>) w1
                   in fast_retransmit_loop ulFirst is (ulCount + 1)
                        (w2\<lparr>xWaitQueue := remove1 i (xWaitQueue w2), xPriorityQueue := vListInsertFifo (xPriorityQueue w2) i\<rparr>)
              else fast_retransmit_loop ulFirst is ulCount w1
      else fast_retransmit_loop ulFirst is ulCount w)"

definition prvTCPWindowFastRetransmit :: "u32 \<Rightarrow> TCPWindow_t \<Rightarrow> u32 \<times> TCPWindow_t" where
  "prvTCPWindowFastRetransmit ulFirst w = fast_retransmit_loop ulFirst (xWaitQueue w) 0 w"

definition ulTCPWindowTxAck :: "u32 \<Rightarrow> u32 \<Rightarrow> TCPWindow_t \<Rightarrow> u32 \<times> TCPWindow_t" where
  "ulTCPWindowTxAck now sq w =
     (let ulFirst = ulCurrentSequenceNumber (tx w)
      in if xSequenceLessThanOrEqual sq ulFirst then (0, w) else prvTCPWindowTxCheckAck now ulFirst sq w)"

definition ulTCPWindowTxSack :: "u32 \<Rightarrow> u32 \<Rightarrow> u32 \<Rightarrow> TCPWindow_t \<Rightarrow> u32 \<times> TCPWindow_t" where
  "ulTCPWindowTxSack now ulFirst ulLast w =
     (let (ulAckCount, w1) = prvTCPWindowTxCheckAck now ulFirst ulLast w
      in (ulAckCount, snd (prvTCPWindowFastRetransmit ulFirst w1)))"


subsection \<open>The socket\<close>

definition prvTCPAddTxData :: "u32 \<Rightarrow> tcp_socket \<Rightarrow> tcp_socket option" where
  "prvTCPAddTxData now s =
     (case txStream s of
        None \<Rightarrow> None
      | Some b \<Rightarrow>
          Some (if 0 < sint (uxStreamBufferMidSpace b)
                then let (lCount, w) = lTCPWindowTxAdd now (uxStreamBufferMidSpace b) (sint (uxMid b)) (sint (uxLENGTH b)) (xTCPWindow s)
                     in s\<lparr>xTCPWindow := w, txStream := Some (if 0 < lCount then vStreamBufferMoveMid (word_of_int lCount) b else b)\<rparr>
                else s))"

text \<open>Bytes that have been acknowledged leave the stream.\<close>

definition confirm_bytes :: "bool \<Rightarrow> u32 \<Rightarrow> tcp_socket \<Rightarrow> tcp_socket option" where
  "confirm_bytes always ulCount s =
     (case txStream s of
        None \<Rightarrow> Some s
      | Some b \<Rightarrow>
          if 0 < ulCount
          then (case uxStreamBufferGet 0 False ulCount False b of
                  None \<Rightarrow> None
                | Some (n, _, b') \<Rightarrow>
                    let s1 = s\<lparr>txStream := Some b'\<rparr>
                    in Some (if always \<or> n \<noteq> 0 then s1\<lparr>xEventBits := xEventBits s1 OR eSOCKET_SEND\<rparr> else s1))
          else Some s)"

text \<open>The acknowledgement in a packet, as \<open>prvHandleEstablished\<close> treats it.\<close>

definition handle_ack :: "u32 \<Rightarrow> u32 \<Rightarrow> tcp_socket \<Rightarrow> tcp_socket option" where
  "handle_ack now ulAckNr s =
     (let (ulCount, w) = ulTCPWindowTxAck now ulAckNr (xTCPWindow s)
      in case confirm_bytes False ulCount (s\<lparr>xTCPWindow := w\<rparr>) of
           None \<Rightarrow> None
         | Some s1 \<Rightarrow>
             (case (if txStream s1 \<noteq> None then prvTCPAddTxData now s1 else Some s1) of
                None \<Rightarrow> None
              | Some s2 \<Rightarrow> Some (s2\<lparr>xTCPWindow := (xTCPWindow s2)\<lparr>ulOurSequenceNumber := ulCurrentSequenceNumber (tx (xTCPWindow s2))\<rparr>\<rparr>)))"

definition ulChar2u32 :: "u8 list \<Rightarrow> u32" where
  "ulChar2u32 p = push_bit 24 (ucast (p ! 0)) OR push_bit 16 (ucast (p ! 1)) OR push_bit 8 (ucast (p ! 2)) OR ucast (p ! 3)"

definition prvReadSackOption :: "u32 \<Rightarrow> u8 list \<Rightarrow> nat \<Rightarrow> tcp_socket \<Rightarrow> tcp_socket option" where
  "prvReadSackOption now pucPtr uxIndex s =
     (if length pucPtr < uxIndex + 8 then None
      else let (ulCount, w) = ulTCPWindowTxSack now (ulChar2u32 (drop uxIndex pucPtr)) (ulChar2u32 (drop (uxIndex + 4) pucPtr)) (xTCPWindow s)
           in confirm_bytes True ulCount (s\<lparr>xTCPWindow := w\<rparr>))"

definition tcpTCP_FLAG_FIN :: u8 where "tcpTCP_FLAG_FIN = 0x01"
definition tcpTCP_FLAG_PSH :: u8 where "tcpTCP_FLAG_PSH = 0x08"
definition tcpTCP_FLAG_ACK :: u8 where "tcpTCP_FLAG_ACK = 0x10"

text \<open>The data of the next packet: its length or \<open>-1\<close>, the flags and the bytes. \<open>got_buffer\<close>: a network buffer of the needed size could be had.\<close>

definition prepare_data :: "u32 \<Rightarrow> bool \<Rightarrow> u8 \<Rightarrow> tcp_socket \<Rightarrow> (int \<times> u8 \<times> u8 list \<times> tcp_socket) option" where
  "prepare_data now got_buffer flags s =
     (case txStream s of
        None \<Rightarrow> Some (0, flags, [], s)
      | Some b \<Rightarrow>
          if \<not> 1 < sock_usMSS s then Some (0, flags, [], s)
          else (case ulTCPWindowTxGet now (ulWindowSize s) (xTCPWindow s) of
                  None \<Rightarrow> None
                | Some (len, pos, w) \<Rightarrow>
                    let s1 = s\<lparr>xTCPWindow := w\<rparr>; lDataLen = sint len; lStreamPos = word_of_int (case pos of None \<Rightarrow> 0 | Some p \<Rightarrow> p)
                    in if \<not> 0 < lDataLen then Some (lDataLen, flags, [], s1)
                       else if \<not> got_buffer then Some (-1, flags, [], s1)
                       else (case uxStreamBufferGet (uxStreamBufferDistance b (uxTail b) lStreamPos) True len True b of
                               None \<Rightarrow> None
                             | Some (ulDataGot, data, b') \<Rightarrow>
                                 Some (if bCloseRequested s1 \<and> uxStreamBufferDistance b lStreamPos (uxHead b) = ulDataGot
                                       then (lDataLen, flags OR tcpTCP_FLAG_FIN, data,
                                             s1\<lparr>xTCPWindow := w\<lparr>tx := (tx w)\<lparr>ulFINSequenceNumber := ulOurSequenceNumber w + len\<rparr>\<rparr>, bFinSent := True\<rparr>)
                                       else (lDataLen, flags, data, s1)))))"

text \<open>The shutdown the owner asked for, and the keep-alive messages of an idle connection.\<close>

definition prepare_shutdown :: "u32 \<Rightarrow> u8 \<Rightarrow> tcp_socket \<Rightarrow> (u8 \<times> tcp_socket) option" where
  "prepare_shutdown now flags s =
     (if bUserShutdown s \<and> xTCPWindowTxDone (xTCPWindow s)
      then let w = xTCPWindow s
           in map_option (\<lambda>s1. (flags OR tcpTCP_FLAG_FIN, s1))
                (vTCPStateChange now eFIN_WAIT_1 (s\<lparr>bUserShutdown := False, bFinSent := True, bWinChange := True,
                   xTCPWindow := w\<lparr>tx := (tx w)\<lparr>ulFINSequenceNumber := ulCurrentSequenceNumber (tx w)\<rparr>\<rparr>\<rparr>))
      else Some (flags, s))"

definition prepare_keep_alive :: "u32 \<Rightarrow> int \<Rightarrow> tcp_socket \<Rightarrow> (int \<times> tcp_socket) option" where
  "prepare_keep_alive now lDataLen s =
     (case (if 3 < ucKeepRepCount s then map_option (\<lambda>s1. (-1, s1)) (vTCPStateChange now eCLOSE_WAIT s) else Some (lDataLen, s)) of
        None \<Rightarrow> None
      | Some (n, s1) \<Rightarrow>
          Some (n, if n = 0 \<and> \<not> bWinChange s1 \<and> (if ucKeepRepCount s1 \<noteq> 0 then 3000 else 20000) < now - xLastAliveTime s1
                   then s1\<lparr>xLastAliveTime := now, bSendKeepAlive := True, usTimeout := 2500, ucKeepRepCount := ucKeepRepCount s1 + 1\<rparr>
                   else s1))"

text \<open>The length of the message behind the Ethernet header, zero if there is nothing to send, or \<open>-1\<close>; headers take 40 bytes and the options.\<close>

definition prvTCPPrepareSend :: "u32 \<Rightarrow> bool \<Rightarrow> u8 \<Rightarrow> nat \<Rightarrow> tcp_socket \<Rightarrow> (int \<times> u8 \<times> u8 list \<times> tcp_socket) option" where
  "prvTCPPrepareSend now got_buffer flags uxOptionsLength s =
     (case prepare_data now got_buffer (flags OR tcpTCP_FLAG_ACK) s of
        None \<Rightarrow> None
      | Some (lDataLen, flags, data, s1) \<Rightarrow>
          (case (if 0 \<le> lDataLen \<and> eTCPState s1 = eESTABLISHED
                 then (case prepare_shutdown now flags s1 of
                         None \<Rightarrow> None
                       | Some (flags, s2) \<Rightarrow> map_option (\<lambda>(n, s3). (n, flags, s3)) (prepare_keep_alive now lDataLen s2))
                 else Some (lDataLen, flags, s1)) of
             None \<Rightarrow> None
           | Some (n, flags, s2) \<Rightarrow>
               Some (if 0 \<le> n \<and> (0 < n \<or> bWinChange s2 \<or> bSendKeepAlive s2)
                     then (n + 40 + int uxOptionsLength,
                           let f = (flags AND NOT tcpTCP_FLAG_PSH) OR tcpTCP_FLAG_ACK in if n \<noteq> 0 then f OR tcpTCP_FLAG_PSH else f, data, s2)
                     else (n, flags, data, s2))))"

record tcp_packet =
  pk_seq :: u32
  pk_ack :: u32
  pk_flags :: u8
  pk_length :: int
  pk_data :: "u8 list"

definition prvTCPReturn_SetSequenceNumber :: "u8 \<Rightarrow> int \<Rightarrow> tcp_socket \<Rightarrow> u32 \<times> u8 \<times> tcp_socket" where
  "prvTCPReturn_SetSequenceNumber flags ulLen s =
     (let w = xTCPWindow s
      in if bSendKeepAlive s
         then (ulOurSequenceNumber w - 1, flags, s\<lparr>bSendKeepAlive := False, bWaitKeepAlive := True\<rparr>)
         else (ulOurSequenceNumber w,
               if flags AND tcpTCP_FLAG_FIN \<noteq> 0 \<and> ulOurSequenceNumber w + word_of_int (ulLen - 40) \<noteq> ulFINSequenceNumber (tx w)
               then flags AND NOT tcpTCP_FLAG_FIN else flags, s))"

text \<open>A round of \<open>prvTCPSendRepeated\<close>: a packet is prepared and, if there is something to send, gets its numbers and leaves.\<close>

definition send_round :: "u32 \<Rightarrow> bool \<Rightarrow> u8 \<Rightarrow> nat \<Rightarrow> tcp_socket \<Rightarrow> (tcp_packet option \<times> tcp_socket) option" where
  "send_round now got_buffer flags uxOptionsLength s =
     (case prvTCPPrepareSend now got_buffer flags uxOptionsLength s of
        None \<Rightarrow> None
      | Some (xSendLength, flags, data, s1) \<Rightarrow>
          Some (if xSendLength \<le> 0 then (None, s1)
                else let (sq, flags, s2) = prvTCPReturn_SetSequenceNumber flags xSendLength s1
                     in (Some \<lparr>pk_seq = sq, pk_ack = ulCurrentSequenceNumber (rx (xTCPWindow s2)), pk_flags = flags,
                              pk_length = xSendLength, pk_data = data\<rparr>, s2)))"


subsection \<open>What the transmit side leaves alone\<close>

definition same_rx :: "TCPWindow_t \<Rightarrow> TCPWindow_t \<Rightarrow> bool" where
  "same_rx w w' \<longleftrightarrow> xRxSegments w' = xRxSegments w \<and> rx w' = rx w \<and> ulUserDataLength w' = ulUserDataLength w \<and>
     (\<forall>i\<in>set (xRxSegments w). seg w' i = seg w i)"

lemma same_rx_refl [simp]: "same_rx w w"
  by (simp add: same_rx_def)

lemma same_rx_trans: "same_rx w w1 \<Longrightarrow> same_rx w1 w2 \<Longrightarrow> same_rx w w2"
  by (simp add: same_rx_def)

lemma seg_upd: "i < length (xTCPSegments w) \<Longrightarrow> seg (upd_seg i f w) j = (if j = i then f (seg w i) else seg w j)"
  by (simp add: upd_seg_def nth_list_update)

lemma upd_seg_fields [simp]:
  "xTxSegments (upd_seg i f w) = xTxSegments w" "xRxSegments (upd_seg i f w) = xRxSegments w" "xSegmentList (upd_seg i f w) = xSegmentList w"
  "xPriorityQueue (upd_seg i f w) = xPriorityQueue w" "xTxQueue (upd_seg i f w) = xTxQueue w" "xWaitQueue (upd_seg i f w) = xWaitQueue w"
  "tx (upd_seg i f w) = tx w" "rx (upd_seg i f w) = rx w" "pxHeadSegment (upd_seg i f w) = pxHeadSegment w" "usMSS (upd_seg i f w) = usMSS w"
  "ulNextTxSequenceNumber (upd_seg i f w) = ulNextTxSequenceNumber w" "ulUserDataLength (upd_seg i f w) = ulUserDataLength w"
  "length (xTCPSegments (upd_seg i f w)) = length (xTCPSegments w)" "segments_ok (upd_seg i f w) = segments_ok w"
  "ulOurSequenceNumber (upd_seg i f w) = ulOurSequenceNumber w"
  by (simp_all add: upd_seg_def segments_ok_def)

lemma same_rx_upd: "segments_ok w \<Longrightarrow> i \<notin> set (xRxSegments w) \<Longrightarrow> i < length (xTCPSegments w) \<Longrightarrow> same_rx w (upd_seg i f w)"
  by (auto simp: same_rx_def seg_upd)

lemma tx_member:
  assumes "segments_ok w" "i \<in> set (xTxSegments w)"
  shows "i < length (xTCPSegments w)" "i \<notin> set (xRxSegments w)" "i \<notin> set (xSegmentList w)"
  using segments_okD(4,5)[OF assms(1)] segments_okD(6)[OF assms(1), of i] assms(2) by auto


subsection \<open>The window covers the stream\<close>

text \<open>
  The segments of a list cover positions \<open>p\<close> to \<open>q\<close> of the stream without gap: each is numbered by its first byte, its data lies in the ring of \<open>L\<close> cells at
  that position, and it is marked as acknowledged only if its positions are in \<open>K\<close>, the positions the peer has acknowledged.
\<close>

fun tiles :: "u32 \<Rightarrow> nat \<Rightarrow> nat set \<Rightarrow> TCPWindow_t \<Rightarrow> nat list \<Rightarrow> nat \<Rightarrow> nat \<Rightarrow> bool" where
  "tiles isn L K w [] p q \<longleftrightarrow> p = q"
| "tiles isn L K w (i # is) p q \<longleftrightarrow>
     (let n = nat (lDataLength (seg w i))
      in 0 < lDataLength (seg w i) \<and> ulSequenceNumber (seg w i) = seqno isn p \<and> lStreamPos (seg w i) = int (p mod L) \<and>
         (bAcked (seg w i) \<longrightarrow> {p..<p + n} \<subseteq> K) \<and> tiles isn L K w is (p + n) q)"

definition tx_window :: "u32 \<Rightarrow> nat \<Rightarrow> nat set \<Rightarrow> nat \<Rightarrow> nat \<Rightarrow> nat \<Rightarrow> TCPWindow_t \<Rightarrow> bool" where
  "tx_window isn L K a h e w \<longleftrightarrow> segments_ok w \<and> ulCurrentSequenceNumber (tx w) = seqno isn a \<and> ulHighestSequenceNumber (tx w) = seqno isn h \<and>
     ulNextTxSequenceNumber w = seqno isn e \<and> usMSS w \<noteq> 0 \<and> {..<a} \<subseteq> K \<and>
     (\<exists>sent. xTxSegments w = sent @ xTxQueue w \<and> tiles isn L K w sent a h \<and> tiles isn L K w (xTxQueue w) h e \<and>
        set (xPriorityQueue w) \<union> set (xWaitQueue w) \<subseteq> set sent \<and>
        (\<forall>i\<in>set sent. bAcked (seg w i) \<or> i \<in> set (xPriorityQueue w) \<union> set (xWaitQueue w))) \<and>
     (\<forall>i\<in>set (xTxQueue w). \<not> bAcked (seg w i)) \<and> (\<forall>i. pxHeadSegment w = Some i \<longrightarrow> xTxQueue w \<noteq> [] \<and> last (xTxQueue w) = i)"

lemma tiles_le: "tiles isn L K w is p q \<Longrightarrow> p \<le> q"
  by (induction "is" arbitrary: p) (auto simp: Let_def dest: order_trans[OF le_add1])

lemma tiles_append: "tiles isn L K w (is @ js) p q \<longleftrightarrow> (\<exists>m. tiles isn L K w is p m \<and> tiles isn L K w js m q)"
  by (induction "is" arbitrary: p) (auto simp: Let_def)

definition same_data :: "TCPSegment_t \<Rightarrow> TCPSegment_t \<Rightarrow> bool" where
  "same_data g g' \<longleftrightarrow> ulSequenceNumber g' = ulSequenceNumber g \<and> lDataLength g' = lDataLength g \<and> lStreamPos g' = lStreamPos g \<and> bAcked g' = bAcked g"

lemma same_data_refl [simp]: "same_data g g"
  by (simp add: same_data_def)

lemma tiles_cong: "(\<And>i. i \<in> set is \<Longrightarrow> same_data (seg w i) (seg w' i)) \<Longrightarrow> tiles isn L K w' is p q = tiles isn L K w is p q"
  by (induction "is" arbitrary: p) (simp_all add: same_data_def Let_def)

lemma tiles_keep: "tiles isn L K w is p q \<Longrightarrow> (\<And>i. i \<in> set is \<Longrightarrow> same_data (seg w i) (seg w' i)) \<Longrightarrow> tiles isn L K w' is p q"
  using tiles_cong by blast

lemma tiles_mono: "tiles isn L K w is p q \<Longrightarrow> K \<subseteq> K' \<Longrightarrow> tiles isn L K' w is p q"
  by (induction "is" arbitrary: p) (auto simp: Let_def)

lemma tx_window_mono: "tx_window isn L K a h e w \<Longrightarrow> K \<subseteq> K' \<Longrightarrow> tx_window isn L K' a h e w"
  unfolding tx_window_def by (meson subset_trans tiles_mono)

text \<open>The tile of a segment.\<close>

lemma tiles_nth:
  assumes "tiles isn L K w is a e" "i \<in> set is"
  obtains p n where "0 < n" "a \<le> p" "p + n \<le> e" "ulSequenceNumber (seg w i) = seqno isn p" "lDataLength (seg w i) = int n"
    "lStreamPos (seg w i) = int (p mod L)"
  using assms
proof (induction "is" arbitrary: a thesis)
  case (Cons j js)
  define m where "m = nat (lDataLength (seg w j))"
  have m: "0 < m" "lDataLength (seg w j) = int m" "tiles isn L K w js (a + m) e" "ulSequenceNumber (seg w j) = seqno isn a" "lStreamPos (seg w j) = int (a mod L)"
    using Cons.prems(2) by (simp_all add: m_def Let_def)
  show ?case
  proof (cases "i = j")
    case True
    then show ?thesis using Cons.prems(1)[of m a] m tiles_le[OF m(3)] by simp
  next
    case False
    then have "i \<in> set js" using Cons.prems(3) by simp
    then show ?thesis using Cons.IH[OF _ m(3)] Cons.prems(1) m(1) by (metis add_leD1)
  qed
qed simp

lemma tx_windowD:
  assumes "tx_window isn L K a h e w"
  shows "segments_ok w" "ulCurrentSequenceNumber (tx w) = seqno isn a" "ulHighestSequenceNumber (tx w) = seqno isn h"
    "ulNextTxSequenceNumber w = seqno isn e" "usMSS w \<noteq> 0" "{..<a} \<subseteq> K" "a \<le> h" "h \<le> e"
  using assms tiles_le by (auto simp: tx_window_def)

lemma tx_windowE:
  assumes "tx_window isn L K a h e w"
  obtains sent where "xTxSegments w = sent @ xTxQueue w" "tiles isn L K w sent a h" "tiles isn L K w (xTxQueue w) h e"
    "set (xPriorityQueue w) \<union> set (xWaitQueue w) \<subseteq> set sent" "\<forall>i\<in>set sent. bAcked (seg w i) \<or> i \<in> set (xPriorityQueue w) \<union> set (xWaitQueue w)"
    "\<forall>i\<in>set (xTxQueue w). \<not> bAcked (seg w i)" "\<forall>i. pxHeadSegment w = Some i \<longrightarrow> xTxQueue w \<noteq> [] \<and> last (xTxQueue w) = i"
  using assms by (auto simp: tx_window_def)

lemma tx_windowI:
  assumes "segments_ok w" "ulCurrentSequenceNumber (tx w) = seqno isn a" "ulHighestSequenceNumber (tx w) = seqno isn h" "ulNextTxSequenceNumber w = seqno isn e"
    "usMSS w \<noteq> 0" "{..<a} \<subseteq> K" "xTxSegments w = sent @ xTxQueue w" "tiles isn L K w sent a h" "tiles isn L K w (xTxQueue w) h e"
    "set (xPriorityQueue w) \<union> set (xWaitQueue w) \<subseteq> set sent" "\<forall>i\<in>set sent. bAcked (seg w i) \<or> i \<in> set (xPriorityQueue w) \<union> set (xWaitQueue w)"
    "\<forall>i\<in>set (xTxQueue w). \<not> bAcked (seg w i)" "\<forall>i. pxHeadSegment w = Some i \<longrightarrow> xTxQueue w \<noteq> [] \<and> last (xTxQueue w) = i"
  shows "tx_window isn L K a h e w"
  using assms unfolding tx_window_def by blast

text \<open>Changes of fields that the data of the segments does not depend on.\<close>

lemma tx_window_cong:
  assumes "tx_window isn L K a h e w" "segments_ok w'" "\<And>i. i \<in> set (xTxSegments w) \<Longrightarrow> same_data (seg w i) (seg w' i)"
    and "xTxSegments w' = xTxSegments w" "xTxQueue w' = xTxQueue w" "set (xPriorityQueue w') \<union> set (xWaitQueue w') = set (xPriorityQueue w) \<union> set (xWaitQueue w)"
    and "tx w' = tx w" "ulNextTxSequenceNumber w' = ulNextTxSequenceNumber w" "usMSS w' = usMSS w" "pxHeadSegment w' = pxHeadSegment w"
  shows "tx_window isn L K a h e w'"
proof -
  obtain sent where s: "xTxSegments w = sent @ xTxQueue w" "tiles isn L K w sent a h" "tiles isn L K w (xTxQueue w) h e"
    "set (xPriorityQueue w) \<union> set (xWaitQueue w) \<subseteq> set sent" "\<forall>i\<in>set sent. bAcked (seg w i) \<or> i \<in> set (xPriorityQueue w) \<union> set (xWaitQueue w)"
    using assms(1) by (auto simp: tx_window_def)
  have "tiles isn L K w' sent a h" "tiles isn L K w' (xTxQueue w) h e"
    using s(2,3) tiles_cong[of sent w w'] tiles_cong[of "xTxQueue w" w w'] assms(3) s(1) by auto
  moreover have "\<forall>i\<in>set sent. bAcked (seg w' i) \<or> i \<in> set (xPriorityQueue w') \<union> set (xWaitQueue w')"
    using s(1,5) assms(3,6) by (auto simp: same_data_def)
  moreover have "\<forall>i\<in>set (xTxQueue w). \<not> bAcked (seg w' i)" using assms(1,3) s(1) by (auto simp: same_data_def tx_window_def)
  ultimately show ?thesis using assms(1,2,4-10) s(1,4) unfolding tx_window_def by auto
qed


subsection \<open>Adding data\<close>

lemma increment_position:
  assumes "0 < L" "n \<le> L"
  shows "lTCPIncrementTxPosition (int (e mod L)) (int L) (int n) = int ((e + n) mod L)"
proof -
  have m: "(e + n) mod L = (e mod L + n) mod L" by (simp add: mod_add_left_eq)
  have e: "e mod L < L" using assms(1) by simp
  show ?thesis
  proof (cases "L \<le> e mod L + n")
    case True
    then have "(e + n) mod L = e mod L + n - L" using m le_mod_geq[OF True] e assms(2) by simp
    then show ?thesis using True by (simp add: lTCPIncrementTxPosition_def of_nat_diff)
  qed (use m in \<open>simp add: lTCPIncrementTxPosition_def\<close>)
qed

text \<open>The last tile of a list may grow, and a list may get another tile.\<close>

lemma tiles_grow:
  assumes "tiles isn L K w (q @ [i]) h e" "distinct (q @ [i])" "\<not> bAcked (seg w i)" "0 \<le> n" "\<forall>j\<in>set q. same_data (seg w j) (seg w' j)"
    and "seg w' i = (seg w i)\<lparr>lDataLength := lDataLength (seg w i) + n\<rparr>"
  shows "tiles isn L K w' (q @ [i]) h (e + nat n)"
proof -
  obtain m where m: "tiles isn L K w q h m" "tiles isn L K w [i] m e" using assms(1) by (auto simp: tiles_append)
  have "tiles isn L K w' q h m" using m(1) tiles_cong[of q w w'] assms(5) by simp
  moreover have "tiles isn L K w' [i] m (e + nat n)" using m(2) assms(3,4,6) by (auto simp: Let_def)
  ultimately show ?thesis unfolding tiles_append by blast
qed

lemma front_spec:
  assumes win: "tx_window isn L K a h e w" and i: "pxHeadSegment w = Some i" "lDataLength (seg w i) < lMaxLength (seg w i)" and k: "0 < k"
  shows "\<exists>n w'. prvTCPWindowTxAdd_FrontSegment i (int k) w = (int n, w') \<and> 0 < n \<and> n \<le> k \<and> tx_window isn L K a h (e + n) w' \<and> same_rx w w'"
proof -
  define n where "n = min (int k) (lMaxLength (seg w i) - lDataLength (seg w i))"
  define w1 where "w1 = upd_seg i (\<lambda>g. g\<lparr>lDataLength := lDataLength g + n\<rparr>) w"
  obtain w' where w': "prvTCPWindowTxAdd_FrontSegment i (int k) w = (n, w')"
    "w' = (w1\<lparr>pxHeadSegment := if lMaxLength (seg w1 i) \<le> lDataLength (seg w1 i) then None else Some i, ulNextTxSequenceNumber := seqno isn e + word_of_int n\<rparr>)"
    using tx_windowD(4)[OF win] i(1) by (auto simp: prvTCPWindowTxAdd_FrontSegment_def n_def[symmetric] w1_def[symmetric] Let_def)
       (auto simp: w1_def)
  have n: "0 < n" "n \<le> int k" using i(2) k by (auto simp: n_def)
  obtain sent where s: "xTxSegments w = sent @ xTxQueue w" "tiles isn L K w sent a h" "tiles isn L K w (xTxQueue w) h e"
    "set (xPriorityQueue w) \<union> set (xWaitQueue w) \<subseteq> set sent" "\<forall>i\<in>set sent. bAcked (seg w i) \<or> i \<in> set (xPriorityQueue w) \<union> set (xWaitQueue w)"
    and q: "\<forall>i\<in>set (xTxQueue w). \<not> bAcked (seg w i)" "xTxQueue w \<noteq> []" "last (xTxQueue w) = i"
    using tx_windowE[OF win] i(1) by metis
  define q' where "q' = butlast (xTxQueue w)"
  have qi: "xTxQueue w = q' @ [i]" using append_butlast_last_id[OF q(2)] q(3) by (simp add: q'_def)
  have mem: "i \<in> set (xTxSegments w)" using s(1) qi by simp
  note ok = tx_windowD(1)[OF win]
  have d: "distinct (sent @ q' @ [i])" using segments_okD(2)[OF ok] s(1) qi by simp
  have seg1: "seg w' j = (if j = i then (seg w i)\<lparr>lDataLength := lDataLength (seg w i) + n\<rparr> else seg w j)" for j
    using seg_upd[OF tx_member(1)[OF ok mem]] w'(2) by (simp add: w1_def)
  have "tiles isn L K w' sent a h" using d seg1 by (intro tiles_keep[OF s(2)]) auto
  moreover have "tiles isn L K w' (q' @ [i]) h (e + nat n)"
    using tiles_grow[of isn L K w q' i h e n w'] s(3) q(1) qi d n(1) seg1 by auto
  moreover have "seqno isn e + word_of_int n = seqno isn (e + nat n)" using seqno_add[of isn e "nat n"] n(1) by simp
  moreover have "segments_ok w'" using ok w'(2) by (simp add: segments_ok_def w1_def upd_seg_def)
  moreover have "\<forall>j\<in>set sent. bAcked (seg w' j) \<or> j \<in> set (xPriorityQueue w) \<union> set (xWaitQueue w)" using s(5) d seg1 by auto
  moreover have "\<forall>j\<in>set (q' @ [i]). \<not> bAcked (seg w' j)" using q(1) qi seg1 by auto
  ultimately have "tx_window isn L K a h (e + nat n) w'"
    using win s(1,4) qi by (auto simp: tx_window_def w'(2) w1_def split: if_splits)
  moreover have "same_rx w w'" using tx_member(2)[OF ok mem] seg1 by (auto simp: same_rx_def w'(2) w1_def)
  ultimately show ?thesis using w'(1) n by (intro exI[of _ "nat n"] exI[of _ w']) auto
qed

lemma new_segment_spec:
  assumes win: "tx_window isn L K a h e w" and new: "tx_new_segment now (int k) (int (e mod L)) w = Some (c, w')" and k: "0 < k"
  shows "\<exists>n. c = int n \<and> 0 < n \<and> n \<le> k \<and> tx_window isn L K a h (e + n) w' \<and> same_rx w w'"
proof -
  note ok = tx_windowD(1)[OF win]
  obtain i w1 where w1: "xTCPWindowNew now (seqno isn e) (uint (usMSS w)) False w = (Some i, w1)"
    using new tx_windowD(4)[OF win] by (auto simp: tx_new_segment_def Let_def split: prod.splits option.splits)
  note f = new_fields[OF w1] and o1 = new_segments_ok[OF ok w1]
  note sg = new_segment[OF w1 o1(4)]
  define w2 where "w2 = upd_seg i (\<lambda>g. g\<lparr>lDataLength := c, lStreamPos := int (e mod L)\<rparr>) w1"
  have c: "c = min (int k) (uint (usMSS w))" and
    w': "w' = w2\<lparr>ulNextTxSequenceNumber := seqno isn e + word_of_int c, xTxQueue := xTxQueue w @ [i],
           pxHeadSegment := if c < uint (usMSS w) then Some i else None\<rparr>"
    using new w1 tx_windowD(4)[OF win] f(4,6,11) sg o1(4)
    by (auto simp: tx_new_segment_def w2_def vListInsertFifo_def Let_def seg_upd)
  have "0 < uint (usMSS w)" using tx_windowD(5)[OF win] by (metis uint_0_iff uint_ge_0 order_le_less)
  then have n: "0 < c" "c \<le> int k" using k c by auto
  obtain sent where s: "xTxSegments w = sent @ xTxQueue w" "tiles isn L K w sent a h" "tiles isn L K w (xTxQueue w) h e"
    "set (xPriorityQueue w) \<union> set (xWaitQueue w) \<subseteq> set sent" "\<forall>i\<in>set sent. bAcked (seg w i) \<or> i \<in> set (xPriorityQueue w) \<union> set (xWaitQueue w)"
    "\<forall>i\<in>set (xTxQueue w). \<not> bAcked (seg w i)" using tx_windowE[OF win] by metis
  have ni: "i \<notin> set sent" "i \<notin> set (xTxQueue w)" "i \<notin> set (xRxSegments w)" using o1(3) s(1) by auto
  have seg': "seg w' j = seg w j" if "j \<noteq> i" for j using f(10)[OF that] that f(4) o1(4) by (simp add: w' w2_def seg_upd)
  have segi: "ulSequenceNumber (seg w' i) = seqno isn e" "lDataLength (seg w' i) = c" "lStreamPos (seg w' i) = int (e mod L)" "\<not> bAcked (seg w' i)"
    using f(4) o1(4) sg by (simp_all add: w' w2_def seg_upd)
  have tl: "tiles isn L K w' sent a h" "tiles isn L K w' (xTxQueue w) h e"
    using ni seg' same_data_refl by (intro tiles_keep[OF s(2)] tiles_keep[OF s(3)]; metis)+
  have "tiles isn L K w' (xTxQueue w @ [i]) h (e + nat c)" unfolding tiles_append using tl(2) segi n(1) by (auto simp: Let_def)
  moreover have "seqno isn e + word_of_int c = seqno isn (e + nat c)" using seqno_add[of isn e "nat c"] n(1) by simp
  moreover have "segments_ok w'" using o1(1) f ni(2) s(1,4) ni(1) by (auto simp: segments_ok_def w' w2_def)
  moreover have "\<forall>j\<in>set sent. bAcked (seg w' j) \<or> j \<in> set (xPriorityQueue w) \<union> set (xWaitQueue w)" using s(5) ni seg' by metis
  moreover have "\<forall>j\<in>set (xTxQueue w @ [i]). \<not> bAcked (seg w' j)" using s(6) segi(4) seg' by (metis Un_iff empty_iff insert_iff set_append list.set)
  ultimately have "tx_window isn L K a h (e + nat c) w'"
    using tx_windowD[OF win] f s(1,4) tl(1) by (intro tx_windowI[where sent = sent]) (auto simp: w' w2_def split: if_splits)
  moreover have "\<forall>j\<in>set (xRxSegments w). seg w' j = seg w j" using ni(3) seg' by metis
  then have "same_rx w w'" using f(2,8,14) by (simp add: same_rx_def) (simp add: w' w2_def)
  ultimately show ?thesis using n by (intro exI[of _ "nat c"]) auto
qed

lemma add_loop_spec:
  assumes "tx_window isn L K a h e w" "0 < L" "k \<le> L"
  shows "\<exists>n w'. tx_add_loop now (int L) (int k) (int (e mod L)) d w = (d + int n, w') \<and> n \<le> k \<and> tx_window isn L K a h (e + n) w' \<and> same_rx w w'"
  using assms(1,3)
proof (induction "length (xSegmentList w)" arbitrary: k e d w rule: less_induct)
  case less
  show ?case
  proof (cases "0 < k \<and> (\<exists>c w1. tx_new_segment now (int k) (int (e mod L)) w = Some (c, w1))")
    case True
    then obtain c w1 where new: "tx_new_segment now (int k) (int (e mod L)) w = Some (c, w1)" by auto
    obtain n where n: "c = int n" "0 < n" "n \<le> k" "tx_window isn L K a h (e + n) w1" "same_rx w w1"
      using new_segment_spec[OF less.prems(1) new] True by auto
    obtain n' w' where "tx_add_loop now (int L) (int (k - n)) (int ((e + n) mod L)) (d + int n) w1 = (d + int n + int n', w')"
      "n' \<le> k - n" "tx_window isn L K a h (e + n + n') w'" "same_rx w1 w'"
      using less.hyps[OF tx_new_segment_pool[OF new] n(4), of "k - n" "d + int n"] le_trans[OF diff_le_self less.prems(2), of n] by metis
    moreover have "tx_add_loop now (int L) (int k) (int (e mod L)) d w = tx_add_loop now (int L) (int (k - n)) (int ((e + n) mod L)) (d + int n) w1"
      using True new n(1,3) increment_position[OF assms(2) le_trans[OF n(3) less.prems(2)], of e]
      by (subst tx_add_loop.simps) (simp add: of_nat_diff)
    moreover have "d + int n + int n' = d + int (n + n')" "e + n + n' = e + (n + n')" by simp_all
    ultimately show ?thesis using n(3) same_rx_trans[OF n(5)] by (intro exI[of _ "n + n'"] exI[of _ w']) simp
  next
    case False
    then have "tx_add_loop now (int L) (int k) (int (e mod L)) d w = (d, w)"
      by (subst tx_add_loop.simps) (auto split: option.splits)
    then show ?thesis using less.prems(1) by (intro exI[of _ 0] exI[of _ w]) simp
  qed
qed

text \<open>Of \<open>k\<close> new bytes, the first \<open>n\<close> are queued for transmission; fewer than \<open>k\<close> when the pool runs out of descriptors.\<close>

lemma window_add_spec:
  assumes win: "tx_window isn L K a h e w" and "0 < L" "k \<le> L" "sint ul = int k" "0 < k"
  shows "\<exists>n w'. lTCPWindowTxAdd now ul (int (e mod L)) (int L) w = (int n, w') \<and> n \<le> k \<and> tx_window isn L K a h (e + n) w' \<and> same_rx w w'"
proof (cases "\<exists>i. pxHeadSegment w = Some i \<and> lDataLength (seg w i) < lMaxLength (seg w i) \<and> \<not> bOutstanding (seg w i) \<and> lDataLength (seg w i) \<noteq> 0")
  case True
  then obtain i where i: "pxHeadSegment w = Some i" "lDataLength (seg w i) < lMaxLength (seg w i)" "\<not> bOutstanding (seg w i)" "lDataLength (seg w i) \<noteq> 0" by auto
  obtain m w1 where w1: "prvTCPWindowTxAdd_FrontSegment i (int k) w = (int m, w1)" "0 < m" "m \<le> k" "tx_window isn L K a h (e + m) w1" "same_rx w w1"
    using front_spec[OF win i(1,2) assms(5)] by auto
  obtain n w' where "tx_add_loop now (int L) (int (k - m)) (int ((e + m) mod L)) (int m) w1 = (int m + int n, w')" "n \<le> k - m"
    "tx_window isn L K a h (e + m + n) w'" "same_rx w1 w'"
    using add_loop_spec[OF w1(4) assms(2), of "k - m" now "int m"] le_trans[OF diff_le_self assms(3), of m] by metis
  then show ?thesis using i w1 assms(3,4) increment_position[OF assms(2), of m e]
    by (intro exI[of _ "m + n"] exI[of _ w']) (auto simp: lTCPWindowTxAdd_def Let_def of_nat_diff add.assoc intro: same_rx_trans)
next
  case False
  then have "lTCPWindowTxAdd now ul (int (e mod L)) (int L) w = tx_add_loop now (int L) (int k) (int (e mod L)) 0 w"
    using assms(4) by (auto simp: lTCPWindowTxAdd_def Let_def split: option.splits)
  then show ?thesis using add_loop_spec[OF win assms(2,3), of now 0] by simp
qed


subsection \<open>Taking a segment for transmission\<close>

lemma mark_sent_fields [simp]:
  "xTxSegments (mark_sent now i w) = xTxSegments w" "xRxSegments (mark_sent now i w) = xRxSegments w" "xSegmentList (mark_sent now i w) = xSegmentList w"
  "xPriorityQueue (mark_sent now i w) = xPriorityQueue w" "xTxQueue (mark_sent now i w) = xTxQueue w" "xWaitQueue (mark_sent now i w) = xWaitQueue w @ [i]"
  "tx (mark_sent now i w) = tx w" "rx (mark_sent now i w) = rx w" "pxHeadSegment (mark_sent now i w) = pxHeadSegment w" "usMSS (mark_sent now i w) = usMSS w"
  "ulNextTxSequenceNumber (mark_sent now i w) = ulNextTxSequenceNumber w" "ulUserDataLength (mark_sent now i w) = ulUserDataLength w"
  "length (xTCPSegments (mark_sent now i w)) = length (xTCPSegments w)"
  by (simp_all add: mark_sent_def vListInsertFifo_def Let_def)

lemma mark_sent_seg:
  assumes "i < length (xTCPSegments w)"
  shows "same_data (seg w j) (seg (mark_sent now i w) j)" "j \<noteq> i \<Longrightarrow> seg (mark_sent now i w) j = seg w j"
    "ulOurSequenceNumber (mark_sent now i w) = ulSequenceNumber (seg w i)"
  using assms by (simp_all add: mark_sent_def vListInsertFifo_def same_data_def Let_def nth_list_update upd_seg_def)

text \<open>A segment that was sent before: it goes to the end of the wait queue.\<close>

lemma resend_spec:
  assumes win: "tx_window isn L K a h e w" and i: "i < length (xTCPSegments w)" "i \<notin> set (xRxSegments w)"
    and q: "set (xPriorityQueue w) \<union> set (xWaitQueue w) = insert i (set (xPriorityQueue w1) \<union> set (xWaitQueue w1))"
      "distinct (xPriorityQueue w1 @ xTxQueue w @ xWaitQueue w1 @ [i])"
    and w1: "xTxSegments w1 = xTxSegments w" "xRxSegments w1 = xRxSegments w" "xSegmentList w1 = xSegmentList w" "xTxQueue w1 = xTxQueue w" "tx w1 = tx w" "rx w1 = rx w"
      "pxHeadSegment w1 = pxHeadSegment w" "usMSS w1 = usMSS w" "ulNextTxSequenceNumber w1 = ulNextTxSequenceNumber w" "ulUserDataLength w1 = ulUserDataLength w"
      "length (xTCPSegments w1) = length (xTCPSegments w)" "\<And>j. same_data (seg w j) (seg w1 j)" "\<And>j. j \<noteq> i \<Longrightarrow> seg w1 j = seg w j"
  shows "tx_window isn L K a h e (mark_sent now i w1)" "same_rx w (mark_sent now i w1)"
proof -
  have sd: "same_data (seg w j) (seg (mark_sent now i w1) j)" for j
    using mark_sent_seg(1)[of i w1 j now] i(1) w1(11) w1(12)[of j] by (simp add: same_data_def)
  have "segments_ok (mark_sent now i w1)" using tx_windowD(1)[OF win] q w1 by (auto simp: segments_ok_def)
  then show "tx_window isn L K a h e (mark_sent now i w1)" using q(1) sd w1(1-11) by (intro tx_window_cong[OF win]) auto
  have "\<forall>j\<in>set (xRxSegments w). seg (mark_sent now i w1) j = seg w j" using i w1(11,13) mark_sent_seg(2)[of i w1] by metis
  then show "same_rx w (mark_sent now i w1)" using w1 by (simp add: same_rx_def)
qed

text \<open>The first of the queued segments: now it is in the list of those that wait for their acknowledgement.\<close>

lemma first_send_spec:
  assumes win: "tx_window isn L K a h e w" and q: "xTxQueue w = i # q"
    and w1: "w1 = w\<lparr>xTxQueue := q, pxHeadSegment := if pxHeadSegment w = Some i then None else pxHeadSegment w,
      tx := (tx w)\<lparr>ulHighestSequenceNumber := ulSequenceNumber (seg w i) + word_of_int (lDataLength (seg w i))\<rparr>\<rparr>"
  shows "\<exists>n. 0 < n \<and> h + n \<le> e \<and> ulSequenceNumber (seg w i) = seqno isn h \<and> lDataLength (seg w i) = int n \<and> lStreamPos (seg w i) = int (h mod L) \<and>
    tx_window isn L K a (h + n) e (mark_sent now i w1) \<and> same_rx w (mark_sent now i w1)"
proof -
  note ok = tx_windowD(1)[OF win]
  obtain sent where s: "xTxSegments w = sent @ xTxQueue w" "tiles isn L K w sent a h" "tiles isn L K w (xTxQueue w) h e"
    "set (xPriorityQueue w) \<union> set (xWaitQueue w) \<subseteq> set sent" "\<forall>i\<in>set sent. bAcked (seg w i) \<or> i \<in> set (xPriorityQueue w) \<union> set (xWaitQueue w)"
    "\<forall>i\<in>set (xTxQueue w). \<not> bAcked (seg w i)" "\<forall>i. pxHeadSegment w = Some i \<longrightarrow> xTxQueue w \<noteq> [] \<and> last (xTxQueue w) = i" by (rule tx_windowE[OF win])
  have mem: "i \<in> set (xTxSegments w)" using s(1) q by simp
  define n where "n = nat (lDataLength (seg w i))"
  have n: "0 < n" "ulSequenceNumber (seg w i) = seqno isn h" "lDataLength (seg w i) = int n" "lStreamPos (seg w i) = int (h mod L)" "tiles isn L K w q (h + n) e"
    using s(3) q by (auto simp: n_def Let_def)
  have f: "xTCPSegments w1 = xTCPSegments w" "xTxSegments w1 = xTxSegments w" "xRxSegments w1 = xRxSegments w" "xSegmentList w1 = xSegmentList w" "xTxQueue w1 = q"
    "xPriorityQueue w1 = xPriorityQueue w" "xWaitQueue w1 = xWaitQueue w" "rx w1 = rx w" "ulUserDataLength w1 = ulUserDataLength w" "usMSS w1 = usMSS w"
    "ulNextTxSequenceNumber w1 = ulNextTxSequenceNumber w" "ulCurrentSequenceNumber (tx w1) = ulCurrentSequenceNumber (tx w)"
    "ulHighestSequenceNumber (tx w1) = seqno isn (h + n)" "pxHeadSegment w1 = (if pxHeadSegment w = Some i then None else pxHeadSegment w)"
    using seqno_add[of isn h n] n(2,3) by (simp_all add: w1)
  have sd: "same_data (seg w j) (seg (mark_sent now i w1) j)" for j using mark_sent_seg(1)[of i w1 j now] tx_member(1)[OF ok mem] unfolding f(1) by blast
  have "tiles isn L K w (sent @ [i]) a (h + n)" unfolding tiles_append using s(2) n s(6) q by (auto simp: Let_def)
  then have t: "tiles isn L K (mark_sent now i w1) (sent @ [i]) a (h + n)" "tiles isn L K (mark_sent now i w1) q (h + n) e"
    using sd n(5) by (blast intro: tiles_keep)+
  have "segments_ok (mark_sent now i w1)" using ok q by (auto simp: segments_ok_def f)
  moreover have "\<forall>j\<in>set (sent @ [i]). bAcked (seg (mark_sent now i w1) j) \<or> j \<in> set (xPriorityQueue w) \<union> set (xWaitQueue w @ [i])"
    using s(5) sd unfolding same_data_def by auto
  moreover have "\<forall>j\<in>set q. \<not> bAcked (seg (mark_sent now i w1) j)" using s(6) q sd unfolding same_data_def by auto
  moreover have "\<forall>j. pxHeadSegment w1 = Some j \<longrightarrow> q \<noteq> [] \<and> last q = j" using s(7) q by (cases "pxHeadSegment w") (auto simp: f(14) split: if_splits)
  ultimately have "tx_window isn L K a (h + n) e (mark_sent now i w1)"
    using t tx_windowD[OF win] s(1,4) q by (intro tx_windowI[where sent = "sent @ [i]"]) (simp_all add: f(2-13), blast+)
  moreover have "\<forall>j\<in>set (xRxSegments w). seg (mark_sent now i w1) j = seg w j"
    using tx_member[OF ok mem] mark_sent_seg(2)[of i w1] unfolding f(1) by metis
  then have "same_rx w (mark_sent now i w1)" by (simp add: same_rx_def f)
  ultimately show ?thesis using n tiles_le[OF n(5)] by (intro exI[of _ n]) blast
qed

lemma pick_cases:
  assumes "pick_segment now ws w = (found, w1)"
  obtains (none) "found = None" "w1 = w"
  | (priority) i q where "found = Some i" "xPriorityQueue w = i # q" "w1 = w\<lparr>xPriorityQueue := q\<rparr>"
  | (waited) i q where "found = Some i" "xPriorityQueue w = []" "xWaitQueue w = i # q" "w1 = upd_seg i (\<lambda>g. g\<lparr>ucDupAckCount := 0\<rparr>) (w\<lparr>xWaitQueue := q\<rparr>)"
      "max_age w i < ulTimerGetAge now (seg w i)"
  | (fresh) i q where "found = Some i" "xPriorityQueue w = []" "xTxQueue w = i # q"
      "w1 = w\<lparr>xTxQueue := q, pxHeadSegment := if pxHeadSegment w = Some i then None else pxHeadSegment w,
        tx := (tx w)\<lparr>ulHighestSequenceNumber := ulSequenceNumber (seg w i) + word_of_int (lDataLength (seg w i))\<rparr>\<rparr>"
proof (cases "xPriorityQueue w")
  case (Cons i q)
  then show ?thesis using assms priority[of i q] by (simp add: pick_segment_def xTCPWindowGetHead_def)
next
  case Nil
  have pick: "(case pxTCPWindowTx_GetWaitQueue now w of (Some i, w1) \<Rightarrow> (Some i, w1) | (None, w1) \<Rightarrow> pxTCPWindowTx_GetTXQueue ws w1) = (found, w1)"
    using assms Nil by (simp add: pick_segment_def xTCPWindowGetHead_def)
  show ?thesis
  proof (cases "\<exists>i q. xWaitQueue w = i # q \<and> max_age w i < ulTimerGetAge now (seg w i)")
    case True
    then obtain i q where q: "xWaitQueue w = i # q" "max_age w i < ulTimerGetAge now (seg w i)" by auto
    then show ?thesis using pick waited[OF _ Nil q(1)] by (simp add: pxTCPWindowTx_GetWaitQueue_def xTCPWindowPeekHead_def)
  next
    case False
    then have "pxTCPWindowTx_GetWaitQueue now w = (None, w)" by (auto simp: pxTCPWindowTx_GetWaitQueue_def xTCPWindowPeekHead_def split: list.splits)
    then have get: "pxTCPWindowTx_GetTXQueue ws w = (found, w1)" using pick by simp
    show ?thesis
    proof (cases "pxTCPWindowTx_GetTXQueue ws w = (None, w)")
      case True
      then show ?thesis using get none by simp
    next
      case False
      then obtain i q where q: "xTxQueue w = i # q" "\<not> (bSendFullSize w \<and> lDataLength (seg w i) < lMaxLength (seg w i))" "prvTCPWindowTxHasSpace ws w"
        unfolding pxTCPWindowTx_GetTXQueue_def xTCPWindowPeekHead_def by (cases "xTxQueue w") (simp_all split: if_splits)
      then show ?thesis using get fresh[OF _ Nil q(1)] by (simp add: pxTCPWindowTx_GetTXQueue_def xTCPWindowPeekHead_def Let_def split: if_splits)
    qed
  qed
qed

lemma tx_window_our [simp]: "tx_window isn L K a h e (w\<lparr>ulOurSequenceNumber := x\<rparr>) = tx_window isn L K a h e w"
proof -
  have "tiles isn L K (w\<lparr>ulOurSequenceNumber := x\<rparr>) is p q = tiles isn L K w is p q" for "is" p q by (rule tiles_cong) simp
  then show ?thesis by (simp add: tx_window_def segments_ok_def)
qed

lemma same_rx_our [simp]: "same_rx (w\<lparr>ulOurSequenceNumber := x\<rparr>) w' = same_rx w w'" "same_rx w (w'\<lparr>ulOurSequenceNumber := x\<rparr>) = same_rx w w'"
  by (simp_all add: same_rx_def)

definition got_segment :: "u32 \<Rightarrow> nat \<Rightarrow> nat set \<Rightarrow> nat \<Rightarrow> nat \<Rightarrow> nat \<Rightarrow> u32 \<Rightarrow> int option \<Rightarrow> TCPWindow_t \<Rightarrow> bool" where
  "got_segment isn L K a h e len pos w \<longleftrightarrow>
     (\<exists>p n h'. 0 < n \<and> a \<le> p \<and> p + n \<le> h' \<and> h \<le> h' \<and> h' \<le> e \<and> len = of_nat n \<and> pos = Some (int (p mod L)) \<and>
        ulOurSequenceNumber w = seqno isn p \<and> tx_window isn L K a h' e w)"

lemma resend_got:
  assumes win: "tx_window isn L K a h e w" and i: "i \<in> set (xPriorityQueue w) \<union> set (xWaitQueue w)"
    and w1: "same_data (seg w i) (seg w1 i)" "length (xTCPSegments w1) = length (xTCPSegments w)" "tx_window isn L K a h e (mark_sent now i w1)"
  shows "got_segment isn L K a h e (word_of_int (lDataLength (seg (mark_sent now i w1) i))) (Some (lStreamPos (seg (mark_sent now i w1) i))) (mark_sent now i w1)"
proof -
  note ok = tx_windowD(1)[OF win]
  obtain sent where s: "tiles isn L K w sent a h" "i \<in> set sent" "i \<in> set (xTxSegments w)" using win i by (auto simp: tx_window_def)
  obtain p n where p: "0 < n" "a \<le> p" "p + n \<le> h" "ulSequenceNumber (seg w i) = seqno isn p" "lDataLength (seg w i) = int n" "lStreamPos (seg w i) = int (p mod L)"
    by (rule tiles_nth[OF s(1,2)])
  have "i < length (xTCPSegments w1)" using tx_member(1)[OF ok s(3)] w1(2) by simp
  note m = mark_sent_seg[OF this, where now = now]
  show ?thesis unfolding got_segment_def using p w1(1,3) m(1)[of i] m(3) tx_windowD(8)[OF win]
    by (intro exI[of _ p] exI[of _ n] exI[of _ h]) (simp add: same_data_def)
qed

text \<open>
  The window never fails its assertion. It gives nothing, or one segment between the first unacknowledged byte and the end of the
  queued bytes: the segment's numbers are those of its place in the stream.
\<close>

lemma tx_get_spec:
  assumes win: "tx_window isn L K a h e w"
  shows "\<exists>len pos w'. ulTCPWindowTxGet now ws w = Some (len, pos, w') \<and> same_rx w w' \<and>
    (len = 0 \<and> pos = None \<and> tx_window isn L K a h e w' \<or> got_segment isn L K a h e len pos w')"
proof -
  define w0 where "w0 = w\<lparr>ulOurSequenceNumber := ulHighestSequenceNumber (tx w)\<rparr>"
  have win0: "tx_window isn L K a h e w0" and rx0: "same_rx w w0" using win by (simp_all add: w0_def)
  obtain found w1 where pick: "pick_segment now ws w0 = (found, w1)" by fastforce
  note ok = tx_windowD(1)[OF win0]
  have get: "ulTCPWindowTxGet now ws w = (case found of None \<Rightarrow> Some (0, None, w1)
         | Some i \<Rightarrow> if i \<in> set (xPriorityQueue w1) \<union> set (xTxQueue w1) \<union> set (xWaitQueue w1) then None
             else Some (word_of_int (lDataLength (seg (mark_sent now i w1) i)), Some (lStreamPos (seg (mark_sent now i w1) i)), mark_sent now i w1))"
    using pick by (auto simp: ulTCPWindowTxGet_def w0_def Let_def split: option.splits)
  have d: "distinct (xPriorityQueue w0 @ xTxQueue w0 @ xWaitQueue w0)" using ok by (simp add: segments_ok_def)
  have mem: "i \<in> set (xTxSegments w0)" if "i \<in> set (xPriorityQueue w0) \<union> set (xTxQueue w0) \<union> set (xWaitQueue w0)" for i
    using ok that by (auto simp: segments_ok_def)
  from pick show ?thesis
  proof (cases rule: pick_cases)
    case none
    then show ?thesis using get win0 rx0 by simp
  next
    case (priority i q)
    have m: "i \<in> set (xTxSegments w0)" using mem priority(2) by simp
    have r: "tx_window isn L K a h e (mark_sent now i w1)" "same_rx w0 (mark_sent now i w1)"
      by (rule resend_spec[OF win0 tx_member(1,2)[OF ok m]]; use priority d in auto)+
    have "got_segment isn L K a h e (word_of_int (lDataLength (seg (mark_sent now i w1) i))) (Some (lStreamPos (seg (mark_sent now i w1) i))) (mark_sent now i w1)"
      using priority(2,3) r(1) by (intro resend_got[OF win0]) auto
    then show ?thesis using get priority d same_rx_trans[OF rx0 r(2)] by auto
  next
    case (waited i q)
    have m: "i \<in> set (xTxSegments w0)" using mem waited(3) by simp
    have w1: "same_data (seg w0 j) (seg w1 j)" "j \<noteq> i \<Longrightarrow> seg w1 j = seg w0 j" "xWaitQueue w1 = q" "xPriorityQueue w1 = []" "xTxQueue w1 = xTxQueue w0" for j
      using tx_member(1)[OF ok m] waited(2,4) by (simp_all add: seg_upd same_data_def)
    have r: "tx_window isn L K a h e (mark_sent now i w1)" "same_rx w0 (mark_sent now i w1)"
      by (rule resend_spec[OF win0 tx_member(1,2)[OF ok m]]; use waited w1 d in \<open>auto simp: seg_upd\<close>)+
    have "got_segment isn L K a h e (word_of_int (lDataLength (seg (mark_sent now i w1) i))) (Some (lStreamPos (seg (mark_sent now i w1) i))) (mark_sent now i w1)"
      using waited(3,4) w1(1) r(1) by (intro resend_got[OF win0]) auto
    then show ?thesis using get waited(1,3) w1 d same_rx_trans[OF rx0 r(2)] by auto
  next
    case (fresh i q)
    obtain n where n: "0 < n" "h + n \<le> e" "ulSequenceNumber (seg w0 i) = seqno isn h" "lDataLength (seg w0 i) = int n" "lStreamPos (seg w0 i) = int (h mod L)"
      "tx_window isn L K a (h + n) e (mark_sent now i w1)" "same_rx w0 (mark_sent now i w1)"
      using first_send_spec[OF win0 fresh(3,4), of now] by auto
    have "i < length (xTCPSegments w1)" "seg w1 i = seg w0 i" using tx_member(1)[OF ok mem, of i] fresh(3,4) by simp_all
    note m = mark_sent_seg[OF this(1), where now = now] this(2)
    have "got_segment isn L K a h e (word_of_int (lDataLength (seg (mark_sent now i w1) i))) (Some (lStreamPos (seg (mark_sent now i w1) i))) (mark_sent now i w1)"
      unfolding got_segment_def using n(1-6) m(1)[of i] m(3,4) tx_windowD(7)[OF win0]
      by (intro exI[of _ h] exI[of _ n] exI[of _ "h + n"]) (simp add: same_data_def)
    moreover have "i \<notin> set (xPriorityQueue w1) \<union> set (xTxQueue w1) \<union> set (xWaitQueue w1)" using fresh(2-4) d by simp
    ultimately show ?thesis using get fresh(1) same_rx_trans[OF rx0 n(7)] by simp
  qed
qed

text \<open>A segment that has to be sent again: it was put in the priority queue, or its acknowledgement is overdue.\<close>

definition tx_due :: "u32 \<Rightarrow> TCPWindow_t \<Rightarrow> bool" where
  "tx_due now w \<longleftrightarrow> xPriorityQueue w \<noteq> [] \<or> (case xWaitQueue w of [] \<Rightarrow> False | i # _ \<Rightarrow> max_age w i < ulTimerGetAge now (seg w i))"

lemma pick_due: "tx_due now w \<Longrightarrow> fst (pick_segment now ws w) \<noteq> None"
  by (cases "xPriorityQueue w"; cases "xWaitQueue w")
     (simp_all add: tx_due_def pick_segment_def xTCPWindowGetHead_def pxTCPWindowTx_GetWaitQueue_def xTCPWindowPeekHead_def)

lemma tx_get_due:
  assumes "tx_window isn L K a h e w" "e < 2 ^ 31" "tx_due now w" "ulTCPWindowTxGet now ws w = Some (len, pos, w')"
  shows "len \<noteq> 0"
proof -
  have "tx_due now (w\<lparr>ulOurSequenceNumber := ulHighestSequenceNumber (tx w)\<rparr>)"
    using assms(3) by (auto simp: tx_due_def max_age_def split: list.splits)
  from pick_due[OF this, of ws] have "pos \<noteq> None"
    using assms(4) by (auto simp: ulTCPWindowTxGet_def Let_def split: option.splits if_splits prod.splits)
  then have "got_segment isn L K a h e len pos w'" using tx_get_spec[OF assms(1), of now ws] assms(4) by auto
  then obtain n :: nat where "0 < n" "n < 2 ^ 32" "len = of_nat n" using assms(2) by (auto simp: got_segment_def)
  then show ?thesis using unat_small[of n] by auto
qed


subsection \<open>Acknowledgements\<close>

lemma tiles_det: "tiles isn L K w is p q \<Longrightarrow> tiles isn L K' w is p q' \<Longrightarrow> q' = q"
  by (induction "is" arbitrary: p) (auto simp: Let_def)

lemma tx_window_tiles: "tx_window isn L K a h e w \<Longrightarrow> tiles isn L K w (xTxSegments w) a e"
  by (elim tx_windowE) (auto simp: tiles_append)

text \<open>A segment that starts below the highest number sent has been sent.\<close>

lemma below_highest_sent:
  assumes "pre @ i # is = sent @ q" "tiles isn L K w sent a h" "tiles isn L K w pre a p" "p < h"
  shows "\<exists>post. sent = pre @ i # post \<and> is = post @ q"
  using assms(1)[unfolded append_eq_append_conv2]
proof (elim exE disjE conjE)
  fix us assume "pre = sent @ us" "us @ i # is = q"
  then have "h \<le> p" using assms(2,3) tiles_det tiles_le by (fastforce simp: tiles_append)
  then show ?thesis using assms(4) by simp
next
  fix us assume us: "pre @ us = sent" "i # is = us @ q"
  then have "us \<noteq> []" using assms(2-4) tiles_det by fastforce
  then show ?thesis using us by (cases us) auto
qed

definition mark_acked :: "nat \<Rightarrow> int \<Rightarrow> TCPWindow_t \<Rightarrow> TCPWindow_t" where
  "mark_acked i x w = (upd_seg i (\<lambda>g. g\<lparr>bAcked := True\<rparr>) w)\<lparr>lSRTT := x\<rparr>"

lemma mark_acked_fields [simp]:
  "xTxSegments (mark_acked i x w) = xTxSegments w" "xRxSegments (mark_acked i x w) = xRxSegments w" "xSegmentList (mark_acked i x w) = xSegmentList w"
  "xPriorityQueue (mark_acked i x w) = xPriorityQueue w" "xTxQueue (mark_acked i x w) = xTxQueue w" "xWaitQueue (mark_acked i x w) = xWaitQueue w"
  "tx (mark_acked i x w) = tx w" "rx (mark_acked i x w) = rx w" "pxHeadSegment (mark_acked i x w) = pxHeadSegment w" "usMSS (mark_acked i x w) = usMSS w"
  "ulNextTxSequenceNumber (mark_acked i x w) = ulNextTxSequenceNumber w" "ulUserDataLength (mark_acked i x w) = ulUserDataLength w"
  "length (xTCPSegments (mark_acked i x w)) = length (xTCPSegments w)"
  by (simp_all add: mark_acked_def)

lemma mark_acked_seg:
  "i < length (xTCPSegments w) \<Longrightarrow> seg (mark_acked i x w) j = (if j = i then (seg w i)\<lparr>bAcked := True\<rparr> else seg w j)"
  by (simp add: mark_acked_def seg_upd)

lemma mark_acked_idle: "i < length (xTCPSegments w) \<Longrightarrow> bAcked (seg w i) \<Longrightarrow> mark_acked i (lSRTT w) w = w"
  by (simp add: mark_acked_def upd_seg_def list_update_same_conv)

text \<open>A segment whose bytes have arrived is marked and leaves its queue; at the front of the window it is given back to the pool.\<close>

lemma tiles_acked:
  assumes "tiles isn L K w is a q" "i < length (xTCPSegments w)" "tiles isn L K w pre a p" "is = pre @ i # post" "i \<notin> set pre \<union> set post"
    "{p..<p + nat (lDataLength (seg w i))} \<subseteq> K"
  shows "tiles isn L K (mark_acked i x w) is a q"
proof -
  have "tiles isn L K w (i # post) p q" using assms(1,3,4) tiles_det by (fastforce simp: tiles_append)
  moreover have "same_data (seg w j) (seg (mark_acked i x w) j)" if "j \<noteq> i" for j using that assms(2) by (simp add: mark_acked_seg)
  then have "tiles isn L K (mark_acked i x w) js b c" if "tiles isn L K w js b c" "i \<notin> set js" for js b c
    using that(2) by (intro tiles_keep[OF that(1)]) metis
  ultimately show ?thesis using assms(2-6) by (auto simp: tiles_append Let_def mark_acked_seg)
qed

lemma mark_spec:
  assumes win: "tx_window isn L K a h e w" and l: "xTxSegments w = pre @ i # is" "tiles isn L K w pre a p" "p < h" "{p..<p + nat (lDataLength (seg w i))} \<subseteq> K"
  shows "tx_window isn L K a h e (unlink_queue i (mark_acked i x w))" "same_rx w (unlink_queue i (mark_acked i x w))"
proof -
  note ok = tx_windowD(1)[OF win]
  have mem: "i \<in> set (xTxSegments w)" using l(1) by simp
  note il = tx_member(1)[OF ok mem]
  obtain sent where s: "xTxSegments w = sent @ xTxQueue w" "tiles isn L K w sent a h" "tiles isn L K w (xTxQueue w) h e"
    "set (xPriorityQueue w) \<union> set (xWaitQueue w) \<subseteq> set sent" "\<forall>i\<in>set sent. bAcked (seg w i) \<or> i \<in> set (xPriorityQueue w) \<union> set (xWaitQueue w)"
    "\<forall>i\<in>set (xTxQueue w). \<not> bAcked (seg w i)" "\<forall>i. pxHeadSegment w = Some i \<longrightarrow> xTxQueue w \<noteq> [] \<and> last (xTxQueue w) = i" by (rule tx_windowE[OF win])
  obtain post where post: "sent = pre @ i # post" using below_highest_sent[OF _ s(2) l(2,3)] l(1) s(1) by metis
  have d: "distinct (sent @ xTxQueue w)" using segments_okD(2)[OF ok] s(1) by simp
  then have nq: "i \<notin> set (xTxQueue w)" using post by auto
  let ?w = "unlink_queue i (mark_acked i x w)"
  have q: "xTxQueue ?w = xTxQueue w" "set (xPriorityQueue ?w) = set (xPriorityQueue w) - {i}" "set (xWaitQueue ?w) = set (xWaitQueue w) - {i}"
    "distinct (xPriorityQueue ?w @ xTxQueue ?w @ xWaitQueue ?w)"
    using nq ok by (auto simp: unlink_queue_def segments_ok_def remove1_idem)
  have f: "xTCPSegments ?w = xTCPSegments (mark_acked i x w)" "xTxSegments ?w = xTxSegments w" "xRxSegments ?w = xRxSegments w" "xSegmentList ?w = xSegmentList w"
    "tx ?w = tx w" "rx ?w = rx w" "pxHeadSegment ?w = pxHeadSegment w" "usMSS ?w = usMSS w" "ulNextTxSequenceNumber ?w = ulNextTxSequenceNumber w" "ulUserDataLength ?w = ulUserDataLength w"
    by (simp_all add: unlink_queue_def)
  have seg': "seg ?w j = (if j = i then (seg w i)\<lparr>bAcked := True\<rparr> else seg w j)" for j unfolding f(1) by (rule mark_acked_seg[OF il])
  have cong: "tiles isn L K ?w js b c = tiles isn L K (mark_acked i x w) js b c" for js b c by (rule tiles_cong) (simp add: f(1))
  have "tiles isn L K ?w sent a h" unfolding cong using tiles_acked[OF s(2) il l(2) post _ l(4)] d post by auto
  moreover have "tiles isn L K ?w (xTxQueue ?w) h e" unfolding q(1) using nq by (intro tiles_keep[OF s(3)]) (auto simp: seg')
  moreover have "segments_ok ?w" using ok q(4) unfolding segments_ok_def f set_append q(1-3) by (auto simp: f(1))
  moreover have "\<forall>j\<in>set sent. bAcked (seg ?w j) \<or> j \<in> set (xPriorityQueue ?w) \<union> set (xWaitQueue ?w)" using s(5) unfolding q(2,3) seg' by auto
  moreover have "\<forall>j\<in>set (xTxQueue ?w). \<not> bAcked (seg ?w j)" using s(6) nq unfolding q(1) seg' by auto
  ultimately show "tx_window isn L K a h e ?w" using tx_windowD[OF win] s(1,4,7) q(1-3) by (intro tx_windowI[where sent = sent]) (auto simp: f)
  show "same_rx w ?w" using tx_member(2)[OF ok mem] unfolding same_rx_def seg' f(3,6,10) by auto
qed

lemma free_first_spec:
  assumes win: "tx_window isn L K a h e w" and l: "xTxSegments w = i # is" "a < h" "{a..<a + n} \<subseteq> K" and n: "n = nat (lDataLength (seg w i))"
    and w': "w' = vTCPWindowFree i (w1\<lparr>tx := (tx w1)\<lparr>ulCurrentSequenceNumber := ulCurrentSequenceNumber (tx w1) + of_nat n\<rparr>\<rparr>)" "w1 = mark_acked i x w"
  shows "0 < n" "a + n \<le> h" "tx_window isn L K (a + n) h e w'" "same_rx w w'" "xTxSegments w' = is"
proof -
  note ok = tx_windowD(1)[OF win]
  have mem: "i \<in> set (xTxSegments w)" using l(1) by simp
  note il = tx_member[OF ok mem]
  obtain sent where s: "xTxSegments w = sent @ xTxQueue w" "tiles isn L K w sent a h" "tiles isn L K w (xTxQueue w) h e"
    "set (xPriorityQueue w) \<union> set (xWaitQueue w) \<subseteq> set sent" "\<forall>i\<in>set sent. bAcked (seg w i) \<or> i \<in> set (xPriorityQueue w) \<union> set (xWaitQueue w)"
    "\<forall>i\<in>set (xTxQueue w). \<not> bAcked (seg w i)" "\<forall>i. pxHeadSegment w = Some i \<longrightarrow> xTxQueue w \<noteq> [] \<and> last (xTxQueue w) = i" by (rule tx_windowE[OF win])
  obtain post where post: "sent = i # post" using below_highest_sent[of "[]" i "is" sent "xTxQueue w", OF _ s(2) _ l(2)] l(1) s(1) by auto
  have nt: "0 < n" "tiles isn L K w post (a + n) h" using s(2) post n by (auto simp: Let_def)
  then show "0 < n" "a + n \<le> h" using tiles_le by auto
  have d: "i \<notin> set post" "i \<notin> set (xTxQueue w)" using segments_okD(2)[OF ok] s(1) post by auto
  show tx: "xTxSegments w' = is" using l(1) w' by simp
  have q: "xTxQueue w' = xTxQueue w" "set (xPriorityQueue w') = set (xPriorityQueue w) - {i}" "set (xWaitQueue w') = set (xWaitQueue w) - {i}"
    using d ok by (auto simp: w' remove1_idem segments_ok_def)
  have seg': "seg w' j = seg w j" if "j \<noteq> i" for j using that il(1) by (simp add: w' mark_acked_seg)
  have keep: "tiles isn L K w' js b c" if "tiles isn L K w js b c" "i \<notin> set js" for js b c
    using that(2) by (intro tiles_keep[OF that(1)]) (metis seg' same_data_refl)
  have "segments_ok (w1\<lparr>tx := (tx w1)\<lparr>ulCurrentSequenceNumber := ulCurrentSequenceNumber (tx w1) + of_nat n\<rparr>\<rparr>)" using ok by (simp add: segments_ok_def w'(2))
  then have "segments_ok w'" using mem by (auto simp: w' intro!: free_segments_ok)
  moreover have "\<forall>j\<in>set post. bAcked (seg w' j) \<or> j \<in> set (xPriorityQueue w') \<union> set (xWaitQueue w')"
    using s(5) post d(1) seg' unfolding q by (metis DiffI UnE UnI1 UnI2 list.set_intros(2) singletonD)
  moreover have "\<forall>j\<in>set (xTxQueue w'). \<not> bAcked (seg w' j)" using s(6) d(2) seg' unfolding q(1) by metis
  moreover have "{..<a + n} = {..<a} \<union> {a..<a + n}" by auto
  then have "{..<a + n} \<subseteq> K" using l(3) tx_windowD(6)[OF win] by simp
  ultimately show "tx_window isn L K (a + n) h e w'"
    using tx_windowD[OF win] s(1,4,7) post tx l(1) keep[OF nt(2) d(1)] keep[OF s(3) d(2)] q seqno_add[of isn a n]
    by (intro tx_windowI[where sent = post]) (auto simp: w')
  have "\<forall>j\<in>set (xRxSegments w). seg w' j = seg w j" using seg' il(2) by metis
  then show "same_rx w w'" using il(2) by (simp add: same_rx_def) (simp add: w' remove1_idem)
qed

lemma calc_srtt: "\<exists>x. prvTCPWindowTxCheckAck_CalcSRTT now i w = w\<lparr>lSRTT := x\<rparr>"
  by (simp add: prvTCPWindowTxCheckAck_CalcSRTT_def Let_def split_def) blast

lemma sent_tile:
  assumes "tx_window isn L K a h e w" "xTxSegments w = pre @ i # is" "tiles isn L K w pre a p" "p < h"
  shows "p + nat (lDataLength (seg w i)) \<le> h"
proof -
  obtain sent where s: "xTxSegments w = sent @ xTxQueue w" "tiles isn L K w sent a h" using tx_windowE[OF assms(1)] by metis
  obtain post where "sent = pre @ i # post" using below_highest_sent[OF _ s(2) assms(3,4)] assms(2) s(1) by metis
  then have "tiles isn L K w (i # post) p h" using s(2) assms(3) tiles_det by (fastforce simp: tiles_append)
  then show ?thesis using tiles_le by (auto simp: Let_def)
qed

text \<open>A round of the loop that takes the segment.\<close>

lemma check_ack_step:
  assumes "xSequenceLessThan (ulSequenceNumber (seg w i)) ulLast" "i < length (xTCPSegments w)"
    and "bAcked (seg w i) \<or> \<not> xSequenceGreaterThan (ulSequenceNumber (seg w i) + word_of_int (lDataLength (seg w i))) ulLast"
  obtains x where "check_ack_loop now ulLast (i # is) (ulSequenceNumber (seg w i)) c w =
    (let sq = ulSequenceNumber (seg w i); len = word_of_int (lDataLength (seg w i)); w1 = mark_acked i x w
     in if sq = ulCurrentSequenceNumber (tx w)
        then check_ack_loop now ulLast is (sq + len) (c + len) (vTCPWindowFree i (w1\<lparr>tx := (tx w1)\<lparr>ulCurrentSequenceNumber := ulCurrentSequenceNumber (tx w1) + len\<rparr>\<rparr>))
        else check_ack_loop now ulLast is (sq + len) c (if bAcked (seg w i) then w else unlink_queue i w1))"
proof -
  let ?wa = "upd_seg i (\<lambda>g. g\<lparr>bAcked := True\<rparr>) w"
  define w1 where "w1 = (if bAcked (seg w i) then w
    else if ucTransmitCount (seg ?wa i) = 1 \<and> ulSequenceNumber (seg ?wa i) + word_of_int (lDataLength (seg w i)) = ulLast then prvTCPWindowTxCheckAck_CalcSRTT now i ?wa else ?wa)"
  have "?wa\<lparr>lSRTT := lSRTT ?wa\<rparr> = ?wa" by simp
  then obtain x where x: "w1 = mark_acked i x w" unfolding w1_def using mark_acked_idle[OF assms(2)] calc_srtt[of now i ?wa] by (metis mark_acked_def)
  have "\<not> xSequenceGreaterThan sq sq" for sq by (simp add: xSequenceGreaterThan_def)
  then have "check_ack_loop now ulLast (i # is) (ulSequenceNumber (seg w i)) c w =
    (let sq = ulSequenceNumber (seg w i); len = word_of_int (lDataLength (seg w i))
     in if sq = ulCurrentSequenceNumber (tx w1)
        then check_ack_loop now ulLast is (sq + len) (c + len) (vTCPWindowFree i (w1\<lparr>tx := (tx w1)\<lparr>ulCurrentSequenceNumber := ulCurrentSequenceNumber (tx w1) + len\<rparr>\<rparr>))
        else check_ack_loop now ulLast is (sq + len) c (if bAcked (seg w i) then w1 else unlink_queue i w1))"
    using assms(1,3) by (cases "bAcked (seg w i)") (simp_all add: w1_def Let_def)
  moreover have "bAcked (seg w i) \<Longrightarrow> w1 = w" by (simp add: w1_def)
  ultimately show thesis using that[of x] x by (simp add: Let_def)
qed

text \<open>
  The peer has the bytes from \<open>f\<close> to \<open>l\<close>: the segments that lie in this range are marked, those at the front of the window are confirmed.
  When everything that was sent is acknowledged, all of it is confirmed.
\<close>

lemma check_ack_loop_spec:
  assumes "tx_window isn L K a h e w" "e < 2 ^ 31" "f < 2 ^ 31" "l \<le> h" "{f..<l} \<subseteq> K" "xTxSegments w = pre @ is" "tiles isn L K w pre a p"
  shows "\<exists>n w'. check_ack_loop now (seqno isn l) is (seqno isn f) c w = (c + of_nat n, w') \<and> tx_window isn L K (a + n) h e w' \<and> same_rx w w' \<and>
    (f = a \<and> p = a \<and> l = h \<longrightarrow> a + n = h)"
  using assms
proof (induction "is" arbitrary: w pre f a p c)
  case Nil
  then have "p = e" using tx_window_tiles[OF Nil.prems(1)] tiles_det[OF Nil.prems(7)] by simp
  then show ?case using Nil tx_windowD(7,8)[OF Nil.prems(1)] by (intro exI[of _ 0] exI[of _ w]) auto
next
  case (Cons i "is")
  note win = Cons.prems(1) and ok = tx_windowD(1)[OF Cons.prems(1)]
  define n where "n = nat (lDataLength (seg w i))"
  have t: "tiles isn L K w (i # is) p e" using tx_window_tiles[OF win] Cons.prems(6,7) tiles_det by (fastforce simp: tiles_append)
  then have n: "0 < n" "ulSequenceNumber (seg w i) = seqno isn p" "lDataLength (seg w i) = int n" "p + n \<le> e" and ack: "bAcked (seg w i) \<Longrightarrow> {p..<p + n} \<subseteq> K"
    using tiles_le[of isn L K w "is"] by (auto simp: n_def Let_def)
  have il: "i < length (xTCPSegments w)" using tx_member(1)[OF ok] Cons.prems(6) by simp
  have ap: "a \<le> p" using tiles_le[OF Cons.prems(7)] .
  have sm: "p < 2 ^ 31" "p + n < 2 ^ 31" "l < 2 ^ 31" "a < 2 ^ 31" using n(1,4) Cons.prems(2,4) tx_windowD(8)[OF win] ap by auto
  note o = seq_order[OF nearI]
  have stop: ?case if "check_ack_loop now (seqno isn l) (i # is) (seqno isn f) c w = (c, w)" "\<not> (f = a \<and> p = a \<and> l = h \<and> a < h)"
    using that win tx_windowD(7)[OF win] by (intro exI[of _ 0] exI[of _ w]) auto
  consider "\<not> f < l" | "f < l" "p < f" | "f < l" "f < p" | "f < l" "f = p" "\<not> bAcked (seg w i)" "l < p + n" | "f < l" "f = p" "bAcked (seg w i) \<or> p + n \<le> l" by linarith
  then show ?case
  proof cases
    case 1
    then show ?thesis using o(1)[OF Cons.prems(3) sm(3)] by (intro stop) auto
  next
    case 2
    have "tiles isn L K w (pre @ [i]) a (p + n)" unfolding tiles_append using Cons.prems(7) t by (auto simp: n_def Let_def)
    then obtain m w' where "check_ack_loop now (seqno isn l) is (seqno isn f) c w = (c + of_nat m, w')" "tx_window isn L K (a + m) h e w'" "same_rx w w'"
      using Cons.IH[OF win Cons.prems(2-5), of "pre @ [i]" "p + n" c] Cons.prems(6) by auto
    then show ?thesis using 2 ap o(1)[OF Cons.prems(3) sm(3)] o(2)[OF Cons.prems(3) sm(1)] n(2) by (intro exI[of _ m] exI[of _ w']) auto
  next
    case 3
    then show ?thesis using o(1)[OF Cons.prems(3) sm(3)] o(2)[OF Cons.prems(3) sm(1)] n(2) seqno_inject[OF nearI[OF Cons.prems(3) sm(1)], of isn]
      by (intro stop) auto
  next
    case 4
    then show ?thesis using o(1)[OF Cons.prems(3) sm(3)] o(2)[OF sm(1) sm(1)] o(2)[OF sm(2) sm(3)] n(2,3) seqno_add[of isn p n] sent_tile[OF win Cons.prems(6,7)]
      by (intro stop) (auto simp: Let_def)
  next
    case 5
    have ph: "p < h" "p + n \<le> h" using 5 Cons.prems(4) sent_tile[OF win Cons.prems(6,7)] by (auto simp: n_def)
    have K: "{p..<p + n} \<subseteq> K" using 5 ack Cons.prems(5) by fastforce
    have p1: "xSequenceLessThan (ulSequenceNumber (seg w i)) (seqno isn l)" using o(1)[OF sm(1,3), of isn] 5 n(2) by simp
    have p2: "bAcked (seg w i) \<or> \<not> xSequenceGreaterThan (ulSequenceNumber (seg w i) + word_of_int (lDataLength (seg w i))) (seqno isn l)"
      using o(2)[OF sm(2,3), of isn] 5 seqno_add[of isn p n] by (auto simp: n(2,3))
    obtain x where x: "check_ack_loop now (seqno isn l) (i # is) (seqno isn p) c w =
        (if seqno isn p = ulCurrentSequenceNumber (tx w)
         then check_ack_loop now (seqno isn l) is (seqno isn (p + n)) (c + of_nat n)
           (vTCPWindowFree i ((mark_acked i x w)\<lparr>tx := (tx (mark_acked i x w))\<lparr>ulCurrentSequenceNumber := ulCurrentSequenceNumber (tx (mark_acked i x w)) + of_nat n\<rparr>\<rparr>))
         else check_ack_loop now (seqno isn l) is (seqno isn (p + n)) c (if bAcked (seg w i) then w else unlink_queue i (mark_acked i x w)))"
      using check_ack_step[OF p1 il p2, of now "is" c] unfolding n(2,3) Let_def of_int_of_nat_eq seqno_add by blast
    have Kl: "{p + n..<l} \<subseteq> K" using 5(2) Cons.prems(5) by auto
    show ?thesis
    proof (cases "p = a")
      case True
      then have pre: "pre = []" using Cons.prems(7) tiles_le[of isn L K w] by (cases pre) (fastforce simp: Let_def)+
      define w1 where "w1 = vTCPWindowFree i ((mark_acked i x w)\<lparr>tx := (tx (mark_acked i x w))\<lparr>ulCurrentSequenceNumber := ulCurrentSequenceNumber (tx (mark_acked i x w)) + of_nat n\<rparr>\<rparr>)"
      note fr = free_first_spec[OF win, of i "is" n w1 "mark_acked i x w" x, OF _ _ _ n_def w1_def refl]
      have w1: "tx_window isn L K (a + n) h e w1" "same_rx w w1" "xTxSegments w1 = is" using fr Cons.prems(6) pre ph True K by auto
      obtain m w' where "check_ack_loop now (seqno isn l) is (seqno isn (a + n)) (c + of_nat n) w1 = (c + of_nat n + of_nat m, w')"
        "tx_window isn L K (a + n + m) h e w'" "same_rx w1 w'" "l = h \<longrightarrow> a + n + m = h"
        using Cons.IH[OF w1(1) Cons.prems(2) _ Cons.prems(4), of "a + n" "[]" "a + n" "c + of_nat n"] w1(3) sm(2) Kl True by auto
      then show ?thesis using x True 5(2) tx_windowD(2)[OF win] same_rx_trans[OF w1(2)] unfolding w1_def[symmetric]
        by (intro exI[of _ "n + m"] exI[of _ w']) (simp add: add.assoc)
    next
      case False
      define w1 where "w1 = (if bAcked (seg w i) then w else unlink_queue i (mark_acked i x w))"
      have w1: "tx_window isn L K a h e w1" "same_rx w w1" "xTxSegments w1 = (pre @ [i]) @ is"
        using win mark_spec[OF win Cons.prems(6,7) ph(1), of x] K Cons.prems(6) by (simp_all add: w1_def n_def unlink_queue_def)
      have pi: "tiles isn L K w (pre @ [i]) a (p + n)" unfolding tiles_append using Cons.prems(7) t by (auto simp: n_def Let_def)
      have "i \<notin> set pre" using segments_okD(2)[OF ok] Cons.prems(6) by simp
      then have "tiles isn L K (mark_acked i x w) (pre @ [i]) a (p + n)" using tiles_acked[OF pi il Cons.prems(7) refl] K by (simp add: n_def)
      then have "tiles isn L K w1 (pre @ [i]) a (p + n)" using pi by (auto simp: w1_def unlink_queue_def elim: tiles_keep)
      then obtain m w' where "check_ack_loop now (seqno isn l) is (seqno isn (p + n)) c w1 = (c + of_nat m, w')" "tx_window isn L K (a + m) h e w'" "same_rx w1 w'"
        using Cons.IH[OF w1(1) Cons.prems(2) _ Cons.prems(4) Kl w1(3), of "p + n" c] sm(2) by auto
      then show ?thesis using x False 5(2) tx_windowD(2)[OF win] same_rx_trans[OF w1(2)] seqno_inject[OF nearI[OF sm(1,4)], of isn] unfolding w1_def[symmetric]
        by (intro exI[of _ m] exI[of _ w']) simp
    qed
  qed
qed

lemma tx_ack_spec:
  assumes win: "tx_window isn L K a h e w" and "e < 2 ^ 31" "k \<le> h" "{..<k} \<subseteq> K"
  shows "\<exists>n w'. ulTCPWindowTxAck now (seqno isn k) w = (of_nat n, w') \<and> tx_window isn L K (a + n) h e w' \<and> same_rx w w' \<and> (k = h \<longrightarrow> a + n = h)"
proof -
  note le = tx_windowD(7,8)[OF win]
  have sm: "k < 2 ^ 31" "a < 2 ^ 31" using le assms(2,3) by auto
  note cmp = seq_order(3)[OF nearI[OF sm], of isn] and cur = tx_windowD(2)[OF win]
  show ?thesis
  proof (cases "k \<le> a")
    case True
    then show ?thesis using win le(1) cmp assms(3) by (intro exI[of _ 0] exI[of _ w]) (simp add: ulTCPWindowTxAck_def cur)
  next
    case False
    have "{a..<k} \<subseteq> K" using assms(4) by auto
    then show ?thesis using check_ack_loop_spec[OF win assms(2) sm(2) assms(3), of "[]" "xTxSegments w" a now 0] False cmp
      by (simp add: ulTCPWindowTxAck_def cur prvTCPWindowTxCheckAck_def)
  qed
qed

lemma fast_retransmit_spec:
  assumes "tx_window isn L K a h e w" "distinct is" "set is \<subseteq> set (xWaitQueue w)"
  shows "\<exists>c' w'. fast_retransmit_loop ulFirst is c w = (c', w') \<and> tx_window isn L K a h e w' \<and> same_rx w w'"
  using assms
proof (induction "is" arbitrary: w c)
  case (Cons i "is")
  note win = Cons.prems(1) and ok = tx_windowD(1)[OF Cons.prems(1)]
  have mem: "i \<in> set (xTxSegments w)" using ok Cons.prems(3) by (auto simp: segments_ok_def)
  note il = tx_member[OF ok mem]
  define w1 where "w1 = upd_seg i (\<lambda>g. g\<lparr>ucDupAckCount := ucDupAckCount g + 1\<rparr>) w"
  define w2 where "w2 = (upd_seg i (\<lambda>g. g\<lparr>ucTransmitCount := 0\<rparr>) w1)"
  define w3 where "w3 = w2\<lparr>xWaitQueue := remove1 i (xWaitQueue w2), xPriorityQueue := vListInsertFifo (xPriorityQueue w2) i\<rparr>"
  have sd: "same_data (seg w j) (seg w1 j)" "same_data (seg w j) (seg w3 j)" for j using il(1) by (simp_all add: w1_def w2_def w3_def seg_upd same_data_def)
  have iw: "i \<in> set (xWaitQueue w)" "distinct (xWaitQueue w)" using Cons.prems(3) ok by (auto simp: segments_ok_def)
  have "segments_ok w3" using ok iw by (auto simp: segments_ok_def w3_def w2_def w1_def vListInsertFifo_def)
  then have t: "tx_window isn L K a h e w1" "tx_window isn L K a h e w3" using sd ok iw
    by (auto intro!: tx_window_cong[OF win]) (auto simp: w1_def w2_def w3_def vListInsertFifo_def)
  have r: "same_rx w w1" "same_rx w w3" using same_rx_upd[OF ok il(2,1)] il by (auto simp: same_rx_def w1_def w2_def w3_def seg_upd)
  have sub: "set is \<subseteq> set (xWaitQueue w)" "set is \<subseteq> set (xWaitQueue w1)" "set is \<subseteq> set (xWaitQueue w3)"
    using Cons.prems(2,3) iw by (auto simp: w1_def w2_def w3_def)
  show ?case using Cons.IH[OF win _ sub(1), of c] Cons.IH[OF t(1) _ sub(2), of c] Cons.IH[OF t(2) _ sub(3), of "c + 1"] Cons.prems(2) same_rx_trans[OF r(1)] same_rx_trans[OF r(2)]
    by (simp add: Let_def w1_def[symmetric] w2_def[symmetric] w3_def[symmetric]) blast
qed simp

lemma tx_sack_spec:
  assumes win: "tx_window isn L K a h e w" and "e < 2 ^ 31" "f < 2 ^ 31" "l \<le> h" "{f..<l} \<subseteq> K"
  shows "\<exists>n w'. ulTCPWindowTxSack now (seqno isn f) (seqno isn l) w = (of_nat n, w') \<and> tx_window isn L K (a + n) h e w' \<and> same_rx w w'"
proof -
  obtain n w1 where w1: "prvTCPWindowTxCheckAck now (seqno isn f) (seqno isn l) w = (of_nat n, w1)" "tx_window isn L K (a + n) h e w1" "same_rx w w1"
    using check_ack_loop_spec[OF win assms(2-5), of "[]" "xTxSegments w" a now 0] by (auto simp: prvTCPWindowTxCheckAck_def)
  have "distinct (xWaitQueue w1)" using tx_windowD(1)[OF w1(2)] by (simp add: segments_ok_def)
  then obtain c' w2 where "prvTCPWindowFastRetransmit (seqno isn f) w1 = (c', w2)" "tx_window isn L K (a + n) h e w2" "same_rx w1 w2"
    using fast_retransmit_spec[OF w1(2), of "xWaitQueue w1" "seqno isn f" 0] by (auto simp: prvTCPWindowFastRetransmit_def)
  then show ?thesis using w1 same_rx_trans[OF w1(3)] by (auto simp: ulTCPWindowTxSack_def)
qed


subsection \<open>Where the code differs from its comments\<close>

text \<open>The comment in \<open>xTCPWindowTxHasData\<close> says that a segment that was sent once waits \<open>1 * ulSRTT\<close>; the count has been increased by then, and it waits twice that time.\<close>

lemma first_wait_is_doubled:
  assumes "i < length (xTCPSegments w)" "ucTransmitCount (seg w i) = 0"
  shows "max_age (mark_sent now i w) i = 2 * word_of_int (lSRTT w)"
  using assms by (simp add: max_age_def mark_sent_def vListInsertFifo_def upd_seg_def Let_def)

text \<open>
  The number of outstanding bytes is computed by comparing sequence numbers as plain numbers: between the wrap of the highest number and that of the first
  unacknowledged one it is taken as zero, and the window of the peer is no limit.
\<close>

lemma outstanding_ignored_at_wrap:
  assumes "ulCurrentSequenceNumber (tx w) = seqno 0xfffffff0 0" "ulHighestSequenceNumber (tx w) = seqno 0xfffffff0 32" "xTxQueue w = i # q" "lDataLength (seg w i) = 32"
    "ulTxWindowLength w = 32"
  shows "prvTCPWindowTxHasSpace 32 w"
  using assms by (simp add: prvTCPWindowTxHasSpace_def tx_outstanding_def xTCPWindowPeekHead_def seqno_def)

end
