(* ===== verification/Tcp_Sender.thy ===== *)
theory Tcp_Sender
  imports Tcp_Transmit
begin

section \<open>What a connection sends\<close>

text \<open>
  The transmit stream and the transmit window of a socket together. \<open>T\<close> is all that the application has sent; its first \<open>a\<close> bytes
  are acknowledged and have left the stream, the next \<open>m\<close> are in the window, the rest waits in the stream.
\<close>

subsection \<open>The stream\<close>

definition tx_stream :: "u8 list \<Rightarrow> nat \<Rightarrow> nat \<Rightarrow> StreamBuffer_t \<Rightarrow> bool" where
  "tx_stream T a m b \<longleftrightarrow> stream_ok b \<and> ring_len b < 2 ^ 31 \<and> a + stream_size b = length T \<and> (\<forall>k < stream_size b. stream_cell b k = T ! (a + k)) \<and>
     unat (uxTail b) = a mod ring_len b \<and> m \<le> stream_size b \<and> uxMid b < uxLENGTH b \<and> unat (uxMid b) = (a + m) mod ring_len b"

lemma tx_streamD:
  assumes "tx_stream T a m b"
  shows "stream_ok b" "ring_len b < 2 ^ 31" "a + stream_size b = length T" "\<And>k. k < stream_size b \<Longrightarrow> stream_cell b k = T ! (a + k)"
    "unat (uxTail b) = a mod ring_len b" "m \<le> stream_size b" "uxMid b < uxLENGTH b" "unat (uxMid b) = (a + m) mod ring_len b"
    "stream_size b < ring_len b" "a + m \<le> length T"
  using assms stream_okD(9)[of b] by (auto simp: tx_stream_def)

lemma mid_space:
  assumes "tx_stream T a m b"
  shows "unat (uxStreamBufferMidSpace b) = stream_size b - m"
proof -
  note d = tx_streamD[OF assms] and o = stream_okD[OF tx_streamD(1)[OF assms]]
  have "unat (uxHead b) = (a + stream_size b) mod ring_len b" using head_position[OF d(1)] d(5) by (simp add: mod_add_left_eq)
  also have "\<dots> = (a + m + (stream_size b - m)) mod ring_len b" using d(6) by simp
  also have "\<dots> = (unat (uxMid b) + (stream_size b - m)) mod ring_len b" unfolding d(8) by (simp add: mod_add_left_eq)
  finally have "fwd b (uxMid b) (uxHead b) = stream_size b - m"
    using fwd_position[of "unat (uxMid b)" "ring_len b" "stream_size b - m"] d(7,9) by (simp add: fwd_def word_less_nat_alt)
  then show ?thesis using distance_unat[OF d(7) o(7,4)] by (simp add: uxStreamBufferMidSpace_def)
qed

lemma mid_frame [simp]:
  "stream_ok (b\<lparr>uxMid := x\<rparr>) = stream_ok b" "stream_size (b\<lparr>uxMid := x\<rparr>) = stream_size b" "stream_cell (b\<lparr>uxMid := x\<rparr>) = stream_cell b"
  by (simp_all add: stream_ok_def stream_size_def fwd_def stream_cell_def fun_eq_iff)

lemma move_mid:
  assumes "tx_stream T a m b" "n \<le> stream_size b - m"
  shows "tx_stream T a (m + n) (vStreamBufferMoveMid (of_nat n) b)" "uxLENGTH (vStreamBufferMoveMid (of_nat n) b) = uxLENGTH b"
proof -
  note d = tx_streamD[OF assms(1)] and o = stream_okD[OF tx_streamD(1)[OF assms(1)]]
  have n: "unat (of_nat n :: u32) = n" "n \<le> ring_len b" using assms(2) d(2,9) by (auto intro: unat_small)
  then have le: "\<not> uxStreamBufferMidSpace b < of_nat n" using mid_space[OF assms(1)] assms(2) by (simp add: word_less_nat_alt)
  then have b': "vStreamBufferMoveMid (of_nat n) b = b\<lparr>uxMid := wrap_index b (uxMid b + of_nat n)\<rparr>" by (simp add: vStreamBufferMoveMid_def Let_def)
  have nu: "unat (of_nat n :: u32) \<le> ring_len b" using n by simp
  have "unat (wrap_index b (uxMid b + of_nat n)) = (a + (m + n)) mod ring_len b"
    using wrap_index_unat[OF d(7) nu o(4)] n(1) d(8) by (simp add: mod_add_left_eq add.assoc)
  moreover have "wrap_index b (uxMid b + of_nat n) < uxLENGTH b" by (rule wrap_index_less[OF d(7) nu o(4)])
  ultimately show "tx_stream T a (m + n) (vStreamBufferMoveMid (of_nat n) b)"
    using assms d(6) unfolding b' by (simp add: tx_stream_def)
  show "uxLENGTH (vStreamBufferMoveMid (of_nat n) b) = uxLENGTH b" by (simp add: b')
qed

lemma confirm_stream:
  assumes "tx_stream T a m b" "n \<le> m"
  shows "\<exists>b'. uxStreamBufferGet 0 False (of_nat n) False b = Some (of_nat n, [], b') \<and> tx_stream T (a + n) (m - n) b' \<and> uxLENGTH b' = uxLENGTH b"
proof -
  note d = tx_streamD[OF assms(1)]
  have t: "taken 0 (of_nat n) b = n" using assms(2) d(2,6,9) by (simp add: taken_def unat_small)
  obtain c b' where g: "uxStreamBufferGet 0 False (of_nat n) False b = Some (c, [], b')" "unat c = n" "stream_ok b'" "uxLENGTH b' = uxLENGTH b" "uxMid b' = uxMid b"
    and g': "stream_size b' = stream_size b - n \<and> stream_cell b' = (\<lambda>i. stream_cell b (i + n)) \<and>
      fwd b' (uxTail b') (uxFront b') = fwd b (uxTail b) (uxFront b) - n \<and> unat (uxTail b') = (unat (uxTail b) + n) mod ring_len b"
    by (rule get_effect[OF d(1), of 0 False "of_nat n" False, unfolded t, simplified])
  have "c = of_nat n" unfolding g(2)[symmetric] by simp
  moreover have "tx_stream T (a + n) (m - n) b'"
    using g(3-5) g' d assms(2) mod_add_left_eq[of a "ring_len b" n] by (auto simp: tx_stream_def ac_simps)
  ultimately show ?thesis using g(1,4) by auto
qed

lemma peek_slice:
  assumes "tx_stream T a m b" "a \<le> p" "p + n \<le> a + m"
  shows "uxStreamBufferGet (uxStreamBufferDistance b (uxTail b) (word_of_int (int (p mod ring_len b)))) True (of_nat n) True b = Some (of_nat n, take n (drop p T), b)"
proof -
  note d = tx_streamD[OF assms(1)] and o = stream_okD[OF tx_streamD(1)[OF assms(1)]]
  have L: "p mod ring_len b < ring_len b" using o(11) by simp
  then have u: "unat (of_nat (p mod ring_len b) :: u32) = p mod ring_len b" using d(2) by (intro unat_small) simp
  then have pl: "(of_nat (p mod ring_len b) :: u32) < uxLENGTH b" using L by (simp add: word_less_nat_alt)
  have "(a mod ring_len b + (p - a)) mod ring_len b = p mod ring_len b" using assms(2) mod_add_left_eq[of a "ring_len b" "p - a"] by simp
  moreover have "p - a < ring_len b" using assms(2,3) d(6,9) by linarith
  ultimately have "fwd b (uxTail b) (of_nat (p mod ring_len b)) = p - a"
    using fwd_position[of "a mod ring_len b" "ring_len b" "p - a"] o(11) by (simp add: fwd_def u d(5))
  then have off: "unat (uxStreamBufferDistance b (uxTail b) (word_of_int (int (p mod ring_len b)))) = p - a"
    using distance_unat[OF o(6) pl o(4)] by simp
  define off where "off = uxStreamBufferDistance b (uxTail b) (word_of_int (int (p mod ring_len b)))"
  have t: "taken off (of_nat n) b = n" using assms(2,3) d(2,6,9) off by (simp add: taken_def unat_small off_def)
  obtain c b' where g: "uxStreamBufferGet off True (of_nat n) True b = Some (c, map (stream_cell b) [p - a..<p - a + n], b')" "unat c = n" "b' = b"
    by (rule get_effect[OF d(1), of off True "of_nat n" True, unfolded t off[folded off_def], simplified]) blast
  have "map (stream_cell b) [p - a..<p - a + n] = take n (drop p T)"
    using assms(2,3) d(3,4,6) by (intro nth_equalityI) auto
  moreover have "c = of_nat n" unfolding g(2)[symmetric] by simp
  ultimately show ?thesis using g by (simp add: off_def)
qed

lemma append_stream:
  assumes "tx_stream T a m b" "min (stream_room b) (unat c) \<le> length data"
  defines "n \<equiv> min (stream_room b) (unat c)"
  shows "\<exists>b'. uxStreamBufferAdd 0 (Some data) c b = Some (of_nat n, b') \<and> tx_stream (T @ take n data) a m b' \<and> uxLENGTH b' = uxLENGTH b"
proof -
  note d = tx_streamD[OF assms(1)]
  have ad: "added 0 c b = n" by (simp add: added_def n_def)
  have len: "added 0 c b \<le> length dd" if "Some data = Some dd" for dd using assms(2) that by (simp add: ad n_def)
  obtain c' b' where g: "uxStreamBufferAdd 0 (Some data) c b = Some (c', b')" "unat c' = n" "stream_ok b'" "uxLENGTH b' = uxLENGTH b" "uxTail b' = uxTail b"
    "uxMid b' = uxMid b" "stream_size b' = stream_size b + n" "\<And>i. i < ring_len b \<Longrightarrow> stream_cell b' i = overwrite (stream_cell b) (stream_size b) (Some data) n i"
    by (rule add_effect[OF d(1), of "Some data" 0 c, OF len, unfolded ad, simplified]) blast+
  have "c' = of_nat n" unfolding g(2)[symmetric] by simp
  moreover have "tx_stream (T @ take n data) a m b'"
  proof -
    have "stream_cell b' k = (T @ take n data) ! (a + k)" if "k < stream_size b + n" for k
      using that g(8)[of k] stream_okD(9)[OF g(3)] g(4,7) d(4)[of k] assms(2) by (auto simp: overwrite_def nth_append d(3)[symmetric] n_def[symmetric])
    then show ?thesis using g(3-7) d assms(2) by (simp add: tx_stream_def n_def)
  qed
  ultimately show ?thesis using g(1,4) by auto
qed

lemma new_tx_stream: "unat n < 2 ^ 30 \<Longrightarrow> tx_stream [] 0 0 (new_stream f n)"
  using new_stream_facts[of n f] stream_okD(11)[of "new_stream f n"]
  by (auto simp: tx_stream_def word_less_nat_alt) (auto simp: new_stream_def Let_def)


subsection \<open>The invariant\<close>

text \<open>\<open>K\<close> holds the positions that the peer has acknowledged, \<open>h\<close> is the end of what has been sent at least once.\<close>

definition tx_inv :: "u8 list \<Rightarrow> u32 \<Rightarrow> nat set \<Rightarrow> nat \<Rightarrow> nat \<Rightarrow> tcp_socket \<Rightarrow> bool" where
  "tx_inv T isn K a h s \<longleftrightarrow> unat (uxTxStreamSize s) < 2 ^ 30 \<and>
     (case txStream s of
        None \<Rightarrow> T = [] \<and> a = 0 \<and> h = 0 \<and> (\<forall>L. tx_window isn L K 0 0 0 (xTCPWindow s))
      | Some b \<Rightarrow> \<exists>m. tx_stream T a m b \<and> tx_window isn (ring_len b) K a h (a + m) (xTCPWindow s))"

lemma tx_invE:
  assumes "tx_inv T isn K a h s" "txStream s = Some b"
  obtains m where "tx_stream T a m b" "tx_window isn (ring_len b) K a h (a + m) (xTCPWindow s)" "unat (uxTxStreamSize s) < 2 ^ 30"
  using assms by (auto simp: tx_inv_def)

lemma tx_invI:
  assumes "txStream s = Some b" "tx_stream T a m b" "tx_window isn (ring_len b) K a h (a + m) (xTCPWindow s)" "unat (uxTxStreamSize s) < 2 ^ 30"
  shows "tx_inv T isn K a h s"
  using assms by (auto simp: tx_inv_def)

lemma tx_inv_bounds:
  assumes "tx_inv T isn K a h s"
  shows "a \<le> h" "h \<le> length T" "{..<a} \<subseteq> K" "segments_ok (xTCPWindow s)" "ulHighestSequenceNumber (tx (xTCPWindow s)) = seqno isn h"
    "ulCurrentSequenceNumber (tx (xTCPWindow s)) = seqno isn a"
  using assms tx_windowD[of isn _ K a h _ "xTCPWindow s"] tx_streamD(10)[of T a] by (fastforce simp: tx_inv_def split: option.splits)+

lemma tx_inv_mono: "tx_inv T isn K a h s \<Longrightarrow> K \<subseteq> K' \<Longrightarrow> tx_inv T isn K' a h s"
  unfolding tx_inv_def by (auto split: option.splits intro: tx_window_mono)

text \<open>Operations that leave the stream and the window alone.\<close>

definition same_out :: "tcp_socket \<Rightarrow> tcp_socket \<Rightarrow> bool" where
  "same_out s s' \<longleftrightarrow> txStream s' = txStream s \<and> xTCPWindow s' = xTCPWindow s \<and> uxTxStreamSize s' = uxTxStreamSize s \<and> rxStream s' = rxStream s \<and>
     uxRxStreamSize s' = uxRxStreamSize s"

lemma same_out_refl [simp]: "same_out s s"
  by (simp add: same_out_def)

lemma same_out_trans: "same_out s s1 \<Longrightarrow> same_out s1 s2 \<Longrightarrow> same_out s s2"
  by (simp add: same_out_def)

lemma same_out_inv: "same_out s s' \<Longrightarrow> tx_inv T isn K a h s' = tx_inv T isn K a h s"
  unfolding same_out_def tx_inv_def by metis

lemma same_out_frame [simp]:
  "same_out s (act x s') = same_out s s'" "same_out s (prvTCPTouchSocket now s') = same_out s s'" "same_out s (s'\<lparr>eTCPState := st\<rparr>) = same_out s s'"
  "same_out s (s'\<lparr>bPassQueued := q\<rparr>) = same_out s s'" "same_out s (s'\<lparr>bPassAccept := q\<rparr>) = same_out s s'"
  by (simp_all add: same_out_def act_def prvTCPTouchSocket_def)

lemma state_change_out:
  assumes "vTCPStateChange now st s = Some s'"
  shows "same_out s s'"
proof -
  have c: "connection_changed after s = Some s1 \<Longrightarrow> same_out s s1" for after s1
    by (auto simp: connection_changed_def same_out_def act_def Let_def split: if_splits)
  show ?thesis using assms unfolding vTCPStateChange_def Let_def by (auto split: option.splits if_splits dest!: c)
qed

text \<open>The parts of a socket that receiving depends on; and the transmit stream, once made, stays.\<close>

definition keeps_rx :: "tcp_socket \<Rightarrow> tcp_socket \<Rightarrow> bool" where
  "keeps_rx s s' \<longleftrightarrow> rxStream s' = rxStream s \<and> uxRxStreamSize s' = uxRxStreamSize s \<and> same_rx (xTCPWindow s) (xTCPWindow s') \<and>
     (txStream s \<noteq> None \<longrightarrow> txStream s' \<noteq> None)"

lemma keeps_rx_refl [simp]: "keeps_rx s s"
  by (simp add: keeps_rx_def)

lemma keeps_rx_trans: "keeps_rx s s1 \<Longrightarrow> keeps_rx s1 s2 \<Longrightarrow> keeps_rx s s2"
  using same_rx_trans by (auto simp: keeps_rx_def)

lemma same_out_keeps: "same_out s s' \<Longrightarrow> keeps_rx s s'"
  by (simp add: same_out_def keeps_rx_def)


subsection \<open>The operations\<close>

lemma sint_small: "unat (x :: u32) < 2 ^ 31 \<Longrightarrow> sint x = int (unat x)"
  using sint_seqno[of "unat x" 0 0] by (simp add: seqno_def near_def unat_below)

lemma add_tx_data_spec:
  assumes inv: "tx_inv T isn K a h s" and b: "txStream s = Some b"
  shows "\<exists>s'. prvTCPAddTxData now s = Some s' \<and> tx_inv T isn K a h s' \<and> keeps_rx s s'"
proof -
  obtain m where m: "tx_stream T a m b" "tx_window isn (ring_len b) K a h (a + m) (xTCPWindow s)" "unat (uxTxStreamSize s) < 2 ^ 30" by (rule tx_invE[OF inv b])
  note d = tx_streamD[OF m(1)] and o = stream_okD[OF tx_streamD(1)[OF m(1)]]
  define k where "k = stream_size b - m"
  have u: "unat (uxStreamBufferMidSpace b) = k" using mid_space[OF m(1)] by (simp add: k_def)
  have kL: "k \<le> ring_len b" "k < 2 ^ 31" using d(2,9) by (simp_all add: k_def)
  then have sk: "sint (uxStreamBufferMidSpace b) = int k" using u by (simp add: sint_small)
  show ?thesis
  proof (cases "k = 0")
    case True
    then show ?thesis using inv b sk by (auto simp: prvTCPAddTxData_def)
  next
    case False
    have "unat (uxMid b) < 2 ^ 31" using d(2,7) by (simp add: word_less_nat_alt)
    then have pos: "sint (uxMid b) = int ((a + m) mod ring_len b)" "sint (uxLENGTH b) = int (ring_len b)" using d(2,8) by (simp_all add: sint_small)
    obtain n w where w: "lTCPWindowTxAdd now (uxStreamBufferMidSpace b) (int ((a + m) mod ring_len b)) (int (ring_len b)) (xTCPWindow s) = (int n, w)" "n \<le> k"
      "tx_window isn (ring_len b) K a h (a + m + n) w" "same_rx (xTCPWindow s) w"
      using window_add_spec[OF m(2) o(11) kL(1) sk, of now] False by blast
    define b' where "b' = (if 0 < n then vStreamBufferMoveMid (of_nat n) b else b)"
    have b': "tx_stream T a (m + n) b'" "uxLENGTH b' = uxLENGTH b" using move_mid[OF m(1), of n] w(2) m(1) by (auto simp: b'_def k_def)
    have "prvTCPAddTxData now s = Some (s\<lparr>xTCPWindow := w, txStream := Some b'\<rparr>)"
      using b sk False pos w(1) by (simp add: prvTCPAddTxData_def b'_def)
    moreover have "tx_inv T isn K a h (s\<lparr>xTCPWindow := w, txStream := Some b'\<rparr>)" using b' w(3) m(3) by (intro tx_invI[where b = b']) (simp_all add: add.assoc)
    ultimately show ?thesis using w(4) by (auto simp: keeps_rx_def)
  qed
qed

text \<open>The bytes that the window has confirmed leave the stream.\<close>

lemma confirm_bytes_spec:
  assumes b: "txStream s = Some b" "tx_stream T a m b" "n \<le> m" "tx_window isn (ring_len b) K (a + n) h (a + m) (xTCPWindow s)" "unat (uxTxStreamSize s) < 2 ^ 30"
  shows "\<exists>s'. confirm_bytes always (of_nat n) s = Some s' \<and> tx_inv T isn K (a + n) h s' \<and> keeps_rx s s' \<and> txStream s' \<noteq> None"
proof -
  obtain b' where b': "uxStreamBufferGet 0 False (of_nat n) False b = Some (of_nat n, [], b')" "tx_stream T (a + n) (m - n) b'" "uxLENGTH b' = uxLENGTH b"
    using confirm_stream[OF b(2,3)] by auto
  have "n < 2 ^ 31" using b(3) tx_streamD(2,6,9)[OF b(2)] by linarith
  then have z: "(0 :: u32) < of_nat n \<longleftrightarrow> 0 < n" using unat_small[of n] by (simp add: word_less_nat_alt)
  have win: "tx_window isn (ring_len b') K (a + n) h (a + n + (m - n)) (xTCPWindow s)" using b(3,4) b'(3) by simp
  show ?thesis
  proof (cases "0 < n")
    case True
    let ?s = "s\<lparr>txStream := Some b'\<rparr>"
    have "tx_inv T isn K (a + n) h ?s" "tx_inv T isn K (a + n) h (?s\<lparr>xEventBits := x\<rparr>)" for x
      using b'(2) win b(5) by (auto intro!: tx_invI[where b = b' and m = "m - n"])
    then show ?thesis using True z b(1) b'(1) by (auto simp: confirm_bytes_def keeps_rx_def Let_def)
  next
    case False
    then show ?thesis using z b by (auto simp: confirm_bytes_def intro!: tx_invI[where b = b and m = m])
  qed
qed

lemma tx_window_positions:
  assumes "tx_window isn L K a h e w" "tx_window isn L K' (a + n) h e w'"
  shows "a + n \<le> e"
  using tx_windowD(7,8)[OF assms(2)] by simp

lemma ack_window_empty: "tx_window isn L K 0 0 0 w \<Longrightarrow> ulTCPWindowTxAck now (seqno isn 0) w = (0, w)"
  using seq_order(3)[OF nearI[of 0 0], of isn] tx_windowD(2)[of isn L K 0 0 0 w] by (simp add: ulTCPWindowTxAck_def)

lemma tx_inv_our: "tx_inv T isn K a h s \<Longrightarrow> tx_inv T isn K a h (s\<lparr>xTCPWindow := (xTCPWindow s)\<lparr>ulOurSequenceNumber := x\<rparr>\<rparr>)"
  by (auto simp: tx_inv_def split: option.splits)

text \<open>An acknowledgement of the first \<open>k\<close> bytes, all of which have been sent.\<close>

lemma handle_ack_spec:
  assumes inv: "tx_inv T isn K a h s" and "length T < 2 ^ 31" "k \<le> h" "{..<k} \<subseteq> K"
  shows "\<exists>s' a'. handle_ack now (seqno isn k) s = Some s' \<and> tx_inv T isn K a' h s' \<and> a \<le> a' \<and> keeps_rx s s' \<and> (k = h \<longrightarrow> a' = h)"
proof (cases "txStream s")
  case None
  then have z: "k = 0" "a = 0" "h = 0" "tx_window isn 1 K 0 0 0 (xTCPWindow s)" using inv assms(3) by (auto simp: tx_inv_def)
  have "handle_ack now (seqno isn k) s = Some (s\<lparr>xTCPWindow := (xTCPWindow s)\<lparr>ulOurSequenceNumber := ulCurrentSequenceNumber (tx (xTCPWindow s))\<rparr>\<rparr>)"
    using None ack_window_empty[OF z(4), of now] z(1) by (simp add: handle_ack_def confirm_bytes_def)
  then show ?thesis using tx_inv_our[OF inv] z by (auto simp: keeps_rx_def)
next
  case (Some b)
  obtain m where m: "tx_stream T a m b" "tx_window isn (ring_len b) K a h (a + m) (xTCPWindow s)" "unat (uxTxStreamSize s) < 2 ^ 30" by (rule tx_invE[OF inv Some])
  have "a + m < 2 ^ 31" using tx_streamD(10)[OF m(1)] assms(2) by simp
  then obtain n w where w: "ulTCPWindowTxAck now (seqno isn k) (xTCPWindow s) = (of_nat n, w)" "tx_window isn (ring_len b) K (a + n) h (a + m) w" "same_rx (xTCPWindow s) w"
    "k = h \<longrightarrow> a + n = h" using tx_ack_spec[OF m(2) _ assms(3,4), of now] by blast
  have n: "n \<le> m" using tx_window_positions[OF m(2) w(2)] by simp
  let ?s = "s\<lparr>xTCPWindow := w\<rparr>"
  obtain s1 where s1: "confirm_bytes False (of_nat n) ?s = Some s1" "tx_inv T isn K (a + n) h s1" "keeps_rx ?s s1" "txStream s1 \<noteq> None"
    using confirm_bytes_spec[of ?s b T a m n isn K h False] Some m(1,3) n w(2) by auto
  obtain s2 where s2: "prvTCPAddTxData now s1 = Some s2" "tx_inv T isn K (a + n) h s2" "keeps_rx s1 s2"
    using add_tx_data_spec[OF s1(2)] s1(4) by blast
  have "keeps_rx s ?s" using w(3) by (simp add: keeps_rx_def)
  then have "keeps_rx s s2" using s1(3) s2(3) keeps_rx_trans by blast
  then show ?thesis using w(1,4) s1(1,4) s2(1) tx_inv_our[OF s2(2)]
    by (intro exI[of _ "s2\<lparr>xTCPWindow := (xTCPWindow s2)\<lparr>ulOurSequenceNumber := ulCurrentSequenceNumber (tx (xTCPWindow s2))\<rparr>\<rparr>"] exI[of _ "a + n"])
       (auto simp: handle_ack_def keeps_rx_def)
qed

lemma sack_window_empty:
  assumes "tx_window isn L K 0 0 0 w"
  shows "ulTCPWindowTxSack now x y w = (0, w)"
proof -
  have t: "xTxSegments w = []" using tx_window_tiles[OF assms] tiles_le by (cases "xTxSegments w") (fastforce simp: Let_def)+
  then have "xWaitQueue w = []" using tx_windowD(1)[OF assms] by (auto simp: segments_ok_def)
  then show ?thesis using t by (simp add: ulTCPWindowTxSack_def prvTCPWindowTxCheckAck_def prvTCPWindowFastRetransmit_def)
qed

text \<open>A selective acknowledgement of the bytes from \<open>f\<close> to \<open>l\<close>.\<close>

lemma sack_option_spec:
  assumes inv: "tx_inv T isn K a h s" and "length T < 2 ^ 31" "f < 2 ^ 31" "l \<le> h" "{f..<l} \<subseteq> K"
    and o: "i + 8 \<le> length ptr" "ulChar2u32 (drop i ptr) = seqno isn f" "ulChar2u32 (drop (i + 4) ptr) = seqno isn l"
  shows "\<exists>s' a'. prvReadSackOption now ptr i s = Some s' \<and> tx_inv T isn K a' h s' \<and> a \<le> a' \<and> keeps_rx s s'"
proof (cases "txStream s")
  case None
  then have "tx_window isn 1 K 0 0 0 (xTCPWindow s)" using inv by (simp add: tx_inv_def)
  then have "prvReadSackOption now ptr i s = Some s" using None o(1) sack_window_empty by (simp add: prvReadSackOption_def confirm_bytes_def)
  then show ?thesis using inv by auto
next
  case (Some b)
  obtain m where m: "tx_stream T a m b" "tx_window isn (ring_len b) K a h (a + m) (xTCPWindow s)" "unat (uxTxStreamSize s) < 2 ^ 30" by (rule tx_invE[OF inv Some])
  have "a + m < 2 ^ 31" using tx_streamD(10)[OF m(1)] assms(2) by simp
  then obtain n w where w: "ulTCPWindowTxSack now (seqno isn f) (seqno isn l) (xTCPWindow s) = (of_nat n, w)" "tx_window isn (ring_len b) K (a + n) h (a + m) w"
    "same_rx (xTCPWindow s) w" using tx_sack_spec[OF m(2) _ assms(3-5), of now] by blast
  have n: "n \<le> m" using tx_window_positions[OF m(2) w(2)] by simp
  let ?s = "s\<lparr>xTCPWindow := w\<rparr>"
  obtain s1 where s1: "confirm_bytes True (of_nat n) ?s = Some s1" "tx_inv T isn K (a + n) h s1" "keeps_rx ?s s1"
    using confirm_bytes_spec[of ?s b T a m n isn K h True] Some m(1,3) n w(2) by auto
  have "keeps_rx s ?s" using w(3) by (simp add: keeps_rx_def)
  then have "keeps_rx s s1" using s1(3) keeps_rx_trans by blast
  then show ?thesis using w(1) s1(1,2) o by (auto simp: prvReadSackOption_def)
qed


subsection \<open>Packets\<close>

text \<open>The parent of a socket that waits to be accepted is known, and no keep-alive message is under way.\<close>

definition calm :: "tcp_socket \<Rightarrow> bool" where
  "calm s \<longleftrightarrow> \<not> (bPassQueued s \<and> \<not> bReuseSocket s \<and> pxPeerSocket s = None) \<and> \<not> bSendKeepAlive s"

lemma calm_frame [simp]:
  "calm (s\<lparr>xTCPWindow := w\<rparr>) = calm s" "calm (s\<lparr>txStream := b\<rparr>) = calm s" "calm (s\<lparr>xEventBits := x\<rparr>) = calm s" "calm (act y s) = calm s"
  "calm (s\<lparr>bUserShutdown := q\<rparr>) = calm s" "calm (s\<lparr>bFinSent := q\<rparr>) = calm s" "calm (s\<lparr>bWinChange := q\<rparr>) = calm s" "calm (s\<lparr>bMallocError := q\<rparr>) = calm s"
  "calm (s\<lparr>bCloseRequested := q\<rparr>) = calm s" "calm (s\<lparr>usTimeout := t\<rparr>) = calm s"
  by (simp_all add: calm_def act_def)

lemma state_change_total:
  assumes "calm s"
  shows "\<exists>s'. vTCPStateChange now st s = Some s' \<and> same_out s s' \<and> calm s'"
proof -
  have "\<exists>s1. connection_changed after s = Some s1 \<and> calm s1" for after
    using assms by (auto simp: connection_changed_def calm_def act_def Let_def)
  then have c: "\<exists>s1. (if q then connection_changed after s else Some s) = Some s1 \<and> calm s1" for q after using assms by simp
  have t: "calm (prvTCPTouchSocket now s') = calm (s'\<lparr>bSendKeepAlive := False\<rparr>)" for s' by (simp add: calm_def prvTCPTouchSocket_def)
  obtain s1 where s1: "(if (tcpNOW_CONNECTED (eTCPState s) \<or> (eTCPState s \<in> {eCONNECT_SYN, eSYN_FIRST, eSYN_RECEIVED} \<and> st = eCLOSE_WAIT)) \<noteq> tcpNOW_CONNECTED st
      then connection_changed (tcpNOW_CONNECTED st) s else Some s) = Some s1" "calm s1" using c by blast
  have "\<exists>s'. vTCPStateChange now st s = Some s' \<and> calm s'"
    unfolding vTCPStateChange_def Let_def s1(1) using s1(2) by (auto simp: t) (auto simp: calm_def act_def)
  then show ?thesis using state_change_out by blast
qed

lemma fin_frame [simp]:
  "tx_window isn L K a h e (w\<lparr>tx := (tx w)\<lparr>ulFINSequenceNumber := x\<rparr>\<rparr>) = tx_window isn L K a h e w"
  "same_rx w0 (w\<lparr>tx := (tx w)\<lparr>ulFINSequenceNumber := x\<rparr>\<rparr>) = same_rx w0 w"
proof -
  have "tiles isn L K (w\<lparr>tx := (tx w)\<lparr>ulFINSequenceNumber := x\<rparr>\<rparr>) is p q = tiles isn L K w is p q" for "is" p q by (rule tiles_cong) simp
  then show "tx_window isn L K a h e (w\<lparr>tx := (tx w)\<lparr>ulFINSequenceNumber := x\<rparr>\<rparr>) = tx_window isn L K a h e w" by (simp add: tx_window_def segments_ok_def)
qed (simp add: same_rx_def)

text \<open>A piece of the stream under the number of its first byte, sent before (up to \<open>h\<close>).\<close>

definition slice_of :: "u8 list \<Rightarrow> u32 \<Rightarrow> nat \<Rightarrow> nat \<Rightarrow> u32 \<Rightarrow> int \<Rightarrow> u8 list \<Rightarrow> bool" where
  "slice_of T isn a h sq len data \<longleftrightarrow> (\<exists>p. a \<le> p \<and> p + length data \<le> h \<and> sq = seqno isn p \<and> data = take (length data) (drop p T) \<and> len = int (length data) \<and> data \<noteq> [])"

definition must_send :: "u32 \<Rightarrow> tcp_socket \<Rightarrow> bool" where
  "must_send now s \<longleftrightarrow> txStream s \<noteq> None \<and> 1 < sock_usMSS s \<and> \<not> 3 < ucKeepRepCount s \<and> tx_due now (xTCPWindow s)"

lemma prepare_data_spec:
  assumes inv: "tx_inv T isn K a h s" and len: "length T < 2 ^ 31" and "calm s"
  shows "\<exists>n fl data s' h'. prepare_data now got fl0 s = Some (n, fl, data, s') \<and> tx_inv T isn K a h' s' \<and> h \<le> h' \<and> keeps_rx s s' \<and> calm s' \<and>
    (n \<le> 0 \<and> data = [] \<or> slice_of T isn a h' (ulOurSequenceNumber (xTCPWindow s')) n data) \<and> ucKeepRepCount s' = ucKeepRepCount s \<and>
    (got \<and> must_send now s \<longrightarrow> data \<noteq> [])"
proof (cases "\<exists>b. txStream s = Some b \<and> 1 < sock_usMSS s")
  case False
  then have "prepare_data now got fl0 s = Some (0, fl0, [], s)" by (auto simp: prepare_data_def split: option.splits)
  then show ?thesis using assms False by (auto simp: must_send_def)
next
  case True
  then obtain b where b: "txStream s = Some b" "1 < sock_usMSS s" by blast
  obtain m where m: "tx_stream T a m b" "tx_window isn (ring_len b) K a h (a + m) (xTCPWindow s)" "unat (uxTxStreamSize s) < 2 ^ 30" by (rule tx_invE[OF inv b(1)])
  obtain l pos w where w: "ulTCPWindowTxGet now (ulWindowSize s) (xTCPWindow s) = Some (l, pos, w)" "same_rx (xTCPWindow s) w"
    "l = 0 \<and> pos = None \<and> tx_window isn (ring_len b) K a h (a + m) w \<or> got_segment isn (ring_len b) K a h (a + m) l pos w"
    using tx_get_spec[OF m(2)] by blast
  let ?s = "s\<lparr>xTCPWindow := w\<rparr>"
  have keeps: "keeps_rx s ?s" using w(2) by (simp add: keeps_rx_def)
  show ?thesis
  proof (cases "l = 0")
    case True
    then have "prepare_data now got fl0 s = Some (0, fl0, [], ?s)" using b w(1) by (simp add: prepare_data_def Let_def)
    moreover have "\<exists>h'. tx_inv T isn K a h' ?s \<and> h \<le> h'"
      using w(3) b(1) m by (auto simp: got_segment_def intro!: tx_invI[where b = b and m = m])
    moreover have "\<not> tx_due now (xTCPWindow s)" using tx_get_due[OF m(2) _ _ w(1)] True tx_streamD(10)[OF m(1)] len by auto
    ultimately show ?thesis using keeps assms(3) by (auto simp: must_send_def)
  next
    case False
    then obtain p n h' where p: "0 < n" "a \<le> p" "p + n \<le> h'" "h \<le> h'" "h' \<le> a + m" "l = of_nat n" "pos = Some (int (p mod ring_len b))"
      "ulOurSequenceNumber w = seqno isn p" "tx_window isn (ring_len b) K a h' (a + m) w" using w(3) by (auto simp: got_segment_def)
    have pT: "p + n \<le> length T" using p(3,5) tx_streamD(10)[OF m(1)] by simp
    then have "unat l = n" using p(6) len by (simp add: unat_small)
    then have sl: "sint l = int n" using sint_small[of l] pT len by simp
    have inv': "tx_inv T isn K a h' ?s" using b(1) m p(9) by (auto intro!: tx_invI[where b = b and m = m])
    show ?thesis
    proof (cases got)
      case False
      then have "prepare_data now got fl0 s = Some (-1, fl0, [], ?s)" using b w(1) sl p(1) by (simp add: prepare_data_def Let_def)
      then show ?thesis using inv' p(4) keeps assms(3) False by auto
    next
      case True
      have data: "uxStreamBufferGet (uxStreamBufferDistance b (uxTail b) (word_of_int (int (p mod ring_len b)))) True l True b = Some (l, take n (drop p T), b)"
        unfolding p(6) by (rule peek_slice[OF m(1) p(2)]) (use p(3,5) in simp)
      have lw: "length (take n (drop p T)) = n" using pT by simp
      have sl': "slice_of T isn a h' (ulOurSequenceNumber w) (int n) (take n (drop p T))"
        unfolding slice_of_def lw using p(1-3,8) lw by (intro exI[of _ p]) auto
      define fin where "fin = (bCloseRequested s \<and> uxStreamBufferDistance b (word_of_int (int (p mod ring_len b))) (uxHead b) = l)"
      define s2 where "s2 = (if fin then ?s\<lparr>xTCPWindow := w\<lparr>tx := (tx w)\<lparr>ulFINSequenceNumber := ulOurSequenceNumber w + l\<rparr>\<rparr>, bFinSent := True\<rparr> else ?s)"
      have "prepare_data now got fl0 s = Some (int n, if fin then fl0 OR tcpTCP_FLAG_FIN else fl0, take n (drop p T), s2)"
        using b w(1) sl p(1) True data p(7) by (simp add: prepare_data_def Let_def fin_def s2_def)
      moreover have "tx_inv T isn K a h' s2"
        using b(1) m p(9) by (auto simp: s2_def intro!: tx_invI[where b = b and m = m])
      moreover have "keeps_rx s s2" "calm s2" "ulOurSequenceNumber (xTCPWindow s2) = ulOurSequenceNumber w" "ucKeepRepCount s2 = ucKeepRepCount s" using keeps assms(3) by (simp_all add: s2_def keeps_rx_def)
      moreover have "take n (drop p T) \<noteq> []" using lw p(1) by auto
      ultimately show ?thesis using p(4) sl' by auto
    qed
  qed
qed

lemma prepare_shutdown_spec:
  assumes inv: "tx_inv T isn K a h s" and "calm s"
  shows "\<exists>fl s'. prepare_shutdown now fl0 s = Some (fl, s') \<and> tx_inv T isn K a h s' \<and> keeps_rx s s' \<and> calm s' \<and>
    ulOurSequenceNumber (xTCPWindow s') = ulOurSequenceNumber (xTCPWindow s) \<and> ucKeepRepCount s' \<le> ucKeepRepCount s"
proof (cases "bUserShutdown s \<and> xTCPWindowTxDone (xTCPWindow s)")
  case False
  then have "prepare_shutdown now fl0 s = Some (fl0, s)" unfolding prepare_shutdown_def by (rule if_not_P)
  then show ?thesis using assms by auto
next
  case True
  define s1 where "s1 = s\<lparr>bUserShutdown := False, bFinSent := True, bWinChange := True,
    xTCPWindow := (xTCPWindow s)\<lparr>tx := (tx (xTCPWindow s))\<lparr>ulFINSequenceNumber := ulCurrentSequenceNumber (tx (xTCPWindow s))\<rparr>\<rparr>\<rparr>"
  have s1: "tx_inv T isn K a h s1" "keeps_rx s s1" "calm s1" "ulOurSequenceNumber (xTCPWindow s1) = ulOurSequenceNumber (xTCPWindow s)"
    using inv assms(2) by (auto simp: s1_def keeps_rx_def tx_inv_def split: option.splits)
  obtain s' where s': "vTCPStateChange now eFIN_WAIT_1 s1 = Some s'" "same_out s1 s'" "calm s'" using state_change_total[OF s1(3)] by blast
  then have "prepare_shutdown now fl0 s = Some (fl0 OR tcpTCP_FLAG_FIN, s')" using True by (simp add: prepare_shutdown_def Let_def s1_def)
  moreover have "xTCPWindow s' = xTCPWindow s1" using s'(2) by (simp add: same_out_def)
  moreover have "ucKeepRepCount s' = 0" using s'(1) by (auto simp: vTCPStateChange_def prvTCPTouchSocket_def Let_def split: option.splits)
  ultimately show ?thesis using s1 s' same_out_inv[OF s'(2), of T isn K a h] keeps_rx_trans[OF s1(2) same_out_keeps[OF s'(2)]] by auto
qed

lemma prepare_keep_alive_spec:
  assumes inv: "tx_inv T isn K a h s" and "calm s"
  shows "\<exists>n s'. prepare_keep_alive now l s = Some (n, s') \<and> tx_inv T isn K a h s' \<and> keeps_rx s s' \<and> calm (s'\<lparr>bSendKeepAlive := False\<rparr>) \<and>
    ulOurSequenceNumber (xTCPWindow s') = ulOurSequenceNumber (xTCPWindow s) \<and> (n = l \<or> n = -1) \<and> (bSendKeepAlive s' \<longrightarrow> n = 0) \<and> (\<not> 3 < ucKeepRepCount s \<longrightarrow> n = l)"
proof -
  obtain n s1 where s1: "(if 3 < ucKeepRepCount s then map_option (\<lambda>s1. (-1, s1)) (vTCPStateChange now eCLOSE_WAIT s) else Some (l, s)) = Some (n, s1)"
    "same_out s s1" "calm s1" "n = l \<or> n = -1" "\<not> 3 < ucKeepRepCount s \<longrightarrow> n = l"
    using state_change_total[OF assms(2), of now eCLOSE_WAIT] assms(2) by (cases "3 < ucKeepRepCount s") auto
  define ka where "ka = (n = 0 \<and> \<not> bWinChange s1 \<and> (if ucKeepRepCount s1 \<noteq> 0 then 3000 else 20000) < now - xLastAliveTime s1)"
  define s' where "s' = (if ka then s1\<lparr>xLastAliveTime := now, bSendKeepAlive := True, usTimeout := 2500, ucKeepRepCount := ucKeepRepCount s1 + 1\<rparr> else s1)"
  have so: "same_out s s'" using s1(2) by (simp add: s'_def same_out_def)
  have "prepare_keep_alive now l s = Some (n, s')" unfolding prepare_keep_alive_def s1(1) by (simp add: s'_def ka_def)
  moreover have "calm (s'\<lparr>bSendKeepAlive := False\<rparr>)" "bSendKeepAlive s' \<longrightarrow> n = 0" using s1(3) by (auto simp: s'_def ka_def calm_def)
  moreover have "xTCPWindow s' = xTCPWindow s" using so by (simp add: same_out_def)
  ultimately show ?thesis using inv so same_out_inv[OF so] same_out_keeps[OF so] s1(4,5) by auto
qed

lemma prepare_send_spec:
  assumes inv: "tx_inv T isn K a h s" and len: "length T < 2 ^ 31" and "calm s"
  shows "\<exists>n fl data s' h'. prvTCPPrepareSend now got fl0 opt s = Some (n, fl, data, s') \<and> tx_inv T isn K a h' s' \<and> h \<le> h' \<and> keeps_rx s s' \<and>
    calm (s'\<lparr>bSendKeepAlive := False\<rparr>) \<and> (bSendKeepAlive s' \<longrightarrow> 0 < n) \<and>
    (0 < n \<longrightarrow> n = int (length data) + 40 + int opt \<and> (data \<noteq> [] \<longrightarrow> \<not> bSendKeepAlive s' \<and> slice_of T isn a h' (ulOurSequenceNumber (xTCPWindow s')) (int (length data)) data)) \<and>
    (got \<and> must_send now s \<longrightarrow> 0 < n \<and> data \<noteq> [])"
proof -
  obtain l f data s1 h' where s1: "prepare_data now got (fl0 OR tcpTCP_FLAG_ACK) s = Some (l, f, data, s1)" "tx_inv T isn K a h' s1" "h \<le> h'" "keeps_rx s s1" "calm s1"
    "l \<le> 0 \<and> data = [] \<or> slice_of T isn a h' (ulOurSequenceNumber (xTCPWindow s1)) l data"
    "ucKeepRepCount s1 = ucKeepRepCount s" "got \<and> must_send now s \<longrightarrow> data \<noteq> []"
    using prepare_data_spec[OF assms, of now got "fl0 OR tcpTCP_FLAG_ACK"] by (elim exE conjE) (rule that)
  obtain n f2 s2 where s2: "(if 0 \<le> l \<and> eTCPState s1 = eESTABLISHED
                 then (case prepare_shutdown now f s1 of None \<Rightarrow> None
                       | Some (flags, s2) \<Rightarrow> map_option (\<lambda>(n, s3). (n, flags, s3)) (prepare_keep_alive now l s2))
                 else Some (l, f, s1)) = Some (n, f2, s2)"
    "tx_inv T isn K a h' s2" "keeps_rx s s2" "calm (s2\<lparr>bSendKeepAlive := False\<rparr>)" "ulOurSequenceNumber (xTCPWindow s2) = ulOurSequenceNumber (xTCPWindow s1)"
    "n = l \<or> n = -1" "bSendKeepAlive s2 \<longrightarrow> n = 0" "\<not> 3 < ucKeepRepCount s \<longrightarrow> n = l"
  proof (cases "0 \<le> l \<and> eTCPState s1 = eESTABLISHED")
    case True
    obtain fl sa where sa: "prepare_shutdown now f s1 = Some (fl, sa)" "tx_inv T isn K a h' sa" "keeps_rx s1 sa" "calm sa"
      "ulOurSequenceNumber (xTCPWindow sa) = ulOurSequenceNumber (xTCPWindow s1)" "ucKeepRepCount sa \<le> ucKeepRepCount s1" 
      using prepare_shutdown_spec[OF s1(2,5), of now f] by (elim exE conjE) (rule that)
    obtain n sb where "prepare_keep_alive now l sa = Some (n, sb)" "tx_inv T isn K a h' sb" "keeps_rx sa sb" "calm (sb\<lparr>bSendKeepAlive := False\<rparr>)"
      "ulOurSequenceNumber (xTCPWindow sb) = ulOurSequenceNumber (xTCPWindow sa)" "n = l \<or> n = -1" "bSendKeepAlive sb \<longrightarrow> n = 0" "\<not> 3 < ucKeepRepCount sa \<longrightarrow> n = l"
      using prepare_keep_alive_spec[OF sa(2,4), of now l] by (elim exE conjE) (rule that)
    moreover have "\<not> 3 < ucKeepRepCount s \<longrightarrow> \<not> 3 < ucKeepRepCount sa" using sa(6) s1(7) by (metis order_less_le_trans)
    ultimately show thesis using True sa keeps_rx_trans[OF keeps_rx_trans[OF s1(4) sa(3)], of sb] by (intro that[of n fl sb]) simp_all
  next
    case False
    have "calm (s1\<lparr>bSendKeepAlive := False\<rparr>)" "\<not> bSendKeepAlive s1" using s1(5) by (simp_all add: calm_def)
    then show thesis using False s1(2,4) by (intro that[of l f s1]) auto
  qed
  define go where "go = (0 \<le> n \<and> (0 < n \<or> bWinChange s2 \<or> bSendKeepAlive s2))"
  have res: "prvTCPPrepareSend now got fl0 opt s = Some (if go then (n + 40 + int opt,
      let fl = (f2 AND NOT tcpTCP_FLAG_PSH) OR tcpTCP_FLAG_ACK in if n \<noteq> 0 then fl OR tcpTCP_FLAG_PSH else fl, data, s2) else (n, f2, data, s2))"
    using s1(1) s2(1) by (simp add: prvTCPPrepareSend_def go_def)
  have len: "l = int (length data) \<or> l < 0" "data \<noteq> [] \<Longrightarrow> 0 < l" using s1(6) by (auto simp: slice_of_def)
  have must: "got \<and> must_send now s \<longrightarrow> go \<and> 0 < n \<and> data \<noteq> []" using s1(8) s2(8) len(2) by (auto simp: must_send_def go_def)
  show ?thesis
  proof (cases go)
    case True
    then have n: "n = int (length data)" "n = l" using s2(6) len by (auto simp: go_def)
    have "data \<noteq> [] \<longrightarrow> \<not> bSendKeepAlive s2 \<and> slice_of T isn a h' (ulOurSequenceNumber (xTCPWindow s2)) (int (length data)) data"
      using s1(6) s2(5,7) n by auto
    then show ?thesis unfolding res if_P[OF True]
      by (intro exI[of _ "n + 40 + int opt"] exI[of _ data] exI[of _ s2] exI[of _ h'] exI) (use n(1) s1(3) s2(2-4) must in simp)
  next
    case False
    then have "n \<le> 0" "\<not> bSendKeepAlive s2" using s2(7) by (auto simp: go_def)
    then show ?thesis unfolding res if_not_P[OF False]
      by (intro exI[of _ n] exI[of _ data] exI[of _ s2] exI[of _ h'] exI) (use s1(3) s2(2-4) must False in simp)
  qed
qed

text \<open>A packet: what it carries is part of the stream, and its length counts the data, the headers and the options.\<close>

definition packet_ok :: "u8 list \<Rightarrow> u32 \<Rightarrow> nat \<Rightarrow> nat \<Rightarrow> nat \<Rightarrow> tcp_packet \<Rightarrow> bool" where
  "packet_ok T isn a h opt pk \<longleftrightarrow> pk_length pk = int (length (pk_data pk)) + 40 + int opt \<and>
     (pk_data pk \<noteq> [] \<longrightarrow> slice_of T isn a h (pk_seq pk) (int (length (pk_data pk))) (pk_data pk))"

lemma send_round_spec:
  assumes inv: "tx_inv T isn K a h s" and len: "length T < 2 ^ 31" and "calm s"
  shows "\<exists>pk s' h'. send_round now got fl0 opt s = Some (pk, s') \<and> tx_inv T isn K a h' s' \<and> h \<le> h' \<and> keeps_rx s s' \<and> calm s' \<and>
    (\<forall>k. pk = Some k \<longrightarrow> packet_ok T isn a h' opt k) \<and> (got \<and> must_send now s \<longrightarrow> (\<exists>k. pk = Some k \<and> pk_data k \<noteq> []))"
proof -
  obtain n fl data s1 h' where s1: "prvTCPPrepareSend now got fl0 opt s = Some (n, fl, data, s1)" "tx_inv T isn K a h' s1" "h \<le> h'" "keeps_rx s s1"
    "calm (s1\<lparr>bSendKeepAlive := False\<rparr>)" "bSendKeepAlive s1 \<longrightarrow> 0 < n"
    "0 < n \<longrightarrow> n = int (length data) + 40 + int opt \<and> (data \<noteq> [] \<longrightarrow> \<not> bSendKeepAlive s1 \<and> slice_of T isn a h' (ulOurSequenceNumber (xTCPWindow s1)) (int (length data)) data)"
    "got \<and> must_send now s \<longrightarrow> 0 < n \<and> data \<noteq> []"
    using prepare_send_spec[OF assms, of now got fl0 opt] by (elim exE conjE) (rule that)
  show ?thesis
  proof (cases "0 < n")
    case False
    then have "calm s1" using s1(5,6) by (simp add: calm_def)
    then show ?thesis using s1(1-4,8) False by (intro exI[of _ None] exI[of _ s1] exI[of _ h']) (simp add: send_round_def)
  next
    case True
    obtain sq fl' s2 where s2: "prvTCPReturn_SetSequenceNumber fl n s1 = (sq, fl', s2)" by (metis prod_cases3)
    have f: "same_out s1 s2" "calm s2" "\<not> bSendKeepAlive s1 \<longrightarrow> sq = ulOurSequenceNumber (xTCPWindow s1)"
      using s2 s1(5) by (auto simp: prvTCPReturn_SetSequenceNumber_def Let_def same_out_def calm_def split: if_splits)
    let ?pk = "\<lparr>pk_seq = sq, pk_ack = ulCurrentSequenceNumber (rx (xTCPWindow s2)), pk_flags = fl', pk_length = n, pk_data = data\<rparr>"
    have "send_round now got fl0 opt s = Some (Some ?pk, s2)" using s1(1) s2 True by (simp add: send_round_def)
    moreover have "packet_ok T isn a h' opt ?pk" using s1(7) True f(3) by (auto simp: packet_ok_def)
    ultimately show ?thesis using s1(2,3,8) f(2) same_out_inv[OF f(1), of T isn K a h'] keeps_rx_trans[OF s1(4) same_out_keeps[OF f(1)]]
      by (intro exI[of _ "Some ?pk"] exI[of _ s2] exI[of _ h']) simp
  qed
qed


subsection \<open>Runs of the IP task\<close>

text \<open>
  What the IP task does to a connection: it moves bytes from the stream to the window, treats acknowledgements and selective acknowledgements, sends packets, or does anything else that leaves
  the stream, the transmit side of the window and the descriptors it uses alone (receiving is such a thing, changes of timers and flags, other connections). An acknowledgement
  is that of the first \<open>k\<close> bytes of the stream; it is one of bytes that have been sent. The notes
  say which packets were sent, with the length of their options, and which bytes were acknowledged.
\<close>

datatype tx_note = Sent nat tcp_packet | Got nat nat

datatype tx_event = Add_Data u32 | Ack u32 nat | Sack u32 "u8 list" nat nat nat | Transmit u32 bool u8 nat | Otherwise tcp_socket

definition otherwise_ok :: "tcp_socket \<Rightarrow> tcp_socket \<Rightarrow> bool" where
  "otherwise_ok s s' \<longleftrightarrow> txStream s' = txStream s \<and> uxTxStreamSize s' = uxTxStreamSize s \<and> segments_ok (xTCPWindow s') \<and> same_tx (xTCPWindow s) (xTCPWindow s') \<and> calm s'"

definition was_sent :: "u32 \<Rightarrow> nat \<Rightarrow> tcp_socket \<Rightarrow> bool" where
  "was_sent isn k s \<longleftrightarrow> int k < 2 ^ 31 \<and> xSequenceLessThanOrEqual (seqno isn k) (ulHighestSequenceNumber (tx (xTCPWindow s)))"

text \<open>An acknowledgement of bytes that were never sent, which no correct peer makes, is not among the events; \<open>prvHandleEstablished\<close> does not check for it.\<close>

fun tx_step :: "u32 \<Rightarrow> tx_event \<Rightarrow> tcp_socket \<Rightarrow> (tx_note list \<times> tcp_socket) option" where
  "tx_step isn (Add_Data now) s = (if txStream s \<noteq> None then map_option (Pair []) (prvTCPAddTxData now s) else Some ([], s))"
| "tx_step isn (Ack now k) s = (if was_sent isn k s then map_option (Pair [Got 0 k]) (handle_ack now (seqno isn k) s) else Some ([], s))"
| "tx_step isn (Sack now ptr i f l) s =
     (if was_sent isn l s \<and> int f < 2 ^ 31 \<and> i + 8 \<le> length ptr \<and> ulChar2u32 (drop i ptr) = seqno isn f \<and> ulChar2u32 (drop (i + 4) ptr) = seqno isn l
      then map_option (Pair [Got f l]) (prvReadSackOption now ptr i s) else Some ([], s))"
| "tx_step isn (Transmit now got_buffer flags opt) s =
     map_option (\<lambda>(pk, s'). (case pk of None \<Rightarrow> [] | Some k \<Rightarrow> [Sent opt k], s')) (send_round now got_buffer flags opt s)"
| "tx_step isn (Otherwise s') s = Some ([], if otherwise_ok s s' then s' else s)"

fun tx_steps :: "u32 \<Rightarrow> tx_event list \<Rightarrow> tcp_socket \<Rightarrow> (tx_note list \<times> tcp_socket) option" where
  "tx_steps isn [] s = Some ([], s)"
| "tx_steps isn (e # es) s =
     (case tx_step isn e s of
        None \<Rightarrow> None
      | Some (n1, s1) \<Rightarrow> (case tx_steps isn es s1 of None \<Rightarrow> None | Some (n2, s2) \<Rightarrow> Some (n1 @ n2, s2)))"

fun note_got :: "tx_note \<Rightarrow> nat set" where
  "note_got (Got f l) = {f..<l}"
| "note_got (Sent _ _) = {}"

definition acked_in :: "tx_note list \<Rightarrow> nat set" where "acked_in notes = \<Union> (note_got ` set notes)"

fun note_ok :: "u8 list \<Rightarrow> u32 \<Rightarrow> nat \<Rightarrow> tx_note \<Rightarrow> bool" where
  "note_ok T isn h (Sent opt pk) \<longleftrightarrow> packet_ok T isn 0 h opt pk"
| "note_ok T isn h (Got f l) \<longleftrightarrow> l \<le> h"

lemma acked_in_simps [simp]: "acked_in [] = {}" "acked_in (n # ns) = note_got n \<union> acked_in ns" "acked_in (ns @ ns') = acked_in ns \<union> acked_in ns'"
  by (simp_all add: acked_in_def)

lemma slice_mono:
  assumes "slice_of T isn a h sq n data" "h \<le> h'" "h \<le> length T"
  shows "slice_of (T @ X) isn a h' sq n data"
proof -
  obtain p where p: "a \<le> p" "p + length data \<le> h" "sq = seqno isn p" "data = take (length data) (drop p T)" "n = int (length data)" "data \<noteq> []"
    using assms(1) by (auto simp: slice_of_def)
  then have "take (length data) (drop p (T @ X)) = take (length data) (drop p T)" using assms(3) by simp
  then show ?thesis unfolding slice_of_def using p assms(2) by (intro exI[of _ p]) simp
qed

lemma note_ok_mono:
  assumes "note_ok T isn h n" "h \<le> h'" "h \<le> length T"
  shows "note_ok (T @ X) isn h' n"
proof (cases n)
  case (Sent opt pk)
  then show ?thesis using assms slice_mono[OF _ assms(2,3)] by (auto simp: packet_ok_def)
qed (use assms in simp)

lemma notes_mono: "list_all (note_ok T isn h) ns \<Longrightarrow> h \<le> h' \<Longrightarrow> h \<le> length T \<Longrightarrow> list_all (note_ok (T @ X) isn h') ns"
  using note_ok_mono by (fastforce simp: list_all_iff)

lemma otherwise_inv:
  assumes "tx_inv T isn K a h s" "otherwise_ok s s'"
  shows "tx_inv T isn K a h s'"
proof -
  have "tx_window isn L K a h e (xTCPWindow s')" if "tx_window isn L K a h e (xTCPWindow s)" for L a h e
    using assms(2) by (intro tx_window_cong[OF that]) (auto simp: otherwise_ok_def same_tx_def)
  then show ?thesis using assms by (auto simp: tx_inv_def otherwise_ok_def split: option.splits)
qed

lemma calm_add: "prvTCPAddTxData now s = Some s' \<Longrightarrow> calm s' = calm s"
  by (auto simp: prvTCPAddTxData_def Let_def split: option.splits if_splits prod.splits)

lemma calm_confirm: "confirm_bytes q n s = Some s' \<Longrightarrow> calm s' = calm s"
  by (auto simp: confirm_bytes_def Let_def split: option.splits if_splits)

lemma calm_ack: "handle_ack now k s = Some s' \<Longrightarrow> calm s' = calm s"
  by (auto simp: handle_ack_def split: option.splits if_splits prod.splits dest!: calm_add calm_confirm)

lemma calm_sack: "prvReadSackOption now ptr i s = Some s' \<Longrightarrow> calm s' = calm s"
  by (auto simp: prvReadSackOption_def split: if_splits prod.splits dest!: calm_confirm)

lemma tx_step_spec:
  assumes inv: "tx_inv T isn K a h s" and len: "length T < 2 ^ 31" and c: "calm s"
  shows "\<exists>ns s' a' h'. tx_step isn e s = Some (ns, s') \<and> tx_inv T isn (K \<union> acked_in ns) a' h' s' \<and> a \<le> a' \<and> h \<le> h' \<and> calm s' \<and>
    list_all (note_ok T isn h') ns \<and> (txStream s \<noteq> None \<longrightarrow> txStream s' \<noteq> None)"
proof -
  have h: "h < 2 ^ 31" using tx_inv_bounds(2)[OF inv] len by simp
  have sent: "k \<le> h" if "was_sent isn k s" for k
    using that seq_order(3)[OF nearI[of k h], of isn] h tx_inv_bounds(5)[OF inv] by (simp add: was_sent_def)
  show ?thesis
  proof (cases e)
    case (Add_Data now)
    show ?thesis
    proof (cases "txStream s")
      case None
      then show ?thesis using Add_Data inv c by (auto simp: tx_inv_def)
    next
      case (Some b)
      then show ?thesis using Add_Data add_tx_data_spec[OF inv Some, of now] c calm_add[of now s] by (auto simp: keeps_rx_def)
    qed
  next
    case (Ack now k)
    show ?thesis
    proof (cases "was_sent isn k s")
      case True
      obtain s' a' where "handle_ack now (seqno isn k) s = Some s'" "tx_inv T isn (K \<union> {0..<k}) a' h s'" "a \<le> a'" "keeps_rx s s'"
        using handle_ack_spec[OF tx_inv_mono[OF inv, of "K \<union> {0..<k}"] len sent[OF True], of now] by (auto simp: lessThan_atLeast0)
      then show ?thesis using Ack True sent[OF True] c calm_ack by (auto simp: keeps_rx_def)
    qed (use Ack inv c in auto)
  next
    case (Sack now ptr i f l)
    show ?thesis
    proof (cases "was_sent isn l s \<and> int f < 2 ^ 31 \<and> i + 8 \<le> length ptr \<and> ulChar2u32 (drop i ptr) = seqno isn f \<and> ulChar2u32 (drop (i + 4) ptr) = seqno isn l")
      case True
      obtain s' a' where "prvReadSackOption now ptr i s = Some s'" "tx_inv T isn (K \<union> {f..<l}) a' h s'" "a \<le> a'" "keeps_rx s s'"
        using sack_option_spec[OF tx_inv_mono[OF inv, of "K \<union> {f..<l}"] len _ sent, of f l i ptr now] True by auto
      then show ?thesis using Sack True sent c calm_sack by (auto simp: keeps_rx_def)
    qed (use Sack inv c in auto)
  next
    case (Transmit now got fl opt)
    obtain pk s' h' where p: "send_round now got fl opt s = Some (pk, s')" "tx_inv T isn K a h' s'" "h \<le> h'" "keeps_rx s s'" "calm s'"
      "\<forall>k. pk = Some k \<longrightarrow> packet_ok T isn a h' opt k" using send_round_spec[OF inv len c] by blast
    have "packet_ok T isn a h' opt k \<Longrightarrow> packet_ok T isn 0 h' opt k" for k by (auto simp: packet_ok_def slice_of_def)
    then show ?thesis using Transmit p by (auto simp: keeps_rx_def split: option.splits)
  next
    case (Otherwise s')
    then show ?thesis using inv c otherwise_inv[OF inv, of s'] by (auto simp: otherwise_ok_def)
  qed
qed

lemma tx_steps_spec:
  assumes "tx_inv T isn K a h s" "length T < 2 ^ 31" "calm s"
  shows "\<exists>ns s' a' h'. tx_steps isn es s = Some (ns, s') \<and> tx_inv T isn (K \<union> acked_in ns) a' h' s' \<and> a \<le> a' \<and> h \<le> h' \<and> calm s' \<and>
    list_all (note_ok T isn h') ns \<and> (txStream s \<noteq> None \<longrightarrow> txStream s' \<noteq> None)"
  using assms(1,3)
proof (induction es arbitrary: s K a h)
  case Nil
  then show ?case by auto
next
  case (Cons e es)
  obtain n1 s1 a1 h1 where s1: "tx_step isn e s = Some (n1, s1)" "tx_inv T isn (K \<union> acked_in n1) a1 h1 s1" "a \<le> a1" "h \<le> h1" "calm s1"
    "list_all (note_ok T isn h1) n1" "txStream s \<noteq> None \<longrightarrow> txStream s1 \<noteq> None" using tx_step_spec[OF Cons.prems(1) assms(2) Cons.prems(2)] by blast
  obtain n2 s2 a2 h2 where s2: "tx_steps isn es s1 = Some (n2, s2)" "tx_inv T isn (K \<union> acked_in n1 \<union> acked_in n2) a2 h2 s2" "a1 \<le> a2" "h1 \<le> h2" "calm s2"
    "list_all (note_ok T isn h2) n2" "txStream s1 \<noteq> None \<longrightarrow> txStream s2 \<noteq> None" using Cons.IH[OF s1(2,5)] by blast
  have "list_all (note_ok T isn h2) (n1 @ n2)" using notes_mono[OF s1(6) s2(4) tx_inv_bounds(2)[OF s1(2)], of "[]"] s2(6) by simp
  then show ?case using s1 s2 by (intro exI[of _ "n1 @ n2"] exI[of _ s2] exI[of _ a2] exI[of _ h2]) (auto simp: Un_assoc)
qed


subsection \<open>The application sends\<close>

lemma send_check_spec:
  assumes inv: "tx_inv T isn K a h s" and c: "calm s"
  shows "\<exists>r s'. prvTCPSendCheck now mem n s = Some (r, s') \<and> tx_inv T isn K a h s' \<and> calm s' \<and> (0 < r \<or> txStream s \<noteq> None \<longrightarrow> txStream s' \<noteq> None)"
proof (cases "txStream s")
  case (Some b)
  then show ?thesis using inv c by (auto simp: prvTCPSendCheck_def)
next
  case None
  then have z: "T = []" "a = 0" "h = 0" "unat (uxTxStreamSize s) < 2 ^ 30" "\<And>L. tx_window isn L K 0 0 0 (xTCPWindow s)" using inv by (simp_all add: tx_inv_def)
  have "\<exists>s1. prvTCPCreateStream now mem False s = Some s1 \<and> tx_inv T isn K a h s1 \<and> calm s1"
  proof (cases mem)
    case None
    have "same_out s (s\<lparr>bMallocError := True\<rparr>)" by (simp add: same_out_def)
    then show ?thesis using None state_change_total[of "s\<lparr>bMallocError := True\<rparr>" now eCLOSE_WAIT] c same_out_inv inv same_out_trans
      by (simp add: prvTCPCreateStream_def) blast
  next
    case (Some content)
    have "tx_inv [] isn K 0 0 (s\<lparr>txStream := Some (new_stream content (uxTxStreamSize s))\<rparr>)"
      using new_tx_stream[OF z(4)] z(4,5) by (intro tx_invI[where m = 0]) auto
    then show ?thesis using Some z c by (simp add: prvTCPCreateStream_def)
  qed
  then show ?thesis using None inv c by (auto simp: prvTCPSendCheck_def)
qed

lemma send_some_spec:
  assumes inv: "tx_inv T isn K a h s" and b: "txStream s = Some b" and c: "calm s" and n: "length data < 2 ^ 31" "data \<noteq> []" "0 < stream_room b"
  shows "\<exists>n s'. send_some from_ip (Some data) (int (length data)) (int (stream_room b)) b s = Some (int n, s') \<and> 0 < n \<and> n \<le> length data \<and>
    tx_inv (T @ take n data) isn K a h s' \<and> calm s' \<and> txStream s' \<noteq> None"
proof -
  obtain m where m: "tx_stream T a m b" "tx_window isn (ring_len b) K a h (a + m) (xTCPWindow s)" "unat (uxTxStreamSize s) < 2 ^ 30" by (rule tx_invE[OF inv b])
  define k where "k = min (length data) (stream_room b)"
  have k: "0 < k" "k \<le> length data" "k \<le> stream_room b" "k < 2 ^ 31" using n by (auto simp: k_def)
  have if_k: "(if int (length data) < int (stream_room b) then int (length data) else int (stream_room b)) = int k" by (simp add: k_def)
  have u: "unat (of_nat k :: u32) = k" using k(4) by (simp add: unat_small)
  then have mk: "min (stream_room b) (unat (of_nat k :: u32)) = k" using k(3) by simp
  obtain b' where b': "uxStreamBufferAdd 0 (Some data) (of_nat k) b = Some (of_nat k, b')" "tx_stream (T @ take k data) a m b'" "uxLENGTH b' = uxLENGTH b"
    using append_stream[OF m(1), of "of_nat k" data] k(2) unfolding mk by blast
  have sk: "sint (of_nat k :: u32) = int k" using sint_small[of "of_nat k"] u k(4) by simp
  define s1 where "s1 = (if bCloseAfterSend s \<and> int k = int (length data) then s\<lparr>bCloseRequested := True\<rparr> else s)"
  define s2 where "s2 = (if from_ip then s1\<lparr>txStream := Some b', usTimeout := 1\<rparr> else act TCP_Timer_Event (s1\<lparr>txStream := Some b', usTimeout := 1\<rparr>))"
  have "send_some from_ip (Some data) (int (length data)) (int (stream_room b)) b s = Some (int k, s2)"
    unfolding send_some_def Let_def if_k s2_def s1_def using b'(1) sk by simp
  moreover have "txStream s2 = Some b'" "xTCPWindow s2 = xTCPWindow s" "uxTxStreamSize s2 = uxTxStreamSize s" by (simp_all add: s2_def s1_def act_def)
  then have "tx_inv (T @ take k data) isn K a h s2" "txStream s2 \<noteq> None" using b'(2,3) m by (auto intro!: tx_invI[where m = m])
  moreover have "calm s2" using c by (simp add: s2_def s1_def)
  ultimately show ?thesis using k by blast
qed

lemma room_sint: "stream_ok b \<Longrightarrow> sint (uxStreamBufferGetSpace b) = int (stream_room b)"
  using sint_small[of "uxStreamBufferGetSpace b"] room_unat[of b] stream_okD(4,11)[of b] by (simp add: stream_room_def)

lemma send_piece_spec:
  assumes inv: "tx_inv T isn K a h s" and "calm s" "txStream s = Some b" "length data < 2 ^ 31" "data \<noteq> []"
  obtains n s1 where "(if 0 < int (stream_room b) then (case txStream s of None \<Rightarrow> None | Some b' \<Rightarrow> send_some from_ip (Some data) (int (length data)) (int (stream_room b)) b' s)
      else Some (0, s)) = Some (int n, s1)"
    "n \<le> length data" "tx_inv (T @ take n data) isn K a h s1" "calm s1" "txStream s1 \<noteq> None"
proof (cases "0 < stream_room b")
  case True
  then show thesis using send_some_spec[OF inv assms(3,2,4,5) True, of from_ip] assms(3) that by auto
next
  case False
  then show thesis using assms by (intro that[of 0 s]) auto
qed

text \<open>What the loop returns when it stops behind a piece.\<close>

definition send_result :: "u8 list \<Rightarrow> u32 \<Rightarrow> nat set \<Rightarrow> nat \<Rightarrow> nat \<Rightarrow> u8 list \<Rightarrow> int \<Rightarrow> tx_note list \<Rightarrow> (int \<times> tx_note list \<times> tcp_socket) option \<Rightarrow> bool" where
  "send_result T isn K a h data sent ns r \<longleftrightarrow>
     (\<exists>n ns' s' a' h'. r = Some (sent + int n, ns', s') \<and> n \<le> length data \<and> tx_inv (T @ take n data) isn (K \<union> acked_in ns') a' h' s' \<and> a \<le> a' \<and> h \<le> h' \<and>
        calm s' \<and> list_all (note_ok (T @ take n data) isn h') ns' \<and> acked_in ns \<subseteq> acked_in ns')"

lemma send_result_stop:
  assumes "tx_inv (T @ take n data) isn K' a' h' s'" "n \<le> length data" "a \<le> a'" "h \<le> h'" "calm s'" "K' \<subseteq> K \<union> acked_in ns'" "acked_in ns \<subseteq> acked_in ns'"
    "list_all (note_ok (T @ take n data) isn h') ns'"
  shows "send_result T isn K a h data sent ns (Some (sent + int n, ns', s'))"
  unfolding send_result_def using assms tx_inv_mono[OF assms(1,6)] by blast

lemma send_result_step:
  assumes "send_result (T @ take n data) isn K1 a1 h1 (drop n data) (sent + int n) ns1 r" "n \<le> length data" "a \<le> a1" "h \<le> h1" "K1 \<subseteq> K \<union> acked_in ns1" "acked_in ns \<subseteq> acked_in ns1"
  shows "send_result T isn K a h data sent ns r"
proof -
  obtain m ns' s' a' h' where r: "r = Some (sent + int n + int m, ns', s')" "m \<le> length data - n" "tx_inv (T @ take n data @ take m (drop n data)) isn (K1 \<union> acked_in ns') a' h' s'"
    "a1 \<le> a'" "h1 \<le> h'" "calm s'" "list_all (note_ok (T @ take n data @ take m (drop n data)) isn h') ns'" "acked_in ns1 \<subseteq> acked_in ns'"
    using assms(1) by (auto simp: send_result_def)
  have t: "take n data @ take m (drop n data) = take (n + m) data" by (simp add: take_add)
  have K: "K1 \<union> acked_in ns' \<subseteq> K \<union> acked_in ns'" using assms(5) r(8) by blast
  have "send_result T isn K a h data sent ns (Some (sent + int (n + m), ns', s'))"
    by (rule send_result_stop[OF r(3)[unfolded t]]) (use r assms K t in auto)
  then show ?thesis using r(1) by (simp add: add.assoc)
qed

lemma send_loop_round:
  assumes "0 < left" "source \<noteq> None"
    and "(if 0 < room then (case txStream s of None \<Rightarrow> None | Some b \<Rightarrow> send_some from_ip source left room b s) else Some (0, s)) = Some (n, s1)"
  shows "tcp_send_loop during from_ip len fl source left sent room timed waits ns s =
    (if 0 < room \<and> left = n \<or> \<not> timed \<and> (from_ip \<or> xSendBlockTime s1 = 0 \<or> fl AND FREERTOS_MSG_DONTWAIT \<noteq> 0) then Some (sent + n, ns, s1)
     else (case waits of
             [] \<Rightarrow> Some (sent + n, ns, s1)
           | (timed_out, e, now, mem) # rest \<Rightarrow>
               if timed \<and> timed_out then Some (sent + n, ns, s1)
               else (case during e s1 of
                       None \<Rightarrow> None
                     | Some (fresh, s2) \<Rightarrow>
                         (case prvTCPSendCheck now mem len s2 of
                            None \<Rightarrow> None
                          | Some (r, s3) \<Rightarrow>
                              if r < 0 then Some (sent + n, ns @ fresh, s3)
                              else (case txStream s3 of
                                      None \<Rightarrow> None
                                    | Some b \<Rightarrow> tcp_send_loop during from_ip len fl (map_option (drop (nat n)) source)
                                        (left - n) (sent + n) (sint (uxStreamBufferGetSpace b)) True rest (ns @ fresh) s3)))))"
proof -
  obtain y where "source = Some y" using assms(2) by blast
  then show ?thesis by (subst tcp_send_loop.simps, subst assms(3)) (simp add: assms(1) Let_def)
qed

lemma send_loop_spec:
  assumes "tx_inv T isn K a h s" "calm s" "txStream s = Some b" "length T + length data < 2 ^ 31" "list_all (note_ok T isn h) ns"
  shows "send_result T isn K a h data sent ns
    (tcp_send_loop (tx_steps isn) from_ip len fl (Some data) (int (length data)) sent (int (stream_room b)) timed waits ns s)"
  using assms
proof (induction waits arbitrary: T K a h s b data sent timed ns)
  case (Nil T K a h s b data sent timed ns)
  show ?case
  proof (cases "data = []")
    case True
    have "send_result T isn K a h data sent ns (Some (sent + int 0, ns, s))" by (rule send_result_stop) (use Nil.prems in auto)
    then show ?thesis using True by (subst tcp_send_loop.simps) simp
  next
    case False
    obtain n s1 where p: "(if 0 < int (stream_room b) then (case txStream s of None \<Rightarrow> None | Some b' \<Rightarrow> send_some from_ip (Some data) (int (length data)) (int (stream_room b)) b' s)
      else Some (0, s)) = Some (int n, s1)" "n \<le> length data" "tx_inv (T @ take n data) isn K a h s1" "calm s1" "txStream s1 \<noteq> None"
      by (rule send_piece_spec[OF Nil.prems(1-3) _ False, of from_ip]) (use Nil.prems(4) in simp_all)
    have "list_all (note_ok (T @ take n data) isn h) ns" using notes_mono[OF Nil.prems(5) order_refl tx_inv_bounds(2)[OF Nil.prems(1)]] .
    then have "send_result T isn K a h data sent ns (Some (sent + int n, ns, s1))" by (intro send_result_stop[OF p(3,2)]) (use p in auto)
    then show ?thesis using False by (subst send_loop_round[OF _ _ p(1)]) simp_all
  qed
next
  case (Cons wt waits T K a h s b data sent timed ns)
  obtain to e now mem where wt: "wt = (to, e, now, mem)" by (cases wt)
  show ?case
  proof (cases "data = []")
    case True
    have "send_result T isn K a h data sent ns (Some (sent + int 0, ns, s))" by (rule send_result_stop) (use Cons.prems in auto)
    then show ?thesis using True by (subst tcp_send_loop.simps) simp
  next
    case False
    obtain n s1 where p: "(if 0 < int (stream_room b) then (case txStream s of None \<Rightarrow> None | Some b' \<Rightarrow> send_some from_ip (Some data) (int (length data)) (int (stream_room b)) b' s)
      else Some (0, s)) = Some (int n, s1)" "n \<le> length data" "tx_inv (T @ take n data) isn K a h s1" "calm s1" "txStream s1 \<noteq> None"
      by (rule send_piece_spec[OF Cons.prems(1-3) _ False, of from_ip]) (use Cons.prems(4) in simp_all)
    have ns1: "list_all (note_ok (T @ take n data) isn h) ns" using notes_mono[OF Cons.prems(5) order_refl tx_inv_bounds(2)[OF Cons.prems(1)]] .
    have stop: "send_result T isn K a h data sent ns (Some (sent + int n, ns, s1))" by (rule send_result_stop[OF p(3,2)]) (use p ns1 in auto)
    have l1: "length (T @ take n data) < 2 ^ 31" using Cons.prems(4) p(2) by simp
    obtain fresh s2 a2 h2 where s2: "tx_steps isn e s1 = Some (fresh, s2)" "tx_inv (T @ take n data) isn (K \<union> acked_in fresh) a2 h2 s2" "a \<le> a2" "h \<le> h2" "calm s2"
      "list_all (note_ok (T @ take n data) isn h2) fresh" "txStream s2 \<noteq> None" using tx_steps_spec[OF p(3) l1 p(4), of e] p(5) by blast
    obtain r s3 where s3: "prvTCPSendCheck now mem len s2 = Some (r, s3)" "tx_inv (T @ take n data) isn (K \<union> acked_in fresh) a2 h2 s3" "calm s3" "txStream s3 \<noteq> None"
      using send_check_spec[OF s2(2,5), of now mem len] s2(7) by blast
    obtain b3 where b3: "txStream s3 = Some b3" using s3(4) by blast
    have room: "sint (uxStreamBufferGetSpace b3) = int (stream_room b3)" using tx_invE[OF s3(2) b3] tx_streamD(1) room_sint by metis
    have ns2: "list_all (note_ok (T @ take n data) isn h2) (ns @ fresh)" using notes_mono[OF ns1 s2(4) tx_inv_bounds(2)[OF p(3)], of "[]"] s2(6) by simp
    have stop3: "send_result T isn K a h data sent ns (Some (sent + int n, ns @ fresh, s3))" by (rule send_result_stop[OF s3(2) p(2)]) (use s2 s3 ns2 in auto)
    have dl: "int (length data) - int n = int (length (drop n data))" using p(2) by simp
    have go: "send_result T isn K a h data sent ns (tcp_send_loop (tx_steps isn) from_ip len fl (Some (drop n data)) (int (length (drop n data))) (sent + int n)
        (int (stream_room b3)) True waits (ns @ fresh) s3)"
      using Cons.IH[OF s3(2,3) b3 _ ns2, of "drop n data" "sent + int n" True] Cons.prems(4) p(2) s2(3,4)
      by (intro send_result_step[where n = n and ns = ns]) auto
    show ?thesis using False stop stop3 go unfolding wt by (subst send_loop_round[OF _ _ p(1)]) (simp_all add: s2(1) s3(1) b3 room dl)
  qed
qed

lemma send_spec:
  assumes inv: "tx_inv T isn K a h s" and c: "calm s" and len: "length T + length data < 2 ^ 31"
  shows "\<exists>r ns s' a' h'. FreeRTOS_send (tx_steps isn) now mem from_ip (Some data) (of_nat (length data)) fl waits s = Some (r, ns, s') \<and> nat r \<le> length data \<and>
    tx_inv (T @ take (nat r) data) isn (K \<union> acked_in ns) a' h' s' \<and> a \<le> a' \<and> h \<le> h' \<and> calm s' \<and> list_all (note_ok (T @ take (nat r) data) isn h') ns"
proof -
  define l where "l = (of_nat (length data) :: u32)"
  obtain r s1 where s1: "prvTCPSendCheck now mem l s = Some (r, s1)" "tx_inv T isn K a h s1" "calm s1" "0 < r \<longrightarrow> txStream s1 \<noteq> None"
    using send_check_spec[OF inv c, of now mem l] by auto
  show ?thesis
  proof (cases "0 < r")
    case False
    then show ?thesis using s1 by (auto simp: FreeRTOS_send_def l_def[symmetric])
  next
    case True
    then obtain b where b: "txStream s1 = Some b" using s1(4) by auto
    have room: "sint (uxStreamBufferGetSpace b) = int (stream_room b)" using tx_invE[OF s1(2) b] tx_streamD(1) room_sint by metis
    have "unat l = length data" unfolding l_def using len by (intro unat_small) simp
    then have sl: "sint l = int (length data)" using sint_small[of l] len by linarith
    have nil: "list_all (note_ok T isn h) []" by simp
    obtain n ns s2 a' h' where n: "tcp_send_loop (tx_steps isn) from_ip l fl (Some data) (int (length data)) 0 (int (stream_room b)) False waits [] s1 = Some (0 + int n, ns, s2)"
      "n \<le> length data" "tx_inv (T @ take n data) isn (K \<union> acked_in ns) a' h' s2" "a \<le> a'" "h \<le> h'" "calm s2" "list_all (note_ok (T @ take n data) isn h') ns"
      using send_loop_spec[OF s1(2,3) b len nil, of 0 from_ip l fl False waits] unfolding send_result_def by (elim exE conjE) (rule that)
    define r' where "r' = (if n = 0 then if eESTABLISHED < eTCPState s2 then - 128 else - 28 else int n)"
    have "FreeRTOS_send (tx_steps isn) now mem from_ip (Some data) l fl waits s = Some (r', ns, s2)"
      using s1(1) True b n(1) by (simp add: FreeRTOS_send_def prvTCPSendLoop_def room sl r'_def)
    moreover have r': "nat r' = n" by (simp add: r'_def)
    ultimately show ?thesis using n(2-7) unfolding l_def r'[symmetric] by blast
  qed
qed

text \<open>
  The application sends, and between and during its calls the IP task works. The first component of the result is what the application has sent: the
  bytes that the calls of \<open>FreeRTOS_send\<close> reported as sent.
\<close>

datatype app_event = Task tx_event | Send u32 "(nat \<Rightarrow> u8) option" bool "u8 list" u32 "tx_event list send_wait list"

fun tx_run :: "u32 \<Rightarrow> app_event list \<Rightarrow> tcp_socket \<Rightarrow> (u8 list \<times> tx_note list \<times> tcp_socket) option" where
  "tx_run isn [] s = Some ([], [], s)"
| "tx_run isn (Task e # es) s =
     (case tx_step isn e s of
        None \<Rightarrow> None
      | Some (n1, s1) \<Rightarrow> map_option (\<lambda>(T, ns, s2). (T, n1 @ ns, s2)) (tx_run isn es s1))"
| "tx_run isn (Send now mem from_ip data fl waits # es) s =
     (case FreeRTOS_send (tx_steps isn) now mem from_ip (Some data) (of_nat (length data)) fl waits s of
        None \<Rightarrow> None
      | Some (r, n1, s1) \<Rightarrow> map_option (\<lambda>(T, ns, s2). (take (nat r) data @ T, n1 @ ns, s2)) (tx_run isn es s1))"

fun offered :: "app_event list \<Rightarrow> nat" where
  "offered [] = 0"
| "offered (Task _ # es) = offered es"
| "offered (Send _ _ _ data _ _ # es) = length data + offered es"

lemma tx_run_spec:
  assumes "tx_inv T isn K a h s" "calm s" "length T + offered es < 2 ^ 31" "list_all (note_ok T isn h) ns0"
  shows "\<exists>X ns s' a' h'. tx_run isn es s = Some (X, ns, s') \<and> tx_inv (T @ X) isn (K \<union> acked_in ns) a' h' s' \<and> calm s' \<and> a \<le> a' \<and> h \<le> h' \<and>
    length X \<le> offered es \<and> list_all (note_ok (T @ X) isn h') (ns0 @ ns)"
  using assms
proof (induction es arbitrary: T K a h s ns0)
  case Nil
  then show ?case by (intro exI[of _ "[]"] exI[of _ s]) auto
next
  case (Cons e es)
  have "\<exists>Y n1 s1 a1 h1. tx_run isn (e # es) s = map_option (\<lambda>(X, ns, s2). (Y @ X, n1 @ ns, s2)) (tx_run isn es s1) \<and> tx_inv (T @ Y) isn (K \<union> acked_in n1) a1 h1 s1 \<and> calm s1 \<and>
    a \<le> a1 \<and> h \<le> h1 \<and> length Y + offered es \<le> offered (e # es) \<and> list_all (note_ok (T @ Y) isn h1) n1"
  proof (cases e)
    case (Task t)
    have l: "length T < 2 ^ 31" using Cons.prems(3) by simp
    obtain n1 s1 a1 h1 where "tx_step isn t s = Some (n1, s1)" "tx_inv T isn (K \<union> acked_in n1) a1 h1 s1" "a \<le> a1" "h \<le> h1" "calm s1" "list_all (note_ok T isn h1) n1"
      using tx_step_spec[OF Cons.prems(1) l Cons.prems(2), of t] by (elim exE conjE) (rule that)
    then show ?thesis using Task by (intro exI[of _ "[]"] exI[of _ n1] exI[of _ s1] exI[of _ a1] exI[of _ h1]) simp
  next
    case (Send now mem from_ip data fl waits)
    have l: "length T + length data < 2 ^ 31" using Cons.prems(3) Send by simp
    obtain r n1 s1 a1 h1 where "FreeRTOS_send (tx_steps isn) now mem from_ip (Some data) (of_nat (length data)) fl waits s = Some (r, n1, s1)"
      "nat r \<le> length data" "tx_inv (T @ take (nat r) data) isn (K \<union> acked_in n1) a1 h1 s1" "a \<le> a1" "h \<le> h1" "calm s1" "list_all (note_ok (T @ take (nat r) data) isn h1) n1"
      using send_spec[OF Cons.prems(1,2) l, of now mem from_ip fl waits] by (elim exE conjE) (rule that)
    then show ?thesis using Send by (intro exI[of _ "take (nat r) data"] exI[of _ n1] exI[of _ s1] exI[of _ a1] exI[of _ h1]) simp
  qed
  then obtain Y n1 s1 a1 h1 where y: "tx_run isn (e # es) s = map_option (\<lambda>(X, ns, s2). (Y @ X, n1 @ ns, s2)) (tx_run isn es s1)" "tx_inv (T @ Y) isn (K \<union> acked_in n1) a1 h1 s1" "calm s1"
    "a \<le> a1" "h \<le> h1" "length Y + offered es \<le> offered (e # es)" "list_all (note_ok (T @ Y) isn h1) n1" by (elim exE conjE) (rule that)
  have "list_all (note_ok (T @ Y) isn h1) (ns0 @ n1)" using notes_mono[OF Cons.prems(4) y(5) tx_inv_bounds(2)[OF Cons.prems(1)]] y(7) by simp
  note ns = this
  have l: "length (T @ Y) + offered es < 2 ^ 31" using y(6) Cons.prems(3) by simp
  obtain X ns s' a' h' where "tx_run isn es s1 = Some (X, ns, s')" "tx_inv ((T @ Y) @ X) isn (K \<union> acked_in n1 \<union> acked_in ns) a' h' s'" "calm s'" "a1 \<le> a'" "h1 \<le> h'"
    "length X \<le> offered es" "list_all (note_ok ((T @ Y) @ X) isn h') ((ns0 @ n1) @ ns)"
    using Cons.IH[OF y(2,3) l ns] by (elim exE conjE) (rule that)
  then show ?case using y by (intro exI[of _ "Y @ X"] exI[of _ "n1 @ ns"] exI[of _ s'] exI[of _ a'] exI[of _ h']) (simp add: Un_assoc)
qed


subsection \<open>Results\<close>

text \<open>A socket whose connection has been made: its first byte of data will have the number \<open>isn\<close>.\<close>

definition tx_start :: "u32 \<Rightarrow> tcp_socket \<Rightarrow> bool" where
  "tx_start isn s \<longleftrightarrow> txStream s = None \<and> unat (uxTxStreamSize s) < 2 ^ 30 \<and> segments_ok (xTCPWindow s) \<and> xTxSegments (xTCPWindow s) = [] \<and>
     pxHeadSegment (xTCPWindow s) = None \<and> ulCurrentSequenceNumber (tx (xTCPWindow s)) = isn \<and> ulHighestSequenceNumber (tx (xTCPWindow s)) = isn \<and>
     ulNextTxSequenceNumber (xTCPWindow s) = isn \<and> usMSS (xTCPWindow s) \<noteq> 0 \<and> calm s"

lemma tx_start_inv: "tx_start isn s \<Longrightarrow> tx_inv [] isn {} 0 0 s"
  by (auto simp: tx_start_def tx_inv_def segments_ok_def intro!: tx_windowI[where sent = "[]"])

definition unconfirmed :: "tcp_socket \<Rightarrow> u8 list" where
  "unconfirmed s = (case txStream s of None \<Rightarrow> [] | Some b \<Rightarrow> stream_bytes b)"

lemma tx_stream_bytes: "tx_stream T a m b \<Longrightarrow> stream_bytes b = drop a T"
  using tx_streamD(3,4)[of T a m b] by (intro nth_equalityI) (auto simp: bytes_of_cells)

lemma tx_inv_bytes: "tx_inv T isn K a h s \<Longrightarrow> unconfirmed s = drop a T"
  by (auto simp: tx_inv_def unconfirmed_def tx_stream_bytes split: option.splits)

definition packets :: "tx_note list \<Rightarrow> tcp_packet list" where
  "packets ns = concat (map (\<lambda>n. case n of Sent _ pk \<Rightarrow> [pk] | Got _ _ \<Rightarrow> []) ns)"

lemma packets_ok:
  assumes "list_all (note_ok T isn h) ns" "pk \<in> set (packets ns)" "pk_data pk \<noteq> []"
  shows "\<exists>p. pk_seq pk = seqno isn p \<and> p + length (pk_data pk) \<le> h \<and> pk_data pk = take (length (pk_data pk)) (drop p T)"
proof -
  obtain opt where "Sent opt pk \<in> set ns" using assms(2) by (auto simp: packets_def split: tx_note.splits)
  then have "packet_ok T isn 0 h opt pk" using assms(1) by (auto simp: list_all_iff)
  then show ?thesis using assms(3) by (auto simp: packet_ok_def slice_of_def)
qed

lemma tx_run_start:
  assumes "tx_start isn s" "offered events < 2 ^ 31"
  shows "\<exists>T ns s' a h. tx_run isn events s = Some (T, ns, s') \<and> tx_inv T isn (acked_in ns) a h s' \<and> calm s' \<and> length T < 2 ^ 31 \<and> list_all (note_ok T isn h) ns"
proof -
  have c: "calm s" using assms(1) by (simp add: tx_start_def)
  obtain T ns s' a h where "tx_run isn events s = Some (T, ns, s')" "tx_inv ([] @ T) isn ({} \<union> acked_in ns) a h s'" "calm s'" "0 \<le> a" "0 \<le> h" "length T \<le> offered events"
    "list_all (note_ok ([] @ T) isn h) ([] @ ns)"
    using tx_run_spec[OF tx_start_inv[OF assms(1)] c, of events "[]"] assms(2) by auto
  then show ?thesis using assms(2) by auto
qed

text \<open>
  C12. TCP sends the application's stream. Take any sequence of calls of \<open>FreeRTOS_send\<close>, each of which may wait while the IP task goes on, of transmissions, first or repeated,
  of acknowledgements and selective acknowledgements of bytes that were sent, and of whatever else the stack does to the connection. No step fails;
  every packet with data carries a piece of the stream \<open>T\<close> of bytes that the application sent, under the sequence number of its first byte;
  and the bytes that have left the socket's stream have all been acknowledged: what is left is \<open>T\<close> without its first \<open>a\<close> bytes.
\<close>

theorem tcp_sends_stream:
  assumes "tx_start isn s" "offered events < 2 ^ 31"
  shows "\<exists>T ns s' a. tx_run isn events s = Some (T, ns, s') \<and> unconfirmed s' = drop a T \<and> a \<le> length T \<and> {..<a} \<subseteq> acked_in ns \<and>
    (\<forall>pk. pk \<in> set (packets ns) \<and> pk_data pk \<noteq> [] \<longrightarrow>
      (\<exists>p. pk_seq pk = seqno isn p \<and> p + length (pk_data pk) \<le> length T \<and> pk_data pk = take (length (pk_data pk)) (drop p T)))"
proof -
  obtain T ns s' a h where r: "tx_run isn events s = Some (T, ns, s')" "tx_inv T isn (acked_in ns) a h s'" "list_all (note_ok T isn h) ns"
    using tx_run_start[OF assms] by auto
  note b = tx_inv_bounds[OF r(2)]
  have "\<exists>p. pk_seq pk = seqno isn p \<and> p + length (pk_data pk) \<le> length T \<and> pk_data pk = take (length (pk_data pk)) (drop p T)"
    if "pk \<in> set (packets ns)" "pk_data pk \<noteq> []" for pk using packets_ok[OF r(3) that] le_trans[OF _ b(2)] by blast
  then show ?thesis using r(1) tx_inv_bytes[OF r(2)] b(1-3) by (intro exI[of _ T] exI[of _ ns] exI[of _ s'] exI[of _ a]) auto
qed

lemma unacked_queued:
  assumes "tx_window isn L K a h e w" "p < h" "p \<notin> K"
  shows "xPriorityQueue w \<noteq> [] \<or> xWaitQueue w \<noteq> []"
proof (rule ccontr)
  assume n: "\<not> ?thesis"
  obtain sent where s: "tiles isn L K w sent a h" "\<forall>i\<in>set sent. bAcked (seg w i) \<or> i \<in> set (xPriorityQueue w) \<union> set (xWaitQueue w)"
    using tx_windowE[OF assms(1)] by metis
  have "{a..<h} \<subseteq> K" using s n
  proof (induction sent arbitrary: a)
    case (Cons i sent)
    define m where "m = nat (lDataLength (seg w i))"
    have "{a..<a + m} \<subseteq> K" "{a + m..<h} \<subseteq> K" using Cons.prems Cons.IH[of "a + m"] by (auto simp: m_def Let_def)
    moreover have "{a..<h} \<subseteq> {a..<a + m} \<union> {a + m..<h}" by auto
    ultimately show ?case by blast
  qed simp
  then show False using assms(2,3) tx_windowD(6)[OF assms(1)] by (metis atLeastLessThan_iff lessThan_iff linorder_not_le subsetD)
qed

text \<open>
  C13. Nothing that was sent is forgotten. After any such sequence, as long as some byte that was sent has not been acknowledged, a segment is in the priority queue or
  waits for its acknowledgement; and when there is one in the priority queue, or the first of those that wait is overdue, the next transmission
  with a free network buffer sends a packet with data, again a piece of the stream under its number, of the right length. This is for a maximum segment size above 1 and as long as the
  connection has not been given up: after more than three keep-alive messages without an answer \<open>prvTCPPrepareSend\<close> changes to \<open>eCLOSE_WAIT\<close> and sends nothing.
\<close>

theorem tcp_retransmits:
  assumes "tx_start isn s" "offered events < 2 ^ 31" "tx_run isn events s = Some (T, ns, s')"
    and "p < length T" "p \<notin> acked_in ns" "xSequenceLessThan (seqno isn p) (ulHighestSequenceNumber (tx (xTCPWindow s')))"
  shows "(xPriorityQueue (xTCPWindow s') \<noteq> [] \<or> xWaitQueue (xTCPWindow s') \<noteq> []) \<and>
    (1 < sock_usMSS s' \<and> ucKeepRepCount s' \<le> 3 \<and> tx_due now (xTCPWindow s') \<longrightarrow>
      (\<exists>pk s2 q. send_round now True fl opt s' = Some (Some pk, s2) \<and> pk_data pk \<noteq> [] \<and> pk_seq pk = seqno isn q \<and> q + length (pk_data pk) \<le> length T \<and>
        pk_data pk = take (length (pk_data pk)) (drop q T) \<and> pk_length pk = int (length (pk_data pk)) + 40 + int opt))"
proof
  obtain a h where r: "tx_inv T isn (acked_in ns) a h s'" "calm s'" "length T < 2 ^ 31" using tx_run_start[OF assms(1,2)] assms(3) by auto
  note bd = tx_inv_bounds[OF r(1)]
  have ph: "p < h" using assms(4,6) seq_order(1)[OF nearI[of p h], of isn] bd(2,5) r(3) by simp
  then have st: "txStream s' \<noteq> None" using r(1) by (auto simp: tx_inv_def split: option.splits)
  then obtain m L where "tx_window isn L (acked_in ns) a h (a + m) (xTCPWindow s')" using r(1) by (auto simp: tx_inv_def)
  then show "xPriorityQueue (xTCPWindow s') \<noteq> [] \<or> xWaitQueue (xTCPWindow s') \<noteq> []" using unacked_queued[OF _ ph assms(5)] by blast
  show "1 < sock_usMSS s' \<and> ucKeepRepCount s' \<le> 3 \<and> tx_due now (xTCPWindow s') \<longrightarrow>
      (\<exists>pk s2 q. send_round now True fl opt s' = Some (Some pk, s2) \<and> pk_data pk \<noteq> [] \<and> pk_seq pk = seqno isn q \<and> q + length (pk_data pk) \<le> length T \<and>
        pk_data pk = take (length (pk_data pk)) (drop q T) \<and> pk_length pk = int (length (pk_data pk)) + 40 + int opt)"
  proof
    assume "1 < sock_usMSS s' \<and> ucKeepRepCount s' \<le> 3 \<and> tx_due now (xTCPWindow s')"
    then have "must_send now s'" using st by (simp add: must_send_def not_less)
    then obtain pk s2 h' where p: "send_round now True fl opt s' = Some (Some pk, s2)" "tx_inv T isn (acked_in ns) a h' s2" "packet_ok T isn a h' opt pk" "pk_data pk \<noteq> []"
      using send_round_spec[OF r(1,3,2), of now True fl opt] by blast
    then show "\<exists>pk s2 q. send_round now True fl opt s' = Some (Some pk, s2) \<and> pk_data pk \<noteq> [] \<and> pk_seq pk = seqno isn q \<and> q + length (pk_data pk) \<le> length T \<and>
        pk_data pk = take (length (pk_data pk)) (drop q T) \<and> pk_length pk = int (length (pk_data pk)) + 40 + int opt"
      using le_trans[OF _ tx_inv_bounds(2)[OF p(2)]] unfolding packet_ok_def slice_of_def by blast
  qed
qed

text \<open>An example: a stream of eight bytes in segments of four, behind the wrap of the sequence numbers.\<close>

definition tx_demo_window :: TCPWindow_t where
  "tx_demo_window = \<lparr>xTCPSegments = replicate 4 zero_segment, xSegmentList = [0, 1, 2, 3], bHasInit = True, bSendFullSize = False, bTimeStamps = False,
     ulRxWindowLength = 5840, ulTxWindowLength = 5840,
     rx = \<lparr>ulFirstSequenceNumber = 0, ulCurrentSequenceNumber = 0, ulFINSequenceNumber = 0, ulHighestSequenceNumber = 0\<rparr>,
     tx = \<lparr>ulFirstSequenceNumber = 0xfffffffe, ulCurrentSequenceNumber = 0xfffffffe, ulFINSequenceNumber = 0, ulHighestSequenceNumber = 0xfffffffe\<rparr>,
     ulOurSequenceNumber = 0xfffffffe, ulUserDataLength = 0, ulNextTxSequenceNumber = 0xfffffffe, lSRTT = 500, ucOptionLength = 0,
     xPriorityQueue = [], xTxQueue = [], xWaitQueue = [], pxHeadSegment = None, ulOptionsData = [0, 0, 0, 0], xTxSegments = [], xRxSegments = [],
     lists_initialised = True, usMSS = 4, usMSSInit = 4\<rparr>"

definition tx_demo_socket :: tcp_socket where
  "tx_demo_socket = \<lparr>bPassAccept = False, bPassQueued = False, bReuseSocket = False, bCloseAfterSend = False, bUserShutdown = False, bCloseRequested = False,
     bLowWater = False, bWinChange = False, bSendKeepAlive = False, bWaitKeepAlive = False, bFinAccepted = False, bFinSent = False, bMallocError = False,
     usTimeout = 0, sock_usMSS = 4, eTCPState = eESTABLISHED, pxPeerSocket = None, ucKeepRepCount = 0, xLastAliveTime = 0, xLastActTime = 0,
     uxLittleSpace = 0, uxEnoughSpace = 0, uxRxStreamSize = 8, uxTxStreamSize = 8, rxStream = None, txStream = None, ulWindowSize = 8760,
     xTCPWindow = tx_demo_window, xReceiveBlockTime = 0, xSendBlockTime = 5, xEventBits = 0, sock_valid = True, actions = []\<rparr>"

text \<open>The application sends ten bytes and has to wait for room: meanwhile two segments leave and the first is acknowledged.\<close>

definition tx_demo_events :: "app_event list" where
  "tx_demo_events =
     [Send 0 (Some (\<lambda>_. 0)) False [1, 2, 3, 4, 5, 6, 7, 8, 9, 10, 11, 12, 13] 0 [(False, [Add_Data 0, Transmit 0 True 0 0, Transmit 1 True 0 0, Ack 2 4], 2, None)],
      Task (Transmit 3 False 0 0)]"

lemma tx_demo_start: "tx_start 0xfffffffe tx_demo_socket"
  by (auto simp: tx_start_def tx_demo_socket_def tx_demo_window_def segments_ok_def calm_def)

lemma tx_demo_value:
  "case tx_run 0xfffffffe tx_demo_events tx_demo_socket of None \<Rightarrow> False
   | Some (T, ns, s) \<Rightarrow> T = [1, 2, 3, 4, 5, 6, 7, 8, 9, 10, 11, 12, 13] \<and> map pk_data (packets ns) = [[1, 2, 3, 4], [5, 6, 7, 8]] \<and>
       unconfirmed s = [5, 6, 7, 8, 9, 10, 11, 12, 13] \<and> 4 \<notin> acked_in ns \<and>
       xSequenceLessThan (seqno 0xfffffffe 4) (ulHighestSequenceNumber (tx (xTCPWindow s))) \<and> 1 < sock_usMSS s \<and> ucKeepRepCount s \<le> 3 \<and>
       tx_due 5000 (xTCPWindow s)"
  by code_simp

lemma tx_demo_run:
  obtains T ns s where "tx_run 0xfffffffe tx_demo_events tx_demo_socket = Some (T, ns, s)" "T = [1, 2, 3, 4, 5, 6, 7, 8, 9, 10, 11, 12, 13]"
    "unconfirmed s = [5, 6, 7, 8, 9, 10, 11, 12, 13]" "4 \<notin> acked_in ns"
    "xSequenceLessThan (seqno 0xfffffffe 4) (ulHighestSequenceNumber (tx (xTCPWindow s)))" "1 < sock_usMSS s" "ucKeepRepCount s \<le> 3" "tx_due 5000 (xTCPWindow s)"
  using tx_demo_value by (auto split: option.splits)

lemma tx_demo_offered: "offered tx_demo_events < 2 ^ 31"
  by (simp add: tx_demo_events_def)

theorem tcp_sends_stream_witness:
  "\<exists>ns s. tx_run 0xfffffffe tx_demo_events tx_demo_socket = Some ([1, 2, 3, 4, 5, 6, 7, 8, 9, 10, 11, 12, 13], ns, s) \<and>
     unconfirmed s = [5, 6, 7, 8, 9, 10, 11, 12, 13] \<and> {..<4} \<subseteq> acked_in ns"
proof -
  obtain T ns s where r: "tx_run 0xfffffffe tx_demo_events tx_demo_socket = Some (T, ns, s)" "T = [1, 2, 3, 4, 5, 6, 7, 8, 9, 10, 11, 12, 13]"
    "unconfirmed s = [5, 6, 7, 8, 9, 10, 11, 12, 13]" by (rule tx_demo_run)
  obtain a where a: "unconfirmed s = drop a T" "a \<le> length T" "{..<a} \<subseteq> acked_in ns"
    using tcp_sends_stream[OF tx_demo_start tx_demo_offered] r(1) by auto
  have "length (unconfirmed s) = length T - a" using a(1) by simp
  then have "a = 4" using r(2,3) a(2) by simp
  then show ?thesis using r a(3) by auto
qed

theorem tcp_retransmits_witness:
  "\<exists>ns s pk s2. tx_run 0xfffffffe tx_demo_events tx_demo_socket = Some ([1, 2, 3, 4, 5, 6, 7, 8, 9, 10, 11, 12, 13], ns, s) \<and>
     send_round 5000 True 0 0 s = Some (Some pk, s2) \<and> pk_data pk \<noteq> []"
proof -
  obtain T ns s where r: "tx_run 0xfffffffe tx_demo_events tx_demo_socket = Some (T, ns, s)" "T = [1, 2, 3, 4, 5, 6, 7, 8, 9, 10, 11, 12, 13]"
    "4 \<notin> acked_in ns" "xSequenceLessThan (seqno 0xfffffffe 4) (ulHighestSequenceNumber (tx (xTCPWindow s)))" "1 < sock_usMSS s" "ucKeepRepCount s \<le> 3"
    "tx_due 5000 (xTCPWindow s)" by (rule tx_demo_run)
  have "4 < length T" using r(2) by simp
  then show ?thesis using tcp_retransmits[OF tx_demo_start tx_demo_offered r(1) _ r(3,4), of 5000 0 0] r by blast
qed

end
