(* ===== verification/Tcp_Link.thy ===== *)
theory Tcp_Link
  imports Tcp_Receive Tcp_Sender
begin

section \<open>Two sockets and a network\<close>

text \<open>
  The two ends of a connection, both running the code of the stack, and a network that may lose, repeat and reorder packets: what an end has ever sent may arrive at the other
  end at any time, any number of times, or never. Each end sends and receives. A call of \<open>FreeRTOS_send\<close> is taken apart
  into the code between its waits, so that everything else can happen while it waits.
\<close>

subsection \<open>Ends\<close>

datatype caller = Idle | Ready nat "u8 list" | Blocked nat "u8 list"

fun left_over :: "caller \<Rightarrow> u8 list" where
  "left_over Idle = []"
| "left_over (Ready _ data) = data"
| "left_over (Blocked _ data) = data"

text \<open>A socket, the task that sends over it, what it has sent and read so far, and the packets the socket has put on the wire.\<close>

record endpoint =
  sock :: tcp_socket
  caller :: caller
  written :: "u8 list"
  read_bytes :: "u8 list"
  wire :: "tcp_packet list"

text \<open>
  The task calls \<open>FreeRTOS_send\<close>; puts a piece of its data into the stream and then waits or returns; wakes up. The IP task moves data to the window, sends a packet, treats a packet of
  the peer, or does anything that leaves this connection's data alone. The other task reads.
\<close>

datatype end_event = Call u32 "(nat \<Rightarrow> u8) option" "u8 list" | Piece bool bool | Wake u32 "(nat \<Rightarrow> u8) option" | Queue u32 | Emit u32 bool u8 nat
  | Arrive u32 "(nat \<Rightarrow> u8) option" nat | Read bool u32 u32 | Else tcp_socket

definition take_piece :: "bool \<Rightarrow> bool \<Rightarrow> nat \<Rightarrow> u8 list \<Rightarrow> endpoint \<Rightarrow> endpoint option" where
  "take_piece from_ip waits len data e =
     (case txStream (sock e) of
        None \<Rightarrow> None
      | Some b \<Rightarrow>
          let room = sint (uxStreamBufferGetSpace b)
          in (case (if 0 < room then send_some from_ip (Some data) (int (length data)) room b (sock e) else Some (0, sock e)) of
                None \<Rightarrow> None
              | Some (n, s) \<Rightarrow>
                  Some (e\<lparr>sock := s, written := written e @ take (nat n) data,
                    caller := if waits \<and> drop (nat n) data \<noteq> [] then Blocked len (drop (nat n) data) else Idle\<rparr>)))"

text \<open>Such a piece is what the loop of \<open>FreeRTOS_send\<close> does up to its first wait.\<close>

lemma piece_is_loop:
  assumes "data \<noteq> []" "length data < 2 ^ 31"
  shows "map_option sock (take_piece from_ip waits len data e) =
    map_option (\<lambda>(_, _, s). s) (prvTCPSendLoop during from_ip (Some data) (of_nat (length data)) fl [] (sock e))"
proof -
  have "sint (of_nat (length data) :: u32) = int (length data)" using assms(2) sint_small[of "of_nat (length data)"] by (simp add: unat_small)
  then show ?thesis using assms(1) unfolding take_piece_def prvTCPSendLoop_def
    by (cases "txStream (sock e)") (simp_all add: tcp_send_loop.simps Let_def split: option.splits)
qed

text \<open>
  A packet without control flags arrives in an established connection, as \<open>prvTCPHandleState\<close> treats it: a packet just below the next expected number asks for an answer, the highest
  number seen is kept, its data is stored and \<open>prvHandleEstablished\<close> treats its acknowledgement. The window that the packet advertises is set by
  \<open>Else\<close>, the answer is an \<open>Emit\<close>, and selective acknowledgements in its options are left out. So is the closing of a connection: a packet with \<open>FIN\<close>, \<open>SYN\<close> or \<open>RST\<close>, and any packet
  at an end that has sent or accepted a \<open>FIN\<close> or has left the established state, does not arrive here (\<open>data_phase\<close>),
  so that of \<open>prvTCPHandleState\<close> the storing of the data and the case \<open>eESTABLISHED\<close> remain.
\<close>

definition note_arrival :: "tcp_packet \<Rightarrow> tcp_socket \<Rightarrow> tcp_socket" where
  "note_arrival pk s =
     (let s1 = (if eESTABLISHED \<le> eTCPState s \<and> ulCurrentSequenceNumber (rx (xTCPWindow s)) = pk_seq pk + 1 then s\<lparr>bWinChange := True\<rparr> else s);
          w = xTCPWindow s1;
          ulSum = pk_seq pk + of_nat (length (pk_data pk)) - ulHighestSequenceNumber (rx w)
      in if 0 < sint ulSum then s1\<lparr>xTCPWindow := w\<lparr>rx := (rx w)\<lparr>ulHighestSequenceNumber := pk_seq pk + of_nat (length (pk_data pk))\<rparr>\<rparr>\<rparr> else s1)"

definition take_packet :: "u32 \<Rightarrow> (nat \<Rightarrow> u8) option \<Rightarrow> tcp_packet \<Rightarrow> tcp_socket \<Rightarrow> tcp_socket option" where
  "take_packet now mem pk s =
     (case prvStoreRxData now mem (pk_seq pk) (pk_data pk) (note_arrival pk s) of
        None \<Rightarrow> None
      | Some (r, s1) \<Rightarrow>
          if r < 0 \<or> eTCPState s1 \<noteq> eESTABLISHED \<or> pk_flags pk AND tcpTCP_FLAG_ACK = 0 then Some s1
          else handle_ack now (pk_ack pk) s1)"

definition data_phase :: "tcp_packet \<Rightarrow> tcp_socket \<Rightarrow> bool" where
  "data_phase pk s \<longleftrightarrow> pk_flags pk AND 0x07 = 0 \<and> eTCPState s = eESTABLISHED \<and> \<not> bFinSent s \<and> \<not> bFinAccepted s"

fun end_step :: "end_event \<Rightarrow> tcp_packet list \<Rightarrow> endpoint \<Rightarrow> endpoint option" where
  "end_step (Call now mem data) peer e =
     (if caller e = Idle
      then map_option (\<lambda>(r, s). e\<lparr>sock := s, caller := if 0 < r then Ready (length data) data else Idle\<rparr>) (prvTCPSendCheck now mem (of_nat (length data)) (sock e))
      else Some e)"
| "end_step (Piece from_ip waits) peer e = (case caller e of Ready len data \<Rightarrow> take_piece from_ip waits len data e | _ \<Rightarrow> Some e)"
| "end_step (Wake now mem) peer e =
     (case caller e of
        Blocked len data \<Rightarrow> map_option (\<lambda>(r, s). e\<lparr>sock := s, caller := if r < 0 then Idle else Ready len data\<rparr>) (prvTCPSendCheck now mem (of_nat len) (sock e))
      | _ \<Rightarrow> Some e)"
| "end_step (Queue now) peer e = (if txStream (sock e) \<noteq> None then map_option (\<lambda>s. e\<lparr>sock := s\<rparr>) (prvTCPAddTxData now (sock e)) else Some e)"
| "end_step (Emit now got_buffer flags opt) peer e =
     map_option (\<lambda>(pk, s). e\<lparr>sock := s, wire := wire e @ (case pk of None \<Rightarrow> [] | Some k \<Rightarrow> [k])\<rparr>) (send_round now got_buffer flags opt (sock e))"
| "end_step (Arrive now mem i) peer e =
     (if i < length peer \<and> data_phase (peer ! i) (sock e) then map_option (\<lambda>s. e\<lparr>sock := s\<rparr>) (take_packet now mem (peer ! i) (sock e))
      else Some e)"
| "end_step (Read null_buffer len fl) peer e =
     map_option (\<lambda>(n, d, s). e\<lparr>sock := s, read_bytes := read_bytes e @ consumed fl d\<rparr>) (FreeRTOS_recv ip_run null_buffer len fl [] (sock e))"
| "end_step (Else s) peer e = Some (if elsewhere_ok (sock e) s \<and> otherwise_ok (sock e) s then e\<lparr>sock := s\<rparr> else e)"

text \<open>An event names the end at which it happens.\<close>

fun link_step :: "bool \<times> end_event \<Rightarrow> endpoint \<times> endpoint \<Rightarrow> (endpoint \<times> endpoint) option" where
  "link_step (True, ev) (a, b) = map_option (\<lambda>a'. (a', b)) (end_step ev (wire b) a)"
| "link_step (False, ev) (a, b) = map_option (\<lambda>b'. (a, b')) (end_step ev (wire a) b)"

fun link_run :: "(bool \<times> end_event) list \<Rightarrow> endpoint \<times> endpoint \<Rightarrow> (endpoint \<times> endpoint) option" where
  "link_run [] l = Some l"
| "link_run (x # xs) l = (case link_step x l of None \<Rightarrow> None | Some l' \<Rightarrow> link_run xs l')"


subsection \<open>One direction\<close>

lemma present_extend: "present S r b \<subseteq> present (S @ X) r b"
  by (auto simp: present_def nth_append)

lemma rx_at_extend:
  assumes "rx_at S isn r b w"
  shows "rx_at (S @ X) isn r b w"
proof -
  note d = assms[unfolded rx_at_def]
  have "length r \<le> length S" using d by linarith
  then have "r = take (length r) (S @ X)" using d by simp
  moreover have "length r + stream_size b \<le> length (S @ X)" using d by simp
  moreover have "{..<length r + stream_size b} \<subseteq> present (S @ X) (length r) b" using d subset_trans[OF _ present_extend] by blast
  moreover have "stored_in isn w (present (S @ X) (length r) b)" using d stored_in_mono[OF _ present_extend] by blast
  ultimately show ?thesis unfolding rx_at_def using d by blast
qed

lemma rx_inv_extend: "rx_inv S isn r s \<Longrightarrow> rx_inv (S @ X) isn r s"
  by (cases "rxStream s") (simp_all add: rx_inv_def rx_at_extend)

text \<open>The steps of one side of a socket leave the other side alone.\<close>

lemma rx_keeps_tx:
  assumes "rx_inv S isn r s'" "same_sender s s'" "calm s"
  shows "otherwise_ok s s'"
proof -
  have "segments_ok (xTCPWindow s')" using assms(1) by (cases "rxStream s'") (simp_all add: rx_inv_def rx_at_def)
  then show ?thesis using assms(2,3) by (simp add: otherwise_ok_def same_sender_def same_conn_def calm_def)
qed

lemma tx_keeps_rx: "tx_inv T isn K x h s' \<Longrightarrow> keeps_rx s s' \<Longrightarrow> elsewhere_ok s s'"
  using tx_inv_bounds(4)[of T isn K x h s'] by (simp add: elsewhere_ok_def keeps_rx_def same_rx_def)

lemma send_check_keeps:
  assumes "prvTCPSendCheck now mem n s = Some (r, s')"
  shows "keeps_rx s s'"
proof -
  have "keeps_rx s s1" if "prvTCPCreateStream now mem False s = Some s1" for s1
  proof (cases mem)
    case None
    then have "same_out (s\<lparr>bMallocError := True\<rparr>) s1" using that state_change_out by (auto simp: prvTCPCreateStream_def)
    then show ?thesis using same_out_keeps by (auto simp: same_out_def keeps_rx_def)
  next
    case (Some f)
    then show ?thesis using that by (auto simp: prvTCPCreateStream_def keeps_rx_def Let_def split: if_splits)
  qed
  then show ?thesis using assms by (auto simp: prvTCPSendCheck_def split: if_splits option.splits)
qed

lemma send_some_keeps: "send_some from_ip source left room b s = Some (n, s') \<Longrightarrow> keeps_rx s s'"
  by (auto simp: send_some_def keeps_rx_def act_def Let_def split: option.splits if_splits)

lemma send_round_ack: "send_round now got fl opt s = Some (Some pk, s') \<Longrightarrow> pk_ack pk = ulCurrentSequenceNumber (Tcp_Window.rx (xTCPWindow s'))"
  by (auto simp: send_round_def split: option.splits prod.splits if_splits)

lemma recv_now:
  assumes "rx_inv S isn r s"
  shows "\<exists>n d s'. FreeRTOS_recv ip_run null_buffer len fl [] s = Some (n, d, s') \<and> rx_inv S isn (r @ consumed fl d) s' \<and>
    accepted (r @ consumed fl d) s' = accepted r s \<and> same_conn s s'"
proof (cases "\<not> sock_valid s \<or> fl AND FREERTOS_ZERO_COPY \<noteq> 0 \<and> null_buffer")
  case True
  then show ?thesis using assms by (auto simp: FreeRTOS_recv_def consumed_def)
next
  case False
  obtain n where w: "prvRecvWait ip_run fl [] s = Some (n, s)" "0 < n \<longrightarrow> rxStream s \<noteq> None"
    using recv_wait_stops[of "[]" s False fl ip_run] by (auto simp: prvRecvWait_def)
  show ?thesis
  proof (cases "0 < n")
    case True
    then obtain b where b: "rxStream s = Some b" using w(2) by auto
    then show ?thesis using recv_data_inv[OF assms b, of len fl] False True w(1) by (auto simp: FreeRTOS_recv_def)
  next
    case no: False
    then show ?thesis using False w assms by (auto simp: FreeRTOS_recv_def consumed_def)
  qed
qed

text \<open>
  The direction from \<open>a\<close> to \<open>b\<close>. The receiver works on the part of the stream that has been sent; the sender counts as acknowledged only what the receiver
  has accepted; every packet on the wire is a piece of the stream, and every acknowledgement is one of bytes that are in.
\<close>

definition piece_ok :: "u8 list \<Rightarrow> u32 \<Rightarrow> nat \<Rightarrow> tcp_packet \<Rightarrow> bool" where
  "piece_ok T isn h pk \<longleftrightarrow> pk_data pk = [] \<or> slice_of T isn 0 h (pk_seq pk) (int (length (pk_data pk))) (pk_data pk)"

definition ack_ok :: "u32 \<Rightarrow> nat \<Rightarrow> tcp_packet \<Rightarrow> bool" where
  "ack_ok isn n pk \<longleftrightarrow> (\<exists>k\<le>n. pk_ack pk = seqno isn k)"

abbreviation got :: "endpoint \<Rightarrow> nat" where "got e \<equiv> accepted (read_bytes e) (sock e)"

definition dir_inv :: "u32 \<Rightarrow> nat \<Rightarrow> nat \<Rightarrow> endpoint \<Rightarrow> endpoint \<Rightarrow> bool" where
  "dir_inv isn x h a b \<longleftrightarrow> tx_inv (written a) isn {..<got b} x h (sock a) \<and> rx_inv (take h (written a)) isn (read_bytes b) (sock b) \<and>
     list_all (piece_ok (written a) isn h) (wire a) \<and> list_all (ack_ok isn (got b)) (wire b)"

lemma dir_invD:
  assumes "dir_inv isn x h a b"
  shows "tx_inv (written a) isn {..<got b} x h (sock a)" "rx_inv (take h (written a)) isn (read_bytes b) (sock b)"
    "list_all (piece_ok (written a) isn h) (wire a)" "list_all (ack_ok isn (got b)) (wire b)"
    "h \<le> length (written a)" "got b \<le> h" "x \<le> got b"
proof -
  show p: "tx_inv (written a) isn {..<got b} x h (sock a)" "rx_inv (take h (written a)) isn (read_bytes b) (sock b)"
    "list_all (piece_ok (written a) isn h) (wire a)" "list_all (ack_ok isn (got b)) (wire b)"
    using assms by (simp_all add: dir_inv_def)
  show "h \<le> length (written a)" by (rule tx_inv_bounds(2)[OF p(1)])
  then show "got b \<le> h" using rx_inv_bytes(2)[OF p(2)] by simp
  show "x \<le> got b" using tx_inv_bounds(3)[OF p(1)] by simp
qed

lemma piece_mono: "piece_ok T isn h pk \<Longrightarrow> h \<le> h' \<Longrightarrow> h \<le> length T \<Longrightarrow> piece_ok (T @ X) isn h' pk"
  using slice_mono by (auto simp: piece_ok_def)

lemma ack_mono: "ack_ok isn n pk \<Longrightarrow> n \<le> n' \<Longrightarrow> ack_ok isn n' pk"
  unfolding ack_ok_def by (meson le_trans)

text \<open>The sending end makes a step.\<close>

lemma dir_tx:
  assumes d: "dir_inv isn x h a b" and tx: "tx_inv (written a @ X) isn {..<got b} x' h' (sock a')" "h \<le> h'" "written a' = written a @ X"
    and w: "wire a' = wire a @ ps" "list_all (piece_ok (written a @ X) isn h') ps"
  shows "dir_inv isn x' h' a' b"
proof -
  note d' = dir_invD[OF d]
  have "take h' (written a @ X) = take h (written a) @ drop h (take h' (written a @ X))"
    using append_take_drop_id[of h "take h' (written a @ X)"] tx(2) d'(5) by (simp add: min_absorb1)
  then have "rx_inv (take h' (written a @ X)) isn (read_bytes b) (sock b)" using rx_inv_extend[OF d'(2)] by metis
  moreover have "list_all (piece_ok (written a @ X) isn h') (wire a)" using d'(3) piece_mono[OF _ tx(2) d'(5)] by (simp add: list_all_iff)
  ultimately show ?thesis unfolding dir_inv_def using d'(4) tx(1,3) w by simp
qed

text \<open>The receiving end makes a step.\<close>

lemma dir_rx:
  assumes d: "dir_inv isn x h b a" and rx: "rx_inv (take h (written b)) isn (read_bytes a') (sock a')" "got a \<le> got a'"
    and w: "wire a' = wire a @ ps" "\<And>pk. pk \<in> set ps \<Longrightarrow> pk_ack pk = ulCurrentSequenceNumber (Tcp_Window.rx (xTCPWindow (sock a')))"
  shows "dir_inv isn x h b a'"
proof -
  note d' = dir_invD[OF d]
  have "tx_inv (written b) isn {..<got a'} x h (sock b)" using tx_inv_mono[OF d'(1)] rx(2) by simp
  moreover have "list_all (ack_ok isn (got a')) (wire a)" using d'(4) ack_mono[OF _ rx(2)] by (simp add: list_all_iff)
  moreover have "list_all (ack_ok isn (got a')) ps" using w(2) rx_inv_bytes(3)[OF rx(1)] by (auto simp: list_all_iff ack_ok_def)
  ultimately show ?thesis unfolding dir_inv_def using d'(3) rx(1) w(1) by simp
qed

subsection \<open>Both directions\<close>

text \<open>Bytes have their numbers \<open>isn\<close> in the direction from \<open>a\<close> to \<open>b\<close>, and \<open>isn'\<close> in the other.\<close>

definition both_inv :: "u32 \<Rightarrow> u32 \<Rightarrow> endpoint \<Rightarrow> endpoint \<Rightarrow> bool" where
  "both_inv isn isn' a b \<longleftrightarrow> (\<exists>x h. dir_inv isn x h a b) \<and> (\<exists>x h. dir_inv isn' x h b a)"

lemma both_tx:
  assumes "dir_inv isn x h a b" "dir_inv isn' y g b a"
    and tx: "tx_inv (written a @ X) isn {..<got b} x' h' s'" "h \<le> h'" and k: "keeps_rx (sock a) s'"
    and ps: "list_all (piece_ok (written a @ X) isn h') ps" "\<And>pk. pk \<in> set ps \<Longrightarrow> pk_ack pk = ulCurrentSequenceNumber (Tcp_Window.rx (xTCPWindow s'))"
    and a': "sock a' = s'" "written a' = written a @ X" "read_bytes a' = read_bytes a" "wire a' = wire a @ ps"
  shows "both_inv isn isn' a' b"
proof -
  note e = elsewhere_inv[OF dir_invD(2)[OF assms(2)] tx_keeps_rx[OF tx(1) k]]
  have "dir_inv isn x' h' a' b" by (rule dir_tx[OF assms(1) _ tx(2) a'(2,4) ps(1)]) (simp add: a'(1) tx(1))
  moreover have "dir_inv isn' y g b a'" using e ps(2) by (intro dir_rx[OF assms(2) _ _ a'(4)]) (simp_all add: a')
  ultimately show ?thesis unfolding both_inv_def by blast
qed

lemma both_rx:
  assumes "dir_inv isn x h a b" "dir_inv isn' y g b a"
    and rx: "rx_inv (take g (written b)) isn' (read_bytes a') (sock a')" "got a \<le> got a'" and o: "otherwise_ok (sock a) (sock a')"
    and a': "written a' = written a" "wire a' = wire a"
  shows "both_inv isn isn' a' b"
proof -
  have "dir_inv isn x h a' b" using otherwise_inv[OF dir_invD(1)[OF assms(1)] o] a' by (intro dir_tx[OF assms(1), where X = "[]" and ps = "[]"]) simp_all
  moreover have "dir_inv isn' y g b a'" using a'(2) by (intro dir_rx[OF assms(2) rx, where ps = "[]"]) simp_all
  ultimately show ?thesis unfolding both_inv_def by blast
qed

text \<open>The socket of an end is in order, and so is what the sending task holds.\<close>

definition end_ok :: "endpoint \<Rightarrow> bool" where
  "end_ok e \<longleftrightarrow> calm (sock e) \<and> (caller e \<noteq> Idle \<longrightarrow> txStream (sock e) \<noteq> None \<and> left_over (caller e) \<noteq> [])"

definition demand :: "endpoint \<Rightarrow> nat" where "demand e = length (written e) + length (left_over (caller e))"

fun called :: "end_event \<Rightarrow> nat" where
  "called (Call _ _ data) = length data"
| "called _ = 0"

text \<open>The heap has room for a receive stream when it is asked for one.\<close>

fun heap_ok :: "end_event \<Rightarrow> bool" where
  "heap_ok (Arrive _ mem _) \<longleftrightarrow> mem \<noteq> None"
| "heap_ok _ \<longleftrightarrow> True"

definition step_ok :: "u32 \<Rightarrow> u32 \<Rightarrow> end_event \<Rightarrow> endpoint \<Rightarrow> endpoint \<Rightarrow> endpoint option \<Rightarrow> bool" where
  "step_ok isn isn' ev a b r \<longleftrightarrow> (\<exists>a'. r = Some a' \<and> both_inv isn isn' a' b \<and> end_ok a' \<and> demand a' \<le> demand a + called ev)"

lemma step_same: "both_inv isn isn' a b \<Longrightarrow> end_ok a \<Longrightarrow> step_ok isn isn' ev a b (Some a)"
  by (simp add: step_ok_def)

lemma both_invE:
  assumes "both_inv isn isn' a b"
  obtains x h y g where "dir_inv isn x h a b" "dir_inv isn' y g b a"
  using assms by (auto simp: both_inv_def)

lemma check_step:
  assumes "both_inv isn isn' a b" "calm (sock a)"
  obtains r s' where "prvTCPSendCheck now mem n (sock a) = Some (r, s')" "calm s'" "0 < r \<or> txStream (sock a) \<noteq> None \<longrightarrow> txStream s' \<noteq> None" "0 < r \<longrightarrow> n \<noteq> 0"
    "\<forall>c. both_inv isn isn' (a\<lparr>sock := s', caller := c\<rparr>) b"
proof -
  obtain x h y g where d: "dir_inv isn x h a b" "dir_inv isn' y g b a" by (rule both_invE[OF assms(1)])
  obtain r s' where r: "prvTCPSendCheck now mem n (sock a) = Some (r, s')" "tx_inv (written a) isn {..<got b} x h s'" "calm s'"
    "0 < r \<or> txStream (sock a) \<noteq> None \<longrightarrow> txStream s' \<noteq> None" using send_check_spec[OF dir_invD(1)[OF d(1)] assms(2), of now mem n] by blast
  have "0 < r \<longrightarrow> n \<noteq> 0" using r(1) by (auto simp: prvTCPSendCheck_def split: if_splits)
  moreover have "both_inv isn isn' (a\<lparr>sock := s', caller := c\<rparr>) b" for c
    by (rule both_tx[OF d, where X = "[]" and ps = "[]" and x' = x and h' = h and s' = s']) (use r(2) send_check_keeps[OF r(1)] in simp_all)
  ultimately show thesis using that r by blast
qed

lemma call_step:
  assumes "both_inv isn isn' a b" "end_ok a" "called (Call now mem data) < 2 ^ 31"
  shows "step_ok isn isn' (Call now mem data) a b (end_step (Call now mem data) peer a)"
proof (cases "caller a = Idle")
  case True
  have c: "calm (sock a)" using assms(2) by (simp add: end_ok_def)
  obtain r s' where r: "prvTCPSendCheck now mem (of_nat (length data)) (sock a) = Some (r, s')" "calm s'" "0 < r \<or> txStream (sock a) \<noteq> None \<longrightarrow> txStream s' \<noteq> None"
    "0 < r \<longrightarrow> of_nat (length data) \<noteq> (0 :: u32)" "\<forall>c. both_inv isn isn' (a\<lparr>sock := s', caller := c\<rparr>) b" by (rule check_step[OF assms(1) c, of now mem "of_nat (length data)"])
  have "0 < r \<longrightarrow> data \<noteq> []" using r(4) by auto
  then show ?thesis using True r by (auto simp: step_ok_def end_ok_def demand_def)
qed (use assms(1,2) step_same in simp)

lemma wake_step:
  assumes "both_inv isn isn' a b" "end_ok a"
  shows "step_ok isn isn' (Wake now mem) a b (end_step (Wake now mem) peer a)"
proof (cases "caller a")
  case (Blocked len data)
  have c: "calm (sock a)" using assms(2) by (simp add: end_ok_def)
  obtain r s' where r: "prvTCPSendCheck now mem (of_nat len) (sock a) = Some (r, s')" "calm s'" "0 < r \<or> txStream (sock a) \<noteq> None \<longrightarrow> txStream s' \<noteq> None"
    "\<forall>c. both_inv isn isn' (a\<lparr>sock := s', caller := c\<rparr>) b" by (rule check_step[OF assms(1) c, of now mem "of_nat len"])
  then show ?thesis using Blocked assms(2) by (auto simp: step_ok_def end_ok_def demand_def)
qed (use assms(1,2) step_same in simp_all)

lemma piece_step:
  assumes inv: "both_inv isn isn' a b" and ok: "end_ok a" and len: "demand a < 2 ^ 31"
  shows "step_ok isn isn' (Piece from_ip waits) a b (end_step (Piece from_ip waits) peer a)"
proof (cases "caller a")
  case (Ready len data)
  obtain x h y g where d: "dir_inv isn x h a b" "dir_inv isn' y g b a" by (rule both_invE[OF inv])
  note tx = dir_invD(1)[OF d(1)]
  obtain sb where sb: "txStream (sock a) = Some sb" and c: "calm (sock a)" "data \<noteq> []" using ok Ready by (auto simp: end_ok_def)
  have l: "length data < 2 ^ 31" using len Ready by (simp add: demand_def)
  have "stream_ok sb" using tx sb tx_streamD(1) by (auto simp: tx_inv_def)
  note room = room_sint[OF this]
  obtain n s1 where n: "(if 0 < int (stream_room sb) then (case txStream (sock a) of None \<Rightarrow> None | Some b' \<Rightarrow> send_some from_ip (Some data) (int (length data)) (int (stream_room sb)) b' (sock a))
      else Some (0, sock a)) = Some (int n, s1)" "n \<le> length data" "tx_inv (written a @ take n data) isn {..<got b} x h s1" "calm s1" "txStream s1 \<noteq> None"
    by (rule send_piece_spec[OF tx c(1) sb l c(2)])
  have k: "keeps_rx (sock a) s1" using n(1) sb send_some_keeps by (auto split: if_splits)
  define a' where "a' = a\<lparr>sock := s1, written := written a @ take n data, caller := if waits \<and> drop n data \<noteq> [] then Blocked len (drop n data) else Idle\<rparr>"
  have "(if 0 < stream_room sb then send_some from_ip (Some data) (int (length data)) (int (stream_room sb)) sb (sock a) else Some (0, sock a)) = Some (int n, s1)"
    using n(1) sb by (auto split: if_splits)
  then have "end_step (Piece from_ip waits) peer a = Some a'" by (simp add: Ready take_piece_def sb room a'_def)
  moreover have "both_inv isn isn' a' b"
    by (rule both_tx[OF d n(3) _ k, where ps = "[]"]) (simp_all add: a'_def)
  moreover have "end_ok a'" using n(4,5) by (simp add: end_ok_def a'_def)
  moreover have "demand a' \<le> demand a" using Ready n(2) by (simp add: demand_def a'_def)
  ultimately show ?thesis by (auto simp: step_ok_def)
qed (use inv ok step_same in simp_all)

lemma queue_step:
  assumes "both_inv isn isn' a b" "end_ok a"
  shows "step_ok isn isn' (Queue now) a b (end_step (Queue now) peer a)"
proof (cases "txStream (sock a)")
  case (Some sb)
  obtain x h y g where d: "dir_inv isn x h a b" "dir_inv isn' y g b a" by (rule both_invE[OF assms(1)])
  obtain s' where s': "prvTCPAddTxData now (sock a) = Some s'" "tx_inv (written a) isn {..<got b} x h s'" "keeps_rx (sock a) s'"
    using add_tx_data_spec[OF dir_invD(1)[OF d(1)] Some, of now] by blast
  have "both_inv isn isn' (a\<lparr>sock := s'\<rparr>) b"
    by (rule both_tx[OF d, where X = "[]" and ps = "[]" and x' = x and h' = h and s' = s']) (use s' in simp_all)
  then show ?thesis using Some s' assms(2) calm_add[OF s'(1)] by (auto simp: step_ok_def end_ok_def demand_def keeps_rx_def)
qed (use assms step_same in simp)

lemma emit_step:
  assumes "both_inv isn isn' a b" "end_ok a" "demand a < 2 ^ 31"
  shows "step_ok isn isn' (Emit now got_buffer fl opt) a b (end_step (Emit now got_buffer fl opt) peer a)"
proof -
  obtain x h y g where d: "dir_inv isn x h a b" "dir_inv isn' y g b a" by (rule both_invE[OF assms(1)])
  have c: "calm (sock a)" "length (written a) < 2 ^ 31" using assms(2,3) by (simp_all add: end_ok_def demand_def)
  obtain pk s' h' where p: "send_round now got_buffer fl opt (sock a) = Some (pk, s')" "tx_inv (written a) isn {..<got b} x h' s'" "h \<le> h'" "keeps_rx (sock a) s'" "calm s'"
    "\<forall>k. pk = Some k \<longrightarrow> packet_ok (written a) isn x h' opt k" using send_round_spec[OF dir_invD(1)[OF d(1)] c(2,1), of now got_buffer fl opt] by blast
  define ps where "ps = (case pk of None \<Rightarrow> [] | Some k \<Rightarrow> [k])"
  have "list_all (piece_ok (written a) isn h') ps" using p(6) by (auto simp: ps_def piece_ok_def packet_ok_def slice_of_def split: option.splits)
  moreover have "pk_ack k = ulCurrentSequenceNumber (Tcp_Window.rx (xTCPWindow s'))" if "k \<in> set ps" for k
    using that p(1) send_round_ack by (auto simp: ps_def split: option.splits)
  ultimately have "both_inv isn isn' (a\<lparr>sock := s', wire := wire a @ ps\<rparr>) b"
    by (intro both_tx[OF d, where X = "[]" and ps = ps and x' = x and h' = h' and s' = s']) (use p(2-4) in simp_all)
  moreover have "end_ok (a\<lparr>sock := s', wire := wire a @ ps\<rparr>)" using assms(2) p(4,5) by (auto simp: end_ok_def keeps_rx_def)
  ultimately show ?thesis using p(1) by (simp add: step_ok_def demand_def ps_def)
qed

lemma read_step:
  assumes "both_inv isn isn' a b" "end_ok a"
  shows "step_ok isn isn' (Read null_buffer len fl) a b (end_step (Read null_buffer len fl) peer a)"
proof -
  obtain x h y g where d: "dir_inv isn x h a b" "dir_inv isn' y g b a" by (rule both_invE[OF assms(1)])
  obtain n dt s' where r: "FreeRTOS_recv ip_run null_buffer len fl [] (sock a) = Some (n, dt, s')" "rx_inv (take g (written b)) isn' (read_bytes a @ consumed fl dt) s'"
    "accepted (read_bytes a @ consumed fl dt) s' = got a" "same_conn (sock a) s'" using recv_now[OF dir_invD(2)[OF d(2)], of null_buffer len fl] by blast
  have "same_sender (sock a) s'" using r(4) by (simp add: same_sender_def same_conn_def)
  then have o: "otherwise_ok (sock a) s'" using rx_keeps_tx[OF r(2)] assms(2) by (simp add: end_ok_def)
  have "both_inv isn isn' (a\<lparr>sock := s', read_bytes := read_bytes a @ consumed fl dt\<rparr>) b"
    by (rule both_rx[OF d]) (use r(2,3) o in simp_all)
  then show ?thesis using r(1) o assms(2) by (simp add: step_ok_def end_ok_def demand_def otherwise_ok_def)
qed

lemma highest_frame [simp]:
  "rx_inv S isn r (s\<lparr>xTCPWindow := (xTCPWindow s)\<lparr>rx := (rx (xTCPWindow s))\<lparr>ulHighestSequenceNumber := n\<rparr>\<rparr>\<rparr>) = rx_inv S isn r s"
  "same_tx w (w\<lparr>rx := q\<rparr>)"
proof -
  define w where "w = xTCPWindow s"
  have "segments_ok (w\<lparr>rx := q\<rparr>) = segments_ok w" "stored_in isn (w\<lparr>rx := q\<rparr>) G = stored_in isn w G" for q G by (simp_all add: segments_ok_def stored_in_def)
  then have "rx_at S isn r b (w\<lparr>rx := (rx w)\<lparr>ulHighestSequenceNumber := n\<rparr>\<rparr>) = rx_at S isn r b w" for b by (simp add: rx_at_def)
  then show "rx_inv S isn r (s\<lparr>xTCPWindow := (xTCPWindow s)\<lparr>rx := (rx (xTCPWindow s))\<lparr>ulHighestSequenceNumber := n\<rparr>\<rparr>\<rparr>) = rx_inv S isn r s"
    unfolding rx_inv_def w_def[symmetric] by (cases "rxStream s") (simp_all add: segments_ok_def w_def[symmetric])
qed (simp add: same_tx_def)

lemma win_change_frame [simp]: "rx_inv S isn r (s\<lparr>bWinChange := q\<rparr>) = rx_inv S isn r s" "accepted r (s\<lparr>bWinChange := q\<rparr>) = accepted r s"
  by (cases "rxStream s"; simp add: rx_inv_def accepted_def)+

lemma note_arrival_frame:
  "rx_inv S isn r (note_arrival pk s) = rx_inv S isn r s" "accepted r (note_arrival pk s) = accepted r s" "calm (note_arrival pk s) = calm s"
  "txStream (note_arrival pk s) = txStream s" "uxTxStreamSize (note_arrival pk s) = uxTxStreamSize s" "same_tx (xTCPWindow s) (xTCPWindow (note_arrival pk s))"
proof -
  define s1 where "s1 = (if eESTABLISHED \<le> eTCPState s \<and> ulCurrentSequenceNumber (Tcp_Window.rx (xTCPWindow s)) = pk_seq pk + 1 then s\<lparr>bWinChange := True\<rparr> else s)"
  have s1: "rx_inv S isn r s1 = rx_inv S isn r s" "accepted r s1 = accepted r s" "calm s1 = calm s" "txStream s1 = txStream s" "uxTxStreamSize s1 = uxTxStreamSize s" "xTCPWindow s1 = xTCPWindow s"
    by (simp_all add: s1_def)
  obtain n where "note_arrival pk s = s1 \<or> note_arrival pk s = s1\<lparr>xTCPWindow := (xTCPWindow s1)\<lparr>rx := (rx (xTCPWindow s1))\<lparr>ulHighestSequenceNumber := n\<rparr>\<rparr>\<rparr>"
    unfolding note_arrival_def Let_def s1_def[symmetric] by metis
  then have "rx_inv S isn r (note_arrival pk s) = rx_inv S isn r s1" "accepted r (note_arrival pk s) = accepted r s1" "calm (note_arrival pk s) = calm s1"
    "txStream (note_arrival pk s) = txStream s1" "uxTxStreamSize (note_arrival pk s) = uxTxStreamSize s1" "same_tx (xTCPWindow s1) (xTCPWindow (note_arrival pk s))"
    by (elim disjE; simp add: accepted_def)+
  then show "rx_inv S isn r (note_arrival pk s) = rx_inv S isn r s" "accepted r (note_arrival pk s) = accepted r s" "calm (note_arrival pk s) = calm s"
    "txStream (note_arrival pk s) = txStream s" "uxTxStreamSize (note_arrival pk s) = uxTxStreamSize s" "same_tx (xTCPWindow s) (xTCPWindow (note_arrival pk s))"
    by (simp_all only: s1)
qed

lemma store_arrived:
  assumes "rx_inv (take h T) isn r s" "piece_ok T isn h pk" "h \<le> length T" "h < 2 ^ 31 - 1" "mem \<noteq> None"
  shows "\<exists>s'. prvStoreRxData now mem (pk_seq pk) (pk_data pk) s = Some (0, s') \<and> rx_inv (take h T) isn r s' \<and> same_sender s s' \<and> accepted r s \<le> accepted r s'"
proof (cases "pk_data pk = []")
  case True
  then have "prvStoreRxData now mem (pk_seq pk) (pk_data pk) s = prvStoreRxData now mem (seqno isn 0) (take 0 (drop 0 (take h T))) s"
    by (simp add: prvStoreRxData_def)
  then show ?thesis using store_packet[OF assms(1) _ _ assms(5), of 0 0 now] assms(3,4) by auto
next
  case False
  then obtain p where p: "p + length (pk_data pk) \<le> h" "pk_seq pk = seqno isn p" "pk_data pk = take (length (pk_data pk)) (drop p T)"
    using assms(2) by (auto simp: piece_ok_def slice_of_def)
  then have "pk_data pk = take (length (pk_data pk)) (drop p (take h T))" by (simp add: drop_take min_absorb1)
  then show ?thesis using store_packet[OF assms(1) _ _ assms(5), of p "length (pk_data pk)" now] p(1,2) assms(3,4) by auto
qed

lemma arrive_step:
  assumes "both_inv isn isn' a b" "end_ok a" "demand a < 2 ^ 31" "demand b < 2 ^ 31 - 1" "mem \<noteq> None"
  shows "step_ok isn isn' (Arrive now mem i) a b (end_step (Arrive now mem i) (wire b) a)"
proof (cases "i < length (wire b) \<and> data_phase (wire b ! i) (sock a)")
  case True
  obtain x h y g where d: "dir_inv isn x h a b" "dir_inv isn' y g b a" by (rule both_invE[OF assms(1)])
  define pk where "pk = wire b ! i"
  have pk: "piece_ok (written b) isn' g pk" "ack_ok isn (got b) pk" using True dir_invD(3)[OF d(2)] dir_invD(4)[OF d(1)] by (simp_all add: pk_def list_all_length)
  have g: "g \<le> length (written b)" "g < 2 ^ 31 - 1" using dir_invD(5)[OF d(2)] assms(4) by (simp_all add: demand_def)
  have rx0: "rx_inv (take g (written b)) isn' (read_bytes a) (note_arrival pk (sock a))" using dir_invD(2)[OF d(2)] by (simp add: note_arrival_frame)
  obtain s1 where s1: "prvStoreRxData now mem (pk_seq pk) (pk_data pk) (note_arrival pk (sock a)) = Some (0, s1)" "rx_inv (take g (written b)) isn' (read_bytes a) s1"
    "same_sender (note_arrival pk (sock a)) s1"
    "got a \<le> accepted (read_bytes a) s1" using store_arrived[OF rx0 pk(1) g assms(5), of now] unfolding note_arrival_frame(2) by blast
  have "otherwise_ok (note_arrival pk (sock a)) s1" using rx_keeps_tx[OF s1(2,3)] assms(2) by (simp add: end_ok_def note_arrival_frame)
  then have o: "otherwise_ok (sock a) s1" using same_tx_trans[OF note_arrival_frame(6)] by (auto simp: otherwise_ok_def note_arrival_frame)
  have "both_inv isn isn' (a\<lparr>sock := s1\<rparr>) b" by (rule both_rx[OF d]) (use s1(2,4) o in simp_all)
  then obtain x1 h1 y1 g1 where d1: "dir_inv isn x1 h1 (a\<lparr>sock := s1\<rparr>) b" "dir_inv isn' y1 g1 b (a\<lparr>sock := s1\<rparr>)" by (rule both_invE)
  note tx1 = dir_invD(1)[OF d1(1), simplified]
  obtain k where k: "k \<le> got b" "pk_ack pk = seqno isn k" using pk(2) by (auto simp: ack_ok_def)
  have "length (written a) < 2 ^ 31" "k \<le> h1" "{..<k} \<subseteq> {..<got b}" using assms(3) k(1) dir_invD(6)[OF d1(1)] by (simp_all add: demand_def)
  then obtain s2 x2 where s2: "handle_ack now (seqno isn k) s1 = Some s2" "tx_inv (written a) isn {..<got b} x2 h1 s2" "keeps_rx s1 s2"
    using handle_ack_spec[OF tx1, of k now] by blast
  have "both_inv isn isn' (a\<lparr>sock := s2\<rparr>) b"
    by (rule both_tx[OF d1, where X = "[]" and ps = "[]" and x' = x2 and h' = h1 and s' = s2]) (use s2(2,3) in simp_all)
  then have b2: "both_inv isn isn' (a\<lparr>sock := s\<rparr>) b" if "s = s1 \<or> s = s2" for s using that d1 by (auto simp: both_inv_def)
  have "end_ok (a\<lparr>sock := s\<rparr>)" if "s = s1 \<or> s = s2" for s using that assms(2) o s2(3) calm_ack[OF s2(1)] by (auto simp: end_ok_def otherwise_ok_def keeps_rx_def)
  moreover have "end_step (Arrive now mem i) (wire b) a =
      Some (a\<lparr>sock := if eTCPState s1 = eESTABLISHED \<and> pk_flags pk AND tcpTCP_FLAG_ACK \<noteq> 0 then s2 else s1\<rparr>)"
    using True s1(1) s2(1) k(2) by (simp add: take_packet_def pk_def)
  ultimately show ?thesis using b2 by (auto simp: step_ok_def demand_def)
qed (use assms(1,2) step_same in auto)

lemma else_step:
  assumes "both_inv isn isn' a b" "end_ok a"
  shows "step_ok isn isn' (Else s) a b (end_step (Else s) peer a)"
proof (cases "elsewhere_ok (sock a) s \<and> otherwise_ok (sock a) s")
  case True
  obtain x h y g where d: "dir_inv isn x h a b" "dir_inv isn' y g b a" by (rule both_invE[OF assms(1)])
  have "both_inv isn isn' (a\<lparr>sock := s\<rparr>) b"
    by (rule both_rx[OF d]) (use True elsewhere_inv[OF dir_invD(2)[OF d(2)], of s] in simp_all)
  then show ?thesis using True assms(2) by (simp add: step_ok_def end_ok_def demand_def otherwise_ok_def)
qed (use assms step_same in auto)

lemma end_step_ok:
  assumes "both_inv isn isn' a b" "end_ok a" "demand a + called ev < 2 ^ 31 - 1" "demand b < 2 ^ 31 - 1" "heap_ok ev"
  shows "step_ok isn isn' ev a b (end_step ev (wire b) a)"
  by (cases ev) (use assms in \<open>simp_all only: called.simps heap_ok.simps add_0_right\<close>,
    (rule call_step wake_step piece_step queue_step emit_step read_step arrive_step else_step; simp)+)


subsection \<open>Runs\<close>

fun to_send :: "bool \<Rightarrow> (bool \<times> end_event) list \<Rightarrow> nat" where
  "to_send side [] = 0"
| "to_send side ((at, ev) # xs) = (if at = side then called ev else 0) + to_send side xs"

lemma both_inv_swap: "both_inv isn isn' a b \<longleftrightarrow> both_inv isn' isn b a"
  by (auto simp: both_inv_def)

lemma link_run_ok:
  assumes "both_inv isn isn' a b" "end_ok a" "end_ok b" "demand a + to_send True events < 2 ^ 31 - 1" "demand b + to_send False events < 2 ^ 31 - 1"
    and "list_all (\<lambda>(_, ev). heap_ok ev) events"
  shows "\<exists>a' b'. link_run events (a, b) = Some (a', b') \<and> both_inv isn isn' a' b'"
  using assms
proof (induction events arbitrary: a b)
  case (Cons e events)
  obtain at ev where e: "e = (at, ev)" by fastforce
  note prems = Cons.prems[unfolded e]
  show ?case
  proof (cases at)
    case True
    then obtain a1 where a1: "end_step ev (wire b) a = Some a1" "both_inv isn isn' a1 b" "end_ok a1" "demand a1 \<le> demand a + called ev"
      using end_step_ok[OF prems(1,2), of ev] prems(4-6) by (auto simp: step_ok_def)
    have "demand a1 + to_send True events < 2 ^ 31 - 1" "demand b + to_send False events < 2 ^ 31 - 1" using a1(4) prems(4,5) True by simp_all
    then show ?thesis using Cons.IH[OF a1(2,3) prems(3)] a1(1) prems(6) e True by simp
  next
    case False
    then obtain b1 where b1: "end_step ev (wire a) b = Some b1" "both_inv isn' isn b1 a" "end_ok b1" "demand b1 \<le> demand b + called ev"
      using end_step_ok[OF prems(1)[unfolded both_inv_swap[of isn]] prems(3), of ev] prems(4-6) by (auto simp: step_ok_def)
    have "demand a + to_send True events < 2 ^ 31 - 1" "demand b1 + to_send False events < 2 ^ 31 - 1" using b1(4) prems(4,5) False by simp_all
    then show ?thesis using Cons.IH[OF b1(2)[unfolded both_inv_swap[of isn']] prems(2) b1(3)] b1(1) prems(6) e False by simp
  qed
qed simp

text \<open>
  The state of a direction as the two applications see it: what has been read at \<open>b\<close> or can be is the beginning of what has been sent at \<open>a\<close>, and
  everything behind it is still in the stream of \<open>a\<close>.
\<close>

definition carried :: "endpoint \<Rightarrow> endpoint \<Rightarrow> bool" where
  "carried a b \<longleftrightarrow> (\<exists>k x. read_bytes b @ unread (sock b) = take k (written a) \<and> unconfirmed (sock a) = drop x (written a) \<and> x \<le> k \<and> k \<le> length (written a))"

lemma dir_carried:
  assumes "dir_inv isn x h a b"
  shows "carried a b"
proof -
  note d = dir_invD[OF assms]
  have "read_bytes b @ unread (sock b) = take (got b) (written a)" using rx_inv_bytes(1)[OF d(2)] d(6) by (simp add: unread_def min_absorb1)
  then show ?thesis unfolding carried_def using tx_inv_bytes[OF d(1)] d(5-7) by (intro exI[of _ "got b"] exI[of _ x]) simp
qed

definition new_end :: "tcp_socket \<Rightarrow> endpoint" where
  "new_end s = \<lparr>sock = s, caller = Idle, written = [], read_bytes = [], wire = []\<rparr>"

lemma new_dir:
  assumes "tx_start isn s" "rx_start isn s'"
  shows "dir_inv isn 0 0 (new_end s) (new_end s')"
proof -
  have "got (new_end s') = 0" using assms(2) by (simp add: new_end_def rx_start_def accepted_def)
  then show ?thesis using tx_start_inv[OF assms(1)] rx_start_inv[OF assms(2)] by (simp add: dir_inv_def new_end_def)
qed

text \<open>
  C14. A connection between two ends that both run this code carries both streams, until one of them closes it and without selective acknowledgements. Whatever the applications send and read at the
  two ends, however the calls, the IP tasks and the network are interleaved, whichever packets get lost, come twice or in another order: no step fails, and in both directions what
  has arrived is the beginning of what was sent, byte for byte, and what has not arrived is still kept by its sender. Packets with \<open>FIN\<close>, and packets that
  reach an end which has begun to close, count as lost; acknowledgements are the cumulative ones only (\<open>sack_claims_missing_bytes\<close> shows that a selective one can confirm bytes that are not there).
  Each stream is shorter than \<open>2\<^sup>31 - 1\<close> bytes and the heap has room for the stream buffers.
\<close>

theorem tcp_end_to_end:
  assumes "tx_start isn s" "rx_start isn' s" "tx_start isn' s'" "rx_start isn s'" "to_send True events < 2 ^ 31 - 1" "to_send False events < 2 ^ 31 - 1"
    and "list_all (\<lambda>(_, ev). heap_ok ev) events"
  shows "\<exists>a b. link_run events (new_end s, new_end s') = Some (a, b) \<and> carried a b \<and> carried b a"
proof -
  have "both_inv isn isn' (new_end s) (new_end s')" using new_dir assms(1-4) unfolding both_inv_def by blast
  moreover have "end_ok (new_end s)" "end_ok (new_end s')" using assms(1,3) by (simp_all add: end_ok_def new_end_def tx_start_def)
  moreover have "demand (new_end s) = 0" "demand (new_end s') = 0" by (simp_all add: demand_def new_end_def)
  ultimately obtain a b where "link_run events (new_end s, new_end s') = Some (a, b)" "both_inv isn isn' a b"
    using link_run_ok[of isn isn' "new_end s" "new_end s'" events] assms(5-7) by auto
  then show ?thesis using dir_carried unfolding both_inv_def by blast
qed

text \<open>An example: the first of two packets gets lost and is repeated, the second comes first; the answer takes the acknowledgement back.\<close>

definition link_demo_a :: tcp_socket where
  "link_demo_a = tx_demo_socket\<lparr>xTCPWindow := tx_demo_window\<lparr>rx := \<lparr>ulFirstSequenceNumber = 7, ulCurrentSequenceNumber = 7, ulFINSequenceNumber = 0, ulHighestSequenceNumber = 7\<rparr>\<rparr>\<rparr>"

definition link_demo_b :: tcp_socket where
  "link_demo_b = tx_demo_socket\<lparr>xTCPWindow := tx_demo_window\<lparr>rx := \<lparr>ulFirstSequenceNumber = 0xfffffffe, ulCurrentSequenceNumber = 0xfffffffe, ulFINSequenceNumber = 0, ulHighestSequenceNumber = 0xfffffffe\<rparr>,
     tx := \<lparr>ulFirstSequenceNumber = 7, ulCurrentSequenceNumber = 7, ulFINSequenceNumber = 0, ulHighestSequenceNumber = 7\<rparr>, ulOurSequenceNumber := 7, ulNextTxSequenceNumber := 7\<rparr>\<rparr>"

definition link_demo :: "(bool \<times> end_event) list" where
  "link_demo =
     [(True, Call 0 (Some (\<lambda>_. 0)) [1, 2, 3, 4, 5, 6, 7]), (True, Piece False True), (True, Queue 0), (True, Emit 0 True 0 0), (True, Emit 1 True 0 0),
      (False, Arrive 2 (Some (\<lambda>_. 99)) 1), (False, Read False 8 0), (True, Emit 5000 True 0 0), (False, Arrive 5001 (Some (\<lambda>_. 99)) 2), (False, Read False 5 0),
      (False, Call 5002 (Some (\<lambda>_. 0)) [41, 42]), (False, Piece False False), (False, Queue 5002), (False, Emit 5003 True 0 0), (True, Arrive 5004 (Some (\<lambda>_. 99)) 0)]"

lemma link_demo_value:
  "case link_run link_demo (new_end link_demo_a, new_end link_demo_b) of None \<Rightarrow> False
   | Some (a, b) \<Rightarrow> written a = [1, 2, 3, 4, 5, 6, 7] \<and> read_bytes b = [1, 2, 3, 4, 5] \<and> unread (sock b) = [6, 7] \<and> unconfirmed (sock a) = [] \<and>
       written b = [41, 42] \<and> unread (sock a) = [41, 42] \<and> unconfirmed (sock b) = [41, 42]"
  by code_simp

lemma link_demo_start:
  "tx_start 0xfffffffe link_demo_a" "rx_start 7 link_demo_a" "tx_start 7 link_demo_b" "rx_start 0xfffffffe link_demo_b"
  by (auto simp: tx_start_def rx_start_def link_demo_a_def link_demo_b_def tx_demo_socket_def tx_demo_window_def segments_ok_def calm_def)

theorem tcp_end_to_end_witness:
  "\<exists>a b. link_run link_demo (new_end link_demo_a, new_end link_demo_b) = Some (a, b) \<and> carried a b \<and> carried b a \<and> written a = [1, 2, 3, 4, 5, 6, 7] \<and>
     read_bytes b @ unread (sock b) = [1, 2, 3, 4, 5, 6, 7] \<and> unread (sock a) = [41, 42]"
proof -
  have "to_send True link_demo < 2 ^ 31 - 1" "to_send False link_demo < 2 ^ 31 - 1" "list_all (\<lambda>(_, ev). heap_ok ev) link_demo" by (simp_all add: link_demo_def)
  then show ?thesis using tcp_end_to_end[OF link_demo_start, of link_demo] link_demo_value by auto
qed

end
