(* ===== verification/Rtos_Heap.thy ===== *)
theory Rtos_Heap
  imports Prelude
begin

section \<open>The heap\<close>

text \<open>
  \<^verbatim>\<open>heap_4.c\<close> of the kernel, from which tasks, queues, sockets and network buffers are allocated. The heap is an array of bytes; each block starts with a
  header of two words in that same memory, and the free blocks are linked in the order of their addresses. A failing \<open>configASSERT\<close>, which
  stops the processor, is \<open>None\<close>, and so is a search that does not end.
\<close>

subsection \<open>Memory\<close>

type_synonym bytes = "u32 \<Rightarrow> u8"

definition load32 :: "bytes \<Rightarrow> u32 \<Rightarrow> u32" where
  "load32 m a = ucast (m a) OR push_bit 8 (ucast (m (a + 1))) OR push_bit 16 (ucast (m (a + 2))) OR push_bit 24 (ucast (m (a + 3)))"

definition store32 :: "u32 \<Rightarrow> u32 \<Rightarrow> bytes \<Rightarrow> bytes" where
  "store32 a v m = m(a := ucast v, a + 1 := ucast (drop_bit 8 v), a + 2 := ucast (drop_bit 16 v), a + 3 := ucast (drop_bit 24 v))"

text \<open>A \<open>BlockLink_t\<close>: the address of the next free block and the size.\<close>

definition pxNextFreeBlock :: "bytes \<Rightarrow> u32 \<Rightarrow> u32" where "pxNextFreeBlock m a = load32 m a"

definition xBlockSize :: "bytes \<Rightarrow> u32 \<Rightarrow> u32" where "xBlockSize m a = load32 m (a + 4)"

definition set_next :: "u32 \<Rightarrow> u32 \<Rightarrow> bytes \<Rightarrow> bytes" where "set_next a v m = store32 a v m"

definition set_size :: "u32 \<Rightarrow> u32 \<Rightarrow> bytes \<Rightarrow> bytes" where "set_size a v m = store32 (a + 4) v m"

text \<open>
  The variables of the file. Where the linker puts the array and the head of the list, and the configured size, are constants. \<open>hook_called\<close> tells that
  \<open>vApplicationMallocFailedHook\<close> was called, from which the firmware's version does not return.
\<close>

record heap =
  ucHeap :: u32
  configTOTAL_HEAP_SIZE :: u32
  xStart :: u32
  hmem :: bytes
  pxEnd :: u32
  xFreeBytesRemaining :: u32
  xMinimumEverFreeBytesRemaining :: u32
  xNumberOfSuccessfulAllocations :: u32
  xNumberOfSuccessfulFrees :: u32
  hook_called :: bool

definition portBYTE_ALIGNMENT :: u32 where "portBYTE_ALIGNMENT = 8"

definition portBYTE_ALIGNMENT_MASK :: u32 where "portBYTE_ALIGNMENT_MASK = 7"

definition xHeapStructSize :: u32 where
  "xHeapStructSize = (8 + (portBYTE_ALIGNMENT - 1)) AND NOT portBYTE_ALIGNMENT_MASK"

definition heapMINIMUM_BLOCK_SIZE :: u32 where "heapMINIMUM_BLOCK_SIZE = push_bit 1 xHeapStructSize"

definition heapSIZE_MAX :: u32 where "heapSIZE_MAX = NOT 0"

definition heapMULTIPLY_WILL_OVERFLOW :: "u32 \<Rightarrow> u32 \<Rightarrow> bool" where "heapMULTIPLY_WILL_OVERFLOW a b \<longleftrightarrow> 0 < a \<and> heapSIZE_MAX div a < b"

definition heapADD_WILL_OVERFLOW :: "u32 \<Rightarrow> u32 \<Rightarrow> bool" where "heapADD_WILL_OVERFLOW a b \<longleftrightarrow> heapSIZE_MAX - b < a"

definition heapSUBTRACT_WILL_UNDERFLOW :: "u32 \<Rightarrow> u32 \<Rightarrow> bool" where "heapSUBTRACT_WILL_UNDERFLOW a b \<longleftrightarrow> a < b"

definition heapBLOCK_ALLOCATED_BITMASK :: u32 where "heapBLOCK_ALLOCATED_BITMASK = push_bit 31 1"

definition heapBLOCK_SIZE_IS_VALID :: "u32 \<Rightarrow> bool" where "heapBLOCK_SIZE_IS_VALID n \<longleftrightarrow> n AND heapBLOCK_ALLOCATED_BITMASK = 0"

definition heapBLOCK_IS_ALLOCATED :: "bytes \<Rightarrow> u32 \<Rightarrow> bool" where "heapBLOCK_IS_ALLOCATED m p \<longleftrightarrow> xBlockSize m p AND heapBLOCK_ALLOCATED_BITMASK \<noteq> 0"

definition heapALLOCATE_BLOCK :: "u32 \<Rightarrow> bytes \<Rightarrow> bytes" where
  "heapALLOCATE_BLOCK p m = set_size p (xBlockSize m p OR heapBLOCK_ALLOCATED_BITMASK) m"

definition heapFREE_BLOCK :: "u32 \<Rightarrow> bytes \<Rightarrow> bytes" where
  "heapFREE_BLOCK p m = set_size p (xBlockSize m p AND NOT heapBLOCK_ALLOCATED_BITMASK) m"

definition heapVALIDATE_BLOCK_POINTER :: "heap \<Rightarrow> u32 \<Rightarrow> bool" where
  "heapVALIDATE_BLOCK_POINTER h p \<longleftrightarrow> ucHeap h \<le> p \<and> p \<le> ucHeap h + (configTOTAL_HEAP_SIZE h - 1)"


subsection \<open>The operations\<close>

definition prvHeapInit :: "heap \<Rightarrow> heap" where
  "prvHeapInit h =
     (let unaligned = ucHeap h AND portBYTE_ALIGNMENT_MASK \<noteq> 0;
          uxStartAddress = (if unaligned then (ucHeap h + (portBYTE_ALIGNMENT - 1)) AND NOT portBYTE_ALIGNMENT_MASK else ucHeap h);
          xTotalHeapSize = (if unaligned then configTOTAL_HEAP_SIZE h - (uxStartAddress - ucHeap h) else configTOTAL_HEAP_SIZE h);
          m1 = set_size (xStart h) 0 (set_next (xStart h) uxStartAddress (hmem h));
          uxEndAddress = (uxStartAddress + xTotalHeapSize - xHeapStructSize) AND NOT portBYTE_ALIGNMENT_MASK;
          m2 = set_next uxEndAddress 0 (set_size uxEndAddress 0 m1);
          n = uxEndAddress - uxStartAddress;
          m3 = set_next uxStartAddress uxEndAddress (set_size uxStartAddress n m2)
      in h\<lparr>hmem := m3, pxEnd := uxEndAddress, xMinimumEverFreeBytesRemaining := n, xFreeBytesRemaining := n\<rparr>)"

text \<open>The size of the block for a request: with its header, rounded up; 0 when that overflows.\<close>

definition wanted_size :: "u32 \<Rightarrow> u32" where
  "wanted_size n =
     (if 0 < n
      then if \<not> heapADD_WILL_OVERFLOW n xHeapStructSize
           then let n1 = n + xHeapStructSize
                in if n1 AND portBYTE_ALIGNMENT_MASK \<noteq> 0
                   then let extra = portBYTE_ALIGNMENT - (n1 AND portBYTE_ALIGNMENT_MASK)
                        in if \<not> heapADD_WILL_OVERFLOW n1 extra then n1 + extra else 0
                   else n1
           else 0
      else n)"

text \<open>The loop that looks for a block that is large enough; it returns the block and the one before it in the list.\<close>

partial_function (option) find_block :: "heap \<Rightarrow> u32 \<Rightarrow> u32 \<Rightarrow> u32 \<Rightarrow> (u32 \<times> u32) option" where
  "find_block h want pxPreviousBlock pxBlock =
     (if \<not> heapVALIDATE_BLOCK_POINTER h pxBlock then None
      else if xBlockSize (hmem h) pxBlock < want \<and> pxNextFreeBlock (hmem h) pxBlock \<noteq> 0
      then find_block h want pxBlock (pxNextFreeBlock (hmem h) pxBlock)
      else Some (pxPreviousBlock, pxBlock))"

text \<open>What is left of a block that is larger than needed becomes a free block.\<close>

definition split_block :: "u32 \<Rightarrow> u32 \<Rightarrow> u32 \<Rightarrow> bytes \<Rightarrow> bytes option" where
  "split_block want pxPreviousBlock pxBlock m =
     (if heapMINIMUM_BLOCK_SIZE < xBlockSize m pxBlock - want
      then let pxNewBlockLink = pxBlock + want
           in if pxNewBlockLink AND portBYTE_ALIGNMENT_MASK \<noteq> 0 then None
              else let m1 = set_size pxNewBlockLink (xBlockSize m pxBlock - want) m;
                       m2 = set_size pxBlock want m1;
                       m3 = set_next pxNewBlockLink (pxNextFreeBlock m2 pxPreviousBlock) m2
                   in Some (set_next pxPreviousBlock pxNewBlockLink m3)
      else Some m)"

definition take_block :: "u32 \<Rightarrow> u32 \<Rightarrow> u32 \<Rightarrow> heap \<Rightarrow> (u32 \<times> heap) option" where
  "take_block want pxPreviousBlock pxBlock h =
     (let pvReturn = pxNextFreeBlock (hmem h) pxPreviousBlock + xHeapStructSize
      in if \<not> heapVALIDATE_BLOCK_POINTER h pvReturn then None
         else let m1 = set_next pxPreviousBlock (pxNextFreeBlock (hmem h) pxBlock) (hmem h)
              in if heapSUBTRACT_WILL_UNDERFLOW (xBlockSize m1 pxBlock) want then None
                 else (case split_block want pxPreviousBlock pxBlock m1 of
                         None \<Rightarrow> None
                       | Some m2 \<Rightarrow>
                           let free = xFreeBytesRemaining h - xBlockSize m2 pxBlock;
                               least = (if free < xMinimumEverFreeBytesRemaining h then free else xMinimumEverFreeBytesRemaining h);
                               m3 = set_next pxBlock 0 (heapALLOCATE_BLOCK pxBlock m2)
                           in Some (pvReturn, h\<lparr>hmem := m3, xFreeBytesRemaining := free, xMinimumEverFreeBytesRemaining := least,
                                                xNumberOfSuccessfulAllocations := xNumberOfSuccessfulAllocations h + 1\<rparr>)))"

text \<open>What is done while the scheduler is suspended.\<close>

definition allocate :: "u32 \<Rightarrow> heap \<Rightarrow> (u32 \<times> heap) option" where
  "allocate want h =
     (if heapBLOCK_SIZE_IS_VALID want \<and> 0 < want \<and> want \<le> xFreeBytesRemaining h
      then (case find_block h want (xStart h) (pxNextFreeBlock (hmem h) (xStart h)) of
              None \<Rightarrow> None
            | Some (pxPreviousBlock, pxBlock) \<Rightarrow> if pxBlock \<noteq> pxEnd h then take_block want pxPreviousBlock pxBlock h else Some (0, h))
      else Some (0, h))"

definition pvPortMalloc :: "u32 \<Rightarrow> heap \<Rightarrow> (u32 \<times> heap) option" where
  "pvPortMalloc xWantedSize h =
     (case allocate (wanted_size xWantedSize) (if pxEnd h = 0 then prvHeapInit h else h) of
        None \<Rightarrow> None
      | Some (pvReturn, h1) \<Rightarrow>
          let h2 = (if pvReturn = 0 then h1\<lparr>hook_called := True\<rparr> else h1)
          in if pvReturn AND portBYTE_ALIGNMENT_MASK \<noteq> 0 then None else Some (pvReturn, h2))"

text \<open>The place of a block in the list: the last free block, or the head, before it.\<close>

partial_function (option) find_place :: "bytes \<Rightarrow> u32 \<Rightarrow> u32 \<Rightarrow> u32 option" where
  "find_place m pxBlockToInsert pxIterator =
     (if pxNextFreeBlock m pxIterator < pxBlockToInsert then find_place m pxBlockToInsert (pxNextFreeBlock m pxIterator) else Some pxIterator)"

definition prvInsertBlockIntoFreeList :: "u32 \<Rightarrow> heap \<Rightarrow> heap option" where
  "prvInsertBlockIntoFreeList pxBlockToInsert h =
     (case find_place (hmem h) pxBlockToInsert (xStart h) of
        None \<Rightarrow> None
      | Some pxIterator \<Rightarrow>
          if pxIterator \<noteq> xStart h \<and> \<not> heapVALIDATE_BLOCK_POINTER h pxIterator then None
          else let m = hmem h;
                   joins = pxIterator + xBlockSize m pxIterator = pxBlockToInsert;
                   m1 = (if joins then set_size pxIterator (xBlockSize m pxIterator + xBlockSize m pxBlockToInsert) m else m);
                   pxBlock = (if joins then pxIterator else pxBlockToInsert);
                   pxNext = pxNextFreeBlock m1 pxIterator;
                   m2 = (if pxBlock + xBlockSize m1 pxBlock = pxNext
                         then if pxNext \<noteq> pxEnd h
                              then let m' = set_size pxBlock (xBlockSize m1 pxBlock + xBlockSize m1 pxNext) m1
                                   in set_next pxBlock (pxNextFreeBlock m' pxNext) m'
                              else set_next pxBlock (pxEnd h) m1
                         else set_next pxBlock pxNext m1);
                   m3 = (if pxIterator \<noteq> pxBlock then set_next pxIterator pxBlock m2 else m2)
               in Some (h\<lparr>hmem := m3\<rparr>))"

definition vPortFree :: "u32 \<Rightarrow> heap \<Rightarrow> heap option" where
  "vPortFree pv h =
     (if pv = 0 then Some h
      else let pxLink = pv - xHeapStructSize
           in if heapVALIDATE_BLOCK_POINTER h pxLink \<and> heapBLOCK_IS_ALLOCATED (hmem h) pxLink \<and> pxNextFreeBlock (hmem h) pxLink = 0
              then let m = heapFREE_BLOCK pxLink (hmem h)
                   in map_option (\<lambda>h1. h1\<lparr>xNumberOfSuccessfulFrees := xNumberOfSuccessfulFrees h1 + 1\<rparr>)
                        (prvInsertBlockIntoFreeList pxLink (h\<lparr>hmem := m, xFreeBytesRemaining := xFreeBytesRemaining h + xBlockSize m pxLink\<rparr>))
              else None)"

definition memset0 :: "u32 \<Rightarrow> u32 \<Rightarrow> bytes \<Rightarrow> bytes" where
  "memset0 p n m = (\<lambda>a. if a - p < n then 0 else m a)"

definition pvPortCalloc :: "u32 \<Rightarrow> u32 \<Rightarrow> heap \<Rightarrow> (u32 \<times> heap) option" where
  "pvPortCalloc xNum xSize h =
     (if \<not> heapMULTIPLY_WILL_OVERFLOW xNum xSize
      then map_option (\<lambda>(pv, h1). (pv, if pv \<noteq> 0 then h1\<lparr>hmem := memset0 pv (xNum * xSize) (hmem h1)\<rparr> else h1)) (pvPortMalloc (xNum * xSize) h)
      else Some (0, h))"

definition xPortGetFreeHeapSize :: "heap \<Rightarrow> u32" where "xPortGetFreeHeapSize h = xFreeBytesRemaining h"

definition xPortGetMinimumEverFreeHeapSize :: "heap \<Rightarrow> u32" where "xPortGetMinimumEverFreeHeapSize h = xMinimumEverFreeBytesRemaining h"

definition xPortResetHeapMinimumEverFreeHeapSize :: "heap \<Rightarrow> heap" where
  "xPortResetHeapMinimumEverFreeHeapSize h = h\<lparr>xMinimumEverFreeBytesRemaining := xFreeBytesRemaining h\<rparr>"

definition vPortInitialiseBlocks :: "heap \<Rightarrow> heap" where "vPortInitialiseBlocks h = h"

definition vPortHeapResetState :: "heap \<Rightarrow> heap" where
  "vPortHeapResetState h = h\<lparr>pxEnd := 0, xFreeBytesRemaining := 0, xMinimumEverFreeBytesRemaining := 0,
     xNumberOfSuccessfulAllocations := 0, xNumberOfSuccessfulFrees := 0\<rparr>"

record HeapStats_t =
  xAvailableHeapSpaceInBytes :: u32
  xSizeOfLargestFreeBlockInBytes :: u32
  xSizeOfSmallestFreeBlockInBytes :: u32
  xNumberOfFreeBlocks :: u32
  stat_xMinimumEverFreeBytesRemaining :: u32
  stat_xNumberOfSuccessfulAllocations :: u32
  stat_xNumberOfSuccessfulFrees :: u32

partial_function (option) stats_loop :: "heap \<Rightarrow> u32 \<Rightarrow> u32 \<Rightarrow> u32 \<Rightarrow> u32 \<Rightarrow> (u32 \<times> u32 \<times> u32) option" where
  "stats_loop h pxBlock xBlocks xMaxSize xMinSize =
     (if pxBlock \<noteq> pxEnd h
      then let n = xBlockSize (hmem h) pxBlock
           in stats_loop h (pxNextFreeBlock (hmem h) pxBlock) (xBlocks + 1) (if xMaxSize < n then n else xMaxSize) (if n < xMinSize then n else xMinSize)
      else Some (xBlocks, xMaxSize, xMinSize))"

definition vPortGetHeapStats :: "heap \<Rightarrow> HeapStats_t option" where
  "vPortGetHeapStats h =
     (let pxBlock = pxNextFreeBlock (hmem h) (xStart h)
      in case (if pxBlock \<noteq> 0 then stats_loop h pxBlock 0 0 heapSIZE_MAX else Some (0, 0, heapSIZE_MAX)) of
           None \<Rightarrow> None
         | Some (xBlocks, xMaxSize, xMinSize) \<Rightarrow>
             Some \<lparr>xAvailableHeapSpaceInBytes = xFreeBytesRemaining h, xSizeOfLargestFreeBlockInBytes = xMaxSize, xSizeOfSmallestFreeBlockInBytes = xMinSize,
               xNumberOfFreeBlocks = xBlocks, stat_xMinimumEverFreeBytesRemaining = xMinimumEverFreeBytesRemaining h,
               stat_xNumberOfSuccessfulAllocations = xNumberOfSuccessfulAllocations h, stat_xNumberOfSuccessfulFrees = xNumberOfSuccessfulFrees h\<rparr>)"

declare find_block.simps [code] find_place.simps [code] stats_loop.simps [code]


subsection \<open>Reading what was written\<close>

lemma load_store: "load32 (store32 a v m) a = v"
  unfolding load32_def store32_def
  by (rule bit_word_eqI) (use le_Suc_ex in \<open>fastforce simp: bit_simps le_add_diff_inverse\<close>)

lemma store_other:
  assumes "4 \<le> unat (c - a)"
  shows "store32 a v m c = m c"
proof -
  have "c \<noteq> a + of_nat i" if "i < 4" for i
  proof
    assume "c = a + of_nat i"
    then have "c - a = of_nat i" by simp
    moreover have "unat (of_nat i :: u32) = i" using that by (intro unat_small) simp
    ultimately show False using assms that by simp
  qed
  from this[of 0] this[of 1] this[of 2] this[of 3] show ?thesis by (simp add: store32_def)
qed

lemma load_cong:
  assumes "\<And>i. i < 4 \<Longrightarrow> m (a + of_nat i) = m' (a + of_nat i)"
  shows "load32 m a = load32 m' a"
  using assms[of 0] assms[of 1] assms[of 2] assms[of 3] by (simp add: load32_def)

text \<open>Headers at places that do not overlap. From here on addresses and sizes are read as natural numbers.\<close>

definition apart :: "nat \<Rightarrow> nat \<Rightarrow> bool" where
  "apart a b \<longleftrightarrow> (a + 8 \<le> b \<or> b + 8 \<le> a) \<and> a + 8 \<le> 2 ^ 32 \<and> b + 8 \<le> 2 ^ 32"

lemma apart_sym: "apart a b \<Longrightarrow> apart b a"
  by (auto simp: apart_def)

lemma nat_diff_word:
  assumes "a < 2 ^ 32" "b < 2 ^ 32"
  shows "unat (of_nat b - of_nat a :: u32) = (if a \<le> b then b - a else 2 ^ 32 + b - a)"
proof (cases "a \<le> b")
  case True
  then have e: "of_nat b - of_nat a = (of_nat (b - a) :: u32)" by (simp add: of_nat_diff)
  show ?thesis unfolding e using True assms unat_small[of "b - a"] by simp
next
  case False
  have "(of_nat (2 ^ 32) :: u32) = 0" by simp
  moreover have "(of_nat (2 ^ 32 + b - a) :: u32) = of_nat (2 ^ 32 + b) - of_nat a" using assms(1) by (intro of_nat_diff) simp
  ultimately have e: "of_nat b - of_nat a = (of_nat (2 ^ 32 + b - a) :: u32)" by simp
  show ?thesis unfolding e using False assms unat_small[of "2 ^ 32 + b - a"] by simp
qed

lemma header_bytes:
  assumes "apart a b" "i < 8"
  shows "8 \<le> unat (of_nat b + of_nat i - of_nat a :: u32)"
proof -
  have "of_nat b + of_nat i = (of_nat (b + i) :: u32)" by simp
  then show ?thesis using assms nat_diff_word[of a "b + i"] by (auto simp: apart_def)
qed

lemma set_next_outside: "8 \<le> unat (c - a) \<Longrightarrow> set_next a v m c = m c"
  unfolding set_next_def by (rule store_other) simp

lemma set_size_outside:
  assumes "8 \<le> unat (c - a)"
  shows "set_size a v m c = m c"
proof -
  have "unat ((c - a) - 4) = unat (c - a) - 4" using assms nat_diff_word[of 4 "unat (c - a)"] unsigned_less[of "c - a"] by simp
  then have "4 \<le> unat (c - (a + 4))" using assms unfolding diff_diff_add by simp
  then show ?thesis unfolding set_size_def by (rule store_other)
qed

definition nx :: "bytes \<Rightarrow> nat \<Rightarrow> nat" where "nx m a = unat (pxNextFreeBlock m (of_nat a))"

definition sz :: "bytes \<Rightarrow> nat \<Rightarrow> nat" where "sz m a = unat (xBlockSize m (of_nat a))"

lemma header_words: "pxNextFreeBlock m (of_nat a) = of_nat (nx m a)" "xBlockSize m (of_nat a) = of_nat (sz m a)" "nx m a < 2 ^ 32" "sz m a < 2 ^ 32"
  using unsigned_less[of "pxNextFreeBlock m (of_nat a)"] unsigned_less[of "xBlockSize m (of_nat a)"] by (simp_all add: nx_def sz_def)

lemma header_cong:
  assumes "\<And>i. i < 8 \<Longrightarrow> m (of_nat a + of_nat i) = m' (of_nat a + of_nat i)"
  shows "nx m a = nx m' a" "sz m a = sz m' a"
proof -
  have "load32 m (of_nat a + 4) = load32 m' (of_nat a + 4)"
  proof (rule load_cong)
    fix i :: nat assume "i < 4"
    then show "m (of_nat a + 4 + of_nat i) = m' (of_nat a + 4 + of_nat i)" using assms[of "4 + i"] by (simp add: add.assoc)
  qed
  then show "sz m a = sz m' a" by (simp add: sz_def xBlockSize_def)
  show "nx m a = nx m' a" unfolding nx_def pxNextFreeBlock_def using assms by (intro arg_cong[where f = unat] load_cong) simp
qed

lemma header_same [simp]:
  "nx (set_next (of_nat a) v m) a = unat v" "sz (set_size (of_nat a) v m) a = unat v" "sz (set_next (of_nat a) v m) a = sz m a" "nx (set_size (of_nat a) v m) a = nx m a"
proof -
  show "nx (set_next (of_nat a) v m) a = unat v" by (simp add: nx_def pxNextFreeBlock_def set_next_def load_store)
  show "sz (set_size (of_nat a) v m) a = unat v" by (simp add: sz_def xBlockSize_def set_size_def load_store)
  have "load32 (store32 (of_nat a) v m) (of_nat a + 4) = load32 m (of_nat a + 4)"
  proof (rule load_cong)
    fix i :: nat assume "i < 4"
    then have "unat (of_nat (4 + i) :: u32) = 4 + i" by (intro unat_small) simp
    then show "store32 (of_nat a) v m (of_nat a + 4 + of_nat i) = m (of_nat a + 4 + of_nat i)" by (intro store_other) simp
  qed
  then show "sz (set_next (of_nat a) v m) a = sz m a" by (simp add: sz_def xBlockSize_def set_next_def)
  have "load32 (store32 (of_nat a + 4) v m) (of_nat a) = load32 m (of_nat a)"
  proof (rule load_cong)
    fix i :: nat assume "i < 4"
    then have "unat (of_nat i - of_nat 4 :: u32) = 2 ^ 32 + i - 4" using nat_diff_word[of 4 i] by simp
    then show "store32 (of_nat a + 4) v m (of_nat a + of_nat i) = m (of_nat a + of_nat i)" by (intro store_other) simp
  qed
  then show "nx (set_size (of_nat a) v m) a = nx m a" by (simp add: nx_def pxNextFreeBlock_def set_size_def)
qed

lemma header_other:
  assumes "apart a b"
  shows "nx (set_next (of_nat a) v m) b = nx m b" "sz (set_next (of_nat a) v m) b = sz m b"
    "nx (set_size (of_nat a) v m) b = nx m b" "sz (set_size (of_nat a) v m) b = sz m b"
  using header_cong[of "set_next (of_nat a) v m" b m] header_cong[of "set_size (of_nat a) v m" b m]
  by (simp_all add: set_next_outside set_size_outside header_bytes[OF assms])


subsection \<open>Sizes\<close>

lemma allocated_bit: "w AND heapBLOCK_ALLOCATED_BITMASK = 0 \<longleftrightarrow> unat w < 2 ^ 31"
proof -
  have b: "bit heapBLOCK_ALLOCATED_BITMASK n \<longleftrightarrow> n = 31" for n
    unfolding heapBLOCK_ALLOCATED_BITMASK_def bit_push_bit_iff by (auto simp: bit_simps)
  have "w AND heapBLOCK_ALLOCATED_BITMASK = 0 \<longleftrightarrow> \<not> bit w 31"
  proof
    assume "w AND heapBLOCK_ALLOCATED_BITMASK = 0"
    then have "\<not> bit (w AND heapBLOCK_ALLOCATED_BITMASK) 31" by simp
    then show "\<not> bit w 31" by (simp add: bit_and_iff b)
  qed (auto intro!: bit_word_eqI simp: bit_and_iff b)
  also have "bit w 31 \<longleftrightarrow> odd (unat w div 2 ^ 31)" using bit_unsigned_iff[of w 31, where 'a = nat] by (simp add: bit_iff_odd)
  also have "\<dots> \<longleftrightarrow> \<not> unat w < 2 ^ 31"
  proof (cases "unat w < 2 ^ 31")
    case False
    then have "unat w div 2 ^ 31 = 1" using unsigned_less[of w, where 'a = nat] by (intro div_nat_eqI) simp_all
    then show ?thesis using False by simp
  qed simp
  finally show ?thesis by simp
qed

lemma unat_allocated [simp]: "unat heapBLOCK_ALLOCATED_BITMASK = 2 ^ 31"
  by (simp add: heapBLOCK_ALLOCATED_BITMASK_def)

lemma set_allocated:
  assumes "unat w < 2 ^ 31"
  shows "unat (w OR heapBLOCK_ALLOCATED_BITMASK) = unat w + 2 ^ 31" "(w OR heapBLOCK_ALLOCATED_BITMASK) AND NOT heapBLOCK_ALLOCATED_BITMASK = w"
proof -
  have z: "w AND heapBLOCK_ALLOCATED_BITMASK = 0" using assms by (simp add: allocated_bit)
  then have "w OR heapBLOCK_ALLOCATED_BITMASK = w + heapBLOCK_ALLOCATED_BITMASK" by (simp add: disjunctive_add_eq_or)
  then show "unat (w OR heapBLOCK_ALLOCATED_BITMASK) = unat w + 2 ^ 31" using assms by (simp add: unat_plus_if')
  show "(w OR heapBLOCK_ALLOCATED_BITMASK) AND NOT heapBLOCK_ALLOCATED_BITMASK = w" using z by (auto simp: bit_eq_iff bit_simps)
qed

lemma clear_allocated:
  assumes "unat w = n + 2 ^ 31"
  shows "unat (w AND NOT heapBLOCK_ALLOCATED_BITMASK) = n"
proof -
  have n: "n < 2 ^ 31" using assms unsigned_less[of w, where 'a = nat] by simp
  then have u: "unat (of_nat n :: u32) = n" by (intro unat_small) simp
  then have "unat (of_nat n OR heapBLOCK_ALLOCATED_BITMASK) = unat w" using set_allocated(1)[of "of_nat n"] n assms by simp
  then have "w = of_nat n OR heapBLOCK_ALLOCATED_BITMASK" by (simp add: word_unat_eq_iff)
  then show ?thesis using set_allocated(2)[of "of_nat n"] u n by simp
qed

lemma align_mod: "unat (x AND portBYTE_ALIGNMENT_MASK) = unat x mod 8"
proof -
  have "x AND portBYTE_ALIGNMENT_MASK = take_bit 3 x" by (simp add: portBYTE_ALIGNMENT_MASK_def take_bit_eq_mask mask_eq_exp_minus_1)
  then show ?thesis by (simp only: unsigned_take_bit_eq) (simp add: take_bit_eq_mod)
qed

lemma align_zero: "x AND portBYTE_ALIGNMENT_MASK = 0 \<longleftrightarrow> 8 dvd unat x"
  using align_mod[of x] by (simp add: word_unat_eq_iff dvd_eq_mod_eq_0)

lemma align_down: "unat (x AND NOT portBYTE_ALIGNMENT_MASK) = unat x div 8 * 8"
  using unat_and_not_mask[of 3 x] by (simp add: portBYTE_ALIGNMENT_MASK_def mask_eq_exp_minus_1)

lemma struct_size [simp]: "xHeapStructSize = 8" "heapMINIMUM_BLOCK_SIZE = 16" "heapSIZE_MAX = - 1"
proof -
  have "unat xHeapStructSize = 8" unfolding xHeapStructSize_def align_down by (simp add: portBYTE_ALIGNMENT_def)
  then show e: "xHeapStructSize = 8" by (simp add: word_unat_eq_iff)
  show "heapMINIMUM_BLOCK_SIZE = 16" by (simp add: heapMINIMUM_BLOCK_SIZE_def e)
qed (simp add: heapSIZE_MAX_def)

lemma add_overflow: "heapADD_WILL_OVERFLOW a b \<longleftrightarrow> 2 ^ 32 \<le> unat a + unat b"
proof -
  have "unat (heapSIZE_MAX - b) = 2 ^ 32 - 1 - unat b" by (subst unat_sub) (auto simp: unsigned_minus_1_eq_mask mask_eq_exp_minus_1)
  then show ?thesis using unsigned_less[of b, where 'a = nat] by (auto simp: heapADD_WILL_OVERFLOW_def word_less_nat_alt)
qed

text \<open>The block for a request is the least aligned one with room for the header and the request, or none at all.\<close>

lemma wanted_size_unat:
  "unat (wanted_size n) = (if n = 0 \<or> 2 ^ 32 \<le> (unat n + 15) div 8 * 8 then 0 else (unat n + 15) div 8 * 8)"
proof (cases "n = 0 \<or> 2 ^ 32 \<le> unat n + 8")
  case True
  then show ?thesis by (auto simp: wanted_size_def add_overflow word_gt_0)
next
  case False
  define n1 where "n1 = n + 8"
  have n1: "unat n1 = unat n + 8" using False by (simp add: n1_def unat_plus_if')
  have w: "wanted_size n = (if 8 dvd unat n1 then n1 else if 2 ^ 32 \<le> unat n1 + unat (8 - (n1 AND portBYTE_ALIGNMENT_MASK)) then 0 else n1 + (8 - (n1 AND portBYTE_ALIGNMENT_MASK)))"
    using False by (auto simp: wanted_size_def add_overflow word_gt_0 n1_def[symmetric] align_zero Let_def portBYTE_ALIGNMENT_def)
  have x: "unat (8 - (n1 AND portBYTE_ALIGNMENT_MASK)) = 8 - unat n1 mod 8" by (subst unat_sub) (simp_all add: word_le_nat_alt align_mod)
  show ?thesis
  proof (cases "8 dvd unat n1")
    case True
    then have "8 dvd unat n" unfolding n1 by simp
    then have "(unat n + 15) div 8 * 8 = unat n1" by (elim dvdE) (simp add: n1)
    then show ?thesis using True w False n1 by simp
  next
    case d: False
    define j r where "j = unat n div 8" "r = unat n mod 8"
    have r: "unat n = 8 * j + r" "0 < r" "r < 8" using d by (auto simp: j_r_def n1 dvd_eq_mod_eq_0)
    then have "(r + 15) div 8 = 2" by (intro div_nat_eqI) simp_all
    then have "(unat n + 15) div 8 = j + 2" unfolding r(1) by (simp add: add.assoc)
    moreover have "unat n1 mod 8 = r" using r by (simp add: n1)
    ultimately have "(unat n + 15) div 8 * 8 = unat n1 + (8 - unat n1 mod 8)" using r by (simp add: n1)
    then show ?thesis using d w x False by (simp add: unat_plus_if')
  qed
qed

subsection \<open>The blocks\<close>

text \<open>
  The heap as a sequence of blocks, each an address, a size and whether it is allocated: they lie one behind the other, are aligned and large enough for a header and some data.
\<close>

type_synonym block = "nat \<times> nat \<times> bool"

fun laid :: "nat \<Rightarrow> block list \<Rightarrow> nat \<Rightarrow> bool" where
  "laid a [] e \<longleftrightarrow> a = e"
| "laid a ((x, n, u) # bs) e \<longleftrightarrow> x = a \<and> 16 \<le> n \<and> 8 dvd n \<and> laid (a + n) bs e"

lemma laid_append: "laid a (bs @ cs) e \<longleftrightarrow> (\<exists>k. laid a bs k \<and> laid k cs e)"
  by (induction a bs e rule: laid.induct) auto

lemma laid_le: "laid a bs e \<Longrightarrow> a \<le> e"
  by (induction a bs e rule: laid.induct) auto

lemma laid_in: "laid a bs e \<Longrightarrow> (x, n, u) \<in> set bs \<Longrightarrow> a \<le> x \<and> x + n \<le> e \<and> 16 \<le> n"
proof (induction a bs e rule: laid.induct)
  case (2 a y k v bs e)
  then show ?case using laid_le[of "a + k" bs e] by fastforce
qed simp

lemma laid_aligned: "laid a bs e \<Longrightarrow> 8 dvd a \<Longrightarrow> (x, n, u) \<in> set bs \<Longrightarrow> 8 dvd x \<and> 8 dvd n"
  by (induction a bs e rule: laid.induct) (auto)

lemma laid_end_aligned: "laid a bs e \<Longrightarrow> 8 dvd a \<Longrightarrow> 8 dvd e"
  by (induction a bs e rule: laid.induct) auto

definition used :: "block \<Rightarrow> bool" where "used b = snd (snd b)"

lemma used_simp [simp]: "used (x, n, u) = u"
  by (simp add: used_def)

definition frees :: "block list \<Rightarrow> nat list" where "frees bs = map fst (filter (Not \<circ> used) bs)"

definition free_sum :: "block list \<Rightarrow> nat" where "free_sum bs = sum_list (map (fst \<circ> snd) (filter (Not \<circ> used) bs))"

lemma frees_simps [simp]:
  "frees [] = []" "frees (b # bs) = (if used b then frees bs else fst b # frees bs)" "frees (bs @ cs) = frees bs @ frees cs"
  "free_sum [] = 0" "free_sum (b # bs) = (if used b then 0 else fst (snd b)) + free_sum bs" "free_sum (bs @ cs) = free_sum bs + free_sum cs"
  by (simp_all add: frees_def free_sum_def)

lemma frees_in: "x \<in> set (frees bs) \<longleftrightarrow> (\<exists>n. (x, n, False) \<in> set bs)"
  by (force simp: frees_def used_def)

lemma free_sum_le: "laid a bs e \<Longrightarrow> a + free_sum bs \<le> e"
  by (induction a bs e rule: laid.induct) auto

lemma frees_split:
  assumes "frees bs = xs @ b # ys"
  shows "\<exists>pre n post. bs = pre @ (b, n, False) # post \<and> frees pre = xs \<and> frees post = ys"
  using assms
proof (induction bs arbitrary: xs)
  case (Cons c bs)
  obtain x n u where c: "c = (x, n, u)" by (cases c) auto
  show ?case
  proof (cases "\<not> u \<and> xs = []")
    case True
    then have "c # bs = [] @ (b, n, False) # bs" "frees bs = ys" using Cons.prems c by auto
    then show ?thesis using True by (intro exI[of _ "[]"]) auto
  next
    case False
    define zs where "zs = (if u then xs else tl xs)"
    have "frees bs = zs @ b # ys" "xs = (if u then zs else x # zs)" using Cons.prems False c by (cases xs; auto simp: zs_def)+
    then obtain pre k post where "bs = pre @ (b, k, False) # post" "frees pre = zs" "frees post = ys" using Cons.IH by blast
    then show ?thesis using c \<open>xs = _\<close> by (intro exI[of _ "c # pre"]) auto
  qed
qed simp

text \<open>The free blocks are linked from the head to the end.\<close>

fun chain :: "bytes \<Rightarrow> nat \<Rightarrow> nat list \<Rightarrow> nat \<Rightarrow> bool" where
  "chain m p [] e \<longleftrightarrow> nx m p = e"
| "chain m p (x # xs) e \<longleftrightarrow> nx m p = x \<and> chain m x xs e"

lemma chain_append: "chain m p (xs @ y # ys) e \<longleftrightarrow> chain m p xs y \<and> chain m y ys e"
  by (induction xs arbitrary: p) auto

lemma chain_cat: "chain m p (xs @ ys) e \<longleftrightarrow> chain m p xs (hd (ys @ [e])) \<and> (ys \<noteq> [] \<longrightarrow> chain m (hd ys) (tl ys) e)"
  by (cases ys) (simp_all add: chain_append)

lemma chain_first: "chain m p xs e \<Longrightarrow> nx m p = hd (xs @ [e])"
  by (cases xs) auto

lemma chain_tail: "chain m p xs e \<longleftrightarrow> nx m p = hd (xs @ [e]) \<and> (xs \<noteq> [] \<longrightarrow> chain m (hd xs) (tl xs) e)"
  by (cases xs) auto

lemma chain_last: "chain m p xs e \<Longrightarrow> nx m (last (p # xs)) = e"
  by (induction xs arbitrary: p) auto

lemma chain_relink:
  assumes "chain m p xs y" "nx m' (last (p # xs)) = y'" "\<And>x. x \<in> set (p # xs) \<Longrightarrow> x \<noteq> last (p # xs) \<Longrightarrow> nx m' x = nx m x" "distinct (p # xs)"
  shows "chain m' p xs y'"
  using assms
proof (induction xs arbitrary: p)
  case (Cons x xs)
  have "last (x # xs) \<in> set (x # xs)" by (rule last_in_set) simp
  then have "nx m' p = nx m p" using Cons.prems(3)[of p] Cons.prems(4) by auto
  then show ?case using Cons by simp
qed simp

lemma chain_move:
  assumes "chain m p xs y" "nx m' p' = nx m p" "\<And>x. x \<in> set xs \<Longrightarrow> nx m' x = nx m x"
  shows "chain m' p' xs y"
  using assms by (induction xs arbitrary: p p') auto

text \<open>The invariant, for a heap between \<open>s\<close> and \<open>e\<close>: no two free blocks are neighbours.\<close>

definition placed :: "nat \<Rightarrow> nat \<Rightarrow> heap \<Rightarrow> bool" where
  "placed s e h \<longleftrightarrow> 8 dvd s \<and> 0 < s \<and> unat (ucHeap h) \<le> s \<and> e + 8 \<le> unat (ucHeap h) + unat (configTOTAL_HEAP_SIZE h) \<and> s \<le> e \<and>
     unat (ucHeap h) + unat (configTOTAL_HEAP_SIZE h) < 2 ^ 32 \<and> e - s < 2 ^ 31 \<and> pxEnd h = of_nat e \<and> unat (xStart h) + 8 \<le> 2 ^ 32 \<and>
     (unat (xStart h) + 8 \<le> unat (ucHeap h) \<or> unat (ucHeap h) + unat (configTOTAL_HEAP_SIZE h) \<le> unat (xStart h))"

definition block_ok :: "bytes \<Rightarrow> block \<Rightarrow> bool" where
  "block_ok m b \<longleftrightarrow> sz m (fst b) = (if used b then fst (snd b) + 2 ^ 31 else fst (snd b)) \<and> (used b \<longrightarrow> nx m (fst b) = 0)"

lemma block_ok_simp [simp]: "block_ok m (x, n, u) \<longleftrightarrow> sz m x = (if u then n + 2 ^ 31 else n) \<and> (u \<longrightarrow> nx m x = 0)"
  by (simp add: block_ok_def)

definition heap_inv :: "nat \<Rightarrow> nat \<Rightarrow> block list \<Rightarrow> heap \<Rightarrow> bool" where
  "heap_inv s e bs h \<longleftrightarrow> placed s e h \<and> laid s bs e \<and> list_all (block_ok (hmem h)) bs \<and> chain (hmem h) (unat (xStart h)) (frees bs) e \<and>
     sz (hmem h) (unat (xStart h)) = 0 \<and> sz (hmem h) e = 0 \<and> nx (hmem h) e = 0 \<and> successively (\<lambda>b c. used b \<or> used c) bs \<and>
     unat (xFreeBytesRemaining h) = free_sum bs"

lemma placed_valid:
  assumes "placed s e h" "s \<le> x" "x \<le> e + 7"
  shows "heapVALIDATE_BLOCK_POINTER h (of_nat x)"
proof -
  have x: "unat (of_nat x :: u32) = x" using assms by (intro unat_small) (simp add: placed_def)
  have "unat (configTOTAL_HEAP_SIZE h - 1) = unat (configTOTAL_HEAP_SIZE h) - 1" using assms(1,2) by (intro unat_minus_one) (auto simp: placed_def)
  moreover have "0 < unat (configTOTAL_HEAP_SIZE h)" using assms(1) by (auto simp: placed_def)
  ultimately have "unat (ucHeap h + (configTOTAL_HEAP_SIZE h - 1)) = unat (ucHeap h) + unat (configTOTAL_HEAP_SIZE h) - 1"
    using assms(1) by (subst unat_add_lem[THEN iffD1]) (auto simp: placed_def)
  then show ?thesis using assms x by (auto simp: heapVALIDATE_BLOCK_POINTER_def word_le_nat_alt placed_def)
qed

lemma placed_apart:
  assumes "placed s e h" "s \<le> x" "x \<le> e"
  shows "apart (unat (xStart h)) x"
  using assms by (auto simp: apart_def placed_def)

lemma find_block_spec:
  assumes "placed s e h" "chain (hmem h) p fs e" "\<And>x. x \<in> set fs \<Longrightarrow> s \<le> x \<and> x < e" "sz (hmem h) e = 0" "nx (hmem h) e = 0" "0 < want"
  shows "find_block h want (of_nat p) (of_nat (hd (fs @ [e]))) =
    Some (of_nat (last (p # takeWhile (\<lambda>x. sz (hmem h) x < unat want) fs)), of_nat (hd (dropWhile (\<lambda>x. sz (hmem h) x < unat want) fs @ [e])))"
  using assms(2,3)
proof (induction fs arbitrary: p)
  case Nil
  have "heapVALIDATE_BLOCK_POINTER h (of_nat e)" using assms(1) by (intro placed_valid) (auto simp: placed_def)
  moreover have "pxNextFreeBlock (hmem h) (of_nat e) = 0" using assms(5) by (simp add: nx_def unat_eq_0)
  ultimately have "find_block h want (of_nat p) (of_nat e) = Some (of_nat p, of_nat e)" by (subst find_block.simps) simp
  then show ?case by simp
next
  case (Cons x xs)
  have x: "s \<le> x" "x < e" using Cons.prems(2) by auto
  then have v: "heapVALIDATE_BLOCK_POINTER h (of_nat x)" by (intro placed_valid[OF assms(1)]) simp_all
  have h: "nx (hmem h) x = hd (xs @ [e])" using Cons.prems(1) chain_first by auto
  have "0 < s" "s \<le> e" using assms(1) by (simp_all add: placed_def)
  then have "0 < hd (xs @ [e])" using Cons.prems(2)[of "hd xs"] by (cases xs) auto
  then have "0 < nx (hmem h) x" using h by simp
  then have nx: "pxNextFreeBlock (hmem h) (of_nat x) = of_nat (hd (xs @ [e]))" "pxNextFreeBlock (hmem h) (of_nat x) \<noteq> 0"
    using header_words(1)[of "hmem h" x, unfolded h] by (simp_all only: nx_def unat_gt_0 not_False_eq_True)
  have lt: "xBlockSize (hmem h) (of_nat x) < want \<longleftrightarrow> sz (hmem h) x < unat want" by (simp add: sz_def word_less_nat_alt)
  show ?case
  proof (cases "sz (hmem h) x < unat want")
    case True
    have "find_block h want (of_nat p) (of_nat x) = find_block h want (of_nat x) (of_nat (hd (xs @ [e])))"
      by (subst find_block.simps) (simp only: v lt True nx(2) not_True_eq_False not_False_eq_True if_False if_True simp_thms, simp only: nx(1))
    moreover have "chain (hmem h) x xs e" "\<And>y. y \<in> set xs \<Longrightarrow> s \<le> y \<and> y < e" using Cons.prems by auto
    ultimately show ?thesis using Cons.IH[of x] True by simp
  next
    case False
    have "find_block h want (of_nat p) (of_nat x) = Some (of_nat p, of_nat x)"
      by (subst find_block.simps) (simp only: v lt False not_True_eq_False if_False simp_thms)
    then show ?thesis using False by simp
  qed
qed

lemma laid_order: "laid a bs e \<Longrightarrow> (x, n, u) \<in> set bs \<Longrightarrow> (y, k, v) \<in> set bs \<Longrightarrow> (x, n, u) = (y, k, v) \<or> x + n \<le> y \<or> y + k \<le> x"
proof (induction a bs e rule: laid.induct)
  case (2 a z l t bs e)
  have "a + l \<le> x'" if "(x', n', u') \<in> set bs" for x' n' u' using laid_in[of "a + l" bs e] 2(2) that by auto
  then show ?case using 2 by fastforce
qed simp

lemma byte_other:
  assumes "c < 2 ^ 32" "a + 8 \<le> 2 ^ 32" "c < a \<or> a + 8 \<le> c"
  shows "set_next (of_nat a) v m (of_nat c) = m (of_nat c)" "set_size (of_nat a) v m (of_nat c) = m (of_nat c)"
proof -
  have "8 \<le> unat (of_nat c - of_nat a :: u32)" using nat_diff_word[of a c] assms by auto
  then show "set_next (of_nat a) v m (of_nat c) = m (of_nat c)" "set_size (of_nat a) v m (of_nat c) = m (of_nat c)"
    by (simp_all add: set_next_outside set_size_outside)
qed

lemma nat_word_less: "a < 2 ^ 32 \<Longrightarrow> b < 2 ^ 32 \<Longrightarrow> (of_nat a :: u32) < of_nat b \<longleftrightarrow> a < b"
  by (simp add: word_less_nat_alt unat_small)

lemma nat_word_eq: "a < 2 ^ 32 \<Longrightarrow> b < 2 ^ 32 \<Longrightarrow> (of_nat a :: u32) = of_nat b \<longleftrightarrow> a = b"
  by (simp add: word_unat_eq_iff unat_small)

text \<open>Taking a block of size \<open>n\<close> for a request of \<open>w\<close>: what the headers say then.\<close>

definition splits :: "nat \<Rightarrow> nat \<Rightarrow> bool" where "splits w n \<longleftrightarrow> 16 < n - w"

lemma split_block_spec:
  assumes ap: "apart p b" and p: "splits w n \<Longrightarrow> apart p (b + w)" and sz: "sz m b = n" and w: "16 \<le> w" "w \<le> n" "8 dvd w" "8 dvd b" and lt: "b + n < 2 ^ 32"
  shows "\<exists>m'. split_block (of_nat w) (of_nat p) (of_nat b) m = Some m' \<and> sz m' p = sz m p \<and> nx m' p = (if splits w n then b + w else nx m p) \<and>
    sz m' b = (if splits w n then w else n) \<and> (splits w n \<longrightarrow> nx m' (b + w) = nx m p \<and> sz m' (b + w) = n - w) \<and>
    (\<forall>x. apart p x \<and> apart b x \<and> (splits w n \<longrightarrow> apart (b + w) x) \<longrightarrow> nx m' x = nx m x \<and> sz m' x = sz m x) \<and>
    (\<forall>c<2 ^ 32. (c < p \<or> p + 8 \<le> c) \<and> (c < b \<or> b + n \<le> c) \<longrightarrow> m' (of_nat c) = m (of_nat c))"
proof (cases "splits w n")
  case False
  have "\<not> heapMINIMUM_BLOCK_SIZE < xBlockSize m (of_nat b) - of_nat w" using False sz w lt
      nat_diff_word[of w n] by (simp add: header_words splits_def word_less_nat_alt)
  then show ?thesis using False sz by (simp add: split_block_def)
next
  case True
  define c where "c = b + w"
  have k: "(of_nat n - of_nat w :: u32) = of_nat (n - w)" "of_nat b + of_nat w = (of_nat c :: u32)" using w by (simp_all add: of_nat_diff c_def)
  have u: "unat (of_nat (n - w) :: u32) = n - w" "unat (of_nat w :: u32) = w" "unat (of_nat c :: u32) = c" "unat (of_nat (nx m p) :: u32) = nx m p"
    using w lt header_words(3)[of m p] by (simp_all only: unat_small) (rule unat_small, simp add: c_def)+
  have a: "apart p b" "apart b p" "apart p c" "apart c p" "apart b c" "apart c b" using ap p[OF True] w lt True by (auto simp: apart_def c_def splits_def)
  note frame = header_other[OF a(1)] header_other[OF a(2)] header_other[OF a(3)] header_other[OF a(4)] header_other[OF a(5)] header_other[OF a(6)]
  define m' where "m' = set_next (of_nat p) (of_nat c) (set_next (of_nat c) (of_nat (nx m p)) (set_size (of_nat b) (of_nat w) (set_size (of_nat c) (of_nat (n - w)) m)))"
  have "(of_nat c :: u32) AND portBYTE_ALIGNMENT_MASK = 0" using w u(3) by (simp add: align_zero c_def)
  moreover have "heapMINIMUM_BLOCK_SIZE < of_nat (n - w)" using True u(1) by (simp add: word_less_nat_alt splits_def)
  ultimately have "split_block (of_nat w) (of_nat p) (of_nat b) m = Some m'"
    by (simp add: split_block_def header_words sz k m'_def frame Let_def)
  moreover have "nx m' x = nx m x \<and> sz m' x = sz m x" if "apart p x" "apart b x" "apart c x" for x using that by (simp add: m'_def header_other)
  moreover have "m' (of_nat y) = m (of_nat y)" if "y < 2 ^ 32" "y < p \<or> p + 8 \<le> y" "y < b \<or> b + n \<le> y" for y
  proof -
    have "p + 8 \<le> 2 ^ 32" "b + 8 \<le> 2 ^ 32" "c + 8 \<le> 2 ^ 32" using a(1,3) by (simp_all add: apart_def)
    moreover have "y < b \<or> b + 8 \<le> y" "y < c \<or> c + 8 \<le> y" using that(3) w True by (auto simp: c_def splits_def)
    ultimately show ?thesis using that(1,2) by (simp only: m'_def byte_other)
  qed
  ultimately show ?thesis using True by (intro exI[of _ m']) (auto simp: m'_def frame u c_def[symmetric])
qed

text \<open>The layout after a block was taken.\<close>

definition take_layout :: "nat \<Rightarrow> block list \<Rightarrow> nat \<Rightarrow> nat \<Rightarrow> block list \<Rightarrow> block list" where
  "take_layout w pre b n post = pre @ (if splits w n then [(b, w, True), (b + w, n - w, False)] else [(b, n, True)]) @ post"

lemma take_layout_laid:
  assumes "laid s (pre @ (b, n, False) # post) e" "16 \<le> w" "8 dvd w" "w \<le> n"
  shows "laid s (take_layout w pre b n post) e"
  using assms by (auto simp: laid_append take_layout_def splits_def)

lemma take_layout_frees:
  "frees (take_layout w pre b n post) = frees pre @ (if splits w n then [b + w] else []) @ frees post"
  "w \<le> n \<Longrightarrow> free_sum (take_layout w pre b n post) + (if splits w n then w else n) = free_sum (pre @ (b, n, False) # post)"
  by (auto simp: take_layout_def splits_def)

lemma take_layout_apart:
  "successively (\<lambda>b c. used b \<or> used c) (pre @ (b, n, False) # post) \<Longrightarrow> successively (\<lambda>b c. used b \<or> used c) (take_layout w pre b n post)"
  by (auto simp: take_layout_def successively_append_iff successively_Cons)

text \<open>All the headers of a layout are apart, also from the head of the list.\<close>

lemma heads_apart:
  assumes "placed s e h" "laid s bs e" "(x, n, u) \<in> set bs"
  shows "apart x e" "apart (unat (xStart h)) x" "(y, k, v) \<in> set bs \<Longrightarrow> x \<noteq> y \<Longrightarrow> apart x y" "x + n < 2 ^ 32" "0 < x" "n < 2 ^ 31"
proof -
  have e: "e + 8 < 2 ^ 32" "e - s < 2 ^ 31" "0 < s" using assms(1) by (auto simp: placed_def)
  have x: "s \<le> x" "x + n \<le> e" "16 \<le> n" using laid_in[OF assms(2,3)] by auto
  show "apart x e" "x + n < 2 ^ 32" "0 < x" "n < 2 ^ 31" using x e by (auto simp: apart_def)
  show "apart (unat (xStart h)) x" using placed_apart[OF assms(1), of x] x by simp
  show "apart x y" if "(y, k, v) \<in> set bs" "x \<noteq> y"
    using laid_order[OF assms(2,3) that(1)] laid_in[OF assms(2) that(1)] that(2) x e by (auto simp: apart_def)
qed

lemma frees_distinct:
  assumes "placed s e h" "laid s bs e"
  shows "distinct (unat (xStart h) # frees bs)"
proof -
  have "\<not> apart x x" for x by (simp add: apart_def)
  then have "unat (xStart h) \<notin> set (frees bs)" using heads_apart(2)[OF assms] by (metis frees_in)
  moreover have "distinct (frees bs)" using assms(2)
  proof (induction s bs e rule: laid.induct)
    case (2 a y k v bs e)
    have "a \<notin> set (frees bs)" using 2(2) laid_in[of "a + k" bs e] by (fastforce simp: frees_in)
    then show ?case using 2 by auto
  qed simp
  ultimately show ?thesis by simp
qed

text \<open>The free block before a place, or the head of the list.\<close>

definition before :: "heap \<Rightarrow> block list \<Rightarrow> nat" where "before h pre = last (unat (xStart h) # frees pre)"

lemma before_cases:
  obtains "before h pre = unat (xStart h)" "frees pre = []" | k where "(before h pre, k, False) \<in> set pre" "frees pre \<noteq> []"
proof (cases "frees pre = []")
  case False
  then have "before h pre \<in> set (frees pre)" by (simp add: before_def)
  then show thesis using that(2) False by (auto simp: frees_in)
qed (use that(1) in \<open>simp add: before_def\<close>)

lemma before_apart:
  assumes "placed s e h" "laid s (pre @ post) e" "laid s pre b" "b \<le> y" "y \<le> e"
  shows "apart (before h pre) y"
proof (cases rule: before_cases[of h pre])
  case 1
  have "s \<le> b" using laid_le[OF assms(3)] .
  then show ?thesis using 1 placed_apart[OF assms(1)] assms(4,5) by simp
next
  case (2 k)
  have "before h pre + k \<le> b" "16 \<le> k" using laid_in[OF assms(3) 2(1)] by auto
  moreover have "e + 8 < 2 ^ 32" using assms(1) by (auto simp: placed_def)
  ultimately show ?thesis using assms(4,5) by (auto simp: apart_def)
qed

lemma heap_invD:
  assumes "heap_inv s e bs h"
  shows "placed s e h" "laid s bs e" "list_all (block_ok (hmem h)) bs" "chain (hmem h) (unat (xStart h)) (frees bs) e"
    "sz (hmem h) (unat (xStart h)) = 0" "sz (hmem h) e = 0" "nx (hmem h) e = 0" "successively (\<lambda>b c. used b \<or> used c) bs"
    "unat (xFreeBytesRemaining h) = free_sum bs" "e + 8 < 2 ^ 32"
  using assms by (simp_all add: heap_inv_def placed_def)

lemma take_memory:
  assumes inv: "heap_inv s e (pre @ (b, n, False) # post) h" and w: "16 \<le> w" "8 dvd w" "w \<le> n"
  defines "p \<equiv> before h pre"
  shows "\<exists>m'. take_block (of_nat w) (of_nat p) (of_nat b) h = Some (of_nat (b + 8), h\<lparr>hmem := m', xFreeBytesRemaining := xFreeBytesRemaining h - of_nat (if splits w n then w else n),
        xMinimumEverFreeBytesRemaining := min (xFreeBytesRemaining h - of_nat (if splits w n then w else n)) (xMinimumEverFreeBytesRemaining h),
        xNumberOfSuccessfulAllocations := xNumberOfSuccessfulAllocations h + 1\<rparr>) \<and>
    sz m' p = sz (hmem h) p \<and> nx m' p = (if splits w n then b + w else nx (hmem h) b) \<and>
    sz m' b = (if splits w n then w else n) + 2 ^ 31 \<and> nx m' b = 0 \<and> (splits w n \<longrightarrow> nx m' (b + w) = nx (hmem h) b \<and> sz m' (b + w) = n - w) \<and>
    (\<forall>x. apart p x \<and> apart b x \<and> (splits w n \<longrightarrow> apart (b + w) x) \<longrightarrow> nx m' x = nx (hmem h) x \<and> sz m' x = sz (hmem h) x) \<and>
    (\<forall>c<2 ^ 32. (c < p \<or> p + 8 \<le> c) \<and> (c < b \<or> b + n \<le> c) \<longrightarrow> m' (of_nat c) = hmem h (of_nat c))"
proof -
  note i = heap_invD[OF inv]
  define m where "m = hmem h"
  have inb: "(b, n, False) \<in> set (pre @ (b, n, False) # post)" by simp
  have lp: "laid s pre b" and le: "b + n \<le> e" "s \<le> b" "8 dvd b" using i(2) laid_in[OF i(2) inb] laid_aligned[OF i(2) _ inb] i(1) by (auto simp: laid_append placed_def)
  have n: "n < 2 ^ 31" "b + n < 2 ^ 32" by (rule heads_apart(6)[OF i(1,2) inb], rule heads_apart(4)[OF i(1,2) inb])
  have szb: "sz m b = n" using i(3) by (simp add: m_def)
  have nxp: "nx m p = b" using i(4) chain_last[of m "unat (xStart h)" "frees pre" b] by (simp add: chain_append m_def p_def before_def)
  have pb: "apart p b" "apart p (b + w)" using before_apart[OF i(1,2) lp] le w by (simp_all add: p_def)
  define m1 where "m1 = set_next (of_nat p) (of_nat (nx m b)) m"
  have m1: "sz m1 b = n" "nx m1 p = nx m b" "sz m1 p = sz m p" using header_other[OF pb(1)] szb header_words(3)[of m b] by (simp_all add: m1_def unat_small)
  define k where "k = (if splits w n then w else n)"
  obtain m2 where m2: "split_block (of_nat w) (of_nat p) (of_nat b) m1 = Some m2" "sz m2 p = sz m1 p" "nx m2 p = (if splits w n then b + w else nx m1 p)"
    "sz m2 b = k" "splits w n \<longrightarrow> nx m2 (b + w) = nx m1 p \<and> sz m2 (b + w) = n - w"
    "\<forall>x. apart p x \<and> apart b x \<and> (splits w n \<longrightarrow> apart (b + w) x) \<longrightarrow> nx m2 x = nx m1 x \<and> sz m2 x = sz m1 x"
    "\<forall>c<2 ^ 32. (c < p \<or> p + 8 \<le> c) \<and> (c < b \<or> b + n \<le> c) \<longrightarrow> m2 (of_nat c) = m1 (of_nat c)"
    using split_block_spec[OF pb(1,2) m1(1) w(1,3,2) le(3) n(2), folded k_def] by (elim exE conjE) (rule that)
  define m3 where "m3 = set_next (of_nat b) 0 (heapALLOCATE_BLOCK (of_nat b) m2)"
  have k: "k < 2 ^ 31" using w n by (simp add: k_def)
  have ku: "unat (of_nat k :: u32) = k" using k by (intro unat_small) simp
  have al: "heapALLOCATE_BLOCK (of_nat b) m2 = set_size (of_nat b) (of_nat k OR heapBLOCK_ALLOCATED_BITMASK) m2" by (simp add: heapALLOCATE_BLOCK_def header_words m2(4))
  have b3: "sz m3 b = k + 2 ^ 31" "nx m3 b = 0" using set_allocated(1)[of "of_nat k"] k ku by (simp_all add: m3_def al)
  have o3: "nx m3 x = nx m2 x \<and> sz m3 x = sz m2 x" if "apart b x" for x using header_other[OF that] by (simp add: m3_def al)
  have "heapVALIDATE_BLOCK_POINTER h (of_nat (b + 8))" using le w by (intro placed_valid[OF i(1)]) simp_all
  moreover have "pxNextFreeBlock m (of_nat p) = of_nat b" "pxNextFreeBlock m (of_nat b) = of_nat (nx m b)" by (simp_all add: header_words nxp)
  moreover have "\<not> heapSUBTRACT_WILL_UNDERFLOW (xBlockSize m1 (of_nat b)) (of_nat w)" using w n by (simp add: heapSUBTRACT_WILL_UNDERFLOW_def header_words m1(1) nat_word_less)
  moreover have "xBlockSize m2 (of_nat b) = of_nat k" by (simp add: header_words m2(4))
  ultimately have run: "take_block (of_nat w) (of_nat p) (of_nat b) h = Some (of_nat (b + 8), h\<lparr>hmem := m3, xFreeBytesRemaining := xFreeBytesRemaining h - of_nat k,
        xMinimumEverFreeBytesRemaining := min (xFreeBytesRemaining h - of_nat k) (xMinimumEverFreeBytesRemaining h), xNumberOfSuccessfulAllocations := xNumberOfSuccessfulAllocations h + 1\<rparr>)"
    using m2(1) by (simp add: take_block_def m_def[symmetric] m1_def[symmetric] m3_def Let_def min_def not_less)
  have "nx m3 p = (if splits w n then b + w else nx m b)" "sz m3 p = sz m p" using o3[OF apart_sym[OF pb(1)]] m2(2,3) m1 by simp_all
  moreover have "splits w n \<longrightarrow> nx m3 (b + w) = nx m b \<and> sz m3 (b + w) = n - w"
    using o3[of "b + w"] m2(5) m1(2) w le i(10) by (auto simp: apart_def splits_def)
  moreover have "nx m3 x = nx m x \<and> sz m3 x = sz m x" if "apart p x" "apart b x" "splits w n \<longrightarrow> apart (b + w) x" for x
    using m2(6) o3[OF that(2)] header_other[OF that(1)] that by (simp add: m1_def)
  moreover have "m3 (of_nat c) = m (of_nat c)" if "c < 2 ^ 32" "c < p \<or> p + 8 \<le> c" "c < b \<or> b + n \<le> c" for c
  proof -
    have "b + 8 \<le> 2 ^ 32" "p + 8 \<le> 2 ^ 32" "c < b \<or> b + 8 \<le> c" using pb that(3) w by (auto simp: apart_def)
    then have "m3 (of_nat c) = m2 (of_nat c)" "m1 (of_nat c) = m (of_nat c)" using that byte_other[of c b] byte_other[of c p] by (simp_all only: m3_def al m1_def)
    then show ?thesis using m2(7) that by simp
  qed
  ultimately show ?thesis using run b3 by (intro exI[of _ m3]) (simp only: k_def[symmetric] m_def[symmetric] simp_thms, blast)
qed

text \<open>The bytes of the allocated blocks stay as they are, headers included.\<close>

definition keeps_used :: "block list \<Rightarrow> heap \<Rightarrow> heap \<Rightarrow> bool" where
  "keeps_used bs h h' \<longleftrightarrow> (\<forall>x k c. (x, k, True) \<in> set bs \<and> x \<le> c \<and> c < x + k \<longrightarrow> hmem h' (of_nat c) = hmem h (of_nat c))"

lemma before_bytes:
  assumes "placed s e h" "laid s (pre @ post) e" "(x, k, True) \<in> set (pre @ post)" "x \<le> c" "c < x + k"
  shows "c < before h pre \<or> before h pre + 8 \<le> c" "c < 2 ^ 32"
proof -
  have x: "s \<le> x" "x + k \<le> e" using laid_in[OF assms(2,3)] by auto
  show "c < 2 ^ 32" using x assms(1,5) by (auto simp: placed_def)
  show "c < before h pre \<or> before h pre + 8 \<le> c"
  proof (cases rule: before_cases[of h pre])
    case 1
    then show ?thesis using x assms(1,4,5) by (auto simp: placed_def)
  next
    case (2 j)
    then show ?thesis using laid_order[OF assms(2,3), of "before h pre" j False] laid_in[OF assms(2), of "before h pre" j False] assms(4,5) by auto
  qed
qed

text \<open>A block that is not touched stays in order.\<close>

lemma block_ok_other:
  assumes "block_ok m (x, k, u)" "sz m' x = sz m x" "u \<Longrightarrow> nx m' x = nx m x"
  shows "block_ok m' (x, k, u)"
  using assms by auto

lemma before_not_used:
  assumes "placed s e h" "laid s (pre @ post) e" "(before h pre, k, u) \<in> set (pre @ post)"
  shows "\<not> u"
proof (cases rule: before_cases[of h pre])
  case 1
  then show ?thesis using heads_apart(2)[OF assms] by (simp add: apart_def)
next
  case (2 j)
  then show ?thesis using laid_order[OF assms(2,3), of "before h pre" j False] laid_in[OF assms(2,3)] laid_in[OF assms(2), of "before h pre" j False] by auto
qed

lemma take_block_spec:
  assumes inv: "heap_inv s e (pre @ (b, n, False) # post) h" and w: "16 \<le> w" "8 dvd w" "w \<le> n"
  shows "\<exists>h'. take_block (of_nat w) (of_nat (before h pre)) (of_nat b) h = Some (of_nat (b + 8), h') \<and> heap_inv s e (take_layout w pre b n post) h' \<and>
    keeps_used (pre @ (b, n, False) # post) h h'"
proof -
  define bs where "bs = pre @ (b, n, False) # post"
  define p where "p = before h pre"
  define k where "k = (if splits w n then w else n)"
  note i = heap_invD[OF inv[folded bs_def]]
  obtain m' where t: "take_block (of_nat w) (of_nat p) (of_nat b) h = Some (of_nat (b + 8), h\<lparr>hmem := m', xFreeBytesRemaining := xFreeBytesRemaining h - of_nat k,
        xMinimumEverFreeBytesRemaining := min (xFreeBytesRemaining h - of_nat k) (xMinimumEverFreeBytesRemaining h), xNumberOfSuccessfulAllocations := xNumberOfSuccessfulAllocations h + 1\<rparr>)"
    and np: "sz m' p = sz (hmem h) p" "nx m' p = (if splits w n then b + w else nx (hmem h) b)"
    and nb: "sz m' b = k + 2 ^ 31" "nx m' b = 0" and nr: "splits w n \<longrightarrow> nx m' (b + w) = nx (hmem h) b \<and> sz m' (b + w) = n - w"
    and other: "\<forall>x. apart p x \<and> apart b x \<and> (splits w n \<longrightarrow> apart (b + w) x) \<longrightarrow> nx m' x = nx (hmem h) x \<and> sz m' x = sz (hmem h) x"
    and bytes: "\<forall>c<2 ^ 32. (c < p \<or> p + 8 \<le> c) \<and> (c < b \<or> b + n \<le> c) \<longrightarrow> m' (of_nat c) = hmem h (of_nat c)"
    using take_memory[OF assms, folded p_def k_def] by (elim exE conjE) (rule that)
  have inb: "(b, n, False) \<in> set bs" by (simp add: bs_def)
  have lp: "laid s pre b" and le: "b + n \<le> e" using i(2) laid_in[OF i(2) inb] by (auto simp: laid_append bs_def)
  have parts: "laid (b + n) post e" "16 \<le> n" using i(2) by (auto simp: laid_append bs_def)
  have ord: "x + l \<le> b \<or> b + n \<le> x" "s \<le> x" "x + l \<le> e" "16 \<le> l" if "(x, l, u) \<in> set (pre @ post)" for x l u
    using that laid_in[OF lp, of x l u] laid_in[OF parts(1), of x l u] laid_in[OF i(2), of x l u] by (auto simp: bs_def)
  have pfar: "apart p y" if "b \<le> y" "y \<le> e" for y using before_apart[OF i(1) i(2)[unfolded bs_def] lp that] by (simp add: p_def)
  have rest: "apart b e" "splits w n \<longrightarrow> apart (b + w) e" "apart p e" using pfar[of e] le i(10) parts(2) w by (auto simp: apart_def splits_def)
  have start: "apart b (unat (xStart h))" "splits w n \<longrightarrow> apart (b + w) (unat (xStart h))"
    using placed_apart[OF i(1), of b] placed_apart[OF i(1), of "b + w"] le w laid_le[OF lp] by (auto simp: apart_sym)
  have far: "nx m' x = nx (hmem h) x \<and> sz m' x = sz (hmem h) x" if x: "(x, l, u) \<in> set (pre @ post)" "x \<noteq> p" for x l u
  proof -
    have "apart b x" "splits w n \<longrightarrow> apart (b + w) x" using ord[OF x(1)] i(10) parts(2) le w by (auto simp: apart_def splits_def)
    moreover have "apart p x"
    proof (cases rule: before_cases[of h pre])
      case 1
      then show ?thesis using placed_apart[OF i(1), of x] ord[OF x(1)] by (simp add: p_def)
    next
      case (2 j)
      then show ?thesis using heads_apart(3)[OF i(1,2), of p j False x l u] x by (auto simp: p_def bs_def)
    qed
    ultimately show ?thesis using other by blast
  qed
  have "block_ok m' (x, l, u)" if x: "(x, l, u) \<in> set (pre @ post)" for x l u
  proof -
    have "(x, l, u) \<in> set bs" using x by (auto simp: bs_def)
    then have ok: "block_ok (hmem h) (x, l, u)" by (rule bspec[OF i(3)[unfolded list_all_iff]])
    have "x = p \<Longrightarrow> \<not> u" using before_not_used[OF i(1) i(2)[unfolded bs_def], of l u] x by (auto simp: p_def)
    then show ?thesis using block_ok_other[OF ok] np(1) far[OF x] by metis
  qed
  then have "list_all (block_ok m') (pre @ post)" by (auto simp: list_all_iff simp del: block_ok_simp)
  then have blocks: "list_all (block_ok m') (take_layout w pre b n post)" using nb nr by (simp add: take_layout_def k_def)
  have start_far: "nx m' (unat (xStart h)) = nx (hmem h) (unat (xStart h)) \<and> sz m' (unat (xStart h)) = sz (hmem h) (unat (xStart h))" if "unat (xStart h) \<noteq> p"
  proof (cases rule: before_cases[of h pre])
    case (2 j)
    then have "apart p (unat (xStart h))" using apart_sym[OF heads_apart(2)[OF i(1,2), of p j False]] by (simp add: p_def bs_def)
    then show ?thesis using other start by simp
  qed (use that in \<open>simp add: p_def\<close>)
  have ch: "chain (hmem h) (unat (xStart h)) (frees pre) b" "chain (hmem h) b (frees post) e" using i(4) by (simp_all add: bs_def chain_append)
  have c1: "chain m' (unat (xStart h)) (frees pre) (if splits w n then b + w else nx (hmem h) b)"
  proof (rule chain_relink[OF ch(1)])
    show "nx m' (last (unat (xStart h) # frees pre)) = (if splits w n then b + w else nx (hmem h) b)" using np(2) by (simp add: p_def before_def)
    show "distinct (unat (xStart h) # frees pre)" using frees_distinct[OF i(1,2)] by (simp add: bs_def)
    show "nx m' x = nx (hmem h) x" if "x \<in> set (unat (xStart h) # frees pre)" "x \<noteq> last (unat (xStart h) # frees pre)" for x
      using that start_far far by (auto simp: frees_in p_def before_def simp del: last.simps)
  qed
  have post_far: "nx m' x = nx (hmem h) x" if "x \<in> set (frees post)" for x
  proof -
    obtain l where l: "(x, l, False) \<in> set post" using \<open>x \<in> _\<close> by (auto simp: frees_in)
    then have "apart p x" using laid_in[OF parts(1) l] by (intro pfar) auto
    then have "x \<noteq> p" by (auto simp: apart_def)
    then show ?thesis using far[of x l False] l by simp
  qed
  have "chain m' (unat (xStart h)) (frees (take_layout w pre b n post)) e"
  proof (cases "splits w n")
    case True
    then have "chain m' (b + w) (frees post) e" using nr post_far by (intro chain_move[OF ch(2)]) simp_all
    then show ?thesis using c1 True by (simp add: take_layout_frees chain_append)
  next
    case False
    have "chain m' (hd (frees post)) (tl (frees post)) e" if ne: "frees post \<noteq> []"
    proof -
      obtain y ys where f: "frees post = y # ys" using ne by (cases "frees post") auto
      then have "chain (hmem h) y ys e" using ch(2) by simp
      then have "chain m' y ys e" by (rule chain_move) (use post_far f in simp_all)
      then show ?thesis using f by simp
    qed
    then show ?thesis using c1 False chain_first[OF ch(2)] by (simp add: take_layout_frees chain_cat)
  qed
  moreover have "nx m' e = 0" "sz m' e = 0" using other rest i(6,7) by simp_all
  moreover have "sz m' (unat (xStart h)) = 0" using start_far np(1) i(5) by metis
  moreover have "unat (xFreeBytesRemaining h - of_nat k) = free_sum (take_layout w pre b n post)"
  proof -
    have sum: "free_sum (take_layout w pre b n post) + k = unat (xFreeBytesRemaining h)" using take_layout_frees(2)[OF w(3), of pre b post] i(9) by (simp add: k_def bs_def)
    then have "k < 2 ^ 32" using unsigned_less[of "xFreeBytesRemaining h", where 'a = nat] by simp
    then show ?thesis using nat_diff_word[of k "unat (xFreeBytesRemaining h)"] sum unsigned_less[of "xFreeBytesRemaining h", where 'a = nat] by simp
  qed
  moreover have "keeps_used bs h (h\<lparr>hmem := m'\<rparr>)" unfolding keeps_used_def
  proof (intro allI impI)
    fix x l c assume x: "(x, l, True) \<in> set bs \<and> x \<le> c \<and> c < x + l"
    then have "(x, l, True) \<in> set (pre @ post)" by (auto simp: bs_def)
    then have "c < b \<or> b + n \<le> c" using ord(1) x by fastforce
    then show "hmem (h\<lparr>hmem := m'\<rparr>) (of_nat c) = hmem h (of_nat c)" using bytes before_bytes[OF i(1) i(2)[unfolded bs_def], of x l c] x by (simp add: p_def bs_def)
  qed
  ultimately have "heap_inv s e (take_layout w pre b n post) (h\<lparr>hmem := m', xFreeBytesRemaining := xFreeBytesRemaining h - of_nat k,
        xMinimumEverFreeBytesRemaining := min (xFreeBytesRemaining h - of_nat k) (xMinimumEverFreeBytesRemaining h), xNumberOfSuccessfulAllocations := xNumberOfSuccessfulAllocations h + 1\<rparr>)"
    using i(1) blocks take_layout_laid[OF i(2)[unfolded bs_def] w] take_layout_apart[OF i(8)[unfolded bs_def]] by (simp add: heap_inv_def placed_def)
  then show ?thesis using t \<open>keeps_used bs h _\<close> by (auto simp: p_def bs_def keeps_used_def)
qed


subsection \<open>Allocation\<close>

lemma heap_end:
  assumes "heap_inv s e bs h"
  shows "pxEnd h = of_nat e" "pxEnd h \<noteq> 0" "0 < e"
proof -
  show e: "pxEnd h = of_nat e" "0 < e" using assms by (auto simp: heap_inv_def placed_def)
  have "e < 2 ^ 32" using heap_invD(10)[OF assms] by simp
  then show "pxEnd h \<noteq> 0" using unat_small[of e] e by (metis unat_0 less_irrefl)
qed

lemma free_sum_member: "(x, k, False) \<in> set bs \<Longrightarrow> k \<le> free_sum bs"
  by (induction bs) auto

lemma malloc_fails:
  assumes inv: "heap_inv s e bs h" and none: "wanted_size n = 0 \<or> (\<forall>x k. (x, k, False) \<in> set bs \<longrightarrow> k < unat (wanted_size n))"
  shows "pvPortMalloc n h = Some (0, h\<lparr>hook_called := True\<rparr>)"
proof -
  note i = heap_invD[OF inv] and e = heap_end[OF inv]
  define want where "want = wanted_size n"
  have "find_block h want (xStart h) (pxNextFreeBlock (hmem h) (xStart h)) = Some (of_nat (before h bs), of_nat e)" if "0 < want"
  proof -
    have small: "sz (hmem h) x < unat want" if "x \<in> set (frees bs)" for x
    proof -
      obtain k where k: "(x, k, False) \<in> set bs" using \<open>x \<in> _\<close> by (auto simp: frees_in)
      then have "block_ok (hmem h) (x, k, False)" by (rule bspec[OF i(3)[unfolded list_all_iff]])
      then show ?thesis using none k \<open>0 < want\<close> by (auto simp: want_def)
    qed
    have fs: "takeWhile (\<lambda>x. sz (hmem h) x < unat want) (frees bs) = frees bs" "dropWhile (\<lambda>x. sz (hmem h) x < unat want) (frees bs) = []"
      using small by (simp_all add: takeWhile_eq_all_conv dropWhile_eq_Nil_conv)
    have "pxNextFreeBlock (hmem h) (xStart h) = of_nat (hd (frees bs @ [e]))"
      using header_words(1)[of "hmem h" "unat (xStart h)"] chain_first[OF i(4)] by simp
    moreover have "\<And>x. x \<in> set (frees bs) \<Longrightarrow> s \<le> x \<and> x < e" using laid_in[OF i(2)] by (fastforce simp: frees_in)
    ultimately show ?thesis using find_block_spec[OF i(1,4) _ i(6,7) that] unfolding fs by (simp add: before_def)
  qed
  then have "allocate want h = Some (0, h)" using e(1) by (simp add: allocate_def)
  then show ?thesis using e(2) by (simp add: pvPortMalloc_def want_def)
qed

lemma malloc_succeeds:
  assumes inv: "heap_inv s e bs h" and some: "wanted_size n \<noteq> 0" "\<exists>x k. (x, k, False) \<in> set bs \<and> unat (wanted_size n) \<le> k"
  shows "\<exists>pre b k post h'. bs = pre @ (b, k, False) # post \<and> unat (wanted_size n) \<le> k \<and> pvPortMalloc n h = Some (of_nat (b + 8), h') \<and>
    heap_inv s e (take_layout (unat (wanted_size n)) pre b k post) h' \<and> keeps_used bs h h'"
proof -
  note i = heap_invD[OF inv] and e = heap_end[OF inv]
  define want where "want = wanted_size n"
  define P where "P = (\<lambda>x. sz (hmem h) x < unat want)"
  obtain y l where y: "(y, l, False) \<in> set bs" "unat want \<le> l" using some(2) by (auto simp: want_def)
  have ok: "block_ok (hmem h) (x, k, u)" if "(x, k, u) \<in> set bs" for x k u using that by (rule bspec[OF i(3)[unfolded list_all_iff]])
  have "y \<in> set (frees bs)" "\<not> P y" using y ok[OF y(1)] by (auto simp: frees_in P_def)
  then obtain b ys where d: "dropWhile P (frees bs) = b # ys" by (cases "dropWhile P (frees bs)") (auto simp: dropWhile_eq_Nil_conv)
  have "frees bs = takeWhile P (frees bs) @ b # ys" using d takeWhile_dropWhile_id[of P "frees bs"] by simp
  then obtain pre k post where bs: "bs = pre @ (b, k, False) # post" "frees pre = takeWhile P (frees bs)" using frees_split by blast
  have inb: "(b, k, False) \<in> set bs" by (simp add: bs(1))
  have "\<not> P b" using d hd_dropWhile[of P "frees bs"] by simp
  then have k: "unat want \<le> k" using ok[OF inb] by (simp add: P_def)
  have w: "16 \<le> unat want" "8 dvd unat want" "0 < want" using some(1) wanted_size_unat[of n] by (auto simp: want_def word_gt_0 unat_eq_0[symmetric] split: if_splits)
  have valid: "heapBLOCK_SIZE_IS_VALID want" using k heads_apart(6)[OF i(1,2) inb] by (simp add: heapBLOCK_SIZE_IS_VALID_def allocated_bit)
  have fits: "want \<le> xFreeBytesRemaining h" using k free_sum_member[OF inb] i(9) by (simp add: word_le_nat_alt)
  have "pxNextFreeBlock (hmem h) (xStart h) = of_nat (hd (frees bs @ [e]))"
    using header_words(1)[of "hmem h" "unat (xStart h)"] chain_first[OF i(4)] by simp
  moreover have "\<And>x. x \<in> set (frees bs) \<Longrightarrow> s \<le> x \<and> x < e" using laid_in[OF i(2)] by (fastforce simp: frees_in)
  ultimately have find: "find_block h want (xStart h) (pxNextFreeBlock (hmem h) (xStart h)) = Some (of_nat (before h pre), of_nat b)"
    using find_block_spec[OF i(1,4) _ i(6,7) w(3), folded P_def] d bs(2) by (simp add: before_def)
  have be: "b < e" "b + 8 < 2 ^ 32" "0 < b" "8 dvd b" using laid_in[OF i(2) inb] i(10) laid_aligned[OF i(2) _ inb] i(1) by (auto simp: placed_def)
  then have ne: "of_nat b \<noteq> pxEnd h" using e(1) nat_word_eq[of b e] i(10) by auto
  obtain h' where t: "take_block want (of_nat (before h pre)) (of_nat b) h = Some (of_nat (b + 8), h')"
    "heap_inv s e (take_layout (unat want) pre b k post) h'" "keeps_used bs h h'"
    using take_block_spec[OF inv[unfolded bs(1)] w(1,2) k] bs(1) by auto
  have u: "unat (of_nat (b + 8) :: u32) = b + 8" using be by (intro unat_small) simp
  have al: "(of_nat (b + 8) :: u32) AND portBYTE_ALIGNMENT_MASK = 0" "(of_nat (b + 8) :: u32) \<noteq> 0"
    using be u by (simp_all only: align_zero) (auto simp: unat_eq_0[symmetric] simp del: of_nat_add)
  have "allocate want h = Some (of_nat (b + 8), h')" using valid w(3) fits find ne t(1) by (simp add: allocate_def)
  then have "pvPortMalloc n h = Some (of_nat (b + 8), h')" using al e(2) by (simp add: pvPortMalloc_def want_def del: of_nat_add)
  then show ?thesis using bs(1) k t(2,3) unfolding want_def by blast
qed


subsection \<open>Freeing\<close>

lemma find_place_spec:
  assumes "chain m p xs y" "\<And>x. x \<in> set xs \<Longrightarrow> x < b" "b \<le> y" "b < 2 ^ 32" "y < 2 ^ 32"
  shows "find_place m (of_nat b) (of_nat p) = Some (of_nat (last (p # xs)))"
  using assms(1,2)
proof (induction xs arbitrary: p)
  case Nil
  have "\<not> pxNextFreeBlock m (of_nat p) < of_nat b" using Nil assms(3-5) by (simp add: header_words nat_word_less)
  then show ?case by (subst find_place.simps) simp
next
  case (Cons x xs)
  have x: "x < b" "nx m p = x" using Cons.prems by auto
  then have "pxNextFreeBlock m (of_nat p) = of_nat x" "(of_nat x :: u32) < of_nat b" using assms(4) by (simp_all add: header_words nat_word_less)
  then have "find_place m (of_nat b) (of_nat p) = find_place m (of_nat b) (of_nat x)" by (subst find_place.simps) simp
  then show ?case using Cons.IH[of x] Cons.prems by simp
qed

text \<open>A freed block joins its neighbours when they are free.\<close>

definition joins_left :: "block list \<Rightarrow> bool" where "joins_left pre \<longleftrightarrow> pre \<noteq> [] \<and> \<not> used (last pre)"

definition joins_right :: "block list \<Rightarrow> bool" where "joins_right post \<longleftrightarrow> post \<noteq> [] \<and> \<not> used (hd post)"

definition free_layout :: "block list \<Rightarrow> nat \<Rightarrow> nat \<Rightarrow> block list \<Rightarrow> block list" where
  "free_layout pre b n post =
     (let l = (if joins_left pre then fst (snd (last pre)) else 0); r = (if joins_right post then fst (snd (hd post)) else 0)
      in (if joins_left pre then butlast pre else pre) @ (b - l, l + n + r, False) # (if joins_right post then tl post else post))"

lemma joins_leftE:
  assumes "joins_left pre" "laid s pre b"
  obtains pre' x k where "pre = pre' @ [(x, k, False)]" "x + k = b" "frees pre = frees pre' @ [x]" "laid s pre' x" "16 \<le> k" "8 dvd k"
proof -
  have "pre = butlast pre @ [last pre]" "\<not> used (last pre)" using assms(1) by (simp_all add: joins_left_def)
  then obtain pre' x k where p: "pre = pre' @ [(x, k, False)]" by (metis prod_cases3 used_simp)
  then show thesis using that[of pre' x k] assms(2) by (auto simp: laid_append)
qed

lemma joins_rightE:
  assumes "joins_right post" "laid c post e"
  obtains post' k where "post = (c, k, False) # post'" "laid (c + k) post' e" "16 \<le> k" "8 dvd k"
proof -
  obtain y post' where y: "post = y # post'" "\<not> used y" using assms(1) by (cases post) (auto simp: joins_right_def)
  obtain x k u where "y = (x, k, u)" by (cases y) auto
  then show thesis using that[of k post'] y assms(2) by auto
qed

lemma free_layout_laid:
  assumes "laid s (pre @ (b, n, True) # post) e"
  shows "laid s (free_layout pre b n post) e"
proof -
  have l: "laid s pre b" "laid (b + n) post e" "16 \<le> n" "8 dvd n" using assms by (auto simp: laid_append)
  define l' r where "l' = (if joins_left pre then fst (snd (last pre)) else 0)" "r = (if joins_right post then fst (snd (hd post)) else 0)"
  have left: "laid s (if joins_left pre then butlast pre else pre) (b - l')" "l' \<le> b" "8 dvd l'"
  proof -
    have "laid s (if joins_left pre then butlast pre else pre) (b - l') \<and> l' \<le> b \<and> 8 dvd l'"
    proof (cases "joins_left pre")
      case True
      then obtain pre' x k where "pre = pre' @ [(x, k, False)]" "x + k = b" "laid s pre' x" "8 dvd k" by (rule joins_leftE[OF _ l(1)])
      then show ?thesis using True by (auto simp: l'_r_def)
    qed (use l in \<open>auto simp: l'_r_def\<close>)
    then show "laid s (if joins_left pre then butlast pre else pre) (b - l')" "l' \<le> b" "8 dvd l'" by simp_all
  qed
  moreover have "laid (b + n + r) (if joins_right post then tl post else post) e" "8 dvd r"
  proof -
    have "laid (b + n + r) (if joins_right post then tl post else post) e \<and> 8 dvd r"
    proof (cases "joins_right post")
      case True
      then obtain post' k where "post = (b + n, k, False) # post'" "laid (b + n + k) post' e" "8 dvd k" by (rule joins_rightE[OF _ l(2)])
      then show ?thesis using True by (auto simp: l'_r_def)
    qed (use l in \<open>auto simp: l'_r_def\<close>)
    then show "laid (b + n + r) (if joins_right post then tl post else post) e" "8 dvd r" by simp_all
  qed
  moreover have "b - l' + (l' + n + r) = b + n + r" using left(2) by simp
  ultimately show ?thesis unfolding free_layout_def Let_def l'_r_def[symmetric] laid_append using l(3,4)
    by (intro exI[of _ "b - l'"]) (simp add: add.assoc)
qed

lemma free_layout_sum: "free_sum (free_layout pre b n post) = free_sum (pre @ (b, n, True) # post) + n"
proof -
  have "free_sum pre = free_sum (if joins_left pre then butlast pre else pre) + (if joins_left pre then fst (snd (last pre)) else 0)"
    using append_butlast_last_id[of pre] frees_simps(6)[of "butlast pre" "[last pre]"] by (auto simp: joins_left_def simp del: frees_simps(6))
  moreover have "free_sum post = (if joins_right post then fst (snd (hd post)) else 0) + free_sum (if joins_right post then tl post else post)"
    by (cases post) (auto simp: joins_right_def)
  ultimately show ?thesis by (simp add: free_layout_def Let_def)
qed

lemma free_layout_apart:
  assumes "successively (\<lambda>b c. used b \<or> used c) (pre @ (b, n, True) # post)"
  shows "successively (\<lambda>b c. used b \<or> used c) (free_layout pre b n post)"
proof -
  have s: "successively (\<lambda>b c. used b \<or> used c) pre" "successively (\<lambda>b c. used b \<or> used c) post" using assms by (auto simp: successively_append_iff successively_Cons)
  have "successively (\<lambda>b c. used b \<or> used c) ((if joins_left pre then butlast pre else pre) @ [(x, k, False)])" for x k
  proof (cases "joins_left pre")
    case True
    then have "pre = butlast pre @ [last pre]" by (simp add: joins_left_def)
    then have "successively (\<lambda>b c. used b \<or> used c) (butlast pre @ [last pre])" using s(1) by simp
    then show ?thesis using True by (auto simp: successively_append_iff joins_left_def)
  qed (use s in \<open>auto simp: successively_append_iff joins_left_def\<close>)
  moreover have "successively (\<lambda>b c. used b \<or> used c) ((x, k, False) # (if joins_right post then tl post else post))" for x k
    using s(2) by (cases post) (auto simp: joins_right_def successively_Cons)
  ultimately show ?thesis by (simp add: free_layout_def Let_def successively_append_iff)
qed

text \<open>
  The block \<open>b\<close> is marked as free but not in the list: what holds before it is inserted. \<open>nxt\<close> is the next free block, or the end.
\<close>

definition to_insert :: "nat \<Rightarrow> nat \<Rightarrow> block list \<Rightarrow> nat \<Rightarrow> nat \<Rightarrow> block list \<Rightarrow> heap \<Rightarrow> bool" where
  "to_insert s e pre b n post h \<longleftrightarrow> placed s e h \<and> laid s (pre @ (b, n, True) # post) e \<and> list_all (block_ok (hmem h)) (pre @ post) \<and>
     chain (hmem h) (unat (xStart h)) (frees pre @ frees post) e \<and> sz (hmem h) (unat (xStart h)) = 0 \<and> sz (hmem h) b = n"

lemma to_insertD:
  assumes "to_insert s e pre b n post h"
  shows "placed s e h" "laid s (pre @ (b, n, True) # post) e" "laid s pre b" "laid (b + n) post e" "list_all (block_ok (hmem h)) (pre @ post)"
    "chain (hmem h) (unat (xStart h)) (frees pre @ frees post) e" "sz (hmem h) (unat (xStart h)) = 0" "sz (hmem h) b = n" "16 \<le> n" "b + n \<le> e" "e + 8 < 2 ^ 32" "s \<le> b" "0 < b"
    "apart (before h pre) b" "nx (hmem h) (before h pre) = hd (frees post @ [e])"
proof -
  show i: "placed s e h" "laid s (pre @ (b, n, True) # post) e" "laid s pre b" "laid (b + n) post e" "list_all (block_ok (hmem h)) (pre @ post)"
    "chain (hmem h) (unat (xStart h)) (frees pre @ frees post) e" "sz (hmem h) (unat (xStart h)) = 0" "sz (hmem h) b = n" "16 \<le> n" "e + 8 < 2 ^ 32"
    using assms by (auto simp: to_insert_def laid_append placed_def)
  show le: "b + n \<le> e" "s \<le> b" using laid_le[OF i(4)] laid_le[OF i(3)] .
  show "0 < b" using le i(1) by (simp add: placed_def)
  show "apart (before h pre) b" using before_apart[OF i(1,2,3)] le by simp
  show "nx (hmem h) (before h pre) = hd (frees post @ [e])" using i(6) chain_last by (auto simp: chain_cat before_def simp del: last.simps)
qed

lemma joins_left_test:
  assumes "to_insert s e pre b n post h"
  shows "before h pre + sz (hmem h) (before h pre) = b \<longleftrightarrow> joins_left pre" "before h pre + sz (hmem h) (before h pre) < 2 ^ 32"
    "joins_left pre \<Longrightarrow> last pre = (before h pre, sz (hmem h) (before h pre), False)"
proof -
  note i = to_insertD[OF assms]
  define p where "p = before h pre"
  have ok: "block_ok (hmem h) (x, k, u)" if "(x, k, u) \<in> set pre" for x k u using that by (intro bspec[OF i(5)[unfolded list_all_iff]]) simp
  have "(p + sz (hmem h) p = b \<longleftrightarrow> joins_left pre) \<and> p + sz (hmem h) p < 2 ^ 32 \<and> (joins_left pre \<longrightarrow> last pre = (p, sz (hmem h) p, False))"
  proof (cases "joins_left pre")
    case True
    then obtain pre' x k where pre: "pre = pre' @ [(x, k, False)]" "x + k = b" "frees pre = frees pre' @ [x]" by (rule joins_leftE[OF _ i(3)])
    then have "p = x" "sz (hmem h) x = k" using ok[of x k False] by (simp_all add: p_def before_def)
    then show ?thesis using True pre i(10,11) by simp
  next
    case False
    show ?thesis
    proof (cases rule: before_cases[of h pre])
      case 1
      then show ?thesis using False i(7,14) unsigned_less[of "xStart h", where 'a = nat] by (auto simp: p_def apart_def)
    next
      case (2 j)
      then have "pre = butlast pre @ [last pre]" "used (last pre)" using False by (cases "pre = []"; simp add: joins_left_def)+
      then obtain pre' y l where y: "pre = pre' @ [(y, l, True)]" by (metis prod_cases3 used_simp)
      then have "(p, j, False) \<in> set pre'" "laid s pre' y" "y + l = b" "16 \<le> l" using 2 i(3) by (auto simp: p_def laid_append)
      then have "p + j < b" using laid_in[of s pre' y p j False] by auto
      then show ?thesis using False ok[OF 2(1)] i(10,11) by (auto simp: p_def)
    qed
  qed
  then show "before h pre + sz (hmem h) (before h pre) = b \<longleftrightarrow> joins_left pre" "before h pre + sz (hmem h) (before h pre) < 2 ^ 32"
    "joins_left pre \<Longrightarrow> last pre = (before h pre, sz (hmem h) (before h pre), False)" by (simp_all add: p_def)
qed

lemma joins_right_test:
  assumes "laid c post e" "e < 2 ^ 32"
  shows "c = hd (frees post @ [e]) \<and> hd (frees post @ [e]) \<noteq> e \<longleftrightarrow> joins_right post" "hd (frees post @ [e]) = c \<Longrightarrow> \<not> joins_right post \<Longrightarrow> hd (frees post @ [e]) = e"
    "joins_right post \<Longrightarrow> hd post = (c, fst (snd (hd post)), False)" "c \<le> hd (frees post @ [e])" "hd (frees post @ [e]) \<le> e"
proof -
  define y where "y = hd (frees post @ [e])"
  have y: "y = e \<or> (\<exists>k. (y, k, False) \<in> set post)" by (cases "frees post") (auto simp: y_def frees_in[symmetric])
  have le: "c \<le> y" "y \<le> e" using y laid_le[OF assms(1)] by (auto dest!: laid_in[OF assms(1)])
  have main: "(c = y \<and> y \<noteq> e \<longleftrightarrow> joins_right post) \<and> (y = c \<longrightarrow> \<not> joins_right post \<longrightarrow> y = e) \<and> (joins_right post \<longrightarrow> hd post = (c, fst (snd (hd post)), False))"
  proof (cases "joins_right post")
    case True
    then obtain post' k where p: "post = (c, k, False) # post'" "laid (c + k) post' e" "16 \<le> k" by (rule joins_rightE[OF _ assms(1)])
    then show ?thesis using True laid_le[OF p(2)] by (auto simp: y_def)
  next
    case False
    have "c < y" if ne: "y \<noteq> e"
    proof -
      obtain x l post' where x: "post = (x, l, True) # post'" using y False ne by (cases post) (auto simp: joins_right_def)
      then have "laid (c + l) post' e" "16 \<le> l" "\<exists>k. (y, k, False) \<in> set post'" using assms(1) y ne by auto
      then show ?thesis by (auto dest!: laid_in)
    qed
    then show ?thesis using False by auto
  qed
  then show "c = hd (frees post @ [e]) \<and> hd (frees post @ [e]) \<noteq> e \<longleftrightarrow> joins_right post" "hd (frees post @ [e]) = c \<Longrightarrow> \<not> joins_right post \<Longrightarrow> hd (frees post @ [e]) = e"
    "joins_right post \<Longrightarrow> hd post = (c, fst (snd (hd post)), False)" "c \<le> hd (frees post @ [e])" "hd (frees post @ [e]) \<le> e" using le unfolding y_def by blast+
qed

lemma insert_memory:
  assumes "to_insert s e pre b n post h"
  defines "p \<equiv> before h pre" and "l \<equiv> (if joins_left pre then fst (snd (last pre)) else 0)" and "r \<equiv> (if joins_right post then fst (snd (hd post)) else 0)"
    and "post' \<equiv> (if joins_right post then tl post else post)"
  shows "\<exists>m'. prvInsertBlockIntoFreeList (of_nat b) h = Some (h\<lparr>hmem := m'\<rparr>) \<and> sz m' (b - l) = l + n + r \<and> nx m' (b - l) = hd (frees post' @ [e]) \<and>
    (\<not> joins_left pre \<longrightarrow> sz m' p = sz (hmem h) p \<and> nx m' p = b) \<and> (joins_left pre \<longrightarrow> b - l = p) \<and>
    (\<forall>x. apart p x \<and> apart b x \<longrightarrow> nx m' x = nx (hmem h) x \<and> sz m' x = sz (hmem h) x) \<and>
    (\<forall>c<2 ^ 32. (c < p \<or> p + 8 \<le> c) \<and> (c < b \<or> b + 8 \<le> c) \<longrightarrow> m' (of_nat c) = hmem h (of_nat c))"
proof -
  note i = to_insertD[OF assms(1), folded p_def]
  define m where "m = hmem h"
  define y where "y = hd (frees post @ [e])"
  have e32: "e < 2 ^ 32" using i(11) by simp
  note jl = joins_left_test[OF assms(1), folded p_def m_def] and jr = joins_right_test[OF i(4) e32, folded y_def]
  note mm = i(8,15)[folded m_def y_def]
  have ll: "joins_left pre \<Longrightarrow> l = sz m p" using jl(3) by (simp add: l_def)
  have pl: "joins_left pre \<Longrightarrow> b - l = p \<and> l \<le> b" using jl(1) ll by auto
  define B where "B = b - l"
  have Bl: "B + l = b" using pl by (cases "joins_left pre") (auto simp: B_def l_def)
  have ch: "chain m (unat (xStart h)) (frees pre) y" "frees post \<noteq> [] \<longrightarrow> chain m (hd (frees post)) (tl (frees post)) e" using i(6) by (simp_all add: chain_cat m_def y_def)
  have y: "b + n \<le> y" "y \<le> e" "y < 2 ^ 32" "b < 2 ^ 32" using jr(4,5) e32 i(10) by simp_all
  have place: "find_place m (of_nat b) (xStart h) = Some (of_nat p)"
    using find_place_spec[OF ch(1), of b] y i(9) laid_in[OF i(3)] by (fastforce simp: frees_in p_def before_def simp del: last.simps)
  have r: "sz m y = r" "y = b + n" "nx m y = hd (frees post' @ [e])" if J: "joins_right post"
  proof -
    obtain post2 k where post: "post = (b + n, k, False) # post2" by (rule joins_rightE[OF J i(4)])
    then have rk: "r = k" "post' = post2" "y = b + n" using J by (simp_all add: r_def post'_def y_def)
    have "block_ok (hmem h) (b + n, k, False)" using post by (intro bspec[OF i(5)[unfolded list_all_iff]]) simp
    then show "sz m y = r" using rk by (simp add: m_def)
    show "y = b + n" by fact
    show "nx m y = hd (frees post' @ [e])" using ch(2) post rk chain_first by auto
  qed
  have ay: "apart p y" "apart b y" using before_apart[OF i(1,2,3), of y] y i(9,11) by (auto simp: p_def apart_def)
  have aB: "apart B y" "B < 2 ^ 32" "B = p \<longleftrightarrow> joins_left pre" using ay pl y i(14) by (auto simp: B_def l_def apart_def)
  define z where "z = hd (frees post' @ [e])"
  define m1 where "m1 = (if joins_left pre then set_size (of_nat p) (of_nat (l + n)) m else m)"
  define m2 where "m2 = set_next (of_nat B) (of_nat z) (if joins_right post then set_size (of_nat B) (of_nat (l + n + r)) m1 else m1)"
  define m3 where "m3 = (if joins_left pre then m2 else set_next (of_nat p) (of_nat b) m2)"
  have bound: "l + n + r < 2 ^ 32" "z < 2 ^ 32"
  proof -
    have "b + n + r \<le> e \<and> z \<le> e"
    proof (cases "joins_right post")
      case True
      then obtain post2 k where post: "post = (b + n, k, False) # post2" "laid (b + n + k) post2 e" by (rule joins_rightE[OF _ i(4)])
      then show ?thesis using True laid_le[OF post(2)] joins_right_test(5)[OF post(2) e32] by (simp add: r_def z_def post'_def)
    qed (use y i(10) in \<open>simp add: r_def z_def post'_def y_def\<close>)
    then show "l + n + r < 2 ^ 32" "z < 2 ^ 32" using Bl e32 by simp_all
  qed
  have m1B: "sz m1 B = l + n" "nx m1 p = y" using aB(3) mm bound pl by (auto simp: m1_def B_def l_def unat_small simp del: of_nat_add)
  have t1: "of_nat p + xBlockSize m (of_nat p) = of_nat b \<longleftrightarrow> joins_left pre"
    unfolding header_words of_nat_add[symmetric] using nat_word_eq[OF jl(2), of b] y(4) jl(1) by simp
  have "B = (if joins_left pre then p else b)" using pl by (simp add: B_def l_def)
  then have B1: "(if joins_left pre then of_nat p else of_nat b) = (of_nat B :: u32)" by simp
  have e1: "(if joins_left pre then set_size (of_nat p) (xBlockSize m (of_nat p) + xBlockSize m (of_nat b)) m else m) = m1"
    using ll mm(1) by (simp add: m1_def header_words)
  have t2: "of_nat B + xBlockSize m1 (of_nat B) = of_nat y \<longleftrightarrow> b + n = y"
    unfolding header_words m1B(1) of_nat_add[symmetric] using nat_word_eq[of "B + (l + n)" y] y Bl i(10) e32 by (simp add: add.assoc[symmetric])
  have pe: "pxEnd h = of_nat e" using i(1) by (simp add: placed_def)
  have t3: "of_nat y \<noteq> pxEnd h \<longleftrightarrow> y \<noteq> e" using nat_word_eq[of y e] y e32 by (simp add: pe)
  have "nx m1 y = nx m y \<and> sz m1 y = sz m y" using header_other[OF ay(1)] by (simp add: m1_def)
  then have m1y: "nx m1 y = nx m y" "sz m1 y = sz m y" by simp_all
  have e2: "(if b + n = y then if y \<noteq> e
        then set_next (of_nat B) (pxNextFreeBlock (set_size (of_nat B) (xBlockSize m1 (of_nat B) + xBlockSize m1 (of_nat y)) m1) (of_nat y))
               (set_size (of_nat B) (xBlockSize m1 (of_nat B) + xBlockSize m1 (of_nat y)) m1)
        else set_next (of_nat B) (pxEnd h) m1 else set_next (of_nat B) (of_nat y) m1) = m2"
  proof (cases "joins_right post")
    case True
    then have c: "b + n = y" "y \<noteq> e" using r(2) jr(1) by auto
    have x: "xBlockSize m1 (of_nat B) + xBlockSize m1 (of_nat y) = of_nat (l + n + r)" unfolding header_words m1B(1) m1y r(1)[OF True] by simp
    have "pxNextFreeBlock (set_size (of_nat B) v m1) (of_nat y) = of_nat z" for v unfolding header_words header_other[OF aB(1)] m1y r(3)[OF True] z_def ..
    then show ?thesis unfolding if_P[OF c(1)] if_P[OF c(2)] x m2_def if_P[OF True] by simp
  next
    case False
    have "z = y" using False by (simp add: z_def post'_def y_def)
    then show ?thesis using jr(2) False by (auto simp: m2_def pe)
  qed
  have e3: "(if of_nat p \<noteq> (of_nat B :: u32) then set_next (of_nat p) (of_nat B) m2 else m2) = m3"
  proof -
    have "p < 2 ^ 32" using i(14) by (simp add: apart_def)
    then show ?thesis using nat_word_eq[of p B] aB(2,3) B1 by (auto simp: m3_def)
  qed
  have v: "heapVALIDATE_BLOCK_POINTER h (of_nat p)" if "of_nat p \<noteq> xStart h"
  proof (cases rule: before_cases[of h pre])
    case (2 k)
    then show ?thesis using laid_in[OF i(3), of p k False] i(10) by (intro placed_valid[OF i(1)]) (auto simp: p_def)
  qed (use that in \<open>simp add: p_def\<close>)
  have "prvInsertBlockIntoFreeList (of_nat b) h = Some (h\<lparr>hmem := m3\<rparr>)"
    unfolding prvInsertBlockIntoFreeList_def m_def[symmetric] place option.case Let_def t1 e1 B1 header_words(1)[of m1 p] m1B(2) t2 t3 e2 e3 using v by auto
  moreover have "sz m3 B = l + n + r \<and> nx m3 B = z" 
  proof -
    have "sz m2 B = l + n + r" "nx m2 B = z" using bound m1B(1) by (auto simp: m2_def r_def unat_small simp del: of_nat_add)
    moreover have "joins_left pre \<or> apart p B" using i(14) by (auto simp: B_def l_def)
    ultimately show ?thesis using header_other[of p B] by (auto simp: m3_def)
  qed
  moreover have "sz m3 p = sz m p \<and> nx m3 p = b" if J: "\<not> joins_left pre"
  proof -
    have "B = b" using J by (simp add: B_def l_def)
    then have "sz m2 p = sz m p" using J header_other[OF apart_sym[OF i(14)]] by (simp add: m2_def m1_def)
    then show ?thesis using J y(4) by (simp add: m3_def unat_small)
  qed
  moreover have "nx m3 x = nx m x \<and> sz m3 x = sz m x" if x: "apart p x" "apart b x" for x
  proof -
    have "apart B x" using x aB(3) by (auto simp: B_def l_def)
    then show ?thesis using header_other[OF x(1)] header_other[of B x] by (simp add: m3_def m2_def m1_def)
  qed
  moreover have "m3 (of_nat c) = m (of_nat c)" if c: "c < 2 ^ 32" "c < p \<or> p + 8 \<le> c" "c < b \<or> b + 8 \<le> c" for c
  proof -
    have "p + 8 \<le> 2 ^ 32" "B + 8 \<le> 2 ^ 32" "c < B \<or> B + 8 \<le> c" using i(14) c aB(3) by (auto simp: B_def l_def apart_def)
    then show ?thesis using byte_other[OF c(1), of p] byte_other[OF c(1), of B] c(2) by (simp add: m3_def m2_def m1_def)
  qed
  ultimately show ?thesis using pl unfolding m_def[symmetric] B_def[symmetric] z_def[symmetric] by (intro exI[of _ m3] conjI) blast+
qed

lemma apart_neighbours:
  assumes "placed s e h" "laid s (pre @ (b, n, u) # post) e" "(x, k, v) \<in> set (pre @ post)"
  shows "apart b x" "x \<noteq> before h pre \<Longrightarrow> apart (before h pre) x"
proof -
  have b: "(b, n, u) \<in> set (pre @ (b, n, u) # post)" and x: "(x, k, v) \<in> set (pre @ (b, n, u) # post)" using assms(3) by auto
  have "laid s pre b" "laid (b + n) post e" "16 \<le> n" using assms(2) by (auto simp: laid_append)
  then have "x \<noteq> b" using assms(3) laid_in[of s pre b x k v] laid_in[of "b + n" post e x k v] by auto
  then show "apart b x" using heads_apart(3)[OF assms(1,2) b x] by simp
  show "apart (before h pre) x" if "x \<noteq> before h pre"
  proof (cases rule: before_cases[of h pre])
    case 1
    then show ?thesis using heads_apart(2)[OF assms(1,2) x] by simp
  next
    case (2 j)
    then have "(before h pre, j, False) \<in> set (pre @ (b, n, u) # post)" by simp
    then show ?thesis using heads_apart(3)[OF assms(1,2) _ x] that by metis
  qed
qed

lemma insert_spec:
  assumes t: "to_insert s e pre b n post h" and en: "sz (hmem h) e = 0" "nx (hmem h) e = 0" and ap: "successively (\<lambda>b c. used b \<or> used c) (pre @ (b, n, True) # post)"
    and fr: "unat (xFreeBytesRemaining h) = free_sum (pre @ (b, n, True) # post) + n"
  shows "\<exists>h'. prvInsertBlockIntoFreeList (of_nat b) h = Some h' \<and> heap_inv s e (free_layout pre b n post) h' \<and> keeps_used (pre @ post) h h'"
proof -
  note i = to_insertD[OF t]
  define p where "p = before h pre"
  define l where "l = (if joins_left pre then fst (snd (last pre)) else 0)"
  define r where "r = (if joins_right post then fst (snd (hd post)) else 0)"
  define pre' where "pre' = (if joins_left pre then butlast pre else pre)"
  define post' where "post' = (if joins_right post then tl post else post)"
  define x0 where "x0 = unat (xStart h)"
  obtain m' where run: "prvInsertBlockIntoFreeList (of_nat b) h = Some (h\<lparr>hmem := m'\<rparr>)" and B: "sz m' (b - l) = l + n + r" "nx m' (b - l) = hd (frees post' @ [e])"
    and np: "\<not> joins_left pre \<longrightarrow> sz m' p = sz (hmem h) p \<and> nx m' p = b" and Bp: "joins_left pre \<longrightarrow> b - l = p"
    and other: "\<forall>x. apart p x \<and> apart b x \<longrightarrow> nx m' x = nx (hmem h) x \<and> sz m' x = sz (hmem h) x"
    and bytes: "\<forall>c<2 ^ 32. (c < p \<or> p + 8 \<le> c) \<and> (c < b \<or> b + 8 \<le> c) \<longrightarrow> m' (of_nat c) = hmem h (of_nat c)"
    using insert_memory[OF t, folded p_def l_def r_def post'_def] by (elim exE conjE) (rule that)
  have lay: "free_layout pre b n post = pre' @ (b - l, l + n + r, False) # post'" by (simp add: free_layout_def Let_def l_def r_def pre'_def post'_def)
  have far: "nx m' x = nx (hmem h) x \<and> sz m' x = sz (hmem h) x" if "(x, k, u) \<in> set (pre @ post)" "x \<noteq> p" for x k u
    using apart_neighbours[OF i(1,2) that(1)] that(2) other by (simp add: p_def)
  have ax: "apart b x0" "apart p e" "apart b e" using placed_apart[OF i(1), of b] before_apart[OF i(1,2,3), of e] i(9-12) by (auto simp: apart_def x0_def p_def)
  have x0: "nx m' x0 = nx (hmem h) x0 \<and> sz m' x0 = sz (hmem h) x0" if "x0 \<noteq> p"
  proof (cases rule: before_cases[of h pre])
    case (2 j)
    then have "apart p x0" using apart_sym[OF heads_apart(2)[OF i(1,2), of p j False]] by (simp add: p_def x0_def)
    then show ?thesis using other ax by simp
  qed (use that in \<open>simp add: p_def x0_def\<close>)
  have dist: "distinct (x0 # frees (pre @ (b, n, True) # post))" using frees_distinct[OF i(1,2)] by (simp add: x0_def)
  have left: "frees pre = frees pre' @ [p]" "set pre' \<subseteq> set pre" if J: "joins_left pre"
  proof -
    obtain pre2 x k where "pre = pre2 @ [(x, k, False)]" "frees pre = frees pre2 @ [x]" by (rule joins_leftE[OF J i(3)])
    then show "frees pre = frees pre' @ [p]" "set pre' \<subseteq> set pre" using J by (auto simp: pre'_def p_def before_def)
  qed
  have sub: "set pre' \<subseteq> set pre" "set post' \<subseteq> set post" using left(2) by (auto simp: pre'_def post'_def joins_right_def dest: list.set_sel(2))
  have notp: "x \<noteq> p" if "x \<in> set (x0 # frees pre' @ frees post')" "joins_left pre \<or> x \<in> set (frees post')" for x
  proof -
    have "p \<in> set (x0 # frees pre)" by (simp add: p_def before_def x0_def) 
    moreover have "set (frees post') \<subseteq> set (frees post)" using sub(2) by (fastforce simp: frees_in)
    ultimately show ?thesis using that dist left(1) by (cases "joins_left pre") auto
  qed
  have "block_ok m' (x, k, u)" if x: "(x, k, u) \<in> set (pre' @ post')" for x k u
  proof -
    have x': "(x, k, u) \<in> set (pre @ post)" using x sub by auto
    then have ok: "block_ok (hmem h) (x, k, u)" by (rule bspec[OF i(5)[unfolded list_all_iff]])
    show ?thesis
    proof (cases "x = p")
      case True
      have "(p, k, u) \<in> set (pre @ (b, n, True) # post)" using x' True by auto
      then have "\<not> u" using before_not_used[OF i(1,2)] by (simp add: p_def)
      moreover have "\<not> joins_left pre" using notp[of p] x True \<open>\<not> u\<close> by (auto simp: frees_in)
      ultimately show ?thesis using block_ok_other[OF ok] np True by metis
    qed (use block_ok_other[OF ok] far[OF x'] in metis)
  qed
  then have "list_all (block_ok m') (pre' @ post')" by (auto simp: list_all_iff simp del: block_ok_simp)
  then have blocks: "list_all (block_ok m') (free_layout pre b n post)" using B(1) by (simp add: lay)
  have ch: "chain (hmem h) x0 (frees pre) (hd (frees post @ [e]))" "frees post \<noteq> [] \<longrightarrow> chain (hmem h) (hd (frees post)) (tl (frees post)) e"
    using i(6) by (simp_all add: chain_cat x0_def)
  have free_far: "nx m' x = nx (hmem h) x" if x: "x \<in> set (frees pre') \<or> x \<in> set (frees post')" "x \<noteq> p" for x
  proof -
    obtain k where "(x, k, False) \<in> set (pre @ post)" using x(1) sub by (auto simp: frees_in)
    then show ?thesis using far x(2) by blast
  qed
  have chain1: "chain m' x0 (frees pre') (b - l)"
  proof (cases "joins_left pre")
    case True
    then have "chain (hmem h) x0 (frees pre') p" using ch(1) left(1) by (simp add: chain_append)
    then show ?thesis using Bp True notp x0 free_far by (auto intro!: chain_move[of "hmem h" x0])
  next
    case False
    then have e: "pre' = pre" "b - l = b" by (simp_all add: pre'_def l_def)
    have last: "last (x0 # frees pre) = p" by (simp add: p_def before_def x0_def)
    show ?thesis unfolding e
      by (rule chain_relink[OF ch(1)], unfold last) (use np False x0 free_far e dist in auto)
  qed
  have "frees post' \<noteq> [] \<longrightarrow> chain (hmem h) (hd (frees post')) (tl (frees post')) e"
  proof (cases "joins_right post")
    case True
    then obtain post2 k where post: "post = (b + n, k, False) # post2" by (rule joins_rightE[OF _ i(4)])
    then have "chain (hmem h) (b + n) (frees post') e" using ch(2) True by (simp add: post'_def)
    then show ?thesis using chain_tail by blast
  qed (use ch(2) in \<open>simp add: post'_def\<close>)
  moreover have "chain m' y ys e" if "chain (hmem h) y ys e" "frees post' = y # ys" for y ys
    using notp free_far that(2) by (intro chain_move[OF that(1)]) auto
  ultimately have chain2: "chain m' (b - l) (frees post') e" using B(2) by (cases "frees post'") (simp_all add: chain_tail[of m' "b - l"])
  have "chain m' x0 (frees (free_layout pre b n post)) e" using chain1 chain2 by (simp add: lay chain_append)
  moreover have "nx m' e = 0 \<and> sz m' e = 0" using other ax en by simp
  moreover have "sz m' x0 = 0"
  proof (cases "x0 = p")
    case True
    then have "\<not> joins_left pre" using left(1) dist by auto
    then show ?thesis using np i(7) True by (simp add: x0_def)
  qed (use x0 i(7) in \<open>simp add: x0_def\<close>)
  moreover have "keeps_used (pre @ post) h (h\<lparr>hmem := m'\<rparr>)" unfolding keeps_used_def
  proof (intro allI impI)
    fix x k c assume x: "(x, k, True) \<in> set (pre @ post) \<and> x \<le> c \<and> c < x + k"
    then have x': "(x, k, True) \<in> set (pre @ (b, n, True) # post)" by auto
    have "c < b \<or> b + 8 \<le> c" using x laid_in[OF i(3), of x k True] laid_in[OF i(4), of x k True] i(9) by auto
    then show "hmem (h\<lparr>hmem := m'\<rparr>) (of_nat c) = hmem h (of_nat c)" using bytes before_bytes[OF i(1,2) x', of c] x by (simp add: p_def)
  qed
  moreover note blocks
  ultimately show ?thesis using run free_layout_laid[OF i(2)] free_layout_apart[OF ap] fr free_layout_sum[of pre b n post] i(1)
    by (intro exI[of _ "h\<lparr>hmem := m'\<rparr>"]) (simp add: heap_inv_def placed_def x0_def)
qed

lemma free_spec:
  assumes inv: "heap_inv s e (pre @ (b, n, True) # post) h"
  shows "\<exists>h'. vPortFree (of_nat (b + 8)) h = Some h' \<and> heap_inv s e (free_layout pre b n post) h' \<and> keeps_used (pre @ post) h h'"
proof -
  note i = heap_invD[OF inv]
  have inb: "(b, n, True) \<in> set (pre @ (b, n, True) # post)" by simp
  have le: "b + n \<le> e" "s \<le> b" "0 < b" "16 \<le> n" "b + 8 < 2 ^ 32" "n < 2 ^ 31" using laid_in[OF i(2) inb] heads_apart[OF i(1,2) inb] i(10) by auto
  have szb: "sz (hmem h) b = n + 2 ^ 31" "nx (hmem h) b = 0" using i(3) by simp_all
  define m where "m = set_size (of_nat b) (of_nat n) (hmem h)"
  have "unat (xBlockSize (hmem h) (of_nat b)) = n + 2 ^ 31" using szb(1) by (simp add: sz_def)
  from clear_allocated[OF this] have "xBlockSize (hmem h) (of_nat b) AND NOT heapBLOCK_ALLOCATED_BITMASK = of_nat n" by (metis of_nat_unat ucast_id)
  then have m: "heapFREE_BLOCK (of_nat b) (hmem h) = m" by (simp add: heapFREE_BLOCK_def m_def)
  have mb: "sz m b = n" using le by (simp add: m_def unat_small)
  then have xb: "xBlockSize m (of_nat b) = of_nat n" by (simp add: header_words)
  have other: "nx m x = nx (hmem h) x" "sz m x = sz (hmem h) x" if "apart b x" for x using header_other[OF that] by (simp_all add: m_def)
  have x0: "apart b (unat (xStart h))" "apart b e" using placed_apart[OF i(1), of b] heads_apart(1)[OF i(1,2) inb] le by (auto simp: apart_sym)
  define h1 where "h1 = h\<lparr>hmem := m, xFreeBytesRemaining := xFreeBytesRemaining h + of_nat n\<rparr>"
  have "block_ok m (x, k, u)" if x: "(x, k, u) \<in> set (pre @ post)" for x k u
  proof -
    have "block_ok (hmem h) (x, k, u)" using x by (intro bspec[OF i(3)[unfolded list_all_iff]]) auto
    then show ?thesis using block_ok_other other apart_neighbours(1)[OF i(1,2) x] by metis
  qed
  then have "list_all (block_ok m) (pre @ post)" by (auto simp: list_all_iff simp del: block_ok_simp)
  moreover have "chain m (unat (xStart h)) (frees pre @ frees post) e"
  proof (rule chain_move)
    show "chain (hmem h) (unat (xStart h)) (frees pre @ frees post) e" using i(4) by simp
    show "nx m x = nx (hmem h) x" if "x \<in> set (frees pre @ frees post)" for x
    proof -
      obtain k where "(x, k, False) \<in> set (pre @ post)" using \<open>x \<in> _\<close> by (auto simp: frees_in)
      then show ?thesis using other(1) apart_neighbours(1)[OF i(1,2)] by blast
    qed
  qed (use other x0 in simp)
  ultimately have t: "to_insert s e pre b n post h1" using i(1,2,5) other(2)[OF x0(1)] mb by (simp add: to_insert_def h1_def placed_def)
  have "free_sum (pre @ (b, n, True) # post) + n = free_sum (free_layout pre b n post)" by (simp add: free_layout_sum)
  also have "\<dots> \<le> e" using free_sum_le[OF free_layout_laid[OF i(2)]] by simp
  finally have fr: "unat (xFreeBytesRemaining h1) = free_sum (pre @ (b, n, True) # post) + n" using i(9,10) le by (simp add: h1_def unat_plus_if' unat_small)
  obtain h' where h': "prvInsertBlockIntoFreeList (of_nat b) h1 = Some h'" "heap_inv s e (free_layout pre b n post) h'" "keeps_used (pre @ post) h1 h'"
    using insert_spec[OF t _ _ i(8) fr] other[OF x0(2)] i(6,7) by (auto simp: h1_def)
  have ku: "keeps_used (pre @ post) h h1" unfolding keeps_used_def
  proof (intro allI impI)
    fix x k c assume x: "(x, k, True) \<in> set (pre @ post) \<and> x \<le> c \<and> c < x + k"
    have l: "laid s pre b" "laid (b + n) post e" using i(2) by (auto simp: laid_append)
    have "c < b \<or> b + 8 \<le> c" "c < 2 ^ 32" using x laid_in[OF l(1), of x k True] laid_in[OF l(2), of x k True] le i(10) by auto
    then show "hmem h1 (of_nat c) = hmem h (of_nat c)" using byte_other(2)[of c b] le by (simp add: h1_def m_def)
  qed
  have "heapVALIDATE_BLOCK_POINTER h (of_nat b)" using le by (intro placed_valid[OF i(1)]) simp_all
  moreover have "heapBLOCK_IS_ALLOCATED (hmem h) (of_nat b)" using szb(1) by (simp add: heapBLOCK_IS_ALLOCATED_def allocated_bit sz_def)
  moreover have "pxNextFreeBlock (hmem h) (of_nat b) = 0" using szb(2) by (simp add: header_words)
  moreover have "(of_nat (b + 8) :: u32) \<noteq> 0" "of_nat (b + 8) - xHeapStructSize = (of_nat b :: u32)" using unat_small[OF le(5)] by (auto simp: unat_eq_0[symmetric] simp del: of_nat_add) simp
  ultimately have "vPortFree (of_nat (b + 8)) h = map_option (\<lambda>h2. h2\<lparr>xNumberOfSuccessfulFrees := xNumberOfSuccessfulFrees h2 + 1\<rparr>) (prvInsertBlockIntoFreeList (of_nat b) h1)"
    by (simp only: vPortFree_def Let_def m xb h1_def if_False if_True simp_thms)
  then show ?thesis using h' ku by (auto simp: heap_inv_def placed_def keeps_used_def)
qed


subsection \<open>Statistics\<close>

lemma stats_loop_spec:
  assumes "placed s e h" "chain (hmem h) p fs e" "\<And>x. x \<in> set fs \<Longrightarrow> x < e"
  shows "stats_loop h (of_nat (hd (fs @ [e]))) c mx mn =
    Some (c + of_nat (length fs), fold (\<lambda>x k. max k (xBlockSize (hmem h) (of_nat x))) fs mx, fold (\<lambda>x k. min k (xBlockSize (hmem h) (of_nat x))) fs mn)"
  using assms(2,3)
proof (induction fs arbitrary: p c mx mn)
  case Nil
  have "pxEnd h = of_nat e" using assms(1) by (simp add: placed_def)
  then show ?case by (subst stats_loop.simps) simp
next
  case (Cons x xs)
  have mm: "(if a < n then n else a) = max a n" "(if n < a then n else a) = min a n" for a n :: u32 by (auto simp: max_def min_def)
  have "x < e" "e < 2 ^ 32" using Cons.prems(2)[of x] assms(1) by (auto simp: placed_def)
  then have "of_nat x \<noteq> pxEnd h" using nat_word_eq[of x e] assms(1) by (auto simp: placed_def)
  moreover have "pxNextFreeBlock (hmem h) (of_nat x) = of_nat (hd (xs @ [e]))" using Cons.prems(1) chain_first by (auto simp: header_words)
  ultimately have "stats_loop h (of_nat x) c mx mn = stats_loop h (of_nat (hd (xs @ [e]))) (c + 1) (max mx (xBlockSize (hmem h) (of_nat x))) (min mn (xBlockSize (hmem h) (of_nat x)))"
    by (subst stats_loop.simps) (simp add: mm Let_def)
  then show ?case using Cons.IH[of x] Cons.prems by (simp add: add.commute add.left_commute)
qed

text \<open>The statistics count the free blocks and give the largest and the smallest.\<close>

lemma heap_stats:
  assumes "heap_inv s e bs h"
  shows "vPortGetHeapStats h = Some \<lparr>xAvailableHeapSpaceInBytes = of_nat (free_sum bs), xSizeOfLargestFreeBlockInBytes = fold (\<lambda>x k. max k (xBlockSize (hmem h) (of_nat x))) (frees bs) 0,
    xSizeOfSmallestFreeBlockInBytes = fold (\<lambda>x k. min k (xBlockSize (hmem h) (of_nat x))) (frees bs) heapSIZE_MAX, xNumberOfFreeBlocks = of_nat (length (frees bs)),
    stat_xMinimumEverFreeBytesRemaining = xMinimumEverFreeBytesRemaining h, stat_xNumberOfSuccessfulAllocations = xNumberOfSuccessfulAllocations h,
    stat_xNumberOfSuccessfulFrees = xNumberOfSuccessfulFrees h\<rparr>"
proof -
  note i = heap_invD[OF assms]
  have first: "pxNextFreeBlock (hmem h) (xStart h) = of_nat (hd (frees bs @ [e]))" using header_words(1)[of "hmem h" "unat (xStart h)"] chain_first[OF i(4)] by simp
  have in_heap: "s \<le> x \<and> x < e" if "x \<in> set (frees bs)" for x using that by (auto simp: frees_in dest!: laid_in[OF i(2)])
  have "0 < s" "s \<le> e" using i(1) by (simp_all add: placed_def)
  then have "0 < hd (frees bs @ [e])" "hd (frees bs @ [e]) < 2 ^ 32" using in_heap[of "hd (frees bs)"] i(10) by (cases "frees bs"; auto)+
  then have "(of_nat (hd (frees bs @ [e])) :: u32) \<noteq> 0" using nat_word_eq[of "hd (frees bs @ [e])" 0] by simp
  moreover have "xFreeBytesRemaining h = of_nat (free_sum bs)" unfolding i(9)[symmetric] by simp
  ultimately show ?thesis using stats_loop_spec[OF i(1,4), of 0 0 heapSIZE_MAX] in_heap by (simp add: vPortGetHeapStats_def first)
qed

subsection \<open>The first call\<close>

text \<open>Before the first call: the array has a place in memory and some room, the head of the list lies outside of it.\<close>

definition heap_start :: "heap \<Rightarrow> bool" where
  "heap_start h \<longleftrightarrow> pxEnd h = 0 \<and> 0 < unat (ucHeap h) \<and> 64 \<le> unat (configTOTAL_HEAP_SIZE h) \<and> configTOTAL_HEAP_SIZE h < 2 ^ 31 \<and>
     uint (ucHeap h) + uint (configTOTAL_HEAP_SIZE h) < 2 ^ 32 \<and> uint (xStart h) + 8 \<le> 2 ^ 32 \<and>
     (unat (xStart h) + 8 \<le> unat (ucHeap h) \<or> unat (ucHeap h) + unat (configTOTAL_HEAP_SIZE h) \<le> unat (xStart h))"

definition heap_base :: "heap \<Rightarrow> nat" where "heap_base h = (unat (ucHeap h) + 7) div 8 * 8"

definition heap_limit :: "heap \<Rightarrow> nat" where "heap_limit h = (unat (ucHeap h) + unat (configTOTAL_HEAP_SIZE h) - 8) div 8 * 8"

lemma round_up: "(x :: nat) \<le> (x + 7) div 8 * 8" "(x + 7) div 8 * 8 \<le> x + 7" "8 dvd (x + 7) div 8 * 8" "8 dvd x \<Longrightarrow> (x + 7) div 8 * 8 = x"
  using div_mult_mod_eq[of "x + 7" 8] mod_less_divisor[of 8 "x + 7"] by (linarith, linarith, simp, elim dvdE, simp)

lemma round_down: "(x :: nat) div 8 * 8 \<le> x" "x < x div 8 * 8 + 8" "8 dvd x div 8 * 8"
  using div_mult_mod_eq[of x 8] mod_less_divisor[of 8 x] by (linarith, linarith, simp)

lemma heap_startD:
  assumes "heap_start h"
  shows "0 < unat (ucHeap h)" "64 \<le> unat (configTOTAL_HEAP_SIZE h)" "unat (configTOTAL_HEAP_SIZE h) < 2 ^ 31" "unat (ucHeap h) + unat (configTOTAL_HEAP_SIZE h) < 2 ^ 32"
    "unat (xStart h) + 8 \<le> 2 ^ 32" "unat (xStart h) + 8 \<le> unat (ucHeap h) \<or> unat (ucHeap h) + unat (configTOTAL_HEAP_SIZE h) \<le> unat (xStart h)" "pxEnd h = 0"
proof -
  have "uint w = int (unat w)" for w :: u32 by simp
  note u = this[of "ucHeap h"] this[of "configTOTAL_HEAP_SIZE h"] this[of "xStart h"]
  have w: "uint (ucHeap h) + uint (configTOTAL_HEAP_SIZE h) < 2 ^ 32" "uint (xStart h) + 8 \<le> 2 ^ 32" using assms by (simp_all add: heap_start_def)
  have lt: "int a + int b < 2 ^ 32 \<Longrightarrow> a + b < 2 ^ 32" for a b :: nat by simp
  have le: "int a + 8 \<le> 2 ^ 32 \<Longrightarrow> a + 8 \<le> 2 ^ 32" for a :: nat by simp
  from lt[OF w(1)[unfolded u]] le[OF w(2)[unfolded u]]
  have "unat (ucHeap h) + unat (configTOTAL_HEAP_SIZE h) < 2 ^ 32 \<and> unat (xStart h) + 8 \<le> 2 ^ 32" by simp
  then show "0 < unat (ucHeap h)" "64 \<le> unat (configTOTAL_HEAP_SIZE h)" "unat (configTOTAL_HEAP_SIZE h) < 2 ^ 31" "unat (ucHeap h) + unat (configTOTAL_HEAP_SIZE h) < 2 ^ 32"
    "unat (xStart h) + 8 \<le> 2 ^ 32" "unat (xStart h) + 8 \<le> unat (ucHeap h) \<or> unat (ucHeap h) + unat (configTOTAL_HEAP_SIZE h) \<le> unat (xStart h)" "pxEnd h = 0"
    using assms by (auto simp: heap_start_def word_less_nat_alt)
qed

lemma init_words:
  assumes "heap_start h"
  shows "\<exists>m. prvHeapInit h = h\<lparr>hmem := m, pxEnd := of_nat (heap_limit h), xMinimumEverFreeBytesRemaining := of_nat (heap_limit h - heap_base h), xFreeBytesRemaining := of_nat (heap_limit h - heap_base h)\<rparr> \<and>
    m = set_next (of_nat (heap_base h)) (of_nat (heap_limit h)) (set_size (of_nat (heap_base h)) (of_nat (heap_limit h - heap_base h))
      (set_next (of_nat (heap_limit h)) 0 (set_size (of_nat (heap_limit h)) 0 (set_size (xStart h) 0 (set_next (xStart h) (of_nat (heap_base h)) (hmem h))))))"
proof -
  note d = heap_startD[OF assms]
  define u where "u = ucHeap h"
  define t where "t = configTOTAL_HEAP_SIZE h"
  define st where "st = (if u AND portBYTE_ALIGNMENT_MASK \<noteq> 0 then (u + (portBYTE_ALIGNMENT - 1)) AND NOT portBYTE_ALIGNMENT_MASK else u)"
  have "unat (u + 7) = unat u + 7" using d by (simp add: u_def unat_plus_if')
  then have "unat st = heap_base h" using round_up(4)[of "unat u"] by (auto simp: st_def heap_base_def u_def[symmetric] align_down align_zero portBYTE_ALIGNMENT_def)
  then have st: "st = of_nat (heap_base h)" by (metis of_nat_unat ucast_id)
  have "st + (if u AND portBYTE_ALIGNMENT_MASK \<noteq> 0 then t - (st - u) else t) - xHeapStructSize = u + t - 8" by (simp add: st_def)
  moreover have "unat (u + t - 8) = unat u + unat t - 8"
  proof -
    have "unat (u + t) = unat u + unat t" using d by (simp add: u_def t_def unat_plus_if')
    then show ?thesis using d by (subst unat_sub) (simp_all add: u_def t_def word_le_nat_alt)
  qed
  ultimately have "unat ((st + (if u AND portBYTE_ALIGNMENT_MASK \<noteq> 0 then t - (st - u) else t) - xHeapStructSize) AND NOT portBYTE_ALIGNMENT_MASK) = heap_limit h"
    by (simp add: align_down heap_limit_def u_def t_def)
  then have en: "(st + (if u AND portBYTE_ALIGNMENT_MASK \<noteq> 0 then t - (st - u) else t) - xHeapStructSize) AND NOT portBYTE_ALIGNMENT_MASK = of_nat (heap_limit h)"
    by (metis of_nat_unat ucast_id)
  have "heap_base h \<le> heap_limit h" using d round_up(2)[of "unat u"] round_down(2)[of "unat u + unat t - 8"] by (simp add: heap_base_def heap_limit_def u_def t_def)
  then have di: "(of_nat (heap_limit h) - of_nat (heap_base h) :: u32) = of_nat (heap_limit h - heap_base h)" by simp
  show ?thesis unfolding prvHeapInit_def Let_def u_def[symmetric] t_def[symmetric] st_def[symmetric] unfolding en unfolding st di by simp
qed

lemma init_inv:
  assumes "heap_start h"
  shows "heap_inv (heap_base h) (heap_limit h) [(heap_base h, heap_limit h - heap_base h, False)] (prvHeapInit h)"
proof -
  note d = heap_startD[OF assms]
  define s where "s = heap_base h"
  define e where "e = heap_limit h"
  have b: "unat (ucHeap h) \<le> s" "s \<le> unat (ucHeap h) + 7" "8 dvd s" "e + 8 \<le> unat (ucHeap h) + unat (configTOTAL_HEAP_SIZE h)" "unat (ucHeap h) + unat (configTOTAL_HEAP_SIZE h) < e + 16" "8 dvd e"
    using d round_up[of "unat (ucHeap h)"] round_down[of "unat (ucHeap h) + unat (configTOTAL_HEAP_SIZE h) - 8"] by (auto simp: s_def e_def heap_base_def heap_limit_def)
  have n: "16 \<le> e - s" "8 dvd e - s" "s \<le> e" "e - s < 2 ^ 31" "0 < s" "e < 2 ^ 32" using b d by auto
  define x0 where "x0 = unat (xStart h)"
  have ap: "apart x0 s" "apart x0 e" "apart s e" "apart s x0" "apart e x0" "apart e s" using b d n by (auto simp: apart_def x0_def)
  obtain m where m: "prvHeapInit h = h\<lparr>hmem := m, pxEnd := of_nat e, xMinimumEverFreeBytesRemaining := of_nat (e - s), xFreeBytesRemaining := of_nat (e - s)\<rparr>"
    "m = set_next (of_nat s) (of_nat e) (set_size (of_nat s) (of_nat (e - s)) (set_next (of_nat e) 0 (set_size (of_nat e) 0 (set_size (of_nat x0) 0 (set_next (of_nat x0) (of_nat s) (hmem h))))))"
    using init_words[OF assms, folded s_def e_def] by (auto simp: x0_def)
  note f = header_other[OF ap(1)] header_other[OF ap(2)] header_other[OF ap(3)] header_other[OF ap(4)] header_other[OF ap(5)] header_other[OF ap(6)]
  have u: "unat (of_nat s :: u32) = s" "unat (of_nat e :: u32) = e" "unat (of_nat (e - s) :: u32) = e - s" using n by (auto intro!: unat_small simp del: of_nat_diff)
  have "sz m s = e - s" "nx m s = e" "nx m x0 = s" "sz m x0 = 0" "sz m e = 0" "nx m e = 0" unfolding m(2) using u by (simp_all add: f del: of_nat_diff)
  then show ?thesis unfolding s_def[symmetric] e_def[symmetric] m(1) using n b d u
    by (simp add: heap_inv_def placed_def x0_def[symmetric] del: of_nat_diff)
qed


subsection \<open>Any sequence of calls\<close>

text \<open>
  What the firmware does with the heap: it allocates, frees what it has allocated, and writes into what it has allocated. The second component lists the pointers that are in use, each with
  the size that was asked for.
\<close>

datatype heap_event = Malloc u32 | Calloc u32 u32 | Free_Block nat | Write_Byte u32 u8 | Reset_Minimum

fun heap_step :: "heap_event \<Rightarrow> heap \<times> (u32 \<times> u32) list \<Rightarrow> (heap \<times> (u32 \<times> u32) list) option" where
  "heap_step (Malloc n) (h, live) = map_option (\<lambda>(p, h'). (h', if p = 0 then live else (p, n) # live)) (pvPortMalloc n h)"
| "heap_step (Calloc a b) (h, live) = map_option (\<lambda>(p, h'). (h', if p = 0 then live else (p, a * b) # live)) (pvPortCalloc a b h)"
| "heap_step (Free_Block i) (h, live) =
     (if i < length live then map_option (\<lambda>h'. (h', take i live @ drop (Suc i) live)) (vPortFree (fst (live ! i)) h) else Some (h, live))"
| "heap_step (Write_Byte a v) (h, live) = Some (if list_ex (\<lambda>(p, n). a - p < n) live then h\<lparr>hmem := (hmem h)(a := v)\<rparr> else h, live)"
| "heap_step Reset_Minimum (h, live) = Some (xPortResetHeapMinimumEverFreeHeapSize h, live)"

fun heap_run :: "heap_event list \<Rightarrow> heap \<times> (u32 \<times> u32) list \<Rightarrow> (heap \<times> (u32 \<times> u32) list) option" where
  "heap_run [] c = Some c"
| "heap_run (ev # evs) c = (case heap_step ev c of None \<Rightarrow> None | Some c' \<Rightarrow> heap_run evs c')"

text \<open>The pointers in use are those of the allocated blocks, which are large enough.\<close>

definition live_ok :: "(u32 \<times> u32) list \<Rightarrow> block list \<Rightarrow> bool" where
  "live_ok live bs \<longleftrightarrow> distinct (map fst live) \<and> (\<forall>x k. (x, k, True) \<in> set bs \<longrightarrow> of_nat (x + 8) \<in> fst ` set live) \<and>
     (\<forall>p n. (p, n) \<in> set live \<longrightarrow> (\<exists>x k. (x, k, True) \<in> set bs \<and> p = of_nat (x + 8) \<and> unat n + 8 \<le> k))"

definition run_inv :: "nat \<Rightarrow> nat \<Rightarrow> heap \<Rightarrow> (u32 \<times> u32) list \<Rightarrow> bool" where
  "run_inv s e h live \<longleftrightarrow> (heap_start h \<and> heap_base h = s \<and> heap_limit h = e \<and> live = []) \<or> (\<exists>bs. heap_inv s e bs h \<and> live_ok live bs)"

lemma used_take: "(x, k, True) \<in> set (take_layout w pre b n post) \<longleftrightarrow> (x, k, True) \<in> set (pre @ post) \<or> (x = b \<and> k = (if splits w n then w else n))"
  by (auto simp: take_layout_def)

lemma used_free: "(x, k, True) \<in> set (free_layout pre b n post) \<longleftrightarrow> (x, k, True) \<in> set (pre @ post)"
proof -
  have "(x, k, True) \<in> set (if joins_left pre then butlast pre else pre) \<longleftrightarrow> (x, k, True) \<in> set pre"
  proof (cases "joins_left pre")
    case True
    then have e: "pre = butlast pre @ [last pre]" "(x, k, True) \<noteq> last pre" using used_simp[of x k True] by (force simp: joins_left_def)+
    have "(x, k, True) \<in> set (butlast pre @ [last pre]) \<longleftrightarrow> (x, k, True) \<in> set (butlast pre)" using e(2) by auto
    then show ?thesis using True e(1) by simp
  qed simp
  moreover have "(x, k, True) \<in> set (if joins_right post then tl post else post) \<longleftrightarrow> (x, k, True) \<in> set post" by (cases post) (auto simp: joins_right_def)
  ultimately show ?thesis by (auto simp: free_layout_def Let_def)
qed

lemma pointer_inject:
  assumes "heap_inv s e bs h" "(x, k, u) \<in> set bs" "(y, l, v) \<in> set bs" "(of_nat (x + 8) :: u32) = of_nat (y + 8)"
  shows "(x, k, u) = (y, l, v)"
proof -
  note i = heap_invD[OF assms(1)]
  have "x + 8 < 2 ^ 32" "y + 8 < 2 ^ 32" using laid_in[OF i(2) assms(2)] laid_in[OF i(2) assms(3)] i(10) by auto
  then have "x = y" using nat_word_eq[of "x + 8" "y + 8"] assms(4) by simp
  then show ?thesis using laid_order[OF i(2) assms(2,3)] laid_in[OF i(2) assms(2)] laid_in[OF i(2) assms(3)] by auto
qed

text \<open>The bytes that a pointer stands for lie in its block, behind the header.\<close>

lemma live_block:
  assumes "heap_inv s e bs h" "live_ok live bs" "(p, n) \<in> set live"
  obtains x k where "(x, k, True) \<in> set bs" "p = of_nat (x + 8)" "unat p = x + 8" "unat n + 8 \<le> k" "s \<le> x" "x + k \<le> e" "8 dvd x"
proof -
  note i = heap_invD[OF assms(1)]
  obtain x k where x: "(x, k, True) \<in> set bs" "p = of_nat (x + 8)" "unat n + 8 \<le> k" using assms(2,3) unfolding live_ok_def by blast
  have l: "s \<le> x" "x + k \<le> e" "16 \<le> k" using laid_in[OF i(2) x(1)] by auto
  then have "unat p = x + 8" unfolding x(2) using i(10) by (intro unat_small) simp
  moreover have "8 dvd x" using laid_aligned[OF i(2) _ x(1)] i(1) by (simp add: placed_def)
  ultimately show thesis using that x l by blast
qed

lemma live_ok_add:
  assumes "live_ok live bs" "of_nat (b + 8) \<notin> fst ` set live" "\<And>x l. (x, l, True) \<in> set bs' \<longleftrightarrow> (x, l, True) \<in> set bs \<or> (x = b \<and> l = j)" "unat n + 8 \<le> j"
  shows "live_ok ((of_nat (b + 8), n) # live) bs'"
proof -
  note d = assms(1)[unfolded live_ok_def]
  have "of_nat (x + 8) \<in> fst ` set ((of_nat (b + 8), n) # live)" if "(x, k, True) \<in> set bs'" for x k using that d assms(3) by auto
  moreover have "\<exists>x k. (x, k, True) \<in> set bs' \<and> p = of_nat (x + 8) \<and> unat i + 8 \<le> k" if "(p, i) \<in> set ((of_nat (b + 8), n) # live)" for p i
  proof (cases "(p, i) = (of_nat (b + 8), n)")
    case True
    then show ?thesis using assms(3,4) by blast
  next
    case False
    then show ?thesis using that d assms(3) by (metis set_ConsD)
  qed
  ultimately show ?thesis unfolding live_ok_def using d assms(2) by (simp del: of_nat_add)
qed

lemma keeps_live:
  assumes "keeps_used bs h h'" "(x, j, True) \<in> set bs" "q = of_nat (x + 8)" "unat l + 8 \<le> j" "c < unat l"
  shows "hmem h' (q + of_nat c) = hmem h (q + of_nat c)"
proof -
  have "x \<le> x + 8 + c" "x + 8 + c < x + j" using assms(4,5) by linarith+
  then have "hmem h' (of_nat (x + 8 + c)) = hmem h (of_nat (x + 8 + c))" using assms(1,2) unfolding keeps_used_def by blast
  then show ?thesis using assms(3) by (simp add: add.assoc)
qed

definition kept :: "(u32 \<times> u32) list \<Rightarrow> heap \<Rightarrow> heap \<Rightarrow> bool" where
  "kept live h h' \<longleftrightarrow> (\<forall>q k c. (q, k) \<in> set live \<and> c < unat k \<longrightarrow> hmem h' (q + of_nat c) = hmem h (q + of_nat c))"

lemma malloc_live:
  assumes inv: "heap_inv s e bs h" and live: "live_ok live bs"
  shows "\<exists>p h' bs'. pvPortMalloc n h = Some (p, h') \<and> heap_inv s e bs' h' \<and> live_ok (if p = 0 then live else (p, n) # live) bs' \<and> kept live h h'"
proof (cases "wanted_size n = 0 \<or> (\<forall>x k. (x, k, False) \<in> set bs \<longrightarrow> k < unat (wanted_size n))")
  case True
  have "heap_inv s e bs (h\<lparr>hook_called := True\<rparr>)" using inv by (simp add: heap_inv_def placed_def)
  then show ?thesis using malloc_fails[OF inv True] live by (auto simp: kept_def)
next
  case False
  then obtain pre b k post h' where m: "bs = pre @ (b, k, False) # post" "unat (wanted_size n) \<le> k" "pvPortMalloc n h = Some (of_nat (b + 8), h')"
    "heap_inv s e (take_layout (unat (wanted_size n)) pre b k post) h'" "keeps_used bs h h'"
    using malloc_succeeds[OF inv, of n] by (auto simp: not_less)
  let ?bs' = "take_layout (unat (wanted_size n)) pre b k post"
  have b: "(b, k, False) \<in> set bs" by (simp add: m(1))
  have "b + 8 < 2 ^ 32" using laid_in[OF heap_invD(2)[OF inv] b] heap_invD(10)[OF inv] by auto
  then have p0: "(of_nat (b + 8) :: u32) \<noteq> 0" using unat_small[of "b + 8"] by (auto simp: unat_eq_0[symmetric] simp del: of_nat_add)
  have fresh: "of_nat (b + 8) \<notin> fst ` set live"
  proof
    assume "of_nat (b + 8) \<in> fst ` set live"
    then obtain q where "(of_nat (b + 8), q) \<in> set live" by auto
    then obtain x l where "(x, l, True) \<in> set bs" "of_nat (b + 8) = (of_nat (x + 8) :: u32)" using live unfolding live_ok_def by blast
    then show False using pointer_inject[OF inv b] by blast
  qed
  have w: "unat n + 8 \<le> unat (wanted_size n)" using False wanted_size_unat[of n] by (auto simp: unat_eq_0[symmetric] split: if_splits)
  have u: "(x, l, True) \<in> set ?bs' \<longleftrightarrow> (x, l, True) \<in> set bs \<or> (x = b \<and> l = (if splits (unat (wanted_size n)) k then unat (wanted_size n) else k))" for x l
    unfolding used_take by (auto simp: m(1))
  have "live_ok ((of_nat (b + 8), n) # live) ?bs'"
    by (rule live_ok_add[OF live fresh u]) (use w m(2) in simp)
  moreover have "hmem h' (q + of_nat c) = hmem h (q + of_nat c)" if lv: "(q, l) \<in> set live" "c < unat l" for q l c
  proof -
    obtain x j where x: "(x, j, True) \<in> set bs" "q = of_nat (x + 8)" "unat l + 8 \<le> j" by (rule live_block[OF inv live lv(1)])
    then show ?thesis using keeps_live[OF m(5)] lv(2) by blast
  qed
  ultimately show ?thesis using m(3,4) p0 by (intro exI[of _ "of_nat (b + 8)"] exI[of _ h'] exI[of _ ?bs']) (simp add: kept_def del: of_nat_add, blast)
qed

lemma malloc_first:
  assumes "heap_start h"
  shows "pvPortMalloc n h = pvPortMalloc n (prvHeapInit h)"
  using heap_end(2)[OF init_inv[OF assms]] heap_startD(7)[OF assms] by (simp add: pvPortMalloc_def)

lemma malloc_run:
  assumes "run_inv s e h live"
  shows "\<exists>p h' bs. pvPortMalloc n h = Some (p, h') \<and> heap_inv s e bs h' \<and> live_ok (if p = 0 then live else (p, n) # live) bs \<and> kept live h h'"
proof (cases "\<exists>bs. heap_inv s e bs h \<and> live_ok live bs")
  case True
  then show ?thesis using malloc_live[where n = n] by blast
next
  case False
  then have st: "heap_start h" "heap_base h = s" "heap_limit h = e" "live = []" using assms by (auto simp: run_inv_def)
  have "live_ok [] [(s, e - s, False)]" by (simp add: live_ok_def)
  from malloc_live[OF init_inv[OF st(1), unfolded st(2,3)] this, of n] show ?thesis unfolding malloc_first[OF st(1), symmetric] st(4) by (auto simp: kept_def)
qed

text \<open>Writing into an allocated block changes no header.\<close>

lemma write_inv:
  assumes inv: "heap_inv s e bs h" and x: "(x, k, True) \<in> set bs" "x + 8 \<le> c" "c < x + k"
  shows "heap_inv s e bs (h\<lparr>hmem := (hmem h)(of_nat c := v)\<rparr>)"
proof -
  note i = heap_invD[OF inv]
  define m where "m = (hmem h)(of_nat c := v)"
  have c: "c < e" "c < 2 ^ 32" using laid_in[OF i(2) x(1)] x(3) i(10) by auto
  have same: "nx m y = nx (hmem h) y \<and> sz m y = sz (hmem h) y" if y: "y + 8 \<le> c \<or> c < y" "y + 8 \<le> 2 ^ 32" for y
  proof -
    have "m (of_nat y + of_nat j) = hmem h (of_nat y + of_nat j)" if j: "j < 8" for j
    proof -
      have "(of_nat (y + j) :: u32) \<noteq> of_nat c" using nat_word_eq[of "y + j" c] y j c(2) by auto
      then show ?thesis by (simp add: m_def)
    qed
    then show ?thesis using header_cong[of m y "hmem h"] by simp
  qed
  have heads: "y + 8 \<le> c \<or> c < y" "y + 8 \<le> 2 ^ 32" if "(y, l, u) \<in> set bs" for y l u
    using laid_order[OF i(2) x(1) that] laid_in[OF i(2) that] x i(10) by auto
  have "block_ok m (y, l, u)" if y: "(y, l, u) \<in> set bs" for y l u
  proof -
    have "block_ok (hmem h) (y, l, u)" using y by (rule bspec[OF i(3)[unfolded list_all_iff]])
    then show ?thesis using block_ok_other same[OF heads[OF y]] by metis
  qed
  then have blocks: "list_all (block_ok m) bs" by (auto simp: list_all_iff simp del: block_ok_simp)
  have "unat (xStart h) + 8 \<le> c \<or> c < unat (xStart h)" using i(1) laid_in[OF i(2) x(1)] x by (auto simp: placed_def)
  then have st: "nx m (unat (xStart h)) = nx (hmem h) (unat (xStart h)) \<and> sz m (unat (xStart h)) = sz (hmem h) (unat (xStart h))" using i(1) by (intro same) (simp_all add: placed_def)
  have "chain m (unat (xStart h)) (frees bs) e"
    by (rule chain_move[OF i(4)]) (use st same heads in \<open>auto simp: frees_in\<close>)
  moreover have "nx m e = nx (hmem h) e \<and> sz m e = sz (hmem h) e" using c i(10) by (intro same) auto
  ultimately show ?thesis using inv blocks st unfolding m_def[symmetric] by (simp add: heap_inv_def placed_def)
qed

lemma live_region:
  assumes inv: "heap_inv s e bs h" and live: "live_ok live bs" "(p, n) \<in> set live" and a: "a - p < n"
  obtains x k c where "(x, k, True) \<in> set bs" "x + 8 \<le> c" "c < x + k" "a = of_nat c"
proof -
  obtain x k where x: "(x, k, True) \<in> set bs" "p = of_nat (x + 8)" "unat n + 8 \<le> k" by (rule live_block[OF inv live])
  have "unat (a - p) < unat n" using a by (simp add: word_less_nat_alt)
  moreover have "a = of_nat (x + 8 + unat (a - p))" using x(2) by simp
  ultimately show thesis using that[OF x(1), of "x + 8 + unat (a - p)"] x(3) by simp
qed

lemma memset_inv:
  assumes inv: "heap_inv s e bs h" and x: "(x, k, True) \<in> set bs" and n: "i + 8 \<le> k"
  shows "heap_inv s e bs (h\<lparr>hmem := memset0 (of_nat (x + 8)) (of_nat i) (hmem h)\<rparr>)"
  using n
proof (induction i)
  case 0
  have "memset0 (of_nat (x + 8)) (of_nat 0) (hmem h) = hmem h" by (simp add: memset0_def fun_eq_iff)
  then show ?case using inv by simp
next
  case (Suc i)
  have lt: "Suc i < 2 ^ 32" using Suc.prems laid_in[OF heap_invD(2)[OF inv] x] heap_invD(10)[OF inv] by auto
  then have u: "unat (of_nat (Suc i) :: u32) = Suc i" "unat (of_nat i :: u32) = i" by (intro unat_small; simp)+
  have eq: "memset0 (of_nat (x + 8)) (of_nat (Suc i)) (hmem h) = (memset0 (of_nat (x + 8)) (of_nat i) (hmem h))(of_nat (x + 8 + i) := 0)"
  proof
    fix a :: u32
    have "a - of_nat (x + 8) < of_nat (Suc i) \<longleftrightarrow> a - of_nat (x + 8) < of_nat i \<or> a - of_nat (x + 8) = of_nat i"
      unfolding word_less_nat_alt u word_unat_eq_iff by auto
    moreover have "a - of_nat (x + 8) = of_nat i \<longleftrightarrow> a = of_nat (x + 8 + i)" by (auto simp: diff_eq_eq add.commute)
    ultimately show "memset0 (of_nat (x + 8)) (of_nat (Suc i)) (hmem h) a = ((memset0 (of_nat (x + 8)) (of_nat i) (hmem h))(of_nat (x + 8 + i) := 0)) a"
      by (simp add: memset0_def del: of_nat_add of_nat_Suc)
  qed
  show ?case unfolding eq using write_inv[OF Suc.IH x, of "x + 8 + i" 0] Suc.prems by (simp add: fun_upd_def del: of_nat_add of_nat_Suc)
qed

lemma calloc_run:
  assumes "run_inv s e h live"
  shows "\<exists>p h'. pvPortCalloc a b h = Some (p, h') \<and> run_inv s e h' (if p = 0 then live else (p, a * b) # live) \<and> kept live h h' \<and>
    (p \<noteq> 0 \<longrightarrow> (\<forall>c<unat (a * b). hmem h' (p + of_nat c) = 0))"
proof (cases "heapMULTIPLY_WILL_OVERFLOW a b")
  case True
  then show ?thesis using assms by (simp add: pvPortCalloc_def kept_def)
next
  case False
  obtain p h1 bs where m: "pvPortMalloc (a * b) h = Some (p, h1)" "heap_inv s e bs h1" "live_ok (if p = 0 then live else (p, a * b) # live) bs" "kept live h h1"
    using malloc_run[OF assms, of "a * b"] by blast
  show ?thesis
  proof (cases "p = 0")
    case True
    then show ?thesis using False m by (auto simp: pvPortCalloc_def run_inv_def)
  next
    case p: False
    have live: "live_ok ((p, a * b) # live) bs" using m(3) p by simp
    obtain x k where x: "(x, k, True) \<in> set bs" "p = of_nat (x + 8)" "unat (a * b) + 8 \<le> k" by (rule live_block[OF m(2) live, of p "a * b"]) auto
    define h2 where "h2 = h1\<lparr>hmem := memset0 p (a * b) (hmem h1)\<rparr>"
    have "heap_inv s e bs h2" using memset_inv[OF m(2) x(1,3)] x(2) by (simp add: h2_def)
    moreover have "hmem h2 (q + of_nat c) = hmem h1 (q + of_nat c)" if q: "(q, l) \<in> set live" "c < unat l" for q l c
    proof -
      have lv: "(q, l) \<in> set ((p, a * b) # live)" using q by simp
      obtain y j where y: "(y, j, True) \<in> set bs" "q = of_nat (y + 8)" "unat l + 8 \<le> j" by (rule live_block[OF m(2) live lv])
      have "q \<noteq> p" using live q(1) by (force simp: live_ok_def)
      then have "(y, j, True) \<noteq> (x, k, True)" using x(2) y(2) by auto
      then have o: "x + k \<le> y \<or> y + j \<le> x" using laid_order[OF heap_invD(2)[OF m(2)] x(1) y(1)] by auto
      have e: "y + 8 + c < 2 ^ 32" "x + 8 < 2 ^ 32" using laid_in[OF heap_invD(2)[OF m(2)] y(1)] laid_in[OF heap_invD(2)[OF m(2)] x(1)] y(3) q(2) heap_invD(10)[OF m(2)] by auto
      have "unat (a * b) \<le> unat (of_nat (y + 8 + c) - of_nat (x + 8) :: u32)" unfolding nat_diff_word[OF e(2,1)]
        using o x(3) y(3) q(2) e laid_in[OF heap_invD(2)[OF m(2)] x(1)] heap_invD(10)[OF m(2)] by auto
      then show ?thesis using x(2) y(2) by (simp add: h2_def memset0_def word_less_nat_alt not_less add.assoc)
    qed
    moreover have "hmem h2 (p + of_nat c) = 0" if "c < unat (a * b)" for c
    proof -
      have "unat (of_nat c :: u32) = c" using that unsigned_less[of "a * b", where 'a = nat] by (intro unat_small) simp
      then show ?thesis using that by (simp add: h2_def memset0_def word_less_nat_alt)
    qed
    moreover have "pvPortCalloc a b h = Some (p, h2)" using False m(1) p by (simp add: pvPortCalloc_def h2_def)
    ultimately show ?thesis using p live m(4) by (auto simp: run_inv_def kept_def)
  qed
qed

lemma free_run:
  assumes "run_inv s e h live" "i < length live"
  shows "\<exists>h'. vPortFree (fst (live ! i)) h = Some h' \<and> run_inv s e h' (take i live @ drop (Suc i) live) \<and> kept (take i live @ drop (Suc i) live) h h'"
proof -
  obtain bs where inv: "heap_inv s e bs h" and live: "live_ok live bs" using assms by (auto simp: run_inv_def)
  obtain p n where pn: "live ! i = (p, n)" by (cases "live ! i") auto
  have lv: "(p, n) \<in> set live" using assms(2) pn by (metis nth_mem)
  obtain x k where x: "(x, k, True) \<in> set bs" "p = of_nat (x + 8)" by (rule live_block[OF inv live lv])
  obtain pre post where bs: "bs = pre @ (x, k, True) # post" using x(1) by (meson split_list)
  obtain h' where h': "vPortFree p h = Some h'" "heap_inv s e (free_layout pre x k post) h'" "keeps_used (pre @ post) h h'"
    using free_spec[OF inv[unfolded bs]] x(2) by blast
  define live' where "live' = take i live @ drop (Suc i) live"
  have split: "live = take i live @ (p, n) # drop (Suc i) live" using assms(2) pn id_take_nth_drop by metis
  have "distinct (map fst (take i live @ (p, n) # drop (Suc i) live))" using live split by (simp add: live_ok_def)
  then have dist: "distinct (map fst live')" "p \<notin> fst ` set live'" by (auto simp: live'_def)
  have mem: "q \<in> fst ` set live \<longleftrightarrow> q = p \<or> q \<in> fst ` set live'" for q by (subst split) (auto simp: live'_def)
  have sub: "set live' \<subseteq> set live" by (subst split) (auto simp: live'_def)
  have other: "(y, j, True) \<in> set (pre @ post)" if "(y, j, True) \<in> set bs" "of_nat (y + 8) \<noteq> p" for y j using that x(2) by (auto simp: bs)
  have onto: "of_nat (y + 8) \<in> fst ` set live'" if y: "(y, j, True) \<in> set (pre @ post)" for y j
  proof -
    have yb: "(y, j, True) \<in> set bs" using y by (auto simp: bs)
    then have "of_nat (y + 8) \<in> fst ` set live" using live by (auto simp: live_ok_def)
    moreover have "of_nat (y + 8) \<noteq> p"
    proof
      assume "of_nat (y + 8) = p"
      then have "y = x" using pointer_inject[OF inv yb x(1)] x(2) by simp
      moreover have "laid s pre x" "laid (x + k) post e" "16 \<le> k" using heap_invD(2)[OF inv] by (auto simp: bs laid_append)
      ultimately show False using y laid_in[of s pre x y j True] laid_in[of "x + k" post e y j True] by auto
    qed
    ultimately show ?thesis using mem by blast
  qed
  have fwd: "\<exists>y j. (y, j, True) \<in> set (pre @ post) \<and> q = of_nat (y + 8) \<and> unat l + 8 \<le> j" if "(q, l) \<in> set live'" for q l
  proof -
    have q: "q \<noteq> p" "(q, l) \<in> set live" using that dist(2) sub by force+
    obtain y j where "(y, j, True) \<in> set bs" "q = of_nat (y + 8)" "unat l + 8 \<le> j" by (rule live_block[OF inv live q(2)])
    then show ?thesis using other q(1) by blast
  qed
  have "live_ok live' (free_layout pre x k post)" unfolding live_ok_def used_free using dist(1) onto fwd by blast
  moreover have "kept live' h h'" unfolding kept_def
    using fwd keeps_live[OF h'(3)] by metis
  ultimately show ?thesis using h'(1,2) pn by (auto simp: run_inv_def live'_def)
qed

lemma heap_step_ok:
  assumes "run_inv s e h live"
  shows "\<exists>h' live'. heap_step ev (h, live) = Some (h', live') \<and> run_inv s e h' live'"
proof (cases ev)
  case (Malloc n)
  obtain p h' bs where "pvPortMalloc n h = Some (p, h')" "heap_inv s e bs h'" "live_ok (if p = 0 then live else (p, n) # live) bs" using malloc_run[OF assms, of n] by blast
  then show ?thesis using Malloc by (cases "p = 0") (auto simp: run_inv_def)
next
  case (Calloc a b)
  obtain p h' where "pvPortCalloc a b h = Some (p, h')" "run_inv s e h' (if p = 0 then live else (p, a * b) # live)" using calloc_run[OF assms, of a b] by blast
  then show ?thesis using Calloc by (cases "p = 0") auto
next
  case (Free_Block i)
  then show ?thesis using free_run[OF assms, of i] assms by (cases "i < length live") auto
next
  case (Write_Byte a v)
  show ?thesis
  proof (cases "list_ex (\<lambda>(p, n). a - p < n) live")
    case True
    then obtain p n where pn: "(p, n) \<in> set live" "a - p < n" by (auto simp: list_ex_iff)
    then obtain bs where bs: "heap_inv s e bs h" "live_ok live bs" using assms by (auto simp: run_inv_def)
    obtain x k c where "(x, k, True) \<in> set bs" "x + 8 \<le> c" "c < x + k" "a = of_nat c" by (rule live_region[OF bs pn])
    then show ?thesis using Write_Byte True write_inv[OF bs(1)] bs(2) by (auto simp: run_inv_def)
  qed (use Write_Byte assms in auto)
next
  case Reset_Minimum
  have "run_inv s e (xPortResetHeapMinimumEverFreeHeapSize h) live" using assms
    by (auto simp: run_inv_def heap_start_def heap_base_def heap_limit_def heap_inv_def placed_def xPortResetHeapMinimumEverFreeHeapSize_def)
  then show ?thesis using Reset_Minimum by simp
qed

lemma heap_run_ok:
  assumes "run_inv s e h live"
  shows "\<exists>h' live'. heap_run evs (h, live) = Some (h', live') \<and> run_inv s e h' live'"
  using assms
proof (induction evs arbitrary: h live)
  case (Cons ev evs)
  obtain h1 live1 where "heap_step ev (h, live) = Some (h1, live1)" "run_inv s e h1 live1" using heap_step_ok[OF Cons.prems] by blast
  then show ?case using Cons.IH[of h1 live1] by simp
qed simp

lemma heap_run_start:
  assumes "heap_start h" "heap_run evs (h, []) = Some (h', live)"
  shows "run_inv (heap_base h) (heap_limit h) h' live"
  using heap_run_ok[of "heap_base h" "heap_limit h" h "[]" evs] assms by (auto simp: run_inv_def)


subsection \<open>Results\<close>

text \<open>The bytes of an allocation.\<close>

definition region :: "u32 \<times> u32 \<Rightarrow> nat set" where "region r = {unat (fst r)..<unat (fst r) + unat (snd r)}"

text \<open>
  C15. What the heap hands out is disjoint. Take any sequence of allocations, of frees of what has been allocated and of writes into it. No assertion of the heap fails and every search ends;
  the pointers in use are aligned, their bytes, as many as were asked for, lie inside the heap, and no two of them share a byte.
\<close>

theorem heap_blocks_disjoint:
  assumes "heap_start h"
  shows "\<exists>h' live. heap_run evs (h, []) = Some (h', live) \<and>
    (\<forall>i<length live. 8 dvd unat (fst (live ! i)) \<and> region (live ! i) \<subseteq> {heap_base h..<heap_limit h} \<and>
      (\<forall>j<length live. i \<noteq> j \<longrightarrow> region (live ! i) \<inter> region (live ! j) = {}))"
proof -
  obtain h' live where r: "heap_run evs (h, []) = Some (h', live)" "run_inv (heap_base h) (heap_limit h) h' live"
    using heap_run_ok[of "heap_base h" "heap_limit h" h "[]" evs] assms by (auto simp: run_inv_def)
  have "8 dvd unat (fst (live ! i)) \<and> region (live ! i) \<subseteq> {heap_base h..<heap_limit h} \<and> (\<forall>j<length live. i \<noteq> j \<longrightarrow> region (live ! i) \<inter> region (live ! j) = {})"
    if i: "i < length live" for i
  proof -
    obtain bs where bs: "heap_inv (heap_base h) (heap_limit h) bs h'" "live_ok live bs" using r(2) i by (auto simp: run_inv_def)
    obtain p n where p: "live ! i = (p, n)" "(p, n) \<in> set live" using i nth_mem[OF i] by (cases "live ! i") auto
    obtain x k where x: "(x, k, True) \<in> set bs" "unat p = x + 8" "unat n + 8 \<le> k" "heap_base h \<le> x" "x + k \<le> heap_limit h" "8 dvd x" by (rule live_block[OF bs p(2)])
    have "region (live ! i) \<inter> region (live ! j) = {}" if j: "j < length live" "i \<noteq> j" for j
    proof -
      obtain q l where q: "live ! j = (q, l)" "(q, l) \<in> set live" using j nth_mem[OF j(1)] by (cases "live ! j") auto
      obtain y m where y: "(y, m, True) \<in> set bs" "unat q = y + 8" "unat l + 8 \<le> m" by (rule live_block[OF bs q(2)])
      have "q \<noteq> p" using bs(2) p(1) q(1) i j nth_eq_iff_index_eq[of "map fst live" i j] by (auto simp: live_ok_def)
      then have "x \<noteq> y" using x(2) y(2) by (auto simp: word_unat_eq_iff)
      then have "x + k \<le> y \<or> y + m \<le> x" using laid_order[OF heap_invD(2)[OF bs(1)] x(1) y(1)] by auto
      then show ?thesis using p(1) q(1) x y by (auto simp: region_def)
    qed
    then show ?thesis using p(1) x by (auto simp: region_def)
  qed
  then show ?thesis using r(1) by blast
qed

text \<open>
  C16. The heap does not touch what it has handed out. In any such sequence an allocation leaves every byte of every allocation that is in use as it was, and so does freeing one of them for the
  others, although headers and data share the same memory; \<open>pvPortCalloc\<close> returns bytes that are zero.
\<close>

theorem heap_keeps_contents:
  assumes "heap_start h" "heap_run evs (h, []) = Some (h1, live)"
  shows "(\<exists>p h2. pvPortMalloc n h1 = Some (p, h2) \<and> kept live h1 h2) \<and>
    (\<exists>p h2. pvPortCalloc a b h1 = Some (p, h2) \<and> kept live h1 h2 \<and> (p \<noteq> 0 \<longrightarrow> (\<forall>c<unat (a * b). hmem h2 (p + of_nat c) = 0))) \<and>
    (i < length live \<longrightarrow> (\<exists>h2. vPortFree (fst (live ! i)) h1 = Some h2 \<and> kept (take i live @ drop (Suc i) live) h1 h2))"
  using malloc_run[OF heap_run_start[OF assms], of n] calloc_run[OF heap_run_start[OF assms], of a b] free_run[OF heap_run_start[OF assms], of i] by blast

lemma all_free:
  assumes "successively (\<lambda>b c. used b \<or> used c) bs" "\<And>b. b \<in> set bs \<Longrightarrow> \<not> used b"
  shows "length bs \<le> 1"
  using assms by (cases bs rule: remdups_adj.cases) auto

text \<open>
  C17. Nothing is lost to fragmentation for good. Whatever has been allocated and freed in whatever order, once everything has been freed the heap is one block again: every request that
  the heap could serve at all is served.
\<close>

theorem heap_coalesces:
  assumes "heap_start h" "heap_run evs (h, []) = Some (h', [])" "n \<noteq> 0" "(unat n + 15) div 8 * 8 \<le> heap_limit h - heap_base h"
  shows "\<exists>h2. pvPortMalloc n h' = Some (of_nat (heap_base h + 8), h2)"
proof -
  define s where "s = heap_base h"
  define e where "e = heap_limit h"
  have "run_inv s e h' []" using heap_run_start[OF assms(1,2)] by (simp add: s_def e_def)
  then consider bs where "heap_inv s e bs h'" "live_ok [] bs" | "heap_start h'" "heap_base h' = s" "heap_limit h' = e" by (auto simp: run_inv_def)
  then obtain g where g: "pvPortMalloc n h' = pvPortMalloc n g" "heap_inv s e [(s, e - s, False)] g"
  proof cases
    case (1 bs)
    note i = heap_invD[OF 1(1)]
    have free: "\<not> used b" if "b \<in> set bs" for b using 1(2) that by (cases b) (auto simp: live_ok_def)
    have "length bs \<le> 1" by (rule all_free[OF i(8)]) (use free in simp)
    moreover have "16 div 8 * 8 \<le> (unat n + 15) div 8 * 8" using assms(3) by (intro mult_le_mono1 div_le_mono) (simp add: Suc_le_eq unat_gt_0)
    then have "16 \<le> e - s" using assms(4) by (simp add: s_def e_def)
    ultimately obtain b where b: "bs = [b]" using i(2) by (cases bs) auto
    then have "b = (s, e - s, False)" using i(2) free[of b] by (cases b) auto
    then show thesis using that 1(1) b by blast
  next
    case 2
    then show thesis using that malloc_first init_inv by metis
  qed
  have e32: "e < 2 ^ 32" using heap_invD(10)[OF g(2)] by simp
  then have w: "unat (wanted_size n) = (unat n + 15) div 8 * 8" "wanted_size n \<noteq> 0" using assms(3,4) wanted_size_unat[of n]
    by (auto simp: s_def e_def unat_eq_0[symmetric] split: if_splits)
  obtain pre b k post h2 where "[(s, e - s, False)] = pre @ (b, k, False) # post" "pvPortMalloc n g = Some (of_nat (b + 8), h2)"
    using malloc_succeeds[OF g(2) w(2)] assms(4) w(1) by (auto simp: s_def e_def)
  then show ?thesis using g(1) by (cases pre) (auto simp: s_def)
qed

text \<open>An example: a heap of 200 bytes that does not start at an aligned address; the second of three allocations is freed and its place used again.\<close>

definition demo_heap :: heap where
  "demo_heap = \<lparr>ucHeap = 0x1003, configTOTAL_HEAP_SIZE = 200, xStart = 0x2000, hmem = (\<lambda>_. 0xa5), pxEnd = 0, xFreeBytesRemaining = 0,
     xMinimumEverFreeBytesRemaining = 0, xNumberOfSuccessfulAllocations = 0, xNumberOfSuccessfulFrees = 0, hook_called = False\<rparr>"

definition demo_calls :: "heap_event list" where
  "demo_calls = [Malloc 20, Malloc 30, Write_Byte 0x1010 7, Free_Block 0, Calloc 1 2, Malloc 500]"

lemma demo_heap_start: "heap_start demo_heap"
  by (simp add: heap_start_def demo_heap_def)

lemma demo_heap_value:
  "map_option (\<lambda>(h, live). (live, hmem h 0x1010, hmem h 0x1031, xPortGetFreeHeapSize h, hook_called h)) (heap_run demo_calls (demo_heap, [])) =
     Some ([(0x1030, 2), (0x1010, 20)], 7, 0, 136, True)"
  by code_simp

lemma demo_heap_freed:
  "map_option (\<lambda>(h, live). (live, xPortGetFreeHeapSize h)) (heap_run [Malloc 20, Malloc 30, Free_Block 1, Free_Block 0] (demo_heap, [])) = Some ([], 184)"
  by code_simp

theorem heap_blocks_disjoint_witness:
  "\<exists>h. heap_run demo_calls (demo_heap, []) = Some (h, [(0x1030, 2), (0x1010, 20)]) \<and> region (0x1030, 2) \<inter> region (0x1010, 20) = {} \<and>
     region (0x1010, 20) \<subseteq> {heap_base demo_heap..<heap_limit demo_heap}"
proof -
  obtain h live where r: "heap_run demo_calls (demo_heap, []) = Some (h, live)" "live = [(0x1030, 2), (0x1010, 20)]" using demo_heap_value by auto
  have "\<forall>i<length live. 8 dvd unat (fst (live ! i)) \<and> region (live ! i) \<subseteq> {heap_base demo_heap..<heap_limit demo_heap} \<and>
      (\<forall>j<length live. i \<noteq> j \<longrightarrow> region (live ! i) \<inter> region (live ! j) = {})" using heap_blocks_disjoint[OF demo_heap_start, of demo_calls] r(1) by auto
  from spec[OF this, of 0] spec[OF this, of 1] show ?thesis using r by auto
qed

theorem heap_keeps_contents_witness:
  "\<exists>h1 p h2. heap_run demo_calls (demo_heap, []) = Some (h1, [(0x1030, 2), (0x1010, 20)]) \<and> pvPortMalloc 9 h1 = Some (p, h2) \<and> hmem h2 0x1010 = 7"
proof -
  obtain h1 where r: "heap_run demo_calls (demo_heap, []) = Some (h1, [(0x1030, 2), (0x1010, 20)])" "hmem h1 0x1010 = 7" using demo_heap_value by auto
  obtain p h2 where m: "pvPortMalloc 9 h1 = Some (p, h2)" "kept [(0x1030, 2), (0x1010, 20)] h1 h2" using heap_keeps_contents[OF demo_heap_start r(1), of 9] by blast
  have "hmem h2 (0x1010 + of_nat 0) = hmem h1 (0x1010 + of_nat 0)" using m(2)[unfolded kept_def, rule_format, of "0x1010" 20 0] by simp
  then show ?thesis using r m(1) by simp
qed

theorem heap_coalesces_witness:
  "\<exists>h h2. heap_run [Malloc 20, Malloc 30, Free_Block 1, Free_Block 0] (demo_heap, []) = Some (h, []) \<and> pvPortMalloc 170 h = Some (0x1010, h2)"
proof -
  obtain h where r: "heap_run [Malloc 20, Malloc 30, Free_Block 1, Free_Block 0] (demo_heap, []) = Some (h, [])" using demo_heap_freed by auto
  have b: "heap_base demo_heap = 0x1008" "heap_limit demo_heap = 0x10c0" by (simp_all add: heap_base_def heap_limit_def demo_heap_def)
  then obtain h2 where "pvPortMalloc 170 h = Some (of_nat (0x1008 + 8), h2)" using heap_coalesces[OF demo_heap_start r, of 170] by auto
  then show ?thesis using r by auto
qed

end
