(* ===== verification/Rtos_List.thy ===== *)
theory Rtos_List
  imports Prelude "HOL-Library.Monad_Syntax"
begin

section \<open>The kernel's lists\<close>

text \<open>
  \<^verbatim>\<open>list.c\<close> and the macros of \<^verbatim>\<open>list.h\<close>: circular doubly linked lists whose end is marked by an
  item of the largest value that lives in the list header. The scheduler keeps every task in
  them and the queues keep the tasks that wait.

  The store below is the memory the lists live in: one field of \<open>ListItem_t\<close> or \<open>List_t\<close> is
  one function on the addresses that have it. An address is an item (\<open>Item i\<close>) or the end
  marker inside the list \<open>l\<close> (\<open>Marker l\<close>, \<open>&(pxList->xListEnd)\<close>), so the pointers of the C code
  are addresses here and are read and written as there. \<open>NULL\<close> containers and owners are
  \<open>None\<close>. A removal of an item that is in no list would dereference \<open>NULL\<close>, and the search of
  \<open>vListInsert\<close> may run for ever on a damaged list; both are the result \<open>None\<close>. The item counter is
  a natural number: it counts list items of twenty bytes each in a 32-bit address space.

  The lemmas show that the pointer operations implement operations on HOL lists. \<open>ring s l xs\<close>
  says that the list \<open>l\<close> holds the items \<open>xs\<close> in this order, \<open>lists_ok L s\<close> that every list of \<open>L\<close>
  is such a ring and that an item is in the list its container field names and nowhere else.
\<close>

type_synonym tick = "32 word"

definition portMAX_DELAY :: tick where
  "portMAX_DELAY = 0xFFFFFFFF"

datatype ('i, 'l) node = Marker 'l | Item 'i

record ('i, 'l, 'o) lists =
  xItemValue :: "('i, 'l) node \<Rightarrow> tick"
  pxNext :: "('i, 'l) node \<Rightarrow> ('i, 'l) node"
  pxPrevious :: "('i, 'l) node \<Rightarrow> ('i, 'l) node"
  pvOwner :: "'i \<Rightarrow> 'o option"
  pxContainer :: "'i \<Rightarrow> 'l option"
  uxNumberOfItems :: "'l \<Rightarrow> nat"
  pxIndex :: "'l \<Rightarrow> ('i, 'l) node"

subsection \<open>Operations\<close>

definition vListInitialise :: "'l \<Rightarrow> ('i, 'l, 'o) lists \<Rightarrow> ('i, 'l, 'o) lists" where
  "vListInitialise l s =
     s\<lparr>pxIndex := (pxIndex s)(l := Marker l),
       xItemValue := (xItemValue s)(Marker l := portMAX_DELAY),
       pxNext := (pxNext s)(Marker l := Marker l),
       pxPrevious := (pxPrevious s)(Marker l := Marker l),
       uxNumberOfItems := (uxNumberOfItems s)(l := 0)\<rparr>"

definition vListInitialiseItem :: "'i \<Rightarrow> ('i, 'l, 'o) lists \<Rightarrow> ('i, 'l, 'o) lists" where
  "vListInitialiseItem i s = s\<lparr>pxContainer := (pxContainer s)(i := None)\<rparr>"

definition vListInsertEnd :: "'l \<Rightarrow> 'i \<Rightarrow> ('i, 'l, 'o) lists \<Rightarrow> ('i, 'l, 'o) lists" where
  "vListInsertEnd l i s =
     (let index = pxIndex s l;
          s1 = s\<lparr>pxNext := (pxNext s)(Item i := index)\<rparr>;
          s2 = s1\<lparr>pxPrevious := (pxPrevious s1)(Item i := pxPrevious s1 index)\<rparr>;
          s3 = s2\<lparr>pxNext := (pxNext s2)(pxPrevious s2 index := Item i)\<rparr>;
          s4 = s3\<lparr>pxPrevious := (pxPrevious s3)(index := Item i)\<rparr>;
          s5 = s4\<lparr>pxContainer := (pxContainer s4)(i := Some l)\<rparr>
      in s5\<lparr>uxNumberOfItems := (uxNumberOfItems s5)(l := uxNumberOfItems s5 l + 1)\<rparr>)"

text \<open>The search loop of \<open>vListInsert\<close>: the last node whose successor has a larger value.\<close>

partial_function (option) insert_position ::
    "('i, 'l, 'o) lists \<Rightarrow> tick \<Rightarrow> ('i, 'l) node \<Rightarrow> ('i, 'l) node option" where
  "insert_position s v it =
     (if xItemValue s (pxNext s it) \<le> v then insert_position s v (pxNext s it) else Some it)"

definition vListInsert :: "'l \<Rightarrow> 'i \<Rightarrow> ('i, 'l, 'o) lists \<Rightarrow> ('i, 'l, 'o) lists option" where
  "vListInsert l i s =
     do {
       it \<leftarrow> (let v = xItemValue s (Item i)
              in if v = portMAX_DELAY then Some (pxPrevious s (Marker l))
                 else insert_position s v (Marker l));
       let s1 = s\<lparr>pxNext := (pxNext s)(Item i := pxNext s it)\<rparr>;
       let s2 = s1\<lparr>pxPrevious := (pxPrevious s1)(pxNext s1 (Item i) := Item i)\<rparr>;
       let s3 = s2\<lparr>pxPrevious := (pxPrevious s2)(Item i := it)\<rparr>;
       let s4 = s3\<lparr>pxNext := (pxNext s3)(it := Item i)\<rparr>;
       let s5 = s4\<lparr>pxContainer := (pxContainer s4)(i := Some l)\<rparr>;
       Some (s5\<lparr>uxNumberOfItems := (uxNumberOfItems s5)(l := uxNumberOfItems s5 l + 1)\<rparr>)
     }"

definition uxListRemove :: "'i \<Rightarrow> ('i, 'l, 'o) lists \<Rightarrow> (nat \<times> ('i, 'l, 'o) lists) option" where
  "uxListRemove i s =
     do {
       l \<leftarrow> pxContainer s i;
       let s1 = s\<lparr>pxPrevious := (pxPrevious s)(pxNext s (Item i) := pxPrevious s (Item i))\<rparr>;
       let s2 = s1\<lparr>pxNext := (pxNext s1)(pxPrevious s1 (Item i) := pxNext s1 (Item i))\<rparr>;
       let s3 = (if pxIndex s2 l = Item i
                 then s2\<lparr>pxIndex := (pxIndex s2)(l := pxPrevious s2 (Item i))\<rparr> else s2);
       let s4 = s3\<lparr>pxContainer := (pxContainer s3)(i := None)\<rparr>;
       let s5 = s4\<lparr>uxNumberOfItems := (uxNumberOfItems s4)(l := uxNumberOfItems s4 l - 1)\<rparr>;
       Some (uxNumberOfItems s5 l, s5)
     }"

subsection \<open>The access macros\<close>

definition listSET_LIST_ITEM_OWNER :: "'i \<Rightarrow> 'o \<Rightarrow> ('i, 'l, 'o) lists \<Rightarrow> ('i, 'l, 'o) lists" where
  "listSET_LIST_ITEM_OWNER i t s = s\<lparr>pvOwner := (pvOwner s)(i := Some t)\<rparr>"

definition listSET_LIST_ITEM_VALUE :: "'i \<Rightarrow> tick \<Rightarrow> ('i, 'l, 'o) lists \<Rightarrow> ('i, 'l, 'o) lists" where
  "listSET_LIST_ITEM_VALUE i v s = s\<lparr>xItemValue := (xItemValue s)(Item i := v)\<rparr>"

definition listGET_LIST_ITEM_VALUE :: "'i \<Rightarrow> ('i, 'l, 'o) lists \<Rightarrow> tick" where
  "listGET_LIST_ITEM_VALUE i s = xItemValue s (Item i)"

definition listGET_ITEM_VALUE_OF_HEAD_ENTRY :: "'l \<Rightarrow> ('i, 'l, 'o) lists \<Rightarrow> tick" where
  "listGET_ITEM_VALUE_OF_HEAD_ENTRY l s = xItemValue s (pxNext s (Marker l))"

definition listLIST_IS_EMPTY :: "'l \<Rightarrow> ('i, 'l, 'o) lists \<Rightarrow> bool" where
  "listLIST_IS_EMPTY l s \<longleftrightarrow> uxNumberOfItems s l = 0"

definition listCURRENT_LIST_LENGTH :: "'l \<Rightarrow> ('i, 'l, 'o) lists \<Rightarrow> nat" where
  "listCURRENT_LIST_LENGTH l s = uxNumberOfItems s l"

definition listIS_CONTAINED_WITHIN :: "'l \<Rightarrow> 'i \<Rightarrow> ('i, 'l, 'o) lists \<Rightarrow> bool" where
  "listIS_CONTAINED_WITHIN l i s \<longleftrightarrow> pxContainer s i = Some l"

text \<open>The owner field of a node; the end marker, a \<open>MiniListItem_t\<close>, has none.\<close>

definition node_owner :: "('i, 'l, 'o) lists \<Rightarrow> ('i, 'l) node \<Rightarrow> 'o option" where
  "node_owner s n = (case n of Item i \<Rightarrow> pvOwner s i | Marker _ \<Rightarrow> None)"

definition listGET_OWNER_OF_HEAD_ENTRY :: "'l \<Rightarrow> ('i, 'l, 'o) lists \<Rightarrow> 'o option" where
  "listGET_OWNER_OF_HEAD_ENTRY l s = node_owner s (pxNext s (Marker l))"

definition listGET_OWNER_OF_NEXT_ENTRY ::
    "'l \<Rightarrow> ('i, 'l, 'o) lists \<Rightarrow> ('o \<times> ('i, 'l, 'o) lists) option" where
  "listGET_OWNER_OF_NEXT_ENTRY l s =
     (let s1 = s\<lparr>pxIndex := (pxIndex s)(l := pxNext s (pxIndex s l))\<rparr>;
          s2 = (if pxIndex s1 l = Marker l
                then s1\<lparr>pxIndex := (pxIndex s1)(l := pxNext s1 (Marker l))\<rparr> else s1)
      in do { t \<leftarrow> node_owner s2 (pxIndex s2 l); Some (t, s2) })"

text \<open>
  \<open>listREMOVE_ITEM\<close> and \<open>listINSERT_END\<close> are the bodies of \<open>uxListRemove\<close> and \<open>vListInsertEnd\<close>
  as macros.
\<close>

definition listREMOVE_ITEM :: "'i \<Rightarrow> ('i, 'l, 'o) lists \<Rightarrow> ('i, 'l, 'o) lists option" where
  "listREMOVE_ITEM i s = map_option snd (uxListRemove i s)"

definition listINSERT_END :: "'l \<Rightarrow> 'i \<Rightarrow> ('i, 'l, 'o) lists \<Rightarrow> ('i, 'l, 'o) lists" where
  "listINSERT_END l i s = vListInsertEnd l i s"

subsection \<open>Rings\<close>

text \<open>\<open>linked s a xs b\<close>: the nodes \<open>xs\<close> lie between \<open>a\<close> and \<open>b\<close>, linked in both directions.\<close>

fun linked :: "('i, 'l, 'o) lists \<Rightarrow> ('i, 'l) node \<Rightarrow> ('i, 'l) node list \<Rightarrow> ('i, 'l) node \<Rightarrow> bool" where
  "linked s a [] b \<longleftrightarrow> pxNext s a = b \<and> pxPrevious s b = a"
| "linked s a (x # xs) b \<longleftrightarrow> pxNext s a = x \<and> pxPrevious s x = a \<and> linked s x xs b"

definition ring :: "('i, 'l, 'o) lists \<Rightarrow> 'l \<Rightarrow> 'i list \<Rightarrow> bool" where
  "ring s l xs \<longleftrightarrow>
     linked s (Marker l) (map Item xs) (Marker l) \<and> distinct xs \<and>
     uxNumberOfItems s l = length xs \<and> xItemValue s (Marker l) = portMAX_DELAY \<and>
     pxIndex s l \<in> insert (Marker l) (Item ` set xs)"

text \<open>The items of a list, read by following the links as many times as the counter says.\<close>

fun walk :: "nat \<Rightarrow> ('i, 'l, 'o) lists \<Rightarrow> ('i, 'l) node \<Rightarrow> 'i list" where
  "walk 0 s n = []"
| "walk (Suc k) s n = (case n of Item i \<Rightarrow> i # walk k s (pxNext s n) | Marker _ \<Rightarrow> [])"

definition items :: "('i, 'l, 'o) lists \<Rightarrow> 'l \<Rightarrow> 'i list" where
  "items s l = walk (uxNumberOfItems s l) s (pxNext s (Marker l))"

definition lists_ok :: "'l set \<Rightarrow> ('i, 'l, 'o) lists \<Rightarrow> bool" where
  "lists_ok L s \<longleftrightarrow>
     (\<forall>l\<in>L. ring s l (items s l)) \<and>
     (\<forall>i l. l \<in> L \<longrightarrow> (pxContainer s i = Some l \<longleftrightarrow> i \<in> set (items s l)))"

text \<open>Where a new item goes, on HOL lists.\<close>

fun ins_before :: "('i, 'l) node \<Rightarrow> 'i \<Rightarrow> 'i list \<Rightarrow> 'i list" where
  "ins_before n i [] = [i]"
| "ins_before n i (x # xs) = (if n = Item x then i # x # xs else x # ins_before n i xs)"

definition in_order :: "('i \<Rightarrow> tick) \<Rightarrow> 'i \<Rightarrow> 'i list \<Rightarrow> 'i list" where
  "in_order f i xs = takeWhile (\<lambda>x. f x \<le> f i) xs @ i # dropWhile (\<lambda>x. f x \<le> f i) xs"


lemma linked_append:
  "linked s a (xs @ x # ys) b \<longleftrightarrow> linked s a xs x \<and> linked s x ys b"
  by (induction xs arbitrary: a) auto

lemma linked_cong:
  assumes "\<And>n. n \<in> insert a (set xs) \<Longrightarrow> pxNext s' n = pxNext s n"
    and "\<And>n. n \<in> insert b (set xs) \<Longrightarrow> pxPrevious s' n = pxPrevious s n"
  shows "linked s' a xs b = linked s a xs b"
  using assms by (induction xs arbitrary: a) auto

lemma linked_ends:
  assumes "linked s a xs b"
  shows "pxNext s a = hd (xs @ [b])" and "pxPrevious s b = last (a # xs)"
  using assms by (induction xs arbitrary: a) auto

text \<open>Linking a new node in between two neighbours, and taking a node out.\<close>

lemma linked_insert:
  assumes "linked s a (ys @ zs) b" and "distinct (ys @ zs)"
    and "a \<notin> set (ys @ zs)" and "b \<notin> set (ys @ zs)"
    and "n \<notin> insert a (insert b (set (ys @ zs)))"
    and "pxNext s' = (pxNext s)(n := hd (zs @ [b]), last (a # ys) := n)"
    and "pxPrevious s' = (pxPrevious s)(n := last (a # ys), hd (zs @ [b]) := n)"
  shows "linked s' a (ys @ n # zs) b"
  using assms
proof (induction ys arbitrary: a)
  case Nil
  show ?case
  proof (cases zs)
    case (Cons z zs')
    have "linked s' z zs' b = linked s z zs' b"
      using Nil.prems Cons by (intro linked_cong) auto
    then show ?thesis using Nil.prems Cons by auto
  qed (use Nil.prems in auto)
next
  case (Cons y ys)
  have y: "y \<noteq> hd (zs @ [b])" "y \<noteq> b"
    using Cons.prems(2,4) by (cases zs; auto)+
  have "last (y # ys) \<noteq> a"
    using Cons.prems(3) last_in_set[of "y # ys"] by auto
  moreover have "linked s' y (ys @ n # zs) b"
    using Cons.prems y by (intro Cons.IH) auto
  ultimately show ?case
    using Cons.prems y by auto
qed

lemma linked_bypass:
  assumes "linked s a (ys @ n # zs) b" and "distinct (ys @ n # zs)"
    and "a \<notin> set (ys @ n # zs)" and "b \<notin> set (ys @ n # zs)"
    and "pxNext s' = (pxNext s)(last (a # ys) := hd (zs @ [b]))"
    and "pxPrevious s' = (pxPrevious s)(hd (zs @ [b]) := last (a # ys))"
  shows "linked s' a (ys @ zs) b"
  using assms
proof (induction ys arbitrary: a)
  case Nil
  show ?case
  proof (cases zs)
    case (Cons z zs')
    have "linked s' z zs' b = linked s z zs' b"
      using Nil.prems Cons by (intro linked_cong) auto
    then show ?thesis using Nil.prems Cons by auto
  qed (use Nil.prems in auto)
next
  case (Cons y ys)
  have y: "y \<noteq> hd (zs @ [b])" "y \<noteq> b"
    using Cons.prems(2,4) by (cases zs; auto)+
  have "last (y # ys) \<noteq> a"
    using Cons.prems(3) last_in_set[of "y # ys"] by auto
  moreover have "linked s' y (ys @ zs) b"
    using Cons.prems y by (intro Cons.IH) auto
  ultimately show ?case
    using Cons.prems y by auto
qed

lemma linked_remove:
  assumes "linked s a (ys @ n # zs) b" and "distinct (ys @ n # zs)"
    and "a \<notin> set (ys @ n # zs)" and "b \<notin> set (ys @ n # zs)"
    and "pxNext s' = (pxNext s)(pxPrevious s n := pxNext s n)"
    and "pxPrevious s' = (pxPrevious s)(pxNext s n := pxPrevious s n)"
  shows "linked s' a (ys @ zs) b"
proof -
  have "linked s a ys n" and "linked s n zs b"
    using assms(1) by (auto simp: linked_append)
  note ends = linked_ends(2)[OF this(1)] linked_ends(1)[OF this(2)]
  show ?thesis
    by (rule linked_bypass[OF assms(1-4)]) (simp_all only: assms(5,6) ends)
qed

lemma walk_linked:
  "linked s a (map Item xs) (Marker l) \<Longrightarrow> walk (length xs) s (pxNext s a) = xs"
  by (induction xs arbitrary: a) auto

lemma items_ring: "ring s l xs \<Longrightarrow> items s l = xs"
  using walk_linked[of s "Marker l" xs l] by (simp add: ring_def items_def)

lemma ring_cong:
  assumes "\<And>n. n \<in> insert (Marker l) (Item ` set xs) \<Longrightarrow> pxNext s' n = pxNext s n"
    and "\<And>n. n \<in> insert (Marker l) (Item ` set xs) \<Longrightarrow> pxPrevious s' n = pxPrevious s n"
    and "uxNumberOfItems s' l = uxNumberOfItems s l" "pxIndex s' l = pxIndex s l"
    and "xItemValue s' (Marker l) = xItemValue s (Marker l)"
  shows "ring s' l xs = ring s l xs"
proof -
  have "linked s' (Marker l) (map Item xs) (Marker l) = linked s (Marker l) (map Item xs) (Marker l)"
    using assms(1,2) by (intro linked_cong) auto
  then show ?thesis
    using assms(3-5) by (simp add: ring_def)
qed

subsection \<open>The operations on well-formed lists\<close>

lemma lists_okD:
  assumes "lists_ok L s" "l \<in> L"
  shows "ring s l (items s l)"
    and "pxContainer s i = Some l \<longleftrightarrow> i \<in> set (items s l)"
  using assms by (auto simp: lists_ok_def)

lemma items_facts:
  assumes "lists_ok L s" "l \<in> L"
  shows "distinct (items s l)"
    and "uxNumberOfItems s l = length (items s l)"
    and "listLIST_IS_EMPTY l s \<longleftrightarrow> items s l = []"
    and "linked s (Marker l) (map Item (items s l)) (Marker l)"
    and "xItemValue s (Marker l) = portMAX_DELAY"
    and "pxIndex s l \<in> insert (Marker l) (Item ` set (items s l))"
  using lists_okD(1)[OF assms] by (auto simp: ring_def listLIST_IS_EMPTY_def)

text \<open>
  What an operation on one list does to the store: the list \<open>l\<close> now holds \<open>xs\<close>, the containers
  are \<open>c\<close>, and every other list, every value and every owner is as before.
\<close>

definition becomes ::
    "'l set \<Rightarrow> ('i, 'l, 'o) lists \<Rightarrow> 'l \<Rightarrow> 'i list \<Rightarrow> ('i \<Rightarrow> 'l option) \<Rightarrow> ('i, 'l, 'o) lists \<Rightarrow> bool" where
  "becomes L s l xs c s' \<longleftrightarrow>
     lists_ok L s' \<and> items s' l = xs \<and> pxContainer s' = c \<and>
     (\<forall>l'\<in>L. l' \<noteq> l \<longrightarrow> items s' l' = items s l' \<and> pxIndex s' l' = pxIndex s l') \<and>
     xItemValue s' = xItemValue s \<and> pvOwner s' = pvOwner s"

lemma becomesD:
  assumes "becomes L s l xs c s'"
  shows "lists_ok L s'" "items s' l = xs" "pxContainer s' = c"
    and "l' \<in> L \<Longrightarrow> l' \<noteq> l \<Longrightarrow> items s' l' = items s l'"
    and "l' \<in> L \<Longrightarrow> l' \<noteq> l \<Longrightarrow> pxIndex s' l' = pxIndex s l'"
    and "xItemValue s' = xItemValue s" "pvOwner s' = pvOwner s"
  using assms by (auto simp: becomes_def)

lemma becomesI:
  assumes ok: "lists_ok L s" and l: "l \<in> L" and ring: "ring s' l xs"
    and new: "\<And>i. i \<in> set xs \<Longrightarrow> i \<notin> set (items s l) \<Longrightarrow> pxContainer s i = None"
    and links: "\<And>n. n \<notin> insert (Marker l) (Item ` (set (items s l) \<union> set xs)) \<Longrightarrow>
                  pxNext s' n = pxNext s n \<and> pxPrevious s' n = pxPrevious s n"
    and other: "\<And>l'. l' \<noteq> l \<Longrightarrow> uxNumberOfItems s' l' = uxNumberOfItems s l' \<and> pxIndex s' l' = pxIndex s l'"
    and same: "xItemValue s' = xItemValue s" "pvOwner s' = pvOwner s"
    and c: "pxContainer s' = c"
    and cont: "\<And>i. c i = (if i \<in> set xs then Some l
                            else if pxContainer s i = Some l then None else pxContainer s i)"
  shows "becomes L s l xs c s'"
proof -
  have away: "ring s' l' (items s l')" if "l' \<in> L" "l' \<noteq> l" for l'
  proof -
    have "n \<notin> insert (Marker l) (Item ` (set (items s l) \<union> set xs))"
      if "n \<in> insert (Marker l') (Item ` set (items s l'))" for n
    proof (rule ccontr)
      assume "\<not> ?thesis"
      with that \<open>l' \<noteq> l\<close> obtain i where i: "i \<in> set (items s l')" "i \<in> set (items s l) \<union> set xs"
        by auto
      have "pxContainer s i = Some l'"
        using lists_okD(2)[OF ok \<open>l' \<in> L\<close>] i(1) by simp
      with i(2) new[of i] lists_okD(2)[OF ok l, of i] \<open>l' \<noteq> l\<close> show False by auto
    qed
    then have "ring s' l' (items s l') = ring s l' (items s l')"
      using links other[OF \<open>l' \<noteq> l\<close>] same(1) by (intro ring_cong) simp_all
    then show ?thesis using lists_okD(1)[OF ok \<open>l' \<in> L\<close>] by simp
  qed
  have items': "items s' l' = (if l' = l then xs else items s l')" if "l' \<in> L" for l'
    using items_ring[OF away[OF that]] items_ring[OF ring] by simp
  have "pxContainer s' i = Some l' \<longleftrightarrow> i \<in> set (items s' l')" if "l' \<in> L" for i l'
    using lists_okD(2)[OF ok that, of i] lists_okD(2)[OF ok l, of i] new[of i]
    by (auto simp: items'[OF that] c cont)
  moreover have "ring s' l' (items s' l')" if "l' \<in> L" for l'
    using away[OF that] ring by (simp add: items'[OF that])
  ultimately show ?thesis
    using items' l other same c by (auto simp: becomes_def lists_ok_def)
qed

lemma Item_inj: "inj_on Item A"
  by (simp add: inj_on_def)

lemma ins_before_split:
  assumes "n = Marker l \<or> n \<in> Item ` set xs"
  obtains ys zs where "xs = ys @ zs" "ins_before n i xs = ys @ i # zs"
    "hd (map Item zs @ [Marker l]) = n"
  using assms
proof (induction xs arbitrary: thesis)
  case Nil
  then show ?case by auto
next
  case (Cons x xs)
  show ?case
  proof (cases "n = Item x")
    case True
    then show ?thesis using Cons.prems(1)[of "[]" "x # xs"] by simp
  next
    case False
    with Cons.prems(2) have "n = Marker l \<or> n \<in> Item ` set xs" by auto
    from Cons.IH[OF _ this] obtain ys zs where
      "xs = ys @ zs" "ins_before n i xs = ys @ i # zs" "hd (map Item zs @ [Marker l]) = n" by blast
    then show ?thesis using Cons.prems(1)[of "x # ys" zs] False by simp
  qed
qed

lemma set_ins_before [simp]: "set (ins_before n i xs) = insert i (set xs)"
  by (induction xs) auto

lemma insert_end_ok:
  assumes ok: "lists_ok L s" and l: "l \<in> L" and i: "pxContainer s i = None"
  shows "becomes L s l (ins_before (pxIndex s l) i (items s l)) ((pxContainer s)(i := Some l)) (vListInsertEnd l i s)"
    and "pxIndex (vListInsertEnd l i s) = pxIndex s"
proof -
  let ?s = "vListInsertEnd l i s"
  note facts = items_facts[OF ok l]
  obtain ys zs where split: "items s l = ys @ zs" "ins_before (pxIndex s l) i (items s l) = ys @ i # zs"
      "hd (map Item zs @ [Marker l]) = pxIndex s l"
    using ins_before_split[of "pxIndex s l" l "items s l" i] facts(6) by blast
  have fresh: "i \<notin> set (items s l)"
    using i lists_okD(2)[OF ok l, of i] by simp
  have prev: "pxPrevious s (pxIndex s l) = last (Marker l # map Item ys)"
  proof (cases zs)
    case Nil
    then show ?thesis using facts(4) split linked_ends(2) by fastforce
  next
    case (Cons z zs')
    then have "linked s (Marker l) (map Item ys) (Item z)"
      using facts(4) split(1) by (simp add: linked_append)
    then show ?thesis using split(3) Cons linked_ends(2) by fastforce
  qed
  have idx: "pxIndex s l \<noteq> Item i" using facts(6) fresh by auto
  have "linked ?s (Marker l) (map Item ys @ Item i # map Item zs) (Marker l)"
  proof (rule linked_insert[where s = s])
    show "linked s (Marker l) (map Item ys @ map Item zs) (Marker l)"
      using facts(4) split(1) by simp
    show "distinct (map Item ys @ map Item zs)"
      using facts(1) split(1) by (auto simp: distinct_map Item_inj)
    show "pxNext ?s = (pxNext s)(Item i := hd (map Item zs @ [Marker l]), last (Marker l # map Item ys) := Item i)"
      using idx prev[symmetric] by (simp add: vListInsertEnd_def Let_def split(3))
    show "pxPrevious ?s = (pxPrevious s)(Item i := last (Marker l # map Item ys), hd (map Item zs @ [Marker l]) := Item i)"
      using idx prev[symmetric] by (simp add: vListInsertEnd_def Let_def split(3))
  qed (use fresh split(1) in auto)
  then have "ring ?s l (ys @ i # zs)"
    using facts split(1) fresh by (auto simp: ring_def vListInsertEnd_def Let_def)
  moreover have "last (Marker l # map Item ys) \<in> insert (Marker l) (Item ` set (items s l))"
    using split(1) by (cases ys rule: rev_cases) auto
  ultimately show "becomes L s l (ins_before (pxIndex s l) i (items s l)) ((pxContainer s)(i := Some l)) ?s"
    unfolding split(2) using ok l i facts(6) prev fresh split(1) lists_okD(2)[OF ok l]
    by (intro becomesI) (auto simp: vListInsertEnd_def Let_def)
  show "pxIndex ?s = pxIndex s" by (simp add: vListInsertEnd_def Let_def)
qed

lemma portMAX_DELAY_top: "portMAX_DELAY = - 1"
  by (simp add: portMAX_DELAY_def)

lemma insert_position_returns:
  assumes "linked s a (map Item xs) (Marker l)" "xItemValue s (Marker l) = portMAX_DELAY" "v \<noteq> portMAX_DELAY"
  shows "insert_position s v a =
           Some (last (a # map Item (takeWhile (\<lambda>x. xItemValue s (Item x) \<le> v) xs)))"
  using assms(1)
proof (induction xs arbitrary: a)
  case Nil
  have "\<not> portMAX_DELAY \<le> v"
    using assms(3) word_order.extremum_unique[of v] by (simp add: portMAX_DELAY_top)
  with Nil assms(2) show ?case
    by (subst insert_position.simps) simp
next
  case (Cons x xs)
  show ?case
  proof (cases "xItemValue s (Item x) \<le> v")
    case True
    with Cons show ?thesis by (subst insert_position.simps) simp
  next
    case False
    with Cons.prems show ?thesis by (subst insert_position.simps) simp
  qed
qed

lemma all_below_max: "v \<le> portMAX_DELAY"
  by (simp add: portMAX_DELAY_top word_order.extremum)

lemma set_in_order [simp]: "set (in_order f i xs) = insert i (set xs)"
  unfolding in_order_def using takeWhile_dropWhile_id[of "\<lambda>x. f x \<le> f i" xs] set_append
  by (metis (no_types, lifting) Un_insert_right list.simps(15))

lemma insert_ok:
  assumes ok: "lists_ok L s" and l: "l \<in> L" and i: "pxContainer s i = None"
  obtains s' where "vListInsert l i s = Some s'"
    and "becomes L s l (in_order (\<lambda>x. xItemValue s (Item x)) i (items s l)) ((pxContainer s)(i := Some l)) s'"
    and "pxIndex s' = pxIndex s"
proof -
  let ?f = "\<lambda>x. xItemValue s (Item x)"
  define ys zs where "ys = takeWhile (\<lambda>x. ?f x \<le> ?f i) (items s l)"
    and "zs = dropWhile (\<lambda>x. ?f x \<le> ?f i) (items s l)"
  have split: "items s l = ys @ zs" "in_order ?f i (items s l) = ys @ i # zs"
    by (simp_all add: ys_def zs_def in_order_def)
  note facts = items_facts[OF ok l]
  define it where "it = last (Marker l # map Item ys)"
  have pos: "(if ?f i = portMAX_DELAY then Some (pxPrevious s (Marker l))
              else insert_position s (?f i) (Marker l)) = Some it"
  proof (cases "?f i = portMAX_DELAY")
    case True
    then have "ys = items s l" by (simp add: ys_def all_below_max)
    with True linked_ends(2)[OF facts(4)] show ?thesis by (simp add: it_def)
  next
    case False
    with insert_position_returns[OF facts(4,5) False] show ?thesis by (simp add: it_def ys_def)
  qed
  have fresh: "i \<notin> set (items s l)"
    using i lists_okD(2)[OF ok l, of i] by simp
  have after: "pxNext s it = hd (map Item zs @ [Marker l])"
  proof (cases ys rule: rev_cases)
    case Nil
    then show ?thesis using facts(4) split(1) linked_ends(1) by (fastforce simp: it_def)
  next
    case (snoc us u)
    then have "linked s (Item u) (map Item zs) (Marker l)"
      using facts(4) split(1) linked_append[of s "Marker l" "map Item us" "Item u" "map Item zs"] by simp
    then show ?thesis using linked_ends(1) snoc by (fastforce simp: it_def)
  qed
  have it: "it \<noteq> Item i" "it \<in> insert (Marker l) (Item ` set (items s l))"
    using fresh split(1) by (cases ys rule: rev_cases; auto simp: it_def)+
  have nxt: "hd (map Item zs @ [Marker l]) \<noteq> Item i"
      "hd (map Item zs @ [Marker l]) \<in> insert (Marker l) (Item ` set (items s l))"
    using fresh split(1) by (cases zs; auto)+
  define s' where "s' = s\<lparr>pxNext := (pxNext s)(Item i := hd (map Item zs @ [Marker l]), it := Item i),
      pxPrevious := (pxPrevious s)(hd (map Item zs @ [Marker l]) := Item i, Item i := it),
      pxContainer := (pxContainer s)(i := Some l),
      uxNumberOfItems := (uxNumberOfItems s)(l := uxNumberOfItems s l + 1)\<rparr>"
  have result: "vListInsert l i s = Some s'"
    using pos it(1) by (simp add: vListInsert_def Let_def s'_def after)
  have "linked s' (Marker l) (map Item ys @ Item i # map Item zs) (Marker l)"
  proof (rule linked_insert[where s = s])
    show "linked s (Marker l) (map Item ys @ map Item zs) (Marker l)"
      using facts(4) split(1) by simp
    show "distinct (map Item ys @ map Item zs)"
      using facts(1) split(1) by (auto simp: distinct_map Item_inj)
    show "pxNext s' = (pxNext s)(Item i := hd (map Item zs @ [Marker l]), last (Marker l # map Item ys) := Item i)"
      by (simp add: s'_def it_def)
    show "pxPrevious s' = (pxPrevious s)(Item i := last (Marker l # map Item ys), hd (map Item zs @ [Marker l]) := Item i)"
      using nxt(1) by (auto simp: s'_def it_def)
  qed (use fresh split(1) in auto)
  then have ring: "ring s' l (ys @ i # zs)"
    using facts split(1) fresh by (auto simp: ring_def s'_def)
  have "becomes L s l (in_order ?f i (items s l)) ((pxContainer s)(i := Some l)) s'"
    unfolding split(2) using ok l i it(2) nxt(2) fresh split(1) lists_okD(2)[OF ok l] ring
    by (intro becomesI) (auto simp: s'_def)
  with result show ?thesis
    by (intro that[of s']) (simp_all add: s'_def)
qed

lemma remove_ok:
  assumes ok: "lists_ok L s" and l: "l \<in> L" and i: "pxContainer s i = Some l"
  obtains s' where "uxListRemove i s = Some (length (items s l) - 1, s')"
    and "listREMOVE_ITEM i s = Some s'"
    and "becomes L s l (remove1 i (items s l)) ((pxContainer s)(i := None)) s'"
    and "pxIndex s' l = (if pxIndex s l = Item i then pxPrevious s (Item i) else pxIndex s l)"
proof -
  note facts = items_facts[OF ok l]
  have "i \<in> set (items s l)"
    using i lists_okD(2)[OF ok l, of i] by simp
  then obtain ys zs where split: "items s l = ys @ i # zs" by (meson split_list)
  have dist: "i \<notin> set ys" "i \<notin> set zs" "distinct (ys @ zs)" using facts(1) split by auto
  have cuts: "remove1 i (items s l) = ys @ zs"
    using split dist by (simp add: remove1_append)
  define s' where "s' = s\<lparr>pxPrevious := (pxPrevious s)(pxNext s (Item i) := pxPrevious s (Item i)),
      pxNext := (pxNext s)(pxPrevious s (Item i) := pxNext s (Item i)),
      pxIndex := (pxIndex s)(l := if pxIndex s l = Item i then pxPrevious s (Item i) else pxIndex s l),
      pxContainer := (pxContainer s)(i := None),
      uxNumberOfItems := (uxNumberOfItems s)(l := uxNumberOfItems s l - 1)\<rparr>"
  have both: "linked s (Marker l) (map Item ys) (Item i)" "linked s (Item i) (map Item zs) (Marker l)"
    using facts(4) split by (auto simp: linked_append)
  note ends = linked_ends(2)[OF both(1)] linked_ends(1)[OF both(2)]
  have neighbours: "pxPrevious s (Item i) \<in> insert (Marker l) (Item ` set (ys @ zs))"
      "pxNext s (Item i) \<in> insert (Marker l) (Item ` set (ys @ zs))"
    unfolding ends by (cases ys rule: rev_cases; auto) (cases zs; auto)
  then have away: "pxPrevious s (Item i) \<noteq> Item i" "pxNext s (Item i) \<noteq> Item i"
    using dist by auto
  have result: "uxListRemove i s = Some (length (items s l) - 1, s')"
    using i facts(2) away by (auto simp: uxListRemove_def Let_def s'_def)
  have "linked s' (Marker l) (map Item ys @ map Item zs) (Marker l)"
  proof (rule linked_remove[where s = s and n = "Item i"])
    show "linked s (Marker l) (map Item ys @ Item i # map Item zs) (Marker l)"
      using facts(4) split by simp
    show "distinct (map Item ys @ Item i # map Item zs)"
      using facts(1) split by (auto simp: distinct_map Item_inj)
  qed (auto simp: s'_def)
  then have ring: "ring s' l (ys @ zs)"
    using facts split dist neighbours(1) by (auto simp: ring_def s'_def)
  have "becomes L s l (remove1 i (items s l)) ((pxContainer s)(i := None)) s'"
    unfolding cuts using ok l i split dist neighbours lists_okD(2)[OF ok l] ring
    by (intro becomesI) (auto simp: s'_def)
  with result show ?thesis
    by (intro that[of s']) (simp_all add: s'_def listREMOVE_ITEM_def)
qed

subsection \<open>The interface the scheduler relies on\<close>

text \<open>
  An item is in the list its container names, or in none; it can be put into a list when it is
  in none and taken out when it is in one, and neither disturbs the other items, nor what
  \<open>fixed\<close> reads. The two ways to put an item, at the end and in order, are two instances.
\<close>

locale item_lists =
  fixes ok :: "'s \<Rightarrow> bool"
    and content :: "'s \<Rightarrow> 'l \<Rightarrow> 'i list"
    and home :: "'s \<Rightarrow> 'i \<Rightarrow> 'l option"
    and fixed :: "'s \<Rightarrow> 'f"
    and known :: "'l set"
    and put_item :: "'l \<Rightarrow> 'i \<Rightarrow> 's \<Rightarrow> 's option"
    and take_item :: "'i \<Rightarrow> 's \<Rightarrow> 's option"
  assumes home_content: "ok s \<Longrightarrow> l \<in> known \<Longrightarrow> home s i = Some l \<longleftrightarrow> i \<in> set (content s l)"
    and put_spec: "ok s \<Longrightarrow> l \<in> known \<Longrightarrow> home s i = None \<Longrightarrow>
        \<exists>s'. put_item l i s = Some s' \<and> ok s' \<and> home s' = (home s)(i := Some l) \<and> fixed s' = fixed s \<and>
             (\<forall>l'\<in>known. l' \<noteq> l \<longrightarrow> content s' l' = content s l')"
    and take_spec: "ok s \<Longrightarrow> l \<in> known \<Longrightarrow> home s i = Some l \<Longrightarrow>
        \<exists>s'. take_item i s = Some s' \<and> ok s' \<and> home s' = (home s)(i := None) \<and> fixed s' = fixed s \<and>
             content s' l = remove1 i (content s l) \<and>
             (\<forall>l'\<in>known. l' \<noteq> l \<longrightarrow> content s' l' = content s l')"
begin

lemma move_item:
  assumes "ok s" "home s i = Some l" "l \<in> known" "m \<in> known"
  shows "\<exists>s'. Option.bind (take_item i s) (put_item m i) = Some s' \<and> ok s' \<and>
              home s' = (home s)(i := Some m) \<and> fixed s' = fixed s \<and>
              (\<forall>l'\<in>known. l' \<noteq> l \<and> l' \<noteq> m \<longrightarrow> content s' l' = content s l')"
proof -
  obtain s1 where s1: "take_item i s = Some s1" "ok s1" "home s1 = (home s)(i := None)" "fixed s1 = fixed s"
      "\<forall>l'\<in>known. l' \<noteq> l \<longrightarrow> content s1 l' = content s l'"
    using take_spec[OF assms(1,3,2)] by blast
  obtain s2 where s2: "put_item m i s1 = Some s2" "ok s2" "home s2 = (home s1)(i := Some m)" "fixed s2 = fixed s1"
      "\<forall>l'\<in>known. l' \<noteq> m \<longrightarrow> content s2 l' = content s1 l'"
    using put_spec[OF s1(2) assms(4), of i] s1(3) by auto
  show ?thesis
    using s1 s2 by (intro exI[of _ s2]) auto
qed

lemma put_then_take:
  assumes "ok s" "home s i = None" "m \<in> known"
  shows "\<exists>s'. Option.bind (put_item m i s) (take_item i) = Some s' \<and> ok s' \<and> home s' = home s"
proof -
  obtain s1 where s1: "put_item m i s = Some s1" "ok s1" "home s1 = (home s)(i := Some m)"
    using put_spec[OF assms(1,3,2)] by blast
  obtain s2 where s2: "take_item i s1 = Some s2" "ok s2" "home s2 = (home s1)(i := None)"
    using take_spec[OF s1(2) assms(3), of i] s1(3) by auto
  show ?thesis
    using s1 s2 assms(2) by (intro exI[of _ s2]) auto
qed

end

definition list_fixed :: "('i, 'l, 'o) lists \<Rightarrow> (('i, 'l) node \<Rightarrow> tick) \<times> ('i \<Rightarrow> 'o option)" where
  "list_fixed s = (xItemValue s, pvOwner s)"

lemma list_take_spec:
  assumes "lists_ok L s" "l \<in> L" "pxContainer s i = Some l"
  shows "\<exists>s'. listREMOVE_ITEM i s = Some s' \<and> lists_ok L s' \<and> pxContainer s' = (pxContainer s)(i := None) \<and>
           list_fixed s' = list_fixed s \<and> items s' l = remove1 i (items s l) \<and>
           (\<forall>l'\<in>L. l' \<noteq> l \<longrightarrow> items s' l' = items s l')"
proof -
  obtain s' where "listREMOVE_ITEM i s = Some s'"
      "becomes L s l (remove1 i (items s l)) ((pxContainer s)(i := None)) s'"
    using remove_ok[OF assms] by blast
  then show ?thesis by (auto simp: becomes_def list_fixed_def)
qed

interpretation at_end: item_lists "lists_ok L" items pxContainer list_fixed L "\<lambda>l i s. Some (listINSERT_END l i s)"
    listREMOVE_ITEM for L
proof
  fix s l i
  assume a: "lists_ok L s" "l \<in> L"
  show "pxContainer s i = Some l \<longleftrightarrow> i \<in> set (items s l)" using lists_okD(2)[OF a] .
  assume "pxContainer s i = None"
  from insert_end_ok(1)[OF a this] show "\<exists>s'. Some (listINSERT_END l i s) = Some s' \<and> lists_ok L s' \<and>
      pxContainer s' = (pxContainer s)(i := Some l) \<and> list_fixed s' = list_fixed s \<and>
      (\<forall>l'\<in>L. l' \<noteq> l \<longrightarrow> items s' l' = items s l')"
    by (simp add: becomes_def list_fixed_def listINSERT_END_def)
qed (rule list_take_spec)

interpretation by_value: item_lists "lists_ok L" items pxContainer list_fixed L vListInsert listREMOVE_ITEM for L
proof
  fix s l i
  assume a: "lists_ok L s" "l \<in> L"
  show "pxContainer s i = Some l \<longleftrightarrow> i \<in> set (items s l)" using lists_okD(2)[OF a] .
  assume "pxContainer s i = None"
  from insert_ok[OF a this] obtain s' where "vListInsert l i s = Some s'"
    "becomes L s l (in_order (\<lambda>x. xItemValue s (Item x)) i (items s l)) ((pxContainer s)(i := Some l)) s'" by blast
  then show "\<exists>s'. vListInsert l i s = Some s' \<and> lists_ok L s' \<and>
      pxContainer s' = (pxContainer s)(i := Some l) \<and> list_fixed s' = list_fixed s \<and>
      (\<forall>l'\<in>L. l' \<noteq> l \<longrightarrow> items s' l' = items s l')"
    by (auto simp: becomes_def list_fixed_def)
qed (rule list_take_spec)

subsection \<open>Order\<close>

definition value_sorted :: "('i, 'l, 'o) lists \<Rightarrow> 'i list \<Rightarrow> bool" where
  "value_sorted s xs \<longleftrightarrow> sorted_wrt (\<lambda>x y. xItemValue s (Item x) \<le> xItemValue s (Item y)) xs"

lemma sorted_in_order:
  fixes f :: "'a \<Rightarrow> tick"
  assumes "sorted_wrt (\<lambda>x y. f x \<le> f y) xs"
  shows "sorted_wrt (\<lambda>x y. f x \<le> f y) (in_order f i xs)"
  using assms
proof (induction xs)
  case Nil
  then show ?case by (simp add: in_order_def)
next
  case (Cons x xs)
  show ?case
  proof (cases "f x \<le> f i")
    case True
    then have "in_order f i (x # xs) = x # in_order f i xs" by (simp add: in_order_def)
    with Cons True show ?thesis by simp
  next
    case False
    then have "in_order f i (x # xs) = i # x # xs" by (simp add: in_order_def)
    moreover from False have "f i \<le> f x" by simp
    ultimately show ?thesis using Cons.prems by (auto intro: order_trans)
  qed
qed

text \<open>\<open>serve n\<close>: \<open>n\<close> uses of \<open>listGET_OWNER_OF_NEXT_ENTRY\<close>, with the owners they yield.\<close>

fun serve :: "nat \<Rightarrow> 'l \<Rightarrow> ('i, 'l, 'o) lists \<Rightarrow> ('o list \<times> ('i, 'l, 'o) lists) option" where
  "serve 0 l s = Some ([], s)"
| "serve (Suc n) l s =
     do {
       (t, s1) \<leftarrow> listGET_OWNER_OF_NEXT_ENTRY l s;
       (ts, s2) \<leftarrow> serve n l s1;
       Some (t # ts, s2)
     }"

lemma linked_nth:
  assumes "linked s a xs b" "j < length xs"
  shows "pxNext s (xs ! j) = (if Suc j < length xs then xs ! Suc j else b)"
proof -
  have "xs = take j xs @ xs ! j # drop (Suc j) xs" using assms(2) by (simp add: id_take_nth_drop)
  then have "linked s (xs ! j) (drop (Suc j) xs) b"
    using assms(1) linked_append by metis
  then have "pxNext s (xs ! j) = hd (drop (Suc j) xs @ [b])" by (rule linked_ends)
  then show ?thesis by (auto simp: hd_append hd_drop_conv_nth)
qed

text \<open>
  The place of the index: the items are served starting behind it, and the end marker stands
  for the place of the last item.
\<close>

definition index_at :: "('i, 'l, 'o) lists \<Rightarrow> 'l \<Rightarrow> nat \<Rightarrow> bool" where
  "index_at s l j \<longleftrightarrow>
     j < length (items s l) \<and>
     (pxIndex s l = Item (items s l ! j) \<or> pxIndex s l = Marker l \<and> Suc j = length (items s l))"

lemma index_somewhere:
  assumes "lists_ok L s" "l \<in> L" "items s l \<noteq> []"
  shows "\<exists>j. index_at s l j"
proof (cases "pxIndex s l = Marker l")
  case True
  with assms(3) show ?thesis
    by (intro exI[of _ "length (items s l) - 1"]) (simp add: index_at_def)
next
  case False
  with items_facts(6)[OF assms(1,2)] obtain j where "j < length (items s l)" "pxIndex s l = Item (items s l ! j)"
    by (auto simp: in_set_conv_nth)
  then show ?thesis by (auto simp: index_at_def)
qed

lemma next_entry_ok:
  assumes ok: "lists_ok L s" "l \<in> L" and at: "index_at s l j"
    and owner: "pvOwner s (items s l ! (Suc j mod length (items s l))) = Some t"
  obtains s' where "listGET_OWNER_OF_NEXT_ENTRY l s = Some (t, s')"
    and "s' = s\<lparr>pxIndex := (pxIndex s)(l := Item (items s l ! (Suc j mod length (items s l))))\<rparr>"
proof -
  let ?xs = "items s l" and ?j = "Suc j mod length (items s l)"
  note facts = items_facts[OF ok]
  have j: "j < length ?xs" using at by (simp add: index_at_def)
  have first: "pxNext s (Marker l) = Item (?xs ! 0)"
    using linked_ends(1)[OF facts(4)] j by (cases ?xs) auto
  have step: "(if pxNext s (pxIndex s l) = Marker l then pxNext s (Marker l) else pxNext s (pxIndex s l)) = Item (?xs ! ?j)"
  proof (cases "pxIndex s l = Item (?xs ! j)")
    case True
    have "pxNext s (Item (?xs ! j)) = (if Suc j < length ?xs then Item (?xs ! Suc j) else Marker l)"
      using linked_nth[OF facts(4), of j] j by auto
    with True first j show ?thesis
      by (cases "Suc j = length ?xs") auto
  next
    case False
    with at have "pxIndex s l = Marker l" "Suc j = length ?xs" by (auto simp: index_at_def)
    with first show ?thesis by simp
  qed
  define s' where "s' = s\<lparr>pxIndex := (pxIndex s)(l := Item (?xs ! ?j))\<rparr>"
  have "listGET_OWNER_OF_NEXT_ENTRY l s = Some (t, s')"
    using step owner by (auto simp: listGET_OWNER_OF_NEXT_ENTRY_def Let_def s'_def node_owner_def split: if_splits)
  then show ?thesis using that s'_def by blast
qed

lemma lists_ok_index:
  assumes "lists_ok L s" "l \<in> L" "i \<in> set (items s l)"
  shows "lists_ok L (s\<lparr>pxIndex := (pxIndex s)(l := Item i)\<rparr>)"
    and "items (s\<lparr>pxIndex := (pxIndex s)(l := Item i)\<rparr>) = items s"
proof -
  let ?s = "s\<lparr>pxIndex := (pxIndex s)(l := Item i)\<rparr>"
  have w: "walk n ?s a = walk n s a" for n a
    by (induction n arbitrary: a) (auto split: node.split)
  then show same: "items ?s = items s" by (simp add: items_def fun_eq_iff)
  have c: "linked ?s a xs b = linked s a xs b" for a xs b
    by (rule linked_cong) auto
  show "lists_ok L ?s"
    using assms unfolding lists_ok_def same by (auto simp: ring_def c)
qed

lemma serve_order:
  assumes "lists_ok L s" "l \<in> L" "index_at s l j"
    and "\<forall>i\<in>set (items s l). pvOwner s i = Some (own i)"
  shows "\<exists>s'. serve n l s = Some (map (\<lambda>k. own (items s l ! ((Suc j + k) mod length (items s l)))) [0..<n], s')"
  using assms
proof (induction n arbitrary: s j)
  case 0
  then show ?case by simp
next
  case (Suc n)
  let ?xs = "items s l" and ?j = "Suc j mod length (items s l)"
  have len: "0 < length ?xs" using Suc.prems(3) by (auto simp: index_at_def)
  then have mem: "?xs ! ?j \<in> set ?xs" by simp
  with Suc.prems(4) have "pvOwner s (?xs ! ?j) = Some (own (?xs ! ?j))" by blast
  from next_entry_ok[OF Suc.prems(1-3) this] obtain s1 where
    s1: "listGET_OWNER_OF_NEXT_ENTRY l s = Some (own (?xs ! ?j), s1)"
      "s1 = s\<lparr>pxIndex := (pxIndex s)(l := Item (?xs ! ?j))\<rparr>" by blast
  note same = lists_ok_index[OF Suc.prems(1,2) mem, folded s1(2)]
  have "index_at s1 l ?j" using len by (simp add: index_at_def same(2)) (simp add: s1(2))
  moreover have "\<forall>i\<in>set (items s1 l). pvOwner s1 i = Some (own i)"
    using Suc.prems(4) by (simp add: same(2)) (simp add: s1(2))
  ultimately obtain s2 where
    "serve n l s1 = Some (map (\<lambda>k. own (?xs ! ((Suc ?j + k) mod length ?xs))) [0..<n], s2)"
    using Suc.IH[OF same(1) Suc.prems(2)] by (auto simp: same(2))
  moreover have "(Suc ?j + k) mod length ?xs = (Suc j + Suc k) mod length ?xs" for k
    by (metis add_Suc_right add_Suc mod_add_left_eq plus_nat.simps(2))
  ultimately show ?case
    using s1(1) by (simp add: upt_conv_Cons map_Suc_upt[symmetric] comp_def del: upt_Suc map_Suc_upt)
qed

subsection \<open>Setting up lists and items\<close>

lemma walk_cong: "pxNext s' = pxNext s \<Longrightarrow> walk n s' a = walk n s a"
  by (induction n arbitrary: a) (auto split: node.split)

lemma lists_ok_fields:
  assumes "pxNext s' = pxNext s" "pxPrevious s' = pxPrevious s" "uxNumberOfItems s' = uxNumberOfItems s"
    and "pxIndex s' = pxIndex s" "pxContainer s' = pxContainer s"
    and "\<And>l. xItemValue s' (Marker l) = xItemValue s (Marker l)"
  shows "lists_ok L s' = lists_ok L s" and "items s' = items s"
proof -
  show same: "items s' = items s"
    using assms(1,3) by (simp add: items_def fun_eq_iff walk_cong)
  have "ring s' l xs = ring s l xs" for l xs
    by (rule ring_cong) (simp_all add: assms)
  then show "lists_ok L s' = lists_ok L s"
    by (simp add: lists_ok_def same assms(5))
qed

lemma set_value_ok [simp]:
  "lists_ok L (listSET_LIST_ITEM_VALUE i v s) = lists_ok L s"
  "items (listSET_LIST_ITEM_VALUE i v s) = items s"
  "pxContainer (listSET_LIST_ITEM_VALUE i v s) = pxContainer s"
  "pvOwner (listSET_LIST_ITEM_VALUE i v s) = pvOwner s"
  "xItemValue (listSET_LIST_ITEM_VALUE i v s) = (xItemValue s)(Item i := v)"
  by (rule lists_ok_fields; simp add: listSET_LIST_ITEM_VALUE_def)+ (simp_all add: listSET_LIST_ITEM_VALUE_def)

lemma set_owner_ok [simp]:
  "lists_ok L (listSET_LIST_ITEM_OWNER i t s) = lists_ok L s"
  "items (listSET_LIST_ITEM_OWNER i t s) = items s"
  "pxContainer (listSET_LIST_ITEM_OWNER i t s) = pxContainer s"
  "pvOwner (listSET_LIST_ITEM_OWNER i t s) = (pvOwner s)(i := Some t)"
  "xItemValue (listSET_LIST_ITEM_OWNER i t s) = xItemValue s"
  by (rule lists_ok_fields; simp add: listSET_LIST_ITEM_OWNER_def)+ (simp_all add: listSET_LIST_ITEM_OWNER_def)

lemma initialise_item_ok:
  "pxContainer s i = None \<Longrightarrow> vListInitialiseItem i s = s"
  by (simp add: vListInitialiseItem_def fun_upd_idem)

lemma list_initialise_ok:
  assumes ok: "lists_ok L s" and new: "l \<notin> L" "\<And>i. pxContainer s i \<noteq> Some l"
  shows "lists_ok (insert l L) (vListInitialise l s)"
    and "items (vListInitialise l s) l = []"
    and "l' \<in> L \<Longrightarrow> items (vListInitialise l s) l' = items s l'"
proof -
  let ?s = "vListInitialise l s"
  have empty: "ring ?s l []" by (simp add: ring_def vListInitialise_def)
  then show none: "items ?s l = []" by (rule items_ring)
  have "ring ?s l' (items s l')" if "l' \<in> L" for l'
  proof -
    have "ring ?s l' (items s l') = ring s l' (items s l')"
      using that new(1) by (intro ring_cong) (auto simp: vListInitialise_def)
    then show ?thesis using lists_okD(1)[OF ok that] by simp
  qed
  note old = this items_ring[OF this]
  show "items ?s l' = items s l'" if "l' \<in> L" using old(2)[OF that] .
  show "lists_ok (insert l L) ?s"
    unfolding lists_ok_def using old empty none new(2) lists_okD(2)[OF ok]
    by (auto simp: vListInitialise_def)
qed

lemma remove1_in_order: "i \<notin> set xs \<Longrightarrow> remove1 i (in_order f i xs) = xs"
  by (auto simp: in_order_def remove1_append dest: set_takeWhileD)

subsection \<open>Ordered insertion\<close>

text \<open>
  C24. \<open>vListInsert\<close> returns on every well-formed list and leaves it well-formed and in ascending order of
  the item values: the new item is there, all others are where they were relative to each other, no
  other list has changed, and an item with the value \<open>portMAX_DELAY\<close> is no exception.
\<close>

theorem list_insert_ordered:
  assumes "lists_ok L s" "l \<in> L" "pxContainer s i = None" "value_sorted s (items s l)"
  shows "\<exists>s'. vListInsert l i s = Some s' \<and> lists_ok L s' \<and> value_sorted s' (items s' l) \<and> i \<in> set (items s' l) \<and>
     remove1 i (items s' l) = items s l \<and> (\<forall>l'\<in>L. l' \<noteq> l \<longrightarrow> items s' l' = items s l') \<and>
     pxContainer s' = (pxContainer s)(i := Some l) \<and> xItemValue s' = xItemValue s"
proof -
  obtain s' where s': "vListInsert l i s = Some s'"
    "becomes L s l (in_order (\<lambda>x. xItemValue s (Item x)) i (items s l)) ((pxContainer s)(i := Some l)) s'"
    by (rule insert_ok[OF assms(1-3)])
  note b = becomesD[OF s'(2)]
  have "i \<notin> set (items s l)" using lists_okD(2)[OF assms(1,2), of i] assms(3) by simp
  then show ?thesis
    using s'(1) b sorted_in_order[OF assms(4)[unfolded value_sorted_def], of i]
    by (auto simp: value_sorted_def remove1_in_order)
qed

definition demo_list :: "(nat, unit, unit) lists" where
  "demo_list = vListInsertEnd () 1 (vListInitialise ()
     \<lparr>xItemValue = (\<lambda>_. 3)(Item 0 := 5), pxNext = (\<lambda>_. Marker ()), pxPrevious = (\<lambda>_. Marker ()), pvOwner = (\<lambda>_. None),
      pxContainer = (\<lambda>_. None), uxNumberOfItems = (\<lambda>_. 0), pxIndex = (\<lambda>_. Marker ())\<rparr>)"

lemma demo_list_ok: "lists_ok {()} demo_list" "items demo_list () = [1]" "pxContainer demo_list 0 = None"
proof -
  let ?z = "\<lparr>xItemValue = (\<lambda>_. 3)(Item 0 := 5), pxNext = (\<lambda>_. Marker ()), pxPrevious = (\<lambda>_. Marker ()),
     pvOwner = (\<lambda>_. None), pxContainer = (\<lambda>_. None), uxNumberOfItems = (\<lambda>_. 0), pxIndex = (\<lambda>_. Marker ())\<rparr> :: (nat, unit, unit) lists"
  let ?s = "vListInitialise () ?z"
  have z: "lists_ok {} ?z" by (simp add: lists_ok_def)
  have i: "lists_ok {()} ?s" "items ?s () = []"
    using list_initialise_ok(1,2)[OF z, of "()"] by simp_all
  have c: "pxContainer ?s = (\<lambda>_. None)" by (simp add: vListInitialise_def)
  note b = becomesD[OF insert_end_ok(1)[OF i(1), of "()" 1]]
  show "lists_ok {()} demo_list" "items demo_list () = [1]" "pxContainer demo_list 0 = None"
    using b(1-3) c i(2) unfolding demo_list_def by simp_all
qed

theorem list_insert_ordered_witness:
  "\<exists>s'. vListInsert () 0 demo_list = Some s' \<and> remove1 0 (items s' ()) = [1] \<and> value_sorted s' (items s' ())"
  using list_insert_ordered[OF demo_list_ok(1) _ demo_list_ok(3)] demo_list_ok(2) by (auto simp: value_sorted_def)

end
