(* ===== verification/Rtos_Tasks.thy ===== *)
theory Rtos_Tasks
  imports Rtos_List
begin

section \<open>The scheduler\<close>

text \<open>
  \<^verbatim>\<open>tasks.c\<close> as the firmware compiles it: one core, preemption with time slicing, seven
  priorities, generic task selection, mutexes and task notifications, task deletion, and no
  \<open>vTaskSuspend\<close> (\<open>INCLUDE_vTaskSuspend\<close> keeps its default 0, so there is no suspended list and
  a wait of \<open>portMAX_DELAY\<close> is a wait of that many ticks).

  A task is named by the address of its control block. \<open>kernel\<close> holds the file's static
  variables, the control blocks and the lists; each task's two list items live in the list
  store of \<open>Rtos_List\<close>. The two delayed-task pointers hold list names and are swapped as in the
  C code. Priorities and counters of tasks are natural numbers, since they are bounded by the
  number of priorities and of control blocks; the tick counters and item values are 32-bit
  words and wrap.

  An operation is one run of its function under the lock it takes. \<open>None\<close> means that the
  processor stopped: a failed \<open>configASSERT\<close> (which spins with the interrupts off), the stack
  overflow hook, or a \<open>NULL\<close> dereference. \<open>portYIELD\<close> is the supervisor call, which enters
  \<open>vTaskSwitchContext\<close> at once; a call that yields last, such as \<open>vTaskDelay\<close>, is therefore one
  operation from its call to the moment another task runs. What a task's own execution does
  to its stack is the flag \<open>stack_intact\<close>, which \<open>taskCHECK_FOR_STACK_OVERFLOW\<close> reads.
\<close>

type_synonym task = nat

datatype list_name =
    ReadyTasksList nat
  | DelayedTaskList1
  | DelayedTaskList2
  | PendingReadyList
  | TasksWaitingTermination
  | EventList nat

datatype list_item = StateItem task | EventItem task

type_synonym task_lists = "(list_item, list_name, task) lists"

datatype notify_state = NOT_WAITING_NOTIFICATION | WAITING_NOTIFICATION | NOTIFICATION_RECEIVED

record tcb =
  uxPriority :: nat
  uxBasePriority :: nat
  uxMutexesHeld :: nat
  ulNotifiedValue :: "32 word"
  ucNotifyState :: notify_state
  stack_intact :: bool

record kernel =
  lists :: task_lists
  tcbs :: "task \<Rightarrow> tcb"
  pxCurrentTCB :: "task option"
  pxDelayedTaskList :: list_name
  pxOverflowDelayedTaskList :: list_name
  uxDeletedTasksWaitingCleanUp :: nat
  uxCurrentNumberOfTasks :: nat
  xTickCount :: tick
  uxTopReadyPriority :: nat
  xSchedulerRunning :: bool
  xPendedTicks :: tick
  xYieldPending :: bool
  xNumOfOverflows :: "32 word"
  uxTaskNumber :: nat
  xNextTaskUnblockTime :: tick
  uxSchedulerSuspended :: nat
  freed_tasks :: "task list"

definition configMAX_PRIORITIES :: nat where
  "configMAX_PRIORITIES = 7"

abbreviation priority :: "kernel \<Rightarrow> task \<Rightarrow> nat" where
  "priority k t \<equiv> uxPriority (tcbs k t)"

definition configASSERT :: "bool \<Rightarrow> unit option" where
  "configASSERT b = (if b then Some () else None)"

definition set_tcb :: "task \<Rightarrow> (tcb \<Rightarrow> tcb) \<Rightarrow> kernel \<Rightarrow> kernel" where
  "set_tcb t f k = k\<lparr>tcbs := (tcbs k)(t := f (tcbs k t))\<rparr>"

definition on_lists :: "(task_lists \<Rightarrow> task_lists) \<Rightarrow> kernel \<Rightarrow> kernel" where
  "on_lists f k = k\<lparr>lists := f (lists k)\<rparr>"

definition on_lists_opt :: "(task_lists \<Rightarrow> task_lists option) \<Rightarrow> kernel \<Rightarrow> kernel option" where
  "on_lists_opt f k = map_option (\<lambda>s. k\<lparr>lists := s\<rparr>) (f (lists k))"

definition prvGetTCBFromHandle :: "task option \<Rightarrow> kernel \<Rightarrow> task option" where
  "prvGetTCBFromHandle h k = (case h of None \<Rightarrow> pxCurrentTCB k | Some t \<Rightarrow> Some t)"

text \<open>The value of the event list item when nothing else uses it: the list is in priority order.\<close>

definition event_value :: "nat \<Rightarrow> tick" where
  "event_value p = of_nat configMAX_PRIORITIES - of_nat p"

definition taskEVENT_LIST_ITEM_VALUE_IN_USE :: tick where
  "taskEVENT_LIST_ITEM_VALUE_IN_USE = 0x80000000"

definition event_value_free :: "task \<Rightarrow> kernel \<Rightarrow> bool" where
  "event_value_free t k \<longleftrightarrow>
     and (listGET_LIST_ITEM_VALUE (EventItem t) (lists k)) taskEVENT_LIST_ITEM_VALUE_IN_USE = 0"

subsection \<open>Ready lists\<close>

definition taskRECORD_READY_PRIORITY :: "nat \<Rightarrow> kernel \<Rightarrow> kernel" where
  "taskRECORD_READY_PRIORITY p k = (if p > uxTopReadyPriority k then k\<lparr>uxTopReadyPriority := p\<rparr> else k)"

definition prvAddTaskToReadyList :: "task \<Rightarrow> kernel \<Rightarrow> kernel" where
  "prvAddTaskToReadyList t k =
     (let k = taskRECORD_READY_PRIORITY (priority k t) k
      in on_lists (listINSERT_END (ReadyTasksList (priority k t)) (StateItem t)) k)"

text \<open>The loop of \<open>taskSELECT_HIGHEST_PRIORITY_TASK\<close> that looks for a list that is not empty.\<close>

fun highest_ready :: "nat \<Rightarrow> task_lists \<Rightarrow> nat option" where
  "highest_ready p s =
     (if listLIST_IS_EMPTY (ReadyTasksList p) s
      then (case p of 0 \<Rightarrow> None | Suc q \<Rightarrow> highest_ready q s) else Some p)"

declare highest_ready.simps [simp del]

definition taskSELECT_HIGHEST_PRIORITY_TASK :: "kernel \<Rightarrow> kernel option" where
  "taskSELECT_HIGHEST_PRIORITY_TASK k =
     do {
       p \<leftarrow> highest_ready (uxTopReadyPriority k) (lists k);
       (t, s) \<leftarrow> listGET_OWNER_OF_NEXT_ENTRY (ReadyTasksList p) (lists k);
       Some (k\<lparr>lists := s, pxCurrentTCB := Some t, uxTopReadyPriority := p\<rparr>)
     }"

definition vTaskSwitchContext :: "kernel \<Rightarrow> kernel option" where
  "vTaskSwitchContext k =
     (if uxSchedulerSuspended k \<noteq> 0 then Some (k\<lparr>xYieldPending := True\<rparr>)
      else do {
        let k = k\<lparr>xYieldPending := False\<rparr>;
        t \<leftarrow> pxCurrentTCB k;
        configASSERT (stack_intact (tcbs k t));
        taskSELECT_HIGHEST_PRIORITY_TASK k
      })"

definition portYIELD :: "kernel \<Rightarrow> kernel option" where
  "portYIELD k = vTaskSwitchContext k"

definition taskYIELD_ANY_CORE_IF_USING_PREEMPTION :: "task \<Rightarrow> kernel \<Rightarrow> kernel option" where
  "taskYIELD_ANY_CORE_IF_USING_PREEMPTION t k =
     do {
       c \<leftarrow> pxCurrentTCB k;
       if priority k c < priority k t then portYIELD k else Some k
     }"

subsection \<open>Ticks and delays\<close>

definition prvResetNextTaskUnblockTime :: "kernel \<Rightarrow> kernel" where
  "prvResetNextTaskUnblockTime k =
     (if listLIST_IS_EMPTY (pxDelayedTaskList k) (lists k)
      then k\<lparr>xNextTaskUnblockTime := portMAX_DELAY\<rparr>
      else k\<lparr>xNextTaskUnblockTime := listGET_ITEM_VALUE_OF_HEAD_ENTRY (pxDelayedTaskList k) (lists k)\<rparr>)"

definition taskSWITCH_DELAYED_LISTS :: "kernel \<Rightarrow> kernel option" where
  "taskSWITCH_DELAYED_LISTS k =
     do {
       configASSERT (listLIST_IS_EMPTY (pxDelayedTaskList k) (lists k));
       Some (prvResetNextTaskUnblockTime
         (k\<lparr>pxDelayedTaskList := pxOverflowDelayedTaskList k,
            pxOverflowDelayedTaskList := pxDelayedTaskList k,
            xNumOfOverflows := xNumOfOverflows k + 1\<rparr>))
     }"

definition prvAddCurrentTaskToDelayedList :: "tick \<Rightarrow> kernel \<Rightarrow> kernel option" where
  "prvAddCurrentTaskToDelayedList xTicksToWait k =
     do {
       t \<leftarrow> pxCurrentTCB k;
       (_, s) \<leftarrow> uxListRemove (StateItem t) (lists k);
       let xTimeToWake = xTickCount k + xTicksToWait;
       let s = listSET_LIST_ITEM_VALUE (StateItem t) xTimeToWake s;
       if xTimeToWake < xTickCount k then do {
         s \<leftarrow> vListInsert (pxOverflowDelayedTaskList k) (StateItem t) s;
         Some (k\<lparr>lists := s\<rparr>)
       } else do {
         s \<leftarrow> vListInsert (pxDelayedTaskList k) (StateItem t) s;
         let k = k\<lparr>lists := s\<rparr>;
         Some (if xTimeToWake < xNextTaskUnblockTime k then k\<lparr>xNextTaskUnblockTime := xTimeToWake\<rparr> else k)
       }
     }"

text \<open>
  The loop of \<open>xTaskIncrementTick\<close> over the head of the delayed list; the Boolean is
  \<open>xSwitchRequired\<close>.
\<close>

definition unblock_head :: "task \<Rightarrow> kernel \<Rightarrow> kernel option" where
  "unblock_head t k =
     do {
       s \<leftarrow> listREMOVE_ITEM (StateItem t) (lists k);
       s \<leftarrow> (if pxContainer s (EventItem t) \<noteq> None then listREMOVE_ITEM (EventItem t) s else Some s);
       Some (prvAddTaskToReadyList t (k\<lparr>lists := s\<rparr>))
     }"

partial_function (option) unblock_expired :: "bool \<Rightarrow> kernel \<Rightarrow> (bool \<times> kernel) option" where
  "unblock_expired sw k =
     (if listLIST_IS_EMPTY (pxDelayedTaskList k) (lists k)
      then Some (sw, k\<lparr>xNextTaskUnblockTime := portMAX_DELAY\<rparr>)
      else do {
        t \<leftarrow> listGET_OWNER_OF_HEAD_ENTRY (pxDelayedTaskList k) (lists k);
        let v = listGET_LIST_ITEM_VALUE (StateItem t) (lists k);
        if xTickCount k < v then Some (sw, k\<lparr>xNextTaskUnblockTime := v\<rparr>)
        else do {
          k \<leftarrow> unblock_head t k;
          c \<leftarrow> pxCurrentTCB k;
          unblock_expired (sw \<or> priority k t > priority k c) k
        }
      })"

definition xTaskIncrementTick :: "kernel \<Rightarrow> (bool \<times> kernel) option" where
  "xTaskIncrementTick k =
     (if uxSchedulerSuspended k = 0 then do {
        let k = k\<lparr>xTickCount := xTickCount k + 1\<rparr>;
        k \<leftarrow> (if xTickCount k = 0 then taskSWITCH_DELAYED_LISTS k else Some k);
        (sw, k) \<leftarrow> (if xTickCount k \<ge> xNextTaskUnblockTime k then unblock_expired False k else Some (False, k));
        c \<leftarrow> pxCurrentTCB k;
        let sw = (sw \<or> listCURRENT_LIST_LENGTH (ReadyTasksList (priority k c)) (lists k) > 1);
        Some (sw \<or> xYieldPending k, k)
      } else Some (False, k\<lparr>xPendedTicks := xPendedTicks k + 1\<rparr>))"

text \<open>
  The tick interrupt: the handler asks for a switch through \<open>ulPortYieldRequired\<close>, which the
  return from the interrupt honours.
\<close>

definition FreeRTOS_Tick_Handler :: "kernel \<Rightarrow> kernel option" where
  "FreeRTOS_Tick_Handler k =
     do {
       (sw, k) \<leftarrow> xTaskIncrementTick k;
       if sw then vTaskSwitchContext k else Some k
     }"

subsection \<open>Suspending and resuming the scheduler\<close>

definition vTaskSuspendAll :: "kernel \<Rightarrow> kernel" where
  "vTaskSuspendAll k = k\<lparr>uxSchedulerSuspended := uxSchedulerSuspended k + 1\<rparr>"

text \<open>One round of the loop that empties the pending list; the flag says that there was one.\<close>

definition ready_pending :: "task \<Rightarrow> kernel \<Rightarrow> kernel option" where
  "ready_pending t k =
     do {
       s \<leftarrow> listREMOVE_ITEM (EventItem t) (lists k);
       s \<leftarrow> listREMOVE_ITEM (StateItem t) s;
       let k = prvAddTaskToReadyList t (k\<lparr>lists := s\<rparr>);
       c \<leftarrow> pxCurrentTCB k;
       Some (if priority k t > priority k c then k\<lparr>xYieldPending := True\<rparr> else k)
     }"

partial_function (option) move_pending :: "bool \<Rightarrow> kernel \<Rightarrow> (bool \<times> kernel) option" where
  "move_pending moved k =
     (if listLIST_IS_EMPTY PendingReadyList (lists k) then Some (moved, k)
      else do {
        t \<leftarrow> listGET_OWNER_OF_HEAD_ENTRY PendingReadyList (lists k);
        k \<leftarrow> ready_pending t k;
        move_pending True k
      })"

fun replay_ticks :: "nat \<Rightarrow> kernel \<Rightarrow> kernel option" where
  "replay_ticks 0 k = Some k"
| "replay_ticks (Suc n) k =
     do {
       (sw, k) \<leftarrow> xTaskIncrementTick k;
       replay_ticks n (if sw then k\<lparr>xYieldPending := True\<rparr> else k)
     }"

definition xTaskResumeAll :: "kernel \<Rightarrow> (bool \<times> kernel) option" where
  "xTaskResumeAll k =
     do {
       configASSERT (uxSchedulerSuspended k \<noteq> 0);
       let k = k\<lparr>uxSchedulerSuspended := uxSchedulerSuspended k - 1\<rparr>;
       if uxSchedulerSuspended k = 0 \<and> uxCurrentNumberOfTasks k > 0 then do {
         (moved, k) \<leftarrow> move_pending False k;
         let k = (if moved then prvResetNextTaskUnblockTime k else k);
         k \<leftarrow> (if xPendedTicks k > 0 then do {
                 k \<leftarrow> replay_ticks (unat (xPendedTicks k)) k;
                 Some (k\<lparr>xPendedTicks := 0\<rparr>)
               } else Some k);
         if xYieldPending k then do {
           k \<leftarrow> portYIELD k;
           Some (True, k)
         } else Some (False, k)
       } else Some (False, k)
     }"

definition resume_and_yield :: "kernel \<Rightarrow> kernel option" where
  "resume_and_yield k =
     do {
       (yielded, k) \<leftarrow> xTaskResumeAll k;
       if yielded then Some k else portYIELD k
     }"

definition vTaskDelay :: "tick \<Rightarrow> kernel \<Rightarrow> kernel option" where
  "vTaskDelay xTicksToDelay k =
     (if xTicksToDelay > 0 then do {
        let k = vTaskSuspendAll k;
        configASSERT (uxSchedulerSuspended k = 1);
        k \<leftarrow> prvAddCurrentTaskToDelayedList xTicksToDelay k;
        resume_and_yield k
      } else portYIELD k)"

definition xTaskDelayUntil :: "tick \<Rightarrow> tick \<Rightarrow> kernel \<Rightarrow> (bool \<times> tick \<times> kernel) option" where
  "xTaskDelayUntil previous xTimeIncrement k =
     do {
       configASSERT (xTimeIncrement > 0);
       let k = vTaskSuspendAll k;
       let now = xTickCount k;
       configASSERT (uxSchedulerSuspended k = 1);
       let xTimeToWake = previous + xTimeIncrement;
       let xShouldDelay = (if now < previous then xTimeToWake < previous \<and> xTimeToWake > now
                           else xTimeToWake < previous \<or> xTimeToWake > now);
       k \<leftarrow> (if xShouldDelay then prvAddCurrentTaskToDelayedList (xTimeToWake - now) k else Some k);
       k \<leftarrow> resume_and_yield k;
       Some (xShouldDelay, xTimeToWake, k)
     }"

definition xTaskGetTickCount :: "kernel \<Rightarrow> tick" where
  "xTaskGetTickCount k = xTickCount k"

definition xTaskCatchUpTicks :: "tick \<Rightarrow> kernel \<Rightarrow> (bool \<times> kernel) option" where
  "xTaskCatchUpTicks xTicksToCatchUp k =
     do {
       configASSERT (uxSchedulerSuspended k = 0);
       let k = vTaskSuspendAll k;
       xTaskResumeAll (k\<lparr>xPendedTicks := xPendedTicks k + xTicksToCatchUp\<rparr>)
     }"

subsection \<open>Creating and deleting tasks\<close>

fun initialise_ready_lists :: "nat \<Rightarrow> task_lists \<Rightarrow> task_lists" where
  "initialise_ready_lists 0 s = s"
| "initialise_ready_lists (Suc n) s = vListInitialise (ReadyTasksList n) (initialise_ready_lists n s)"

definition prvInitialiseTaskLists :: "kernel \<Rightarrow> kernel" where
  "prvInitialiseTaskLists k =
     (let s = initialise_ready_lists configMAX_PRIORITIES (lists k);
          s = vListInitialise DelayedTaskList1 s;
          s = vListInitialise DelayedTaskList2 s;
          s = vListInitialise PendingReadyList s;
          s = vListInitialise TasksWaitingTermination s
      in k\<lparr>lists := s, pxDelayedTaskList := DelayedTaskList1, pxOverflowDelayedTaskList := DelayedTaskList2\<rparr>)"

text \<open>
  \<open>prvInitialiseNewTask\<close> on a control block that \<open>prvCreateTask\<close> has cleared to zero, as far as
  the scheduler sees it: the name, the saved registers and the entry point are left out.
\<close>

definition prvInitialiseNewTask :: "nat \<Rightarrow> task \<Rightarrow> kernel \<Rightarrow> kernel option" where
  "prvInitialiseNewTask p t k =
     do {
       configASSERT (p < configMAX_PRIORITIES);
       let p = (if p \<ge> configMAX_PRIORITIES then configMAX_PRIORITIES - 1 else p);
       let k = k\<lparr>tcbs := (tcbs k)(t := \<lparr>uxPriority = p, uxBasePriority = p, uxMutexesHeld = 0, ulNotifiedValue = 0,
                                        ucNotifyState = NOT_WAITING_NOTIFICATION, stack_intact = True\<rparr>)\<rparr>;
       Some (on_lists
         (listSET_LIST_ITEM_OWNER (EventItem t) t \<circ>
          listSET_LIST_ITEM_VALUE (EventItem t) (event_value p) \<circ>
          listSET_LIST_ITEM_OWNER (StateItem t) t \<circ>
          vListInitialiseItem (EventItem t) \<circ> vListInitialiseItem (StateItem t)) k)
     }"

definition prvAddNewTaskToReadyList :: "task \<Rightarrow> kernel \<Rightarrow> kernel option" where
  "prvAddNewTaskToReadyList t k =
     do {
       let k = k\<lparr>uxCurrentNumberOfTasks := uxCurrentNumberOfTasks k + 1\<rparr>;
       let k = (case pxCurrentTCB k of
                  None \<Rightarrow> let k = k\<lparr>pxCurrentTCB := Some t\<rparr>
                          in if uxCurrentNumberOfTasks k = 1 then prvInitialiseTaskLists k else k
                | Some c \<Rightarrow> if \<not> xSchedulerRunning k \<and> priority k c \<le> priority k t
                            then k\<lparr>pxCurrentTCB := Some t\<rparr> else k);
       let k = k\<lparr>uxTaskNumber := uxTaskNumber k + 1\<rparr>;
       let k = prvAddTaskToReadyList t k;
       if xSchedulerRunning k then taskYIELD_ANY_CORE_IF_USING_PREEMPTION t k else Some k
     }"

text \<open>
  \<open>xTaskCreate\<close>; \<open>memory\<close> is the control block \<open>prvCreateTask\<close> gets from the heap together with
  a stack, or \<open>None\<close> when either allocation fails (\<open>errCOULD_NOT_ALLOCATE_REQUIRED_MEMORY\<close>).
\<close>

definition xTaskCreate :: "task option \<Rightarrow> nat \<Rightarrow> kernel \<Rightarrow> (bool \<times> kernel) option" where
  "xTaskCreate memory p k =
     (case memory of
        None \<Rightarrow> Some (False, k)
      | Some t \<Rightarrow> do {
          k \<leftarrow> prvInitialiseNewTask p t k;
          k \<leftarrow> prvAddNewTaskToReadyList t k;
          Some (True, k)
        })"

definition prvDeleteTCB :: "task \<Rightarrow> kernel \<Rightarrow> kernel" where
  "prvDeleteTCB t k = k\<lparr>freed_tasks := freed_tasks k @ [t]\<rparr>"

definition vTaskDelete :: "task option \<Rightarrow> kernel \<Rightarrow> kernel option" where
  "vTaskDelete h k =
     do {
       t \<leftarrow> prvGetTCBFromHandle h k;
       (_, s) \<leftarrow> uxListRemove (StateItem t) (lists k);
       s \<leftarrow> (if pxContainer s (EventItem t) \<noteq> None then listREMOVE_ITEM (EventItem t) s else Some s);
       let k = k\<lparr>lists := s, uxTaskNumber := uxTaskNumber k + 1\<rparr>;
       let own = (xSchedulerRunning k \<and> pxCurrentTCB k = Some t);
       let k = (if own
                then on_lists (vListInsertEnd TasksWaitingTermination (StateItem t)) k
                       \<lparr>uxDeletedTasksWaitingCleanUp := uxDeletedTasksWaitingCleanUp k + 1\<rparr>
                else prvDeleteTCB t (prvResetNextTaskUnblockTime
                       (k\<lparr>uxCurrentNumberOfTasks := uxCurrentNumberOfTasks k - 1\<rparr>)));
       if own then do {
         configASSERT (uxSchedulerSuspended k = 0);
         portYIELD k
       } else Some k
     }"

text \<open>The idle task's clean-up loop, one deleted task a round.\<close>

fun clean_up :: "nat \<Rightarrow> kernel \<Rightarrow> kernel option" where
  "clean_up 0 k = Some k"
| "clean_up (Suc n) k =
     do {
       t \<leftarrow> listGET_OWNER_OF_HEAD_ENTRY TasksWaitingTermination (lists k);
       (_, s) \<leftarrow> uxListRemove (StateItem t) (lists k);
       clean_up n (prvDeleteTCB t
         (k\<lparr>lists := s, uxCurrentNumberOfTasks := uxCurrentNumberOfTasks k - 1,
            uxDeletedTasksWaitingCleanUp := uxDeletedTasksWaitingCleanUp k - 1\<rparr>))
     }"

definition prvCheckTasksWaitingTermination :: "kernel \<Rightarrow> kernel option" where
  "prvCheckTasksWaitingTermination k = clean_up (uxDeletedTasksWaitingCleanUp k) k"

text \<open>One turn of the idle task.\<close>

definition prvIdleTask :: "kernel \<Rightarrow> kernel option" where
  "prvIdleTask k =
     do {
       k \<leftarrow> prvCheckTasksWaitingTermination k;
       if listCURRENT_LIST_LENGTH (ReadyTasksList 0) (lists k) > 1 then portYIELD k else Some k
     }"

text \<open>
  \<open>vTaskStartScheduler\<close>: the idle task, then the timer task (\<open>timer_queue\<close> says whether the
  timer queue could be created), then the first task runs.
\<close>

definition xTimerCreateTimerTask :: "bool \<Rightarrow> task option \<Rightarrow> kernel \<Rightarrow> (bool \<times> kernel) option" where
  "xTimerCreateTimerTask timer_queue memory k =
     do {
       (made, k) \<leftarrow> (if timer_queue then xTaskCreate memory 5 k else Some (False, k));
       configASSERT made;
       Some (made, k)
     }"

definition vTaskStartScheduler :: "task option \<Rightarrow> bool \<Rightarrow> task option \<Rightarrow> kernel \<Rightarrow> kernel option" where
  "vTaskStartScheduler idle_memory timer_queue timer_memory k =
     do {
       (made, k) \<leftarrow> xTaskCreate idle_memory 0 k;
       (made, k) \<leftarrow> (if made then xTimerCreateTimerTask timer_queue timer_memory k else Some (False, k));
       configASSERT made;
       Some (k\<lparr>xNextTaskUnblockTime := portMAX_DELAY, xSchedulerRunning := True, xTickCount := 0\<rparr>)
     }"

subsection \<open>Priorities\<close>

definition uxTaskPriorityGet :: "task option \<Rightarrow> kernel \<Rightarrow> nat option" where
  "uxTaskPriorityGet h k = map_option (priority k) (prvGetTCBFromHandle h k)"

text \<open>A task that is in the ready list of its old priority moves to that of its new one.\<close>

definition requeue_ready :: "nat \<Rightarrow> task \<Rightarrow> kernel \<Rightarrow> kernel option" where
  "requeue_ready old t k =
     (if listIS_CONTAINED_WITHIN (ReadyTasksList old) (StateItem t) (lists k)
      then map_option (prvAddTaskToReadyList t) (on_lists_opt (map_option snd \<circ> uxListRemove (StateItem t)) k)
      else Some k)"

definition set_event_value :: "task \<Rightarrow> nat \<Rightarrow> kernel \<Rightarrow> kernel" where
  "set_event_value t p k =
     (if event_value_free t k then on_lists (listSET_LIST_ITEM_VALUE (EventItem t) (event_value p)) k else k)"

definition vTaskPrioritySet :: "task option \<Rightarrow> nat \<Rightarrow> kernel \<Rightarrow> kernel option" where
  "vTaskPrioritySet h new k =
     do {
       configASSERT (new < configMAX_PRIORITIES);
       t \<leftarrow> prvGetTCBFromHandle h k;
       if uxBasePriority (tcbs k t) \<noteq> new then do {
         c \<leftarrow> pxCurrentTCB k;
         let yield = (if new > uxBasePriority (tcbs k t) then t \<noteq> c \<and> new > priority k c else t = c);
         let old = priority k t;
         let k = set_tcb t (\<lambda>b. (if uxBasePriority b = uxPriority b \<or> new > uxPriority b
                                  then b\<lparr>uxPriority := new\<rparr> else b)\<lparr>uxBasePriority := new\<rparr>) k;
         let k = set_event_value t new k;
         k \<leftarrow> requeue_ready old t k;
         if yield then portYIELD k else Some k
       } else Some k
     }"

definition xTaskPriorityInherit :: "task option \<Rightarrow> kernel \<Rightarrow> (bool \<times> kernel) option" where
  "xTaskPriorityInherit holder k =
     (case holder of
        None \<Rightarrow> Some (False, k)
      | Some h \<Rightarrow> do {
          c \<leftarrow> pxCurrentTCB k;
          if priority k h < priority k c then do {
            let k = set_event_value h (priority k c) k;
            let inherit = set_tcb h (\<lambda>b. b\<lparr>uxPriority := priority k c\<rparr>);
            k \<leftarrow> (if listIS_CONTAINED_WITHIN (ReadyTasksList (priority k h)) (StateItem h) (lists k)
                  then map_option (prvAddTaskToReadyList h \<circ> inherit)
                         (on_lists_opt (map_option snd \<circ> uxListRemove (StateItem h)) k)
                  else Some (inherit k));
            Some (True, k)
          } else Some (uxBasePriority (tcbs k h) < priority k c, k)
        })"

definition xTaskPriorityDisinherit :: "task option \<Rightarrow> kernel \<Rightarrow> (bool \<times> kernel) option" where
  "xTaskPriorityDisinherit holder k =
     (case holder of
        None \<Rightarrow> Some (False, k)
      | Some h \<Rightarrow> do {
          configASSERT (pxCurrentTCB k = Some h);
          configASSERT (uxMutexesHeld (tcbs k h) \<noteq> 0);
          let k = set_tcb h (\<lambda>b. b\<lparr>uxMutexesHeld := uxMutexesHeld b - 1\<rparr>) k;
          if priority k h \<noteq> uxBasePriority (tcbs k h) \<and> uxMutexesHeld (tcbs k h) = 0 then do {
            (_, s) \<leftarrow> uxListRemove (StateItem h) (lists k);
            let k = set_tcb h (\<lambda>b. b\<lparr>uxPriority := uxBasePriority b\<rparr>) (k\<lparr>lists := s\<rparr>);
            let k = on_lists (listSET_LIST_ITEM_VALUE (EventItem h) (event_value (priority k h))) k;
            Some (True, prvAddTaskToReadyList h k)
          } else Some (False, k)
        })"

definition vTaskPriorityDisinheritAfterTimeout :: "task option \<Rightarrow> nat \<Rightarrow> kernel \<Rightarrow> kernel option" where
  "vTaskPriorityDisinheritAfterTimeout holder uxHighestPriorityWaitingTask k =
     (case holder of
        None \<Rightarrow> Some k
      | Some h \<Rightarrow> do {
          configASSERT (uxMutexesHeld (tcbs k h) \<noteq> 0);
          let p = (if uxBasePriority (tcbs k h) < uxHighestPriorityWaitingTask
                   then uxHighestPriorityWaitingTask else uxBasePriority (tcbs k h));
          if priority k h \<noteq> p \<and> uxMutexesHeld (tcbs k h) = 1 then do {
            configASSERT (pxCurrentTCB k \<noteq> Some h);
            let old = priority k h;
            let k = set_event_value h p (set_tcb h (\<lambda>b. b\<lparr>uxPriority := p\<rparr>) k);
            requeue_ready old h k
          } else Some k
        })"

definition pvTaskIncrementMutexHeldCount :: "kernel \<Rightarrow> task option \<times> kernel" where
  "pvTaskIncrementMutexHeldCount k =
     (case pxCurrentTCB k of
        None \<Rightarrow> (None, k)
      | Some t \<Rightarrow> (Some t, set_tcb t (\<lambda>b. b\<lparr>uxMutexesHeld := uxMutexesHeld b + 1\<rparr>) k))"

subsection \<open>Waiting for events\<close>

definition vTaskPlaceOnEventList :: "list_name \<Rightarrow> tick \<Rightarrow> kernel \<Rightarrow> kernel option" where
  "vTaskPlaceOnEventList e xTicksToWait k =
     do {
       t \<leftarrow> pxCurrentTCB k;
       k \<leftarrow> on_lists_opt (vListInsert e (EventItem t)) k;
       prvAddCurrentTaskToDelayedList xTicksToWait k
     }"

definition vTaskPlaceOnUnorderedEventList :: "list_name \<Rightarrow> tick \<Rightarrow> tick \<Rightarrow> kernel \<Rightarrow> kernel option" where
  "vTaskPlaceOnUnorderedEventList e v xTicksToWait k =
     do {
       configASSERT (uxSchedulerSuspended k \<noteq> 0);
       t \<leftarrow> pxCurrentTCB k;
       let k = on_lists (listSET_LIST_ITEM_VALUE (EventItem t) (or v taskEVENT_LIST_ITEM_VALUE_IN_USE)) k;
       let k = on_lists (listINSERT_END e (EventItem t)) k;
       prvAddCurrentTaskToDelayedList xTicksToWait k
     }"

definition vTaskPlaceOnEventListRestricted :: "list_name \<Rightarrow> tick \<Rightarrow> bool \<Rightarrow> kernel \<Rightarrow> kernel option" where
  "vTaskPlaceOnEventListRestricted e xTicksToWait xWaitIndefinitely k =
     do {
       t \<leftarrow> pxCurrentTCB k;
       let k = on_lists (listINSERT_END e (EventItem t)) k;
       prvAddCurrentTaskToDelayedList (if xWaitIndefinitely then portMAX_DELAY else xTicksToWait) k
     }"

text \<open>A task leaves the blocked state; while the scheduler is suspended it is held pending.\<close>

definition ready_now :: "task \<Rightarrow> kernel \<Rightarrow> kernel option" where
  "ready_now t k = map_option (prvAddTaskToReadyList t) (on_lists_opt (listREMOVE_ITEM (StateItem t)) k)"

definition ready_or_pend :: "task \<Rightarrow> kernel \<Rightarrow> kernel option" where
  "ready_or_pend t k =
     (if uxSchedulerSuspended k = 0 then ready_now t k
      else Some (on_lists (listINSERT_END PendingReadyList (EventItem t)) k))"

definition note_higher :: "task \<Rightarrow> kernel \<Rightarrow> (bool \<times> kernel) option" where
  "note_higher t k =
     do {
       c \<leftarrow> pxCurrentTCB k;
       Some (if priority k t > priority k c then (True, k\<lparr>xYieldPending := True\<rparr>) else (False, k))
     }"

definition xTaskRemoveFromEventList :: "list_name \<Rightarrow> kernel \<Rightarrow> (bool \<times> kernel) option" where
  "xTaskRemoveFromEventList e k =
     do {
       t \<leftarrow> listGET_OWNER_OF_HEAD_ENTRY e (lists k);
       k \<leftarrow> on_lists_opt (listREMOVE_ITEM (EventItem t)) k;
       k \<leftarrow> ready_or_pend t k;
       note_higher t k
     }"

definition vTaskRemoveFromUnorderedEventList :: "list_item \<Rightarrow> tick \<Rightarrow> kernel \<Rightarrow> kernel option" where
  "vTaskRemoveFromUnorderedEventList i v k =
     do {
       configASSERT (uxSchedulerSuspended k \<noteq> 0);
       let k = on_lists (listSET_LIST_ITEM_VALUE i (or v taskEVENT_LIST_ITEM_VALUE_IN_USE)) k;
       t \<leftarrow> pvOwner (lists k) i;
       k \<leftarrow> on_lists_opt (listREMOVE_ITEM i) k;
       k \<leftarrow> ready_now t k;
       map_option snd (note_higher t k)
     }"

definition uxTaskResetEventItemValue :: "kernel \<Rightarrow> (tick \<times> kernel) option" where
  "uxTaskResetEventItemValue k =
     do {
       t \<leftarrow> pxCurrentTCB k;
       Some (listGET_LIST_ITEM_VALUE (EventItem t) (lists k),
             on_lists (listSET_LIST_ITEM_VALUE (EventItem t) (event_value (priority k t))) k)
     }"

definition vTaskMissedYield :: "kernel \<Rightarrow> kernel" where
  "vTaskMissedYield k = k\<lparr>xYieldPending := True\<rparr>"

subsection \<open>Time-outs\<close>

record time_out =
  xOverflowCount :: "32 word"
  xTimeOnEntering :: tick

definition vTaskSetTimeOutState :: "kernel \<Rightarrow> time_out" where
  "vTaskSetTimeOutState k = \<lparr>xOverflowCount = xNumOfOverflows k, xTimeOnEntering = xTickCount k\<rparr>"

definition vTaskInternalSetTimeOutState :: "kernel \<Rightarrow> time_out" where
  "vTaskInternalSetTimeOutState k = \<lparr>xOverflowCount = xNumOfOverflows k, xTimeOnEntering = xTickCount k\<rparr>"

definition xTaskCheckForTimeOut :: "time_out \<Rightarrow> tick \<Rightarrow> kernel \<Rightarrow> bool \<times> time_out \<times> tick" where
  "xTaskCheckForTimeOut to xTicksToWait k =
     (let xElapsedTime = xTickCount k - xTimeOnEntering to
      in if xNumOfOverflows k \<noteq> xOverflowCount to \<and> xTickCount k \<ge> xTimeOnEntering to then (True, to, 0)
         else if xElapsedTime < xTicksToWait then (False, vTaskInternalSetTimeOutState k, xTicksToWait - xElapsedTime)
         else (True, to, 0))"

datatype scheduler_state = taskSCHEDULER_NOT_STARTED | taskSCHEDULER_RUNNING | taskSCHEDULER_SUSPENDED

definition xTaskGetSchedulerState :: "kernel \<Rightarrow> scheduler_state" where
  "xTaskGetSchedulerState k =
     (if \<not> xSchedulerRunning k then taskSCHEDULER_NOT_STARTED
      else if uxSchedulerSuspended k = 0 then taskSCHEDULER_RUNNING else taskSCHEDULER_SUSPENDED)"

subsection \<open>Notifications\<close>

text \<open>
  One notification value per task (\<open>configTASK_NOTIFICATION_ARRAY_ENTRIES\<close> is 1). A wait is split
  where the task may lose the processor: \<open>..._block\<close> up to the yield, \<open>..._finish\<close> when it runs
  again. The code tests the condition to block twice, before and after it suspends the
  scheduler, to notice a notification that an interrupt sends in between; in \<open>..._block\<close>, which
  no interrupt divides, both tests have the same outcome.
\<close>

datatype notify_action = eNoAction | eSetBits | eIncrement | eSetValueWithOverwrite | eSetValueWithoutOverwrite

definition notify_update :: "notify_action \<Rightarrow> 32 word \<Rightarrow> tcb \<Rightarrow> bool \<times> tcb" where
  "notify_update eAction ulValue b =
     (let b' = b\<lparr>ucNotifyState := NOTIFICATION_RECEIVED\<rparr>
      in case eAction of
           eSetBits \<Rightarrow> (True, b'\<lparr>ulNotifiedValue := or (ulNotifiedValue b) ulValue\<rparr>)
         | eIncrement \<Rightarrow> (True, b'\<lparr>ulNotifiedValue := ulNotifiedValue b + 1\<rparr>)
         | eSetValueWithOverwrite \<Rightarrow> (True, b'\<lparr>ulNotifiedValue := ulValue\<rparr>)
         | eSetValueWithoutOverwrite \<Rightarrow>
             if ucNotifyState b \<noteq> NOTIFICATION_RECEIVED then (True, b'\<lparr>ulNotifiedValue := ulValue\<rparr>) else (False, b')
         | eNoAction \<Rightarrow> (True, b'))"

definition xTaskGenericNotify ::
    "task \<Rightarrow> 32 word \<Rightarrow> notify_action \<Rightarrow> kernel \<Rightarrow> (bool \<times> 32 word \<times> kernel) option" where
  "xTaskGenericNotify t ulValue eAction k =
     do {
       let before = tcbs k t;
       let done = fst (notify_update eAction ulValue before);
       let k = set_tcb t (snd \<circ> notify_update eAction ulValue) k;
       k \<leftarrow> (if ucNotifyState before = WAITING_NOTIFICATION then do {
               k \<leftarrow> ready_now t k;
               configASSERT (pxContainer (lists k) (EventItem t) = None);
               taskYIELD_ANY_CORE_IF_USING_PREEMPTION t k
             } else Some k);
       Some (done, ulNotifiedValue before, k)
     }"

definition xTaskGenericNotifyFromISR ::
    "task \<Rightarrow> 32 word \<Rightarrow> notify_action \<Rightarrow> kernel \<Rightarrow> (bool \<times> bool \<times> 32 word \<times> kernel) option" where
  "xTaskGenericNotifyFromISR t ulValue eAction k =
     do {
       let before = tcbs k t;
       let done = fst (notify_update eAction ulValue before);
       let k = set_tcb t (snd \<circ> notify_update eAction ulValue) k;
       (woken, k) \<leftarrow> (if ucNotifyState before = WAITING_NOTIFICATION then do {
               configASSERT (pxContainer (lists k) (EventItem t) = None);
               k \<leftarrow> ready_or_pend t k;
               note_higher t k
             } else Some (False, k));
       Some (done, woken, ulNotifiedValue before, k)
     }"

definition vTaskGenericNotifyGiveFromISR :: "task \<Rightarrow> kernel \<Rightarrow> (bool \<times> kernel) option" where
  "vTaskGenericNotifyGiveFromISR t k =
     do {
       let before = tcbs k t;
       let k = set_tcb t (\<lambda>b. b\<lparr>ucNotifyState := NOTIFICATION_RECEIVED, ulNotifiedValue := ulNotifiedValue b + 1\<rparr>) k;
       if ucNotifyState before = WAITING_NOTIFICATION then do {
         configASSERT (pxContainer (lists k) (EventItem t) = None);
         k \<leftarrow> ready_or_pend t k;
         note_higher t k
       } else Some (False, k)
     }"

definition ulTaskGenericNotifyTake_block :: "tick \<Rightarrow> kernel \<Rightarrow> kernel option" where
  "ulTaskGenericNotifyTake_block xTicksToWait k =
     do {
       c \<leftarrow> pxCurrentTCB k;
       if ulNotifiedValue (tcbs k c) = 0 \<and> xTicksToWait > 0 then do {
         let k = set_tcb c (\<lambda>b. b\<lparr>ucNotifyState := WAITING_NOTIFICATION\<rparr>) (vTaskSuspendAll k);
         k \<leftarrow> prvAddCurrentTaskToDelayedList xTicksToWait k;
         resume_and_yield k
       } else Some k
     }"

definition ulTaskGenericNotifyTake_finish :: "bool \<Rightarrow> kernel \<Rightarrow> (32 word \<times> kernel) option" where
  "ulTaskGenericNotifyTake_finish xClearCountOnExit k =
     do {
       c \<leftarrow> pxCurrentTCB k;
       let v = ulNotifiedValue (tcbs k c);
       let k = (if v \<noteq> 0
                then set_tcb c (\<lambda>b. b\<lparr>ulNotifiedValue := (if xClearCountOnExit then 0 else v - 1)\<rparr>) k else k);
       Some (v, set_tcb c (\<lambda>b. b\<lparr>ucNotifyState := NOT_WAITING_NOTIFICATION\<rparr>) k)
     }"

definition xTaskGenericNotifyWait_block :: "32 word \<Rightarrow> tick \<Rightarrow> kernel \<Rightarrow> kernel option" where
  "xTaskGenericNotifyWait_block ulBitsToClearOnEntry xTicksToWait k =
     do {
       c \<leftarrow> pxCurrentTCB k;
       if ucNotifyState (tcbs k c) \<noteq> NOTIFICATION_RECEIVED \<and> xTicksToWait > 0 then do {
         let k = set_tcb c (\<lambda>b. b\<lparr>ulNotifiedValue := and (ulNotifiedValue b) (not ulBitsToClearOnEntry),
                                   ucNotifyState := WAITING_NOTIFICATION\<rparr>) (vTaskSuspendAll k);
         k \<leftarrow> prvAddCurrentTaskToDelayedList xTicksToWait k;
         resume_and_yield k
       } else Some k
     }"

definition xTaskGenericNotifyWait_finish :: "32 word \<Rightarrow> kernel \<Rightarrow> (bool \<times> 32 word \<times> kernel) option" where
  "xTaskGenericNotifyWait_finish ulBitsToClearOnExit k =
     do {
       c \<leftarrow> pxCurrentTCB k;
       let v = ulNotifiedValue (tcbs k c);
       let got = (ucNotifyState (tcbs k c) = NOTIFICATION_RECEIVED);
       let k = (if got then set_tcb c (\<lambda>b. b\<lparr>ulNotifiedValue := and (ulNotifiedValue b) (not ulBitsToClearOnExit)\<rparr>) k
                else k);
       Some (got, v, set_tcb c (\<lambda>b. b\<lparr>ucNotifyState := NOT_WAITING_NOTIFICATION\<rparr>) k)
     }"

definition xTaskGenericNotifyStateClear :: "task option \<Rightarrow> kernel \<Rightarrow> (bool \<times> kernel) option" where
  "xTaskGenericNotifyStateClear h k =
     do {
       t \<leftarrow> prvGetTCBFromHandle h k;
       Some (if ucNotifyState (tcbs k t) = NOTIFICATION_RECEIVED
             then (True, set_tcb t (\<lambda>b. b\<lparr>ucNotifyState := NOT_WAITING_NOTIFICATION\<rparr>) k) else (False, k))
     }"

definition ulTaskGenericNotifyValueClear :: "task option \<Rightarrow> 32 word \<Rightarrow> kernel \<Rightarrow> (32 word \<times> kernel) option" where
  "ulTaskGenericNotifyValueClear h ulBitsToClear k =
     do {
       t \<leftarrow> prvGetTCBFromHandle h k;
       Some (ulNotifiedValue (tcbs k t), set_tcb t (\<lambda>b. b\<lparr>ulNotifiedValue := and (ulNotifiedValue b) (not ulBitsToClear)\<rparr>) k)
     }"

end
