(* ===== verification/Rtos_Sched.thy ===== *)
theory Rtos_Sched
  imports Rtos_Tasks
begin

section \<open>Correctness of the scheduler\<close>

text \<open>
  The invariant of the scheduler's lists and counters, that every kernel call keeps it and
  returns, that the running task is always one of the most urgent ready tasks, and that a
  delayed task is readied by the tick it asked for.
\<close>

named_theorems kernel_unfold "the parts of the scheduler invariant"

subsection \<open>The list store of the scheduler\<close>

fun item_task :: "list_item \<Rightarrow> task" where
  "item_task (StateItem t) = t"
| "item_task (EventItem t) = t"

abbreviation delay_lists :: "list_name set" where
  "delay_lists \<equiv> {DelayedTaskList1, DelayedTaskList2}"

definition store_ok :: "list_name set \<Rightarrow> task_lists \<Rightarrow> bool" where
  "store_ok L s \<longleftrightarrow>
     lists_ok L s \<and> (\<forall>l\<in>delay_lists. value_sorted s (items s l)) \<and> delay_lists \<subseteq> L \<and>
     (\<forall>i l. pxContainer s i = Some l \<longrightarrow> l \<in> L \<and> pvOwner s i = Some (item_task i))"

lemma sorted_remove1: "sorted_wrt P xs \<Longrightarrow> sorted_wrt P (remove1 x xs)"
proof (induction xs)
  case (Cons y xs)
  then show ?case using set_remove1_subset[of x xs] by auto
qed simp

lemma store_remove:
  assumes ok: "store_ok L s" and i: "pxContainer s i = Some l"
  obtains s' n where "uxListRemove i s = Some (n, s')" "listREMOVE_ITEM i s = Some s'" "store_ok L s'"
    "pxContainer s' = (pxContainer s)(i := None)" "xItemValue s' = xItemValue s" "pvOwner s' = pvOwner s"
    "items s' l = remove1 i (items s l)" "\<forall>l'\<in>L. l' \<noteq> l \<longrightarrow> items s' l' = items s l'"
    "n = length (items s l) - 1"
proof -
  have l: "l \<in> L" and lok: "lists_ok L s" using ok i by (auto simp: store_ok_def)
  from remove_ok[OF lok l i] obtain s' where s': "uxListRemove i s = Some (length (items s l) - 1, s')"
    "listREMOVE_ITEM i s = Some s'" "becomes L s l (remove1 i (items s l)) ((pxContainer s)(i := None)) s'" by blast
  note b = becomesD[OF s'(3)]
  have "value_sorted s' (items s' d)" if "d \<in> delay_lists" for d
    using ok that b(2,4,6) by (cases "d = l") (auto simp: store_ok_def value_sorted_def sorted_remove1)
  then have "store_ok L s'" using ok b by (auto simp: store_ok_def)
  with s' b show ?thesis by (intro that) auto
qed

lemma store_insert_end:
  assumes ok: "store_ok L s" and i: "pxContainer s i = None" "pvOwner s i = Some (item_task i)"
    and l: "l \<in> L" "l \<notin> delay_lists"
  obtains s' where "listINSERT_END l i s = s'" "store_ok L s'"
    "pxContainer s' = (pxContainer s)(i := Some l)" "xItemValue s' = xItemValue s" "pvOwner s' = pvOwner s"
    "items s' l = ins_before (pxIndex s l) i (items s l)" "\<forall>l'\<in>L. l' \<noteq> l \<longrightarrow> items s' l' = items s l'"
proof -
  have lok: "lists_ok L s" using ok by (simp add: store_ok_def)
  note b = becomesD[OF insert_end_ok(1)[OF lok l(1) i(1)]]
  have "value_sorted (vListInsertEnd l i s) (items (vListInsertEnd l i s) d)" if "d \<in> delay_lists" for d
  proof -
    have "d \<noteq> l" "d \<in> L" using l that ok by (auto simp: store_ok_def)
    then show ?thesis using ok that b(4,6) by (auto simp: store_ok_def value_sorted_def)
  qed
  then have "store_ok L (vListInsertEnd l i s)" using ok b i l by (auto simp: store_ok_def)
  with b show ?thesis by (intro that[of "vListInsertEnd l i s"]) (auto simp: listINSERT_END_def)
qed

lemma store_insert:
  assumes ok: "store_ok L s" and i: "pxContainer s i = None" "pvOwner s i = Some (item_task i)" and l: "l \<in> L"
  obtains s' where "vListInsert l i s = Some s'" "store_ok L s'"
    "pxContainer s' = (pxContainer s)(i := Some l)" "xItemValue s' = xItemValue s" "pvOwner s' = pvOwner s"
    "items s' l = in_order (\<lambda>x. xItemValue s (Item x)) i (items s l)" "\<forall>l'\<in>L. l' \<noteq> l \<longrightarrow> items s' l' = items s l'"
proof -
  have lok: "lists_ok L s" using ok by (simp add: store_ok_def)
  from insert_ok[OF lok l i(1)] obtain s' where s': "vListInsert l i s = Some s'"
    "becomes L s l (in_order (\<lambda>x. xItemValue s (Item x)) i (items s l)) ((pxContainer s)(i := Some l)) s'" by blast
  note b = becomesD[OF s'(2)]
  have "value_sorted s' (items s' d)" if d: "d \<in> delay_lists" for d
  proof (cases "d = l")
    case True
    have "value_sorted s (items s l)" using ok d True by (auto simp: store_ok_def)
    from sorted_in_order[OF this[unfolded value_sorted_def]] show ?thesis
      using True b(2,6) by (simp add: value_sorted_def)
  next
    case False
    moreover have "d \<in> L" using ok d by (auto simp: store_ok_def)
    ultimately show ?thesis using ok d b(4,6) by (auto simp: store_ok_def value_sorted_def)
  qed
  then have "store_ok L s'" using ok b i l by (auto simp: store_ok_def)
  with s' b show ?thesis by (intro that) auto
qed

lemma store_mem: "store_ok L s \<Longrightarrow> l \<in> L \<Longrightarrow> i \<in> set (items s l) \<longleftrightarrow> pxContainer s i = Some l"
  using lists_okD(2)[of L s l i] by (simp add: store_ok_def)

lemma store_empty: "store_ok L s \<Longrightarrow> l \<in> L \<Longrightarrow> listLIST_IS_EMPTY l s \<longleftrightarrow> (\<forall>i. pxContainer s i \<noteq> Some l)"
  using store_mem[of L s l] items_facts(3)[of L s l]
  by (metis store_ok_def last_in_set list.set(1) empty_iff)

lemma store_value:
  assumes "store_ok L s" "\<forall>l\<in>delay_lists. pxContainer s i \<noteq> Some l"
  shows "store_ok L (listSET_LIST_ITEM_VALUE i v s)"
proof -
  have "value_sorted (listSET_LIST_ITEM_VALUE i v s) (items s d)" if d: "d \<in> delay_lists" for d
  proof -
    have "d \<in> L" "value_sorted s (items s d)" using assms(1) d by (auto simp: store_ok_def)
    moreover from this have "i \<notin> set (items s d)" using assms d store_mem by blast
    ultimately show ?thesis
      unfolding value_sorted_def by (subst sorted_wrt_mono_rel[where P = "\<lambda>x y. xItemValue s (Item x) \<le> xItemValue s (Item y)"]) auto
  qed
  then show ?thesis using assms(1) by (auto simp: store_ok_def)
qed

lemma store_head:
  assumes ok: "store_ok L s" and l: "l \<in> L" and ne: "\<not> listLIST_IS_EMPTY l s"
  obtains i where "pxNext s (Marker l) = Item i" "items s l = i # tl (items s l)" "pxContainer s i = Some l"
    "listGET_OWNER_OF_HEAD_ENTRY l s = Some (item_task i)"
    "listGET_ITEM_VALUE_OF_HEAD_ENTRY l s = xItemValue s (Item i)"
proof -
  have lok: "lists_ok L s" using ok by (simp add: store_ok_def)
  note facts = items_facts[OF lok l]
  obtain i xs where xs: "items s l = i # xs" using ne facts(3) by (cases "items s l") auto
  then have n: "pxNext s (Marker l) = Item i" using facts(4) by simp
  have c: "pxContainer s i = Some l" using store_mem[OF ok l, of i] xs by simp
  then have "pvOwner s i = Some (item_task i)" using ok by (auto simp: store_ok_def)
  with n xs c show ?thesis
    by (intro that[of i]) (simp_all add: listGET_OWNER_OF_HEAD_ENTRY_def listGET_ITEM_VALUE_OF_HEAD_ENTRY_def node_owner_def)
qed

lemma store_head_least:
  assumes ok: "store_ok L s" and l: "l \<in> delay_lists" and i: "items s l = i # xs" and j: "pxContainer s j = Some l"
  shows "xItemValue s (Item i) \<le> xItemValue s (Item j)"
proof -
  have "value_sorted s (i # xs)" "l \<in> L" using ok l i by (auto simp: store_ok_def)
  moreover have "j \<in> set (i # xs)" using store_mem[OF ok \<open>l \<in> L\<close>, of j] i j by simp
  ultimately show ?thesis by (auto simp: value_sorted_def)
qed

lemma store_next_entry:
  assumes ok: "store_ok L s" and l: "l \<in> L" and ne: "\<not> listLIST_IS_EMPTY l s"
  obtains i s' where "listGET_OWNER_OF_NEXT_ENTRY l s = Some (item_task i, s')" "pxContainer s i = Some l"
    "store_ok L s'" "pxContainer s' = pxContainer s" "xItemValue s' = xItemValue s" "pvOwner s' = pvOwner s"
    "items s' = items s"
proof -
  have lok: "lists_ok L s" using ok by (simp add: store_ok_def)
  have some: "items s l \<noteq> []" using ne items_facts(3)[OF lok l] by simp
  from index_somewhere[OF lok l some] obtain j where j: "index_at s l j" by blast
  let ?i = "items s l ! (Suc j mod length (items s l))"
  have i: "?i \<in> set (items s l)" using some by simp
  then have c: "pxContainer s ?i = Some l" using store_mem[OF ok l] by simp
  then have "pvOwner s ?i = Some (item_task ?i)" using ok by (auto simp: store_ok_def)
  from next_entry_ok[OF lok l j this] obtain s' where s': "listGET_OWNER_OF_NEXT_ENTRY l s = Some (item_task ?i, s')"
    "s' = s\<lparr>pxIndex := (pxIndex s)(l := Item ?i)\<rparr>" by blast
  note same = lists_ok_index[OF lok l i, folded s'(2)]
  have "store_ok L s'" using ok same by (simp add: store_ok_def value_sorted_def) (simp add: s'(2))
  moreover have "pxContainer s' = pxContainer s" "xItemValue s' = xItemValue s" "pvOwner s' = pvOwner s"
    by (simp_all add: s'(2))
  ultimately show ?thesis by (rule that[OF s'(1) c _ _ _ _ same(2)])
qed

subsection \<open>The invariant\<close>

abbreviation home :: "kernel \<Rightarrow> list_item \<Rightarrow> list_name option" where
  "home k i \<equiv> pxContainer (lists k) i"

abbreviation wake :: "kernel \<Rightarrow> task \<Rightarrow> tick" where
  "wake k t \<equiv> xItemValue (lists k) (Item (StateItem t))"

definition kernel_lists :: "list_name set" where
  "kernel_lists = ReadyTasksList ` {..<configMAX_PRIORITIES} \<union>
     {DelayedTaskList1, DelayedTaskList2, PendingReadyList, TasksWaitingTermination}"

text \<open>The tasks that exist, those that can run, and those that wait for a time or an event.\<close>

definition exists_task :: "kernel \<Rightarrow> task \<Rightarrow> bool" where
  "exists_task k t \<longleftrightarrow> home k (StateItem t) \<noteq> None \<and> home k (StateItem t) \<noteq> Some TasksWaitingTermination"

definition is_ready :: "kernel \<Rightarrow> task \<Rightarrow> bool" where
  "is_ready k t \<longleftrightarrow> home k (StateItem t) = Some (ReadyTasksList (priority k t))"

definition is_blocked :: "kernel \<Rightarrow> task \<Rightarrow> bool" where
  "is_blocked k t \<longleftrightarrow> home k (StateItem t) \<in> Some ` delay_lists"

definition pointers_ok :: "kernel \<Rightarrow> bool" where [kernel_unfold]:
  "pointers_ok k \<longleftrightarrow>
     (pxDelayedTaskList k, pxOverflowDelayedTaskList k)
       \<in> {(DelayedTaskList1, DelayedTaskList2), (DelayedTaskList2, DelayedTaskList1)}"

definition states_ok :: "kernel \<Rightarrow> bool" where [kernel_unfold]:
  "states_ok k \<longleftrightarrow>
     (\<forall>t. home k (StateItem t) \<noteq> None \<longrightarrow>
        priority k t < configMAX_PRIORITIES \<and>
        (is_ready k t \<and> priority k t \<le> uxTopReadyPriority k \<or> is_blocked k t \<or>
         home k (StateItem t) = Some TasksWaitingTermination))"

definition events_ok :: "kernel \<Rightarrow> bool" where [kernel_unfold]:
  "events_ok k \<longleftrightarrow>
     (\<forall>t l. home k (EventItem t) = Some l \<longrightarrow>
        (\<exists>e. l = EventList e) \<and> is_blocked k t \<or>
        l = PendingReadyList \<and> uxSchedulerSuspended k \<noteq> 0 \<and> exists_task k t)"

definition notify_ok :: "kernel \<Rightarrow> bool" where [kernel_unfold]:
  "notify_ok k \<longleftrightarrow>
     (\<forall>t. exists_task k t \<and> ucNotifyState (tcbs k t) = WAITING_NOTIFICATION \<longrightarrow> home k (EventItem t) = None)"

definition overflow_ok :: "kernel \<Rightarrow> bool" where [kernel_unfold]:
  "overflow_ok k \<longleftrightarrow>
     (\<forall>t. home k (StateItem t) = Some (pxOverflowDelayedTaskList k) \<longrightarrow> wake k t < xTickCount k)"

definition counts_ok :: "kernel \<Rightarrow> bool" where [kernel_unfold]:
  "counts_ok k \<longleftrightarrow>
     finite {t. home k (StateItem t) \<noteq> None} \<and>
     uxCurrentNumberOfTasks k = card {t. home k (StateItem t) \<noteq> None} \<and>
     uxDeletedTasksWaitingCleanUp k = length (items (lists k) TasksWaitingTermination)"

definition owners_ok :: "kernel \<Rightarrow> bool" where [kernel_unfold]:
  "owners_ok k \<longleftrightarrow>
     (\<forall>t. home k (StateItem t) \<noteq> None \<longrightarrow> pvOwner (lists k) (EventItem t) = Some t)"

definition sane :: "list_name set \<Rightarrow> kernel \<Rightarrow> bool" where
  "sane L k \<longleftrightarrow>
     store_ok L (lists k) \<and> kernel_lists \<subseteq> L \<and> uxTopReadyPriority k < configMAX_PRIORITIES \<and>
     pointers_ok k \<and> states_ok k \<and> events_ok k \<and> notify_ok k \<and> overflow_ok k \<and> counts_ok k \<and> owners_ok k"

text \<open>No task in the delayed list is overdue, and the next unblock time is not after any of them.\<close>

definition punctual :: "kernel \<Rightarrow> bool" where
  "punctual k \<longleftrightarrow>
     (\<forall>t. home k (StateItem t) = Some (pxDelayedTaskList k) \<longrightarrow>
        xTickCount k < wake k t \<and> xNextTaskUnblockTime k \<le> wake k t)"

text \<open>The running task is one of the most urgent ones, or a switch is pending.\<close>

definition most_urgent :: "kernel \<Rightarrow> task \<Rightarrow> bool" where
  "most_urgent k c \<longleftrightarrow> (\<forall>t. is_ready k t \<longrightarrow> priority k t \<le> priority k c)"

definition urgent_runs :: "kernel \<Rightarrow> bool" where
  "urgent_runs k \<longleftrightarrow> (\<exists>c. pxCurrentTCB k = Some c \<and> (xYieldPending k \<or> most_urgent k c))"

definition tcb_ok :: "tcb \<Rightarrow> bool" where
  "tcb_ok b \<longleftrightarrow> stack_intact b \<and> uxBasePriority b \<le> uxPriority b"

lemma tcb_ok_fields [simp]:
  "tcb_ok (b\<lparr>ucNotifyState := n\<rparr>) = tcb_ok b" "tcb_ok (b\<lparr>ulNotifiedValue := v\<rparr>) = tcb_ok b"
  "tcb_ok (b\<lparr>uxMutexesHeld := m\<rparr>) = tcb_ok b"
  by (simp_all add: tcb_ok_def)

definition steady :: "list_name set \<Rightarrow> task \<Rightarrow> kernel \<Rightarrow> bool" where
  "steady L idle k \<longleftrightarrow> sane L k \<and> punctual k \<and> is_ready k idle \<and> (\<forall>t. tcb_ok (tcbs k t))"

definition scheduler_ok :: "list_name set \<Rightarrow> task \<Rightarrow> kernel \<Rightarrow> bool" where
  "scheduler_ok L idle k \<longleftrightarrow>
     steady L idle k \<and> urgent_runs k \<and> xSchedulerRunning k \<and>
     (uxSchedulerSuspended k = 0 \<longrightarrow>
        xPendedTicks k = 0 \<and> (\<exists>c. pxCurrentTCB k = Some c \<and> is_ready k c))"

lemma saneD:
  assumes "sane L k"
  shows "store_ok L (lists k)" "kernel_lists \<subseteq> L" "uxTopReadyPriority k < configMAX_PRIORITIES"
    "pointers_ok k" "states_ok k" "events_ok k" "notify_ok k" "overflow_ok k" "counts_ok k" "owners_ok k"
  using assms by (simp_all add: sane_def)

lemma known_lists:
  assumes "sane L k"
  shows "p < configMAX_PRIORITIES \<Longrightarrow> ReadyTasksList p \<in> L"
    "pxDelayedTaskList k \<in> L" "pxOverflowDelayedTaskList k \<in> L" "PendingReadyList \<in> L" "TasksWaitingTermination \<in> L"
  using saneD(2,4)[OF assms] by (auto simp: kernel_lists_def pointers_ok_def)

lemma delay_pointers:
  assumes "sane L k"
  shows "pxDelayedTaskList k \<in> delay_lists" "pxOverflowDelayedTaskList k \<in> delay_lists"
    "pxDelayedTaskList k \<noteq> pxOverflowDelayedTaskList k"
    "delay_lists = {pxDelayedTaskList k, pxOverflowDelayedTaskList k}"
  using saneD(4)[OF assms] by (auto simp: pointers_ok_def)

lemma ready_home:
  assumes "sane L k" "home k (StateItem t) = Some (ReadyTasksList p)"
  shows "is_ready k t" "p = priority k t" "p < configMAX_PRIORITIES" "p \<le> uxTopReadyPriority k"
proof -
  have "priority k t < configMAX_PRIORITIES \<and>
      (is_ready k t \<and> priority k t \<le> uxTopReadyPriority k \<or> is_blocked k t \<or>
         home k (StateItem t) = Some TasksWaitingTermination)"
    using saneD(5)[OF assms(1)] assms(2) by (auto simp: states_ok_def)
  with assms(2) show "is_ready k t" "p = priority k t" "p < configMAX_PRIORITIES" "p \<le> uxTopReadyPriority k"
    by (auto simp: is_ready_def is_blocked_def)
qed

lemma event_home:
  assumes "sane L k" "home k (EventItem t) = Some l"
  shows "(\<exists>e. l = EventList e) \<and> is_blocked k t \<or> l = PendingReadyList \<and> uxSchedulerSuspended k \<noteq> 0 \<and> exists_task k t"
    and "l \<notin> delay_lists" "l \<noteq> TasksWaitingTermination" "l \<noteq> ReadyTasksList p"
  using saneD(6)[OF assms(1), unfolded events_ok_def, rule_format, OF assms(2)] by auto

lemma ready_item:
  assumes "sane L k" "home k i = Some (ReadyTasksList p)"
  shows "i = StateItem (item_task i)"
  using event_home(4)[OF assms(1)] assms(2) by (cases i) auto

subsection \<open>Selecting a task\<close>

lemma highest_ready_finds:
  assumes ok: "store_ok L s" and L: "ReadyTasksList ` {..<configMAX_PRIORITIES} \<subseteq> L"
    and some: "\<not> listLIST_IS_EMPTY (ReadyTasksList q) s" "q \<le> p" "p < configMAX_PRIORITIES"
  shows "\<exists>r. highest_ready p s = Some r \<and> r \<le> p \<and> \<not> listLIST_IS_EMPTY (ReadyTasksList r) s \<and>
             (\<forall>r'. r < r' \<and> r' \<le> p \<longrightarrow> listLIST_IS_EMPTY (ReadyTasksList r') s)"
  using some(2,3)
proof (induction p)
  case 0
  then show ?case using some(1) by (subst highest_ready.simps) simp
next
  case (Suc p)
  show ?case
  proof (cases "listLIST_IS_EMPTY (ReadyTasksList (Suc p)) s")
    case True
    with some(1) Suc.prems have "q \<le> p" by (metis le_SucE)
    with Suc.IH Suc.prems obtain r where r: "highest_ready p s = Some r" "r \<le> p"
      "\<not> listLIST_IS_EMPTY (ReadyTasksList r) s" "\<forall>r'. r < r' \<and> r' \<le> p \<longrightarrow> listLIST_IS_EMPTY (ReadyTasksList r') s"
      by auto
    then show ?thesis using True
      by (subst highest_ready.simps) (auto simp: le_Suc_eq)
  next
    case False
    then show ?thesis by (subst highest_ready.simps) auto
  qed
qed

text \<open>A change of the store that keeps containers and wake times, and of fields the invariant does not read.\<close>

lemma select_ok:
  assumes sane: "sane L k" and ready: "is_ready k idle"
  obtains t s p where
    "taskSELECT_HIGHEST_PRIORITY_TASK k = Some (k\<lparr>lists := s, pxCurrentTCB := Some t, uxTopReadyPriority := p\<rparr>)"
    "sane L (k\<lparr>lists := s, pxCurrentTCB := Some t, uxTopReadyPriority := p\<rparr>)"
    "pxContainer s = pxContainer (lists k)" "xItemValue s = xItemValue (lists k)" "items s = items (lists k)"
    "is_ready k t" "most_urgent k t"
proof -
  note inv = saneD[OF sane]
  have pr: "priority k idle < configMAX_PRIORITIES" "priority k idle \<le> uxTopReadyPriority k"
    using ready_home[OF sane ready[unfolded is_ready_def]] by auto
  have rl: "ReadyTasksList ` {..<configMAX_PRIORITIES} \<subseteq> L" using inv(2) by (auto simp: kernel_lists_def)
  have "\<not> listLIST_IS_EMPTY (ReadyTasksList (priority k idle)) (lists k)"
    using store_empty[OF inv(1) known_lists(1)[OF sane pr(1)]] ready by (auto simp: is_ready_def)
  from highest_ready_finds[OF inv(1) rl this pr(2) inv(3)] obtain p where
    p: "highest_ready (uxTopReadyPriority k) (lists k) = Some p" "p \<le> uxTopReadyPriority k"
      "\<not> listLIST_IS_EMPTY (ReadyTasksList p) (lists k)"
      "\<forall>r'. p < r' \<and> r' \<le> uxTopReadyPriority k \<longrightarrow> listLIST_IS_EMPTY (ReadyTasksList r') (lists k)" by blast
  have pL: "ReadyTasksList p \<in> L" using p(2) inv(3) known_lists(1)[OF sane] by simp
  from store_next_entry[OF inv(1) pL p(3)] obtain i s where
    s: "listGET_OWNER_OF_NEXT_ENTRY (ReadyTasksList p) (lists k) = Some (item_task i, s)"
      "home k i = Some (ReadyTasksList p)" "store_ok L s" "pxContainer s = pxContainer (lists k)"
      "xItemValue s = xItemValue (lists k)" "items s = items (lists k)" "pvOwner s = pvOwner (lists k)" by blast
  define t where "t = item_task i"
  have "home k (StateItem t) = Some (ReadyTasksList p)" using s(2) ready_item[OF sane s(2)] by (simp add: t_def)
  note t = ready_home[OF sane this]
  have top: "priority k u \<le> p" if "is_ready k u" for u
  proof (rule ccontr)
    assume "\<not> priority k u \<le> p"
    moreover note u = ready_home[OF sane that[unfolded is_ready_def]]
    ultimately have "listLIST_IS_EMPTY (ReadyTasksList (priority k u)) (lists k)" using p(4) by auto
    then show False
      using store_empty[OF inv(1) known_lists(1)[OF sane u(3)]] that by (auto simp: is_ready_def)
  qed
  let ?k = "k\<lparr>lists := s, pxCurrentTCB := Some t, uxTopReadyPriority := p\<rparr>"
  have "sane L ?k"
    unfolding sane_def
  proof (intro conjI)
    show "states_ok ?k"
      using inv(5) top s(4) by (auto simp: states_ok_def is_ready_def is_blocked_def)
    show "counts_ok ?k" using inv(9) s(4,6) by (simp add: counts_ok_def)
  qed (use inv p(2) s(3,4,5,7) in \<open>simp_all add: pointers_ok_def events_ok_def notify_ok_def overflow_ok_def
         owners_ok_def is_blocked_def exists_task_def\<close>)
  moreover have "taskSELECT_HIGHEST_PRIORITY_TASK k = Some ?k"
    using p(1) s(1) by (simp add: taskSELECT_HIGHEST_PRIORITY_TASK_def t_def)
  moreover have "most_urgent k t" using top t(2) by (simp add: most_urgent_def)
  ultimately show ?thesis using s(4-6) t(1) by (intro that)
qed

subsection \<open>Fields the invariant does not read\<close>

lemmas kernel_views = is_ready_def is_blocked_def exists_task_def most_urgent_def

lemma sane_fields [simp]:
  "sane L (k\<lparr>xYieldPending := b\<rparr>) = sane L k"
  "sane L (k\<lparr>pxCurrentTCB := c\<rparr>) = sane L k"
  "sane L (k\<lparr>uxTaskNumber := n\<rparr>) = sane L k"
  "sane L (k\<lparr>xPendedTicks := w\<rparr>) = sane L k"
  "sane L (k\<lparr>xNextTaskUnblockTime := w\<rparr>) = sane L k"
  "sane L (k\<lparr>freed_tasks := ts\<rparr>) = sane L k"
  by (simp_all add: sane_def kernel_unfold kernel_views)

lemma view_fields [simp]:
  "is_ready (k\<lparr>xYieldPending := b\<rparr>) = is_ready k" "is_ready (k\<lparr>pxCurrentTCB := c\<rparr>) = is_ready k"
  "is_ready (k\<lparr>xPendedTicks := w\<rparr>) = is_ready k" "is_ready (k\<lparr>xNextTaskUnblockTime := w\<rparr>) = is_ready k"
  "is_ready (k\<lparr>uxTaskNumber := n\<rparr>) = is_ready k" "is_ready (k\<lparr>freed_tasks := ts\<rparr>) = is_ready k"
  "is_ready (k\<lparr>uxSchedulerSuspended := n\<rparr>) = is_ready k" "is_ready (k\<lparr>xTickCount := w\<rparr>) = is_ready k"
  "punctual (k\<lparr>xYieldPending := b\<rparr>) = punctual k" "punctual (k\<lparr>pxCurrentTCB := c\<rparr>) = punctual k"
  "punctual (k\<lparr>xPendedTicks := w\<rparr>) = punctual k" "punctual (k\<lparr>uxTaskNumber := n\<rparr>) = punctual k"
  "punctual (k\<lparr>freed_tasks := ts\<rparr>) = punctual k" "punctual (k\<lparr>uxSchedulerSuspended := n\<rparr>) = punctual k"
  by (simp_all add: fun_eq_iff kernel_views punctual_def)

lemma steady_fields [simp]:
  "steady L i (k\<lparr>xYieldPending := b\<rparr>) = steady L i k"
  "steady L i (k\<lparr>pxCurrentTCB := c\<rparr>) = steady L i k"
  "steady L i (k\<lparr>xPendedTicks := w\<rparr>) = steady L i k"
  "steady L i (k\<lparr>uxTaskNumber := n\<rparr>) = steady L i k"
  "steady L i (k\<lparr>freed_tasks := ts\<rparr>) = steady L i k"
  by (simp_all add: steady_def)

lemma urgent_fields [simp]:
  "urgent_runs (k\<lparr>xPendedTicks := w\<rparr>) = urgent_runs k"
  "urgent_runs (k\<lparr>uxSchedulerSuspended := n\<rparr>) = urgent_runs k"
  "urgent_runs (k\<lparr>xNextTaskUnblockTime := w\<rparr>) = urgent_runs k"
  "urgent_runs (k\<lparr>xYieldPending := True\<rparr>) = (pxCurrentTCB k \<noteq> None)"
  by (auto simp: urgent_runs_def kernel_views)

lemma steadyD:
  assumes "steady L idle k"
  shows "sane L k" "punctual k" "is_ready k idle" "tcb_ok (tcbs k t)"
  using assms by (simp_all add: steady_def)

subsection \<open>Switching\<close>

lemma switch_ok:
  assumes "steady L idle k" "uxSchedulerSuspended k = 0" "pxCurrentTCB k \<noteq> None"
  obtains t s p where
    "vTaskSwitchContext k =
       Some (k\<lparr>xYieldPending := False, lists := s, pxCurrentTCB := Some t, uxTopReadyPriority := p\<rparr>)"
    "steady L idle (k\<lparr>xYieldPending := False, lists := s, pxCurrentTCB := Some t, uxTopReadyPriority := p\<rparr>)"
    "pxContainer s = pxContainer (lists k)" "xItemValue s = xItemValue (lists k)" "items s = items (lists k)"
    "is_ready k t" "most_urgent k t"
proof -
  let ?k = "k\<lparr>xYieldPending := False\<rparr>"
  note st = steadyD[OF assms(1)]
  have "sane L ?k" "is_ready ?k idle" using st by simp_all
  from select_ok[OF this] obtain t s p where
    r: "taskSELECT_HIGHEST_PRIORITY_TASK ?k = Some (?k\<lparr>lists := s, pxCurrentTCB := Some t, uxTopReadyPriority := p\<rparr>)"
      "sane L (?k\<lparr>lists := s, pxCurrentTCB := Some t, uxTopReadyPriority := p\<rparr>)"
      "pxContainer s = pxContainer (lists ?k)" "xItemValue s = xItemValue (lists ?k)" "items s = items (lists ?k)"
      "is_ready ?k t" "most_urgent ?k t" .
  show ?thesis
  proof (rule that)
    show "vTaskSwitchContext k =
       Some (k\<lparr>xYieldPending := False, lists := s, pxCurrentTCB := Some t, uxTopReadyPriority := p\<rparr>)"
      using assms(2,3) st(4) r(1) by (auto simp: vTaskSwitchContext_def configASSERT_def tcb_ok_def)
    show "steady L idle (k\<lparr>xYieldPending := False, lists := s, pxCurrentTCB := Some t, uxTopReadyPriority := p\<rparr>)"
      using r(2) st r(3,4) by (simp add: steady_def is_ready_def punctual_def)
    show "most_urgent k t" using r(7) by (simp add: kernel_views)
  qed (use r in simp_all)
qed

text \<open>
  What is the same before and after a switch: where every task is, what it is doing and what
  time it is.
\<close>

definition same_tasks :: "kernel \<Rightarrow> kernel \<Rightarrow> bool" where
  "same_tasks k k' \<longleftrightarrow>
     pxContainer (lists k') = pxContainer (lists k) \<and> xItemValue (lists k') = xItemValue (lists k) \<and>
     tcbs k' = tcbs k \<and> xTickCount k' = xTickCount k \<and> pxDelayedTaskList k' = pxDelayedTaskList k \<and>
     pxOverflowDelayedTaskList k' = pxOverflowDelayedTaskList k \<and>
     uxSchedulerSuspended k' = uxSchedulerSuspended k \<and> xPendedTicks k' = xPendedTicks k \<and>
     xNumOfOverflows k' = xNumOfOverflows k \<and> xSchedulerRunning k' = xSchedulerRunning k \<and>
     uxCurrentNumberOfTasks k' = uxCurrentNumberOfTasks k"

lemma yield_ok:
  assumes st: "steady L idle k" and run: "xSchedulerRunning k" and c: "pxCurrentTCB k \<noteq> None"
    and susp: "uxSchedulerSuspended k = 0" "xPendedTicks k = 0"
  obtains k' where "portYIELD k = Some k'" "scheduler_ok L idle k'" "same_tasks k k'"
    "\<not> xYieldPending k'" "\<exists>t. pxCurrentTCB k' = Some t \<and> is_ready k' t \<and> most_urgent k' t"
proof -
  from switch_ok[OF st susp(1) c] obtain t s p where
    r: "vTaskSwitchContext k =
         Some (k\<lparr>xYieldPending := False, lists := s, pxCurrentTCB := Some t, uxTopReadyPriority := p\<rparr>)"
      "steady L idle (k\<lparr>xYieldPending := False, lists := s, pxCurrentTCB := Some t, uxTopReadyPriority := p\<rparr>)"
      "pxContainer s = pxContainer (lists k)" "xItemValue s = xItemValue (lists k)" "is_ready k t" "most_urgent k t"
    by blast
  let ?k = "k\<lparr>xYieldPending := False, lists := s, pxCurrentTCB := Some t, uxTopReadyPriority := p\<rparr>"
  have v: "is_ready ?k t" "most_urgent ?k t" using r(3,5,6) by (simp_all add: kernel_views)
  then have "scheduler_ok L idle ?k"
    using r(2) run susp(2) by (simp add: scheduler_ok_def urgent_runs_def)
  then show ?thesis
    using r(1,3,4) v by (intro that[of ?k]) (simp_all add: portYIELD_def same_tasks_def)
qed

subsection \<open>Moving tasks between states\<close>

lemma sane_ready:
  assumes sane: "sane L k" and t: "exists_task k t" "home k (StateItem t) = Some l"
    and s: "store_ok L s" "\<And>u. xItemValue s (Item (StateItem u)) = wake k u"
      "pxContainer s = (pxContainer (lists k))(StateItem t := Some (ReadyTasksList (uxPriority b)), EventItem t := x)"
      "items s TasksWaitingTermination = items (lists k) TasksWaitingTermination" "pvOwner s = pvOwner (lists k)"
    and x: "x = None \<or> x = Some PendingReadyList \<and> home k (EventItem t) = x"
    and b: "uxPriority b < configMAX_PRIORITIES" "ucNotifyState b = WAITING_NOTIFICATION \<longrightarrow> x = None"
  shows "sane L (k\<lparr>lists := s, tcbs := (tcbs k)(t := b), uxTopReadyPriority := max (uxTopReadyPriority k) (uxPriority b)\<rparr>)"
proof -
  note inv = saneD[OF sane]
  let ?k = "k\<lparr>lists := s, tcbs := (tcbs k)(t := b), uxTopReadyPriority := max (uxTopReadyPriority k) (uxPriority b)\<rparr>"
  have other: "home ?k (StateItem u) = home k (StateItem u)" if "u \<noteq> t" for u using s(3) that by simp
  have dom: "{u. home ?k (StateItem u) \<noteq> None} = {u. home k (StateItem u) \<noteq> None}"
    using s(3) t(2) by auto
  show ?thesis
    unfolding sane_def
  proof (intro conjI)
    show "states_ok ?k"
      using inv(5) s(3) b(1) by (auto simp: states_ok_def is_ready_def is_blocked_def)
    show "events_ok ?k"
      using inv(6) s(3) x by (auto simp: events_ok_def is_blocked_def exists_task_def)
    show "notify_ok ?k"
      using inv(7) s(3) b(2) by (auto simp: notify_ok_def exists_task_def)
    show "overflow_ok ?k"
      using inv(8) s(2,3) delay_pointers(2)[OF sane] by (auto simp: overflow_ok_def)
    show "counts_ok ?k"
      using inv(9) s(4) dom by (simp add: counts_ok_def)
    show "owners_ok ?k"
      using inv(10) s(3,5) t(2) by (auto simp: owners_ok_def)
  qed (use inv s(1) b(1) in \<open>simp_all add: pointers_ok_def\<close>)
qed

lemma sane_block:
  assumes sane: "sane L k" and c: "is_ready k c"
    and s: "store_ok L s" "\<And>u. xItemValue s (Item (StateItem u)) = (if u = c then w else wake k u)"
      "pxContainer s = (pxContainer (lists k))(StateItem c := Some d, EventItem c := x)"
      "items s TasksWaitingTermination = items (lists k) TasksWaitingTermination" "pvOwner s = pvOwner (lists k)"
    and d: "d = pxDelayedTaskList k \<or> d = pxOverflowDelayedTaskList k \<and> w < xTickCount k"
    and x: "x = home k (EventItem c) \<or> (\<exists>e. x = Some (EventList e)) \<and> ucNotifyState (tcbs k c) \<noteq> WAITING_NOTIFICATION"
  shows "sane L (k\<lparr>lists := s\<rparr>)"
proof -
  note inv = saneD[OF sane]
  let ?k = "k\<lparr>lists := s\<rparr>"
  have d2: "d \<in> delay_lists" using d delay_pointers[OF sane] by auto
  have dom: "{u. home ?k (StateItem u) \<noteq> None} = {u. home k (StateItem u) \<noteq> None}"
    using s(3) c by (auto simp: is_ready_def)
  show ?thesis
    unfolding sane_def
  proof (intro conjI)
    show "states_ok ?k"
      using inv(5) s(3) d2 c by (auto simp: states_ok_def is_ready_def is_blocked_def)
    show "events_ok ?k"
      unfolding events_ok_def
    proof (intro allI impI)
      fix u l assume l: "home ?k (EventItem u) = Some l"
      show "(\<exists>e. l = EventList e) \<and> is_blocked ?k u \<or>
        l = PendingReadyList \<and> uxSchedulerSuspended ?k \<noteq> 0 \<and> exists_task ?k u"
        using inv(6)[unfolded events_ok_def, rule_format, of u l] s(3) d2 x l
        by (cases "u = c") (auto simp: is_blocked_def exists_task_def)
    qed
    show "notify_ok ?k"
      using inv(7) s(3) x c d2 by (auto simp: notify_ok_def exists_task_def is_ready_def)
    show "overflow_ok ?k"
      using inv(8) s(2,3) d delay_pointers(3)[OF sane] by (auto simp: overflow_ok_def)
    show "counts_ok ?k"
      using inv(9) s(4) dom by (simp add: counts_ok_def)
    show "owners_ok ?k"
      using inv(10) s(3,5) c by (auto simp: owners_ok_def is_ready_def)
  qed (use inv s(1) in \<open>simp_all add: pointers_ok_def\<close>)
qed

text \<open>\<open>readied k t s\<close>: the state in which \<open>t\<close> has been put into its ready list, with the store \<open>s\<close>.\<close>

abbreviation readied :: "kernel \<Rightarrow> task \<Rightarrow> task_lists \<Rightarrow> kernel" where
  "readied k t s \<equiv> k\<lparr>lists := s, uxTopReadyPriority := max (uxTopReadyPriority k) (priority k t)\<rparr>"

lemma prvAddTaskToReadyList_eq:
  "prvAddTaskToReadyList t k = readied k t (listINSERT_END (ReadyTasksList (priority k t)) (StateItem t) (lists k))"
  by (cases k) (auto simp: prvAddTaskToReadyList_def taskRECORD_READY_PRIORITY_def on_lists_def Let_def)

lemma sane_readied:
  assumes sane: "sane L k" and t: "exists_task k t" "home k (StateItem t) = Some l"
    and s: "store_ok L s" "\<And>u. xItemValue s (Item (StateItem u)) = wake k u"
      "pxContainer s = (pxContainer (lists k))(StateItem t := Some (ReadyTasksList (priority k t)), EventItem t := x)"
      "items s TasksWaitingTermination = items (lists k) TasksWaitingTermination" "pvOwner s = pvOwner (lists k)"
    and x: "x = None \<or> x = Some PendingReadyList \<and> home k (EventItem t) = x"
  shows "sane L (readied k t s)"
proof -
  have "priority k t < configMAX_PRIORITIES"
    using saneD(5)[OF sane] t(2) by (auto simp: states_ok_def)
  moreover have "ucNotifyState (tcbs k t) = WAITING_NOTIFICATION \<longrightarrow> x = None"
    using saneD(7)[OF sane] t(1) x by (auto simp: notify_ok_def)
  ultimately have "sane L (k\<lparr>lists := s, tcbs := (tcbs k)(t := tcbs k t),
      uxTopReadyPriority := max (uxTopReadyPriority k) (priority k t)\<rparr>)"
    by (rule sane_ready[OF sane t s x])
  moreover have "k\<lparr>lists := s, tcbs := (tcbs k)(t := tcbs k t),
      uxTopReadyPriority := max (uxTopReadyPriority k) (priority k t)\<rparr> = readied k t s"
    by (cases k) simp
  ultimately show ?thesis by simp
qed

lemma unblock_head_ok:
  assumes sane: "sane L k" and t: "home k (StateItem t) = Some d" "d \<in> delay_lists"
  obtains s where "unblock_head t k = Some (readied k t s)" "sane L (readied k t s)"
    "xItemValue s = xItemValue (lists k)"
    "pxContainer s = (pxContainer (lists k))(StateItem t := Some (ReadyTasksList (priority k t)), EventItem t := None)"
    "length (items s d) < length (items (lists k) d)"
proof -
  note inv = saneD[OF sane]
  let ?r = "ReadyTasksList (priority k t)"
  have dL: "d \<in> L" using t inv(1) by (auto simp: store_ok_def)
  have p: "priority k t < configMAX_PRIORITIES" using inv(5) t(1) by (auto simp: states_ok_def)
  note rL = known_lists(1)[OF sane p] and tL = known_lists(5)[OF sane]
  have own: "pvOwner (lists k) (StateItem t) = Some t" using inv(1) t(1) by (force simp: store_ok_def)
  have mem: "StateItem t \<in> set (items (lists k) d)" using store_mem[OF inv(1) dL] t(1) by simp
  from store_remove[OF inv(1) t(1)] obtain s1 where
    s1: "listREMOVE_ITEM (StateItem t) (lists k) = Some s1" "store_ok L s1"
      "pxContainer s1 = (pxContainer (lists k))(StateItem t := None)" "xItemValue s1 = xItemValue (lists k)"
      "pvOwner s1 = pvOwner (lists k)" "items s1 d = remove1 (StateItem t) (items (lists k) d)"
      "\<forall>l'\<in>L. l' \<noteq> d \<longrightarrow> items s1 l' = items (lists k) l'" by blast
  obtain s2 where
    s2: "(if pxContainer s1 (EventItem t) \<noteq> None then listREMOVE_ITEM (EventItem t) s1 else Some s1) = Some s2" "store_ok L s2"
      "pxContainer s2 = (pxContainer s1)(EventItem t := None)" "xItemValue s2 = xItemValue s1"
      "pvOwner s2 = pvOwner s1" "items s2 d = items s1 d" "items s2 TasksWaitingTermination = items s1 TasksWaitingTermination"
  proof (cases "pxContainer s1 (EventItem t)")
    case None
    then show ?thesis using s1(2) by (intro that[of s1]) (simp_all add: fun_upd_idem)
  next
    case (Some l)
    have "l \<noteq> d" "l \<noteq> TasksWaitingTermination"
      using event_home(2,3)[OF sane, of t l] Some s1(3) t(2) by auto
    with store_remove[OF s1(2) Some] dL tL show ?thesis by (metis Some option.distinct(1) that)
  qed
  have "pxContainer s2 (StateItem t) = None" "pvOwner s2 (StateItem t) = Some (item_task (StateItem t))"
    using s1(3,5) s2(3,5) own by simp_all
  from store_insert_end[OF s2(2) this rL] obtain s3 where
    s3: "listINSERT_END ?r (StateItem t) s2 = s3" "store_ok L s3"
      "pxContainer s3 = (pxContainer s2)(StateItem t := Some ?r)" "xItemValue s3 = xItemValue s2"
      "\<forall>l'\<in>L. l' \<noteq> ?r \<longrightarrow> items s3 l' = items s2 l'" "pvOwner s3 = pvOwner s2" by blast
  have cont: "pxContainer s3 = (pxContainer (lists k))(StateItem t := Some ?r, EventItem t := None)"
    using s1(3) s2(3) s3(3) by auto
  have wt: "items s3 TasksWaitingTermination = items (lists k) TasksWaitingTermination"
    using s3(5) s2(7) s1(7) tL t(2) by auto
  have "exists_task k t" using t by (auto simp: exists_task_def)
  from sane_readied[OF sane this t(1) s3(2) _ cont wt] s3(4,6) s2(4,5) s1(4,5)
  have "sane L (readied k t s3)" by simp
  moreover have "unblock_head t k = Some (readied k t s3)"
    using s1(1) s2(1) s3(1) by (simp add: unblock_head_def prvAddTaskToReadyList_eq)
  moreover have "items s3 d = remove1 (StateItem t) (items (lists k) d)"
    using s3(5) s2(6) s1(6) dL t(2) by auto
  then have "length (items s3 d) < length (items (lists k) d)"
    using mem length_pos_if_in_set[OF mem] by (simp add: length_remove1)
  ultimately show ?thesis
    using cont s3(4) s2(4) s1(4) by (intro that[of s3]) simp_all
qed

subsection \<open>The tick\<close>

definition expired :: "kernel \<Rightarrow> task \<Rightarrow> bool" where
  "expired k t \<longleftrightarrow> home k (StateItem t) = Some (pxDelayedTaskList k) \<and> wake k t \<le> xTickCount k"

text \<open>The state after all expired tasks were readied.\<close>

definition unblocked :: "kernel \<Rightarrow> kernel \<Rightarrow> bool" where
  "unblocked k k' \<longleftrightarrow>
     (\<exists>s p n. k' = k\<lparr>lists := s, uxTopReadyPriority := p, xNextTaskUnblockTime := n\<rparr> \<and>
        xItemValue s = xItemValue (lists k) \<and>
        (\<forall>t. pxContainer s (StateItem t) =
               (if expired k t then Some (ReadyTasksList (priority k t)) else home k (StateItem t))) \<and>
        (\<forall>t. pxContainer s (EventItem t) = (if expired k t then None else home k (EventItem t))))"

lemma unblock_expired_ok:
  assumes "sane L k" "pxCurrentTCB k = Some c"
  shows "\<exists>k'. unblock_expired sw k = Some (sw \<or> (\<exists>t. expired k t \<and> priority k t > priority k c), k') \<and>
              sane L k' \<and> punctual k' \<and> unblocked k k'"
  using assms
proof (induction "length (items (lists k) (pxDelayedTaskList k))" arbitrary: k sw rule: less_induct)
  case less
  let ?d = "pxDelayedTaskList k"
  note inv = saneD[OF less.prems(1)] and dp = delay_pointers[OF less.prems(1)]
  note dL = known_lists(2)[OF less.prems(1)]
  show ?case
  proof (cases "listLIST_IS_EMPTY ?d (lists k)")
    case True
    then have none: "home k (StateItem t) \<noteq> Some ?d" for t
      using store_empty[OF inv(1) dL] by blast
    let ?k = "k\<lparr>xNextTaskUnblockTime := portMAX_DELAY\<rparr>"
    have "unblock_expired sw k = Some (sw, ?k)"
      by (subst unblock_expired.simps) (simp add: True)
    moreover have "punctual ?k" using none by (simp add: punctual_def)
    moreover have "unblocked k ?k"
      unfolding unblocked_def using none
      by (intro exI[of _ "lists k"] exI[of _ "uxTopReadyPriority k"] exI[of _ portMAX_DELAY]) (auto simp: expired_def)
    ultimately show ?thesis using less.prems none by (auto simp: expired_def)
  next
    case False
    from store_head[OF inv(1) dL False] obtain i where
      i: "items (lists k) ?d = i # tl (items (lists k) ?d)" "home k i = Some ?d"
        "listGET_OWNER_OF_HEAD_ENTRY ?d (lists k) = Some (item_task i)" by blast
    have "i = StateItem (item_task i)"
      using event_home(2)[OF less.prems(1)] i(2) dp(1) by (cases i) auto
    then obtain t where t: "i = StateItem t" by blast
    let ?v = "wake k t"
    have least: "?v \<le> wake k u" if "home k (StateItem u) = Some ?d" for u
      using store_head_least[OF inv(1) dp(1) i(1) that] t by simp
    show ?thesis
    proof (cases "xTickCount k < ?v")
      case True
      let ?k = "k\<lparr>xNextTaskUnblockTime := ?v\<rparr>"
      have later: "\<not> expired k u" for u using least True by (fastforce simp: expired_def)
      have "unblock_expired sw k = Some (sw, ?k)"
        using False i(3) t True
        by (subst unblock_expired.simps) (simp add: listGET_LIST_ITEM_VALUE_def)
      moreover have "punctual ?k" using least True by (fastforce simp: punctual_def)
      moreover have "unblocked k ?k"
        unfolding unblocked_def using later
        by (intro exI[of _ "lists k"] exI[of _ "uxTopReadyPriority k"] exI[of _ ?v]) auto
      ultimately show ?thesis using less.prems later by auto
    next
      case due: False
      have home: "home k (StateItem t) = Some ?d" using i(2) t by simp
      from unblock_head_ok[OF less.prems(1) home dp(1)] obtain s where
        s: "unblock_head t k = Some (readied k t s)" "sane L (readied k t s)" "xItemValue s = xItemValue (lists k)"
          "pxContainer s = (pxContainer (lists k))(StateItem t := Some (ReadyTasksList (priority k t)), EventItem t := None)"
          "length (items s ?d) < length (items (lists k) ?d)" by blast
      let ?k = "readied k t s" and ?sw = "sw \<or> priority k t > priority k c"
      have step: "unblock_expired sw k = unblock_expired ?sw ?k"
        using False i(3) t due s(1) less.prems(2)
        by (subst unblock_expired.simps) (simp add: listGET_LIST_ITEM_VALUE_def)
      have exp: "expired ?k u \<longleftrightarrow> expired k u \<and> u \<noteq> t" for u
        using s(3,4) dp(1) by (auto simp: expired_def)
      have "expired k t" using home due by (auto simp: expired_def not_less)
      from less.hyps[of ?k ?sw] s(2,5) less.prems(2) obtain k' where
        k': "unblock_expired ?sw ?k = Some (?sw \<or> (\<exists>u. expired ?k u \<and> priority k u > priority k c), k')"
          "sane L k'" "punctual k'" "unblocked ?k k'" by auto
      have "unblocked k k'"
      proof -
        obtain s' p n where "k' = ?k\<lparr>lists := s', uxTopReadyPriority := p, xNextTaskUnblockTime := n\<rparr>"
            "xItemValue s' = xItemValue s"
            "\<forall>u. pxContainer s' (StateItem u) =
               (if expired k u \<and> u \<noteq> t then Some (ReadyTasksList (priority k u)) else pxContainer s (StateItem u))"
            "\<forall>u. pxContainer s' (EventItem u) = (if expired k u \<and> u \<noteq> t then None else pxContainer s (EventItem u))"
          using k'(4) unfolding unblocked_def exp by auto
        then show ?thesis
          using s(3,4) \<open>expired k t\<close> unfolding unblocked_def
          by (intro exI[of _ s'] exI[of _ p] exI[of _ n]) auto
      qed
      moreover have "(?sw \<or> (\<exists>u. expired ?k u \<and> priority k u > priority k c)) \<longleftrightarrow>
          (sw \<or> (\<exists>u. expired k u \<and> priority k u > priority k c))"
        using \<open>expired k t\<close> exp by blast
      ultimately show ?thesis using step k' by auto
    qed
  qed
qed

text \<open>
  How many ticks a blocked task still waits. A task in the overflow list wakes after the tick
  counter has wrapped.
\<close>

definition remaining :: "kernel \<Rightarrow> task \<Rightarrow> nat" where
  "remaining k t =
     (if home k (StateItem t) = Some (pxDelayedTaskList k) then unat (wake k t) - unat (xTickCount k)
      else unat (wake k t) + 2 ^ 32 - unat (xTickCount k))"

lemma remaining_suspended [simp]:
  "remaining (k\<lparr>uxSchedulerSuspended := n\<rparr>) = remaining k" "is_blocked (k\<lparr>uxSchedulerSuspended := n\<rparr>) = is_blocked k"
  by (simp_all add: fun_eq_iff remaining_def is_blocked_def)

lemma unat_tick_Suc: "xTickCount k + 1 \<noteq> 0 \<Longrightarrow> unat (xTickCount k + 1) = Suc (unat (xTickCount k))"
  using unatSuc[of "xTickCount k"] by (simp add: add.commute)

lemma tick_wraps: "x + 1 = 0 \<Longrightarrow> x = portMAX_DELAY" for x :: tick
  by (simp add: portMAX_DELAY_top add_eq_0_iff2)

lemma blocked_cases:
  assumes "sane L k"
  shows "is_blocked k t \<longleftrightarrow> home k (StateItem t) = Some (pxDelayedTaskList k) \<or>
           home k (StateItem t) = Some (pxOverflowDelayedTaskList k)"
  using delay_pointers(4)[OF assms] by (auto simp: is_blocked_def)

text \<open>The first half of a tick: the counter advances and the lists are swapped when it wraps.\<close>

definition tick_start :: "kernel \<Rightarrow> kernel option" where
  "tick_start k =
     (let k = k\<lparr>xTickCount := xTickCount k + 1\<rparr>
      in if xTickCount k = 0 then taskSWITCH_DELAYED_LISTS k else Some k)"

definition started :: "kernel \<Rightarrow> kernel \<Rightarrow> bool" where
  "started k k' \<longleftrightarrow>
     (\<exists>d ov n m. k' = k\<lparr>xTickCount := xTickCount k + 1, pxDelayedTaskList := d, pxOverflowDelayedTaskList := ov,
                       xNumOfOverflows := n, xNextTaskUnblockTime := m\<rparr> \<and>
        d \<in> delay_lists \<and> (\<forall>t. home k (StateItem t) = Some d \<longrightarrow> m \<le> wake k t)) \<and>
     (\<forall>t. is_blocked k t \<longrightarrow> (remaining k t = 1 \<longleftrightarrow> expired k' t) \<and>
        (\<not> expired k' t \<longrightarrow> remaining k' t = remaining k t - 1))"

lemma tick_start_plain:
  assumes sane: "sane L k" and pun: "punctual k" and nz: "xTickCount k + 1 \<noteq> 0"
  defines "k' \<equiv> k\<lparr>xTickCount := xTickCount k + 1\<rparr>"
  shows "sane L k'" "started k k'"
proof -
  note inv = saneD[OF sane] and dp = delay_pointers[OF sane] and suc = unat_tick_Suc[OF nz]
  have "overflow_ok k'"
    using inv(8) suc by (fastforce simp: overflow_ok_def k'_def word_less_nat_alt)
  then show "sane L k'"
    using inv by (simp add: sane_def k'_def kernel_unfold kernel_views)
  have eq: "k' = k\<lparr>xTickCount := xTickCount k + 1, pxDelayedTaskList := pxDelayedTaskList k,
      pxOverflowDelayedTaskList := pxOverflowDelayedTaskList k, xNumOfOverflows := xNumOfOverflows k,
      xNextTaskUnblockTime := xNextTaskUnblockTime k\<rparr>"
    by (cases k) (simp add: k'_def)
  have "(remaining k t = 1 \<longleftrightarrow> expired k' t) \<and> (\<not> expired k' t \<longrightarrow> remaining k' t = remaining k t - 1)"
    if "is_blocked k t" for t
  proof (cases "home k (StateItem t) = Some (pxDelayedTaskList k)")
    case True
    then have "unat (xTickCount k) < unat (wake k t)"
      using pun by (simp add: punctual_def word_less_nat_alt)
    with True suc show ?thesis
      by (auto simp: remaining_def expired_def k'_def word_le_nat_alt)
  next
    case False
    then have "unat (wake k t) < unat (xTickCount k)"
      using that inv(8) blocked_cases[OF sane] by (auto simp: overflow_ok_def word_less_nat_alt)
    moreover have "unat (xTickCount k) + 1 < 2 ^ 32"
      using suc unsigned_less[of "xTickCount k + 1", where 'a = nat] by simp
    ultimately show ?thesis
      using False suc by (auto simp: remaining_def expired_def k'_def)
  qed
  moreover have "\<forall>t. home k (StateItem t) = Some (pxDelayedTaskList k) \<longrightarrow> xNextTaskUnblockTime k \<le> wake k t"
    using pun by (simp add: punctual_def)
  ultimately show "started k k'"
    unfolding started_def using eq dp(1) by blast
qed

lemma tick_start_wrap:
  assumes sane: "sane L k" and pun: "punctual k" and z: "xTickCount k + 1 = 0"
  obtains k' where "taskSWITCH_DELAYED_LISTS (k\<lparr>xTickCount := 0\<rparr>) = Some k'" "sane L k'" "started k k'"
proof -
  note inv = saneD[OF sane] and dp = delay_pointers[OF sane]
  note dL = known_lists(2)[OF sane] and oL = known_lists(3)[OF sane]
  have max: "xTickCount k = portMAX_DELAY" using tick_wraps[OF z] .
  have none: "home k (StateItem t) \<noteq> Some (pxDelayedTaskList k)" for t
    using pun all_below_max[of "wake k t"] by (auto simp: punctual_def max)
  have noevent: "home k (EventItem t) \<noteq> Some l" if "l \<in> delay_lists" for t l
    using event_home(2)[OF sane] that by blast
  then have "home k i \<noteq> Some (pxDelayedTaskList k)" for i
    using none dp(1) by (cases i) auto
  then have empty: "listLIST_IS_EMPTY (pxDelayedTaskList k) (lists k)"
    using store_empty[OF inv(1) dL] by blast
  define m where "m = (if listLIST_IS_EMPTY (pxOverflowDelayedTaskList k) (lists k) then portMAX_DELAY
      else listGET_ITEM_VALUE_OF_HEAD_ENTRY (pxOverflowDelayedTaskList k) (lists k))"
  define k' where "k' = k\<lparr>xTickCount := xTickCount k + 1, pxDelayedTaskList := pxOverflowDelayedTaskList k,
      pxOverflowDelayedTaskList := pxDelayedTaskList k, xNumOfOverflows := xNumOfOverflows k + 1, xNextTaskUnblockTime := m\<rparr>"
  have next_le: "m \<le> wake k t" if t: "home k (StateItem t) = Some (pxOverflowDelayedTaskList k)" for t
  proof -
    have "\<not> listLIST_IS_EMPTY (pxOverflowDelayedTaskList k) (lists k)"
      using store_empty[OF inv(1) oL] t by blast
    with store_head[OF inv(1) oL this] store_head_least[OF inv(1) dp(2) _ t] show ?thesis
      by (metis m_def)
  qed
  have "sane L k'"
    using inv none by (auto simp: sane_def k'_def kernel_unfold kernel_views)
  moreover have "started k k'"
    unfolding started_def
  proof (intro conjI allI impI)
    show "\<exists>d ov n m. k' = k\<lparr>xTickCount := xTickCount k + 1, pxDelayedTaskList := d, pxOverflowDelayedTaskList := ov,
        xNumOfOverflows := n, xNextTaskUnblockTime := m\<rparr> \<and>
        d \<in> delay_lists \<and> (\<forall>t. home k (StateItem t) = Some d \<longrightarrow> m \<le> wake k t)"
      using next_le k'_def dp(2) by blast
    fix t assume "is_blocked k t"
    then have o: "home k (StateItem t) = Some (pxOverflowDelayedTaskList k)"
      using none blocked_cases[OF sane] by blast
    have um: "unat (portMAX_DELAY) = 2 ^ 32 - 1" by (simp add: portMAX_DELAY_def)
    show "remaining k t = 1 \<longleftrightarrow> expired k' t"
      using o none[of t] by (auto simp: remaining_def expired_def k'_def max um z[unfolded max] word_le_nat_alt)
    show "remaining k' t = remaining k t - 1" if "\<not> expired k' t"
      using o none[of t] by (auto simp: remaining_def k'_def max um z[unfolded max])
  qed
  moreover have "taskSWITCH_DELAYED_LISTS (k\<lparr>xTickCount := 0\<rparr>) = Some k'"
    using empty z by (simp add: taskSWITCH_DELAYED_LISTS_def configASSERT_def prvResetNextTaskUnblockTime_def k'_def m_def)
  ultimately show ?thesis by (intro that)
qed

text \<open>What one tick does to the tasks: those with one tick left become ready, the others count down.\<close>

definition ticked :: "kernel \<Rightarrow> kernel \<Rightarrow> bool" where
  "ticked k k' \<longleftrightarrow>
     tcbs k' = tcbs k \<and> xTickCount k' = xTickCount k + 1 \<and>
     (\<forall>t. is_ready k' t \<longleftrightarrow> is_ready k t \<or> is_blocked k t \<and> remaining k t = 1) \<and>
     (\<forall>t. is_blocked k t \<and> remaining k t \<noteq> 1 \<longrightarrow> is_blocked k' t \<and> remaining k' t = remaining k t - 1) \<and>
     (\<forall>t. exists_task k' t \<longleftrightarrow> exists_task k t) \<and>
     (\<forall>t. home k (EventItem t) = None \<longrightarrow> home k' (EventItem t) = None) \<and>
     uxSchedulerSuspended k' = uxSchedulerSuspended k \<and> xPendedTicks k' = xPendedTicks k \<and>
     xSchedulerRunning k' = xSchedulerRunning k \<and> uxCurrentNumberOfTasks k' = uxCurrentNumberOfTasks k"

lemma started_unblocked_ticked:
  assumes sane: "sane L k" and st: "started k k1" and un: "unblocked k1 k2"
  shows "ticked k k2"
    and "is_ready k2 t \<longleftrightarrow> is_ready k t \<or> expired k1 t"
    and "pxCurrentTCB k2 = pxCurrentTCB k" "xYieldPending k2 = xYieldPending k"
proof -
  obtain d ov n m where k1: "k1 = k\<lparr>xTickCount := xTickCount k + 1, pxDelayedTaskList := d,
      pxOverflowDelayedTaskList := ov, xNumOfOverflows := n, xNextTaskUnblockTime := m\<rparr>"
    and d: "d \<in> delay_lists"
    and rem: "\<And>t. is_blocked k t \<Longrightarrow> remaining k t = 1 \<longleftrightarrow> expired k1 t"
      "\<And>t. is_blocked k t \<Longrightarrow> \<not> expired k1 t \<Longrightarrow> remaining k1 t = remaining k t - 1"
    using st unfolding started_def by blast
  obtain s p n' where k2: "k2 = k1\<lparr>lists := s, uxTopReadyPriority := p, xNextTaskUnblockTime := n'\<rparr>"
    and s: "xItemValue s = xItemValue (lists k1)"
      "\<And>t. pxContainer s (StateItem t) =
             (if expired k1 t then Some (ReadyTasksList (priority k1 t)) else home k1 (StateItem t))"
      "\<And>t. pxContainer s (EventItem t) = (if expired k1 t then None else home k1 (EventItem t))"
    using un unfolding unblocked_def by blast
  have blk: "is_blocked k t" if "expired k1 t" for t
    using that d by (auto simp: expired_def is_blocked_def k1)
  show r: "is_ready k2 t \<longleftrightarrow> is_ready k t \<or> expired k1 t" for t
    using s(2)[of t] blk[of t] by (auto simp: is_ready_def is_blocked_def k1 k2)
  have e: "exists_task k2 t \<longleftrightarrow> exists_task k t" for t
    using s(2)[of t] blk[of t] by (auto simp: exists_task_def is_blocked_def k1 k2)
  have b: "is_blocked k2 t \<and> remaining k2 t = remaining k t - 1" if "is_blocked k t" "remaining k t \<noteq> 1" for t
    using s(1) s(2)[of t] rem[OF that(1)] that by (auto simp: is_blocked_def remaining_def k1 k2)
  show "ticked k k2"
    unfolding ticked_def using r e b rem(1) blk s(3) by (auto simp: k1 k2)
  show "pxCurrentTCB k2 = pxCurrentTCB k" "xYieldPending k2 = xYieldPending k" by (simp_all add: k1 k2)
qed

lemma increment_ok:
  assumes sane: "sane L k" and pun: "punctual k" and susp: "uxSchedulerSuspended k = 0" and c: "pxCurrentTCB k = Some c"
  obtains sw k' where "xTaskIncrementTick k = Some (sw, k')" "sane L k'" "punctual k'" "ticked k k'"
    "pxCurrentTCB k' = Some c" "xYieldPending k' = xYieldPending k" "xYieldPending k \<Longrightarrow> sw"
    "\<And>t. \<not> sw \<Longrightarrow> is_ready k' t \<Longrightarrow> is_ready k t \<or> priority k t \<le> priority k c"
proof -
  obtain k1 where k1: "(if xTickCount k + 1 = 0 then taskSWITCH_DELAYED_LISTS (k\<lparr>xTickCount := xTickCount k + 1\<rparr>)
      else Some (k\<lparr>xTickCount := xTickCount k + 1\<rparr>)) = Some k1" "sane L k1" "started k k1"
  proof (cases "xTickCount k + 1 = 0")
    case True
    from tick_start_wrap[OF sane pun True] that True show ?thesis by metis
  next
    case False
    with tick_start_plain[OF sane pun False] that show ?thesis by simp
  qed
  have c1: "pxCurrentTCB k1 = Some c" "tcbs k1 = tcbs k" using k1(3) c by (auto simp: started_def)
  obtain k2 where k2: "(if xNextTaskUnblockTime k1 \<le> xTickCount k1 then unblock_expired False k1 else Some (False, k1)) =
      Some (\<exists>t. expired k1 t \<and> priority k1 t > priority k1 c, k2)" "sane L k2" "punctual k2" "unblocked k1 k2"
  proof (cases "xNextTaskUnblockTime k1 \<le> xTickCount k1")
    case True
    with unblock_expired_ok[OF k1(2) c1(1), of False] that show ?thesis by auto
  next
    case False
    then have later: "xTickCount k1 < wake k1 t \<and> xNextTaskUnblockTime k1 \<le> wake k1 t"
      if "home k1 (StateItem t) = Some (pxDelayedTaskList k1)" for t
      using k1(3) that by (force simp: started_def)
    then have none: "\<not> expired k1 t" for t by (force simp: expired_def)
    have "unblocked k1 k1"
      unfolding unblocked_def using none
      by (intro exI[of _ "lists k1"] exI[of _ "uxTopReadyPriority k1"] exI[of _ "xNextTaskUnblockTime k1"]) simp
    moreover have "punctual k1" using later by (simp add: punctual_def)
    ultimately show ?thesis using that[of k1] False none k1(2) by simp
  qed
  note tk = started_unblocked_ticked[OF sane k1(3) k2(4)]
  have t2: "tcbs k2 = tcbs k" using tk(1) by (simp add: ticked_def)
  define sw where "sw = ((\<exists>t. expired k1 t \<and> priority k1 t > priority k1 c) \<or>
      listCURRENT_LIST_LENGTH (ReadyTasksList (priority k2 c)) (lists k2) > 1 \<or> xYieldPending k2)"
  have "xTaskIncrementTick k = Some (sw, k2)"
    using susp k1(1) k2(1) tk(3) c
    by (simp add: xTaskIncrementTick_def Let_def sw_def split: if_splits)
  moreover have "pxCurrentTCB k2 = Some c" "xYieldPending k \<Longrightarrow> sw" using tk(3,4) c by (simp_all add: sw_def)
  moreover have "is_ready k t \<or> priority k t \<le> priority k c" if "\<not> sw" "is_ready k2 t" for t
    using that tk(2)[of t] c1(2) by (auto simp: sw_def not_less)
  ultimately show ?thesis
    using that[OF _ k2(2,3) tk(1) _ tk(4)] by blast
qed

lemma same_tasks_views:
  assumes "same_tasks k k'"
  shows "is_ready k' = is_ready k" "is_blocked k' = is_blocked k" "exists_task k' = exists_task k"
    "most_urgent k' = most_urgent k" "remaining k' = remaining k"
  using assms by (auto simp: fun_eq_iff kernel_views same_tasks_def remaining_def)

lemma ticked_same: "ticked k k1 \<Longrightarrow> same_tasks k1 k2 \<Longrightarrow> ticked k k2"
  using same_tasks_views[of k1 k2] by (auto simp: ticked_def) (auto simp: same_tasks_def)

lemma same_tasks_refl [simp]: "same_tasks k k"
  by (simp add: same_tasks_def)

lemma ticked_steady: "steady L idle k \<Longrightarrow> sane L k' \<Longrightarrow> punctual k' \<Longrightarrow> ticked k k' \<Longrightarrow> steady L idle k'"
  by (simp add: steady_def ticked_def)

lemma tick_handler_ok:
  assumes ok: "scheduler_ok L idle k" and run: "uxSchedulerSuspended k = 0"
  obtains k' where "FreeRTOS_Tick_Handler k = Some k'" "scheduler_ok L idle k'" "ticked k k'"
proof -
  have st: "steady L idle k" and ur: "urgent_runs k" and on: "xSchedulerRunning k" and pend: "xPendedTicks k = 0"
    using ok run by (auto simp: scheduler_ok_def)
  obtain c where c: "pxCurrentTCB k = Some c" "is_ready k c" using ok run by (auto simp: scheduler_ok_def)
  from increment_ok[OF steadyD(1,2)[OF st] run c(1)] obtain sw k1 where
    k1: "xTaskIncrementTick k = Some (sw, k1)" "sane L k1" "punctual k1" "ticked k k1" "pxCurrentTCB k1 = Some c"
      "xYieldPending k1 = xYieldPending k" "xYieldPending k \<Longrightarrow> sw"
      "\<And>t. \<not> sw \<Longrightarrow> is_ready k1 t \<Longrightarrow> is_ready k t \<or> priority k t \<le> priority k c" by blast
  note st1 = ticked_steady[OF st k1(2-4)]
  have f: "xSchedulerRunning k1" "uxSchedulerSuspended k1 = 0" "xPendedTicks k1 = 0" "is_ready k1 c" "tcbs k1 = tcbs k"
    using k1(4) on run pend c(2) by (simp_all add: ticked_def)
  show ?thesis
  proof (cases sw)
    case True
    from yield_ok[OF st1 f(1) _ f(2,3)] k1(5) obtain k2 where
      k2: "portYIELD k1 = Some k2" "scheduler_ok L idle k2" "same_tasks k1 k2" by auto
    then show ?thesis
      using k1(1) True ticked_same[OF k1(4) k2(3)]
      by (intro that[of k2]) (simp_all add: FreeRTOS_Tick_Handler_def portYIELD_def)
  next
    case False
    then have "most_urgent k1 c"
      using ur k1(7,8) c(1) f(5) by (auto simp: urgent_runs_def most_urgent_def)
    then have "scheduler_ok L idle k1"
      using st1 f k1(5) by (simp add: scheduler_ok_def urgent_runs_def)
    then show ?thesis
      using k1(1,4) False by (intro that[of k1]) (simp_all add: FreeRTOS_Tick_Handler_def)
  qed
qed

lemma tick_handler_suspended:
  assumes "scheduler_ok L idle k" "uxSchedulerSuspended k \<noteq> 0"
  shows "FreeRTOS_Tick_Handler k = Some (k\<lparr>xPendedTicks := xPendedTicks k + 1\<rparr>)"
    and "scheduler_ok L idle (k\<lparr>xPendedTicks := xPendedTicks k + 1\<rparr>)"
  using assms by (auto simp: FreeRTOS_Tick_Handler_def xTaskIncrementTick_def scheduler_ok_def)

subsection \<open>Resuming the scheduler\<close>

lemma replay_ok:
  assumes "steady L idle k" "urgent_runs k" "uxSchedulerSuspended k = 0"
  shows "\<exists>k'. replay_ticks n k = Some k' \<and> steady L idle k' \<and> urgent_runs k' \<and> pxCurrentTCB k' = pxCurrentTCB k \<and>
     uxSchedulerSuspended k' = 0 \<and> xSchedulerRunning k' = xSchedulerRunning k \<and> (\<forall>t. is_ready k t \<longrightarrow> is_ready k' t)"
  using assms
proof (induction n arbitrary: k)
  case 0
  then show ?case by simp
next
  case (Suc n)
  obtain c where c: "pxCurrentTCB k = Some c" using Suc.prems(2) by (auto simp: urgent_runs_def)
  from increment_ok[OF steadyD(1,2)[OF Suc.prems(1)] Suc.prems(3) c] obtain sw k1 where
    k1: "xTaskIncrementTick k = Some (sw, k1)" "sane L k1" "punctual k1" "ticked k k1" "pxCurrentTCB k1 = Some c"
      "xYieldPending k1 = xYieldPending k" "xYieldPending k \<Longrightarrow> sw"
      "\<And>t. \<not> sw \<Longrightarrow> is_ready k1 t \<Longrightarrow> is_ready k t \<or> priority k t \<le> priority k c" by blast
  let ?k = "if sw then k1\<lparr>xYieldPending := True\<rparr> else k1"
  have "steady L idle ?k" using ticked_steady[OF Suc.prems(1) k1(2-4)] by simp
  moreover have "tcbs k1 = tcbs k" using k1(4) by (simp add: ticked_def)
  then have "urgent_runs ?k"
    using Suc.prems(2) k1(5,7,8) c by (cases sw) (auto simp: urgent_runs_def most_urgent_def)
  moreover have "uxSchedulerSuspended ?k = 0" "pxCurrentTCB ?k = Some c" "xSchedulerRunning ?k = xSchedulerRunning k"
    using Suc.prems(3) k1(4,5) by (simp_all add: ticked_def)
  ultimately obtain k' where k': "replay_ticks n ?k = Some k'" "steady L idle k'" "urgent_runs k'" "pxCurrentTCB k' = Some c"
      "uxSchedulerSuspended k' = 0" "xSchedulerRunning k' = xSchedulerRunning k" "\<forall>t. is_ready ?k t \<longrightarrow> is_ready k' t"
    using Suc.IH[of ?k] by auto
  have "\<forall>t. is_ready k t \<longrightarrow> is_ready ?k t" using k1(4) by (simp add: ticked_def)
  with k' k1(1) c show ?case by auto
qed

text \<open>
  While the pending list is emptied the suspension count is already zero; the invariant holds
  of the same state with the count at one.
\<close>

abbreviation held :: "kernel \<Rightarrow> kernel" where
  "held k \<equiv> k\<lparr>uxSchedulerSuspended := Suc 0\<rparr>"

lemma readied_steady:
  assumes "steady L idle k" "sane L (readied k t s)" "xItemValue s = xItemValue (lists k)"
    "pxContainer s = (pxContainer (lists k))(StateItem t := Some (ReadyTasksList (priority k t)), EventItem t := x)"
  shows "steady L idle (readied k t s)"
    "is_ready (readied k t s) u \<longleftrightarrow> is_ready k u \<or> u = t"
  using assms delay_pointers(1)[OF steadyD(1)[OF assms(1)]]
  by (auto simp: steady_def is_ready_def punctual_def)

lemma state_home_L:
  assumes "sane L k" "home k i = Some l"
  shows "l \<in> L" "pvOwner (lists k) i = Some (item_task i)"
  using saneD(1)[OF assms(1)] assms(2) by (auto simp: store_ok_def)

lemma exists_priority:
  assumes "sane L k" "exists_task k t"
  shows "priority k t < configMAX_PRIORITIES"
  using saneD(5)[OF assms(1)] assms(2) by (auto simp: states_ok_def exists_task_def)

text \<open>Taking a task's state item out of its list and putting it into its ready list.\<close>

lemma store_to_ready:
  assumes ok: "store_ok L s" and t: "pxContainer s (StateItem t) = Some l" "l \<noteq> TasksWaitingTermination"
    and r: "ReadyTasksList p \<in> L" "TasksWaitingTermination \<in> L"
  obtains n s1 s2 where "uxListRemove (StateItem t) s = Some (n, s1)" "listREMOVE_ITEM (StateItem t) s = Some s1"
    "listINSERT_END (ReadyTasksList p) (StateItem t) s1 = s2" "store_ok L s2"
    "pxContainer s2 = (pxContainer s)(StateItem t := Some (ReadyTasksList p))" "xItemValue s2 = xItemValue s"
    "pvOwner s2 = pvOwner s" "items s2 TasksWaitingTermination = items s TasksWaitingTermination"
proof -
  from store_remove[OF ok t(1)] obtain s1 n where
    s1: "uxListRemove (StateItem t) s = Some (n, s1)" "listREMOVE_ITEM (StateItem t) s = Some s1" "store_ok L s1"
      "pxContainer s1 = (pxContainer s)(StateItem t := None)" "xItemValue s1 = xItemValue s" "pvOwner s1 = pvOwner s"
      "\<forall>l'\<in>L. l' \<noteq> l \<longrightarrow> items s1 l' = items s l'" by blast
  have "pxContainer s1 (StateItem t) = None" "pvOwner s1 (StateItem t) = Some (item_task (StateItem t))"
    using s1(4,6) ok t(1) by (auto simp: store_ok_def)
  from store_insert_end[OF s1(3) this r(1)] obtain s2 where
    s2: "listINSERT_END (ReadyTasksList p) (StateItem t) s1 = s2" "store_ok L s2"
      "pxContainer s2 = (pxContainer s1)(StateItem t := Some (ReadyTasksList p))" "xItemValue s2 = xItemValue s1"
      "pvOwner s2 = pvOwner s1" "\<forall>l'\<in>L. l' \<noteq> ReadyTasksList p \<longrightarrow> items s2 l' = items s1 l'" by blast
  show ?thesis
    by (rule that[OF s1(1,2) s2(1,2)]) (use s1 s2(3-6) r(2) t(2) in auto)
qed

lemma pend_yield:
  "(if b then k\<lparr>xYieldPending := True\<rparr> else k) = k\<lparr>xYieldPending := xYieldPending k \<or> b\<rparr>"
  by (cases k) simp

lemma ready_pending_ok:
  assumes st: "steady L idle (held k)" and t: "home k (EventItem t) = Some PendingReadyList"
    and c: "pxCurrentTCB k = Some c" and ur: "xYieldPending k \<or> most_urgent k c"
  obtains s y where "ready_pending t k = Some (readied k t s\<lparr>xYieldPending := y\<rparr>)"
    "steady L idle (held (readied k t s\<lparr>xYieldPending := y\<rparr>))"
    "y \<or> most_urgent (readied k t s) c"
    "pxContainer s = (pxContainer (lists k))(StateItem t := Some (ReadyTasksList (priority k t)), EventItem t := None)"
    "items s PendingReadyList = remove1 (EventItem t) (items (lists k) PendingReadyList)"
proof -
  note sane = steadyD(1)[OF st]
  note inv = saneD[OF sane]
  let ?r = "ReadyTasksList (priority k t)"
  have ex: "exists_task (held k) t" using event_home(1)[OF sane, of t PendingReadyList] t by simp
  then obtain l where l: "home k (StateItem t) = Some l" "l \<noteq> TasksWaitingTermination"
    by (auto simp: exists_task_def)
  have rL: "?r \<in> L" using known_lists(1)[OF sane] exists_priority[OF sane ex] by simp
  note tL = known_lists(5)[OF sane] and pL = known_lists(4)[OF sane]
  have ok: "store_ok L (lists k)" using inv(1) by simp
  from store_remove[OF ok t] obtain s1 where
    s1: "listREMOVE_ITEM (EventItem t) (lists k) = Some s1" "store_ok L s1"
      "pxContainer s1 = (pxContainer (lists k))(EventItem t := None)" "xItemValue s1 = xItemValue (lists k)" "pvOwner s1 = pvOwner (lists k)"
      "items s1 PendingReadyList = remove1 (EventItem t) (items (lists k) PendingReadyList)"
      "\<forall>l'\<in>L. l' \<noteq> PendingReadyList \<longrightarrow> items s1 l' = items (lists k) l'" by blast
  have l1: "pxContainer s1 (StateItem t) = Some l" "l \<noteq> PendingReadyList"
    using l(1) s1(3) inv(5) by (auto simp: states_ok_def is_ready_def is_blocked_def)
  from store_remove[OF s1(2) l1(1)] obtain s2 where
    s2: "listREMOVE_ITEM (StateItem t) s1 = Some s2" "store_ok L s2" "pxContainer s2 = (pxContainer s1)(StateItem t := None)"
      "xItemValue s2 = xItemValue s1" "pvOwner s2 = pvOwner s1" "\<forall>l'\<in>L. l' \<noteq> l \<longrightarrow> items s2 l' = items s1 l'" by blast
  have "pxContainer s2 (StateItem t) = None" "pvOwner s2 (StateItem t) = Some (item_task (StateItem t))"
    using s2(3,5) s1(2) l1(1) by (auto simp: store_ok_def)
  from store_insert_end[OF s2(2) this rL] obtain s3 where
    s3: "listINSERT_END ?r (StateItem t) s2 = s3" "store_ok L s3"
      "pxContainer s3 = (pxContainer s2)(StateItem t := Some ?r)" "xItemValue s3 = xItemValue s2"
      "\<forall>l'\<in>L. l' \<noteq> ?r \<longrightarrow> items s3 l' = items s2 l'" "pvOwner s3 = pvOwner s2" by blast
  have cont: "pxContainer s3 = (pxContainer (lists k))(StateItem t := Some ?r, EventItem t := None)"
    using s1(3) s2(3) s3(3) by auto
  have wt: "items s3 TasksWaitingTermination = items (lists k) TasksWaitingTermination"
    using s3(5) s2(6) s1(7) tL l(2) by auto
  have pd: "items s3 PendingReadyList = remove1 (EventItem t) (items (lists k) PendingReadyList)"
    using s3(5) s2(6) s1(6) pL l1(2) by auto
  have "sane L (readied (held k) t s3)"
    by (rule sane_readied[OF sane ex, where x = None and l = l]) (use l s3(2,4,6) s2(4,5) s1(4,5) cont wt in simp_all)
  note r = readied_steady[OF st this, where x = None]
  let ?y = "xYieldPending k \<or> priority k t > priority k c"
  have "ready_pending t k = Some (readied k t s3\<lparr>xYieldPending := ?y\<rparr>)"
    using s1(1) s2(1) s3(1) c by (simp add: ready_pending_def prvAddTaskToReadyList_eq pend_yield)
  moreover have "steady L idle (held (readied k t s3\<lparr>xYieldPending := ?y\<rparr>))"
  proof -
    have eq: "held (readied k t s3\<lparr>xYieldPending := ?y\<rparr>) = readied (held k) t s3\<lparr>xYieldPending := ?y\<rparr>"
      by (cases k) simp
    show ?thesis unfolding eq using r(1) cont s3(4) s2(4) s1(4) by simp
  qed
  moreover have "?y \<or> most_urgent (readied k t s3) c"
    using ur cont by (auto simp: most_urgent_def is_ready_def)
  ultimately show ?thesis using cont pd by (intro that)
qed

lemma sane_suspended:
  assumes sane: "sane L k" and n: "n \<noteq> 0 \<or> (\<forall>i. home k i \<noteq> Some PendingReadyList)"
  shows "sane L (k\<lparr>uxSchedulerSuspended := n\<rparr>)"
proof -
  let ?k = "k\<lparr>uxSchedulerSuspended := n\<rparr>"
  have "events_ok ?k"
    unfolding events_ok_def
  proof (intro allI impI)
    fix t l assume "home ?k (EventItem t) = Some l"
    with event_home(1)[OF sane, of t l] n
    show "(\<exists>e. l = EventList e) \<and> is_blocked ?k t \<or> l = PendingReadyList \<and> uxSchedulerSuspended ?k \<noteq> 0 \<and> exists_task ?k t"
      by (auto simp: is_blocked_def exists_task_def)
  qed
  moreover have "states_ok ?k" "pointers_ok ?k" "notify_ok ?k" "overflow_ok ?k" "counts_ok ?k" "owners_ok ?k"
    using saneD(4,5,7,8,9,10)[OF sane] by (simp_all add: kernel_unfold kernel_views)
  ultimately show ?thesis using saneD(1-3)[OF sane] by (simp add: sane_def)
qed

lemma steady_suspended:
  "steady L idle k \<Longrightarrow> n \<noteq> 0 \<or> (\<forall>i. home k i \<noteq> Some PendingReadyList) \<Longrightarrow>
   steady L idle (k\<lparr>uxSchedulerSuspended := n\<rparr>)"
  by (simp add: steady_def sane_suspended)

lemma held_settled:
  assumes "steady L idle (held k)" "\<forall>i. home k i \<noteq> Some PendingReadyList" "uxSchedulerSuspended k = 0"
  shows "steady L idle k"
proof -
  have "(held k)\<lparr>uxSchedulerSuspended := 0\<rparr> = k" using assms(3) by (cases k) simp
  then show ?thesis using steady_suspended[OF assms(1), of 0] assms(2) by simp
qed

lemma move_pending_ok:
  assumes "steady L idle (held k)" "uxSchedulerSuspended k = 0" "pxCurrentTCB k = Some c"
    "xYieldPending k \<or> most_urgent k c"
  shows "\<exists>m k'. move_pending moved k = Some (m, k') \<and> steady L idle k' \<and> urgent_runs k' \<and>
     pxCurrentTCB k' = Some c \<and> uxSchedulerSuspended k' = 0 \<and> xPendedTicks k' = xPendedTicks k \<and>
     xSchedulerRunning k' = xSchedulerRunning k \<and> tcbs k' = tcbs k \<and> xTickCount k' = xTickCount k \<and>
     (\<forall>t. is_ready k t \<longrightarrow> is_ready k' t) \<and>
     ((\<forall>i. home k i \<noteq> Some PendingReadyList) \<longrightarrow> m = moved \<and> k' = k)"
  using assms
proof (induction "length (items (lists k) PendingReadyList)" arbitrary: k moved rule: less_induct)
  case less
  note sane = steadyD(1)[OF less.prems(1)]
  note pL = known_lists(4)[OF sane]
  have ok: "store_ok L (lists k)" using saneD(1)[OF sane] by simp
  show ?case
  proof (cases "listLIST_IS_EMPTY PendingReadyList (lists k)")
    case True
    then have none: "\<forall>i. home k i \<noteq> Some PendingReadyList" using store_empty[OF ok pL] by simp
    note st = held_settled[OF less.prems(1) none less.prems(2)]
    have "move_pending moved k = Some (moved, k)"
      by (subst move_pending.simps) (simp add: True)
    moreover have "urgent_runs k" using less.prems(3,4) by (simp add: urgent_runs_def)
    ultimately show ?thesis using st less.prems(2,3) by auto
  next
    case False
    from store_head[OF ok pL False] obtain i where
      i: "home k i = Some PendingReadyList" "listGET_OWNER_OF_HEAD_ENTRY PendingReadyList (lists k) = Some (item_task i)"
      by blast
    obtain t where t: "i = EventItem t"
      using saneD(5)[OF sane] i(1) by (cases i) (auto simp: states_ok_def is_ready_def is_blocked_def)
    from ready_pending_ok[OF less.prems(1) i(1)[unfolded t] less.prems(3,4)] obtain s y where
      s: "ready_pending t k = Some (readied k t s\<lparr>xYieldPending := y\<rparr>)"
        "steady L idle (held (readied k t s\<lparr>xYieldPending := y\<rparr>))" "y \<or> most_urgent (readied k t s) c"
        "pxContainer s = (pxContainer (lists k))(StateItem t := Some (ReadyTasksList (priority k t)), EventItem t := None)"
        "items s PendingReadyList = remove1 (EventItem t) (items (lists k) PendingReadyList)" by blast
    let ?k = "readied k t s\<lparr>xYieldPending := y\<rparr>"
    have mem: "EventItem t \<in> set (items (lists k) PendingReadyList)" using store_mem[OF ok pL] i(1) t by simp
    then have "length (items (lists ?k) PendingReadyList) < length (items (lists k) PendingReadyList)"
      using length_pos_if_in_set[OF mem] s(5) by (simp add: length_remove1)
    moreover have keep: "\<forall>u. is_ready k u \<longrightarrow> is_ready ?k u" using s(4) by (auto simp: is_ready_def)
    moreover have "xYieldPending ?k \<or> most_urgent ?k c" using s(3) by (simp add: kernel_views)
    ultimately obtain m k' where
      "move_pending True ?k = Some (m, k')" "steady L idle k'" "urgent_runs k'" "pxCurrentTCB k' = Some c"
      "uxSchedulerSuspended k' = 0" "xPendedTicks k' = xPendedTicks k" "xSchedulerRunning k' = xSchedulerRunning k"
      "tcbs k' = tcbs k" "xTickCount k' = xTickCount k" "\<forall>t. is_ready ?k t \<longrightarrow> is_ready k' t"
      using less.hyps[of ?k True] s(2) less.prems(2,3) by auto
    moreover have "move_pending moved k = move_pending True ?k"
      using i(2) t s(1) False by (subst move_pending.simps) simp
    ultimately show ?thesis using i(1) keep by auto
  qed
qed

lemma reset_unblock_ok:
  assumes st: "steady L idle k"
  shows "steady L idle (prvResetNextTaskUnblockTime k)"
proof -
  note sane = steadyD(1)[OF st]
  note inv = saneD[OF sane] and dL = known_lists(2)[OF sane] and dp = delay_pointers(1)[OF sane]
  define n where "n = (if listLIST_IS_EMPTY (pxDelayedTaskList k) (lists k) then portMAX_DELAY
      else listGET_ITEM_VALUE_OF_HEAD_ENTRY (pxDelayedTaskList k) (lists k))"
  have eq: "prvResetNextTaskUnblockTime k = k\<lparr>xNextTaskUnblockTime := n\<rparr>"
    by (simp add: prvResetNextTaskUnblockTime_def n_def)
  have "n \<le> wake k t" if t: "home k (StateItem t) = Some (pxDelayedTaskList k)" for t
  proof -
    have "\<not> listLIST_IS_EMPTY (pxDelayedTaskList k) (lists k)"
      using store_empty[OF inv(1) dL] t by blast
    with store_head[OF inv(1) dL this] store_head_least[OF inv(1) dp _ t] show ?thesis by (metis n_def)
  qed
  then show ?thesis
    using st by (auto simp: eq steady_def punctual_def)
qed

lemma reset_unblock_fields [simp]:
  "lists (prvResetNextTaskUnblockTime k) = lists k" "tcbs (prvResetNextTaskUnblockTime k) = tcbs k"
  "pxCurrentTCB (prvResetNextTaskUnblockTime k) = pxCurrentTCB k" "xYieldPending (prvResetNextTaskUnblockTime k) = xYieldPending k"
  "uxSchedulerSuspended (prvResetNextTaskUnblockTime k) = uxSchedulerSuspended k"
  "xPendedTicks (prvResetNextTaskUnblockTime k) = xPendedTicks k"
  "xSchedulerRunning (prvResetNextTaskUnblockTime k) = xSchedulerRunning k"
  "urgent_runs (prvResetNextTaskUnblockTime k) = urgent_runs k"
  by (simp_all add: prvResetNextTaskUnblockTime_def)

text \<open>
  Resuming: the pending tasks and the pended ticks are dealt with, and the task that runs
  afterwards is one of the most urgent. When the caller is itself blocked it has to yield,
  which is what \<open>resume_and_yield\<close> does.
\<close>

lemma resume_prepared:
  assumes st: "steady L idle k" and ur: "urgent_runs k" and susp: "uxSchedulerSuspended k = 1" and on: "xSchedulerRunning k"
  obtains k2 where "steady L idle k2" "urgent_runs k2" "uxSchedulerSuspended k2 = 0" "xPendedTicks k2 = 0" "xSchedulerRunning k2"
    "pxCurrentTCB k2 = pxCurrentTCB k" "\<forall>t. is_ready k t \<longrightarrow> is_ready k2 t"
    "xTaskResumeAll k = (if xYieldPending k2 then do { k3 \<leftarrow> portYIELD k2; Some (True, k3) } else Some (False, k2))"
    "(\<forall>i. home k i \<noteq> Some PendingReadyList) \<and> xPendedTicks k = 0 \<longrightarrow> k2 = k\<lparr>uxSchedulerSuspended := 0\<rparr>"
proof -
  let ?k = "k\<lparr>uxSchedulerSuspended := 0\<rparr>"
  obtain c where c: "pxCurrentTCB k = Some c" "xYieldPending k \<or> most_urgent k c" using ur by (auto simp: urgent_runs_def)
  have "held ?k = k" using susp by (cases k) simp
  then have "steady L idle (held ?k)" using st by simp
  from move_pending_ok[OF this, of c False] c obtain m k1 where
    k1: "move_pending False ?k = Some (m, k1)" "steady L idle k1" "urgent_runs k1" "pxCurrentTCB k1 = Some c"
      "uxSchedulerSuspended k1 = 0" "xPendedTicks k1 = xPendedTicks k" "xSchedulerRunning k1 = xSchedulerRunning k" "\<forall>t. is_ready k t \<longrightarrow> is_ready k1 t"
      "(\<forall>i. home k i \<noteq> Some PendingReadyList) \<longrightarrow> m = False \<and> k1 = ?k" by (auto simp: kernel_views)
  let ?k1 = "if m then prvResetNextTaskUnblockTime k1 else k1"
  have st1: "steady L idle ?k1" "urgent_runs ?k1" "uxSchedulerSuspended ?k1 = 0"
    using k1(2,3,5) reset_unblock_ok[OF k1(2)] by simp_all
  have "pxCurrentTCB ?k1 = Some c" "xSchedulerRunning ?k1" using k1(4,7) on by simp_all
  with replay_ok[OF st1, of "unat (xPendedTicks k)"] obtain k2 where
    k2: "replay_ticks (unat (xPendedTicks k)) ?k1 = Some k2" "steady L idle k2" "urgent_runs k2"
      "pxCurrentTCB k2 = Some c" "uxSchedulerSuspended k2 = 0" "xSchedulerRunning k2"
      "\<forall>t. is_ready ?k1 t \<longrightarrow> is_ready k2 t" by auto
  have "is_ready ?k1 = is_ready k1" by (simp add: fun_eq_iff is_ready_def)
  then have keep: "\<forall>t. is_ready k t \<longrightarrow> is_ready k2 t" "\<forall>t. is_ready k t \<longrightarrow> is_ready ?k1 t" using k1(8) k2(7) by auto
  let ?k2 = "if xPendedTicks k > 0 then k2\<lparr>xPendedTicks := 0\<rparr> else ?k1"
  have n: "uxCurrentNumberOfTasks k > 0"
  proof -
    have "idle \<in> {t. home k (StateItem t) \<noteq> None}" using steadyD(3)[OF st] by (simp add: is_ready_def)
    then show ?thesis using saneD(9)[OF steadyD(1)[OF st]] by (auto simp: counts_ok_def card_gt_0_iff)
  qed
  have "xTaskResumeAll k = (if xYieldPending ?k2 then do { k3 \<leftarrow> portYIELD ?k2; Some (True, k3) } else Some (False, ?k2))"
    using susp n k1(1,6) k2(1) by (auto simp: xTaskResumeAll_def configASSERT_def Let_def)
  moreover have "xPendedTicks ?k2 = 0" using k1(6) by (auto simp: word_gt_0)
  ultimately show ?thesis
    using that[of ?k2] st1 k2(2-6) k1(4,7,9) keep on c(1) by (cases "xPendedTicks k > 0") simp_all
qed

lemma resume_and_yield_ok:
  assumes st: "steady L idle k" and ur: "urgent_runs k" and susp: "uxSchedulerSuspended k = 1" and on: "xSchedulerRunning k"
  obtains k' where "resume_and_yield k = Some k'" "scheduler_ok L idle k'"
    "(\<forall>i. home k i \<noteq> Some PendingReadyList) \<and> xPendedTicks k = 0 \<longrightarrow> same_tasks (k\<lparr>uxSchedulerSuspended := 0\<rparr>) k'"
    "\<exists>t. pxCurrentTCB k' = Some t \<and> is_ready k' t \<and> most_urgent k' t"
proof -
  obtain k2 where
    k2: "steady L idle k2" "urgent_runs k2" "uxSchedulerSuspended k2 = 0" "xPendedTicks k2 = 0" "xSchedulerRunning k2"
      "pxCurrentTCB k2 = pxCurrentTCB k" "\<forall>t. is_ready k t \<longrightarrow> is_ready k2 t"
      "xTaskResumeAll k = (if xYieldPending k2 then do { k3 \<leftarrow> portYIELD k2; Some (True, k3) } else Some (False, k2))"
      "(\<forall>i. home k i \<noteq> Some PendingReadyList) \<and> xPendedTicks k = 0 \<longrightarrow> k2 = k\<lparr>uxSchedulerSuspended := 0\<rparr>"
    by (rule resume_prepared[OF assms])
  have "pxCurrentTCB k2 \<noteq> None" using k2(2) by (auto simp: urgent_runs_def)
  from yield_ok[OF k2(1,5) this k2(3,4)] obtain k3 where
    k3: "portYIELD k2 = Some k3" "scheduler_ok L idle k3" "same_tasks k2 k3"
      "\<exists>t. pxCurrentTCB k3 = Some t \<and> is_ready k3 t \<and> most_urgent k3 t" by blast
  have "resume_and_yield k = Some k3" using k2(8) k3(1) by (simp add: resume_and_yield_def)
  moreover have "(\<forall>i. home k i \<noteq> Some PendingReadyList) \<and> xPendedTicks k = 0 \<longrightarrow>
      same_tasks (k\<lparr>uxSchedulerSuspended := 0\<rparr>) k3" using k2(9) k3(3) by blast
  ultimately show ?thesis using that k3(2,4) by blast
qed

lemma resume_ok:
  assumes ok: "scheduler_ok L idle k" and susp: "uxSchedulerSuspended k \<noteq> 0"
    and c: "uxSchedulerSuspended k = 1 \<Longrightarrow> pxCurrentTCB k = Some c \<and> is_ready k c"
  obtains y k' where "xTaskResumeAll k = Some (y, k')" "scheduler_ok L idle k'"
proof (cases "uxSchedulerSuspended k = 1")
  case True
  have st: "steady L idle k" "urgent_runs k" "xSchedulerRunning k" using ok by (simp_all add: scheduler_ok_def)
  obtain k2 where
    k2: "steady L idle k2" "urgent_runs k2" "uxSchedulerSuspended k2 = 0" "xPendedTicks k2 = 0" "xSchedulerRunning k2"
      "pxCurrentTCB k2 = pxCurrentTCB k" "\<forall>t. is_ready k t \<longrightarrow> is_ready k2 t"
      "xTaskResumeAll k = (if xYieldPending k2 then do { k3 \<leftarrow> portYIELD k2; Some (True, k3) } else Some (False, k2))"
      "(\<forall>i. home k i \<noteq> Some PendingReadyList) \<and> xPendedTicks k = 0 \<longrightarrow> k2 = k\<lparr>uxSchedulerSuspended := 0\<rparr>"
    by (rule resume_prepared[OF st(1,2) True st(3)])
  have cur: "pxCurrentTCB k2 \<noteq> None" using k2(2) by (auto simp: urgent_runs_def)
  show ?thesis
  proof (cases "xYieldPending k2")
    case True
    from yield_ok[OF k2(1,5) cur k2(3,4)] obtain k3 where "portYIELD k2 = Some k3" "scheduler_ok L idle k3" by blast
    then show ?thesis using that[of True k3] k2(8) True by simp
  next
    case False
    have "scheduler_ok L idle k2" using k2 c[OF True] by (simp add: scheduler_ok_def)
    then show ?thesis using that[of False k2] k2(8) False by simp
  qed
next
  case False
  let ?k = "k\<lparr>uxSchedulerSuspended := uxSchedulerSuspended k - 1\<rparr>"
  have "xTaskResumeAll k = Some (False, ?k)"
    using susp False by (simp add: xTaskResumeAll_def configASSERT_def)
  moreover have "steady L idle ?k"
    using ok susp False by (intro steady_suspended) (simp_all add: scheduler_ok_def)
  then have "scheduler_ok L idle ?k"
    using ok susp False by (simp add: scheduler_ok_def)
  ultimately show ?thesis by (rule that)
qed

lemma suspend_ok:
  assumes "scheduler_ok L idle k"
  shows "scheduler_ok L idle (vTaskSuspendAll k)"
  using assms steady_suspended[of L idle k "uxSchedulerSuspended k + 1"]
  by (simp add: scheduler_ok_def vTaskSuspendAll_def)

subsection \<open>Blocking\<close>

lemma wake_time_cases:
  fixes now n :: tick
  assumes "n > 0"
  shows "now + n < now \<Longrightarrow> unat (now + n) + 2 ^ 32 - unat now = unat n"
    and "\<not> now + n < now \<Longrightarrow> now < now + n \<and> unat (now + n) - unat now = unat n"
proof -
  have n: "0 < unat n" using assms by (simp add: word_gt_0 unat_gt_0)
  have b: "unat now < 2 ^ 32" "unat n < 2 ^ 32"
    using unsigned_less[of now, where 'a = nat] unsigned_less[of n, where 'a = nat] by simp_all
  have sum: "unat (now + n) = (unat now + unat n) mod 2 ^ 32"
    by (simp add: unat_word_ariths)
  have "unat (now + n) = unat now + unat n \<and> unat now + unat n < 2 ^ 32 \<or>
      unat (now + n) + 2 ^ 32 = unat now + unat n"
  proof (cases "unat now + unat n < 2 ^ 32")
    case False
    then have "(unat now + unat n) mod 2 ^ 32 = unat now + unat n - 2 ^ 32"
      using b by (simp add: le_mod_geq)
    with False sum show ?thesis by simp
  qed (use sum in simp)
  then show "now + n < now \<Longrightarrow> unat (now + n) + 2 ^ 32 - unat now = unat n"
    and "\<not> now + n < now \<Longrightarrow> now < now + n \<and> unat (now + n) - unat now = unat n"
    using n b by (auto simp: word_less_nat_alt)
qed

text \<open>
  The running task \<open>c\<close> leaves its ready list for one of the delayed lists. The store may
  already have its event item in an event list.
\<close>

lemma block_ok:
  assumes st: "steady L idle k" and c: "pxCurrentTCB k = Some c" "is_ready k c" "c \<noteq> idle" and n: "n > 0"
    and s0: "store_ok L s0" "\<And>u. xItemValue s0 (Item (StateItem u)) = wake k u"
      "pxContainer s0 = (pxContainer (lists k))(EventItem c := x)"
      "items s0 TasksWaitingTermination = items (lists k) TasksWaitingTermination" "pvOwner s0 = pvOwner (lists k)"
    and x: "x = home k (EventItem c) \<or> (\<exists>e. x = Some (EventList e)) \<and> ucNotifyState (tcbs k c) \<noteq> WAITING_NOTIFICATION"
  obtains s d m where "prvAddCurrentTaskToDelayedList n (k\<lparr>lists := s0\<rparr>) = Some (k\<lparr>lists := s, xNextTaskUnblockTime := m\<rparr>)"
    "steady L idle (k\<lparr>lists := s, xNextTaskUnblockTime := m\<rparr>)"
    "pxContainer s = (pxContainer (lists k))(StateItem c := Some d, EventItem c := x)" "d \<in> delay_lists"
    "remaining (k\<lparr>lists := s, xNextTaskUnblockTime := m\<rparr>) c = unat n"
    "\<And>u. u \<noteq> c \<Longrightarrow> xItemValue s (Item (StateItem u)) = wake k u"
proof -
  note sane = steadyD(1)[OF st]
  note inv = saneD[OF sane] and dp = delay_pointers[OF sane]
  define w where "w = xTickCount k + n"
  define d where "d = (if w < xTickCount k then pxOverflowDelayedTaskList k else pxDelayedTaskList k)"
  define m where "m = (if \<not> w < xTickCount k \<and> w < xNextTaskUnblockTime k then w else xNextTaskUnblockTime k)"
  have dL: "d \<in> L" "d \<in> delay_lists" using known_lists(2,3)[OF sane] dp(1,2) by (auto simp: d_def)
  have tL: "TasksWaitingTermination \<in> L" using known_lists(5)[OF sane] .
  have h: "pxContainer s0 (StateItem c) = Some (ReadyTasksList (priority k c))"
    using s0(3) c(2) by (simp add: is_ready_def)
  from store_remove[OF s0(1) h] obtain s1 q where
    s1: "uxListRemove (StateItem c) s0 = Some (q, s1)" "store_ok L s1" "pxContainer s1 = (pxContainer s0)(StateItem c := None)"
      "xItemValue s1 = xItemValue s0" "pvOwner s1 = pvOwner s0"
      "\<forall>l'\<in>L. l' \<noteq> ReadyTasksList (priority k c) \<longrightarrow> items s1 l' = items s0 l'" by blast
  let ?s2 = "listSET_LIST_ITEM_VALUE (StateItem c) w s1"
  have s2: "store_ok L ?s2" using s1(2,3) by (intro store_value) simp_all
  have own: "pvOwner s0 (StateItem c) = Some c" using s0(1) h by (force simp: store_ok_def)
  have "pxContainer ?s2 (StateItem c) = None" "pvOwner ?s2 (StateItem c) = Some (item_task (StateItem c))"
    using s1(3,5) own by simp_all
  from store_insert[OF s2 this dL(1)] obtain s3 where
    s3: "vListInsert d (StateItem c) ?s2 = Some s3" "store_ok L s3" "pxContainer s3 = (pxContainer ?s2)(StateItem c := Some d)"
      "xItemValue s3 = xItemValue ?s2" "\<forall>l'\<in>L. l' \<noteq> d \<longrightarrow> items s3 l' = items ?s2 l'" "pvOwner s3 = pvOwner ?s2" by blast
  let ?k = "k\<lparr>lists := s3, xNextTaskUnblockTime := m\<rparr>"
  have cont: "pxContainer s3 = (pxContainer (lists k))(StateItem c := Some d, EventItem c := x)"
    using s3(3) s1(3) s0(3) by auto
  have val: "xItemValue s3 (Item (StateItem u)) = (if u = c then w else wake k u)" for u
    using s3(4) s1(4) s0(2) by simp
  have "items s3 TasksWaitingTermination = items (lists k) TasksWaitingTermination"
    using s3(5) s1(6) s0(4) tL dL(2) by auto
  then have "sane L (k\<lparr>lists := s3\<rparr>)"
    using sane_block[OF sane c(2) s3(2) val cont] x s3(6) s1(5) s0(5) by (auto simp: d_def)
  then have "sane L ?k" by simp
  moreover have "punctual ?k"
    unfolding punctual_def
  proof (intro allI impI)
    fix u assume u: "home ?k (StateItem u) = Some (pxDelayedTaskList ?k)"
    show "xTickCount ?k < wake ?k u \<and> xNextTaskUnblockTime ?k \<le> wake ?k u"
    proof (cases "u = c")
      case True
      with u cont dp(3) have "\<not> w < xTickCount k" by (auto simp: d_def split: if_splits)
      then show ?thesis using True val wake_time_cases(2)[OF n] by (auto simp: m_def w_def)
    next
      case False
      with u cont have "home k (StateItem u) = Some (pxDelayedTaskList k)" by simp
      then have "xTickCount k < wake k u" "xNextTaskUnblockTime k \<le> wake k u"
        using steadyD(2)[OF st] by (auto simp: punctual_def)
      then show ?thesis using False val by (auto simp: m_def intro: order_trans less_imp_le)
    qed
  qed
  moreover have "is_ready ?k idle" using steadyD(3)[OF st] c(3) cont by (simp add: is_ready_def)
  ultimately have "steady L idle ?k" using st by (simp add: steady_def)
  moreover have "remaining ?k c = unat n"
    using cont val dp(3) wake_time_cases[OF n, of "xTickCount k"] by (simp add: remaining_def d_def w_def)
  moreover have "prvAddCurrentTaskToDelayedList n (k\<lparr>lists := s0\<rparr>) = Some ?k"
  proof -
    have "k\<lparr>lists := s3, xNextTaskUnblockTime := xNextTaskUnblockTime k\<rparr> = k\<lparr>lists := s3\<rparr>" by (cases k) simp
    then show ?thesis
      using c(1) s1(1) s3(1) unfolding d_def m_def
      by (cases "w < xTickCount k") (simp_all add: prvAddCurrentTaskToDelayedList_def Let_def w_def[symmetric])
  qed
  ultimately show ?thesis using that cont dL(2) val by simp
qed

lemma blocked_still_urgent:
  assumes "urgent_runs k" "pxCurrentTCB k' = pxCurrentTCB k" "xYieldPending k' = xYieldPending k" "tcbs k' = tcbs k"
    "\<And>t. is_ready k' t \<Longrightarrow> is_ready k t"
  shows "urgent_runs k'"
  using assms by (auto simp: urgent_runs_def most_urgent_def)

lemma blocked_ready:
  assumes "pxContainer s = (pxContainer (lists k))(StateItem c := Some d, EventItem c := x)" "d \<in> delay_lists"
  shows "is_ready (k\<lparr>lists := s, xNextTaskUnblockTime := m\<rparr>) u \<longleftrightarrow> is_ready k u \<and> u \<noteq> c"
    "is_blocked (k\<lparr>lists := s, xNextTaskUnblockTime := m\<rparr>) c"
  using assms by (auto simp: kernel_views)

lemma no_pending:
  assumes "scheduler_ok L idle k" "uxSchedulerSuspended k = 0"
  shows "home k i \<noteq> Some PendingReadyList"
proof (cases i)
  case (StateItem t)
  then show ?thesis
    using assms(1) saneD(5)[of L k] by (auto simp: scheduler_ok_def steady_def states_ok_def is_ready_def is_blocked_def)
next
  case (EventItem t)
  then show ?thesis
    using assms event_home(1)[of L k t PendingReadyList] by (auto simp: scheduler_ok_def steady_def)
qed

text \<open>
  The end of every blocking call: the caller goes to a delayed list, the scheduler is resumed
  and a most urgent ready task runs. No other task is touched.
\<close>

lemma block_yield_ok:
  assumes ok: "scheduler_ok L idle k" and susp: "uxSchedulerSuspended k = 1" "xPendedTicks k = 0"
    and none: "\<And>i. home k i \<noteq> Some PendingReadyList"
    and c: "pxCurrentTCB k = Some c" "is_ready k c" "c \<noteq> idle" and n: "n > 0"
  obtains k' where "Option.bind (prvAddCurrentTaskToDelayedList n k) resume_and_yield = Some k'" "scheduler_ok L idle k'"
    "is_blocked k' c" "remaining k' c = unat n" "uxSchedulerSuspended k' = 0" "tcbs k' = tcbs k"
    "\<forall>u. is_ready k' u \<longleftrightarrow> is_ready k u \<and> u \<noteq> c" "home k' (EventItem c) = home k (EventItem c)"
proof -
  have st: "steady L idle k" and ur: "urgent_runs k" and on: "xSchedulerRunning k"
    using ok by (simp_all add: scheduler_ok_def)
  have sl: "store_ok L (lists k)" using saneD(1)[OF steadyD(1)[OF st]] .
  obtain s d m where
    s: "prvAddCurrentTaskToDelayedList n (k\<lparr>lists := lists k\<rparr>) = Some (k\<lparr>lists := s, xNextTaskUnblockTime := m\<rparr>)"
      "steady L idle (k\<lparr>lists := s, xNextTaskUnblockTime := m\<rparr>)"
      "pxContainer s = (pxContainer (lists k))(StateItem c := Some d, EventItem c := home k (EventItem c))" "d \<in> delay_lists"
      "remaining (k\<lparr>lists := s, xNextTaskUnblockTime := m\<rparr>) c = unat n"
    by (rule block_ok[OF st c n sl, where x = "home k (EventItem c)"]) (auto simp: fun_upd_idem)
  let ?b = "k\<lparr>lists := s, xNextTaskUnblockTime := m\<rparr>"
  note rb = blocked_ready[OF s(3,4), where m = m]
  have "urgent_runs ?b" by (rule blocked_still_urgent[OF ur]) (use rb(1) in auto)
  moreover have "home ?b i \<noteq> Some PendingReadyList" for i
    using none[of i] s(3,4) by auto
  ultimately obtain k' where
    k': "resume_and_yield ?b = Some k'" "scheduler_ok L idle k'" "same_tasks (?b\<lparr>uxSchedulerSuspended := 0\<rparr>) k'"
    using resume_and_yield_ok[OF s(2)] susp on by auto
  have "k\<lparr>lists := lists k\<rparr> = k" by simp
  then have "Option.bind (prvAddCurrentTaskToDelayedList n k) resume_and_yield = Some k'"
    using s(1) k'(1) by simp
  moreover note v = same_tasks_views[OF k'(3)]
  have "is_blocked k' c" "remaining k' c = unat n" "is_ready k' u \<longleftrightarrow> is_ready k u \<and> u \<noteq> c" for u
    using rb(1)[of u] rb(2) s(5) by (simp_all add: v)
  moreover have "uxSchedulerSuspended k' = 0" "tcbs k' = tcbs k" "home k' (EventItem c) = home k (EventItem c)"
    using k'(3) s(3) by (simp_all add: same_tasks_def)
  ultimately show ?thesis using that k'(2) by blast
qed

lemma suspend_for_block:
  assumes ok: "scheduler_ok L idle k" and susp: "uxSchedulerSuspended k = 0" and c: "pxCurrentTCB k = Some c"
  shows "scheduler_ok L idle (vTaskSuspendAll k)" "uxSchedulerSuspended (vTaskSuspendAll k) = 1"
    "xPendedTicks (vTaskSuspendAll k) = 0" "home (vTaskSuspendAll k) i \<noteq> Some PendingReadyList"
    "pxCurrentTCB (vTaskSuspendAll k) = Some c" "is_ready (vTaskSuspendAll k) c" "tcbs (vTaskSuspendAll k) = tcbs k"
    "is_ready (vTaskSuspendAll k) u = is_ready k u" "home (vTaskSuspendAll k) = home k"
    "home k (EventItem c) = None"
proof -
  show "scheduler_ok L idle (vTaskSuspendAll k)" using suspend_ok[OF ok] .
  show "home (vTaskSuspendAll k) i \<noteq> Some PendingReadyList"
    using no_pending[OF ok susp, of i] by (simp add: vTaskSuspendAll_def)
  show r: "is_ready (vTaskSuspendAll k) u = is_ready k u" for u by (simp add: vTaskSuspendAll_def)
  have rc: "is_ready k c" using ok susp c by (auto simp: scheduler_ok_def)
  then show "is_ready (vTaskSuspendAll k) c" by (simp add: r)
  show "home k (EventItem c) = None"
  proof (rule ccontr)
    assume "\<not> ?thesis"
    then obtain l where "home k (EventItem c) = Some l" by blast
    with event_home(1)[of L k c l] ok susp rc show False
      by (auto simp: scheduler_ok_def steady_def is_blocked_def is_ready_def)
  qed
qed (use susp c ok in \<open>auto simp: vTaskSuspendAll_def scheduler_ok_def\<close>)

lemma delay_ok:
  assumes ok: "scheduler_ok L idle k" and susp: "uxSchedulerSuspended k = 0"
    and c: "pxCurrentTCB k = Some c" "c \<noteq> idle" and n: "n > 0"
  obtains k' where "vTaskDelay n k = Some k'" "scheduler_ok L idle k'" "is_blocked k' c" "remaining k' c = unat n"
    "uxSchedulerSuspended k' = 0" "tcbs k' = tcbs k" "\<forall>u. is_ready k' u \<longleftrightarrow> is_ready k u \<and> u \<noteq> c"
    "home k' (EventItem c) = None"
proof -
  note pre = suspend_for_block[OF ok susp c(1)]
  obtain k' where
    k': "Option.bind (prvAddCurrentTaskToDelayedList n (vTaskSuspendAll k)) resume_and_yield = Some k'" "scheduler_ok L idle k'"
      "is_blocked k' c" "remaining k' c = unat n" "uxSchedulerSuspended k' = 0" "tcbs k' = tcbs (vTaskSuspendAll k)"
      "\<forall>u. is_ready k' u \<longleftrightarrow> is_ready (vTaskSuspendAll k) u \<and> u \<noteq> c"
      "home k' (EventItem c) = home (vTaskSuspendAll k) (EventItem c)"
    by (rule block_yield_ok[OF pre(1-3) pre(4) pre(5,6) c(2) n])
  have "vTaskDelay n k = Some k'"
    using n k'(1) pre(2) by (simp add: vTaskDelay_def configASSERT_def Let_def)
  then show ?thesis using that k'(2-8) pre(7-10) by simp
qed

lemma yield_any_time:
  assumes "steady L idle k" "xSchedulerRunning k" "pxCurrentTCB k \<noteq> None" "uxSchedulerSuspended k = 0 \<longrightarrow> xPendedTicks k = 0"
  shows "\<exists>k'. portYIELD k = Some k' \<and> scheduler_ok L idle k'"
proof (cases "uxSchedulerSuspended k = 0")
  case True
  with yield_ok[OF assms(1-3) True] assms(4) show ?thesis by blast
next
  case False
  then have "portYIELD k = Some (k\<lparr>xYieldPending := True\<rparr>)"
    by (simp add: portYIELD_def vTaskSwitchContext_def)
  with False assms show ?thesis by (auto simp: scheduler_ok_def)
qed

lemma yield_call_ok:
  assumes ok: "scheduler_ok L idle k"
  shows "\<exists>k'. portYIELD k = Some k' \<and> scheduler_ok L idle k'"
  using ok yield_any_time[of L idle k] by (auto simp: scheduler_ok_def urgent_runs_def)

subsection \<open>Waiting for an event and being woken\<close>

lemma place_ok:
  assumes ok: "scheduler_ok L idle k" and susp: "uxSchedulerSuspended k \<noteq> 0"
    and c: "pxCurrentTCB k = Some c" "is_ready k c" "c \<noteq> idle" and n: "n > 0"
    and free: "ucNotifyState (tcbs k c) \<noteq> WAITING_NOTIFICATION"
    and s0: "store_ok L s0" "\<And>u. xItemValue s0 (Item (StateItem u)) = wake k u"
      "pxContainer s0 = (pxContainer (lists k))(EventItem c := Some (EventList e))"
      "items s0 TasksWaitingTermination = items (lists k) TasksWaitingTermination" "pvOwner s0 = pvOwner (lists k)"
  obtains k' where "prvAddCurrentTaskToDelayedList n (k\<lparr>lists := s0\<rparr>) = Some k'" "scheduler_ok L idle k'"
    "is_blocked k' c" "remaining k' c = unat n" "home k' (EventItem c) = Some (EventList e)" "pxCurrentTCB k' = Some c"
    "uxSchedulerSuspended k' = uxSchedulerSuspended k"
proof -
  have st: "steady L idle k" "urgent_runs k" "xSchedulerRunning k" using ok by (simp_all add: scheduler_ok_def)
  have x: "Some (EventList e) = home k (EventItem c) \<or>
      (\<exists>e'. Some (EventList e) = Some (EventList e')) \<and> ucNotifyState (tcbs k c) \<noteq> WAITING_NOTIFICATION" using free by simp
  obtain s d m where
    s: "prvAddCurrentTaskToDelayedList n (k\<lparr>lists := s0\<rparr>) = Some (k\<lparr>lists := s, xNextTaskUnblockTime := m\<rparr>)"
      "steady L idle (k\<lparr>lists := s, xNextTaskUnblockTime := m\<rparr>)"
      "pxContainer s = (pxContainer (lists k))(StateItem c := Some d, EventItem c := Some (EventList e))" "d \<in> delay_lists"
      "remaining (k\<lparr>lists := s, xNextTaskUnblockTime := m\<rparr>) c = unat n"
    by (rule block_ok[OF st(1) c n s0 x])
  let ?k = "k\<lparr>lists := s, xNextTaskUnblockTime := m\<rparr>"
  note rb = blocked_ready[OF s(3,4), where m = m]
  have "urgent_runs ?k" by (rule blocked_still_urgent[OF st(2)]) (use rb(1) in auto)
  then have "scheduler_ok L idle ?k" using s(2) st(3) susp by (simp add: scheduler_ok_def)
  then show ?thesis using that[OF s(1)] rb(2) s(3,5) c(1) by simp
qed

lemma insert_event_store:
  assumes sane: "sane L k" and e: "EventList e \<in> L" and i: "home k (EventItem c) = None" "home k (StateItem c) \<noteq> None"
  obtains s0 where "vListInsert (EventList e) (EventItem c) (lists k) = Some s0" "store_ok L s0" "xItemValue s0 = xItemValue (lists k)"
    "pxContainer s0 = (pxContainer (lists k))(EventItem c := Some (EventList e))"
    "items s0 TasksWaitingTermination = items (lists k) TasksWaitingTermination" "pvOwner s0 = pvOwner (lists k)"
proof -
  have "pvOwner (lists k) (EventItem c) = Some (item_task (EventItem c))"
    using i(2) saneD(10)[OF sane] by (simp add: owners_ok_def)
  from store_insert[OF saneD(1)[OF sane] i(1) this e] obtain s0 where
    "vListInsert (EventList e) (EventItem c) (lists k) = Some s0" "store_ok L s0" "xItemValue s0 = xItemValue (lists k)"
    "pxContainer s0 = (pxContainer (lists k))(EventItem c := Some (EventList e))"
    "\<forall>l'\<in>L. l' \<noteq> EventList e \<longrightarrow> items s0 l' = items (lists k) l'" "pvOwner s0 = pvOwner (lists k)" by blast
  then show ?thesis using that known_lists(5)[OF sane] by auto
qed

lemma place_on_event_list_ok:
  assumes ok: "scheduler_ok L idle k" and susp: "uxSchedulerSuspended k \<noteq> 0"
    and c: "pxCurrentTCB k = Some c" "is_ready k c" "c \<noteq> idle" and n: "n > 0"
    and free: "ucNotifyState (tcbs k c) \<noteq> WAITING_NOTIFICATION"
    and e: "EventList e \<in> L" and i: "home k (EventItem c) = None"
  obtains k' where "vTaskPlaceOnEventList (EventList e) n k = Some k'" "scheduler_ok L idle k'"
    "is_blocked k' c" "remaining k' c = unat n" "home k' (EventItem c) = Some (EventList e)" "pxCurrentTCB k' = Some c"
    "uxSchedulerSuspended k' = uxSchedulerSuspended k"
proof -
  have sane: "sane L k" using ok by (simp add: scheduler_ok_def steady_def)
  have "home k (StateItem c) \<noteq> None" using c(2) by (simp add: is_ready_def)
  from insert_event_store[OF sane e i this] obtain s0 where
    s0: "vListInsert (EventList e) (EventItem c) (lists k) = Some s0" "store_ok L s0" "xItemValue s0 = xItemValue (lists k)"
      "pxContainer s0 = (pxContainer (lists k))(EventItem c := Some (EventList e))"
      "items s0 TasksWaitingTermination = items (lists k) TasksWaitingTermination" "pvOwner s0 = pvOwner (lists k)" by blast
  have v: "\<And>u. xItemValue s0 (Item (StateItem u)) = wake k u" by (simp add: s0(3))
  obtain k' where "prvAddCurrentTaskToDelayedList n (k\<lparr>lists := s0\<rparr>) = Some k'" "scheduler_ok L idle k'"
    "is_blocked k' c" "remaining k' c = unat n" "home k' (EventItem c) = Some (EventList e)" "pxCurrentTCB k' = Some c"
    "uxSchedulerSuspended k' = uxSchedulerSuspended k"
    by (rule place_ok[OF ok susp c n free s0(2) v s0(4,5,6)])
  then show ?thesis using s0(1) c(1)
    by (intro that[of k']) (simp_all add: vTaskPlaceOnEventList_def on_lists_opt_def)
qed

lemma sane_tcb:
  assumes sane: "sane L k" and b: "uxPriority b = priority k t"
    and w: "ucNotifyState b = WAITING_NOTIFICATION \<Longrightarrow> exists_task k t \<Longrightarrow> home k (EventItem t) = None"
  shows "sane L (k\<lparr>tcbs := (tcbs k)(t := b)\<rparr>)"
proof -
  let ?k = "k\<lparr>tcbs := (tcbs k)(t := b)\<rparr>"
  have p: "priority ?k u = priority k u" for u using b by simp
  have "notify_ok ?k"
    using saneD(7)[OF sane] w by (auto simp: notify_ok_def exists_task_def)
  moreover have "states_ok ?k" "events_ok ?k"
    using saneD(5,6)[OF sane] unfolding states_ok_def events_ok_def kernel_views p by simp_all
  ultimately show ?thesis
    using saneD[OF sane] by (simp add: sane_def pointers_ok_def overflow_ok_def counts_ok_def owners_ok_def)
qed

lemma scheduler_tcb:
  assumes ok: "scheduler_ok L idle k" and b: "uxPriority b = priority k t" "tcb_ok b"
    and w: "ucNotifyState b = WAITING_NOTIFICATION \<Longrightarrow> exists_task k t \<Longrightarrow> home k (EventItem t) = None"
  shows "scheduler_ok L idle (k\<lparr>tcbs := (tcbs k)(t := b)\<rparr>)"
proof -
  let ?k = "k\<lparr>tcbs := (tcbs k)(t := b)\<rparr>"
  have p: "priority ?k u = priority k u" for u using b by simp
  have r: "is_ready ?k u = is_ready k u" for u unfolding is_ready_def p by simp
  have "steady L idle ?k"
    using ok sane_tcb[OF _ b(1) w] b(2) r by (auto simp: scheduler_ok_def steady_def punctual_def)
  moreover have "urgent_runs ?k"
    using ok unfolding scheduler_ok_def urgent_runs_def most_urgent_def r p by simp
  ultimately show ?thesis using ok r by (simp add: scheduler_ok_def)
qed

lemma sane_event:
  assumes sane: "sane L k" and s: "store_ok L s" "\<And>u. xItemValue s (Item (StateItem u)) = wake k u"
      "pxContainer s = (pxContainer (lists k))(EventItem t := x)"
      "items s TasksWaitingTermination = items (lists k) TasksWaitingTermination" "pvOwner s = pvOwner (lists k)"
    and x: "x = None \<or> x = Some PendingReadyList \<and> uxSchedulerSuspended k \<noteq> 0 \<and> exists_task k t \<and>
        ucNotifyState (tcbs k t) \<noteq> WAITING_NOTIFICATION"
  shows "sane L (k\<lparr>lists := s\<rparr>)"
proof -
  note inv = saneD[OF sane]
  let ?k = "k\<lparr>lists := s\<rparr>"
  have h: "home ?k (StateItem u) = home k (StateItem u)" for u using s(3) by simp
  have "events_ok ?k"
    unfolding events_ok_def kernel_views h
  proof (intro allI impI)
    fix u l assume l: "home ?k (EventItem u) = Some l"
    then show "(\<exists>e. l = EventList e) \<and> home k (StateItem u) \<in> Some ` delay_lists \<or>
        l = PendingReadyList \<and> uxSchedulerSuspended ?k \<noteq> 0 \<and>
        home k (StateItem u) \<noteq> None \<and> home k (StateItem u) \<noteq> Some TasksWaitingTermination"
      using event_home(1)[OF sane, of u l] s(3) x by (cases "u = t") (auto simp: is_blocked_def exists_task_def)
  qed
  moreover have "notify_ok ?k"
    using inv(7) s(3) x by (auto simp: notify_ok_def exists_task_def)
  moreover have "states_ok ?k" using inv(5) unfolding states_ok_def kernel_views h by simp
  moreover have "overflow_ok ?k" using inv(8) s(2) h by (simp add: overflow_ok_def)
  moreover have "counts_ok ?k" using inv(9) s(4) h by (simp add: counts_ok_def)
  moreover have "owners_ok ?k" using inv(10) s(5) h by (simp add: owners_ok_def)
  ultimately show ?thesis using inv(2-4) s(1) by (simp add: sane_def pointers_ok_def)
qed

lemma steady_event:
  assumes "steady L idle k" "sane L (k\<lparr>lists := s\<rparr>)" "\<And>u. xItemValue s (Item (StateItem u)) = wake k u"
    "pxContainer s = (pxContainer (lists k))(EventItem t := x)"
  shows "steady L idle (k\<lparr>lists := s\<rparr>)" "is_ready (k\<lparr>lists := s\<rparr>) = is_ready k"
  using assms by (auto simp: steady_def is_ready_def punctual_def)

lemma scheduler_event:
  assumes ok: "scheduler_ok L idle k" and s: "sane L (k\<lparr>lists := s\<rparr>)" "\<And>u. xItemValue s (Item (StateItem u)) = wake k u"
    "pxContainer s = (pxContainer (lists k))(EventItem t := x)"
  shows "scheduler_ok L idle (k\<lparr>lists := s\<rparr>)"
  using ok steady_event[OF _ s] unfolding scheduler_ok_def urgent_runs_def most_urgent_def by auto

lemma ready_now_ok:
  assumes st: "steady L idle k" and t: "exists_task k t" and x: "home k (EventItem t) \<in> {None, Some PendingReadyList}"
  obtains s where "ready_now t k = Some (readied k t s)" "steady L idle (readied k t s)"
    "pxContainer s = (pxContainer (lists k))(StateItem t := Some (ReadyTasksList (priority k t)))"
    "xItemValue s = xItemValue (lists k)" "\<forall>u. is_ready (readied k t s) u \<longleftrightarrow> is_ready k u \<or> u = t"
proof -
  note sane = steadyD(1)[OF st]
  obtain l where l: "home k (StateItem t) = Some l" "l \<noteq> TasksWaitingTermination" using t by (auto simp: exists_task_def)
  have rL: "ReadyTasksList (priority k t) \<in> L" using known_lists(1)[OF sane] exists_priority[OF sane t] by simp
  from store_to_ready[OF saneD(1)[OF sane] l rL known_lists(5)[OF sane]] obtain n s1 s2 where
    s: "listREMOVE_ITEM (StateItem t) (lists k) = Some s1" "listINSERT_END (ReadyTasksList (priority k t)) (StateItem t) s1 = s2"
      "store_ok L s2" "pxContainer s2 = (pxContainer (lists k))(StateItem t := Some (ReadyTasksList (priority k t)))"
      "xItemValue s2 = xItemValue (lists k)" "items s2 TasksWaitingTermination = items (lists k) TasksWaitingTermination"
      "pvOwner s2 = pvOwner (lists k)" by blast
  have c2: "pxContainer s2 = (pxContainer (lists k))(StateItem t := Some (ReadyTasksList (priority k t)), EventItem t := home k (EventItem t))"
    using s(4) by auto
  have "sane L (readied k t s2)"
    by (rule sane_readied[OF sane t l(1) s(3) _ c2 s(6,7)]) (use x s(5) in auto)
  note r = readied_steady[OF st this s(5) c2]
  have "ready_now t k = Some (readied k t s2)"
    using s(1,2) by (simp add: ready_now_def on_lists_opt_def prvAddTaskToReadyList_eq)
  then show ?thesis using that r s(4,5) by blast
qed

text \<open>
  A task \<open>t\<close> is made ready, or held pending while the scheduler is suspended, and a switch is
  noted when it is more urgent than the running task.
\<close>

lemma wake_task_ok:
  assumes ok: "scheduler_ok L idle k" and t: "exists_task k t" "home k (EventItem t) = None"
    and w: "ucNotifyState (tcbs k t) \<noteq> WAITING_NOTIFICATION"
  obtains y k1 k' where "ready_or_pend t k = Some k1" "note_higher t k1 = Some (y, k')" "scheduler_ok L idle k'"
    "uxSchedulerSuspended k = 0 \<longrightarrow> is_ready k' t"
    "uxSchedulerSuspended k \<noteq> 0 \<longrightarrow> home k' (EventItem t) = Some PendingReadyList"
proof -
  obtain c where c: "pxCurrentTCB k = Some c" "xYieldPending k \<or> most_urgent k c"
    using ok by (auto simp: scheduler_ok_def urgent_runs_def)
  have st: "steady L idle k" "xSchedulerRunning k" using ok by (simp_all add: scheduler_ok_def)
  note sane = steadyD(1)[OF st(1)]
  show ?thesis
  proof (cases "uxSchedulerSuspended k = 0")
    case True
    from ready_now_ok[OF st(1) t(1)] t(2) obtain s where
      s: "ready_now t k = Some (readied k t s)" "steady L idle (readied k t s)"
        "\<forall>u. is_ready (readied k t s) u \<longleftrightarrow> is_ready k u \<or> u = t" by auto
    let ?k = "readied k t s" and ?y = "xYieldPending k \<or> priority k c < priority k t"
    let ?k' = "?k\<lparr>xYieldPending := ?y\<rparr>"
    have "note_higher t ?k = Some (priority k c < priority k t, ?k')"
      using c(1) by (cases k) (auto simp: note_higher_def)
    moreover have "urgent_runs ?k'"
      using c s(3) by (auto simp: urgent_runs_def most_urgent_def)
    then have "scheduler_ok L idle ?k'"
      using s(2,3) ok True by (auto simp: scheduler_ok_def)
    ultimately show ?thesis
      using that[of ?k] s(1,3) True by (simp add: ready_or_pend_def)
  next
    case False
    note pL = known_lists(4)[OF sane]
    have "pvOwner (lists k) (EventItem t) = Some (item_task (EventItem t))"
      using t(1) saneD(10)[OF sane] by (simp add: owners_ok_def exists_task_def)
    from store_insert_end[OF saneD(1)[OF sane] t(2) this pL] obtain s where
      s: "listINSERT_END PendingReadyList (EventItem t) (lists k) = s" "store_ok L s"
        "pxContainer s = (pxContainer (lists k))(EventItem t := Some PendingReadyList)" "xItemValue s = xItemValue (lists k)"
        "\<forall>l'\<in>L. l' \<noteq> PendingReadyList \<longrightarrow> items s l' = items (lists k) l'" "pvOwner s = pvOwner (lists k)" by auto
    have "sane L (k\<lparr>lists := s\<rparr>)"
      by (rule sane_event[OF sane s(2) _ s(3)]) (use s(4-6) known_lists(5)[OF sane] t(1) w False in auto)
    then have ok': "scheduler_ok L idle (k\<lparr>lists := s\<rparr>)"
      by (rule scheduler_event[OF ok _ _ s(3)]) (simp add: s(4))
    let ?y = "xYieldPending k \<or> priority k c < priority k t"
    let ?k' = "k\<lparr>lists := s, xYieldPending := ?y\<rparr>"
    have "note_higher t (k\<lparr>lists := s\<rparr>) = Some (priority k c < priority k t, ?k')"
      using c(1) by (cases k) (auto simp: note_higher_def)
    moreover have "urgent_runs ?k'"
      using c s(3) by (auto simp: urgent_runs_def most_urgent_def is_ready_def)
    then have "scheduler_ok L idle ?k'"
      using ok' False by (simp add: scheduler_ok_def)
    ultimately show ?thesis
      using that[of "k\<lparr>lists := s\<rparr>"] s(1,3) False by (simp add: ready_or_pend_def on_lists_def)
  qed
qed

lemma remove_from_event_list_ok:
  assumes ok: "scheduler_ok L idle k" and e: "EventList e \<in> L" "items (lists k) (EventList e) = EventItem t # ts"
  obtains y k' where "xTaskRemoveFromEventList (EventList e) k = Some (y, k')" "scheduler_ok L idle k'"
    "uxSchedulerSuspended k = 0 \<longrightarrow> is_ready k' t"
    "uxSchedulerSuspended k \<noteq> 0 \<longrightarrow> home k' (EventItem t) = Some PendingReadyList"
proof -
  have st: "steady L idle k" using ok by (simp add: scheduler_ok_def)
  note sane = steadyD(1)[OF st]
  note inv = saneD[OF sane]
  have h: "home k (EventItem t) = Some (EventList e)" using store_mem[OF inv(1) e(1), of "EventItem t"] e(2) by simp
  then have ex: "exists_task k t" using event_home(1)[OF sane h] by (auto simp: is_blocked_def exists_task_def)
  have w: "ucNotifyState (tcbs k t) \<noteq> WAITING_NOTIFICATION" using inv(7) ex h by (auto simp: notify_ok_def)
  have ne: "\<not> listLIST_IS_EMPTY (EventList e) (lists k)" using store_empty[OF inv(1) e(1)] h by auto
  have hd: "listGET_OWNER_OF_HEAD_ENTRY (EventList e) (lists k) = Some t"
    using store_head[OF inv(1) e(1) ne] e(2) by (metis item_task.simps(2) list.inject)
  from store_remove[OF inv(1) h] obtain s where
    s: "listREMOVE_ITEM (EventItem t) (lists k) = Some s" "store_ok L s" "pxContainer s = (pxContainer (lists k))(EventItem t := None)"
      "xItemValue s = xItemValue (lists k)" "pvOwner s = pvOwner (lists k)"
      "\<forall>l'\<in>L. l' \<noteq> EventList e \<longrightarrow> items s l' = items (lists k) l'" by blast
  have "sane L (k\<lparr>lists := s\<rparr>)"
    by (rule sane_event[OF sane s(2) _ s(3)]) (use s(4-6) known_lists(5)[OF sane] in auto)
  then have ok': "scheduler_ok L idle (k\<lparr>lists := s\<rparr>)"
    by (rule scheduler_event[OF ok _ _ s(3)]) (simp add: s(4))
  have "exists_task (k\<lparr>lists := s\<rparr>) t" using ex s(3) by (simp add: exists_task_def)
  moreover have "home (k\<lparr>lists := s\<rparr>) (EventItem t) = None" using s(3) by simp
  moreover have "ucNotifyState (tcbs (k\<lparr>lists := s\<rparr>) t) \<noteq> WAITING_NOTIFICATION" using w by simp
  ultimately obtain y k1 k' where
    "ready_or_pend t (k\<lparr>lists := s\<rparr>) = Some k1" "note_higher t k1 = Some (y, k')" "scheduler_ok L idle k'"
    "uxSchedulerSuspended (k\<lparr>lists := s\<rparr>) = 0 \<longrightarrow> is_ready k' t"
    "uxSchedulerSuspended (k\<lparr>lists := s\<rparr>) \<noteq> 0 \<longrightarrow> home k' (EventItem t) = Some PendingReadyList"
    using wake_task_ok[OF ok'] by metis
  then show ?thesis
    using that[of y k'] hd s(1) by (simp add: xTaskRemoveFromEventList_def on_lists_opt_def)
qed

subsection \<open>Notifications\<close>

lemma notify_update_keeps:
  "uxPriority (snd (notify_update a v b)) = uxPriority b" "tcb_ok (snd (notify_update a v b)) = tcb_ok b"
  "ucNotifyState (snd (notify_update a v b)) = NOTIFICATION_RECEIVED"
  by (cases a; simp add: notify_update_def tcb_ok_def Let_def)+

lemma note_tcb:
  assumes ok: "scheduler_ok L idle k" and f: "uxPriority (f (tcbs k t)) = priority k t" "tcb_ok (f (tcbs k t)) = tcb_ok (tcbs k t)"
    and w: "ucNotifyState (f (tcbs k t)) = WAITING_NOTIFICATION \<Longrightarrow> home k (EventItem t) = None"
  shows "scheduler_ok L idle (set_tcb t f k)"
  unfolding set_tcb_def
  using ok by (intro scheduler_tcb) (use f w in \<open>auto simp: scheduler_ok_def steady_def\<close>)

lemma set_tcb_views [simp]:
  "lists (set_tcb t f k) = lists k" "uxSchedulerSuspended (set_tcb t f k) = uxSchedulerSuspended k"
  "pxCurrentTCB (set_tcb t f k) = pxCurrentTCB k" "tcbs (set_tcb t f k) = (tcbs k)(t := f (tcbs k t))"
  "exists_task (set_tcb t f k) = exists_task k" "is_blocked (set_tcb t f k) = is_blocked k"
  by (simp_all add: set_tcb_def kernel_views fun_eq_iff)

text \<open>A task that waits for a notification is in no event list.\<close>

lemma waiting_free:
  assumes "scheduler_ok L idle k" "exists_task k t" "ucNotifyState (tcbs k t) = WAITING_NOTIFICATION"
  shows "home k (EventItem t) = None"
  using assms saneD(7)[of L k] by (auto simp: scheduler_ok_def steady_def notify_ok_def)

lemma ready_and_yield_ok:
  assumes ok: "scheduler_ok L idle k" and t: "exists_task k t" "home k (EventItem t) \<in> {None, Some PendingReadyList}"
  obtains s k' where "ready_now t k = Some (readied k t s)" "pxContainer s (EventItem t) = home k (EventItem t)"
    "taskYIELD_ANY_CORE_IF_USING_PREEMPTION t (readied k t s) = Some k'" "scheduler_ok L idle k'"
proof -
  obtain c where c: "pxCurrentTCB k = Some c" "xYieldPending k \<or> most_urgent k c"
    using ok by (auto simp: scheduler_ok_def urgent_runs_def)
  have st: "steady L idle k" "xSchedulerRunning k" using ok by (simp_all add: scheduler_ok_def)
  obtain s where
    s: "ready_now t k = Some (readied k t s)" "steady L idle (readied k t s)"
      "pxContainer s = (pxContainer (lists k))(StateItem t := Some (ReadyTasksList (priority k t)))"
      "xItemValue s = xItemValue (lists k)" "\<forall>u. is_ready (readied k t s) u \<longleftrightarrow> is_ready k u \<or> u = t"
    by (rule ready_now_ok[OF st(1) t])
  have e: "pxContainer s (EventItem t) = home k (EventItem t)" using s(3) by simp
  show ?thesis
  proof (cases "priority k c < priority k t")
    case True
    have "uxSchedulerSuspended (readied k t s) = 0 \<longrightarrow> xPendedTicks (readied k t s) = 0"
      using ok by (auto simp: scheduler_ok_def)
    with yield_any_time[OF s(2)] st(2) c(1) obtain k' where
      "portYIELD (readied k t s) = Some k'" "scheduler_ok L idle k'" by auto
    then show ?thesis using that[OF s(1) e] True c(1)
      by (simp add: taskYIELD_ANY_CORE_IF_USING_PREEMPTION_def)
  next
    case False
    then have "urgent_runs (readied k t s)"
      using c s(5) by (auto simp: urgent_runs_def most_urgent_def)
    then have "scheduler_ok L idle (readied k t s)"
      using ok s(2,5) by (auto simp: scheduler_ok_def)
    then show ?thesis using that[OF s(1) e] False c(1)
      by (simp add: taskYIELD_ANY_CORE_IF_USING_PREEMPTION_def)
  qed
qed

lemma notify_call_ok:
  assumes ok: "scheduler_ok L idle k" and t: "exists_task k t"
  shows "\<exists>b v k'. xTaskGenericNotify t ulValue eAction k = Some (b, v, k') \<and> scheduler_ok L idle k'"
proof -
  let ?k = "set_tcb t (snd \<circ> notify_update eAction ulValue) k"
  have ok1: "scheduler_ok L idle ?k"
    by (rule note_tcb[OF ok]) (simp_all add: notify_update_keeps)
  show ?thesis
  proof (cases "ucNotifyState (tcbs k t) = WAITING_NOTIFICATION")
    case True
    have n: "home ?k (EventItem t) = None" using waiting_free[OF ok t True] by simp
    obtain s k' where
      s: "ready_now t ?k = Some (readied ?k t s)" "pxContainer s (EventItem t) = home ?k (EventItem t)"
        "taskYIELD_ANY_CORE_IF_USING_PREEMPTION t (readied ?k t s) = Some k'" "scheduler_ok L idle k'"
      by (rule ready_and_yield_ok[OF ok1, of t]) (use t n in auto)
    then show ?thesis
      using True n by (simp add: xTaskGenericNotify_def configASSERT_def Let_def)
  next
    case False
    then show ?thesis using ok1 by (simp add: xTaskGenericNotify_def Let_def)
  qed
qed

lemma wake_notified_ok:
  assumes ok: "scheduler_ok L idle k" and t: "exists_task k t" and wt: "ucNotifyState (tcbs k t) = WAITING_NOTIFICATION"
    and f: "uxPriority (f (tcbs k t)) = priority k t" "tcb_ok (f (tcbs k t)) = tcb_ok (tcbs k t)"
      "ucNotifyState (f (tcbs k t)) = NOTIFICATION_RECEIVED"
  shows "home k (EventItem t) = None \<and> (\<exists>y k1 k'. ready_or_pend t (set_tcb t f k) = Some k1 \<and> note_higher t k1 = Some (y, k') \<and>
     scheduler_ok L idle k')"
proof -
  have ok1: "scheduler_ok L idle (set_tcb t f k)" by (intro note_tcb ok f(1,2)) (simp add: f(3))
  have n: "home (set_tcb t f k) (EventItem t) = None" using waiting_free[OF ok t wt] by simp
  have "exists_task (set_tcb t f k) t" "ucNotifyState (tcbs (set_tcb t f k) t) \<noteq> WAITING_NOTIFICATION" using t f(3) by simp_all
  with wake_task_ok[OF ok1 _ n] n show ?thesis by (metis set_tcb_views(1))
qed

lemma notify_from_isr_ok:
  assumes ok: "scheduler_ok L idle k" and t: "exists_task k t"
  shows "\<exists>b y v k'. xTaskGenericNotifyFromISR t ulValue eAction k = Some (b, y, v, k') \<and> scheduler_ok L idle k'"
proof (cases "ucNotifyState (tcbs k t) = WAITING_NOTIFICATION")
  case True
  from wake_notified_ok[OF ok t True, of "snd \<circ> notify_update eAction ulValue"] True show ?thesis
    by (auto simp: notify_update_keeps xTaskGenericNotifyFromISR_def configASSERT_def Let_def)
next
  case False
  have "scheduler_ok L idle (set_tcb t (snd \<circ> notify_update eAction ulValue) k)"
    by (rule note_tcb[OF ok]) (simp_all add: notify_update_keeps)
  with False show ?thesis by (auto simp: xTaskGenericNotifyFromISR_def Let_def)
qed

lemma notify_give_ok:
  assumes ok: "scheduler_ok L idle k" and t: "exists_task k t"
  shows "\<exists>y k'. vTaskGenericNotifyGiveFromISR t k = Some (y, k') \<and> scheduler_ok L idle k'"
proof -
  let ?f = "\<lambda>b. b\<lparr>ucNotifyState := NOTIFICATION_RECEIVED, ulNotifiedValue := ulNotifiedValue b + 1\<rparr>"
  show ?thesis
  proof (cases "ucNotifyState (tcbs k t) = WAITING_NOTIFICATION")
    case True
    from wake_notified_ok[OF ok t True, of ?f] True show ?thesis
      by (auto simp: vTaskGenericNotifyGiveFromISR_def configASSERT_def Let_def)
  next
    case False
    have "scheduler_ok L idle (set_tcb t ?f k)" by (rule note_tcb[OF ok]) simp_all
    with False show ?thesis by (auto simp: vTaskGenericNotifyGiveFromISR_def Let_def)
  qed
qed

subsection \<open>New tasks\<close>

definition new_tcb :: "nat \<Rightarrow> tcb" where
  "new_tcb p = \<lparr>uxPriority = p, uxBasePriority = p, uxMutexesHeld = 0, ulNotifiedValue = 0,
                ucNotifyState = NOT_WAITING_NOTIFICATION, stack_intact = True\<rparr>"

definition new_items :: "nat \<Rightarrow> task \<Rightarrow> task_lists \<Rightarrow> task_lists" where
  "new_items p t s =
     listSET_LIST_ITEM_OWNER (EventItem t) t
       (listSET_LIST_ITEM_VALUE (EventItem t) (event_value p) (listSET_LIST_ITEM_OWNER (StateItem t) t s))"

lemma initialise_new_task_eq:
  assumes "p < configMAX_PRIORITIES" "home k (StateItem t) = None" "home k (EventItem t) = None"
  shows "prvInitialiseNewTask p t k = Some (k\<lparr>tcbs := (tcbs k)(t := new_tcb p), lists := new_items p t (lists k)\<rparr>)"
  using assms
  by (simp add: prvInitialiseNewTask_def configASSERT_def on_lists_def new_tcb_def new_items_def initialise_item_ok Let_def)

lemma new_items_views:
  "lists_ok L (new_items p t s) = lists_ok L s" "items (new_items p t s) = items s"
  "pxContainer (new_items p t s) = pxContainer s"
  "xItemValue (new_items p t s) = (xItemValue s)(Item (EventItem t) := event_value p)"
  "pvOwner (new_items p t s) = (pvOwner s)(StateItem t := Some t, EventItem t := Some t)"
  by (simp_all add: new_items_def)

lemma new_items_store:
  assumes ok: "store_ok L s" and free: "pxContainer s (StateItem t) = None" "pxContainer s (EventItem t) = None"
  shows "store_ok L (new_items p t s)"
proof -
  have "value_sorted (new_items p t s) (items s d)" if d: "d \<in> delay_lists" for d
  proof -
    have "d \<in> L" "value_sorted s (items s d)" using ok d by (auto simp: store_ok_def)
    moreover from this have "EventItem t \<notin> set (items s d)" using store_mem[OF ok] free(2) by simp
    ultimately show ?thesis
      unfolding value_sorted_def new_items_views
      by (subst sorted_wrt_mono_rel[where P = "\<lambda>x y. xItemValue s (Item x) \<le> xItemValue s (Item y)"]) auto
  qed
  then show ?thesis
    using ok free by (auto simp: store_ok_def new_items_views)
qed

lemma sane_new:
  assumes sane: "sane L k" and free: "home k (StateItem t) = None" "home k (EventItem t) = None"
    and s: "store_ok L s" "\<And>u. xItemValue s (Item (StateItem u)) = wake k u"
      "pxContainer s = (pxContainer (lists k))(StateItem t := Some (ReadyTasksList (uxPriority b)))"
      "items s TasksWaitingTermination = items (lists k) TasksWaitingTermination"
      "pvOwner s = (pvOwner (lists k))(StateItem t := Some t, EventItem t := Some t)"
    and b: "uxPriority b < configMAX_PRIORITIES" "ucNotifyState b \<noteq> WAITING_NOTIFICATION"
  shows "sane L (k\<lparr>lists := s, tcbs := (tcbs k)(t := b), uxTopReadyPriority := max (uxTopReadyPriority k) (uxPriority b),
                  uxCurrentNumberOfTasks := uxCurrentNumberOfTasks k + 1\<rparr>)" (is "sane L ?k")
  unfolding sane_def
proof (intro conjI)
  note inv = saneD[OF sane]
  have dom: "{u. home ?k (StateItem u) \<noteq> None} = insert t {u. home k (StateItem u) \<noteq> None}"
    using s(3) by auto
  show "states_ok ?k"
    using inv(5) s(3) b(1) by (auto simp: states_ok_def is_ready_def is_blocked_def)
  show "events_ok ?k"
    unfolding events_ok_def
  proof (intro allI impI)
    fix u l assume l: "home ?k (EventItem u) = Some l"
    then have "home k (EventItem u) = Some l" "u \<noteq> t" using s(3) free(2) by auto
    with event_home(1)[OF sane this(1)]
    show "(\<exists>e. l = EventList e) \<and> is_blocked ?k u \<or> l = PendingReadyList \<and> uxSchedulerSuspended ?k \<noteq> 0 \<and> exists_task ?k u"
      using s(3) by (auto simp: is_blocked_def exists_task_def)
  qed
  show "notify_ok ?k"
    using inv(7) s(3) b(2) by (auto simp: notify_ok_def exists_task_def)
  show "overflow_ok ?k"
    using inv(8) s(2,3) delay_pointers(2)[OF sane] by (auto simp: overflow_ok_def)
  show "counts_ok ?k"
    unfolding counts_ok_def dom using inv(9) s(4) free(1) by (simp add: counts_ok_def)
  show "owners_ok ?k"
    using inv(10) s(3,5) by (auto simp: owners_ok_def)
qed (use saneD[OF sane] s(1) b(1) in \<open>simp_all add: pointers_ok_def\<close>)

text \<open>
  The new task in its ready list, before the processor is given to it or not. \<open>extra\<close> is the
  choice of the current task while the scheduler has not started.
\<close>

lemma create_store:
  assumes sane: "sane L k" and free: "home k (StateItem t) = None" "home k (EventItem t) = None" and p: "p < configMAX_PRIORITIES"
  obtains s where "listINSERT_END (ReadyTasksList p) (StateItem t) (new_items p t (lists k)) = s"
    "sane L (k\<lparr>lists := s, tcbs := (tcbs k)(t := new_tcb p), uxTopReadyPriority := max (uxTopReadyPriority k) p,
              uxCurrentNumberOfTasks := uxCurrentNumberOfTasks k + 1\<rparr>)"
    "pxContainer s = (pxContainer (lists k))(StateItem t := Some (ReadyTasksList p))"
    "\<And>u. xItemValue s (Item (StateItem u)) = wake k u"
proof -
  note st = new_items_store[OF saneD(1)[OF sane] free, of p]
  have "pxContainer (new_items p t (lists k)) (StateItem t) = None"
    "pvOwner (new_items p t (lists k)) (StateItem t) = Some (item_task (StateItem t))"
    using free by (simp_all add: new_items_views)
  from store_insert_end[OF st this known_lists(1)[OF sane p]] obtain s where
    s: "listINSERT_END (ReadyTasksList p) (StateItem t) (new_items p t (lists k)) = s" "store_ok L s"
      "pxContainer s = (pxContainer (lists k))(StateItem t := Some (ReadyTasksList p))"
      "xItemValue s = (xItemValue (lists k))(Item (EventItem t) := event_value p)"
      "pvOwner s = (pvOwner (lists k))(StateItem t := Some t, EventItem t := Some t)"
      "\<forall>l'\<in>L. l' \<noteq> ReadyTasksList p \<longrightarrow> items s l' = items (lists k) l'"
    by (auto simp: new_items_views)
  have b: "uxPriority (new_tcb p) = p" "ucNotifyState (new_tcb p) \<noteq> WAITING_NOTIFICATION" by (simp_all add: new_tcb_def)
  have "sane L (k\<lparr>lists := s, tcbs := (tcbs k)(t := new_tcb p), uxTopReadyPriority := max (uxTopReadyPriority k) (uxPriority (new_tcb p)),
              uxCurrentNumberOfTasks := uxCurrentNumberOfTasks k + 1\<rparr>)"
    by (rule sane_new[OF sane free s(2)]) (use s(3-6) b p known_lists(5)[OF sane] in auto)
  then show ?thesis using that[OF s(1)] s(3,4) b(1) by simp
qed

lemma create_ok:
  assumes ok: "scheduler_ok L idle k" and free: "home k (StateItem t) = None" "home k (EventItem t) = None"
    and p: "p < configMAX_PRIORITIES" and cur: "pxCurrentTCB k \<noteq> Some t"
  shows "\<exists>k'. xTaskCreate (Some t) p k = Some (True, k') \<and> scheduler_ok L idle k'"
proof -
  have st: "steady L idle k" "xSchedulerRunning k" using ok by (simp_all add: scheduler_ok_def)
  obtain c where c: "pxCurrentTCB k = Some c" "xYieldPending k \<or> most_urgent k c"
    using ok by (auto simp: scheduler_ok_def urgent_runs_def)
  obtain s where
    s: "listINSERT_END (ReadyTasksList p) (StateItem t) (new_items p t (lists k)) = s"
      "sane L (k\<lparr>lists := s, tcbs := (tcbs k)(t := new_tcb p), uxTopReadyPriority := max (uxTopReadyPriority k) p,
                uxCurrentNumberOfTasks := uxCurrentNumberOfTasks k + 1\<rparr>)"
      "pxContainer s = (pxContainer (lists k))(StateItem t := Some (ReadyTasksList p))"
      "\<And>u. xItemValue s (Item (StateItem u)) = wake k u"
    using create_store[OF steadyD(1)[OF st(1)] free p] by blast
  let ?k = "k\<lparr>lists := s, tcbs := (tcbs k)(t := new_tcb p), uxTopReadyPriority := max (uxTopReadyPriority k) p,
                uxCurrentNumberOfTasks := uxCurrentNumberOfTasks k + 1\<rparr>"
  let ?k1 = "?k\<lparr>uxTaskNumber := uxTaskNumber k + 1\<rparr>"
  have r: "is_ready ?k1 u \<longleftrightarrow> is_ready k u \<or> u = t" for u
    using s(3) free(1) by (auto simp: is_ready_def new_tcb_def)
  have pr: "priority ?k1 u = (if u = t then p else priority k u)" for u by (simp add: new_tcb_def)
  have ct: "is_ready k u \<Longrightarrow> u \<noteq> t" for u using free(1) by (auto simp: is_ready_def)
  have "c \<noteq> t" using cur c(1) by simp
  have "punctual ?k1"
    using steadyD(2)[OF st(1)] s(3,4) delay_pointers(1)[OF steadyD(1)[OF st(1)]] by (auto simp: punctual_def)
  then have st1: "steady L idle ?k1"
    using s(2) st(1) r by (auto simp: steady_def new_tcb_def tcb_ok_def)
  have c1: "pxCurrentTCB ?k1 = Some c" "xSchedulerRunning ?k1" using c(1) st(2) by simp_all
  have add: "prvAddNewTaskToReadyList t (k\<lparr>tcbs := (tcbs k)(t := new_tcb p), lists := new_items p t (lists k)\<rparr>) =
      taskYIELD_ANY_CORE_IF_USING_PREEMPTION t ?k1"
    using c(1) st(2) s(1) by (cases k) (simp add: prvAddNewTaskToReadyList_def prvAddTaskToReadyList_eq new_tcb_def)
  have "\<exists>k'. taskYIELD_ANY_CORE_IF_USING_PREEMPTION t ?k1 = Some k' \<and> scheduler_ok L idle k'"
  proof (cases "priority ?k1 c < priority ?k1 t")
    case True
    have "uxSchedulerSuspended ?k1 = 0 \<longrightarrow> xPendedTicks ?k1 = 0" using ok by (auto simp: scheduler_ok_def)
    with yield_any_time[OF st1 c1(2)] c1(1) True show ?thesis
      by (auto simp: taskYIELD_ANY_CORE_IF_USING_PREEMPTION_def)
  next
    case False
    have "xYieldPending ?k1 \<or> most_urgent ?k1 c"
      using c(2) False \<open>c \<noteq> t\<close> ct unfolding most_urgent_def r pr by auto
    then have "urgent_runs ?k1" unfolding urgent_runs_def c1(1) by blast
    then have "scheduler_ok L idle ?k1"
      using st1 ok r by (auto simp: scheduler_ok_def)
    then show ?thesis using False c1(1) by (simp add: taskYIELD_ANY_CORE_IF_USING_PREEMPTION_def)
  qed
  then show ?thesis
    using initialise_new_task_eq[OF p free] add by (auto simp: xTaskCreate_def)
qed

subsection \<open>Before the scheduler starts\<close>

definition prestart :: "list_name set \<Rightarrow> kernel \<Rightarrow> bool" where
  "prestart L k \<longleftrightarrow>
     sane L k \<and> (\<forall>t. \<not> is_blocked k t) \<and> (\<forall>t. tcb_ok (tcbs k t)) \<and> \<not> xSchedulerRunning k \<and>
     uxSchedulerSuspended k = 0 \<and> xPendedTicks k = 0 \<and>
     (\<exists>c. pxCurrentTCB k = Some c \<and> is_ready k c \<and> most_urgent k c)"

lemma create_prestart:
  assumes pre: "prestart L k" and free: "home k (StateItem t) = None" "home k (EventItem t) = None"
    and p: "p < configMAX_PRIORITIES"
  obtains k' where "xTaskCreate (Some t) p k = Some (True, k')" "prestart L k'"
    "\<And>u. is_ready k' u \<longleftrightarrow> is_ready k u \<or> u = t"
    "home k' = (home k)(StateItem t := Some (ReadyTasksList p))"
proof -
  have sane: "sane L k" using pre by (simp add: prestart_def)
  obtain c where c: "pxCurrentTCB k = Some c" "is_ready k c" "most_urgent k c" using pre by (auto simp: prestart_def)
  obtain s where
    s: "listINSERT_END (ReadyTasksList p) (StateItem t) (new_items p t (lists k)) = s"
      "sane L (k\<lparr>lists := s, tcbs := (tcbs k)(t := new_tcb p), uxTopReadyPriority := max (uxTopReadyPriority k) p,
                uxCurrentNumberOfTasks := uxCurrentNumberOfTasks k + 1\<rparr>)"
      "pxContainer s = (pxContainer (lists k))(StateItem t := Some (ReadyTasksList p))"
    using create_store[OF sane free p] by blast
  let ?c = "if priority k c \<le> p then t else c"
  let ?k = "k\<lparr>lists := s, tcbs := (tcbs k)(t := new_tcb p), uxTopReadyPriority := max (uxTopReadyPriority k) p,
                uxCurrentNumberOfTasks := uxCurrentNumberOfTasks k + 1\<rparr>"
  let ?k' = "?k\<lparr>pxCurrentTCB := Some ?c, uxTaskNumber := uxTaskNumber k + 1\<rparr>"
  have ct: "is_ready k u \<Longrightarrow> u \<noteq> t" for u using free(1) by (auto simp: is_ready_def)
  have r: "is_ready ?k' u \<longleftrightarrow> is_ready k u \<or> u = t" for u
    using s(3) free(1) by (auto simp: is_ready_def new_tcb_def)
  have pr: "priority ?k' u = (if u = t then p else priority k u)" for u by (simp add: new_tcb_def)
  have "most_urgent ?k' ?c"
    using c(3) ct[OF c(2)] ct unfolding most_urgent_def r pr by (auto intro: order_trans)
  moreover have "is_ready ?k' ?c" using c(2) r by simp
  moreover have "\<not> is_blocked ?k' u" for u using pre s(3) by (auto simp: prestart_def is_blocked_def)
  moreover have "sane L ?k'" using s(2) by simp
  ultimately have "prestart L ?k'" using pre by (auto simp: prestart_def new_tcb_def tcb_ok_def)
  moreover have "xTaskCreate (Some t) p k = Some (True, ?k')"
    using pre c(1) s(1) initialise_new_task_eq[OF p free] ct[OF c(2)]
    by (cases k) (auto simp: prestart_def xTaskCreate_def prvAddNewTaskToReadyList_def prvAddTaskToReadyList_eq new_tcb_def)
  ultimately show ?thesis using that r s(3) by simp
qed

lemma initialise_ready_lists_ok:
  assumes "lists_ok E s" "\<And>i. pxContainer s i = None" "\<And>q. ReadyTasksList q \<notin> E"
  shows "lists_ok (E \<union> ReadyTasksList ` {..<n}) (initialise_ready_lists n s) \<and>
         pxContainer (initialise_ready_lists n s) = pxContainer s"
proof (induction n)
  case (Suc n)
  have "ReadyTasksList n \<notin> E \<union> ReadyTasksList ` {..<n}" using assms(3) by auto
  moreover have "pxContainer (initialise_ready_lists n s) i \<noteq> Some (ReadyTasksList n)" for i using Suc assms(2) by simp
  ultimately have "lists_ok (insert (ReadyTasksList n) (E \<union> ReadyTasksList ` {..<n})) (initialise_ready_lists (Suc n) s)"
    using Suc unfolding initialise_ready_lists.simps by (intro list_initialise_ok(1)) simp_all
  moreover have "insert (ReadyTasksList n) (E \<union> ReadyTasksList ` {..<n}) = E \<union> ReadyTasksList ` {..<Suc n}"
    by (auto simp: lessThan_Suc)
  ultimately show ?case using Suc by (simp add: vListInitialise_def)
qed (use assms in simp)

lemma initialise_task_lists_ok:
  assumes ok: "lists_ok E (lists k)" and none: "\<And>i. home k i = None" and E: "E \<inter> kernel_lists = {}" "\<And>q. ReadyTasksList q \<notin> E"
  shows "store_ok (E \<union> kernel_lists) (lists (prvInitialiseTaskLists k))"
    "home (prvInitialiseTaskLists k) = home k"
    "items (lists (prvInitialiseTaskLists k)) TasksWaitingTermination = []"
proof -
  let ?s0 = "initialise_ready_lists configMAX_PRIORITIES (lists k)"
  let ?s1 = "vListInitialise DelayedTaskList1 ?s0" let ?s2 = "vListInitialise DelayedTaskList2 ?s1"
  let ?s3 = "vListInitialise PendingReadyList ?s2" let ?s4 = "vListInitialise TasksWaitingTermination ?s3"
  let ?L = "E \<union> ReadyTasksList ` {..<configMAX_PRIORITIES}"
  note r = initialise_ready_lists_ok[OF ok none E(2), of configMAX_PRIORITIES]
  have c: "pxContainer ?s0 = pxContainer (lists k)" "pxContainer ?s1 = pxContainer (lists k)" "pxContainer ?s2 = pxContainer (lists k)"
      "pxContainer ?s3 = pxContainer (lists k)" "pxContainer ?s4 = pxContainer (lists k)"
    using r by (simp_all add: vListInitialise_def)
  have l: "DelayedTaskList1 \<notin> ?L" "DelayedTaskList2 \<notin> insert DelayedTaskList1 ?L"
      "PendingReadyList \<notin> insert DelayedTaskList2 (insert DelayedTaskList1 ?L)"
      "TasksWaitingTermination \<notin> insert PendingReadyList (insert DelayedTaskList2 (insert DelayedTaskList1 ?L))"
    using E(1) by (auto simp: kernel_lists_def)
  have l1: "lists_ok (insert DelayedTaskList1 ?L) ?s1" by (rule list_initialise_ok(1)[OF conjunct1[OF r] l(1)]) (simp add: c none)
  have l2: "lists_ok (insert DelayedTaskList2 (insert DelayedTaskList1 ?L)) ?s2"
    by (rule list_initialise_ok(1)[OF l1 l(2)]) (simp add: c none)
  have l3: "lists_ok (insert PendingReadyList (insert DelayedTaskList2 (insert DelayedTaskList1 ?L))) ?s3"
    by (rule list_initialise_ok(1)[OF l2 l(3)]) (simp add: c none)
  have l4: "lists_ok (insert TasksWaitingTermination (insert PendingReadyList (insert DelayedTaskList2 (insert DelayedTaskList1 ?L)))) ?s4"
    by (rule list_initialise_ok(1)[OF l3 l(4)]) (simp add: c none)
  have eq: "insert TasksWaitingTermination (insert PendingReadyList (insert DelayedTaskList2 (insert DelayedTaskList1 ?L))) = E \<union> kernel_lists"
    by (auto simp: kernel_lists_def)
  have k: "lists (prvInitialiseTaskLists k) = ?s4" by (simp add: prvInitialiseTaskLists_def)
  have ok4: "lists_ok (E \<union> kernel_lists) ?s4" using l4 eq by simp
  have empty: "items ?s4 l = []" if "l \<in> E \<union> kernel_lists" for l
    using lists_okD(2)[OF ok4 that] c(5) none by (metis last_in_set option.distinct(1))
  show "home (prvInitialiseTaskLists k) = home k" using k c(5) by simp
  show "items (lists (prvInitialiseTaskLists k)) TasksWaitingTermination = []"
    using empty[of TasksWaitingTermination] k by (simp add: kernel_lists_def)
  show "store_ok (E \<union> kernel_lists) (lists (prvInitialiseTaskLists k))"
    unfolding k store_ok_def using ok4 empty c(5) none by (auto simp: kernel_lists_def value_sorted_def)
qed

lemma initialise_commute: "vListInitialise l (new_items p t s) = new_items p t (vListInitialise l s)"
  by (simp add: vListInitialise_def new_items_def listSET_LIST_ITEM_OWNER_def listSET_LIST_ITEM_VALUE_def fun_upd_twist)

lemma initialise_ready_commute: "initialise_ready_lists n (new_items p t s) = new_items p t (initialise_ready_lists n s)"
  by (induction n) (simp_all add: initialise_commute)

text \<open>
  The state of the kernel's variables when \<open>main\<close> is entered; some queues may have been set up.
  The two list pointers are not read before the first task is created.
\<close>

definition boot :: "task_lists \<Rightarrow> kernel" where
  "boot s = \<lparr>lists = s, tcbs = (\<lambda>_. new_tcb 0), pxCurrentTCB = None, pxDelayedTaskList = DelayedTaskList1,
     pxOverflowDelayedTaskList = DelayedTaskList1, uxDeletedTasksWaitingCleanUp = 0, uxCurrentNumberOfTasks = 0,
     xTickCount = 0, uxTopReadyPriority = 0, xSchedulerRunning = False, xPendedTicks = 0, xYieldPending = False,
     xNumOfOverflows = 0, uxTaskNumber = 0, xNextTaskUnblockTime = 0, uxSchedulerSuspended = 0, freed_tasks = []\<rparr>"

lemma create_first:
  assumes ok: "lists_ok E s" and none: "\<And>i. pxContainer s i = None" and E: "E \<inter> kernel_lists = {}" "\<And>q. ReadyTasksList q \<notin> E"
    and p: "p < configMAX_PRIORITIES"
  obtains k' where "xTaskCreate (Some t) p (boot s) = Some (True, k')" "prestart (E \<union> kernel_lists) k'"
    "\<And>u. is_ready k' u \<longleftrightarrow> u = t" "home k' = (\<lambda>_. None)(StateItem t := Some (ReadyTasksList p))"
proof -
  let ?k0 = "prvInitialiseTaskLists (boot s)" and ?L = "E \<union> kernel_lists"
  have none': "home (boot s) i = None" and ok': "lists_ok E (lists (boot s))" for i using none ok by (simp_all add: boot_def)
  note i = initialise_task_lists_ok[OF ok' none' E]
  have h: "home ?k0 x = None" for x using i(2) none' by simp
  have f: "uxTopReadyPriority ?k0 = 0" "pxDelayedTaskList ?k0 = DelayedTaskList1" "pxOverflowDelayedTaskList ?k0 = DelayedTaskList2"
      "uxCurrentNumberOfTasks ?k0 = 0" "uxDeletedTasksWaitingCleanUp ?k0 = 0"
    by (simp_all add: prvInitialiseTaskLists_def boot_def)
  have "sane ?L ?k0"
    unfolding sane_def kernel_unfold using i(1,3) h f by (simp add: configMAX_PRIORITIES_def)
  from create_store[OF this h h p, of t] obtain s' where
    s: "listINSERT_END (ReadyTasksList p) (StateItem t) (new_items p t (lists ?k0)) = s'"
      "sane ?L (?k0\<lparr>lists := s', tcbs := (tcbs ?k0)(t := new_tcb p), uxTopReadyPriority := max (uxTopReadyPriority ?k0) p,
                uxCurrentNumberOfTasks := uxCurrentNumberOfTasks ?k0 + 1\<rparr>)"
      "pxContainer s' = (pxContainer (lists ?k0))(StateItem t := Some (ReadyTasksList p))" by blast
  let ?k = "?k0\<lparr>lists := s', tcbs := (tcbs ?k0)(t := new_tcb p), uxTopReadyPriority := max (uxTopReadyPriority ?k0) p,
                uxCurrentNumberOfTasks := uxCurrentNumberOfTasks ?k0 + 1\<rparr>"
  let ?k' = "?k\<lparr>pxCurrentTCB := Some t, uxTaskNumber := 1\<rparr>"
  have r: "is_ready ?k' u \<longleftrightarrow> u = t" for u using s(3) h by (auto simp: is_ready_def new_tcb_def)
  have "prestart ?L ?k'"
    unfolding prestart_def
  proof (intro conjI allI)
    show "sane ?L ?k'" using s(2) by simp
    show "\<not> is_blocked ?k' u" for u using s(3) h by (auto simp: is_blocked_def)
    show "\<exists>c. pxCurrentTCB ?k' = Some c \<and> is_ready ?k' c \<and> most_urgent ?k' c"
      using r by (simp add: most_urgent_def)
  qed (simp_all add: prvInitialiseTaskLists_def boot_def new_tcb_def tcb_ok_def)
  moreover have "xTaskCreate (Some t) p (boot s) = Some (True, ?k')"
    using s(1) initialise_new_task_eq[OF p none' none', of t]
    by (simp add: xTaskCreate_def prvAddNewTaskToReadyList_def prvAddTaskToReadyList_eq prvInitialiseTaskLists_def boot_def
        initialise_commute initialise_ready_commute new_tcb_def Let_def)
  ultimately show ?thesis using that r s(3) h by (simp add: fun_eq_iff)
qed

text \<open>\<open>vTaskStartScheduler\<close> after at least one task was created.\<close>

lemma scheduler_start_ok:
  assumes pre: "prestart L k" and fresh: "idle \<noteq> timer"
    "home k (StateItem idle) = None" "home k (EventItem idle) = None" "home k (StateItem timer) = None" "home k (EventItem timer) = None"
  obtains k' where "vTaskStartScheduler (Some idle) True (Some timer) k = Some k'" "scheduler_ok L idle k'"
    "xTickCount k' = 0" "uxSchedulerSuspended k' = 0" "\<And>u. is_ready k' u \<longleftrightarrow> is_ready k u \<or> u = idle \<or> u = timer"
    "home k' = (home k)(StateItem idle := Some (ReadyTasksList 0), StateItem timer := Some (ReadyTasksList 5))"
proof -
  obtain k1 where
    k1: "xTaskCreate (Some idle) 0 k = Some (True, k1)" "prestart L k1" "\<And>u. is_ready k1 u \<longleftrightarrow> is_ready k u \<or> u = idle"
      "home k1 = (home k)(StateItem idle := Some (ReadyTasksList 0))"
    using create_prestart[OF pre fresh(2,3), of 0] by (auto simp: configMAX_PRIORITIES_def)
  have "home k1 (StateItem timer) = None" "home k1 (EventItem timer) = None" using k1(4) fresh by simp_all
  from create_prestart[OF k1(2) this, of 5] obtain k2 where
    k2: "xTaskCreate (Some timer) 5 k1 = Some (True, k2)" "prestart L k2" "\<And>u. is_ready k2 u \<longleftrightarrow> is_ready k1 u \<or> u = timer"
      "home k2 = (home k1)(StateItem timer := Some (ReadyTasksList 5))"
    by (auto simp: configMAX_PRIORITIES_def)
  let ?k = "k2\<lparr>xNextTaskUnblockTime := portMAX_DELAY, xSchedulerRunning := True, xTickCount := 0\<rparr>"
  have nb: "\<not> is_blocked k2 t" for t using k2(2) by (simp add: prestart_def)
  have sane: "sane L k2" using k2(2) by (simp add: prestart_def)
  have nd: "home k2 (StateItem t) \<noteq> Some (pxDelayedTaskList k2)" "home k2 (StateItem t) \<noteq> Some (pxOverflowDelayedTaskList k2)" for t
    using nb[of t] blocked_cases[OF sane] by auto
  have "sane L ?k"
    using saneD[OF sane] nd by (simp add: sane_def kernel_unfold kernel_views)
  moreover have "punctual ?k" using nd by (simp add: punctual_def)
  moreover have r: "is_ready ?k = is_ready k2" by (simp add: fun_eq_iff is_ready_def)
  ultimately have "steady L idle ?k" using k1(3) k2(2,3) by (simp add: steady_def prestart_def)
  then have "scheduler_ok L idle ?k"
    using k2(2) r unfolding scheduler_ok_def prestart_def urgent_runs_def most_urgent_def by auto
  moreover have "vTaskStartScheduler (Some idle) True (Some timer) k = Some ?k"
    using k1(1) k2(1) by (simp add: vTaskStartScheduler_def xTimerCreateTimerTask_def configASSERT_def)
  moreover have "home ?k = (home k)(StateItem idle := Some (ReadyTasksList 0), StateItem timer := Some (ReadyTasksList 5))"
    using k2(4) unfolding k1(4) by (simp add: fun_eq_iff)
  moreover have "is_ready ?k u \<longleftrightarrow> is_ready k u \<or> u = idle \<or> u = timer" for u unfolding r using k1(3) k2(3) by auto
  moreover have "xTickCount ?k = 0" "uxSchedulerSuspended ?k = 0" using k2(2) by (simp_all add: prestart_def)
  ultimately show ?thesis by (intro that[of ?k])
qed

end
