(* ===== verification/Rtos_Calls.thy ===== *)
theory Rtos_Calls
  imports Rtos_Sched
begin

section \<open>The kernel calls\<close>

text \<open>
  The remaining calls of the scheduler keep its invariant: priorities and their inheritance,
  waiting for notifications, deleting tasks and the clean-up by the idle task, waiting in
  unordered lists, delays to a fixed time and ticks that were missed. \<open>Rtos_Run\<close> puts the calls
  together.
\<close>

subsection \<open>Changing a priority\<close>

lemma sane_values:
  assumes sane: "sane L k" and s: "store_ok L s" "\<And>u. xItemValue s (Item (StateItem u)) = wake k u"
      "pxContainer s = pxContainer (lists k)"
      "items s TasksWaitingTermination = items (lists k) TasksWaitingTermination" "pvOwner s = pvOwner (lists k)"
  shows "sane L (k\<lparr>lists := s\<rparr>)"
  using saneD[OF sane] s unfolding sane_def kernel_unfold kernel_views by simp

lemma event_value_store:
  assumes sane: "sane L k"
  shows "store_ok L (listSET_LIST_ITEM_VALUE (EventItem t) v (lists k))"
  using event_home(2)[OF sane, of t] by (intro store_value saneD(1)[OF sane]) auto

lemma ready_not_waiting:
  assumes "sane L k" "is_ready k t" "home k (EventItem t) = Some l"
  shows "l = PendingReadyList"
  using event_home(1)[OF assms(1,3)] assms(2) by (auto simp: is_ready_def is_blocked_def)

lemma exists_cases:
  assumes "sane L k" "exists_task k t"
  shows "is_ready k t \<or> is_blocked k t"
  using saneD(5)[OF assms(1)] assms(2) by (auto simp: states_ok_def exists_task_def)

text \<open>The control block of \<open>t\<close> becomes \<open>b\<close>; \<open>s0\<close> is the store after its event item's value was set.\<close>

lemma requeued:
  assumes steady_k: "steady L idle k" and exists_t: "exists_task k t"
    and b_ok: "uxPriority b < configMAX_PRIORITIES" "ucNotifyState b = ucNotifyState (tcbs k t)" "tcb_ok b"
    and s0_ok: "store_ok L s0" "\<And>u. xItemValue s0 (Item (StateItem u)) = wake k u" "pxContainer s0 = pxContainer (lists k)"
      "items s0 TasksWaitingTermination = items (lists k) TasksWaitingTermination" "pvOwner s0 = pvOwner (lists k)"
    and ready: "is_ready k t"
  obtains n s1 s2 where "uxListRemove (StateItem t) s0 = Some (n, s1)"
    "listINSERT_END (ReadyTasksList (uxPriority b)) (StateItem t) s1 = s2"
    "steady L idle (k\<lparr>lists := s2, tcbs := (tcbs k)(t := b), uxTopReadyPriority := max (uxTopReadyPriority k) (uxPriority b)\<rparr>)"
    "is_ready (k\<lparr>lists := s2, tcbs := (tcbs k)(t := b), uxTopReadyPriority := max (uxTopReadyPriority k) (uxPriority b)\<rparr>) = is_ready k"
proof -
  note sane = steadyD(1)[OF steady_k]
  have h: "pxContainer s0 (StateItem t) = Some (ReadyTasksList (priority k t))" using ready s0_ok(3) by (simp add: is_ready_def)
  from store_to_ready[OF s0_ok(1) h _ known_lists(1)[OF sane b_ok(1)] known_lists(5)[OF sane]] obtain n s1 s2 where
    s: "uxListRemove (StateItem t) s0 = Some (n, s1)" "listINSERT_END (ReadyTasksList (uxPriority b)) (StateItem t) s1 = s2"
      "store_ok L s2" "pxContainer s2 = (pxContainer s0)(StateItem t := Some (ReadyTasksList (uxPriority b)))"
      "xItemValue s2 = xItemValue s0" "pvOwner s2 = pvOwner s0"
      "items s2 TasksWaitingTermination = items s0 TasksWaitingTermination" by blast
  have c2: "pxContainer s2 = (pxContainer (lists k))(StateItem t := Some (ReadyTasksList (uxPriority b)), EventItem t := home k (EventItem t))"
    using s(4) s0_ok(3) by auto
  have x: "home k (EventItem t) = None \<or> home k (EventItem t) = Some PendingReadyList \<and> home k (EventItem t) = home k (EventItem t)"
    using ready_not_waiting[OF sane ready] by (cases "home k (EventItem t)") auto
  have w: "ucNotifyState b = WAITING_NOTIFICATION \<longrightarrow> home k (EventItem t) = None"
    using saneD(7)[OF sane] exists_t b_ok(2) by (auto simp: notify_ok_def)
  let ?k = "k\<lparr>lists := s2, tcbs := (tcbs k)(t := b), uxTopReadyPriority := max (uxTopReadyPriority k) (uxPriority b)\<rparr>"
  have "sane L ?k"
    by (rule sane_ready[OF sane exists_t ready[unfolded is_ready_def] s(3) _ c2 _ _ x b_ok(1) w])
      (use s s0_ok in simp_all)
  moreover have r: "is_ready ?k = is_ready k"
    using c2 ready by (auto simp: fun_eq_iff is_ready_def)
  moreover have "punctual ?k"
    using steadyD(2)[OF steady_k] c2 s(5) s0_ok(2) delay_pointers(1)[OF sane] by (auto simp: punctual_def)
  ultimately have "steady L idle ?k" using steady_k b_ok(3) by (simp add: steady_def)
  then show ?thesis using that[OF s(1,2)] r by simp
qed

lemma left_in_place:
  assumes steady_k: "steady L idle k" and exists_t: "exists_task k t"
    and b_ok: "uxPriority b < configMAX_PRIORITIES" "ucNotifyState b = ucNotifyState (tcbs k t)" "tcb_ok b"
    and s0_ok: "store_ok L s0" "\<And>u. xItemValue s0 (Item (StateItem u)) = wake k u" "pxContainer s0 = pxContainer (lists k)"
      "items s0 TasksWaitingTermination = items (lists k) TasksWaitingTermination" "pvOwner s0 = pvOwner (lists k)"
    and blocked: "\<not> is_ready k t"
  shows "steady L idle (k\<lparr>lists := s0, tcbs := (tcbs k)(t := b)\<rparr>)"
    "is_ready (k\<lparr>lists := s0, tcbs := (tcbs k)(t := b)\<rparr>) = is_ready k"
proof -
  note sane = steadyD(1)[OF steady_k]
  have bl: "is_blocked k t" using exists_cases[OF sane exists_t] blocked by simp
  let ?k = "k\<lparr>lists := s0, tcbs := (tcbs k)(t := b)\<rparr>"
  have h: "home ?k = home k" using s0_ok(3) by simp
  note inv = saneD[OF sane]
  show r: "is_ready ?k = is_ready k"
    using bl by (auto simp: fun_eq_iff is_ready_def is_blocked_def s0_ok(3))
  have b: "is_blocked ?k = is_blocked k" "exists_task ?k = exists_task k" by (simp_all add: fun_eq_iff kernel_views s0_ok(3))
  have "states_ok ?k"
    using inv(5) bl b_ok(1) unfolding states_ok_def r b h by auto
  moreover have "events_ok ?k" using inv(6) unfolding events_ok_def b h by simp
  moreover have "notify_ok ?k" using inv(7) b_ok(2) unfolding notify_ok_def b h by auto
  moreover have "overflow_ok ?k" using inv(8) s0_ok(2) unfolding overflow_ok_def h by simp
  moreover have "counts_ok ?k" using inv(9) s0_ok(4) unfolding counts_ok_def h by simp
  moreover have "owners_ok ?k" using inv(10) s0_ok(5) unfolding owners_ok_def h by simp
  ultimately have "sane L ?k" using inv(2-4) s0_ok(1) by (simp add: sane_def pointers_ok_def)
  moreover have "punctual ?k" using steadyD(2)[OF steady_k] s0_ok(2) unfolding punctual_def h by simp
  ultimately show "steady L idle ?k" using steady_k b_ok(3) r by (simp add: steady_def)
qed

definition same_flags :: "kernel \<Rightarrow> kernel \<Rightarrow> bool" where
  "same_flags k k' \<longleftrightarrow>
     pxCurrentTCB k' = pxCurrentTCB k \<and> xYieldPending k' = xYieldPending k \<and> xSchedulerRunning k' = xSchedulerRunning k \<and>
     uxSchedulerSuspended k' = uxSchedulerSuspended k \<and> xPendedTicks k' = xPendedTicks k"

lemma set_event_value_store:
  assumes sane: "sane L k" and same: "lists k' = lists k"
  obtains s0 where "set_event_value t q k' = k'\<lparr>lists := s0\<rparr>" "store_ok L s0" "\<And>u. xItemValue s0 (Item (StateItem u)) = wake k u"
    "pxContainer s0 = pxContainer (lists k)" "items s0 = items (lists k)" "pvOwner s0 = pvOwner (lists k)"
proof (cases "event_value_free t k'")
  case True
  show ?thesis
    by (rule that[of "listSET_LIST_ITEM_VALUE (EventItem t) (event_value q) (lists k)"])
      (use True same event_value_store[OF sane] in \<open>simp_all add: set_event_value_def on_lists_def\<close>)
next
  case False
  show ?thesis
    by (rule that[of "lists k"])
      (use False same saneD(1)[OF sane] in \<open>simp_all add: set_event_value_def same[symmetric]\<close>)
qed

lemma change_priority_ok:
  assumes st: "steady L idle k" and t: "exists_task k t"
    and f: "uxPriority (f (tcbs k t)) < configMAX_PRIORITIES" "ucNotifyState (f (tcbs k t)) = ucNotifyState (tcbs k t)"
      "tcb_ok (f (tcbs k t))"
  obtains k2 where "requeue_ready (priority k t) t (set_event_value t q (set_tcb t f k)) = Some k2"
    "steady L idle k2" "is_ready k2 = is_ready k" "tcbs k2 = (tcbs k)(t := f (tcbs k t))" "same_flags k k2"
proof -
  note sane = steadyD(1)[OF st]
  obtain s0 where
    s0: "set_event_value t q (set_tcb t f k) = (set_tcb t f k)\<lparr>lists := s0\<rparr>" "store_ok L s0"
      "\<And>u. xItemValue s0 (Item (StateItem u)) = wake k u" "pxContainer s0 = pxContainer (lists k)" "items s0 = items (lists k)"
      "pvOwner s0 = pvOwner (lists k)"
    using set_event_value_store[OF sane, of "set_tcb t f k" t q] by (metis set_tcb_views(1))
  have it: "items s0 TasksWaitingTermination = items (lists k) TasksWaitingTermination" using s0(5) by simp
  have eq: "set_event_value t q (set_tcb t f k) = k\<lparr>lists := s0, tcbs := (tcbs k)(t := f (tcbs k t))\<rparr>"
    unfolding s0(1) by (cases k) (simp add: set_tcb_def)
  show ?thesis
  proof (cases "is_ready k t")
    case True
    obtain n s1 s2 where
      r: "uxListRemove (StateItem t) s0 = Some (n, s1)" "listINSERT_END (ReadyTasksList (uxPriority (f (tcbs k t)))) (StateItem t) s1 = s2"
        "steady L idle (k\<lparr>lists := s2, tcbs := (tcbs k)(t := f (tcbs k t)), uxTopReadyPriority := max (uxTopReadyPriority k) (uxPriority (f (tcbs k t)))\<rparr>)"
        "is_ready (k\<lparr>lists := s2, tcbs := (tcbs k)(t := f (tcbs k t)), uxTopReadyPriority := max (uxTopReadyPriority k) (uxPriority (f (tcbs k t)))\<rparr>) = is_ready k"
      by (rule requeued[OF st t f(1,2) f(3) s0(2-4) it s0(6) True])
    have "requeue_ready (priority k t) t (set_event_value t q (set_tcb t f k)) =
        Some (k\<lparr>lists := s2, tcbs := (tcbs k)(t := f (tcbs k t)), uxTopReadyPriority := max (uxTopReadyPriority k) (uxPriority (f (tcbs k t)))\<rparr>)"
      unfolding eq using True r(1,2) s0(4)
      by (cases k) (simp add: requeue_ready_def listIS_CONTAINED_WITHIN_def is_ready_def on_lists_opt_def prvAddTaskToReadyList_eq)
    then show ?thesis using that r(3,4) by (simp add: same_flags_def)
  next
    case False
    note r = left_in_place[OF st t f(1,2) f(3) s0(2-4) it s0(6) False]
    have "requeue_ready (priority k t) t (set_event_value t q (set_tcb t f k)) =
        Some (k\<lparr>lists := s0, tcbs := (tcbs k)(t := f (tcbs k t))\<rparr>)"
      unfolding eq using False s0(4) by (simp add: requeue_ready_def listIS_CONTAINED_WITHIN_def is_ready_def)
    then show ?thesis using that r by (simp add: same_flags_def)
  qed
qed

text \<open>
  The invariant after a priority change that does not leave a more urgent task waiting.
\<close>

lemma scheduler_priority:
  assumes ok: "scheduler_ok L idle k" and st: "steady L idle k2" "is_ready k2 = is_ready k" "same_flags k k2"
    and c: "pxCurrentTCB k = Some c" and u: "most_urgent k c \<Longrightarrow> most_urgent k2 c"
  shows "scheduler_ok L idle k2"
  using ok st c u by (auto simp: scheduler_ok_def urgent_runs_def same_flags_def)

lemma priority_set_ok:
  assumes ok: "scheduler_ok L idle k" and new: "new < configMAX_PRIORITIES" and t: "prvGetTCBFromHandle h k = Some t" "exists_task k t"
  shows "\<exists>k'. vTaskPrioritySet h new k = Some k' \<and> scheduler_ok L idle k'"
proof -
  have st: "steady L idle k" using ok by (simp add: scheduler_ok_def)
  obtain c where c: "pxCurrentTCB k = Some c" using ok by (auto simp: scheduler_ok_def urgent_runs_def)
  let ?b = "tcbs k t"
  let ?f = "\<lambda>b. (if uxBasePriority b = uxPriority b \<or> new > uxPriority b
      then b\<lparr>uxPriority := new\<rparr> else b)\<lparr>uxBasePriority := new\<rparr>"
  let ?yield = "if new > uxBasePriority ?b then t \<noteq> c \<and> new > priority k c else t = c"
  show ?thesis
  proof (cases "uxBasePriority ?b = new")
    case True
    then show ?thesis using ok new t(1) by (simp add: vTaskPrioritySet_def configASSERT_def)
  next
    case False
    have p: "priority k t < configMAX_PRIORITIES" using exists_priority[OF steadyD(1)[OF st] t(2)] .
    obtain k2 where
      k2: "requeue_ready (priority k t) t (set_event_value t new (set_tcb t ?f k)) = Some k2" "steady L idle k2"
        "is_ready k2 = is_ready k" "tcbs k2 = (tcbs k)(t := ?f ?b)" "same_flags k k2"
      by (rule change_priority_ok[OF st t(2), of ?f new]) (use new p steadyD(4)[OF st, of t] in \<open>auto simp: tcb_ok_def\<close>)
    have call: "vTaskPrioritySet h new k = (if ?yield then portYIELD k2 else Some k2)"
      using False new t(1) c k2(1) by (simp add: vTaskPrioritySet_def configASSERT_def Let_def)
    show ?thesis
    proof (cases ?yield)
      case True
      have "xSchedulerRunning k2" "pxCurrentTCB k2 \<noteq> None" "uxSchedulerSuspended k2 = 0 \<longrightarrow> xPendedTicks k2 = 0"
        using ok c k2(5) by (auto simp: scheduler_ok_def same_flags_def)
      with yield_any_time[OF k2(2)] True call show ?thesis by simp
    next
      case no: False
      have "most_urgent k2 c" if u: "most_urgent k c"
      proof (cases "t = c")
        case True
        with no False have "uxBasePriority ?b < new" by (auto split: if_splits)
        then have "priority k c \<le> uxPriority (?f ?b)" using True by auto
        then show ?thesis using u True unfolding most_urgent_def k2(3,4) by (auto intro: order_trans)
      next
        case other: False
        have "uxPriority (?f ?b) \<le> priority k c \<or> uxPriority (?f ?b) = priority k t \<or> uxPriority (?f ?b) \<le> priority k t"
          using no other steadyD(4)[OF st, of t] by (auto simp: tcb_ok_def split: if_splits)
        then show ?thesis using u other unfolding most_urgent_def k2(3,4) by (auto intro: order_trans)
      qed
      then have "scheduler_ok L idle k2" by (rule scheduler_priority[OF ok k2(2,3,5) c])
      then show ?thesis using no call by auto
    qed
  qed
qed

lemma inherit_ok:
  assumes ok: "scheduler_ok L idle k" and h: "exists_task k h" and cur: "\<And>c. pxCurrentTCB k = Some c \<Longrightarrow> exists_task k c"
  obtains y k' where "xTaskPriorityInherit (Some h) k = Some (y, k')" "scheduler_ok L idle k'"
    "\<And>c. pxCurrentTCB k = Some c \<Longrightarrow> priority k' h = max (priority k h) (priority k c)"
proof -
  have st: "steady L idle k" using ok by (simp add: scheduler_ok_def)
  obtain c where c: "pxCurrentTCB k = Some c" using ok by (auto simp: scheduler_ok_def urgent_runs_def)
  show ?thesis
  proof (cases "priority k h < priority k c")
    case False
    then show ?thesis
      using that[of "uxBasePriority (tcbs k h) < priority k c" k] ok c by (simp add: xTaskPriorityInherit_def)
  next
    case True
    let ?f = "\<lambda>b. b\<lparr>uxPriority := priority k c\<rparr>"
    note sane = steadyD(1)[OF st]
    have p: "priority k c < configMAX_PRIORITIES" using exists_priority[OF sane cur[OF c]] .
    obtain s0 where
      s0: "set_event_value h (priority k c) k = k\<lparr>lists := s0\<rparr>" "store_ok L s0" "\<And>u. xItemValue s0 (Item (StateItem u)) = wake k u"
        "pxContainer s0 = pxContainer (lists k)" "items s0 = items (lists k)" "pvOwner s0 = pvOwner (lists k)"
      using set_event_value_store[OF sane, of k h "priority k c"] by blast
    have it: "items s0 TasksWaitingTermination = items (lists k) TasksWaitingTermination" using s0(5) by simp
    let ?b = "?f (tcbs k h)"
    have b: "uxPriority ?b < configMAX_PRIORITIES" "ucNotifyState ?b = ucNotifyState (tcbs k h)" "tcb_ok ?b"
      using p steadyD(4)[OF st, of h] True by (simp_all add: tcb_ok_def)
    have "\<exists>k2. xTaskPriorityInherit (Some h) k = Some (True, k2) \<and> steady L idle k2 \<and> is_ready k2 = is_ready k \<and>
        tcbs k2 = (tcbs k)(h := ?b) \<and> same_flags k k2"
    proof (cases "is_ready k h")
      case ready: True
      obtain n s1 s2 where
        r: "uxListRemove (StateItem h) s0 = Some (n, s1)" "listINSERT_END (ReadyTasksList (uxPriority ?b)) (StateItem h) s1 = s2"
          "steady L idle (k\<lparr>lists := s2, tcbs := (tcbs k)(h := ?b), uxTopReadyPriority := max (uxTopReadyPriority k) (uxPriority ?b)\<rparr>)"
          "is_ready (k\<lparr>lists := s2, tcbs := (tcbs k)(h := ?b), uxTopReadyPriority := max (uxTopReadyPriority k) (uxPriority ?b)\<rparr>) = is_ready k"
        by (rule requeued[OF st h b s0(2-4) it s0(6) ready])
      have "xTaskPriorityInherit (Some h) k =
          Some (True, k\<lparr>lists := s2, tcbs := (tcbs k)(h := ?b), uxTopReadyPriority := max (uxTopReadyPriority k) (uxPriority ?b)\<rparr>)"
        using c True s0(1,4) ready r(1,2)
        by (cases k) (simp add: xTaskPriorityInherit_def listIS_CONTAINED_WITHIN_def is_ready_def on_lists_opt_def
            prvAddTaskToReadyList_eq set_tcb_def)
      then show ?thesis using r(3,4) by (simp add: same_flags_def)
    next
      case blocked: False
      note r = left_in_place[OF st h b s0(2-4) it s0(6) blocked]
      have "xTaskPriorityInherit (Some h) k = Some (True, k\<lparr>lists := s0, tcbs := (tcbs k)(h := ?b)\<rparr>)"
        using c True s0(1,4) blocked
        by (cases k) (simp add: xTaskPriorityInherit_def listIS_CONTAINED_WITHIN_def is_ready_def set_tcb_def)
      then show ?thesis using r by (simp add: same_flags_def)
    qed
    then obtain k2 where
      k2: "xTaskPriorityInherit (Some h) k = Some (True, k2)" "steady L idle k2" "is_ready k2 = is_ready k"
        "tcbs k2 = (tcbs k)(h := ?b)" "same_flags k k2" by blast
    have "h \<noteq> c" using True by auto
    then have "most_urgent k2 c" if "most_urgent k c"
      using that unfolding most_urgent_def k2(3,4) by auto
    then have "scheduler_ok L idle k2" by (rule scheduler_priority[OF ok k2(2,3,5) c])
    then show ?thesis using that[OF k2(1)] k2(4) True c by simp
  qed
qed

lemma remove_value_commute:
  "uxListRemove i (listSET_LIST_ITEM_VALUE j v s) = map_option (apsnd (listSET_LIST_ITEM_VALUE j v)) (uxListRemove i s)"
  by (cases "pxContainer s i") (simp_all add: uxListRemove_def listSET_LIST_ITEM_VALUE_def Let_def)

lemma disinherit_ok:
  assumes ok: "scheduler_ok L idle k" and c: "pxCurrentTCB k = Some c" "is_ready k c" and held: "uxMutexesHeld (tcbs k c) \<noteq> 0"
  obtains y k' where "xTaskPriorityDisinherit (Some c) k = Some (y, k')" "steady L idle k'" "is_ready k' = is_ready k" "same_flags k k'"
    "\<not> y \<Longrightarrow> scheduler_ok L idle k'"
    "uxMutexesHeld (tcbs k c) = 1 \<Longrightarrow> priority k' c = uxBasePriority (tcbs k c)"
proof -
  let ?k = "set_tcb c (\<lambda>b. b\<lparr>uxMutexesHeld := uxMutexesHeld b - 1\<rparr>) k"
  have ok1: "scheduler_ok L idle ?k"
    using saneD(7)[of L k] ok c(2) by (intro note_tcb) (auto simp: scheduler_ok_def steady_def notify_ok_def exists_task_def is_ready_def)
  have st: "steady L idle ?k" using ok1 by (simp add: scheduler_ok_def)
  have r1: "is_ready ?k = is_ready k" by (auto simp: fun_eq_iff is_ready_def)
  have fl: "same_flags k ?k" by (simp add: same_flags_def set_tcb_def)
  let ?b = "tcbs ?k c"
  show ?thesis
  proof (cases "uxPriority ?b \<noteq> uxBasePriority ?b \<and> uxMutexesHeld ?b = 0")
    case False
    have "xTaskPriorityDisinherit (Some c) k = Some (False, ?k)"
      using c(1) held False by (auto simp: xTaskPriorityDisinherit_def configASSERT_def Let_def)
    then show ?thesis using that[of False ?k] ok1 st r1 fl False held by auto
  next
    case True
    note sane = steadyD(1)[OF st]
    have ex: "exists_task ?k c" using c(2) by (simp add: is_ready_def exists_task_def)
    let ?b' = "?b\<lparr>uxPriority := uxBasePriority ?b\<rparr>"
    have b: "uxPriority ?b' < configMAX_PRIORITIES" "ucNotifyState ?b' = ucNotifyState (tcbs ?k c)" "tcb_ok ?b'"
      using exists_priority[OF sane ex] steadyD(4)[OF st, of c] by (auto simp: tcb_ok_def)
    let ?s0 = "listSET_LIST_ITEM_VALUE (EventItem c) (event_value (uxBasePriority ?b)) (lists ?k)"
    obtain n s1 s2 where
      r: "uxListRemove (StateItem c) ?s0 = Some (n, s1)" "listINSERT_END (ReadyTasksList (uxPriority ?b')) (StateItem c) s1 = s2"
        "steady L idle (?k\<lparr>lists := s2, tcbs := (tcbs ?k)(c := ?b'), uxTopReadyPriority := max (uxTopReadyPriority ?k) (uxPriority ?b')\<rparr>)"
        "is_ready (?k\<lparr>lists := s2, tcbs := (tcbs ?k)(c := ?b'), uxTopReadyPriority := max (uxTopReadyPriority ?k) (uxPriority ?b')\<rparr>) = is_ready ?k"
      by (rule requeued[OF st ex b event_value_store[OF sane]]) (use c(2) r1 in auto)
    obtain s where s: "uxListRemove (StateItem c) (lists k) = Some (n, s)"
        "s1 = listSET_LIST_ITEM_VALUE (EventItem c) (event_value (uxBasePriority ?b)) s"
      using r(1) by (auto simp: remove_value_commute)
    let ?k' = "?k\<lparr>lists := s2, tcbs := (tcbs ?k)(c := ?b'), uxTopReadyPriority := max (uxTopReadyPriority ?k) (uxPriority ?b')\<rparr>"
    have "xTaskPriorityDisinherit (Some c) k = Some (True, ?k')"
      using c(1) held True s r(2)
      by (cases k) (simp add: xTaskPriorityDisinherit_def configASSERT_def Let_def set_tcb_def on_lists_def prvAddTaskToReadyList_eq)
    moreover have "priority ?k' c = uxBasePriority (tcbs k c)" "same_flags k ?k'" by (simp_all add: same_flags_def set_tcb_def)
    ultimately show ?thesis using that[of True ?k'] r(3,4) r1 by simp
  qed
qed

text \<open>A mutex is given back: the caller yields when it lost an inherited priority.\<close>

lemma disinherit_and_yield_ok:
  assumes ok: "scheduler_ok L idle k" and c: "pxCurrentTCB k = Some c" "is_ready k c" and held: "uxMutexesHeld (tcbs k c) \<noteq> 0"
  shows "\<exists>k'. Option.bind (xTaskPriorityDisinherit (Some c) k) (\<lambda>(y, k1). if y then portYIELD k1 else Some k1) = Some k' \<and>
              scheduler_ok L idle k'"
proof -
  obtain y k1 where
    k1: "xTaskPriorityDisinherit (Some c) k = Some (y, k1)" "steady L idle k1" "same_flags k k1" "\<not> y \<Longrightarrow> scheduler_ok L idle k1"
    using disinherit_ok[OF assms] by blast
  have "xSchedulerRunning k1" "pxCurrentTCB k1 \<noteq> None" "uxSchedulerSuspended k1 = 0 \<longrightarrow> xPendedTicks k1 = 0"
    using ok c(1) k1(3) by (auto simp: scheduler_ok_def same_flags_def)
  with yield_any_time[OF k1(2)] k1(1,4) show ?thesis by (cases y) auto
qed

lemma disinherit_after_timeout_ok:
  assumes ok: "scheduler_ok L idle k" and h: "exists_task k h" and held: "uxMutexesHeld (tcbs k h) \<noteq> 0"
    and w: "w < configMAX_PRIORITIES" and cur: "pxCurrentTCB k \<noteq> Some h"
    and le: "max (uxBasePriority (tcbs k h)) w \<le> priority k h"
  shows "\<exists>k'. vTaskPriorityDisinheritAfterTimeout (Some h) w k = Some k' \<and> scheduler_ok L idle k'"
proof -
  have st: "steady L idle k" using ok by (simp add: scheduler_ok_def)
  obtain c where c: "pxCurrentTCB k = Some c" using ok by (auto simp: scheduler_ok_def urgent_runs_def)
  let ?p = "if uxBasePriority (tcbs k h) < w then w else uxBasePriority (tcbs k h)"
  show ?thesis
  proof (cases "priority k h \<noteq> ?p \<and> uxMutexesHeld (tcbs k h) = 1")
    case False
    then show ?thesis using ok held by (auto simp: vTaskPriorityDisinheritAfterTimeout_def configASSERT_def Let_def)
  next
    case True
    have p: "priority k h < configMAX_PRIORITIES" using exists_priority[OF steadyD(1)[OF st] h] .
    let ?f = "\<lambda>b. b\<lparr>uxPriority := ?p\<rparr>"
    obtain k2 where
      k2: "requeue_ready (priority k h) h (set_event_value h ?p (set_tcb h ?f k)) = Some k2" "steady L idle k2"
        "is_ready k2 = is_ready k" "tcbs k2 = (tcbs k)(h := ?f (tcbs k h))" "same_flags k k2"
      by (rule change_priority_ok[OF st h, of ?f ?p]) (use w p le steadyD(4)[OF st, of h] in \<open>auto simp: tcb_ok_def\<close>)
    have "most_urgent k2 c" if "most_urgent k c"
      using that cur c le unfolding most_urgent_def k2(3,4) by (fastforce intro: order_trans)
    then have "scheduler_ok L idle k2" by (rule scheduler_priority[OF ok k2(2,3,5) c])
    moreover have "vTaskPriorityDisinheritAfterTimeout (Some h) w k = Some k2"
      using held True cur k2(1) by (simp add: vTaskPriorityDisinheritAfterTimeout_def configASSERT_def Let_def)
    ultimately show ?thesis by blast
  qed
qed

subsection \<open>Waiting for a notification\<close>

lemma wait_notified_ok:
  assumes ok: "scheduler_ok L idle k" and susp: "uxSchedulerSuspended k = 0" and c: "pxCurrentTCB k = Some c" "c \<noteq> idle" and n: "n > 0"
    and f: "uxPriority (f (tcbs k c)) = priority k c" "tcb_ok (f (tcbs k c)) = tcb_ok (tcbs k c)"
  shows "\<exists>k'. Option.bind (prvAddCurrentTaskToDelayedList n (set_tcb c f (vTaskSuspendAll k))) resume_and_yield = Some k' \<and>
              scheduler_ok L idle k' \<and> is_blocked k' c \<and> remaining k' c = unat n"
proof -
  note pre = suspend_for_block[OF ok susp c(1)]
  let ?k = "set_tcb c f (vTaskSuspendAll k)"
  have ok1: "scheduler_ok L idle ?k"
    using pre f by (intro note_tcb) simp_all
  have r: "is_ready ?k c" using pre(6) f(1) by (simp add: is_ready_def pre(7))
  obtain k' where "Option.bind (prvAddCurrentTaskToDelayedList n ?k) resume_and_yield = Some k'" "scheduler_ok L idle k'"
    "is_blocked k' c" "remaining k' c = unat n" "uxSchedulerSuspended k' = 0" "tcbs k' = tcbs ?k"
    "\<forall>u. is_ready k' u \<longleftrightarrow> is_ready ?k u \<and> u \<noteq> c" "home k' (EventItem c) = home ?k (EventItem c)"
    by (rule block_yield_ok[OF ok1 _ _ _ _ r c(2) n]) (use pre(2-5) in \<open>simp_all add: set_tcb_def\<close>)
  then show ?thesis by blast
qed

lemma notify_take_ok:
  assumes ok: "scheduler_ok L idle k" and susp: "uxSchedulerSuspended k = 0" and c: "pxCurrentTCB k = Some c" "c \<noteq> idle"
  shows "\<exists>k'. ulTaskGenericNotifyTake_block n k = Some k' \<and> scheduler_ok L idle k'"
proof (cases "ulNotifiedValue (tcbs k c) = 0 \<and> n > 0")
  case True
  from wait_notified_ok[OF assms conjunct2[OF True], of "\<lambda>b. b\<lparr>ucNotifyState := WAITING_NOTIFICATION\<rparr>"] obtain k' where
    "Option.bind (prvAddCurrentTaskToDelayedList n (set_tcb c (\<lambda>b. b\<lparr>ucNotifyState := WAITING_NOTIFICATION\<rparr>) (vTaskSuspendAll k)))
       resume_and_yield = Some k'" "scheduler_ok L idle k'" by auto
  then show ?thesis using True c(1) by (simp add: ulTaskGenericNotifyTake_block_def)
next
  case False
  then show ?thesis using ok c(1) by (auto simp: ulTaskGenericNotifyTake_block_def)
qed

lemma notify_wait_ok:
  assumes ok: "scheduler_ok L idle k" and susp: "uxSchedulerSuspended k = 0" and c: "pxCurrentTCB k = Some c" "c \<noteq> idle"
  shows "\<exists>k'. xTaskGenericNotifyWait_block m n k = Some k' \<and> scheduler_ok L idle k'"
proof (cases "ucNotifyState (tcbs k c) \<noteq> NOTIFICATION_RECEIVED \<and> n > 0")
  case True
  let ?f = "\<lambda>b. b\<lparr>ulNotifiedValue := and (ulNotifiedValue b) (not m), ucNotifyState := WAITING_NOTIFICATION\<rparr>"
  from wait_notified_ok[OF assms conjunct2[OF True], of ?f] obtain k' where
    "Option.bind (prvAddCurrentTaskToDelayedList n (set_tcb c ?f (vTaskSuspendAll k))) resume_and_yield = Some k'"
    "scheduler_ok L idle k'" by auto
  then show ?thesis using True c(1) by (simp add: xTaskGenericNotifyWait_block_def)
next
  case False
  then show ?thesis using ok c(1) by (auto simp: xTaskGenericNotifyWait_block_def)
qed

lemma notify_take_finish_ok:
  assumes ok: "scheduler_ok L idle k" and c: "pxCurrentTCB k = Some c"
  shows "\<exists>k'. ulTaskGenericNotifyTake_finish cl k = Some (ulNotifiedValue (tcbs k c), k') \<and> scheduler_ok L idle k' \<and>
     ucNotifyState (tcbs k' c) = NOT_WAITING_NOTIFICATION"
proof -
  let ?v = "ulNotifiedValue (tcbs k c)"
  let ?f = "\<lambda>b. (if ?v \<noteq> 0 then b\<lparr>ulNotifiedValue := (if cl then 0 else ?v - 1)\<rparr> else b)\<lparr>ucNotifyState := NOT_WAITING_NOTIFICATION\<rparr>"
  have "scheduler_ok L idle (set_tcb c ?f k)" by (rule note_tcb[OF ok]) simp_all
  moreover have "ulTaskGenericNotifyTake_finish cl k = Some (?v, set_tcb c ?f k)"
    using c by (simp add: ulTaskGenericNotifyTake_finish_def set_tcb_def Let_def)
  ultimately show ?thesis by simp
qed

lemma notify_wait_finish_ok:
  assumes ok: "scheduler_ok L idle k" and c: "pxCurrentTCB k = Some c"
  shows "\<exists>k'. xTaskGenericNotifyWait_finish m k =
       Some (ucNotifyState (tcbs k c) = NOTIFICATION_RECEIVED, ulNotifiedValue (tcbs k c), k') \<and> scheduler_ok L idle k' \<and>
     ucNotifyState (tcbs k' c) = NOT_WAITING_NOTIFICATION"
proof -
  let ?f = "\<lambda>b. (if ucNotifyState (tcbs k c) = NOTIFICATION_RECEIVED then b\<lparr>ulNotifiedValue := and (ulNotifiedValue b) (not m)\<rparr> else b)
      \<lparr>ucNotifyState := NOT_WAITING_NOTIFICATION\<rparr>"
  have "scheduler_ok L idle (set_tcb c ?f k)" by (rule note_tcb[OF ok]) simp_all
  moreover have "xTaskGenericNotifyWait_finish m k =
       Some (ucNotifyState (tcbs k c) = NOTIFICATION_RECEIVED, ulNotifiedValue (tcbs k c), set_tcb c ?f k)"
    using c by (simp add: xTaskGenericNotifyWait_finish_def set_tcb_def Let_def)
  ultimately show ?thesis by simp
qed

subsection \<open>Deleting tasks\<close>

lemma sane_removed:
  assumes sane: "sane L k" and t: "home k (StateItem t) \<noteq> None"
    and s: "store_ok L s" "xItemValue s = xItemValue (lists k)" "pvOwner s = pvOwner (lists k)"
      "pxContainer s = (pxContainer (lists k))(StateItem t := None, EventItem t := None)"
  shows "sane L (k\<lparr>lists := s, uxCurrentNumberOfTasks := uxCurrentNumberOfTasks k - 1,
                  uxDeletedTasksWaitingCleanUp := length (items s TasksWaitingTermination)\<rparr>)" (is "sane L ?k")
  unfolding sane_def
proof (intro conjI)
  note inv = saneD[OF sane]
  have dom: "{u. home ?k (StateItem u) \<noteq> None} = {u. home k (StateItem u) \<noteq> None} - {t}" using s(4) by auto
  show "states_ok ?k" using inv(5) s(4) by (auto simp: states_ok_def is_ready_def is_blocked_def)
  show "events_ok ?k"
    unfolding events_ok_def
  proof (intro allI impI)
    fix u l assume l: "home ?k (EventItem u) = Some l"
    then have "home k (EventItem u) = Some l" "u \<noteq> t" using s(4) by (auto split: if_splits)
    with event_home(1)[OF sane this(1)]
    show "(\<exists>e. l = EventList e) \<and> is_blocked ?k u \<or> l = PendingReadyList \<and> uxSchedulerSuspended ?k \<noteq> 0 \<and> exists_task ?k u"
      using s(4) by (auto simp: is_blocked_def exists_task_def)
  qed
  show "notify_ok ?k" using inv(7) s(4) by (auto simp: notify_ok_def exists_task_def)
  show "overflow_ok ?k" using inv(8) s(2,4) by (auto simp: overflow_ok_def)
  show "counts_ok ?k"
    unfolding counts_ok_def dom using inv(9) t by (simp add: counts_ok_def card_Diff_singleton)
  show "owners_ok ?k" using inv(10) s(3,4) by (auto simp: owners_ok_def)
qed (use saneD[OF sane] s(1) in \<open>simp_all add: pointers_ok_def\<close>)

text \<open>Both items of a task leave their lists.\<close>

lemma both_removed:
  assumes sane: "sane L k" and t: "home k (StateItem t) = Some l"
  obtains n s1 s2 where "uxListRemove (StateItem t) (lists k) = Some (n, s1)"
    "(if pxContainer s1 (EventItem t) \<noteq> None then listREMOVE_ITEM (EventItem t) s1 else Some s1) = Some s2"
    "store_ok L s2" "xItemValue s2 = xItemValue (lists k)" "pvOwner s2 = pvOwner (lists k)"
    "pxContainer s2 = (pxContainer (lists k))(StateItem t := None, EventItem t := None)"
    "items s2 TasksWaitingTermination = items s1 TasksWaitingTermination"
    "l \<noteq> TasksWaitingTermination \<longrightarrow> items s1 TasksWaitingTermination = items (lists k) TasksWaitingTermination"
proof -
  note tL = known_lists(5)[OF sane]
  from store_remove[OF saneD(1)[OF sane] t] obtain s1 n where
    s1: "uxListRemove (StateItem t) (lists k) = Some (n, s1)" "store_ok L s1" "pxContainer s1 = (pxContainer (lists k))(StateItem t := None)"
      "xItemValue s1 = xItemValue (lists k)" "pvOwner s1 = pvOwner (lists k)"
      "\<forall>l'\<in>L. l' \<noteq> l \<longrightarrow> items s1 l' = items (lists k) l'" by blast
  obtain s2 where
    s2: "(if pxContainer s1 (EventItem t) \<noteq> None then listREMOVE_ITEM (EventItem t) s1 else Some s1) = Some s2" "store_ok L s2"
      "pxContainer s2 = (pxContainer s1)(EventItem t := None)" "xItemValue s2 = xItemValue s1" "pvOwner s2 = pvOwner s1"
      "items s2 TasksWaitingTermination = items s1 TasksWaitingTermination"
  proof (cases "pxContainer s1 (EventItem t)")
    case None
    then show ?thesis using s1(2) that[of s1] by (simp add: fun_upd_idem)
  next
    case (Some m)
    have "m \<noteq> TasksWaitingTermination" using event_home(3)[OF sane, of t m] Some s1(3) by auto
    with store_remove[OF s1(2) Some] tL show ?thesis by (metis Some option.distinct(1) that)
  qed
  show ?thesis
    by (rule that[OF s1(1) s2(1,2)]) (use s1 s2(3-6) tL in auto)
qed

lemma delete_other_ok:
  assumes ok: "scheduler_ok L idle k" and t: "exists_task k t" "pxCurrentTCB k \<noteq> Some t" "t \<noteq> idle"
  shows "\<exists>k'. vTaskDelete (Some t) k = Some k' \<and> scheduler_ok L idle k'"
proof -
  have st: "steady L idle k" "urgent_runs k" using ok by (simp_all add: scheduler_ok_def)
  note sane = steadyD(1)[OF st(1)]
  obtain l where l: "home k (StateItem t) = Some l" "l \<noteq> TasksWaitingTermination" using t(1) by (auto simp: exists_task_def)
  obtain n s1 s where
    s: "uxListRemove (StateItem t) (lists k) = Some (n, s1)"
      "(if pxContainer s1 (EventItem t) \<noteq> None then listREMOVE_ITEM (EventItem t) s1 else Some s1) = Some s"
      "store_ok L s" "xItemValue s = xItemValue (lists k)" "pvOwner s = pvOwner (lists k)"
      "pxContainer s = (pxContainer (lists k))(StateItem t := None, EventItem t := None)"
      "items s TasksWaitingTermination = items s1 TasksWaitingTermination"
      "l \<noteq> TasksWaitingTermination \<longrightarrow> items s1 TasksWaitingTermination = items (lists k) TasksWaitingTermination"
    by (rule both_removed[OF sane l(1)])
  have len: "length (items s TasksWaitingTermination) = uxDeletedTasksWaitingCleanUp k"
    using s(7,8) l(2) saneD(9)[OF sane] by (simp add: counts_ok_def)
  let ?k = "k\<lparr>lists := s, uxTaskNumber := uxTaskNumber k + 1, uxCurrentNumberOfTasks := uxCurrentNumberOfTasks k - 1\<rparr>"
  have "sane L (k\<lparr>lists := s, uxCurrentNumberOfTasks := uxCurrentNumberOfTasks k - 1,
      uxDeletedTasksWaitingCleanUp := length (items s TasksWaitingTermination)\<rparr>\<lparr>uxTaskNumber := uxTaskNumber k + 1\<rparr>)"
    using sane_removed[OF sane _ s(3-6)] l(1) by simp
  moreover have "k\<lparr>lists := s, uxCurrentNumberOfTasks := uxCurrentNumberOfTasks k - 1,
      uxDeletedTasksWaitingCleanUp := length (items s TasksWaitingTermination)\<rparr>\<lparr>uxTaskNumber := uxTaskNumber k + 1\<rparr> = ?k"
    unfolding len by (cases k) simp
  ultimately have "sane L ?k" by (rule back_subst)
  moreover have r: "is_ready ?k u \<longleftrightarrow> is_ready k u \<and> u \<noteq> t" for u using s(6) by (auto simp: is_ready_def)
  moreover have "punctual ?k" using steadyD(2)[OF st(1)] s(4,6) by (auto simp: punctual_def)
  ultimately have stk: "steady L idle ?k" using st(1) t(3) by (simp add: steady_def)
  have "urgent_runs ?k" by (rule blocked_still_urgent[OF st(2)]) (use r in auto)
  then have "scheduler_ok L idle (prvDeleteTCB t (prvResetNextTaskUnblockTime ?k))"
    using reset_unblock_ok[OF stk] ok r t(2) unfolding prvDeleteTCB_def scheduler_ok_def
    by (auto simp: urgent_runs_def kernel_views)
  moreover have "vTaskDelete (Some t) k = Some (prvDeleteTCB t (prvResetNextTaskUnblockTime ?k))"
    using s(1,2) t(2) by (simp add: vTaskDelete_def prvGetTCBFromHandle_def)
  ultimately show ?thesis by blast
qed

lemma sane_deleted:
  assumes sane: "sane L k" and t: "is_ready k t" "home k (EventItem t) = None"
    and s: "store_ok L s" "xItemValue s = xItemValue (lists k)" "pvOwner s = pvOwner (lists k)"
      "pxContainer s = (pxContainer (lists k))(StateItem t := Some TasksWaitingTermination)"
      "length (items s TasksWaitingTermination) = Suc (length (items (lists k) TasksWaitingTermination))"
  shows "sane L (k\<lparr>lists := s, uxDeletedTasksWaitingCleanUp := uxDeletedTasksWaitingCleanUp k + 1\<rparr>)" (is "sane L ?k")
  unfolding sane_def
proof (intro conjI)
  note inv = saneD[OF sane]
  have dom: "{u. home ?k (StateItem u) \<noteq> None} = {u. home k (StateItem u) \<noteq> None}" using s(4) t(1) by (auto simp: is_ready_def)
  show "states_ok ?k" using inv(5) s(4) t(1) by (auto simp: states_ok_def is_ready_def is_blocked_def)
  show "events_ok ?k"
    unfolding events_ok_def
  proof (intro allI impI)
    fix u l assume "home ?k (EventItem u) = Some l"
    then have "home k (EventItem u) = Some l" "u \<noteq> t" using s(4) t(2) by auto
    with event_home(1)[OF sane this(1)]
    show "(\<exists>e. l = EventList e) \<and> is_blocked ?k u \<or> l = PendingReadyList \<and> uxSchedulerSuspended ?k \<noteq> 0 \<and> exists_task ?k u"
      using s(4) by (auto simp: is_blocked_def exists_task_def)
  qed
  show "notify_ok ?k" using inv(7) s(4) by (auto simp: notify_ok_def exists_task_def)
  show "overflow_ok ?k" using inv(8) s(2,4) delay_pointers[OF sane] by (auto simp: overflow_ok_def)
  show "counts_ok ?k" unfolding counts_ok_def dom using inv(9) s(5) by (simp add: counts_ok_def)
  show "owners_ok ?k" using inv(10) s(3,4) t(1) by (auto simp: owners_ok_def is_ready_def)
qed (use saneD[OF sane] s(1) in \<open>simp_all add: pointers_ok_def\<close>)

lemma delete_self_ok:
  assumes ok: "scheduler_ok L idle k" and susp: "uxSchedulerSuspended k = 0" and c: "pxCurrentTCB k = Some c" "c \<noteq> idle"
  shows "\<exists>k'. vTaskDelete None k = Some k' \<and> scheduler_ok L idle k'"
proof -
  have st: "steady L idle k" "xSchedulerRunning k" "xPendedTicks k = 0" "is_ready k c"
    using ok susp c(1) by (auto simp: scheduler_ok_def)
  note sane = steadyD(1)[OF st(1)] and tL = known_lists(5)[OF steadyD(1)[OF st(1)]]
  have ev: "home k (EventItem c) = None"
    using ready_not_waiting[OF sane st(4)] no_pending[OF ok susp] by (cases "home k (EventItem c)") auto
  have h: "home k (StateItem c) = Some (ReadyTasksList (priority k c))" using st(4) by (simp add: is_ready_def)
  from store_remove[OF saneD(1)[OF sane] h] obtain s1 n where
    s1: "uxListRemove (StateItem c) (lists k) = Some (n, s1)" "store_ok L s1" "pxContainer s1 = (pxContainer (lists k))(StateItem c := None)"
      "xItemValue s1 = xItemValue (lists k)" "pvOwner s1 = pvOwner (lists k)"
      "\<forall>l'\<in>L. l' \<noteq> ReadyTasksList (priority k c) \<longrightarrow> items s1 l' = items (lists k) l'" by blast
  have "pvOwner s1 (StateItem c) = Some (item_task (StateItem c))" "pxContainer s1 (StateItem c) = None"
    using saneD(1)[OF sane] h s1(3,5) by (auto simp: store_ok_def)
  from store_insert_end[OF s1(2) this(2,1) tL] obtain s2 where
    s2: "listINSERT_END TasksWaitingTermination (StateItem c) s1 = s2" "store_ok L s2"
      "pxContainer s2 = (pxContainer s1)(StateItem c := Some TasksWaitingTermination)" "xItemValue s2 = xItemValue s1" "pvOwner s2 = pvOwner s1"
      "items s2 TasksWaitingTermination = ins_before (pxIndex s1 TasksWaitingTermination) (StateItem c) (items s1 TasksWaitingTermination)"
    by auto
  have c2: "pxContainer s2 = (pxContainer (lists k))(StateItem c := Some TasksWaitingTermination)" using s2(3) s1(3) by simp
  have "length (ins_before x i xs) = Suc (length xs)" for x :: "(list_item, list_name) node" and i xs
    by (induction x i xs rule: ins_before.induct) auto
  then have len: "length (items s2 TasksWaitingTermination) = Suc (length (items (lists k) TasksWaitingTermination))"
    using s2(6) s1(6) tL by simp
  let ?k = "k\<lparr>lists := s2, uxDeletedTasksWaitingCleanUp := uxDeletedTasksWaitingCleanUp k + 1\<rparr>\<lparr>uxTaskNumber := uxTaskNumber k + 1\<rparr>"
  have "sane L ?k"
    using sane_deleted[OF sane st(4) ev s2(2) _ _ c2 len] s1(4,5) s2(4,5) by simp
  moreover have "is_ready ?k idle" using steadyD(3)[OF st(1)] c(2) c2 by (simp add: is_ready_def)
  moreover have "punctual ?k"
    using steadyD(2)[OF st(1)] c2 s1(4) s2(4) delay_pointers[OF sane] by (auto simp: punctual_def)
  ultimately have "steady L idle ?k" using steadyD(4)[OF st(1)] by (simp add: steady_def)
  then obtain k' where "portYIELD ?k = Some k'" "scheduler_ok L idle k'"
    using yield_any_time[of L idle ?k] st(2,3) c(1) by auto
  moreover have "vTaskDelete None k = portYIELD (k\<lparr>uxTaskNumber := uxTaskNumber k + 1, lists := s2,
      uxDeletedTasksWaitingCleanUp := uxDeletedTasksWaitingCleanUp k + 1\<rparr>)"
    using s1(1,3) s2(1) ev c(1) st(2) susp
    by (simp add: vTaskDelete_def prvGetTCBFromHandle_def listINSERT_END_def on_lists_def configASSERT_def Let_def)
  moreover have "k\<lparr>uxTaskNumber := uxTaskNumber k + 1, lists := s2,
      uxDeletedTasksWaitingCleanUp := uxDeletedTasksWaitingCleanUp k + 1\<rparr> = ?k" by (cases k) simp
  ultimately show ?thesis by metis
qed

text \<open>The idle task frees what deleted tasks have left behind.\<close>

lemma clean_up_step:
  assumes ok: "scheduler_ok L idle k" and some: "uxDeletedTasksWaitingCleanUp k > 0"
  obtains t n s where "listGET_OWNER_OF_HEAD_ENTRY TasksWaitingTermination (lists k) = Some t"
    "uxListRemove (StateItem t) (lists k) = Some (n, s)"
    "scheduler_ok L idle (k\<lparr>lists := s, uxCurrentNumberOfTasks := uxCurrentNumberOfTasks k - 1,
       uxDeletedTasksWaitingCleanUp := uxDeletedTasksWaitingCleanUp k - 1\<rparr>)"
proof -
  have st: "steady L idle k" "urgent_runs k" using ok by (simp_all add: scheduler_ok_def)
  note sane = steadyD(1)[OF st(1)] and tL = known_lists(5)[OF steadyD(1)[OF st(1)]]
  have len: "length (items (lists k) TasksWaitingTermination) = uxDeletedTasksWaitingCleanUp k"
    using saneD(9)[OF sane] by (simp add: counts_ok_def)
  have lok: "lists_ok L (lists k)" using saneD(1)[OF sane] by (simp add: store_ok_def)
  have "\<not> listLIST_IS_EMPTY TasksWaitingTermination (lists k)" using len some items_facts(3)[OF lok tL] by auto
  from store_head[OF saneD(1)[OF sane] tL this] obtain i where
    i: "home k i = Some TasksWaitingTermination" "listGET_OWNER_OF_HEAD_ENTRY TasksWaitingTermination (lists k) = Some (item_task i)" by blast
  from i(1) obtain t where t: "i = StateItem t" using event_home(3)[OF sane] by (cases i) auto
  with i have h: "home k (StateItem t) = Some TasksWaitingTermination" by simp
  have ev: "home k (EventItem t) = None"
    using event_home(1)[OF sane, of t] h by (cases "home k (EventItem t)") (auto simp: is_blocked_def exists_task_def)
  from store_remove[OF saneD(1)[OF sane] h] obtain s n where
    s: "uxListRemove (StateItem t) (lists k) = Some (n, s)" "store_ok L s" "pxContainer s = (pxContainer (lists k))(StateItem t := None)"
      "xItemValue s = xItemValue (lists k)" "pvOwner s = pvOwner (lists k)"
      "items s TasksWaitingTermination = remove1 (StateItem t) (items (lists k) TasksWaitingTermination)" by blast
  have mem: "StateItem t \<in> set (items (lists k) TasksWaitingTermination)"
    using h store_mem[OF saneD(1)[OF sane] tL] by simp
  have len': "length (items s TasksWaitingTermination) = uxDeletedTasksWaitingCleanUp k - 1"
    using len s(6) mem by (simp add: length_remove1)
  let ?k = "k\<lparr>lists := s, uxCurrentNumberOfTasks := uxCurrentNumberOfTasks k - 1,
       uxDeletedTasksWaitingCleanUp := uxDeletedTasksWaitingCleanUp k - 1\<rparr>"
  have c: "pxContainer s = (pxContainer (lists k))(StateItem t := None, EventItem t := None)"
    using s(3) ev by (simp add: fun_upd_idem)
  have "sane L ?k" using sane_removed[OF sane _ s(2,4,5) c] h unfolding len' by simp
  moreover have r: "is_ready ?k = is_ready k" using s(3) h by (auto simp: is_ready_def fun_eq_iff)
  moreover have "punctual ?k" using steadyD(2)[OF st(1)] s(3,4) by (auto simp: punctual_def)
  ultimately have "steady L idle ?k" using st(1) by (simp add: steady_def)
  moreover have "urgent_runs ?k" using st(2) r by (auto simp: urgent_runs_def most_urgent_def)
  ultimately have "scheduler_ok L idle ?k" using ok unfolding scheduler_ok_def r by simp
  with i(2) t s(1) show ?thesis by (intro that[of t n s]) simp_all
qed

lemma clean_up_ok:
  "scheduler_ok L idle k \<Longrightarrow> n \<le> uxDeletedTasksWaitingCleanUp k \<Longrightarrow>
   \<exists>k'. clean_up n k = Some k' \<and> scheduler_ok L idle k' \<and> uxDeletedTasksWaitingCleanUp k' = uxDeletedTasksWaitingCleanUp k - n"
proof (induction n arbitrary: k)
  case (Suc n)
  have pos: "uxDeletedTasksWaitingCleanUp k > 0" using Suc.prems(2) by simp
  obtain t m s where
    t: "listGET_OWNER_OF_HEAD_ENTRY TasksWaitingTermination (lists k) = Some t" "uxListRemove (StateItem t) (lists k) = Some (m, s)"
      "scheduler_ok L idle (k\<lparr>lists := s, uxCurrentNumberOfTasks := uxCurrentNumberOfTasks k - 1,
         uxDeletedTasksWaitingCleanUp := uxDeletedTasksWaitingCleanUp k - 1\<rparr>)" (is "scheduler_ok L idle ?k")
    by (rule clean_up_step[OF Suc.prems(1) pos])
  have "scheduler_ok L idle (prvDeleteTCB t ?k)"
    using t(3) unfolding prvDeleteTCB_def scheduler_ok_def by (auto simp: urgent_runs_def kernel_views)
  moreover have "n \<le> uxDeletedTasksWaitingCleanUp (prvDeleteTCB t ?k)"
    "uxDeletedTasksWaitingCleanUp (prvDeleteTCB t ?k) = uxDeletedTasksWaitingCleanUp k - 1"
    using Suc.prems(2) by (simp_all add: prvDeleteTCB_def)
  ultimately show ?case using Suc.IH[of "prvDeleteTCB t ?k"] t(1,2) by auto
qed simp

lemma idle_turn_ok:
  assumes "scheduler_ok L idle k"
  shows "\<exists>k'. prvIdleTask k = Some k' \<and> scheduler_ok L idle k'"
proof -
  from clean_up_ok[OF assms order_refl] obtain k1 where
    k1: "prvCheckTasksWaitingTermination k = Some k1" "scheduler_ok L idle k1"
    by (auto simp: prvCheckTasksWaitingTermination_def)
  with yield_call_ok[OF k1(2)] show ?thesis by (auto simp: prvIdleTask_def)
qed

subsection \<open>Waiting in unordered lists, delays to a fixed time, missed ticks\<close>

lemma end_event_store:
  assumes sane: "sane L k" and e: "EventList e \<in> L" and i: "home k (EventItem c) = None" "home k (StateItem c) \<noteq> None"
    and s: "store_ok L s" "pxContainer s = pxContainer (lists k)" "pvOwner s = pvOwner (lists k)"
      "items s TasksWaitingTermination = items (lists k) TasksWaitingTermination"
  obtains s0 where "listINSERT_END (EventList e) (EventItem c) s = s0" "store_ok L s0" "xItemValue s0 = xItemValue s"
    "pxContainer s0 = (pxContainer (lists k))(EventItem c := Some (EventList e))"
    "items s0 TasksWaitingTermination = items (lists k) TasksWaitingTermination" "pvOwner s0 = pvOwner (lists k)"
proof -
  have "pvOwner s (EventItem c) = Some (item_task (EventItem c))" "pxContainer s (EventItem c) = None"
    using i saneD(10)[OF sane] s(2,3) by (simp_all add: owners_ok_def)
  from store_insert_end[OF s(1) this(2,1) e] obtain s0 where
    "listINSERT_END (EventList e) (EventItem c) s = s0" "store_ok L s0" "xItemValue s0 = xItemValue s"
    "pxContainer s0 = (pxContainer s)(EventItem c := Some (EventList e))"
    "\<forall>l'\<in>L. l' \<noteq> EventList e \<longrightarrow> items s0 l' = items s l'" "pvOwner s0 = pvOwner s" by auto
  then show ?thesis using that[of s0] known_lists(5)[OF sane] s(2-4) by auto
qed

lemma place_restricted_ok:
  assumes ok: "scheduler_ok L idle k" and susp: "uxSchedulerSuspended k \<noteq> 0"
    and c: "pxCurrentTCB k = Some c" "is_ready k c" "c \<noteq> idle" and n: "w \<or> n > 0"
    and free: "ucNotifyState (tcbs k c) \<noteq> WAITING_NOTIFICATION"
    and e: "EventList e \<in> L" and i: "home k (EventItem c) = None"
  shows "\<exists>k'. vTaskPlaceOnEventListRestricted (EventList e) n w k = Some k' \<and> scheduler_ok L idle k'"
proof -
  have sane: "sane L k" using ok by (simp add: scheduler_ok_def steady_def)
  have "home k (StateItem c) \<noteq> None" using c(2) by (simp add: is_ready_def)
  from end_event_store[OF sane e i this saneD(1)[OF sane]] obtain s0 where
    s0: "listINSERT_END (EventList e) (EventItem c) (lists k) = s0" "store_ok L s0" "xItemValue s0 = xItemValue (lists k)"
      "pxContainer s0 = (pxContainer (lists k))(EventItem c := Some (EventList e))"
      "items s0 TasksWaitingTermination = items (lists k) TasksWaitingTermination" "pvOwner s0 = pvOwner (lists k)" by blast
  have v: "\<And>u. xItemValue s0 (Item (StateItem u)) = wake k u" by (simp add: s0(3))
  have "(if w then portMAX_DELAY else n) > 0" using n by (auto simp: portMAX_DELAY_def)
  from place_ok[OF ok susp c this free s0(2) v s0(4,5,6)] obtain k' where
    "prvAddCurrentTaskToDelayedList (if w then portMAX_DELAY else n) (k\<lparr>lists := s0\<rparr>) = Some k'" "scheduler_ok L idle k'" by blast
  then show ?thesis using s0(1) c(1) by (simp add: vTaskPlaceOnEventListRestricted_def on_lists_def)
qed

lemma place_unordered_ok:
  assumes ok: "scheduler_ok L idle k" and susp: "uxSchedulerSuspended k \<noteq> 0"
    and c: "pxCurrentTCB k = Some c" "is_ready k c" "c \<noteq> idle" and n: "n > 0"
    and free: "ucNotifyState (tcbs k c) \<noteq> WAITING_NOTIFICATION"
    and e: "EventList e \<in> L" and i: "home k (EventItem c) = None"
  shows "\<exists>k'. vTaskPlaceOnUnorderedEventList (EventList e) v n k = Some k' \<and> scheduler_ok L idle k'"
proof -
  have sane: "sane L k" using ok by (simp add: scheduler_ok_def steady_def)
  have h: "home k (StateItem c) \<noteq> None" using c(2) by (simp add: is_ready_def)
  let ?s = "listSET_LIST_ITEM_VALUE (EventItem c) (or v taskEVENT_LIST_ITEM_VALUE_IN_USE) (lists k)"
  have s: "store_ok L ?s" using i by (intro store_value saneD(1)[OF sane]) simp
  have t: "pxContainer ?s = pxContainer (lists k)" "pvOwner ?s = pvOwner (lists k)" by (simp_all add: listSET_LIST_ITEM_VALUE_def)
  have u: "items ?s TasksWaitingTermination = items (lists k) TasksWaitingTermination" by simp
  obtain s0 where
    s0: "listINSERT_END (EventList e) (EventItem c) ?s = s0" "store_ok L s0" "xItemValue s0 = xItemValue ?s"
      "pxContainer s0 = (pxContainer (lists k))(EventItem c := Some (EventList e))"
      "items s0 TasksWaitingTermination = items (lists k) TasksWaitingTermination" "pvOwner s0 = pvOwner (lists k)"
    by (rule end_event_store[OF sane e i h s t u])
  have w: "\<And>u. xItemValue s0 (Item (StateItem u)) = wake k u" by (simp add: s0(3) listSET_LIST_ITEM_VALUE_def)
  from place_ok[OF ok susp c n free s0(2) w s0(4,5,6)] obtain k' where
    "prvAddCurrentTaskToDelayedList n (k\<lparr>lists := s0\<rparr>) = Some k'" "scheduler_ok L idle k'" by blast
  then show ?thesis using s0(1) c(1) susp by (simp add: vTaskPlaceOnUnorderedEventList_def on_lists_def configASSERT_def)
qed

lemma delay_until_ok:
  assumes ok: "scheduler_ok L idle k" and susp: "uxSchedulerSuspended k = 0" and c: "pxCurrentTCB k = Some c" "c \<noteq> idle"
    and inc: "inc > 0"
  shows "\<exists>d k'. xTaskDelayUntil prev inc k = Some (d, prev + inc, k') \<and> scheduler_ok L idle k' \<and>
    (d \<longrightarrow> is_blocked k' c \<and> remaining k' c = unat (prev + inc - xTickCount k))"
proof -
  note pre = suspend_for_block[OF ok susp c(1)]
  let ?k = "vTaskSuspendAll k"
  define d where "d = (if xTickCount k < prev then prev + inc < prev \<and> prev + inc > xTickCount k
                       else prev + inc < prev \<or> prev + inc > xTickCount k)"
  have eq: "xTaskDelayUntil prev inc k = do {
      k \<leftarrow> (if d then prvAddCurrentTaskToDelayedList (prev + inc - xTickCount k) ?k else Some ?k);
      k \<leftarrow> resume_and_yield k; Some (d, prev + inc, k) }"
    using inc pre(2) unfolding xTaskDelayUntil_def configASSERT_def Let_def d_def
    by (simp add: vTaskSuspendAll_def cong: if_cong)
  show ?thesis
  proof (cases d)
    case True
    then have n: "prev + inc - xTickCount k > 0" by (auto simp: d_def word_gt_0 split: if_splits)
    obtain k' where k': "Option.bind (prvAddCurrentTaskToDelayedList (prev + inc - xTickCount k) ?k) resume_and_yield = Some k'"
      "scheduler_ok L idle k'" "is_blocked k' c" "remaining k' c = unat (prev + inc - xTickCount k)" "uxSchedulerSuspended k' = 0"
      "tcbs k' = tcbs ?k" "\<forall>u. is_ready k' u \<longleftrightarrow> is_ready ?k u \<and> u \<noteq> c" "home k' (EventItem c) = home ?k (EventItem c)"
      by (rule block_yield_ok[OF pre(1-6) c(2) n])
    from k'(1) have "xTaskDelayUntil prev inc k = Some (d, prev + inc, k')"
      unfolding eq by (cases "prvAddCurrentTaskToDelayedList (prev + inc - xTickCount k) ?k") (simp_all add: True)
    with k'(2-4) show ?thesis by blast
  next
    case False
    have "steady L idle ?k" "urgent_runs ?k" "xSchedulerRunning ?k" using pre(1) by (simp_all add: scheduler_ok_def)
    from resume_and_yield_ok[OF this(1,2) pre(2) this(3)] obtain k' where
      "resume_and_yield ?k = Some k'" "scheduler_ok L idle k'" by blast
    then show ?thesis using False eq by (intro exI[of _ d] exI[of _ k']) simp
  qed
qed

lemma catch_up_ok:
  assumes ok: "scheduler_ok L idle k" and susp: "uxSchedulerSuspended k = 0"
  shows "\<exists>y k'. xTaskCatchUpTicks n k = Some (y, k') \<and> scheduler_ok L idle k'"
proof -
  obtain c where c: "pxCurrentTCB k = Some c" "is_ready k c" using ok susp by (auto simp: scheduler_ok_def)
  note pre = suspend_for_block[OF ok susp c(1)]
  let ?k = "vTaskSuspendAll k\<lparr>xPendedTicks := xPendedTicks (vTaskSuspendAll k) + n\<rparr>"
  have "scheduler_ok L idle ?k" using pre(1,2) by (auto simp: scheduler_ok_def)
  then obtain y k' where "xTaskResumeAll ?k = Some (y, k')" "scheduler_ok L idle k'"
    by (rule resume_ok[where c = c]) (use pre in auto)
  then show ?thesis using susp by (simp add: xTaskCatchUpTicks_def configASSERT_def)
qed

lemma note_higher_ok:
  assumes ok: "scheduler_ok L idle k" and s: "steady L idle (readied k t s)" "\<forall>u. is_ready (readied k t s) u \<longleftrightarrow> is_ready k u \<or> u = t"
  shows "\<exists>y k'. note_higher t (readied k t s) = Some (y, k') \<and> scheduler_ok L idle k' \<and> is_ready k' t"
proof -
  obtain c where c: "pxCurrentTCB k = Some c" "xYieldPending k \<or> most_urgent k c"
    using ok by (auto simp: scheduler_ok_def urgent_runs_def)
  let ?k = "readied k t s" and ?y = "xYieldPending k \<or> priority k c < priority k t"
  let ?k' = "?k\<lparr>xYieldPending := ?y\<rparr>"
  have "note_higher t ?k = Some (priority k c < priority k t, ?k')"
    using c(1) by (cases k) (auto simp: note_higher_def)
  moreover have "urgent_runs ?k'" using c s(2) by (auto simp: urgent_runs_def most_urgent_def)
  then have "scheduler_ok L idle ?k'" using s ok by (auto simp: scheduler_ok_def)
  moreover have "is_ready ?k' t" using s(2) by simp
  ultimately show ?thesis by blast
qed

lemma remove_unordered_ok:
  assumes ok: "scheduler_ok L idle k" and susp: "uxSchedulerSuspended k \<noteq> 0"
    and t: "home k (EventItem t) = Some (EventList e)"
  shows "\<exists>k'. vTaskRemoveFromUnorderedEventList (EventItem t) v k = Some k' \<and> scheduler_ok L idle k' \<and> is_ready k' t"
proof -
  have st: "steady L idle k" using ok by (simp add: scheduler_ok_def)
  note sane = steadyD(1)[OF st]
  let ?s = "listSET_LIST_ITEM_VALUE (EventItem t) (or v taskEVENT_LIST_ITEM_VALUE_IN_USE) (lists k)"
  have ex: "exists_task k t" using event_home(1)[OF sane t] by (auto simp: is_blocked_def exists_task_def)
  have h: "pxContainer ?s (EventItem t) = Some (EventList e)" "store_ok L ?s"
    using t event_value_store[OF sane] by (simp_all add: listSET_LIST_ITEM_VALUE_def)
  from store_remove[OF h(2,1)] obtain s where
    s: "listREMOVE_ITEM (EventItem t) ?s = Some s" "store_ok L s" "pxContainer s = (pxContainer ?s)(EventItem t := None)"
      "xItemValue s = xItemValue ?s" "pvOwner s = pvOwner ?s" "\<forall>l'\<in>L. l' \<noteq> EventList e \<longrightarrow> items s l' = items ?s l'" by blast
  have v: "\<And>u. xItemValue s (Item (StateItem u)) = wake k u" "pvOwner s = pvOwner (lists k)"
      "pxContainer s = (pxContainer (lists k))(EventItem t := None)"
    using s(3,4,5) by (simp_all add: listSET_LIST_ITEM_VALUE_def)
  have w: "items s TasksWaitingTermination = items (lists k) TasksWaitingTermination" using s(6) known_lists(5)[OF sane] by simp
  have sane1: "sane L (k\<lparr>lists := s\<rparr>)" by (rule sane_event[OF sane s(2) v(1,3) w v(2)]) simp
  have ok1: "scheduler_ok L idle (k\<lparr>lists := s\<rparr>)" by (rule scheduler_event[OF ok sane1 v(1,3)])
  have "exists_task (k\<lparr>lists := s\<rparr>) t" "home (k\<lparr>lists := s\<rparr>) (EventItem t) \<in> {None, Some PendingReadyList}"
    using ex v(3) by (simp_all add: exists_task_def)
  from ready_now_ok[OF steady_event(1)[OF st sane1 v(1,3)] this] obtain s2 where
    s2: "ready_now t (k\<lparr>lists := s\<rparr>) = Some (readied (k\<lparr>lists := s\<rparr>) t s2)" "steady L idle (readied (k\<lparr>lists := s\<rparr>) t s2)"
      "\<forall>u. is_ready (readied (k\<lparr>lists := s\<rparr>) t s2) u \<longleftrightarrow> is_ready (k\<lparr>lists := s\<rparr>) u \<or> u = t" by blast
  from note_higher_ok[OF ok1 s2(2,3)] obtain y k' where
    k': "note_higher t (readied (k\<lparr>lists := s\<rparr>) t s2) = Some (y, k')" "scheduler_ok L idle k'" "is_ready k' t" by blast
  have "pvOwner ?s (EventItem t) = Some t"
    using ex saneD(10)[OF sane] by (simp add: owners_ok_def exists_task_def listSET_LIST_ITEM_VALUE_def)
  then show ?thesis using s(1) s2(1) k' susp
    by (simp add: vTaskRemoveFromUnorderedEventList_def configASSERT_def on_lists_def on_lists_opt_def)
qed

end
