(* ===== verification/Rtos_Run.thy ===== *)
theory Rtos_Run
  imports Rtos_Calls
begin

section \<open>The scheduler as a whole\<close>

text \<open>
  The calls of the kernel together. \<open>kcall\<close> lists them, \<open>may_call\<close> says when the kernel's
  documentation and its callers (\<^verbatim>\<open>queue.c\<close>, \<^verbatim>\<open>timers.c\<close>, \<^verbatim>\<open>event_groups.c\<close>) allow each, and \<open>do_calls\<close>
  runs a sequence of them, with tick interrupts anywhere in between. From reset on, such a
  sequence never stops the processor and a most urgent ready task runs after it
  (\<open>most_urgent_task_runs\<close>). A delay lasts exactly its number of ticks, whatever the tick
  counter was and how often it wraps (\<open>delay_is_exact\<close>), tasks of the same priority take turns
  (\<open>equal_priorities_take_turns\<close>), and the holder of a mutex runs at the priority of the most
  urgent task that asked for it (\<open>mutex_holder_inherits\<close>).
\<close>

datatype kcall =
    Tick
  | Yield
  | SuspendAll
  | ResumeAll
  | ResumeAndYield
  | Delay tick
  | DelayUntil tick tick
  | CatchUp tick
  | CreateTask "task option" nat
  | DeleteTask task
  | DeleteSelf
  | IdleTurn
  | PrioritySet "task option" nat
  | Inherit task
  | Disinherit
  | GiveMutex nat
  | DisinheritAfterTimeout task nat
  | TakeMutex
  | PlaceOn nat tick
  | PlaceOnUnordered nat tick tick
  | PlaceOnRestricted nat tick bool
  | WakeFirst nat
  | WakeUnordered task tick
  | ResetEventValue
  | MissedYield
  | Notify task "32 word" notify_action
  | NotifyFromISR task "32 word" notify_action
  | NotifyGiveFromISR task
  | NotifyTake tick
  | NotifyTakeFinish bool
  | NotifyWait "32 word" tick
  | NotifyWaitFinish "32 word"
  | NotifyStateClear "task option"
  | NotifyValueClear "task option" "32 word"

text \<open>
  The give of a mutex by its holder: the part of \<open>xQueueGenericSend\<close> behind the count, with the list of tasks
  that wait for the mutex.
\<close>

definition give_mutex :: "list_name \<Rightarrow> kernel \<Rightarrow> kernel option" where
  "give_mutex xTasksWaitingToReceive k =
     do {
       (xYieldRequired, k) \<leftarrow> xTaskPriorityDisinherit (pxCurrentTCB k) k;
       if \<not> listLIST_IS_EMPTY xTasksWaitingToReceive (lists k) then do {
         (higher, k) \<leftarrow> xTaskRemoveFromEventList xTasksWaitingToReceive k;
         if higher then portYIELD k else Some k
       }
       else if xYieldRequired then portYIELD k else Some k
     }"

fun do_call :: "kcall \<Rightarrow> kernel \<Rightarrow> kernel option" where
  "do_call Tick k = FreeRTOS_Tick_Handler k"
| "do_call Yield k = portYIELD k"
| "do_call SuspendAll k = Some (vTaskSuspendAll k)"
| "do_call ResumeAll k = map_option snd (xTaskResumeAll k)"
| "do_call ResumeAndYield k = resume_and_yield k"
| "do_call (Delay n) k = vTaskDelay n k"
| "do_call (DelayUntil prev inc) k = map_option (snd \<circ> snd) (xTaskDelayUntil prev inc k)"
| "do_call (CatchUp n) k = map_option snd (xTaskCatchUpTicks n k)"
| "do_call (CreateTask t p) k = map_option snd (xTaskCreate t p k)"
| "do_call (DeleteTask t) k = vTaskDelete (Some t) k"
| "do_call DeleteSelf k = vTaskDelete None k"
| "do_call IdleTurn k = prvIdleTask k"
| "do_call (PrioritySet h p) k = vTaskPrioritySet h p k"
| "do_call (Inherit h) k = map_option snd (xTaskPriorityInherit (Some h) k)"
| "do_call Disinherit k =
     Option.bind (xTaskPriorityDisinherit (pxCurrentTCB k) k) (\<lambda>(y, k1). if y then portYIELD k1 else Some k1)"
| "do_call (GiveMutex e) k = give_mutex (EventList e) k"
| "do_call (DisinheritAfterTimeout h w) k = vTaskPriorityDisinheritAfterTimeout (Some h) w k"
| "do_call TakeMutex k = Some (snd (pvTaskIncrementMutexHeldCount k))"
| "do_call (PlaceOn e n) k = vTaskPlaceOnEventList (EventList e) n k"
| "do_call (PlaceOnUnordered e v n) k = vTaskPlaceOnUnorderedEventList (EventList e) v n k"
| "do_call (PlaceOnRestricted e n w) k = vTaskPlaceOnEventListRestricted (EventList e) n w k"
| "do_call (WakeFirst e) k = map_option snd (xTaskRemoveFromEventList (EventList e) k)"
| "do_call (WakeUnordered t v) k = vTaskRemoveFromUnorderedEventList (EventItem t) v k"
| "do_call ResetEventValue k = map_option snd (uxTaskResetEventItemValue k)"
| "do_call MissedYield k = Some (vTaskMissedYield k)"
| "do_call (Notify t v a) k = map_option (snd \<circ> snd) (xTaskGenericNotify t v a k)"
| "do_call (NotifyFromISR t v a) k = map_option (snd \<circ> snd \<circ> snd) (xTaskGenericNotifyFromISR t v a k)"
| "do_call (NotifyGiveFromISR t) k = map_option snd (vTaskGenericNotifyGiveFromISR t k)"
| "do_call (NotifyTake n) k = ulTaskGenericNotifyTake_block n k"
| "do_call (NotifyTakeFinish b) k = map_option snd (ulTaskGenericNotifyTake_finish b k)"
| "do_call (NotifyWait m n) k = xTaskGenericNotifyWait_block m n k"
| "do_call (NotifyWaitFinish m) k = map_option (snd \<circ> snd) (xTaskGenericNotifyWait_finish m k)"
| "do_call (NotifyStateClear h) k = map_option snd (xTaskGenericNotifyStateClear h k)"
| "do_call (NotifyValueClear h m) k = map_option snd (ulTaskGenericNotifyValueClear h m k)"

text \<open>
  The rules of the calls. \<open>running k c\<close>: \<open>c\<close> is executing and has not put itself to sleep.
  Blocking calls are made with the scheduler running and not by the idle task; a task waits for
  an event only between \<open>vTaskSuspendAll\<close> and the resumption (or in a critical section, which is the
  same to the scheduler); tasks are named by handles of tasks that exist. \<open>Disinherit\<close> is the
  give of a mutex on which no task waits, \<open>GiveMutex\<close> the give of any mutex, with one exception (\<open>gives_way\<close>): when
  a task waits, \<open>xQueueGenericSend\<close> yields only if that task is more urgent than the caller, although the caller may
  just have lost an inherited priority and other ready tasks may be more urgent now. So a give that ends an
  inheritance while tasks wait is among the calls only if the first of them is more urgent than the caller's own
  priority. That is the rule, since a priority is inherited from waiting tasks; it fails when the
  waiting task that lent it has given up or waits for another mutex.
\<close>

definition gives_way :: "nat \<Rightarrow> kernel \<Rightarrow> bool" where
  "gives_way e k =
     (case xTaskPriorityDisinherit (pxCurrentTCB k) k of
        Some (True, k1) \<Rightarrow>
          listLIST_IS_EMPTY (EventList e) (lists k1) \<or>
          (case (pxCurrentTCB k1, listGET_OWNER_OF_HEAD_ENTRY (EventList e) (lists k1)) of
             (Some c, Some t) \<Rightarrow> priority k1 c < priority k1 t
           | _ \<Rightarrow> False)
      | _ \<Rightarrow> True)"

definition running :: "kernel \<Rightarrow> task \<Rightarrow> bool" where
  "running k c \<longleftrightarrow> pxCurrentTCB k = Some c \<and> is_ready k c"

definition may_block :: "task \<Rightarrow> kernel \<Rightarrow> bool" where
  "may_block idle k \<longleftrightarrow> uxSchedulerSuspended k = 0 \<and> pxCurrentTCB k \<noteq> Some idle"

definition may_wait :: "list_name set \<Rightarrow> task \<Rightarrow> nat \<Rightarrow> kernel \<Rightarrow> bool" where
  "may_wait L idle e k \<longleftrightarrow>
     uxSchedulerSuspended k \<noteq> 0 \<and> EventList e \<in> L \<and>
     (\<exists>c. running k c \<and> c \<noteq> idle \<and> ucNotifyState (tcbs k c) \<noteq> WAITING_NOTIFICATION \<and> home k (EventItem c) = None)"

fun may_call :: "list_name set \<Rightarrow> task \<Rightarrow> kcall \<Rightarrow> kernel \<Rightarrow> bool" where
  "may_call L idle Tick k = True"
| "may_call L idle Yield k = True"
| "may_call L idle SuspendAll k = True"
| "may_call L idle ResumeAll k =
     (uxSchedulerSuspended k \<noteq> 0 \<and> (uxSchedulerSuspended k = 1 \<longrightarrow> (\<exists>c. running k c)))"
| "may_call L idle ResumeAndYield k = (uxSchedulerSuspended k = 1)"
| "may_call L idle (Delay n) k = (n = 0 \<or> may_block idle k)"
| "may_call L idle (DelayUntil prev inc) k = (inc > 0 \<and> may_block idle k)"
| "may_call L idle (CatchUp n) k = (uxSchedulerSuspended k = 0)"
| "may_call L idle (CreateTask m p) k =
     (\<forall>t. m = Some t \<longrightarrow> p < configMAX_PRIORITIES \<and> home k (StateItem t) = None \<and> home k (EventItem t) = None \<and>
        pxCurrentTCB k \<noteq> Some t)"
| "may_call L idle (DeleteTask t) k = (exists_task k t \<and> t \<noteq> idle \<and> pxCurrentTCB k \<noteq> Some t)"
| "may_call L idle DeleteSelf k = may_block idle k"
| "may_call L idle IdleTurn k = (pxCurrentTCB k = Some idle)"
| "may_call L idle (PrioritySet h p) k =
     (p < configMAX_PRIORITIES \<and> (\<exists>t. prvGetTCBFromHandle h k = Some t \<and> exists_task k t))"
| "may_call L idle (Inherit h) k = (exists_task k h \<and> (\<exists>c. running k c))"
| "may_call L idle Disinherit k = (\<exists>c. running k c \<and> uxMutexesHeld (tcbs k c) \<noteq> 0)"
| "may_call L idle (GiveMutex e) k =
     ((\<exists>c. running k c \<and> uxMutexesHeld (tcbs k c) \<noteq> 0) \<and> EventList e \<in> L \<and> gives_way e k)"
| "may_call L idle (DisinheritAfterTimeout h w) k =
     (exists_task k h \<and> uxMutexesHeld (tcbs k h) \<noteq> 0 \<and> pxCurrentTCB k \<noteq> Some h \<and> w \<le> priority k h)"
| "may_call L idle TakeMutex k = True"
| "may_call L idle (PlaceOn e n) k = (n > 0 \<and> may_wait L idle e k)"
| "may_call L idle (PlaceOnUnordered e v n) k = (n > 0 \<and> may_wait L idle e k)"
| "may_call L idle (PlaceOnRestricted e n w) k = ((w \<or> n > 0) \<and> may_wait L idle e k)"
| "may_call L idle (WakeFirst e) k = (EventList e \<in> L \<and> \<not> listLIST_IS_EMPTY (EventList e) (lists k))"
| "may_call L idle (WakeUnordered t v) k =
     (uxSchedulerSuspended k \<noteq> 0 \<and> (\<exists>e. home k (EventItem t) = Some (EventList e)))"
| "may_call L idle ResetEventValue k = True"
| "may_call L idle MissedYield k = True"
| "may_call L idle (Notify t v a) k = exists_task k t"
| "may_call L idle (NotifyFromISR t v a) k = exists_task k t"
| "may_call L idle (NotifyGiveFromISR t) k = exists_task k t"
| "may_call L idle (NotifyTake n) k = may_block idle k"
| "may_call L idle (NotifyTakeFinish b) k = True"
| "may_call L idle (NotifyWait m n) k = may_block idle k"
| "may_call L idle (NotifyWaitFinish m) k = True"
| "may_call L idle (NotifyStateClear h) k = True"
| "may_call L idle (NotifyValueClear h m) k = True"

subsection \<open>Every call keeps the scheduler\<close>

lemma reset_event_value_ok:
  assumes ok: "scheduler_ok L idle k"
  shows "\<exists>v k'. uxTaskResetEventItemValue k = Some (v, k') \<and> scheduler_ok L idle k'"
proof -
  have sane: "sane L k" using ok by (simp add: scheduler_ok_def steady_def)
  obtain c where c: "pxCurrentTCB k = Some c" using ok by (auto simp: scheduler_ok_def urgent_runs_def)
  let ?s = "listSET_LIST_ITEM_VALUE (EventItem c) (event_value (priority k c)) (lists k)"
  have v: "\<And>u. xItemValue ?s (Item (StateItem u)) = wake k u" "pxContainer ?s = pxContainer (lists k)" "pvOwner ?s = pvOwner (lists k)"
    by (simp_all add: listSET_LIST_ITEM_VALUE_def)
  have "sane L (k\<lparr>lists := ?s\<rparr>)"
    by (rule sane_values[OF sane event_value_store[OF sane] v(1,2) _ v(3)]) simp
  then have "scheduler_ok L idle (k\<lparr>lists := ?s\<rparr>)"
    by (rule scheduler_event[OF ok _ v(1), where t = c and x = "home k (EventItem c)"]) (simp add: v(2) fun_upd_idem)
  then show ?thesis using c by (simp add: uxTaskResetEventItemValue_def on_lists_def)
qed

lemma wake_first_ok:
  assumes ok: "scheduler_ok L idle k" and e: "EventList e \<in> L" "\<not> listLIST_IS_EMPTY (EventList e) (lists k)"
  shows "\<exists>y k'. xTaskRemoveFromEventList (EventList e) k = Some (y, k') \<and> scheduler_ok L idle k'"
proof -
  have sane: "sane L k" using ok by (simp add: scheduler_ok_def steady_def)
  from store_head[OF saneD(1)[OF sane] e] obtain i where
    i: "items (lists k) (EventList e) = i # tl (items (lists k) (EventList e))" "home k i = Some (EventList e)" by blast
  from i(2) obtain t where "i = EventItem t"
    using saneD(5)[OF sane] by (cases i) (auto simp: states_ok_def is_ready_def is_blocked_def)
  with i(1) have "items (lists k) (EventList e) = EventItem t # tl (items (lists k) (EventList e))" by simp
  from remove_from_event_list_ok[OF ok e(1) this] show ?thesis by blast
qed

text \<open>Whether the woken task is more urgent depends on the priorities only; if it is, a switch is due anyway.\<close>

lemma remove_flag:
  assumes "xTaskRemoveFromEventList l k = Some (w, k')" "listGET_OWNER_OF_HEAD_ENTRY l (lists k) = Some t" "pxCurrentTCB k = Some c"
  shows "w \<longleftrightarrow> priority k c < priority k t"
  using assms
  by (auto simp: xTaskRemoveFromEventList_def ready_or_pend_def ready_now_def on_lists_opt_def on_lists_def prvAddTaskToReadyList_def
      taskRECORD_READY_PRIORITY_def note_higher_def Let_def split: bind_splits if_splits)

lemma add_ready_pending: "prvAddTaskToReadyList t (k\<lparr>xYieldPending := b\<rparr>) = (prvAddTaskToReadyList t k)\<lparr>xYieldPending := b\<rparr>"
  by (cases k) (simp add: prvAddTaskToReadyList_def taskRECORD_READY_PRIORITY_def on_lists_def Let_def)

lemma on_lists_opt_pending: "on_lists_opt f (k\<lparr>xYieldPending := b\<rparr>) = map_option (\<lambda>k. k\<lparr>xYieldPending := b\<rparr>) (on_lists_opt f k)"
  by (cases k) (simp add: on_lists_opt_def option.map_comp comp_def)

lemma ready_or_pend_pending: "ready_or_pend t (k\<lparr>xYieldPending := b\<rparr>) = map_option (\<lambda>k. k\<lparr>xYieldPending := b\<rparr>) (ready_or_pend t k)"
proof -
  have "ready_now t (k\<lparr>xYieldPending := b\<rparr>) = map_option (\<lambda>k. k\<lparr>xYieldPending := b\<rparr>) (ready_now t k)"
    by (simp add: ready_now_def on_lists_opt_pending option.map_comp comp_def add_ready_pending)
  moreover have "k\<lparr>xYieldPending := b, lists := s\<rparr> = k\<lparr>lists := s, xYieldPending := b\<rparr>" for s by (cases k) simp
  ultimately show ?thesis by (simp add: ready_or_pend_def on_lists_def)
qed

lemma note_higher_pending: "note_higher t (k\<lparr>xYieldPending := b\<rparr>) = Some (True, k') \<Longrightarrow> note_higher t k = Some (True, k')"
  by (auto simp: note_higher_def split: bind_splits if_splits)

lemma remove_pending:
  assumes "xTaskRemoveFromEventList l (k\<lparr>xYieldPending := b\<rparr>) = Some (True, k')"
  shows "xTaskRemoveFromEventList l k = Some (True, k')"
proof -
  obtain t where t: "listGET_OWNER_OF_HEAD_ENTRY l (lists k) = Some t"
    using assms by (cases "listGET_OWNER_OF_HEAD_ENTRY l (lists k)") (simp_all add: xTaskRemoveFromEventList_def)
  obtain k1 where k1: "on_lists_opt (listREMOVE_ITEM (EventItem t)) k = Some k1"
    using assms t by (cases "on_lists_opt (listREMOVE_ITEM (EventItem t)) k") (simp_all add: xTaskRemoveFromEventList_def on_lists_opt_pending)
  obtain k2 where k2: "ready_or_pend t k1 = Some k2"
    using assms t k1 by (cases "ready_or_pend t k1") (simp_all add: xTaskRemoveFromEventList_def on_lists_opt_pending ready_or_pend_pending)
  have "note_higher t (k2\<lparr>xYieldPending := b\<rparr>) = Some (True, k')"
    using assms t k1 k2 by (simp add: xTaskRemoveFromEventList_def on_lists_opt_pending ready_or_pend_pending)
  from note_higher_pending[OF this] t k1 k2 show ?thesis by (simp add: xTaskRemoveFromEventList_def)
qed

lemma give_mutex_ok:
  assumes ok: "scheduler_ok L idle k" and c: "pxCurrentTCB k = Some c" "is_ready k c" and held: "uxMutexesHeld (tcbs k c) \<noteq> 0"
    and e: "EventList e \<in> L" and way: "gives_way e k"
  shows "\<exists>k'. give_mutex (EventList e) k = Some k' \<and> scheduler_ok L idle k'"
proof -
  obtain y k1 where
    k1: "xTaskPriorityDisinherit (Some c) k = Some (y, k1)" "steady L idle k1" "is_ready k1 = is_ready k" "same_flags k k1"
      "\<not> y \<Longrightarrow> scheduler_ok L idle k1"
    using disinherit_ok[OF ok c held] by blast
  show ?thesis
  proof (cases "listLIST_IS_EMPTY (EventList e) (lists k1)")
    case True
    then have "give_mutex (EventList e) k =
        Option.bind (xTaskPriorityDisinherit (Some c) k) (\<lambda>(y, k1). if y then portYIELD k1 else Some k1)"
      using c(1) k1(1) by (simp add: give_mutex_def)
    with disinherit_and_yield_ok[OF ok c held] show ?thesis by simp
  next
    case waits: False
    show ?thesis
    proof (cases y)
      case False
      from wake_first_ok[OF k1(5)[OF this] e waits] obtain w k2 where
        k2: "xTaskRemoveFromEventList (EventList e) k1 = Some (w, k2)" "scheduler_ok L idle k2" by blast
      with yield_call_ok[OF k2(2)] c(1) k1(1) waits show ?thesis by (cases w) (simp_all add: give_mutex_def)
    next
      case True
      let ?p = "k1\<lparr>xYieldPending := True\<rparr>"
      obtain t where t: "listGET_OWNER_OF_HEAD_ENTRY (EventList e) (lists k1) = Some t" "priority k1 c < priority k1 t"
        using way waits c(1) k1(1,4) True by (auto simp: gives_way_def same_flags_def split: option.splits)
      have cur: "pxCurrentTCB k1 = Some c" using c(1) k1(4) by (simp add: same_flags_def)
      have "steady L idle ?p" "is_ready ?p c" using k1(2,3) c(2) by (simp_all add: is_ready_def)
      then have p: "scheduler_ok L idle ?p"
        using ok k1(4) cur by (auto simp: scheduler_ok_def urgent_runs_def same_flags_def)
      have "\<not> listLIST_IS_EMPTY (EventList e) (lists ?p)" using waits by simp
      from wake_first_ok[OF p e this] obtain w k2 where
        k2: "xTaskRemoveFromEventList (EventList e) ?p = Some (w, k2)" "scheduler_ok L idle k2" by blast
      have "w" using remove_flag[OF k2(1), of t c] t cur by simp
      with k2(1) have "xTaskRemoveFromEventList (EventList e) ?p = Some (True, k2)" by simp
      from remove_pending[OF this] have "xTaskRemoveFromEventList (EventList e) k1 = Some (True, k2)" .
      with yield_call_ok[OF k2(2)] c(1) k1(1) waits show ?thesis by (simp add: give_mutex_def)
    qed
  qed
qed

lemma running_blocker:
  assumes "scheduler_ok L idle k" "may_block idle k"
  obtains c where "uxSchedulerSuspended k = 0" "pxCurrentTCB k = Some c" "c \<noteq> idle"
  using assms by (auto simp: scheduler_ok_def may_block_def)

lemma resume_call_ok:
  assumes ok: "scheduler_ok L idle k" and susp: "uxSchedulerSuspended k \<noteq> 0"
    and c: "uxSchedulerSuspended k = 1 \<longrightarrow> (\<exists>c. running k c)"
  shows "\<exists>y k'. xTaskResumeAll k = Some (y, k') \<and> scheduler_ok L idle k'"
proof -
  obtain c where "uxSchedulerSuspended k = 1 \<Longrightarrow> pxCurrentTCB k = Some c \<and> is_ready k c"
    using c by (auto simp: running_def)
  from resume_ok[OF ok susp this] show ?thesis by blast
qed

lemma clear_calls_ok:
  assumes ok: "scheduler_ok L idle k"
  shows "\<exists>r. xTaskGenericNotifyStateClear h k = Some r \<and> scheduler_ok L idle (snd r)"
    and "\<exists>v k'. ulTaskGenericNotifyValueClear h m k = Some (v, k') \<and> scheduler_ok L idle k'"
proof -
  obtain t where t: "prvGetTCBFromHandle h k = Some t"
    using ok by (cases h) (auto simp: prvGetTCBFromHandle_def scheduler_ok_def urgent_runs_def)
  show "\<exists>r. xTaskGenericNotifyStateClear h k = Some r \<and> scheduler_ok L idle (snd r)"
    using t ok note_tcb[OF ok, of "\<lambda>b. b\<lparr>ucNotifyState := NOT_WAITING_NOTIFICATION\<rparr>" t]
    by (simp add: xTaskGenericNotifyStateClear_def)
  have "scheduler_ok L idle (set_tcb t (\<lambda>b. b\<lparr>ulNotifiedValue := and (ulNotifiedValue b) (not m)\<rparr>) k)"
    unfolding set_tcb_def
    by (rule scheduler_tcb[OF ok]) (use saneD(7)[of L k] ok in \<open>auto simp: scheduler_ok_def steady_def notify_ok_def\<close>)
  then show "\<exists>v k'. ulTaskGenericNotifyValueClear h m k = Some (v, k') \<and> scheduler_ok L idle k'"
    using t by (simp add: ulTaskGenericNotifyValueClear_def)
qed

lemma take_mutex_ok:
  assumes ok: "scheduler_ok L idle k"
  shows "scheduler_ok L idle (snd (pvTaskIncrementMutexHeldCount k))"
proof (cases "pxCurrentTCB k")
  case (Some c)
  have "scheduler_ok L idle (k\<lparr>tcbs := (tcbs k)(c := (tcbs k c)\<lparr>uxMutexesHeld := uxMutexesHeld (tcbs k c) + 1\<rparr>)\<rparr>)"
    by (rule scheduler_tcb[OF ok]) (use ok saneD(7)[of L k] in \<open>auto simp: scheduler_ok_def steady_def notify_ok_def\<close>)
  with Some show ?thesis by (simp add: pvTaskIncrementMutexHeldCount_def set_tcb_def)
qed (simp add: pvTaskIncrementMutexHeldCount_def ok)

lemma after_timeout_call_ok:
  assumes ok: "scheduler_ok L idle k" and h: "exists_task k h" "uxMutexesHeld (tcbs k h) \<noteq> 0" "pxCurrentTCB k \<noteq> Some h" "w \<le> priority k h"
  shows "\<exists>k'. vTaskPriorityDisinheritAfterTimeout (Some h) w k = Some k' \<and> scheduler_ok L idle k'"
proof -
  have st: "steady L idle k" using ok by (simp add: scheduler_ok_def)
  have "priority k h < configMAX_PRIORITIES" using exists_priority[OF steadyD(1)[OF st] h(1)] .
  moreover have "uxBasePriority (tcbs k h) \<le> priority k h" using steadyD(4)[OF st, of h] by (simp add: tcb_ok_def)
  ultimately show ?thesis using h(4) by (intro disinherit_after_timeout_ok ok h(1-3)) simp_all
qed

lemma call_ok:
  assumes ok: "scheduler_ok L idle k" and may: "may_call L idle c k"
  shows "\<exists>k'. do_call c k = Some k' \<and> scheduler_ok L idle k'"
proof -
  have st: "steady L idle k" "urgent_runs k" "xSchedulerRunning k" using ok by (simp_all add: scheduler_ok_def)
  show ?thesis
  proof (cases c)
    case Tick
    show ?thesis
    proof (cases "uxSchedulerSuspended k = 0")
      case True
      from tick_handler_ok[OF ok True] show ?thesis unfolding Tick by (metis do_call.simps(1))
    qed (use tick_handler_suspended[OF ok] Tick in simp)
  next
    case ResumeAndYield
    with may resume_and_yield_ok[OF st(1,2) _ st(3)] show ?thesis by (metis do_call.simps(5) may_call.simps(5))
  next
    case (Delay n)
    show ?thesis
    proof (cases "n = 0")
      case False
      with may Delay obtain t where "uxSchedulerSuspended k = 0" "pxCurrentTCB k = Some t" "t \<noteq> idle"
        using running_blocker[OF ok] by auto
      from delay_ok[OF ok this] False show ?thesis unfolding Delay do_call.simps by (metis word_gt_0)
    qed (use Delay yield_call_ok[OF ok] in \<open>simp add: vTaskDelay_def\<close>)
  next
    case (DelayUntil prev inc)
    with may obtain t where "uxSchedulerSuspended k = 0" "pxCurrentTCB k = Some t" "t \<noteq> idle" "inc > 0"
      using running_blocker[OF ok] by auto
    from delay_until_ok[OF ok this, of prev] show ?thesis using DelayUntil by auto
  next
    case (CreateTask m p)
    show ?thesis
    proof (cases m)
      case (Some t)
      with may CreateTask create_ok[OF ok, of t p] show ?thesis by auto
    qed (use ok CreateTask in \<open>simp add: xTaskCreate_def\<close>)
  next
    case DeleteSelf
    with may obtain t where "uxSchedulerSuspended k = 0" "pxCurrentTCB k = Some t" "t \<noteq> idle"
      using running_blocker[OF ok] by auto
    from delete_self_ok[OF ok this] show ?thesis using DeleteSelf by simp
  next
    case (Inherit h)
    with may have h: "exists_task k h" "\<And>c. pxCurrentTCB k = Some c \<Longrightarrow> exists_task k c"
      by (auto simp: running_def is_ready_def exists_task_def)
    from inherit_ok[OF ok this] show ?thesis unfolding Inherit do_call.simps by (metis option.simps(9) snd_conv)
  next
    case Disinherit
    with may disinherit_and_yield_ok[OF ok] show ?thesis by (auto simp: running_def)
  next
    case (GiveMutex e)
    with may give_mutex_ok[OF ok] show ?thesis by (auto simp: running_def)
  next
    case (PlaceOn e n)
    with may obtain t where t: "uxSchedulerSuspended k \<noteq> 0" "pxCurrentTCB k = Some t" "is_ready k t" "t \<noteq> idle" "n > 0"
      "ucNotifyState (tcbs k t) \<noteq> WAITING_NOTIFICATION" "EventList e \<in> L" "home k (EventItem t) = None"
      by (auto simp: may_wait_def running_def)
    from place_on_event_list_ok[OF ok t] show ?thesis unfolding PlaceOn do_call.simps by metis
  next
    case (NotifyTake n)
    with may obtain t where "uxSchedulerSuspended k = 0" "pxCurrentTCB k = Some t" "t \<noteq> idle"
      using running_blocker[OF ok] by auto
    from notify_take_ok[OF ok this] show ?thesis using NotifyTake by simp
  next
    case (NotifyWait m n)
    with may obtain t where "uxSchedulerSuspended k = 0" "pxCurrentTCB k = Some t" "t \<noteq> idle"
      using running_blocker[OF ok] by auto
    from notify_wait_ok[OF ok this] show ?thesis using NotifyWait by simp
  next
    case (NotifyTakeFinish b)
    then show ?thesis using notify_take_finish_ok[OF ok] st(2) by (fastforce simp: urgent_runs_def)
  next
    case (NotifyWaitFinish b)
    then show ?thesis using notify_wait_finish_ok[OF ok] st(2) by (fastforce simp: urgent_runs_def)
  next
    case ResumeAll
    with may resume_call_ok[OF ok] show ?thesis by fastforce
  next
    case SuspendAll
    with suspend_ok[OF ok] show ?thesis by simp
  next
    case Yield
    with yield_call_ok[OF ok] show ?thesis by simp
  next
    case (CatchUp n)
    with may catch_up_ok[OF ok, of n] show ?thesis by fastforce
  next
    case (DeleteTask t)
    with may delete_other_ok[OF ok, of t] show ?thesis by simp
  next
    case IdleTurn
    with idle_turn_ok[OF ok] show ?thesis by simp
  next
    case (PrioritySet h p)
    with may priority_set_ok[OF ok] show ?thesis by auto
  next
    case (DisinheritAfterTimeout h w)
    with may after_timeout_call_ok[OF ok] show ?thesis by simp
  next
    case TakeMutex
    with take_mutex_ok[OF ok] show ?thesis by simp
  next
    case (PlaceOnUnordered e v n)
    with may place_unordered_ok[OF ok] show ?thesis by (auto simp: may_wait_def running_def)
  next
    case (PlaceOnRestricted e n w)
    with may place_restricted_ok[OF ok] show ?thesis by (auto simp: may_wait_def running_def)
  next
    case (WakeFirst e)
    with may wake_first_ok[OF ok, of e] show ?thesis by fastforce
  next
    case (WakeUnordered t v)
    with may remove_unordered_ok[OF ok, of t _ v] show ?thesis by fastforce
  next
    case ResetEventValue
    with reset_event_value_ok[OF ok] show ?thesis by fastforce
  next
    case MissedYield
    with ok show ?thesis by (auto simp: vTaskMissedYield_def scheduler_ok_def urgent_runs_def)
  next
    case (Notify t v a)
    with may notify_call_ok[OF ok, of t v a] show ?thesis by fastforce
  next
    case (NotifyFromISR t v a)
    with may notify_from_isr_ok[OF ok, of t v a] show ?thesis by fastforce
  next
    case (NotifyGiveFromISR t)
    with may notify_give_ok[OF ok, of t] show ?thesis by fastforce
  next
    case (NotifyStateClear h)
    with clear_calls_ok(1)[OF ok, of h] show ?thesis by auto
  next
    case (NotifyValueClear h m)
    with clear_calls_ok(2)[OF ok, of h m] show ?thesis by fastforce
  qed
qed

subsection \<open>From reset on\<close>

text \<open>
  \<open>main\<close> creates the first tasks (their control blocks are the addresses the heap gave) and starts
  the scheduler. The event lists \<open>E\<close> of queues may have been set up before.
\<close>

fun create_all :: "(task \<times> nat) list \<Rightarrow> kernel \<Rightarrow> kernel option" where
  "create_all [] k = Some k"
| "create_all ((t, p) # ts) k = Option.bind (xTaskCreate (Some t) p k) (\<lambda>(_, k). create_all ts k)"

definition start_system :: "(task \<times> nat) list \<Rightarrow> task \<Rightarrow> task \<Rightarrow> task_lists \<Rightarrow> kernel option" where
  "start_system ts idle timer s = Option.bind (create_all ts (boot s)) (vTaskStartScheduler (Some idle) True (Some timer))"

definition at_reset :: "list_name set \<Rightarrow> (task \<times> nat) list \<Rightarrow> task \<Rightarrow> task \<Rightarrow> task_lists \<Rightarrow> bool" where
  "at_reset L ts idle timer s \<longleftrightarrow>
     (\<exists>E. L = E \<union> kernel_lists \<and> E \<subseteq> range EventList \<and> lists_ok E s) \<and> (\<forall>i. pxContainer s i = None) \<and>
     ts \<noteq> [] \<and> distinct (idle # timer # map fst ts) \<and> (\<forall>(t, p) \<in> set ts. p < configMAX_PRIORITIES)"

inductive kernel_reachable :: "list_name set \<Rightarrow> task \<Rightarrow> kernel \<Rightarrow> bool" for L idle where
  started: "at_reset L ts idle timer s \<Longrightarrow> start_system ts idle timer s = Some k \<Longrightarrow> kernel_reachable L idle k"
| called: "kernel_reachable L idle k \<Longrightarrow> may_call L idle c k \<Longrightarrow> do_call c k = Some k' \<Longrightarrow> kernel_reachable L idle k'"

lemma create_all_ok:
  "prestart L k \<Longrightarrow> distinct (map fst ts) \<Longrightarrow> \<forall>(t, p) \<in> set ts. p < configMAX_PRIORITIES \<Longrightarrow>
   \<forall>i. home k i \<noteq> None \<longrightarrow> item_task i \<notin> fst ` set ts \<Longrightarrow>
   \<exists>k'. create_all ts k = Some k' \<and> prestart L k' \<and> (\<forall>i. home k' i \<noteq> None \<longrightarrow> home k i \<noteq> None \<or> item_task i \<in> fst ` set ts) \<and>
     (\<forall>i. home k i \<noteq> None \<longrightarrow> home k' i = home k i) \<and> (\<forall>(t, p) \<in> set ts. home k' (StateItem t) = Some (ReadyTasksList p))"
proof (induction ts arbitrary: k)
  case (Cons x ts)
  obtain t p where x: "x = (t, p)" by (cases x)
  have "home k (StateItem t) = None" "home k (EventItem t) = None" "p < configMAX_PRIORITIES"
    using Cons.prems(3,4) x by force+
  from create_prestart[OF Cons.prems(1) this] obtain k1 where
    k1: "xTaskCreate (Some t) p k = Some (True, k1)" "prestart L k1" "home k1 = (home k)(StateItem t := Some (ReadyTasksList p))" by blast
  have "\<forall>i. home k1 i \<noteq> None \<longrightarrow> item_task i \<notin> fst ` set ts"
    using Cons.prems(2,4) x k1(3) by auto
  with Cons.IH[OF k1(2)] Cons.prems(2,3) x obtain k' where
    "create_all ts k1 = Some k'" "prestart L k'" "\<forall>i. home k' i \<noteq> None \<longrightarrow> home k1 i \<noteq> None \<or> item_task i \<in> fst ` set ts"
    "\<forall>i. home k1 i \<noteq> None \<longrightarrow> home k' i = home k1 i" "\<forall>(t, p) \<in> set ts. home k' (StateItem t) = Some (ReadyTasksList p)" by auto
  moreover from this(4) have "\<forall>i. home k i \<noteq> None \<longrightarrow> home k' i = home k i" "home k' (StateItem t) = Some (ReadyTasksList p)"
    using k1(3) \<open>home k (StateItem t) = None\<close> by auto
  moreover from calculation(3) have "home k i \<noteq> None \<or> item_task i \<in> fst ` set (x # ts)" if "home k' i \<noteq> None" for i
    using that k1(3) x by (cases "i = StateItem t") auto
  ultimately show ?case using k1(1) x by auto
qed simp

lemma start_system_ok:
  assumes "at_reset L ts idle timer s"
  shows "\<exists>k. start_system ts idle timer s = Some k \<and> scheduler_ok L idle k \<and> uxSchedulerSuspended k = 0 \<and>
     is_ready k idle \<and> priority k idle = 0 \<and> (\<forall>(t, p) \<in> set ts. is_ready k t \<and> priority k t = p)"
proof -
  obtain E where E: "L = E \<union> kernel_lists" "E \<subseteq> range EventList" "lists_ok E s" using assms by (auto simp: at_reset_def)
  note a = assms[unfolded at_reset_def]
  obtain t p ts' where ts: "ts = (t, p) # ts'" "p < configMAX_PRIORITIES" using a by (cases ts) auto
  have none: "\<And>i. pxContainer s i = None" using a by simp
  have new: "E \<inter> kernel_lists = {}" "\<And>q. ReadyTasksList q \<notin> E" using E(2) by (auto simp: kernel_lists_def)
  from create_first[OF E(3) none new ts(2)] obtain k1 where
    k1: "xTaskCreate (Some t) p (boot s) = Some (True, k1)" "prestart L k1" "home k1 = (\<lambda>_. None)(StateItem t := Some (ReadyTasksList p))"
    unfolding E(1) by blast
  have "\<forall>i. home k1 i \<noteq> None \<longrightarrow> item_task i \<notin> fst ` set ts'" using k1(3) a ts(1) by auto
  with create_all_ok[OF k1(2), of ts'] a ts(1) obtain k2 where
    k2: "create_all ts' k1 = Some k2" "prestart L k2" "\<forall>i. home k2 i \<noteq> None \<longrightarrow> home k1 i \<noteq> None \<or> item_task i \<in> fst ` set ts'"
      "\<forall>i. home k1 i \<noteq> None \<longrightarrow> home k2 i = home k1 i" "\<forall>(t, p) \<in> set ts'. home k2 (StateItem t) = Some (ReadyTasksList p)" by auto
  have "home k2 i = None" if "item_task i \<in> {idle, timer}" for i
    using k2(3) that a ts(1) k1(3) by (cases "i = StateItem t") auto
  then have h: "home k2 (StateItem idle) = None" "home k2 (EventItem idle) = None" "home k2 (StateItem timer) = None" "home k2 (EventItem timer) = None"
    by simp_all
  have ne: "idle \<noteq> timer" using a by simp
  from scheduler_start_ok[OF k2(2) ne h] obtain k where
    k: "vTaskStartScheduler (Some idle) True (Some timer) k2 = Some k" "scheduler_ok L idle k" "uxSchedulerSuspended k = 0"
      "home k = (home k2)(StateItem idle := Some (ReadyTasksList 0), StateItem timer := Some (ReadyTasksList 5))" by blast
  have ni: "idle \<notin> fst ` set ts" and nt: "timer \<notin> fst ` set ts" using a by simp_all
  have sane: "sane L k" using k(2) by (simp add: scheduler_ok_def steady_def)
  have "home k (StateItem u) = Some (ReadyTasksList q)" if "(u, q) \<in> insert (idle, 0) (set ts)" for u q
  proof (cases "u = idle")
    case False
    then have in_ts: "(u, q) \<in> set ts" using that by simp
    then have "u \<in> fst ` set ts" by force
    then have "u \<noteq> timer" using nt by blast
    moreover have "home k2 (StateItem u) = Some (ReadyTasksList q)"
      using in_ts k2(4,5) k1(3) unfolding ts(1) by auto
    ultimately show ?thesis using False k(4) by simp
  next
    case True
    then have "(u, q) \<notin> set ts" using ni by force
    then show ?thesis using that True k(4) ne by simp
  qed
  then have "is_ready k u \<and> priority k u = q" if "(u, q) \<in> insert (idle, 0) (set ts)" for u q
    using ready_home(1,2)[OF sane, of u q] that by simp
  then show ?thesis using k(1-3) k1(1) k2(1) ts(1) by (auto simp: start_system_def)
qed

lemma reachable_ok: "kernel_reachable L idle k \<Longrightarrow> scheduler_ok L idle k"
proof (induction rule: kernel_reachable.induct)
  case (started ts timer s k)
  with start_system_ok[OF started(1)] show ?case by auto
next
  case (called k c k')
  with call_ok[OF called(4,2)] show ?case by simp
qed

lemma tick_settles:
  assumes ok: "scheduler_ok L idle k" and run: "uxSchedulerSuspended k = 0"
  shows "\<exists>k' c. FreeRTOS_Tick_Handler k = Some k' \<and> ticked k k' \<and> running k' c \<and> most_urgent k' c"
proof -
  obtain k' where k': "FreeRTOS_Tick_Handler k = Some k'" "scheduler_ok L idle k'" "ticked k k'"
    by (rule tick_handler_ok[OF ok run])
  obtain sw k1 where k1: "xTaskIncrementTick k = Some (sw, k1)" "(if sw then vTaskSwitchContext k1 else Some k1) = Some k'"
    using k'(1) by (auto simp: FreeRTOS_Tick_Handler_def split: bind_splits)
  have "\<not> sw \<longrightarrow> \<not> xYieldPending k1"
    using k1(1) run by (auto simp: xTaskIncrementTick_def Let_def split: bind_splits if_splits)
  moreover have "uxSchedulerSuspended k' = 0" using k'(3) run by (simp add: ticked_def)
  moreover have "sw \<longrightarrow> uxSchedulerSuspended k' = 0 \<longrightarrow> \<not> xYieldPending k'"
    using k1(2) by (auto simp: vTaskSwitchContext_def taskSELECT_HIGHEST_PRIORITY_TASK_def Let_def split: bind_splits if_splits)
  ultimately have "\<not> xYieldPending k'" using k1(2) by (cases sw) auto
  then show ?thesis
    using k' \<open>uxSchedulerSuspended k' = 0\<close> by (auto simp: scheduler_ok_def urgent_runs_def running_def)
qed

subsection \<open>Time\<close>

fun ticks :: "nat \<Rightarrow> kernel \<Rightarrow> kernel option" where
  "ticks 0 k = Some k"
| "ticks (Suc n) k = Option.bind (FreeRTOS_Tick_Handler k) (ticks n)"

lemma ticks_blocked:
  "scheduler_ok L idle k \<Longrightarrow> uxSchedulerSuspended k = 0 \<Longrightarrow> is_blocked k c \<Longrightarrow> 0 < remaining k c \<Longrightarrow> m \<le> remaining k c \<Longrightarrow>
   \<exists>k'. ticks m k = Some k' \<and> (if m < remaining k c then is_blocked k' c else is_ready k' c)"
proof (induction m arbitrary: k)
  case (Suc m)
  obtain k1 where k1: "FreeRTOS_Tick_Handler k = Some k1" "scheduler_ok L idle k1" "ticked k k1"
    by (rule tick_handler_ok[OF Suc.prems(1,2)])
  show ?case
  proof (cases "remaining k c = 1")
    case True
    then have "m = 0" "is_ready k1 c" using Suc.prems(3,5) k1(3) by (auto simp: ticked_def)
    then show ?thesis using k1(1) True by simp
  next
    case False
    then have b: "is_blocked k1 c" "remaining k1 c = remaining k c - 1" "uxSchedulerSuspended k1 = 0"
      using Suc.prems(2,3) k1(3) by (simp_all add: ticked_def)
    have "0 < remaining k1 c" "m \<le> remaining k1 c" using b(2) Suc.prems(4,5) False by simp_all
    from Suc.IH[OF k1(2) b(3,1) this] obtain k' where
      k': "ticks m k1 = Some k'" "if m < remaining k1 c then is_blocked k' c else is_ready k' c" by blast
    have "m < remaining k1 c \<longleftrightarrow> Suc m < remaining k c" using b(2) by linarith
    with k' k1(1) show ?thesis by simp
  qed
qed simp

lemma blocked_not_ready: "is_blocked k t \<Longrightarrow> \<not> is_ready k t"
  by (auto simp: is_blocked_def is_ready_def)

subsection \<open>Taking turns\<close>

fun yields :: "nat \<Rightarrow> kernel \<Rightarrow> (task list \<times> kernel) option" where
  "yields 0 k = Some ([], k)"
| "yields (Suc n) k =
     do {
       k1 \<leftarrow> portYIELD k;
       t \<leftarrow> pxCurrentTCB k1;
       (ts, k2) \<leftarrow> yields n k1;
       Some (t # ts, k2)
     }"

definition ready_at :: "kernel \<Rightarrow> nat \<Rightarrow> task set" where
  "ready_at k p = {t. is_ready k t \<and> priority k t = p}"

definition top_ready :: "kernel \<Rightarrow> nat \<Rightarrow> bool" where
  "top_ready k p \<longleftrightarrow> ready_at k p \<noteq> {} \<and> (\<forall>t. is_ready k t \<longrightarrow> priority k t \<le> p)"

lemma ready_items:
  assumes sane: "sane L k" and p: "p < configMAX_PRIORITIES"
  shows "set (items (lists k) (ReadyTasksList p)) = StateItem ` ready_at k p"
proof -
  note mem = store_mem[OF saneD(1)[OF sane] known_lists(1)[OF sane p]]
  have "i \<in> StateItem ` ready_at k p" if "home k i = Some (ReadyTasksList p)" for i
  proof -
    from ready_item[OF sane that] that obtain t where "i = StateItem t" "home k (StateItem t) = Some (ReadyTasksList p)" by metis
    then show ?thesis using ready_home[OF sane] by (auto simp: ready_at_def)
  qed
  then show ?thesis using mem by (auto simp: ready_at_def is_ready_def)
qed

lemma top_ready_selected:
  assumes st: "steady L idle k" and top: "top_ready k p"
  shows "highest_ready (uxTopReadyPriority k) (lists k) = Some p" "p < configMAX_PRIORITIES"
proof -
  note sane = steadyD(1)[OF st]
  note inv = saneD[OF sane]
  obtain t where t: "is_ready k t" "priority k t = p" using top by (auto simp: top_ready_def ready_at_def)
  note tp = ready_home[OF sane t(1)[unfolded is_ready_def]]
  show p: "p < configMAX_PRIORITIES" using tp t(2) by simp
  have rl: "ReadyTasksList ` {..<configMAX_PRIORITIES} \<subseteq> L" using inv(2) by (auto simp: kernel_lists_def)
  have ne: "\<not> listLIST_IS_EMPTY (ReadyTasksList p) (lists k)"
    using store_empty[OF inv(1) known_lists(1)[OF sane p]] t by (auto simp: is_ready_def)
  have le: "p \<le> uxTopReadyPriority k" using tp(4) t(2) by simp
  from highest_ready_finds[OF inv(1) rl ne le inv(3)] obtain q where
    q: "highest_ready (uxTopReadyPriority k) (lists k) = Some q" "q \<le> uxTopReadyPriority k"
      "\<not> listLIST_IS_EMPTY (ReadyTasksList q) (lists k)"
      "\<forall>r'. q < r' \<and> r' \<le> uxTopReadyPriority k \<longrightarrow> listLIST_IS_EMPTY (ReadyTasksList r') (lists k)" by blast
  have qm: "q < configMAX_PRIORITIES" using q(2) inv(3) by simp
  obtain i where i: "home k i = Some (ReadyTasksList q)" using q(3) store_empty[OF inv(1) known_lists(1)[OF sane qm]] by auto
  from ready_item[OF sane i] i obtain u where "home k (StateItem u) = Some (ReadyTasksList q)" by metis
  note u = ready_home[OF sane this]
  have "q \<le> p" using top u(1,2) by (auto simp: top_ready_def)
  moreover have "\<not> q < p" using q(4) ne le by auto
  ultimately show "highest_ready (uxTopReadyPriority k) (lists k) = Some p" using q(1) by simp
qed

lemma yield_serves:
  assumes ok: "scheduler_ok L idle k" and susp: "uxSchedulerSuspended k = 0" and top: "top_ready k p"
  obtains t k1 where "portYIELD k = Some k1" "listGET_OWNER_OF_NEXT_ENTRY (ReadyTasksList p) (lists k) = Some (t, lists k1)"
    "pxCurrentTCB k1 = Some t" "scheduler_ok L idle k1" "uxSchedulerSuspended k1 = 0" "top_ready k1 p"
proof -
  have st: "steady L idle k" "xSchedulerRunning k" "xPendedTicks k = 0" "pxCurrentTCB k \<noteq> None"
    using ok susp by (auto simp: scheduler_ok_def)
  from yield_ok[OF st(1,2,4) susp st(3)] obtain k1 where
    k1: "portYIELD k = Some k1" "scheduler_ok L idle k1" "same_tasks k k1" by blast
  have "top_ready k1 p" "uxSchedulerSuspended k1 = 0"
    using top k1(3) susp by (simp_all add: top_ready_def ready_at_def same_tasks_def is_ready_def)
  moreover obtain t where "pxCurrentTCB k1 = Some t"
      "listGET_OWNER_OF_NEXT_ENTRY (ReadyTasksList p) (lists k) = Some (t, lists k1)"
    using k1(1) susp top_ready_selected(1)[OF st(1) top]
    by (auto simp: portYIELD_def vTaskSwitchContext_def taskSELECT_HIGHEST_PRIORITY_TASK_def Let_def split: bind_splits)
  ultimately show ?thesis using that k1(1,2) by blast
qed

lemma yields_serve:
  "scheduler_ok L idle k \<Longrightarrow> uxSchedulerSuspended k = 0 \<Longrightarrow> top_ready k p \<Longrightarrow>
   \<exists>ts k'. yields n k = Some (ts, k') \<and> serve n (ReadyTasksList p) (lists k) = Some (ts, lists k')"
proof (induction n arbitrary: k)
  case (Suc n)
  obtain t k1 where
    k1: "portYIELD k = Some k1" "listGET_OWNER_OF_NEXT_ENTRY (ReadyTasksList p) (lists k) = Some (t, lists k1)"
      "pxCurrentTCB k1 = Some t" "scheduler_ok L idle k1" "uxSchedulerSuspended k1 = 0" "top_ready k1 p"
    by (rule yield_serves[OF Suc.prems])
  from Suc.IH[OF k1(4-6)] k1(1-3) show ?case by auto
qed simp

text \<open>A full turn around a list visits every element once.\<close>

lemma full_turn:
  assumes "xs \<noteq> []"
  shows "map (\<lambda>k. xs ! ((a + k) mod length xs)) [0..<length xs] = rotate a xs"
  by (rule nth_equalityI) (simp_all add: nth_rotate)

lemma turns_ok:
  assumes ok: "scheduler_ok L idle k" and susp: "uxSchedulerSuspended k = 0" and top: "top_ready k p"
  shows "\<exists>ts k'. yields (card (ready_at k p)) k = Some (ts, k') \<and> distinct ts \<and> set ts = ready_at k p"
proof -
  have st: "steady L idle k" using ok by (simp add: scheduler_ok_def)
  note sane = steadyD(1)[OF st] and p = top_ready_selected(2)[OF st top]
  note pL = known_lists(1)[OF sane p]
  let ?xs = "items (lists k) (ReadyTasksList p)"
  have lok: "lists_ok L (lists k)" using saneD(1)[OF sane] by (simp add: store_ok_def)
  have xs: "set ?xs = StateItem ` ready_at k p" "distinct ?xs" "?xs \<noteq> []"
    using ready_items[OF sane p] items_facts[OF lok pL] top by (auto simp: top_ready_def)
  have "card (set ?xs) = card (ready_at k p)" unfolding xs(1) by (simp add: card_image inj_on_def)
  then have len: "length ?xs = card (ready_at k p)" using distinct_card[OF xs(2)] by simp
  obtain j where j: "index_at (lists k) (ReadyTasksList p) j" using index_somewhere[OF lok pL xs(3)] by blast
  have own: "\<forall>i\<in>set ?xs. pvOwner (lists k) i = Some (item_task i)"
    using store_mem[OF saneD(1)[OF sane] pL] saneD(1)[OF sane] by (auto simp: store_ok_def)
  from serve_order[OF lok pL j own, of "length ?xs"] obtain s' where
    s': "serve (length ?xs) (ReadyTasksList p) (lists k) =
           Some (map (\<lambda>m. item_task (?xs ! ((Suc j + m) mod length ?xs))) [0..<length ?xs], s')" by blast
  have "map (\<lambda>m. item_task (?xs ! ((Suc j + m) mod length ?xs))) [0..<length ?xs] = map item_task (rotate (Suc j) ?xs)"
    unfolding full_turn[OF xs(3), symmetric] by simp
  with s' yields_serve[OF ok susp top, of "length ?xs"] obtain k' where
    "yields (length ?xs) k = Some (map item_task (rotate (Suc j) ?xs), k')" by auto
  moreover have "distinct (map item_task (rotate (Suc j) ?xs))"
    using xs(1,2) by (auto simp: distinct_map inj_on_def simp del: rotate_Suc)
  moreover have "set (map item_task (rotate (Suc j) ?xs)) = ready_at k p"
    using xs(1) by (simp add: image_image del: rotate_Suc)
  ultimately show ?thesis unfolding len by blast
qed

subsection \<open>Time-outs\<close>

text \<open>
  The time since reset as a number of ticks; the kernel keeps it modulo \<open>2\<^sup>32\<close> in \<open>xTickCount\<close> and
  counts the overflows.
\<close>

definition clock_reads :: "kernel \<Rightarrow> nat \<Rightarrow> bool" where
  "clock_reads k T \<longleftrightarrow> xTickCount k = of_nat T \<and> xNumOfOverflows k = of_nat (T div 2 ^ 32)"

lemma unat_clock: "unat (of_nat T :: 32 word) = T mod 2 ^ 32"
  by (simp add: unat_of_nat)

lemma elapsed_word:
  fixes a b :: "32 word"
  assumes "a = of_nat T0" "b = of_nat T" "T0 \<le> T" "T - T0 < 2 ^ 32"
  shows "unat (b - a) = T - T0"
proof -
  have "b - a = of_nat (T - T0)" using assms(1-3) by (simp add: of_nat_diff)
  then show ?thesis using assms(4) by (simp add: unat_of_nat)
qed

lemma clock_overflows:
  fixes N :: nat
  assumes "T0 \<le> T" "T - T0 < N" "T0 mod N \<le> T mod N"
  shows "T div N = T0 div N"
proof (rule antisym)
  show "T0 div N \<le> T div N" using assms(1) by (rule div_le_mono)
  show "T div N \<le> T0 div N"
  proof (rule ccontr)
    assume "\<not> T div N \<le> T0 div N"
    then have "Suc (T0 div N) * N \<le> T div N * N" by (intro mult_right_mono) simp_all
    then have le: "T0 div N * N + N \<le> T div N * N" by simp
    have "T div N * N + T mod N = T" "T0 div N * N + T0 mod N = T0" by (rule div_mult_mod_eq)+
    with le assms(3) have "T0 + N \<le> T" by linarith
    then show False using assms(2) by simp
  qed
qed

lemma wrapped_past:
  fixes N :: nat
  assumes "N \<le> T - T0" "T div N = Suc (T0 div N)"
  shows "T0 mod N \<le> T mod N"
proof (cases "N = 0")
  case False
  have "T div N * N = T0 div N * N + N" by (simp add: assms(2))
  moreover have "T div N * N + T mod N = T" "T0 div N * N + T0 mod N = T0" by (rule div_mult_mod_eq)+
  ultimately show ?thesis using assms(1) False by linarith
qed (use assms in simp)

lemma check_in_time:
  assumes to: "xTimeOnEntering to = of_nat T0" "xOverflowCount to = of_nat (T0 div 2 ^ 32)" and now: "clock_reads k T"
    and le: "T0 \<le> T" "T - T0 < 2 ^ 32"
  shows "xTaskCheckForTimeOut to w k =
     (if T - T0 < unat w then (False, \<lparr>xOverflowCount = xNumOfOverflows k, xTimeOnEntering = xTickCount k\<rparr>, w - of_nat (T - T0))
      else (True, to, 0))"
proof -
  have e: "xTickCount k - xTimeOnEntering to = of_nat (T - T0)" "unat (xTickCount k - xTimeOnEntering to) = T - T0"
    using now to(1) le elapsed_word[of "xTimeOnEntering to" T0 "xTickCount k" T] by (simp_all add: clock_reads_def of_nat_diff)
  have "\<not> (xNumOfOverflows k \<noteq> xOverflowCount to \<and> xTickCount k \<ge> xTimeOnEntering to)"
    using clock_overflows[OF le] now to by (auto simp: clock_reads_def word_le_nat_alt unat_clock)
  moreover have "(xTickCount k - xTimeOnEntering to < w) = (T - T0 < unat w)"
    by (simp add: word_less_nat_alt e(2))
  ultimately show ?thesis using e(1)
    by (auto simp: xTaskCheckForTimeOut_def vTaskInternalSetTimeOutState_def Let_def simp del: of_nat_diff)
qed

text \<open>With \<open>2\<^sup>32\<close> ticks or more the counter is past the noted value again, and only the count of its wraps tells.\<close>

lemma check_wrapped:
  assumes to: "xTimeOnEntering to = of_nat T0" "xOverflowCount to = of_nat (T0 div 2 ^ 32)" and now: "clock_reads k T"
    and le: "2 ^ 32 \<le> T - T0" "T div 2 ^ 32 \<le> T0 div 2 ^ 32 + 1"
  shows "xTaskCheckForTimeOut to w k = (True, to, 0)"
proof -
  have "(T0 + 2 ^ 32) div 2 ^ 32 \<le> T div 2 ^ 32" using le(1) by (intro div_le_mono) simp
  then have d: "T div 2 ^ 32 = Suc (T0 div 2 ^ 32)" using le(2) by simp
  have "T0 mod 2 ^ 32 \<le> T mod 2 ^ 32" using wrapped_past[OF le(1) d] .
  then have "xTickCount k \<ge> xTimeOnEntering to"
    using now to(1) by (simp add: clock_reads_def word_le_nat_alt unat_clock)
  moreover have "xNumOfOverflows k \<noteq> xOverflowCount to" using now to(2) d by (simp add: clock_reads_def)
  ultimately show ?thesis by (simp add: xTaskCheckForTimeOut_def Let_def)
qed

subsection \<open>A started system\<close>

definition demo_store :: task_lists where
  "demo_store = vListInitialise (EventList 0)
     \<lparr>xItemValue = (\<lambda>_. 0), pxNext = (\<lambda>_. Marker (EventList 0)), pxPrevious = (\<lambda>_. Marker (EventList 0)), pvOwner = (\<lambda>_. None),
      pxContainer = (\<lambda>_. None), uxNumberOfItems = (\<lambda>_. 0), pxIndex = (\<lambda>_. Marker (EventList 0))\<rparr>"

lemma demo_reset: "at_reset ({EventList 0} \<union> kernel_lists) [(9, 3), (10, 6), (11, 6)] 1 2 demo_store"
proof -
  have "lists_ok {} (s :: task_lists)" if "pxContainer s = (\<lambda>_. None)" for s using that by (simp add: lists_ok_def)
  then have "lists_ok {EventList 0} demo_store"
    unfolding demo_store_def by (intro list_initialise_ok(1)) simp_all
  then show ?thesis
    by (auto simp: at_reset_def configMAX_PRIORITIES_def demo_store_def vListInitialise_def intro!: exI[of _ "{EventList 0}"])
qed

text \<open>After the first tick one of the two most urgent tasks runs.\<close>

lemma demo_running:
  obtains k c where "kernel_reachable ({EventList 0} \<union> kernel_lists) 1 k" "uxSchedulerSuspended k = 0" "running k c" "c \<noteq> 1"
    "exists_task k 9" "{10, 11} \<subseteq> ready_at k 6" "top_ready k 6" "priority k 9 = 3" "priority k c = 6"
proof -
  let ?L = "{EventList 0} \<union> kernel_lists"
  from start_system_ok[OF demo_reset] obtain k0 where
    k0: "start_system [(9, 3), (10, 6), (11, 6)] 1 2 demo_store = Some k0" "scheduler_ok ?L 1 k0" "uxSchedulerSuspended k0 = 0"
      "priority k0 1 = 0" "is_ready k0 9" "is_ready k0 10" "is_ready k0 11" "priority k0 9 = 3" "priority k0 10 = 6" "priority k0 11 = 6"
    by auto
  from tick_settles[OF k0(2,3)] obtain k c where
    k: "FreeRTOS_Tick_Handler k0 = Some k" "ticked k0 k" "running k c" "most_urgent k c" by blast
  have reach: "kernel_reachable ?L 1 k"
    by (rule called[OF started[OF demo_reset k0(1)], where c = Tick]) (simp_all add: k(1))
  have r: "is_ready k 9" "is_ready k 10" "is_ready k 11" "priority k 9 = 3" "priority k 10 = 6" "priority k 11 = 6" "priority k 1 = 0"
    "uxSchedulerSuspended k = 0"
    using k(2) k0 by (simp_all add: ticked_def)
  have sane: "sane ?L k" using reachable_ok[OF reach] by (simp add: scheduler_ok_def steady_def)
  have small: "priority k t \<le> 6" if "is_ready k t" for t
    using ready_home(3)[OF sane that[unfolded is_ready_def]] by (simp add: configMAX_PRIORITIES_def)
  have c: "priority k c = 6" using k(3,4) r(2,5) small[of c] by (force simp: running_def most_urgent_def)
  have "c \<noteq> 1" using c r(7) by auto
  moreover have "exists_task k 9" using r(1) by (simp add: exists_task_def is_ready_def)
  moreover have "{10, 11} \<subseteq> ready_at k 6" "top_ready k 6" using r small by (auto simp: ready_at_def top_ready_def)
  ultimately show ?thesis using that reach r(4,8) k(3) c by blast
qed

subsection \<open>Properties\<close>

text \<open>
  C18. From reset on, whatever of the calls of \<open>kcall\<close> are made by the rules of \<open>may_call\<close> and wherever ticks fall: there is a running task, it
  is ready whenever the scheduler is not suspended, and unless a switch is pending no ready task has a
  higher priority. A switch that is pending happens at the next tick at the latest. The calls include gives of mutexes on which tasks wait, with
  the exception stated at \<open>gives_way\<close>: a give that ends an inheritance while the first waiting task is not more urgent than the
  caller's own priority, where the kernel does not yield.
\<close>

theorem most_urgent_task_runs:
  assumes "kernel_reachable L idle k"
  shows "\<exists>c. pxCurrentTCB k = Some c \<and> (uxSchedulerSuspended k = 0 \<longrightarrow> is_ready k c) \<and>
      (\<not> xYieldPending k \<longrightarrow> (\<forall>t. is_ready k t \<longrightarrow> priority k t \<le> priority k c)) \<and>
      (uxSchedulerSuspended k = 0 \<longrightarrow>
         (\<exists>k' c'. FreeRTOS_Tick_Handler k = Some k' \<and> running k' c' \<and> (\<forall>t. is_ready k' t \<longrightarrow> priority k' t \<le> priority k' c')))"
proof -
  note ok = reachable_ok[OF assms]
  have "\<exists>k' c'. FreeRTOS_Tick_Handler k = Some k' \<and> running k' c' \<and> (\<forall>t. is_ready k' t \<longrightarrow> priority k' t \<le> priority k' c')"
    if "uxSchedulerSuspended k = 0" using tick_settles[OF ok that] unfolding most_urgent_def by blast
  moreover obtain c where "pxCurrentTCB k = Some c" "xYieldPending k \<or> most_urgent k c" "uxSchedulerSuspended k = 0 \<longrightarrow> is_ready k c"
    using ok by (auto simp: scheduler_ok_def urgent_runs_def)
  ultimately show ?thesis by (auto simp: most_urgent_def)
qed

theorem most_urgent_task_runs_witness:
  "\<exists>k c. kernel_reachable ({EventList 0} \<union> kernel_lists) 1 k \<and> pxCurrentTCB k = Some c \<and> is_ready k c \<and>
     (\<exists>k' c'. FreeRTOS_Tick_Handler k = Some k' \<and> running k' c' \<and> (\<forall>t. is_ready k' t \<longrightarrow> priority k' t \<le> priority k' c'))"
proof -
  obtain k c where k: "kernel_reachable ({EventList 0} \<union> kernel_lists) 1 k" "uxSchedulerSuspended k = 0" by (rule demo_running)
  from most_urgent_task_runs[OF k(1)] k show ?thesis by blast
qed

text \<open>
  C19. No legal call stops the processor: no \<open>configASSERT\<close> fails, no pointer is \<open>NULL\<close> and no loop
  over a list runs for ever, in any state that can be reached from reset.
\<close>

theorem kernel_calls_return:
  assumes "kernel_reachable L idle k" "may_call L idle c k"
  shows "\<exists>k'. do_call c k = Some k' \<and> kernel_reachable L idle k'"
  using call_ok[OF reachable_ok[OF assms(1)] assms(2)] called[OF assms] by blast

theorem kernel_calls_return_witness:
  "\<exists>k k' k''. kernel_reachable ({EventList 0} \<union> kernel_lists) 1 k \<and> do_call (Delay 5) k = Some k' \<and> do_call (Notify 9 7 eSetBits) k = Some k''"
proof -
  obtain k c where k: "kernel_reachable ({EventList 0} \<union> kernel_lists) 1 k" "uxSchedulerSuspended k = 0" "running k c" "c \<noteq> 1" "exists_task k 9"
    by (rule demo_running)
  then have "may_call ({EventList 0} \<union> kernel_lists) 1 (Delay 5) k" "may_call ({EventList 0} \<union> kernel_lists) 1 (Notify 9 7 eSetBits) k"
    by (simp_all add: may_block_def running_def)
  from kernel_calls_return[OF k(1) this(1)] kernel_calls_return[OF k(1) this(2)] k(1) show ?thesis by blast
qed

text \<open>
  C20. \<open>vTaskDelay\<close> of \<open>n\<close> ticks blocks the caller for the next \<open>n - 1\<close> ticks and makes it ready at the
  \<open>n\<close>-th, for every value of the tick counter, also when it wraps in between.
\<close>

theorem delay_is_exact:
  assumes "kernel_reachable L idle k" "uxSchedulerSuspended k = 0" "running k c" "c \<noteq> idle" "n > 0"
  shows "\<exists>k1. vTaskDelay n k = Some k1 \<and> (\<forall>m \<le> unat n. \<exists>k2. ticks m k1 = Some k2 \<and> (is_ready k2 c \<longleftrightarrow> m = unat n))"
proof -
  have c: "pxCurrentTCB k = Some c" using assms(3) by (simp add: running_def)
  obtain k1 where
    k1: "vTaskDelay n k = Some k1" "scheduler_ok L idle k1" "is_blocked k1 c" "remaining k1 c = unat n" "uxSchedulerSuspended k1 = 0"
      "tcbs k1 = tcbs k" "\<forall>u. is_ready k1 u \<longleftrightarrow> is_ready k u \<and> u \<noteq> c" "home k1 (EventItem c) = None"
    by (rule delay_ok[OF reachable_ok[OF assms(1)] assms(2) c assms(4,5)])
  have pos: "0 < remaining k1 c" using k1(4) assms(5) by (simp add: word_less_nat_alt)
  have "\<exists>k2. ticks m k1 = Some k2 \<and> (is_ready k2 c \<longleftrightarrow> m = unat n)" if "m \<le> unat n" for m
    using ticks_blocked[OF k1(2,5,3) pos, of m] that k1(4) blocked_not_ready by (auto split: if_splits)
  with k1(1) show ?thesis by blast
qed

theorem delay_is_exact_witness:
  "\<exists>k c k1 k2. running k c \<and> vTaskDelay 3 k = Some k1 \<and> ticks 2 k1 = Some k2 \<and> \<not> is_ready k2 c \<and>
     (\<exists>k3. ticks 3 k1 = Some k3 \<and> is_ready k3 c)"
proof -
  obtain k c where k: "kernel_reachable ({EventList 0} \<union> kernel_lists) 1 k" "uxSchedulerSuspended k = 0" "running k c" "c \<noteq> 1"
    by (rule demo_running)
  from delay_is_exact[OF k, of 3] obtain k1 where
    k1: "vTaskDelay 3 k = Some k1" "\<forall>m \<le> 3. \<exists>k2. ticks m k1 = Some k2 \<and> (is_ready k2 c \<longleftrightarrow> m = 3)" by auto
  have two: "(2 :: nat) \<le> 3" by simp
  from k1(2)[rule_format, OF two] obtain k2 where k2: "ticks 2 k1 = Some k2" "\<not> is_ready k2 c" by auto
  from k1(2)[rule_format, OF order_refl] k2 k1(1) k(3) show ?thesis by blast
qed

text \<open>
  C21. Ready tasks of the highest priority take turns: if each yields in turn, every one of them
  runs exactly once before any runs again.
\<close>

theorem equal_priorities_take_turns:
  assumes "kernel_reachable L idle k" "uxSchedulerSuspended k = 0" "top_ready k p"
  shows "\<exists>ts k'. yields (card (ready_at k p)) k = Some (ts, k') \<and> distinct ts \<and> set ts = ready_at k p"
  by (rule turns_ok[OF reachable_ok[OF assms(1)] assms(2,3)])

theorem equal_priorities_take_turns_witness:
  "\<exists>k ts k'. yields (card (ready_at k 6)) k = Some (ts, k') \<and> distinct ts \<and> {10, 11} \<subseteq> set ts"
proof -
  obtain k c where k: "kernel_reachable ({EventList 0} \<union> kernel_lists) 1 k" "uxSchedulerSuspended k = 0" "{10, 11} \<subseteq> ready_at k 6" "top_ready k 6"
    by (rule demo_running)
  from equal_priorities_take_turns[OF k(1,2,4)] k(3) show ?thesis by metis
qed

text \<open>
  C22. The holder of a mutex that the running task asks for takes over its priority if that is
  higher; a task that gives back its last mutex is back at its base priority.
\<close>

theorem mutex_holder_inherits:
  assumes "kernel_reachable L idle k" "running k c"
  shows "(exists_task k h \<longrightarrow> (\<exists>y k'. xTaskPriorityInherit (Some h) k = Some (y, k') \<and> scheduler_ok L idle k' \<and>
            priority k' h = max (priority k h) (priority k c))) \<and>
         (uxMutexesHeld (tcbs k c) = 1 \<longrightarrow> (\<exists>y k'. xTaskPriorityDisinherit (Some c) k = Some (y, k') \<and>
            priority k' c = uxBasePriority (tcbs k c)))"
proof (intro conjI impI)
  note ok = reachable_ok[OF assms(1)]
  have c: "pxCurrentTCB k = Some c" "is_ready k c" using assms(2) by (simp_all add: running_def)
  assume h: "exists_task k h"
  obtain y k' where k': "xTaskPriorityInherit (Some h) k = Some (y, k')" "scheduler_ok L idle k'"
    "\<And>c. pxCurrentTCB k = Some c \<Longrightarrow> priority k' h = max (priority k h) (priority k c)"
    by (rule inherit_ok[OF ok h]) (use c in \<open>auto simp: exists_task_def is_ready_def\<close>)
  then show "\<exists>y k'. xTaskPriorityInherit (Some h) k = Some (y, k') \<and> scheduler_ok L idle k' \<and>
      priority k' h = max (priority k h) (priority k c)" using c(1) by blast
next
  note ok = reachable_ok[OF assms(1)]
  have c: "pxCurrentTCB k = Some c" "is_ready k c" using assms(2) by (simp_all add: running_def)
  assume m: "uxMutexesHeld (tcbs k c) = 1"
  then have "uxMutexesHeld (tcbs k c) \<noteq> 0" by simp
  from disinherit_ok[OF ok c this] m
  show "\<exists>y k'. xTaskPriorityDisinherit (Some c) k = Some (y, k') \<and> priority k' c = uxBasePriority (tcbs k c)" by metis
qed

theorem mutex_holder_inherits_witness:
  "\<exists>k c y k'. running k c \<and> priority k 9 = 3 \<and> xTaskPriorityInherit (Some 9) k = Some (y, k') \<and> priority k' 9 = 6"
proof -
  obtain k c where k: "kernel_reachable ({EventList 0} \<union> kernel_lists) 1 k" "running k c" "exists_task k 9" "priority k 9 = 3" "priority k c = 6"
    by (rule demo_running)
  from mutex_holder_inherits[OF k(1,2), of 9] k show ?thesis by auto
qed

text \<open>
  C23. \<open>xTaskCheckForTimeOut\<close> reports a time-out exactly when at least the given number of ticks has
  passed since the time was noted, although both times are kept modulo \<open>2\<^sup>32\<close>; otherwise it returns the ticks that are
  left, and the state to check them with. The bound is that the tick counter has wrapped at most once in
  between, so up to \<open>2\<^sup>33 - 1\<close> ticks may have passed; for \<open>2\<^sup>32\<close> ticks and more it is the count of wraps that decides.
\<close>

theorem time_out_exact:
  assumes "clock_reads k0 T0" "clock_reads k T" "T0 \<le> T" "T div 2 ^ 32 \<le> T0 div 2 ^ 32 + 1"
  shows "xTaskCheckForTimeOut (vTaskSetTimeOutState k0) w k =
     (if T - T0 < unat w then (False, vTaskSetTimeOutState k, w - of_nat (T - T0)) else (True, vTaskSetTimeOutState k0, 0))"
proof -
  have to: "xTimeOnEntering (vTaskSetTimeOutState k0) = of_nat T0" "xOverflowCount (vTaskSetTimeOutState k0) = of_nat (T0 div 2 ^ 32)"
    using assms(1) by (simp_all add: vTaskSetTimeOutState_def clock_reads_def)
  show ?thesis
  proof (cases "T - T0 < 2 ^ 32")
    case True
    from check_in_time[OF to assms(2,3) this, of w] show ?thesis by (simp only: vTaskSetTimeOutState_def)
  next
    case False
    then have "\<not> T - T0 < unat w" using unsigned_less[of w, where 'a = nat] by simp
    with check_wrapped[OF to assms(2) _ assms(4), of w] False show ?thesis by simp
  qed
qed

theorem time_out_exact_witness:
  "xTaskCheckForTimeOut (vTaskSetTimeOutState (boot demo_store\<lparr>xTickCount := 0xFFFFFFFE\<rparr>)) 5
      (boot demo_store\<lparr>xTickCount := 1, xNumOfOverflows := 1\<rparr>) =
     (False, vTaskSetTimeOutState (boot demo_store\<lparr>xTickCount := 1, xNumOfOverflows := 1\<rparr>), 2) \<and>
   xTaskCheckForTimeOut (vTaskSetTimeOutState (boot demo_store\<lparr>xTickCount := 7\<rparr>)) 5
      (boot demo_store\<lparr>xTickCount := 9, xNumOfOverflows := 1\<rparr>) =
     (True, vTaskSetTimeOutState (boot demo_store\<lparr>xTickCount := 7\<rparr>), 0)"
  using time_out_exact[of "boot demo_store\<lparr>xTickCount := 0xFFFFFFFE\<rparr>" 4294967294
      "boot demo_store\<lparr>xTickCount := 1, xNumOfOverflows := 1\<rparr>" 4294967297 5]
    time_out_exact[of "boot demo_store\<lparr>xTickCount := 7\<rparr>" 7
      "boot demo_store\<lparr>xTickCount := 9, xNumOfOverflows := 1\<rparr>" 4294967305 5]
  by (simp add: clock_reads_def boot_def)

end
